(* ===== verification/Prelude.thy ===== *)
theory Prelude
  imports Main "HOL-Library.Word"
begin

text \<open>
  Shared vocabulary of the development: machine integers, return constants, byte-addressed
  memory with 32-bit little-endian accesses, and the resumption type in which kernel calls
  that may switch context are written.
\<close>

unbundle bit_operations_syntax

section \<open>Integers and constants\<close>

type_synonym u8 = "8 word"
type_synonym u16 = "16 word"
type_synonym u32 = "32 word"

text \<open>Return codes of \<^verbatim>\<open>include/kernel.h\<close>; a C pointer return of \<open>SYSERR\<close> is the word \<open>-1\<close>.\<close>

abbreviation (input) OK :: int where "OK \<equiv> 1"
abbreviation (input) SYSERR :: int where "SYSERR \<equiv> - 1"
abbreviation (input) EOF :: int where "EOF \<equiv> - 2"
abbreviation (input) TIMEOUT :: int where "TIMEOUT \<equiv> - 3"
abbreviation (input) PSYSERR :: u32 where "PSYSERR \<equiv> - 1"

text \<open>
  Signed C integers are \<open>int\<close> values; every store that can leave the range goes through the
  conversion of its width, which is two's complement wrap-around.
\<close>

definition i32 :: "int \<Rightarrow> int" where
  "i32 x = (x + 2 ^ 31) mod 2 ^ 32 - 2 ^ 31"

definition i16 :: "int \<Rightarrow> int" where
  "i16 x = (x + 2 ^ 15) mod 2 ^ 16 - 2 ^ 15"

abbreviation (input) INT32_MAX :: int where "INT32_MAX \<equiv> 2147483647"
abbreviation (input) INT32_MIN :: int where "INT32_MIN \<equiv> - 2147483648"

lemma i32_id [simp]: "INT32_MIN \<le> x \<Longrightarrow> x \<le> INT32_MAX \<Longrightarrow> i32 x = x"
  by (simp add: i32_def)

lemma i32_range: "INT32_MIN \<le> i32 x \<and> i32 x \<le> INT32_MAX"
proof -
  have "0 \<le> (x + 2 ^ 31) mod 2 ^ 32" and "(x + 2 ^ 31) mod 2 ^ 32 < 2 ^ 32"
    by simp_all
  then show ?thesis by (simp add: i32_def)
qed

lemma i16_range: "- 32768 \<le> i16 x \<and> i16 x \<le> 32767"
proof -
  have "0 \<le> (x + 2 ^ 15) mod 2 ^ 16" and "(x + 2 ^ 15) mod 2 ^ 16 < 2 ^ 16"
    by simp_all
  then show ?thesis by (simp add: i16_def)
qed

lemma i16_id [simp]: "- 32768 \<le> x \<Longrightarrow> x \<le> 32767 \<Longrightarrow> i16 x = x"
  by (simp add: i16_def)

lemma i32_int_max_succ: "i32 (INT32_MAX + 1) = INT32_MIN"
  by (simp add: i32_def)

section \<open>Byte-addressed memory\<close>

type_synonym memory = "u32 \<Rightarrow> u8"

definition rd32 :: "memory \<Rightarrow> u32 \<Rightarrow> u32" where
  "rd32 m a = ucast (m a) OR push_bit 8 (ucast (m (a + 1)))
     OR push_bit 16 (ucast (m (a + 2))) OR push_bit 24 (ucast (m (a + 3)))"

definition wr32 :: "memory \<Rightarrow> u32 \<Rightarrow> u32 \<Rightarrow> memory" where
  "wr32 m a v = m(a := ucast v, a + 1 := ucast (drop_bit 8 v),
     a + 2 := ucast (drop_bit 16 v), a + 3 := ucast (drop_bit 24 v))"

lemma rd32_wr32_same [simp]: "rd32 (wr32 m a v) a = v"
proof (rule bit_eqI)
  fix n :: nat
  assume "possible_bit TYPE(32 word) n"
  then have "n < 32" by (simp add: possible_bit_def)
  then consider "n < 8" | "8 \<le> n \<and> n < 16" | "16 \<le> n \<and> n < 24" | "24 \<le> n \<and> n < 32"
    by linarith
  then show "bit (rd32 (wr32 m a v) a) n = bit v n"
    by cases (auto simp: rd32_def wr32_def bit_simps)
qed

text \<open>Two 32-bit accesses at different 4-aligned addresses never overlap.\<close>

lemma unat_u32_lt [simp]: "unat (a :: u32) < 4294967296"
  using unsigned_less [of a] by simp

lemma mod4_add_lt: "(x :: nat) < 4294967296 \<Longrightarrow> x mod 4 = 0 \<Longrightarrow> i < 4 \<Longrightarrow> x + i < 4294967296"
  by presburger

definition al4 :: "u32 \<Rightarrow> bool" where
  "al4 a \<longleftrightarrow> unat a mod 4 = 0"

lemma al4_add_cancel:
  assumes "al4 a" "al4 b" "i < 4" "j < 4" "a + of_nat i = b + of_nat j"
  shows "a = b"
proof -
  have lt: "unat a + i < 2 ^ 32" "unat b + j < 2 ^ 32"
    using assms(1-4) mod4_add_lt [of "unat a" i] mod4_add_lt [of "unat b" j] by (simp_all add: al4_def)
  then have i: "unat (a + of_nat i) = unat a + i"
    by (simp add: unat_word_ariths unat_of_nat)
  from lt have j: "unat (b + of_nat j) = unat b + j"
    by (simp add: unat_word_ariths unat_of_nat)
  from i j assms(5) have "unat a + i = unat b + j" by simp
  with assms(1-4) have "unat a = unat b" by (auto simp: al4_def) presburger
  then show ?thesis by (simp add: word_unat_eq_iff)
qed

lemma al4_disjoint:
  assumes "al4 a" "al4 b" "a \<noteq> b"
  shows "b \<noteq> a + 1" "b \<noteq> a + 2" "b \<noteq> a + 3" "b + 1 \<noteq> a" "b + 2 \<noteq> a" "b + 3 \<noteq> a"
    "b + 1 \<noteq> a + 1" "b + 1 \<noteq> a + 2" "b + 1 \<noteq> a + 3" "b + 2 \<noteq> a + 1" "b + 2 \<noteq> a + 2"
    "b + 2 \<noteq> a + 3" "b + 3 \<noteq> a + 1" "b + 3 \<noteq> a + 2" "b + 3 \<noteq> a + 3"
  using al4_add_cancel [OF assms(1,2), of 0 1] al4_add_cancel [OF assms(1,2), of 0 2]
    al4_add_cancel [OF assms(1,2), of 0 3] al4_add_cancel [OF assms(1,2), of 1 0]
    al4_add_cancel [OF assms(1,2), of 2 0] al4_add_cancel [OF assms(1,2), of 3 0]
    al4_add_cancel [OF assms(1,2), of 1 1] al4_add_cancel [OF assms(1,2), of 2 1]
    al4_add_cancel [OF assms(1,2), of 3 1] al4_add_cancel [OF assms(1,2), of 1 2]
    al4_add_cancel [OF assms(1,2), of 2 2] al4_add_cancel [OF assms(1,2), of 3 2]
    al4_add_cancel [OF assms(1,2), of 1 3] al4_add_cancel [OF assms(1,2), of 2 3]
    al4_add_cancel [OF assms(1,2), of 3 3] assms(3)
  by auto

lemma rd32_wr32_other [simp]:
  "al4 a \<Longrightarrow> al4 b \<Longrightarrow> a \<noteq> b \<Longrightarrow> rd32 (wr32 m a v) b = rd32 m b"
  using al4_disjoint [of a b] by (simp add: rd32_def wr32_def)

section \<open>Kernel calls as resumptions\<close>

text \<open>
  A kernel call runs with interrupts disabled, so nothing else runs until it returns or
  \<^verbatim>\<open>resched\<close> calls \<^verbatim>\<open>ctxsw\<close>. \<open>Ctxsw s k\<close> is that point: the kernel is
  in state \<open>s\<close>, another process is current, and \<open>k\<close> is the rest of the caller's call, to be
  applied to whatever kernel state is there when the caller is dispatched again. \<open>Stop\<close> is a
  call that never returns: the processor halted, a panic, a loop that does not end, a corrupt heap or disk,
  or an operation that C leaves undefined (a signed counter incremented past its largest value).
\<close>

datatype stop_reason = Halted | Panicked string | Looping | BadHeap | BadDisk | Undefined

datatype (dead 's, 'a) kprog =
    Ret 's 'a
  | Ctxsw 's "'s \<Rightarrow> ('s, 'a) kprog"
  | Stop stop_reason 's

primrec kbind :: "('s, 'a) kprog \<Rightarrow> ('s \<Rightarrow> 'a \<Rightarrow> ('s, 'b) kprog) \<Rightarrow> ('s, 'b) kprog" where
  "kbind (Ret s a) f = f s a"
| "kbind (Ctxsw s k) f = Ctxsw s (\<lambda>s'. kbind (k s') f)"
| "kbind (Stop r s) f = Stop r s"

lemma kbind_assoc: "kbind (kbind c f) g = kbind c (\<lambda>s a. kbind (f s a) g)"
  by (induction c) auto

lemma kbind_Ret [simp]: "kbind c Ret = c"
  by (induction c) auto

end
