(* ===== verification/Cstring.thy ===== *)
theory Cstring
  imports Prelude "HOL-Library.Sublist" "HOL-Library.List_Lexorder"
begin

text \<open>
  The string and memory routines of \<^verbatim>\<open>lib/\<close>: \<^verbatim>\<open>strlen.c\<close>, \<^verbatim>\<open>strnlen.c\<close>,
  \<^verbatim>\<open>strcmp.c\<close>, \<^verbatim>\<open>strncmp.c\<close>, \<^verbatim>\<open>strcpy.c\<close>, \<^verbatim>\<open>strncpy.c\<close>,
  \<^verbatim>\<open>strncat.c\<close>, \<^verbatim>\<open>strchr.c\<close>, \<^verbatim>\<open>strrchr.c\<close>, \<^verbatim>\<open>strstr.c\<close>,
  \<^verbatim>\<open>memcmp.c\<close>, \<^verbatim>\<open>memcpy.c\<close>, \<^verbatim>\<open>memset.c\<close> and
  \<^verbatim>\<open>bzero.c\<close>, over byte memory. A pointer is a 32-bit address; \<^verbatim>\<open>char\<close> is signed
  on this machine, so a comparison of characters reads a byte with \<open>sint\<close>. A loop that runs until
  it meets a null byte is \<open>None\<close> when there is none. The specification is over lists of bytes:
  \<open>cstr m a xs\<close> says that the string at \<open>a\<close> is \<open>xs\<close>.
\<close>

section \<open>The routines\<close>

partial_function (option) strlen_loop :: "memory \<Rightarrow> u32 \<Rightarrow> int \<Rightarrow> int option" where
  "strlen_loop m str len = (if m str \<noteq> 0 then strlen_loop m (str + 1) (len + 1) else Some len)"

definition strlen :: "memory \<Rightarrow> u32 \<Rightarrow> int option" where
  "strlen m str = strlen_loop m str 0"

function strnlen_loop :: "memory \<Rightarrow> u32 \<Rightarrow> int \<Rightarrow> int \<Rightarrow> int" where
  "strnlen_loop m s n len = (if m s \<noteq> 0 \<and> n < len then strnlen_loop m (s + 1) (n + 1) len else n)"
  by pat_completeness auto
termination by (relation "measure (\<lambda>(m, s, n, len). nat (len - n))") auto

definition strnlen :: "memory \<Rightarrow> u32 \<Rightarrow> int \<Rightarrow> int" where
  "strnlen m s len = strnlen_loop m s 0 len"

partial_function (option) strcmp :: "memory \<Rightarrow> u32 \<Rightarrow> u32 \<Rightarrow> int option" where
  "strcmp m str1 str2 =
     (if m str1 = m str2 then (if m str1 = 0 then Some 0 else strcmp m (str1 + 1) (str2 + 1))
      else if sint (m str1) < sint (m str2) then Some (- 1) else Some 1)"

text \<open>In \<^verbatim>\<open>strncmp\<close> the two pointers step back to the bytes that differ.\<close>

function strncmp :: "memory \<Rightarrow> u32 \<Rightarrow> u32 \<Rightarrow> int \<Rightarrow> int" where
  "strncmp m s1 s2 n =
     (let n' = n - 1 in
      if n' \<ge> 0 \<and> m s1 = m s2 then (if m s1 = 0 then 0 else strncmp m (s1 + 1) (s2 + 1) n')
      else if n' < 0 then 0 else sint (m s1) - sint (m s2))"
  by pat_completeness auto
termination by (relation "measure (\<lambda>(m, s1, s2, n). nat n)") auto

partial_function (option) strcpy :: "memory \<Rightarrow> u32 \<Rightarrow> u32 \<Rightarrow> memory option" where
  "strcpy m tar src =
     (let c = m src; m1 = m(tar := c) in
      if c \<noteq> 0 then strcpy m1 (tar + 1) (src + 1) else Some m1)"

primrec fill :: "nat \<Rightarrow> u8 \<Rightarrow> memory \<Rightarrow> u32 \<Rightarrow> memory" where
  "fill 0 c m s = m"
| "fill (Suc k) c m s = fill k c (m(s := c)) (s + 1)"

primrec strncpy_loop :: "nat \<Rightarrow> memory \<Rightarrow> u32 \<Rightarrow> u32 \<Rightarrow> memory" where
  "strncpy_loop 0 m s1 s2 = m"
| "strncpy_loop (Suc k) m s1 s2 =
     (let c = m s2; m1 = m(s1 := c) in
      if c = 0 then fill k 0 m1 (s1 + 1) else strncpy_loop k m1 (s1 + 1) (s2 + 1))"

definition strncpy :: "memory \<Rightarrow> u32 \<Rightarrow> u32 \<Rightarrow> int \<Rightarrow> memory \<times> u32" where
  "strncpy m s1 s2 n = (strncpy_loop (nat n) m s1 s2, s1)"

partial_function (option) strend :: "memory \<Rightarrow> u32 \<Rightarrow> u32 option" where
  "strend m s = (if m s \<noteq> 0 then strend m (s + 1) else Some s)"

partial_function (option) strncat_loop :: "memory \<Rightarrow> u32 \<Rightarrow> u32 \<Rightarrow> int \<Rightarrow> memory option" where
  "strncat_loop m s1 s2 n =
     (let c = m s2; m1 = m(s1 := c) in
      if c \<noteq> 0 then
        (let n' = n - 1 in
         if n' < 0 then Some (m1(s1 := 0)) else strncat_loop m1 (s1 + 1) (s2 + 1) n')
      else Some m1)"

definition strncat :: "memory \<Rightarrow> u32 \<Rightarrow> u32 \<Rightarrow> int \<Rightarrow> (memory \<times> u32) option" where
  "strncat m s1 s2 n =
     (case strend m s1 of None \<Rightarrow> None
      | Some e \<Rightarrow> (case strncat_loop m e s2 n of None \<Rightarrow> None | Some m' \<Rightarrow> Some (m', s1)))"

text \<open>The result 0 of the searches is the null pointer.\<close>

partial_function (option) strchr :: "memory \<Rightarrow> u32 \<Rightarrow> u8 \<Rightarrow> u32 option" where
  "strchr m s c =
     (if m s \<noteq> 0 then (if m s = c then Some s else strchr m (s + 1) c)
      else if c = m s then Some s else Some 0)"

partial_function (option) strrchr_loop :: "memory \<Rightarrow> u32 \<Rightarrow> u8 \<Rightarrow> u32 \<Rightarrow> u32 option" where
  "strrchr_loop m s c r =
     (if m s \<noteq> 0 then strrchr_loop m (s + 1) c (if m s = c then s else r)
      else if c = m s then Some s else Some r)"

definition strrchr :: "memory \<Rightarrow> u32 \<Rightarrow> u8 \<Rightarrow> u32 option" where
  "strrchr m s c = strrchr_loop m s c 0"

text \<open>The inner loop of \<^verbatim>\<open>strstr\<close> yields where \<^verbatim>\<open>cr\<close> stopped.\<close>

partial_function (option) strstr_match :: "memory \<Rightarrow> u32 \<Rightarrow> u32 \<Rightarrow> u32 option" where
  "strstr_match m cq cr =
     (if m cq \<noteq> 0 \<and> m cr \<noteq> 0 then (if m cq \<noteq> m cr then Some cr else strstr_match m (cq + 1) (cr + 1))
      else Some cr)"

partial_function (option) strstr :: "memory \<Rightarrow> u32 \<Rightarrow> u32 \<Rightarrow> u32 option" where
  "strstr m cs ct =
     (if m cs \<noteq> 0 then
        (if m cs = m ct then
           (case strstr_match m cs ct of None \<Rightarrow> None
            | Some cr \<Rightarrow> if m cr = 0 then Some cs else strstr m (cs + 1) ct)
         else strstr m (cs + 1) ct)
      else Some 0)"

primrec memcmp_loop :: "nat \<Rightarrow> memory \<Rightarrow> u32 \<Rightarrow> u32 \<Rightarrow> int" where
  "memcmp_loop 0 m c1 c2 = 0"
| "memcmp_loop (Suc k) m c1 c2 =
     (if m c1 \<noteq> m c2 then uint (m c1) - uint (m c2) else memcmp_loop k m (c1 + 1) (c2 + 1))"

definition memcmp :: "memory \<Rightarrow> u32 \<Rightarrow> u32 \<Rightarrow> int \<Rightarrow> int" where
  "memcmp m s1 s2 n = memcmp_loop (nat n) m s1 s2"

primrec memcpy_loop :: "nat \<Rightarrow> memory \<Rightarrow> u32 \<Rightarrow> u32 \<Rightarrow> memory" where
  "memcpy_loop 0 m dst src = m"
| "memcpy_loop (Suc k) m dst src = memcpy_loop k (m(dst := m src)) (dst + 1) (src + 1)"

definition memcpy :: "memory \<Rightarrow> u32 \<Rightarrow> u32 \<Rightarrow> int \<Rightarrow> memory \<times> u32" where
  "memcpy m s ct n = (memcpy_loop (nat n) m s ct, s)"

definition memset :: "memory \<Rightarrow> u32 \<Rightarrow> int \<Rightarrow> int \<Rightarrow> memory \<times> u32" where
  "memset m s c n = (fill (nat n) (word_of_int c) m s, s)"

text \<open>\<^verbatim>\<open>bzero\<close> is a \<^verbatim>\<open>do\<close> loop that ends when the counter reaches zero.\<close>

partial_function (option) bzero_loop :: "memory \<Rightarrow> u32 \<Rightarrow> int \<Rightarrow> memory option" where
  "bzero_loop m p n =
     (let m1 = m(p := 0) in if n - 1 \<noteq> 0 then bzero_loop m1 (p + 1) (n - 1) else Some m1)"

definition bzero :: "memory \<Rightarrow> u32 \<Rightarrow> int \<Rightarrow> memory option" where
  "bzero m p len = (if len \<le> 0 then Some m else bzero_loop m p len)"

section \<open>Strings in memory\<close>

fun cstr :: "memory \<Rightarrow> u32 \<Rightarrow> u8 list \<Rightarrow> bool" where
  "cstr m a [] \<longleftrightarrow> m a = 0"
| "cstr m a (x # xs) \<longleftrightarrow> m a = x \<and> x \<noteq> 0 \<and> cstr m (a + 1) xs"

primrec put :: "memory \<Rightarrow> u32 \<Rightarrow> u8 list \<Rightarrow> memory" where
  "put m a [] = m"
| "put m a (x # xs) = put (m(a := x)) (a + 1) xs"

definition bytes_at :: "memory \<Rightarrow> u32 \<Rightarrow> nat \<Rightarrow> u8 list" where
  "bytes_at m a n = map (\<lambda>i. m (a + of_nat i)) [0..<n]"

text \<open>The \<open>n\<close> bytes from \<open>a\<close> and the \<open>k\<close> bytes from \<open>b\<close> have no byte in common.\<close>

definition disj :: "u32 \<Rightarrow> nat \<Rightarrow> u32 \<Rightarrow> nat \<Rightarrow> bool" where
  "disj a n b k \<longleftrightarrow> (\<forall>i<n. \<forall>j<k. a + of_nat i \<noteq> b + of_nat j)"

lemma disj_sym: "disj a n b k \<Longrightarrow> disj b k a n"
  unfolding disj_def by metis

lemma disj_0 [simp]: "disj a 0 b k" "disj a n b 0"
  by (simp_all add: disj_def)

lemma disjD: "disj a n b k \<Longrightarrow> i < n \<Longrightarrow> j < k \<Longrightarrow> a + of_nat i \<noteq> b + of_nat j"
  by (simp add: disj_def)

lemma disj_mono: "disj a n b k \<Longrightarrow> n' \<le> n \<Longrightarrow> k' \<le> k \<Longrightarrow> disj a n' b k'"
  unfolding disj_def using order_less_le_trans by blast

lemma disj_Suc:
  assumes "disj a (Suc n) b (Suc k)"
  shows "a \<noteq> b" "disj (a + 1) n (b + 1) k" "j \<le> k \<Longrightarrow> a \<noteq> b + of_nat j" "i \<le> n \<Longrightarrow> a + of_nat i \<noteq> b"
proof -
  show "a \<noteq> b" using disjD [OF assms, of 0 0] by simp
  show "disj (a + 1) n (b + 1) k"
    unfolding disj_def using disjD [OF assms, of "Suc _" "Suc _"] by (simp add: add.assoc)
  show "j \<le> k \<Longrightarrow> a \<noteq> b + of_nat j" using disjD [OF assms, of 0 j] by simp
  show "i \<le> n \<Longrightarrow> a + of_nat i \<noteq> b" using disjD [OF assms, of i 0] by simp
qed

lemma disj_shift:
  assumes "disj a n b k" "i + n' \<le> n" "j + k' \<le> k"
  shows "disj (a + of_nat i) n' (b + of_nat j) k'"
proof -
  have "a + of_nat i + of_nat i' \<noteq> b + of_nat j + of_nat j'" if "i' < n'" "j' < k'" for i' j'
    using disjD [OF assms(1), of "i + i'" "j + j'"] assms(2,3) that by (simp add: add.assoc)
  then show ?thesis by (simp add: disj_def)
qed

lemma u32_offset_inj:
  assumes "a + of_nat i = a + (of_nat j :: u32)" "i < 4294967296" "j < 4294967296"
  shows "i = j"
proof -
  have "unat (of_nat i :: u32) = unat (of_nat j :: u32)" using assms(1) by simp
  then show ?thesis using assms(2,3) by (simp add: unat_of_nat)
qed

lemma put_outside:
  "(\<forall>i<length xs. b \<noteq> a + of_nat i) \<Longrightarrow> put m a xs b = m b"
proof (induction xs arbitrary: m a)
  case (Cons x xs)
  have 0: "b \<noteq> a" using Cons.prems [rule_format, of 0] by simp
  have "\<forall>i<length xs. b \<noteq> a + 1 + of_nat i"
  proof (intro allI impI)
    fix i assume "i < length xs"
    then show "b \<noteq> a + 1 + of_nat i" using Cons.prems [rule_format, of "Suc i"] by (simp add: add.assoc)
  qed
  then have "put (m(a := x)) (a + 1) xs b = (m(a := x)) b" by (rule Cons.IH)
  then show ?case using 0 by simp
qed simp

lemma put_inside:
  "i < length xs \<Longrightarrow> length xs \<le> 4294967296 \<Longrightarrow> put m a xs (a + of_nat i) = xs ! i"
proof (induction xs arbitrary: m a i)
  case (Cons x xs)
  show ?case
  proof (cases i)
    case 0
    have "\<forall>j<length xs. a \<noteq> a + 1 + of_nat j"
    proof (intro allI impI notI)
      fix j assume j: "j < length xs" "a = a + 1 + of_nat j"
      then have "a + of_nat 0 = a + of_nat (Suc j)" by (simp add: add.assoc)
      then have "0 = Suc j" by (rule u32_offset_inj) (use j Cons.prems in simp_all)
      then show False by simp
    qed
    then show ?thesis using 0 put_outside [of xs a "a + 1" "m(a := x)"] by simp
  next
    case (Suc k)
    have "put (m(a := x)) (a + 1) xs (a + 1 + of_nat k) = xs ! k"
      by (rule Cons.IH) (use Suc Cons.prems in simp_all)
    then show ?thesis using Suc by (simp add: add.assoc del: fun_upd_apply)
  qed
qed simp

lemma put_append: "put m a (xs @ ys) = put (put m a xs) (a + of_nat (length xs)) ys"
  by (induction xs arbitrary: m a) (simp_all add: add.assoc)

lemma put_bytes_at: "length xs \<le> 4294967296 \<Longrightarrow> bytes_at (put m a xs) a (length xs) = xs"
  by (rule nth_equalityI) (simp_all add: bytes_at_def put_inside)

lemma put_frame: "disj a (length xs) b n \<Longrightarrow> bytes_at (put m a xs) b n = bytes_at m b n"
  by (rule nth_equalityI) (auto simp: bytes_at_def intro!: put_outside dest: disjD)

lemma put_frame1: "disj a (length xs) b n \<Longrightarrow> j < n \<Longrightarrow> put m a xs (b + of_nat j) = m (b + of_nat j)"
  by (rule put_outside) (metis disjD)

lemma length_bytes_at [simp]: "length (bytes_at m a n) = n"
  by (simp add: bytes_at_def)

lemma bytes_at_0 [simp]: "bytes_at m a 0 = []"
  by (simp add: bytes_at_def)

lemma bytes_at_Suc: "bytes_at m a (Suc n) = m a # bytes_at m (a + 1) n"
proof (rule nth_equalityI)
  fix i assume "i < length (bytes_at m a (Suc n))"
  then show "bytes_at m a (Suc n) ! i = (m a # bytes_at m (a + 1) n) ! i"
    by (cases i) (simp_all add: bytes_at_def add.assoc nth_append del: upt_Suc)
qed simp

lemma bytes_at_upd: "(\<forall>i<n. b \<noteq> a + of_nat i) \<Longrightarrow> bytes_at (m(b := x)) a n = bytes_at m a n"
  by (rule nth_equalityI) (auto simp: bytes_at_def)

lemma cstr_bytes: "cstr m a xs \<longleftrightarrow> bytes_at m a (Suc (length xs)) = xs @ [0] \<and> 0 \<notin> set xs"
  by (induction xs arbitrary: a) (auto simp: bytes_at_Suc)

lemma cstr_unique: "cstr m a xs \<Longrightarrow> cstr m a ys \<Longrightarrow> xs = ys"
  by (induction xs arbitrary: a ys; case_tac ys) auto

lemma cstr_nth: "cstr m a xs \<Longrightarrow> i < length xs \<Longrightarrow> m (a + of_nat i) = xs ! i \<and> xs ! i \<noteq> 0"
proof (induction xs arbitrary: a i)
  case (Cons x xs)
  then show ?case using Cons.IH [of "a + 1" "i - 1"] by (cases i) (auto simp: add.assoc)
qed simp

lemma cstr_end: "cstr m a xs \<Longrightarrow> m (a + of_nat (length xs)) = 0"
proof (induction xs arbitrary: a)
  case (Cons x xs)
  then show ?case using Cons.IH [of "a + 1"] by (simp add: add.assoc)
qed simp

lemma cstr_drop: "cstr m a xs \<Longrightarrow> i \<le> length xs \<Longrightarrow> cstr m (a + of_nat i) (drop i xs)"
proof (induction xs arbitrary: a i)
  case (Cons x xs)
  then show ?case using Cons.IH [of "a + 1" "i - 1"] by (cases i) (simp_all add: add.assoc)
qed simp

lemma cstr_put: "0 \<notin> set xs \<Longrightarrow> length xs < 4294967296 \<Longrightarrow> cstr (put m a (xs @ [0])) a xs"
  using put_bytes_at [of "xs @ [0]" m a] by (simp add: cstr_bytes)

lemma cstr_frame:
  assumes "cstr m b ys" "disj a (length xs) b (Suc (length ys))"
  shows "cstr (put m a xs) b ys"
  using assms by (simp add: cstr_bytes put_frame)

lemma cstr_no0: "cstr m a xs \<Longrightarrow> 0 \<notin> set xs"
  by (simp add: cstr_bytes)

lemma cstr_length: "cstr m a xs \<Longrightarrow> length xs < 4294967296"
proof (rule ccontr)
  assume c: "cstr m a xs" and l: "\<not> length xs < 4294967296"
  have "m (a + of_nat (length xs)) = 0" by (rule cstr_end [OF c])
  moreover have "(of_nat (length xs) :: u32) = of_nat (length xs mod 4294967296)"
    by (simp add: word_unat_eq_iff unat_of_nat)
  moreover have "length xs mod 4294967296 < length xs"
    using l mod_less_divisor [of 4294967296 "length xs"] by linarith
  ultimately show False using cstr_nth [OF c, of "length xs mod 4294967296"] by metis
qed

section \<open>What the routines compute\<close>

declare strnlen_loop.simps [simp del] strncmp.simps [simp del]

lemma strlen_loop_cstr: "cstr m a xs \<Longrightarrow> strlen_loop m a n = Some (n + int (length xs))"
  by (induction xs arbitrary: a n) (simp_all add: strlen_loop.simps [of m _ n for n])

lemma strlen_cstr: "cstr m a xs \<Longrightarrow> strlen m a = Some (int (length xs))"
  by (simp add: strlen_def strlen_loop_cstr)

lemma strnlen_loop_cstr:
  "cstr m a xs \<Longrightarrow> n \<le> len \<Longrightarrow> strnlen_loop m a n len = min len (n + int (length xs))"
proof (induction xs arbitrary: a n)
  case Nil
  then show ?case by (simp add: strnlen_loop.simps [of m a])
next
  case (Cons x xs)
  show ?case
  proof (cases "n < len")
    case True
    then have "strnlen_loop m a n len = strnlen_loop m (a + 1) (n + 1) len"
      using Cons.prems by (simp add: strnlen_loop.simps [of m a])
    also have "\<dots> = min len (n + 1 + int (length xs))" using Cons.IH [of "a + 1" "n + 1"] Cons.prems True by simp
    finally show ?thesis by simp
  qed (use Cons.prems in \<open>simp add: strnlen_loop.simps [of m a]\<close>)
qed

lemma strnlen_cstr: "cstr m a xs \<Longrightarrow> 0 \<le> n \<Longrightarrow> strnlen m a n = min n (int (length xs))"
  by (simp add: strnlen_def strnlen_loop_cstr)

text \<open>Strings compare like the sequences of their signed characters, terminator included.\<close>

definition schars :: "u8 list \<Rightarrow> int list" where
  "schars xs = map sint (xs @ [0])"

lemma schars_simps [simp]: "schars [] = [0]" "schars (x # xs) = sint x # schars xs"
  by (simp_all add: schars_def)

lemma sint_u8_eq_0 [simp]: "sint (x :: u8) = 0 \<longleftrightarrow> x = 0" "0 = sint (x :: u8) \<longleftrightarrow> x = 0"
  using signed_word_eqI [of x 0] by auto

lemma strcmp_cstr:
  "cstr m a xs \<Longrightarrow> cstr m b ys \<Longrightarrow>
     strcmp m a b = Some (if xs = ys then 0 else if schars xs < schars ys then - 1 else 1)"
proof (induction xs arbitrary: a b ys)
  case Nil
  then show ?case by (cases ys) (auto simp: strcmp.simps [of m a b] order_less_le)
next
  case (Cons x xs)
  show ?case
  proof (cases ys)
    case Nil
    then show ?thesis using Cons.prems by (auto simp: strcmp.simps [of m a b] order_less_le)
  next
    case (Cons y zs)
    then show ?thesis
      using Cons.prems Cons.IH [of "a + 1" "b + 1" zs] signed_word_eqI [of x y]
      by (auto simp: strcmp.simps [of m a b] not_less_iff_gr_or_eq)
  qed
qed

lemma strncmp_cstr:
  "cstr m a xs \<Longrightarrow> cstr m b ys \<Longrightarrow>
     (strncmp m a b (int n) = 0 \<longleftrightarrow> take n xs = take n ys)
     \<and> (strncmp m a b (int n) < 0 \<longleftrightarrow> take n (schars xs) < take n (schars ys))"
proof (induction n arbitrary: a b xs ys)
  case 0
  then show ?case by (simp add: strncmp.simps [of m a b])
next
  case (Suc n)
  have step: "strncmp m a b (int (Suc n)) =
      (if m a = m b then (if m a = 0 then 0 else strncmp m (a + 1) (b + 1) (int n)) else sint (m a) - sint (m b))"
    by (subst strncmp.simps) (simp add: Let_def)
  show ?case
  proof (cases xs)
    case Nil
    then show ?thesis unfolding step using Suc.prems by (cases ys) auto
  next
    case (Cons x us)
    show ?thesis
    proof (cases ys)
      case Nil
      then show ?thesis unfolding step using Suc.prems Cons by auto
    next
      case (Cons y vs)
      have "sint x = sint y \<longleftrightarrow> x = y" using signed_word_eqI [of x y] by auto
      then show ?thesis unfolding step using Suc.prems \<open>xs = x # us\<close> Cons Suc.IH [of "a + 1" us "b + 1" vs]
        by auto
    qed
  qed
qed

text \<open>Copying.\<close>

lemma fill_put: "fill k c m a = put m a (replicate k c)"
  by (induction k arbitrary: m a) simp_all

lemma strcpy_put:
  "cstr m b xs \<Longrightarrow> disj a (Suc (length xs)) b (Suc (length xs)) \<Longrightarrow> strcpy m a b = Some (put m a (xs @ [0]))"
proof (induction xs arbitrary: m a b)
  case Nil
  then show ?case by (simp add: strcpy.simps [of m a b] fun_upd_def)
next
  case (Cons x xs)
  have d: "disj (a + 1) (Suc (length xs)) (b + 1) (Suc (length xs))" "a \<noteq> b"
    using disj_Suc(2) [OF Cons.prems(2)] disj_Suc(1) [OF Cons.prems(2)] by simp_all
  have "cstr (put m a [x]) (b + 1) xs"
  proof (rule cstr_frame)
    show "disj a (length [x]) (b + 1) (Suc (length xs))"
      using disj_shift [OF Cons.prems(2), of 0 1 1 "Suc (length xs)"] by simp
  qed (use Cons.prems in simp)
  then have "strcpy (m(a := x)) (a + 1) (b + 1) = Some (put (m(a := x)) (a + 1) (xs @ [0]))"
    using Cons.IH [OF _ d(1)] by simp
  then show ?case using Cons.prems(1) by (simp add: strcpy.simps [of m a b] Let_def)
qed

lemma strcpy_cstr:
  assumes "cstr m b xs" "disj a (Suc (length xs)) b (Suc (length xs))"
  obtains m' where "strcpy m a b = Some m'" "cstr m' a xs" "cstr m' b xs"
    "\<And>c. (\<forall>i\<le>length xs. c \<noteq> a + of_nat i) \<Longrightarrow> m' c = m c"
proof
  show "strcpy m a b = Some (put m a (xs @ [0]))" by (rule strcpy_put [OF assms])
  show "cstr (put m a (xs @ [0])) a xs" by (rule cstr_put [OF cstr_no0 [OF assms(1)] cstr_length [OF assms(1)]])
  show "cstr (put m a (xs @ [0])) b xs" by (rule cstr_frame [OF assms(1)]) (use assms(2) in simp)
  show "put m a (xs @ [0]) c = m c" if "\<forall>i\<le>length xs. c \<noteq> a + of_nat i" for c
    by (rule put_outside) (use that in \<open>auto simp: less_Suc_eq_le\<close>)
qed

text \<open>\<open>padded n xs\<close>: the \<open>n\<close> bytes \<^verbatim>\<open>strncpy\<close> writes.\<close>

definition padded :: "nat \<Rightarrow> u8 list \<Rightarrow> u8 list" where
  "padded n xs = take n (xs @ replicate n 0)"

lemma padded_simps [simp]:
  "padded 0 xs = []" "padded (Suc n) [] = replicate (Suc n) 0" "padded (Suc n) (x # xs) = x # padded n xs"
  by (simp_all add: padded_def replicate_append_same [symmetric] min_def)

lemma length_padded [simp]: "length (padded n xs) = n"
  by (simp add: padded_def)

lemma strncpy_put:
  "bytes_at m b (min n (Suc (length xs))) = take n (xs @ [0]) \<Longrightarrow> 0 \<notin> set xs \<Longrightarrow>
     disj a n b (min n (Suc (length xs))) \<Longrightarrow> strncpy_loop n m a b = put m a (padded n xs)"
proof (induction n arbitrary: m a b xs)
  case (Suc n)
  show ?case
  proof (cases xs)
    case Nil
    then show ?thesis using Suc.prems by (simp add: fill_put Let_def bytes_at_Suc)
  next
    case (Cons x us)
    let ?k = "min n (Suc (length us))"
    have d: "disj a (Suc n) b (Suc ?k)" and b: "m b = x" "bytes_at m (b + 1) ?k = take n (us @ [0])"
      using Suc.prems(1,3) Cons by (simp_all add: bytes_at_Suc)
    have "bytes_at (put m a [x]) (b + 1) ?k = bytes_at m (b + 1) ?k"
      by (rule put_frame) (use disj_shift [OF d, of 0 1 1 ?k] in simp)
    then have "bytes_at (m(a := x)) (b + 1) ?k = take n (us @ [0])" using b(2) by (simp del: fun_upd_apply)
    then have "strncpy_loop n (m(a := x)) (a + 1) (b + 1) = put (m(a := x)) (a + 1) (padded n us)"
      by (rule Suc.IH) (use Suc.prems(2) Cons disj_Suc(2) [OF d] in simp_all)
    then show ?thesis using Cons b(1) Suc.prems(2) by (simp add: Let_def)
  qed
qed simp

lemma cstr_take: "cstr m b xs \<Longrightarrow> bytes_at m b (min n (Suc (length xs))) = take n (xs @ [0])"
proof -
  assume "cstr m b xs"
  then have "take n (bytes_at m b (Suc (length xs))) = take n (xs @ [0])" by (simp add: cstr_bytes)
  moreover have "take n [0..<Suc (length xs)] = [0..<min n (Suc (length xs))]"
    by (cases "n \<le> Suc (length xs)") (simp_all add: take_upt min_def del: upt_Suc)
  ultimately show ?thesis by (simp add: bytes_at_def take_map del: upt_Suc)
qed

lemma strncpy_cstr:
  assumes "cstr m b xs" "disj a n b (min n (Suc (length xs)))" "n \<le> 4294967296"
  shows "snd (strncpy m a b (int n)) = a" "bytes_at (fst (strncpy m a b (int n))) a n = padded n xs"
    "(\<forall>i<n. c \<noteq> a + of_nat i) \<Longrightarrow> fst (strncpy m a b (int n)) c = m c"
proof -
  have e: "strncpy_loop n m a b = put m a (padded n xs)"
    by (rule strncpy_put [OF cstr_take [OF assms(1)] cstr_no0 [OF assms(1)] assms(2)])
  show "snd (strncpy m a b (int n)) = a" by (simp add: strncpy_def)
  show "bytes_at (fst (strncpy m a b (int n))) a n = padded n xs"
    using put_bytes_at [of "padded n xs" m a] assms(3) by (simp add: strncpy_def e)
  show "(\<forall>i<n. c \<noteq> a + of_nat i) \<Longrightarrow> fst (strncpy m a b (int n)) c = m c"
    by (simp add: strncpy_def e put_outside)
qed

lemma strncat_loop_put:
  "cstr m b ys \<Longrightarrow> disj a (Suc n) b (Suc (length ys)) \<Longrightarrow>
     strncat_loop m a b (int n) = Some (put m a (take n ys @ [0]))"
proof (induction ys arbitrary: m a b n)
  case Nil
  then show ?case by (subst strncat_loop.simps) simp
next
  case (Cons y ys)
  have c: "m b = y" "y \<noteq> 0" "cstr m (b + 1) ys" using Cons.prems(1) by simp_all
  show ?case
  proof (cases n)
    case 0
    then show ?thesis using c by (subst strncat_loop.simps) simp
  next
    case (Suc k)
    have "cstr (put m a [y]) (b + 1) ys"
    proof (rule cstr_frame [OF c(3)])
      show "disj a (length [y]) (b + 1) (Suc (length ys))"
        using disj_shift [OF Cons.prems(2), of 0 1 1 "Suc (length ys)"] by simp
    qed
    then have "cstr (m(a := y)) (b + 1) ys" by (simp del: fun_upd_apply)
    moreover have "disj (a + 1) (Suc k) (b + 1) (Suc (length ys))"
      using disj_Suc(2) [OF Cons.prems(2)] Suc by simp
    ultimately have "strncat_loop (m(a := y)) (a + 1) (b + 1) (int k) = Some (put (m(a := y)) (a + 1) (take k ys @ [0]))"
      by (rule Cons.IH)
    then show ?thesis using c Suc by (subst strncat_loop.simps) (simp add: Let_def)
  qed
qed

lemma strend_cstr: "cstr m a xs \<Longrightarrow> strend m a = Some (a + of_nat (length xs))"
proof (induction xs arbitrary: a)
  case Nil
  then show ?case by (subst strend.simps) simp
next
  case (Cons x xs)
  then show ?case using Cons.IH [of "a + 1"] by (subst strend.simps) (simp add: add.assoc)
qed

lemma strncat_cstr:
  assumes "cstr m a xs" "cstr m b ys" "length xs + n < 4294967296"
    and "disj (a + of_nat (length xs)) (Suc n) b (Suc (length ys))"
  obtains m' where "strncat m a b (int n) = Some (m', a)" "cstr m' a (xs @ take n ys)"
proof
  let ?e = "a + of_nat (length xs)" and ?m = "put m (a + of_nat (length xs)) (take n ys @ [0])"
  show "strncat m a b (int n) = Some (?m, a)"
    by (simp add: strncat_def strend_cstr [OF assms(1)] strncat_loop_put [OF assms(2,4)])
  have "put m a xs = m"
  proof (rule ext)
    fix c
    show "put m a xs c = m c"
    proof (cases "\<exists>i<length xs. c = a + of_nat i")
      case True
      then show ?thesis using put_inside [of _ xs m a] assms(1,3) cstr_nth [OF assms(1)] by auto
    qed (simp add: put_outside)
  qed
  then have "?m = put m a ((xs @ take n ys) @ [0])" by (simp add: put_append)
  moreover have "0 \<notin> set (xs @ take n ys)"
    using cstr_no0 [OF assms(1)] cstr_no0 [OF assms(2)] set_take_subset [of n ys] by auto
  moreover have "length (xs @ take n ys) < 4294967296" using assms(3) by simp
  ultimately show "cstr ?m a (xs @ take n ys)" by (metis cstr_put)
qed

text \<open>Searching.\<close>

lemma strchr_cstr:
  "cstr m a xs \<Longrightarrow> strchr m a c = Some (if c \<in> set (xs @ [0]) then a + of_nat (length (takeWhile (\<lambda>x. x \<noteq> c) (xs @ [0]))) else 0)"
proof (induction xs arbitrary: a)
  case Nil
  then show ?case by (subst strchr.simps) simp
next
  case (Cons x xs)
  then show ?case using Cons.IH [of "a + 1"] by (subst strchr.simps) (auto simp: add.assoc)
qed

primrec last_pos :: "u8 \<Rightarrow> u8 list \<Rightarrow> nat" where
  "last_pos c [] = 0"
| "last_pos c (x # xs) = (if c \<in> set xs then Suc (last_pos c xs) else 0)"

lemma last_pos: "c \<in> set xs \<Longrightarrow> last_pos c xs < length xs \<and> xs ! last_pos c xs = c \<and> c \<notin> set (drop (Suc (last_pos c xs)) xs)"
  by (induction xs) auto

lemma strrchr_loop_cstr:
  "cstr m a xs \<Longrightarrow> strrchr_loop m a c r = Some (if c \<in> set (xs @ [0]) then a + of_nat (last_pos c (xs @ [0])) else r)"
proof (induction xs arbitrary: a r)
  case Nil
  then show ?case by (subst strrchr_loop.simps) simp
next
  case (Cons x xs)
  then show ?case using Cons.IH [of "a + 1"] by (subst strrchr_loop.simps) (auto simp: add.assoc)
qed

lemma strrchr_cstr:
  "cstr m a xs \<Longrightarrow> strrchr m a c = Some (if c \<in> set (xs @ [0]) then a + of_nat (last_pos c (xs @ [0])) else 0)"
  by (simp add: strrchr_def strrchr_loop_cstr)

lemma strstr_match_cstr:
  "cstr m a xs \<Longrightarrow> cstr m b ys \<Longrightarrow> \<exists>r. strstr_match m a b = Some r \<and> (m r = 0 \<longleftrightarrow> prefix ys xs)"
proof (induction ys arbitrary: a b xs)
  case Nil
  then show ?case by (subst strstr_match.simps) simp
next
  case (Cons y ys)
  show ?case
  proof (cases xs)
    case Nil
    then show ?thesis using Cons.prems by (subst strstr_match.simps) simp
  next
    case (Cons x us)
    then show ?thesis using Cons.prems Cons.IH [of "a + 1" us "b + 1"] by (subst strstr_match.simps) auto
  qed
qed

text \<open>The first place where \<open>ys\<close> occurs in \<open>xs\<close>; the code never finds the empty string.\<close>

fun first_occ :: "u8 list \<Rightarrow> u8 list \<Rightarrow> nat option" where
  "first_occ ys [] = None"
| "first_occ ys (x # xs) = (if prefix ys (x # xs) then Some 0 else map_option Suc (first_occ ys xs))"

lemma first_occ_Some:
  "first_occ ys xs = Some i \<Longrightarrow> i < length xs \<and> prefix ys (drop i xs) \<and> (\<forall>j<i. \<not> prefix ys (drop j xs))"
proof (induction xs arbitrary: i)
  case (Cons x xs)
  show ?case
  proof (cases i)
    case 0
    then show ?thesis using Cons.prems by (simp split: if_splits)
  next
    case (Suc k)
    then have "first_occ ys xs = Some k" "\<not> prefix ys (x # xs)" using Cons.prems by (auto split: if_splits)
    then show ?thesis using Cons.IH [of k] Suc by (auto simp: less_Suc_eq_0_disj)
  qed
qed simp

lemma first_occ_None: "first_occ ys xs = None \<Longrightarrow> i < length xs \<Longrightarrow> \<not> prefix ys (drop i xs)"
proof (induction xs arbitrary: i)
  case (Cons x xs)
  then show ?case by (cases i) (auto split: if_splits)
qed simp

lemma strstr_cstr:
  "cstr m a xs \<Longrightarrow> cstr m b ys \<Longrightarrow> ys \<noteq> [] \<Longrightarrow>
     strstr m a b = Some (case first_occ ys xs of None \<Rightarrow> 0 | Some i \<Rightarrow> a + of_nat i)"
proof (induction xs arbitrary: a)
  case Nil
  then show ?case by (subst strstr.simps) simp
next
  case (Cons x xs)
  obtain r where r: "strstr_match m a b = Some r" "m r = 0 \<longleftrightarrow> prefix ys (x # xs)"
    using strstr_match_cstr [OF Cons.prems(1,2)] by blast
  have y: "m b = hd ys" "x \<noteq> hd ys \<Longrightarrow> \<not> prefix ys (x # xs)" using Cons.prems(2,3) by (cases ys; simp)+
  have i: "strstr m (a + 1) b = Some (case first_occ ys xs of None \<Rightarrow> 0 | Some i \<Rightarrow> a + 1 + of_nat i)"
    using Cons.IH [of "a + 1"] Cons.prems by simp
  show ?case
    using Cons.prems(1) r y i by (subst strstr.simps) (auto split: option.splits simp: add.assoc)
qed

lemma strstr_empty: "cstr m a xs \<Longrightarrow> cstr m b [] \<Longrightarrow> strstr m a b = Some 0"
proof (induction xs arbitrary: a)
  case Nil
  then show ?case by (subst strstr.simps) simp
next
  case (Cons x xs)
  then show ?case using Cons.IH [of "a + 1"] by (subst strstr.simps) simp
qed

text \<open>Blocks of memory.\<close>

lemma memcmp_bytes:
  "memcmp_loop n m a b = 0 \<longleftrightarrow> bytes_at m a n = bytes_at m b n"
  "memcmp_loop n m a b < 0 \<longleftrightarrow> map uint (bytes_at m a n) < map uint (bytes_at m b n)"
  by (induction n arbitrary: a b) (auto simp: bytes_at_Suc word_uint_eq_iff [symmetric])

lemma memcpy_put:
  "disj a n b n \<Longrightarrow> memcpy_loop n m a b = put m a (bytes_at m b n)"
proof (induction n arbitrary: m a b)
  case (Suc n)
  have "bytes_at (put m a [m b]) (b + 1) n = bytes_at m (b + 1) n"
    by (rule put_frame) (use disj_shift [OF Suc.prems, of 0 1 1 n] in simp)
  then have "bytes_at (m(a := m b)) (b + 1) n = bytes_at m (b + 1) n" by (simp del: fun_upd_apply)
  moreover have "memcpy_loop n (m(a := m b)) (a + 1) (b + 1) = put (m(a := m b)) (a + 1) (bytes_at (m(a := m b)) (b + 1) n)"
    by (rule Suc.IH) (use disj_Suc(2) [OF Suc.prems] in simp)
  ultimately show ?case by (simp add: bytes_at_Suc del: fun_upd_apply)
qed simp

lemma memcpy_bytes:
  assumes "disj a n b n" "n \<le> 4294967296"
  shows "bytes_at (fst (memcpy m a b (int n))) a n = bytes_at m b n"
    "(\<forall>i<n. c \<noteq> a + of_nat i) \<Longrightarrow> fst (memcpy m a b (int n)) c = m c"
  using put_bytes_at [of "bytes_at m b n" m a] put_outside [of "bytes_at m b n" c a m] assms(2)
  by (simp_all add: memcpy_def memcpy_put [OF assms(1)])

lemma memset_bytes:
  assumes "n \<le> 4294967296"
  shows "bytes_at (fst (memset m a c (int n))) a n = replicate n (word_of_int c)"
  using put_bytes_at [of "replicate n (word_of_int c)" m a] assms by (simp add: memset_def fill_put)

lemma bzero_loop_fill: "bzero_loop m p (int (Suc k)) = Some (fill (Suc k) 0 m p)"
proof (induction k arbitrary: m p)
  case 0
  then show ?case by (subst bzero_loop.simps) simp
next
  case (Suc k)
  then show ?case by (subst bzero_loop.simps) simp
qed

lemma bzero_memset: "bzero m p len = Some (fst (memset m p 0 len))"
proof (cases "len \<le> 0")
  case False
  then obtain k where "len = int (Suc k)" using pos_int_cases [of len] Suc_pred by (metis not_le)
  then show ?thesis using bzero_loop_fill [of m p k] False by (simp add: bzero_def memset_def nat_add_distrib)
qed (simp add: bzero_def memset_def)

end
