(* ===== verification/Qsort.thy ===== *)
theory Qsort
  imports Cstring "HOL-Library.Multiset"
begin

text \<open>
  \<^verbatim>\<open>lib/qsort.c\<close>: quicksort with a three-way partition. Pointers are counted in elements of
  size \<^verbatim>\<open>es\<close>, so an array is a function from element indices to elements and the byte loops
  of \<^verbatim>\<open>qsexc\<close> and \<^verbatim>\<open>qstexc\<close> exchange whole elements. The labels and
  \<^verbatim>\<open>goto\<close>s are recursion: the flag of \<open>qs_part\<close> says that control is at
  \<^verbatim>\<open>loop:\<close> and not at the head of the \<^verbatim>\<open>for\<close>. Whether the loops end is part of
  the theorem. The comparison function is a parameter; what the routine needs of it is the locale
  \<open>comparison\<close>, interpreted on the order in which \<^verbatim>\<open>strcmp\<close> puts strings.
\<close>

section \<open>The code\<close>

type_synonym 'a array = "int \<Rightarrow> 'a"

definition qsexc :: "int \<Rightarrow> int \<Rightarrow> 'a array \<Rightarrow> 'a array" where
  "qsexc i j f = (let c = f i; f1 = f(i := f j) in f1(j := c))"

definition qstexc :: "int \<Rightarrow> int \<Rightarrow> int \<Rightarrow> 'a array \<Rightarrow> 'a array" where
  "qstexc i j k f = (let c = f i; f1 = f(i := f k); f2 = f1(k := f1 j) in f2(j := c))"

text \<open>
  The registers of \<^verbatim>\<open>qs1\<close> in the partition, and one move: to the exit, with the array and
  the bounds \<^verbatim>\<open>lp\<close> and \<^verbatim>\<open>hp\<close>, or to the next test.
\<close>

record 'a qregs =
  atloop :: bool
  ri :: int
  rj :: int
  rlp :: int
  rhp :: int
  arr :: "'a array"

definition qs_move :: "('a \<Rightarrow> 'a \<Rightarrow> int) \<Rightarrow> 'a qregs \<Rightarrow> ('a array \<times> int \<times> int) + 'a qregs" where
  "qs_move qscmp r =
     (let i = ri r; j = rj r; lp = rlp r; hp = rhp r; f = arr r in
      if \<not> atloop r \<and> i < lp then
        (let c = qscmp (f i) (f lp) in
         if c = 0 then Inr (r\<lparr>rlp := lp - 1, arr := qsexc i (lp - 1) f\<rparr>)
         else if c < 0 then Inr (r\<lparr>ri := i + 1\<rparr>)
         else Inr (r\<lparr>atloop := True\<rparr>))
      else if j > hp then
        (let c = qscmp (f hp) (f j) in
         if c = 0 then Inr (r\<lparr>atloop := True, rhp := hp + 1, arr := qsexc (hp + 1) j f\<rparr>)
         else if c > 0 then
           (if i = lp then Inr (r\<lparr>atloop := True, ri := lp + 1, rlp := lp + 1, rhp := hp + 1, arr := qstexc i (hp + 1) j f\<rparr>)
            else Inr (r\<lparr>atloop := False, ri := i + 1, rj := j - 1, arr := qsexc i j f\<rparr>))
         else Inr (r\<lparr>atloop := True, rj := j - 1\<rparr>))
      else if i = lp then Inl (f, lp, hp)
      else Inr (r\<lparr>atloop := False, rj := hp - 1, rlp := lp - 1, rhp := hp - 1, arr := qstexc j (lp - 1) i f\<rparr>))"

partial_function (option) qs_part :: "('a \<Rightarrow> 'a \<Rightarrow> int) \<Rightarrow> 'a qregs \<Rightarrow> ('a array \<times> int \<times> int) option" where
  "qs_part qscmp r = (case qs_move qscmp r of Inl x \<Rightarrow> Some x | Inr r' \<Rightarrow> qs_part qscmp r')"

partial_function (option) qs1 :: "('a \<Rightarrow> 'a \<Rightarrow> int) \<Rightarrow> int \<Rightarrow> int \<Rightarrow> 'a array \<Rightarrow> 'a array option" where
  "qs1 qscmp a l f =
     (if l - a \<le> 1 then Some f
      else let mid = a + (l - a) div 2 in
        Option.bind (qs_part qscmp \<lparr>atloop = False, ri = a, rj = l - 1, rlp = mid, rhp = mid, arr = f\<rparr>) (\<lambda>(f1, lp, hp).
          if lp - a \<ge> l - hp
          then Option.bind (qs1 qscmp (hp + 1) l f1) (\<lambda>f2. qs1 qscmp a lp f2)
          else Option.bind (qs1 qscmp a lp f1) (\<lambda>f2. qs1 qscmp (hp + 1) l f2)))"

definition qsort :: "('a \<Rightarrow> 'a \<Rightarrow> int) \<Rightarrow> nat \<Rightarrow> 'a array \<Rightarrow> 'a array option" where
  "qsort fc n f = qs1 fc 0 (int n) f"

section \<open>Permutations\<close>

definition seg :: "int \<Rightarrow> int \<Rightarrow> 'a array \<Rightarrow> 'a multiset" where
  "seg a l f = image_mset f (mset_set {a..<l})"

definition permuted :: "int \<Rightarrow> int \<Rightarrow> 'a array \<Rightarrow> 'a array \<Rightarrow> bool" where
  "permuted a l f g \<longleftrightarrow> seg a l g = seg a l f \<and> (\<forall>k. k < a \<or> l \<le> k \<longrightarrow> g k = f k)"

lemma permuted_refl [simp]: "permuted a l f f"
  by (simp add: permuted_def)

lemma permuted_trans: "permuted a l f g \<Longrightarrow> permuted a l g h \<Longrightarrow> permuted a l f h"
  by (simp add: permuted_def)

lemma seg_split: "a \<le> b \<Longrightarrow> b \<le> c \<Longrightarrow> seg a c f = seg a b f + seg b c f"
proof -
  assume "a \<le> b" "b \<le> c"
  then have "{a..<c} = {a..<b} \<union> {b..<c}" by auto
  then show ?thesis by (simp add: seg_def mset_set_Union)
qed

lemma seg_cong: "(\<And>k. a \<le> k \<Longrightarrow> k < l \<Longrightarrow> f k = g k) \<Longrightarrow> seg a l f = seg a l g"
  unfolding seg_def by (rule image_mset_cong) simp

lemma permuted_sub:
  assumes "permuted b c f g" "a \<le> b" "b \<le> c" "c \<le> l"
  shows "permuted a l f g"
proof -
  have "seg a l h = seg a b h + seg b c h + seg c l h" for h :: "'a array"
    using assms seg_split [of a b c h] seg_split [of a c l h] by simp
  moreover have "seg a b g = seg a b f" "seg c l g = seg c l f"
    using assms by (auto simp: permuted_def intro!: seg_cong)
  ultimately show ?thesis using assms by (simp add: permuted_def)
qed

lemma permuted_mem:
  assumes "permuted a l f g" "a \<le> k" "k < l"
  obtains k' where "a \<le> k'" "k' < l" "g k = f k'"
proof -
  have "g k \<in># seg a l g" using assms by (simp add: seg_def)
  then have "g k \<in># seg a l f" using assms(1) by (simp add: permuted_def)
  then show ?thesis using that by (auto simp: seg_def)
qed

lemma permuted_qsexc:
  assumes "a \<le> i" "i < l" "a \<le> j" "j < l"
  shows "permuted a l f (qsexc i j f)"
proof (cases "i = j")
  case True
  then show ?thesis by (simp add: qsexc_def Let_def)
next
  case False
  let ?R = "{a..<l} - {i, j}"
  have s: "{a..<l} = insert i (insert j ?R)" using assms by auto
  have "seg a l h = {# h i #} + {# h j #} + image_mset h (mset_set ?R)" for h :: "'a array"
    unfolding seg_def by (subst s) (simp add: False)
  moreover have "image_mset (qsexc i j f) (mset_set ?R) = image_mset f (mset_set ?R)"
    by (rule image_mset_cong) (simp add: qsexc_def Let_def)
  ultimately show ?thesis using assms False by (auto simp: permuted_def qsexc_def Let_def)
qed

lemma qsexc_apply: "qsexc i j f k = (if k = i then f j else if k = j then f i else f k)"
  by (auto simp: qsexc_def Let_def)

lemma qstexc_qsexc: "i \<noteq> j \<Longrightarrow> qstexc i j k f = qsexc k j (qsexc i k f)"
  by (rule ext) (auto simp: qstexc_def qsexc_def Let_def)

section \<open>Correctness\<close>

locale comparison =
  fixes cmp :: "'a \<Rightarrow> 'a \<Rightarrow> int"
  assumes cmp_sym: "cmp x y < 0 \<longleftrightarrow> cmp y x > 0"
    and cmp_trans: "cmp x y \<le> 0 \<Longrightarrow> cmp y z \<le> 0 \<Longrightarrow> cmp x z \<le> 0"
begin

lemma cmp_eq_sym: "cmp x y = 0 \<longleftrightarrow> cmp y x = 0"
  using cmp_sym [of x y] cmp_sym [of y x] by linarith

lemma cmp_cong:
  assumes "cmp y p = 0"
  shows "cmp x y = 0 \<longleftrightarrow> cmp x p = 0" "cmp x y < 0 \<longleftrightarrow> cmp x p < 0" "cmp x y > 0 \<longleftrightarrow> cmp x p > 0"
    "cmp y x > 0 \<longleftrightarrow> cmp x p < 0" "cmp y x = 0 \<longleftrightarrow> cmp x p = 0"
proof -
  have py: "cmp p y = 0" using assms cmp_eq_sym by simp
  have "cmp x y \<le> 0 \<longleftrightarrow> cmp x p \<le> 0" using cmp_trans [of x y p] cmp_trans [of x p y] assms py by auto
  moreover have "cmp y x \<le> 0 \<longleftrightarrow> cmp p x \<le> 0" using cmp_trans [of y p x] cmp_trans [of p y x] assms py by auto
  ultimately show "cmp x y = 0 \<longleftrightarrow> cmp x p = 0" "cmp x y < 0 \<longleftrightarrow> cmp x p < 0" "cmp x y > 0 \<longleftrightarrow> cmp x p > 0"
    "cmp y x > 0 \<longleftrightarrow> cmp x p < 0" "cmp y x = 0 \<longleftrightarrow> cmp x p = 0"
    using cmp_sym [of x y] cmp_sym [of y x] cmp_sym [of x p] cmp_sym [of p x] by linarith+
qed

text \<open>The partition's invariant, with \<open>p\<close> the pivot.\<close>

definition part_inv :: "'a \<Rightarrow> bool \<Rightarrow> int \<Rightarrow> int \<Rightarrow> int \<Rightarrow> int \<Rightarrow> int \<Rightarrow> int \<Rightarrow> 'a array \<Rightarrow> bool" where
  "part_inv p lab a l i j lp hp f \<longleftrightarrow>
     a \<le> i \<and> i \<le> lp \<and> lp \<le> hp \<and> hp \<le> j \<and> j < l
     \<and> (\<forall>k. lp \<le> k \<and> k \<le> hp \<longrightarrow> cmp (f k) p = 0)
     \<and> (\<forall>k. a \<le> k \<and> k < i \<longrightarrow> cmp (f k) p < 0)
     \<and> (\<forall>k. j < k \<and> k < l \<longrightarrow> cmp (f k) p > 0)
     \<and> (lab \<and> i < lp \<longrightarrow> cmp (f i) p > 0)"

definition parted :: "'a \<Rightarrow> int \<Rightarrow> int \<Rightarrow> int \<Rightarrow> int \<Rightarrow> 'a array \<Rightarrow> bool" where
  "parted p a l lp hp f \<longleftrightarrow> a \<le> lp \<and> lp \<le> hp \<and> hp < l
     \<and> (\<forall>k. lp \<le> k \<and> k \<le> hp \<longrightarrow> cmp (f k) p = 0)
     \<and> (\<forall>k. a \<le> k \<and> k < lp \<longrightarrow> cmp (f k) p < 0)
     \<and> (\<forall>k. hp < k \<and> k < l \<longrightarrow> cmp (f k) p > 0)"

text \<open>One lemma for each of the moves of the loop.\<close>

lemma part_left_equal:
  assumes "part_inv p False a l i j lp hp f" "i < lp" "cmp (f i) p = 0"
  shows "part_inv p False a l i j (lp - 1) hp (qsexc i (lp - 1) f)"
  using assms unfolding part_inv_def qsexc_apply by auto

lemma part_left_less:
  assumes "part_inv p False a l i j lp hp f" "i < lp" "cmp (f i) p < 0"
  shows "part_inv p False a l (i + 1) j lp hp f"
proof -
  have *: "\<And>k. k < i + 1 \<longleftrightarrow> k < i \<or> k = i" by auto
  show ?thesis using assms unfolding part_inv_def * by auto
qed

lemma part_left_stop:
  assumes "part_inv p False a l i j lp hp f" "cmp (f i) p > 0"
  shows "part_inv p True a l i j lp hp f"
  using assms unfolding part_inv_def by auto

lemma part_right_equal:
  assumes "part_inv p lab a l i j lp hp f" "lab \<or> \<not> i < lp" "j > hp" "cmp (f j) p = 0"
  shows "part_inv p True a l i j lp (hp + 1) (qsexc (hp + 1) j f)"
  using assms unfolding part_inv_def qsexc_apply by (auto simp: zless_add1_eq)

lemma part_right_rotate:
  assumes "part_inv p lab a l lp j lp hp f" "j > hp" "cmp (f j) p < 0"
  shows "part_inv p True a l (lp + 1) j (lp + 1) (hp + 1) (qstexc lp (hp + 1) j f)"
proof -
  have "lp \<noteq> hp + 1" using assms(1) by (auto simp: part_inv_def)
  note e = qstexc_qsexc [OF this, of j f]
  show ?thesis using assms unfolding e part_inv_def qsexc_apply by (auto simp: zless_add1_eq)
qed

lemma part_right_swap:
  assumes "part_inv p lab a l i j lp hp f" "lab \<or> \<not> i < lp" "i \<noteq> lp" "j > hp" "cmp (f j) p < 0"
  shows "part_inv p False a l (i + 1) (j - 1) lp hp (qsexc i j f)"
proof -
  have *: "\<And>k. k < i + 1 \<longleftrightarrow> k < i \<or> k = i" "\<And>k. j - 1 < k \<longleftrightarrow> j < k \<or> k = j" by auto
  show ?thesis using assms unfolding part_inv_def qsexc_apply * by auto
qed

lemma part_right_greater:
  assumes "part_inv p lab a l i j lp hp f" "lab \<or> \<not> i < lp" "j > hp" "cmp (f j) p > 0"
  shows "part_inv p True a l i (j - 1) lp hp f"
proof -
  have *: "\<And>k. j - 1 < k \<longleftrightarrow> j < k \<or> k = j" by auto
  show ?thesis using assms unfolding part_inv_def * by auto
qed

lemma part_rotate_left:
  assumes "part_inv p lab a l i j lp hp f" "lab \<or> \<not> i < lp" "i \<noteq> lp" "\<not> j > hp"
  shows "part_inv p False a l i (hp - 1) (lp - 1) (hp - 1) (qstexc j (lp - 1) i f)"
proof -
  have j: "j = hp" and ne: "hp \<noteq> lp - 1" using assms by (auto simp: part_inv_def)
  have *: "\<And>k. hp - 1 < k \<longleftrightarrow> hp < k \<or> k = hp" by auto
  show ?thesis using assms unfolding j qstexc_qsexc [OF ne] part_inv_def qsexc_apply * by auto
qed

abbreviation inv :: "'a \<Rightarrow> int \<Rightarrow> int \<Rightarrow> 'a qregs \<Rightarrow> bool" where
  "inv p a l r \<equiv> part_inv p (atloop r) a l (ri r) (rj r) (rlp r) (rhp r) (arr r)"

definition weight :: "'a qregs \<Rightarrow> nat" where
  "weight r = 2 * nat (rlp r - ri r + (rj r - rhp r)) + (if atloop r then 0 else 1)"

lemma inv_bounds:
  assumes "inv p a l r"
  shows "a \<le> ri r" "ri r \<le> rlp r" "rlp r \<le> rhp r" "rhp r \<le> rj r" "rj r < l"
    "cmp (arr r (rlp r)) p = 0" "cmp (arr r (rhp r)) p = 0"
  using assms by (simp_all add: part_inv_def)

text \<open>Every move keeps the invariant, permutes the array and makes the weight smaller.\<close>

lemma qs_move_left:
  assumes "inv p a l r" "\<not> atloop r" "ri r < rlp r"
  shows "\<exists>r'. qs_move cmp r = Inr r' \<and> inv p a l r' \<and> permuted a l (arr r) (arr r') \<and> weight r' < weight r"
proof -
  note b = inv_bounds [OF assms(1)]
  note c = cmp_cong [OF b(6)]
  have i: "part_inv p False a l (ri r) (rj r) (rlp r) (rhp r) (arr r)" using assms by simp
  consider "cmp (arr r (ri r)) p = 0" | "cmp (arr r (ri r)) p < 0" | "cmp (arr r (ri r)) p > 0" by linarith
  then show ?thesis
  proof cases
    case 1
    then show ?thesis using assms b c part_left_equal [OF i assms(3) 1] permuted_qsexc [of a "ri r" l "rlp r - 1"]
      by (simp add: qs_move_def Let_def weight_def)
  next
    case 2
    then show ?thesis using assms b c part_left_less [OF i assms(3) 2]
      by (simp add: qs_move_def Let_def weight_def)
  next
    case 3
    then show ?thesis using assms b c part_left_stop [OF i 3]
      by (simp add: qs_move_def Let_def weight_def)
  qed
qed

lemma qs_move_right:
  assumes "inv p a l r" "atloop r \<or> \<not> ri r < rlp r" "rj r > rhp r"
  shows "\<exists>r'. qs_move cmp r = Inr r' \<and> inv p a l r' \<and> permuted a l (arr r) (arr r') \<and> weight r' < weight r"
proof -
  note b = inv_bounds [OF assms(1)]
  note c = cmp_cong [OF b(7)]
  consider "cmp (arr r (rj r)) p = 0" | "cmp (arr r (rj r)) p < 0" "ri r = rlp r"
    | "cmp (arr r (rj r)) p < 0" "ri r \<noteq> rlp r" | "cmp (arr r (rj r)) p > 0" by linarith
  then show ?thesis
  proof cases
    case 1
    then show ?thesis using assms b c part_right_equal [OF assms 1] permuted_qsexc [of a "rhp r + 1" l "rj r"]
      by (auto simp: qs_move_def Let_def weight_def)
  next
    case 2
    have "permuted a l (arr r) (qstexc (rlp r) (rhp r + 1) (rj r) (arr r))"
      using b assms(3) by (subst qstexc_qsexc) (auto intro!: permuted_trans [OF permuted_qsexc permuted_qsexc])
    moreover have "part_inv p True a l (rlp r + 1) (rj r) (rlp r + 1) (rhp r + 1) (qstexc (rlp r) (rhp r + 1) (rj r) (arr r))"
      using part_right_rotate [of p "atloop r" a l "rlp r" "rj r" "rhp r" "arr r"] assms 2 by simp
    ultimately show ?thesis using assms b c 2 by (auto simp: qs_move_def Let_def weight_def)
  next
    case 3
    then show ?thesis using assms b c part_right_swap [OF assms(1,2) 3(2) assms(3) 3(1)] permuted_qsexc [of a "ri r" l "rj r"]
      by (auto simp: qs_move_def Let_def weight_def)
  next
    case 4
    then show ?thesis using assms b c part_right_greater [OF assms 4]
      by (auto simp: qs_move_def Let_def weight_def)
  qed
qed

lemma qs_move_end:
  assumes "inv p a l r" "atloop r \<or> \<not> ri r < rlp r" "\<not> rj r > rhp r"
  shows "if ri r = rlp r then qs_move cmp r = Inl (arr r, rlp r, rhp r) \<and> parted p a l (rlp r) (rhp r) (arr r)
    else \<exists>r'. qs_move cmp r = Inr r' \<and> inv p a l r' \<and> permuted a l (arr r) (arr r') \<and> weight r' < weight r"
proof (cases "ri r = rlp r")
  case True
  then show ?thesis using assms by (auto simp: qs_move_def Let_def part_inv_def parted_def)
next
  case False
  note b = inv_bounds [OF assms(1)]
  have "permuted a l (arr r) (qstexc (rj r) (rlp r - 1) (ri r) (arr r))"
    using b assms(3) False by (subst qstexc_qsexc) (auto intro!: permuted_trans [OF permuted_qsexc permuted_qsexc])
  then show ?thesis using assms b False part_rotate_left [OF assms(1,2) False assms(3)]
    by (auto simp: qs_move_def Let_def weight_def)
qed

lemma qs_part_ok:
  assumes "inv p a l r"
  shows "\<exists>g lp hp. qs_part cmp r = Some (g, lp, hp) \<and> permuted a l (arr r) g \<and> parted p a l lp hp g"
  using assms
proof (induction "weight r" arbitrary: r rule: less_induct)
  case less
  have go: ?case if ex: "\<exists>r'. qs_move cmp r = Inr r' \<and> inv p a l r' \<and> permuted a l (arr r) (arr r') \<and> weight r' < weight r"
  proof -
    obtain r' where r': "qs_move cmp r = Inr r'" "inv p a l r'" "permuted a l (arr r) (arr r')" "weight r' < weight r"
      using ex by blast
    have "qs_part cmp r = qs_part cmp r'" by (subst qs_part.simps) (simp add: r'(1))
    then show ?thesis using less.hyps [OF r'(4,2)] permuted_trans [OF r'(3)] by metis
  qed
  show ?case
  proof (cases "\<not> atloop r \<and> ri r < rlp r \<or> rj r > rhp r \<or> ri r \<noteq> rlp r")
    case True
    then show ?thesis
      using go qs_move_left [OF less.prems] qs_move_right [OF less.prems] qs_move_end [OF less.prems] by argo
  next
    case False
    then have "qs_move cmp r = Inl (arr r, rlp r, rhp r) \<and> parted p a l (rlp r) (rhp r) (arr r)"
      using qs_move_end [OF less.prems] by argo
    then show ?thesis by (subst qs_part.simps) simp
  qed
qed

definition ordered :: "int \<Rightarrow> int \<Rightarrow> 'a array \<Rightarrow> bool" where
  "ordered a l f \<longleftrightarrow> (\<forall>u v. a \<le> u \<and> u \<le> v \<and> v < l \<longrightarrow> cmp (f u) (f v) \<le> 0)"

lemma ordered_glue:
  assumes p: "parted p a l lp hp f" and "ordered a lp f" "ordered (hp + 1) l f"
  shows "ordered a l f"
proof -
  have "cmp (f u) (f v) \<le> 0" if uv: "a \<le> u" "u \<le> v" "v < l" for u v
  proof -
    consider "v < lp" | "hp < u" | "u \<le> hp" "lp \<le> v" using p by (auto simp: parted_def) linarith
    then show ?thesis
    proof cases
      case 1
      then show ?thesis using assms(2) uv by (simp add: ordered_def)
    next
      case 2
      then show ?thesis using assms(3) uv by (simp add: ordered_def)
    next
      case 3
      have "cmp (f u) p \<le> 0" using p uv 3 by (cases "u < lp") (auto simp: parted_def intro!: order.strict_implies_order)
      moreover have "cmp p (f v) \<le> 0"
        using p uv 3 cmp_sym [of p "f v"] cmp_eq_sym [of p "f v"] by (cases "v \<le> hp") (auto simp: parted_def intro!: order.strict_implies_order)
      ultimately show ?thesis by (rule cmp_trans)
    qed
  qed
  then show ?thesis by (simp add: ordered_def)
qed

text \<open>Sorting the two outer parts keeps the partition and, each, the other's order.\<close>

lemma parted_permuted:
  assumes "parted p a l lp hp f" "permuted b c f g" "b = a \<and> c = lp \<or> b = hp + 1 \<and> c = l"
  shows "parted p a l lp hp g"
proof -
  have key: "\<exists>k'. g k = f k' \<and> (b \<le> k \<and> k < c \<longrightarrow> b \<le> k' \<and> k' < c) \<and> (\<not> (b \<le> k \<and> k < c) \<longrightarrow> k' = k)" for k
  proof (cases "b \<le> k \<and> k < c")
    case True
    then obtain k' where "b \<le> k'" "k' < c" "g k = f k'" using permuted_mem [OF assms(2)] by metis
    then show ?thesis using True by blast
  next
    case False
    then show ?thesis using assms(2) by (auto simp: permuted_def)
  qed
  have "cmp (g k) p = 0" if "lp \<le> k" "k \<le> hp" for k
  proof -
    obtain k' where "g k = f k'" "b \<le> k \<and> k < c \<longrightarrow> b \<le> k' \<and> k' < c" "\<not> (b \<le> k \<and> k < c) \<longrightarrow> k' = k"
      using key by blast
    then show ?thesis using assms(1,3) that by (auto simp: parted_def)
  qed
  moreover have "cmp (g k) p < 0" if "a \<le> k" "k < lp" for k
  proof -
    obtain k' where "g k = f k'" "b \<le> k \<and> k < c \<longrightarrow> b \<le> k' \<and> k' < c" "\<not> (b \<le> k \<and> k < c) \<longrightarrow> k' = k"
      using key by blast
    then show ?thesis using assms(1,3) that by (auto simp: parted_def)
  qed
  moreover have "cmp (g k) p > 0" if "hp < k" "k < l" for k
  proof -
    obtain k' where "g k = f k'" "b \<le> k \<and> k < c \<longrightarrow> b \<le> k' \<and> k' < c" "\<not> (b \<le> k \<and> k < c) \<longrightarrow> k' = k"
      using key by blast
    then show ?thesis using assms(1,3) that by (auto simp: parted_def)
  qed
  ultimately show ?thesis using assms(1) by (simp add: parted_def)
qed

lemma ordered_outside:
  assumes "permuted b c f g" "ordered u v f" "c \<le> u \<or> v \<le> b"
  shows "ordered u v g"
  using assms by (auto simp: ordered_def permuted_def)

lemma qs1_ok: "\<exists>g. qs1 cmp a l f = Some g \<and> permuted a l f g \<and> ordered a l g"
proof (induction "nat (l - a)" arbitrary: a l f rule: less_induct)
  case less
  show ?case
  proof (cases "l - a \<le> 1")
    case True
    have "cmp (f u) (f v) \<le> 0" if "a \<le> u" "u \<le> v" "v < l" for u v
    proof -
      have "u = v" using that True by linarith
      moreover have "cmp (f v) (f v) \<le> 0" using cmp_sym [of "f v" "f v"] by linarith
      ultimately show ?thesis by simp
    qed
    then have "ordered a l f" by (simp add: ordered_def)
    then show ?thesis using True by (subst qs1.simps) simp
  next
    case False
    let ?m = "a + (l - a) div 2"
    let ?r = "\<lparr>atloop = False, ri = a, rj = l - 1, rlp = ?m, rhp = ?m, arr = f\<rparr>"
    have m: "a \<le> ?m" "?m \<le> l - 1" using False by (simp_all add: zdiv_mono1)
    have z: "cmp x x = 0" for x using cmp_sym [of x x] by linarith
    have "inv (f ?m) a l ?r" using m z False by (simp add: part_inv_def) (auto dest: order_antisym)
    note qs_part_ok [OF this]
    then obtain f1 lp hp where q: "qs_part cmp ?r = Some (f1, lp, hp)" "permuted a l f f1" "parted (f ?m) a l lp hp f1"
      by fastforce
    have b: "a \<le> lp" "lp \<le> hp" "hp < l" using q(3) by (simp_all add: parted_def)
    have both: ?thesis if s1: "qs1 cmp b1 c1 f1 = Some f2" "permuted b1 c1 f1 f2" "ordered b1 c1 f2"
      and s2: "qs1 cmp b2 c2 f2 = Some f3" "permuted b2 c2 f2 f3" "ordered b2 c2 f3"
      and bc: "b1 = hp + 1 \<and> c1 = l \<and> b2 = a \<and> c2 = lp \<and> lp - a \<ge> l - hp \<or> b1 = a \<and> c1 = lp \<and> b2 = hp + 1 \<and> c2 = l \<and> \<not> lp - a \<ge> l - hp"
      for b1 c1 b2 c2 f2 f3
    proof -
      have "parted (f ?m) a l lp hp f3"
        by (rule parted_permuted [OF parted_permuted [OF q(3) s1(2)] s2(2)]) (use bc in auto)
      moreover have "ordered b1 c1 f3" by (rule ordered_outside [OF s2(2) s1(3)]) (use bc b in auto)
      ultimately have "ordered a l f3" using s2(3) bc ordered_glue by blast
      moreover have "permuted a l f f3"
        by (rule permuted_trans [OF permuted_trans [OF q(2) permuted_sub [OF s1(2)]] permuted_sub [OF s2(2)]]) (use bc b in auto)
      moreover have "qs1 cmp a l f = Some f3"
        using q(1) s1(1) s2(1) bc False by (subst qs1.simps) (auto simp: Let_def)
      ultimately show ?thesis by blast
    qed
    have l: "\<exists>g. qs1 cmp a lp h = Some g \<and> permuted a lp h g \<and> ordered a lp g" for h
      by (rule less.hyps) (use b in simp)
    have r: "\<exists>g. qs1 cmp (hp + 1) l h = Some g \<and> permuted (hp + 1) l h g \<and> ordered (hp + 1) l g" for h
      by (rule less.hyps) (use b in simp)
    show ?thesis
    proof (cases "lp - a \<ge> l - hp")
      case True
      then show ?thesis using r [of f1] l both by metis
    next
      case False
      then show ?thesis using l [of f1] r both by metis
    qed
  qed
qed

end

text \<open>The order of \<^verbatim>\<open>strcmp\<close> on strings.\<close>

definition strcmp_val :: "u8 list \<Rightarrow> u8 list \<Rightarrow> int" where
  "strcmp_val xs ys = (if xs = ys then 0 else if schars xs < schars ys then - 1 else 1)"

lemma schars_inj: "schars xs = schars ys \<longleftrightarrow> xs = ys"
  by (auto simp: schars_def inj_map_eq_map inj_def signed_word_eqI)

interpretation strcmp_order: comparison strcmp_val
proof
  fix x y z :: "u8 list"
  show "strcmp_val x y < 0 \<longleftrightarrow> strcmp_val y x > 0"
    using schars_inj [of x y] by (auto simp: strcmp_val_def not_less_iff_gr_or_eq)
  have le: "strcmp_val x y \<le> 0 \<longleftrightarrow> schars x \<le> schars y" for x y
    using schars_inj [of x y] by (auto simp: strcmp_val_def)
  show "strcmp_val x y \<le> 0 \<Longrightarrow> strcmp_val y z \<le> 0 \<Longrightarrow> strcmp_val x z \<le> 0"
    unfolding le by (rule order_trans)
qed

interpretation int_order: comparison "\<lambda>x y :: int. x - y"
  by unfold_locales simp_all

end
