(* ===== verification/Libnum.thy ===== *)
theory Libnum
  imports Cstring
begin

text \<open>
  The numeric and character routines of \<^verbatim>\<open>lib/\<close>: \<^verbatim>\<open>abs.c\<close>, \<^verbatim>\<open>labs.c\<close>,
  \<^verbatim>\<open>atoi.c\<close>, \<^verbatim>\<open>atol.c\<close>, \<^verbatim>\<open>rand.c\<close> and the table of
  \<^verbatim>\<open>ctype_.c\<close> with the macros of \<^verbatim>\<open>ctype.h\<close>. \<^verbatim>\<open>int\<close> and
  \<^verbatim>\<open>long\<close> have 32 bits; arithmetic that overflows them is undefined and shows as the
  inner \<open>None\<close> of a result.
\<close>

section \<open>Absolute value\<close>

definition int32 :: "int \<Rightarrow> int option" where
  "int32 x = (if INT32_MIN \<le> x \<and> x \<le> INT32_MAX then Some x else None)"

definition abs_c :: "int \<Rightarrow> int option" where
  "abs_c arg = (if arg < 0 then int32 (- arg) else Some arg)"

definition labs_c :: "int \<Rightarrow> int option" where
  "labs_c arg = (if arg < 0 then int32 (- arg) else Some arg)"

lemma abs_c: "INT32_MIN < x \<Longrightarrow> x \<le> INT32_MAX \<Longrightarrow> abs_c x = Some \<bar>x\<bar>"
  by (simp add: abs_c_def int32_def)

lemma abs_c_min: "abs_c INT32_MIN = None"
  by (simp add: abs_c_def int32_def)

lemma labs_abs: "labs_c = abs_c"
  by (rule ext) (simp add: abs_c_def labs_c_def)

section \<open>Conversion from decimal\<close>

text \<open>Blanks and one sign: where the digits start and whether there was a minus.\<close>

partial_function (option) atoi_sign :: "memory \<Rightarrow> u32 \<Rightarrow> (u32 \<times> bool) option" where
  "atoi_sign m p =
     (if m p = 32 \<or> m p = 9 then atoi_sign m (p + 1)
      else if m p = 45 then Some (p + 1, True)
      else if m p = 43 then Some (p + 1, False)
      else Some (p, False))"

text \<open>The loop adds the character before it takes \<^verbatim>\<open>'0'\<close> off.\<close>

definition isdig :: "u8 \<Rightarrow> bool" where
  "isdig c \<longleftrightarrow> sint c \<ge> 48 \<and> sint c \<le> 57"

partial_function (option) atoi_digits :: "memory \<Rightarrow> u32 \<Rightarrow> int \<Rightarrow> int option option" where
  "atoi_digits m p n =
     (if isdig (m p) then
        (case int32 (n * 10) of None \<Rightarrow> Some None
         | Some t \<Rightarrow> (case int32 (t + sint (m p)) of None \<Rightarrow> Some None
            | Some u \<Rightarrow> atoi_digits m (p + 1) (u - 48)))
      else Some (Some n))"

definition atoi :: "memory \<Rightarrow> u32 \<Rightarrow> int option option" where
  "atoi m p =
     (case atoi_sign m p of None \<Rightarrow> None
      | Some (q, f) \<Rightarrow> (case atoi_digits m q 0 of None \<Rightarrow> None
         | Some None \<Rightarrow> Some None
         | Some (Some n) \<Rightarrow> Some (Some (if f then - n else n))))"

definition atol :: "memory \<Rightarrow> u32 \<Rightarrow> int option option" where
  "atol m p =
     (case atoi_sign m p of None \<Rightarrow> None
      | Some (q, f) \<Rightarrow> (case atoi_digits m q 0 of None \<Rightarrow> None
         | Some None \<Rightarrow> Some None
         | Some (Some n) \<Rightarrow> Some (Some (if f then - n else n))))"

text \<open>The value of a list of decimal digits.\<close>

definition decval :: "int \<Rightarrow> u8 list \<Rightarrow> int" where
  "decval = foldl (\<lambda>n c. n * 10 + (sint c - 48))"

lemma decval_simps [simp]: "decval n [] = n" "decval n (c # cs) = decval (n * 10 + (sint c - 48)) cs"
  by (simp_all add: decval_def)

lemma decval_append: "decval n (cs @ ds) = decval (decval n cs) ds"
  by (simp add: decval_def)

lemma decval_ge: "0 \<le> n \<Longrightarrow> list_all isdig cs \<Longrightarrow> n \<le> decval n cs"
proof (induction cs arbitrary: n)
  case (Cons c cs)
  then have "n * 10 + (sint c - 48) \<le> decval (n * 10 + (sint c - 48)) cs"
    by (intro Cons.IH) (auto simp: isdig_def)
  then show ?case using Cons.prems by (auto simp: isdig_def)
qed simp

lemma isdig_nonzero: "isdig c \<Longrightarrow> c \<noteq> 0"
  by (auto simp: isdig_def)

lemma atoi_digits_step:
  assumes "isdig (m p)" "0 \<le> n"
  shows "atoi_digits m p n =
     (if n * 10 + sint (m p) \<le> INT32_MAX then atoi_digits m (p + 1) (n * 10 + (sint (m p) - 48)) else Some None)"
proof -
  have r: "48 \<le> sint (m p)" "sint (m p) \<le> 57" using assms(1) by (simp_all add: isdig_def)
  show ?thesis
  proof (cases "n * 10 \<le> INT32_MAX")
    case True
    then show ?thesis using assms r by (subst atoi_digits.simps) (simp add: int32_def algebra_simps)
  next
    case False
    then have "int32 (n * 10) = None" "\<not> n * 10 + sint (m p) \<le> INT32_MAX" using r by (simp_all add: int32_def)
    then show ?thesis using assms by (subst atoi_digits.simps) simp
  qed
qed

lemma atoi_digits_stop: "\<not> isdig (m p) \<Longrightarrow> atoi_digits m p n = Some (Some n)"
  by (subst atoi_digits.simps) simp

lemma atoi_digits_val:
  "list_all isdig ds \<Longrightarrow> \<not> isdig (hd (rs @ [0])) \<Longrightarrow> cstr m p (ds @ rs) \<Longrightarrow> 0 \<le> n \<Longrightarrow> n \<le> INT32_MAX - 48 \<Longrightarrow>
     atoi_digits m p n = Some (if decval n ds + 48 \<le> INT32_MAX then Some (decval n ds) else None)"
proof (induction ds arbitrary: p n)
  case Nil
  then have "m p = hd (rs @ [0])" by (cases rs) simp_all
  then show ?case using Nil.prems by (simp add: atoi_digits_stop)
next
  case (Cons d ds)
  let ?n = "n * 10 + (sint d - 48)"
  have d: "m p = d" "isdig d" "list_all isdig ds" using Cons.prems by simp_all
  have "0 \<le> ?n" using d(2) Cons.prems(4) by (simp add: isdig_def)
  note d = d this
  show ?case
  proof (cases "n * 10 + sint d \<le> INT32_MAX")
    case True
    have "atoi_digits m (p + 1) ?n = Some (if decval ?n ds + 48 \<le> INT32_MAX then Some (decval ?n ds) else None)"
      by (rule Cons.IH) (use Cons.prems d True in simp_all)
    then show ?thesis using atoi_digits_step [of m p n] True Cons.prems d by simp
  next
    case False
    then show ?thesis using atoi_digits_step [of m p n] Cons.prems d decval_ge [OF d(4,3)] by simp
  qed
qed

definition blank :: "u8 \<Rightarrow> bool" where
  "blank c \<longleftrightarrow> c = 32 \<or> c = 9"

definition sign_of :: "u8 list \<Rightarrow> bool" where
  "sign_of sg \<longleftrightarrow> sg = [] \<or> sg = [45] \<or> sg = [43]"

lemma atoi_sign_cstr:
  "list_all blank bs \<Longrightarrow> sign_of sg \<Longrightarrow> list_all isdig ds \<Longrightarrow> ds \<noteq> [] \<Longrightarrow> cstr m p (bs @ sg @ ds @ rs) \<Longrightarrow>
     atoi_sign m p = Some (p + of_nat (length bs + length sg), sg = [45])"
proof (induction bs arbitrary: p)
  case Nil
  then show ?case
    by (cases ds) (auto simp: sign_of_def isdig_def atoi_sign.simps [of m p])
next
  case (Cons b bs)
  then have "atoi_sign m p = atoi_sign m (p + 1)" by (subst atoi_sign.simps) (auto simp: blank_def)
  then show ?case using Cons.IH [of "p + 1"] Cons.prems by (simp add: add.assoc)
qed

lemma atoi_cstr:
  assumes "list_all blank bs" "sign_of sg" "list_all isdig ds" "ds \<noteq> []" "\<not> isdig (hd (rs @ [0]))"
    and c: "cstr m p (bs @ sg @ ds @ rs)"
  shows "atoi m p = Some (if decval 0 ds + 48 \<le> INT32_MAX
      then Some (if sg = [45] then - decval 0 ds else decval 0 ds) else None)"
proof -
  have "cstr m (p + of_nat (length bs + length sg)) (ds @ rs)"
    using cstr_drop [OF c, of "length bs + length sg"] by simp
  then have "atoi_digits m (p + of_nat (length bs + length sg)) 0
      = Some (if decval 0 ds + 48 \<le> INT32_MAX then Some (decval 0 ds) else None)"
    by (intro atoi_digits_val [OF assms(3,5)]) simp_all
  then show ?thesis by (simp add: atoi_def atoi_sign_cstr [OF assms(1-4) c])
qed

lemma atol_atoi: "atol = atoi"
  by (intro ext) (simp add: atol_def atoi_def)

section \<open>Random numbers\<close>

text \<open>\<^verbatim>\<open>RAND_MAX\<close> is $2^{31} - 2$; the product is unsigned.\<close>

definition rand_r :: "u32 \<Rightarrow> u32 \<times> int" where
  "rand_r seed = (let s = (16807 * seed) mod 2147483647 in (s, sint s))"

definition rand :: "u32 \<Rightarrow> u32 \<times> int" where
  "rand seed = rand_r seed"

definition srand :: "u32 \<Rightarrow> u32" where
  "srand seed = seed"

lemma sint_u32_small: "uint (w :: u32) < 2147483648 \<Longrightarrow> sint w = uint w"
proof -
  assume "uint w < 2147483648"
  moreover have "- 2147483648 \<le> uint w" by (rule order_trans [OF _ uint_nonnegative]) simp
  ultimately show ?thesis unfolding sint_uint by (intro signed_take_bit_int_eq_self) simp_all
qed

lemma rand_r_range: "0 \<le> snd (rand_r seed) \<and> snd (rand_r seed) \<le> 2147483646"
proof -
  have u: "uint ((16807 * seed) mod 2147483647) = uint (16807 * seed) mod 2147483647"
    by (simp add: uint_mod)
  then have lt: "uint ((16807 * seed) mod 2147483647) < 2147483647" by simp
  then have "sint ((16807 * seed) mod 2147483647) = uint ((16807 * seed) mod 2147483647)"
    by (simp add: sint_u32_small)
  then show ?thesis using lt by (simp add: rand_r_def Let_def)
qed

section \<open>Character classes\<close>

abbreviation (input) CT_U :: u8 where "CT_U \<equiv> 0x01"
abbreviation (input) CT_L :: u8 where "CT_L \<equiv> 0x02"
abbreviation (input) CT_N :: u8 where "CT_N \<equiv> 0x04"
abbreviation (input) CT_S :: u8 where "CT_S \<equiv> 0x08"
abbreviation (input) CT_P :: u8 where "CT_P \<equiv> 0x10"
abbreviation (input) CT_C :: u8 where "CT_C \<equiv> 0x20"
abbreviation (input) CT_X :: u8 where "CT_X \<equiv> 0x40"

text \<open>The rows of the table, from \<^verbatim>\<open>EOF\<close> on.\<close>

definition ctype_tab :: "u8 list" where
  "ctype_tab =
     [0] @ replicate 8 CT_C @ [CT_C] @ replicate 5 CT_S @ replicate 2 CT_C @ replicate 16 CT_C
     @ [CT_S] @ replicate 15 CT_P @ replicate 10 CT_N @ replicate 6 CT_P
     @ [CT_P] @ replicate 6 0x41 @ [CT_U] @ replicate 8 CT_U @ replicate 8 CT_U @ replicate 3 CT_U @ replicate 5 CT_P
     @ [CT_P]  @ replicate 6 0x42 @ [CT_L] @ replicate 8 CT_L @ replicate 8 CT_L @ replicate 3 CT_L @ replicate 4 CT_P @ [CT_C]"

definition ctype_of :: "int \<Rightarrow> u8" where
  "ctype_of c = ctype_tab ! nat (c + 1)"

definition isalpha :: "int \<Rightarrow> bool" where "isalpha c \<longleftrightarrow> and (ctype_of c) 0x03 \<noteq> 0"
definition isupper :: "int \<Rightarrow> bool" where "isupper c \<longleftrightarrow> and (ctype_of c) CT_U \<noteq> 0"
definition islower :: "int \<Rightarrow> bool" where "islower c \<longleftrightarrow> and (ctype_of c) CT_L \<noteq> 0"
definition isdigit :: "int \<Rightarrow> bool" where "isdigit c \<longleftrightarrow> and (ctype_of c) CT_N \<noteq> 0"
definition isxdigit :: "int \<Rightarrow> bool" where "isxdigit c \<longleftrightarrow> and (ctype_of c) 0x44 \<noteq> 0"
definition isspace :: "int \<Rightarrow> bool" where "isspace c \<longleftrightarrow> and (ctype_of c) CT_S \<noteq> 0"
definition ispunct :: "int \<Rightarrow> bool" where "ispunct c \<longleftrightarrow> and (ctype_of c) CT_P \<noteq> 0"
definition isalnum :: "int \<Rightarrow> bool" where "isalnum c \<longleftrightarrow> and (ctype_of c) 0x07 \<noteq> 0"
definition isprint :: "int \<Rightarrow> bool" where "isprint c \<longleftrightarrow> and (ctype_of c) 0x1F \<noteq> 0"
definition iscntrl :: "int \<Rightarrow> bool" where "iscntrl c \<longleftrightarrow> and (ctype_of c) CT_C \<noteq> 0"

lemma length_ctype_tab: "length ctype_tab = 129"
  by (simp add: ctype_tab_def)

definition ctype_spec :: "int \<Rightarrow> bool" where
  "ctype_spec c \<longleftrightarrow>
     (isupper c \<longleftrightarrow> 65 \<le> c \<and> c \<le> 90) \<and> (islower c \<longleftrightarrow> 97 \<le> c \<and> c \<le> 122)
     \<and> (isdigit c \<longleftrightarrow> 48 \<le> c \<and> c \<le> 57)
     \<and> (isxdigit c \<longleftrightarrow> 48 \<le> c \<and> c \<le> 57 \<or> 65 \<le> c \<and> c \<le> 70 \<or> 97 \<le> c \<and> c \<le> 102)
     \<and> (isspace c \<longleftrightarrow> c = 32 \<or> 9 \<le> c \<and> c \<le> 13)
     \<and> (iscntrl c \<longleftrightarrow> c = 127 \<or> 0 \<le> c \<and> c < 32 \<and> \<not> isspace c)
     \<and> (isalpha c \<longleftrightarrow> isupper c \<or> islower c) \<and> (isalnum c \<longleftrightarrow> isalpha c \<or> isdigit c)
     \<and> (ispunct c \<longleftrightarrow> isprint c \<and> \<not> isalnum c \<and> \<not> isspace c)"

lemma ctype_all: "list_all ctype_spec [- 1..127]"
  by code_simp

lemma ctype_ok: "- 1 \<le> c \<Longrightarrow> c < 128 \<Longrightarrow> ctype_spec c"
  using ctype_all by (simp add: list_all_iff)

end
