(* ===== verification/Doprnt.thy ===== *)
theory Doprnt
  imports Libnum "HOL-Library.Signed_Division" "HOL-Library.Monad_Syntax"
begin

text \<open>
  Formatted output: \<^verbatim>\<open>lib/doprnt.c\<close> (behind \<^verbatim>\<open>kprintf\<close>) and
  \<^verbatim>\<open>lib/fdoprnt.c\<close> (behind \<^verbatim>\<open>sprintf\<close>). The output of the first is the
  list of characters handed to the output function, which does not write to the memory the format
  is in. The second, which \<^verbatim>\<open>sprintf\<close> lets write to memory, is a function of its output
  function and of the state that one changes: each character of the format and of a string is read
  when the code reads it. The arguments are a list of 32-bit words; the buffer
  \<^verbatim>\<open>string[20]\<close> is kept, with what each byte holds if it has been written, because it
  outlives one conversion. \<open>None\<close> is a run that does not return normally: an operation C leaves
  undefined (a write past the buffer, a read of a byte never written, a missing argument, an
  overflow) or a loop that does not end. The floating-point arithmetic of \<^verbatim>\<open>_prtdbl\<close> is the
  parameter \<open>dbl\<close>: of the two words of the argument it gives the sign and the two integers printed.
\<close>

unbundle bit_operations_syntax

section \<open>Conversion of numbers\<close>

text \<open>
  The routines fill \<^verbatim>\<open>temp\<close> from index 1, least digit first, with a null byte at index 0;
  then \<open>scan_top\<close> looks for the leading digit and \<open>out_digits\<close> copies from there down to the null.
\<close>

primrec scan_top :: "u8 list \<Rightarrow> nat \<Rightarrow> nat" where
  "scan_top temp 0 = 0"
| "scan_top temp (Suc i) = (if temp ! Suc i = 48 then scan_top temp i else Suc i)"

definition out_digits :: "u8 list \<Rightarrow> nat \<Rightarrow> u8 list" where
  "out_digits temp n =
     (let i = scan_top temp n; i = (if i = 0 then 1 else i) in rev (take (Suc i) temp))"

definition chr :: "int \<Rightarrow> u8" where
  "chr d = word_of_int (d + 48)"

primrec digs10 :: "nat \<Rightarrow> int \<Rightarrow> u8 list" where
  "digs10 0 num = []"
| "digs10 (Suc k) num = chr (num smod 10) # digs10 k (num sdiv 10)"

definition prtl10 :: "int \<Rightarrow> u8 list" where
  "prtl10 num =
     (let d = (if num < 0 then - (num smod 10) else num smod 10);
          num1 = num sdiv (if num < 0 then - 10 else 10)
      in out_digits (0 # chr d # digs10 9 num1) 10)"

text \<open>The one of \<^verbatim>\<open>fdoprnt.c\<close> does without the case of a negative number.\<close>

definition fprtl10 :: "int \<Rightarrow> u8 list" where
  "fprtl10 num = out_digits (0 # digs10 10 num) 10"

primrec digs8 :: "nat \<Rightarrow> int \<Rightarrow> u8 list" where
  "digs8 0 num = []"
| "digs8 (Suc k) num = chr (num AND 7) # digs8 k (drop_bit 3 num)"

definition prtl8 :: "int \<Rightarrow> u8 list" where
  "prtl8 num =
     (let temp = 0 # digs8 11 num; temp1 = temp[11 := temp ! 11 AND 51] in out_digits temp1 11)"

definition lower_hex :: "int \<Rightarrow> u8" where
  "lower_hex d = [48, 49, 50, 51, 52, 53, 54, 55, 56, 57, 97, 98, 99, 100, 101, 102] ! nat d"

definition upper_hex :: "int \<Rightarrow> u8" where
  "upper_hex d = [48, 49, 50, 51, 52, 53, 54, 55, 56, 57, 65, 66, 67, 68, 69, 70] ! nat d"

primrec digs16 :: "(int \<Rightarrow> u8) \<Rightarrow> nat \<Rightarrow> int \<Rightarrow> u8 list" where
  "digs16 hex 0 num = []"
| "digs16 hex (Suc k) num = hex (num AND 15) # digs16 hex k (drop_bit 4 num)"

definition prtl16 :: "int \<Rightarrow> u8 list" where
  "prtl16 num = out_digits (0 # digs16 lower_hex 8 num) 8"

definition prtX16 :: "int \<Rightarrow> u8 list" where
  "prtX16 num = out_digits (0 # digs16 upper_hex 8 num) 8"

primrec digs2 :: "nat \<Rightarrow> int \<Rightarrow> u8 list" where
  "digs2 0 num = []"
| "digs2 (Suc k) num = (if num smod 2 = 0 then 48 else 49) # digs2 k (drop_bit 1 num)"

definition prtl2 :: "int \<Rightarrow> u8 list" where
  "prtl2 num = out_digits (0 # digs2 32 num) 32"

text \<open>\<^verbatim>\<open>_prtdbl\<close>: the integer part, a point, and the first six decimals as a number.\<close>

definition prtdbl :: "int \<Rightarrow> int \<Rightarrow> u8 list" where
  "prtdbl w p = butlast (prtl10 w) @ [46] @ prtl10 p"

section \<open>One conversion specification\<close>

partial_function (option) fmt_num :: "memory \<Rightarrow> u32 \<Rightarrow> int \<Rightarrow> (int \<times> u32) option" where
  "fmt_num m p n =
     (if isdig (m p)
      then Option.bind (int32 (n * 10)) (\<lambda>t. Option.bind (int32 (t + sint (m p))) (\<lambda>u. fmt_num m (p + 1) (u - 48)))
      else Some (n, p))"

definition va_arg :: "u32 list \<Rightarrow> (int \<times> u32 list) option" where
  "va_arg ap = (case ap of [] \<Rightarrow> None | a # ap' \<Rightarrow> Some (sint a, ap'))"

record fspec =
  leftjust :: bool
  fillc :: u8
  fmin :: int
  fmax :: int
  fmtp :: u32
  fap :: "u32 list"

definition parse_spec :: "memory \<Rightarrow> u32 \<Rightarrow> u32 list \<Rightarrow> fspec option" where
  "parse_spec m p ap =
     (let lj = (m p = 45); p1 = (if lj then p + 1 else p);
          z = (m p1 = 48); p2 = (if z then p1 + 1 else p1)
      in do {
        (mn, p3, ap1) \<leftarrow> (if m p2 = 42 then do { (v, a) \<leftarrow> va_arg ap; Some (v, p2 + 1, a) }
                        else do { (v, q) \<leftarrow> fmt_num m p2 0; Some (v, q, ap) });
        (mx, p4, ap2) \<leftarrow> (if m p3 = 46 then
             (if m (p3 + 1) = 42 then do { (v, a) \<leftarrow> va_arg ap1; Some (v, p3 + 2, a) }
              else do { (v, q) \<leftarrow> fmt_num m (p3 + 1) 0; Some (v, q, ap1) })
           else Some (0, p3, ap1));
        Some \<lparr>leftjust = lj, fillc = (if z then 48 else 32), fmin = mn, fmax = mx, fmtp = p4, fap = ap2\<rparr> })"

text \<open>
  Where the converted string is: in the buffer, in the program's memory, or the constant
  \<^verbatim>\<open>"(null)"\<close>.
\<close>

datatype strsrc = Buf | Mem u32 | Nulls

type_synonym sbuf = "nat \<Rightarrow> u8 option"

definition buf_put :: "nat \<Rightarrow> u8 list \<Rightarrow> sbuf \<Rightarrow> sbuf option" where
  "buf_put off xs b =
     (if off + length xs \<le> 20
      then Some (\<lambda>i. if off \<le> i \<and> i < off + length xs then Some (xs ! (i - off)) else b i) else None)"

primrec buf_str :: "nat \<Rightarrow> nat \<Rightarrow> sbuf \<Rightarrow> u8 list option" where
  "buf_str 0 i b = None"
| "buf_str (Suc k) i b =
     (case b i of None \<Rightarrow> None
      | Some c \<Rightarrow> if c = 0 then Some [] else map_option (Cons c) (buf_str k (Suc i) b))"

partial_function (option) mem_str :: "memory \<Rightarrow> u32 \<Rightarrow> u8 list \<Rightarrow> u8 list option" where
  "mem_str m a xs = (if m a \<noteq> 0 then mem_str m (a + 1) (xs @ [m a]) else Some xs)"

definition src_str :: "memory \<Rightarrow> strsrc \<Rightarrow> sbuf \<Rightarrow> u8 list option" where
  "src_str m src b =
     (case src of Buf \<Rightarrow> buf_str 20 0 b
      | Mem a \<Rightarrow> mem_str m a []
      | Nulls \<Rightarrow> Some [40, 110, 117, 108, 108, 41])"

text \<open>The result of the \<^verbatim>\<open>switch\<close>: what is echoed at once, and the settings changed.\<close>

record conv =
  cecho :: "u8 list"
  csrc :: strsrc
  cbuf :: sbuf
  csign :: bool
  cfill :: u8
  cmax :: int
  cap :: "u32 list"

definition conv_c :: "fspec \<Rightarrow> sbuf \<Rightarrow> conv option" where
  "conv_c s b =
     do { (v, ap) \<leftarrow> va_arg (fap s);
          b1 \<leftarrow> buf_put 0 [word_of_int v, 0] b;
          Some \<lparr>cecho = [], csrc = Buf, cbuf = b1, csign = False, cfill = 32, cmax = 0, cap = ap\<rparr> }"

definition conv_s :: "fspec \<Rightarrow> sbuf \<Rightarrow> conv option" where
  "conv_s s b =
     do { (v, ap) \<leftarrow> va_arg (fap s);
          Some \<lparr>cecho = [], csrc = (if v = 0 then Nulls else Mem (word_of_int v)), cbuf = b, csign = False,
                cfill = 32, cmax = fmax s, cap = ap\<rparr> }"

definition conv_num :: "(int \<Rightarrow> u8 list) \<Rightarrow> fspec \<Rightarrow> sbuf \<Rightarrow> conv option" where
  "conv_num prt s b =
     do { (v, ap) \<leftarrow> va_arg (fap s);
          b1 \<leftarrow> buf_put 0 (prt v) b;
          Some \<lparr>cecho = [], csrc = Buf, cbuf = b1, csign = False, cfill = fillc s, cmax = 0, cap = ap\<rparr> }"

text \<open>Two words in hexadecimal, the second from the ninth byte of the buffer on.\<close>

definition conv_two :: "(int \<Rightarrow> u8 list) \<Rightarrow> fspec \<Rightarrow> sbuf \<Rightarrow> conv option" where
  "conv_two prt s b =
     do { (v, ap) \<leftarrow> va_arg (fap s);
          b1 \<leftarrow> buf_put 0 (prt v) b;
          (w, ap1) \<leftarrow> va_arg ap;
          b2 \<leftarrow> buf_put 8 (prt w) b1;
          Some \<lparr>cecho = [], csrc = Buf, cbuf = b2, csign = False, cfill = fillc s, cmax = 0, cap = ap1\<rparr> }"

text \<open>
  For \<^verbatim>\<open>%u\<close> the code takes $10^9$ off a word with the sign bit until the bit is clear,
  relying on wrap-around, and adds the count to the first digit.
\<close>

lemma i32_wrap_low: "- 6442450944 \<le> y \<Longrightarrow> y < INT32_MIN \<Longrightarrow> i32 y = y + 4294967296"
proof -
  assume y: "- 6442450944 \<le> y" "y < INT32_MIN"
  have "(y + 2147483648) mod 4294967296 = (y + 2147483648 + 4294967296) mod 4294967296"
    by (rule mod_add_self2 [symmetric])
  also have "\<dots> = y + 2147483648 + 4294967296" by (rule mod_pos_pos_trivial) (use y in simp_all)
  finally show ?thesis by (simp add: i32_def)
qed

function usub :: "int \<Rightarrow> int \<Rightarrow> int \<times> int" where
  "usub larg d = (if larg < 0 then usub (i32 (larg - 1000000000)) (d + 1) else (larg, d))"
  by pat_completeness auto
termination
proof (relation "measure (\<lambda>(l, d). if l \<ge> 0 then 0 else if l \<ge> INT32_MIN then nat (l + 2147483649) else 4294967296)")
  fix larg d :: int assume l: "larg < 0"
  let ?x = "i32 (larg - 1000000000)"
  have r: "INT32_MIN \<le> ?x" "?x \<le> INT32_MAX" by (simp_all add: i32_def)
  have "?x < larg" if "INT32_MIN \<le> larg" "?x < 0"
  proof (cases "larg - 1000000000 \<ge> INT32_MIN")
    case True
    then have "?x = larg - 1000000000" using l by (simp add: i32_def)
    then show ?thesis by simp
  next
    case False
    have "?x = (larg - 1000000000 + 4294967296)" by (rule i32_wrap_low) (use that(1) False in simp_all)
    then show ?thesis using that by simp
  qed
  then show "((?x, d + 1), larg, d) \<in> measure (\<lambda>(l, d). if l \<ge> 0 then 0 else if l \<ge> INT32_MIN then nat (l + 2147483649) else 4294967296)"
    using r l by auto
qed simp

declare usub.simps [simp del]

definition prt_u :: "(int \<Rightarrow> u8 list) \<Rightarrow> int \<Rightarrow> u8 list" where
  "prt_u prt v =
     (let (larg, d) = usub v 0; str = prt larg in str[0 := str ! 0 + word_of_int d])"

text \<open>\<^verbatim>\<open>%d\<close>: the one of \<^verbatim>\<open>doprnt.c\<close>, and the one of \<^verbatim>\<open>fdoprnt.c\<close>, which negates.\<close>

definition conv_d :: "fspec \<Rightarrow> sbuf \<Rightarrow> conv option" where
  "conv_d s b =
     do { (v, ap) \<leftarrow> va_arg (fap s);
          b1 \<leftarrow> buf_put 0 (prtl10 v) b;
          Some \<lparr>cecho = [], csrc = Buf, cbuf = b1, csign = v < 0, cfill = fillc s, cmax = fmax s, cap = ap\<rparr> }"

definition fconv_d :: "fspec \<Rightarrow> sbuf \<Rightarrow> conv option" where
  "fconv_d s b =
     do { (v, ap) \<leftarrow> va_arg (fap s);
          larg \<leftarrow> (if v < 0 then int32 (- v) else Some v);
          b1 \<leftarrow> buf_put 0 (fprtl10 larg) b;
          Some \<lparr>cecho = [], csrc = Buf, cbuf = b1, csign = v < 0, cfill = fillc s, cmax = fmax s, cap = ap\<rparr> }"

definition conv_f :: "(u32 \<Rightarrow> u32 \<Rightarrow> bool \<times> int \<times> int) \<Rightarrow> fspec \<Rightarrow> sbuf \<Rightarrow> conv option" where
  "conv_f dbl s b =
     do { (lo, ap) \<leftarrow> va_arg (fap s);
          (hi, ap1) \<leftarrow> va_arg ap;
          let (neg, w, p) = dbl (word_of_int lo) (word_of_int hi);
          b1 \<leftarrow> buf_put 0 (prtdbl w p) b;
          Some \<lparr>cecho = [], csrc = Buf, cbuf = b1, csign = neg, cfill = fillc s, cmax = fmax s, cap = ap1\<rparr> }"

text \<open>An unknown character is echoed, and then the buffer as it is.\<close>

definition conv_other :: "u8 \<Rightarrow> fspec \<Rightarrow> sbuf \<Rightarrow> conv option" where
  "conv_other f s b =
     Some \<lparr>cecho = [f], csrc = Buf, cbuf = b, csign = False, cfill = fillc s, cmax = fmax s, cap = fap s\<rparr>"

definition conv_do :: "(u32 \<Rightarrow> u32 \<Rightarrow> bool \<times> int \<times> int) \<Rightarrow> u8 \<Rightarrow> fspec \<Rightarrow> sbuf \<Rightarrow> conv option" where
  "conv_do dbl f s b =
     (if f = 99 then conv_c s b
      else if f = 115 then conv_s s b
      else if f = 100 then conv_d s b
      else if f = 102 then conv_f dbl s b
      else if f = 117 then conv_num (prt_u prtl10) s b
      else if f = 111 then conv_num prtl8 s b
      else if f = 88 then conv_num prtX16 s b
      else if f = 120 then conv_num prtl16 s b
      else if f = 72 then conv_two prtX16 s b
      else if f = 104 then conv_two prtl16 s b
      else if f = 98 then conv_num prtl2 s b
      else conv_other f s b)"

definition fconv_do :: "u8 \<Rightarrow> fspec \<Rightarrow> sbuf \<Rightarrow> conv option" where
  "fconv_do f s b =
     (if f = 99 then conv_c s b
      else if f = 115 then conv_s s b
      else if f = 100 then fconv_d s b
      else if f = 117 then conv_num (prt_u fprtl10) s b
      else if f = 111 then conv_num prtl8 s b
      else if f = 88 then conv_num prtX16 s b
      else if f = 120 then conv_num prtl16 s b
      else if f = 98 then conv_num prtl2 s b
      else conv_other f s b)"

text \<open>The end of the loop: the field width, the fill characters and the sign.\<close>

definition clip :: "int \<Rightarrow> int" where
  "clip w = (if w > 80 \<or> w < 0 then 0 else w)"

definition emit :: "fspec \<Rightarrow> conv \<Rightarrow> u8 list \<Rightarrow> u8 list" where
  "emit s c str =
     (let mn = clip (fmin s); mx = clip (cmax c);
          len = (if mx \<noteq> 0 \<and> int (length str) > mx then mx else int (length str));
          leading = (if mx \<noteq> 0 \<or> mn \<noteq> 0
            then (if mn \<noteq> 0 then mn - len else 0) - (if csign c then 1 else 0) else 0)
      in (if csign c \<and> cfill c = 48 then [45] else [])
         @ (if \<not> leftjust s then replicate (nat leading) (cfill c) else [])
         @ (if csign c \<and> cfill c = 32 then [45] else [])
         @ take (nat len) str
         @ (if leftjust s then replicate (nat leading) (cfill c) else []))"

section \<open>The loop over the format\<close>

partial_function (option) doprnt_loop ::
    "(u8 \<Rightarrow> fspec \<Rightarrow> sbuf \<Rightarrow> conv option) \<Rightarrow> memory \<Rightarrow> u32 \<Rightarrow> u32 list \<Rightarrow> sbuf \<Rightarrow> u8 list \<Rightarrow> u8 list option" where
  "doprnt_loop cv m fmt ap b out =
     (if m fmt \<noteq> 37 then (if m fmt = 0 then Some out else doprnt_loop cv m (fmt + 1) ap b (out @ [m fmt]))
      else if m (fmt + 1) = 37 then doprnt_loop cv m (fmt + 2) ap b (out @ [37])
      else Option.bind (parse_spec m (fmt + 1) ap) (\<lambda>s.
        if m (fmtp s) = 0 then Some (out @ [37])
        else Option.bind (cv (m (fmtp s)) s b) (\<lambda>c.
          Option.bind (src_str m (csrc c) (cbuf c)) (\<lambda>str.
            doprnt_loop cv m (fmtp s + 1) (cap c) (cbuf c) (out @ cecho c @ emit s c str)))))"

definition doprnt :: "(u32 \<Rightarrow> u32 \<Rightarrow> bool \<times> int \<times> int) \<Rightarrow> memory \<Rightarrow> u32 \<Rightarrow> u32 list \<Rightarrow> u8 list option" where
  "doprnt dbl m fmt ap = doprnt_loop (conv_do dbl) m fmt ap (\<lambda>i. None) []"

section \<open>Output through a function that writes to memory\<close>

text \<open>
  \<^verbatim>\<open>_fdoprnt\<close> calls \<open>func\<close> for each character, one after the other, and the state
  \<open>s\<close> behind \<^verbatim>\<open>farg\<close> goes from call to call; \<open>mem s\<close> is the memory in it. The format
  and the string of a \<^verbatim>\<open>%s\<close> are read from the memory as the calls so far have left it, so
  a target that overlaps them changes what is read next. The arguments and the buffer are on the
  stack, apart from that memory.
\<close>

primrec fill_out :: "(u8 \<Rightarrow> 's \<Rightarrow> 's) \<Rightarrow> nat \<Rightarrow> u8 \<Rightarrow> 's \<Rightarrow> 's" where
  "fill_out func 0 c s = s"
| "fill_out func (Suc n) c s = fill_out func n c (func c s)"

definition src_at :: "memory \<Rightarrow> strsrc \<Rightarrow> sbuf \<Rightarrow> nat \<Rightarrow> u8 option" where
  "src_at m src b i =
     (case src of Buf \<Rightarrow> b i
      | Mem a \<Rightarrow> Some (m (a + of_nat i))
      | Nulls \<Rightarrow> if i < 6 then Some ([40, 110, 117, 108, 108, 41] ! i) else None)"

primrec copy_out :: "(u8 \<Rightarrow> 's \<Rightarrow> 's) \<Rightarrow> ('s \<Rightarrow> memory) \<Rightarrow> strsrc \<Rightarrow> sbuf \<Rightarrow> nat \<Rightarrow> nat \<Rightarrow> 's \<Rightarrow> 's option" where
  "copy_out func mem src b 0 i s = Some s"
| "copy_out func mem src b (Suc n) i s =
     Option.bind (src_at (mem s) src b i) (\<lambda>c. copy_out func mem src b n (Suc i) (func c s))"

definition femit :: "(u8 \<Rightarrow> 's \<Rightarrow> 's) \<Rightarrow> ('s \<Rightarrow> memory) \<Rightarrow> fspec \<Rightarrow> conv \<Rightarrow> nat \<Rightarrow> 's \<Rightarrow> 's option" where
  "femit func mem f c n s =
     (let mn = clip (fmin f); mx = clip (cmax c);
          len = (if mx \<noteq> 0 \<and> int n > mx then mx else int n);
          leading = (if mx \<noteq> 0 \<or> mn \<noteq> 0
            then (if mn \<noteq> 0 then mn - len else 0) - (if csign c then 1 else 0) else 0);
          s1 = (if csign c \<and> cfill c = 48 then func 45 s else s);
          s2 = (if \<not> leftjust f then fill_out func (nat leading) (cfill c) s1 else s1);
          s3 = (if csign c \<and> cfill c = 32 then func 45 s2 else s2)
      in do {
        s4 \<leftarrow> copy_out func mem (csrc c) (cbuf c) (nat len) 0 s3;
        Some (if leftjust f then fill_out func (nat leading) (cfill c) s4 else s4) })"

partial_function (option) fdoprnt_loop ::
    "(u8 \<Rightarrow> 's \<Rightarrow> 's) \<Rightarrow> ('s \<Rightarrow> memory) \<Rightarrow> u32 \<Rightarrow> u32 list \<Rightarrow> sbuf \<Rightarrow> 's \<Rightarrow> 's option" where
  "fdoprnt_loop func mem fmt ap b s =
     (let ch = mem s fmt in
      if ch \<noteq> 37 then (if ch = 0 then Some s else fdoprnt_loop func mem (fmt + 1) ap b (func ch s))
      else if mem s (fmt + 1) = 37 then fdoprnt_loop func mem (fmt + 2) ap b (func 37 s)
      else Option.bind (parse_spec (mem s) (fmt + 1) ap) (\<lambda>f.
        let l = mem s (fmtp f) in
        if l = 0 then Some (func 37 s)
        else Option.bind (fconv_do l f b) (\<lambda>c.
          let s1 = fold func (cecho c) s in
          Option.bind (src_str (mem s1) (csrc c) (cbuf c)) (\<lambda>str.
            Option.bind (femit func mem f c (length str) s1) (\<lambda>s2.
              fdoprnt_loop func mem (fmtp f + 1) (cap c) (cbuf c) s2)))))"

definition fdoprnt :: "u32 \<Rightarrow> u32 list \<Rightarrow> (u8 \<Rightarrow> 's \<Rightarrow> 's) \<Rightarrow> ('s \<Rightarrow> memory) \<Rightarrow> 's \<Rightarrow> 's option" where
  "fdoprnt fmt ap func mem s = fdoprnt_loop func mem fmt ap (\<lambda>i. None) s"

text \<open>
  The output function of \<^verbatim>\<open>sprintf\<close> stores the character at the target pointer and steps
  it; \<^verbatim>\<open>sprintf\<close> adds the null byte at the end.
\<close>

definition sprntf :: "u8 \<Rightarrow> memory \<times> u32 \<Rightarrow> memory \<times> u32" where
  "sprntf c = (\<lambda>(m, s). (m(s := c), s + 1))"

definition sprintf :: "memory \<Rightarrow> u32 \<Rightarrow> u32 \<Rightarrow> u32 list \<Rightarrow> (memory \<times> u32) option" where
  "sprintf m str fmt ap =
     do { (m1, s) \<leftarrow> fdoprnt fmt ap sprntf fst (m, str); Some (m1(s := 0), str) }"

section \<open>Positional notation\<close>

function digits :: "nat \<Rightarrow> nat \<Rightarrow> nat list" where
  "digits b v = (if v < b \<or> b < 2 then [v] else digits b (v div b) @ [v mod b])"
  by pat_completeness auto
termination by (relation "measure snd") (auto intro: div_less_dividend)

declare digits.simps [simp del]

lemma digits_not_Nil [simp]: "digits b v \<noteq> []"
  by (subst digits.simps) simp

text \<open>The \<open>k\<close> least significant digits, and the leading zeros taken off.\<close>

primrec lsd :: "nat \<Rightarrow> nat \<Rightarrow> nat \<Rightarrow> nat list" where
  "lsd b 0 v = []"
| "lsd b (Suc k) v = (v mod b) # lsd b k (v div b)"

definition norm :: "nat list \<Rightarrow> nat list" where
  "norm ds = (let r = dropWhile (\<lambda>d. d = 0) (rev ds) in if r = [] then [hd ds] else r)"

lemma lsd_0: "lsd b k 0 = replicate k 0"
  by (induction k) simp_all

lemma norm_lsd: "2 \<le> b \<Longrightarrow> v < b ^ Suc k \<Longrightarrow> norm (lsd b (Suc k) v) = digits b v"
proof (induction k arbitrary: v)
  case 0
  then show ?case by (simp add: norm_def Let_def digits.simps)
next
  case (Suc k)
  show ?case
  proof (cases "v < b")
    case True
    then show ?thesis using Suc.prems(1)
      by (simp add: norm_def Let_def digits.simps [of b v] lsd_0 dropWhile_append)
  next
    case False
    have "v div b < b ^ Suc k" using Suc.prems by (simp add: less_mult_imp_div_less mult.commute)
    then have IH: "norm (lsd b (Suc k) (v div b)) = digits b (v div b)" using Suc.IH Suc.prems(1) by blast
    have ne: "\<exists>x\<in>set (lsd b (Suc k) (v div b)). x \<noteq> 0"
    proof (rule ccontr)
      assume "\<not> ?thesis"
      then have z: "\<forall>x\<in>set (lsd b (Suc k) (v div b)). x = 0" by blast
      then have "norm (lsd b (Suc k) (v div b)) = [0]" by (auto simp: norm_def Let_def dropWhile_eq_Nil_conv)
      then have "digits b (v div b) = [0]" using IH by simp
      then have "v div b = 0" by (auto simp: digits.simps [of b "v div b"] split: if_splits)
      then show False using False Suc.prems(1) by (auto simp: div_eq_0_iff)
    qed
    have "norm (lsd b (Suc (Suc k)) v) = norm (lsd b (Suc k) (v div b)) @ [v mod b]"
      using ne by (auto simp: norm_def Let_def dropWhile_append dropWhile_eq_Nil_conv simp del: lsd.simps(2))
        (auto simp: dropWhile_append)
    then show ?thesis using IH Suc.prems(1) False by (simp add: digits.simps [of b v])
  qed
qed

text \<open>What \<open>out_digits\<close> makes of the digits, for any characters that mark zero by \<^verbatim>\<open>'0'\<close> alone.\<close>

lemma scan_top_dropWhile:
  assumes "\<forall>d. d \<in> set ds \<longrightarrow> (f d = 48 \<longleftrightarrow> d = 0)"
  shows "scan_top (0 # map f ds @ zs) (length ds) = length (dropWhile (\<lambda>d. d = 0) (rev ds))"
  using assms
proof (induction ds arbitrary: zs rule: rev_induct)
  case (snoc d ds)
  have "(0 # map f (ds @ [d]) @ zs) ! Suc (length ds) = f d" by (simp add: nth_append)
  then show ?case using snoc.prems snoc.IH [of "f d # zs"] by (auto simp: scan_top.simps)
qed simp

lemma dropWhile_rev_take: "rev (take (length (dropWhile P (rev ds))) ds) = dropWhile P (rev ds)"
  by (simp add: rev_take dropWhile_eq_drop) (metis diff_diff_cancel length_rev length_takeWhile_le)

lemma out_digits_norm:
  assumes "\<forall>d. d \<in> set ds \<longrightarrow> (f d = 48 \<longleftrightarrow> d = 0)" "ds \<noteq> []"
  shows "out_digits (0 # map f ds) (length ds) = map f (norm ds) @ [0]"
proof -
  let ?r = "dropWhile (\<lambda>d. d = 0) (rev ds)"
  have s: "scan_top (0 # map f ds) (length ds) = length ?r"
    using scan_top_dropWhile [OF assms(1), of "[]"] by simp
  show ?thesis
  proof (cases "?r = []")
    case True
    then have "out_digits (0 # map f ds) (length ds) = rev (take 2 (0 # map f ds))" by (simp add: out_digits_def s numeral_2_eq_2)
    then show ?thesis using assms(2) True by (cases ds) (simp_all add: norm_def Let_def)
  next
    case False
    have n: "norm ds = ?r" by (simp only: norm_def Let_def False if_False)
    have "length ?r \<noteq> 0" by (simp only: length_0_conv False not_False_eq_True)
    then have "out_digits (0 # map f ds) (length ds) = rev (map f (take (length ?r) ds)) @ [0]"
      by (auto simp: out_digits_def s take_map)
    then show ?thesis unfolding n by (simp add: rev_map dropWhile_rev_take)
  qed
qed

lemma lsd_less: "2 \<le> b \<Longrightarrow> d \<in> set (lsd b k v) \<Longrightarrow> d < b"
  by (induction k arbitrary: v) auto

lemma length_lsd [simp]: "length (lsd b k v) = k"
  by (induction k arbitrary: v) simp_all

lemma out_digits_lsd:
  assumes "\<forall>d<b. f d = 48 \<longleftrightarrow> d = 0" "2 \<le> b" "v < b ^ k" "0 < k"
  shows "out_digits (0 # map f (lsd b k v)) k = map f (digits b v) @ [0]"
proof -
  have ne: "lsd b k v \<noteq> []" using assms(4) length_lsd [of b k v] by (metis less_not_refl list.size(3))
  have "norm (lsd b k v) = digits b v" using norm_lsd [OF assms(2), of v "k - 1"] assms(3,4) by simp
  then show ?thesis using out_digits_norm [of "lsd b k v" f, OF _ ne] lsd_less [OF assms(2)] assms(1) by simp
qed

definition dchar :: "nat \<Rightarrow> u8" where
  "dchar d = chr (int d)"

lemma uint_chr: "0 \<le> d \<Longrightarrow> d < 80 \<Longrightarrow> uint (chr d) = d + 48"
  unfolding chr_def by (subst uint_word_of_int_eq) (simp add: take_bit_int_eq_self)

lemma chr_eq_48: "0 \<le> d \<Longrightarrow> d < 80 \<Longrightarrow> chr d = 48 \<longleftrightarrow> d = 0"
  using uint_chr [of d] by (auto simp: word_uint_eq_iff)

lemma dchar_zero: "b \<le> 10 \<Longrightarrow> \<forall>d<b. dchar d = 48 \<longleftrightarrow> d = 0"
  by (simp add: dchar_def chr_eq_48)

section \<open>The number conversions print positional notation\<close>

lemma quot10: "0 \<le> (n :: int) \<Longrightarrow> n smod 10 = n mod 10" "0 \<le> (n :: int) \<Longrightarrow> n sdiv 10 = n div 10"
proof -
  assume "0 \<le> n"
  then show "n sdiv 10 = n div 10" by (cases "n = 0") (simp_all add: signed_divide_int_def)
  then show "n smod 10 = n mod 10" using \<open>0 \<le> n\<close>
    by (cases "n = 0") (simp_all add: signed_modulo_int_def)
qed

lemma digs10_lsd: "0 \<le> num \<Longrightarrow> digs10 k num = map dchar (lsd 10 k (nat num))"
proof (induction k arbitrary: num)
  case (Suc k)
  then have "int (nat num mod 10) = num mod 10" by (simp add: zmod_int)
  then show ?case using Suc by (simp add: quot10 dchar_def nat_div_distrib pos_imp_zdiv_nonneg_iff)
qed simp

lemma fprtl10_digits:
  assumes "0 \<le> num" "num \<le> INT32_MAX"
  shows "fprtl10 num = map dchar (digits 10 (nat num)) @ [0]"
proof -
  have "nat num < 10 ^ 10" using assms by simp
  from out_digits_lsd [OF dchar_zero _ this] show ?thesis by (simp add: fprtl10_def digs10_lsd assms(1) del: lsd.simps)
qed

lemma lsd_10_10: "lsd 10 10 v = v mod 10 # lsd 10 9 (v div 10)"
  using lsd.simps(2) [of 10 9 v] by simp

lemma prtl10_digits:
  assumes "INT32_MIN \<le> num" "num \<le> INT32_MAX"
  shows "prtl10 num = map dchar (digits 10 (nat \<bar>num\<bar>)) @ [0]"
proof -
  have d: "(if num < 0 then - (num smod 10) else num smod 10) = \<bar>num\<bar> mod 10"
    "num sdiv (if num < 0 then - 10 else 10) = \<bar>num\<bar> div 10"
    by (cases "num < 0"; simp add: quot10; simp add: signed_modulo_int_def signed_divide_int_def)+
  have m: "chr (\<bar>num\<bar> mod 10) = dchar (nat \<bar>num\<bar> mod 10)" by (simp add: dchar_def zmod_int)
  have "nat \<bar>num\<bar> < 10 ^ 10" using assms by simp
  from out_digits_lsd [OF dchar_zero _ this]
  show ?thesis by (simp add: prtl10_def d m digs10_lsd lsd_10_10 nat_div_distrib del: lsd.simps)
qed

text \<open>The digits of a signed number by shifts are those of the number modulo the power of the base.\<close>

primrec ilsd :: "int \<Rightarrow> nat \<Rightarrow> int \<Rightarrow> int list" where
  "ilsd b 0 num = []"
| "ilsd b (Suc k) num = num mod b # ilsd b k (num div b)"

lemma ilsd_lsd: "0 < b \<Longrightarrow> ilsd (int b) k num = map int (lsd b k (nat (num mod int b ^ k)))"
proof (induction k arbitrary: num)
  case (Suc k)
  let ?c = "int b" and ?P = "int b ^ k"
  have p: "0 < ?c" "0 < ?P" using Suc.prems by simp_all
  have e: "num mod (?c * ?P) = ?c * (num div ?c mod ?P) + num mod ?c"
    by (rule zmod_zmult2_eq) (use p in simp)
  let ?N = "num mod (?c * ?P)"
  have N: "0 \<le> ?N" using p by simp
  have "?N mod ?c = num mod ?c" by (simp add: mod_mod_cancel)
  then have 1: "int (nat ?N mod b) = num mod ?c" using N by (simp add: zmod_int)
  have "?N div ?c = num div ?c mod ?P" using p unfolding e by simp
  then have 2: "nat ?N div b = nat (num div ?c mod ?P)" using N by (metis nat_div_distrib nat_int)
  show ?case using Suc.IH [OF Suc.prems, of "num div ?c"] 1 2 by simp
qed simp

lemma lsd_add: "2 \<le> b \<Longrightarrow> lsd b k (v + c * b ^ k) = lsd b k v"
proof (induction k arbitrary: v)
  case (Suc k)
  have "v + c * b ^ Suc k = v + b * (c * b ^ k)" by (simp add: mult.left_commute)
  moreover have "(v + b * (c * b ^ k)) mod b = v mod b" "(v + b * (c * b ^ k)) div b = v div b + c * b ^ k"
    using Suc.prems by (simp_all add: mod_mult_self2 div_mult_self2)
  ultimately show ?case using Suc.IH [OF Suc.prems, of "v div b"] by (simp only: lsd.simps)
qed simp

lemma lsd_mod: "2 \<le> b \<Longrightarrow> lsd b k (v mod b ^ k) = lsd b k v"
  using lsd_add [of b k "v mod b ^ k" "v div b ^ k"] by (simp add: mult.commute)

lemma lsd_last: "lsd b (Suc k) v = lsd b k v @ [v div b ^ k mod b]"
  by (induction k arbitrary: v) (simp_all add: div_mult2_eq)

lemma ilsd_last: "0 < b \<Longrightarrow> ilsd b (Suc k) v = ilsd b k v @ [v div b ^ k mod b]"
  by (induction k arbitrary: v) (simp_all add: zdiv_zmult2_eq)

lemma digits_lead:
  "2 \<le> b \<Longrightarrow> b ^ k \<le> v \<Longrightarrow> v < b ^ Suc k \<Longrightarrow> digits b v = v div b ^ k # rev (lsd b k v)"
proof (induction k arbitrary: v)
  case 0
  then show ?case by (simp add: digits.simps)
next
  case (Suc k)
  have b: "b ^ k \<le> v div b" "v div b < b ^ Suc k" "\<not> v < b"
  proof -
    show "b ^ k \<le> v div b" using Suc.prems by (simp add: less_eq_div_iff_mult_less_eq mult.commute)
    show "v div b < b ^ Suc k" using Suc.prems by (simp add: less_mult_imp_div_less mult.commute)
    have "1 \<le> b ^ k" using Suc.prems(1) by simp
    then have "b * 1 \<le> b * b ^ k" by (rule mult_le_mono2)
    moreover have "b * b ^ k \<le> v" using Suc.prems(2) by simp
    ultimately have "b \<le> v" by (metis mult.right_neutral order_trans)
    then show "\<not> v < b" by simp
  qed
  then show ?case using Suc.IH [OF Suc.prems(1) b(1,2)] Suc.prems(1) by (simp add: digits.simps [of b v] div_mult2_eq)
qed

lemma and_drop:
  "(x :: int) AND 15 = x mod 16" "(x :: int) AND 7 = x mod 8" "drop_bit 4 (x :: int) = x div 16"
  "drop_bit 3 (x :: int) = x div 8" "drop_bit (Suc 0) (x :: int) = x div 2"
  using take_bit_eq_mask [of 4 x] take_bit_eq_mask [of 3 x]
  by (simp_all add: take_bit_eq_mod drop_bit_eq_div mask_eq_exp_minus_1)

lemma digs16_ilsd: "digs16 hex k num = map hex (ilsd 16 k num)"
  by (induction k arbitrary: num) (simp_all add: and_drop)

lemma digs8_ilsd: "digs8 k num = map chr (ilsd 8 k num)"
  by (induction k arbitrary: num) (simp_all add: and_drop)

lemma parity_char: "(if (num :: int) smod 2 = 0 then 48 else 49) = chr (num mod 2)"
proof -
  have "num smod 2 = 0 \<longleftrightarrow> num mod 2 = 0" 
    by (auto simp: signed_modulo_int_def sgn_if abs_if)
  then show ?thesis by (cases "num mod 2 = 0") (simp_all add: chr_def mod_2_eq_odd)
qed

lemma digs2_ilsd: "digs2 k num = map chr (ilsd 2 k num)"
  by (induction k arbitrary: num) (simp_all add: and_drop parity_char)

lemma map_chr_int: "map chr (map int xs) = map dchar xs"
  by (simp add: dchar_def)

lemma prtl2_digits: "prtl2 num = map dchar (digits 2 (nat (num mod 4294967296))) @ [0]"
proof -
  have "digs2 32 num = map dchar (lsd 2 32 (nat (num mod 4294967296)))"
    unfolding digs2_ilsd using ilsd_lsd [of 2 32 num] by (simp add: map_chr_int [symmetric] del: map_map)
  moreover have "nat (num mod 4294967296) < 2 ^ 32" by simp
  ultimately show ?thesis using out_digits_lsd [OF dchar_zero, of 2 "nat (num mod 4294967296)" 32] by (simp add: prtl2_def)
qed

lemma digits_less: "2 \<le> b \<Longrightarrow> d \<in> set (digits b v) \<Longrightarrow> d < b"
proof (induction b v rule: digits.induct)
  case (1 b v)
  then show ?case by (subst (asm) digits.simps) (auto split: if_splits)
qed

lemma hex_out:
  assumes "\<forall>d<16. hex (int d) = 48 \<longleftrightarrow> d = 0"
  shows "out_digits (0 # digs16 hex 8 num) 8 = map (\<lambda>d. hex (int d)) (digits 16 (nat (num mod 4294967296))) @ [0]"
proof -
  have "digs16 hex 8 num = map (\<lambda>d. hex (int d)) (lsd 16 8 (nat (num mod 4294967296)))"
    unfolding digs16_ilsd using ilsd_lsd [of 16 8 num] by (simp add: comp_def)
  moreover have "nat (num mod 4294967296) < 16 ^ 8" by simp
  ultimately show ?thesis using out_digits_lsd [of 16 "\<lambda>d. hex (int d)" "nat (num mod 4294967296)" 8, OF assms] by simp
qed

lemma hex_zero:
  "\<forall>d<16. lower_hex (int d) = 48 \<longleftrightarrow> d = 0" "\<forall>d<16. upper_hex (int d) = 48 \<longleftrightarrow> d = 0"
proof -
  have "\<forall>d\<in>set [0..<16]. lower_hex (int d) = 48 \<longleftrightarrow> d = 0" "\<forall>d\<in>set [0..<16]. upper_hex (int d) = 48 \<longleftrightarrow> d = 0"
    by code_simp+
  then show "\<forall>d<16. lower_hex (int d) = 48 \<longleftrightarrow> d = 0" "\<forall>d<16. upper_hex (int d) = 48 \<longleftrightarrow> d = 0" by auto
qed

lemma prtl16_digits: "prtl16 num = map (\<lambda>d. lower_hex (int d)) (digits 16 (nat (num mod 4294967296))) @ [0]"
  unfolding prtl16_def by (rule hex_out [OF hex_zero(1)])

lemma prtX16_digits: "prtX16 num = map (\<lambda>d. upper_hex (int d)) (digits 16 (nat (num mod 4294967296))) @ [0]"
  unfolding prtX16_def by (rule hex_out [OF hex_zero(2)])

lemma chr_and_51: "0 \<le> d \<Longrightarrow> d < 8 \<Longrightarrow> chr d AND 51 = chr (d mod 4)"
proof -
  assume "0 \<le> d" "d < 8"
  moreover have "\<forall>d\<in>set [0..7]. chr d AND 51 = chr (d mod 4)" by code_simp
  ultimately show ?thesis by auto
qed

lemma prtl8_digits: "prtl8 num = map dchar (digits 8 (nat (num mod 4294967296))) @ [0]"
proof -
  let ?v = "nat (num mod 4294967296)" and ?q = "num div 8 ^ 10 mod 8"
  have "nat (num mod 8 ^ 10) = ?v mod 8 ^ 10"
  proof -
    have "num mod 4294967296 mod 8 ^ 10 = num mod 8 ^ 10" by (rule mod_mod_cancel) simp
    then show ?thesis using nat_mod_distrib [of "num mod 4294967296" "8 ^ 10"] by simp
  qed
  then have low: "ilsd 8 10 num = map int (lsd 8 10 ?v)"
    using ilsd_lsd [of 8 10 num] lsd_mod [of 8 10 ?v] by simp
  have top: "?q mod 4 = int (?v div 8 ^ 10 mod 8)"
  proof -
    have "num mod (8 ^ 10 * 4) = 8 ^ 10 * (num div 8 ^ 10 mod 4) + num mod 8 ^ 10" by (rule zmod_zmult2_eq) simp
    then have "num mod 4294967296 div 8 ^ 10 = num div 8 ^ 10 mod 4" by simp
    moreover have "num div 8 ^ 10 mod 8 mod 4 = num div 8 ^ 10 mod 4" by (rule mod_mod_cancel) simp
    moreover have "num div 8 ^ 10 mod 4 mod 8 = num div 8 ^ 10 mod 4"
      using pos_mod_bound [of 4 "num div 8 ^ 10"] by (intro mod_pos_pos_trivial) simp_all
    ultimately show ?thesis by (simp add: zdiv_int zmod_int)
  qed
  have d8: "digs8 11 num = map chr (ilsd 8 10 num) @ [chr ?q]"
    using ilsd_last [of 8 10 num] digs8_ilsd [of 11 num] by simp
  have l10: "length (ilsd 8 10 num) = 10" using low by simp
  have "(0 # digs8 11 num)[11 := (0 # digs8 11 num) ! 11 AND 51] = 0 # map chr (ilsd 8 10 num) @ [chr ?q AND 51]"
    unfolding d8 using l10 by (simp add: nth_append list_update_append nth_Cons')
  also have "\<dots> = 0 # map dchar (lsd 8 11 ?v)"
    using low top lsd_last [of 8 10 ?v] chr_and_51 [of ?q] by (simp add: dchar_def)
  finally have "prtl8 num = out_digits (0 # map dchar (lsd 8 11 ?v)) 11" by (simp add: prtl8_def Let_def)
  moreover have "?v < 8 ^ 11" by simp
  ultimately show ?thesis using out_digits_lsd [OF dchar_zero, of 8 ?v 11] by simp
qed

lemma i32_same: "INT32_MIN \<le> y \<Longrightarrow> y \<le> INT32_MAX \<Longrightarrow> i32 y = y"
  by (simp add: i32_def)

lemma usub_split:
  assumes "INT32_MIN \<le> v" "v \<le> INT32_MAX"
  obtains k where "usub v 0 = (v mod 4294967296 - k * 1000000000, k)" "0 \<le> k" "k \<le> 3"
    "v mod 4294967296 - k * 1000000000 \<le> INT32_MAX"
    "k = 0 \<or> 1000000000 \<le> v mod 4294967296 - k * 1000000000"
proof (cases "v < 0")
  case False
  then have "usub v 0 = (v mod 4294967296 - 0 * 1000000000, 0)" using assms by (simp add: usub.simps)
  then show ?thesis using that [of 0] False assms by simp
next
  case True
  have u: "v mod 4294967296 = v + 4294967296"
    using mod_pos_pos_trivial [of "v + 4294967296" 4294967296] True assms by simp
  consider "v < - 1147483648" | "- 1147483648 \<le> v" "v < - 147483648" | "- 147483648 \<le> v" by linarith
  then show ?thesis
  proof cases
    case 1
    then have "i32 (v - 1000000000) = v + 3294967296" using i32_wrap_low [of "v - 1000000000"] assms by simp
    then have "usub v 0 = (v + 3294967296, 1)" using True 1 assms by (simp add: usub.simps [of v] usub.simps [of "v + 3294967296"])
    then show ?thesis using that [of 1] u 1 assms True by simp
  next
    case 2
    have a: "i32 (v - 1000000000) = v - 1000000000" by (rule i32_same) (use 2 in simp_all)
    have b: "i32 (v - 2000000000) = v + 2294967296" using i32_wrap_low [of "v - 2000000000"] 2 by simp
    have "usub v 0 = (v + 2294967296, 2)" using True 2 a b by (simp add: usub.simps)
    then show ?thesis using that [of 2] u 2 True by simp
  next
    case 3
    have a: "i32 (v - 1000000000) = v - 1000000000" "i32 (v - 2000000000) = v - 2000000000"
      by (rule i32_same; use 3 True in simp)+
    have b: "i32 (v - 3000000000) = v + 1294967296" using i32_wrap_low [of "v - 3000000000"] 3 True by simp
    have "usub v 0 = (v + 1294967296, 3)" using True 3 a b by (simp add: usub.simps)
    then show ?thesis using that [of 3] u 3 True by simp
  qed
qed

lemma prt_u_digits:
  assumes prt: "\<And>n. 0 \<le> n \<Longrightarrow> n \<le> INT32_MAX \<Longrightarrow> prt n = map dchar (digits 10 (nat n)) @ [0]"
    and v: "INT32_MIN \<le> v" "v \<le> INT32_MAX"
  shows "prt_u prt v = map dchar (digits 10 (nat (v mod 4294967296))) @ [0]"
proof -
  let ?u = "v mod 4294967296"
  obtain k where k: "usub v 0 = (?u - k * 1000000000, k)" "0 \<le> k" "k \<le> 3"
    "?u - k * 1000000000 \<le> INT32_MAX" "k = 0 \<or> 1000000000 \<le> ?u - k * 1000000000"
    by (rule usub_split [OF v])
  have u: "0 \<le> ?u" "?u < 4294967296" by simp_all
  show ?thesis
  proof (cases "k = 0")
    case True
    obtain a xs where l: "map dchar (digits 10 (nat ?u)) = a # xs"
      by (cases "map dchar (digits 10 (nat ?u))") simp_all
    have "prt ?u = a # xs @ [0]" using prt [of ?u] l u k(4) True by simp
    then show ?thesis unfolding l using k(1) True by (simp add: prt_u_def)
  next
    case False
    let ?w = "nat (?u - k * 1000000000)"
    have w: "1000000000 \<le> ?u - k * 1000000000" using k(5) False by simp
    have n: "nat ?u = ?w + nat k * 10 ^ 9" using w k(2) by (simp add: nat_diff_distrib nat_mult_distrib flip: nat_add_distrib)
    have d: "digits 10 ?w = ?w div 10 ^ 9 # rev (lsd 10 9 ?w)" by (rule digits_lead) (use w k(4) in simp_all)
    have "digits 10 (nat ?u) = nat ?u div 10 ^ 9 # rev (lsd 10 9 (nat ?u))" by (rule digits_lead) (use w k(2) u in simp_all)
    also have "lsd 10 9 (nat ?u) = lsd 10 9 ?w" unfolding n by (rule lsd_add) simp
    also have "nat ?u div 10 ^ 9 = ?w div 10 ^ 9 + nat k" unfolding n by simp
    finally have e: "digits 10 (nat ?u) = (?w div 10 ^ 9 + nat k) # rev (lsd 10 9 ?w)" .
    have "prt_u prt v = (dchar (?w div 10 ^ 9) + word_of_int k) # map dchar (rev (lsd 10 9 ?w)) @ [0]"
      using prt [of "?u - k * 1000000000"] w k d by (simp add: prt_u_def)
    moreover have "dchar (?w div 10 ^ 9) + word_of_int k = dchar (?w div 10 ^ 9 + nat k)"
      using k(2) by (simp add: dchar_def chr_def)
    ultimately show ?thesis by (simp add: e)
  qed
qed

lemma prt_u_doprnt: "INT32_MIN \<le> v \<Longrightarrow> v \<le> INT32_MAX \<Longrightarrow>
    prt_u prtl10 v = map dchar (digits 10 (nat (v mod 4294967296))) @ [0]"
  by (rule prt_u_digits) (simp_all add: prtl10_digits)

lemma prt_u_fdoprnt: "INT32_MIN \<le> v \<Longrightarrow> v \<le> INT32_MAX \<Longrightarrow>
    prt_u fprtl10 v = map dchar (digits 10 (nat (v mod 4294967296))) @ [0]"
  by (rule prt_u_digits) (simp_all add: fprtl10_digits)

section \<open>Formats of one conversion\<close>

lemma buf_str_skip:
  "(\<And>j. j \<le> length xs \<Longrightarrow> b (i + j) = Some ((xs @ [0]) ! j)) \<Longrightarrow> 0 \<notin> set xs \<Longrightarrow> length xs < k \<Longrightarrow>
     buf_str k i b = Some xs"
proof (induction xs arbitrary: k i)
  case Nil
  then obtain k' where "k = Suc k'" by (cases k) auto
  then show ?case using Nil.prems(1) [of 0] by simp
next
  case (Cons x xs)
  then obtain k' where k: "k = Suc k'" by (cases k) auto
  have "buf_str k' (Suc i) b = Some xs"
  proof (rule Cons.IH)
    fix j assume "j \<le> length xs"
    then show "b (Suc i + j) = Some ((xs @ [0]) ! j)" using Cons.prems(1) [of "Suc j"] by simp
  qed (use Cons.prems k in simp_all)
  then show ?case using Cons.prems(1) [of 0] Cons.prems(2) k by simp
qed

lemma buf_put_str:
  assumes "0 \<notin> set xs" "length xs < 20"
  obtains b' where "buf_put 0 (xs @ [0]) b = Some b'" "buf_str 20 0 b' = Some xs"
proof
  let ?b = "\<lambda>i. if i < Suc (length xs) then Some ((xs @ [0]) ! i) else b i"
  show "buf_put 0 (xs @ [0]) b = Some ?b" using assms(2) by (simp add: buf_put_def cong: if_cong)
  show "buf_str 20 0 ?b = Some xs" by (rule buf_str_skip) (use assms in simp_all)
qed

lemma length_digits: "2 \<le> b \<Longrightarrow> v < b ^ k \<Longrightarrow> 0 < k \<Longrightarrow> length (digits b v) \<le> k"
proof -
  assume a: "2 \<le> b" "v < b ^ k" "0 < k"
  have l: "length (norm ds) \<le> length ds" if "ds \<noteq> []" for ds
    using that length_dropWhile_le [of "\<lambda>d. d = 0" "rev ds"] by (auto simp: norm_def Let_def Suc_le_eq)
  have "lsd b k v \<noteq> []" using a(3) length_lsd [of b k v] by (metis less_not_refl list.size(3))
  then show ?thesis using l [of "lsd b k v"] norm_lsd [OF a(1), of v "k - 1"] a(2,3) by simp
qed

lemma dchar_nonzero: "d < 10 \<Longrightarrow> dchar d \<noteq> 0"
  using uint_chr [of "int d"] by (auto simp: dchar_def)

lemma sint_dchar: "d < 10 \<Longrightarrow> sint (dchar d) = int d + 48"
proof -
  assume "d < 10"
  then have "uint (dchar d) = int d + 48" by (simp add: dchar_def uint_chr)
  moreover have "int d + 48 < 128" using \<open>d < 10\<close> by simp
  ultimately show ?thesis by (simp add: sint_uint signed_take_bit_int_eq_self)
qed

text \<open>The text of a number in decimal.\<close>

definition dec :: "int \<Rightarrow> u8 list" where
  "dec v = (if v < 0 then [45] else []) @ map dchar (digits 10 (nat \<bar>v\<bar>))"

text \<open>A specification without flags: nothing between the per cent sign and the letter.\<close>

definition plain :: "u8 \<Rightarrow> bool" where
  "plain f \<longleftrightarrow> f \<noteq> 0 \<and> f \<noteq> 37 \<and> f \<noteq> 45 \<and> f \<noteq> 48 \<and> f \<noteq> 42 \<and> f \<noteq> 46 \<and> \<not> isdig f"

lemma parse_plain:
  "m p = f \<Longrightarrow> plain f \<Longrightarrow>
     parse_spec m p ap = Some \<lparr>leftjust = False, fillc = 32, fmin = 0, fmax = 0, fmtp = p, fap = ap\<rparr>"
  by (simp add: parse_spec_def plain_def Let_def fmt_num.simps [of m p])

lemma doprnt_loop_end: "m p = 0 \<Longrightarrow> doprnt_loop cv m p ap b out = Some out"
  by (subst doprnt_loop.simps) simp

lemma doprnt_loop_spec:
  assumes "m p = 37" "m (p + 1) = f" "plain f"
    and "cv f \<lparr>leftjust = False, fillc = 32, fmin = 0, fmax = 0, fmtp = p + 1, fap = ap\<rparr> b = Some c"
    and "src_str m (csrc c) (cbuf c) = Some str"
  shows "doprnt_loop cv m p ap b out =
    doprnt_loop cv m (p + 2) (cap c) (cbuf c) (out @ cecho c
      @ emit \<lparr>leftjust = False, fillc = 32, fmin = 0, fmax = 0, fmtp = p + 1, fap = ap\<rparr> c str)"
  using assms by (subst doprnt_loop.simps) (simp add: parse_plain plain_def add.assoc)

lemma emit_plain:
  "emit \<lparr>leftjust = False, fillc = 32, fmin = 0, fmax = 0, fmtp = q, fap = ap\<rparr>
     \<lparr>cecho = [], csrc = Buf, cbuf = b, csign = sg, cfill = 32, cmax = 0, cap = ap'\<rparr> str
   = (if sg then [45] else []) @ str"
  by (simp add: emit_def clip_def Let_def)

text \<open>The number conversions put a string of digits in the buffer, at most eleven.\<close>

lemma digits_fit:
  assumes "2 \<le> b" "v < b ^ 11" "\<forall>d<b. f d \<noteq> (0 :: u8)"
  shows "0 \<notin> set (map f (digits b v))" "length (map f (digits b v)) < 20"
proof -
  show "0 \<notin> set (map f (digits b v))" using digits_less [OF assms(1)] assms(3) by fastforce
  show "length (map f (digits b v)) < 20" using length_digits [OF assms(1,2)] by simp
qed

lemma conv_num_plain:
  assumes "prt (sint w) = xs @ [0]" "0 \<notin> set xs" "length xs < 20"
  obtains c where "conv_num prt \<lparr>leftjust = False, fillc = 32, fmin = 0, fmax = 0, fmtp = q, fap = w # ap\<rparr> b = Some c"
    "src_str m (csrc c) (cbuf c) = Some xs" "cecho c = []" "cap c = ap"
    "emit \<lparr>leftjust = False, fillc = 32, fmin = 0, fmax = 0, fmtp = q, fap = w # ap\<rparr> c xs = xs"
proof -
  obtain b1 where b1: "buf_put 0 (xs @ [0]) b = Some b1" "buf_str 20 0 b1 = Some xs"
    by (rule buf_put_str [OF assms(2,3)])
  show ?thesis
    by (rule that [of "\<lparr>cecho = [], csrc = Buf, cbuf = b1, csign = False, cfill = 32, cmax = 0, cap = ap\<rparr>"])
      (simp_all add: conv_num_def va_arg_def assms(1) b1 src_str_def emit_plain)
qed

lemma sint_u32_bounds: "INT32_MIN \<le> sint (w :: u32)" "sint (w :: u32) \<le> INT32_MAX"
  using sint_ge [of w] sint_lt [of w] by simp_all

lemma sint_mod_u32: "sint (w :: u32) mod 4294967296 = uint w"
  using uint_word_of_int [of "sint w", where 'a = 32] by simp

text \<open>\<^verbatim>\<open>%d\<close> prints the decimal numeral, for \<^verbatim>\<open>kprintf\<close> and for \<^verbatim>\<open>sprintf\<close>.\<close>

lemma decimal_fit: "\<bar>v\<bar> \<le> 2147483648 \<Longrightarrow> 0 \<notin> set (map dchar (digits 10 (nat \<bar>v\<bar>)))"
  "\<bar>v\<bar> \<le> 2147483648 \<Longrightarrow> length (map dchar (digits 10 (nat \<bar>v\<bar>))) < 20"
  using digits_fit [of 10 "nat \<bar>v\<bar>" dchar] dchar_nonzero by simp_all

lemma conv_d_plain:
  obtains c where "conv_d \<lparr>leftjust = False, fillc = 32, fmin = 0, fmax = 0, fmtp = q, fap = w # ap\<rparr> b = Some c"
    "src_str m (csrc c) (cbuf c) = Some (map dchar (digits 10 (nat \<bar>sint w\<bar>)))" "cecho c = []" "cap c = ap"
    "emit \<lparr>leftjust = False, fillc = 32, fmin = 0, fmax = 0, fmtp = q, fap = w # ap\<rparr> c
       (map dchar (digits 10 (nat \<bar>sint w\<bar>))) = dec (sint w)"
proof -
  let ?xs = "map dchar (digits 10 (nat \<bar>sint w\<bar>))"
  have v: "\<bar>sint w\<bar> \<le> 2147483648" using sint_u32_bounds [of w] by linarith
  obtain b1 where b1: "buf_put 0 (?xs @ [0]) b = Some b1" "buf_str 20 0 b1 = Some ?xs"
    by (rule buf_put_str [OF decimal_fit [OF v]])
  show ?thesis
    by (rule that [of "\<lparr>cecho = [], csrc = Buf, cbuf = b1, csign = sint w < 0, cfill = 32, cmax = 0, cap = ap\<rparr>"])
      (simp_all add: conv_d_def va_arg_def prtl10_digits [OF sint_u32_bounds] b1 src_str_def emit_plain dec_def)
qed

lemma fconv_d_plain:
  assumes "sint w \<noteq> INT32_MIN"
  obtains c where "fconv_d \<lparr>leftjust = False, fillc = 32, fmin = 0, fmax = 0, fmtp = q, fap = w # ap\<rparr> b = Some c"
    "csrc c = Buf" "buf_str 20 0 (cbuf c) = Some (map dchar (digits 10 (nat \<bar>sint w\<bar>)))" "cecho c = []"
    "cap c = ap" "csign c = (sint w < 0)" "cfill c = 32" "cmax c = 0"
proof -
  let ?xs = "map dchar (digits 10 (nat \<bar>sint w\<bar>))"
  have v: "\<bar>sint w\<bar> \<le> INT32_MAX" using sint_u32_bounds [of w] assms by linarith
  have n: "(if sint w < 0 then int32 (- sint w) else Some (sint w)) = Some \<bar>sint w\<bar>"
    using v by (simp add: int32_def)
  obtain b1 where b1: "buf_put 0 (?xs @ [0]) b = Some b1" "buf_str 20 0 b1 = Some ?xs"
    by (rule buf_put_str [OF decimal_fit [of "sint w"]]) (use v in simp_all)
  have p: "fprtl10 \<bar>sint w\<bar> = ?xs @ [0]" using fprtl10_digits [of "\<bar>sint w\<bar>"] v by simp
  show ?thesis
    by (rule that [of "\<lparr>cecho = [], csrc = Buf, cbuf = b1, csign = sint w < 0, cfill = 32, cmax = 0, cap = ap\<rparr>"])
      (simp_all add: fconv_d_def va_arg_def n p b1)
qed

lemma doprnt_d:
  assumes "cstr m p [37, 100]"
  shows "doprnt dbl m p [w] = Some (dec (sint w))"
proof -
  obtain c where c: "conv_d \<lparr>leftjust = False, fillc = 32, fmin = 0, fmax = 0, fmtp = p + 1, fap = [w]\<rparr> (\<lambda>i. None) = Some c"
    "src_str m (csrc c) (cbuf c) = Some (map dchar (digits 10 (nat \<bar>sint w\<bar>)))" "cecho c = []" "cap c = []"
    "emit \<lparr>leftjust = False, fillc = 32, fmin = 0, fmax = 0, fmtp = p + 1, fap = [w]\<rparr> c
       (map dchar (digits 10 (nat \<bar>sint w\<bar>))) = dec (sint w)"
    by (rule conv_d_plain)
  have m: "m p = 37" "m (p + 1) = 100" "m (p + 2) = 0" using assms by (simp_all add: add.assoc)
  have "plain 100" by (simp add: plain_def isdig_def)
  from doprnt_loop_spec [OF m(1,2) this, where cv = "conv_do dbl" and c = c] show ?thesis
    using c m(3) by (simp add: doprnt_def conv_do_def doprnt_loop_end)
qed

text \<open>Copying from the buffer calls the output function with each character of the string in it.\<close>

lemma copy_out_buf:
  "buf_str k i b = Some xs \<Longrightarrow> copy_out func mem Buf b (length xs) i s = Some (fold func xs s)"
proof (induction k arbitrary: i xs s)
  case (Suc k)
  then show ?case by (auto simp: src_at_def split: option.splits if_splits)
qed simp

lemma femit_plain:
  assumes "csrc c = Buf" "buf_str 20 0 (cbuf c) = Some xs" "cfill c = 32" "cmax c = 0"
  shows "femit func mem \<lparr>leftjust = False, fillc = 32, fmin = 0, fmax = 0, fmtp = q, fap = ap\<rparr> c (length xs) s
    = Some (fold func ((if csign c then [45] else []) @ xs) s)"
  using assms by (simp add: femit_def clip_def Let_def copy_out_buf)

lemma fdoprnt_loop_end: "mem s p = 0 \<Longrightarrow> fdoprnt_loop func mem p ap b s = Some s"
  by (subst fdoprnt_loop.simps) simp

text \<open>
  \<^verbatim>\<open>%d\<close> of \<^verbatim>\<open>_fdoprnt\<close>: the output function gets the decimal numeral, one
  character at a time; the null byte of the format is read after that.
\<close>

lemma fdoprnt_d:
  assumes m: "mem s p = 37" "mem s (p + 1) = 100" "mem (fold func (dec (sint w)) s) (p + 2) = 0"
    and w: "sint w \<noteq> INT32_MIN"
  shows "fdoprnt p [w] func mem s = Some (fold func (dec (sint w)) s)"
proof -
  let ?f = "\<lparr>leftjust = False, fillc = 32, fmin = 0, fmax = 0, fmtp = p + 1, fap = [w]\<rparr>"
  let ?xs = "map dchar (digits 10 (nat \<bar>sint w\<bar>))"
  obtain c where c: "fconv_d ?f (\<lambda>i. None) = Some c" "csrc c = Buf" "buf_str 20 0 (cbuf c) = Some ?xs"
    "cecho c = []" "cap c = []" "csign c = (sint w < 0)" "cfill c = 32" "cmax c = 0"
    by (rule fconv_d_plain [OF w])
  have "femit func mem ?f c (length ?xs) s = Some (fold func (dec (sint w)) s)"
    using femit_plain [OF c(2,3,7,8), of func mem "p + 1" "[w]" s] by (simp add: c(6) dec_def)
  moreover have "fconv_do 100 ?f (\<lambda>i. None) = Some c" by (simp add: fconv_do_def c(1))
  moreover have "parse_spec (mem s) (p + 1) [w] = Some ?f"
    by (rule parse_plain [where m = "mem s" and f = 100]) (simp_all add: m(2) plain_def isdig_def)
  ultimately show ?thesis
    using m c by (simp add: fdoprnt_def fdoprnt_loop.simps [of _ _ p] src_str_def fdoprnt_loop_end add.assoc)
qed

lemma fold_sprntf: "fold sprntf xs (m, s) = (put m s xs, s + of_nat (length xs))"
  by (induction xs arbitrary: m s) (simp_all add: sprntf_def add.assoc)

text \<open>The remaining numeric letters, unsigned.\<close>

definition unsigned_text :: "u8 \<Rightarrow> u32 \<Rightarrow> u8 list option" where
  "unsigned_text f w =
     (if f = 117 then Some (map dchar (digits 10 (unat w)))
      else if f = 111 then Some (map dchar (digits 8 (unat w)))
      else if f = 120 then Some (map (\<lambda>d. lower_hex (int d)) (digits 16 (unat w)))
      else if f = 88 then Some (map (\<lambda>d. upper_hex (int d)) (digits 16 (unat w)))
      else None)"

lemma hex_nonzero: "\<forall>d<16. lower_hex (int d) \<noteq> 0" "\<forall>d<16. upper_hex (int d) \<noteq> 0"
proof -
  have "\<forall>d\<in>set [0..<16]. lower_hex (int d) \<noteq> 0" "\<forall>d\<in>set [0..<16]. upper_hex (int d) \<noteq> 0" by code_simp+
  then show "\<forall>d<16. lower_hex (int d) \<noteq> 0" "\<forall>d<16. upper_hex (int d) \<noteq> 0" by auto
qed

lemma nat_sint_mod: "nat (sint (w :: u32) mod 4294967296) = unat w"
  by (simp add: sint_mod_u32)

lemma doprnt_unsigned:
  assumes "cstr m p [37, f]" "unsigned_text f w = Some xs"
  shows "doprnt dbl m p [w] = Some xs"
proof -
  have m: "m p = 37" "m (p + 1) = f" "m (p + 2) = 0" using assms(1) by (simp_all add: add.assoc)
  have lt: "unat w < 8 ^ 11" "unat w < 10 ^ 11" "unat w < 16 ^ 11"
    using unat_u32_lt [of w] by (simp_all del: unat_u32_lt)
  have go: "doprnt dbl m p [w] = Some xs"
    if cv: "conv_do dbl f = conv_num prt" and p: "prt (sint w) = xs @ [0]" "0 \<notin> set xs" "length xs < 20" "plain f" for prt
  proof -
    obtain c where c: "conv_num prt \<lparr>leftjust = False, fillc = 32, fmin = 0, fmax = 0, fmtp = p + 1, fap = [w]\<rparr> (\<lambda>i. None) = Some c"
      "src_str m (csrc c) (cbuf c) = Some xs" "cecho c = []" "cap c = []"
      "emit \<lparr>leftjust = False, fillc = 32, fmin = 0, fmax = 0, fmtp = p + 1, fap = [w]\<rparr> c xs = xs"
      by (rule conv_num_plain [of prt w, OF p(1-3)])
    from doprnt_loop_spec [OF m(1,2) p(4), where cv = "conv_do dbl" and c = c] show ?thesis
      using c m(3) cv by (simp add: doprnt_def doprnt_loop_end)
  qed
  consider "f = 117" | "f = 111" | "f = 120" | "f = 88" using assms(2) by (auto simp: unsigned_text_def split: if_splits)
  then show ?thesis
  proof cases
    case 1
    show ?thesis
      by (rule go [of "prt_u prtl10"]) (use 1 assms(2) digits_fit [of 10 "unat w" dchar] lt dchar_nonzero in
        \<open>auto simp: conv_do_def unsigned_text_def prt_u_doprnt [OF sint_u32_bounds] nat_sint_mod plain_def isdig_def fun_eq_iff\<close>)
  next
    case 2
    show ?thesis
      by (rule go [of prtl8]) (use 2 assms(2) digits_fit [of 8 "unat w" dchar] lt dchar_nonzero in
        \<open>auto simp: conv_do_def unsigned_text_def prtl8_digits nat_sint_mod plain_def isdig_def fun_eq_iff\<close>)
  next
    case 3
    show ?thesis
      by (rule go [of prtl16]) (use 3 assms(2) digits_fit [of 16 "unat w" "\<lambda>d. lower_hex (int d)"] lt hex_nonzero in
        \<open>auto simp: conv_do_def unsigned_text_def prtl16_digits nat_sint_mod plain_def isdig_def fun_eq_iff\<close>)
  next
    case 4
    show ?thesis
      by (rule go [of prtX16]) (use 4 assms(2) digits_fit [of 16 "unat w" "\<lambda>d. upper_hex (int d)"] lt hex_nonzero in
        \<open>auto simp: conv_do_def unsigned_text_def prtX16_digits nat_sint_mod plain_def isdig_def fun_eq_iff\<close>)
  qed
qed

section \<open>Printing and reading back\<close>

lemma decval_digits: "decval 0 (map dchar (digits 10 v)) = int v"
proof (induction v rule: less_induct)
  case (less v)
  show ?case
  proof (cases "v < 10")
    case True
    then show ?thesis by (subst digits.simps) (simp add: sint_dchar)
  next
    case False
    then have "decval 0 (map dchar (digits 10 (v div 10))) = int (v div 10)" by (intro less) simp
    then show ?thesis using False by (subst digits.simps) (simp add: decval_append sint_dchar zdiv_int zmod_int)
  qed
qed

lemma isdig_digits: "list_all isdig (map dchar (digits 10 v))"
  using digits_less [of 10 _ v] by (force simp: list_all_iff isdig_def sint_dchar)

lemma atoi_dec:
  assumes "cstr m p (dec v)" "\<bar>v\<bar> + 48 \<le> INT32_MAX"
  shows "atoi m p = Some (Some v)"
proof -
  let ?sg = "if v < 0 then [45] else [] :: u8 list"
  have "atoi m p = Some (if decval 0 (map dchar (digits 10 (nat \<bar>v\<bar>))) + 48 \<le> INT32_MAX
      then Some (if ?sg = [45] then - decval 0 (map dchar (digits 10 (nat \<bar>v\<bar>))) else decval 0 (map dchar (digits 10 (nat \<bar>v\<bar>)))) else None)"
    by (rule atoi_cstr [where bs = "[]" and rs = "[]"])
      (use assms(1) isdig_digits in \<open>simp_all add: sign_of_def dec_def isdig_def list_all_iff\<close>)
  then show ?thesis using assms(2) by (simp add: decval_digits)
qed

lemma dec_cstr_fit: "INT32_MIN \<le> v \<Longrightarrow> v \<le> INT32_MAX \<Longrightarrow> 0 \<notin> set (dec v) \<and> length (dec v) \<le> 11"
proof -
  assume v: "INT32_MIN \<le> v" "v \<le> INT32_MAX"
  then have "nat \<bar>v\<bar> < 10 ^ 10" by simp
  then have "length (digits 10 (nat \<bar>v\<bar>)) \<le> 10" by (intro length_digits) simp_all
  moreover have "0 \<notin> set (map dchar (digits 10 (nat \<bar>v\<bar>)))" by (rule decimal_fit(1)) (use v in simp)
  ultimately show ?thesis by (auto simp: dec_def)
qed

lemma sprintf_atoi:
  assumes "cstr m fmt [37, 100]" "\<forall>i<11. fmt + 2 \<noteq> str + of_nat i" "\<bar>sint w\<bar> + 48 \<le> INT32_MAX"
  obtains m' where "sprintf m str fmt [w] = Some (m', str)" "atoi m' str = Some (Some (sint w))"
    "\<And>c. (\<forall>i\<le>11. c \<noteq> str + of_nat i) \<Longrightarrow> m' c = m c"
proof -
  let ?m = "put m str (dec (sint w) @ [0])"
  have w: "sint w \<noteq> INT32_MIN" using assms(3) by auto
  have f: "0 \<notin> set (dec (sint w))" "length (dec (sint w)) \<le> 11" using dec_cstr_fit [OF sint_u32_bounds] by simp_all
  have m: "m fmt = 37" "m (fmt + 1) = 100" "m (fmt + 2) = 0" using assms(1) by (simp_all add: add.assoc)
  have "put m str (dec (sint w)) (fmt + 2) = m (fmt + 2)" by (rule put_outside) (use f(2) assms(2) in auto)
  then have "fdoprnt fmt [w] sprntf fst (m, str) = Some (fold sprntf (dec (sint w)) (m, str))"
    by (intro fdoprnt_d) (simp_all add: m w fold_sprntf)
  then have s: "sprintf m str fmt [w] = Some (?m, str)" by (simp add: sprintf_def fold_sprntf put_append)
  have "cstr ?m str (dec (sint w))" by (intro cstr_put) (use f in simp_all)
  then have a: "atoi ?m str = Some (Some (sint w))" by (rule atoi_dec [OF _ assms(3)])
  have "?m c = m c" if "\<forall>i\<le>11. c \<noteq> str + of_nat i" for c
    by (rule put_outside) (use f(2) that in auto)
  then show ?thesis using that [OF s a] by blast
qed

section \<open>Where the code goes wrong\<close>

lemma digits_bound: "2 \<le> b \<Longrightarrow> v < b ^ length (digits b v)"
proof (induction b v rule: digits.induct)
  case (1 b v)
  show ?case
  proof (cases "v < b")
    case False
    then have "v div b < b ^ length (digits b (v div b))" using 1 by simp
    then have "v < b * b ^ length (digits b (v div b))" using 1 by (simp add: div_less_iff_less_mult mult.commute)
    then show ?thesis using False 1 by (simp add: digits.simps [of b v])
  qed (simp add: digits.simps [of b v])
qed

text \<open>The binary numeral of a number from $2^{19}$ on does not fit in \<^verbatim>\<open>string[20]\<close>.\<close>

lemma doprnt_b_overflow:
  assumes "cstr m p [37, 98]" "524288 \<le> unat w"
  shows "doprnt dbl m p [w] = None"
proof -
  have m: "m p = 37" "m (p + 1) = 98" using assms(1) by simp_all
  have "\<not> length (digits 2 (unat w)) \<le> 19"
  proof
    assume "length (digits 2 (unat w)) \<le> 19"
    then have "(2 :: nat) ^ length (digits 2 (unat w)) \<le> 2 ^ 19" by (intro power_increasing) simp_all
    then show False using digits_bound [of 2 "unat w"] assms(2) by simp
  qed
  then have "\<not> length (prtl2 (sint w)) \<le> 20" by (simp add: prtl2_digits nat_sint_mod)
  moreover have "plain 98" by (simp add: plain_def isdig_def)
  ultimately show ?thesis using m
    by (simp add: doprnt_def doprnt_loop.simps [of _ m p] parse_plain conv_do_def conv_num_def va_arg_def buf_put_def)
qed

text \<open>An unknown letter prints the last converted string once more.\<close>

lemma doprnt_unknown_repeats:
  assumes "cstr m p [37, 100, 37, 113]"
  shows "doprnt dbl m p [w] = Some (dec (sint w) @ [113] @ map dchar (digits 10 (nat \<bar>sint w\<bar>)))"
proof -
  let ?xs = "map dchar (digits 10 (nat \<bar>sint w\<bar>))"
  obtain c where c: "conv_d \<lparr>leftjust = False, fillc = 32, fmin = 0, fmax = 0, fmtp = p + 1, fap = [w]\<rparr> (\<lambda>i. None) = Some c"
    "src_str m (csrc c) (cbuf c) = Some ?xs" "cecho c = []" "cap c = []"
    "emit \<lparr>leftjust = False, fillc = 32, fmin = 0, fmax = 0, fmtp = p + 1, fap = [w]\<rparr> c ?xs = dec (sint w)"
    by (rule conv_d_plain)
  have "csrc c = Buf" using c(1) by (auto simp: conv_d_def va_arg_def bind_eq_Some_conv)
  then have b: "src_str m Buf (cbuf c) = Some ?xs" using c(2) by simp
  have m: "m p = 37" "m (p + 1) = 100" "m (p + 2) = 37" "m (p + 2 + 1) = 113" "m (p + 2 + 2) = 0"
    using assms by (simp_all add: add.assoc)
  have pl: "plain 100" "plain 113" by (simp_all add: plain_def isdig_def)
  have 1: "doprnt dbl m p [w] = doprnt_loop (conv_do dbl) m (p + 2) [] (cbuf c) (dec (sint w))"
    using doprnt_loop_spec [OF m(1,2) pl(1), where cv = "conv_do dbl" and c = c] c by (simp add: doprnt_def conv_do_def)
  let ?c = "\<lparr>cecho = [113], csrc = Buf, cbuf = cbuf c, csign = False, cfill = 32, cmax = 0, cap = []\<rparr>"
  have e: "emit \<lparr>leftjust = False, fillc = 32, fmin = 0, fmax = 0, fmtp = q, fap = []\<rparr> ?c xs = xs" for q xs
    by (simp add: emit_def clip_def Let_def)
  have "conv_do dbl 113 \<lparr>leftjust = False, fillc = 32, fmin = 0, fmax = 0, fmtp = p + 2 + 1, fap = []\<rparr> (cbuf c) = Some ?c"
    by (simp add: conv_do_def conv_other_def)
  from doprnt_loop_spec [OF m(3,4) pl(2), where cv = "conv_do dbl" and b = "cbuf c" and c = ?c and str = ?xs, OF this] show ?thesis
    unfolding 1 using b m(5) by (simp add: e doprnt_loop_end)
qed

end
