(* ===== verification/Libspec.thy ===== *)
theory Libspec
  imports Qsort Doprnt
begin

text \<open>
  What the library routines guarantee their callers: the properties of \<^verbatim>\<open>qsort\<close>, of the
  string routines and of formatted output, stated over their models in \<open>Qsort\<close>, \<open>Cstring\<close>, \<open>Libnum\<close>
  and \<open>Doprnt\<close>.
\<close>

section \<open>Sorting\<close>

lemma seg_mset: "seg a (a + int n) f = mset (map (\<lambda>i. f (a + int i)) [0..<n])"
proof (induction n)
  case (Suc n)
  have "{a..<a + int (Suc n)} = insert (a + int n) {a..<a + int n}" by auto
  then show ?case using Suc by (simp add: seg_def)
qed (simp add: seg_def)

text \<open>
  C28. \<^verbatim>\<open>qsort\<close> returns, whatever the array holds and wherever elements are equal, and
  leaves it sorted: with a comparison function that is antisymmetric and transitive, the \<open>n\<close>
  elements end up in an order in which none is greater than a later one, they are a permutation of
  what they were, and nothing outside the array is touched.
\<close>

theorem qsort_sorts:
  assumes "\<And>x y. cmp x y < 0 \<longleftrightarrow> cmp y x > (0 :: int)"
    and "\<And>x y z. cmp x y \<le> 0 \<Longrightarrow> cmp y z \<le> 0 \<Longrightarrow> cmp x z \<le> 0"
  shows "\<exists>g. qsort cmp n f = Some g
    \<and> sorted_wrt (\<lambda>x y. cmp x y \<le> 0) (map (\<lambda>i. g (int i)) [0..<n])
    \<and> mset (map (\<lambda>i. g (int i)) [0..<n]) = mset (map (\<lambda>i. f (int i)) [0..<n])
    \<and> (\<forall>k. k < 0 \<or> int n \<le> k \<longrightarrow> g k = f k)"
proof -
  have c: "comparison cmp" by (rule comparison.intro) (fact assms)+
  obtain g where g: "qs1 cmp 0 (int n) f = Some g" "permuted 0 (int n) f g" "comparison.ordered cmp 0 (int n) g"
    using comparison.qs1_ok [OF c] by blast
  have "sorted_wrt (\<lambda>x y. cmp x y \<le> 0) (map (\<lambda>i. g (int i)) [0..<n])"
    using g(3) by (simp add: comparison.ordered_def [OF c] sorted_wrt_iff_nth_less)
  moreover have "mset (map (\<lambda>i. g (int i)) [0..<n]) = mset (map (\<lambda>i. f (int i)) [0..<n])"
    using g(2) seg_mset [of 0 n g] seg_mset [of 0 n f] by (simp add: permuted_def)
  ultimately show ?thesis using g(1,2) by (simp add: qsort_def permuted_def)
qed

lemma strcmp_sorted_unique:
  assumes "sorted_wrt (\<lambda>x y. strcmp_val x y \<le> 0) xs" "sorted_wrt (\<lambda>x y. strcmp_val x y \<le> 0) ys"
    and "mset xs = mset ys"
  shows "xs = ys"
proof -
  have le: "(\<lambda>x y. strcmp_val x y \<le> 0) = (\<lambda>x y. schars x \<le> schars y)"
    using schars_inj by (auto simp: strcmp_val_def fun_eq_iff)
  have "map schars xs = map schars ys"
    by (rule trans [OF sorted_sort_id [symmetric] properties_for_sort])
      (use assms in \<open>simp_all add: le sorted_map\<close>)
  moreover have "inj schars" by (rule injI) (simp add: schars_inj)
  ultimately show ?thesis by (simp add: inj_map_eq_map)
qed

theorem qsort_sorts_witness:
  "\<exists>g. qsort strcmp_val 4 (\<lambda>i. [[99], [97], [], [97]] ! nat i) = Some g
     \<and> map (\<lambda>i. g (int i)) [0..<4] = [[], [97], [97], [99]]"
proof -
  let ?f = "\<lambda>i. [[99], [97], [], [97]] ! nat i :: u8 list"
  have "\<exists>g. qsort strcmp_val 4 ?f = Some g
      \<and> sorted_wrt (\<lambda>x y. strcmp_val x y \<le> 0) (map (\<lambda>i. g (int i)) [0..<4])
      \<and> mset (map (\<lambda>i. g (int i)) [0..<4]) = mset (map (\<lambda>i. ?f (int i)) [0..<4])
      \<and> (\<forall>k. k < 0 \<or> int 4 \<le> k \<longrightarrow> g k = ?f k)"
    by (rule qsort_sorts) (rule strcmp_order.cmp_sym, erule (1) strcmp_order.cmp_trans)
  then obtain g where g: "qsort strcmp_val 4 ?f = Some g"
      "sorted_wrt (\<lambda>x y. strcmp_val x y \<le> 0) (map (\<lambda>i. g (int i)) [0..<4])"
      "mset (map (\<lambda>i. g (int i)) [0..<4]) = mset (map (\<lambda>i. ?f (int i)) [0..<4])" by blast
  have f: "map (\<lambda>i. ?f (int i)) [0..<4] = [[99], [97], [], [97]]" by code_simp
  have "mset (map (\<lambda>i. g (int i)) [0..<4]) = mset [[], [97], [97], [99]]" unfolding g(3) f by simp
  note m = this
  have "sorted_wrt (\<lambda>x y. strcmp_val x y \<le> 0) [[], [97], [97], [99]]"
    by (simp add: strcmp_val_def)
  note g(1) strcmp_sorted_unique [OF g(2) this m]
  then show ?thesis by (intro exI [of _ g] conjI)
qed

section \<open>Strings\<close>

lemma disj_apart: "unat a + n \<le> unat b \<Longrightarrow> unat b + k \<le> 4294967296 \<Longrightarrow> disj a n b k"
  unfolding disj_def
proof (intro allI impI)
  fix i j assume "unat a + n \<le> unat b" "unat b + k \<le> 4294967296" "i < n" "j < k"
  then have "unat (a + of_nat i) = unat a + i" "unat (b + of_nat j) = unat b + j"
    by (simp_all add: unat_word_ariths unat_of_nat mod_simps)
  moreover have "unat a + i < unat b + j" using \<open>i < n\<close> \<open>unat a + n \<le> unat b\<close> by linarith
  ultimately show "a + of_nat i \<noteq> b + of_nat j" by (metis less_irrefl)
qed

text \<open>
  \<^verbatim>\<open>strcmp\<close> of two strings returns, and its sign is the lexicographic order of the
  sequences of signed characters, with equality exactly on equal strings; \<^verbatim>\<open>strncmp\<close> on at
  least as many characters as both strings have agrees with it.
\<close>

theorem strcmp_lexicographic:
  assumes "cstr m a xs" "cstr m b ys" "length xs < n" "length ys < n"
  shows "strcmp m a b = Some (strcmp_val xs ys) \<and> sgn (strncmp m a b (int n)) = strcmp_val xs ys
    \<and> (strcmp_val xs ys = 0 \<longleftrightarrow> xs = ys) \<and> (strcmp_val xs ys < 0 \<longleftrightarrow> map sint (xs @ [0]) < map sint (ys @ [0]))"
proof -
  have t: "take n xs = xs" "take n ys = ys" "take n (schars xs) = schars xs" "take n (schars ys) = schars ys"
    using assms(3,4) by (simp_all add: schars_def)
  have v: "strcmp_val xs ys < 0 \<longleftrightarrow> schars xs < schars ys" "strcmp_val xs ys = 0 \<longleftrightarrow> xs = ys"
    by (auto simp: strcmp_val_def)
  have "sgn (strncmp m a b (int n)) = strcmp_val xs ys"
    using strncmp_cstr [OF assms(1,2), of n] unfolding t by (auto simp: strcmp_val_def sgn_if)
  moreover have "strcmp m a b = Some (strcmp_val xs ys)"
    unfolding strcmp_val_def by (rule strcmp_cstr [OF assms(1,2)])
  ultimately show ?thesis unfolding schars_def [symmetric] using v by blast
qed

theorem strcmp_lexicographic_sample:
  "strcmp (put (put (\<lambda>a. 0) 100 [97, 98, 0]) 200 [97, 200, 0]) 100 200 = Some 1"
proof -
  let ?m = "put (put (\<lambda>a. 0) 100 [97, 98, 0]) 200 [97, 200, 0] :: memory"
  have "cstr ?m 100 [97, 98]" "cstr ?m 200 [97, 200]" by simp_all
  from strcmp_lexicographic [OF this, of 3] show ?thesis by (simp add: strcmp_val_def)
qed

text \<open>
  \<^verbatim>\<open>strncpy\<close> of a string that does not overlap its target writes exactly \<open>n\<close>
  bytes, the string cut to that length and padded with null bytes, returns the target, and changes
  nothing else.
\<close>

theorem strncpy_pads:
  assumes "cstr m b ys" "n < 4294967296" "disj a n b (min n (Suc (length ys)))"
  shows "\<exists>m'. strncpy m a b (int n) = (m', a) \<and> bytes_at m' a n = take n (ys @ replicate n 0)
    \<and> (\<forall>c. (\<forall>i<n. c \<noteq> a + of_nat i) \<longrightarrow> m' c = m c)"
  using strncpy_cstr [OF assms(1,3)] assms(2)
  by (intro exI [of _ "fst (strncpy m a b (int n))"]) (auto simp: padded_def prod_eq_iff)

theorem strncpy_pads_witness:
  "bytes_at (fst (strncpy (put (\<lambda>a. 7) 200 [97, 98, 0]) 100 200 4)) 100 4 = [97, 98, 0, 0]"
proof -
  let ?m = "put (\<lambda>a. 7) 200 [97, 98, 0] :: memory"
  have "cstr ?m 200 [97, 98]" by simp
  moreover have "disj 100 4 200 (min 4 (Suc (length [97, 98 :: u8])))"
    by (rule disj_apart) simp_all
  ultimately show ?thesis using strncpy_pads [of ?m 200 "[97, 98]" 4 100] by (auto simp: numeral_2_eq_2)
qed

text \<open>
  \<^verbatim>\<open>strstr\<close> looking for a string that is not empty returns the address of its first
  occurrence, the null pointer when there is none; the empty string, which occurs everywhere, it
  never finds.
\<close>

theorem strstr_first:
  assumes "cstr m a xs" "cstr m b ys"
  shows "\<exists>r. strstr m a b = Some r
    \<and> (if ys \<noteq> [] \<and> (\<exists>i<length xs. prefix ys (drop i xs))
       then \<exists>i<length xs. r = a + of_nat i \<and> prefix ys (drop i xs) \<and> (\<forall>j<i. \<not> prefix ys (drop j xs))
       else r = 0)"
proof (cases "ys = []")
  case True
  then show ?thesis using strstr_empty [OF assms(1)] assms(2) by simp
next
  case False
  note r = strstr_cstr [OF assms False]
  show ?thesis
  proof (cases "first_occ ys xs")
    case None
    then show ?thesis using r first_occ_None [OF None] by auto
  next
    case (Some i)
    then show ?thesis using r first_occ_Some [OF Some] False by auto
  qed
qed

theorem strstr_first_witness:
  "strstr (put (put (\<lambda>a. 0) 100 [97, 98, 97, 99, 0]) 200 [97, 99, 0]) 100 200 = Some 102"
proof -
  let ?m = "put (put (\<lambda>a. 0) 100 [97, 98, 97, 99, 0]) 200 [97, 99, 0] :: memory"
  have c: "cstr ?m 100 [97, 98, 97, 99]" "cstr ?m 200 [97, 99]" by simp_all
  let ?xs = "[97, 98, 97, 99] :: u8 list" and ?ys = "[97, 99] :: u8 list"
  have e: "\<exists>i<length ?xs. prefix ?ys (drop i ?xs)"
    by (rule exI [of _ 2]) simp
  have u: "i = 2" if "i < length ?xs" "prefix ?ys (drop i ?xs)" for i
    using that by (auto simp: less_Suc_eq)
  obtain r where r: "strstr ?m 100 200 = Some r"
      "if ?ys \<noteq> [] \<and> (\<exists>i<length ?xs. prefix ?ys (drop i ?xs))
       then \<exists>i<length ?xs. r = 100 + of_nat i \<and> prefix ?ys (drop i ?xs)
         \<and> (\<forall>j<i. \<not> prefix ?ys (drop j ?xs)) else r = 0"
    by (rule exE [OF strstr_first [OF c]], erule conjE) (rule that)
  from r(2) [unfolded if_P [OF conjI [OF list.distinct(2) e]]] obtain i where
    i: "i < length ?xs" "r = 100 + of_nat i" "prefix ?ys (drop i ?xs)" by blast
  have "i = 2" by (rule u [OF i(1,3)])
  then show ?thesis using r(1) i(2) by simp
qed

section \<open>Formatted output\<close>

text \<open>
  C29. What \<^verbatim>\<open>sprintf\<close> prints with \<^verbatim>\<open>%d\<close>, \<^verbatim>\<open>atoi\<close> reads back, for every
  word whose magnitude is at least 48 below \<^verbatim>\<open>INT_MAX\<close>, when the null byte that ends the
  format is not among the first eleven bytes of the target: the string \<^verbatim>\<open>sprintf\<close> writes at
  its target denotes, to \<^verbatim>\<open>atoi\<close>, the number that was printed, and nothing but the first
  twelve bytes of the target changes. (The code writes each character before it reads the next one of
  the format, so a target over the end of the format would be read as format. Above the bound
  \<^verbatim>\<open>atoi\<close> overflows in an intermediate sum.)
\<close>

theorem sprintf_atoi_roundtrip:
  assumes "cstr m fmt [37, 100]" "\<forall>i<11. fmt + 2 \<noteq> str + of_nat i" "\<bar>sint w\<bar> + 48 \<le> INT32_MAX"
  shows "\<exists>m'. sprintf m str fmt [w] = Some (m', str) \<and> atoi m' str = Some (Some (sint w))
    \<and> (\<forall>c. (\<forall>i\<le>11. c \<noteq> str + of_nat i) \<longrightarrow> m' c = m c)"
  by (rule sprintf_atoi [OF assms]) blast

theorem sprintf_atoi_roundtrip_witness:
  "\<exists>m'. sprintf (put (\<lambda>a. 0) 100 [37, 100, 0]) 200 100 [- 1234] = Some (m', 200)
     \<and> atoi m' 200 = Some (Some (- 1234)) \<and> m' 100 = 37"
proof -
  let ?m = "put (\<lambda>a. 0) 100 [37, 100, 0] :: memory"
  have c: "cstr ?m 100 [37, 100]" by simp
  have v: "sint (- 1234 :: u32) = - 1234" by simp
  have d: "\<forall>i<11. 100 + 2 \<noteq> 200 + (of_nat i :: u32)"
  proof (intro allI impI notI)
    fix i :: nat assume i: "i < 11" "100 + 2 = 200 + (of_nat i :: u32)"
    then have "unat (100 + 2 :: u32) = unat (200 + (of_nat i :: u32))" by (simp only:)
    then show False using i(1) by (simp add: unat_word_ariths unat_of_nat)
  qed
  obtain m' where "sprintf ?m 200 100 [- 1234] = Some (m', 200)" "atoi m' 200 = Some (Some (sint (- 1234 :: u32)))"
    and f: "\<forall>c. (\<forall>i\<le>11. c \<noteq> 200 + of_nat i) \<longrightarrow> m' c = ?m c"
    using sprintf_atoi_roundtrip [OF c d, of "- 1234"] unfolding v by auto
  moreover have "100 \<noteq> 200 + (of_nat i :: u32)" if "i \<le> 11" for i
  proof
    assume "100 = 200 + (of_nat i :: u32)"
    then have "unat (100 :: u32) = unat (200 + (of_nat i :: u32))" by (rule arg_cong)
    then show False using that by (simp add: unat_word_ariths unat_of_nat)
  qed
  ultimately show ?thesis unfolding v by auto
qed

text \<open>
  C30. The unsigned conversions of \<^verbatim>\<open>_doprnt\<close> print positional notation: for every 32-bit
  word, \<^verbatim>\<open>%u\<close> prints its decimal digits (although the code computes with signed
  numbers), \<^verbatim>\<open>%o\<close> its octal and \<^verbatim>\<open>%x\<close> and \<^verbatim>\<open>%X\<close> its hexadecimal
  ones, most significant first and without leading zeros.
\<close>

theorem doprnt_positional:
  assumes "cstr m p [37, f]" "(f, b, dig) \<in> {(117, 10, dchar), (111, 8, dchar),
      (120, 16, \<lambda>d. lower_hex (int d)), (88, 16, \<lambda>d. upper_hex (int d))}"
  shows "doprnt dbl m p [w] = Some (map dig (digits b (unat w)))"
  by (rule doprnt_unsigned [OF assms(1)]) (use assms(2) in \<open>auto simp: unsigned_text_def\<close>)

theorem doprnt_positional_witness:
  "doprnt (\<lambda>a b. (False, 0, 0)) (put (\<lambda>a. 0) 100 [37, 117, 0]) 100 [4000000000] = Some [52, 48, 48, 48, 48, 48, 48, 48, 48, 48]
   \<and> doprnt (\<lambda>a b. (False, 0, 0)) (put (\<lambda>a. 0) 100 [37, 120, 0]) 100 [51966] = Some [99, 97, 102, 101]"
proof -
  have c: "cstr (put (\<lambda>a. 0) 100 [37, 117, 0]) 100 [37, 117]" "cstr (put (\<lambda>a. 0) 100 [37, 120, 0]) 100 [37, 120]" by simp_all
  have "map dchar (digits 10 (unat (4000000000 :: u32))) = [52, 48, 48, 48, 48, 48, 48, 48, 48, 48]"
    by (simp add: digits.simps dchar_def chr_def)
  moreover have "map (\<lambda>d. lower_hex (int d)) (digits 16 (unat (51966 :: u32))) = [99, 97, 102, 101]"
    by (simp add: digits.simps lower_hex_def)
  ultimately show ?thesis
    using doprnt_positional [OF c(1), of 10 dchar] doprnt_positional [OF c(2), of 16 "\<lambda>d. lower_hex (int d)"] by simp
qed

text \<open>
  \<^verbatim>\<open>%b\<close> is unsafe: for every word from $2^{19}$ on, the binary numeral and its terminator
  need more than the 20 bytes of \<^verbatim>\<open>string\<close>, and \<^verbatim>\<open>_doprnt\<close> writes past its end;
  below that it prints the binary digits.
\<close>

lemma doprnt_binary_bound:
  assumes "cstr m p [37, 98]"
  shows "doprnt dbl m p [w] = (if unat w < 524288 then Some (map dchar (digits 2 (unat w))) else None)"
proof (cases "unat w < 524288")
  case True
  have "plain 98" by (simp add: plain_def isdig_def)
  have l: "length (digits 2 (unat w)) \<le> 19" using length_digits [of 2 "unat w" 19] True by simp
  have z: "0 \<notin> set (map dchar (digits 2 (unat w)))" using digits_less [of 2 _ "unat w"] dchar_nonzero by fastforce
  have m: "m p = 37" "m (p + 1) = 98" "m (p + 2) = 0" using assms by (simp_all add: add.assoc)
  have p: "prtl2 (sint w) = map dchar (digits 2 (unat w)) @ [0]" by (simp add: prtl2_digits nat_sint_mod)
  obtain c where c: "conv_num prtl2 \<lparr>leftjust = False, fillc = 32, fmin = 0, fmax = 0, fmtp = p + 1, fap = [w]\<rparr> (\<lambda>i. None) = Some c"
    "src_str m (csrc c) (cbuf c) = Some (map dchar (digits 2 (unat w)))" "cecho c = []" "cap c = []"
    "emit \<lparr>leftjust = False, fillc = 32, fmin = 0, fmax = 0, fmtp = p + 1, fap = [w]\<rparr> c (map dchar (digits 2 (unat w)))
      = map dchar (digits 2 (unat w))"
    by (rule conv_num_plain [of prtl2 w, OF p z]) (use l in simp_all)
  from doprnt_loop_spec [OF m(1,2) \<open>plain 98\<close>, where cv = "conv_do dbl" and c = c] show ?thesis
    using c m(3) True by (simp add: doprnt_def conv_do_def doprnt_loop_end)
next
  case False
  then show ?thesis using doprnt_b_overflow [OF assms, of w dbl] by simp
qed

lemma doprnt_binary_bound_sample:
  "doprnt (\<lambda>a b. (False, 0, 0)) (put (\<lambda>a. 0) 100 [37, 98, 0]) 100 [6] = Some [49, 49, 48]
   \<and> doprnt (\<lambda>a b. (False, 0, 0)) (put (\<lambda>a. 0) 100 [37, 98, 0]) 100 [524288] = None"
proof -
  have c: "cstr (put (\<lambda>a. 0) 100 [37, 98, 0]) 100 [37, 98]" by simp
  have "map dchar (digits 2 6) = [49, 49, 48]" by (simp add: digits.simps dchar_def chr_def)
  then show ?thesis using doprnt_binary_bound [OF c, of _ 6] doprnt_binary_bound [OF c, of _ 524288] by simp
qed

end
