(* ===== verification/Kstate.thy ===== *)
theory Kstate
  imports Prelude
begin

text \<open>
  The kernel's data: sizes and state constants of \<^verbatim>\<open>include/\<close> (with the values
  \<^verbatim>\<open>conf.h\<close> configures), one record per C structure, and the record \<open>kst\<close> of all kernel
  variables that the modelled operations read or write. Tables are functions from the C index.
\<close>

abbreviation (input) NPROC :: int where "NPROC \<equiv> 100"
abbreviation (input) NSEM :: int where "NSEM \<equiv> 100"
abbreviation (input) NQENT :: int where "NQENT \<equiv> NPROC + 4 + NSEM + NSEM"
abbreviation (input) NULLPROC :: int where "NULLPROC \<equiv> 0"
abbreviation (input) EMPTY :: int where "EMPTY \<equiv> - 1"
abbreviation (input) MAXKEY :: int where "MAXKEY \<equiv> INT32_MAX"
abbreviation (input) MINKEY :: int where "MINKEY \<equiv> INT32_MIN"
abbreviation (input) QUANTUM :: int where "QUANTUM \<equiv> 2"
abbreviation (input) NDEVS :: int where "NDEVS \<equiv> 24"
abbreviation (input) NPORTS :: int where "NPORTS \<equiv> 30"
abbreviation (input) NBPOOLS :: int where "NBPOOLS \<equiv> 20"

datatype pstate = PR_FREE | PR_CURR | PR_READY | PR_RECV | PR_SLEEP | PR_SUSP | PR_WAIT | PR_RECTIM

record procent =
  prstate :: pstate
  prprio :: int
  prstkptr :: u32
  prstkbase :: u32
  prstklen :: u32
  prname :: "nat \<Rightarrow> u8"
  prsem :: int
  prparent :: int
  prmsg :: u32
  prhasmsg :: bool
  prdesc :: "nat \<Rightarrow> int"

datatype sem_state = S_FREE | S_USED

record sentry =
  sstate :: sem_state
  scount :: int
  squeue :: int

record qentry =
  qkey :: int
  qnext :: int
  qprev :: int

type_synonym qtab = "int \<Rightarrow> qentry"

text \<open>The heap: memory, the list head \<^verbatim>\<open>memlist\<close> and the bounds of \<^verbatim>\<open>meminit.c\<close>.\<close>

record heap =
  bytes :: memory
  mnext0 :: u32
  mlength0 :: u32
  minheap :: u32
  maxheap :: u32

record bpentry =
  bpnext :: u32
  bpsem :: int
  bpsize :: int

datatype port_state = PT_FREE | PT_LIMBO | PT_ALLOC

record ptentry =
  ptssem :: int
  ptrsem :: int
  ptstate :: port_state
  ptmaxcnt :: int
  ptseq :: int
  pthead :: u32
  pttail :: u32

text \<open>
  A terminal line (\<^verbatim>\<open>tty.h\<close>): pointers into the three buffers are indices, characters are
  bytes. An interrupt gate (\<^verbatim>\<open>i386.h\<close>).
\<close>

record ttycblk =
  tyihead :: int
  tyitail :: int
  tyibuff :: "int \<Rightarrow> u8"
  tyisem :: int
  tyohead :: int
  tyotail :: int
  tyobuff :: "int \<Rightarrow> u8"
  tyosem :: int
  tyehead :: int
  tyetail :: int
  tyebuff :: "int \<Rightarrow> u8"
  tyimode :: u8
  tyiecho :: bool
  tyieback :: bool
  tyevis :: bool
  tyecrlf :: bool
  tyicrlf :: bool
  tyierase :: bool
  tyierasec :: u8
  tyierasec2 :: u8
  tyeof :: bool
  tyeofch :: u8
  tyikill :: bool
  tyikillc :: u8
  tyicursor :: int
  tyoflow :: bool
  tyoheld :: bool
  tyostop :: u8
  tyostart :: u8
  tyocrlf :: bool
  tyifullc :: u8

record idt_gate =
  igd_loffset :: u16
  igd_segsel :: u16
  igd_rsvd :: "5 word"
  igd_mbz :: "3 word"
  igd_type :: "5 word"
  igd_dpl :: "2 word"
  igd_present :: "1 word"
  igd_hoffset :: u16

text \<open>
  The local file system (\<^verbatim>\<open>lfilesys.h\<close>): index blocks, directory entries, the directory, and the
  control block of an open file, whose pointers into its directory entry and its data block are
  indices. \<open>fsys\<close> is \<^verbatim>\<open>Lf_data\<close>, \<^verbatim>\<open>lfltab\<close> and the bytes of the RAM disk (\<^verbatim>\<open>ramdisk.h\<close>).
\<close>

record lfiblk =
  ib_next :: u32
  ib_offset :: u32
  ib_dba :: "u32 list"

record ldentry =
  ld_size :: u32
  ld_ilist :: u32
  ld_name :: "u8 list"

record lfdir =
  lfd_fsysid :: u32
  lfd_vers :: u16
  lfd_subvers :: u16
  lfd_allzeros :: u32
  lfd_allones :: u32
  lfd_dfree :: u32
  lfd_ifree :: u32
  lfd_nfiles :: u32
  lfd_files :: "ldentry list"
  lfd_revid :: u32

datatype lfl_state = LF_FREE | LF_USED

record lflcblk =
  lfstate :: lfl_state
  lfdev :: int
  lfmutex :: int
  lfdirptr :: int
  lfmode :: int
  lfpos :: u32
  lfname :: "u8 list"
  lfinum :: u32
  lfiblock :: lfiblk
  lfdnum :: u32
  lfdblock :: "u8 list"
  lfbyte :: int
  lfibdirty :: bool
  lfdbdirty :: bool

record fsys =
  lf_dskdev :: int
  lf_mutex :: int
  lf_dir :: lfdir
  lf_dirpresent :: bool
  lf_dirdirty :: bool
  lfltab :: "int \<Rightarrow> lflcblk"
  ramdisk :: "int \<Rightarrow> u8"

text \<open>
  The network: the Ethernet interface (\<^verbatim>\<open>ether.h\<close>; \<open>ethregs\<close> are the values last written to
  its registers), the tables of UDP and ICMP endpoints (\<^verbatim>\<open>udp.h\<close>, \<^verbatim>\<open>icmp.h\<close>), the ARP cache
  (\<^verbatim>\<open>arp.h\<close>), the IP output queue (\<^verbatim>\<open>ip.h\<close>) and the addresses of the computer
  (\<^verbatim>\<open>net.h\<close>). A queued packet is the address of its buffer.
\<close>

datatype eth_state = ETH_STATE_FREE | ETH_STATE_DOWN | ETH_STATE_UP

record ethcblk =
  estate :: eth_state
  rxRing :: u32
  rxHead :: u32
  rxTail :: u32
  rxRingSize :: u32
  rxIrq :: u32
  txRing :: u32
  txHead :: u32
  txTail :: u32
  txRingSize :: u32
  txIrq :: u32
  devAddress :: "u8 list"
  isem :: int
  osem :: int
  ethregs :: "u32 \<Rightarrow> u32"

datatype udp_state = UDP_FREE | UDP_USED | UDP_RECV

record udpentry =
  udstate :: udp_state
  udremip :: u32
  udremport :: u16
  udlocport :: u16
  udhead :: int
  udtail :: int
  udcount :: int
  udpid :: int
  udqueue :: "int \<Rightarrow> u32"

datatype icmp_state = ICMP_FREE | ICMP_USED | ICMP_RECV

record icmpentry =
  icstate :: icmp_state
  icremip :: u32
  ichead :: int
  ictail :: int
  iccount :: int
  icpid :: int
  icqueue :: "int \<Rightarrow> u32"

datatype arp_state = AR_FREE | AR_PENDING | AR_RESOLVED

record arpentry =
  arstate :: arp_state
  arpaddr :: u32
  arpid :: int
  arhaddr :: "u8 list"

record iqentry =
  iqhead :: int
  iqtail :: int
  iqsem :: int
  iqbuf :: "int \<Rightarrow> u32"

record network =
  ipucast :: u32
  ipbcast :: u32
  ipmask :: u32
  ipprefix :: u32
  iprouter :: u32
  bootserver :: u32
  dnsserver :: u32
  ntpserver :: u32
  ipvalid :: bool
  ethucast :: "u8 list"
  ethbcast :: "u8 list"
  bootfile :: "u8 list"

text \<open>\<open>sendident\<close>, \<open>sendtoident\<close> and \<open>ipident\<close> are the static counters of \<^verbatim>\<open>udp_send\<close>,
  \<^verbatim>\<open>udp_sendto\<close> and \<^verbatim>\<open>icmp_mkpkt\<close>.\<close>

record netst =
  ethertab :: "int \<Rightarrow> ethcblk"
  udptab :: "int \<Rightarrow> udpentry"
  icmptab :: "int \<Rightarrow> icmpentry"
  arpcache :: "int \<Rightarrow> arpentry"
  ipoqueue :: iqentry
  NetData :: network
  netbufpool :: int
  netportseed :: "64 word"
  sendident :: u16
  sendtoident :: u16
  ipident :: u32

text \<open>\<open>outlog\<close> is what was written to the ports of devices, in order.\<close>

record kst =
  proctab :: "int \<Rightarrow> procent"
  queuetab :: qtab
  semtab :: "int \<Rightarrow> sentry"
  readylist :: int
  sleepq :: int
  currpid :: int
  prcount :: int
  ndefers :: int
  attempt :: bool
  preempt :: int
  clktime :: u32
  count1000 :: u32
  nextpid :: int
  nextqid :: int
  nextsem :: int
  hp :: heap
  buftab :: "int \<Rightarrow> bpentry"
  nbpools :: int
  porttab :: "int \<Rightarrow> ptentry"
  ptfree :: u32
  ptnextid :: int
  ttytab :: "int \<Rightarrow> ttycblk"
  idtab :: "int \<Rightarrow> idt_gate"
  girmask :: u16
  outlog :: "(u16 \<times> u8) list"
  lfs :: fsys
  net :: netst

text \<open>Field updates of one table entry.\<close>

definition upd_proc :: "int \<Rightarrow> (procent \<Rightarrow> procent) \<Rightarrow> kst \<Rightarrow> kst" where
  "upd_proc p f s = s\<lparr>proctab := (proctab s)(p := f (proctab s p))\<rparr>"

definition upd_sem :: "int \<Rightarrow> (sentry \<Rightarrow> sentry) \<Rightarrow> kst \<Rightarrow> kst" where
  "upd_sem i f s = s\<lparr>semtab := (semtab s)(i := f (semtab s i))\<rparr>"

definition set_prstate :: "int \<Rightarrow> pstate \<Rightarrow> kst \<Rightarrow> kst" where
  "set_prstate p st = upd_proc p (\<lambda>e. e\<lparr>prstate := st\<rparr>)"

text \<open>Memory as the byte array of the heap.\<close>

definition kmem :: "kst \<Rightarrow> memory" where
  "kmem s = bytes (hp s)"

definition set_kmem :: "memory \<Rightarrow> kst \<Rightarrow> kst" where
  "set_kmem m s = s\<lparr>hp := (hp s)\<lparr>bytes := m\<rparr>\<rparr>"

text \<open>\<^verbatim>\<open>isbadpid\<close> (process.h), \<^verbatim>\<open>isbadqid\<close> (queue.h), \<^verbatim>\<open>isbadsem\<close> (semaphore.h).\<close>

definition isbadpid :: "kst \<Rightarrow> int \<Rightarrow> bool" where
  "isbadpid s x \<longleftrightarrow> x < 0 \<or> x \<ge> NPROC \<or> prstate (proctab s x) = PR_FREE"

definition isbadqid :: "int \<Rightarrow> bool" where
  "isbadqid x \<longleftrightarrow> x < NPROC \<or> x \<ge> NQENT - 1"

definition isbadsem :: "int \<Rightarrow> bool" where
  "isbadsem x \<longleftrightarrow> x < 0 \<or> x \<ge> NSEM"

definition isbaddev :: "int \<Rightarrow> bool" where
  "isbaddev f \<longleftrightarrow> f < 0 \<or> f \<ge> NDEVS"

lemma upd_proc_simps [simp]:
  "proctab (upd_proc p f s) = (proctab s)(p := f (proctab s p))"
  "queuetab (upd_proc p f s) = queuetab s"
  "semtab (upd_proc p f s) = semtab s"
  "readylist (upd_proc p f s) = readylist s"
  "sleepq (upd_proc p f s) = sleepq s"
  "currpid (upd_proc p f s) = currpid s"
  "prcount (upd_proc p f s) = prcount s"
  "ndefers (upd_proc p f s) = ndefers s"
  "attempt (upd_proc p f s) = attempt s"
  "preempt (upd_proc p f s) = preempt s"
  "nextqid (upd_proc p f s) = nextqid s"
  "nextpid (upd_proc p f s) = nextpid s"
  "nextsem (upd_proc p f s) = nextsem s"
  "hp (upd_proc p f s) = hp s"
  by (simp_all add: upd_proc_def)

lemma upd_sem_simps [simp]:
  "proctab (upd_sem i g s) = proctab s"
  "queuetab (upd_sem i g s) = queuetab s"
  "semtab (upd_sem i g s) = (semtab s)(i := g (semtab s i))"
  "readylist (upd_sem i g s) = readylist s"
  "sleepq (upd_sem i g s) = sleepq s"
  "currpid (upd_sem i g s) = currpid s"
  "prcount (upd_sem i g s) = prcount s"
  "ndefers (upd_sem i g s) = ndefers s"
  "attempt (upd_sem i g s) = attempt s"
  "preempt (upd_sem i g s) = preempt s"
  "nextqid (upd_sem i g s) = nextqid s"
  "nextpid (upd_sem i g s) = nextpid s"
  "nextsem (upd_sem i g s) = nextsem s"
  "hp (upd_sem i g s) = hp s"
  by (simp_all add: upd_sem_def)

lemma set_prstate_simps [simp]:
  "proctab (set_prstate p st s) = (proctab s)(p := (proctab s p)\<lparr>prstate := st\<rparr>)"
  "queuetab (set_prstate p st s) = queuetab s"
  "semtab (set_prstate p st s) = semtab s"
  "readylist (set_prstate p st s) = readylist s"
  "sleepq (set_prstate p st s) = sleepq s"
  "currpid (set_prstate p st s) = currpid s"
  "prcount (set_prstate p st s) = prcount s"
  "ndefers (set_prstate p st s) = ndefers s"
  "attempt (set_prstate p st s) = attempt s"
  "preempt (set_prstate p st s) = preempt s"
  "nextqid (set_prstate p st s) = nextqid s"
  "nextpid (set_prstate p st s) = nextpid s"
  "nextsem (set_prstate p st s) = nextsem s"
  "hp (set_prstate p st s) = hp s"
  by (simp_all add: set_prstate_def)

end
