(* ===== verification/Queues.thy ===== *)
theory Queues
  imports Kstate
begin

text \<open>
  The process queues: \<^verbatim>\<open>include/queue.h\<close>, \<^verbatim>\<open>queue.c\<close>, \<^verbatim>\<open>newqueue.c\<close>,
  \<^verbatim>\<open>getitem.c\<close>, \<^verbatim>\<open>insert.c\<close> and \<^verbatim>\<open>insertd.c\<close>. All queues are doubly
  linked lists threaded through the one table \<^verbatim>\<open>queuetab\<close>; a process has one node and is on
  at most one queue. The abstraction \<open>qlist\<close> reads a queue as the list of its processes, and
  each operation is shown to be the list operation it stands for.
\<close>

section \<open>The operations\<close>

definition firstid :: "kst \<Rightarrow> int \<Rightarrow> int" where
  "firstid s q = qnext (queuetab s q)"

definition lastid :: "kst \<Rightarrow> int \<Rightarrow> int" where
  "lastid s q = qprev (queuetab s (q + 1))"

definition isempty :: "kst \<Rightarrow> int \<Rightarrow> bool" where
  "isempty s q \<longleftrightarrow> firstid s q \<ge> NPROC"

definition nonempty :: "kst \<Rightarrow> int \<Rightarrow> bool" where
  "nonempty s q \<longleftrightarrow> firstid s q < NPROC"

definition firstkey :: "kst \<Rightarrow> int \<Rightarrow> int" where
  "firstkey s q = qkey (queuetab s (firstid s q))"

definition set_qnext :: "int \<Rightarrow> int \<Rightarrow> qtab \<Rightarrow> qtab" where
  "set_qnext i v t = t(i := (t i)\<lparr>qnext := v\<rparr>)"

definition set_qprev :: "int \<Rightarrow> int \<Rightarrow> qtab \<Rightarrow> qtab" where
  "set_qprev i v t = t(i := (t i)\<lparr>qprev := v\<rparr>)"

definition set_qkey :: "int \<Rightarrow> int \<Rightarrow> qtab \<Rightarrow> qtab" where
  "set_qkey i v t = t(i := (t i)\<lparr>qkey := v\<rparr>)"

text \<open>\<^verbatim>\<open>getitem\<close>: unlink a process from whatever queue its node is in.\<close>

definition getitem :: "int \<Rightarrow> kst \<Rightarrow> kst \<times> int" where
  "getitem pid s =
     (let t = queuetab s; nxt = qnext (t pid); prv = qprev (t pid)
      in (s\<lparr>queuetab := set_qprev nxt prv (set_qnext prv nxt t)\<rparr>, pid))"

definition getfirst :: "int \<Rightarrow> kst \<Rightarrow> kst \<times> int" where
  "getfirst q s = (if isempty s q then (s, EMPTY) else getitem (qnext (queuetab s q)) s)"

definition getlast :: "int \<Rightarrow> kst \<Rightarrow> kst \<times> int" where
  "getlast q s = (if isempty s q then (s, EMPTY) else getitem (qprev (queuetab s (q + 1))) s)"

definition enqueue :: "int \<Rightarrow> int \<Rightarrow> kst \<Rightarrow> kst \<times> int" where
  "enqueue pid q s =
     (if isbadqid q \<or> isbadpid s pid then (s, SYSERR)
      else let t = queuetab s; tail = q + 1; prv = qprev (t tail);
               t1 = set_qnext pid tail t;
               t2 = set_qprev pid prv t1;
               t3 = set_qnext prv pid t2;
               t4 = set_qprev tail pid t3
           in (s\<lparr>queuetab := t4\<rparr>, pid))"

definition dequeue :: "int \<Rightarrow> kst \<Rightarrow> kst \<times> int" where
  "dequeue q s =
     (if isbadqid q then (s, SYSERR)
      else if isempty s q then (s, EMPTY)
      else let (s1, pid) = getfirst q s
           in (s1\<lparr>queuetab := set_qnext pid EMPTY (set_qprev pid EMPTY (queuetab s1))\<rparr>, pid))"

text \<open>
  The scan of \<^verbatim>\<open>insert\<close>: \<^verbatim>\<open>while (queuetab[curr].qkey >= key)\<close>. On a table that is not a
  well-formed queue it may never end, which is \<open>None\<close>.
\<close>

partial_function (option) insert_scan :: "qtab \<Rightarrow> int \<Rightarrow> int \<Rightarrow> int option" where
  "insert_scan t key cur =
     (if qkey (t cur) \<ge> key then insert_scan t key (qnext (t cur)) else Some cur)"

definition insert_q :: "int \<Rightarrow> int \<Rightarrow> int \<Rightarrow> kst \<Rightarrow> (kst \<times> int) option" where
  "insert_q pid q key s =
     (if isbadqid q \<or> isbadpid s pid then Some (s, SYSERR)
      else case insert_scan (queuetab s) key (firstid s q) of
        None \<Rightarrow> None
      | Some cur \<Rightarrow>
          (let t = queuetab s; prv = qprev (t cur);
               t1 = set_qnext pid cur t;
               t2 = set_qprev pid prv t1;
               t3 = set_qkey pid key t2;
               t4 = set_qnext prv pid t3;
               t5 = set_qprev cur pid t4
           in Some (s\<lparr>queuetab := t5\<rparr>, OK)))"

text \<open>
  The scan of \<^verbatim>\<open>insertd\<close> over the delta list, which subtracts the keys it passes; it
  returns \<open>(prev, next, key)\<close>.
\<close>

partial_function (option) insertd_scan ::
    "qtab \<Rightarrow> int \<Rightarrow> int \<Rightarrow> int \<Rightarrow> int \<Rightarrow> (int \<times> int \<times> int) option" where
  "insertd_scan t tail prv nxt key =
     (if nxt \<noteq> tail \<and> qkey (t nxt) \<le> key
      then insertd_scan t tail nxt (qnext (t nxt)) (i32 (key - qkey (t nxt)))
      else Some (prv, nxt, key))"

definition insertd :: "int \<Rightarrow> int \<Rightarrow> int \<Rightarrow> kst \<Rightarrow> (kst \<times> int) option" where
  "insertd pid q key s =
     (if isbadqid q \<or> isbadpid s pid then Some (s, SYSERR)
      else case insertd_scan (queuetab s) (q + 1) q (qnext (queuetab s q)) key of
        None \<Rightarrow> None
      | Some (prv, nxt, key') \<Rightarrow>
          (let t1 = set_qnext pid nxt (queuetab s);
               t2 = set_qprev pid prv t1;
               t3 = set_qkey pid key' t2;
               t4 = set_qnext prv pid t3;
               t5 = set_qprev nxt pid t4;
               t6 = (if nxt \<noteq> q + 1 then set_qkey nxt (i32 (qkey (t5 nxt) - key')) t5 else t5)
           in Some (s\<lparr>queuetab := t6\<rparr>, OK)))"

definition newqueue :: "kst \<Rightarrow> kst \<times> int" where
  "newqueue s =
     (let q = nextqid s in
      if q \<ge> NQENT then (s, SYSERR)
      else let t = queuetab s;
               t1 = t(q := (t q)\<lparr>qnext := q + 1, qprev := EMPTY, qkey := MAXKEY\<rparr>);
               t2 = t1(q + 1 := (t1 (q + 1))\<lparr>qnext := EMPTY, qprev := q, qkey := MINKEY\<rparr>)
           in (s\<lparr>nextqid := q + 2, queuetab := t2\<rparr>, q))"


section \<open>Lists in the table\<close>

text \<open>
  \<open>dll t a xs b\<close>: the nodes \<open>xs\<close> are chained, in both directions, between the nodes
  \<open>a\<close> and \<open>b\<close>. \<open>is_queue t q xs\<close>: the queue with head \<open>q\<close> and tail \<open>q + 1\<close> holds
  exactly the processes \<open>xs\<close>, in this order.
\<close>

fun dll :: "qtab \<Rightarrow> int \<Rightarrow> int list \<Rightarrow> int \<Rightarrow> bool" where
  "dll t a [] b = (qnext (t a) = b \<and> qprev (t b) = a)"
| "dll t a (x # xs) b = (qnext (t a) = x \<and> qprev (t x) = a \<and> dll t x xs b)"

definition is_queue :: "qtab \<Rightarrow> int \<Rightarrow> int list \<Rightarrow> bool" where
  "is_queue t q xs \<longleftrightarrow> dll t q xs (q + 1) \<and> distinct xs \<and> set xs \<subseteq> {0..<NPROC}
     \<and> qkey (t q) = MAXKEY \<and> qkey (t (q + 1)) = MINKEY"

fun qwalk :: "nat \<Rightarrow> qtab \<Rightarrow> int \<Rightarrow> int list" where
  "qwalk 0 t i = []"
| "qwalk (Suc n) t i = (if i < NPROC then i # qwalk n t (qnext (t i)) else [])"

definition qlist :: "qtab \<Rightarrow> int \<Rightarrow> int list" where
  "qlist t q = qwalk 100 t (qnext (t q))"

definition link :: "int \<Rightarrow> int \<Rightarrow> int \<Rightarrow> qtab \<Rightarrow> qtab" where
  "link prv p nxt t = set_qprev nxt p (set_qnext prv p (set_qprev p prv (set_qnext p nxt t)))"

definition unlink :: "int \<Rightarrow> qtab \<Rightarrow> qtab" where
  "unlink p t = set_qprev (qnext (t p)) (qprev (t p)) (set_qnext (qprev (t p)) (qnext (t p)) t)"

named_theorems qtab_simps \<open>reads of an updated queue table\<close>

lemma qtab_reads [qtab_simps]:
  "qnext (set_qnext i v t j) = (if j = i then v else qnext (t j))"
  "qnext (set_qprev i v t j) = qnext (t j)"
  "qnext (set_qkey i v t j) = qnext (t j)"
  "qprev (set_qnext i v t j) = qprev (t j)"
  "qprev (set_qprev i v t j) = (if j = i then v else qprev (t j))"
  "qprev (set_qkey i v t j) = qprev (t j)"
  "qkey (set_qnext i v t j) = qkey (t j)"
  "qkey (set_qprev i v t j) = qkey (t j)"
  "qkey (set_qkey i v t j) = (if j = i then v else qkey (t j))"
  by (simp_all add: set_qnext_def set_qprev_def set_qkey_def)

lemma link_reads [qtab_simps]:
  "qnext (link a p b t j) = (if j = a then p else if j = p then b else qnext (t j))"
  "qprev (link a p b t j) = (if j = b then p else if j = p then a else qprev (t j))"
  "qkey (link a p b t j) = qkey (t j)"
  by (simp_all add: link_def qtab_simps)

lemma unlink_reads [qtab_simps]:
  "qnext (unlink p t j) = (if j = qprev (t p) then qnext (t p) else qnext (t j))"
  "qprev (unlink p t j) = (if j = qnext (t p) then qprev (t p) else qprev (t j))"
  "qkey (unlink p t j) = qkey (t j)"
  by (simp_all add: unlink_def qtab_simps)

lemma dll_append: "dll t a (xs @ x # ys) b \<longleftrightarrow> dll t a xs x \<and> dll t x ys b"
  by (induction xs arbitrary: a) auto

lemma dll_cong:
  assumes "\<And>i. i = a \<or> i \<in> set xs \<Longrightarrow> qnext (t' i) = qnext (t i)"
    and "\<And>i. i = b \<or> i \<in> set xs \<Longrightarrow> qprev (t' i) = qprev (t i)"
  shows "dll t' a xs b = dll t a xs b"
  using assms by (induction xs arbitrary: a) auto

lemma dll_last: "dll t a xs b \<Longrightarrow> qprev (t b) = last (a # xs)"
  by (induction xs arbitrary: a) auto

lemma dll_first: "dll t a xs b \<Longrightarrow> qnext (t a) = hd (xs @ [b])"
  by (cases xs) auto

text \<open>Linking a fresh node between neighbours, and unlinking a node.\<close>

lemma dll_link:
  assumes "dll t a (xs @ ys) b" "p \<notin> {a, b} \<union> set xs \<union> set ys" "distinct (a # xs @ ys @ [b])"
  shows "dll (link (last (a # xs)) p (hd (ys @ [b])) t) a (xs @ p # ys) b"
  using assms
proof (induction xs arbitrary: a)
  case Nil
  show ?case
  proof (cases ys)
    case Nil
    with Nil.prems show ?thesis by (auto simp: qtab_simps)
  next
    case (Cons y zs)
    with Nil.prems have "dll (link a p y t) y zs b = dll t y zs b"
      by (intro dll_cong) (auto simp: qtab_simps)
    with Nil.prems Cons show ?thesis by (auto simp: qtab_simps)
  qed
next
  case (Cons x xs)
  then have "dll (link (last (x # xs)) p (hd (ys @ [b])) t) x (xs @ p # ys) b" by auto
  moreover have "a \<noteq> last (x # xs)" "x \<noteq> hd (ys @ [b])"
    using Cons.prems(3) last_in_set [of "x # xs"] hd_in_set [of "ys @ [b]"] by auto
  ultimately show ?case using Cons.prems by (auto simp: qtab_simps)
qed

lemma dll_unlink:
  assumes "dll t a (xs @ p # ys) b" "distinct (a # xs @ p # ys @ [b])"
  shows "dll (unlink p t) a (xs @ ys) b"
  using assms
proof (induction xs arbitrary: a)
  case Nil
  show ?case
  proof (cases ys)
    case Nil
    with Nil.prems show ?thesis by (auto simp: qtab_simps)
  next
    case (Cons y zs)
    with Nil.prems have "dll (unlink p t) y zs b = dll t y zs b"
      by (intro dll_cong) (auto simp: qtab_simps)
    with Nil.prems Cons show ?thesis by (auto simp: qtab_simps)
  qed
next
  case (Cons x xs)
  then have IH: "dll (unlink p t) x (xs @ ys) b" by auto
  from Cons.prems(1) have "dll t x (xs @ p # ys) b" by simp
  then have d: "dll t x xs p" "dll t p ys b" by (simp_all add: dll_append)
  have "qprev (t p) = last (x # xs)" using dll_last [OF d(1)] .
  moreover have "qnext (t p) = hd (ys @ [b])" using dll_first [OF d(2)] .
  moreover have "a \<noteq> last (x # xs)" "x \<noteq> hd (ys @ [b])"
    using Cons.prems(2) last_in_set [of "x # xs"] hd_in_set [of "ys @ [b]"] by auto
  ultimately show ?case using IH Cons.prems by (auto simp: qtab_simps)
qed

lemma dll_walk:
  "dll t a xs b \<Longrightarrow> set xs \<subseteq> {0..<NPROC} \<Longrightarrow> NPROC \<le> b \<Longrightarrow> length xs \<le> n
   \<Longrightarrow> qwalk n t (qnext (t a)) = xs"
proof (induction xs arbitrary: a n)
  case Nil
  then show ?case by (cases n) auto
next
  case (Cons x xs)
  then obtain m where "n = Suc m" by (cases n) auto
  with Cons show ?case by auto
qed

lemma length_pids: "distinct xs \<Longrightarrow> set xs \<subseteq> {0..<NPROC} \<Longrightarrow> length xs \<le> 100"
  using card_mono [of "{0..<100::int}" "set xs"] by (simp add: distinct_card)

lemma is_queue_qlist: "is_queue t q xs \<Longrightarrow> NPROC \<le> q \<Longrightarrow> qlist t q = xs"
  by (auto simp: is_queue_def qlist_def intro!: dll_walk length_pids)

lemma is_queue_cong:
  assumes "\<And>i. i = q \<or> i = q + 1 \<or> i \<in> set xs \<Longrightarrow> qnext (t' i) = qnext (t i)"
    and "\<And>i. i = q \<or> i = q + 1 \<or> i \<in> set xs \<Longrightarrow> qprev (t' i) = qprev (t i)"
    and "\<And>i. i = q \<or> i = q + 1 \<Longrightarrow> qkey (t' i) = qkey (t i)"
  shows "is_queue t' q xs = is_queue t q xs"
  using assms dll_cong [of q xs t' t "q + 1"] by (auto simp: is_queue_def)


section \<open>All queues of the table together\<close>

text \<open>
  The queues allocated so far have the even ids from \<open>NPROC\<close> up to \<open>nextqid\<close>. \<open>wfq n t\<close>: each
  of them is a well-formed list, and no process is on two of them.
\<close>

definition qids :: "int \<Rightarrow> int set" where
  "qids n = {q. NPROC \<le> q \<and> q < n \<and> even q}"

definition wfq :: "int \<Rightarrow> qtab \<Rightarrow> bool" where
  "wfq n t \<longleftrightarrow> (\<forall>q \<in> qids n. is_queue t q (qlist t q))
     \<and> (\<forall>q \<in> qids n. \<forall>q' \<in> qids n. q \<noteq> q' \<longrightarrow> set (qlist t q) \<inter> set (qlist t q') = {})"

text \<open>A process that is on no queue.\<close>

definition offq :: "int \<Rightarrow> qtab \<Rightarrow> int \<Rightarrow> bool" where
  "offq n t p \<longleftrightarrow> (\<forall>q \<in> qids n. p \<notin> set (qlist t q))"

lemma qids_ge [simp]: "q \<in> qids n \<Longrightarrow> NPROC \<le> q"
  by (simp add: qids_def)

lemma qids_apart: "q \<in> qids n \<Longrightarrow> q' \<in> qids n \<Longrightarrow> q \<noteq> q' \<Longrightarrow> q \<noteq> q' + 1 \<and> q' \<noteq> q + 1"
  unfolding qids_def mem_Collect_eq by presburger

lemma wfq_is_queue: "wfq n t \<Longrightarrow> q \<in> qids n \<Longrightarrow> is_queue t q (qlist t q)"
  by (simp add: wfq_def)

lemma wfq_range: "wfq n t \<Longrightarrow> q \<in> qids n \<Longrightarrow> x \<in> set (qlist t q) \<Longrightarrow> 0 \<le> x \<and> x < NPROC"
  using wfq_is_queue by (fastforce simp: is_queue_def)

lemma wfq_distinct: "wfq n t \<Longrightarrow> q \<in> qids n \<Longrightarrow> distinct (qlist t q)"
  using wfq_is_queue by (auto simp: is_queue_def)

lemma wfq_disjoint:
  "wfq n t \<Longrightarrow> q \<in> qids n \<Longrightarrow> q' \<in> qids n \<Longrightarrow> x \<in> set (qlist t q) \<Longrightarrow> x \<in> set (qlist t q') \<Longrightarrow> q = q'"
  by (auto simp: wfq_def)

lemma wfq_ends:
  assumes "wfq n t" "q \<in> qids n"
  shows "distinct (q # qlist t q @ [q + 1])"
proof -
  have "q \<notin> set (qlist t q)" "q + 1 \<notin> set (qlist t q)"
    using wfq_range [OF assms, of q] wfq_range [OF assms, of "q + 1"] qids_ge [OF assms(2)] by auto
  then show ?thesis using wfq_distinct [OF assms] by simp
qed

text \<open>The node at either end of a position in a queue is an end of that queue or on it.\<close>

lemma last_node: "last (q # xs) = q \<or> last (q # xs) \<in> set xs"
  by (cases xs rule: rev_cases) simp_all

lemma hd_node: "hd (ys @ [b]) = b \<or> hd (ys @ [b]) \<in> set ys"
  by (cases ys) simp_all

text \<open>The nodes of two different queues are different.\<close>

lemma wfq_apart:
  assumes w: "wfq n t" and q: "q \<in> qids n" "q' \<in> qids n" "q' \<noteq> q"
    and i: "i = q' \<or> i = q' + 1 \<or> i \<in> set (qlist t q')"
    and j: "j = q \<or> j = q + 1 \<or> j \<in> set (qlist t q)"
  shows "i \<noteq> j"
proof
  assume "i = j"
  then consider "i \<in> {q', q' + 1}" "j \<in> {q, q + 1}" | "i \<in> {q', q' + 1}" "i \<in> set (qlist t q)"
    | "i \<in> set (qlist t q')" "i \<in> {q, q + 1}" | "i \<in> set (qlist t q')" "i \<in> set (qlist t q)"
    using i j by auto
  then show False
  proof cases
    case 1
    then show ?thesis using \<open>i = j\<close> qids_apart [OF q(2,1,3)] q(3) by auto
  next
    case 2
    then show ?thesis using wfq_range [OF w q(1), of i] qids_ge [OF q(2)] by auto
  next
    case 3
    then show ?thesis using wfq_range [OF w q(2), of i] qids_ge [OF q(1)] by auto
  next
    case 4
    then show ?thesis using wfq_disjoint [OF w q(1,2)] q(3) by blast
  qed
qed

lemma wfqI:
  assumes "\<And>q. q \<in> qids n \<Longrightarrow> is_queue t q (L q)"
    and "\<And>q q'. q \<in> qids n \<Longrightarrow> q' \<in> qids n \<Longrightarrow> q \<noteq> q' \<Longrightarrow> set (L q) \<inter> set (L q') = {}"
  shows "wfq n t \<and> (\<forall>q \<in> qids n. qlist t q = L q)"
proof -
  have "\<And>q. q \<in> qids n \<Longrightarrow> qlist t q = L q"
    using assms(1) by (intro is_queue_qlist) auto
  with assms show ?thesis by (simp add: wfq_def)
qed

text \<open>
  What one queue operation does to the abstraction: queue \<open>q\<close> becomes \<open>xs\<close>, the others stay.
\<close>

definition qupdated :: "int \<Rightarrow> qtab \<Rightarrow> qtab \<Rightarrow> int \<Rightarrow> int list \<Rightarrow> bool" where
  "qupdated n t t' q xs \<longleftrightarrow>
     wfq n t' \<and> (\<forall>q' \<in> qids n. qlist t' q' = (if q' = q then xs else qlist t q'))"

lemma wfq_linkI:
  assumes w: "wfq n t" and q: "q \<in> qids n" and xs: "qlist t q = xs @ ys"
    and p: "0 \<le> p" "p < NPROC" "offq n t p"
    and t': "\<And>i. qnext (t' i) = qnext (link (last (q # xs)) p (hd (ys @ [q + 1])) t i)"
      "\<And>i. qprev (t' i) = qprev (link (last (q # xs)) p (hd (ys @ [q + 1])) t i)"
      "\<And>i. NPROC \<le> i \<Longrightarrow> qkey (t' i) = qkey (t i)"
  shows "qupdated n t t' q (xs @ p # ys)"
proof -
  let ?L = "\<lambda>q'. if q' = q then xs @ p # ys else qlist t q'"
  have isq: "is_queue t q (xs @ ys)" using wfq_is_queue [OF w q] xs by simp
  have pfresh: "\<And>q'. q' \<in> qids n \<Longrightarrow> p \<notin> set (qlist t q')" using p(3) by (simp add: offq_def)
  have rng: "\<And>q' x. q' \<in> qids n \<Longrightarrow> x \<in> set (qlist t q') \<Longrightarrow> x < NPROC"
    using wfq_range [OF w] by blast
  have self: "is_queue t' q (xs @ p # ys)"
  proof -
    have d: "distinct (q # xs @ ys @ [q + 1])"
      using wfq_ends [OF w q] xs by simp
    have "dll (link (last (q # xs)) p (hd (ys @ [q + 1])) t) q (xs @ p # ys) (q + 1)"
      using isq d p pfresh [OF q] qids_ge [OF q] by (intro dll_link) (auto simp: is_queue_def xs)
    then have "dll t' q (xs @ p # ys) (q + 1)"
      using dll_cong [of q "xs @ p # ys" t' _ "q + 1"] t'(1,2) by blast
    then show ?thesis
      using isq p pfresh [OF q] qids_ge [OF q] t'(3) by (auto simp: is_queue_def xs)
  qed
  have other: "is_queue t' q' (qlist t q')" if q': "q' \<in> qids n" "q' \<noteq> q" for q'
  proof -
    have away: "i \<noteq> last (q # xs) \<and> i \<noteq> hd (ys @ [q + 1]) \<and> i \<noteq> p"
      if i: "i = q' \<or> i = q' + 1 \<or> i \<in> set (qlist t q')" for i
    proof -
      have "i \<noteq> p" using i pfresh [OF q'(1)] qids_ge [OF q'(1)] p by auto
      moreover have "i \<noteq> last (q # xs)" "i \<noteq> hd (ys @ [q + 1])"
        using wfq_apart [OF w q q' i] last_node [of q xs] hd_node [of ys "q + 1"] xs by auto
      ultimately show ?thesis by simp
    qed
    have "is_queue t' q' (qlist t q') = is_queue t q' (qlist t q')"
      using away qids_ge [OF q'(1)] t' by (intro is_queue_cong) (auto simp: qtab_simps)
    then show ?thesis using wfq_is_queue [OF w q'(1)] by simp
  qed
  have "wfq n t' \<and> (\<forall>q' \<in> qids n. qlist t' q' = ?L q')"
  proof (rule wfqI)
    fix q' assume "q' \<in> qids n"
    then show "is_queue t' q' (?L q')" using self other by simp
  next
    fix q1 q2 assume "q1 \<in> qids n" "q2 \<in> qids n" "q1 \<noteq> q2"
    then show "set (?L q1) \<inter> set (?L q2) = {}"
      using pfresh wfq_disjoint [OF w, of q1 q2] wfq_disjoint [OF w, of q q2]
        wfq_disjoint [OF w, of q1 q] xs by auto
  qed
  then show ?thesis by (simp add: qupdated_def)
qed

lemma wfq_unlinkI:
  assumes w: "wfq n t" and q: "q \<in> qids n" and xs: "qlist t q = xs @ p # ys"
    and t': "\<And>i. i \<noteq> p \<Longrightarrow> qnext (t' i) = qnext (unlink p t i)"
      "\<And>i. i \<noteq> p \<Longrightarrow> qprev (t' i) = qprev (unlink p t i)"
      "\<And>i. NPROC \<le> i \<Longrightarrow> qkey (t' i) = qkey (t i)"
  shows "qupdated n t t' q (xs @ ys)"
proof -
  let ?L = "\<lambda>q'. if q' = q then xs @ ys else qlist t q'"
  have isq: "is_queue t q (xs @ p # ys)" using wfq_is_queue [OF w q] xs by simp
  have rng: "\<And>q' x. q' \<in> qids n \<Longrightarrow> x \<in> set (qlist t q') \<Longrightarrow> x < NPROC"
    using wfq_range [OF w] by blast
  have d: "distinct (q # xs @ p # ys @ [q + 1])"
    using wfq_ends [OF w q] xs by simp
  have dl: "dll t q xs p" "dll t p ys (q + 1)"
    using isq by (simp_all add: is_queue_def dll_append)
  have ends: "qprev (t p) = q \<or> qprev (t p) \<in> set (qlist t q)"
    "qnext (t p) = q + 1 \<or> qnext (t p) \<in> set (qlist t q)"
    using dll_last [OF dl(1)] dll_first [OF dl(2)] last_node [of q xs] hd_node [of ys "q + 1"]
    by (simp_all add: xs) blast+
  have self: "is_queue t' q (xs @ ys)"
  proof -
    have "dll (unlink p t) q (xs @ ys) (q + 1)"
      using isq d by (intro dll_unlink) (auto simp: is_queue_def)
    moreover have ne: "i \<noteq> p" if "i = q \<or> i = q + 1 \<or> i \<in> set (xs @ ys)" for i
      using d that by auto
    have "dll t' q (xs @ ys) (q + 1) = dll (unlink p t) q (xs @ ys) (q + 1)"
      using ne t' by (intro dll_cong) auto
    ultimately show ?thesis
      using isq qids_ge [OF q] t'(3) by (auto simp: is_queue_def)
  qed
  have other: "is_queue t' q' (qlist t q')" if q': "q' \<in> qids n" "q' \<noteq> q" for q'
  proof -
    have away: "i \<noteq> qprev (t p) \<and> i \<noteq> qnext (t p) \<and> i \<noteq> p"
      if i: "i = q' \<or> i = q' + 1 \<or> i \<in> set (qlist t q')" for i
      using wfq_apart [OF w q q' i] ends xs by auto
    have "is_queue t' q' (qlist t q') = is_queue t q' (qlist t q')"
      using away qids_ge [OF q'(1)] t' by (intro is_queue_cong) (auto simp: qtab_simps)
    then show ?thesis using wfq_is_queue [OF w q'(1)] by simp
  qed
  have "wfq n t' \<and> (\<forall>q' \<in> qids n. qlist t' q' = ?L q')"
  proof (rule wfqI)
    fix q' assume "q' \<in> qids n"
    then show "is_queue t' q' (?L q')" using self other by simp
  next
    fix q1 q2 assume "q1 \<in> qids n" "q2 \<in> qids n" "q1 \<noteq> q2"
    then show "set (?L q1) \<inter> set (?L q2) = {}"
      using wfq_disjoint [OF w, of q1 q2] wfq_disjoint [OF w, of q q2]
        wfq_disjoint [OF w, of q1 q] xs by auto
  qed
  then show ?thesis by (simp add: qupdated_def)
qed


section \<open>The operations on the abstraction\<close>

lemma firstid_hd: "wfq n (queuetab s) \<Longrightarrow> q \<in> qids n \<Longrightarrow> firstid s q = hd (qlist (queuetab s) q @ [q + 1])"
  using wfq_is_queue dll_first by (auto simp: firstid_def is_queue_def)

lemma lastid_last: "wfq n (queuetab s) \<Longrightarrow> q \<in> qids n \<Longrightarrow> lastid s q = last (q # qlist (queuetab s) q)"
  using wfq_is_queue dll_last by (auto simp: lastid_def is_queue_def)

lemma isempty_iff:
  assumes "wfq n (queuetab s)" "q \<in> qids n"
  shows "isempty s q \<longleftrightarrow> qlist (queuetab s) q = []"
proof -
  have "100 \<le> q" using qids_ge [OF assms(2)] .
  then show ?thesis
    using wfq_range [OF assms, of "hd (qlist (queuetab s) q)"]
    by (cases "qlist (queuetab s) q") (auto simp: isempty_def firstid_hd [OF assms])
qed

lemma nonempty_iff: "wfq n (queuetab s) \<Longrightarrow> q \<in> qids n \<Longrightarrow> nonempty s q \<longleftrightarrow> qlist (queuetab s) q \<noteq> []"
  using isempty_iff [of n s q] by (auto simp: isempty_def nonempty_def)

lemma qids_good: "q \<in> qids n \<Longrightarrow> n \<le> NQENT \<Longrightarrow> \<not> isbadqid q"
  unfolding qids_def isbadqid_def mem_Collect_eq by presburger

lemma unlink_spec:
  assumes "wfq n t" "q \<in> qids n" "p \<in> set (qlist t q)"
  shows "qupdated n t (unlink p t) q (remove1 p (qlist t q))"
proof -
  obtain xs ys where xs: "qlist t q = xs @ p # ys" using split_list [OF assms(3)] by blast
  then have "remove1 p (qlist t q) = xs @ ys"
    using wfq_distinct [OF assms(1,2)] by (simp add: remove1_append)
  then show ?thesis using wfq_unlinkI [OF assms(1,2) xs] by (simp add: qtab_simps)
qed

lemma getitem_eq: "getitem p s = (s\<lparr>queuetab := unlink p (queuetab s)\<rparr>, p)"
  by (simp add: getitem_def unlink_def Let_def)

lemma getfirst_empty: "wfq n (queuetab s) \<Longrightarrow> q \<in> qids n \<Longrightarrow> qlist (queuetab s) q = [] \<Longrightarrow> getfirst q s = (s, EMPTY)"
  by (simp add: getfirst_def isempty_iff)

lemma getfirst_cons:
  assumes "wfq n (queuetab s)" "q \<in> qids n" "qlist (queuetab s) q = p # xs"
  shows "getfirst q s = (s\<lparr>queuetab := unlink p (queuetab s)\<rparr>, p)"
    and "qupdated n (queuetab s) (unlink p (queuetab s)) q xs"
proof -
  have "qnext (queuetab s q) = p" using firstid_hd [OF assms(1,2)] assms(3) by (simp add: firstid_def)
  then show "getfirst q s = (s\<lparr>queuetab := unlink p (queuetab s)\<rparr>, p)"
    using assms by (simp add: getfirst_def isempty_iff getitem_eq)
  show "qupdated n (queuetab s) (unlink p (queuetab s)) q xs"
    using unlink_spec [OF assms(1,2), of p] assms(3) by simp
qed

definition detach :: "int \<Rightarrow> qtab \<Rightarrow> qtab" where
  "detach p t = set_qnext p EMPTY (set_qprev p EMPTY (unlink p t))"

lemma detach_key [simp]: "qkey (detach p t i) = qkey (t i)"
  by (simp add: detach_def qtab_simps)

lemma dequeue_empty:
  "wfq n (queuetab s) \<Longrightarrow> q \<in> qids n \<Longrightarrow> n \<le> NQENT \<Longrightarrow> qlist (queuetab s) q = [] \<Longrightarrow> dequeue q s = (s, EMPTY)"
  by (simp add: dequeue_def isempty_iff qids_good)

lemma dequeue_cons:
  assumes "wfq n (queuetab s)" "q \<in> qids n" "n \<le> NQENT" "qlist (queuetab s) q = p # xs"
  shows "dequeue q s = (s\<lparr>queuetab := detach p (queuetab s)\<rparr>, p)"
    and "qupdated n (queuetab s) (detach p (queuetab s)) q xs"
proof -
  show "dequeue q s = (s\<lparr>queuetab := detach p (queuetab s)\<rparr>, p)"
    using getfirst_cons(1) [OF assms(1,2,4)] assms
    by (simp add: dequeue_def isempty_iff qids_good detach_def)
  show "qupdated n (queuetab s) (detach p (queuetab s)) q xs"
    using wfq_unlinkI [OF assms(1,2), of "[]" p xs] assms(4)
    by (simp add: detach_def qtab_simps)
qed

lemma enqueue_spec:
  assumes "wfq n (queuetab s)" "q \<in> qids n" "n \<le> NQENT" "\<not> isbadpid s p" "offq n (queuetab s) p"
  shows "\<exists>t'. enqueue p q s = (s\<lparr>queuetab := t'\<rparr>, p)
    \<and> qupdated n (queuetab s) t' q (qlist (queuetab s) q @ [p]) \<and> (\<forall>i. qkey (t' i) = qkey (queuetab s i))"
proof -
  let ?t = "queuetab s"
  let ?t' = "link (last (q # qlist ?t q)) p (q + 1) ?t"
  have l: "qprev (?t (q + 1)) = last (q # qlist ?t q)"
    using lastid_last [OF assms(1,2)] by (simp add: lastid_def)
  have "enqueue p q s = (s\<lparr>queuetab := ?t'\<rparr>, p)"
    using assms(2-4) l by (simp add: enqueue_def qids_good link_def Let_def)
  moreover have "qupdated n ?t ?t' q (qlist ?t q @ [p])"
    using wfq_linkI [OF assms(1,2), of "qlist ?t q" "[]" p ?t'] assms(4,5)
    by (simp add: isbadpid_def qtab_simps)
  ultimately show ?thesis by (intro exI [of _ ?t']) (simp add: qtab_simps)
qed

text \<open>The priority insertion: after every process whose key is at least \<open>key\<close>.\<close>

definition at_least :: "qtab \<Rightarrow> int \<Rightarrow> int \<Rightarrow> bool" where
  "at_least t key x \<longleftrightarrow> key \<le> qkey (t x)"

lemma insert_scan_dll:
  "dll t a xs b \<Longrightarrow> qkey (t b) < key
   \<Longrightarrow> insert_scan t key (qnext (t a)) = Some (hd (dropWhile (at_least t key) xs @ [b]))"
proof (induction xs arbitrary: a)
  case Nil
  then show ?case by (simp add: insert_scan.simps [of t key b])
next
  case (Cons x xs)
  then show ?case by (cases "at_least t key x") (auto simp: insert_scan.simps [of t key x] at_least_def)
qed

lemma hd_prev:
  assumes "dll t a (xs @ ys) b"
  shows "qprev (t (hd (ys @ [b]))) = last (a # xs)"
proof (cases ys)
  case Nil
  then show ?thesis using assms dll_last by simp
next
  case (Cons y zs)
  then show ?thesis using assms dll_last by (simp add: dll_append)
qed

lemma insert_q_spec:
  assumes "wfq n (queuetab s)" "q \<in> qids n" "n \<le> NQENT" "\<not> isbadpid s p" "offq n (queuetab s) p"
    and "MINKEY < key"
  shows "\<exists>t'. insert_q p q key s = Some (s\<lparr>queuetab := t'\<rparr>, OK)
    \<and> qupdated n (queuetab s) t' q (takeWhile (at_least (queuetab s) key) (qlist (queuetab s) q)
        @ p # dropWhile (at_least (queuetab s) key) (qlist (queuetab s) q))
    \<and> (\<forall>i. qkey (t' i) = (if i = p then key else qkey (queuetab s i)))"
proof -
  let ?t = "queuetab s" and ?L = "qlist (queuetab s) q"
  let ?xs = "takeWhile (at_least ?t key) ?L" and ?ys = "dropWhile (at_least ?t key) ?L"
  let ?prv = "last (q # ?xs)" and ?nxt = "hd (?ys @ [q + 1])"
  let ?t' = "set_qprev ?nxt p (set_qnext ?prv p (set_qkey p key (set_qprev p ?prv (set_qnext p ?nxt ?t))))"
  have isq: "is_queue ?t q (?xs @ ?ys)" using wfq_is_queue [OF assms(1,2)] by simp
  have scan: "insert_scan ?t key (firstid s q) = Some ?nxt"
    using isq assms(6) insert_scan_dll [of ?t q ?L "q + 1" key] by (simp add: is_queue_def firstid_def)
  have prv: "qprev (?t ?nxt) = ?prv"
    using isq hd_prev by (simp only: is_queue_def)
  have "insert_q p q key s = Some (s\<lparr>queuetab := ?t'\<rparr>, OK)"
    using assms(2-4) scan prv by (simp add: insert_q_def qids_good Let_def)
  moreover have "qupdated n ?t ?t' q (?xs @ p # ?ys)"
    using assms(4,5) by (intro wfq_linkI [OF assms(1,2)]) (auto simp: isbadpid_def link_def qtab_simps)
  ultimately show ?thesis by (intro exI [of _ ?t']) (simp add: qtab_simps)
qed


section \<open>The delta list\<close>

text \<open>
  On a delta list the key of a process is its delay after its predecessor. \<open>delays t acc xs\<close>
  are the processes with their delays from now, \<open>acc\<close> being the delay of what comes before.
\<close>

definition ksum :: "qtab \<Rightarrow> int list \<Rightarrow> int" where
  "ksum t xs = sum_list (map (\<lambda>x. qkey (t x)) xs)"

fun delays :: "qtab \<Rightarrow> int \<Rightarrow> int list \<Rightarrow> (int \<times> int) list" where
  "delays t acc [] = []"
| "delays t acc (x # xs) = (x, acc + qkey (t x)) # delays t (acc + qkey (t x)) xs"

definition delta_ok :: "qtab \<Rightarrow> int list \<Rightarrow> bool" where
  "delta_ok t xs \<longleftrightarrow> (\<forall>x \<in> set xs. 0 \<le> qkey (t x)) \<and> ksum t xs \<le> INT32_MAX"

fun dtake :: "qtab \<Rightarrow> int \<Rightarrow> int list \<Rightarrow> int list" where
  "dtake t k [] = []"
| "dtake t k (x # xs) = (if qkey (t x) \<le> k then x # dtake t (k - qkey (t x)) xs else [])"

lemma ksum_simps [simp]:
  "ksum t [] = 0" "ksum t (x # xs) = qkey (t x) + ksum t xs" "ksum t (xs @ ys) = ksum t xs + ksum t ys"
  by (simp_all add: ksum_def)

lemma ksum_cong: "(\<And>x. x \<in> set xs \<Longrightarrow> qkey (t' x) = qkey (t x)) \<Longrightarrow> ksum t' xs = ksum t xs"
  by (induction xs) auto

lemma delays_cong: "(\<And>x. x \<in> set xs \<Longrightarrow> qkey (t' x) = qkey (t x)) \<Longrightarrow> delays t' acc xs = delays t acc xs"
  by (induction xs arbitrary: acc) auto

lemma delta_ok_cong: "(\<And>x. x \<in> set xs \<Longrightarrow> qkey (t' x) = qkey (t x)) \<Longrightarrow> delta_ok t' xs = delta_ok t xs"
  using ksum_cong [of xs t' t] by (auto simp: delta_ok_def)

lemma delays_append: "delays t acc (xs @ ys) = delays t acc xs @ delays t (acc + ksum t xs) ys"
  by (induction xs arbitrary: acc) (auto simp: add.assoc)

lemma map_fst_delays [simp]: "map fst (delays t acc xs) = xs"
  by (induction xs arbitrary: acc) auto

lemma ksum_nonneg: "(\<And>x. x \<in> set xs \<Longrightarrow> 0 \<le> qkey (t x)) \<Longrightarrow> 0 \<le> ksum t xs"
  by (induction xs) auto

lemma dtake_prefix: "\<exists>vs. xs = dtake t k xs @ vs \<and> (vs \<noteq> [] \<longrightarrow> k - ksum t (dtake t k xs) < qkey (t (hd vs)))"
proof (induction t k xs rule: dtake.induct)
  case (1 t k)
  then show ?case by simp
next
  case (2 t k x xs)
  show ?case
  proof (cases "qkey (t x) \<le> k")
    case True
    with 2 obtain vs where "xs = dtake t (k - qkey (t x)) xs @ vs"
      "vs \<noteq> [] \<longrightarrow> k - qkey (t x) - ksum t (dtake t (k - qkey (t x)) xs) < qkey (t (hd vs))" by blast
    with True show ?thesis by (intro exI [of _ vs]) (auto simp: diff_diff_eq)
  next
    case False
    then show ?thesis by simp
  qed
qed

lemma dtake_sum: "0 \<le> k \<Longrightarrow> ksum t (dtake t k xs) \<le> k"
  by (induction t k xs rule: dtake.induct) auto

lemma dtake_delays: "0 \<le> k \<Longrightarrow> (x, d) \<in> set (delays t acc (dtake t k xs)) \<Longrightarrow> \<forall>y \<in> set xs. 0 \<le> qkey (t y) \<Longrightarrow> d \<le> acc + k"
proof (induction t k xs arbitrary: acc rule: dtake.induct)
  case (1 t k)
  then show ?case by simp
next
  case (2 t k y xs)
  show ?case
  proof (cases "qkey (t y) \<le> k \<and> (x, d) \<noteq> (y, acc + qkey (t y))")
    case True
    then have "d \<le> (acc + qkey (t y)) + (k - qkey (t y))"
      using 2 by (intro "2.IH") auto
    then show ?thesis by simp
  next
    case False
    then show ?thesis using "2.prems" by (auto split: if_splits)
  qed
qed

lemma insertd_scan_dll:
  assumes "dll t prv xs tail" "tail \<notin> set xs" "\<And>x. x \<in> set xs \<Longrightarrow> 0 \<le> qkey (t x)"
    and "0 \<le> k" "k \<le> INT32_MAX" "xs = dtake t k xs @ vs"
  shows "insertd_scan t tail prv (qnext (t prv)) k
    = Some (last (prv # dtake t k xs), hd (vs @ [tail]), k - ksum t (dtake t k xs))"
  using assms
proof (induction xs arbitrary: prv k)
  case Nil
  then show ?case by (simp add: insertd_scan.simps [of t tail prv tail])
next
  case (Cons x xs)
  show ?case
  proof (cases "qkey (t x) \<le> k")
    case True
    have x0: "0 \<le> qkey (t x)" using Cons.prems(3) by simp
    have "insertd_scan t tail x (qnext (t x)) (k - qkey (t x))
      = Some (last (x # dtake t (k - qkey (t x)) xs), hd (vs @ [tail]),
          k - qkey (t x) - ksum t (dtake t (k - qkey (t x)) xs))"
    proof (rule Cons.IH)
      show "k - qkey (t x) \<le> INT32_MAX" using Cons.prems(5) x0 by linarith
    qed (use Cons.prems True in auto)
    moreover have "i32 (k - qkey (t x)) = k - qkey (t x)"
      using True x0 Cons.prems(5) by (intro i32_id) linarith+
    ultimately show ?thesis
      using Cons.prems True by (simp add: insertd_scan.simps [of t tail prv x] diff_diff_eq)
  next
    case False
    then show ?thesis using Cons.prems by (auto simp: insertd_scan.simps [of t tail prv x])
  qed
qed

lemma insertd_spec:
  assumes w: "wfq n (queuetab s)" and q: "q \<in> qids n" and "n \<le> NQENT" "\<not> isbadpid s p"
    and off: "offq n (queuetab s) p" and key: "0 \<le> key" "key \<le> INT32_MAX"
    and ok: "delta_ok (queuetab s) (qlist (queuetab s) q)"
  obtains t' us vs where "insertd p q key s = Some (s\<lparr>queuetab := t'\<rparr>, OK)"
    and "qlist (queuetab s) q = us @ vs"
    and "qupdated n (queuetab s) t' q (us @ p # vs)"
    and "\<And>i. i \<noteq> p \<Longrightarrow> i \<notin> set (qlist (queuetab s) q) \<Longrightarrow> qkey (t' i) = qkey (queuetab s i)"
    and "delta_ok t' (us @ p # vs)"
    and "delays t' 0 (us @ p # vs)
      = delays (queuetab s) 0 us @ (p, key) # delays (queuetab s) (ksum (queuetab s) us) vs"
    and "\<And>x d. (x, d) \<in> set (delays (queuetab s) 0 us) \<Longrightarrow> d \<le> key"
    and "vs \<noteq> [] \<Longrightarrow> key < ksum (queuetab s) us + qkey (queuetab s (hd vs))"
proof -
  define t where "t = queuetab s"
  define L where "L = qlist t q"
  define us where "us = dtake t key L"
  define k where "k = key - ksum t us"
  obtain vs where vs: "L = us @ vs" "vs \<noteq> [] \<Longrightarrow> k < qkey (t (hd vs))"
    using dtake_prefix [of L t key] unfolding us_def k_def by blast
  define prv where "prv = last (q # us)"
  define nxt where "nxt = hd (vs @ [q + 1])"
  have okL: "delta_ok t L" using ok by (simp add: t_def L_def)
  have pos: "\<And>x. x \<in> set L \<Longrightarrow> 0 \<le> qkey (t x)" using okL by (simp add: delta_ok_def)
  have usum: "0 \<le> ksum t us" using ksum_nonneg [of us t] pos vs(1) by simp
  have k: "0 \<le> k" "k \<le> key"
    using dtake_sum [OF key(1), of t L] usum by (simp_all add: k_def us_def)
  have isq: "is_queue t q L" using wfq_is_queue [OF w q] by (simp add: t_def L_def)
  have ends: "q + 1 \<notin> set L" "q \<notin> set L" using wfq_ends [OF w q] by (simp_all add: t_def L_def)
  have "insertd_scan t (q + 1) q (qnext (t q)) key = Some (prv, nxt, k)"
    using insertd_scan_dll [of t q L "q + 1" key vs] isq ends pos key vs(1)
    unfolding prv_def nxt_def k_def us_def by (simp add: is_queue_def)
  then have scan: "insertd_scan (queuetab s) (q + 1) q (qnext (queuetab s q)) key = Some (prv, nxt, k)"
    by (simp add: t_def)
  define t5 where "t5 = set_qprev nxt p (set_qnext prv p (set_qkey p k (set_qprev p prv (set_qnext p nxt t))))"
  define t' where "t' = (if nxt \<noteq> q + 1 then set_qkey nxt (i32 (qkey (t5 nxt) - k)) t5 else t5)"
  have pL: "p \<notin> set L" using off q by (simp add: offq_def t_def L_def)
  have nxt: "nxt \<noteq> q + 1 \<longleftrightarrow> vs \<noteq> []"
    using ends vs(1) by (cases vs) (auto simp: nxt_def)
  have nkey: "0 < qkey (t nxt) - k \<and> qkey (t nxt) \<le> INT32_MAX \<and> nxt \<noteq> p \<and> nxt = hd vs" if ne: "vs \<noteq> []"
  proof -
    have "qkey (t (hd vs)) \<le> ksum t vs"
      using ne pos vs(1) ksum_nonneg [of "tl vs" t] by (cases vs) auto
    moreover have "ksum t L = ksum t us + ksum t vs" by (simp add: vs(1))
    ultimately show ?thesis
      using okL usum ne vs pL by (cases vs) (auto simp: delta_ok_def nxt_def)
  qed
  have keys: "qkey (t' i) = (if i = p then k else if vs \<noteq> [] \<and> i = hd vs then qkey (t i) - k else qkey (t i))" for i
    using nkey nxt k by (auto simp: t'_def t5_def qtab_simps)
  have dist: "distinct (us @ vs)" using isq by (simp add: is_queue_def vs(1))
  have keys_us: "qkey (t' x) = qkey (t x)" if "x \<in> set us" for x
    using that dist pL vs(1) hd_in_set [of vs] by (auto simp: keys)
  have vs': "delays t' (ksum t us + k) vs = delays t (ksum t us) vs \<and> ksum t' (p # vs) = (if vs = [] then k else ksum t vs)
    \<and> (\<forall>x \<in> set vs. 0 \<le> qkey (t' x))"
  proof (cases vs)
    case Nil
    then show ?thesis by (simp add: keys)
  next
    case (Cons v ws)
    have same: "qkey (t' x) = qkey (t x)" if "x \<in> set ws" for x
      using that dist pL vs(1) Cons by (auto simp: keys)
    have "v \<noteq> p" using pL vs(1) Cons by auto
    moreover have "0 \<le> qkey (t x)" if "x \<in> set ws" for x using that pos vs(1) Cons by auto
    moreover have "k < qkey (t v)" using vs(2) Cons by simp
    ultimately show ?thesis
      using Cons ksum_cong [of ws t' t] delays_cong [of ws t' t] same by (simp add: keys)
  qed
  have us': "delays t' 0 us = delays t 0 us" "ksum t' us = ksum t us"
    using delays_cong [of us t' t] ksum_cong [of us t' t] keys_us by simp_all
  show thesis
  proof (rule that [of t' us vs])
    show "insertd p q key s = Some (s\<lparr>queuetab := t'\<rparr>, OK)"
      using assms(2-4) scan by (simp add: insertd_def qids_good t'_def t5_def t_def Let_def)
    show "qlist (queuetab s) q = us @ vs" using vs(1) by (simp add: L_def t_def)
    have hi: "qkey (t' i) = qkey (queuetab s i)" if "100 \<le> i" for i
      using that wfq_range [OF w q, of i] hd_in_set [of vs] vs(1) assms(4)
      by (auto simp: keys t_def L_def isbadpid_def)
    show "qupdated n (queuetab s) t' q (us @ p # vs)"
      using assms(4) off vs(1) hi
      by (intro wfq_linkI [OF w q]) (auto simp: isbadpid_def link_def qtab_simps t'_def t5_def prv_def nxt_def t_def L_def)
    show "qkey (t' i) = qkey (queuetab s i)" if "i \<noteq> p" "i \<notin> set (qlist (queuetab s) q)" for i
      using that vs(1) hd_in_set [of vs] by (auto simp: keys t_def L_def)
    show "delta_ok t' (us @ p # vs)"
    proof -
      have kp: "qkey (t' p) = k" by (simp add: keys)
      have "ksum t' (us @ p # vs) \<le> INT32_MAX"
        using okL vs' us'(2) vs(1) key by (cases "vs = []") (auto simp: delta_ok_def k_def)
      then show ?thesis using vs' keys_us kp pos vs(1) k(1) by (auto simp: delta_ok_def)
    qed
    show "delays t' 0 (us @ p # vs)
      = delays (queuetab s) 0 us @ (p, key) # delays (queuetab s) (ksum (queuetab s) us) vs"
      using us' vs' by (simp add: delays_append keys k_def t_def)
    show "d \<le> key" if "(x, d) \<in> set (delays (queuetab s) 0 us)" for x d
      using dtake_delays [OF key(1), of x d t 0 L] that pos by (simp add: us_def t_def)
    show "key < ksum (queuetab s) us + qkey (queuetab s (hd vs))" if "vs \<noteq> []"
      using vs(2) [OF that] by (simp add: k_def t_def)
  qed
qed

end
