(* ===== verification/Kinv.thy ===== *)
theory Kinv
  imports Queues
begin

text \<open>
  The kernel invariant. A process is on the queue its state says (its home) and on no other;
  the ready list is ordered by key; the delays of the sleep queue are sound; a semaphore's count
  tells how many processes wait on it; exactly the process \<open>currpid\<close> is \<open>PR_CURR\<close>; the null
  process is always eligible.

  Kernel calls break parts of it for a while, so the predicate \<open>kgood F E cur X d\<close> says which
  parts hold: \<open>E\<close> are the processes in transit (on no queue, whatever their state), \<open>cur\<close> the
  process in state \<open>PR_CURR\<close> if any, \<open>X\<close> the semaphores whose count is being changed, and
  \<open>d\<close> whether the sleep queue's delays are sound. The lemmas below are the transitions
  between such states; every kernel call is a composition of them.
\<close>

definition home :: "kst \<Rightarrow> int \<Rightarrow> int option" where
  "home s p =
     (case prstate (proctab s p) of
        PR_READY \<Rightarrow> Some (readylist s)
      | PR_SLEEP \<Rightarrow> Some (sleepq s)
      | PR_RECTIM \<Rightarrow> Some (sleepq s)
      | PR_WAIT \<Rightarrow> Some (squeue (semtab s (prsem (proctab s p))))
      | _ \<Rightarrow> None)"

abbreviation kq :: "kst \<Rightarrow> int \<Rightarrow> int list" where
  "kq s q \<equiv> qlist (queuetab s) q"

definition kstatic :: "kst \<Rightarrow> bool" where
  "kstatic s \<longleftrightarrow> nextqid s \<le> NQENT \<and> readylist s \<in> qids (nextqid s) \<and> sleepq s \<in> qids (nextqid s)
     \<and> readylist s \<noteq> sleepq s
     \<and> (\<forall>i. 0 \<le> i \<and> i < NSEM \<longrightarrow> squeue (semtab s i) \<in> qids (nextqid s)
          \<and> squeue (semtab s i) \<noteq> readylist s \<and> squeue (semtab s i) \<noteq> sleepq s)
     \<and> (\<forall>i j. 0 \<le> i \<and> i < NSEM \<and> 0 \<le> j \<and> j < NSEM \<and> squeue (semtab s i) = squeue (semtab s j) \<longrightarrow> i = j)"

definition keys_desc :: "qtab \<Rightarrow> int list \<Rightarrow> bool" where
  "keys_desc t xs \<longleftrightarrow> sorted_wrt (\<lambda>x y. qkey (t y) \<le> qkey (t x)) xs"

text \<open>
  The null process is never blocked; a waiting process waits on a semaphore of the table; a
  process blocked in \<^verbatim>\<open>receive\<close> or \<^verbatim>\<open>recvtime\<close> has no message pending.
\<close>

definition entry_ok :: "int \<Rightarrow> procent \<Rightarrow> bool" where
  "entry_ok p e \<longleftrightarrow> (p = NULLPROC \<longrightarrow> prstate e = PR_CURR \<or> prstate e = PR_READY)
     \<and> (prstate e = PR_WAIT \<longrightarrow> \<not> isbadsem (prsem e))
     \<and> (prstate e = PR_RECV \<or> prstate e = PR_RECTIM \<longrightarrow> \<not> prhasmsg e)"

definition proc_ok :: "int set \<Rightarrow> int set \<Rightarrow> kst \<Rightarrow> int \<Rightarrow> bool" where
  "proc_ok F E s p \<longleftrightarrow>
     (\<forall>q \<in> qids (nextqid s). p \<in> set (kq s q) \<longleftrightarrow> p \<notin> E \<and> home s p = Some q)
   \<and> (p \<notin> E \<longrightarrow> entry_ok p (proctab s p))
   \<and> (p \<in> F \<longrightarrow> prstate (proctab s p) = PR_FREE)
   \<and> MINKEY < prprio (proctab s p) \<and> prprio (proctab s p) \<le> MAXKEY"

definition kprocs :: "int set \<Rightarrow> int set \<Rightarrow> kst \<Rightarrow> bool" where
  "kprocs F E s \<longleftrightarrow> (\<forall>p. 0 \<le> p \<and> p < NPROC \<longrightarrow> proc_ok F E s p)"

definition kbase :: "int set \<Rightarrow> int set \<Rightarrow> kst \<Rightarrow> bool" where
  "kbase F E s \<longleftrightarrow> kstatic s \<and> wfq (nextqid s) (queuetab s) \<and> kprocs F E s
     \<and> keys_desc (queuetab s) (kq s (readylist s)) \<and> 0 \<le> currpid s \<and> currpid s < NPROC \<and> 0 \<le> ndefers s"

definition curp :: "int option \<Rightarrow> kst \<Rightarrow> bool" where
  "curp cur s \<longleftrightarrow> (\<forall>p. 0 \<le> p \<and> p < NPROC \<longrightarrow> (prstate (proctab s p) = PR_CURR \<longleftrightarrow> cur = Some p))"

fun cnt_ok :: "sem_state \<Rightarrow> int \<Rightarrow> nat \<Rightarrow> bool" where
  "cnt_ok S_FREE c l = (l = 0)"
| "cnt_ok S_USED c l = (c \<le> INT32_MAX \<and> (if c < 0 then int l = - c else l = 0))"

definition semcnt :: "int set \<Rightarrow> kst \<Rightarrow> bool" where
  "semcnt X s \<longleftrightarrow> (\<forall>i. 0 \<le> i \<and> i < NSEM \<and> i \<notin> X \<longrightarrow>
     cnt_ok (sstate (semtab s i)) (scount (semtab s i)) (length (kq s (squeue (semtab s i)))))"

definition slp :: "kst \<Rightarrow> bool" where
  "slp s \<longleftrightarrow> delta_ok (queuetab s) (kq s (sleepq s))"

definition kgood :: "int set \<Rightarrow> int set \<Rightarrow> int option \<Rightarrow> int set \<Rightarrow> bool \<Rightarrow> kst \<Rightarrow> bool" where
  "kgood F E cur X d s \<longleftrightarrow> kbase F E s \<and> curp cur s \<and> semcnt X s \<and> (d \<longrightarrow> slp s)"

definition kinv :: "int set \<Rightarrow> kst \<Rightarrow> bool" where
  "kinv F s \<longleftrightarrow> kgood F {} (Some (currpid s)) {} True s \<and> ndefers s = 0"

section \<open>Consequences\<close>

lemma kgoodD:
  assumes "kgood F E cur X d s"
  shows "kbase F E s" "curp cur s" "semcnt X s" "d \<Longrightarrow> slp s" "kstatic s" "wfq (nextqid s) (queuetab s)"
    "kprocs F E s" "nextqid s \<le> NQENT" "readylist s \<in> qids (nextqid s)" "sleepq s \<in> qids (nextqid s)"
    "readylist s \<noteq> sleepq s" "0 \<le> currpid s" "currpid s < NPROC" "0 \<le> ndefers s"
  using assms by (auto simp: kgood_def kbase_def kstatic_def)

lemma kgood_sem:
  assumes "kgood F E cur X d s" "\<not> isbadsem i"
  shows "squeue (semtab s i) \<in> qids (nextqid s)" "squeue (semtab s i) \<noteq> readylist s"
    "squeue (semtab s i) \<noteq> sleepq s"
  using kgoodD(5) [OF assms(1)] assms(2) by (auto simp: kstatic_def isbadsem_def)

lemma kgood_sem_inj:
  assumes "kgood F E cur X d s" "\<not> isbadsem i" "\<not> isbadsem j" "squeue (semtab s i) = squeue (semtab s j)"
  shows "i = j"
  using kgoodD(5) [OF assms(1)] assms(2-4) by (auto simp: kstatic_def isbadsem_def)

lemma kgood_mem:
  assumes "kgood F E cur X d s" "0 \<le> p" "p < NPROC" "q \<in> qids (nextqid s)"
  shows "p \<in> set (kq s q) \<longleftrightarrow> p \<notin> E \<and> home s p = Some q"
  using kgoodD(7) [OF assms(1)] assms(2-4) by (simp add: kprocs_def proc_ok_def)

lemma kgood_in_queue:
  assumes "kgood F E cur X d s" "q \<in> qids (nextqid s)" "p \<in> set (kq s q)"
  shows "0 \<le> p" "p < NPROC" "p \<notin> E" "home s p = Some q"
  using wfq_range [OF kgoodD(6) [OF assms(1)] assms(2,3)] kgood_mem [OF assms(1) _ _ assms(2), of p] assms(3)
  by auto

lemma kgood_prio:
  "kgood F E cur X d s \<Longrightarrow> 0 \<le> p \<Longrightarrow> p < NPROC \<Longrightarrow> MINKEY < prprio (proctab s p) \<and> prprio (proctab s p) \<le> MAXKEY"
  using kgoodD(7) [of F E cur X d s] by (simp add: kprocs_def proc_ok_def)

lemma kgood_off:
  assumes "kgood F E cur X d s" "0 \<le> p" "p < NPROC" "p \<in> E \<or> home s p = None"
  shows "offq (nextqid s) (queuetab s) p"
  using kgood_mem [OF assms(1-3)] assms(4) by (auto simp: offq_def)

lemma home_simps:
  "prstate (proctab s p) = PR_FREE \<Longrightarrow> home s p = None"
  "prstate (proctab s p) = PR_CURR \<Longrightarrow> home s p = None"
  "prstate (proctab s p) = PR_RECV \<Longrightarrow> home s p = None"
  "prstate (proctab s p) = PR_SUSP \<Longrightarrow> home s p = None"
  "prstate (proctab s p) = PR_READY \<Longrightarrow> home s p = Some (readylist s)"
  "prstate (proctab s p) = PR_SLEEP \<Longrightarrow> home s p = Some (sleepq s)"
  "prstate (proctab s p) = PR_RECTIM \<Longrightarrow> home s p = Some (sleepq s)"
  "prstate (proctab s p) = PR_WAIT \<Longrightarrow> home s p = Some (squeue (semtab s (prsem (proctab s p))))"
  by (simp_all add: home_def)

lemma home_cong:
  "prstate (proctab s' p) = prstate (proctab s p) \<Longrightarrow> prsem (proctab s' p) = prsem (proctab s p)
   \<Longrightarrow> readylist s' = readylist s \<Longrightarrow> sleepq s' = sleepq s
   \<Longrightarrow> (\<And>i. squeue (semtab s' i) = squeue (semtab s i)) \<Longrightarrow> home s' p = home s p"
  by (simp add: home_def split: pstate.splits)

section \<open>Transitions\<close>

text \<open>A process on no queue can be taken as in transit, and back.\<close>

lemma kgood_take:
  assumes "kgood F E cur X d s" "home s p = None"
  shows "kgood F (Set.insert p E) cur X d s"
proof -
  have "proc_ok F E s r \<Longrightarrow> proc_ok F (Set.insert p E) s r" for r
    using assms(2) by (cases "r = p") (simp_all add: proc_ok_def)
  with assms(1) show ?thesis by (simp add: kgood_def kbase_def kprocs_def)
qed

lemma kgood_drop:
  assumes "kgood F E cur X d s" "home s p = None" "entry_ok p (proctab s p)"
  shows "kgood F (E - {p}) cur X d s"
proof -
  have "prstate (proctab s p) \<noteq> PR_WAIT" using assms(2) by (auto simp: home_def)
  then have "proc_ok F E s r \<Longrightarrow> proc_ok F (E - {p}) s r" for r
    using assms(2,3) by (cases "r = p") (simp_all add: proc_ok_def)
  with assms(1) show ?thesis by (simp add: kgood_def kbase_def kprocs_def)
qed

text \<open>Changing the table entry of a process in transit.\<close>

lemma kgood_upd:
  assumes "kgood F E cur X d s" "p \<in> E"
    and "MINKEY < prprio (f (proctab s p))" "prprio (f (proctab s p)) \<le> MAXKEY"
    and "p \<notin> F \<or> (prstate (proctab s p) = PR_FREE \<longrightarrow> prstate (f (proctab s p)) = PR_FREE)"
    and "prstate (f (proctab s p)) = PR_CURR \<longleftrightarrow> cur' = Some p"
    and "\<And>r. r \<noteq> p \<Longrightarrow> cur = Some r \<longleftrightarrow> cur' = Some r"
  shows "kgood F E cur' X d (upd_proc p f s)"
proof -
  have "proc_ok F E s r \<Longrightarrow> proc_ok F E (upd_proc p f s) r" for r
    using assms(2-5) home_cong [of "upd_proc p f s" r s]
    by (cases "r = p") (auto simp: proc_ok_def)
  moreover have "curp cur' (upd_proc p f s)"
    using kgoodD(2) [OF assms(1)] assms(6,7) by (auto simp: curp_def)
  ultimately show ?thesis
    using assms(1) by (simp add: kgood_def kbase_def kprocs_def kstatic_def semcnt_def slp_def)
qed

text \<open>Changes that neither move a process nor change its state.\<close>

lemma kgood_upd_same:
  assumes "kgood F E cur X d s"
    and "MINKEY < prprio (f (proctab s p))" "prprio (f (proctab s p)) \<le> MAXKEY"
    and "prstate (f (proctab s p)) = prstate (proctab s p)" "prsem (f (proctab s p)) = prsem (proctab s p)"
    and "entry_ok p (proctab s p) \<Longrightarrow> entry_ok p (f (proctab s p))"
  shows "kgood F E cur X d (upd_proc p f s)"
proof -
  have "proc_ok F E s r \<Longrightarrow> proc_ok F E (upd_proc p f s) r" for r
    using assms(2-6) home_cong [of "upd_proc p f s" r s]
    by (cases "r = p") (simp_all add: proc_ok_def)
  moreover have "curp cur (upd_proc p f s)"
    using kgoodD(2) [OF assms(1)] assms(4) by (auto simp: curp_def)
  ultimately show ?thesis
    using assms(1) by (simp add: kgood_def kbase_def kprocs_def kstatic_def semcnt_def slp_def)
qed

text \<open>A state that differs only in variables the invariant does not read.\<close>

lemma kgood_frame:
  assumes "kgood F E cur X d s" and "proctab s' = proctab s" "queuetab s' = queuetab s" "semtab s' = semtab s"
    "readylist s' = readylist s" "sleepq s' = sleepq s" "nextqid s' = nextqid s"
    and "0 \<le> currpid s'" "currpid s' < NPROC" "0 \<le> ndefers s'"
  shows "kgood F E cur X d s'"
proof -
  have "home s' p = home s p" for p using assms(2-7) by (intro home_cong) simp_all
  with assms show ?thesis
    by (simp add: kgood_def kbase_def kprocs_def proc_ok_def kstatic_def curp_def semcnt_def slp_def)
qed

text \<open>Taking a process off its queue.\<close>

lemma keys_desc_cong: "(\<And>x. x \<in> set xs \<Longrightarrow> qkey (t' x) = qkey (t x)) \<Longrightarrow> keys_desc t' xs = keys_desc t xs"
  by (induction xs) (auto simp: keys_desc_def)

lemma sorted_wrt_remove1: "sorted_wrt P xs \<Longrightarrow> sorted_wrt P (remove1 x xs)"
  by (induction xs) (auto dest: notin_set_remove1)

lemma delta_ok_remove1:
  assumes "delta_ok t xs"
  shows "delta_ok t (remove1 x xs)"
proof -
  have "ksum t (remove1 x xs) \<le> ksum t xs" if "\<forall>y \<in> set xs. 0 \<le> qkey (t y)"
    using that by (induction xs) auto
  with assms show ?thesis by (auto simp: delta_ok_def dest: notin_set_remove1)
qed

lemma kgood_unlink:
  assumes g: "kgood F E cur X d s" and p: "0 \<le> p" "p < NPROC" "p \<notin> E" "home s p = Some q" "q \<in> qids (nextqid s)"
    and u: "qupdated (nextqid s) (queuetab s) t' q (remove1 p (kq s q))"
    and k: "\<And>i. i \<in> set (kq s (readylist s)) \<Longrightarrow> i \<noteq> p \<Longrightarrow> qkey (t' i) = qkey (queuetab s i)"
    and d': "d' \<Longrightarrow> d \<and> (if q = sleepq s then delta_ok t' (remove1 p (kq s q))
      else \<forall>i \<in> set (kq s (sleepq s)). qkey (t' i) = qkey (queuetab s i))"
    and X: "\<And>i. \<not> isbadsem i \<Longrightarrow> squeue (semtab s i) = q \<Longrightarrow> i \<in> X"
  shows "kgood F (Set.insert p E) cur X d' (s\<lparr>queuetab := t'\<rparr>)"
proof -
  let ?s = "s\<lparr>queuetab := t'\<rparr>"
  have w': "wfq (nextqid s) t'" and ql: "\<And>r. r \<in> qids (nextqid s) \<Longrightarrow> qlist t' r = (if r = q then remove1 p (kq s q) else kq s r)"
    using u by (simp_all add: qupdated_def)
  have dist: "distinct (kq s q)" using wfq_distinct [OF kgoodD(6) [OF g] p(5)] .
  have home: "home ?s r = home s r" for r by (intro home_cong) simp_all
  have "proc_ok F (Set.insert p E) ?s r" if "proc_ok F E s r" "0 \<le> r" "r < NPROC" for r
  proof (cases "r = p")
    case True
    then show ?thesis
      using that(1) p(3,4) dist by (simp add: proc_ok_def ql)
  next
    case False
    then show ?thesis
      using that(1) dist by (simp add: proc_ok_def ql home)
  qed
  then have "kprocs F (Set.insert p E) ?s" using kgoodD(7) [OF g] by (simp add: kprocs_def)
  moreover have "keys_desc t' (qlist t' (readylist s))"
  proof -
    have d: "keys_desc (queuetab s) (kq s (readylist s))" using kgoodD(1) [OF g] by (simp add: kbase_def)
    show ?thesis
    proof (cases "readylist s = q")
      case True
      have "keys_desc (queuetab s) (remove1 p (kq s q))"
        using d True sorted_wrt_remove1 by (auto simp: keys_desc_def)
      moreover have "i \<in> set (remove1 p (kq s q)) \<Longrightarrow> qkey (t' i) = qkey (queuetab s i)" for i
        using k True dist by auto
      ultimately show ?thesis using keys_desc_cong [of "remove1 p (kq s q)" t' "queuetab s"] True ql p(5) by simp
    next
      case False
      have "p \<notin> set (kq s (readylist s))"
        using kgood_mem [OF g p(1,2) kgoodD(9) [OF g]] p(4) False by simp
      then have "i \<in> set (kq s (readylist s)) \<Longrightarrow> qkey (t' i) = qkey (queuetab s i)" for i
        using k by metis
      then show ?thesis using keys_desc_cong [of "kq s (readylist s)" t' "queuetab s"] d False ql kgoodD(9) [OF g] by simp
    qed
  qed
  moreover have "semcnt X ?s"
  proof -
    have "kq ?s (squeue (semtab s i)) = kq s (squeue (semtab s i))" if "0 \<le> i" "i < NSEM" "i \<notin> X" for i
      using that X [of i] ql kgood_sem(1) [OF g, of i] by (auto simp: isbadsem_def)
    then show ?thesis using kgoodD(3) [OF g] by (simp add: semcnt_def)
  qed
  moreover have "d' \<longrightarrow> slp ?s"
    using d' ql kgoodD(10) [OF g] kgoodD(4) [OF g] delta_ok_cong [of "kq s (sleepq s)" t' "queuetab s"]
    by (auto simp: slp_def)
  ultimately show ?thesis
    using g w' by (simp add: kgood_def kbase_def kstatic_def curp_def)
qed

text \<open>Putting a process in transit on its home queue.\<close>

lemma kgood_link:
  assumes g: "kgood F E cur X d s" and p: "0 \<le> p" "p < NPROC" "p \<in> E" "home s p = Some q" "q \<in> qids (nextqid s)"
    and st: "entry_ok p (proctab s p)"
    and u: "qupdated (nextqid s) (queuetab s) t' q (xs @ p # ys)" "kq s q = xs @ ys"
    and k: "\<And>i. q \<noteq> readylist s \<Longrightarrow> i \<in> set (kq s (readylist s)) \<Longrightarrow> qkey (t' i) = qkey (queuetab s i)"
      "q = readylist s \<Longrightarrow> keys_desc t' (xs @ p # ys)"
    and d': "d' \<Longrightarrow> d \<and> (if q = sleepq s then delta_ok t' (xs @ p # ys)
      else \<forall>i \<in> set (kq s (sleepq s)). qkey (t' i) = qkey (queuetab s i))"
    and X: "\<And>i. \<not> isbadsem i \<Longrightarrow> squeue (semtab s i) = q \<Longrightarrow> i \<in> X"
  shows "kgood F (E - {p}) cur X d' (s\<lparr>queuetab := t'\<rparr>)"
proof -
  let ?s = "s\<lparr>queuetab := t'\<rparr>"
  have w': "wfq (nextqid s) t'" and ql: "\<And>r. r \<in> qids (nextqid s) \<Longrightarrow> qlist t' r = (if r = q then xs @ p # ys else kq s r)"
    using u(1) by (simp_all add: qupdated_def)
  have home: "home ?s r = home s r" for r by (intro home_cong) simp_all
  have "proc_ok F (E - {p}) ?s r" if "proc_ok F E s r" "0 \<le> r" "r < NPROC" for r
  proof (cases "r = p")
    case True
    have "(p \<in> set (qlist t' r')) = (home s p = Some r')" if "r' \<in> qids (nextqid s)" for r'
      using ql [OF that] kgood_mem [OF g p(1,2) that] p(3,4) by auto
    then show ?thesis using True that(1) st by (simp add: proc_ok_def home)
  next
    case False
    then have "(r \<in> set (qlist t' r')) = (r \<in> set (kq s r'))" if "r' \<in> qids (nextqid s)" for r'
      using ql [OF that] u(2) by auto
    then show ?thesis using False that(1) by (simp add: proc_ok_def home)
  qed
  then have "kprocs F (E - {p}) ?s" using kgoodD(7) [OF g] by (simp add: kprocs_def)
  moreover have "keys_desc t' (qlist t' (readylist s))"
  proof (cases "q = readylist s")
    case True
    then show ?thesis using k(2) ql p(5) by simp
  next
    case False
    have "keys_desc (queuetab s) (kq s (readylist s))" using kgoodD(1) [OF g] by (simp add: kbase_def)
    then show ?thesis
      using False k(1) ql kgoodD(9) [OF g] keys_desc_cong [of "kq s (readylist s)" t' "queuetab s"] by simp
  qed
  moreover have "semcnt X ?s"
  proof -
    have "kq ?s (squeue (semtab s i)) = kq s (squeue (semtab s i))" if "0 \<le> i" "i < NSEM" "i \<notin> X" for i
      using that X [of i] ql kgood_sem(1) [OF g, of i] by (auto simp: isbadsem_def)
    then show ?thesis using kgoodD(3) [OF g] by (simp add: semcnt_def)
  qed
  moreover have "d' \<longrightarrow> slp ?s"
    using d' ql kgoodD(10) [OF g] kgoodD(4) [OF g] delta_ok_cong [of "kq s (sleepq s)" t' "queuetab s"]
    by (auto simp: slp_def)
  ultimately show ?thesis
    using g w' by (simp add: kgood_def kbase_def kstatic_def curp_def)
qed

text \<open>Changing a semaphore's entry, leaving its queue where it is.\<close>

lemma kgood_sem_upd:
  assumes "kgood F E cur X d s" "squeue (f (semtab s i)) = squeue (semtab s i)"
  shows "kgood F E cur (Set.insert i X) d (upd_sem i f s)"
proof -
  have sq: "squeue (semtab (upd_sem i f s) j) = squeue (semtab s j)" for j
    using assms(2) by simp
  have "home (upd_sem i f s) p = home s p" for p
    using sq by (intro home_cong) simp_all
  moreover have "kstatic (upd_sem i f s)"
    using kgoodD(5) [OF assms(1)] sq unfolding kstatic_def upd_sem_simps(1-6) upd_sem_simps(11)
    by presburger
  ultimately show ?thesis
    using assms(1) by (simp add: kgood_def kbase_def kprocs_def proc_ok_def curp_def semcnt_def slp_def)
qed

text \<open>A semaphore whose count is right again is no longer exempt; exempting more is harmless.\<close>

lemma kgood_sem_ok:
  assumes "kgood F E cur X d s"
    and "\<not> isbadsem i \<Longrightarrow> cnt_ok (sstate (semtab s i)) (scount (semtab s i)) (length (kq s (squeue (semtab s i))))"
  shows "kgood F E cur (X - {i}) d s"
  using assms by (auto simp: kgood_def semcnt_def isbadsem_def)

lemma kgood_fewer: "kgood F E cur X d s \<Longrightarrow> F' \<subseteq> F \<Longrightarrow> kgood F' E cur X d s"
  by (auto simp: kgood_def kbase_def kprocs_def proc_ok_def)

lemma kgood_weaken: "kgood F E cur X d s \<Longrightarrow> X \<subseteq> X' \<Longrightarrow> (d' \<longrightarrow> d) \<Longrightarrow> kgood F E cur X' d' s"
  by (auto simp: kgood_def semcnt_def)

section \<open>The moves the kernel makes\<close>

text \<open>Inserting a process in transit, already marked ready, in the ready list.\<close>

lemma at_least_split:
  assumes "keys_desc t xs"
  shows "\<forall>x \<in> set (takeWhile (at_least t key) xs). key \<le> qkey (t x)"
    and "\<forall>x \<in> set (dropWhile (at_least t key) xs). qkey (t x) < key"
proof -
  show "\<forall>x \<in> set (takeWhile (at_least t key) xs). key \<le> qkey (t x)"
    by (auto dest: set_takeWhileD simp: at_least_def)
  show "\<forall>x \<in> set (dropWhile (at_least t key) xs). qkey (t x) < key"
    using assms
  proof (induction xs)
    case (Cons a xs)
    then show ?case
      by (cases "at_least t key a") (force simp: keys_desc_def at_least_def)+
  qed simp
qed

lemma keys_desc_insert:
  assumes "keys_desc t xs" "p \<notin> set xs" "\<And>i. qkey (t' i) = (if i = p then key else qkey (t i))"
  shows "keys_desc t' (takeWhile (at_least t key) xs @ p # dropWhile (at_least t key) xs)"
proof -
  define us where "us = takeWhile (at_least t key) xs"
  define vs where "vs = dropWhile (at_least t key) xs"
  have xs: "xs = us @ vs" by (simp add: us_def vs_def)
  have lim: "\<forall>x \<in> set us. key \<le> qkey (t x)" "\<forall>x \<in> set vs. qkey (t x) < key"
    using at_least_split [OF assms(1)] by (simp_all add: us_def vs_def)
  have keys: "\<And>x. x \<in> set us \<Longrightarrow> qkey (t' x) = qkey (t x)" "\<And>x. x \<in> set vs \<Longrightarrow> qkey (t' x) = qkey (t x)"
    using assms(2,3) xs by auto
  have "keys_desc t' us" "keys_desc t' vs" "\<forall>x \<in> set us. \<forall>y \<in> set vs. qkey (t' y) \<le> qkey (t' x)"
    using assms(1) xs keys keys_desc_cong [of us t' t] keys_desc_cong [of vs t' t]
    by (auto simp: keys_desc_def sorted_wrt_append)
  then have "keys_desc t' (us @ p # vs)"
    using lim keys assms(3) by (auto simp: keys_desc_def sorted_wrt_append less_imp_le)
  then show ?thesis by (simp add: us_def vs_def)
qed

lemma kgood_insert_ready:
  assumes g: "kgood F E cur X d s" and p: "0 \<le> p" "p < NPROC" "p \<in> E" "prstate (proctab s p) = PR_READY"
    and key: "MINKEY < key"
  obtains t' where "insert_q p (readylist s) key s = Some (s\<lparr>queuetab := t'\<rparr>, OK)"
    and "kgood F (E - {p}) cur X d (s\<lparr>queuetab := t'\<rparr>)"
    and "qlist t' (readylist s) = takeWhile (at_least (queuetab s) key) (kq s (readylist s))
      @ p # dropWhile (at_least (queuetab s) key) (kq s (readylist s))"
    and "\<And>q. q \<in> qids (nextqid s) \<Longrightarrow> q \<noteq> readylist s \<Longrightarrow> qlist t' q = kq s q"
    and "\<And>i. qkey (t' i) = (if i = p then key else qkey (queuetab s i))"
proof -
  have off: "offq (nextqid s) (queuetab s) p" using kgood_off [OF g p(1,2)] p(3) by simp
  have "\<not> isbadpid s p" using p by (simp add: isbadpid_def)
  then obtain t' where t': "insert_q p (readylist s) key s = Some (s\<lparr>queuetab := t'\<rparr>, OK)"
    "qupdated (nextqid s) (queuetab s) t' (readylist s) (takeWhile (at_least (queuetab s) key) (kq s (readylist s))
        @ p # dropWhile (at_least (queuetab s) key) (kq s (readylist s)))"
    "\<forall>i. qkey (t' i) = (if i = p then key else qkey (queuetab s i))"
    using insert_q_spec [OF kgoodD(6,9,8) [OF g]] off key by blast
  have pn: "p \<notin> set (kq s q)" if "q \<in> qids (nextqid s)" for q
    using kgood_mem [OF g p(1,2) that] p(3) by simp
  have "kgood F (E - {p}) cur X d (s\<lparr>queuetab := t'\<rparr>)"
  proof (rule kgood_link [OF g p(1-3) _ _ _ t'(2)])
    show "home s p = Some (readylist s)" using p(4) by (rule home_simps)
    show "keys_desc t' (takeWhile (at_least (queuetab s) key) (kq s (readylist s))
        @ p # dropWhile (at_least (queuetab s) key) (kq s (readylist s)))"
      using kgoodD(1) [OF g] pn [OF kgoodD(9) [OF g]] t'(3) by (intro keys_desc_insert) (auto simp: kbase_def)
    show "d \<and> (if readylist s = sleepq s then delta_ok t' (takeWhile (at_least (queuetab s) key) (kq s (readylist s))
        @ p # dropWhile (at_least (queuetab s) key) (kq s (readylist s)))
      else \<forall>i \<in> set (kq s (sleepq s)). qkey (t' i) = qkey (queuetab s i))" if d
      using that kgoodD(11) [OF g] t'(3) pn [OF kgoodD(10) [OF g]] by auto
    show "i \<in> X" if "\<not> isbadsem i" "squeue (semtab s i) = readylist s" for i
      using kgood_sem(2) [OF g that(1)] that(2) by simp
  qed (use p kgoodD(9) [OF g] in \<open>auto simp: entry_ok_def\<close>)
  moreover have "qlist t' q = (if q = readylist s then takeWhile (at_least (queuetab s) key) (kq s (readylist s))
      @ p # dropWhile (at_least (queuetab s) key) (kq s (readylist s)) else kq s q)" if "q \<in> qids (nextqid s)" for q
    using t'(2) that by (simp add: qupdated_def)
  ultimately show thesis using t'(1,3) kgoodD(9) [OF g] by (intro that [of t']) simp_all
qed

end
