(* ===== verification/Sched.thy ===== *)
theory Sched
  imports Kinv
begin

text \<open>
  The scheduler: \<^verbatim>\<open>resched.c\<close>, \<^verbatim>\<open>ready.c\<close>, \<^verbatim>\<open>resume.c\<close>,
  \<^verbatim>\<open>suspend.c\<close>, \<^verbatim>\<open>chprio.c\<close>, \<^verbatim>\<open>getprio.c\<close>, \<^verbatim>\<open>yield.c\<close>. The
  switch itself (\<^verbatim>\<open>ctxsw\<close>, assembly) is the constructor \<open>Ctxsw\<close>.
\<close>

section \<open>The operations\<close>

text \<open>The last part of \<^verbatim>\<open>resched\<close>: dispatch the first ready process.\<close>

definition resched_switch :: "kst \<Rightarrow> (kst, unit) kprog" where
  "resched_switch s =
     (let (s1, pid) = dequeue (readylist s) s;
          s2 = s1\<lparr>currpid := pid\<rparr>;
          s3 = set_prstate pid PR_CURR s2;
          s4 = s3\<lparr>preempt := QUANTUM\<rparr>
      in Ctxsw s4 (\<lambda>s'. Ret s' ()))"

definition resched :: "kst \<Rightarrow> (kst, unit) kprog" where
  "resched s =
     (if ndefers s > 0 then Ret (s\<lparr>attempt := True\<rparr>) ()
      else let old = currpid s; prio = prprio (proctab s old) in
        if prstate (proctab s old) = PR_CURR then
          (if prio > firstkey s (readylist s) then Ret s ()
           else (case insert_q old (readylist s) prio (set_prstate old PR_READY s) of
                   None \<Rightarrow> Stop Looping s
                 | Some (s2, _) \<Rightarrow> resched_switch s2))
        else resched_switch s)"

abbreviation (input) DEFER_START :: int where "DEFER_START \<equiv> 1"
abbreviation (input) DEFER_STOP :: int where "DEFER_STOP \<equiv> 2"

definition resched_cntl :: "int \<Rightarrow> kst \<Rightarrow> (kst, int) kprog" where
  "resched_cntl defer s =
     (if defer = DEFER_START then
        (let s1 = s\<lparr>ndefers := i32 (ndefers s + 1)\<rparr>
         in Ret (if ndefers s = 0 then s1\<lparr>attempt := False\<rparr> else s1) OK)
      else if defer = DEFER_STOP then
        (if ndefers s \<le> 0 then Ret s SYSERR
         else let s1 = s\<lparr>ndefers := ndefers s - 1\<rparr>
              in if ndefers s1 = 0 \<and> attempt s1 then kbind (resched s1) (\<lambda>s2 _. Ret s2 OK)
                 else Ret s1 OK)
      else Ret s SYSERR)"

definition ready :: "int \<Rightarrow> kst \<Rightarrow> (kst, int) kprog" where
  "ready pid s =
     (if isbadpid s pid then Ret s SYSERR
      else let s1 = set_prstate pid PR_READY s in
        case insert_q pid (readylist s1) (prprio (proctab s1 pid)) s1 of
          None \<Rightarrow> Stop Looping s1
        | Some (s2, _) \<Rightarrow> kbind (resched s2) (\<lambda>s3 _. Ret s3 OK))"

definition resume :: "int \<Rightarrow> kst \<Rightarrow> (kst, int) kprog" where
  "resume pid s =
     (if isbadpid s pid then Ret s SYSERR
      else if prstate (proctab s pid) \<noteq> PR_SUSP then Ret s SYSERR
      else let prio = prprio (proctab s pid)
           in kbind (ready pid s) (\<lambda>s1 _. Ret s1 prio))"

definition suspend :: "int \<Rightarrow> kst \<Rightarrow> (kst, int) kprog" where
  "suspend pid s =
     (if isbadpid s pid \<or> pid = NULLPROC then Ret s SYSERR
      else if prstate (proctab s pid) \<noteq> PR_CURR \<and> prstate (proctab s pid) \<noteq> PR_READY then Ret s SYSERR
      else if prstate (proctab s pid) = PR_READY then
        (let (s1, _) = getitem pid s; s2 = set_prstate pid PR_SUSP s1
         in Ret s2 (prprio (proctab s2 pid)))
      else kbind (resched (set_prstate pid PR_SUSP s)) (\<lambda>s1 _. Ret s1 (prprio (proctab s1 pid))))"

definition chprio :: "int \<Rightarrow> int \<Rightarrow> kst \<Rightarrow> kst \<times> int" where
  "chprio pid newprio s =
     (if isbadpid s pid then (s, SYSERR)
      else (upd_proc pid (\<lambda>e. e\<lparr>prprio := i16 newprio\<rparr>) s, prprio (proctab s pid)))"

definition getprio :: "int \<Rightarrow> kst \<Rightarrow> int" where
  "getprio pid s = (if isbadpid s pid then SYSERR else prprio (proctab s pid))"

definition getpid :: "kst \<Rightarrow> int" where
  "getpid s = currpid s"

definition yield :: "kst \<Rightarrow> (kst, int) kprog" where
  "yield s = kbind (resched s) (\<lambda>s1 _. Ret s1 OK)"

section \<open>Rely and guarantee of a process\<close>

text \<open>
  \<open>ksafe F p c\<close>: process \<open>p\<close> is in the kernel call \<open>c\<close>, since whose start, or since when \<open>p\<close> was
  last dispatched, the table entries \<open>F\<close> have been free. Guarantee: at every switch the
  invariant holds and the entries \<open>F\<close> are still free; the same when the call returns, and then
  \<open>p\<close> is current. Rely: a process that was not freed at its switch is resumed in a state with the
  invariant in which it is current. (A process that freed itself is never resumed: its entry is
  only used again for a new process.) The call never loops for ever in a kernel queue; a
  \<open>BadHeap\<close>, a walk along a cyclic list of free memory, is ruled out separately.
\<close>

definition mine :: "int set \<Rightarrow> int \<Rightarrow> kst \<Rightarrow> bool" where
  "mine F p s \<longleftrightarrow> kinv F s \<and> currpid s = p"

primrec ksafe :: "int set \<Rightarrow> int \<Rightarrow> (kst, 'a) kprog \<Rightarrow> bool" where
  "ksafe F p (Ret s a) = mine F p s"
| "ksafe F p (Ctxsw s k) = (kinv F s \<and>
     (prstate (proctab s p) \<noteq> PR_FREE \<longrightarrow> (\<forall>F' s'. mine F' p s' \<longrightarrow> ksafe F' p (k s'))))"
| "ksafe F p (Stop r s) = (r \<noteq> Looping)"

lemma kinv_kgood: "kinv F s \<Longrightarrow> kgood F {} (Some (currpid s)) {} True s"
  by (simp add: kinv_def)

lemma kinv_nd: "kinv F s \<Longrightarrow> ndefers s = 0"
  by (simp add: kinv_def)

lemma kinv_cur: "kinv F s \<Longrightarrow> prstate (proctab s (currpid s)) = PR_CURR"
  by (auto simp: kinv_def kgood_def curp_def kbase_def)

lemma kinv_curD: "kinv F s \<Longrightarrow> 0 \<le> p \<Longrightarrow> p < NPROC \<Longrightarrow> prstate (proctab s p) = PR_CURR \<Longrightarrow> p = currpid s"
  by (auto simp: kinv_def kgood_def curp_def)

lemma kinv_currpid: "kinv F s \<Longrightarrow> 0 \<le> currpid s \<and> currpid s < NPROC"
  by (auto simp: kinv_def kgood_def kbase_def)

lemma isbadpid_cur: "kinv F s \<Longrightarrow> \<not> isbadpid s (currpid s)"
  using kinv_cur [of F s] kinv_currpid [of F s] by (auto simp: isbadpid_def)

lemma ksafe_bind:
  "ksafe F p c \<Longrightarrow> (\<And>F s a. mine F p s \<Longrightarrow> ksafe F p (f s a)) \<Longrightarrow> ksafe F p (kbind c f)"
  by (induction c arbitrary: F) auto

text \<open>With rescheduling deferred, \<^verbatim>\<open>resched\<close> only records the attempt.\<close>

lemma resched_deferred: "ndefers s > 0 \<Longrightarrow> resched s = Ret (s\<lparr>attempt := True\<rparr>) ()"
  by (simp add: resched_def)

section \<open>Dispatching\<close>

lemma ready_null:
  assumes "kgood F E None X d s" "NULLPROC \<notin> E"
  shows "NULLPROC \<in> set (kq s (readylist s))"
proof -
  have "proc_ok F E s NULLPROC" using kgoodD(7) [OF assms(1)] by (simp add: kprocs_def)
  then have "prstate (proctab s NULLPROC) = PR_CURR \<or> prstate (proctab s NULLPROC) = PR_READY"
    using assms(2) by (simp add: proc_ok_def entry_ok_def)
  moreover have "prstate (proctab s NULLPROC) \<noteq> PR_CURR"
    using kgoodD(2) [OF assms(1)] by (simp add: curp_def)
  ultimately have "home s NULLPROC = Some (readylist s)" by (simp add: home_def)
  then show ?thesis using kgood_mem [OF assms(1) _ _ kgoodD(9) [OF assms(1)], of NULLPROC] assms(2) by simp
qed

lemma resched_switch_spec:
  assumes g: "kgood F {} None {} True s" and nd: "ndefers s = 0"
  obtains s' p xs where "resched_switch s = Ctxsw s' (\<lambda>s. Ret s ())" and "kinv F s'"
    and "kq s (readylist s) = p # xs" and "currpid s' = p"
    and "preempt s' = QUANTUM" and "readylist s' = readylist s" and "kq s' (readylist s') = xs"
    and "\<And>i. qkey (queuetab s' i) = qkey (queuetab s i)" and "proctab s' = (proctab s)(p := (proctab s p)\<lparr>prstate := PR_CURR\<rparr>)"
    and "semtab s' = semtab s" and "sleepq s' = sleepq s" and "nextqid s' = nextqid s"
    and "\<And>q. q \<in> qids (nextqid s) \<Longrightarrow> q \<noteq> readylist s \<Longrightarrow> kq s' q = kq s q"
proof -
  obtain p xs where pxs: "kq s (readylist s) = p # xs"
    using ready_null [OF g] by (cases "kq s (readylist s)") auto
  note inq = kgood_in_queue [OF g kgoodD(9) [OF g], of p]
  have p: "0 \<le> p" "p < NPROC" "home s p = Some (readylist s)" using inq pxs by simp_all
  note deq = dequeue_cons [OF kgoodD(6,9,8) [OF g] pxs]
  let ?s1 = "s\<lparr>queuetab := detach p (queuetab s)\<rparr>"
  have "kgood F {p} None {} True ?s1"
  proof (rule kgood_unlink [OF g p(1,2) _ p(3) kgoodD(9) [OF g]])
    show "qupdated (nextqid s) (queuetab s) (detach p (queuetab s)) (readylist s) (remove1 p (kq s (readylist s)))"
      using deq(2) pxs by simp
    show "i \<in> {}" if "\<not> isbadsem i" "squeue (semtab s i) = readylist s" for i
      using kgood_sem(2) [OF g that(1)] that(2) by simp
  qed (use kgoodD(11) [OF g] in simp_all)
  then have "kgood F {p} (Some p) {} True (upd_proc p (\<lambda>e. e\<lparr>prstate := PR_CURR\<rparr>) ?s1)"
    using kgood_prio [OF g p(1,2)] home_simps(1) [of s p] p(3) by (intro kgood_upd) auto
  then have "kgood F ({p} - {p}) (Some p) {} True (upd_proc p (\<lambda>e. e\<lparr>prstate := PR_CURR\<rparr>) ?s1)"
    by (rule kgood_drop) (simp_all add: home_def entry_ok_def)
  then have g2: "kgood F {} (Some p) {} True (upd_proc p (\<lambda>e. e\<lparr>prstate := PR_CURR\<rparr>) ?s1)" by simp
  define s' where "s' = set_prstate p PR_CURR (?s1\<lparr>currpid := p\<rparr>)\<lparr>preempt := QUANTUM\<rparr>"
  have "kgood F {} (Some p) {} True s'"
    using p nd by (intro kgood_frame [OF g2]) (simp_all add: s'_def)
  then have "kinv F s'" using nd by (simp add: kinv_def s'_def)
  moreover have "resched_switch s = Ctxsw s' (\<lambda>s. Ret s ())"
    using deq(1) by (simp add: resched_switch_def s'_def)
  ultimately show thesis
    using deq(2) pxs kgoodD(9) [OF g] by (intro that [of s' p xs]) (simp_all add: s'_def qupdated_def)
qed

lemma resched_blocked:
  assumes "kgood F {} None {} True s" "ndefers s = 0"
  shows "resched s = resched_switch s"
proof -
  have "prstate (proctab s (currpid s)) \<noteq> PR_CURR"
    using kgoodD(2,12,13) [OF assms(1)] by (simp add: curp_def)
  then show ?thesis using assms(2) by (simp add: resched_def Let_def)
qed

text \<open>A current process that is still eligible goes to the ready list, behind its equals.\<close>

lemma resched_preempted:
  assumes k: "kinv F s" and f: "prprio (proctab s (currpid s)) \<le> firstkey s (readylist s)"
  obtains s2 where "resched s = resched_switch s2" and "kgood F {} None {} True s2" and "ndefers s2 = 0"
    and "currpid s2 = currpid s" and "readylist s2 = readylist s"
    and "kq s2 (readylist s) = takeWhile (at_least (queuetab s) (prprio (proctab s (currpid s)))) (kq s (readylist s))
      @ currpid s # dropWhile (at_least (queuetab s) (prprio (proctab s (currpid s)))) (kq s (readylist s))"
    and "\<And>i. qkey (queuetab s2 i) = (if i = currpid s then prprio (proctab s (currpid s)) else qkey (queuetab s i))"
    and "proctab s2 = (proctab s)(currpid s := (proctab s (currpid s))\<lparr>prstate := PR_READY\<rparr>)"
    and "semtab s2 = semtab s" and "sleepq s2 = sleepq s" and "nextqid s2 = nextqid s"
    and "\<And>q. q \<in> qids (nextqid s) \<Longrightarrow> q \<noteq> readylist s \<Longrightarrow> kq s2 q = kq s q"
proof -
  let ?p = "currpid s" and ?s1 = "set_prstate (currpid s) PR_READY s"
  note g = kinv_kgood [OF k]
  have p: "0 \<le> ?p" "?p < NPROC" using kgoodD(12,13) [OF g] .
  have g1: "kgood F {?p} (Some ?p) {} True s"
    using kgood_take [OF g, of ?p] kinv_cur [OF k] by (simp add: home_def)
  then have g2: "kgood F {?p} None {} True ?s1"
    using kgood_prio [OF g p] kinv_cur [OF k] unfolding set_prstate_def by (intro kgood_upd) auto
  have key: "MINKEY < prprio (proctab s ?p)" using kgood_prio [OF g p] by simp
  obtain t' where t': "insert_q ?p (readylist ?s1) (prprio (proctab s ?p)) ?s1 = Some (?s1\<lparr>queuetab := t'\<rparr>, OK)"
    "kgood F ({?p} - {?p}) None {} True (?s1\<lparr>queuetab := t'\<rparr>)"
    "qlist t' (readylist ?s1) = takeWhile (at_least (queuetab ?s1) (prprio (proctab s ?p))) (kq ?s1 (readylist ?s1))
      @ ?p # dropWhile (at_least (queuetab ?s1) (prprio (proctab s ?p))) (kq ?s1 (readylist ?s1))"
    "\<And>q. q \<in> qids (nextqid ?s1) \<Longrightarrow> q \<noteq> readylist ?s1 \<Longrightarrow> qlist t' q = kq ?s1 q"
    "\<And>i. qkey (t' i) = (if i = ?p then prprio (proctab s ?p) else qkey (queuetab ?s1 i))"
    by (rule kgood_insert_ready [OF g2 p singletonI _ key]) simp_all
  let ?s2 = "?s1\<lparr>queuetab := t'\<rparr>"
  have nd: "ndefers s = 0" using k by (simp add: kinv_def)
  have "resched s = resched_switch ?s2"
    using nd kinv_cur [OF k] f t'(1) by (simp add: resched_def Let_def)
  with t' nd show thesis by (intro that [of ?s2]) simp_all
qed

lemma resched_safe:
  assumes "mine F p s"
  shows "ksafe F p (resched s)"
proof (cases "prprio (proctab s p) > firstkey s (readylist s)")
  case True
  have k: "kinv F s" "currpid s = p" using assms by (simp_all add: mine_def)
  with True have "resched s = Ret s ()"
    using kinv_cur [OF k(1)] kinv_nd [OF k(1)] by (simp add: resched_def Let_def)
  then show ?thesis using assms by simp
next
  case False
  have k: "kinv F s" "currpid s = p" using assms by (simp_all add: mine_def)
  obtain s2 where s2: "resched s = resched_switch s2" "kgood F {} None {} True s2" "ndefers s2 = 0"
    by (rule resched_preempted [OF k(1)]) (use False k(2) in simp)
  then obtain s' where "resched_switch s2 = Ctxsw s' (\<lambda>s. Ret s ())" "kinv F s'"
    using resched_switch_spec [OF s2(2,3)] by blast
  then show ?thesis using s2(1) by simp
qed

lemma resched_blocked_safe:
  assumes "kgood F {} None {} True s" "ndefers s = 0"
  shows "ksafe F p (resched s)"
proof -
  obtain s' where "resched_switch s = Ctxsw s' (\<lambda>s. Ret s ())" "kinv F s'"
    using resched_switch_spec [OF assms] by blast
  then show ?thesis using resched_blocked [OF assms] by simp
qed

section \<open>Making a process ready\<close>

text \<open>What \<^verbatim>\<open>ready\<close> does before it reschedules.\<close>

lemma ready_enter:
  assumes g: "kgood F E (Some c) X d s" and pid: "pid \<in> E" "pid \<noteq> c" "\<not> isbadpid s pid"
  obtains s2 where "ready pid s = kbind (resched s2) (\<lambda>s3 _. Ret s3 OK)"
    and "kgood F (E - {pid}) (Some c) X d s2"
    and "ndefers s2 = ndefers s" "attempt s2 = attempt s" "currpid s2 = currpid s" "semtab s2 = semtab s"
    and "readylist s2 = readylist s" "sleepq s2 = sleepq s" "nextqid s2 = nextqid s"
    and "proctab s2 = (proctab s)(pid := (proctab s pid)\<lparr>prstate := PR_READY\<rparr>)"
    and "kq s2 (readylist s) = takeWhile (at_least (queuetab s) (prprio (proctab s pid))) (kq s (readylist s))
      @ pid # dropWhile (at_least (queuetab s) (prprio (proctab s pid))) (kq s (readylist s))"
    and "\<And>q. q \<in> qids (nextqid s) \<Longrightarrow> q \<noteq> readylist s \<Longrightarrow> kq s2 q = kq s q"
    and "\<And>i. qkey (queuetab s2 i) = (if i = pid then prprio (proctab s pid) else qkey (queuetab s i))"
proof -
  let ?s1 = "set_prstate pid PR_READY s"
  have p: "0 \<le> pid" "pid < NPROC" using pid(3) by (simp_all add: isbadpid_def)
  have g1: "kgood F E (Some c) X d ?s1"
    using kgood_prio [OF g p] pid pid(3) [unfolded isbadpid_def] unfolding set_prstate_def by (intro kgood_upd [OF g]) auto
  have key: "MINKEY < prprio (proctab s pid)" using kgood_prio [OF g p] by simp
  obtain t' where t': "insert_q pid (readylist ?s1) (prprio (proctab s pid)) ?s1 = Some (?s1\<lparr>queuetab := t'\<rparr>, OK)"
    "kgood F (E - {pid}) (Some c) X d (?s1\<lparr>queuetab := t'\<rparr>)"
    "qlist t' (readylist ?s1) = takeWhile (at_least (queuetab ?s1) (prprio (proctab s pid))) (kq ?s1 (readylist ?s1))
      @ pid # dropWhile (at_least (queuetab ?s1) (prprio (proctab s pid))) (kq ?s1 (readylist ?s1))"
    "\<And>q. q \<in> qids (nextqid ?s1) \<Longrightarrow> q \<noteq> readylist ?s1 \<Longrightarrow> qlist t' q = kq ?s1 q"
    "\<And>i. qkey (t' i) = (if i = pid then prprio (proctab s pid) else qkey (queuetab ?s1 i))"
    by (rule kgood_insert_ready [OF g1 p pid(1) _ key]) simp_all
  have "ready pid s = kbind (resched (?s1\<lparr>queuetab := t'\<rparr>)) (\<lambda>s3 _. Ret s3 OK)"
    using pid(3) t'(1) by (simp add: ready_def Let_def)
  with t' show thesis by (intro that [of "?s1\<lparr>queuetab := t'\<rparr>"]) simp_all
qed

lemma ready_bad: "isbadpid s pid \<Longrightarrow> ready pid s = Ret s SYSERR"
  by (simp add: ready_def)

lemma ready_safe:
  assumes "kgood F {pid} (Some p) {} True s" "currpid s = p" "ndefers s = 0" "pid \<noteq> p" "\<not> isbadpid s pid"
  shows "ksafe F p (ready pid s)"
proof -
  obtain s2 where "ready pid s = kbind (resched s2) (\<lambda>s3 _. Ret s3 OK)" "kgood F ({pid} - {pid}) (Some p) {} True s2"
    "ndefers s2 = ndefers s" "currpid s2 = currpid s"
    by (rule ready_enter [OF assms(1) singletonI assms(4,5)])
  note s2 = this
  have m: "mine F p s2" using s2(2-4) assms(2,3) by (simp add: mine_def kinv_def)
  have "ksafe F p (kbind (resched s2) (\<lambda>s3 _. Ret s3 OK))"
    by (rule ksafe_bind [OF resched_safe [OF m]]) simp
  then show ?thesis using s2(1) by simp
qed

text \<open>\<^verbatim>\<open>ready\<close> while rescheduling is deferred never switches.\<close>

lemma ready_deferred:
  assumes g: "kgood F E (Some c) X d s" and pid: "pid \<in> E" "pid \<noteq> c" "\<not> isbadpid s pid" and nd: "ndefers s > 0"
  obtains s' where "ready pid s = Ret s' OK"
    and "kgood F (E - {pid}) (Some c) X d s'"
    and "ndefers s' = ndefers s" "currpid s' = currpid s" "semtab s' = semtab s"
    and "readylist s' = readylist s" "sleepq s' = sleepq s" "nextqid s' = nextqid s"
    and "proctab s' = (proctab s)(pid := (proctab s pid)\<lparr>prstate := PR_READY\<rparr>)"
    and "\<And>q. q \<in> qids (nextqid s) \<Longrightarrow> q \<noteq> readylist s \<Longrightarrow> kq s' q = kq s q"
    and "\<And>i. i \<noteq> pid \<Longrightarrow> qkey (queuetab s' i) = qkey (queuetab s i)"
proof (rule ready_enter [OF g pid])
  fix s2
  assume *: "ready pid s = kbind (resched s2) (\<lambda>s3 _. Ret s3 OK)" "kgood F (E - {pid}) (Some c) X d s2"
    "ndefers s2 = ndefers s" "currpid s2 = currpid s" "semtab s2 = semtab s"
    "readylist s2 = readylist s" "sleepq s2 = sleepq s" "nextqid s2 = nextqid s"
    "proctab s2 = (proctab s)(pid := (proctab s pid)\<lparr>prstate := PR_READY\<rparr>)"
    "\<And>q. q \<in> qids (nextqid s) \<Longrightarrow> q \<noteq> readylist s \<Longrightarrow> kq s2 q = kq s q"
    "\<And>i. qkey (queuetab s2 i) = (if i = pid then prprio (proctab s pid) else qkey (queuetab s i))"
  let ?s = "s2\<lparr>attempt := True\<rparr>"
  have "kgood F (E - {pid}) (Some c) X d ?s"
    using kgoodD(12-14) [OF *(2)] by (intro kgood_frame [OF *(2)]) simp_all
  then show thesis
    using * nd by (intro that [of ?s]) (simp_all add: resched_deferred)
qed

section \<open>Deferral\<close>

lemma kgood_defer:
  assumes "kgood F E cur X d s" "0 \<le> k"
  shows "kgood F E cur X d (s\<lparr>ndefers := k\<rparr>)" "kgood F E cur X d (s\<lparr>ndefers := k, attempt := b\<rparr>)"
  using kgoodD(12,13) [OF assms(1)] assms(2) by (auto intro!: kgood_frame [OF assms(1)])

lemma defer_start:
  assumes "ndefers s = 0"
  shows "resched_cntl DEFER_START s = Ret (s\<lparr>ndefers := 1, attempt := False\<rparr>) OK"
  using assms by (simp add: resched_cntl_def Let_def)

text \<open>The end of a deferral opened with none outstanding.\<close>

lemma defer_stop_safe:
  assumes "kgood F {} (Some p) {} True s" "ndefers s = 1" "currpid s = p"
  shows "ksafe F p (resched_cntl DEFER_STOP s)"
proof -
  let ?s1 = "s\<lparr>ndefers := 0\<rparr>"
  have "mine F p ?s1"
    using kgood_defer(1) [OF assms(1), of 0] assms(3) by (simp add: mine_def kinv_def)
  then show ?thesis
    using assms(2) by (auto simp: resched_cntl_def Let_def intro!: ksafe_bind resched_safe)
qed

section \<open>The other calls\<close>

lemma yield_safe: "mine F p s \<Longrightarrow> ksafe F p (yield s)"
  by (auto simp: yield_def intro!: ksafe_bind resched_safe)

lemma resume_safe:
  assumes m: "mine F p s"
  shows "ksafe F p (resume pid s)"
proof (cases "isbadpid s pid \<or> prstate (proctab s pid) \<noteq> PR_SUSP")
  case True
  then show ?thesis using m by (auto simp: resume_def)
next
  case False
  have k: "kinv F s" "currpid s = p" using m by (simp_all add: mine_def)
  have ne: "pid \<noteq> p" using kinv_cur [OF k(1)] k(2) False by auto
  have "kgood F {pid} (Some p) {} True s"
    using kgood_take [OF kinv_kgood [OF k(1)], of pid] False k(2) by (simp add: home_def)
  then have "ksafe F p (ready pid s)"
    using ready_safe [of F pid p s] k kinv_nd ne False by simp
  then show ?thesis
    using False by (auto simp: resume_def Let_def intro!: ksafe_bind)
qed

lemma chprio_mine: "mine F p s \<Longrightarrow> mine F p (fst (chprio pid newprio s))"
  using i16_range [of newprio] kgood_upd_same [OF kinv_kgood, of F s "\<lambda>e. e\<lparr>prprio := i16 newprio\<rparr>" pid]
  by (auto simp: chprio_def mine_def kinv_def entry_ok_def)

text \<open>Removing a ready process from the ready list.\<close>

lemma kgood_unready:
  assumes g: "kgood F E cur X d s" and p: "0 \<le> pid" "pid < NPROC" "pid \<notin> E" "prstate (proctab s pid) = PR_READY"
  shows "kgood F (Set.insert pid E) cur X d (s\<lparr>queuetab := unlink pid (queuetab s)\<rparr>)"
proof (rule kgood_unlink [OF g p(1-3) _ kgoodD(9) [OF g]])
  show h: "home s pid = Some (readylist s)" using p(4) by (rule home_simps)
  have "pid \<in> set (kq s (readylist s))" using kgood_mem [OF g p(1,2) kgoodD(9) [OF g]] p(3) h by simp
  then show "qupdated (nextqid s) (queuetab s) (unlink pid (queuetab s)) (readylist s) (remove1 pid (kq s (readylist s)))"
    by (rule unlink_spec [OF kgoodD(6,9) [OF g]])
  show "i \<in> X" if "\<not> isbadsem i" "squeue (semtab s i) = readylist s" for i
    using kgood_sem(2) [OF g that(1)] that(2) by simp
qed (use kgoodD(11) [OF g] in \<open>auto simp: qtab_simps\<close>)

lemma suspend_safe:
  assumes m: "mine F p s"
  shows "ksafe F p (suspend pid s)"
proof -
  have k: "kinv F s" "currpid s = p" using m by (simp_all add: mine_def)
  note g = kinv_kgood [OF k(1)]
  consider "isbadpid s pid \<or> pid = NULLPROC \<or> (prstate (proctab s pid) \<noteq> PR_CURR \<and> prstate (proctab s pid) \<noteq> PR_READY)"
    | "\<not> isbadpid s pid" "pid \<noteq> NULLPROC" "prstate (proctab s pid) = PR_READY"
    | "\<not> isbadpid s pid" "pid \<noteq> NULLPROC" "prstate (proctab s pid) = PR_CURR"
    by blast
  then show ?thesis
  proof cases
    case 1
    then show ?thesis using m by (auto simp: suspend_def)
  next
    case 2
    then have pid: "0 \<le> pid" "pid < NPROC" by (simp_all add: isbadpid_def)
    let ?s1 = "s\<lparr>queuetab := unlink pid (queuetab s)\<rparr>"
    have ne: "pid \<noteq> currpid s" using kinv_cur [OF k(1)] 2 by auto
    have g1: "kgood F {pid} (Some (currpid s)) {} True ?s1"
      using kgood_unready [OF g pid _ 2(3)] by simp
    have "kgood F {pid} (Some (currpid s)) {} True (set_prstate pid PR_SUSP ?s1)"
      using kgood_prio [OF g pid] ne 2(3) unfolding set_prstate_def by (intro kgood_upd [OF g1]) auto
    then have "kgood F ({pid} - {pid}) (Some (currpid s)) {} True (set_prstate pid PR_SUSP ?s1)"
      by (rule kgood_drop) (use 2 in \<open>simp_all add: home_def entry_ok_def\<close>)
    then show ?thesis
      using 2 k by (simp add: suspend_def getitem_eq Let_def mine_def kinv_def)
  next
    case 3
    then have eq: "pid = p" using kinv_curD [OF k(1), of pid] k(2) by (simp add: isbadpid_def)
    have pid: "0 \<le> pid" "pid < NPROC" using 3 by (simp_all add: isbadpid_def)
    have g1: "kgood F {pid} (Some pid) {} True s"
      using kgood_take [OF g, of pid] 3 k(2) eq by (simp add: home_def)
    have "kgood F {pid} None {} True (set_prstate pid PR_SUSP s)"
      using kgood_prio [OF g pid] 3(3) unfolding set_prstate_def by (intro kgood_upd [OF g1]) auto
    then have "kgood F ({pid} - {pid}) None {} True (set_prstate pid PR_SUSP s)"
      by (rule kgood_drop) (use 3 in \<open>simp_all add: home_def entry_ok_def\<close>)
    then have "ksafe F p (resched (set_prstate pid PR_SUSP s))"
      using kinv_nd [OF k(1)] by (intro resched_blocked_safe) simp_all
    then show ?thesis
      using 3 by (auto simp: suspend_def intro!: ksafe_bind)
  qed
qed

section \<open>What scheduling reads\<close>

text \<open>What scheduling looks at: a call that leaves it alone keeps the invariant.\<close>

definition sched_part :: "kst \<Rightarrow> (int \<Rightarrow> procent) \<times> qtab \<times> (int \<Rightarrow> sentry) \<times> int \<times> int \<times> int \<times> int \<times> int" where
  "sched_part s = (proctab s, queuetab s, semtab s, readylist s, sleepq s, nextqid s, currpid s, ndefers s)"

lemma kgood_cong: "sched_part s' = sched_part s \<Longrightarrow> kgood F E cur X d s \<Longrightarrow> kgood F E cur X d s'"
  using kgoodD(12-14) [of F E cur X d s] by (auto simp: sched_part_def intro: kgood_frame)

lemma mine_cong: "sched_part s' = sched_part s \<Longrightarrow> mine F p s \<Longrightarrow> mine F p s'"
  using kgood_cong [of s' s] by (auto simp: mine_def kinv_def sched_part_def)

end
