(* ===== verification/Sems.thy ===== *)
theory Sems
  imports Sched
begin

text \<open>
  Counting semaphores: \<^verbatim>\<open>semcreate.c\<close>, \<^verbatim>\<open>semcount.c\<close>, \<^verbatim>\<open>wait.c\<close>,
  \<^verbatim>\<open>signal.c\<close>, \<^verbatim>\<open>signaln.c\<close>, \<^verbatim>\<open>semreset.c\<close>, \<^verbatim>\<open>semdelete.c\<close>.
  The lemmas say what every call does to the count and to the queue of waiting processes, and
  that each keeps the kernel invariant.
\<close>

section \<open>The operations\<close>

primrec newsem_loop :: "nat \<Rightarrow> kst \<Rightarrow> kst \<times> int" where
  "newsem_loop 0 s = (s, SYSERR)"
| "newsem_loop (Suc n) s =
     (let sem = nextsem s;
          s1 = s\<lparr>nextsem := (if sem + 1 \<ge> NSEM then 0 else sem + 1)\<rparr>
      in if sstate (semtab s1 sem) = S_FREE then (upd_sem sem (\<lambda>e. e\<lparr>sstate := S_USED\<rparr>) s1, sem)
         else newsem_loop n s1)"

definition newsem :: "kst \<Rightarrow> kst \<times> int" where
  "newsem s = newsem_loop (nat NSEM) s"

definition semcreate :: "int \<Rightarrow> kst \<Rightarrow> kst \<times> int" where
  "semcreate count s =
     (if count < 0 then (s, SYSERR)
      else let (s1, sem) = newsem s
           in if sem = SYSERR then (s1, SYSERR)
              else (upd_sem sem (\<lambda>e. e\<lparr>scount := count\<rparr>) s1, sem))"

definition semcount :: "int \<Rightarrow> kst \<Rightarrow> int" where
  "semcount semid s =
     (if isbadsem semid \<or> sstate (semtab s semid) = S_FREE then SYSERR
      else scount (semtab s semid))"

definition wait :: "int \<Rightarrow> kst \<Rightarrow> (kst, int) kprog" where
  "wait sem s =
     (if isbadsem sem then Ret s SYSERR
      else if sstate (semtab s sem) = S_FREE then Ret s SYSERR
      else let s1 = upd_sem sem (\<lambda>e. e\<lparr>scount := i32 (scount e - 1)\<rparr>) s in
        if scount (semtab s1 sem) < 0 then
          (let p = currpid s1;
               s2 = upd_proc p (\<lambda>e. e\<lparr>prstate := PR_WAIT, prsem := sem\<rparr>) s1;
               (s3, _) = enqueue p (squeue (semtab s2 sem)) s2
           in kbind (resched s3) (\<lambda>s4 _. Ret s4 OK))
        else Ret s1 OK)"

text \<open>\<^verbatim>\<open>semptr->scount++ < 0\<close>: the new state and the test on the old value.\<close>

definition count_up :: "int \<Rightarrow> kst \<Rightarrow> kst \<times> bool" where
  "count_up sem s = (upd_sem sem (\<lambda>e. e\<lparr>scount := i32 (scount e + 1)\<rparr>) s, scount (semtab s sem) < 0)"

text \<open>
  The body shared by \<^verbatim>\<open>signal\<close> and the loop of \<^verbatim>\<open>signaln\<close>. The code
  does not guard the increment, which is undefined at the largest \<^verbatim>\<open>int32\<close>.
\<close>

definition signal_once :: "int \<Rightarrow> kst \<Rightarrow> (kst, unit) kprog" where
  "signal_once sem s =
     (if scount (semtab s sem) = INT32_MAX then Stop Undefined s else
      let (s1, neg) = count_up sem s in
      if neg then
        (let (s2, pid) = dequeue (squeue (semtab s1 sem)) s1
         in kbind (ready pid s2) (\<lambda>s3 _. Ret s3 ()))
      else Ret s1 ())"

definition signal :: "int \<Rightarrow> kst \<Rightarrow> (kst, int) kprog" where
  "signal sem s =
     (if isbadsem sem then Ret s SYSERR
      else if sstate (semtab s sem) = S_FREE then Ret s SYSERR
      else kbind (signal_once sem s) (\<lambda>s1 _. Ret s1 OK))"

primrec signaln_loop :: "nat \<Rightarrow> int \<Rightarrow> kst \<Rightarrow> (kst, unit) kprog" where
  "signaln_loop 0 sem s = Ret s ()"
| "signaln_loop (Suc n) sem s = kbind (signal_once sem s) (\<lambda>s1 _. signaln_loop n sem s1)"

definition signaln :: "int \<Rightarrow> int \<Rightarrow> kst \<Rightarrow> (kst, int) kprog" where
  "signaln sem count s =
     (if isbadsem sem \<or> count < 0 then Ret s SYSERR
      else if sstate (semtab s sem) = S_FREE then Ret s SYSERR
      else kbind (resched_cntl DEFER_START s) (\<lambda>s1 _.
           kbind (signaln_loop (nat count) sem s1) (\<lambda>s2 _.
           kbind (resched_cntl DEFER_STOP s2) (\<lambda>s3 _. Ret s3 OK))))"

text \<open>
  The loops of \<^verbatim>\<open>semreset\<close> and \<^verbatim>\<open>semdelete\<close>. Their fuel is the number of
  processes plus one, and the number of increments that bring the count to zero plus one.
\<close>

primrec semreset_loop :: "nat \<Rightarrow> int \<Rightarrow> kst \<Rightarrow> (kst, unit) kprog" where
  "semreset_loop 0 q s = Stop Looping s"
| "semreset_loop (Suc n) q s =
     (let (s1, pid) = getfirst q s in
      if pid \<noteq> EMPTY then kbind (ready pid s1) (\<lambda>s2 _. semreset_loop n q s2)
      else Ret s1 ())"

definition semreset :: "int \<Rightarrow> int \<Rightarrow> kst \<Rightarrow> (kst, int) kprog" where
  "semreset sem count s =
     (if count < 0 \<or> isbadsem sem \<or> sstate (semtab s sem) = S_FREE then Ret s SYSERR
      else let semqueue = squeue (semtab s sem)
           in kbind (resched_cntl DEFER_START s) (\<lambda>s1 _.
              kbind (semreset_loop (nat (NPROC + 1)) semqueue s1) (\<lambda>s2 _.
              kbind (resched_cntl DEFER_STOP (upd_sem sem (\<lambda>e. e\<lparr>scount := count\<rparr>) s2))
                (\<lambda>s3 _. Ret s3 OK))))"

primrec semdelete_loop :: "nat \<Rightarrow> int \<Rightarrow> kst \<Rightarrow> (kst, unit) kprog" where
  "semdelete_loop 0 sem s = Stop Looping s"
| "semdelete_loop (Suc n) sem s =
     (let (s1, neg) = count_up sem s in
      if neg then
        (let (s2, pid) = getfirst (squeue (semtab s1 sem)) s1
         in kbind (ready pid s2) (\<lambda>s3 _. semdelete_loop n sem s3))
      else Ret s1 ())"

definition semdelete :: "int \<Rightarrow> kst \<Rightarrow> (kst, int) kprog" where
  "semdelete sem s =
     (if isbadsem sem then Ret s SYSERR
      else if sstate (semtab s sem) = S_FREE then Ret s SYSERR
      else let s1 = upd_sem sem (\<lambda>e. e\<lparr>sstate := S_FREE\<rparr>) s
           in kbind (resched_cntl DEFER_START s1) (\<lambda>s2 _.
              kbind (semdelete_loop (nat (- scount (semtab s2 sem)) + 1) sem s2) (\<lambda>s3 _.
              kbind (resched_cntl DEFER_STOP s3) (\<lambda>s4 _. Ret s4 OK))))"

section \<open>Allocation\<close>

lemma newsem_loop_spec:
  "0 \<le> nextsem s \<Longrightarrow> nextsem s < NSEM \<Longrightarrow> newsem_loop n s = (s', r) \<Longrightarrow>
   \<exists>k. 0 \<le> k \<and> k < NSEM \<and>
     (if r = SYSERR then s' = s\<lparr>nextsem := k\<rparr>
        \<and> (\<forall>j < n. sstate (semtab s ((nextsem s + int j) mod NSEM)) = S_USED)
      else 0 \<le> r \<and> r < NSEM \<and> sstate (semtab s r) = S_FREE
        \<and> s' = upd_sem r (\<lambda>e. e\<lparr>sstate := S_USED\<rparr>) (s\<lparr>nextsem := k\<rparr>))"
proof (induction n arbitrary: s)
  case 0
  then show ?case by (intro exI [of _ "nextsem s"]) auto
next
  case (Suc n)
  define k where "k = (nextsem s + 1) mod NSEM"
  let ?s1 = "s\<lparr>nextsem := k\<rparr>"
  have k: "0 \<le> k" "k < NSEM" "(if nextsem s + 1 \<ge> NSEM then 0 else nextsem s + 1) = k"
    using Suc.prems(1,2) by (auto simp: k_def, presburger)
  have step: "newsem_loop (Suc n) s = (if sstate (semtab s (nextsem s)) = S_FREE
      then (upd_sem (nextsem s) (\<lambda>e. e\<lparr>sstate := S_USED\<rparr>) ?s1, nextsem s) else newsem_loop n ?s1)"
    unfolding newsem_loop.simps Let_def k(3) by simp
  show ?case
  proof (cases "sstate (semtab s (nextsem s)) = S_FREE")
    case True
    then show ?thesis using Suc.prems k step by (intro exI [of _ k]) auto
  next
    case False
    then have "newsem_loop n ?s1 = (s', r)" using Suc.prems(3) step by simp
    from Suc.IH [OF _ _ this] k(1,2) obtain k' where k': "0 \<le> k'" "k' < NSEM"
      "if r = SYSERR then s' = ?s1\<lparr>nextsem := k'\<rparr>
        \<and> (\<forall>j < n. sstate (semtab s ((k + int j) mod NSEM)) = S_USED)
      else 0 \<le> r \<and> r < NSEM \<and> sstate (semtab s r) = S_FREE
        \<and> s' = upd_sem r (\<lambda>e. e\<lparr>sstate := S_USED\<rparr>) (?s1\<lparr>nextsem := k'\<rparr>)"
      by (cases "r = SYSERR") auto
    have "sstate (semtab s ((nextsem s + int j) mod NSEM)) = S_USED"
      if "\<forall>j < n. sstate (semtab s ((k + int j) mod NSEM)) = S_USED" "j < Suc n" for j
    proof (cases j)
      case 0
      then show ?thesis using False Suc.prems(1,2) by (cases "sstate (semtab s (nextsem s))") auto
    next
      case (Suc i)
      then have "(nextsem s + int j) mod NSEM = (k + int i) mod NSEM"
        unfolding k_def by (simp add: mod_simps add_ac)
      then show ?thesis using that Suc by simp
    qed
    then show ?thesis using k' by (intro exI [of _ k']) (auto split: if_splits)
  qed
qed

lemma mod_shift_onto:
  assumes "0 \<le> (i :: int)" "i < m"
  shows "\<exists>j < nat m. (a + int j) mod m = i"
proof -
  let ?j = "nat ((i - a) mod m)"
  have "0 \<le> (i - a) mod m" "(i - a) mod m < m" using assms by simp_all
  then have "(a + int ?j) mod m = i" "?j < nat m" using assms by (simp_all add: mod_simps)
  then show ?thesis by blast
qed

text \<open>\<^verbatim>\<open>newsem\<close> fails exactly when the table is full.\<close>

lemma newsem_spec:
  assumes "0 \<le> nextsem s" "nextsem s < NSEM"
  obtains (full) k where "newsem s = (s\<lparr>nextsem := k\<rparr>, SYSERR)" "0 \<le> k" "k < NSEM"
      "\<And>i. \<not> isbadsem i \<Longrightarrow> sstate (semtab s i) = S_USED"
  | (found) k i where "newsem s = (upd_sem i (\<lambda>e. e\<lparr>sstate := S_USED\<rparr>) (s\<lparr>nextsem := k\<rparr>), i)"
      "0 \<le> k" "k < NSEM" "\<not> isbadsem i" "sstate (semtab s i) = S_FREE"
proof -
  obtain s' r where r: "newsem_loop (nat NSEM) s = (s', r)" by (cases "newsem_loop (nat NSEM) s")
  from newsem_loop_spec [OF assms r] obtain k where k: "0 \<le> k" "k < NSEM"
     "if r = SYSERR then s' = s\<lparr>nextsem := k\<rparr>
        \<and> (\<forall>j < nat NSEM. sstate (semtab s ((nextsem s + int j) mod NSEM)) = S_USED)
      else 0 \<le> r \<and> r < NSEM \<and> sstate (semtab s r) = S_FREE
        \<and> s' = upd_sem r (\<lambda>e. e\<lparr>sstate := S_USED\<rparr>) (s\<lparr>nextsem := k\<rparr>)" by blast
  show thesis
  proof (cases "r = SYSERR")
    case True
    show thesis
    proof (rule full)
      show "newsem s = (s\<lparr>nextsem := k\<rparr>, SYSERR)" using True k(3) r by (simp add: newsem_def)
      show "sstate (semtab s i) = S_USED" if "\<not> isbadsem i" for i
        using mod_shift_onto [of i NSEM "nextsem s"] that k(3) True by (auto simp: isbadsem_def)
    qed (fact k(1,2))+
  next
    case False
    then show thesis using k r by (intro found [of r k]) (simp_all add: newsem_def isbadsem_def)
  qed
qed

section \<open>Releasing a waiting process\<close>

lemma kgood_nextsem: "kgood F E cur X d (s\<lparr>nextsem := k\<rparr>) \<longleftrightarrow> kgood F E cur X d s"
  by (simp add: kgood_def kbase_def kprocs_def proc_ok_def kstatic_def curp_def semcnt_def slp_def home_def
    split: pstate.splits)

lemma count_up_kgood:
  assumes "kgood F E cur X d s" "count_up sem s = (s1, neg)"
  shows "kgood F E cur (Set.insert sem X) d s1"
  using assms kgood_sem_upd [OF assms(1), of "\<lambda>e. e\<lparr>scount := i32 (scount e + 1)\<rparr>" sem]
  by (auto simp: count_up_def)

text \<open>The process at the head of a semaphore's queue, taken off it, is in transit.\<close>

lemma sem_unqueue:
  assumes g: "kgood F E cur X True s" and i: "\<not> isbadsem i" "i \<in> X"
    and w: "kq s (squeue (semtab s i)) = w # ws"
    and u: "qupdated (nextqid s) (queuetab s) t' (squeue (semtab s i)) ws"
    and k: "\<And>j. qkey (t' j) = qkey (queuetab s j)"
  shows "kgood F (Set.insert w E) cur X True (s\<lparr>queuetab := t'\<rparr>)"
    and "\<not> isbadpid s w" "w \<notin> E" "prstate (proctab s w) = PR_WAIT"
proof -
  note q = kgood_sem [OF g i(1)]
  have w0: "0 \<le> w" "w < NPROC" "w \<notin> E" "home s w = Some (squeue (semtab s i))"
    using kgood_in_queue [OF g q(1), of w] w by simp_all
  show "w \<notin> E" using w0(3) .
  show st: "prstate (proctab s w) = PR_WAIT"
    using w0(4) q(2,3) by (auto simp: home_def split: pstate.splits)
  show "\<not> isbadpid s w" using w0(1,2) st by (simp add: isbadpid_def)
  show "kgood F (Set.insert w E) cur X True (s\<lparr>queuetab := t'\<rparr>)"
  proof (rule kgood_unlink [OF g w0 q(1)])
    show "qupdated (nextqid s) (queuetab s) t' (squeue (semtab s i)) (remove1 w (kq s (squeue (semtab s i))))"
      using u w by simp
    show "True \<and> (if squeue (semtab s i) = sleepq s then delta_ok t' (remove1 w (kq s (squeue (semtab s i))))
      else \<forall>j\<in>set (kq s (sleepq s)). qkey (t' j) = qkey (queuetab s j))"
      using q(3) k by simp
    show "j \<in> X" if "\<not> isbadsem j" "squeue (semtab s j) = squeue (semtab s i)" for j
      using kgood_sem_inj [OF g that(1) i(1) that(2)] i(2) by simp
  qed (use k in simp)
qed

lemma sem_dequeue:
  assumes g: "kgood F E cur X True s" and i: "\<not> isbadsem i" "i \<in> X"
    and w: "kq s (squeue (semtab s i)) = w # ws"
  obtains t' where "dequeue (squeue (semtab s i)) s = (s\<lparr>queuetab := t'\<rparr>, w)"
    and "kgood F (Set.insert w E) cur X True (s\<lparr>queuetab := t'\<rparr>)"
    and "qupdated (nextqid s) (queuetab s) t' (squeue (semtab s i)) ws"
    and "\<And>j. qkey (t' j) = qkey (queuetab s j)"
  using dequeue_cons [OF kgoodD(6) [OF g] kgood_sem(1) [OF g i(1)] kgoodD(8) [OF g] w]
    sem_unqueue(1) [OF g i w] that detach_key by blast

lemma sem_getfirst:
  assumes g: "kgood F E cur X True s" and i: "\<not> isbadsem i" "i \<in> X"
    and w: "kq s (squeue (semtab s i)) = w # ws"
  obtains t' where "getfirst (squeue (semtab s i)) s = (s\<lparr>queuetab := t'\<rparr>, w)"
    and "kgood F (Set.insert w E) cur X True (s\<lparr>queuetab := t'\<rparr>)"
    and "qupdated (nextqid s) (queuetab s) t' (squeue (semtab s i)) ws"
    and "\<And>j. qkey (t' j) = qkey (queuetab s j)"
  using getfirst_cons [OF kgoodD(6) [OF g] kgood_sem(1) [OF g i(1)] w]
    sem_unqueue(1) [OF g i w] that unlink_reads(3) by blast

lemma cnt_used:
  assumes "kgood F E cur X d s" "\<not> isbadsem i" "i \<notin> X" "sstate (semtab s i) = S_USED"
  shows "scount (semtab s i) \<le> INT32_MAX"
    and "scount (semtab s i) < 0 \<Longrightarrow> int (length (kq s (squeue (semtab s i)))) = - scount (semtab s i)"
    and "0 \<le> scount (semtab s i) \<Longrightarrow> kq s (squeue (semtab s i)) = []"
proof -
  have c: "cnt_ok (sstate (semtab s i)) (scount (semtab s i)) (length (kq s (squeue (semtab s i))))"
    using kgoodD(3) [OF assms(1)] assms(2,3) by (simp add: semcnt_def isbadsem_def)
  then show "scount (semtab s i) \<le> INT32_MAX" using assms(4) by simp
  show "int (length (kq s (squeue (semtab s i)))) = - scount (semtab s i)" if "scount (semtab s i) < 0"
    using c that assms(4) by simp
  show "kq s (squeue (semtab s i)) = []" if "0 \<le> scount (semtab s i)"
    using c that assms(4) by simp
qed

lemma cnt_free:
  assumes "kgood F E cur X d s" "\<not> isbadsem i" "i \<notin> X" "sstate (semtab s i) = S_FREE"
  shows "kq s (squeue (semtab s i)) = []"
proof -
  have "cnt_ok (sstate (semtab s i)) (scount (semtab s i)) (length (kq s (squeue (semtab s i))))"
    using kgoodD(3) [OF assms(1)] assms(2,3) by (simp add: semcnt_def isbadsem_def)
  then show ?thesis using assms(4) by simp
qed

lemma curpD: "kgood F E cur X d s \<Longrightarrow> cur = Some p \<Longrightarrow> 0 \<le> p \<Longrightarrow> p < NPROC \<Longrightarrow> prstate (proctab s p) = PR_CURR"
  using kgoodD(2) [of F E cur X d s] by (simp add: curp_def)

lemma length_waiting:
  assumes "kgood F E cur X d s" "\<not> isbadsem i"
  shows "length (kq s (squeue (semtab s i))) \<le> 100"
proof (rule length_pids)
  note w = kgoodD(6) [OF assms(1)] and q = kgood_sem(1) [OF assms]
  show "distinct (kq s (squeue (semtab s i)))" by (rule wfq_distinct [OF w q])
  show "set (kq s (squeue (semtab s i))) \<subseteq> {0..<NPROC}" using wfq_range [OF w q] by auto
qed

text \<open>A used semaphore's count is at least \<open>-NPROC\<close>.\<close>

lemma cnt_lower:
  assumes "kgood F E cur X d s" "\<not> isbadsem i" "i \<notin> X" "sstate (semtab s i) = S_USED"
  shows "- 100 \<le> scount (semtab s i)"
  using cnt_used(2) [OF assms] length_waiting [OF assms(1,2)] by linarith

section \<open>Creating\<close>

lemma newsem_shape:
  "newsem_loop n s = (s', r) \<Longrightarrow>
   (\<exists>k. s' = s\<lparr>nextsem := k\<rparr> \<and> r = SYSERR)
   \<or> (\<exists>k. s' = upd_sem r (\<lambda>e. e\<lparr>sstate := S_USED\<rparr>) (s\<lparr>nextsem := k\<rparr>) \<and> sstate (semtab s r) = S_FREE)"
proof (induction n arbitrary: s)
  case 0
  then show ?case by (intro disjI1 exI [of _ "nextsem s"]) auto
next
  case (Suc n)
  show ?case
  proof (cases "sstate (semtab s (nextsem s)) = S_FREE")
    case True
    then show ?thesis using Suc.prems by (auto simp: Let_def)
  next
    case False
    then show ?thesis using Suc.prems Suc.IH by (fastforce simp: Let_def)
  qed
qed

lemma semcreate_mine:
  assumes m: "mine F p s" and c: "count \<le> INT32_MAX"
  shows "mine F p (fst (semcreate count s))"
proof -
  have k: "kinv F s" "currpid s = p" using m by (simp_all add: mine_def)
  note g = kinv_kgood [OF k(1)]
  obtain s1 sem where n: "newsem s = (s1, sem)" by (cases "newsem s")
  then consider (full) k where "s1 = s\<lparr>nextsem := k\<rparr>" "sem = SYSERR"
    | (found) k where "s1 = upd_sem sem (\<lambda>e. e\<lparr>sstate := S_USED\<rparr>) (s\<lparr>nextsem := k\<rparr>)" "sstate (semtab s sem) = S_FREE"
    using newsem_shape [of "nat NSEM" s s1 sem] by (auto simp: newsem_def)
  then show ?thesis
  proof cases
    case full
    then show ?thesis using m n by (auto simp: semcreate_def mine_def kinv_def kgood_nextsem)
  next
    case found
    have g1: "kgood F {} (Some p) {sem} True s1"
      using kgood_sem_upd [of F "{}" "Some p" "{}" True "s\<lparr>nextsem := k\<rparr>" "\<lambda>e. e\<lparr>sstate := S_USED\<rparr>" sem] g k(2)
      by (simp add: found(1) kgood_nextsem)
    have len: "kq s (squeue (semtab s sem)) = []" if "\<not> isbadsem sem"
      by (rule cnt_free [OF g that _ found(2)]) simp
    show ?thesis
    proof (cases "count < 0 \<or> sem = SYSERR")
      case True
      then have "kgood F {} (Some p) ({sem} - {sem}) True s1" if "\<not> count < 0"
        using that by (intro kgood_sem_ok [OF g1]) (simp add: isbadsem_def)
      then show ?thesis using True n found k m by (auto simp: semcreate_def mine_def kinv_def)
    next
      case False
      have "kgood F {} (Some p) (Set.insert sem {sem}) True (upd_sem sem (\<lambda>e. e\<lparr>scount := count\<rparr>) s1)"
        by (rule kgood_sem_upd [OF g1]) simp
      then have "kgood F {} (Some p) (Set.insert sem {sem} - {sem}) True (upd_sem sem (\<lambda>e. e\<lparr>scount := count\<rparr>) s1)"
        by (rule kgood_sem_ok) (use len False c found(1) in simp)
      then show ?thesis using False n k found(1) by (simp add: semcreate_def mine_def kinv_def)
    qed
  qed
qed

section \<open>Signalling\<close>

lemma count_up_simps:
  "count_up sem s = (upd_sem sem (\<lambda>e. e\<lparr>scount := i32 (scount e + 1)\<rparr>) s, scount (semtab s sem) < 0)"
  by (simp add: count_up_def)

text \<open>
  What one signal does before \<^verbatim>\<open>ready\<close>: with nobody waiting it counts up; otherwise the
  process at the head of the queue is taken off it.
\<close>

definition signalled :: "int \<Rightarrow> kst \<Rightarrow> kst" where
  "signalled sem s = upd_sem sem (\<lambda>e. e\<lparr>scount := scount e + 1\<rparr>) s"

lemma signalled_simps [simp]:
  "proctab (signalled sem s) = proctab s" "queuetab (signalled sem s) = queuetab s"
  "semtab (signalled sem s) = (semtab s)(sem := (semtab s sem)\<lparr>scount := scount (semtab s sem) + 1\<rparr>)"
  "readylist (signalled sem s) = readylist s" "sleepq (signalled sem s) = sleepq s"
  "currpid (signalled sem s) = currpid s" "nextqid (signalled sem s) = nextqid s"
  "ndefers (signalled sem s) = ndefers s" "prcount (signalled sem s) = prcount s"
  by (simp_all add: signalled_def)

lemma signal_once_enter:
  assumes g: "kgood F E (Some p) X True s" and i: "\<not> isbadsem sem" "sem \<notin> X" "sstate (semtab s sem) = S_USED"
    and c: "scount (semtab s sem) < INT32_MAX"
  obtains (none) "kq s (squeue (semtab s sem)) = []" "0 \<le> scount (semtab s sem)"
      "signal_once sem s = Ret (signalled sem s) ()" "kgood F E (Some p) X True (signalled sem s)"
  | (some) w ws t' where "kq s (squeue (semtab s sem)) = w # ws" "scount (semtab s sem) < 0"
      "signal_once sem s = kbind (ready w ((signalled sem s)\<lparr>queuetab := t'\<rparr>)) (\<lambda>s2 _. Ret s2 ())"
      "kgood F (Set.insert w E) (Some p) X True ((signalled sem s)\<lparr>queuetab := t'\<rparr>)"
      "w \<notin> E" "w \<noteq> p" "\<not> isbadpid s w"
      "qupdated (nextqid s) (queuetab s) t' (squeue (semtab s sem)) ws"
      "\<And>j. qkey (t' j) = qkey (queuetab s j)"
proof -
  have "- 100 \<le> scount (semtab s sem)" by (rule cnt_lower [OF g i])
  then have up: "count_up sem s = (signalled sem s, scount (semtab s sem) < 0)"
    using c by (auto simp: count_up_def signalled_def upd_sem_def)
  have g1: "kgood F E (Some p) (Set.insert sem X) True (signalled sem s)"
    unfolding signalled_def by (rule kgood_sem_upd [OF g]) simp
  have X: "Set.insert sem X - {sem} = X" using i(2) by auto
  show thesis
  proof (cases "scount (semtab s sem) < 0")
    case False
    then have n: "kq s (squeue (semtab s sem)) = []" using cnt_used(3) [OF g i] by simp
    then have "kgood F E (Some p) (Set.insert sem X - {sem}) True (signalled sem s)"
      using False c i(3) by (intro kgood_sem_ok [OF g1]) simp
    then show thesis using False n up X by (intro none) (use c in \<open>simp_all add: signal_once_def\<close>)
  next
    case True
    then have len: "int (length (kq s (squeue (semtab s sem)))) = - scount (semtab s sem)"
      using cnt_used(2) [OF g i] by simp
    with True obtain w ws where w: "kq s (squeue (semtab s sem)) = w # ws"
      by (cases "kq s (squeue (semtab s sem))") auto
    obtain t' where t': "dequeue (squeue (semtab (signalled sem s) sem)) (signalled sem s)
        = ((signalled sem s)\<lparr>queuetab := t'\<rparr>, w)"
      "kgood F (Set.insert w E) (Some p) (Set.insert sem X) True ((signalled sem s)\<lparr>queuetab := t'\<rparr>)"
      "qupdated (nextqid (signalled sem s)) (queuetab (signalled sem s)) t' (squeue (semtab (signalled sem s) sem)) ws"
      "\<And>j. qkey (t' j) = qkey (queuetab (signalled sem s) j)"
      by (rule sem_dequeue [OF g1 i(1), of w ws]) (use w in simp_all)
    have "kgood F (Set.insert w E) (Some p) (Set.insert sem X - {sem}) True ((signalled sem s)\<lparr>queuetab := t'\<rparr>)"
    proof (rule kgood_sem_ok [OF t'(2)])
      have "qlist t' (squeue (semtab s sem)) = ws"
        using t'(3) kgood_sem(1) [OF g i(1)] by (simp add: qupdated_def)
      then show "cnt_ok (sstate (semtab ((signalled sem s)\<lparr>queuetab := t'\<rparr>) sem))
          (scount (semtab ((signalled sem s)\<lparr>queuetab := t'\<rparr>) sem))
          (length (kq ((signalled sem s)\<lparr>queuetab := t'\<rparr>) (squeue (semtab ((signalled sem s)\<lparr>queuetab := t'\<rparr>) sem))))"
        using len w i(3) True by (cases ws) auto
    qed
    moreover note un = sem_unqueue(2-4) [OF g1 i(1) _ _ t'(3,4), of w]
    have "prstate (proctab s w) = PR_WAIT" "0 \<le> w" "w < NPROC"
      using un(1,3) w by (simp_all add: isbadpid_def)
    then have "w \<noteq> p" using curpD [OF g] by force
    moreover have "signal_once sem s = kbind (ready w ((signalled sem s)\<lparr>queuetab := t'\<rparr>)) (\<lambda>s2 _. Ret s2 ())"
      using up True t'(1) c by (simp add: signal_once_def)
    ultimately show thesis
      using True w t'(3,4) un(1,2) X by (intro some [of w ws t']) (simp_all add: isbadpid_def)
  qed
qed

lemma mine_count_max:
  assumes m: "mine F p s" and i: "\<not> isbadsem sem" "sstate (semtab s sem) = S_USED"
  shows "scount (semtab s sem) \<le> INT32_MAX"
proof (rule cnt_used(1) [OF kinv_kgood i(1) _ i(2)])
  show "kinv F s" using m by (simp add: mine_def)
qed simp

lemma signal_once_safe:
  assumes m: "mine F p s" and i: "\<not> isbadsem sem" "sstate (semtab s sem) = S_USED"
    and c: "scount (semtab s sem) < INT32_MAX"
  shows "ksafe F p (signal_once sem s)"
proof -
  have k: "kinv F s" "currpid s = p" using m by (simp_all add: mine_def)
  have g: "kgood F {} (Some p) {} True s" using kinv_kgood [OF k(1)] k(2) by simp
  show ?thesis
  proof (rule signal_once_enter [OF g i(1) _ i(2) c])
    show "sem \<notin> {}" by simp
    show ?thesis if "signal_once sem s = Ret (signalled sem s) ()" "kgood F {} (Some p) {} True (signalled sem s)"
      using that k kinv_nd [OF k(1)] by (simp add: mine_def kinv_def)
    fix w ws t'
    let ?s = "(signalled sem s)\<lparr>queuetab := t'\<rparr>"
    assume e: "signal_once sem s = kbind (ready w ?s) (\<lambda>s2 _. Ret s2 ())"
      and g2: "kgood F {w} (Some p) {} True ?s" and w: "w \<noteq> p" "\<not> isbadpid s w"
    have "ksafe F p (ready w ?s)"
      using k kinv_nd [OF k(1)] w by (intro ready_safe [OF g2]) (simp_all add: isbadpid_def)
    then show ?thesis unfolding e by (rule ksafe_bind) simp
  qed
qed

text \<open>Under deferral a signal never switches.\<close>

lemma signal_once_deferred:
  assumes g: "kgood F E (Some p) {} True s" and nd: "ndefers s > 0" and cp: "currpid s = p"
    and i: "\<not> isbadsem sem" "sstate (semtab s sem) = S_USED" and c: "scount (semtab s sem) < INT32_MAX"
  obtains s' where "signal_once sem s = Ret s' ()" and "kgood F E (Some p) {} True s'"
    and "ndefers s' = ndefers s" and "currpid s' = p"
    and "semtab s' = (semtab s)(sem := (semtab s sem)\<lparr>scount := scount (semtab s sem) + 1\<rparr>)"
    and "kq s' (squeue (semtab s sem)) = drop 1 (kq s (squeue (semtab s sem)))"
    and "\<And>q. q \<in> qids (nextqid s) \<Longrightarrow> q \<noteq> readylist s \<Longrightarrow> q \<noteq> squeue (semtab s sem) \<Longrightarrow> kq s' q = kq s q"
    and "nextqid s' = nextqid s" "readylist s' = readylist s" "sleepq s' = sleepq s"
proof -
  note out = that
  show thesis
  proof (rule signal_once_enter [OF g i(1) _ i(2) c])
    show "sem \<notin> {}" by simp
    show thesis if "kq s (squeue (semtab s sem)) = []" "signal_once sem s = Ret (signalled sem s) ()"
      "kgood F E (Some p) {} True (signalled sem s)"
      using that cp by (intro out [of "signalled sem s"]) simp_all
    fix w ws t'
    let ?s = "(signalled sem s)\<lparr>queuetab := t'\<rparr>"
    assume w: "kq s (squeue (semtab s sem)) = w # ws" "w \<notin> E" "w \<noteq> p" "\<not> isbadpid s w"
      and e: "signal_once sem s = kbind (ready w ?s) (\<lambda>s2 _. Ret s2 ())"
      and g2: "kgood F (Set.insert w E) (Some p) {} True ?s"
      and q: "qupdated (nextqid s) (queuetab s) t' (squeue (semtab s sem)) ws"
    have b: "\<not> isbadpid ?s w" and n: "ndefers ?s > 0" using w(4) nd by (simp_all add: isbadpid_def)
    note sq = kgood_sem [OF g i(1)]
    show thesis
    proof (rule ready_deferred [OF g2 insertI1 w(3) b n])
      fix s'
      assume *: "ready w ?s = Ret s' OK" "kgood F (Set.insert w E - {w}) (Some p) {} True s'"
        "ndefers s' = ndefers ?s" "currpid s' = currpid ?s" "semtab s' = semtab ?s"
        "readylist s' = readylist ?s" "sleepq s' = sleepq ?s" "nextqid s' = nextqid ?s"
        "\<And>q. q \<in> qids (nextqid ?s) \<Longrightarrow> q \<noteq> readylist ?s \<Longrightarrow> kq s' q = kq ?s q"
      have "Set.insert w E - {w} = E" using w(2) by auto
      then show thesis
        using * e cp q w(1) sq by (intro out [of s']) (simp_all add: qupdated_def)
    qed
  qed
qed

lemma signal_safe:
  assumes m: "mine F p s"
  shows "ksafe F p (signal sem s)"
proof (cases "isbadsem sem \<or> sstate (semtab s sem) = S_FREE")
  case True
  then show ?thesis using m by (auto simp: signal_def)
next
  case False
  then have i: "\<not> isbadsem sem" by simp
  have u: "sstate (semtab s sem) = S_USED" using False by (cases "sstate (semtab s sem)") simp_all
  have "ksafe F p (signal_once sem s)"
  proof (cases "scount (semtab s sem) = INT32_MAX")
    case True
    then show ?thesis by (simp add: signal_once_def)
  next
    case False
    then show ?thesis using mine_count_max [OF m i u] by (intro signal_once_safe [OF m i u]) simp
  qed
  then show ?thesis
    using False u by (simp add: signal_def) (rule ksafe_bind, simp_all)
qed

lemma signaln_loop_deferred:
  "kgood F {} (Some p) {} True s \<Longrightarrow> ndefers s = 1 \<Longrightarrow> currpid s = p \<Longrightarrow> \<not> isbadsem sem
   \<Longrightarrow> sstate (semtab s sem) = S_USED \<Longrightarrow> scount (semtab s sem) + int n \<le> INT32_MAX
   \<Longrightarrow> \<exists>s'. signaln_loop n sem s = Ret s' () \<and> kgood F {} (Some p) {} True s' \<and> ndefers s' = 1 \<and> currpid s' = p
     \<and> semtab s' = (semtab s)(sem := (semtab s sem)\<lparr>scount := scount (semtab s sem) + int n\<rparr>)
     \<and> kq s' (squeue (semtab s sem)) = drop n (kq s (squeue (semtab s sem)))"
proof (induction n arbitrary: s)
  case 0
  then show ?case by simp
next
  case (Suc n)
  obtain s1 where s1: "signal_once sem s = Ret s1 ()" "kgood F {} (Some p) {} True s1"
    "ndefers s1 = ndefers s" "currpid s1 = p"
    "semtab s1 = (semtab s)(sem := (semtab s sem)\<lparr>scount := scount (semtab s sem) + 1\<rparr>)"
    "kq s1 (squeue (semtab s sem)) = drop 1 (kq s (squeue (semtab s sem)))"
    by (rule signal_once_deferred [OF Suc.prems(1) _ Suc.prems(3-5)]) (use Suc.prems(2,6) in simp_all)
  then have "\<exists>s'. signaln_loop n sem s1 = Ret s' () \<and> kgood F {} (Some p) {} True s' \<and> ndefers s' = 1 \<and> currpid s' = p
     \<and> semtab s' = (semtab s1)(sem := (semtab s1 sem)\<lparr>scount := scount (semtab s1 sem) + int n\<rparr>)
     \<and> kq s' (squeue (semtab s1 sem)) = drop n (kq s1 (squeue (semtab s1 sem)))"
    using Suc.prems by (intro Suc.IH) simp_all
  then show ?case using s1 by (auto simp: add_ac)
qed

text \<open>Without the bound on the count, the loop ends where the count would overflow.\<close>

lemma signaln_loop_cases:
  assumes "kgood F {} (Some p) {} True s" "ndefers s = 1" "currpid s = p" "\<not> isbadsem sem"
    "sstate (semtab s sem) = S_USED"
  shows "(\<exists>s'. signaln_loop n sem s = Ret s' () \<and> kgood F {} (Some p) {} True s' \<and> ndefers s' = 1 \<and> currpid s' = p)
    \<or> (\<exists>s'. signaln_loop n sem s = Stop Undefined s')"
  using assms
proof (induction n arbitrary: s)
  case 0
  then show ?case by simp
next
  case (Suc n)
  show ?case
  proof (cases "scount (semtab s sem) = INT32_MAX")
    case True
    then show ?thesis by (simp add: signal_once_def)
  next
    case False
    then have c: "scount (semtab s sem) < INT32_MAX"
      using cnt_used(1) [OF Suc.prems(1,4) _ Suc.prems(5)] by simp
    obtain s1 where s1: "signal_once sem s = Ret s1 ()" "kgood F {} (Some p) {} True s1"
      "ndefers s1 = ndefers s" "currpid s1 = p"
      "semtab s1 = (semtab s)(sem := (semtab s sem)\<lparr>scount := scount (semtab s sem) + 1\<rparr>)"
      by (rule signal_once_deferred [OF Suc.prems(1) _ Suc.prems(3-5) c]) (use Suc.prems(2) in simp_all)
    then show ?thesis using Suc.IH [OF s1(2) _ s1(4) Suc.prems(4)] Suc.prems(2,5) by simp
  qed
qed

lemma signaln_safe:
  assumes m: "mine F p s"
  shows "ksafe F p (signaln sem count s)"
proof (cases "isbadsem sem \<or> count < 0 \<or> sstate (semtab s sem) = S_FREE")
  case True
  then show ?thesis using m by (auto simp: signaln_def)
next
  case False
  then have u: "sstate (semtab s sem) = S_USED" by (cases "sstate (semtab s sem)") simp_all
  have k: "kinv F s" "currpid s = p" using m by (simp_all add: mine_def)
  let ?s1 = "s\<lparr>ndefers := 1, attempt := False\<rparr>"
  have "kgood F {} (Some p) {} True ?s1" using kinv_kgood [OF k(1)] k(2) by (auto intro: kgood_defer)
  then consider s2 where "signaln_loop (nat count) sem ?s1 = Ret s2 ()" "kgood F {} (Some p) {} True s2"
      "ndefers s2 = 1" "currpid s2 = p"
    | s2 where "signaln_loop (nat count) sem ?s1 = Stop Undefined s2"
    using signaln_loop_cases [of F p ?s1 sem "nat count"] False u k(2) by auto
  then show ?thesis
  proof cases
    case (1 s2)
    have "ksafe F p (resched_cntl DEFER_STOP s2)" by (rule defer_stop_safe [OF 1(2-4)])
    then have "ksafe F p (kbind (resched_cntl DEFER_STOP s2) (\<lambda>s3 _. Ret s3 OK))" by (rule ksafe_bind) simp
    then show ?thesis
      using False u 1(1) defer_start [OF kinv_nd [OF k(1)]] by (simp add: signaln_def)
  next
    case 2
    then show ?thesis
      using False u defer_start [OF kinv_nd [OF k(1)]] by (simp add: signaln_def)
  qed
qed

section \<open>Releasing all waiting processes\<close>

lemma kgood_cur_ne:
  assumes "kgood F E (Some p) X d s" "prstate (proctab s w) \<noteq> PR_CURR" "0 \<le> w" "w < NPROC"
  shows "w \<noteq> p"
  using curpD [OF assms(1), of w] assms(2-4) by auto

lemma release_deferred:
  assumes g: "kgood F {} (Some p) X True s" and i: "\<not> isbadsem i" "i \<in> X" and nd: "ndefers s > 0"
    and w: "kq s (squeue (semtab s i)) = w # ws"
  obtains s1 s' where "getfirst (squeue (semtab s i)) s = (s1, w)" and "ready w s1 = Ret s' OK"
    and "kgood F {} (Some p) X True s'" and "ndefers s' = ndefers s" "currpid s' = currpid s" "semtab s' = semtab s"
    and "kq s' (squeue (semtab s i)) = ws" and "0 \<le> w"
proof -
  obtain t' where t': "getfirst (squeue (semtab s i)) s = (s\<lparr>queuetab := t'\<rparr>, w)"
    "kgood F (Set.insert w {}) (Some p) X True (s\<lparr>queuetab := t'\<rparr>)"
    "qupdated (nextqid s) (queuetab s) t' (squeue (semtab s i)) ws"
    by (rule sem_getfirst [OF g i w])
  note q = kgood_sem [OF g i(1)]
  have w0: "0 \<le> w" "w < NPROC" "home s w = Some (squeue (semtab s i))"
    using kgood_in_queue [OF g q(1), of w] w by simp_all
  have st: "prstate (proctab s w) = PR_WAIT"
    using w0(3) q(2,3) by (auto simp: home_def split: pstate.splits)
  let ?s = "s\<lparr>queuetab := t'\<rparr>"
  have b: "\<not> isbadpid ?s w" and ne: "w \<noteq> p" and n: "ndefers ?s > 0"
    using w0 st nd kgood_cur_ne [OF g] by (simp_all add: isbadpid_def)
  show thesis
  proof (rule ready_deferred [OF t'(2) insertI1 ne b n])
    fix s'
    assume *: "ready w ?s = Ret s' OK" "kgood F ({w} - {w}) (Some p) X True s'"
      "ndefers s' = ndefers ?s" "currpid s' = currpid ?s" "semtab s' = semtab ?s"
      "\<And>q. q \<in> qids (nextqid ?s) \<Longrightarrow> q \<noteq> readylist ?s \<Longrightarrow> kq s' q = kq ?s q"
    then show thesis
      using t' q w0 by (intro that [of ?s s']) (simp_all add: qupdated_def)
  qed
qed

lemma semreset_loop_deferred:
  "kgood F {} (Some p) X True s \<Longrightarrow> ndefers s = 1 \<Longrightarrow> \<not> isbadsem i \<Longrightarrow> i \<in> X
   \<Longrightarrow> length (kq s (squeue (semtab s i))) < n
   \<Longrightarrow> \<exists>s'. semreset_loop n (squeue (semtab s i)) s = Ret s' () \<and> kgood F {} (Some p) X True s' \<and> ndefers s' = 1
     \<and> currpid s' = currpid s \<and> semtab s' = semtab s \<and> kq s' (squeue (semtab s i)) = []"
proof (induction n arbitrary: s)
  case 0
  then show ?case by simp
next
  case (Suc n)
  let ?q = "squeue (semtab s i)"
  show ?case
  proof (cases "kq s ?q")
    case Nil
    then have "getfirst ?q s = (s, EMPTY)"
      using getfirst_empty [OF kgoodD(6) [OF Suc.prems(1)] kgood_sem(1) [OF Suc.prems(1,3)]] by simp
    then show ?thesis using Suc.prems Nil by simp
  next
    case (Cons w ws)
    obtain s1 s2 where s2: "getfirst ?q s = (s1, w)" "ready w s1 = Ret s2 OK"
      "kgood F {} (Some p) X True s2" "ndefers s2 = ndefers s" "currpid s2 = currpid s" "semtab s2 = semtab s"
      "kq s2 ?q = ws" "0 \<le> w"
      by (rule release_deferred [OF Suc.prems(1,3,4) _ Cons]) (use Suc.prems(2) in simp_all)
    have "\<exists>s'. semreset_loop n (squeue (semtab s2 i)) s2 = Ret s' () \<and> kgood F {} (Some p) X True s' \<and> ndefers s' = 1
     \<and> currpid s' = currpid s2 \<and> semtab s' = semtab s2 \<and> kq s' (squeue (semtab s2 i)) = []"
      using Suc.prems s2 Cons by (intro Suc.IH) simp_all
    then show ?thesis using s2 by auto
  qed
qed

lemma semreset_safe:
  assumes m: "mine F p s" and c: "count \<le> INT32_MAX"
  shows "ksafe F p (semreset sem count s)"
proof (cases "count < 0 \<or> isbadsem sem \<or> sstate (semtab s sem) = S_FREE")
  case True
  then show ?thesis using m by (auto simp: semreset_def)
next
  case False
  then have u: "sstate (semtab s sem) = S_USED" by (cases "sstate (semtab s sem)") simp_all
  have k: "kinv F s" "currpid s = p" using m by (simp_all add: mine_def)
  let ?s1 = "s\<lparr>ndefers := 1, attempt := False\<rparr>"
  have g1: "kgood F {} (Some p) {sem} True ?s1"
    using kinv_kgood [OF k(1)] k(2) by (auto intro: kgood_weaken kgood_defer)
  then obtain s2 where s2: "semreset_loop 101 (squeue (semtab s sem)) ?s1 = Ret s2 ()" "kgood F {} (Some p) {sem} True s2"
    "ndefers s2 = 1" "currpid s2 = p" "semtab s2 = semtab s" "kq s2 (squeue (semtab s sem)) = []"
    using semreset_loop_deferred [OF g1, of sem 101] False k(2) length_waiting [OF g1, of sem] by auto
  let ?s3 = "upd_sem sem (\<lambda>e. e\<lparr>scount := count\<rparr>) s2"
  have "kgood F {} (Some p) (Set.insert sem {sem}) True ?s3" by (rule kgood_sem_upd [OF s2(2)]) simp
  then have "kgood F {} (Some p) (Set.insert sem {sem} - {sem}) True ?s3"
    by (rule kgood_sem_ok) (use s2 False u c in simp)
  then have "ksafe F p (resched_cntl DEFER_STOP ?s3)" using s2 by (intro defer_stop_safe) simp_all
  then have "ksafe F p (kbind (resched_cntl DEFER_STOP ?s3) (\<lambda>s3 _. Ret s3 OK))" by (rule ksafe_bind) simp
  then show ?thesis
    using False u s2(1) defer_start [OF kinv_nd [OF k(1)]] by (simp add: semreset_def)
qed

lemma semdelete_loop_deferred:
  "kgood F {} (Some p) {i} True s \<Longrightarrow> ndefers s = 1 \<Longrightarrow> \<not> isbadsem i
   \<Longrightarrow> (if scount (semtab s i) < 0 then int (length (kq s (squeue (semtab s i)))) = - scount (semtab s i)
        else kq s (squeue (semtab s i)) = [])
   \<Longrightarrow> nat (- scount (semtab s i)) < n
   \<Longrightarrow> \<exists>s'. semdelete_loop n i s = Ret s' () \<and> kgood F {} (Some p) {i} True s' \<and> ndefers s' = 1
     \<and> currpid s' = currpid s \<and> sstate (semtab s' i) = sstate (semtab s i) \<and> kq s' (squeue (semtab s i)) = []
     \<and> squeue (semtab s' i) = squeue (semtab s i)"
proof (induction n arbitrary: s)
  case 0
  then show ?case by simp
next
  case (Suc n)
  let ?q = "squeue (semtab s i)" and ?c = "scount (semtab s i)"
  let ?s1 = "upd_sem i (\<lambda>e. e\<lparr>scount := i32 (scount e + 1)\<rparr>) s"
  have g1: "kgood F {} (Some p) {i} True ?s1"
    using kgood_sem_upd [OF Suc.prems(1), of "\<lambda>e. e\<lparr>scount := i32 (scount e + 1)\<rparr>" i] by simp
  show ?case
  proof (cases "?c < 0")
    case False
    then show ?thesis using Suc.prems g1 by (simp add: count_up_def)
  next
    case True
    have len: "int (length (kq s ?q)) = - ?c" using Suc.prems(4) True by simp
    then have lo: "- 100 \<le> ?c" using length_waiting [OF Suc.prems(1,3)] by linarith
    from len True obtain w ws where w: "kq s ?q = w # ws" by (cases "kq s ?q") auto
    obtain s2 s3 where s3: "getfirst (squeue (semtab ?s1 i)) ?s1 = (s2, w)" "ready w s2 = Ret s3 OK"
      "kgood F {} (Some p) {i} True s3" "ndefers s3 = ndefers ?s1" "currpid s3 = currpid ?s1" "semtab s3 = semtab ?s1"
      "kq s3 (squeue (semtab ?s1 i)) = ws" "0 \<le> w"
      by (rule release_deferred [OF g1 Suc.prems(3), of w ws]) (use Suc.prems(2) w in simp_all)
    have "\<exists>s'. semdelete_loop n i s3 = Ret s' () \<and> kgood F {} (Some p) {i} True s' \<and> ndefers s' = 1
     \<and> currpid s' = currpid s3 \<and> sstate (semtab s' i) = sstate (semtab s3 i) \<and> kq s' (squeue (semtab s3 i)) = []
     \<and> squeue (semtab s' i) = squeue (semtab s3 i)"
      using Suc.prems s3 w len lo True by (intro Suc.IH; cases ws) auto
    then show ?thesis using s3 True by (auto simp: count_up_def)
  qed
qed

lemma semdelete_safe:
  assumes m: "mine F p s"
  shows "ksafe F p (semdelete sem s)"
proof (cases "isbadsem sem \<or> sstate (semtab s sem) = S_FREE")
  case True
  then show ?thesis using m by (auto simp: semdelete_def)
next
  case False
  then have u: "sstate (semtab s sem) = S_USED" by (cases "sstate (semtab s sem)") simp_all
  have k: "kinv F s" "currpid s = p" using m by (simp_all add: mine_def)
  note g = kinv_kgood [OF k(1), unfolded k(2)]
  let ?s1 = "upd_sem sem (\<lambda>e. e\<lparr>sstate := S_FREE\<rparr>) s"
  let ?s2 = "?s1\<lparr>ndefers := 1, attempt := False\<rparr>"
  have "kgood F {} (Some p) {sem} True ?s1" by (rule kgood_sem_upd [OF g]) simp
  then have g2: "kgood F {} (Some p) {sem} True ?s2" by (auto intro: kgood_defer)
  have "if scount (semtab ?s2 sem) < 0 then int (length (kq ?s2 (squeue (semtab ?s2 sem)))) = - scount (semtab ?s2 sem)
        else kq ?s2 (squeue (semtab ?s2 sem)) = []"
    using cnt_used(2,3) [OF g _ _ u] False by simp
  then obtain s3 where s3: "semdelete_loop (nat (- scount (semtab ?s2 sem)) + 1) sem ?s2 = Ret s3 ()"
    "kgood F {} (Some p) {sem} True s3" "ndefers s3 = 1" "currpid s3 = p" "sstate (semtab s3 sem) = S_FREE"
    "kq s3 (squeue (semtab s sem)) = []" "squeue (semtab s3 sem) = squeue (semtab s sem)"
    using semdelete_loop_deferred [OF g2, of "nat (- scount (semtab ?s2 sem)) + 1"] False k(2) by auto
  have "kgood F {} (Some p) ({sem} - {sem}) True s3"
    by (rule kgood_sem_ok [OF s3(2)]) (use s3 in simp)
  then have "ksafe F p (resched_cntl DEFER_STOP s3)" using s3 by (intro defer_stop_safe) simp_all
  then have "ksafe F p (kbind (resched_cntl DEFER_STOP s3) (\<lambda>s4 _. Ret s4 OK))" by (rule ksafe_bind) simp
  then show ?thesis
    using False u s3(1) defer_start [of ?s1] kinv_nd [OF k(1)] by (simp add: semdelete_def del: semdelete_loop.simps)
qed

section \<open>Waiting\<close>

text \<open>What \<^verbatim>\<open>wait\<close> does before it reschedules.\<close>

lemma wait_enter:
  assumes m: "mine F p s" and i: "\<not> isbadsem sem" "sstate (semtab s sem) = S_USED" and p0: "p \<noteq> NULLPROC"
  obtains (passes) "0 < scount (semtab s sem)"
      "wait sem s = Ret (upd_sem sem (\<lambda>e. e\<lparr>scount := scount e - 1\<rparr>) s) OK"
      "mine F p (upd_sem sem (\<lambda>e. e\<lparr>scount := scount e - 1\<rparr>) s)"
  | (blocks) s2 where "scount (semtab s sem) \<le> 0"
      "wait sem s = kbind (resched s2) (\<lambda>s3 _. Ret s3 OK)"
      "kgood F {} None {} True s2" "ndefers s2 = 0" "currpid s2 = p"
      "semtab s2 = (semtab s)(sem := (semtab s sem)\<lparr>scount := scount (semtab s sem) - 1\<rparr>)"
      "proctab s2 = (proctab s)(p := (proctab s p)\<lparr>prstate := PR_WAIT, prsem := sem\<rparr>)"
      "kq s2 (squeue (semtab s sem)) = kq s (squeue (semtab s sem)) @ [p]"
      "\<And>q. q \<in> qids (nextqid s) \<Longrightarrow> q \<noteq> squeue (semtab s sem) \<Longrightarrow> kq s2 q = kq s q"
      "readylist s2 = readylist s" "sleepq s2 = sleepq s" "nextqid s2 = nextqid s"
      "\<And>j. qkey (queuetab s2 j) = qkey (queuetab s j)"
proof -
  have k: "kinv F s" "currpid s = p" using m by (simp_all add: mine_def)
  note g = kinv_kgood [OF k(1), unfolded k(2)]
  have p: "0 \<le> p" "p < NPROC" using kinv_currpid [OF k(1)] k(2) by simp_all
  let ?c = "scount (semtab s sem)" and ?q = "squeue (semtab s sem)"
  let ?s1 = "upd_sem sem (\<lambda>e. e\<lparr>scount := scount e - 1\<rparr>) s"
  have lo: "- 100 \<le> ?c" and hi: "?c \<le> INT32_MAX"
    using cnt_lower [OF g i(1) _ i(2)] cnt_used(1) [OF g i(1) _ i(2)] by simp_all
  then have s1: "upd_sem sem (\<lambda>e. e\<lparr>scount := i32 (scount e - 1)\<rparr>) s = ?s1" by (simp add: upd_sem_def)
  have g1: "kgood F {} (Some p) {sem} True ?s1" by (rule kgood_sem_upd [OF g]) simp
  show thesis
  proof (cases "0 < ?c")
    case True
    then have "kq s ?q = []" using cnt_used(3) [OF g i(1) _ i(2)] by simp
    then have "kgood F {} (Some p) ({sem} - {sem}) True ?s1"
      using True i(2) hi by (intro kgood_sem_ok [OF g1]) simp
    then show thesis
      using True i s1 k kinv_nd [OF k(1)] by (intro passes) (simp_all add: wait_def mine_def kinv_def)
  next
    case False
    let ?s2 = "upd_proc p (\<lambda>e. e\<lparr>prstate := PR_WAIT, prsem := sem\<rparr>) ?s1"
    have "kgood F {p} (Some p) {sem} True ?s1"
      using kgood_take [OF g1, of p] kinv_cur [OF k(1)] k(2) by (simp add: home_def)
    then have g2: "kgood F {p} None {sem} True ?s2"
      using kgood_prio [OF g p] kinv_cur [OF k(1)] k(2) by (intro kgood_upd) auto
    have off: "offq (nextqid ?s2) (queuetab ?s2) p" by (rule kgood_off [OF g2 p]) simp
    note q = kgood_sem [OF g2 i(1)]
    obtain t' where t': "enqueue p (squeue (semtab ?s2 sem)) ?s2 = (?s2\<lparr>queuetab := t'\<rparr>, p)"
      "qupdated (nextqid ?s2) (queuetab ?s2) t' (squeue (semtab ?s2 sem)) (kq ?s2 (squeue (semtab ?s2 sem)) @ [p])"
      "\<forall>i. qkey (t' i) = qkey (queuetab ?s2 i)"
      using enqueue_spec [OF kgoodD(6) [OF g2] q(1) kgoodD(8) [OF g2] _ off] p by (auto simp: isbadpid_def)
    let ?s3 = "?s2\<lparr>queuetab := t'\<rparr>"
    have "kgood F ({p} - {p}) None {sem} True ?s3"
    proof (rule kgood_link [OF g2 p singletonI _ q(1) _ t'(2)])
      show "j \<in> {sem}" if "\<not> isbadsem j" "squeue (semtab ?s2 j) = squeue (semtab ?s2 sem)" for j
        using kgood_sem_inj [OF g2 that(1) i(1) that(2)] by simp
    qed (use t'(3) q i p0 in \<open>simp_all add: home_def entry_ok_def\<close>)
    then have g3: "kgood F {} None {sem} True ?s3" by simp
    have "kgood F {} None ({sem} - {sem}) True ?s3"
    proof (rule kgood_sem_ok [OF g3])
      have "length (qlist t' ?q) = length (kq s ?q) + 1" using t'(2) q(1) by (simp add: qupdated_def)
      then show "cnt_ok (sstate (semtab ?s3 sem)) (scount (semtab ?s3 sem)) (length (kq ?s3 (squeue (semtab ?s3 sem))))"
        using False hi i(2) cnt_used(2,3) [OF g i(1) _ i(2)] by (cases "?c < 0") auto
    qed
    then show thesis
      using False t' i s1 k kinv_nd [OF k(1)] q
      by (intro blocks [of ?s3]) (simp_all add: wait_def Let_def qupdated_def)
  qed
qed

lemma wait_safe:
  assumes m: "mine F p s" and p0: "p \<noteq> NULLPROC"
  shows "ksafe F p (wait sem s)"
proof (cases "isbadsem sem \<or> sstate (semtab s sem) = S_FREE")
  case True
  then show ?thesis using m by (auto simp: wait_def)
next
  case False
  then have u: "sstate (semtab s sem) = S_USED" by (cases "sstate (semtab s sem)") simp_all
  show ?thesis
  proof (rule wait_enter [OF m _ u p0])
    fix s2
    assume s2: "wait sem s = kbind (resched s2) (\<lambda>s3 _. Ret s3 OK)" "kgood F {} None {} True s2" "ndefers s2 = 0"
    show ?thesis unfolding s2(1) by (rule ksafe_bind [OF resched_blocked_safe [OF s2(2,3)]]) simp
  qed (use False in simp_all)
qed

end
