(* ===== verification/Clock.thy ===== *)
theory Clock
  imports Sems
begin

text \<open>
  Timed delays: \<^verbatim>\<open>sleep.c\<close>, \<^verbatim>\<open>unsleep.c\<close>, \<^verbatim>\<open>wakeup.c\<close>,
  \<^verbatim>\<open>clkhandler.c\<close>, \<^verbatim>\<open>clkinit.c\<close>. The sleep queue is a delta list; the lemmas
  relate it to the absolute delays (\<open>delays\<close>), which sleeping, waking early and the clock tick
  change one process at a time.
\<close>

section \<open>The operations\<close>

definition sleepms :: "int \<Rightarrow> kst \<Rightarrow> (kst, int) kprog" where
  "sleepms delay s =
     (if delay < 0 then Ret s SYSERR
      else if delay = 0 then kbind (yield s) (\<lambda>s1 _. Ret s1 OK)
      else case insertd (currpid s) (sleepq s) delay s of
        None \<Rightarrow> Stop Looping s
      | Some (s1, r) \<Rightarrow>
          if r = SYSERR then Ret s1 SYSERR
          else kbind (resched (set_prstate (currpid s1) PR_SLEEP s1)) (\<lambda>s2 _. Ret s2 OK))"

abbreviation (input) MAXSECONDS :: int where "MAXSECONDS \<equiv> 2147483"

definition sleep :: "int \<Rightarrow> kst \<Rightarrow> (kst, int) kprog" where
  "sleep delay s =
     (if delay < 0 \<or> delay > MAXSECONDS then Ret s SYSERR
      else kbind (sleepms (i32 (1000 * delay)) s) (\<lambda>s1 _. Ret s1 OK))"

definition unsleep :: "int \<Rightarrow> kst \<Rightarrow> kst \<times> int" where
  "unsleep pid s =
     (if isbadpid s pid then (s, SYSERR)
      else if prstate (proctab s pid) \<noteq> PR_SLEEP \<and> prstate (proctab s pid) \<noteq> PR_RECTIM then (s, SYSERR)
      else let t = queuetab s; pidnext = qnext (t pid);
               s1 = (if pidnext < NPROC
                     then s\<lparr>queuetab := set_qkey pidnext (i32 (qkey (t pidnext) + qkey (t pid))) t\<rparr> else s);
               (s2, _) = getitem pid s1
           in (s2, OK))"

primrec wakeup_loop :: "nat \<Rightarrow> kst \<Rightarrow> (kst, unit) kprog" where
  "wakeup_loop 0 s = Stop Looping s"
| "wakeup_loop (Suc n) s =
     (if nonempty s (sleepq s) \<and> firstkey s (sleepq s) \<le> 0
      then let (s1, pid) = dequeue (sleepq s) s in kbind (ready pid s1) (\<lambda>s2 _. wakeup_loop n s2)
      else Ret s ())"

definition wakeup :: "kst \<Rightarrow> (kst, unit) kprog" where
  "wakeup s =
     kbind (resched_cntl DEFER_START s) (\<lambda>s1 _.
     kbind (wakeup_loop (nat (NPROC + 1)) s1) (\<lambda>s2 _.
     kbind (resched_cntl DEFER_STOP s2) (\<lambda>s3 _. Ret s3 ())))"

text \<open>The three parts of \<^verbatim>\<open>clkhandler\<close>; \<^verbatim>\<open>count1000\<close> and \<^verbatim>\<open>preempt\<close> are unsigned.\<close>

definition clk_seconds :: "kst \<Rightarrow> kst" where
  "clk_seconds s =
     (let c = count1000 s - 1 in
      if c \<le> 0 then s\<lparr>clktime := clktime s + 1, count1000 := 1000\<rparr> else s\<lparr>count1000 := c\<rparr>)"

definition clk_sleepers :: "kst \<Rightarrow> (kst, unit) kprog" where
  "clk_sleepers s =
     (if \<not> isempty s (sleepq s) then
        (let f = firstid s (sleepq s); k = i32 (qkey (queuetab s f) - 1);
             s1 = s\<lparr>queuetab := set_qkey f k (queuetab s)\<rparr>
         in if k \<le> 0 then wakeup s1 else Ret s1 ())
      else Ret s ())"

definition clk_preempt :: "kst \<Rightarrow> (kst, unit) kprog" where
  "clk_preempt s =
     (let k = (preempt s - 1) mod 2 ^ 32 in
      if k \<le> 0 then resched (s\<lparr>preempt := QUANTUM\<rparr>) else Ret (s\<lparr>preempt := k\<rparr>) ())"

definition clkhandler :: "kst \<Rightarrow> (kst, unit) kprog" where
  "clkhandler s = kbind (clk_sleepers (clk_seconds s)) (\<lambda>s1 _. clk_preempt s1)"

text \<open>\<^verbatim>\<open>clkinit\<close>, less the interrupt vector and the two output ports of the timer chip.\<close>

definition clkinit :: "kst \<Rightarrow> kst" where
  "clkinit s = (let (s1, q) = newqueue s in s1\<lparr>sleepq := q, preempt := QUANTUM, clktime := 0\<rparr>)"

section \<open>Going to sleep\<close>

lemma kgood_insertd:
  assumes g: "kgood F {} (Some p) {} True s" and p: "p = currpid s" "p \<noteq> NULLPROC"
    and st: "st = PR_SLEEP \<or> st = PR_RECTIM \<and> \<not> prhasmsg (proctab s p)" and key: "0 \<le> key" "key \<le> INT32_MAX"
  obtains t' us vs where "insertd p (sleepq s) key s = Some (s\<lparr>queuetab := t'\<rparr>, OK)"
    and "kgood F {} None {} True (set_prstate p st (s\<lparr>queuetab := t'\<rparr>))"
    and "kq s (sleepq s) = us @ vs" "qlist t' (sleepq s) = us @ p # vs"
    and "delays t' 0 (us @ p # vs)
      = delays (queuetab s) 0 us @ (p, key) # delays (queuetab s) (ksum (queuetab s) us) vs"
    and "\<And>x d. (x, d) \<in> set (delays (queuetab s) 0 us) \<Longrightarrow> d \<le> key"
    and "vs \<noteq> [] \<Longrightarrow> key < ksum (queuetab s) us + qkey (queuetab s (hd vs))"
    and "\<And>q. q \<in> qids (nextqid s) \<Longrightarrow> q \<noteq> sleepq s \<Longrightarrow> qlist t' q = kq s q"
    and "\<And>i. i \<in> set (kq s (readylist s)) \<Longrightarrow> qkey (t' i) = qkey (queuetab s i)"
proof -
  have p0: "0 \<le> p" "p < NPROC" using kgoodD(12,13) [OF g] p(1) by simp_all
  have cur: "prstate (proctab s p) = PR_CURR" using curpD [OF g] p0 by simp
  have g1: "kgood F {p} (Some p) {} True s"
    using kgood_take [OF g, of p] cur by (simp add: home_def)
  then have g2: "kgood F {p} None {} True (set_prstate p st s)"
    using kgood_prio [OF g p0] st cur unfolding set_prstate_def by (intro kgood_upd) auto
  have off: "offq (nextqid s) (queuetab s) p" by (rule kgood_off [OF g1 p0]) simp
  have b: "\<not> isbadpid s p" using p0 cur by (simp add: isbadpid_def)
  have ok: "delta_ok (queuetab s) (kq s (sleepq s))" using kgoodD(4) [OF g] by (simp add: slp_def)
  show thesis
  proof (rule insertd_spec [OF kgoodD(6,10,8) [OF g] b off key ok])
    fix t' us vs
    assume *: "insertd p (sleepq s) key s = Some (s\<lparr>queuetab := t'\<rparr>, OK)" "kq s (sleepq s) = us @ vs"
      "qupdated (nextqid s) (queuetab s) t' (sleepq s) (us @ p # vs)"
      "\<And>i. i \<noteq> p \<Longrightarrow> i \<notin> set (kq s (sleepq s)) \<Longrightarrow> qkey (t' i) = qkey (queuetab s i)"
      "delta_ok t' (us @ p # vs)"
      "delays t' 0 (us @ p # vs)
        = delays (queuetab s) 0 us @ (p, key) # delays (queuetab s) (ksum (queuetab s) us) vs"
      "\<And>x d. (x, d) \<in> set (delays (queuetab s) 0 us) \<Longrightarrow> d \<le> key"
      "vs \<noteq> [] \<Longrightarrow> key < ksum (queuetab s) us + qkey (queuetab s (hd vs))"
    have rl: "qkey (t' i) = qkey (queuetab s i)" if "i \<in> set (kq s (readylist s))" for i
    proof (rule *(4))
      show "i \<noteq> p" using that kgood_mem [OF g1 p0 kgoodD(9) [OF g]] by auto
      show "i \<notin> set (kq s (sleepq s))"
        using that wfq_disjoint [OF kgoodD(6,9,10) [OF g], of i] kgoodD(11) [OF g] by auto
    qed
    let ?s2 = "set_prstate p st s"
    have "kgood F ({p} - {p}) None {} True (?s2\<lparr>queuetab := t'\<rparr>)"
    proof (rule kgood_link [OF g2 p0 singletonI, of "sleepq s" t' us vs])
      show "i \<in> {}" if "\<not> isbadsem i" "squeue (semtab ?s2 i) = sleepq s" for i
        using kgood_sem(3) [OF g that(1)] that(2) by simp
    qed (use * st kgoodD(9-11) [OF g] p(2) rl in \<open>auto simp: home_def entry_ok_def\<close>)
    moreover have "?s2\<lparr>queuetab := t'\<rparr> = set_prstate p st (s\<lparr>queuetab := t'\<rparr>)"
      by (simp add: set_prstate_def upd_proc_def)
    ultimately show thesis
      using * rl kgoodD(10) [OF g] by (intro that [of t' us vs]) (simp_all add: qupdated_def)
  qed
qed

lemma sleepms_safe:
  assumes m: "mine F p s" and p0: "p \<noteq> NULLPROC" and d: "delay \<le> INT32_MAX"
  shows "ksafe F p (sleepms delay s)"
proof -
  have k: "kinv F s" "currpid s = p" using m by (simp_all add: mine_def)
  note g = kinv_kgood [OF k(1), unfolded k(2)]
  consider "delay < 0" | "delay = 0" | "0 < delay" by linarith
  then show ?thesis
  proof cases
    case 2
    then show ?thesis using yield_safe [OF m] by (auto simp: sleepms_def intro!: ksafe_bind)
  next
    case 3
    obtain t' where t': "insertd p (sleepq s) delay s = Some (s\<lparr>queuetab := t'\<rparr>, OK)"
      "kgood F {} None {} True (set_prstate p PR_SLEEP (s\<lparr>queuetab := t'\<rparr>))"
      by (rule kgood_insertd [OF g _ p0, of PR_SLEEP delay]) (use 3 d k(2) in simp_all)
    have "ksafe F p (resched (set_prstate p PR_SLEEP (s\<lparr>queuetab := t'\<rparr>)))"
      using kinv_nd [OF k(1)] by (intro resched_blocked_safe [OF t'(2)]) simp
    then show ?thesis using 3 t'(1) k(2) by (simp add: sleepms_def) (rule ksafe_bind, simp_all)
  qed (use m in \<open>simp add: sleepms_def\<close>)
qed

lemma sleep_safe:
  assumes m: "mine F p s" and p0: "p \<noteq> NULLPROC"
  shows "ksafe F p (sleep delay s)"
proof (cases "delay < 0 \<or> delay > MAXSECONDS")
  case True
  then show ?thesis using m by (auto simp: sleep_def)
next
  case False
  have "ksafe F p (sleepms (i32 (1000 * delay)) s)"
    using i32_range [of "1000 * delay"] by (intro sleepms_safe [OF m p0]) simp
  then show ?thesis using False by (simp add: sleep_def) (rule ksafe_bind, simp_all)
qed

section \<open>Waking early\<close>

text \<open>
  \<^verbatim>\<open>unsleep\<close> takes one process off the delta list and leaves the absolute delay of every
  other process as it is.
\<close>

lemma delays_shift: "delays t (a + k) xs = map (\<lambda>(x, d). (x, d + k)) (delays t a xs)"
proof (induction xs arbitrary: a)
  case (Cons x xs)
  then show ?case using Cons.IH [of "a + qkey (t x)"] by (simp add: add_ac)
qed simp

lemma unsleep_spec:
  assumes g: "kgood F E cur X True s" and p: "0 \<le> pid" "pid < NPROC" "pid \<notin> E"
    and st: "prstate (proctab s pid) = PR_SLEEP \<or> prstate (proctab s pid) = PR_RECTIM"
  obtains t' where "unsleep pid s = (s\<lparr>queuetab := t'\<rparr>, OK)"
    and "kgood F (Set.insert pid E) cur X True (s\<lparr>queuetab := t'\<rparr>)"
    and "qlist t' (sleepq s) = remove1 pid (kq s (sleepq s))"
    and "delays t' 0 (remove1 pid (kq s (sleepq s)))
      = filter (\<lambda>(x, d). x \<noteq> pid) (delays (queuetab s) 0 (kq s (sleepq s)))"
    and "\<And>q. q \<in> qids (nextqid s) \<Longrightarrow> q \<noteq> sleepq s \<Longrightarrow> qlist t' q = kq s q"
    and "\<And>i. i \<in> set (kq s (readylist s)) \<Longrightarrow> qkey (t' i) = qkey (queuetab s i)"
proof -
  define t where "t = queuetab s"
  define L where "L = kq s (sleepq s)"
  note w = kgoodD(6) [OF g] and q = kgoodD(10) [OF g]
  have h: "home s pid = Some (sleepq s)" using st by (auto simp: home_def)
  then have mem: "pid \<in> set L" using kgood_mem [OF g p(1,2) q] p(3) by (simp add: L_def)
  then obtain us vs where L: "L = us @ pid # vs" by (auto simp: in_set_conv_decomp)
  have dist: "distinct L" using wfq_distinct [OF w q] by (simp add: L_def)
  have rem: "remove1 pid L = us @ vs" using dist L by (simp add: remove1_append)
  have ok: "delta_ok t L" using kgoodD(4) [OF g] by (simp add: slp_def t_def L_def)
  have chain: "dll t (sleepq s) (us @ pid # vs) (sleepq s + 1)"
    using wfq_is_queue [OF w q] L by (simp add: is_queue_def t_def L_def)
  have nxt: "qnext (t pid) = hd (vs @ [sleepq s + 1])"
    using chain dll_append [of t "sleepq s" us pid vs] dll_first by auto
  have rng: "x \<in> set L \<Longrightarrow> 0 \<le> x \<and> x < NPROC" for x using wfq_range [OF w q] by (simp add: L_def)
  define t1 where "t1 = (if vs \<noteq> [] then set_qkey (hd vs) (i32 (qkey (t (hd vs)) + qkey (t pid))) t else t)"
  define t' where "t' = unlink pid t1"
  have lt: "qnext (t pid) < NPROC \<longleftrightarrow> vs \<noteq> []"
    using nxt rng L qids_ge [OF q] by (cases vs) auto
  have hdn: "vs \<noteq> [] \<Longrightarrow> qnext (t pid) = hd vs" using nxt by (cases vs) auto
  have b: "\<not> isbadpid s pid" using p st by (auto simp: isbadpid_def)
  have un: "unsleep pid s = (s\<lparr>queuetab := t'\<rparr>, OK)"
    using b st lt hdn by (auto simp: unsleep_def getitem_eq t'_def t1_def t_def Let_def)
  have pos: "\<And>x. x \<in> set L \<Longrightarrow> 0 \<le> qkey (t x)" and sum: "ksum t L \<le> INT32_MAX"
    using ok by (simp_all add: delta_ok_def)
  have nov: "i32 (qkey (t (hd vs)) + qkey (t pid)) = qkey (t (hd vs)) + qkey (t pid)" if "vs \<noteq> []"
  proof (rule i32_id)
    have "0 \<le> ksum t us" "0 \<le> ksum t (tl vs)" using pos L that by (auto intro!: ksum_nonneg dest: list.set_sel(2) [rotated])
    moreover have "ksum t L = ksum t us + qkey (t pid) + qkey (t (hd vs)) + ksum t (tl vs)"
      using that by (cases vs) (simp_all add: L)
    ultimately show "qkey (t (hd vs)) + qkey (t pid) \<le> INT32_MAX" using sum by linarith
    have "0 \<le> qkey (t (hd vs))" "0 \<le> qkey (t pid)" using that pos L by simp_all
    then show "INT32_MIN \<le> qkey (t (hd vs)) + qkey (t pid)" by linarith
  qed
  have keys: "qkey (t' i) = (if vs \<noteq> [] \<and> i = hd vs then qkey (t i) + qkey (t pid) else qkey (t i))" for i
    using nov by (auto simp: t'_def t1_def qtab_simps)
  have ends: "x \<in> set L \<Longrightarrow> x < NPROC" for x using rng by simp
  have up: "qupdated (nextqid s) (queuetab s) t' (sleepq s) (us @ vs)"
  proof (rule wfq_unlinkI [OF w q])
    show "kq s (sleepq s) = us @ pid # vs" using L by (simp add: L_def)
    show "qkey (t' i) = qkey (queuetab s i)" if "NPROC \<le> i" for i
      using that keys [of i] L rng [of i] by (cases vs) (auto simp: t_def)
  qed (auto simp: t'_def t1_def t_def qtab_simps)
  have us_keys: "qkey (t' x) = qkey (t x)" if "x \<in> set us" for x
    using that dist L keys [of x] by (cases vs) auto
  have vs_part: "delays t' (ksum t us) vs = delays t (ksum t us + qkey (t pid)) vs
    \<and> (\<forall>x \<in> set vs. 0 \<le> qkey (t' x)) \<and> ksum t' vs \<le> qkey (t pid) + ksum t vs"
  proof (cases vs)
    case Nil
    then show ?thesis using pos L by simp
  next
    case (Cons v ws)
    have same: "qkey (t' x) = qkey (t x)" if "x \<in> set ws" for x
      using that dist L Cons keys [of x] by auto
    have "0 \<le> qkey (t v)" "0 \<le> qkey (t pid)" "\<forall>x \<in> set ws. 0 \<le> qkey (t x)" using pos L Cons by auto
    then show ?thesis
      using Cons ksum_cong [of ws t' t] delays_cong [of ws t' t] same keys [of v] by (auto simp: add_ac)
  qed
  have us_part: "delays t' 0 us = delays t 0 us" "ksum t' us = ksum t us"
    using delays_cong [of us t' t] ksum_cong [of us t' t] us_keys by simp_all
  have dok: "delta_ok t' (us @ vs)"
    using us_part vs_part us_keys pos L sum by (auto simp: delta_ok_def)
  have notin: "pid \<notin> set us" "pid \<notin> set vs" using dist L by auto
  have fil: "filter (\<lambda>(x, d). x \<noteq> pid) (delays t a xs) = delays t a xs" if "pid \<notin> set xs" for a xs
    using that by (induction xs arbitrary: a) auto
  have rl: "qkey (t' i) = qkey (queuetab s i)" if "i \<in> set (kq s (readylist s))" for i
  proof -
    have "i \<notin> set L" using that wfq_disjoint [OF w kgoodD(9) [OF g] q, of i] kgoodD(11) [OF g] by (auto simp: L_def)
    then show ?thesis using keys [of i] L by (cases vs) (auto simp: t_def)
  qed
  show thesis
  proof (rule that [OF un])
    show "qkey (t' i) = qkey (queuetab s i)" if "i \<in> set (kq s (readylist s))" for i by (rule rl [OF that])
    show "qlist t' (sleepq s) = remove1 pid (kq s (sleepq s))"
      using up q rem by (simp add: qupdated_def L_def)
    show "delays t' 0 (remove1 pid (kq s (sleepq s)))
      = filter (\<lambda>(x, d). x \<noteq> pid) (delays (queuetab s) 0 (kq s (sleepq s)))"
      unfolding L_def [symmetric] unfolding t_def [symmetric] rem using L us_part vs_part notin fil
      by (simp add: delays_append)
    show "qlist t' r = kq s r" if "r \<in> qids (nextqid s)" "r \<noteq> sleepq s" for r
      using up that by (simp add: qupdated_def)
    show "kgood F (Set.insert pid E) cur X True (s\<lparr>queuetab := t'\<rparr>)"
    proof (rule kgood_unlink [OF g p h q])
      show "qupdated (nextqid s) (queuetab s) t' (sleepq s) (remove1 pid (kq s (sleepq s)))"
        using up rem by (simp add: L_def)
      show "qkey (t' i) = qkey (queuetab s i)" if "i \<in> set (kq s (readylist s))" for i by (rule rl [OF that])
      show "True \<and> (if sleepq s = sleepq s then delta_ok t' (remove1 pid (kq s (sleepq s)))
        else \<forall>i\<in>set (kq s (sleepq s)). qkey (t' i) = qkey (queuetab s i))"
        using dok rem by (simp add: L_def)
      show "i \<in> X" if "\<not> isbadsem i" "squeue (semtab s i) = sleepq s" for i
        using kgood_sem(3) [OF g that(1)] that(2) by simp
    qed
  qed
qed

section \<open>The clock tick\<close>

text \<open>
  The sleep queue while expired processes are taken off: only its first delay may be negative.
\<close>

definition tick_ok :: "qtab \<Rightarrow> int list \<Rightarrow> bool" where
  "tick_ok t xs \<longleftrightarrow> (\<forall>x \<in> set (tl xs). 0 \<le> qkey (t x)) \<and> ksum t xs \<le> INT32_MAX \<and> ksum t (tl xs) \<le> INT32_MAX"

lemma tick_ok_cong: "(\<And>x. x \<in> set xs \<Longrightarrow> qkey (t' x) = qkey (t x)) \<Longrightarrow> tick_ok t' xs = tick_ok t xs"
  using ksum_cong [of xs t' t] ksum_cong [of "tl xs" t' t] by (cases xs) (auto simp: tick_ok_def)

lemma tick_ok_tl: "tick_ok t (x # xs) \<Longrightarrow> tick_ok t xs"
  using ksum_nonneg [of "tl xs" t] by (cases xs) (auto simp: tick_ok_def)

text \<open>The head of the sleep queue, taken off it.\<close>

lemma sleep_dequeue:
  assumes g: "kgood F {} cur X False s" and w: "kq s (sleepq s) = w # ws"
  obtains t' where "dequeue (sleepq s) s = (s\<lparr>queuetab := t'\<rparr>, w)"
    and "kgood F {w} cur X False (s\<lparr>queuetab := t'\<rparr>)"
    and "qupdated (nextqid s) (queuetab s) t' (sleepq s) ws"
    and "\<And>j. qkey (t' j) = qkey (queuetab s j)"
    and "0 \<le> w" "w < NPROC" "prstate (proctab s w) = PR_SLEEP \<or> prstate (proctab s w) = PR_RECTIM"
proof -
  note q = kgoodD(10) [OF g]
  note deq = dequeue_cons [OF kgoodD(6) [OF g] q kgoodD(8) [OF g] w]
  let ?t' = "detach w (queuetab s)"
  have w0: "0 \<le> w" "w < NPROC" "w \<notin> {}" "home s w = Some (sleepq s)"
    using kgood_in_queue [OF g q, of w] w by simp_all
  have st: "prstate (proctab s w) = PR_SLEEP \<or> prstate (proctab s w) = PR_RECTIM"
  proof -
    have "prstate (proctab s w) \<noteq> PR_WAIT"
    proof
      assume W: "prstate (proctab s w) = PR_WAIT"
      have "proc_ok F {} s w" using kgoodD(7) [OF g] w0 by (simp add: kprocs_def)
      then have "\<not> isbadsem (prsem (proctab s w))" using W by (simp add: proc_ok_def entry_ok_def)
      then show False using kgood_sem(3) [OF g] w0(4) W by (simp add: home_def)
    qed
    then show ?thesis using w0(4) kgoodD(11) [OF g] by (auto simp: home_def split: pstate.splits)
  qed
  have "kgood F (Set.insert w {}) cur X False (s\<lparr>queuetab := ?t'\<rparr>)"
  proof (rule kgood_unlink [OF g w0 q])
    show "qupdated (nextqid s) (queuetab s) ?t' (sleepq s) (remove1 w (kq s (sleepq s)))" using deq(2) w by simp
    show "i \<in> X" if "\<not> isbadsem i" "squeue (semtab s i) = sleepq s" for i
      using kgood_sem(3) [OF g that(1)] that(2) by simp
  qed simp_all
  then show thesis using deq w0 st by (intro that [of ?t']) simp_all
qed

text \<open>
  The loop of \<^verbatim>\<open>wakeup\<close> ends, and makes ready exactly the processes at the front of the
  queue whose remaining delay is not positive.
\<close>

lemma wakeup_loop_spec:
  "kgood F {} (Some p) {} False s \<Longrightarrow> ndefers s = 1 \<Longrightarrow> currpid s = p
   \<Longrightarrow> tick_ok (queuetab s) (kq s (sleepq s)) \<Longrightarrow> length (kq s (sleepq s)) < n
   \<Longrightarrow> \<exists>s'. wakeup_loop n s = Ret s' () \<and> kgood F {} (Some p) {} True s' \<and> ndefers s' = 1 \<and> currpid s' = p
     \<and> sleepq s' = sleepq s \<and> semtab s' = semtab s
     \<and> kq s' (sleepq s) = dropWhile (\<lambda>x. qkey (queuetab s x) \<le> 0) (kq s (sleepq s))
     \<and> (\<forall>x \<in> set (kq s' (sleepq s)). qkey (queuetab s' x) = qkey (queuetab s x))
     \<and> (\<forall>x. proctab s' x = (if x \<in> set (takeWhile (\<lambda>x. qkey (queuetab s x) \<le> 0) (kq s (sleepq s)))
          then (proctab s x)\<lparr>prstate := PR_READY\<rparr> else proctab s x))"
proof (induction n arbitrary: s)
  case 0
  then show ?case by simp
next
  case (Suc n)
  note g = Suc.prems(1)
  note q = kgoodD(10) [OF g] and wf = kgoodD(6) [OF g]
  let ?L = "kq s (sleepq s)"
  show ?case
  proof (cases "?L \<noteq> [] \<and> qkey (queuetab s (hd ?L)) \<le> 0")
    case False
    have "slp s"
    proof (cases ?L)
      case Nil
      then show ?thesis by (simp add: slp_def delta_ok_def)
    next
      case (Cons x xs)
      then show ?thesis using False Suc.prems(4) by (auto simp: slp_def delta_ok_def tick_ok_def)
    qed
    then have "kgood F {} (Some p) {} True s" using g by (simp add: kgood_def)
    moreover have "wakeup_loop (Suc n) s = Ret s ()"
      using False nonempty_iff [OF wf q] firstid_hd [OF wf q] by (cases ?L) (auto simp: firstkey_def)
    moreover have "dropWhile (\<lambda>x. qkey (queuetab s x) \<le> 0) ?L = ?L" "takeWhile (\<lambda>x. qkey (queuetab s x) \<le> 0) ?L = []"
      using False by (cases ?L; simp)+
    ultimately show ?thesis using Suc.prems by simp
  next
    case True
    then obtain w ws where L: "?L = w # ws" "qkey (queuetab s w) \<le> 0" by (cases ?L) auto
    obtain t' where t': "dequeue (sleepq s) s = (s\<lparr>queuetab := t'\<rparr>, w)"
      "kgood F {w} (Some p) {} False (s\<lparr>queuetab := t'\<rparr>)"
      "qupdated (nextqid s) (queuetab s) t' (sleepq s) ws" "\<And>j. qkey (t' j) = qkey (queuetab s j)"
      "0 \<le> w" "w < NPROC" "prstate (proctab s w) = PR_SLEEP \<or> prstate (proctab s w) = PR_RECTIM"
      by (rule sleep_dequeue [OF g L(1)]) (rule that)
    let ?s1 = "s\<lparr>queuetab := t'\<rparr>"
    have b: "\<not> isbadpid ?s1 w" and ne: "w \<noteq> p" and nd: "ndefers ?s1 > 0"
      using t'(5-7) Suc.prems(2) kgood_cur_ne [OF g, of w] by (auto simp: isbadpid_def)
    obtain s2 where s2: "ready w ?s1 = Ret s2 OK" "kgood F ({w} - {w}) (Some p) {} False s2"
      "ndefers s2 = ndefers ?s1" "currpid s2 = currpid ?s1" "semtab s2 = semtab ?s1" "sleepq s2 = sleepq ?s1"
      "nextqid s2 = nextqid ?s1" "proctab s2 = (proctab ?s1)(w := (proctab ?s1 w)\<lparr>prstate := PR_READY\<rparr>)"
      "\<And>q. q \<in> qids (nextqid ?s1) \<Longrightarrow> q \<noteq> readylist ?s1 \<Longrightarrow> kq s2 q = kq ?s1 q"
      "\<And>i. i \<noteq> w \<Longrightarrow> qkey (queuetab s2 i) = qkey (queuetab ?s1 i)"
      by (rule ready_deferred [OF t'(2) singletonI ne b nd]) (rule that)
    have ws: "kq s2 (sleepq s) = ws" using s2(9) t'(3) q kgoodD(11) [OF g] by (simp add: qupdated_def)
    have wd: "w \<notin> set ws" using wfq_distinct [OF wf q] L(1) by simp
    have keys: "qkey (queuetab s2 x) = qkey (queuetab s x)" if "x \<noteq> w" for x using s2(10) [OF that] t'(4) by simp
    have kw: "\<And>x. x \<in> set ws \<Longrightarrow> qkey (queuetab s2 x) = qkey (queuetab s x)"
      using wd keys by metis
    have dw: "dropWhile (\<lambda>x. qkey (queuetab s2 x) \<le> 0) ws = dropWhile (\<lambda>x. qkey (queuetab s x) \<le> 0) ws"
      "takeWhile (\<lambda>x. qkey (queuetab s2 x) \<le> 0) ws = takeWhile (\<lambda>x. qkey (queuetab s x) \<le> 0) ws"
    proof -
      show "dropWhile (\<lambda>x. qkey (queuetab s2 x) \<le> 0) ws = dropWhile (\<lambda>x. qkey (queuetab s x) \<le> 0) ws"
        "takeWhile (\<lambda>x. qkey (queuetab s2 x) \<le> 0) ws = takeWhile (\<lambda>x. qkey (queuetab s x) \<le> 0) ws"
        using kw by (simp_all cong: dropWhile_cong takeWhile_cong)
    qed
    have step: "wakeup_loop (Suc n) s = wakeup_loop n s2"
      using True L nonempty_iff [OF wf q] firstid_hd [OF wf q] t'(1) s2(1) by (simp add: firstkey_def)
    have IH: "\<exists>s'. wakeup_loop n s2 = Ret s' () \<and> kgood F {} (Some p) {} True s' \<and> ndefers s' = 1 \<and> currpid s' = p
     \<and> sleepq s' = sleepq s2 \<and> semtab s' = semtab s2
     \<and> kq s' (sleepq s2) = dropWhile (\<lambda>x. qkey (queuetab s2 x) \<le> 0) (kq s2 (sleepq s2))
     \<and> (\<forall>x \<in> set (kq s' (sleepq s2)). qkey (queuetab s' x) = qkey (queuetab s2 x))
     \<and> (\<forall>x. proctab s' x = (if x \<in> set (takeWhile (\<lambda>x. qkey (queuetab s2 x) \<le> 0) (kq s2 (sleepq s2)))
          then (proctab s2 x)\<lparr>prstate := PR_READY\<rparr> else proctab s2 x))"
    proof (rule Suc.IH)
      show "kgood F {} (Some p) {} False s2" using s2(2) by simp
      have "tick_ok (queuetab s2) ws = tick_ok (queuetab s) ws" using kw by (rule tick_ok_cong)
      then show "tick_ok (queuetab s2) (kq s2 (sleepq s2))"
        using Suc.prems(4) L(1) ws s2(6) tick_ok_tl [of "queuetab s" w ws] by simp
    qed (use Suc.prems s2 ws L in simp_all)
    have e: "sleepq s2 = sleepq s" "semtab s2 = semtab s" using s2(5,6) by simp_all
    obtain s' where s': "wakeup_loop n s2 = Ret s' ()" "kgood F {} (Some p) {} True s'" "ndefers s' = 1" "currpid s' = p"
      "sleepq s' = sleepq s" "semtab s' = semtab s"
      "kq s' (sleepq s) = dropWhile (\<lambda>x. qkey (queuetab s x) \<le> 0) ws"
      "\<forall>x \<in> set (kq s' (sleepq s)). qkey (queuetab s' x) = qkey (queuetab s2 x)"
      "\<forall>x. proctab s' x = (if x \<in> set (takeWhile (\<lambda>x. qkey (queuetab s x) \<le> 0) ws)
          then (proctab s2 x)\<lparr>prstate := PR_READY\<rparr> else proctab s2 x)"
      using IH [unfolded e ws dw] by (elim exE conjE) (rule that)
    have "w \<notin> set (kq s' (sleepq s))" using s'(7) wd set_dropWhileD by metis
    then have "\<forall>x \<in> set (kq s' (sleepq s)). qkey (queuetab s' x) = qkey (queuetab s x)"
      using s'(8) keys by metis
    moreover have "\<forall>x. proctab s' x = (if x \<in> set (takeWhile (\<lambda>x. qkey (queuetab s x) \<le> 0) ?L)
          then (proctab s x)\<lparr>prstate := PR_READY\<rparr> else proctab s x)"
      using s'(9) s2(8) L wd set_takeWhileD by fastforce
    ultimately show ?thesis using step s' L by simp
  qed
qed

lemma kgood_cur_frame:
  assumes "mine F p s" and "proctab s' = proctab s" "queuetab s' = queuetab s" "semtab s' = semtab s"
    "readylist s' = readylist s" "sleepq s' = sleepq s" "nextqid s' = nextqid s" "currpid s' = currpid s"
    "ndefers s' = ndefers s"
  shows "mine F p s'"
proof -
  have k: "kinv F s" "currpid s = p" using assms(1) by (simp_all add: mine_def)
  have "kgood F {} (Some p) {} True s'"
    using assms(2-) kinv_currpid [OF k(1)] kinv_nd [OF k(1)] kinv_kgood [OF k(1)] k(2)
    by (intro kgood_frame [of F "{}" "Some p" "{}" True s s']) simp_all
  then show ?thesis using assms(7-) k kinv_nd [OF k(1)] by (simp add: mine_def kinv_def)
qed

lemma wakeup_safe:
  assumes "kgood F {} (Some p) {} False s" "currpid s = p" "ndefers s = 0" "tick_ok (queuetab s) (kq s (sleepq s))"
  shows "ksafe F p (wakeup s)"
proof -
  let ?s1 = "s\<lparr>ndefers := 1, attempt := False\<rparr>"
  have g1: "kgood F {} (Some p) {} False ?s1" by (rule kgood_defer(2) [OF assms(1)]) simp
  have "length (kq s (sleepq s)) \<le> 100"
  proof (rule length_pids)
    note w = kgoodD(6) [OF assms(1)] and q = kgoodD(10) [OF assms(1)]
    show "distinct (kq s (sleepq s))" by (rule wfq_distinct [OF w q])
    show "set (kq s (sleepq s)) \<subseteq> {0..<NPROC}" using wfq_range [OF w q] by auto
  qed
  then obtain s2 where s2: "wakeup_loop 101 ?s1 = Ret s2 ()" "kgood F {} (Some p) {} True s2" "ndefers s2 = 1" "currpid s2 = p"
    using wakeup_loop_spec [OF g1, of 101] assms(2,4) by auto
  have "ksafe F p (resched_cntl DEFER_STOP s2)" by (rule defer_stop_safe [OF s2(2-4)])
  then have "ksafe F p (kbind (resched_cntl DEFER_STOP s2) (\<lambda>s3 _. Ret s3 ()))" by (rule ksafe_bind) simp
  then show ?thesis using s2(1) defer_start [OF assms(3)] by (simp add: wakeup_def del: wakeup_loop.simps)
qed

lemma clk_seconds_mine: "mine F p s \<Longrightarrow> mine F p (clk_seconds s)"
  by (erule kgood_cur_frame) (simp_all add: clk_seconds_def Let_def)

lemma clk_preempt_safe:
  assumes "mine F p s"
  shows "ksafe F p (clk_preempt s)"
proof -
  have "mine F p (s\<lparr>preempt := k\<rparr>)" for k using assms by (rule kgood_cur_frame) simp_all
  then show ?thesis using resched_safe by (auto simp: clk_preempt_def Let_def)
qed

text \<open>The tick takes one from every absolute delay.\<close>

lemma tick_head:
  assumes g: "kgood F E cur X True s" and L: "kq s (sleepq s) = x # xs"
  defines "t' \<equiv> set_qkey x (qkey (queuetab s x) - 1) (queuetab s)"
  shows "firstid s (sleepq s) = x" "i32 (qkey (queuetab s x) - 1) = qkey (queuetab s x) - 1"
    and "kgood F E cur X False (s\<lparr>queuetab := t'\<rparr>)" "qlist t' (sleepq s) = x # xs"
    and "tick_ok t' (x # xs)" "1 \<le> qkey (queuetab s x) \<Longrightarrow> delta_ok t' (x # xs)"
    and "\<And>r. r \<in> qids (nextqid s) \<Longrightarrow> qlist t' r = kq s r"
    and "delays t' 0 (x # xs) = map (\<lambda>(y, d). (y, d - 1)) (delays (queuetab s) 0 (x # xs))"
proof -
  note w = kgoodD(6) [OF g] and q = kgoodD(10) [OF g]
  have ok: "delta_ok (queuetab s) (x # xs)" using kgoodD(4) [OF g] L by (simp add: slp_def)
  have x: "0 \<le> x" "x < NPROC" using wfq_range [OF w q, of x] L by simp_all
  have dist: "distinct (x # xs)" using wfq_distinct [OF w q] L by simp
  show "firstid s (sleepq s) = x" using firstid_hd [OF w q] L by simp
  have x0: "0 \<le> qkey (queuetab s x)" and sum: "qkey (queuetab s x) + ksum (queuetab s) xs \<le> INT32_MAX"
    and xs0: "\<forall>y \<in> set xs. 0 \<le> qkey (queuetab s y)" using ok by (simp_all add: delta_ok_def)
  then have xsum: "0 \<le> ksum (queuetab s) xs" by (simp add: ksum_nonneg)
  show "i32 (qkey (queuetab s x) - 1) = qkey (queuetab s x) - 1" using x0 sum xsum by (intro i32_id) linarith+
  have keys: "qkey (t' i) = (if i = x then qkey (queuetab s x) - 1 else qkey (queuetab s i))" for i
    by (simp add: t'_def qtab_simps)
  have kx: "\<And>y. y \<in> set xs \<Longrightarrow> qkey (t' y) = qkey (queuetab s y)" using dist keys by auto
  have same: "is_queue t' r ys = is_queue (queuetab s) r ys" if "NPROC \<le> r" for r ys
    using that x(2) by (intro is_queue_cong) (auto simp: t'_def qtab_simps)
  have wf: "wfq (nextqid s) t' \<and> (\<forall>r \<in> qids (nextqid s). qlist t' r = kq s r)"
  proof (rule wfqI)
    show "is_queue t' r (kq s r)" if "r \<in> qids (nextqid s)" for r
      using same [OF qids_ge [OF that]] wfq_is_queue [OF w that] by simp
    show "set (kq s r) \<inter> set (kq s r') = {}" if "r \<in> qids (nextqid s)" "r' \<in> qids (nextqid s)" "r \<noteq> r'" for r r'
      using wfq_disjoint [OF w that(1,2)] that(3) by auto
  qed
  then show "qlist t' (sleepq s) = x # xs" using q L by simp
  show "qlist t' r = kq s r" if "r \<in> qids (nextqid s)" for r using wf that by simp
  show "tick_ok t' (x # xs)"
    using ksum_cong [of xs t' "queuetab s"] kx sum xs0 x0 by (simp add: tick_ok_def keys)
  show "delta_ok t' (x # xs)" if "1 \<le> qkey (queuetab s x)"
    using ksum_cong [of xs t' "queuetab s"] kx sum xs0 that by (simp add: delta_ok_def keys)
  have "delays t' (qkey (queuetab s x) - 1) xs = delays (queuetab s) (qkey (queuetab s x) + (- 1)) xs"
    using delays_cong [of xs t' "queuetab s"] kx by simp
  then have "delays t' (qkey (queuetab s x) - 1) xs
      = map (\<lambda>(y, d). (y, d - 1)) (delays (queuetab s) (qkey (queuetab s x)) xs)"
    by (simp only: delays_shift [of _ _ "- 1"]) simp
  then show "delays t' 0 (x # xs) = map (\<lambda>(y, d). (y, d - 1)) (delays (queuetab s) 0 (x # xs))"
    by (simp add: keys)
  have rl: "qkey (t' i) = qkey (queuetab s i)" if "i \<in> set (kq s (readylist s))" for i
  proof -
    have "i \<noteq> x" using that L wfq_disjoint [OF w kgoodD(9) [OF g] q, of i] kgoodD(11) [OF g] by auto
    then show ?thesis by (simp add: keys)
  qed
  have home: "home (s\<lparr>queuetab := t'\<rparr>) r = home s r" for r by (intro home_cong) simp_all
  have "keys_desc t' (kq s (readylist s)) = keys_desc (queuetab s) (kq s (readylist s))"
    using rl by (rule keys_desc_cong)
  then have "kbase F E (s\<lparr>queuetab := t'\<rparr>)"
    using kgoodD(1,9) [OF g] wf by (simp add: kbase_def kprocs_def proc_ok_def home kstatic_def)
  moreover have "semcnt X (s\<lparr>queuetab := t'\<rparr>)"
    using kgoodD(3) [OF g] wf kgood_sem(1) [OF g] by (auto simp: semcnt_def isbadsem_def)
  ultimately show "kgood F E cur X False (s\<lparr>queuetab := t'\<rparr>)"
    using kgoodD(2) [OF g] by (simp add: kgood_def curp_def)
qed

lemma clk_sleepers_safe:
  assumes m: "mine F p s"
  shows "ksafe F p (clk_sleepers s)"
proof -
  have k: "kinv F s" "currpid s = p" using m by (simp_all add: mine_def)
  note g = kinv_kgood [OF k(1), unfolded k(2)]
  note emp = isempty_iff [OF kgoodD(6,10) [OF g]]
  show ?thesis
  proof (cases "kq s (sleepq s)")
    case Nil
    then show ?thesis using m emp by (simp add: clk_sleepers_def)
  next
    case (Cons x xs)
    let ?t' = "set_qkey x (qkey (queuetab s x) - 1) (queuetab s)"
    note th = tick_head [OF g Cons]
    have eq: "clk_sleepers s = (if qkey (queuetab s x) - 1 \<le> 0 then wakeup (s\<lparr>queuetab := ?t'\<rparr>)
        else Ret (s\<lparr>queuetab := ?t'\<rparr>) ())"
      using emp Cons th(1,2) by (simp add: clk_sleepers_def Let_def)
    show ?thesis
    proof (cases "qkey (queuetab s x) - 1 \<le> 0")
      case True
      have "ksafe F p (wakeup (s\<lparr>queuetab := ?t'\<rparr>))"
        using k kinv_nd [OF k(1)] th(4,5) by (intro wakeup_safe [OF th(3)]) simp_all
      then show ?thesis using eq True by simp
    next
      case False
      have "slp (s\<lparr>queuetab := ?t'\<rparr>)" using th(4,6) False by (simp add: slp_def)
      then have "kgood F {} (Some p) {} True (s\<lparr>queuetab := ?t'\<rparr>)" using th(3) by (simp add: kgood_def)
      then show ?thesis using eq False k kinv_nd [OF k(1)] by (simp add: mine_def kinv_def)
    qed
  qed
qed

lemma clkhandler_safe: "mine F p s \<Longrightarrow> ksafe F p (clkhandler s)"
  unfolding clkhandler_def
  by (rule ksafe_bind [OF clk_sleepers_safe [OF clk_seconds_mine] clk_preempt_safe])

end
