(* ===== verification/Msgs.thy ===== *)
theory Msgs
  imports Clock
begin

text \<open>
  One-word messages between processes: \<^verbatim>\<open>send.c\<close>, \<^verbatim>\<open>receive.c\<close>,
  \<^verbatim>\<open>recvclr.c\<close>, \<^verbatim>\<open>recvtime.c\<close>. A C function of type \<^verbatim>\<open>umsg32\<close>
  returns its negative codes as words.
\<close>

section \<open>The operations\<close>

definition send :: "int \<Rightarrow> u32 \<Rightarrow> kst \<Rightarrow> (kst, int) kprog" where
  "send pid msg s =
     (if isbadpid s pid then Ret s SYSERR
      else if prhasmsg (proctab s pid) then Ret s SYSERR
      else let s1 = upd_proc pid (\<lambda>e. e\<lparr>prmsg := msg, prhasmsg := True\<rparr>) s in
        if prstate (proctab s1 pid) = PR_RECV then kbind (ready pid s1) (\<lambda>s2 _. Ret s2 OK)
        else if prstate (proctab s1 pid) = PR_RECTIM then
          (let (s2, _) = unsleep pid s1 in kbind (ready pid s2) (\<lambda>s3 _. Ret s3 OK))
        else Ret s1 OK)"

text \<open>The code after the switch in \<^verbatim>\<open>receive\<close>, with the caller's table entry.\<close>

definition take_msg :: "int \<Rightarrow> kst \<Rightarrow> (kst, u32) kprog" where
  "take_msg p s = Ret (upd_proc p (\<lambda>e. e\<lparr>prhasmsg := False\<rparr>) s) (prmsg (proctab s p))"

definition receive :: "kst \<Rightarrow> (kst, u32) kprog" where
  "receive s =
     (let p = currpid s in
      if \<not> prhasmsg (proctab s p)
      then kbind (resched (set_prstate p PR_RECV s)) (\<lambda>s1 _. take_msg p s1)
      else take_msg p s)"

definition recvclr :: "kst \<Rightarrow> kst \<times> u32" where
  "recvclr s =
     (let p = currpid s in
      if prhasmsg (proctab s p)
      then (upd_proc p (\<lambda>e. e\<lparr>prhasmsg := False\<rparr>) s, prmsg (proctab s p))
      else (s, word_of_int OK))"

definition take_msg_or_timeout :: "int \<Rightarrow> kst \<Rightarrow> (kst, u32) kprog" where
  "take_msg_or_timeout p s =
     (if prhasmsg (proctab s p) then take_msg p s else Ret s (word_of_int TIMEOUT))"

definition recvtime :: "int \<Rightarrow> kst \<Rightarrow> (kst, u32) kprog" where
  "recvtime maxwait s =
     (if maxwait < 0 then Ret s (word_of_int SYSERR)
      else let p = currpid s in
        if \<not> prhasmsg (proctab s p) then
          (case insertd p (sleepq s) maxwait s of
             None \<Rightarrow> Stop Looping s
           | Some (s1, r) \<Rightarrow>
               if r = SYSERR then Ret s1 (word_of_int SYSERR)
               else kbind (resched (set_prstate p PR_RECTIM s1)) (\<lambda>s2 _. take_msg_or_timeout p s2))
        else take_msg_or_timeout p s)"

section \<open>Invariance\<close>

lemma take_msg_safe:
  assumes m: "mine F p s"
  shows "ksafe F p (take_msg p s)"
proof -
  have k: "kinv F s" "currpid s = p" using m by (simp_all add: mine_def)
  have p: "0 \<le> p" "p < NPROC" using kinv_currpid [OF k(1)] k(2) by simp_all
  have "kgood F {} (Some p) {} True (upd_proc p (\<lambda>e. e\<lparr>prhasmsg := False\<rparr>) s)"
    using kinv_kgood [OF k(1), unfolded k(2)] kgood_prio [OF kinv_kgood [OF k(1)] p]
    by (intro kgood_upd_same) (auto simp: entry_ok_def)
  then show ?thesis using k kinv_nd [OF k(1)] by (simp add: take_msg_def mine_def kinv_def)
qed

lemma take_msg_or_timeout_safe: "mine F p s \<Longrightarrow> ksafe F p (take_msg_or_timeout p s)"
  by (simp add: take_msg_or_timeout_def take_msg_safe)

lemma recvclr_mine: "mine F p s \<Longrightarrow> mine F p (fst (recvclr s))"
  using take_msg_safe [of F p s] by (auto simp: recvclr_def take_msg_def Let_def mine_def)

lemma receive_safe:
  assumes m: "mine F p s" and p0: "p \<noteq> NULLPROC"
  shows "ksafe F p (receive s)"
proof (cases "prhasmsg (proctab s p)")
  case True
  then show ?thesis using m take_msg_safe [OF m] by (simp add: receive_def mine_def Let_def)
next
  case False
  have k: "kinv F s" "currpid s = p" using m by (simp_all add: mine_def)
  note g = kinv_kgood [OF k(1), unfolded k(2)]
  have p: "0 \<le> p" "p < NPROC" using kinv_currpid [OF k(1)] k(2) by simp_all
  have "kgood F {p} (Some p) {} True s"
    using kgood_take [OF g, of p] kinv_cur [OF k(1)] k(2) by (simp add: home_def)
  then have "kgood F {p} None {} True (set_prstate p PR_RECV s)"
    using kgood_prio [OF g p] kinv_cur [OF k(1)] k(2) unfolding set_prstate_def by (intro kgood_upd) auto
  then have "kgood F ({p} - {p}) None {} True (set_prstate p PR_RECV s)"
    by (rule kgood_drop) (use False p0 in \<open>simp_all add: home_def entry_ok_def\<close>)
  then have "ksafe F p (resched (set_prstate p PR_RECV s))"
    using kinv_nd [OF k(1)] by (intro resched_blocked_safe) simp_all
  then have "ksafe F p (kbind (resched (set_prstate p PR_RECV s)) (\<lambda>s1 _. take_msg p s1))"
    by (rule ksafe_bind) (rule take_msg_safe)
  then show ?thesis using False k(2) by (simp add: receive_def Let_def)
qed

lemma recvtime_safe:
  assumes m: "mine F p s" and p0: "p \<noteq> NULLPROC" and w: "maxwait \<le> INT32_MAX"
  shows "ksafe F p (recvtime maxwait s)"
proof -
  have k: "kinv F s" "currpid s = p" using m by (simp_all add: mine_def)
  note g = kinv_kgood [OF k(1), unfolded k(2)]
  consider "maxwait < 0" | "0 \<le> maxwait" "prhasmsg (proctab s p)" | "0 \<le> maxwait" "\<not> prhasmsg (proctab s p)"
    by linarith
  then show ?thesis
  proof cases
    case 1
    then show ?thesis using m by (simp add: recvtime_def)
  next
    case 2
    then show ?thesis using take_msg_or_timeout_safe [OF m] k(2) by (simp add: recvtime_def Let_def)
  next
    case 3
    obtain t' where t': "insertd p (sleepq s) maxwait s = Some (s\<lparr>queuetab := t'\<rparr>, OK)"
      "kgood F {} None {} True (set_prstate p PR_RECTIM (s\<lparr>queuetab := t'\<rparr>))"
      by (rule kgood_insertd [OF g _ p0, of PR_RECTIM maxwait]) (use 3 w k(2) in simp_all)
    have "ksafe F p (resched (set_prstate p PR_RECTIM (s\<lparr>queuetab := t'\<rparr>)))"
      using kinv_nd [OF k(1)] by (intro resched_blocked_safe [OF t'(2)]) simp
    then have "ksafe F p (kbind (resched (set_prstate p PR_RECTIM (s\<lparr>queuetab := t'\<rparr>))) (\<lambda>s2 _. take_msg_or_timeout p s2))"
      by (rule ksafe_bind) (rule take_msg_or_timeout_safe)
    then show ?thesis using 3 t'(1) k(2) by (simp add: recvtime_def Let_def)
  qed
qed

text \<open>\<^verbatim>\<open>unsleep\<close> does not look at the message.\<close>

lemma unsleep_upd_proc:
  assumes "prstate (f (proctab s pid)) = prstate (proctab s pid)"
  shows "unsleep q (upd_proc pid f s) = (upd_proc pid f (fst (unsleep q s)), snd (unsleep q s))"
  using assms by (simp add: unsleep_def isbadpid_def getitem_eq Let_def upd_proc_def)

lemma send_safe:
  assumes m: "mine F p s"
  shows "ksafe F p (send pid msg s)"
proof (cases "isbadpid s pid \<or> prhasmsg (proctab s pid)")
  case True
  then show ?thesis using m by (auto simp: send_def)
next
  case False
  let ?f = "\<lambda>e. e\<lparr>prmsg := msg, prhasmsg := True\<rparr>"
  let ?s1 = "upd_proc pid ?f s"
  have k: "kinv F s" "currpid s = p" using m by (simp_all add: mine_def)
  note g = kinv_kgood [OF k(1), unfolded k(2)]
  have pid: "0 \<le> pid" "pid < NPROC" and b: "\<not> isbadpid ?s1 pid" using False by (simp_all add: isbadpid_def)
  note pr = kgood_prio [OF g pid]
  have ne: "pid \<noteq> p" if "prstate (proctab s pid) \<noteq> PR_CURR" using that kgood_cur_ne [OF g] pid by simp
  consider (recv) "prstate (proctab s pid) = PR_RECV" | (rectim) "prstate (proctab s pid) = PR_RECTIM"
    | (other) "prstate (proctab s pid) \<noteq> PR_RECV" "prstate (proctab s pid) \<noteq> PR_RECTIM" by blast
  then show ?thesis
  proof cases
    case recv
    have "kgood F {pid} (Some p) {} True s" using kgood_take [OF g, of pid] recv by (simp add: home_def)
    then have g1: "kgood F {pid} (Some p) {} True ?s1"
      using pr recv ne by (intro kgood_upd) auto
    have "ksafe F p (ready pid ?s1)"
      using k kinv_nd [OF k(1)] b recv ne by (intro ready_safe [OF g1]) simp_all
    then have "ksafe F p (kbind (ready pid ?s1) (\<lambda>s2 _. Ret s2 OK))" by (rule ksafe_bind) simp
    then show ?thesis using False recv by (simp add: send_def Let_def)
  next
    case rectim
    obtain t' where t': "unsleep pid s = (s\<lparr>queuetab := t'\<rparr>, OK)"
      "kgood F (Set.insert pid {}) (Some p) {} True (s\<lparr>queuetab := t'\<rparr>)"
      by (rule unsleep_spec [OF g pid]) (use rectim in simp_all)
    let ?s2 = "upd_proc pid ?f (s\<lparr>queuetab := t'\<rparr>)"
    have u: "unsleep pid ?s1 = (?s2, OK)" using unsleep_upd_proc [of ?f s pid pid] t'(1) by simp
    have g1: "kgood F {pid} (Some p) {} True ?s2"
      using pr rectim ne by (intro kgood_upd [OF t'(2)]) auto
    have "ksafe F p (ready pid ?s2)"
      using k kinv_nd [OF k(1)] b rectim ne by (intro ready_safe [OF g1]) (simp_all add: isbadpid_def)
    then have "ksafe F p (kbind (ready pid ?s2) (\<lambda>s2 _. Ret s2 OK))" by (rule ksafe_bind) simp
    then show ?thesis using False rectim u by (simp add: send_def Let_def)
  next
    case other
    have "kgood F {} (Some p) {} True ?s1"
      using pr other by (intro kgood_upd_same [OF g]) (auto simp: entry_ok_def)
    then have "mine F p ?s1" using k kinv_nd [OF k(1)] by (simp add: mine_def kinv_def)
    then show ?thesis using False other by (simp add: send_def Let_def)
  qed
qed

end
