(* ===== verification/Memory.thy ===== *)
theory Memory
  imports Kstate
begin

text \<open>
  The heap: \<^verbatim>\<open>meminit.c\<close>, \<^verbatim>\<open>getmem.c\<close>, \<^verbatim>\<open>getstk.c\<close>,
  \<^verbatim>\<open>freemem.c\<close> and the macros of \<^verbatim>\<open>memory.h\<close>. Memory is a byte array
  indexed by 32-bit addresses; a free block holds its successor in its first word and its length
  in the second. The abstraction is the list of free blocks in address order, on which
  \<^verbatim>\<open>getmem\<close> is first-fit from the front of a block, \<^verbatim>\<open>getstk\<close> last-fit from
  the end of a block, and \<^verbatim>\<open>freemem\<close> insertion with coalescing.
\<close>

section \<open>The operations\<close>

definition roundmb :: "u32 \<Rightarrow> u32" where
  "roundmb x = (7 + x) AND NOT 7"

definition truncmb :: "u32 \<Rightarrow> u32" where
  "truncmb x = x AND NOT 7"

text \<open>A pointer to a \<^verbatim>\<open>struct memblk\<close>: the list head \<^verbatim>\<open>memlist\<close> or an address.\<close>

datatype blkptr = Memlist | Blk u32

definition blk_next :: "memory \<Rightarrow> u32 \<Rightarrow> u32" where
  "blk_next m a = rd32 m a"

definition blk_len :: "memory \<Rightarrow> u32 \<Rightarrow> u32" where
  "blk_len m a = rd32 m (a + 4)"

definition set_blk_next :: "u32 \<Rightarrow> u32 \<Rightarrow> memory \<Rightarrow> memory" where
  "set_blk_next a v m = wr32 m a v"

definition set_blk_len :: "u32 \<Rightarrow> u32 \<Rightarrow> memory \<Rightarrow> memory" where
  "set_blk_len a v m = wr32 m (a + 4) v"

fun get_mnext :: "blkptr \<Rightarrow> heap \<Rightarrow> u32" where
  "get_mnext Memlist h = mnext0 h"
| "get_mnext (Blk a) h = blk_next (bytes h) a"

fun set_mnext :: "blkptr \<Rightarrow> u32 \<Rightarrow> heap \<Rightarrow> heap" where
  "set_mnext Memlist v h = h\<lparr>mnext0 := v\<rparr>"
| "set_mnext (Blk a) v h = h\<lparr>bytes := set_blk_next a v (bytes h)\<rparr>"

fun get_mlength :: "blkptr \<Rightarrow> heap \<Rightarrow> u32" where
  "get_mlength Memlist h = mlength0 h"
| "get_mlength (Blk a) h = blk_len (bytes h) a"

fun set_mlength :: "blkptr \<Rightarrow> u32 \<Rightarrow> heap \<Rightarrow> heap" where
  "set_mlength Memlist v h = h\<lparr>mlength0 := v\<rparr>"
| "set_mlength (Blk a) v h = h\<lparr>bytes := set_blk_len a v (bytes h)\<rparr>"

text \<open>The search of \<^verbatim>\<open>getmem\<close>; a cyclic list would never end.\<close>

partial_function (option) getmem_loop :: "heap \<Rightarrow> u32 \<Rightarrow> blkptr \<Rightarrow> u32 \<Rightarrow> (heap \<times> u32) option" where
  "getmem_loop h nbytes prev cur =
     (if cur = 0 then Some (h, PSYSERR)
      else if blk_len (bytes h) cur = nbytes then
        (let h1 = set_mnext prev (blk_next (bytes h) cur) h
         in Some (h1\<lparr>mlength0 := mlength0 h1 - nbytes\<rparr>, cur))
      else if blk_len (bytes h) cur > nbytes then
        (let leftover = cur + nbytes;
             h1 = set_mnext prev leftover h;
             h2 = h1\<lparr>bytes := set_blk_next leftover (blk_next (bytes h1) cur) (bytes h1)\<rparr>;
             h3 = h2\<lparr>bytes := set_blk_len leftover (blk_len (bytes h2) cur - nbytes) (bytes h2)\<rparr>
         in Some (h3\<lparr>mlength0 := mlength0 h3 - nbytes\<rparr>, cur))
      else getmem_loop h nbytes (Blk cur) (blk_next (bytes h) cur))"

definition getmem :: "u32 \<Rightarrow> heap \<Rightarrow> (heap \<times> u32) option" where
  "getmem nbytes h =
     (if nbytes = 0 then Some (h, PSYSERR)
      else getmem_loop h (roundmb nbytes) Memlist (mnext0 h))"

text \<open>The scan of \<^verbatim>\<open>getstk\<close> keeps the last block that fits and its predecessor.\<close>

partial_function (option) getstk_scan ::
    "heap \<Rightarrow> u32 \<Rightarrow> blkptr \<Rightarrow> u32 \<Rightarrow> u32 \<Rightarrow> blkptr \<Rightarrow> (u32 \<times> blkptr) option" where
  "getstk_scan h nbytes prev cur fits fitsprev =
     (if cur \<noteq> 0 then
        (if blk_len (bytes h) cur \<ge> nbytes
         then getstk_scan h nbytes (Blk cur) (blk_next (bytes h) cur) cur prev
         else getstk_scan h nbytes (Blk cur) (blk_next (bytes h) cur) fits fitsprev)
      else Some (fits, fitsprev))"

definition getstk :: "u32 \<Rightarrow> heap \<Rightarrow> (heap \<times> u32) option" where
  "getstk nbytes0 h =
     (if nbytes0 = 0 then Some (h, PSYSERR)
      else let nbytes = roundmb nbytes0 in
        case getstk_scan h nbytes Memlist (mnext0 h) 0 Memlist of
          None \<Rightarrow> None
        | Some (fits, fitsprev) \<Rightarrow>
            if fits = 0 then Some (h, PSYSERR)
            else let (h1, fits1) =
                   (if nbytes = blk_len (bytes h) fits
                    then (set_mnext fitsprev (blk_next (bytes h) fits) h, fits)
                    else let h1 = h\<lparr>bytes := set_blk_len fits (blk_len (bytes h) fits - nbytes) (bytes h)\<rparr>
                         in (h1, fits + blk_len (bytes h1) fits))
                 in Some (h1\<lparr>mlength0 := mlength0 h1 - nbytes\<rparr>, fits1 + nbytes - 4))"

partial_function (option) freemem_scan ::
    "heap \<Rightarrow> u32 \<Rightarrow> blkptr \<Rightarrow> u32 \<Rightarrow> (blkptr \<times> u32) option" where
  "freemem_scan h block prev nxt =
     (if nxt \<noteq> 0 \<and> nxt < block
      then freemem_scan h block (Blk nxt) (blk_next (bytes h) nxt)
      else Some (prev, nxt))"

definition freemem :: "u32 \<Rightarrow> u32 \<Rightarrow> heap \<Rightarrow> (heap \<times> int) option" where
  "freemem blkaddr nbytes0 h =
     (if nbytes0 = 0 \<or> blkaddr < minheap h \<or> blkaddr > maxheap h then Some (h, SYSERR)
      else let nbytes = roundmb nbytes0; block = blkaddr in
        case freemem_scan h block Memlist (mnext0 h) of
          None \<Rightarrow> None
        | Some (prev, nxt) \<Rightarrow>
            (let top = (case prev of Memlist \<Rightarrow> 0 | Blk a \<Rightarrow> a + blk_len (bytes h) a) in
             if (prev \<noteq> Memlist \<and> block < top) \<or> (nxt \<noteq> 0 \<and> block + nbytes > nxt)
             then Some (h, SYSERR)
             else let h1 = h\<lparr>mlength0 := mlength0 h + nbytes\<rparr>;
                      (h2, blk) =
                        (if top = block
                         then (set_mlength prev (get_mlength prev h1 + nbytes) h1, prev)
                         else (let k1 = set_mnext (Blk block) nxt h1;
                                   k2 = set_mlength (Blk block) nbytes k1;
                                   k3 = set_mnext prev (block) k2
                               in (k3, Blk block)));
                      base = (case blk of Memlist \<Rightarrow> 0 | Blk a \<Rightarrow> a);
                      h3 = (if base + get_mlength blk h2 = nxt
                            then (let k = set_mlength blk (get_mlength blk h2 + blk_len (bytes h2) nxt) h2
                                  in set_mnext blk (blk_next (bytes k) nxt) k)
                            else h2)
                  in Some (h3, OK)))"

text \<open>The macro \<^verbatim>\<open>freestk\<close>.\<close>

definition freestk :: "u32 \<Rightarrow> u32 \<Rightarrow> heap \<Rightarrow> (heap \<times> int) option" where
  "freestk p len h = freemem (p - roundmb len + 4) (roundmb len) h"

text \<open>
  \<^verbatim>\<open>meminit\<close>; the linker's \<^verbatim>\<open>end\<close> is an argument, and \<^verbatim>\<open>maxheap\<close> is set before
  by \<^verbatim>\<open>i386.c\<close>. \<^verbatim>\<open>NULLSTK\<close> is 8192.
\<close>

abbreviation (input) HOLESTART :: u32 where "HOLESTART \<equiv> 655360"
abbreviation (input) HOLEEND :: u32 where "HOLEEND \<equiv> 1048576"
abbreviation (input) NULLSTK :: u32 where "NULLSTK \<equiv> 8192"

definition meminit :: "u32 \<Rightarrow> heap \<Rightarrow> heap" where
  "meminit kend h =
     (let h1 = h\<lparr>minheap := kend\<rparr>;
          memptr = roundmb (minheap h1);
          h2 = h1\<lparr>mnext0 := memptr\<rparr>
      in if maxheap h2 + 1 > HOLESTART then
           (let m1 = set_blk_next memptr HOLEEND (bytes h2);
                m2 = set_blk_len memptr (truncmb (HOLESTART - kend - 4)) m1;
                m3 = set_blk_next HOLEEND 0 m2;
                m4 = set_blk_len HOLEEND (truncmb (maxheap h2 - HOLEEND - NULLSTK)) m3
            in h2\<lparr>bytes := m4\<rparr>)
         else
           (let memptr = roundmb kend;
                m1 = set_blk_next memptr 0 (bytes h2);
                m2 = set_blk_len memptr (truncmb (maxheap h2 - kend - NULLSTK)) m1
            in h2\<lparr>mnext0 := memptr, bytes := m2\<rparr>))"

section \<open>Alignment and block headers\<close>

definition al8 :: "u32 \<Rightarrow> bool" where
  "al8 a \<longleftrightarrow> unat a mod 8 = 0"

lemma mod8_simps:
  "(x :: nat) mod 8 = 0 \<Longrightarrow> y mod 8 = 0 \<Longrightarrow> (x + y) mod 8 = 0"
  "(x :: nat) mod 8 = 0 \<Longrightarrow> y mod 8 = 0 \<Longrightarrow> (x - y) mod 8 = 0"
  by presburger+

lemma unat_mask7: "unat ((x :: u32) AND - 8) = unat x div 8 * 8"
proof -
  have "x AND - 8 = x AND NOT (mask 3)" by (simp add: mask_eq_exp_minus_1)
  also have "\<dots> = push_bit 3 (drop_bit 3 x)"
    by (rule bit_eqI) (auto simp: bit_simps)
  finally have eq: "x AND - 8 = push_bit 3 (drop_bit 3 x)" .
  have lt: "unat x div 8 * 8 < 2 ^ 32" using unat_u32_lt [of x] by (simp; linarith)
  have "unat (drop_bit 3 x) = unat x div 8"
    by (simp only: unat_drop_bit_eq drop_bit_eq_div [of 3 "unat x"]) simp
  then have "unat (push_bit 3 (drop_bit 3 x)) = take_bit 32 (unat x div 8 * 8)"
    by (simp only: unsigned_push_bit_eq push_bit_eq_mult [of 3 "unat w" for w])
      (simp add: push_bit_eq_mult)
  also have "\<dots> = unat x div 8 * 8" using lt by (simp only: take_bit_nat_eq_self)
  finally show ?thesis unfolding eq .
qed

lemma unat_truncmb: "unat (truncmb x) = unat x div 8 * 8"
  by (simp add: truncmb_def unat_mask7)

lemma unat_add_small: "unat (a :: u32) + unat b < 4294967296 \<Longrightarrow> unat (a + b) = unat a + unat b"
  by (simp add: unat_word_ariths)

lemma unat_add7: "unat (7 + x :: u32) = (7 + unat x) mod 4294967296"
  by (simp add: unat_word_ariths)

lemma unat_roundmb: "unat x + 7 < 4294967296 \<Longrightarrow> unat (roundmb x) = (unat x + 7) div 8 * 8"
  using unat_add7 [of x] unat_mask7 [of "7 + x"] by (simp add: roundmb_def add.commute)

lemma al8_truncmb [simp]: "al8 (truncmb x)" and al8_roundmb [simp]: "al8 (roundmb x)"
  by (simp_all add: al8_def truncmb_def roundmb_def unat_mask7)

text \<open>The request sizes that round to nothing: they wrap around.\<close>

lemma roundmb_wraps:
  assumes "4294967296 \<le> unat x + 7"
  shows "roundmb x = 0"
proof -
  have "(7 + unat x) mod 4294967296 = (7 + unat x - 4294967296) mod 4294967296"
    by (rule le_mod_geq) (use assms in simp)
  also have "\<dots> \<le> 7 + unat x - 4294967296" by (rule mod_less_eq_dividend)
  finally have "unat (7 + x) < 8" using unat_u32_lt [of x] unfolding unat_add7 by linarith
  then have "unat (roundmb x) = 0" using unat_mask7 [of "7 + x"] by (simp add: roundmb_def)
  then show ?thesis by (simp add: word_unat_eq_iff)
qed

lemma al8_unat4: "al8 a \<Longrightarrow> unat (a + 4) = unat a + 4"
proof -
  have *: "x mod 8 = 0 \<Longrightarrow> x < 4294967296 \<Longrightarrow> x + 4 < 4294967296" for x :: nat by presburger
  assume "al8 a"
  then have "unat a + 4 < 4294967296" using * [OF _ unat_u32_lt] by (simp add: al8_def)
  then show ?thesis using unat_add_small [of a 4] by simp
qed

lemma al8_al4: "al8 a \<Longrightarrow> al4 a" and al8_al4_4: "al8 a \<Longrightarrow> al4 (a + 4)"
proof -
  have *: "x mod 8 = 0 \<Longrightarrow> x mod 4 = 0 \<and> (x + 4) mod 4 = 0" for x :: nat by presburger
  assume "al8 a"
  then show "al4 a" "al4 (a + 4)" using * [of "unat a"] by (simp_all add: al4_def al8_unat4 al8_def [of a])
qed

lemma al8_neq4: "al8 a \<Longrightarrow> al8 b \<Longrightarrow> a + 4 \<noteq> b" "al8 a \<Longrightarrow> al8 b \<Longrightarrow> b \<noteq> a + 4"
proof -
  have *: "x mod 8 = 0 \<Longrightarrow> (x + 4) mod 8 \<noteq> 0" for x :: nat by presburger
  assume a: "al8 a" and b: "al8 b"
  have "unat (a + 4) mod 8 \<noteq> 0" using al8_unat4 [OF a] * [of "unat a"] a by (simp add: al8_def [of a])
  then show "a + 4 \<noteq> b" "b \<noteq> a + 4" using b by (auto simp: al8_def [of b])
qed

named_theorems blk_simps \<open>reads of updated block headers\<close>

lemma blk_reads [blk_simps]:
  assumes "al8 a" "al8 b"
  shows "blk_next (set_blk_next a v m) b = (if b = a then v else blk_next m b)"
    and "blk_next (set_blk_len a v m) b = blk_next m b"
    and "blk_len (set_blk_next a v m) b = blk_len m b"
    and "blk_len (set_blk_len a v m) b = (if b = a then v else blk_len m b)"
  using assms al8_al4 al8_al4_4 al8_neq4
  by (auto simp: blk_next_def blk_len_def set_blk_next_def set_blk_len_def)

section \<open>The free list\<close>

text \<open>
  \<open>fseg m p xs q\<close>: from pointer \<open>p\<close> the chain of blocks \<open>xs\<close> (address, length) leads to
  pointer \<open>q\<close>. \<open>wfb lo xs\<close>: the blocks are aligned, not empty, in address order above \<open>lo\<close>,
  do not wrap and no two of them touch.
\<close>

type_synonym block = "u32 \<times> u32"

fun fseg :: "memory \<Rightarrow> u32 \<Rightarrow> block list \<Rightarrow> u32 \<Rightarrow> bool" where
  "fseg m p [] q = (p = q)"
| "fseg m p ((a, l) # xs) q = (p = a \<and> blk_len m a = l \<and> fseg m (blk_next m a) xs q)"

fun wfb :: "nat \<Rightarrow> block list \<Rightarrow> bool" where
  "wfb lo [] = True"
| "wfb lo ((a, l) # xs) = (lo < unat a \<and> al8 a \<and> al8 l \<and> l \<noteq> 0 \<and> unat a + unat l < 4294967296
     \<and> wfb (unat a + unat l) xs)"

definition free_list :: "heap \<Rightarrow> block list \<Rightarrow> bool" where
  "free_list h xs \<longleftrightarrow> fseg (bytes h) (mnext0 h) xs 0 \<and> wfb 0 xs"

definition lastblk :: "block list \<Rightarrow> blkptr" where
  "lastblk us = (if us = [] then Memlist else Blk (fst (last us)))"

abbreviation hseg :: "heap \<Rightarrow> block list \<Rightarrow> u32 \<Rightarrow> bool" where
  "hseg h us q \<equiv> fseg (bytes h) (mnext0 h) us q"

lemma fseg_append: "fseg m p (us @ vs) q \<longleftrightarrow> (\<exists>r. fseg m p us r \<and> fseg m r vs q)"
  by (induction us arbitrary: p) auto

lemma fseg_cong:
  "(\<And>a l. (a, l) \<in> set xs \<Longrightarrow> blk_next m' a = blk_next m a \<and> blk_len m' a = blk_len m a)
   \<Longrightarrow> fseg m' p xs q = fseg m p xs q"
  by (induction xs arbitrary: p) fastforce+

lemma wfb_append: "wfb lo (us @ vs) \<longleftrightarrow>
  wfb lo us \<and> wfb (if us = [] then lo else unat (fst (last us)) + unat (snd (last us))) vs"
  by (induction lo us rule: wfb.induct) auto

lemma wfb_mono: "wfb lo xs \<Longrightarrow> lo' \<le> lo \<Longrightarrow> wfb lo' xs"
  by (cases xs) auto

lemma wfb_mem: "wfb lo xs \<Longrightarrow> (a, l) \<in> set xs \<Longrightarrow> lo < unat a \<and> al8 a \<and> al8 l \<and> l \<noteq> 0 \<and> unat a + unat l < 4294967296"
  by (induction lo xs rule: wfb.induct) fastforce+

lemma wfb_al8 [intro]: "wfb lo xs \<Longrightarrow> (a, l) \<in> set xs \<Longrightarrow> al8 a"
  by (simp add: wfb_mem)

text \<open>In \<open>us @ (a, l) # vs\<close> the blocks before \<open>a\<close> end below it and those after start above its end.\<close>

lemma wfb_split:
  assumes "wfb lo (us @ (a, l) # vs)"
  shows "wfb lo us" "lo < unat a" "al8 a" "al8 l" "l \<noteq> 0" "unat a + unat l < 4294967296" "wfb (unat a + unat l) vs"
    and "\<And>b k. (b, k) \<in> set us \<Longrightarrow> unat b + unat k < unat a"
    and "\<And>b k. (b, k) \<in> set vs \<Longrightarrow> unat a + unat l < unat b"
proof -
  show w: "wfb lo us" and v: "wfb (unat a + unat l) vs" using assms by (simp_all add: wfb_append)
  show "al8 a" "al8 l" "l \<noteq> 0" "unat a + unat l < 4294967296" using assms by (simp_all add: wfb_append)
  show "lo < unat a" using wfb_mem [OF assms, of a l] by simp
  show "unat a + unat l < unat b" if "(b, k) \<in> set vs" for b k using wfb_mem [OF v that] by simp
  show "unat b + unat k < unat a" if "(b, k) \<in> set us" for b k
  proof -
    note mem = that
    obtain us1 us2 where us: "us = us1 @ (b, k) # us2" using split_list [OF mem] by blast
    then have "wfb (unat b + unat k) (us2 @ (a, l) # vs)" using assms by (simp add: wfb_append)
    then show ?thesis using wfb_mem [of "unat b + unat k" "us2 @ (a, l) # vs" a l] by simp
  qed
qed

lemma wfb_notin: "wfb lo (us @ (a, l) # vs) \<Longrightarrow> (a, k) \<notin> set us \<and> (a, k) \<notin> set vs"
  using wfb_split(8,9) [of lo us a l vs] by fastforce

text \<open>Writing the successor field of the last block of a prefix.\<close>

lemma set_mnext_frame [simp]:
  "mnext0 (set_mnext (Blk a) v h) = mnext0 h" "mlength0 (set_mnext p v h) = mlength0 h"
  "minheap (set_mnext p v h) = minheap h" "maxheap (set_mnext p v h) = maxheap h"
  by (cases p; simp)+

lemma hseg_set_mnext:
  assumes "hseg h us r" "wfb lo us"
  shows "hseg (set_mnext (lastblk us) q h) us q"
proof (cases us rule: rev_cases)
  case (snoc us' x)
  obtain a l where x: "x = (a, l)" by (cases x)
  from assms(1) snoc x have "hseg h us' a" "blk_len (bytes h) a = l" by (auto simp: fseg_append)
  moreover have "al8 a" using wfb_mem [OF assms(2), of a l] snoc x by simp
  moreover have "blk_next (set_blk_next a q (bytes h)) b = blk_next (bytes h) b \<and>
      blk_len (set_blk_next a q (bytes h)) b = blk_len (bytes h) b" if "(b, k) \<in> set us'" for b k
  proof -
    have "al8 b" "b \<noteq> a"
      using that wfb_mem [OF assms(2), of b k] wfb_notin [of lo us' a l "[]" k] assms(2) snoc x by auto
    then show ?thesis using \<open>al8 a\<close> by (simp add: blk_simps)
  qed
  ultimately show ?thesis
    using snoc x fseg_cong [of us' "set_blk_next a q (bytes h)" "bytes h"] by (auto simp: lastblk_def fseg_append blk_simps)
qed (simp add: lastblk_def)

lemma set_mnext_other:
  assumes "wfb lo us" "al8 b" "\<And>k. (b, k) \<notin> set us"
  shows "blk_next (bytes (set_mnext (lastblk us) q h)) b = blk_next (bytes h) b"
    and "blk_len (bytes (set_mnext (lastblk us) q h)) b = blk_len (bytes h) b"
proof -
  have "al8 (fst (last us)) \<and> fst (last us) \<noteq> b" if "us \<noteq> []"
    using wfb_mem [OF assms(1), of "fst (last us)" "snd (last us)"] assms(3) last_in_set [OF that]
    by (metis prod.collapse)
  then show "blk_next (bytes (set_mnext (lastblk us) q h)) b = blk_next (bytes h) b"
    and "blk_len (bytes (set_mnext (lastblk us) q h)) b = blk_len (bytes h) b"
    using assms(2) by (auto simp: lastblk_def blk_simps)
qed

lemma fseg_set_mnext_other:
  assumes "wfb lo us" "\<And>b k. (b, k) \<in> set vs \<Longrightarrow> al8 b" "\<And>b j k. (b, j) \<in> set vs \<Longrightarrow> (b, k) \<notin> set us"
  shows "fseg (bytes (set_mnext (lastblk us) q h)) p vs p' = fseg (bytes h) p vs p'"
proof (rule fseg_cong)
  fix b k
  assume "(b, k) \<in> set vs"
  then have "al8 b" "\<And>j. (b, j) \<notin> set us" using assms(2,3) by blast+
  then show "blk_next (bytes (set_mnext (lastblk us) q h)) b = blk_next (bytes h) b \<and>
      blk_len (bytes (set_mnext (lastblk us) q h)) b = blk_len (bytes h) b"
    using set_mnext_other [OF assms(1)] by simp
qed

text \<open>Rebuilding the list: a prefix, then whatever its last pointer is set to.\<close>

lemma hseg_rebuild:
  assumes "hseg h us p" "wfb lo us" "fseg (bytes (set_mnext (lastblk us) q h)) q vs 0"
  shows "hseg (set_mnext (lastblk us) q h) (us @ vs) 0"
  using hseg_set_mnext [OF assms(1,2)] assms(3) by (auto simp: fseg_append)

text \<open>A header write changes only the eight bytes of that header.\<close>

lemma al8_room: "al8 x \<Longrightarrow> unat x + 8 \<le> 4294967296"
proof -
  have *: "y mod 8 = 0 \<Longrightarrow> y < 4294967296 \<Longrightarrow> y + 8 \<le> 4294967296" for y :: nat by presburger
  show "al8 x \<Longrightarrow> unat x + 8 \<le> 4294967296" using * [OF _ unat_u32_lt] by (simp add: al8_def)
qed

lemma al8_pos: "al8 l \<Longrightarrow> l \<noteq> 0 \<Longrightarrow> 8 \<le> unat l"
proof -
  have *: "y mod 8 = 0 \<Longrightarrow> y \<noteq> 0 \<Longrightarrow> 8 \<le> y" for y :: nat by presburger
  show "al8 l \<Longrightarrow> l \<noteq> 0 \<Longrightarrow> 8 \<le> unat l" using * [of "unat l"] by (simp add: al8_def unat_eq_zero)
qed

lemma wr32_frame:
  assumes "unat x + 3 < 4294967296" "\<not> (unat x \<le> unat c \<and> unat c < unat x + 4)"
  shows "wr32 m x v c = m c"
proof -
  have "unat (x + 1) = unat x + 1" "unat (x + 2) = unat x + 2" "unat (x + 3) = unat x + 3"
    using assms(1) unat_add_small [of x 1] unat_add_small [of x 2] unat_add_small [of x 3] by simp_all
  then have "c \<noteq> x" "c \<noteq> x + 1" "c \<noteq> x + 2" "c \<noteq> x + 3" using assms(2) by auto
  then show ?thesis by (simp add: wr32_def)
qed

lemma set_blk_frame:
  assumes "al8 x" "\<not> (unat x \<le> unat c \<and> unat c < unat x + 8)"
  shows "set_blk_next x v m c = m c" "set_blk_len x v m c = m c"
proof -
  have r: "unat x + 8 \<le> 4294967296" "unat (x + 4) = unat x + 4" using assms(1) al8_room al8_unat4 by simp_all
  show "set_blk_next x v m c = m c" unfolding set_blk_next_def
    by (rule wr32_frame) (use r assms(2) in linarith)+
  show "set_blk_len x v m c = m c" unfolding set_blk_len_def
    by (rule wr32_frame) (use r assms(2) in linarith)+
qed

definition in_free :: "block list \<Rightarrow> u32 \<Rightarrow> bool" where
  "in_free xs c \<longleftrightarrow> (\<exists>(b, k) \<in> set xs. unat b \<le> unat c \<and> unat c < unat b + unat k)"

lemma not_in_free_header:
  assumes "wfb lo xs" "(b, k) \<in> set xs" "\<not> in_free xs c"
  shows "\<not> (unat b \<le> unat c \<and> unat c < unat b + 8)"
proof -
  have "8 \<le> unat k" using al8_pos wfb_mem [OF assms(1,2)] by blast
  moreover have "\<not> (unat b \<le> unat c \<and> unat c < unat b + unat k)" using assms(2,3) by (auto simp: in_free_def)
  ultimately show ?thesis by linarith
qed

lemma set_mnext_bytes_frame:
  assumes "wfb lo us" "set us \<subseteq> set xs" "wfb lo' xs" "\<not> in_free xs c"
  shows "bytes (set_mnext (lastblk us) q h) c = bytes h c"
proof (cases us rule: rev_cases)
  case (snoc us' x)
  obtain a l where x: "x = (a, l)" by (cases x)
  have "(a, l) \<in> set xs" using assms(2) snoc x by auto
  then have "al8 a" "\<not> (unat a \<le> unat c \<and> unat c < unat a + 8)"
    using not_in_free_header [OF assms(3) _ assms(4)] wfb_mem [OF assms(3)] by blast+
  then show ?thesis using snoc x set_blk_frame by (simp add: lastblk_def)
qed (simp add: lastblk_def)

section \<open>Allocation from the front of a block\<close>

lemma getmem_skip:
  "fseg (bytes h) p ws r \<Longrightarrow> (\<And>a l. (a, l) \<in> set ws \<Longrightarrow> a \<noteq> 0 \<and> l < n)
   \<Longrightarrow> getmem_loop h n prev p = getmem_loop h n (if ws = [] then prev else Blk (fst (last ws))) r"
proof (induction ws arbitrary: p prev)
  case (Cons x ws)
  obtain a l where x: "x = (a, l)" by (cases x)
  with Cons.prems have pa: "p = a" "blk_len (bytes h) a = l" "fseg (bytes h) (blk_next (bytes h) a) ws r"
    "a \<noteq> 0" "l < n" by auto
  have "getmem_loop h n prev p = getmem_loop h n (Blk a) (blk_next (bytes h) a)"
    using pa by (subst getmem_loop.simps) auto
  also have "\<dots> = getmem_loop h n (if ws = [] then Blk a else Blk (fst (last ws))) r"
    by (rule Cons.IH [OF pa(3)]) (use Cons.prems(2) in auto)
  finally show ?case using x by simp
qed simp

text \<open>The first block that is long enough, if any.\<close>

lemma first_block:
  fixes n :: u32
  obtains (none) "\<And>a l. (a, l) \<in> set xs \<Longrightarrow> l < n"
  | (some) us a l vs where "xs = us @ (a, l) # vs" "\<And>b k. (b, k) \<in> set us \<Longrightarrow> k < n" "n \<le> l"
proof (cases "\<exists>x \<in> set xs. n \<le> snd x")
  case True
  then obtain us x vs where "xs = us @ x # vs" "n \<le> snd x" "\<forall>y \<in> set us. \<not> n \<le> snd y"
    using split_list_first_prop [OF True] by blast
  then show thesis by (intro some [of us "fst x" "snd x" vs]) (auto simp: not_le)
next
  case False
  then show thesis by (intro none) force
qed

lemma getmem_spec:
  assumes f: "free_list h xs" and n: "n \<noteq> 0" "roundmb n \<noteq> 0"
  obtains (none) "\<And>a l. (a, l) \<in> set xs \<Longrightarrow> l < roundmb n" "getmem n h = Some (h, PSYSERR)"
  | (some) us a l vs h' xs' where "xs = us @ (a, l) # vs" "\<And>b k. (b, k) \<in> set us \<Longrightarrow> k < roundmb n"
      "roundmb n \<le> l" "getmem n h = Some (h', a)" "free_list h' xs'"
      "xs' = us @ (if l = roundmb n then [] else [(a + roundmb n, l - roundmb n)]) @ vs"
      "mlength0 h' = mlength0 h - roundmb n" "minheap h' = minheap h" "maxheap h' = maxheap h"
      "\<And>c. \<not> in_free xs c \<Longrightarrow> bytes h' c = bytes h c"
proof -
  define r where "r = roundmb n"
  have r8: "al8 r" "r \<noteq> 0" using n by (simp_all add: r_def)
  have seg: "hseg h xs 0" and wf: "wfb 0 xs" using f by (simp_all add: free_list_def)
  have nz: "(a, l) \<in> set xs \<Longrightarrow> a \<noteq> 0" for a l using wfb_mem [OF wf, of a l] by auto
  have gm: "getmem n h = getmem_loop h r Memlist (mnext0 h)" using n by (simp add: getmem_def r_def)
  show thesis
  proof (cases rule: first_block [of xs r])
    case none
    have "getmem n h = getmem_loop h r (if xs = [] then Memlist else Blk (fst (last xs))) 0"
      unfolding gm by (rule getmem_skip [OF seg]) (use none nz in blast)
    also have "\<dots> = Some (h, PSYSERR)" by (subst getmem_loop.simps) simp
    finally show thesis using none by (intro that(1)) (simp_all add: r_def)
  next
    case (some us a l vs)
    note sp = wfb_split [OF wf [unfolded some(1)]]
    have ussub: "set us \<subseteq> set xs" using some(1) by auto
    have a0: "a \<noteq> 0" using sp(2) by auto
    have segs: "hseg h us a" "blk_len (bytes h) a = l" "fseg (bytes h) (blk_next (bytes h) a) vs 0"
      using seg some(1) by (auto simp: fseg_append)
    have notin: "(a, k) \<notin> set us" "(a, k) \<notin> set vs" for k using wfb_notin [OF wf [unfolded some(1)]] by auto
    have disj: "(b, k) \<notin> set us" if "(b, j) \<in> set vs" for b j k
      using sp(8) [of b k] sp(9) [OF that] by fastforce
    have gm': "getmem n h = getmem_loop h r (lastblk us) a"
      using getmem_skip [OF segs(1), of r Memlist] some(2) nz ussub unfolding gm lastblk_def by blast
    have vs8: "al8 b" if "(b, k) \<in> set vs" for b k using wfb_al8 [OF sp(7) that] .
    show thesis
    proof (cases "l = r")
      case True
      let ?q = "blk_next (bytes h) a"
      define h' where "h' = (set_mnext (lastblk us) ?q h)\<lparr>mlength0 := mlength0 h - r\<rparr>"
      have ret: "getmem n h = Some (h', a)"
        unfolding gm' using a0 segs(2) True by (subst getmem_loop.simps) (simp add: h'_def)
      have "fseg (bytes (set_mnext (lastblk us) ?q h)) ?q vs 0 = fseg (bytes h) ?q vs 0"
        by (rule fseg_set_mnext_other [OF sp(1) vs8 disj])
      then have "hseg (set_mnext (lastblk us) ?q h) (us @ vs) 0"
        using hseg_rebuild [OF segs(1) sp(1)] segs(3) by blast
      then have "hseg h' (us @ vs) 0" by (simp add: h'_def)
      moreover have "wfb 0 (us @ vs)"
        using wf some(1) sp(6,8,7) wfb_mono [OF sp(7)] last_in_set [of us]
        by (cases us rule: rev_cases) (fastforce simp: wfb_append)+
      ultimately have "free_list h' (us @ vs)" by (simp add: free_list_def)
      moreover have "bytes h' c = bytes h c" if "\<not> in_free xs c" for c
        using set_mnext_bytes_frame [OF sp(1) ussub wf that] by (simp add: h'_def)
      ultimately show thesis
        using True some ret by (intro that(2) [of us a l vs h' "us @ vs"]) (simp_all add: r_def h'_def)
    next
      case False
      then have lt: "unat r < unat l" using some(3) by (simp add: word_le_nat_alt word_unat_eq_iff)
      let ?b = "a + r" and ?k = "l - r"
      have ub: "unat ?b = unat a + unat r" using lt sp(6) by (intro unat_add_small) linarith
      have uk: "unat ?k = unat l - unat r" using lt by (simp add: unat_sub_if_size)
      have b8: "al8 ?b" "al8 ?k"
        using r8(1) sp(3,4) ub uk by (simp_all add: al8_def mod8_simps)
      have bnot: "(?b, j) \<notin> set us" "(?b, j) \<notin> set vs" "?b \<noteq> a" for j
        using sp(8) [of ?b j] sp(9) [of ?b j] ub lt r8(2) by (auto simp: unat_eq_zero)
      let ?h1 = "set_mnext (lastblk us) ?b h"
      define m3 where "m3 = set_blk_len ?b ?k (set_blk_next ?b (blk_next (bytes h) a) (bytes ?h1))"
      define h' where "h' = ?h1\<lparr>bytes := m3, mlength0 := mlength0 h - r\<rparr>"
      have a1: "blk_next (bytes ?h1) a = blk_next (bytes h) a" "blk_len (bytes ?h1) a = l"
        using set_mnext_other [OF sp(1,3) notin(1)] segs(2) by simp_all
      have "r < l" using lt by (simp add: word_less_nat_alt)
      then have ret: "getmem n h = Some (h', a)"
        unfolding gm' using a0 segs(2) False a1 b8 sp(3) bnot(3)
        by (subst getmem_loop.simps) (simp add: h'_def m3_def Let_def blk_simps)
      have other: "blk_next m3 x = blk_next (bytes ?h1) x \<and> blk_len m3 x = blk_len (bytes ?h1) x"
        if "al8 x" "x \<noteq> ?b" for x
        using that b8 by (simp add: m3_def blk_simps)
      have us3: "fseg m3 (mnext0 ?h1) us ?b = fseg (bytes ?h1) (mnext0 ?h1) us ?b"
      proof (rule fseg_cong)
        fix c j assume c: "(c, j) \<in> set us"
        then have "al8 c" "c \<noteq> ?b" using wfb_al8 [OF sp(1) c] bnot(1) by auto
        then show "blk_next m3 c = blk_next (bytes ?h1) c \<and> blk_len m3 c = blk_len (bytes ?h1) c" by (rule other)
      qed
      have "fseg m3 (blk_next (bytes h) a) vs 0 = fseg (bytes ?h1) (blk_next (bytes h) a) vs 0"
      proof (rule fseg_cong)
        fix c j assume c: "(c, j) \<in> set vs"
        then have "al8 c" "c \<noteq> ?b" using vs8 bnot(2) by auto
        then show "blk_next m3 c = blk_next (bytes ?h1) c \<and> blk_len m3 c = blk_len (bytes ?h1) c" by (rule other)
      qed
      also have "\<dots> = fseg (bytes h) (blk_next (bytes h) a) vs 0"
        by (rule fseg_set_mnext_other [OF sp(1) vs8 disj])
      finally have vs3: "fseg m3 (blk_next (bytes h) a) vs 0" using segs(3) by simp
      have "fseg m3 ?b ((?b, ?k) # vs) 0" using vs3 b8 by (simp add: m3_def blk_simps)
      then have "fseg m3 (mnext0 ?h1) (us @ (?b, ?k) # vs) 0"
        using us3 hseg_set_mnext [OF segs(1) sp(1), of ?b] by (auto simp: fseg_append)
      moreover have "wfb 0 (us @ (?b, ?k) # vs)"
      proof -
        have "wfb (if us = [] then 0 else unat (fst (last us)) + unat (snd (last us))) ((a, l) # vs)"
          using wf some(1) by (simp add: wfb_append)
        then have "wfb (if us = [] then 0 else unat (fst (last us)) + unat (snd (last us))) ((?b, ?k) # vs)"
          using ub uk lt b8 by (auto simp: word_unat_eq_iff)
        then show ?thesis using sp(1) by (simp add: wfb_append)
      qed
      ultimately have fl: "free_list h' (us @ (?b, ?k) # vs)" by (simp add: free_list_def h'_def)
      have fr: "bytes h' c = bytes h c" if "\<not> in_free xs c" for c
      proof -
        have "\<not> (unat a \<le> unat c \<and> unat c < unat a + unat l)" using that some(1) by (auto simp: in_free_def)
        moreover have "?k \<noteq> 0" using uk lt by auto
        then have "8 \<le> unat ?k" using al8_pos [OF b8(2)] by simp
        ultimately have "\<not> (unat ?b \<le> unat c \<and> unat c < unat ?b + 8)" using ub uk lt by linarith
        then show ?thesis
          using set_mnext_bytes_frame [OF sp(1) ussub wf that, of ?b h] b8
          by (simp add: h'_def m3_def set_blk_frame)
      qed
      show thesis
        using False some ret fl fr
        by (intro that(2) [of us a l vs h' "us @ (?b, ?k) # vs"]) (simp_all add: r_def h'_def)
    qed
  qed
qed

section \<open>Updating blocks in place\<close>

definition apart :: "block list \<Rightarrow> bool" where
  "apart xs \<longleftrightarrow> distinct (map fst xs) \<and> (\<forall>(a, l) \<in> set xs. al8 a)"

lemma wfb_apart: "wfb lo xs \<Longrightarrow> apart xs"
proof (induction lo xs rule: wfb.induct)
  case (2 lo a l xs)
  have "(a, k) \<notin> set xs" for k using wfb_split(9) [of lo "[]" a l xs a k] "2.prems" by fastforce
  then show ?case using 2 by (auto simp: apart_def)
qed (simp add: apart_def)

lemma apart_append: "apart (us @ vs) \<longleftrightarrow> apart us \<and> apart vs \<and> fst ` set us \<inter> fst ` set vs = {}"
  by (auto simp: apart_def)

lemma apart_Cons: "apart ((a, l) # xs) \<longleftrightarrow> al8 a \<and> a \<notin> fst ` set xs \<and> apart xs"
  by (auto simp: apart_def)

lemma fseg_upd:
  assumes "apart xs" "al8 a" "a \<notin> fst ` set xs"
  shows "fseg (set_blk_len a l m) p xs q = fseg m p xs q" "fseg (set_blk_next a l m) p xs q = fseg m p xs q"
proof -
  have "al8 b \<and> b \<noteq> a" if "(b, k) \<in> set xs" for b k using assms that by (force simp: apart_def)
  then show "fseg (set_blk_len a l m) p xs q = fseg m p xs q" "fseg (set_blk_next a l m) p xs q = fseg m p xs q"
    using assms(2) by (auto intro!: fseg_cong simp: blk_simps)
qed

lemma hseg_set_len:
  assumes "hseg h (us @ (a, l) # vs) 0" "apart (us @ (a, l) # vs)"
  shows "hseg (set_mlength (Blk a) l' h) (us @ (a, l') # vs) 0"
proof -
  have a: "al8 a" "a \<notin> fst ` set us" "a \<notin> fst ` set vs" "apart us" "apart vs"
    using assms(2) by (auto simp: apart_append apart_Cons)
  then show ?thesis using assms(1) by (auto simp: fseg_append fseg_upd blk_simps)
qed

lemma hseg_join:
  assumes "hseg h (us @ (a, l) # (c, k) # vs) 0" "apart (us @ (a, l) # (c, k) # vs)"
  shows "hseg (set_mnext (Blk a) (blk_next (bytes h) c) h) (us @ (a, l) # vs) 0"
proof -
  have a: "al8 a" "a \<notin> fst ` set us" "a \<notin> fst ` set vs" "apart us" "apart vs"
    using assms(2) by (auto simp: apart_append apart_Cons)
  then show ?thesis using assms(1) by (auto simp: fseg_append fseg_upd blk_simps)
qed

lemma hseg_link:
  assumes "hseg h us nxt" "fseg (bytes h) nxt vs 0" "wfb lo us" "apart (us @ (b, n) # vs)"
  shows "hseg (set_mnext (lastblk us) b (set_mlength (Blk b) n (set_mnext (Blk b) nxt h))) (us @ (b, n) # vs) 0"
proof -
  have b: "al8 b" "b \<notin> fst ` set us" "b \<notin> fst ` set vs" "apart us" "apart vs" "fst ` set us \<inter> fst ` set vs = {}"
    using assms(4) by (auto simp: apart_append apart_Cons)
  let ?h1 = "set_mlength (Blk b) n (set_mnext (Blk b) nxt h)"
  have us: "hseg ?h1 us nxt" and vs: "fseg (bytes ?h1) nxt vs 0" and bb: "blk_next (bytes ?h1) b = nxt" "blk_len (bytes ?h1) b = n"
    using assms(1,2) b by (simp_all add: fseg_upd blk_simps)
  have "fseg (bytes ?h1) b ((b, n) # vs) 0" using vs bb by simp
  moreover have "fseg (bytes (set_mnext (lastblk us) b ?h1)) b ((b, n) # vs) 0 = fseg (bytes ?h1) b ((b, n) # vs) 0"
  proof (rule fseg_set_mnext_other [OF assms(3)])
    show "al8 c" if "(c, k) \<in> set ((b, n) # vs)" for c k using that assms(4) by (auto simp: apart_def)
    show "(c, k) \<notin> set us" if "(c, j) \<in> set ((b, n) # vs)" for c j k using that b by force
  qed
  ultimately show ?thesis by (intro hseg_rebuild [OF us assms(3)]) simp
qed

section \<open>Freeing\<close>

lemma freemem_skip:
  "fseg (bytes h) p ws r \<Longrightarrow> (\<And>a l. (a, l) \<in> set ws \<Longrightarrow> a \<noteq> 0 \<and> a < b)
   \<Longrightarrow> freemem_scan h b prev p = freemem_scan h b (if ws = [] then prev else Blk (fst (last ws))) r"
proof (induction ws arbitrary: p prev)
  case (Cons x ws)
  obtain a l where x: "x = (a, l)" by (cases x)
  with Cons.prems have pa: "p = a" "fseg (bytes h) (blk_next (bytes h) a) ws r" "a \<noteq> 0" "a < b" by auto
  have "freemem_scan h b prev p = freemem_scan h b (Blk a) (blk_next (bytes h) a)"
    using pa by (subst freemem_scan.simps) auto
  also have "\<dots> = freemem_scan h b (if ws = [] then Blk a else Blk (fst (last ws))) r"
    by (rule Cons.IH [OF pa(2)]) (use Cons.prems(2) in auto)
  finally show ?case using x by simp
qed simp

text \<open>The list split at the address of the block to be freed.\<close>

lemma wfb_split_at:
  assumes "wfb lo xs"
  obtains us vs where "xs = us @ vs" "\<And>a l. (a, l) \<in> set us \<Longrightarrow> a < b" "\<And>a l. (a, l) \<in> set vs \<Longrightarrow> b \<le> a"
proof -
  have "\<exists>us vs. xs = us @ vs \<and> (\<forall>(a, l) \<in> set us. a < b) \<and> (\<forall>(a, l) \<in> set vs. b \<le> a)"
    using assms
  proof (induction lo xs rule: wfb.induct)
    case (2 lo a l xs)
    then obtain us vs where *: "xs = us @ vs" "\<forall>(a, l) \<in> set us. a < b" "\<forall>(a, l) \<in> set vs. b \<le> a" by auto
    show ?case
    proof (cases "a < b")
      case True
      then show ?thesis using * by (intro exI [of _ "(a, l) # us"] exI [of _ vs]) auto
    next
      case False
      have "b \<le> c" if "(c, k) \<in> set xs" for c k
      proof -
        have "unat a < unat c" using wfb_mem [of "unat a + unat l" xs c k] "2.prems" that by simp
        then show ?thesis using False by (simp add: word_le_nat_alt word_less_nat_alt)
      qed
      then show ?thesis using False by (intro exI [of _ "[]"] exI [of _ "(a, l) # xs"]) auto
    qed
  qed auto
  then show thesis using that by blast
qed

text \<open>Where the scan of \<^verbatim>\<open>freemem\<close> stops, and what it then compares.\<close>

definition topof :: "block list \<Rightarrow> u32" where
  "topof us = (if us = [] then 0 else fst (last us) + snd (last us))"

lemma freemem_scan_split:
  assumes f: "free_list h (us @ vs)" and us: "\<And>a l. (a, l) \<in> set us \<Longrightarrow> a < b" and vs: "\<And>a l. (a, l) \<in> set vs \<Longrightarrow> b \<le> a"
  obtains nxt where "freemem_scan h b Memlist (mnext0 h) = Some (lastblk us, nxt)" "hseg h us nxt"
    "fseg (bytes h) nxt vs 0" "nxt = (if vs = [] then 0 else fst (hd vs))"
    "(case lastblk us of Memlist \<Rightarrow> 0 | Blk a \<Rightarrow> a + blk_len (bytes h) a) = topof us"
proof -
  have wf: "wfb 0 (us @ vs)" using f by (simp add: free_list_def)
  have nz: "(a, l) \<in> set (us @ vs) \<Longrightarrow> a \<noteq> 0" for a l using wfb_mem [OF wf, of a l] by auto
  obtain nxt where n: "hseg h us nxt" "fseg (bytes h) nxt vs 0" using f by (auto simp: free_list_def fseg_append)
  have nx: "nxt = (if vs = [] then 0 else fst (hd vs))" using n(2) by (cases vs) auto
  have "freemem_scan h b Memlist (mnext0 h) = freemem_scan h b (lastblk us) nxt"
    unfolding lastblk_def by (rule freemem_skip [OF n(1)]) (use nz us in auto)
  also have "\<dots> = Some (lastblk us, nxt)"
  proof -
    have "\<not> (nxt \<noteq> 0 \<and> nxt < b)" using nx vs [of "fst (hd vs)" "snd (hd vs)"] by (cases vs) (auto simp: not_less)
    then show ?thesis by (subst freemem_scan.simps) auto
  qed
  moreover have "(case lastblk us of Memlist \<Rightarrow> 0 | Blk a \<Rightarrow> a + blk_len (bytes h) a) = topof us"
    using n(1) by (cases us rule: rev_cases) (auto simp: lastblk_def topof_def fseg_append)
  ultimately show thesis using n nx by (intro that) simp_all
qed

text \<open>The freed block (or the block before it, grown) absorbs the next block if they touch.\<close>

definition glue :: "block \<Rightarrow> block list \<Rightarrow> block list" where
  "glue x vs = (case vs of [] \<Rightarrow> [x]
     | (c, k) # vs' \<Rightarrow> if fst x + snd x = c then (fst x, snd x + k) # vs' else x # vs)"

definition merged :: "u32 \<Rightarrow> u32 \<Rightarrow> block list \<Rightarrow> block list \<Rightarrow> block list" where
  "merged b r us vs =
     (if us \<noteq> [] \<and> topof us = b then butlast us @ glue (fst (last us), snd (last us) + r) vs
      else us @ glue (b, r) vs)"

definition join_next :: "u32 \<Rightarrow> u32 \<Rightarrow> heap \<Rightarrow> heap" where
  "join_next base nxt h =
     (if base + get_mlength (Blk base) h = nxt
      then let k = set_mlength (Blk base) (get_mlength (Blk base) h + blk_len (bytes h) nxt) h
           in set_mnext (Blk base) (blk_next (bytes k) nxt) k
      else h)"

lemma join_next_frame:
  "mnext0 (join_next a c h) = mnext0 h" "mlength0 (join_next a c h) = mlength0 h"
  "minheap (join_next a c h) = minheap h" "maxheap (join_next a c h) = maxheap h"
  "al8 a \<Longrightarrow> \<not> (unat a \<le> unat x \<and> unat x < unat a + 8) \<Longrightarrow> bytes (join_next a c h) x = bytes h x"
  by (auto simp: join_next_def Let_def set_blk_frame)

lemma join_next_hseg:
  assumes "hseg h (us @ (a, l) # vs) 0" "apart (us @ (a, l) # vs)" "a + l \<noteq> 0"
    and "nxt = (if vs = [] then 0 else fst (hd vs))"
  shows "hseg (join_next a nxt h) (us @ glue (a, l) vs) 0"
proof -
  have a: "al8 a" "blk_len (bytes h) a = l" using assms(1,2) by (auto simp: fseg_append apart_append apart_Cons)
  show ?thesis
  proof (cases "vs \<noteq> [] \<and> a + l = fst (hd vs)")
    case True
    then obtain k vs' where vs: "vs = (a + l, k) # vs'" by (cases vs) auto
    have c: "blk_len (bytes h) (a + l) = k" using assms(1) vs by (auto simp: fseg_append)
    let ?k = "set_mlength (Blk a) (l + k) h"
    have "hseg ?k (us @ (a, l + k) # (a + l, k) # vs') 0"
      using hseg_set_len assms(1,2) vs by blast
    moreover have "apart (us @ (a, l + k) # (a + l, k) # vs')" using assms(2) vs by (simp add: apart_append apart_Cons)
    ultimately have "hseg (set_mnext (Blk a) (blk_next (bytes ?k) (a + l)) ?k) (us @ (a, l + k) # vs') 0"
      by (rule hseg_join)
    then show ?thesis using vs a(2) c assms(4) by (simp add: join_next_def glue_def)
  next
    case False
    then have "glue (a, l) vs = (a, l) # vs" "join_next a nxt h = h"
      using a(2) assms(3,4) by (auto simp: glue_def join_next_def split: list.splits)
    then show ?thesis using assms(1) by simp
  qed
qed

lemma freemem_eq:
  assumes "nbytes0 \<noteq> 0" "minheap h \<le> b" "b \<le> maxheap h" "freemem_scan h b Memlist (mnext0 h) = Some (prev, nxt)"
    and "tp = (case prev of Memlist \<Rightarrow> 0 | Blk a \<Rightarrow> a + blk_len (bytes h) a)" "b \<noteq> 0"
    and "\<not> ((prev \<noteq> Memlist \<and> b < tp) \<or> (nxt \<noteq> 0 \<and> b + roundmb nbytes0 > nxt))"
  shows "freemem b nbytes0 h = Some (let r = roundmb nbytes0; h1 = h\<lparr>mlength0 := mlength0 h + r\<rparr> in
    (case prev of
       Blk a \<Rightarrow> if tp = b then join_next a nxt (set_mlength (Blk a) (get_mlength (Blk a) h1 + r) h1)
         else join_next b nxt (set_mnext prev b (set_mlength (Blk b) r (set_mnext (Blk b) nxt h1)))
     | Memlist \<Rightarrow> join_next b nxt (set_mnext prev b (set_mlength (Blk b) r (set_mnext (Blk b) nxt h1)))), OK)"
  using assms by (cases prev) (auto simp: freemem_def join_next_def Let_def not_less)

lemma wfb_glue:
  assumes "lo < unat a" "al8 a" "al8 l" "l \<noteq> 0" "unat a + unat l < 4294967296" "wfb lo' vs"
    and "vs \<noteq> [] \<Longrightarrow> unat a + unat l \<le> unat (fst (hd vs))"
  shows "wfb lo (glue (a, l) vs)"
proof -
  have e: "unat (a + l) = unat a + unat l" using assms(5) by (rule unat_add_small)
  show ?thesis
  proof (cases vs)
    case Nil
    then show ?thesis using assms by (simp add: glue_def)
  next
    case (Cons x vs')
    obtain c k where x: "x = (c, k)" by (cases x)
    note c = assms(6) [unfolded Cons x, simplified]
    show ?thesis
    proof (cases "a + l = c")
      case True
      then have "unat (l + k) = unat l + unat k" using c e by (intro unat_add_small) simp
      moreover have "al8 (l + k)" using assms(3) c calculation by (simp add: al8_def mod8_simps)
      moreover have "l + k \<noteq> 0" using calculation(1) assms(4) by (auto simp: word_unat_eq_iff)
      ultimately show ?thesis using True Cons x c e assms by (auto simp: glue_def add_ac)
    next
      case False
      then have "unat a + unat l \<noteq> unat c" using e by (auto simp: word_unat_eq_iff)
      then have "unat a + unat l < unat c" using assms(7) Cons x by simp
      then show ?thesis using False Cons x c assms by (auto simp: glue_def)
    qed
  qed
qed

lemma freemem_spec:
  assumes f: "free_list h (us @ vs)" and us: "\<And>a l. (a, l) \<in> set us \<Longrightarrow> a < b" and vs: "\<And>a l. (a, l) \<in> set vs \<Longrightarrow> b \<le> a"
    and b: "al8 b" "b \<noteq> 0" "minheap h \<le> b" "b \<le> maxheap h" and n: "n \<noteq> 0" "roundmb n \<noteq> 0"
    and fit: "unat b + unat (roundmb n) < 4294967296"
  obtains (overlap) "(us \<noteq> [] \<and> b < topof us) \<or> (vs \<noteq> [] \<and> fst (hd vs) < b + roundmb n)" "freemem b n h = Some (h, SYSERR)"
  | (freed) h' where "\<not> ((us \<noteq> [] \<and> b < topof us) \<or> (vs \<noteq> [] \<and> fst (hd vs) < b + roundmb n))"
      "freemem b n h = Some (h', OK)" "free_list h' (merged b (roundmb n) us vs)"
      "mlength0 h' = mlength0 h + roundmb n" "minheap h' = minheap h" "maxheap h' = maxheap h"
      "\<And>c. \<not> in_free ((b, roundmb n) # us @ vs) c \<Longrightarrow> bytes h' c = bytes h c"
proof -
  define r where "r = roundmb n"
  have r: "al8 r" "r \<noteq> 0" "unat b + unat r < 4294967296" using n fit by (simp_all add: r_def)
  have br: "unat (b + r) = unat b + unat r" using r(3) by (rule unat_add_small)
  have wf: "wfb 0 (us @ vs)" using f by (simp add: free_list_def)
  have wus: "wfb 0 us" and wvs: "wfb 0 vs" using wf wfb_mono by (auto simp: wfb_append)
  have ap: "apart us" "apart vs" "fst ` set us \<inter> fst ` set vs = {}"
    using wfb_apart [OF wf] by (simp_all add: apart_append)
  obtain nxt where sc: "freemem_scan h b Memlist (mnext0 h) = Some (lastblk us, nxt)" "hseg h us nxt"
    "fseg (bytes h) nxt vs 0" "nxt = (if vs = [] then 0 else fst (hd vs))"
    "(case lastblk us of Memlist \<Rightarrow> 0 | Blk a \<Rightarrow> a + blk_len (bytes h) a) = topof us"
    by (rule freemem_scan_split [OF f us vs])
  have nz: "nxt \<noteq> 0 \<longleftrightarrow> vs \<noteq> []" using sc(4) wvs by (cases vs) auto
  have lm: "lastblk us \<noteq> Memlist \<longleftrightarrow> us \<noteq> []" by (simp add: lastblk_def)
  show thesis
  proof (cases "(us \<noteq> [] \<and> b < topof us) \<or> (vs \<noteq> [] \<and> fst (hd vs) < b + r)")
    case True
    then have "freemem b n h = Some (h, SYSERR)"
      using sc nz lm n(1) b by (auto simp: freemem_def Let_def r_def not_less)
    then show thesis using True by (intro overlap) (simp_all add: r_def)
  next
    case False
    then have ov: "\<not> ((lastblk us \<noteq> Memlist \<and> b < topof us) \<or> (nxt \<noteq> 0 \<and> b + r > nxt))"
      using sc(4) nz lm by auto
    have hi: "unat b + unat r \<le> unat (fst (hd vs))" if "vs \<noteq> []"
      using that False br by (auto simp: not_less word_le_nat_alt)
    have bvs: "b \<notin> fst ` set vs"
    proof
      assume "b \<in> fst ` set vs"
      then have ne: "vs \<noteq> []" and "\<exists>k. (b, k) \<in> set vs" by auto
      then obtain k where k: "(b, k) \<in> set vs" by blast
      have "unat (fst (hd vs)) \<le> unat b"
        using k wvs ne wfb_split(9) [of 0 "[]" "fst (hd vs)" "snd (hd vs)" "tl vs" b k] by (cases vs) auto
      moreover have "0 < unat r" using r(2) by (simp add: unat_gt_0)
      ultimately show False using hi [OF ne] by linarith
    qed
    have bus: "b \<notin> fst ` set us" using us by force
    let ?h1 = "h\<lparr>mlength0 := mlength0 h + r\<rparr>"
    note fe = freemem_eq [OF n(1) b(3,4) sc(1) sc(5) [symmetric] b(2) ov [unfolded r_def], folded r_def]
    have nin: "\<not> (unat b \<le> unat c \<and> unat c < unat b + 8)" if "\<not> in_free ((b, r) # us @ vs) c" for c
      using that al8_pos [OF r(1,2)] by (auto simp: in_free_def)
    show thesis
    proof (cases "us \<noteq> [] \<and> topof us = b")
      case True
      then obtain us' a l where us': "us = us' @ [(a, l)]" "a + l = b" "lastblk us = Blk a"
        by (cases us rule: rev_cases) (auto simp: topof_def lastblk_def)
      note al = wfb_split [OF wus [unfolded us'(1)]]
      have ab: "unat b = unat a + unat l" using al(6) us'(2) unat_add_small [of a l] by simp
      have lr: "unat (l + r) = unat l + unat r" using ab r(3) by (intro unat_add_small) simp
      have lena: "blk_len (bytes h) a = l" using sc(2) us'(1) by (auto simp: fseg_append)
      define h' where "h' = join_next a nxt (set_mlength (Blk a) (l + r) ?h1)"
      have ret: "freemem b n h = Some (h', OK)"
        using fe True us'(3) lena by (simp add: h'_def Let_def)
      have app: "apart (us' @ (a, l) # vs)" and app': "apart (us' @ (a, l + r) # vs)"
        using ap us'(1) by (auto simp: apart_append apart_Cons)
      have "hseg ?h1 (us' @ (a, l) # vs) 0" using sc(2,3) us'(1) by (auto simp: fseg_append)
      then have "hseg (set_mlength (Blk a) (l + r) ?h1) (us' @ (a, l + r) # vs) 0"
        by (rule hseg_set_len [OF _ app])
      then have "hseg h' (us' @ glue (a, l + r) vs) 0"
        unfolding h'_def
      proof (rule join_next_hseg [OF _ app' _ sc(4)])
        have "a + (l + r) = b + r" using us'(2) by (simp add: add.assoc [symmetric])
        then show "a + (l + r) \<noteq> 0" using br r(2) by (auto simp: word_unat_eq_iff)
      qed
      moreover have "wfb 0 (us' @ glue (a, l + r) vs)"
      proof -
        have "wfb (if us' = [] then 0 else unat (fst (last us')) + unat (snd (last us'))) ((a, l) # vs)"
          using wf us'(1) by (auto simp: wfb_append)
        then have "wfb (if us' = [] then 0 else unat (fst (last us')) + unat (snd (last us'))) (glue (a, l + r) vs)"
          using lr ab r hi by (intro wfb_glue [where lo' = "unat a + unat l"])
            (auto simp: al8_def mod8_simps word_unat_eq_iff)
        then show ?thesis using al(1) by (auto simp: wfb_append)
      qed
      ultimately have "free_list h' (merged b r us vs)"
        using True us'(1) by (simp add: free_list_def merged_def)
      moreover have "bytes h' c = bytes h c" if "\<not> in_free ((b, r) # us @ vs) c" for c
      proof -
        have "\<not> in_free us c" using that by (auto simp: in_free_def)
        then have "\<not> (unat a \<le> unat c \<and> unat c < unat a + 8)"
          using not_in_free_header [OF wus, of a l c] us'(1) by simp
        then show ?thesis using al(3) by (simp add: h'_def join_next_frame set_blk_frame)
      qed
      ultimately show thesis
        using False ret by (intro freed [of h']) (simp_all add: r_def [symmetric] h'_def join_next_frame)
    next
      case nt: False
      define h' where "h' = join_next b nxt (set_mnext (lastblk us) b (set_mlength (Blk b) r (set_mnext (Blk b) nxt ?h1)))"
      have ret: "freemem b n h = Some (h', OK)"
        using fe nt lm by (cases "lastblk us") (auto simp: h'_def Let_def)
      have app: "apart (us @ (b, r) # vs)" using ap bus bvs b(1) by (auto simp: apart_append apart_Cons)
      have "hseg (set_mnext (lastblk us) b (set_mlength (Blk b) r (set_mnext (Blk b) nxt ?h1))) (us @ (b, r) # vs) 0"
        using sc(2,3) by (intro hseg_link [OF _ _ wus app]) simp_all
      then have "hseg h' (us @ glue (b, r) vs) 0"
        unfolding h'_def
      proof (rule join_next_hseg [OF _ app _ sc(4)])
        show "b + r \<noteq> 0" using br r(2) by (auto simp: word_unat_eq_iff)
      qed
      moreover have "wfb 0 (us @ glue (b, r) vs)"
      proof -
        have "(if us = [] then 0 else unat (fst (last us)) + unat (snd (last us))) < unat b"
        proof (cases us rule: rev_cases)
          case Nil
          then show ?thesis using b(2) by (simp add: unat_gt_0)
        next
          case (snoc us' x)
          obtain a l where x: "x = (a, l)" by (cases x)
          note al = wfb_split [OF wus [unfolded snoc x]]
          have "unat (a + l) = unat a + unat l" using al(6) by (rule unat_add_small)
          moreover have "\<not> b < a + l" "a + l \<noteq> b" using nt False snoc x by (auto simp: topof_def)
          ultimately show ?thesis
            using snoc x by (auto simp: not_less word_le_nat_alt word_unat_eq_iff)
        qed
        then have "wfb (if us = [] then 0 else unat (fst (last us)) + unat (snd (last us))) (glue (b, r) vs)"
          using b(1) r hi wvs by (intro wfb_glue [where lo' = 0]) auto
        then show ?thesis using wus by (auto simp: wfb_append)
      qed
      ultimately have "free_list h' (merged b r us vs)"
        using nt by (auto simp: free_list_def merged_def)
      moreover have "bytes h' c = bytes h c" if "\<not> in_free ((b, r) # us @ vs) c" for c
      proof -
        have "\<not> in_free us c" using that by (auto simp: in_free_def)
        then show ?thesis
          using nin [OF that] b(1) set_mnext_bytes_frame [OF wus subset_refl wus]
          by (simp add: h'_def join_next_frame set_blk_frame)
      qed
      ultimately show thesis
        using False ret by (intro freed [of h']) (simp_all add: r_def [symmetric] h'_def join_next_frame)
    qed
  qed
qed

section \<open>Allocation from the end of a block\<close>

lemma getstk_skip:
  "fseg (bytes h) p ws r \<Longrightarrow> (\<And>a l. (a, l) \<in> set ws \<Longrightarrow> a \<noteq> 0 \<and> l < n)
   \<Longrightarrow> getstk_scan h n prev p f fp = getstk_scan h n (if ws = [] then prev else Blk (fst (last ws))) r f fp"
proof (induction ws arbitrary: p prev)
  case (Cons x ws)
  obtain a l where x: "x = (a, l)" by (cases x)
  with Cons.prems have pa: "p = a" "blk_len (bytes h) a = l" "fseg (bytes h) (blk_next (bytes h) a) ws r"
    "a \<noteq> 0" "\<not> n \<le> l" by (auto simp: not_le)
  have "getstk_scan h n prev p f fp = getstk_scan h n (Blk a) (blk_next (bytes h) a) f fp"
    using pa by (subst getstk_scan.simps) simp
  also have "\<dots> = getstk_scan h n (if ws = [] then Blk a else Blk (fst (last ws))) r f fp"
    by (rule Cons.IH [OF pa(3)]) (use Cons.prems(2) in auto)
  finally show ?case using x by simp
qed simp

lemma getstk_run:
  "fseg (bytes h) p ws r \<Longrightarrow> (\<And>a l. (a, l) \<in> set ws \<Longrightarrow> a \<noteq> 0)
   \<Longrightarrow> \<exists>f' fp'. getstk_scan h n prev p f fp = getstk_scan h n (if ws = [] then prev else Blk (fst (last ws))) r f' fp'"
proof (induction ws arbitrary: p prev f fp)
  case Nil
  then show ?case by auto
next
  case (Cons x ws)
  obtain a l where x: "x = (a, l)" by (cases x)
  with Cons.prems have pa: "p = a" "fseg (bytes h) (blk_next (bytes h) a) ws r" "a \<noteq> 0" by auto
  have "\<exists>f1 fp1. getstk_scan h n prev p f fp = getstk_scan h n (Blk a) (blk_next (bytes h) a) f1 fp1"
    using pa by (subst getstk_scan.simps) auto
  then obtain f1 fp1 where "getstk_scan h n prev p f fp = getstk_scan h n (Blk a) (blk_next (bytes h) a) f1 fp1" by blast
  moreover have "\<exists>f' fp'. getstk_scan h n (Blk a) (blk_next (bytes h) a) f1 fp1
      = getstk_scan h n (if ws = [] then Blk a else Blk (fst (last ws))) r f' fp'"
    by (rule Cons.IH [OF pa(2)]) (use Cons.prems(2) in auto)
  then obtain f' fp' where "getstk_scan h n (Blk a) (blk_next (bytes h) a) f1 fp1
      = getstk_scan h n (if ws = [] then Blk a else Blk (fst (last ws))) r f' fp'" by blast
  ultimately show ?case using x by (intro exI [of _ f'] exI [of _ fp']) simp
qed

text \<open>The last block that is long enough, if any.\<close>

lemma last_block:
  fixes n :: u32
  obtains (none) "\<And>a l. (a, l) \<in> set xs \<Longrightarrow> l < n"
  | (some) us a l vs where "xs = us @ (a, l) # vs" "\<And>b k. (b, k) \<in> set vs \<Longrightarrow> k < n" "n \<le> l"
proof (cases "\<exists>x \<in> set xs. n \<le> snd x")
  case True
  then obtain us x vs where "xs = us @ x # vs" "n \<le> snd x" "\<forall>y \<in> set vs. \<not> n \<le> snd y"
    using split_list_last_prop [OF True] by blast
  then show thesis by (intro some [of us "fst x" "snd x" vs]) (auto simp: not_le)
next
  case False
  then show thesis by (intro none) force
qed

text \<open>Unlinking a block.\<close>

lemma remove_block:
  assumes f: "free_list h (us @ (a, l) # vs)"
  defines "h' \<equiv> set_mnext (lastblk us) (blk_next (bytes h) a) h"
  shows "hseg h' (us @ vs) 0" "wfb 0 (us @ vs)"
    and "\<And>c. \<not> in_free (us @ (a, l) # vs) c \<Longrightarrow> bytes h' c = bytes h c"
proof -
  have wf: "wfb 0 (us @ (a, l) # vs)" using f by (simp add: free_list_def)
  note sp = wfb_split [OF wf]
  have segs: "hseg h us a" "fseg (bytes h) (blk_next (bytes h) a) vs 0"
    using f by (auto simp: free_list_def fseg_append)
  have disj: "(b, k) \<notin> set us" if "(b, j) \<in> set vs" for b j k
    using sp(8) [of b k] sp(9) [OF that] by fastforce
  have vs8: "al8 b" if "(b, k) \<in> set vs" for b k using wfb_al8 [OF sp(7) that] .
  have "fseg (bytes h') (blk_next (bytes h) a) vs 0 = fseg (bytes h) (blk_next (bytes h) a) vs 0"
    unfolding h'_def by (rule fseg_set_mnext_other [OF sp(1) vs8 disj])
  then show "hseg h' (us @ vs) 0"
    using hseg_rebuild [OF segs(1) sp(1)] segs(2) unfolding h'_def by blast
  show "wfb 0 (us @ vs)"
    using wf sp(6,8,7) wfb_mono [OF sp(7)] last_in_set [of us]
    by (cases us rule: rev_cases) (fastforce simp: wfb_append)+
  show "bytes h' c = bytes h c" if "\<not> in_free (us @ (a, l) # vs) c" for c
    unfolding h'_def by (rule set_mnext_bytes_frame [OF sp(1) _ wf that]) auto
qed

lemma getstk_spec:
  assumes f: "free_list h xs" and n: "n \<noteq> 0" "roundmb n \<noteq> 0"
  obtains (none) "\<And>a l. (a, l) \<in> set xs \<Longrightarrow> l < roundmb n" "getstk n h = Some (h, PSYSERR)"
  | (some) us a l vs h' xs' where "xs = us @ (a, l) # vs" "\<And>b k. (b, k) \<in> set vs \<Longrightarrow> k < roundmb n"
      "roundmb n \<le> l" "getstk n h = Some (h', a + l - 4)" "free_list h' xs'"
      "xs' = us @ (if l = roundmb n then [] else [(a, l - roundmb n)]) @ vs"
      "mlength0 h' = mlength0 h - roundmb n" "minheap h' = minheap h" "maxheap h' = maxheap h"
      "\<And>c. \<not> in_free xs c \<Longrightarrow> bytes h' c = bytes h c"
proof -
  define r where "r = roundmb n"
  have r8: "al8 r" "r \<noteq> 0" using n by (simp_all add: r_def)
  have seg: "hseg h xs 0" and wf: "wfb 0 xs" using f by (simp_all add: free_list_def)
  have nz: "(a, l) \<in> set xs \<Longrightarrow> a \<noteq> 0" for a l using wfb_mem [OF wf, of a l] by auto
  show thesis
  proof (cases rule: last_block [of xs r])
    case none
    have "getstk_scan h r Memlist (mnext0 h) 0 Memlist
        = getstk_scan h r (if xs = [] then Memlist else Blk (fst (last xs))) 0 0 Memlist"
      by (rule getstk_skip [OF seg]) (use none nz in blast)
    also have "\<dots> = Some (0, Memlist)" by (subst getstk_scan.simps) simp
    finally have "getstk n h = Some (h, PSYSERR)" using n(1) by (simp add: getstk_def r_def Let_def)
    then show thesis using none by (intro that(1)) (simp_all add: r_def)
  next
    case (some us a l vs)
    note sp = wfb_split [OF wf [unfolded some(1)]]
    have a0: "a \<noteq> 0" using sp(2) by auto
    have segs: "hseg h us a" "blk_len (bytes h) a = l" "fseg (bytes h) (blk_next (bytes h) a) vs 0"
      using seg some(1) by (auto simp: fseg_append)
    obtain f1 fp1 where "getstk_scan h r Memlist (mnext0 h) 0 Memlist
        = getstk_scan h r (if us = [] then Memlist else Blk (fst (last us))) a f1 fp1"
      using getstk_run [OF segs(1), of r Memlist 0 Memlist] nz some(1) by auto
    also have "\<dots> = getstk_scan h r (Blk a) (blk_next (bytes h) a) a (lastblk us)"
      using a0 segs(2) some(3) by (subst getstk_scan.simps) (simp add: lastblk_def)
    also have "\<dots> = getstk_scan h r (if vs = [] then Blk a else Blk (fst (last vs))) 0 a (lastblk us)"
      by (rule getstk_skip [OF segs(3)]) (use some nz in auto)
    also have "\<dots> = Some (a, lastblk us)" by (subst getstk_scan.simps) simp
    finally have sc: "getstk_scan h r Memlist (mnext0 h) 0 Memlist = Some (a, lastblk us)" .
    show thesis
    proof (cases "l = r")
      case True
      define h' where "h' = (set_mnext (lastblk us) (blk_next (bytes h) a) h)\<lparr>mlength0 := mlength0 h - r\<rparr>"
      note rem = remove_block [OF f [unfolded some(1)]]
      have "getstk n h = Some (h', a + l - 4)"
        using n(1) sc a0 segs(2) True by (simp add: getstk_def Let_def r_def [symmetric] h'_def)
      then show thesis
        using True some rem
        by (intro that(2) [of us a l vs h' "us @ vs"]) (simp_all add: r_def h'_def free_list_def)
    next
      case False
      then have lt: "unat r < unat l" using some(3) by (simp add: word_le_nat_alt word_unat_eq_iff)
      have uk: "unat (l - r) = unat l - unat r" using lt by (simp add: unat_sub_if_size)
      define h' where "h' = (set_mlength (Blk a) (l - r) h)\<lparr>mlength0 := mlength0 h - r\<rparr>"
      have ret: "getstk n h = Some (h', a + l - 4)"
        using n(1) sc a0 segs(2) False sp(3)
        by (simp add: getstk_def Let_def r_def [symmetric] h'_def blk_simps algebra_simps)
      have "hseg (set_mlength (Blk a) (l - r) h) (us @ (a, l - r) # vs) 0"
        using hseg_set_len [OF seg [unfolded some(1)]] wfb_apart [OF wf] some(1) by simp
      then have "hseg h' (us @ (a, l - r) # vs) 0" by (simp add: h'_def)
      moreover have "wfb 0 (us @ (a, l - r) # vs)"
      proof -
        have "wfb (if us = [] then 0 else unat (fst (last us)) + unat (snd (last us))) ((a, l) # vs)"
          using wf some(1) by (simp add: wfb_append)
        then have "wfb (if us = [] then 0 else unat (fst (last us)) + unat (snd (last us))) ((a, l - r) # vs)"
          using uk lt r8(1) wfb_mono [OF sp(7)] False by (auto simp: al8_def mod8_simps)
        then show ?thesis using sp(1) by (simp add: wfb_append)
      qed
      ultimately have fl: "free_list h' (us @ (a, l - r) # vs)" by (simp add: free_list_def)
      have fr: "bytes h' c = bytes h c" if "\<not> in_free xs c" for c
        using not_in_free_header [OF wf _ that, of a l] some(1) sp(3) by (simp add: h'_def set_blk_frame)
      show thesis
        using False some ret fl fr
        by (intro that(2) [of us a l vs h' "us @ (a, l - r) # vs"]) (simp_all add: r_def h'_def)
    qed
  qed
qed

section \<open>The allocator as list operations\<close>

text \<open>
  First fit from the front of a block, last fit from the end of a block, and insertion in address
  order that refuses an overlap and coalesces on both sides, on blocks as pairs of numbers.
\<close>

definition blocks_of :: "block list \<Rightarrow> (nat \<times> nat) list" where
  "blocks_of xs = map (\<lambda>(a, l). (unat a, unat l)) xs"

fun first_fit :: "nat \<Rightarrow> (nat \<times> nat) list \<Rightarrow> ((nat \<times> nat) list \<times> nat) option" where
  "first_fit r [] = None"
| "first_fit r ((a, l) # xs) =
     (if l = r then Some (xs, a)
      else if l > r then Some ((a + r, l - r) # xs, a)
      else map_option (\<lambda>(ys, b). ((a, l) # ys, b)) (first_fit r xs))"

fun last_fit :: "nat \<Rightarrow> (nat \<times> nat) list \<Rightarrow> ((nat \<times> nat) list \<times> nat) option" where
  "last_fit r [] = None"
| "last_fit r ((a, l) # xs) =
     (case last_fit r xs of
        Some (ys, b) \<Rightarrow> Some ((a, l) # ys, b)
      | None \<Rightarrow> if l = r then Some (xs, a) else if l > r then Some ((a, l - r) # xs, a + (l - r)) else None)"

fun free_insert :: "nat \<Rightarrow> nat \<Rightarrow> (nat \<times> nat) list \<Rightarrow> (nat \<times> nat) list option" where
  "free_insert b r [] = Some [(b, r)]"
| "free_insert b r ((a, l) # xs) =
     (if b \<le> a then
        (if a < b + r then None
         else if a = b + r then Some ((b, r + l) # xs) else Some ((b, r) # (a, l) # xs))
      else if b < a + l then None
      else if a + l = b then
        (case xs of
           [] \<Rightarrow> Some [(a, l + r)]
         | (c, k) # ys \<Rightarrow>
             if c < b + r then None
             else if c = b + r then Some ((a, l + r + k) # ys) else Some ((a, l + r) # xs))
      else map_option (\<lambda>ys. (a, l) # ys) (free_insert b r xs))"

lemma blocks_of_simps [simp]:
  "blocks_of [] = []" "blocks_of ((a, l) # xs) = (unat a, unat l) # blocks_of xs"
  "blocks_of (xs @ ys) = blocks_of xs @ blocks_of ys"
  by (simp_all add: blocks_of_def)

lemma first_fit_none: "(\<And>a l. (a, l) \<in> set xs \<Longrightarrow> l < r) \<Longrightarrow> first_fit r xs = None"
  by (induction r xs rule: first_fit.induct) fastforce+

lemma first_fit_some:
  "(\<And>b k. (b, k) \<in> set us \<Longrightarrow> k < r) \<Longrightarrow> r \<le> l \<Longrightarrow>
   first_fit r (us @ (a, l) # vs) = Some (us @ (if l = r then [] else [(a + r, l - r)]) @ vs, a)"
proof (induction us)
  case (Cons x us)
  obtain b k where x: "x = (b, k)" by (cases x)
  then have "k < r" using Cons.prems(1) [of b k] by simp
  moreover have "first_fit r (us @ (a, l) # vs) = Some (us @ (if l = r then [] else [(a + r, l - r)]) @ vs, a)"
    by (rule Cons.IH [OF _ Cons.prems(2)]) (use Cons.prems(1) in auto)
  ultimately show ?case using x by simp
qed auto

lemma last_fit_none: "(\<And>a l. (a, l) \<in> set xs \<Longrightarrow> l < r) \<Longrightarrow> last_fit r xs = None"
proof (induction r xs rule: last_fit.induct)
  case (2 r a l xs)
  then have "last_fit r xs = None" "l < r" by auto
  then show ?case by simp
qed simp

lemma last_fit_some:
  assumes "\<And>b k. (b, k) \<in> set vs \<Longrightarrow> k < r" "r \<le> l"
  shows "last_fit r (us @ (a, l) # vs) = Some (us @ (if l = r then [] else [(a, l - r)]) @ vs, a + (l - r))"
proof (induction us)
  case Nil
  then show ?case using last_fit_none [OF assms(1), of vs] assms(2) by auto
qed auto

lemma blocks_of_mem: "(b, k) \<in> set (blocks_of xs) \<Longrightarrow> \<exists>a l. (a, l) \<in> set xs \<and> b = unat a \<and> k = unat l"
  by (auto simp: blocks_of_def)

lemma getmem_refines:
  assumes f: "free_list h xs" and n: "n \<noteq> 0" "unat n + 7 < 4294967296"
  shows "case first_fit ((unat n + 7) div 8 * 8) (blocks_of xs) of
      None \<Rightarrow> getmem n h = Some (h, PSYSERR)
    | Some (ys, b) \<Rightarrow> \<exists>h' xs' a. getmem n h = Some (h', a) \<and> unat a = b \<and> free_list h' xs' \<and> blocks_of xs' = ys
        \<and> (\<forall>c. \<not> in_free xs c \<longrightarrow> bytes h' c = bytes h c)"
proof -
  have r: "unat (roundmb n) = (unat n + 7) div 8 * 8" using n(2) by (rule unat_roundmb)
  have "0 < unat n" using n(1) by (simp add: unat_gt_0)
  then have "0 < (unat n + 7) div 8 * 8" by (simp add: div_greater_zero_iff)
  then have r0: "roundmb n \<noteq> 0" using r by auto
  show ?thesis
  proof (rule getmem_spec [OF f n(1) r0])
    assume none: "\<And>a l. (a, l) \<in> set xs \<Longrightarrow> l < roundmb n" "getmem n h = Some (h, PSYSERR)"
    have "first_fit (unat (roundmb n)) (blocks_of xs) = None"
      by (rule first_fit_none) (use none(1) blocks_of_mem in \<open>fastforce simp: word_less_nat_alt\<close>)
    then show ?thesis using none(2) r by simp
  next
    fix us a l vs h' xs'
    assume *: "xs = us @ (a, l) # vs" "\<And>b k. (b, k) \<in> set us \<Longrightarrow> k < roundmb n" "roundmb n \<le> l"
      "getmem n h = Some (h', a)" "free_list h' xs'"
      "xs' = us @ (if l = roundmb n then [] else [(a + roundmb n, l - roundmb n)]) @ vs"
      "\<And>c. \<not> in_free xs c \<Longrightarrow> bytes h' c = bytes h c"
    have le: "unat (roundmb n) \<le> unat l" using *(3) by (simp add: word_le_nat_alt)
    have "first_fit (unat (roundmb n)) (blocks_of us @ (unat a, unat l) # blocks_of vs) =
      Some (blocks_of us @ (if unat l = unat (roundmb n) then [] else [(unat a + unat (roundmb n), unat l - unat (roundmb n))]) @ blocks_of vs, unat a)"
      by (rule first_fit_some [OF _ le]) (use *(2) blocks_of_mem in \<open>fastforce simp: word_less_nat_alt\<close>)
    moreover have "unat (a + roundmb n) = unat a + unat (roundmb n)" "unat (l - roundmb n) = unat l - unat (roundmb n)"
      using le wfb_split(6) [of 0 us a l vs] f *(1)
      by (simp_all add: unat_add_small free_list_def unat_sub_if_size)
    ultimately have ff: "first_fit (unat (roundmb n)) (blocks_of xs) = Some (blocks_of xs', unat a)"
      using *(1,6) by (cases "l = roundmb n") (simp_all add: word_unat_eq_iff)
    show ?thesis unfolding r [symmetric] ff using *(4,5,7) by auto
  qed
qed

lemma getstk_refines:
  assumes f: "free_list h xs" and n: "n \<noteq> 0" "unat n + 7 < 4294967296"
  shows "case last_fit ((unat n + 7) div 8 * 8) (blocks_of xs) of
      None \<Rightarrow> getstk n h = Some (h, PSYSERR)
    | Some (ys, b) \<Rightarrow> \<exists>h' xs' a. getstk n h = Some (h', a) \<and> unat a = b + (unat n + 7) div 8 * 8 - 4
        \<and> free_list h' xs' \<and> blocks_of xs' = ys \<and> (\<forall>c. \<not> in_free xs c \<longrightarrow> bytes h' c = bytes h c)"
proof -
  have r: "unat (roundmb n) = (unat n + 7) div 8 * 8" using n(2) by (rule unat_roundmb)
  have "0 < unat n" using n(1) by (simp add: unat_gt_0)
  then have rp: "0 < (unat n + 7) div 8 * 8" by (simp add: div_greater_zero_iff)
  then have r0: "roundmb n \<noteq> 0" using r by auto
  show ?thesis
  proof (rule getstk_spec [OF f n(1) r0])
    assume none: "\<And>a l. (a, l) \<in> set xs \<Longrightarrow> l < roundmb n" "getstk n h = Some (h, PSYSERR)"
    have "last_fit (unat (roundmb n)) (blocks_of xs) = None"
      by (rule last_fit_none) (use none(1) blocks_of_mem in \<open>fastforce simp: word_less_nat_alt\<close>)
    then show ?thesis using none(2) r by simp
  next
    fix us a l vs h' xs'
    assume *: "xs = us @ (a, l) # vs" "\<And>b k. (b, k) \<in> set vs \<Longrightarrow> k < roundmb n" "roundmb n \<le> l"
      "getstk n h = Some (h', a + l - 4)" "free_list h' xs'"
      "xs' = us @ (if l = roundmb n then [] else [(a, l - roundmb n)]) @ vs"
      "\<And>c. \<not> in_free xs c \<Longrightarrow> bytes h' c = bytes h c"
    have le: "unat (roundmb n) \<le> unat l" using *(3) by (simp add: word_le_nat_alt)
    have "last_fit (unat (roundmb n)) (blocks_of us @ (unat a, unat l) # blocks_of vs) =
      Some (blocks_of us @ (if unat l = unat (roundmb n) then [] else [(unat a, unat l - unat (roundmb n))]) @ blocks_of vs,
        unat a + (unat l - unat (roundmb n)))"
      by (rule last_fit_some [OF _ le]) (use *(2) blocks_of_mem in \<open>fastforce simp: word_less_nat_alt\<close>)
    moreover note le
    moreover have al: "unat (a + l) = unat a + unat l" "unat (l - roundmb n) = unat l - unat (roundmb n)"
      using le wfb_split(6) [of 0 us a l vs] f *(1)
      by (simp_all add: unat_add_small free_list_def unat_sub_if_size)
    moreover have "8 \<le> unat l" using wfb_split(4,5) [of 0 us a l vs] f *(1) by (intro al8_pos) (auto simp: free_list_def)
    then have "unat (a + l - 4) = unat a + unat l - 4" using al(1) by (simp add: unat_sub_if_size)
    moreover have "unat a + (unat l - unat (roundmb n)) + unat (roundmb n) - 4 = unat a + unat l - 4"
      using le by simp
    ultimately have ff: "last_fit (unat (roundmb n)) (blocks_of xs) = Some (blocks_of xs', unat a + (unat l - unat (roundmb n)))"
      and ad: "unat (a + l - 4) = unat a + (unat l - unat (roundmb n)) + unat (roundmb n) - 4"
      using *(1,6) by (cases "l = roundmb n"; simp add: word_unat_eq_iff)+
    show ?thesis unfolding r [symmetric] ff using *(4,5,7) ad by auto
  qed
qed

lemma free_insert_split:
  assumes wf: "wfb 0 (us @ vs)" and us: "\<And>a l. (a, l) \<in> set us \<Longrightarrow> a < b" and vs: "\<And>a l. (a, l) \<in> set vs \<Longrightarrow> b \<le> a"
    and fit: "unat b + unat r < 4294967296"
  shows "free_insert (unat b) (unat r) (blocks_of (us @ vs)) =
    (if (us \<noteq> [] \<and> b < topof us) \<or> (vs \<noteq> [] \<and> fst (hd vs) < b + r) then None
     else Some (blocks_of (merged b r us vs)))"
  using wf us
proof (induction us)
  case Nil
  have br: "unat (b + r) = unat b + unat r" using fit by (rule unat_add_small)
  show ?case
  proof (cases vs)
    case (Cons x vs')
    obtain c k where x: "x = (c, k)" by (cases x)
    have "b \<le> c" using vs [of c k] Cons x by simp
    moreover have "unat (r + k) = unat r + unat k" if "b + r = c"
      using Nil.prems(1) Cons x br that by (intro unat_add_small) auto
    ultimately show ?thesis
      using Cons x br by (auto simp: merged_def glue_def word_le_nat_alt word_less_nat_alt word_unat_eq_iff)
  qed (simp add: merged_def glue_def)
next
  case (Cons x us)
  obtain a l where x: "x = (a, l)" by (cases x)
  have ab: "unat a < unat b" using Cons.prems(2) [of a l] x by (simp add: word_less_nat_alt)
  have w: "unat a + unat l < 4294967296" "wfb (unat a + unat l) (us @ vs)" using Cons.prems(1) x by simp_all
  have al: "unat (a + l) = unat a + unat l" using w(1) by (rule unat_add_small)
  have br: "unat (b + r) = unat b + unat r" using fit by (rule unat_add_small)
  show ?case
  proof (cases us)
    case Nil
    have lr: "unat (l + r) = unat l + unat r" if "unat a + unat l \<le> unat b"
      using that fit by (intro unat_add_small) simp
    show ?thesis
    proof (cases vs)
      case Nil
      then show ?thesis
        using \<open>us = []\<close> x ab al lr by (auto simp: merged_def glue_def topof_def word_less_nat_alt word_unat_eq_iff)
    next
      case (Cons y vs')
      obtain c k where y: "y = (c, k)" by (cases y)
      have bc: "unat b \<le> unat c" using vs [of c k] Cons y by (simp add: word_le_nat_alt)
      have ck: "unat c + unat k < 4294967296" using w(2) \<open>us = []\<close> Cons y by simp
      have e: "a + (l + r) = b + r" if "unat a + unat l = unat b"
      proof -
        have "a + l = b" using that al by (simp add: word_unat_eq_iff)
        then show ?thesis by (simp add: add.assoc [symmetric])
      qed
      have rk: "unat (r + k) = unat r + unat k" if "b + r = c"
        using ck br that by (intro unat_add_small) auto
      have lrk: "unat (l + r + k) = unat l + unat r + unat k" if "unat a + unat l = unat b" "b + r = c"
        using that ck br lr by (subst unat_add_small) auto
      show ?thesis
        using \<open>us = []\<close> Cons x y ab bc al br lr rk lrk e
        by (auto simp: merged_def glue_def topof_def word_less_nat_alt word_unat_eq_iff)
    qed
  next
    case (Cons y us')
    obtain c k where y: "y = (c, k)" by (cases y)
    have "unat a + unat l < unat c" "unat c < unat b"
      using w(2) Cons y Cons.prems(2) [of c k] by (auto simp: word_less_nat_alt)
    moreover have "free_insert (unat b) (unat r) (blocks_of (us @ vs)) =
    (if (us \<noteq> [] \<and> b < topof us) \<or> (vs \<noteq> [] \<and> fst (hd vs) < b + r) then None
     else Some (blocks_of (merged b r us vs)))"
    proof (rule Cons.IH)
      show "wfb 0 (us @ vs)" using w(2) by (rule wfb_mono) simp
      show "d < b" if "(d, j) \<in> set us" for d j using Cons.prems(2) [of d j] that by simp
    qed
    ultimately show ?thesis
      using Cons x ab by (auto simp: merged_def topof_def)
  qed
qed

lemma freemem_refines:
  assumes f: "free_list h xs" and b: "al8 b" "b \<noteq> 0" "minheap h \<le> b" "b \<le> maxheap h"
    and n: "n \<noteq> 0" "unat b + (unat n + 7) div 8 * 8 < 4294967296"
  shows "case free_insert (unat b) ((unat n + 7) div 8 * 8) (blocks_of xs) of
      None \<Rightarrow> freemem b n h = Some (h, SYSERR)
    | Some ys \<Rightarrow> \<exists>h' xs'. freemem b n h = Some (h', OK) \<and> free_list h' xs' \<and> blocks_of xs' = ys
        \<and> (\<forall>c. \<not> in_free ((b, roundmb n) # xs) c \<longrightarrow> bytes h' c = bytes h c)"
proof -
  have "unat n + 7 < 4294967296"
  proof (rule ccontr)
    assume "\<not> unat n + 7 < 4294967296"
    then have "4294967296 \<le> (unat n + 7) div 8 * 8" by simp
    then show False using n(2) by simp
  qed
  then have r: "unat (roundmb n) = (unat n + 7) div 8 * 8" by (rule unat_roundmb)
  have "0 < unat n" using n(1) by (simp add: unat_gt_0)
  then have r0: "roundmb n \<noteq> 0" using r by (auto simp: div_greater_zero_iff)
  have wf: "wfb 0 xs" using f by (simp add: free_list_def)
  obtain us vs where xs: "xs = us @ vs" "\<And>a l. (a, l) \<in> set us \<Longrightarrow> a < b" "\<And>a l. (a, l) \<in> set vs \<Longrightarrow> b \<le> a"
    using wfb_split_at [OF wf, of b] by blast
  have fit: "unat b + unat (roundmb n) < 4294967296" using n(2) r by simp
  note fi = free_insert_split [OF wf [unfolded xs(1)] xs(2,3) fit]
  show ?thesis
  proof (rule freemem_spec [OF f [unfolded xs(1)] xs(2,3) b n(1) r0 fit])
    assume "(us \<noteq> [] \<and> b < topof us) \<or> (vs \<noteq> [] \<and> fst (hd vs) < b + roundmb n)" "freemem b n h = Some (h, SYSERR)"
    then show ?thesis using fi xs(1) r by simp
  next
    fix h'
    assume *: "\<not> ((us \<noteq> [] \<and> b < topof us) \<or> (vs \<noteq> [] \<and> fst (hd vs) < b + roundmb n))"
      "freemem b n h = Some (h', OK)" "free_list h' (merged b (roundmb n) us vs)"
      "\<And>c. \<not> in_free ((b, roundmb n) # us @ vs) c \<Longrightarrow> bytes h' c = bytes h c"
    then have "free_insert (unat b) ((unat n + 7) div 8 * 8) (blocks_of xs) = Some (blocks_of (merged b (roundmb n) us vs))"
      using fi xs(1) r by simp
    then show ?thesis using * xs(1) by auto
  qed
qed

section \<open>Round trips\<close>

lemma roundmb_al8: "al8 r \<Longrightarrow> roundmb r = r"
proof -
  assume r: "al8 r"
  have m: "unat r mod 8 = 0" using r by (simp add: al8_def)
  have "unat r + 7 < 4294967296" using al8_room [OF r] by simp
  then have "unat (roundmb r) = (unat r + 7) div 8 * 8" by (rule unat_roundmb)
  also have "\<dots> = unat r"
  proof -
    have *: "x mod 8 = 0 \<Longrightarrow> (x + 7) div 8 * 8 = x" for x :: nat by presburger
    show ?thesis by (rule * [OF m])
  qed
  finally show ?thesis by (simp add: word_unat_eq_iff)
qed

lemma wfb_gap:
  assumes "wfb 0 (us @ (a, l) # vs)"
  shows "\<And>b k. (b, k) \<in> set us \<Longrightarrow> b < a" "us \<noteq> [] \<Longrightarrow> topof us < a"
    "\<And>b k. (b, k) \<in> set vs \<Longrightarrow> a + l < b" "unat (a + l) = unat a + unat l"
proof -
  note sp = wfb_split [OF assms]
  show e: "unat (a + l) = unat a + unat l" using sp(6) by (rule unat_add_small)
  show "b < a" if "(b, k) \<in> set us" for b k using sp(8) [OF that] by (simp add: word_less_nat_alt)
  show "a + l < b" if "(b, k) \<in> set vs" for b k using sp(9) [OF that] e by (simp add: word_less_nat_alt)
  show "topof us < a" if "us \<noteq> []"
  proof -
    obtain b k where x: "last us = (b, k)" by (cases "last us")
    then have m: "(b, k) \<in> set us" using that last_in_set [OF that] by simp
    have "unat b + unat k < 4294967296" using wfb_mem [OF sp(1) m] by simp
    then have "unat (b + k) = unat b + unat k" by (rule unat_add_small)
    then show ?thesis using sp(8) [OF m] that x by (simp add: topof_def word_less_nat_alt)
  qed
qed

text \<open>Freeing what \<^verbatim>\<open>getmem\<close> returned gives back the very same free list.\<close>

lemma getmem_freemem:
  assumes f: "free_list h xs" and n: "n \<noteq> 0" "roundmb n \<noteq> 0"
    and g: "getmem n h = Some (h1, p)" "p \<noteq> PSYSERR" "minheap h \<le> p" "p \<le> maxheap h"
  obtains h2 where "freemem p n h1 = Some (h2, OK)" "free_list h2 xs" "mlength0 h2 = mlength0 h"
    "minheap h2 = minheap h" "maxheap h2 = maxheap h" "\<And>c. \<not> in_free xs c \<Longrightarrow> bytes h2 c = bytes h c"
proof (rule getmem_spec [OF f n])
  assume "getmem n h = Some (h, PSYSERR)"
  then show thesis using g by simp
next
  fix us vs xs' :: "block list" and a l :: u32 and h'
  let ?r = "roundmb n"
  let ?rest = "if l = ?r then [] else [(a + ?r, l - ?r)]"
  assume *: "xs = us @ (a, l) # vs" "?r \<le> l" "getmem n h = Some (h', a)" "free_list h' xs'" "xs' = us @ ?rest @ vs"
    "mlength0 h' = mlength0 h - ?r" "minheap h' = minheap h" "maxheap h' = maxheap h"
    "\<And>c. \<not> in_free xs c \<Longrightarrow> bytes h' c = bytes h c"
  have pa: "p = a" "h1 = h'" using g(1) *(3) by simp_all
  have wf: "wfb 0 (us @ (a, l) # vs)" using f *(1) by (simp add: free_list_def)
  note sp = wfb_split [OF wf] and gap = wfb_gap [OF wf]
  have le: "unat ?r \<le> unat l" using *(2) by (simp add: word_le_nat_alt)
  have ar: "unat (a + ?r) = unat a + unat ?r" using le sp(6) by (intro unat_add_small) simp
  have all: "a + ?r + (l - ?r) = a + l" by simp
  have lt: "a < a + ?r" using ar n(2) by (simp add: word_less_nat_alt unat_gt_0)
  have hi: "b \<ge> a + ?r" if "(b, k) \<in> set (?rest @ vs)" for b k
    using that gap(3) [of b k] gap(4) ar le
    by (auto simp: word_le_nat_alt word_less_nat_alt split: if_splits)
  have a0: "a \<noteq> 0" using sp(2) by auto
  show thesis
  proof (rule freemem_spec [of h' us "?rest @ vs" a n])
    show "free_list h' (us @ ?rest @ vs)" using *(4,5) by simp
    show "b < a" if "(b, k) \<in> set us" for b k using gap(1) that .
    show "a \<le> b" if "(b, k) \<in> set (?rest @ vs)" for b k using hi [OF that] lt by simp
    show "unat a + unat ?r < 4294967296" using le sp(6) by simp
    assume "(us \<noteq> [] \<and> a < topof us) \<or> (?rest @ vs \<noteq> [] \<and> fst (hd (?rest @ vs)) < a + ?r)"
    moreover have "\<not> (?rest @ vs \<noteq> [] \<and> fst (hd (?rest @ vs)) < a + ?r)"
      using hi [of "fst (hd (?rest @ vs))" "snd (hd (?rest @ vs))"] hd_in_set [of "?rest @ vs"]
      by (metis not_less prod.collapse)
    ultimately show thesis using gap(2) by auto
  next
    fix h2
    assume h2: "freemem a n h' = Some (h2, OK)" "free_list h2 (merged a ?r us (?rest @ vs))"
      "mlength0 h2 = mlength0 h' + ?r" "minheap h2 = minheap h'" "maxheap h2 = maxheap h'"
      "\<And>c. \<not> in_free ((a, ?r) # us @ ?rest @ vs) c \<Longrightarrow> bytes h2 c = bytes h' c"
    have "glue (a, ?r) (?rest @ vs) = (a, l) # vs"
    proof (cases "l = ?r")
      case True
      then show ?thesis using gap(3) [of "fst (hd vs)" "snd (hd vs)"] by (cases vs) (auto simp: glue_def)
    next
      case False
      then show ?thesis by (simp add: glue_def)
    qed
    then have "merged a ?r us (?rest @ vs) = xs"
      using gap(2) *(1) by (auto simp: merged_def)
    moreover have "bytes h2 c = bytes h c" if c: "\<not> in_free xs c" for c
    proof -
      have "\<not> in_free ((a, ?r) # us @ ?rest @ vs) c"
        using c *(1) le ar gap(4) unfolding in_free_def
        by (auto simp: unat_sub_if_size split: if_splits)
      then show ?thesis using h2(6) *(9) [OF c] by simp
    qed
    ultimately show thesis using h2 * pa by (intro that [of h2]) simp_all
  qed (use sp(3) a0 g(3,4) pa * n in simp_all)
qed

lemma getstk_freestk:
  assumes f: "free_list h xs" and n: "n \<noteq> 0" "roundmb n \<noteq> 0"
    and g: "getstk n h = Some (h1, p)" "p \<noteq> PSYSERR" "minheap h \<le> p - roundmb n + 4" "p - roundmb n + 4 \<le> maxheap h"
  obtains h2 where "freestk p n h1 = Some (h2, OK)" "free_list h2 xs" "mlength0 h2 = mlength0 h"
    "minheap h2 = minheap h" "maxheap h2 = maxheap h" "\<And>c. \<not> in_free xs c \<Longrightarrow> bytes h2 c = bytes h c"
proof (rule getstk_spec [OF f n])
  assume "getstk n h = Some (h, PSYSERR)"
  then show thesis using g by simp
next
  fix us vs xs' :: "block list" and a l :: u32 and h'
  let ?r = "roundmb n"
  let ?rest = "if l = ?r then [] else [(a, l - ?r)]"
  assume *: "xs = us @ (a, l) # vs" "?r \<le> l" "getstk n h = Some (h', a + l - 4)" "free_list h' xs'" "xs' = us @ ?rest @ vs"
    "mlength0 h' = mlength0 h - ?r" "minheap h' = minheap h" "maxheap h' = maxheap h"
    "\<And>c. \<not> in_free xs c \<Longrightarrow> bytes h' c = bytes h c"
  have pa: "p = a + l - 4" "h1 = h'" using g(1) *(3) by simp_all
  let ?b = "a + (l - ?r)"
  have b: "p - ?r + 4 = ?b" using pa(1) by simp
  have wf: "wfb 0 (us @ (a, l) # vs)" using f *(1) by (simp add: free_list_def)
  note sp = wfb_split [OF wf] and gap = wfb_gap [OF wf]
  have r8: "roundmb ?r = ?r" by (rule roundmb_al8) simp
  have le: "unat ?r \<le> unat l" using *(2) by (simp add: word_le_nat_alt)
  have lr: "unat (l - ?r) = unat l - unat ?r" using le by (simp add: unat_sub_if_size)
  have br: "unat ?b = unat a + (unat l - unat ?r)" using lr sp(6) by (subst unat_add_small) simp_all
  have b8: "al8 ?b" using br sp(3,4) al8_roundmb [of n] by (simp add: al8_def mod8_simps)
  have b0: "?b \<noteq> 0" using br sp(2) by auto
  have bl: "unat ?b + unat ?r = unat a + unat l" using br le by simp
  have brl: "?b + ?r = a + l" by simp
  have ff: "freestk p n h1 = freemem ?b ?r h'" unfolding freestk_def b pa(2) ..
  have le_ab: "unat a \<le> unat ?b" using br by simp
  show thesis
  proof (rule freemem_spec [of h' "us @ ?rest" vs ?b ?r])
    show "free_list h' ((us @ ?rest) @ vs)" using *(4,5) by simp
    show "c < ?b" if "(c, k) \<in> set (us @ ?rest)" for c k
    proof (cases "(c, k) \<in> set us")
      case True
      then show ?thesis using sp(8) [of c k] le_ab by (simp add: word_less_nat_alt)
    next
      case False
      then have "c = a" "l \<noteq> ?r" using that by (auto split: if_splits)
      then show ?thesis using br le by (auto simp: word_less_nat_alt word_unat_eq_iff)
    qed
    show "?b \<le> c" if "(c, k) \<in> set vs" for c k
      using sp(9) [OF that] bl by (simp add: word_le_nat_alt)
    show "unat ?b + unat (roundmb ?r) < 4294967296" using bl sp(6) r8 by simp
    have t: "topof (us @ ?rest) \<le> ?b" if "us @ ?rest \<noteq> []"
    proof (cases "l = ?r")
      case True
      then show ?thesis using gap(2) that by simp
    qed (simp add: topof_def)
    have v: "a + l < fst (hd vs)" if "vs \<noteq> []"
      using gap(3) [of "fst (hd vs)" "snd (hd vs)"] hd_in_set [OF that] by simp
    show thesis if "(us @ ?rest \<noteq> [] \<and> ?b < topof (us @ ?rest)) \<or> (vs \<noteq> [] \<and> fst (hd vs) < ?b + roundmb ?r)"
      using that t v r8 brl by (auto simp: not_less)
    fix h2
    assume h2: "freemem ?b ?r h' = Some (h2, OK)" "free_list h2 (merged ?b (roundmb ?r) (us @ ?rest) vs)"
      "mlength0 h2 = mlength0 h' + roundmb ?r" "minheap h2 = minheap h'" "maxheap h2 = maxheap h'"
      "\<And>c. \<not> in_free ((?b, roundmb ?r) # (us @ ?rest) @ vs) c \<Longrightarrow> bytes h2 c = bytes h' c"
    have gl: "glue (a, l) vs = (a, l) # vs" using v by (cases vs) (auto simp: glue_def)
    have "merged ?b ?r (us @ ?rest) vs = xs"
    proof (cases "l = ?r")
      case True
      then show ?thesis using gap(2) gl *(1) by (auto simp: merged_def)
    next
      case False
      then show ?thesis using gl *(1) by (simp add: merged_def topof_def)
    qed
    moreover have "bytes h2 c = bytes h c" if c: "\<not> in_free xs c" for c
    proof -
      have "\<not> in_free ((?b, ?r) # (us @ ?rest) @ vs) c"
        using c *(1) bl le_ab lr unfolding in_free_def by (auto split: if_splits)
      then show ?thesis using h2(6) *(9) [OF c] r8 by simp
    qed
    ultimately show thesis using h2 * r8 ff by (intro that [of h2]) simp_all
  qed (use b8 b0 g(3,4) b r8 * n in simp_all)
qed

text \<open>A request that wraps around to zero is granted, with a block that stays on the list.\<close>

lemma getmem_wraps:
  assumes f: "free_list h ((a, l) # vs)" and n: "4294967296 \<le> unat n + 7"
  obtains h' where "getmem n h = Some (h', a)" "free_list h' ((a, l) # vs)"
proof -
  have wf: "wfb 0 ((a, l) # vs)" and seg: "hseg h ((a, l) # vs) 0" using f by (simp_all add: free_list_def)
  have n0: "n \<noteq> 0" using n by auto
  have r0: "roundmb n = 0" using n by (rule roundmb_wraps)
  have a: "al8 a" "a \<noteq> 0" "0 < l" using wf by (auto simp: word_less_nat_alt unat_gt_0)
  have sg: "mnext0 h = a" "blk_len (bytes h) a = l" "fseg (bytes h) (blk_next (bytes h) a) vs 0"
    using seg by simp_all
  define m where "m = set_blk_len a l (set_blk_next a (blk_next (bytes h) a) (bytes h))"
  define h' where "h' = h\<lparr>mnext0 := a, bytes := m, mlength0 := mlength0 h\<rparr>"
  have "getmem n h = Some (h', a)"
    using n0 r0 a sg unfolding getmem_def
    by (simp, subst getmem_loop.simps) (simp add: h'_def m_def Let_def blk_simps)
  moreover have "fseg m (mnext0 h) ((a, l) # vs) 0"
  proof -
    have "blk_next m x = blk_next (bytes h) x \<and> blk_len m x = blk_len (bytes h) x" if "al8 x" for x
      using that a(1) sg(2) by (simp add: m_def blk_simps)
    then have "fseg m (mnext0 h) ((a, l) # vs) 0 = fseg (bytes h) (mnext0 h) ((a, l) # vs) 0"
      using wfb_al8 [OF wf] by (intro fseg_cong) blast
    then show ?thesis using seg by simp
  qed
  ultimately show thesis using wf sg(1) by (intro that [of h']) (simp_all add: free_list_def h'_def)
qed

section \<open>Initialisation\<close>

lemma meminit_spec:
  assumes e: "0 < unat kend" "unat kend + 12 \<le> 655360" and m: "1048576 + 8192 + 8 \<le> unat (maxheap h)" "unat (maxheap h) + 1 < 4294967296"
  shows "free_list (meminit kend h)
      [(roundmb kend, truncmb (HOLESTART - kend - 4)), (HOLEEND, truncmb (maxheap h - HOLEEND - NULLSTK))]"
    and "minheap (meminit kend h) = kend" "maxheap (meminit kend h) = maxheap h"
    and "unat (roundmb kend) + unat (truncmb (HOLESTART - kend - 4)) \<le> 655360"
    and "unat HOLEEND + unat (truncmb (maxheap h - HOLEEND - NULLSTK)) \<le> unat (maxheap h) - 8192"
proof -
  let ?a = "roundmb kend" and ?l = "truncmb (HOLESTART - kend - 4)" and ?k = "truncmb (maxheap h - HOLEEND - NULLSTK)"
  have a: "unat ?a = (unat kend + 7) div 8 * 8" using e(2) by (intro unat_roundmb) simp
  have "unat (HOLESTART - kend - 4) = 655356 - unat kend"
    using e(2) by (simp add: unat_sub_if_size)
  then have l: "unat ?l = (655356 - unat kend) div 8 * 8" by (simp add: unat_truncmb)
  have "unat (maxheap h - HOLEEND - NULLSTK) = unat (maxheap h) - 1048576 - 8192"
    using m(1) by (simp add: unat_sub_if_size)
  then have k: "unat ?k = (unat (maxheap h) - 1048576 - 8192) div 8 * 8" by (simp add: unat_truncmb)
  have al: "unat ?a + unat ?l \<le> 655360"
  proof -
    have "(unat kend + 7) div 8 * 8 \<le> unat kend + 7" "(655356 - unat kend) div 8 * 8 \<le> 655356 - unat kend"
      by (rule div_times_less_eq_dividend)+
    then have "(unat kend + 7) div 8 + (655356 - unat kend) div 8 \<le> 81920" using e(2) by linarith
    then show ?thesis unfolding a l by linarith
  qed
  then show "unat ?a + unat ?l \<le> 655360" .
  have lk: "8 \<le> unat ?l" "8 \<le> unat ?k" unfolding l k
    using e(2) m(1) div_le_mono [of 8 "655356 - unat kend" 8] div_le_mono [of 8 "unat (maxheap h) - 1048576 - 8192" 8]
    by simp_all
  have kk: "1048576 + unat ?k \<le> unat (maxheap h) - 8192" unfolding k
    using m(1) div_times_less_eq_dividend [of "unat (maxheap h) - 1048576 - 8192" 8] by linarith
  then show "unat HOLEEND + unat ?k \<le> unat (maxheap h) - 8192" by simp
  have kx: "1048576 + unat ?k < 4294967296" using kk m(2) by linarith
  have a0: "0 < unat ?a" unfolding a using e(1) div_le_mono [of 8 "unat kend + 7" 8] by simp
  have "unat (maxheap h + 1) = unat (maxheap h) + 1" using m(2) unat_add_small [of "maxheap h" 1] by simp
  then have big: "maxheap h + 1 > HOLESTART" using m(1) by (simp add: word_less_nat_alt)
  have h8: "al8 HOLEEND" by (simp add: al8_def)
  have ne: "?a \<noteq> HOLEEND" using al lk(1) by auto
  have wf: "wfb 0 [(?a, ?l), (HOLEEND, ?k)]"
    using a0 al lk kx h8 by auto
  moreover have "fseg (bytes (meminit kend h)) (mnext0 (meminit kend h)) [(?a, ?l), (HOLEEND, ?k)] 0"
    using big h8 ne by (simp add: meminit_def Let_def blk_simps)
  ultimately show "free_list (meminit kend h) [(?a, ?l), (HOLEEND, ?k)]" by (simp add: free_list_def)
  show "minheap (meminit kend h) = kend" "maxheap (meminit kend h) = maxheap h"
    by (simp_all add: meminit_def Let_def)
qed

end
