(* ===== verification/Ctxsw.thy ===== *)
theory Ctxsw
  imports Prelude
begin

text \<open>
  The context switch \<^verbatim>\<open>ctxsw.S\<close> on an x86 register file and a byte-addressed stack, and
  the stack image that \<^verbatim>\<open>create.c\<close> builds for a new process. Saving and restoring are
  inverse, and restoring a fresh image enters the process's function with its arguments.
\<close>

record regs =
  eax :: u32
  ecx :: u32
  edx :: u32
  ebx :: u32
  esp :: u32
  ebp :: u32
  esi :: u32
  edi :: u32
  eflags :: u32
  eip :: u32

definition push :: "u32 \<Rightarrow> memory \<times> u32 \<Rightarrow> memory \<times> u32" where
  "push v = (\<lambda>(m, sp). (wr32 m (sp - 4) v, sp - 4))"

text \<open>
  The first half, from the entry (\<open>esp\<close> at the return address) to the store of the old stack
  pointer: \<^verbatim>\<open>pushl %ebp; movl %esp,%ebp; pushfl; pushal\<close>. It returns the memory and the
  stack pointer stored in the process table. \<^verbatim>\<open>pushal\<close> stores the stack pointer it started
  with.
\<close>

definition ctxsw_save :: "regs \<Rightarrow> memory \<Rightarrow> memory \<times> u32" where
  "ctxsw_save r m =
     (let (m1, sp1) = push (ebp r) (m, esp r);
          ebp1 = sp1;
          (m2, sp2) = push (eflags r) (m1, sp1)
      in (push (edi r) \<circ> push (esi r) \<circ> push ebp1 \<circ> push sp2 \<circ> push (ebx r) \<circ> push (edx r)
          \<circ> push (ecx r) \<circ> push (eax r)) (m2, sp2))"

text \<open>
  The second half, from the new stack pointer: \<^verbatim>\<open>popal; movl 4(%esp),%ebp; popfl;
  add $4,%esp; ret\<close>.
\<close>

definition ctxsw_restore :: "memory \<Rightarrow> u32 \<Rightarrow> regs" where
  "ctxsw_restore m sp =
     (let sp1 = sp + 32; sp2 = sp1 + 4; sp3 = sp2 + 4
      in \<lparr>eax = rd32 m (sp + 28), ecx = rd32 m (sp + 24), edx = rd32 m (sp + 20), ebx = rd32 m (sp + 16),
          esp = sp3 + 4, ebp = rd32 m (sp1 + 4), esi = rd32 m (sp + 4), edi = rd32 m sp,
          eflags = rd32 m sp1, eip = rd32 m sp3\<rparr>)"

abbreviation (input) STACKMAGIC :: u32 where "STACKMAGIC \<equiv> 0x0A0AAAA9"

text \<open>The stack image of \<^verbatim>\<open>create\<close>: the new memory and the saved stack pointer.\<close>

definition push_args :: "u32 list \<Rightarrow> memory \<times> u32 \<Rightarrow> memory \<times> u32" where
  "push_args args = fold push (rev args)"

definition create_stack :: "u32 \<Rightarrow> u32 \<Rightarrow> u32 list \<Rightarrow> u32 \<Rightarrow> memory \<Rightarrow> memory \<times> u32" where
  "create_stack initret funcaddr args saddr m =
     (let m1 = wr32 m saddr STACKMAGIC;
          savsp = saddr;
          (m2, s2) = push_args args (m1, saddr);
          (m3, s3) = push initret (m2, s2);
          (m4, s4) = push funcaddr (m3, s3);
          (m5, s5) = push savsp (m4, s4);
          savsp' = s5;
          (m6, s6) = push 0x200 (m5, s5);
          (m7, s7) = (push 0 \<circ> push 0 \<circ> push 0 \<circ> push 0) (m6, s6);
          (m8, s8) = push 0 (m7, s7);
          pushsp = s8;
          (m9, s9) = push savsp' (m8, s8);
          (m10, s10) = (push 0 \<circ> push 0) (m9, s9)
      in (wr32 m10 pushsp s10, s10))"

section \<open>Aligned stack words\<close>

lemma al4_dvd: "al4 a \<longleftrightarrow> 4 dvd uint a"
proof -
  have *: "x mod 4 = 0 \<longleftrightarrow> int x mod 4 = 0" for x :: nat by presburger
  show ?thesis unfolding al4_def dvd_eq_mod_eq_0 uint_nat by (rule *)
qed

lemma al4_add [simp]: "al4 a \<Longrightarrow> al4 b \<Longrightarrow> al4 (a + b)"
  and al4_sub [simp]: "al4 a \<Longrightarrow> al4 b \<Longrightarrow> al4 (a - b)"
  by (simp_all add: al4_dvd uint_word_ariths dvd_mod)

lemma al4_numerals [simp]: "al4 4" "al4 8" "al4 12" "al4 16" "al4 20" "al4 24" "al4 28" "al4 32" "al4 36" "al4 40" "al4 44" "al4 48"
  by (simp_all add: al4_def)

lemma al4_mult [simp]: "al4 (4 * of_nat i)"
  by (induction i) (simp_all add: distrib_left, simp add: al4_def)

lemma of_nat4_inj: "4 * of_nat i = (4 * of_nat j :: u32) \<Longrightarrow> i < 1073741824 \<Longrightarrow> j < 1073741824 \<Longrightarrow> i = j"
proof -
  assume e: "4 * of_nat i = (4 * of_nat j :: u32)" and ij: "i < 1073741824" "j < 1073741824"
  have "(of_nat (4 * i) :: u32) = of_nat (4 * j)" using e by simp
  then have "unat (of_nat (4 * i) :: u32) = unat (of_nat (4 * j) :: u32)" by simp
  then have "4 * i = 4 * j" using ij by (simp only: unat_of_nat) simp
  then show "i = j" by simp
qed

text \<open>Pushed words are read back, and nothing else is written.\<close>

lemma fold_push:
  assumes "al4 sp" "length vs < 1073741823"
  shows "snd (fold push vs (m, sp)) = sp - 4 * of_nat (length vs)"
    and "i < length vs \<Longrightarrow> rd32 (fst (fold push vs (m, sp))) (sp - 4 * of_nat (Suc i)) = vs ! i"
    and "al4 a \<Longrightarrow> (\<And>j. j < length vs \<Longrightarrow> a \<noteq> sp - 4 * of_nat (Suc j)) \<Longrightarrow>
      rd32 (fst (fold push vs (m, sp))) a = rd32 m a"
proof -
  have "snd (fold push vs (m, sp)) = sp - 4 * of_nat (length vs)
    \<and> (\<forall>i < length vs. rd32 (fst (fold push vs (m, sp))) (sp - 4 * of_nat (Suc i)) = vs ! i)
    \<and> (\<forall>a. al4 a \<longrightarrow> (\<forall>j < length vs. a \<noteq> sp - 4 * of_nat (Suc j)) \<longrightarrow>
        rd32 (fst (fold push vs (m, sp))) a = rd32 m a)"
    using assms(2)
  proof (induction vs rule: rev_induct)
    case (snoc v vs)
    obtain m1 s1 where ms: "fold push vs (m, sp) = (m1, s1)" by (cases "fold push vs (m, sp)")
    from snoc ms have IH: "s1 = sp - 4 * of_nat (length vs)"
      "\<And>i. i < length vs \<Longrightarrow> rd32 m1 (sp - 4 * of_nat (Suc i)) = vs ! i"
      "\<And>a. al4 a \<Longrightarrow> (\<And>j. j < length vs \<Longrightarrow> a \<noteq> sp - 4 * of_nat (Suc j)) \<Longrightarrow> rd32 m1 a = rd32 m a"
      by auto
    have s1: "s1 - 4 = sp - 4 * of_nat (Suc (length vs))" using IH(1) by (simp add: algebra_simps)
    have a1: "al4 (sp - 4 * of_nat (Suc j))" for j using assms(1) by (intro al4_sub al4_mult)
    have eq: "fold push (vs @ [v]) (m, sp) = (wr32 m1 (s1 - 4) v, s1 - 4)" using ms by (simp add: push_def)
    have "rd32 (wr32 m1 (s1 - 4) v) (sp - 4 * of_nat (Suc i)) = (vs @ [v]) ! i" if "i < Suc (length vs)" for i
    proof (cases "i = length vs")
      case False
      then have "sp - 4 * of_nat (Suc (length vs)) \<noteq> sp - 4 * of_nat (Suc i)"
        using of_nat4_inj [of "Suc (length vs)" "Suc i"] that snoc.prems by auto
      then have "rd32 (wr32 m1 (s1 - 4) v) (sp - 4 * of_nat (Suc i)) = rd32 m1 (sp - 4 * of_nat (Suc i))"
        unfolding s1 by (intro rd32_wr32_other a1)
      then show ?thesis using IH(2) [of i] that False by (simp add: nth_append)
    next
      case True
      then show ?thesis unfolding s1 by simp
    qed
    moreover have "rd32 (wr32 m1 (s1 - 4) v) a = rd32 m a"
      if "al4 a" "\<forall>j < Suc (length vs). a \<noteq> sp - 4 * of_nat (Suc j)" for a
    proof -
      have "s1 - 4 \<noteq> a" using that(2) s1 by (metis lessI)
      then have "rd32 (wr32 m1 (s1 - 4) v) a = rd32 m1 a" using that(1) a1 s1 by (metis rd32_wr32_other)
      then show ?thesis using IH(3) that by simp
    qed
    ultimately show ?case unfolding eq s1 fst_conv snd_conv length_append by simp
  qed simp
  then show "snd (fold push vs (m, sp)) = sp - 4 * of_nat (length vs)"
    and "i < length vs \<Longrightarrow> rd32 (fst (fold push vs (m, sp))) (sp - 4 * of_nat (Suc i)) = vs ! i"
    and "al4 a \<Longrightarrow> (\<And>j. j < length vs \<Longrightarrow> a \<noteq> sp - 4 * of_nat (Suc j)) \<Longrightarrow>
      rd32 (fst (fold push vs (m, sp))) a = rd32 m a" by blast+
qed

lemma ctxsw_roundtrip:
  assumes "al4 (esp r)" "ctxsw_save r m = (m', sp)"
  shows "ctxsw_restore m' sp = r\<lparr>esp := esp r + 4, eip := rd32 m (esp r)\<rparr>"
  using assms by (auto simp: ctxsw_save_def ctxsw_restore_def push_def Let_def)

text \<open>
  The image \<^verbatim>\<open>create\<close> builds, as \<^verbatim>\<open>ctxsw\<close> finds it: the function is entered with
  interrupts enabled, \<^verbatim>\<open>INITRET\<close> as its return address and its arguments above it.
\<close>

lemma create_stack_restore:
  assumes a: "al4 saddr" and n: "length args < 1073741800" and c: "create_stack initret funcaddr args saddr m = (m', sp)"
  defines "r \<equiv> ctxsw_restore m' sp"
  shows "eip r = funcaddr" "eflags r = 0x200" "ebp r = saddr" "rd32 m' (esp r) = initret"
    and "esp r = saddr - 4 * of_nat (length args) - 4"
    and "\<And>i. i < length args \<Longrightarrow> rd32 m' (esp r + 4 + 4 * of_nat i) = args ! i"
    and "rd32 m' saddr = STACKMAGIC"
proof -
  obtain m2 s2 where p: "push_args args (wr32 m saddr STACKMAGIC, saddr) = (m2, s2)"
    by (cases "push_args args (wr32 m saddr STACKMAGIC, saddr)")
  note fp = fold_push [where sp = saddr and vs = "rev args" and m = "wr32 m saddr STACKMAGIC"]
  have s2: "s2 = saddr - 4 * of_nat (length args)" using fp(1) p a n by (simp add: push_args_def)
  have al: "al4 s2" unfolding s2 using a by simp
  have args: "rd32 m2 (s2 + 4 * of_nat i) = args ! i" if "i < length args" for i
  proof -
    have r: "rd32 m2 (saddr - 4 * of_nat (Suc (length args - Suc i))) = rev args ! (length args - Suc i)"
      using fp(2) [where i = "length args - Suc i"] p a n that by (simp add: push_args_def)
    have e: "saddr - 4 * of_nat (Suc (length args - Suc i)) = s2 + 4 * of_nat i"
      using that by (simp add: s2 Suc_diff_Suc of_nat_diff algebra_simps)
    show ?thesis using r [unfolded e] that by (simp add: rev_nth)
  qed
  have magic: "rd32 m2 saddr = STACKMAGIC"
  proof -
    have "saddr \<noteq> saddr - 4 * of_nat (Suc j)" if "j < length args" for j
      using of_nat4_inj [of "Suc j" 0] that n by auto
    then have "rd32 m2 saddr = rd32 (wr32 m saddr STACKMAGIC) saddr"
      using fp(3) [where a = saddr] p a n by (simp add: push_args_def)
    then show ?thesis by simp
  qed
  have m': "sp = s2 - 48" "m' = wr32 (wr32 (wr32 (wr32 (wr32 (wr32 (wr32 (wr32 (wr32 (wr32 (wr32 (wr32 (wr32 m2 (s2 - 4) initret)
      (s2 - 8) funcaddr) (s2 - 12) saddr) (s2 - 16) 0x200) (s2 - 20) 0) (s2 - 24) 0) (s2 - 28) 0) (s2 - 32) 0)
      (s2 - 36) 0) (s2 - 40) (s2 - 12)) (s2 - 44) 0) (s2 - 48) 0) (s2 - 36) (s2 - 48)"
    using c p by (auto simp: create_stack_def push_def Let_def)
  have al': "al4 (s2 - k)" if "al4 k" for k using al that by simp
  show "eip r = funcaddr" "eflags r = 0x200" "ebp r = saddr" "rd32 m' (esp r) = initret"
    using al by (simp_all add: r_def ctxsw_restore_def m' Let_def)
  show e: "esp r = saddr - 4 * of_nat (length args) - 4" by (simp add: r_def ctxsw_restore_def m' s2 Let_def)
  have up: "rd32 m' x = rd32 m2 x" if "al4 x" "\<And>k. k \<le> 12 \<Longrightarrow> 0 < k \<Longrightarrow> x \<noteq> s2 - 4 * of_nat k" for x
  proof -
    have "x \<noteq> s2 - 4" "x \<noteq> s2 - 8" "x \<noteq> s2 - 12" "x \<noteq> s2 - 16" "x \<noteq> s2 - 20" "x \<noteq> s2 - 24" "x \<noteq> s2 - 28"
      "x \<noteq> s2 - 32" "x \<noteq> s2 - 36" "x \<noteq> s2 - 40" "x \<noteq> s2 - 44" "x \<noteq> s2 - 48"
      using that(2) [of 1] that(2) [of 2] that(2) [of 3] that(2) [of 4] that(2) [of 5] that(2) [of 6]
        that(2) [of 7] that(2) [of 8] that(2) [of 9] that(2) [of 10] that(2) [of 11] that(2) [of 12] by simp_all
    then show ?thesis using al that(1) by (simp add: m')
  qed
  have far: "s2 + 4 * of_nat i \<noteq> s2 - 4 * of_nat k" if "i \<le> length args" "k \<le> 12" "0 < k" for i k
  proof
    assume "s2 + 4 * of_nat i = s2 - 4 * of_nat k"
    then have "4 * of_nat (i + k) = (4 * of_nat 0 :: u32)" by (simp add: algebra_simps eq_neg_iff_add_eq_0)
    then show False using of_nat4_inj [of "i + k" 0] that n by simp
  qed
  show "rd32 m' (esp r + 4 + 4 * of_nat i) = args ! i" if "i < length args" for i
    using up [of "s2 + 4 * of_nat i"] far [of i] args [OF that] that al e by (simp add: s2)
  have "saddr = s2 + 4 * of_nat (length args)" by (simp add: s2)
  then show "rd32 m' saddr = STACKMAGIC"
    using up [of saddr] far [of "length args"] magic a by simp
qed

end
