(* ===== verification/Devtab.thy ===== *)
theory Devtab
  imports Kstate
begin

text \<open>
  The device switch table of \<^verbatim>\<open>system/conf.c\<close> (generated from the configuration and part
  of the sources), and the device-independent calls that look a routine up in it
  (\<^verbatim>\<open>open.c\<close>, \<^verbatim>\<open>close.c\<close>, \<^verbatim>\<open>read.c\<close>,
  \<^verbatim>\<open>write.c\<close>, \<^verbatim>\<open>seek.c\<close>, \<^verbatim>\<open>getc.c\<close>,
  \<^verbatim>\<open>putc.c\<close>, \<^verbatim>\<open>control.c\<close>, \<^verbatim>\<open>init.c\<close>,
  \<^verbatim>\<open>ioerr.c\<close>, \<^verbatim>\<open>ionull.c\<close>). A function pointer of the table is a
  value of \<open>devfn\<close>; what the routine does is an argument of the calls, since each driver has a
  state of its own. The calls are resumptions over an arbitrary state.
\<close>

section \<open>The table\<close>

datatype devfn =
    Ttyinit | Ionull | Ttyread | Ttywrite | Ioerr | Ttygetc | Ttyputc | Ttycontrol
  | Ttydispatch | Ethinit | Ethread | Ethwrite | Ethcontrol | Ethdispatch | Naminit
  | Namopen | Rdsinit | Rdsopen | Rdsread | Rdswrite | Rdscontrol | Raminit | Ramopen
  | Ramclose | Ramread | Ramwrite | Rfsinit | Rfsopen | Rfscontrol | Rflinit | Rflclose
  | Rflread | Rflwrite | Rflseek | Rflgetc | Rflputc | Lfsinit | Lfsopen | Lflinit
  | Lflclose | Lflread | Lflwrite | Lflseek | Lflgetc | Lflputc | Lflcontrol

record dentry =
  dvnum :: int
  dvminor :: int
  dvname :: string
  dvinit :: devfn
  dvopen :: devfn
  dvclose :: devfn
  dvread :: devfn
  dvwrite :: devfn
  dvseek :: devfn
  dvgetc :: devfn
  dvputc :: devfn
  dvcntl :: devfn
  dvcsr :: u32
  dvintr :: devfn
  dvirq :: u8

definition devtab_devices :: "dentry list" where
  "devtab_devices =
    [dentry.make 0 0 ''CONSOLE'' Ttyinit Ionull Ionull Ttyread
       Ttywrite Ioerr Ttygetc Ttyputc Ttycontrol 0x3f8 Ttydispatch 36,
     dentry.make 1 0 ''NULLDEV'' Ionull Ionull Ionull Ionull
       Ionull Ioerr Ionull Ionull Ioerr 0x0 Ioerr 0,
     dentry.make 2 0 ''ETHER0'' Ethinit Ioerr Ioerr Ethread
       Ethwrite Ioerr Ioerr Ioerr Ethcontrol 0x0 Ethdispatch 0,
     dentry.make 3 0 ''NAMESPACE'' Naminit Namopen Ioerr Ioerr
       Ioerr Ioerr Ioerr Ioerr Ioerr 0x0 Ioerr 0,
     dentry.make 4 0 ''RDISK'' Rdsinit Rdsopen Ioerr Rdsread
       Rdswrite Ioerr Ioerr Ioerr Rdscontrol 0x0 Ionull 0,
     dentry.make 5 0 ''RAM0'' Raminit Ramopen Ramclose Ramread
       Ramwrite Ioerr Ioerr Ioerr Ioerr 0x0 Ionull 0,
     dentry.make 6 0 ''RFILESYS'' Rfsinit Rfsopen Ioerr Ioerr
       Ioerr Ioerr Ioerr Ioerr Rfscontrol 0x0 Ionull 0]"

definition devtab_rfiles :: "dentry list" where
  "devtab_rfiles =
    [dentry.make 7 0 ''RFILE0'' Rflinit Ioerr Rflclose Rflread
       Rflwrite Rflseek Rflgetc Rflputc Ioerr 0x0 Ionull 0,
     dentry.make 8 1 ''RFILE1'' Rflinit Ioerr Rflclose Rflread
       Rflwrite Rflseek Rflgetc Rflputc Ioerr 0x0 Ionull 0,
     dentry.make 9 2 ''RFILE2'' Rflinit Ioerr Rflclose Rflread
       Rflwrite Rflseek Rflgetc Rflputc Ioerr 0x0 Ionull 0,
     dentry.make 10 3 ''RFILE3'' Rflinit Ioerr Rflclose Rflread
       Rflwrite Rflseek Rflgetc Rflputc Ioerr 0x0 Ionull 0,
     dentry.make 11 4 ''RFILE4'' Rflinit Ioerr Rflclose Rflread
       Rflwrite Rflseek Rflgetc Rflputc Ioerr 0x0 Ionull 0,
     dentry.make 12 5 ''RFILE5'' Rflinit Ioerr Rflclose Rflread
       Rflwrite Rflseek Rflgetc Rflputc Ioerr 0x0 Ionull 0,
     dentry.make 13 6 ''RFILE6'' Rflinit Ioerr Rflclose Rflread
       Rflwrite Rflseek Rflgetc Rflputc Ioerr 0x0 Ionull 0,
     dentry.make 14 7 ''RFILE7'' Rflinit Ioerr Rflclose Rflread
       Rflwrite Rflseek Rflgetc Rflputc Ioerr 0x0 Ionull 0,
     dentry.make 15 8 ''RFILE8'' Rflinit Ioerr Rflclose Rflread
       Rflwrite Rflseek Rflgetc Rflputc Ioerr 0x0 Ionull 0,
     dentry.make 16 9 ''RFILE9'' Rflinit Ioerr Rflclose Rflread
       Rflwrite Rflseek Rflgetc Rflputc Ioerr 0x0 Ionull 0]"

definition devtab_lfiles :: "dentry list" where
  "devtab_lfiles =
    [dentry.make 17 0 ''LFILESYS'' Lfsinit Lfsopen Ioerr Ioerr
       Ioerr Ioerr Ioerr Ioerr Ioerr 0x0 Ionull 0,
     dentry.make 18 0 ''LFILE0'' Lflinit Ioerr Lflclose Lflread
       Lflwrite Lflseek Lflgetc Lflputc Lflcontrol 0x0 Ionull 0,
     dentry.make 19 1 ''LFILE1'' Lflinit Ioerr Lflclose Lflread
       Lflwrite Lflseek Lflgetc Lflputc Lflcontrol 0x0 Ionull 0,
     dentry.make 20 2 ''LFILE2'' Lflinit Ioerr Lflclose Lflread
       Lflwrite Lflseek Lflgetc Lflputc Lflcontrol 0x0 Ionull 0,
     dentry.make 21 3 ''LFILE3'' Lflinit Ioerr Lflclose Lflread
       Lflwrite Lflseek Lflgetc Lflputc Lflcontrol 0x0 Ionull 0,
     dentry.make 22 4 ''LFILE4'' Lflinit Ioerr Lflclose Lflread
       Lflwrite Lflseek Lflgetc Lflputc Lflcontrol 0x0 Ionull 0,
     dentry.make 23 5 ''LFILE5'' Lflinit Ioerr Lflclose Lflread
       Lflwrite Lflseek Lflgetc Lflputc Lflcontrol 0x0 Ionull 0]"

definition devtab :: "dentry list" where
  "devtab = devtab_devices @ devtab_rfiles @ devtab_lfiles"

section \<open>The device-independent calls\<close>

text \<open>
  Each call checks the descriptor, finds the entry and calls the routine of the entry with the
  call's arguments; \<open>run f e\<close> is what routine \<open>f\<close> does for entry \<open>e\<close>. Interrupts are disabled
  throughout.
\<close>

definition dentry_of :: "int \<Rightarrow> dentry" where
  "dentry_of descrp = devtab ! nat descrp"

definition open_dev :: "(devfn \<Rightarrow> dentry \<Rightarrow> u32 \<Rightarrow> u32 \<Rightarrow> 's \<Rightarrow> ('s, int) kprog) \<Rightarrow> int \<Rightarrow> u32 \<Rightarrow> u32 \<Rightarrow> 's \<Rightarrow> ('s, int) kprog" where
  "open_dev run descrp name mode s =
     (if isbaddev descrp then Ret s SYSERR
      else let devptr = dentry_of descrp in run (dvopen devptr) devptr name mode s)"

definition close :: "(devfn \<Rightarrow> dentry \<Rightarrow> 's \<Rightarrow> ('s, int) kprog) \<Rightarrow> int \<Rightarrow> 's \<Rightarrow> ('s, int) kprog" where
  "close run descrp s =
     (if isbaddev descrp then Ret s SYSERR
      else let devptr = dentry_of descrp in run (dvclose devptr) devptr s)"

definition read :: "(devfn \<Rightarrow> dentry \<Rightarrow> u32 \<Rightarrow> u32 \<Rightarrow> 's \<Rightarrow> ('s, int) kprog) \<Rightarrow> int \<Rightarrow> u32 \<Rightarrow> u32 \<Rightarrow> 's \<Rightarrow> ('s, int) kprog" where
  "read run descrp buffer count s =
     (if isbaddev descrp then Ret s SYSERR
      else let devptr = dentry_of descrp in run (dvread devptr) devptr buffer count s)"

definition write_dev :: "(devfn \<Rightarrow> dentry \<Rightarrow> u32 \<Rightarrow> u32 \<Rightarrow> 's \<Rightarrow> ('s, int) kprog) \<Rightarrow> int \<Rightarrow> u32 \<Rightarrow> u32 \<Rightarrow> 's \<Rightarrow> ('s, int) kprog" where
  "write_dev run descrp buffer count s =
     (if isbaddev descrp then Ret s SYSERR
      else let devptr = dentry_of descrp in run (dvwrite devptr) devptr buffer count s)"

text \<open>\<^verbatim>\<open>seek\<close> takes an unsigned position and passes it as a signed one.\<close>

definition seek :: "(devfn \<Rightarrow> dentry \<Rightarrow> int \<Rightarrow> 's \<Rightarrow> ('s, int) kprog) \<Rightarrow> int \<Rightarrow> u32 \<Rightarrow> 's \<Rightarrow> ('s, int) kprog" where
  "seek run descrp pos s =
     (if isbaddev descrp then Ret s SYSERR
      else let devptr = dentry_of descrp in run (dvseek devptr) devptr (sint pos) s)"

definition getc :: "(devfn \<Rightarrow> dentry \<Rightarrow> 's \<Rightarrow> ('s, int) kprog) \<Rightarrow> int \<Rightarrow> 's \<Rightarrow> ('s, int) kprog" where
  "getc run descrp s =
     (if isbaddev descrp then Ret s SYSERR
      else let devptr = dentry_of descrp in run (dvgetc devptr) devptr s)"

definition putc :: "(devfn \<Rightarrow> dentry \<Rightarrow> u8 \<Rightarrow> 's \<Rightarrow> ('s, int) kprog) \<Rightarrow> int \<Rightarrow> u8 \<Rightarrow> 's \<Rightarrow> ('s, int) kprog" where
  "putc run descrp ch s =
     (if isbaddev descrp then Ret s SYSERR
      else let devptr = dentry_of descrp in run (dvputc devptr) devptr ch s)"

definition control :: "(devfn \<Rightarrow> dentry \<Rightarrow> int \<Rightarrow> int \<Rightarrow> int \<Rightarrow> 's \<Rightarrow> ('s, int) kprog) \<Rightarrow> int \<Rightarrow> int \<Rightarrow> int \<Rightarrow> int \<Rightarrow> 's \<Rightarrow> ('s, int) kprog" where
  "control run descrp func arg1 arg2 s =
     (if isbaddev descrp then Ret s SYSERR
      else let devptr = dentry_of descrp in run (dvcntl devptr) devptr func arg1 arg2 s)"

definition init :: "(devfn \<Rightarrow> dentry \<Rightarrow> 's \<Rightarrow> ('s, int) kprog) \<Rightarrow> int \<Rightarrow> 's \<Rightarrow> ('s, int) kprog" where
  "init run descrp s =
     (if isbaddev descrp then Ret s SYSERR
      else let devptr = dentry_of descrp in run (dvinit devptr) devptr s)"

definition ioerr :: "'s \<Rightarrow> ('s, int) kprog" where
  "ioerr s = Ret s SYSERR"

definition ionull :: "'s \<Rightarrow> ('s, int) kprog" where
  "ionull s = Ret s OK"

section \<open>Shape of the table\<close>

lemma length_devtab: "length devtab = nat NDEVS"
  by (simp add: devtab_def devtab_devices_def devtab_rfiles_def devtab_lfiles_def)

lemma dentry_of_mem: "\<not> isbaddev d \<Longrightarrow> dentry_of d \<in> set devtab"
  unfolding dentry_of_def by (rule nth_mem) (simp add: isbaddev_def length_devtab, linarith)

lemma devtab_close_fns: "e \<in> set devtab \<Longrightarrow> dvclose e \<in> {Ionull, Ioerr, Ramclose, Rflclose, Lflclose}"
  by (auto simp: devtab_def devtab_devices_def devtab_rfiles_def devtab_lfiles_def dentry.make_def)

lemma devtab_nums: "map dvnum devtab = [0..NDEVS - 1]"
  by (simp add: devtab_def devtab_devices_def devtab_rfiles_def devtab_lfiles_def dentry.make_def upto_rec_numeral upto.simps)

end
