(* ===== verification/Procs.thy ===== *)
theory Procs
  imports Msgs Memory Ctxsw Devtab
begin

text \<open>
  Process creation and termination: \<^verbatim>\<open>create.c\<close>, \<^verbatim>\<open>kill.c\<close>,
  \<^verbatim>\<open>userret.c\<close>, \<^verbatim>\<open>exit.c\<close>, \<^verbatim>\<open>xdone.c\<close>, and
  the calls of \<^verbatim>\<open>close\<close> in \<^verbatim>\<open>kill\<close>. What the close routines of
  the device switch table do is an argument \<open>run\<close>; the address of \<^verbatim>\<open>userret\<close> is an
  argument \<open>initret\<close>.
\<close>

section \<open>The operations\<close>

primrec newpid_loop :: "nat \<Rightarrow> kst \<Rightarrow> kst \<times> int" where
  "newpid_loop 0 s = (s, SYSERR)"
| "newpid_loop (Suc n) s =
     (let p = nextpid s mod NPROC; s1 = s\<lparr>nextpid := p + 1\<rparr>
      in if prstate (proctab s p) = PR_FREE then (s1, p) else newpid_loop n s1)"

definition newpid :: "kst \<Rightarrow> kst \<times> int" where
  "newpid s = newpid_loop (nat NPROC) s"

text \<open>\<^verbatim>\<open>prname[PNMLEN-1] = NULLCH\<close> and the copying loop, \<open>i\<close> from 0.\<close>

primrec copy_name :: "nat \<Rightarrow> nat \<Rightarrow> memory \<Rightarrow> u32 \<Rightarrow> (nat \<Rightarrow> u8) \<Rightarrow> (nat \<Rightarrow> u8)" where
  "copy_name 0 i m a f = f"
| "copy_name (Suc k) i m a f =
     (let c = m (a + of_nat i); f1 = f(i := c) in if c \<noteq> 0 then copy_name k (i + 1) m a f1 else f1)"

abbreviation (input) MINSTK :: u32 where "MINSTK \<equiv> 400"
abbreviation (input) CONSOLE :: int where "CONSOLE \<equiv> 0"
abbreviation (input) PNMLEN :: nat where "PNMLEN \<equiv> 16"

definition stack_size :: "u32 \<Rightarrow> u32" where
  "stack_size ssize = roundmb (if ssize < MINSTK then MINSTK else ssize)"

definition init_entry :: "int \<Rightarrow> u32 \<Rightarrow> u32 \<Rightarrow> u32 \<Rightarrow> memory \<Rightarrow> int \<Rightarrow> procent \<Rightarrow> procent" where
  "init_entry priority saddr ssize name m parent e =
     e\<lparr>prstate := PR_SUSP, prprio := priority, prstkbase := saddr, prstklen := ssize,
       prname := copy_name (PNMLEN - 1) 0 m name ((prname e)(PNMLEN - 1 := 0)),
       prsem := - 1, prparent := parent, prhasmsg := False,
       prdesc := (prdesc e)(0 := CONSOLE, 1 := CONSOLE, 2 := CONSOLE)\<rparr>"

definition create :: "u32 \<Rightarrow> u32 \<Rightarrow> u32 \<Rightarrow> int \<Rightarrow> u32 \<Rightarrow> u32 list \<Rightarrow> kst \<Rightarrow> (kst, int) kprog" where
  "create initret funcaddr ssize0 priority name args s =
     (let ssize = stack_size ssize0 in
      if priority < 1 then Ret s SYSERR
      else let (s1, pid) = newpid s in
        if pid = SYSERR then Ret s1 SYSERR
        else case getstk ssize (hp s1) of
          None \<Rightarrow> Stop BadHeap s1
        | Some (h, saddr) \<Rightarrow>
            if saddr = PSYSERR then Ret (s1\<lparr>hp := h\<rparr>) SYSERR
            else let s2 = s1\<lparr>hp := h, prcount := i32 (prcount s1 + 1)\<rparr>;
                     s3 = upd_proc pid (init_entry priority saddr ssize name (bytes h) (getpid s2)) s2;
                     (m, sp) = create_stack initret funcaddr args saddr (bytes (hp s3));
                     s4 = s3\<lparr>hp := (hp s3)\<lparr>bytes := m\<rparr>\<rparr>
                 in Ret (upd_proc pid (\<lambda>e. e\<lparr>prstkptr := sp\<rparr>) s4) pid)"

text \<open>The loop \<^verbatim>\<open>for (i=0; i<3; i++) close(prptr->prdesc[i])\<close>, \<open>n\<close> rounds from \<open>i\<close>.\<close>

primrec close_descs :: "nat \<Rightarrow> nat \<Rightarrow> (devfn \<Rightarrow> dentry \<Rightarrow> kst \<Rightarrow> (kst, int) kprog) \<Rightarrow> int \<Rightarrow> kst \<Rightarrow> (kst, unit) kprog" where
  "close_descs 0 i run pid s = Ret s ()"
| "close_descs (Suc n) i run pid s =
     kbind (close run (prdesc (proctab s pid) i) s) (\<lambda>s1 _. close_descs n (i + 1) run pid s1)"

text \<open>\<^verbatim>\<open>xdone\<close> prints a message and halts the processor.\<close>

definition xdone :: "kst \<Rightarrow> (kst, 'a) kprog" where
  "xdone s = Stop Halted s"

text \<open>The \<^verbatim>\<open>switch\<close> at the end of \<^verbatim>\<open>kill\<close>, with its cases falling through.\<close>

definition kill_default :: "int \<Rightarrow> kst \<Rightarrow> (kst, int) kprog" where
  "kill_default pid s = Ret (set_prstate pid PR_FREE s) OK"

definition kill_sleep :: "int \<Rightarrow> kst \<Rightarrow> (kst, int) kprog" where
  "kill_sleep pid s = (let (s1, _) = unsleep pid s in Ret (set_prstate pid PR_FREE s1) OK)"

definition kill_ready :: "int \<Rightarrow> kst \<Rightarrow> (kst, int) kprog" where
  "kill_ready pid s = (let (s1, _) = getitem pid s in kill_default pid s1)"

definition kill_wait :: "int \<Rightarrow> kst \<Rightarrow> (kst, int) kprog" where
  "kill_wait pid s = kill_ready pid (upd_sem (prsem (proctab s pid)) (\<lambda>e. e\<lparr>scount := i32 (scount e + 1)\<rparr>) s)"

definition kill_curr :: "int \<Rightarrow> kst \<Rightarrow> (kst, int) kprog" where
  "kill_curr pid s = kbind (resched (set_prstate pid PR_FREE s)) (\<lambda>s1 _. kill_sleep pid s1)"

definition kill_switch :: "int \<Rightarrow> kst \<Rightarrow> (kst, int) kprog" where
  "kill_switch pid s =
     (case prstate (proctab s pid) of
        PR_CURR \<Rightarrow> kill_curr pid s
      | PR_SLEEP \<Rightarrow> kill_sleep pid s
      | PR_RECTIM \<Rightarrow> kill_sleep pid s
      | PR_WAIT \<Rightarrow> kill_wait pid s
      | PR_READY \<Rightarrow> kill_ready pid s
      | _ \<Rightarrow> kill_default pid s)"

definition kill_stack :: "int \<Rightarrow> kst \<Rightarrow> (kst, unit) kprog" where
  "kill_stack pid s =
     (case freestk (prstkbase (proctab s pid)) (prstklen (proctab s pid)) (hp s) of
        None \<Rightarrow> Stop BadHeap s
      | Some (h, _) \<Rightarrow> Ret (s\<lparr>hp := h\<rparr>) ())"

definition kill :: "(devfn \<Rightarrow> dentry \<Rightarrow> kst \<Rightarrow> (kst, int) kprog) \<Rightarrow> int \<Rightarrow> kst \<Rightarrow> (kst, int) kprog" where
  "kill run pid s =
     (if isbadpid s pid \<or> pid = NULLPROC \<or> prstate (proctab s pid) = PR_FREE then Ret s SYSERR
      else let s1 = s\<lparr>prcount := i32 (prcount s - 1)\<rparr> in
        if prcount s1 \<le> 1 then xdone s1
        else kbind (send (prparent (proctab s1 pid)) (word_of_int pid) s1) (\<lambda>s2 _.
             kbind (close_descs 3 0 run pid s2) (\<lambda>s3 _.
             kbind (kill_stack pid s3) (\<lambda>s4 _. kill_switch pid s4))))"

definition userret :: "(devfn \<Rightarrow> dentry \<Rightarrow> kst \<Rightarrow> (kst, int) kprog) \<Rightarrow> kst \<Rightarrow> (kst, unit) kprog" where
  "userret run s = kbind (kill run (getpid s) s) (\<lambda>s1 _. Ret s1 ())"

definition exit :: "(devfn \<Rightarrow> dentry \<Rightarrow> kst \<Rightarrow> (kst, int) kprog) \<Rightarrow> kst \<Rightarrow> (kst, unit) kprog" where
  "exit run s = kbind (kill run (getpid s) s) (\<lambda>s1 _. Ret s1 ())"

section \<open>Allocating a process id\<close>

lemma newpid_loop_spec:
  "newpid_loop n s = (s', r) \<Longrightarrow>
   (\<exists>k. s' = s\<lparr>nextpid := k\<rparr> \<and> r = SYSERR \<and> (\<forall>j < n. prstate (proctab s ((nextpid s + int j) mod NPROC)) \<noteq> PR_FREE))
   \<or> (\<exists>k. s' = s\<lparr>nextpid := k\<rparr> \<and> 0 \<le> r \<and> r < NPROC \<and> prstate (proctab s r) = PR_FREE)"
proof (induction n arbitrary: s)
  case 0
  then show ?case by (intro disjI1 exI [of _ "nextpid s"]) auto
next
  case (Suc n)
  let ?p = "nextpid s mod NPROC"
  have p: "0 \<le> ?p" "?p < NPROC" by simp_all
  show ?case
  proof (cases "prstate (proctab s ?p) = PR_FREE")
    case True
    then show ?thesis using Suc.prems p by (auto simp: Let_def)
  next
    case False
    then have "newpid_loop n (s\<lparr>nextpid := ?p + 1\<rparr>) = (s', r)" using Suc.prems by (simp add: Let_def)
    note IH = Suc.IH [OF this]
    have "prstate (proctab s ((nextpid s + int j) mod NPROC)) \<noteq> PR_FREE"
      if "\<forall>j < n. prstate (proctab s ((?p + 1 + int j) mod NPROC)) \<noteq> PR_FREE" "j < Suc n" for j
    proof (cases j)
      case (Suc i)
      then have "(nextpid s + int j) mod NPROC = (?p + 1 + int i) mod NPROC"
        using mod_add_left_eq [of "nextpid s" NPROC "1 + int i"] by (simp add: add_ac)
      then show ?thesis using that Suc by simp
    qed (use False in simp)
    then show ?thesis using IH by auto
  qed
qed

lemma newpid_spec:
  obtains (full) k where "newpid s = (s\<lparr>nextpid := k\<rparr>, SYSERR)"
      "\<And>p. 0 \<le> p \<Longrightarrow> p < NPROC \<Longrightarrow> prstate (proctab s p) \<noteq> PR_FREE"
  | (found) k p where "newpid s = (s\<lparr>nextpid := k\<rparr>, p)" "0 \<le> p" "p < NPROC" "prstate (proctab s p) = PR_FREE"
proof -
  obtain s' r where n: "newpid_loop (nat NPROC) s = (s', r)" by (cases "newpid_loop (nat NPROC) s")
  from newpid_loop_spec [OF n] show thesis
  proof (elim disjE exE conjE)
    fix k
    assume k: "s' = s\<lparr>nextpid := k\<rparr>" "r = SYSERR"
      and u: "\<forall>j < nat NPROC. prstate (proctab s ((nextpid s + int j) mod NPROC)) \<noteq> PR_FREE"
    show thesis
    proof (rule full)
      show "newpid s = (s\<lparr>nextpid := k\<rparr>, SYSERR)" using n k by (simp add: newpid_def)
      show "prstate (proctab s p) \<noteq> PR_FREE" if "0 \<le> p" "p < NPROC" for p
        using mod_shift_onto [OF that, of "nextpid s"] u by auto
    qed
  next
    fix k
    assume "s' = s\<lparr>nextpid := k\<rparr>" "0 \<le> r" "r < NPROC" "prstate (proctab s r) = PR_FREE"
    then show thesis using n by (intro found [of k r]) (simp_all add: newpid_def)
  qed
qed

section \<open>Creating a process\<close>

lemma mine_kgood: "mine F p s \<Longrightarrow> kgood F {} (Some p) {} True s"
  by (auto simp: mine_def kinv_def)

lemma mineI: "kgood F {} (Some p) {} True s \<Longrightarrow> currpid s = p \<Longrightarrow> ndefers s = 0 \<Longrightarrow> mine F p s"
  by (auto simp: mine_def kinv_def)

lemma mineD: "mine F p s \<Longrightarrow> kinv F s" "mine F p s \<Longrightarrow> currpid s = p" "mine F p s \<Longrightarrow> ndefers s = 0"
  "mine F p s \<Longrightarrow> 0 \<le> p \<and> p < NPROC" "mine F p s \<Longrightarrow> prstate (proctab s p) = PR_CURR"
  using kinv_currpid [of F s] kinv_cur [of F s] by (auto simp: mine_def kinv_def)

lemma null_not_free: "mine F p s \<Longrightarrow> prstate (proctab s NULLPROC) \<noteq> PR_FREE"
proof -
  assume "mine F p s"
  then have "proc_ok F {} s NULLPROC" using kgoodD(7) [OF mine_kgood] by (simp add: kprocs_def)
  then show ?thesis by (auto simp: proc_ok_def entry_ok_def)
qed

lemma create_cases:
  assumes m: "mine F p s" and pr: "priority \<le> 32767"
  obtains (created) s' pid where "create initret funcaddr ssize priority name args s = Ret s' pid"
      "mine (F - {pid}) p s'" "0 \<le> pid" "pid < NPROC" "prstate (proctab s pid) = PR_FREE"
  | (refused) s' where "create initret funcaddr ssize priority name args s = Ret s' SYSERR" "mine F p s'"
  | (bad_heap) s' where "create initret funcaddr ssize priority name args s = Stop BadHeap s'"
proof (cases "priority < 1")
  case True
  then show thesis using m by (intro refused) (simp_all add: create_def Let_def)
next
  case False
  show thesis
  proof (cases rule: newpid_spec [of s])
    case (full k)
    have "mine F p (s\<lparr>nextpid := k\<rparr>)" using m by (rule kgood_cur_frame) simp_all
    then show thesis using full(1) False by (intro refused) (simp_all add: create_def Let_def)
  next
    case (found k pid)
    let ?s1 = "s\<lparr>nextpid := k\<rparr>"
    have m1: "mine F p ?s1" using m by (rule kgood_cur_frame) simp_all
    show thesis
    proof (cases "getstk (stack_size ssize) (hp ?s1)")
      case None
      then show thesis using False found by (intro bad_heap) (simp add: create_def Let_def)
    next
      case (Some ha)
      obtain h saddr where ha: "ha = (h, saddr)" by (cases ha)
      show thesis
      proof (cases "saddr = PSYSERR")
        case True
        have "mine F p (?s1\<lparr>hp := h\<rparr>)" using m1 by (rule kgood_cur_frame) simp_all
        then show thesis using False found Some ha True by (intro refused) (simp_all add: create_def Let_def)
      next
        case ok: False
        let ?s2 = "?s1\<lparr>hp := h, prcount := i32 (prcount ?s1 + 1)\<rparr>"
        let ?f = "init_entry priority saddr (stack_size ssize) name (bytes h) (getpid ?s2)"
        let ?s3 = "upd_proc pid ?f ?s2"
        obtain mm sp where mm: "create_stack initret funcaddr args saddr (bytes (hp ?s3)) = (mm, sp)"
          by (cases "create_stack initret funcaddr args saddr (bytes (hp ?s3))")
        let ?s4 = "?s3\<lparr>hp := (hp ?s3)\<lparr>bytes := mm\<rparr>\<rparr>"
        have m2: "mine F p ?s2" using m1 by (rule kgood_cur_frame) simp_all
        have fr: "prstate (proctab ?s2 pid) = PR_FREE" using found(4) by simp
        have pid0: "pid \<noteq> NULLPROC" using null_not_free [OF m2] fr by auto
        have pne: "pid \<noteq> p" using mineD(5) [OF m2] fr by auto
        have m2': "mine (F - {pid}) p ?s2"
          using kgood_fewer [OF mine_kgood [OF m2], of "F - {pid}"] mineD(2,3) [OF m2] by (intro mineI) simp_all
        have "kgood (F - {pid}) {pid} (Some p) {} True ?s2"
          using kgood_take [OF mine_kgood [OF m2'], of pid] fr by (simp add: home_def)
        then have "kgood (F - {pid}) {pid} (Some p) {} True ?s3"
          using False pr pne by (intro kgood_upd) (auto simp: init_entry_def)
        then have "kgood (F - {pid}) ({pid} - {pid}) (Some p) {} True ?s3"
          by (rule kgood_drop) (use pid0 in \<open>simp_all add: home_def entry_ok_def init_entry_def\<close>)
        then have m3: "mine (F - {pid}) p ?s3" using mineD(2,3) [OF m2] by (intro mineI) simp_all
        then have m4: "mine (F - {pid}) p ?s4" by (rule kgood_cur_frame) simp_all
        have "kgood (F - {pid}) {} (Some p) {} True (upd_proc pid (\<lambda>e. e\<lparr>prstkptr := sp\<rparr>) ?s4)"
          using kgood_prio [OF mine_kgood [OF m4] found(2,3)]
          by (intro kgood_upd_same [OF mine_kgood [OF m4]]) (auto simp: entry_ok_def)
        then have m5: "mine (F - {pid}) p (upd_proc pid (\<lambda>e. e\<lparr>prstkptr := sp\<rparr>) ?s4)"
          using mineD(2,3) [OF m4] by (intro mineI) simp_all
        have "create initret funcaddr ssize priority name args s = Ret (upd_proc pid (\<lambda>e. e\<lparr>prstkptr := sp\<rparr>) ?s4) pid"
          using False found Some ha ok mm by (simp add: create_def Let_def)
        then show thesis using m5 found(2-4) by (rule created)
      qed
    qed
  qed
qed

section \<open>Termination of a process\<close>

text \<open>
  The contract a device's close function has to keep for \<^verbatim>\<open>kill\<close>: called by the current
  process, it keeps the kernel invariant at every switch and when it returns.
\<close>

locale device_close =
  fixes run :: "devfn \<Rightarrow> dentry \<Rightarrow> kst \<Rightarrow> (kst, int) kprog"
  assumes close_safe: "mine F p s \<Longrightarrow> p \<noteq> NULLPROC \<Longrightarrow> e \<in> set devtab \<Longrightarrow> ksafe F p (run (dvclose e) e s)"
begin

lemma close_descs_safe: "mine F p s \<Longrightarrow> p \<noteq> NULLPROC \<Longrightarrow> ksafe F p (close_descs n i run pid s)"
proof (induction n arbitrary: F i s)
  case (Suc n)
  have "ksafe F p (close run (prdesc (proctab s pid) i) s)"
    using Suc.prems close_safe dentry_of_mem by (simp add: close_def Let_def)
  then have "ksafe F p (kbind (close run (prdesc (proctab s pid) i) s) (\<lambda>s1 _. close_descs n (i + 1) run pid s1))"
    by (rule ksafe_bind) (use Suc.IH Suc.prems(2) in blast)
  then show ?case by simp
qed simp

end

text \<open>A process that frees itself is switched out for good.\<close>

lemma resched_dead_safe:
  assumes g: "kgood F {} None {} True s" and nd: "ndefers s = 0" and f: "prstate (proctab s p) = PR_FREE"
  shows "ksafe F p (kbind (resched s) k)"
proof -
  obtain s' q xs where s': "resched_switch s = Ctxsw s' (\<lambda>s. Ret s ())" "kinv F s'" "kq s (readylist s) = q # xs"
    "proctab s' = (proctab s)(q := (proctab s q)\<lparr>prstate := PR_CURR\<rparr>)"
    by (rule resched_switch_spec [OF g nd]) (rule that)
  have "home s q = Some (readylist s)" using kgood_in_queue(4) [OF g kgoodD(9) [OF g], of q] s'(3) by simp
  then have "q \<noteq> p" using f by (auto simp: home_def)
  then show ?thesis using s' f resched_blocked [OF g nd] by simp
qed

lemma kill_curr_safe:
  assumes m: "mine F p s" and p: "pid = p" "p \<noteq> NULLPROC"
  shows "ksafe F p (kill_curr pid s)"
proof -
  have "kgood F {p} (Some p) {} True s"
    using kgood_take [OF mine_kgood [OF m], of p] mineD(5) [OF m] by (simp add: home_def)
  then have "kgood F {p} None {} True (set_prstate p PR_FREE s)"
    using kgood_prio [OF mine_kgood [OF m]] mineD(4) [OF m] unfolding set_prstate_def by (intro kgood_upd) auto
  then have "kgood F ({p} - {p}) None {} True (set_prstate p PR_FREE s)"
    by (rule kgood_drop) (use p in \<open>simp_all add: home_def entry_ok_def\<close>)
  then show ?thesis
    unfolding kill_curr_def p(1) using mineD(3) [OF m] by (intro resched_dead_safe) simp_all
qed

text \<open>Freeing the table entry of a process that is in transit.\<close>

lemma set_free_mine:
  assumes g: "kgood F {pid} (Some p) {} True s" and pid: "0 \<le> pid" "pid < NPROC" "pid \<noteq> NULLPROC" "pid \<noteq> p"
    and s: "currpid s = p" "ndefers s = 0"
  shows "mine F p (set_prstate pid PR_FREE s)"
proof -
  have "kgood F {pid} (Some p) {} True (set_prstate pid PR_FREE s)"
    using kgood_prio [OF g pid(1,2)] pid unfolding set_prstate_def by (intro kgood_upd [OF g]) auto
  then have "kgood F ({pid} - {pid}) (Some p) {} True (set_prstate pid PR_FREE s)"
    by (rule kgood_drop) (use pid in \<open>simp_all add: home_def entry_ok_def\<close>)
  then show ?thesis using s by (intro mineI) simp_all
qed

lemma kill_default_safe:
  assumes m: "mine F p s" and pid: "0 \<le> pid" "pid < NPROC" "pid \<noteq> NULLPROC"
    and st: "prstate (proctab s pid) = PR_FREE \<or> prstate (proctab s pid) = PR_SUSP \<or> prstate (proctab s pid) = PR_RECV"
  shows "ksafe F p (kill_default pid s)"
proof -
  have "kgood F {pid} (Some p) {} True s"
    using kgood_take [OF mine_kgood [OF m], of pid] st by (auto simp: home_def)
  moreover have "pid \<noteq> p" using mineD(5) [OF m] st by auto
  ultimately show ?thesis
    unfolding kill_default_def using set_free_mine pid mineD(2,3) [OF m] by simp
qed

lemma kill_sleep_safe:
  assumes m: "mine F p s" and pid: "0 \<le> pid" "pid < NPROC" "pid \<noteq> NULLPROC"
    and st: "prstate (proctab s pid) = PR_SLEEP \<or> prstate (proctab s pid) = PR_RECTIM"
  shows "ksafe F p (kill_sleep pid s)"
proof -
  obtain t' where t': "unsleep pid s = (s\<lparr>queuetab := t'\<rparr>, OK)"
    "kgood F (Set.insert pid {}) (Some p) {} True (s\<lparr>queuetab := t'\<rparr>)"
    by (rule unsleep_spec [OF mine_kgood [OF m] pid(1,2)]) (use st in simp_all)
  have "pid \<noteq> p" using mineD(5) [OF m] st by auto
  then have "mine F p (set_prstate pid PR_FREE (s\<lparr>queuetab := t'\<rparr>))"
    using set_free_mine [OF t'(2) pid] mineD(2,3) [OF m] by simp
  then show ?thesis using t'(1) by (simp add: kill_sleep_def)
qed

lemma kill_ready_safe:
  assumes m: "mine F p s" and pid: "0 \<le> pid" "pid < NPROC" "pid \<noteq> NULLPROC" and st: "prstate (proctab s pid) = PR_READY"
  shows "ksafe F p (kill_ready pid s)"
proof -
  have "kgood F (Set.insert pid {}) (Some p) {} True (s\<lparr>queuetab := unlink pid (queuetab s)\<rparr>)"
    by (rule kgood_unready [OF mine_kgood [OF m] pid(1,2) _ st]) simp
  moreover have "pid \<noteq> p" using mineD(5) [OF m] st by auto
  ultimately have "mine F p (set_prstate pid PR_FREE (s\<lparr>queuetab := unlink pid (queuetab s)\<rparr>))"
    using set_free_mine pid mineD(2,3) [OF m] by simp
  then show ?thesis by (simp add: kill_ready_def getitem_eq kill_default_def)
qed

text \<open>A waiting process leaves its semaphore's queue, and the count says so.\<close>

lemma kill_wait_safe:
  assumes m: "mine F p s" and pid: "0 \<le> pid" "pid < NPROC" "pid \<noteq> NULLPROC" and st: "prstate (proctab s pid) = PR_WAIT"
  shows "ksafe F p (kill_wait pid s)"
proof -
  note g = mine_kgood [OF m]
  define i where "i = prsem (proctab s pid)"
  define q where "q = squeue (semtab s i)"
  have "proc_ok F {} s pid" using kgoodD(7) [OF g] pid by (simp add: kprocs_def)
  then have i: "\<not> isbadsem i" using st by (simp add: proc_ok_def entry_ok_def i_def)
  have h: "home s pid = Some q" using st by (simp add: home_def q_def i_def)
  have qi: "q \<in> qids (nextqid s)" "q \<noteq> readylist s" "q \<noteq> sleepq s" using kgood_sem [OF g i] by (simp_all add: q_def)
  have mem: "pid \<in> set (kq s q)" using kgood_mem [OF g pid(1,2) qi(1)] h by simp
  have u: "sstate (semtab s i) = S_USED"
    using cnt_free [OF g i] mem by (cases "sstate (semtab s i)") (auto simp: q_def)
  have neg: "scount (semtab s i) < 0" using cnt_used(3) [OF g i _ u] mem by (force simp: q_def)
  have len: "int (length (kq s q)) = - scount (semtab s i)" using cnt_used(2) [OF g i _ u neg] by (simp add: q_def)
  have lo: "- 100 \<le> scount (semtab s i)" using cnt_lower [OF g i _ u] by simp
  let ?f = "\<lambda>e. e\<lparr>scount := i32 (scount e + 1)\<rparr>"
  let ?s1 = "upd_sem i ?f s"
  let ?t' = "unlink pid (queuetab ?s1)"
  have g1: "kgood F {} (Some p) {i} True ?s1" using kgood_sem_upd [OF g, of ?f i] by simp
  have up: "qupdated (nextqid ?s1) (queuetab ?s1) ?t' q (remove1 pid (kq ?s1 q))"
    using unlink_spec [OF kgoodD(6) [OF g] qi(1) mem] by simp
  have g2: "kgood F (Set.insert pid {}) (Some p) {i} True (?s1\<lparr>queuetab := ?t'\<rparr>)"
  proof (rule kgood_unlink [OF g1 pid(1,2) _ _ _ up])
    show "home ?s1 pid = Some q" unfolding h [symmetric] by (intro home_cong) simp_all
    show "j \<in> {i}" if "\<not> isbadsem j" "squeue (semtab ?s1 j) = q" for j
    proof -
      have "squeue (semtab ?s1 j) = squeue (semtab s j)" by simp
      then have "squeue (semtab s j) = squeue (semtab s i)" using that(2) unfolding q_def by metis
      then show ?thesis using kgood_sem_inj [OF g that(1) i] by simp
    qed
  qed (use qi in \<open>simp_all add: qtab_simps\<close>)
  have "kgood F (Set.insert pid {}) (Some p) ({i} - {i}) True (?s1\<lparr>queuetab := ?t'\<rparr>)"
  proof (rule kgood_sem_ok [OF g2])
    have "qlist ?t' q = remove1 pid (kq s q)" using up qi(1) by (simp add: qupdated_def)
    moreover have "length (remove1 pid (kq s q)) + 1 = length (kq s q)"
      using mem by (simp add: length_remove1) (cases "kq s q"; simp)
    ultimately show "cnt_ok (sstate (semtab (?s1\<lparr>queuetab := ?t'\<rparr>) i)) (scount (semtab (?s1\<lparr>queuetab := ?t'\<rparr>) i))
        (length (kq (?s1\<lparr>queuetab := ?t'\<rparr>) (squeue (semtab (?s1\<lparr>queuetab := ?t'\<rparr>) i))))"
      using u len neg lo by (auto simp: q_def length_0_conv [symmetric] simp del: length_0_conv)
  qed
  then have g3: "kgood F {pid} (Some p) {} True (?s1\<lparr>queuetab := ?t'\<rparr>)" by simp
  have "pid \<noteq> p" using mineD(5) [OF m] st by auto
  then have "mine F p (set_prstate pid PR_FREE (?s1\<lparr>queuetab := ?t'\<rparr>))"
    using set_free_mine [OF g3 pid] mineD(2,3) [OF m] by simp
  then show ?thesis
    unfolding kill_wait_def i_def [symmetric] by (simp add: kill_ready_def getitem_eq kill_default_def)
qed

lemma kill_switch_safe:
  assumes m: "mine F p s" and pid: "0 \<le> pid" "pid < NPROC" "pid \<noteq> NULLPROC" and p: "p \<noteq> NULLPROC"
  shows "ksafe F p (kill_switch pid s)"
proof (cases "prstate (proctab s pid)")
  case PR_CURR
  then have "pid = p" using kinv_curD [OF mineD(1) [OF m] pid(1,2)] mineD(2) [OF m] by simp
  then show ?thesis using kill_curr_safe [OF m _ p] PR_CURR by (simp add: kill_switch_def)
qed (use kill_default_safe [OF m pid] kill_sleep_safe [OF m pid] kill_ready_safe [OF m pid] kill_wait_safe [OF m pid]
  in \<open>simp_all add: kill_switch_def\<close>)

lemma kill_stack_safe: "mine F p s \<Longrightarrow> ksafe F p (kill_stack pid s)"
  by (auto simp: kill_stack_def split: option.splits intro: kgood_cur_frame)

context device_close
begin

lemma kill_safe:
  assumes m: "mine F p s" and p: "p \<noteq> NULLPROC"
  shows "ksafe F p (kill run pid s)"
proof (cases "isbadpid s pid \<or> pid = NULLPROC")
  case True
  then show ?thesis using m by (auto simp: kill_def)
next
  case False
  then have pid: "0 \<le> pid" "pid < NPROC" "pid \<noteq> NULLPROC" by (simp_all add: isbadpid_def)
  let ?s1 = "s\<lparr>prcount := i32 (prcount s - 1)\<rparr>"
  have m1: "mine F p ?s1" using m by (rule kgood_cur_frame) simp_all
  have 4: "ksafe F p (kbind (kill_stack pid s3) (\<lambda>s4 _. kill_switch pid s4))" if "mine F p s3" for F s3
    by (rule ksafe_bind [OF kill_stack_safe [OF that]]) (rule kill_switch_safe [OF _ pid p])
  have 3: "ksafe F p (kbind (close_descs 3 0 run pid s2) (\<lambda>s3 _.
             kbind (kill_stack pid s3) (\<lambda>s4 _. kill_switch pid s4)))" if "mine F p s2" for F s2
    by (rule ksafe_bind [OF close_descs_safe [OF that p] 4])
  show ?thesis
    using False ksafe_bind [OF send_safe [OF m1] 3]
    by (simp add: kill_def isbadpid_def xdone_def Let_def del: close_descs.simps)
qed

lemma exit_safe: "mine F p s \<Longrightarrow> p \<noteq> NULLPROC \<Longrightarrow> ksafe F p (exit run s)"
  unfolding exit_def by (rule ksafe_bind [OF kill_safe]) simp_all

lemma userret_safe: "mine F p s \<Longrightarrow> p \<noteq> NULLPROC \<Longrightarrow> ksafe F p (userret run s)"
  unfolding userret_def by (rule ksafe_bind [OF kill_safe]) simp_all

end

end
