(* ===== verification/Lfs.thy ===== *)
theory Lfs
  imports Sems Devtab Bytes "HOL-Library.Signed_Division"
begin

text \<open>
  The RAM disk, \<^verbatim>\<open>device/ram/\<close>, and the local file system, \<^verbatim>\<open>device/lfs/\<close>. A sector is
  the list of its 512 bytes. A file system call reaches the disk through \<open>drv\<close>, the block routines
  of the device table, of which those of the RAM disk are modelled; a read gives its return code and
  the sector, or \<open>None\<close> when it left the caller's buffer as it was. An access outside an array is
  \<open>Stop Undefined\<close>, a walk along a cyclic list on disk \<open>Stop BadDisk\<close>.
\<close>

abbreviation (input) LF_INULL :: u32 where "LF_INULL \<equiv> - 1"
abbreviation (input) LF_DNULL :: u32 where "LF_DNULL \<equiv> - 1"
abbreviation (input) LF_BLKSIZ :: nat where "LF_BLKSIZ \<equiv> 512"
abbreviation (input) LF_NAME_LEN :: nat where "LF_NAME_LEN \<equiv> 16"
abbreviation (input) LF_NUM_DIR_ENT :: int where "LF_NUM_DIR_ENT \<equiv> 20"
abbreviation (input) LF_IBLEN :: nat where "LF_IBLEN \<equiv> 16"
abbreviation (input) LF_IDATA :: u32 where "LF_IDATA \<equiv> 8192"
abbreviation (input) LF_IMASK :: u32 where "LF_IMASK \<equiv> 0x1fff"
abbreviation (input) LF_DMASK :: u32 where "LF_DMASK \<equiv> 0x1ff"
abbreviation (input) LF_AREA_IB :: int where "LF_AREA_IB \<equiv> 1"
abbreviation (input) LF_AREA_DIR :: u32 where "LF_AREA_DIR \<equiv> 0"
abbreviation (input) LFS_ID :: u32 where "LFS_ID \<equiv> 0x58696E75"
abbreviation (input) LF_MODE_R :: int where "LF_MODE_R \<equiv> 1"
abbreviation (input) LF_MODE_W :: int where "LF_MODE_W \<equiv> 2"
abbreviation (input) LF_MODE_RW :: int where "LF_MODE_RW \<equiv> 3"
abbreviation (input) LF_MODE_N :: int where "LF_MODE_N \<equiv> 4"
abbreviation (input) LF_MODE_O :: int where "LF_MODE_O \<equiv> 8"
abbreviation (input) LF_CTL_TRUNC :: int where "LF_CTL_TRUNC \<equiv> 2"
abbreviation (input) Nlfl :: nat where "Nlfl \<equiv> 6"
abbreviation (input) DFILL :: u8 where "DFILL \<equiv> 43"

section \<open>The layout of sectors\<close>

definition word_at :: "u8 list \<Rightarrow> nat \<Rightarrow> u32" where
  "word_at bs k = of_le32 (drop k bs)"

text \<open>An index block is 72 bytes, a directory entry 24, the directory a whole sector.\<close>

definition ib_bytes :: "lfiblk \<Rightarrow> u8 list" where
  "ib_bytes b = le32 (ib_next b) @ le32 (ib_offset b) @ concat (map le32 (ib_dba b))"

definition ib_of :: "u8 list \<Rightarrow> lfiblk" where
  "ib_of bs = \<lparr>ib_next = word_at bs 0, ib_offset = word_at bs 4, ib_dba = map (\<lambda>k. word_at bs (8 + 4 * k)) [0..<LF_IBLEN]\<rparr>"

definition ent_bytes :: "ldentry \<Rightarrow> u8 list" where
  "ent_bytes e = le32 (ld_size e) @ le32 (ld_ilist e) @ ld_name e"

definition ent_of :: "u8 list \<Rightarrow> ldentry" where
  "ent_of bs = \<lparr>ld_size = word_at bs 0, ld_ilist = word_at bs 4, ld_name = take LF_NAME_LEN (drop 8 bs)\<rparr>"

definition dir_bytes :: "lfdir \<Rightarrow> u8 list" where
  "dir_bytes d = le32 (lfd_fsysid d) @ le16 (lfd_vers d) @ le16 (lfd_subvers d) @ le32 (lfd_allzeros d) @ le32 (lfd_allones d)
     @ le32 (lfd_dfree d) @ le32 (lfd_ifree d) @ le32 (lfd_nfiles d) @ concat (map ent_bytes (lfd_files d)) @ le32 (lfd_revid d)"

definition dir_of :: "u8 list \<Rightarrow> lfdir" where
  "dir_of bs = \<lparr>lfd_fsysid = word_at bs 0, lfd_vers = of_le16 (drop 4 bs), lfd_subvers = of_le16 (drop 6 bs),
     lfd_allzeros = word_at bs 8, lfd_allones = word_at bs 12, lfd_dfree = word_at bs 16, lfd_ifree = word_at bs 20,
     lfd_nfiles = word_at bs 24, lfd_files = map (\<lambda>k. ent_of (drop (28 + 24 * k) bs)) [0..<20], lfd_revid = word_at bs 508\<rparr>"

text \<open>\<open>ib2sect\<close> and \<open>ib2disp\<close> divide as C does, towards zero.\<close>

definition ib2sect :: "u32 \<Rightarrow> u32" where
  "ib2sect ib = word_of_int (sint ib sdiv 7 + LF_AREA_IB)"

definition ib2disp :: "u32 \<Rightarrow> int" where
  "ib2disp ib = (sint ib smod 7) * 72"

section \<open>The state\<close>

definition upd_lfs :: "(fsys \<Rightarrow> fsys) \<Rightarrow> kst \<Rightarrow> kst" where
  "upd_lfs g s = s\<lparr>lfs := g (lfs s)\<rparr>"

definition upd_dir :: "(lfdir \<Rightarrow> lfdir) \<Rightarrow> kst \<Rightarrow> kst" where
  "upd_dir g = upd_lfs (\<lambda>f. f\<lparr>lf_dir := g (lf_dir f)\<rparr>)"

definition upd_lfl :: "int \<Rightarrow> (lflcblk \<Rightarrow> lflcblk) \<Rightarrow> kst \<Rightarrow> kst" where
  "upd_lfl d g = upd_lfs (\<lambda>f. f\<lparr>lfltab := (lfltab f)(d := g (lfltab f d))\<rparr>)"

definition lfl :: "int \<Rightarrow> kst \<Rightarrow> lflcblk" where
  "lfl d s = lfltab (lfs s) d"

text \<open>The directory entry an open file points to.\<close>

definition lde :: "int \<Rightarrow> kst \<Rightarrow> ldentry" where
  "lde d s = lfd_files (lf_dir (lfs s)) ! nat (lfdirptr (lfl d s))"

definition upd_lde :: "int \<Rightarrow> (ldentry \<Rightarrow> ldentry) \<Rightarrow> kst \<Rightarrow> kst" where
  "upd_lde d g s = upd_dir (\<lambda>D. let j = nat (lfdirptr (lfl d s)) in D\<lparr>lfd_files := (lfd_files D)[j := g (lfd_files D ! j)]\<rparr>) s"

section \<open>The RAM disk\<close>

definition ram_bytes :: "int \<Rightarrow> fsys \<Rightarrow> u8 list" where
  "ram_bytes bpos f = map (\<lambda>i. ramdisk f (bpos + int i)) [0..<LF_BLKSIZ]"

definition ram_store :: "int \<Rightarrow> u8 list \<Rightarrow> fsys \<Rightarrow> fsys" where
  "ram_store bpos bs f = f\<lparr>ramdisk := (\<lambda>a. if bpos \<le> a \<and> a < bpos + 512 then bs ! nat (a - bpos) else ramdisk f a)\<rparr>"

text \<open>The disk has 200 blocks; neither routine checks the block number.\<close>

definition ram_inside :: "int \<Rightarrow> bool" where
  "ram_inside bpos \<longleftrightarrow> 0 \<le> bpos \<and> bpos + 512 \<le> 512 * 200"

definition ramread :: "u32 \<Rightarrow> kst \<Rightarrow> (kst, int \<times> u8 list option) kprog" where
  "ramread blk s =
     (let bpos = 512 * sint blk
      in if ram_inside bpos then Ret s (OK, Some (ram_bytes bpos (lfs s))) else Stop Undefined s)"

definition ramwrite :: "u8 list \<Rightarrow> u32 \<Rightarrow> kst \<Rightarrow> (kst, int \<times> u8 list option) kprog" where
  "ramwrite buff blk s =
     (let bpos = 512 * sint blk
      in if ram_inside bpos then Ret (upd_lfs (ram_store bpos buff) s) (OK, None) else Stop Undefined s)"

text \<open>\<^verbatim>\<open>raminit\<close> copies the disk onto itself, eight bytes further, byte by byte.\<close>

definition hopeless :: "u8 list" where
  "hopeless = [104, 111, 112, 101, 108, 101, 115, 115]"

primrec copy_up :: "nat \<Rightarrow> (int \<Rightarrow> u8) \<Rightarrow> int \<Rightarrow> u8" where
  "copy_up 0 m = m"
| "copy_up (Suc n) m = (let m1 = copy_up n m in m1(8 + int n := m1 (int n)))"

definition raminit :: "kst \<Rightarrow> (kst, int) kprog" where
  "raminit s =
     (let s1 = upd_lfs (\<lambda>f. f\<lparr>ramdisk := (\<lambda>a. if 0 \<le> a \<and> a < 8 then hopeless ! nat a else ramdisk f a)\<rparr>) s;
          s2 = upd_lfs (\<lambda>f. f\<lparr>ramdisk := copy_up (512 * 200 - 8) (ramdisk f)\<rparr>) s1
      in Ret s2 OK)"

definition ramopen :: "dentry \<Rightarrow> kst \<Rightarrow> (kst, int) kprog" where
  "ramopen devptr s = Ret s (dvnum devptr)"

text \<open>
  The block routines of the device table: the RAM disk's, the two empty ones, and \<open>rest\<close> for those
  of the other devices. \<^verbatim>\<open>read\<close> and \<^verbatim>\<open>write\<close> of a sector go through the table.
\<close>

type_synonym blkdrv = "devfn \<Rightarrow> dentry \<Rightarrow> u32 \<Rightarrow> u8 list \<Rightarrow> kst \<Rightarrow> (kst, int \<times> u8 list option) kprog"

definition ram_drv :: "blkdrv \<Rightarrow> blkdrv" where
  "ram_drv rest f e blk buff s =
     (case f of Ramread \<Rightarrow> ramread blk s
      | Ramwrite \<Rightarrow> ramwrite buff blk s
      | Ionull \<Rightarrow> Ret s (OK, None)
      | Ioerr \<Rightarrow> Ret s (SYSERR, None)
      | _ \<Rightarrow> rest f e blk buff s)"

definition bread :: "blkdrv \<Rightarrow> int \<Rightarrow> u32 \<Rightarrow> kst \<Rightarrow> (kst, int \<times> u8 list option) kprog" where
  "bread drv dev blk s = (if isbaddev dev then Ret s (SYSERR, None) else drv (dvread (dentry_of dev)) (dentry_of dev) blk [] s)"

definition bwrite :: "blkdrv \<Rightarrow> int \<Rightarrow> u8 list \<Rightarrow> u32 \<Rightarrow> kst \<Rightarrow> (kst, int) kprog" where
  "bwrite drv dev buff blk s =
     (if isbaddev dev then Ret s SYSERR
      else kbind (drv (dvwrite (dentry_of dev)) (dentry_of dev) blk buff s) (\<lambda>s1 r. Ret s1 (fst r)))"

definition kwhen :: "bool \<Rightarrow> (kst \<Rightarrow> (kst, unit) kprog) \<Rightarrow> kst \<Rightarrow> (kst, unit) kprog" where
  "kwhen b c s = (if b then c s else Ret s ())"

section \<open>Index blocks and data blocks\<close>

definition lfibclear :: "u32 \<Rightarrow> lfiblk" where
  "lfibclear offset = \<lparr>ib_next = LF_INULL, ib_offset = offset, ib_dba = replicate LF_IBLEN LF_DNULL\<rparr>"

definition lfibget :: "blkdrv \<Rightarrow> int \<Rightarrow> u32 \<Rightarrow> kst \<Rightarrow> (kst, lfiblk) kprog" where
  "lfibget drv diskdev inum s =
     kbind (bread drv diskdev (ib2sect inum) s) (\<lambda>s1 (_, b).
       case b of None \<Rightarrow> Stop Undefined s1
       | Some dbuff \<Rightarrow> if ib2disp inum < 0 then Stop Undefined s1 else Ret s1 (ib_of (drop (nat (ib2disp inum)) dbuff)))"

definition lfibput :: "blkdrv \<Rightarrow> int \<Rightarrow> u32 \<Rightarrow> lfiblk \<Rightarrow> kst \<Rightarrow> (kst, int) kprog" where
  "lfibput drv diskdev inum ibuff s =
     kbind (bread drv diskdev (ib2sect inum) s) (\<lambda>s1 (retval, b).
       if retval = SYSERR then Ret s1 SYSERR
       else case b of None \<Rightarrow> Stop Undefined s1
       | Some dbuff \<Rightarrow> if ib2disp inum < 0 then Stop Undefined s1
           else let k = nat (ib2disp inum); dbuff' = take k dbuff @ ib_bytes ibuff @ drop (k + 72) dbuff
                in kbind (bwrite drv diskdev dbuff' (ib2sect inum) s1) (\<lambda>s2 _. Ret s2 OK))"

text \<open>Writing the directory to its sector.\<close>

definition put_dir :: "blkdrv \<Rightarrow> kst \<Rightarrow> (kst, int) kprog" where
  "put_dir drv s = bwrite drv (lf_dskdev (lfs s)) (dir_bytes (lf_dir (lfs s))) LF_AREA_DIR s"

text \<open>\<^verbatim>\<open>lfdballoc\<close> into the data block of the open file \<open>d\<close>, which is where all its callers want it.\<close>

definition lfdballoc :: "blkdrv \<Rightarrow> int \<Rightarrow> kst \<Rightarrow> (kst, u32) kprog" where
  "lfdballoc drv d s =
     (let dnum = lfd_dfree (lf_dir (lfs s)) in
      if dnum = LF_DNULL then Stop (Panicked ''out of data blocks'') s
      else kbind (bread drv (lf_dskdev (lfs s)) dnum s) (\<lambda>s1 (retval, b).
        if retval = SYSERR then Stop (Panicked ''lfdballoc cannot read disk block'') s1
        else let s2 = (case b of None \<Rightarrow> s1 | Some dbuff \<Rightarrow> upd_lfl d (\<lambda>t. t\<lparr>lfdblock := dbuff\<rparr>) s1);
                 s3 = upd_dir (\<lambda>D. D\<lparr>lfd_dfree := word_at (lfdblock (lfl d s2)) 0\<rparr>) s2
             in kbind (put_dir drv s3) (\<lambda>s4 _.
                  let s5 = upd_lfs (\<lambda>f. f\<lparr>lf_dirdirty := False\<rparr>) s4;
                      s6 = upd_lfl d (\<lambda>t. t\<lparr>lfdblock := replicate LF_BLKSIZ DFILL\<rparr>) s5
                  in Ret s6 dnum)))"

text \<open>\<open>junk\<close> is what the stack holds behind the link in the block that is written.\<close>

definition lfdbfree :: "blkdrv \<Rightarrow> u8 list \<Rightarrow> int \<Rightarrow> u32 \<Rightarrow> kst \<Rightarrow> (kst, int) kprog" where
  "lfdbfree drv junk diskdev dnum s =
     (let buf = le32 (lfd_dfree (lf_dir (lfs s))) @ junk;
          s1 = upd_dir (\<lambda>D. D\<lparr>lfd_dfree := dnum\<rparr>) s
      in kbind (bwrite drv diskdev buf dnum s1) (\<lambda>s2 _.
         kbind (bwrite drv diskdev (dir_bytes (lf_dir (lfs s2))) LF_AREA_DIR s2) (\<lambda>s3 _. Ret s3 OK)))"

definition lfiballoc :: "blkdrv \<Rightarrow> kst \<Rightarrow> (kst, u32) kprog" where
  "lfiballoc drv s =
     (let ibnum = lfd_ifree (lf_dir (lfs s)) in
      if ibnum = LF_INULL then Stop (Panicked ''out of index blocks'') s
      else kbind (lfibget drv (lf_dskdev (lfs s)) ibnum s) (\<lambda>s1 iblock.
        let s2 = upd_dir (\<lambda>D. D\<lparr>lfd_ifree := ib_next iblock\<rparr>) s1
        in kbind (put_dir drv s2) (\<lambda>s3 _. Ret (upd_lfs (\<lambda>f. f\<lparr>lf_dirdirty := False\<rparr>) s3) ibnum)))"

definition lfflush :: "blkdrv \<Rightarrow> int \<Rightarrow> kst \<Rightarrow> (kst, int) kprog" where
  "lfflush drv d s =
     (if lfstate (lfl d s) = LF_FREE then Ret s SYSERR
      else kbind (kwhen (lf_dirdirty (lfs s)) (\<lambda>s. kbind (put_dir drv s) (\<lambda>s1 _.
             Ret (upd_lfs (\<lambda>f. f\<lparr>lf_dirdirty := False\<rparr>) s1) ())) s) (\<lambda>s1 _.
      kbind (kwhen (lfdbdirty (lfl d s1)) (\<lambda>s. kbind (bwrite drv (lf_dskdev (lfs s)) (lfdblock (lfl d s)) (lfdnum (lfl d s)) s)
             (\<lambda>s1 _. Ret (upd_lfl d (\<lambda>t. t\<lparr>lfdbdirty := False\<rparr>) s1) ())) s1) (\<lambda>s2 _.
      kbind (kwhen (lfibdirty (lfl d s2)) (\<lambda>s. kbind (lfibput drv (lf_dskdev (lfs s)) (lfinum (lfl d s)) (lfiblock (lfl d s)) s)
             (\<lambda>s1 _. Ret (upd_lfl d (\<lambda>t. t\<lparr>lfibdirty := False\<rparr>) s1) ())) s2) (\<lambda>s3 _. Ret s3 OK))))"

section \<open>Finding the block of a position\<close>

text \<open>
  \<^verbatim>\<open>lfsetup\<close> in three parts: an index block is in memory; it covers the position; the data block
  of the position is in memory. The list of index blocks of a file covers at most $2^{32}$ bytes, so
  the fuel of the second part is enough unless the list on disk is cyclic.
\<close>

definition lf_first :: "blkdrv \<Rightarrow> int \<Rightarrow> kst \<Rightarrow> (kst, unit) kprog" where
  "lf_first drv d s =
     (let ibnum = lfinum (lfl d s) in
      if ibnum = LF_INULL then
        let ibnum = ld_ilist (lde d s) in
        if ibnum = LF_INULL then
          kbind (lfiballoc drv s) (\<lambda>s1 ibnum.
            let s2 = upd_lfl d (\<lambda>t. t\<lparr>lfiblock := lfibclear 0\<rparr>) s1;
                s3 = upd_lde d (\<lambda>e. e\<lparr>ld_ilist := ibnum\<rparr>) s2
            in Ret (upd_lfl d (\<lambda>t. t\<lparr>lfibdirty := True, lfinum := ibnum\<rparr>) s3) ())
        else
          kbind (lfibget drv (lf_dskdev (lfs s)) ibnum s) (\<lambda>s1 b.
            Ret (upd_lfl d (\<lambda>t. t\<lparr>lfiblock := b, lfinum := ibnum\<rparr>) s1) ())
      else if lfpos (lfl d s) < ib_offset (lfiblock (lfl d s)) then
        let ibnum = ld_ilist (lde d s) in
        kbind (lfibget drv (lf_dskdev (lfs s)) ibnum s) (\<lambda>s1 b.
          Ret (upd_lfl d (\<lambda>t. t\<lparr>lfiblock := b, lfinum := ibnum\<rparr>) s1) ())
      else Ret s ())"

primrec lf_advance :: "nat \<Rightarrow> blkdrv \<Rightarrow> int \<Rightarrow> kst \<Rightarrow> (kst, unit) kprog" where
  "lf_advance 0 drv d s = Stop BadDisk s"
| "lf_advance (Suc n) drv d s =
     (if lfpos (lfl d s) AND NOT LF_IMASK > ib_offset (lfiblock (lfl d s)) then
        let ibnum = ib_next (lfiblock (lfl d s)) in
        if ibnum = LF_INULL then
          kbind (lfiballoc drv s) (\<lambda>s1 ibnum.
            let s2 = upd_lfl d (\<lambda>t. t\<lparr>lfiblock := (lfiblock t)\<lparr>ib_next := ibnum\<rparr>\<rparr>) s1
            in kbind (lfibput drv (lf_dskdev (lfs s2)) (lfinum (lfl d s2)) (lfiblock (lfl d s2)) s2) (\<lambda>s3 _.
                 let newoffset = ib_offset (lfiblock (lfl d s3)) + LF_IDATA;
                     s4 = upd_lfl d (\<lambda>t. t\<lparr>lfinum := ibnum, lfiblock := lfibclear newoffset, lfibdirty := True,
                       lfdnum := LF_DNULL\<rparr>) s3
                 in lf_advance n drv d s4))
        else
          kbind (lfibget drv (lf_dskdev (lfs s)) ibnum s) (\<lambda>s1 b.
            lf_advance n drv d (upd_lfl d (\<lambda>t. t\<lparr>lfiblock := b, lfinum := ibnum, lfdnum := LF_DNULL\<rparr>) s1))
      else Ret s ())"

definition lf_block :: "blkdrv \<Rightarrow> int \<Rightarrow> kst \<Rightarrow> (kst, unit) kprog" where
  "lf_block drv d s =
     (let dindex = unat (drop_bit 9 (lfpos (lfl d s) AND LF_IMASK));
          dnum = ib_dba (lfiblock (lfl d s)) ! dindex;
          located = (\<lambda>s dnum. upd_lfl d (\<lambda>t. t\<lparr>lfdnum := dnum, lfbyte := uint (lfpos t AND LF_DMASK)\<rparr>) s)
      in if dnum = LF_DNULL then
           kbind (lfdballoc drv d s) (\<lambda>s1 dnum.
             Ret (located (upd_lfl d (\<lambda>t. t\<lparr>lfiblock := (lfiblock t)\<lparr>ib_dba := (ib_dba (lfiblock t))[dindex := dnum]\<rparr>,
               lfibdirty := True\<rparr>) s1) dnum) ())
         else if dnum \<noteq> lfdnum (lfl d s) then
           kbind (bread drv (lf_dskdev (lfs s)) dnum s) (\<lambda>s1 (_, b).
             let s2 = (case b of None \<Rightarrow> s1 | Some dbuff \<Rightarrow> upd_lfl d (\<lambda>t. t\<lparr>lfdblock := dbuff\<rparr>) s1)
             in Ret (located (upd_lfl d (\<lambda>t. t\<lparr>lfdbdirty := False\<rparr>) s2) dnum) ())
         else Ret (located s dnum) ())"

definition lfsetup :: "blkdrv \<Rightarrow> int \<Rightarrow> kst \<Rightarrow> (kst, int) kprog" where
  "lfsetup drv d s =
     kbind (wait (lf_mutex (lfs s)) s) (\<lambda>s1 _.
     kbind (kwhen (lfibdirty (lfl d s1) \<or> lfdbdirty (lfl d s1)) (\<lambda>s. kbind (lfflush drv d s) (\<lambda>s1 _. Ret s1 ())) s1) (\<lambda>s2 _.
     kbind (lf_first drv d s2) (\<lambda>s3 _.
     kbind (lf_advance 524289 drv d s3) (\<lambda>s4 _.
     kbind (lf_block drv d s4) (\<lambda>s5 _.
     kbind (signal (lf_mutex (lfs s5)) s5) (\<lambda>s6 _. Ret s6 OK))))))"

section \<open>Operations on an open file\<close>

definition lf_leave :: "int \<Rightarrow> int \<Rightarrow> kst \<Rightarrow> (kst, int) kprog" where
  "lf_leave d r s = kbind (signal (lfmutex (lfl d s)) s) (\<lambda>s1 _. Ret s1 r)"

definition lf_locate :: "blkdrv \<Rightarrow> int \<Rightarrow> kst \<Rightarrow> (kst, unit) kprog" where
  "lf_locate drv d s = kwhen (lfbyte (lfl d s) \<ge> 512) (\<lambda>s. kbind (lfsetup drv d s) (\<lambda>s1 _. Ret s1 ())) s"

definition lflgetc :: "blkdrv \<Rightarrow> dentry \<Rightarrow> kst \<Rightarrow> (kst, int) kprog" where
  "lflgetc drv devptr s =
     (let d = dvminor devptr in
      kbind (wait (lfmutex (lfl d s)) s) (\<lambda>s1 _.
        if lfstate (lfl d s1) \<noteq> LF_USED then lf_leave d SYSERR s1
        else if lfpos (lfl d s1) \<ge> ld_size (lde d s1) then lf_leave d EOF s1
        else kbind (lf_locate drv d s1) (\<lambda>s2 _.
          let onebyte = uint (lfdblock (lfl d s2) ! nat (lfbyte (lfl d s2)));
              s3 = upd_lfl d (\<lambda>t. t\<lparr>lfbyte := lfbyte t + 1, lfpos := lfpos t + 1\<rparr>) s2
          in lf_leave d onebyte s3)))"

definition lflputc :: "blkdrv \<Rightarrow> dentry \<Rightarrow> u8 \<Rightarrow> kst \<Rightarrow> (kst, int) kprog" where
  "lflputc drv devptr ch s =
     (let d = dvminor devptr in
      kbind (wait (lfmutex (lfl d s)) s) (\<lambda>s1 _.
        if lfstate (lfl d s1) \<noteq> LF_USED then lf_leave d SYSERR s1
        else if lfpos (lfl d s1) > ld_size (lde d s1) then lf_leave d SYSERR s1
        else kbind (lf_locate drv d s1) (\<lambda>s2 _.
          let s3 = (if lfpos (lfl d s2) \<ge> ld_size (lde d s2)
                    then upd_lfs (\<lambda>f. f\<lparr>lf_dirdirty := True\<rparr>) (upd_lde d (\<lambda>e. e\<lparr>ld_size := ld_size e + 1\<rparr>) s2) else s2);
              s4 = upd_lfl d (\<lambda>t. t\<lparr>lfdblock := (lfdblock t)[nat (lfbyte t) := ch], lfbyte := lfbyte t + 1,
                lfpos := lfpos t + 1, lfdbdirty := True\<rparr>) s3
          in lf_leave d OK s4)))"

definition lflseek :: "dentry \<Rightarrow> u32 \<Rightarrow> kst \<Rightarrow> (kst, int) kprog" where
  "lflseek devptr offset s =
     (let d = dvminor devptr in
      kbind (wait (lfmutex (lfl d s)) s) (\<lambda>s1 _.
        if lfstate (lfl d s1) \<noteq> LF_USED then lf_leave d SYSERR s1
        else if offset > ld_size (lde d s1) then lf_leave d SYSERR s1
        else lf_leave d OK (upd_lfl d (\<lambda>t. t\<lparr>lfpos := offset, lfbyte := 512\<rparr>) s1)))"

definition lflclose :: "blkdrv \<Rightarrow> dentry \<Rightarrow> kst \<Rightarrow> (kst, int) kprog" where
  "lflclose drv devptr s =
     (let d = dvminor devptr in
      kbind (wait (lfmutex (lfl d s)) s) (\<lambda>s1 _.
        if lfstate (lfl d s1) \<noteq> LF_USED then lf_leave d SYSERR s1
        else kbind (kwhen (lf_dirdirty (lfs s1) \<or> lfdbdirty (lfl d s1) \<or> lfibdirty (lfl d s1))
               (\<lambda>s. kbind (lfflush drv d s) (\<lambda>s1 _. Ret s1 ())) s1) (\<lambda>s2 _.
          lf_leave d OK (upd_lfl d (\<lambda>t. t\<lparr>lfstate := LF_FREE\<rparr>) s2))))"

text \<open>\<^verbatim>\<open>lflread\<close> and \<^verbatim>\<open>lflwrite\<close>: \<open>k\<close> bytes are left, \<open>numread\<close> are done.\<close>

definition store_byte :: "u32 \<Rightarrow> int \<Rightarrow> kst \<Rightarrow> kst" where
  "store_byte buff c s = set_kmem ((kmem s)(buff := word_of_int c)) s"

primrec lflread_loop :: "nat \<Rightarrow> blkdrv \<Rightarrow> dentry \<Rightarrow> u32 \<Rightarrow> int \<Rightarrow> kst \<Rightarrow> (kst, int) kprog" where
  "lflread_loop 0 drv devptr buff numread s = Ret s numread"
| "lflread_loop (Suc k) drv devptr buff numread s =
     kbind (lflgetc drv devptr s) (\<lambda>s1 nxtbyte.
       if nxtbyte = SYSERR then Ret s1 SYSERR
       else if nxtbyte = EOF then (if numread = 0 then Ret s1 EOF else Ret s1 numread)
       else lflread_loop k drv devptr (buff + 1) (numread + 1) (store_byte buff nxtbyte s1))"

definition lflread :: "blkdrv \<Rightarrow> dentry \<Rightarrow> u32 \<Rightarrow> int \<Rightarrow> kst \<Rightarrow> (kst, int) kprog" where
  "lflread drv devptr buff count s =
     (if count < 0 then Ret s SYSERR else lflread_loop (nat count) drv devptr buff 0 s)"

primrec lflwrite_loop :: "nat \<Rightarrow> blkdrv \<Rightarrow> dentry \<Rightarrow> u32 \<Rightarrow> int \<Rightarrow> kst \<Rightarrow> (kst, int) kprog" where
  "lflwrite_loop 0 drv devptr buff count s = Ret s count"
| "lflwrite_loop (Suc k) drv devptr buff count s =
     kbind (lflputc drv devptr (kmem s buff) s) (\<lambda>s1 r.
       if r = SYSERR then Ret s1 SYSERR else lflwrite_loop k drv devptr (buff + 1) count s1)"

definition lflwrite :: "blkdrv \<Rightarrow> dentry \<Rightarrow> u32 \<Rightarrow> int \<Rightarrow> kst \<Rightarrow> (kst, int) kprog" where
  "lflwrite drv devptr buff count s =
     (if count < 0 then Ret s SYSERR else lflwrite_loop (nat count) drv devptr buff count s)"

section \<open>File system calls are safe\<close>

text \<open>
  The contract of block routines: whatever they do, a process that calls them keeps the kernel
  invariant.
\<close>

lemma sched_part_lfs [simp]:
  "sched_part (upd_lfs g s) = sched_part s" "sched_part (upd_dir h s) = sched_part s" "sched_part (upd_lfl d k s) = sched_part s"
  "sched_part (upd_lde d l s) = sched_part s" "sched_part (store_byte a c s) = sched_part s"
  by (simp_all add: sched_part_def upd_lfs_def upd_dir_def upd_lfl_def upd_lde_def store_byte_def set_kmem_def)

lemma mine_lfs [simp]:
  "mine F p (upd_lfs g s) = mine F p s" "mine F p (upd_dir h s) = mine F p s" "mine F p (upd_lfl d k s) = mine F p s"
  "mine F p (upd_lde d l s) = mine F p s" "mine F p (store_byte a c s) = mine F p s"
  by (rule iffI; erule mine_cong [rotated]; simp)+

lemma kwhen_safe: "mine F p s \<Longrightarrow> (b \<Longrightarrow> ksafe F p (c s)) \<Longrightarrow> ksafe F p (kwhen b c s)"
  by (simp add: kwhen_def)

lemma lf_leave_safe: "mine F p s \<Longrightarrow> ksafe F p (lf_leave d r s)"
  by (auto simp: lf_leave_def intro!: ksafe_bind signal_safe)

lemma lflseek_safe: "mine F p s \<Longrightarrow> p \<noteq> NULLPROC \<Longrightarrow> ksafe F p (lflseek e k s)"
  by (auto simp: lflseek_def Let_def intro!: ksafe_bind wait_safe lf_leave_safe)

locale block_driver =
  fixes drv :: blkdrv
  assumes drv_safe: "mine F p s \<Longrightarrow> ksafe F p (drv f e blk buff s)"
begin

lemma bread_safe: "mine F p s \<Longrightarrow> ksafe F p (bread drv dev blk s)"
  by (simp add: bread_def drv_safe)

lemma bwrite_safe: "mine F p s \<Longrightarrow> ksafe F p (bwrite drv dev buff blk s)"
  by (auto simp: bwrite_def intro!: ksafe_bind drv_safe)

lemma put_dir_safe: "mine F p s \<Longrightarrow> ksafe F p (put_dir drv s)"
  by (simp add: put_dir_def bwrite_safe)

lemma lfibget_safe: "mine F p s \<Longrightarrow> ksafe F p (lfibget drv dev ib s)"
  by (auto simp: lfibget_def split: option.splits intro!: ksafe_bind bread_safe)

lemma lfibput_safe: "mine F p s \<Longrightarrow> ksafe F p (lfibput drv dev ib b s)"
  by (auto simp: lfibput_def Let_def split: option.splits intro!: ksafe_bind bread_safe bwrite_safe)

lemma lfdballoc_safe: "mine F p s \<Longrightarrow> ksafe F p (lfdballoc drv d s)"
  by (auto simp: lfdballoc_def Let_def split: option.splits intro!: ksafe_bind bread_safe put_dir_safe)

lemma lfdbfree_safe: "mine F p s \<Longrightarrow> ksafe F p (lfdbfree drv junk dev db s)"
  by (auto simp: lfdbfree_def Let_def intro!: ksafe_bind bwrite_safe)

lemma lfiballoc_safe: "mine F p s \<Longrightarrow> ksafe F p (lfiballoc drv s)"
  by (auto simp: lfiballoc_def Let_def intro!: ksafe_bind lfibget_safe put_dir_safe)

lemma lfflush_safe: "mine F p s \<Longrightarrow> ksafe F p (lfflush drv d s)"
  by (auto simp: lfflush_def Let_def intro!: ksafe_bind kwhen_safe put_dir_safe bwrite_safe lfibput_safe)

lemma lf_first_safe: "mine F p s \<Longrightarrow> ksafe F p (lf_first drv d s)"
  by (auto simp: lf_first_def Let_def intro!: ksafe_bind lfiballoc_safe lfibget_safe)

lemma lf_advance_safe: "mine F p s \<Longrightarrow> ksafe F p (lf_advance n drv d s)"
  by (induction n arbitrary: F s) (auto simp: Let_def intro!: ksafe_bind lfiballoc_safe lfibget_safe lfibput_safe)

lemma lf_block_safe: "mine F p s \<Longrightarrow> ksafe F p (lf_block drv d s)"
  by (auto simp: lf_block_def Let_def split: option.splits intro!: ksafe_bind lfdballoc_safe bread_safe)

lemma lfsetup_safe: "mine F p s \<Longrightarrow> p \<noteq> NULLPROC \<Longrightarrow> ksafe F p (lfsetup drv d s)"
  unfolding lfsetup_def
  by (intro ksafe_bind kwhen_safe wait_safe signal_safe lfflush_safe lf_first_safe lf_advance_safe lf_block_safe)
    (simp_all add: ksafe_bind lfflush_safe)

lemma lf_locate_safe: "mine F p s \<Longrightarrow> p \<noteq> NULLPROC \<Longrightarrow> ksafe F p (lf_locate drv d s)"
  by (auto simp: lf_locate_def intro!: kwhen_safe ksafe_bind lfsetup_safe)

lemma lflgetc_safe: "mine F p s \<Longrightarrow> p \<noteq> NULLPROC \<Longrightarrow> ksafe F p (lflgetc drv e s)"
  by (auto simp: lflgetc_def Let_def intro!: ksafe_bind wait_safe lf_leave_safe lf_locate_safe)

lemma lflputc_safe: "mine F p s \<Longrightarrow> p \<noteq> NULLPROC \<Longrightarrow> ksafe F p (lflputc drv e ch s)"
  by (auto simp: lflputc_def Let_def intro!: ksafe_bind wait_safe lf_leave_safe lf_locate_safe)

lemma lflclose_safe: "mine F p s \<Longrightarrow> p \<noteq> NULLPROC \<Longrightarrow> ksafe F p (lflclose drv e s)"
  by (auto simp: lflclose_def Let_def intro!: ksafe_bind wait_safe kwhen_safe lf_leave_safe lfflush_safe)

lemma lflread_loop_safe: "mine F p s \<Longrightarrow> p \<noteq> NULLPROC \<Longrightarrow> ksafe F p (lflread_loop k drv e a n s)"
  by (induction k arbitrary: F a n s) (auto intro!: ksafe_bind lflgetc_safe)

lemma lflread_safe: "mine F p s \<Longrightarrow> p \<noteq> NULLPROC \<Longrightarrow> ksafe F p (lflread drv e a n s)"
  by (simp add: lflread_def lflread_loop_safe)

lemma lflwrite_loop_safe: "mine F p s \<Longrightarrow> p \<noteq> NULLPROC \<Longrightarrow> ksafe F p (lflwrite_loop k drv e a n s)"
  by (induction k arbitrary: F a s) (auto intro!: ksafe_bind lflputc_safe)

lemma lflwrite_safe: "mine F p s \<Longrightarrow> p \<noteq> NULLPROC \<Longrightarrow> ksafe F p (lflwrite drv e a n s)"
  by (simp add: lflwrite_def lflwrite_loop_safe)

lemma ram_drv_safe: "mine F p s \<Longrightarrow> ksafe F p (ram_drv drv f e blk buff s)"
  by (cases f) (simp_all add: ram_drv_def ramread_def ramwrite_def Let_def drv_safe)

end

lemma block_driver_ram: "block_driver drv \<Longrightarrow> block_driver (ram_drv drv)"
  by (auto simp: block_driver_def intro: block_driver.ram_drv_safe)

text \<open>No other disk is used: a read or write on another device is refused.\<close>

definition no_disk :: blkdrv where
  "no_disk f e blk buff s = Ret s (SYSERR, None)"

interpretation ramonly: block_driver "ram_drv no_disk"
  by (rule block_driver_ram) (simp add: block_driver_def no_disk_def)

end
