(* ===== verification/Lfsdir.thy ===== *)
theory Lfsdir
  imports Lfs
begin

text \<open>
  The rest of the local file system: creating and checking a disk (\<^verbatim>\<open>lfscreate\<close>,
  \<^verbatim>\<open>lfsckfmt\<close>, \<^verbatim>\<open>lfscheck\<close>), opening a file (\<^verbatim>\<open>lfsopen\<close>,
  \<^verbatim>\<open>lfgetmode\<close>), truncating one (\<^verbatim>\<open>lftruncate\<close>, \<^verbatim>\<open>lflcontrol\<close>) and the
  initial states of the master and the file devices. Names and modes are strings in memory.
\<close>

section \<open>Initial states\<close>

definition lfsinit :: "kst \<Rightarrow> kst \<times> int" where
  "lfsinit s =
     (let s1 = upd_lfs (\<lambda>f. f\<lparr>lf_dskdev := - 1\<rparr>) s;
          (s2, m) = semcreate 1 s1
      in (upd_lfs (\<lambda>f. f\<lparr>lf_mutex := m, lf_dir := dir_of (replicate LF_BLKSIZ 0), lf_dirpresent := False, lf_dirdirty := False\<rparr>) s2,
          OK))"

definition lflinit :: "dentry \<Rightarrow> kst \<Rightarrow> kst \<times> int" where
  "lflinit devptr s =
     (let d = dvminor devptr;
          s1 = upd_lfl d (\<lambda>t. t\<lparr>lfstate := LF_FREE, lfdev := dvnum devptr\<rparr>) s;
          (s2, m) = semcreate 1 s1;
          s3 = upd_lfl d (\<lambda>t. t\<lparr>lfmutex := m, lfdirptr := - 1, lfpos := 0, lfname := replicate LF_NAME_LEN 0,
                 lfinum := LF_INULL, lfiblock := \<lparr>ib_next = 0, ib_offset = 0, ib_dba = replicate LF_IBLEN 0\<rparr>, lfdnum := 0,
                 lfdblock := replicate LF_BLKSIZ 0, lfbyte := 512, lfibdirty := False, lfdbdirty := False\<rparr>) s2
      in (s3, OK))"

section \<open>Modes\<close>

text \<open>
  A mode string has at most one each of \<open>r\<close>, \<open>w\<close> and \<open>o\<close> or \<open>n\<close>, so its fourth character ends
  the loop: the fuel is enough, as \<open>lfgetmode_total\<close> shows.
\<close>

primrec lfgetmode_loop :: "nat \<Rightarrow> memory \<Rightarrow> u32 \<Rightarrow> int \<Rightarrow> int option" where
  "lfgetmode_loop 0 m mode mbits = None"
| "lfgetmode_loop (Suc n) m mode mbits =
     (let ch = m mode in
      if ch = 0 then Some (if mbits AND LF_MODE_RW = 0 then mbits OR LF_MODE_RW else mbits)
      else if ch = 114 then
        (if mbits AND LF_MODE_R \<noteq> 0 then Some SYSERR else lfgetmode_loop n m (mode + 1) (mbits OR LF_MODE_R))
      else if ch = 119 then
        (if mbits AND LF_MODE_W \<noteq> 0 then Some SYSERR else lfgetmode_loop n m (mode + 1) (mbits OR LF_MODE_W))
      else if ch = 111 then
        (if mbits AND LF_MODE_O \<noteq> 0 \<or> mbits AND LF_MODE_N \<noteq> 0 then Some SYSERR
         else lfgetmode_loop n m (mode + 1) (mbits OR LF_MODE_O))
      else if ch = 110 then
        (if mbits AND LF_MODE_O \<noteq> 0 \<or> mbits AND LF_MODE_N \<noteq> 0 then Some SYSERR
         else lfgetmode_loop n m (mode + 1) (mbits OR LF_MODE_N))
      else Some SYSERR)"

definition lfgetmode :: "memory \<Rightarrow> u32 \<Rightarrow> int option" where
  "lfgetmode m mode = lfgetmode_loop 4 m mode 0"

section \<open>Creating and checking a disk\<close>

definition lfs_reverse :: u32 where
  "lfs_reverse = (drop_bit 24 LFS_ID AND 0x000000ff) OR (drop_bit 8 LFS_ID AND 0x0000ff00)
     OR (push_bit 8 LFS_ID AND 0x00ff0000) OR (push_bit 24 LFS_ID AND 0xff000000)"

definition lfscheck :: "lfdir \<Rightarrow> int" where
  "lfscheck D =
     (if lfd_fsysid D \<noteq> LFS_ID \<or> lfd_allzeros D \<noteq> 0 \<or> lfd_allones D \<noteq> 0xffffffff then SYSERR
      else if lfd_revid D \<noteq> lfs_reverse then SYSERR
      else if sint (lfd_nfiles D) < 0 then SYSERR
      else OK)"

primrec kfor :: "nat \<Rightarrow> (nat \<Rightarrow> kst \<Rightarrow> (kst, unit) kprog) \<Rightarrow> kst \<Rightarrow> (kst, unit) kprog" where
  "kfor 0 c s = Ret s ()"
| "kfor (Suc n) c s = kbind (kfor n c s) (\<lambda>s1 _. c n s1)"

definition lfs_dir0 :: "u32 \<Rightarrow> lfdir" where
  "lfs_dir0 dfree = (dir_of (replicate LF_BLKSIZ 0))\<lparr>lfd_fsysid := LFS_ID, lfd_nfiles := 0, lfd_allzeros := 0,
     lfd_allones := 0xffffffff, lfd_revid := lfs_reverse, lfd_dfree := dfree\<rparr>"

text \<open>The two free lists; a link is written into every block of them.\<close>

definition put_link :: "blkdrv \<Rightarrow> int \<Rightarrow> u32 \<Rightarrow> u32 \<Rightarrow> kst \<Rightarrow> (kst, unit) kprog" where
  "put_link drv disk nxt db s = kbind (bwrite drv disk (le32 nxt @ replicate 508 0) db s) (\<lambda>s1 _. Ret s1 ())"

definition put_free_ib :: "blkdrv \<Rightarrow> int \<Rightarrow> u32 \<Rightarrow> u32 \<Rightarrow> kst \<Rightarrow> (kst, unit) kprog" where
  "put_free_ib drv disk nxt ib s = kbind (lfibput drv disk ib ((lfibclear 0)\<lparr>ib_next := nxt\<rparr>) s) (\<lambda>s1 _. Ret s1 ())"

definition make_free_lists :: "blkdrv \<Rightarrow> int \<Rightarrow> u32 \<Rightarrow> u32 \<Rightarrow> u32 \<Rightarrow> kst \<Rightarrow> (kst, unit) kprog" where
  "make_free_lists drv disk lfiblks dbindex dblks s =
     (let n = nat (sint lfiblks - 1); k = unat (dblks - 1)
      in kbind (kfor n (\<lambda>i. put_free_ib drv disk (of_nat (i + 1)) (of_nat i)) s) (\<lambda>s1 _.
         kbind (put_free_ib drv disk LF_INULL (of_nat n) s1) (\<lambda>s2 _.
         kbind (kfor k (\<lambda>i. put_link drv disk (dbindex + of_nat i + 1) (dbindex + of_nat i)) s2) (\<lambda>s3 _.
         put_link drv disk LF_DNULL (dbindex + of_nat k) s3))))"

text \<open>\<open>crun\<close> are the close routines.\<close>

definition lfscreate :: "blkdrv \<Rightarrow> (devfn \<Rightarrow> dentry \<Rightarrow> kst \<Rightarrow> (kst, int) kprog) \<Rightarrow> int \<Rightarrow> u32 \<Rightarrow> u32 \<Rightarrow> kst \<Rightarrow> (kst, int) kprog" where
  "lfscreate drv crun disk lfiblks dsiz s =
     (if isbaddev disk \<or> lf_dskdev (lfs s) \<ge> 0 then Ret s SYSERR
      else let s1 = upd_lfs (\<lambda>f. f\<lparr>lf_dskdev := disk\<rparr>) s;
               sectors = dsiz div 512;
               ibsectors = (lfiblks + (7 - 1)) div 7;
               lfiblks = ibsectors * 7
           in if ibsectors > sectors div 2 then Ret s1 SYSERR
              else let dbindex = ibsectors + 1; dblks = sectors - ibsectors - 1
                   in kbind (bwrite drv disk (dir_bytes (lfs_dir0 dbindex)) LF_AREA_DIR s1) (\<lambda>s2 retval.
                        if retval = SYSERR then Ret s2 SYSERR
                        else kbind (make_free_lists drv disk lfiblks dbindex dblks s2) (\<lambda>s3 _.
                             kbind (close crun disk s3) (\<lambda>s4 _. Ret s4 OK))))"

text \<open>
  \<^verbatim>\<open>lfsckfmt\<close> counts the blocks of the two lists, which it prints; here they are part of the
  result. The fuel is the number of block numbers.
\<close>

primrec count_ib :: "nat \<Rightarrow> blkdrv \<Rightarrow> int \<Rightarrow> u32 \<Rightarrow> int \<Rightarrow> kst \<Rightarrow> (kst, int) kprog" where
  "count_ib 0 drv disk nextib n s = Stop BadDisk s"
| "count_ib (Suc k) drv disk nextib n s =
     (if nextib \<noteq> LF_INULL
      then kbind (lfibget drv disk nextib s) (\<lambda>s1 iblock. count_ib k drv disk (ib_next iblock) (n + 1) s1)
      else Ret s n)"

primrec count_db :: "nat \<Rightarrow> blkdrv \<Rightarrow> int \<Rightarrow> u32 \<Rightarrow> int \<Rightarrow> kst \<Rightarrow> (kst, int) kprog" where
  "count_db 0 drv disk nextdb n s = Stop BadDisk s"
| "count_db (Suc k) drv disk nextdb n s =
     (if nextdb \<noteq> LF_DNULL
      then kbind (bread drv disk nextdb s) (\<lambda>s1 (_, b).
             case b of None \<Rightarrow> Stop Undefined s1 | Some dblock \<Rightarrow> count_db k drv disk (word_at dblock 0) (n + 1) s1)
      else Ret s n)"

definition lfsckfmt :: "blkdrv \<Rightarrow> int \<Rightarrow> kst \<Rightarrow> (kst, int \<times> int \<times> int) kprog" where
  "lfsckfmt drv disk s =
     kbind (bread drv disk LF_AREA_DIR s) (\<lambda>s1 (retval, b).
       if retval = SYSERR then Stop (Panicked ''cannot read directory'') s1
       else case b of None \<Rightarrow> Stop Undefined s1
       | Some bs \<Rightarrow> let D = dir_of bs in
           if lfscheck D = SYSERR then Stop (Panicked ''directory does not contain a Xinu file system'') s1
           else kbind (count_ib (2 ^ 32) drv disk (lfd_ifree D) 0 s1) (\<lambda>s2 lfiblks.
                kbind (count_db (2 ^ 32) drv disk (lfd_dfree D) 0 s2) (\<lambda>s3 dblks. Ret s3 (OK, lfiblks, dblks))))"

section \<open>Opening a file\<close>

text \<open>\<open>None\<close> is a comparison or a copy that leaves the array of the name.\<close>

fun name_eq :: "memory \<Rightarrow> u32 \<Rightarrow> u8 list \<Rightarrow> bool option" where
  "name_eq m nam [] = None"
| "name_eq m nam (c # cs) =
     (if m nam \<noteq> 0 then (if m nam \<noteq> c then Some False else name_eq m (nam + 1) cs) else Some (c = 0))"

fun name_copy :: "memory \<Rightarrow> u32 \<Rightarrow> u8 list \<Rightarrow> u8 list option" where
  "name_copy m from [] = None"
| "name_copy m from (c # cs) =
     (if m from = 0 then Some (0 # cs) else map_option ((#) (m from)) (name_copy m (from + 1) cs))"

text \<open>
  The search for an unused file device, \<open>SYSERR\<close> when there is none or when the file is already
  open; then the search for the file in the directory.
\<close>

primrec lfs_slot :: "int list \<Rightarrow> memory \<Rightarrow> u32 \<Rightarrow> fsys \<Rightarrow> int \<Rightarrow> int option" where
  "lfs_slot [] m name f lfnext = Some lfnext"
| "lfs_slot (i # is) m name f lfnext =
     (if lfstate (lfltab f i) = LF_FREE then lfs_slot is m name f (if lfnext = SYSERR then i else lfnext)
      else case name_eq m name (lfname (lfltab f i)) of None \<Rightarrow> None
           | Some same \<Rightarrow> if same then Some SYSERR else lfs_slot is m name f lfnext)"

primrec lfs_find :: "nat \<Rightarrow> int \<Rightarrow> memory \<Rightarrow> u32 \<Rightarrow> ldentry list \<Rightarrow> int option" where
  "lfs_find 0 i m name es = Some SYSERR"
| "lfs_find (Suc k) i m name es =
     (if i \<ge> LF_NUM_DIR_ENT then None
      else case name_eq m name (ld_name (es ! nat i)) of None \<Rightarrow> None
           | Some same \<Rightarrow> if same then Some i else lfs_find k (i + 1) m name es)"

definition lfs_leave :: "int \<Rightarrow> kst \<Rightarrow> (kst, int) kprog" where
  "lfs_leave r s = kbind (signal (lf_mutex (lfs s)) s) (\<lambda>s1 _. Ret s1 r)"

text \<open>The directory entry of the file, a new one if need be; an error is \<open>SYSERR\<close>.\<close>

definition lfs_entry :: "int \<Rightarrow> u32 \<Rightarrow> kst \<Rightarrow> (kst, int) kprog" where
  "lfs_entry mbits name s =
     (let D = lf_dir (lfs s) in
      case lfs_find (nat (sint (lfd_nfiles D))) 0 (kmem s) name (lfd_files D) of None \<Rightarrow> Stop Undefined s
      | Some i \<Rightarrow>
          if i = SYSERR then
            (if mbits AND LF_MODE_O \<noteq> 0 then Ret s SYSERR
             else if sint (lfd_nfiles D) \<ge> LF_NUM_DIR_ENT then Ret s SYSERR
             else let j = nat (sint (lfd_nfiles D)) in
               case name_copy (kmem s) name (ld_name (lfd_files D ! j)) of None \<Rightarrow> Stop Undefined s
               | Some nm \<Rightarrow> Ret (upd_dir (\<lambda>D. D\<lparr>lfd_nfiles := lfd_nfiles D + 1,
                   lfd_files := (lfd_files D)[j := \<lparr>ld_size = 0, ld_ilist = LF_INULL, ld_name = nm\<rparr>]\<rparr>) s) (int j))
          else if mbits AND LF_MODE_N \<noteq> 0 then Ret s SYSERR
          else Ret s i)"

text \<open>The directory is read and checked when the first file is opened.\<close>

definition lfs_load :: "blkdrv \<Rightarrow> kst \<Rightarrow> (kst, int) kprog" where
  "lfs_load drv s =
     (if lf_dirpresent (lfs s) then Ret s OK
      else kbind (bread drv (lf_dskdev (lfs s)) LF_AREA_DIR s) (\<lambda>s1 (retval, b).
        if retval = SYSERR then Ret s1 SYSERR
        else let s2 = (case b of None \<Rightarrow> s1 | Some bs \<Rightarrow> upd_dir (\<lambda>_. dir_of bs) s1)
             in if lfscheck (lf_dir (lfs s2)) = SYSERR then Ret s2 SYSERR
                else Ret (upd_lfs (\<lambda>f. f\<lparr>lf_dirpresent := True\<rparr>) s2) OK))"

definition lfs_take :: "int \<Rightarrow> int \<Rightarrow> int \<Rightarrow> u32 \<Rightarrow> kst \<Rightarrow> (kst, unit) kprog" where
  "lfs_take d j mbits name s =
     (let s1 = upd_lfl d (\<lambda>t. t\<lparr>lfstate := LF_USED, lfdirptr := j, lfmode := mbits AND LF_MODE_RW, lfpos := 0\<rparr>) s
      in case name_copy (kmem s1) name (lfname (lfl d s1)) of None \<Rightarrow> Stop Undefined s1
         | Some nm \<Rightarrow> Ret (upd_lfl d (\<lambda>t. t\<lparr>lfname := nm, lfinum := LF_INULL, lfdnum := LF_DNULL, lfbyte := 512,
             lfibdirty := False, lfdbdirty := False\<rparr>) s1) ())"

definition lfsopen :: "blkdrv \<Rightarrow> u32 \<Rightarrow> u32 \<Rightarrow> kst \<Rightarrow> (kst, int) kprog" where
  "lfsopen drv name mode s =
     (if lf_dskdev (lfs s) < 0 then Ret s SYSERR
      else if \<not> list_ex (\<lambda>i. kmem s (name + of_nat i) = 0) [0..<LF_NAME_LEN] then Ret s SYSERR
      else case lfgetmode (kmem s) mode of None \<Rightarrow> Stop Undefined s
      | Some mbits \<Rightarrow> if mbits = SYSERR then Ret s SYSERR
        else case lfs_slot [0..int Nlfl - 1] (kmem s) name (lfs s) SYSERR of None \<Rightarrow> Stop Undefined s
        | Some lfnext \<Rightarrow> if lfnext = SYSERR then Ret s SYSERR
          else kbind (wait (lf_mutex (lfs s)) s) (\<lambda>s1 _.
               kbind (lfs_load drv s1) (\<lambda>s2 r.
                 if r = SYSERR then lfs_leave SYSERR s2
                 else kbind (lfs_entry mbits name s2) (\<lambda>s3 j.
                   if j = SYSERR then lfs_leave SYSERR s3
                   else kbind (lfs_take lfnext j mbits name s3) (\<lambda>s4 _.
                        kbind (signal (lf_mutex (lfs s4)) s4) (\<lambda>s5 _. Ret s5 (lfdev (lfl lfnext s5))))))))"

section \<open>Truncating a file\<close>

primrec lftruncate_loop :: "nat \<Rightarrow> blkdrv \<Rightarrow> u8 list \<Rightarrow> u32 \<Rightarrow> u32 \<Rightarrow> kst \<Rightarrow> (kst, unit) kprog" where
  "lftruncate_loop 0 drv junk ifree nextib s = Stop BadDisk s"
| "lftruncate_loop (Suc n) drv junk ifree nextib s =
     (if nextib \<noteq> ifree then
        kbind (lfibget drv (lf_dskdev (lfs s)) nextib s) (\<lambda>s1 iblock.
        kbind (kfor LF_IBLEN (\<lambda>i s. let nextdb = ib_dba iblock ! i in
                 kwhen (nextdb \<noteq> LF_DNULL) (\<lambda>s. kbind (lfdbfree drv junk (lf_dskdev (lfs s)) nextdb s) (\<lambda>s1 _. Ret s1 ())) s) s1) (\<lambda>s2 _.
          let iblock' = iblock\<lparr>ib_dba := replicate LF_IBLEN LF_DNULL, ib_offset := 0,
                ib_next := if ib_next iblock = LF_INULL then ifree else ib_next iblock\<rparr>
          in kbind (lfibput drv (lf_dskdev (lfs s2)) nextib iblock' s2) (\<lambda>s3 _.
               lftruncate_loop n drv junk ifree (ib_next iblock') s3)))
      else Ret s ())"

definition lftruncate :: "blkdrv \<Rightarrow> u8 list \<Rightarrow> int \<Rightarrow> kst \<Rightarrow> (kst, int) kprog" where
  "lftruncate drv junk d s =
     (if ld_size (lde d s) = 0 then Ret s OK
      else kbind (kwhen (lfibdirty (lfl d s) \<or> lfdbdirty (lfl d s)) (\<lambda>s. kbind (lfflush drv d s) (\<lambda>s1 _. Ret s1 ())) s) (\<lambda>s1 _.
        let s2 = upd_lfl d (\<lambda>t. t\<lparr>lfpos := 0, lfinum := LF_INULL, lfdnum := LF_DNULL, lfbyte := 512\<rparr>) s1;
            ifree = lfd_ifree (lf_dir (lfs s2)); firstib = ld_ilist (lde d s2);
            s3 = upd_lde d (\<lambda>e. e\<lparr>ld_ilist := LF_INULL, ld_size := 0\<rparr>) s2;
            s4 = upd_lfs (\<lambda>f. f\<lparr>lf_dirdirty := True\<rparr>) s3
        in kbind (lftruncate_loop 524289 drv junk ifree firstib s4) (\<lambda>s5 _.
             Ret (upd_lfs (\<lambda>f. f\<lparr>lf_dirdirty := True\<rparr>) (upd_dir (\<lambda>D. D\<lparr>lfd_ifree := firstib\<rparr>) s5)) OK)))"

definition lflcontrol :: "blkdrv \<Rightarrow> u8 list \<Rightarrow> dentry \<Rightarrow> int \<Rightarrow> kst \<Rightarrow> (kst, int) kprog" where
  "lflcontrol drv junk devptr func s =
     (let d = dvminor devptr in
      kbind (wait (lfmutex (lfl d s)) s) (\<lambda>s1 _.
        if lfstate (lfl d s1) \<noteq> LF_USED then lf_leave d SYSERR s1
        else if func = LF_CTL_TRUNC then
          kbind (wait (lf_mutex (lfs s1)) s1) (\<lambda>s2 _.
          kbind (lftruncate drv junk d s2) (\<lambda>s3 retval.
          kbind (signal (lf_mutex (lfs s3)) s3) (\<lambda>s4 _. lf_leave d retval s4)))
        else lf_leave d SYSERR s1))"

section \<open>The calls are safe\<close>

lemma lfsinit_mine: "mine F p s \<Longrightarrow> mine F p (fst (lfsinit s))"
  by (simp add: lfsinit_def Let_def split_beta semcreate_mine)

lemma lflinit_mine: "mine F p s \<Longrightarrow> mine F p (fst (lflinit e s))"
  by (simp add: lflinit_def Let_def split_beta semcreate_mine)

lemma lfgetmode_total: "lfgetmode m mode \<noteq> None"
  by (simp add: lfgetmode_def eval_nat_numeral Let_def)

lemma kfor_safe: "mine F p s \<Longrightarrow> (\<And>F s i. mine F p s \<Longrightarrow> ksafe F p (c i s)) \<Longrightarrow> ksafe F p (kfor n c s)"
  by (induction n) (auto intro!: ksafe_bind)

lemma lfs_leave_safe: "mine F p s \<Longrightarrow> ksafe F p (lfs_leave r s)"
  by (auto simp: lfs_leave_def intro!: ksafe_bind signal_safe)

lemma lfs_entry_safe: "mine F p s \<Longrightarrow> ksafe F p (lfs_entry mbits name s)"
  by (auto simp: lfs_entry_def Let_def split: option.splits)

lemma lfs_take_safe: "mine F p s \<Longrightarrow> ksafe F p (lfs_take d j mbits name s)"
  by (auto simp: lfs_take_def Let_def split: option.splits)

context block_driver
begin

lemma put_link_safe: "mine F p s \<Longrightarrow> ksafe F p (put_link drv disk x db s)"
  by (auto simp: put_link_def intro!: ksafe_bind bwrite_safe)

lemma put_free_ib_safe: "mine F p s \<Longrightarrow> ksafe F p (put_free_ib drv disk x ib s)"
  by (auto simp: put_free_ib_def intro!: ksafe_bind lfibput_safe)

lemma lfscreate_safe:
  assumes "\<And>F s e. mine F p s \<Longrightarrow> e \<in> set devtab \<Longrightarrow> ksafe F p (crun (dvclose e) e s)" and m: "mine F p s"
  shows "ksafe F p (lfscreate drv crun disk n dsiz s)"
proof -
  have "ksafe F p (close crun disk s)" if "mine F p s" for F s
    using assms(1) [OF that dentry_of_mem] that by (simp add: close_def Let_def)
  then show ?thesis
    using m by (auto simp: lfscreate_def make_free_lists_def Let_def
        intro!: ksafe_bind bwrite_safe kfor_safe put_link_safe put_free_ib_safe)
qed

lemma count_ib_safe: "mine F p s \<Longrightarrow> ksafe F p (count_ib k drv disk x n s)"
  by (induction k arbitrary: F x n s) (auto intro!: ksafe_bind lfibget_safe)

lemma count_db_safe: "mine F p s \<Longrightarrow> ksafe F p (count_db k drv disk x n s)"
  by (induction k arbitrary: F x n s) (auto split: option.splits intro!: ksafe_bind bread_safe)

lemma lfsckfmt_safe: "mine F p s \<Longrightarrow> ksafe F p (lfsckfmt drv disk s)"
  unfolding lfsckfmt_def
  by (intro ksafe_bind bread_safe)
    (auto simp: Let_def simp del: count_ib.simps count_db.simps split: option.splits intro!: ksafe_bind count_ib_safe count_db_safe)

lemma lfs_load_safe: "mine F p s \<Longrightarrow> ksafe F p (lfs_load drv s)"
  by (auto simp: lfs_load_def Let_def split: option.splits intro!: ksafe_bind bread_safe)

lemma lfsopen_safe: "mine F p s \<Longrightarrow> p \<noteq> NULLPROC \<Longrightarrow> ksafe F p (lfsopen drv name mode s)"
  by (auto simp: lfsopen_def split: option.splits
      intro!: ksafe_bind wait_safe lfs_load_safe lfs_leave_safe lfs_entry_safe lfs_take_safe signal_safe)

lemma lftruncate_loop_safe: "mine F p s \<Longrightarrow> ksafe F p (lftruncate_loop n drv junk ifree ib s)"
  by (induction n arbitrary: F ib s)
    (auto simp: Let_def intro!: ksafe_bind lfibget_safe lfibput_safe kfor_safe kwhen_safe lfdbfree_safe)

lemma lftruncate_safe: "mine F p s \<Longrightarrow> ksafe F p (lftruncate drv junk d s)"
  by (auto simp: lftruncate_def Let_def intro!: ksafe_bind kwhen_safe lfflush_safe lftruncate_loop_safe)

lemma lflcontrol_safe: "mine F p s \<Longrightarrow> p \<noteq> NULLPROC \<Longrightarrow> ksafe F p (lflcontrol drv junk e func s)"
  by (auto simp: lflcontrol_def Let_def intro!: ksafe_bind wait_safe signal_safe lf_leave_safe lftruncate_safe)

end

end
