(* ===== verification/Devclose.thy ===== *)
theory Devclose
  imports Procs Lfsdir
begin

text \<open>
  The close routines the device switch table names: \<^verbatim>\<open>ionull\<close>, \<^verbatim>\<open>ioerr\<close>,
  \<^verbatim>\<open>ramclose\<close>, \<^verbatim>\<open>lflclose\<close> for local files, and \<^verbatim>\<open>rflclose\<close> for
  remote ones, which runs between the \<^verbatim>\<open>wait\<close> and the \<^verbatim>\<open>signal\<close> of a mutual
  exclusion semaphore. The state of remote files is not part of the kernel's: whether the file is
  open and what asking the server does are arguments.
\<close>

section \<open>The routines\<close>

definition ramclose :: "'s \<Rightarrow> ('s, int) kprog" where
  "ramclose s = Ret s OK"

text \<open>
  \<^verbatim>\<open>rflclose\<close>: all remote files share \<open>rf_mutex\<close>; \<open>request e\<close> is the exchange with the
  server, whose failure is reported.
\<close>

definition rflclose :: "int \<Rightarrow> (dentry \<Rightarrow> bool) \<Rightarrow> (dentry \<Rightarrow> kst \<Rightarrow> (kst, bool) kprog) \<Rightarrow>
    dentry \<Rightarrow> kst \<Rightarrow> (kst, int) kprog" where
  "rflclose rf_mutex used request e s =
     kbind (wait rf_mutex s) (\<lambda>s1 _.
       if \<not> used e then kbind (signal rf_mutex s1) (\<lambda>s2 _. Ret s2 SYSERR)
       else kbind (request e s1) (\<lambda>s2 ok. kbind (signal rf_mutex s2) (\<lambda>s3 _. Ret s3 (if ok then OK else SYSERR))))"

text \<open>The routine behind a close entry of the table; the others are no close routines.\<close>

definition run_close :: "(dentry \<Rightarrow> kst \<Rightarrow> (kst, int) kprog) \<Rightarrow> blkdrv \<Rightarrow>
    devfn \<Rightarrow> dentry \<Rightarrow> kst \<Rightarrow> (kst, int) kprog" where
  "run_close rfl drv f e s =
     (case f of Ionull \<Rightarrow> ionull s
      | Ioerr \<Rightarrow> ioerr s
      | Ramclose \<Rightarrow> ramclose s
      | Rflclose \<Rightarrow> rfl e s
      | Lflclose \<Rightarrow> lflclose drv e s
      | _ \<Rightarrow> Stop Undefined s)"

section \<open>Safety\<close>

lemma rflclose_safe:
  assumes req: "\<And>F s. mine F p s \<Longrightarrow> used e \<Longrightarrow> ksafe F p (request e s)"
    and m: "mine F p s" "p \<noteq> NULLPROC"
  shows "ksafe F p (rflclose rf_mutex used request e s)"
proof -
  have sig: "ksafe F p (kbind (signal rf_mutex s) (\<lambda>s1 _. Ret s1 r))" if "mine F p s" for F s and r :: int
    by (rule ksafe_bind [OF signal_safe [OF that]]) simp
  have "ksafe F p (kbind (request e s1) (\<lambda>s2 ok. kbind (signal rf_mutex s2) (\<lambda>s3 _. Ret s3 (if ok then OK else SYSERR))))"
    if "mine F p s1" "used e" for F s1
    by (rule ksafe_bind [OF req [OF that]]) (rule sig)
  then show ?thesis
    unfolding rflclose_def by (intro ksafe_bind [OF wait_safe [OF m]]) (simp add: sig)
qed

text \<open>The contract of the file devices, and what it gives for the whole table.\<close>

locale file_close = block_driver +
  fixes rfl :: "dentry \<Rightarrow> kst \<Rightarrow> (kst, int) kprog"
  assumes rfl_safe: "mine F p s \<Longrightarrow> p \<noteq> NULLPROC \<Longrightarrow> ksafe F p (rfl e s)"
begin

lemma run_close_safe:
  assumes "mine F p s" "p \<noteq> NULLPROC" "e \<in> set devtab"
  shows "ksafe F p (run_close rfl drv (dvclose e) e s)"
  using devtab_close_fns [OF assms(3)] rfl_safe [OF assms(1,2)] lflclose_safe [OF assms(1,2)] assms(1)
  by (auto simp: run_close_def ionull_def ioerr_def ramclose_def)

end

sublocale file_close \<subseteq> table: device_close "run_close rfl drv"
  by unfold_locales (rule run_close_safe)

text \<open>
  The system before a remote file is opened, with any semaphore as their mutex: every entry is
  unused, and closing it takes the error path of the routine.
\<close>

definition unopened_rfl :: "int \<Rightarrow> dentry \<Rightarrow> kst \<Rightarrow> (kst, int) kprog" where
  "unopened_rfl rf_mutex = rflclose rf_mutex (\<lambda>e. False) (\<lambda>e s. Ret s False)"

lemma unopened_rfl_safe: "mine F p s \<Longrightarrow> p \<noteq> NULLPROC \<Longrightarrow> ksafe F p (unopened_rfl rf_mutex e s)"
  by (auto simp: unopened_rfl_def intro: rflclose_safe)

lemma file_close_ram: "block_driver rest \<Longrightarrow> file_close (ram_drv rest) (unopened_rfl rf_mutex)"
  by (auto simp: file_close_def file_close_axioms_def block_driver_ram unopened_rfl_safe)

interpretation boot: file_close "ram_drv no_disk" "unopened_rfl rf_mutex" for rf_mutex
  by (rule file_close_ram) (simp add: block_driver_def no_disk_def)

end
