(* ===== verification/Nodes.thy ===== *)
theory Nodes
  imports Prelude
begin

text \<open>
  Null-terminated lists of nodes in byte memory, as ports and buffer pools keep them. The locale
  \<open>node_store\<close> is what such a list needs of its link field: a link that was set is read back, and
  setting the link of one node leaves those of the others. It is interpreted where the node types
  are modelled.
\<close>

fun chain :: "(u32 \<Rightarrow> u32) \<Rightarrow> u32 \<Rightarrow> u32 list \<Rightarrow> bool" where
  "chain nx a [] \<longleftrightarrow> a = 0"
| "chain nx a (n # ns) \<longleftrightarrow> a = n \<and> n \<noteq> 0 \<and> chain nx (nx n) ns"

lemma chain_cong: "(\<And>n. n \<in> set ns \<Longrightarrow> nx n = nx' n) \<Longrightarrow> chain nx a ns = chain nx' a ns"
  by (induction ns arbitrary: a) auto

lemma chain_nonzero: "chain nx a ns \<Longrightarrow> 0 \<notin> set ns"
  by (induction ns arbitrary: a) auto

lemma chain_head: "chain nx a ns \<Longrightarrow> a = (if ns = [] then 0 else hd ns)"
  by (cases ns) auto

locale node_store =
  fixes nxt :: "memory \<Rightarrow> u32 \<Rightarrow> u32"
    and set_nxt :: "u32 \<Rightarrow> u32 \<Rightarrow> memory \<Rightarrow> memory"
    and node :: "u32 \<Rightarrow> bool"
  assumes nxt_same: "nxt (set_nxt a v m) a = v"
    and nxt_other: "node a \<Longrightarrow> node b \<Longrightarrow> a \<noteq> b \<Longrightarrow> nxt (set_nxt a v m) b = nxt m b"
begin

lemma chain_set_other:
  "list_all node ns \<Longrightarrow> node b \<Longrightarrow> b \<notin> set ns \<Longrightarrow> chain (nxt (set_nxt b v m)) a ns = chain (nxt m) a ns"
  by (rule chain_cong) (metis list_all_iff nxt_other)

lemma chain_push:
  assumes "chain (nxt m) a ns" "list_all node ns" "node n" "n \<noteq> 0" "n \<notin> set ns"
  shows "chain (nxt (set_nxt n a m)) n (n # ns)"
  using assms chain_set_other [of ns n a m a] by (simp add: nxt_same)

lemma chain_splice:
  "chain (nxt m) a ns \<Longrightarrow> ns \<noteq> [] \<Longrightarrow> list_all node ns \<Longrightarrow> distinct ns \<Longrightarrow> chain (nxt m) b ms \<Longrightarrow> list_all node ms \<Longrightarrow>
     set ns \<inter> set ms = {} \<Longrightarrow> chain (nxt (set_nxt (last ns) b m)) a (ns @ ms)"
proof (induction ns arbitrary: a)
  case (Cons k ns)
  show ?case
  proof (cases "ns = []")
    case True
    then show ?thesis using Cons.prems chain_set_other [of ms k b m b] by (auto simp: nxt_same)
  next
    case False
    then have "k \<noteq> last ns" "node (last ns)" using Cons.prems by (auto simp: list_all_iff)
    then show ?thesis using Cons.prems Cons.IH [of "nxt m k"] False by (simp add: nxt_other)
  qed
qed simp

lemma chain_append1:
  "chain (nxt m) a ns \<Longrightarrow> ns \<noteq> [] \<Longrightarrow> list_all node ns \<Longrightarrow> distinct ns \<Longrightarrow> node n \<Longrightarrow> n \<noteq> 0 \<Longrightarrow> n \<notin> set ns \<Longrightarrow>
     nxt m n = 0 \<Longrightarrow> chain (nxt (set_nxt (last ns) n m)) a (ns @ [n])"
  by (rule chain_splice) simp_all

end

end
