(* ===== verification/Ports.thy ===== *)
theory Ports
  imports Nodes Procs
begin

text \<open>
  Ports: \<^verbatim>\<open>ptinit.c\<close>, \<^verbatim>\<open>ptcreate.c\<close>, \<^verbatim>\<open>ptsend.c\<close>, \<^verbatim>\<open>ptrecv.c\<close>,
  \<^verbatim>\<open>ptcount.c\<close>, \<^verbatim>\<open>ptreset.c\<close>, \<^verbatim>\<open>ptdelete.c\<close> and
  \<^verbatim>\<open>ptclear.c\<close>. The message nodes are in the heap's memory, a word for the message and a
  word for the link; all free nodes are linked from \<^verbatim>\<open>ptfree\<close>. The abstraction of a port
  is the list of its messages.
\<close>

section \<open>Nodes and table entries\<close>

definition isbadport :: "int \<Rightarrow> bool" where
  "isbadport portid \<longleftrightarrow> portid < 0 \<or> portid \<ge> NPORTS"

definition pt_msg :: "memory \<Rightarrow> u32 \<Rightarrow> u32" where
  "pt_msg m n = rd32 m n"

definition pt_next :: "memory \<Rightarrow> u32 \<Rightarrow> u32" where
  "pt_next m n = rd32 m (n + 4)"

definition set_pt_msg :: "u32 \<Rightarrow> u32 \<Rightarrow> memory \<Rightarrow> memory" where
  "set_pt_msg n v m = wr32 m n v"

definition set_pt_next :: "u32 \<Rightarrow> u32 \<Rightarrow> memory \<Rightarrow> memory" where
  "set_pt_next n v m = wr32 m (n + 4) v"

definition upd_port :: "int \<Rightarrow> (ptentry \<Rightarrow> ptentry) \<Rightarrow> kst \<Rightarrow> kst" where
  "upd_port i f s = s\<lparr>porttab := (porttab s)(i := f (porttab s i))\<rparr>"

section \<open>The operations\<close>

primrec pt_links :: "nat \<Rightarrow> u32 \<Rightarrow> memory \<Rightarrow> memory \<times> u32" where
  "pt_links 0 cur m = (m, cur)"
| "pt_links (Suc k) cur m = pt_links k (cur + 8) (set_pt_next cur (cur + 8) m)"

definition ptinit :: "int \<Rightarrow> kst \<Rightarrow> (kst, int) kprog" where
  "ptinit maxmsgs s =
     (case getmem (word_of_int maxmsgs * 8) (hp s) of
        None \<Rightarrow> Stop BadHeap s
      | Some (h, p) \<Rightarrow>
          (let s1 = s\<lparr>hp := h, ptfree := p\<rparr> in
           if p = PSYSERR then Stop (Panicked ''ptinit - insufficient memory'') s1
           else let s2 = s1\<lparr>porttab := (\<lambda>i. if 0 \<le> i \<and> i < NPORTS then (porttab s1 i)\<lparr>ptstate := PT_FREE, ptseq := 0\<rparr>
                                       else porttab s1 i), ptnextid := 0\<rparr>;
                    (m, cur) = pt_links (nat (maxmsgs - 1)) p (kmem s2)
                in Ret (set_kmem (set_pt_next cur 0 m) s2) OK))"

primrec pt_find :: "nat \<Rightarrow> kst \<Rightarrow> kst \<times> int" where
  "pt_find 0 s = (s, SYSERR)"
| "pt_find (Suc n) s =
     (let ptnum = ptnextid s; s1 = s\<lparr>ptnextid := (if ptnum + 1 \<ge> NPORTS then 0 else ptnum + 1)\<rparr>
      in if ptstate (porttab s1 ptnum) = PT_FREE then (s1, ptnum) else pt_find n s1)"

definition ptcreate :: "int \<Rightarrow> kst \<Rightarrow> kst \<times> int" where
  "ptcreate count s =
     (if count < 0 then (s, SYSERR)
      else let (s1, ptnum) = pt_find (nat NPORTS) s in
        if ptnum = SYSERR then (s1, SYSERR)
        else let s2 = upd_port ptnum (\<lambda>e. e\<lparr>ptstate := PT_ALLOC\<rparr>) s1;
                 (s3, a) = semcreate count s2;
                 s4 = upd_port ptnum (\<lambda>e. e\<lparr>ptssem := a\<rparr>) s3;
                 (s5, b) = semcreate 0 s4
             in (upd_port ptnum (\<lambda>e. e\<lparr>ptrsem := b, pthead := 0, pttail := 0, ptseq := i32 (ptseq e + 1),
                   ptmaxcnt := count mod 65536\<rparr>) s5, ptnum))"

text \<open>The middle of \<^verbatim>\<open>ptsend\<close>: a node from the free list becomes the port's last.\<close>

definition pt_link :: "int \<Rightarrow> u32 \<Rightarrow> kst \<Rightarrow> kst" where
  "pt_link portid msg s =
     (let msgnode = ptfree s;
          s1 = s\<lparr>ptfree := pt_next (kmem s) msgnode\<rparr>;
          s2 = set_kmem (set_pt_msg msgnode msg (set_pt_next msgnode 0 (kmem s1))) s1;
          tailnode = pttail (porttab s2 portid)
      in if tailnode = 0 then upd_port portid (\<lambda>e. e\<lparr>pthead := msgnode, pttail := msgnode\<rparr>) s2
         else upd_port portid (\<lambda>e. e\<lparr>pttail := msgnode\<rparr>) (set_kmem (set_pt_next tailnode msgnode (kmem s2)) s2))"

definition ptsend :: "int \<Rightarrow> u32 \<Rightarrow> kst \<Rightarrow> (kst, int) kprog" where
  "ptsend portid msg s =
     (if isbadport portid \<or> ptstate (porttab s portid) \<noteq> PT_ALLOC then Ret s SYSERR
      else let seq = ptseq (porttab s portid) in
        kbind (wait (ptssem (porttab s portid)) s) (\<lambda>s1 r.
          if r = SYSERR \<or> ptstate (porttab s1 portid) \<noteq> PT_ALLOC \<or> ptseq (porttab s1 portid) \<noteq> seq then Ret s1 SYSERR
          else if ptfree s1 = 0 then Stop (Panicked ''Port system ran out of message nodes'') s1
          else let s2 = pt_link portid msg s1
               in kbind (signal (ptrsem (porttab s2 portid)) s2) (\<lambda>s3 _. Ret s3 OK)))"

text \<open>The middle of \<^verbatim>\<open>ptrecv\<close>: the port's first node goes back to the free list.\<close>

definition pt_unlink :: "int \<Rightarrow> kst \<Rightarrow> kst \<times> u32" where
  "pt_unlink portid s =
     (let msgnode = pthead (porttab s portid);
          msg = pt_msg (kmem s) msgnode;
          s1 = (if pthead (porttab s portid) = pttail (porttab s portid)
                then upd_port portid (\<lambda>e. e\<lparr>pthead := 0, pttail := 0\<rparr>) s
                else upd_port portid (\<lambda>e. e\<lparr>pthead := pt_next (kmem s) msgnode\<rparr>) s);
          s2 = set_kmem (set_pt_next msgnode (ptfree s1) (kmem s1)) s1
      in (s2\<lparr>ptfree := msgnode\<rparr>, msg))"

definition ptrecv :: "int \<Rightarrow> kst \<Rightarrow> (kst, u32) kprog" where
  "ptrecv portid s =
     (if isbadport portid \<or> ptstate (porttab s portid) \<noteq> PT_ALLOC then Ret s (word_of_int SYSERR)
      else let seq = ptseq (porttab s portid) in
        kbind (wait (ptrsem (porttab s portid)) s) (\<lambda>s1 r.
          if r = SYSERR \<or> ptstate (porttab s1 portid) \<noteq> PT_ALLOC \<or> ptseq (porttab s1 portid) \<noteq> seq
          then Ret s1 (word_of_int SYSERR)
          else let (s2, msg) = pt_unlink portid s1
               in kbind (signal (ptssem (porttab s2 portid)) s2) (\<lambda>s3 _. Ret s3 msg)))"

definition ptcount :: "int \<Rightarrow> kst \<Rightarrow> int" where
  "ptcount portid s =
     (if isbadport portid \<or> ptstate (porttab s portid) \<noteq> PT_ALLOC then SYSERR
      else let count = semcount (ptrsem (porttab s portid)) s in
        if count \<ge> 0 then
          (let sndcnt = semcount (ptssem (porttab s portid)) s in if sndcnt < 0 then i32 (count + i32 (- sndcnt)) else count)
        else count)"

text \<open>
  \<^verbatim>\<open>_ptclear\<close> hands every message of the port to the caller's function, which is any kernel
  program. Memory has room for $2^{29}$ nodes, which bounds the walk.
\<close>

abbreviation (input) NODES :: nat where "NODES \<equiv> 536870912"

primrec pt_walk :: "nat \<Rightarrow> (u32 \<Rightarrow> kst \<Rightarrow> (kst, unit) kprog) \<Rightarrow> u32 \<Rightarrow> kst \<Rightarrow> (kst, unit) kprog" where
  "pt_walk 0 dispose walk s = (if walk = 0 then Ret s () else Stop Looping s)"
| "pt_walk (Suc k) dispose walk s =
     (if walk = 0 then Ret s ()
      else kbind (dispose (pt_msg (kmem s) walk) s) (\<lambda>s1 _. pt_walk k dispose (pt_next (kmem s1) walk) s1))"

definition pt_freeall :: "int \<Rightarrow> kst \<Rightarrow> kst" where
  "pt_freeall portid s =
     (let s1 = set_kmem (set_pt_next (pttail (porttab s portid)) (ptfree s) (kmem s)) s
      in s1\<lparr>ptfree := pthead (porttab s1 portid)\<rparr>)"

definition ptclear :: "int \<Rightarrow> port_state \<Rightarrow> (u32 \<Rightarrow> kst \<Rightarrow> (kst, unit) kprog) \<Rightarrow> kst \<Rightarrow> (kst, unit) kprog" where
  "ptclear portid newstate dispose s =
     (let s1 = upd_port portid (\<lambda>e. e\<lparr>ptstate := PT_LIMBO, ptseq := i32 (ptseq e + 1)\<rparr>) s;
          walk = pthead (porttab s1 portid)
      in kbind (if walk \<noteq> 0 then kbind (pt_walk NODES dispose walk s1) (\<lambda>s2 _. Ret (pt_freeall portid s2) ()) else Ret s1 ())
           (\<lambda>s2 _. kbind
             (if newstate = PT_ALLOC
              then let s3 = upd_port portid (\<lambda>e. e\<lparr>pthead := 0, pttail := 0\<rparr>) s2
                   in kbind (semreset (ptssem (porttab s3 portid)) (ptmaxcnt (porttab s3 portid)) s3)
                        (\<lambda>s4 _. semreset (ptrsem (porttab s4 portid)) 0 s4)
              else kbind (semdelete (ptssem (porttab s2 portid)) s2)
                     (\<lambda>s3 _. semdelete (ptrsem (porttab s3 portid)) s3))
             (\<lambda>s5 _. Ret (upd_port portid (\<lambda>e. e\<lparr>ptstate := newstate\<rparr>) s5) ())))"

definition ptreset :: "int \<Rightarrow> (u32 \<Rightarrow> kst \<Rightarrow> (kst, unit) kprog) \<Rightarrow> kst \<Rightarrow> (kst, int) kprog" where
  "ptreset portid disp s =
     (if isbadport portid \<or> ptstate (porttab s portid) \<noteq> PT_ALLOC then Ret s SYSERR
      else kbind (ptclear portid PT_ALLOC disp s) (\<lambda>s1 _. Ret s1 OK))"

definition ptdelete :: "int \<Rightarrow> (u32 \<Rightarrow> kst \<Rightarrow> (kst, unit) kprog) \<Rightarrow> kst \<Rightarrow> (kst, int) kprog" where
  "ptdelete portid disp s =
     (if isbadport portid \<or> ptstate (porttab s portid) \<noteq> PT_ALLOC then Ret s SYSERR
      else kbind (ptclear portid PT_FREE disp s) (\<lambda>s1 _. Ret (s1\<lparr>ptnextid := portid\<rparr>) OK))"

section \<open>The lists\<close>

lemma pt_node_other:
  assumes "al8 a" "al8 b"
  shows "a \<noteq> b \<Longrightarrow> pt_next (set_pt_next a v m) b = pt_next m b"
    "pt_next (set_pt_msg a v m) b = pt_next m b"
    "pt_msg (set_pt_next a v m) b = pt_msg m b"
    "a \<noteq> b \<Longrightarrow> pt_msg (set_pt_msg a v m) b = pt_msg m b"
  using assms al8_al4 [of a] al8_al4 [of b] al8_al4_4 [of a] al8_al4_4 [of b] al8_neq4 [of a b] al8_neq4 [of b a]
  by (simp_all add: pt_next_def pt_msg_def set_pt_next_def set_pt_msg_def)

lemma pt_node_same: "pt_next (set_pt_next a v m) a = v" "pt_msg (set_pt_msg a v m) a = v"
  by (simp_all add: pt_next_def pt_msg_def set_pt_next_def set_pt_msg_def)

interpretation ptl: node_store pt_next set_pt_next al8
  by unfold_locales (simp_all add: pt_node_same pt_node_other)

lemma port_simps [simp]:
  "kmem (set_kmem m s) = m" "porttab (set_kmem m s) = porttab s" "ptfree (set_kmem m s) = ptfree s"
  "kmem (upd_port i f s) = kmem s" "porttab (upd_port i f s) = (porttab s)(i := f (porttab s i))"
  "ptfree (upd_port i f s) = ptfree s" "kmem (s\<lparr>ptfree := n\<rparr>) = kmem s" "semtab (set_kmem m s) = semtab s"
  "semtab (upd_port i f s) = semtab s"
  by (simp_all add: kmem_def set_kmem_def upd_port_def)

text \<open>\<open>port_lists s ff q\<close>: the free nodes are \<open>ff\<close> and those of port \<open>i\<close> are \<open>q i\<close>.\<close>

definition port_lists :: "kst \<Rightarrow> u32 list \<Rightarrow> (int \<Rightarrow> u32 list) \<Rightarrow> bool" where
  "port_lists s ff q \<longleftrightarrow>
     chain (pt_next (kmem s)) (ptfree s) ff \<and> list_all al8 ff \<and> distinct ff
   \<and> (\<forall>i. list_all al8 (q i) \<and> distinct (q i) \<and> set ff \<inter> set (q i) = {})
   \<and> (\<forall>i j. i \<noteq> j \<longrightarrow> set (q i) \<inter> set (q j) = {})
   \<and> (\<forall>i. if ptstate (porttab s i) = PT_ALLOC \<and> \<not> isbadport i
          then chain (pt_next (kmem s)) (pthead (porttab s i)) (q i)
            \<and> pttail (porttab s i) = (if q i = [] then 0 else last (q i))
          else q i = [])"

definition port_msgs :: "kst \<Rightarrow> u32 list \<Rightarrow> u32 list" where
  "port_msgs s ns = map (pt_msg (kmem s)) ns"

lemma port_listsD:
  assumes "port_lists s ff q"
  shows "chain (pt_next (kmem s)) (ptfree s) ff" "list_all al8 ff" "distinct ff" "list_all al8 (q i)" "distinct (q i)"
    "set ff \<inter> set (q i) = {}" "i \<noteq> j \<Longrightarrow> set (q i) \<inter> set (q j) = {}"
    "ptstate (porttab s i) = PT_ALLOC \<Longrightarrow> \<not> isbadport i \<Longrightarrow> chain (pt_next (kmem s)) (pthead (porttab s i)) (q i)"
    "ptstate (porttab s i) = PT_ALLOC \<Longrightarrow> \<not> isbadport i \<Longrightarrow> pttail (porttab s i) = (if q i = [] then 0 else last (q i))"
    "\<not> (ptstate (porttab s i) = PT_ALLOC \<and> \<not> isbadport i) \<Longrightarrow> q i = []"
  using assms unfolding port_lists_def by (metis, metis, metis, metis, metis, metis, metis, metis, metis, metis)

lemma chain_frame:
  "chain (pt_next m) a ns \<Longrightarrow> (\<And>k. k \<in> set ns \<Longrightarrow> pt_next m' k = pt_next m k) \<Longrightarrow> chain (pt_next m') a ns"
  using chain_cong [of ns "pt_next m'" "pt_next m"] by blast

text \<open>\<open>pt_link\<close> appends the message to the port and leaves the other ports.\<close>

lemma pt_link_lists:
  assumes l: "port_lists s (n # ff) q" and i: "ptstate (porttab s i) = PT_ALLOC" "\<not> isbadport i"
  shows "port_lists (pt_link i msg s) ff (q(i := q i @ [n]))"
    "port_msgs (pt_link i msg s) (q i @ [n]) = port_msgs s (q i) @ [msg]"
    "j \<noteq> i \<Longrightarrow> port_msgs (pt_link i msg s) (q j) = port_msgs s (q j)"
proof -
  note D = port_listsD [OF l]
  have n: "ptfree s = n" "n \<noteq> 0" "al8 n" "chain (pt_next (kmem s)) (pt_next (kmem s) n) ff" "n \<notin> set ff" "n \<notin> set (q k)" for k
    using D(1,2,3) D(6) [of k] by simp_all
  have al: "b \<in> set (q k) \<Longrightarrow> al8 b" "b \<in> set ff \<Longrightarrow> al8 b" for b k
    using D(4) [of k] D(2) by (auto simp: list_all_iff)
  define m2 where "m2 = set_pt_msg n msg (set_pt_next n 0 (kmem s))"
  define m3 where "m3 = (if q i = [] then m2 else set_pt_next (last (q i)) n m2)"
  have tl: "pttail (porttab s i) = (if q i = [] then 0 else last (q i))" by (rule D(9) [OF i])
  have nz: "q i \<noteq> [] \<Longrightarrow> last (q i) \<noteq> 0" using chain_nonzero [OF D(8) [OF i]] by (metis last_in_set)
  have la: "q i \<noteq> [] \<Longrightarrow> al8 (last (q i))" using al(1) [of "last (q i)" i] by simp
  have m2n: "pt_next m2 b = (if b = n then 0 else pt_next (kmem s) b)" "pt_msg m2 b = (if b = n then msg else pt_msg (kmem s) b)"
    if "al8 b" for b
    using that n(3) by (simp_all add: m2_def pt_node_same pt_node_other)
  have m3n: "pt_next m3 b = (if q i \<noteq> [] \<and> b = last (q i) then n else pt_next m2 b)" "pt_msg m3 b = pt_msg m2 b" if "al8 b" for b
    using that la by (auto simp: m3_def pt_node_same pt_node_other)
  have e: "kmem (pt_link i msg s) = m3" "ptfree (pt_link i msg s) = pt_next (kmem s) n"
    "porttab (pt_link i msg s) = (porttab s)(i := (porttab s i)\<lparr>pthead := (if q i = [] then n else pthead (porttab s i)), pttail := n\<rparr>)"
    using tl nz n(1) by (auto simp: pt_link_def Let_def m3_def m2_def)
  have free: "chain (pt_next m3) (pt_next (kmem s) n) ff"
    by (rule chain_frame [OF n(4)]) (use D(6) [of i] n(5) al la in \<open>auto simp: m3n m2n\<close>)
  have other: "chain (pt_next m3) a (q k)" if "chain (pt_next (kmem s)) a (q k)" "k \<noteq> i" for a k
    by (rule chain_frame [OF that(1)]) (use n(6) [of k] D(7) [OF that(2)] al la in \<open>auto simp: m3n m2n\<close>)
  have mine: "chain (pt_next m3) (if q i = [] then n else pthead (porttab s i)) (q i @ [n])"
  proof (cases "q i = []")
    case True
    then show ?thesis using n(2,3) by (simp add: m3n m2n)
  next
    case False
    have "chain (pt_next m2) (pthead (porttab s i)) (q i)"
      by (rule chain_frame [OF D(8) [OF i]]) (use n(6) [of i] al in \<open>auto simp: m2n\<close>)
    then have "chain (pt_next (set_pt_next (last (q i)) n m2)) (pthead (porttab s i)) (q i @ [n])"
      by (rule ptl.chain_append1) (use False D(4,5) n m2n(1) [OF n(3)] in simp_all)
    then show ?thesis using False by (simp add: m3_def)
  qed
  show "port_lists (pt_link i msg s) ff (q(i := q i @ [n]))"
    unfolding port_lists_def e
  proof (intro conjI allI)
    fix k j
    show "list_all al8 ((q(i := q i @ [n])) k)" using D(4) n(3) by simp
    show "distinct ((q(i := q i @ [n])) k)" using D(5) n(6) by simp
    show "set ff \<inter> set ((q(i := q i @ [n])) k) = {}" using D(6) [of k] n(5) by auto
    show "k \<noteq> j \<longrightarrow> set ((q(i := q i @ [n])) k) \<inter> set ((q(i := q i @ [n])) j) = {}"
      using D(7) [of k j] n(6) by auto
    show "if ptstate (((porttab s)(i := (porttab s i)\<lparr>pthead := (if q i = [] then n else pthead (porttab s i)), pttail := n\<rparr>)) k) = PT_ALLOC \<and> \<not> isbadport k
      then chain (pt_next m3) (pthead (((porttab s)(i := (porttab s i)\<lparr>pthead := (if q i = [] then n else pthead (porttab s i)), pttail := n\<rparr>)) k)) ((q(i := q i @ [n])) k)
        \<and> pttail (((porttab s)(i := (porttab s i)\<lparr>pthead := (if q i = [] then n else pthead (porttab s i)), pttail := n\<rparr>)) k)
          = (if (q(i := q i @ [n])) k = [] then 0 else last ((q(i := q i @ [n])) k))
      else (q(i := q i @ [n])) k = []"
      using mine other D(8,9,10) [of k] i by (cases "k = i") auto
  qed (use free D(2,3) in simp_all)
  show "port_msgs (pt_link i msg s) (q i @ [n]) = port_msgs s (q i) @ [msg]"
    using n(3) n(6) [of i] al(1) [of _ i] by (auto simp: port_msgs_def e m3n m2n)
  show "j \<noteq> i \<Longrightarrow> port_msgs (pt_link i msg s) (q j) = port_msgs s (q j)"
    using n(6) [of j] al(1) [of _ j] by (auto simp: port_msgs_def e m3n m2n)
qed

text \<open>\<open>pt_unlink\<close> takes the first message and returns the node.\<close>

lemma pt_unlink_lists:
  assumes l: "port_lists s ff q" and i: "ptstate (porttab s i) = PT_ALLOC" "\<not> isbadport i" and q: "q i = n # ns"
  shows "port_lists (fst (pt_unlink i s)) (n # ff) (q(i := ns))" "snd (pt_unlink i s) = pt_msg (kmem s) n"
    "port_msgs (fst (pt_unlink i s)) ns = port_msgs s ns"
    "j \<noteq> i \<Longrightarrow> port_msgs (fst (pt_unlink i s)) (q j) = port_msgs s (q j)"
proof -
  note D = port_listsD [OF l]
  have n: "pthead (porttab s i) = n" "n \<noteq> 0" "al8 n" "chain (pt_next (kmem s)) (pt_next (kmem s) n) ns" "n \<notin> set ff" "n \<notin> set ns"
    "k \<noteq> i \<Longrightarrow> n \<notin> set (q k)" for k
    using D(8) [OF i] D(4,5) [of i] D(6) [of i] D(7) [of i k] q by auto
  have al: "b \<in> set (q k) \<Longrightarrow> al8 b" "b \<in> set ff \<Longrightarrow> al8 b" "b \<in> set ns \<Longrightarrow> al8 b" for b k
    using D(4) [of k] D(4) [of i] D(2) q by (auto simp: list_all_iff)
  define m1 where "m1 = set_pt_next n (ptfree s) (kmem s)"
  have m1n: "pt_next m1 b = (if b = n then ptfree s else pt_next (kmem s) b)" "pt_msg m1 b = pt_msg (kmem s) b" if "al8 b" for b
    using that n(3) by (simp_all add: m1_def pt_node_same pt_node_other)
  have tl: "pttail (porttab s i) = last (n # ns)" using D(9) [OF i] q by simp
  then have one: "pthead (porttab s i) = pttail (porttab s i) \<longleftrightarrow> ns = []"
    using n(1,6) by (cases ns) (auto split: if_splits)
  have nx: "ns \<noteq> [] \<Longrightarrow> pt_next (kmem s) n = hd ns" using chain_head [OF n(4)] by simp
  have e: "kmem (fst (pt_unlink i s)) = m1" "ptfree (fst (pt_unlink i s)) = n"
    "porttab (fst (pt_unlink i s)) = (porttab s)(i := (porttab s i)\<lparr>pthead := (if ns = [] then 0 else hd ns),
       pttail := (if ns = [] then 0 else last ns)\<rparr>)"
    using n(1) one tl nx by (auto simp: pt_unlink_def Let_def m1_def)
  show "snd (pt_unlink i s) = pt_msg (kmem s) n" using n(1) by (simp add: pt_unlink_def Let_def)
  have free: "chain (pt_next m1) n (n # ff)"
    unfolding m1_def by (rule ptl.chain_push [OF D(1,2)]) (use n in simp_all)
  have mine: "chain (pt_next m1) (if ns = [] then 0 else hd ns) ns"
  proof -
    have "chain (pt_next m1) (pt_next (kmem s) n) ns" by (rule chain_frame [OF n(4)]) (use n(6) al in \<open>auto simp: m1n\<close>)
    then show ?thesis using chain_head [OF n(4)] by (simp split: if_splits)
  qed
  have other: "chain (pt_next m1) a (q k)" if "chain (pt_next (kmem s)) a (q k)" "k \<noteq> i" for a k
    by (rule chain_frame [OF that(1)]) (use n(7) [OF that(2)] al in \<open>auto simp: m1n\<close>)
  have di: "list_all al8 ns" "distinct ns" "set ff \<inter> set ns = {}" "k \<noteq> i \<Longrightarrow> set (q k) \<inter> set ns = {}" for k
    using D(4,5,6) [of i] D(7) [of k i] q by auto
  show "port_lists (fst (pt_unlink i s)) (n # ff) (q(i := ns))"
    unfolding port_lists_def e
  proof (intro conjI allI)
    fix k j
    show "list_all al8 ((q(i := ns)) k)" using D(4) di(1) by simp
    show "distinct ((q(i := ns)) k)" using D(5) di(2) by simp
    show "set (n # ff) \<inter> set ((q(i := ns)) k) = {}" using D(6) [of k] di(3) n(6,7) by auto
    show "k \<noteq> j \<longrightarrow> set ((q(i := ns)) k) \<inter> set ((q(i := ns)) j) = {}" using D(7) [of k j] di(4) by auto
    show "if ptstate (((porttab s)(i := (porttab s i)\<lparr>pthead := (if ns = [] then 0 else hd ns), pttail := (if ns = [] then 0 else last ns)\<rparr>)) k) = PT_ALLOC \<and> \<not> isbadport k
      then chain (pt_next m1) (pthead (((porttab s)(i := (porttab s i)\<lparr>pthead := (if ns = [] then 0 else hd ns), pttail := (if ns = [] then 0 else last ns)\<rparr>)) k)) ((q(i := ns)) k)
        \<and> pttail (((porttab s)(i := (porttab s i)\<lparr>pthead := (if ns = [] then 0 else hd ns), pttail := (if ns = [] then 0 else last ns)\<rparr>)) k)
          = (if (q(i := ns)) k = [] then 0 else last ((q(i := ns)) k))
      else (q(i := ns)) k = []"
      using mine other D(8,9,10) [of k] i by (cases "k = i") auto
  qed (use free D(2,3) n in simp_all)
  show "port_msgs (fst (pt_unlink i s)) ns = port_msgs s ns"
    using al(3) by (auto simp: port_msgs_def e m1n)
  show "j \<noteq> i \<Longrightarrow> port_msgs (fst (pt_unlink i s)) (q j) = port_msgs s (q j)"
    using al(1) by (auto simp: port_msgs_def e m1n)
qed

section \<open>Invariance\<close>

lemma port_frame:
  assumes "mine F p s"
  shows "mine F p (upd_port i f s)" "mine F p (set_kmem m s)" "mine F p (s\<lparr>ptfree := n\<rparr>)" "mine F p (s\<lparr>ptnextid := j\<rparr>)"
    "mine F p (s\<lparr>hp := h\<rparr>)"
  by (rule kgood_cur_frame [OF assms]; simp add: upd_port_def set_kmem_def)+

lemma pt_link_mine: "mine F p s \<Longrightarrow> mine F p (pt_link i msg s)"
  by (simp add: pt_link_def Let_def port_frame)

lemma pt_unlink_mine: "mine F p s \<Longrightarrow> mine F p (fst (pt_unlink i s))"
  by (simp add: pt_unlink_def Let_def port_frame)

lemma ptsend_safe:
  assumes m: "mine F p s" and p: "p \<noteq> NULLPROC"
  shows "ksafe F p (ptsend i msg s)"
proof -
  have 1: "ksafe F p (kbind (signal k s2) (\<lambda>s3 _. Ret s3 OK))" if "mine F p s2" for F s2 k
    by (rule ksafe_bind [OF signal_safe [OF that]]) simp
  then show ?thesis unfolding ptsend_def Let_def
    using m by (auto intro!: ksafe_bind [OF wait_safe [OF m p]] 1 pt_link_mine)
qed

lemma ptrecv_safe:
  assumes m: "mine F p s" and p: "p \<noteq> NULLPROC"
  shows "ksafe F p (ptrecv i s)"
proof -
  have 1: "ksafe F p (kbind (signal k s2) (\<lambda>s3 _. Ret s3 v))" if "mine F p s2" for F s2 k and v :: u32
    by (rule ksafe_bind [OF signal_safe [OF that]]) simp
  have "ksafe F p (case pt_unlink i s1 of (s2, msg) \<Rightarrow> kbind (signal (ptssem (porttab s2 i)) s2) (\<lambda>s3 _. Ret s3 msg))"
    if "mine F p s1" for F s1
    using pt_unlink_mine [OF that, of i] by (auto simp: split_beta intro!: 1)
  then show ?thesis unfolding ptrecv_def Let_def
    using m by (auto intro!: ksafe_bind [OF wait_safe [OF m p]])
qed

lemma pt_find_mine: "mine F p s \<Longrightarrow> mine F p (fst (pt_find n s))"
  by (induction n arbitrary: s) (simp_all add: Let_def port_frame)

lemma ptcreate_mine:
  assumes "mine F p s" "count \<le> INT32_MAX"
  shows "mine F p (fst (ptcreate count s))"
proof -
  have "mine F p (fst (semcreate count (upd_port i f s1)))" "mine F p (fst (semcreate 0 (upd_port i f s1)))"
    if "mine F p s1" for s1 i f
    using semcreate_mine [OF port_frame(1) [OF that]] assms(2) by simp_all
  then show ?thesis
    using pt_find_mine [OF assms(1), of "nat NPORTS"] assms(1)
    by (simp add: ptcreate_def Let_def split_beta port_frame)
qed

end
