(* ===== verification/Bufpool.thy ===== *)
theory Bufpool
  imports Ports
begin

text \<open>
  Buffer pools: \<^verbatim>\<open>mkbufpool.c\<close>, \<^verbatim>\<open>getbuf.c\<close> and \<^verbatim>\<open>freebuf.c\<close>. The free
  buffers of a pool are linked through their first word; while a buffer is allocated that word holds
  the number of its pool and the caller has the address after it. A semaphore counts the buffers.
\<close>

section \<open>The operations\<close>

abbreviation (input) BP_MINB :: int where "BP_MINB \<equiv> 8"
abbreviation (input) BP_MAXB :: int where "BP_MAXB \<equiv> 8192"
abbreviation (input) BP_MAXN :: int where "BP_MAXN \<equiv> 2048"

definition bp_next :: "memory \<Rightarrow> u32 \<Rightarrow> u32" where
  "bp_next m a = rd32 m a"

definition set_bp_next :: "u32 \<Rightarrow> u32 \<Rightarrow> memory \<Rightarrow> memory" where
  "set_bp_next a v m = wr32 m a v"

definition upd_pool :: "int \<Rightarrow> (bpentry \<Rightarrow> bpentry) \<Rightarrow> kst \<Rightarrow> kst" where
  "upd_pool i f s = s\<lparr>buftab := (buftab s)(i := f (buftab s i))\<rparr>"

text \<open>The loop of \<^verbatim>\<open>mkbufpool\<close>: the memory and the last buffer.\<close>

primrec bp_links :: "nat \<Rightarrow> u32 \<Rightarrow> u32 \<Rightarrow> memory \<Rightarrow> memory \<times> u32" where
  "bp_links 0 bsz buf m = (m, buf)"
| "bp_links (Suc k) bsz buf m = bp_links k bsz (buf + bsz) (set_bp_next buf (buf + bsz) m)"

definition round4 :: "int \<Rightarrow> int" where
  "round4 bufsiz = (bufsiz + 3) AND NOT 3"

definition mkbufpool :: "int \<Rightarrow> int \<Rightarrow> kst \<Rightarrow> (kst, int) kprog" where
  "mkbufpool bufsiz0 numbufs s =
     (if bufsiz0 < BP_MINB \<or> bufsiz0 > BP_MAXB \<or> numbufs < 1 \<or> numbufs > BP_MAXN \<or> nbpools s \<ge> NBPOOLS
      then Ret s SYSERR
      else let bufsiz = round4 bufsiz0; total = word_of_int (numbufs * (bufsiz + 4)) in
        case getmem total (hp s) of
          None \<Rightarrow> Stop BadHeap s
        | Some (h, buf) \<Rightarrow>
            (let s1 = s\<lparr>hp := h\<rparr> in
             if buf = PSYSERR then Ret s1 SYSERR
             else let poolid = nbpools s1;
                      s2 = upd_pool poolid (\<lambda>e. e\<lparr>bpnext := buf, bpsize := bufsiz\<rparr>) (s1\<lparr>nbpools := poolid + 1\<rparr>);
                      (s3, sem) = semcreate numbufs s2;
                      s4 = upd_pool poolid (\<lambda>e. e\<lparr>bpsem := sem\<rparr>) s3
                  in if sem = SYSERR then
                       (case freemem buf total (hp s4) of
                          None \<Rightarrow> Stop BadHeap s4
                        | Some (h', _) \<Rightarrow> Ret (s4\<lparr>hp := h', nbpools := nbpools s4 - 1\<rparr>) SYSERR)
                     else let (m, last) = bp_links (nat (numbufs - 1)) (word_of_int (bufsiz + 4)) buf (kmem s4)
                          in Ret (set_kmem (set_bp_next last 0 m) s4) poolid))"

definition getbuf_take :: "int \<Rightarrow> kst \<Rightarrow> kst \<times> u32" where
  "getbuf_take poolid s =
     (let bufptr = bpnext (buftab s poolid);
          s1 = upd_pool poolid (\<lambda>e. e\<lparr>bpnext := bp_next (kmem s) bufptr\<rparr>) s;
          s2 = set_kmem (wr32 (kmem s1) bufptr (word_of_int poolid)) s1
      in (s2, bufptr + 4))"

definition getbuf :: "int \<Rightarrow> kst \<Rightarrow> (kst, u32) kprog" where
  "getbuf poolid s =
     (if poolid < 0 \<or> poolid \<ge> nbpools s then Ret s PSYSERR
      else kbind (wait (bpsem (buftab s poolid)) s) (\<lambda>s1 _.
        let (s2, buf) = getbuf_take poolid s1 in Ret s2 buf))"

definition freebuf_put :: "int \<Rightarrow> u32 \<Rightarrow> kst \<Rightarrow> kst" where
  "freebuf_put poolid bufaddr s =
     (let s1 = set_kmem (set_bp_next bufaddr (bpnext (buftab s poolid)) (kmem s)) s
      in upd_pool poolid (\<lambda>e. e\<lparr>bpnext := bufaddr\<rparr>) s1)"

definition freebuf :: "u32 \<Rightarrow> kst \<Rightarrow> (kst, int) kprog" where
  "freebuf bufaddr0 s =
     (let bufaddr = bufaddr0 - 4; poolid = sint (rd32 (kmem s) bufaddr) in
      if poolid < 0 \<or> poolid \<ge> nbpools s then Ret s SYSERR
      else let s1 = freebuf_put poolid bufaddr s
           in kbind (signal (bpsem (buftab s1 poolid)) s1) (\<lambda>s2 _. Ret s2 OK))"

section \<open>The list of free buffers\<close>

interpretation bpl: node_store bp_next set_bp_next al4
  by unfold_locales (simp_all add: bp_next_def set_bp_next_def)

lemma pool_simps [simp]:
  "kmem (upd_pool i f s) = kmem s" "buftab (upd_pool i f s) = (buftab s)(i := f (buftab s i))"
  "buftab (set_kmem m s) = buftab s" "nbpools (upd_pool i f s) = nbpools s" "nbpools (set_kmem m s) = nbpools s"
  "semtab (upd_pool i f s) = semtab s"
  by (simp_all add: kmem_def upd_pool_def set_kmem_def)

text \<open>\<open>pool_list s i bs\<close>: the free buffers of pool \<open>i\<close> are \<open>bs\<close>.\<close>

definition pool_list :: "kst \<Rightarrow> int \<Rightarrow> u32 list \<Rightarrow> bool" where
  "pool_list s i bs \<longleftrightarrow> chain (bp_next (kmem s)) (bpnext (buftab s i)) bs \<and> list_all al4 bs \<and> distinct bs"

lemma getbuf_take_list:
  assumes "pool_list s i (b # bs)"
  shows "pool_list (fst (getbuf_take i s)) i bs" "snd (getbuf_take i s) = b + 4"
    "rd32 (kmem (fst (getbuf_take i s))) b = word_of_int i"
    "j \<noteq> i \<Longrightarrow> pool_list s j cs \<Longrightarrow> b \<notin> set cs \<Longrightarrow> pool_list (fst (getbuf_take i s)) j cs"
proof -
  have b: "bpnext (buftab s i) = b" "al4 b" "b \<notin> set bs" "list_all al4 bs" "distinct bs"
    "chain (bp_next (kmem s)) (bp_next (kmem s) b) bs"
    using assms by (simp_all add: pool_list_def)
  have e: "kmem (fst (getbuf_take i s)) = set_bp_next b (word_of_int i) (kmem s)"
    "buftab (fst (getbuf_take i s)) = (buftab s)(i := (buftab s i)\<lparr>bpnext := bp_next (kmem s) b\<rparr>)"
    using b(1) by (simp_all add: getbuf_take_def Let_def set_bp_next_def)
  show "pool_list (fst (getbuf_take i s)) i bs"
    using bpl.chain_set_other [OF b(4,2,3)] b(4-6) by (simp add: pool_list_def e)
  show "snd (getbuf_take i s) = b + 4" using b(1) by (simp add: getbuf_take_def Let_def)
  show "rd32 (kmem (fst (getbuf_take i s))) b = word_of_int i" by (simp add: e set_bp_next_def)
  show "pool_list (fst (getbuf_take i s)) j cs" if "j \<noteq> i" "pool_list s j cs" "b \<notin> set cs"
    using bpl.chain_set_other [of cs b, OF _ b(2) that(3)] that(1,2) by (simp add: pool_list_def e)
qed

lemma freebuf_put_list:
  assumes "pool_list s i bs" "al4 b" "b \<noteq> 0" "b \<notin> set bs"
  shows "pool_list (freebuf_put i b s) i (b # bs)"
    "j \<noteq> i \<Longrightarrow> pool_list s j cs \<Longrightarrow> b \<notin> set cs \<Longrightarrow> pool_list (freebuf_put i b s) j cs"
proof -
  have e: "kmem (freebuf_put i b s) = set_bp_next b (bpnext (buftab s i)) (kmem s)"
    "buftab (freebuf_put i b s) = (buftab s)(i := (buftab s i)\<lparr>bpnext := b\<rparr>)"
    by (simp_all add: freebuf_put_def Let_def)
  show "pool_list (freebuf_put i b s) i (b # bs)"
    using bpl.chain_push [of "kmem s" "bpnext (buftab s i)" bs b] assms by (simp add: pool_list_def e)
  show "pool_list (freebuf_put i b s) j cs" if "j \<noteq> i" "pool_list s j cs" "b \<notin> set cs"
    using bpl.chain_set_other [of cs b, OF _ assms(2) that(3)] that(1,2) by (simp add: pool_list_def e)
qed

text \<open>\<open>mkbufpool\<close> strings the buffers together in the order of their addresses.\<close>

definition buffers :: "nat \<Rightarrow> u32 \<Rightarrow> u32 \<Rightarrow> u32 list" where
  "buffers k bsz buf = map (\<lambda>i. buf + of_nat i * bsz) [0..<k]"

lemma buffers_Suc: "buffers (Suc k) bsz buf = buf # buffers k bsz (buf + bsz)"
  by (rule nth_equalityI) (auto simp: buffers_def nth_append nth_Cons' of_nat_diff algebra_simps simp del: upt_Suc split: if_splits)

lemma bp_links_chain:
  "distinct (buffers (Suc k) bsz buf) \<Longrightarrow> list_all al4 (buffers (Suc k) bsz buf) \<Longrightarrow> 0 \<notin> set (buffers (Suc k) bsz buf) \<Longrightarrow>
     bp_links k bsz buf m = (m', lst) \<Longrightarrow>
     chain (bp_next (set_bp_next lst 0 m')) buf (buffers (Suc k) bsz buf)
     \<and> (\<forall>a. al4 a \<and> a \<notin> set (buffers (Suc k) bsz buf) \<longrightarrow> bp_next (set_bp_next lst 0 m') a = bp_next m a)
     \<and> lst \<in> set (buffers (Suc k) bsz buf)"
proof (induction k arbitrary: buf m)
  case 0
  then show ?case using bpl.nxt_same bpl.nxt_other by (auto simp: buffers_def)
next
  case (Suc k)
  let ?m = "set_bp_next buf (buf + bsz) m" and ?bs = "buffers (Suc k) bsz (buf + bsz)"
  have bs: "buffers (Suc (Suc k)) bsz buf = buf # ?bs" by (rule buffers_Suc)
  have IH: "chain (bp_next (set_bp_next lst 0 m')) (buf + bsz) ?bs"
    "\<forall>a. al4 a \<and> a \<notin> set ?bs \<longrightarrow> bp_next (set_bp_next lst 0 m') a = bp_next ?m a" "lst \<in> set ?bs"
    using Suc.IH [of "buf + bsz" ?m] Suc.prems unfolding bs by simp_all
  have b: "al4 buf" "buf \<notin> set ?bs" "buf \<noteq> 0" using Suc.prems(1-3) unfolding bs by simp_all
  then have "bp_next (set_bp_next lst 0 m') buf = buf + bsz" using IH(2) bpl.nxt_same by simp
  moreover have "bp_next (set_bp_next lst 0 m') a = bp_next m a" if "al4 a" "a \<notin> set ?bs" "a \<noteq> buf" for a
    using IH(2) that bpl.nxt_other [OF b(1) that(1)] by simp
  ultimately show ?case unfolding bs using IH b(3) by auto
qed

lemma and_not_mask2: "x AND NOT (3 :: int) = x div 4 * 4"
proof -
  have "x AND NOT (mask 2) = push_bit 2 (drop_bit 2 x)"
  proof (rule bit_eqI)
    fix n
    show "bit (x AND NOT (mask 2)) n \<longleftrightarrow> bit (push_bit 2 (drop_bit 2 x)) n"
    proof (cases "2 \<le> n")
      case True
      then obtain k where "n = 2 + k" by (auto simp: le_iff_add)
      then show ?thesis by (simp add: bit_simps)
    qed (simp add: bit_simps)
  qed
  moreover have "mask 2 = (3 :: int)" by (simp add: mask_eq_exp_minus_1)
  ultimately have "x AND NOT 3 = push_bit 2 (drop_bit 2 x)" by (simp only:)
  then show ?thesis by (simp add: push_bit_eq_mult drop_bit_eq_div)
qed

lemma round4_bounds: "8 \<le> x \<Longrightarrow> x \<le> 8192 \<Longrightarrow> x \<le> round4 x \<and> round4 x < x + 4 \<and> round4 x mod 4 = 0 \<and> round4 x \<le> 8192"
  unfolding round4_def and_not_mask2 by presburger

section \<open>Invariance\<close>

lemma pool_frame: "mine F p s \<Longrightarrow> mine F p (upd_pool i f s)" "mine F p s \<Longrightarrow> mine F p (s\<lparr>nbpools := n\<rparr>)"
  by (rule kgood_cur_frame; simp add: upd_pool_def)+

lemma getbuf_safe:
  assumes m: "mine F p s" and p: "p \<noteq> NULLPROC"
  shows "ksafe F p (getbuf i s)"
proof -
  have "ksafe F p (case getbuf_take i s1 of (s2, buf) \<Rightarrow> Ret s2 buf)" if "mine F p s1" for F s1
    using that by (simp add: getbuf_take_def Let_def port_frame pool_frame)
  then show ?thesis unfolding getbuf_def
    using m by (auto intro!: ksafe_bind [OF wait_safe [OF m p]])
qed

lemma freebuf_safe:
  assumes m: "mine F p s"
  shows "ksafe F p (freebuf a s)"
proof -
  have "mine F p (freebuf_put i b s)" for i b using m by (simp add: freebuf_put_def Let_def port_frame pool_frame)
  then show ?thesis using m by (auto simp: freebuf_def Let_def intro!: ksafe_bind [OF signal_safe])
qed

lemma mkbufpool_safe:
  assumes m: "mine F p s"
  shows "ksafe F p (mkbufpool bsz n s)"
proof (cases "bsz < BP_MINB \<or> bsz > BP_MAXB \<or> n < 1 \<or> n > BP_MAXN \<or> nbpools s \<ge> NBPOOLS")
  case True
  then show ?thesis using m by (auto simp: mkbufpool_def)
next
  case False
  have "mine F p (fst (semcreate n s2))" if "mine F p s2" for s2
    using semcreate_mine [OF that, of n] False by simp
  then show ?thesis using m False
    by (auto simp: mkbufpool_def Let_def split_beta port_frame pool_frame split: option.splits)
qed

end
