(* ===== verification/Evec.thy ===== *)
theory Evec
  imports Kstate
begin

text \<open>
  Interrupt vectors: \<^verbatim>\<open>evec.c\<close> and the interrupt controller part of \<^verbatim>\<open>i386.c\<close>. Writing to
  a port of a device appends to the log; loading the table register (\<^verbatim>\<open>lidt\<close>) changes nothing the
  kernel reads. The lemmas say which gates the table holds and which interrupts the controller
  lets through.
\<close>

definition outb :: "u16 \<Rightarrow> u8 \<Rightarrow> kst \<Rightarrow> kst" where
  "outb port v s = s\<lparr>outlog := outlog s @ [(port, v)]\<rparr>"

abbreviation (input) ICU1 :: u16 where "ICU1 \<equiv> 0x20"
abbreviation (input) ICU2 :: u16 where "ICU2 \<equiv> 0xA0"
abbreviation (input) IMR1 :: u16 where "IMR1 \<equiv> 0x21"
abbreviation (input) IMR2 :: u16 where "IMR2 \<equiv> 0xA1"
abbreviation (input) NID :: nat where "NID \<equiv> 48"
abbreviation (input) IGDT_TRAPG :: "5 word" where "IGDT_TRAPG \<equiv> 15"

definition setirmask :: "kst \<Rightarrow> kst" where
  "setirmask s =
     (if girmask s = 0 then s
      else outb IMR2 (ucast (drop_bit 8 (girmask s) AND 0xff)) (outb IMR1 (ucast (girmask s AND 0xff)) s))"

definition init8259 :: "kst \<Rightarrow> kst" where
  "init8259 s =
     (let s1 = outb ICU1 0x11 s;
          s2 = outb (ICU1 + 1) 0x20 s1;
          s3 = outb (ICU1 + 1) 0x4 s2;
          s4 = outb (ICU1 + 1) 0x1 s3;
          s5 = outb ICU1 0xb s4;
          s6 = outb ICU2 0x11 s5;
          s7 = outb (ICU2 + 1) 0x28 s6;
          s8 = outb (ICU2 + 1) 0x2 s7;
          s9 = outb (ICU2 + 1) 0xb s8;
          s10 = outb ICU2 0xb s9
      in setirmask s10)"

definition set_gate :: "u32 \<Rightarrow> idt_gate \<Rightarrow> idt_gate" where
  "set_gate handler g = g\<lparr>igd_loffset := ucast handler, igd_segsel := 0x8, igd_mbz := 0, igd_type := IGDT_TRAPG,
     igd_dpl := 0, igd_present := 1, igd_hoffset := ucast (drop_bit 16 handler)\<rparr>"

definition set_evec :: "u32 \<Rightarrow> u32 \<Rightarrow> kst \<Rightarrow> kst" where
  "set_evec xnum handler s =
     (let s1 = s\<lparr>idtab := (idtab s)(uint xnum := set_gate handler (idtab s (uint xnum)))\<rparr>
      in if xnum > 31 \<and> xnum < 48
         then setirmask (s1\<lparr>girmask := girmask s1 AND NOT (push_bit (unat (xnum - 32)) 1)\<rparr>)
         else s1)"

definition initevec :: "(nat \<Rightarrow> u32) \<Rightarrow> kst \<Rightarrow> kst" where
  "initevec defevec s =
     (let s1 = s\<lparr>girmask := 0\<rparr>;
          s2 = fold (\<lambda>i. set_evec (of_nat i) (defevec i)) [0..<NID] s1;
          s3 = s2\<lparr>girmask := 0xfffb\<rparr>
      in init8259 s3)"

text \<open>The handler a gate leads to.\<close>

definition gate_handler :: "idt_gate \<Rightarrow> u32" where
  "gate_handler g = push_bit 16 (ucast (igd_hoffset g)) OR ucast (igd_loffset g)"

lemma gate_handler_set: "gate_handler (set_gate h g) = h"
  by (rule bit_word_eqI) (auto simp: gate_handler_def set_gate_def bit_simps possible_bit_def)

lemma outb_simps [simp]:
  "outlog (outb p v s) = outlog s @ [(p, v)]" "girmask (outb p v s) = girmask s" "idtab (outb p v s) = idtab s"
  by (simp_all add: outb_def)

lemma setirmask_simps [simp]: "girmask (setirmask s) = girmask s" "idtab (setirmask s) = idtab s"
  by (simp_all add: setirmask_def)

lemma set_evec_idtab:
  "idtab (set_evec x h s) = (idtab s)(uint x := set_gate h (idtab s (uint x)))"
  by (simp add: set_evec_def Let_def)

lemma set_evec_girmask:
  "girmask (set_evec x h s) = (if x > 31 \<and> x < 48 then girmask s AND NOT (push_bit (unat (x - 32)) 1) else girmask s)"
  by (simp add: set_evec_def Let_def)

lemma initevec_fold:
  "n \<le> NID \<Longrightarrow> girmask s = 0 \<Longrightarrow>
   girmask (fold (\<lambda>i. set_evec (of_nat i) (d i)) [0..<n] s) = 0
   \<and> outlog (fold (\<lambda>i. set_evec (of_nat i) (d i)) [0..<n] s) = outlog s
   \<and> (\<forall>i<n. gate_handler (idtab (fold (\<lambda>i. set_evec (of_nat i) (d i)) [0..<n] s) (int i)) = d i)"
proof (induction n)
  case (Suc n)
  have "uint (of_nat n :: u32) = int n" using Suc.prems(1) by (simp add: uint_nat unat_of_nat)
  moreover have "outlog (set_evec x h s) = outlog s" if "girmask s = 0" for x h s
    using that by (simp add: set_evec_def setirmask_def Let_def)
  ultimately show ?case
    using Suc by (auto simp: set_evec_idtab set_evec_girmask gate_handler_set less_Suc_eq simp del: push_bit_of_1)
qed simp

end
