(* ===== verification/Tty.thy ===== *)
theory Tty
  imports Sems Devtab Evec
begin

text \<open>
  The terminal driver, \<^verbatim>\<open>device/tty/\<close>: the upper half (\<^verbatim>\<open>ttygetc\<close>, \<^verbatim>\<open>ttyread\<close>,
  \<^verbatim>\<open>ttyputc\<close>, \<^verbatim>\<open>ttywrite\<close>, \<^verbatim>\<open>ttycontrol\<close>) that processes call, and the lower half
  (\<^verbatim>\<open>ttyhandle_in\<close>, \<^verbatim>\<open>ttyhandle_out\<close>, \<^verbatim>\<open>ttyhandler\<close>) that runs in the interrupt. A
  pointer into a buffer is an index, and a store behind the input buffer is \<open>Stop Undefined\<close>. What
  the serial device answers when a register is read is an argument; what is written to it goes to
  the log. The lemmas say that every routine keeps the kernel invariant.
\<close>

abbreviation (input) TY_IBUFLEN :: int where "TY_IBUFLEN \<equiv> 128"
abbreviation (input) TY_OBUFLEN :: int where "TY_OBUFLEN \<equiv> 64"
abbreviation (input) TY_EBUFLEN :: int where "TY_EBUFLEN \<equiv> 20"
abbreviation (input) UART_FIFO_SIZE :: nat where "UART_FIFO_SIZE \<equiv> 16"
abbreviation (input) TY_IMRAW :: u8 where "TY_IMRAW \<equiv> 82"
abbreviation (input) TY_IMCOOKED :: u8 where "TY_IMCOOKED \<equiv> 67"
abbreviation (input) TY_IMCBREAK :: u8 where "TY_IMCBREAK \<equiv> 75"
abbreviation (input) TY_BACKSP :: u8 where "TY_BACKSP \<equiv> 8"
abbreviation (input) TY_BACKSP2 :: u8 where "TY_BACKSP2 \<equiv> 127"
abbreviation (input) TY_BELL :: u8 where "TY_BELL \<equiv> 7"
abbreviation (input) TY_EOFCH :: u8 where "TY_EOFCH \<equiv> 4"
abbreviation (input) TY_BLANK :: u8 where "TY_BLANK \<equiv> 32"
abbreviation (input) TY_NEWLINE :: u8 where "TY_NEWLINE \<equiv> 10"
abbreviation (input) TY_RETURN :: u8 where "TY_RETURN \<equiv> 13"
abbreviation (input) TY_STOPCH :: u8 where "TY_STOPCH \<equiv> 19"
abbreviation (input) TY_STRTCH :: u8 where "TY_STRTCH \<equiv> 17"
abbreviation (input) TY_KILLCH :: u8 where "TY_KILLCH \<equiv> 21"
abbreviation (input) TY_UPARROW :: u8 where "TY_UPARROW \<equiv> 94"

definition upd_tty :: "int \<Rightarrow> (ttycblk \<Rightarrow> ttycblk) \<Rightarrow> kst \<Rightarrow> kst" where
  "upd_tty i f s = s\<lparr>ttytab := (ttytab s)(i := f (ttytab s i))\<rparr>"

section \<open>The lower half\<close>

text \<open>\<open>csr\<close> is the port of the device's first register; the interrupt enable register is the second.\<close>

definition ttykickout :: "u16 \<Rightarrow> kst \<Rightarrow> kst" where
  "ttykickout csr s = outb (csr + 1) (0x01 OR 0x02) s"

definition eputc :: "u8 \<Rightarrow> int \<Rightarrow> u16 \<Rightarrow> kst \<Rightarrow> kst" where
  "eputc ch i csr s =
     (let s1 = upd_tty i (\<lambda>t. t\<lparr>tyebuff := (tyebuff t)(tyetail t := ch), tyetail := tyetail t + 1\<rparr>) s;
          s2 = upd_tty i (\<lambda>t. if tyetail t \<ge> TY_EBUFLEN then t\<lparr>tyetail := 0\<rparr> else t) s1
      in ttykickout csr s2)"

definition echoch :: "u8 \<Rightarrow> int \<Rightarrow> u16 \<Rightarrow> kst \<Rightarrow> kst" where
  "echoch ch i csr s =
     (let t = ttytab s i in
      if (ch = TY_NEWLINE \<or> ch = TY_RETURN) \<and> tyecrlf t then eputc TY_NEWLINE i csr (eputc TY_RETURN i csr s)
      else if (sint ch < sint TY_BLANK \<or> ch = 127) \<and> tyevis t then eputc (ch + 64) i csr (eputc TY_UPARROW i csr s)
      else eputc ch i csr s)"

text \<open>The three characters that erase one on the screen, the last two if \<^verbatim>\<open>tyieback\<close> is set.\<close>

definition erase_echo :: "int \<Rightarrow> u16 \<Rightarrow> kst \<Rightarrow> kst" where
  "erase_echo i csr s =
     (let s1 = eputc TY_BACKSP i csr s
      in if tyieback (ttytab s1 i) then eputc TY_BACKSP i csr (eputc TY_BLANK i csr s1) else s1)"

definition erase1 :: "int \<Rightarrow> u16 \<Rightarrow> kst \<Rightarrow> kst" where
  "erase1 i csr s =
     (let s1 = upd_tty i (\<lambda>t. t\<lparr>tyitail := tyitail t - 1\<rparr>) s;
          s2 = upd_tty i (\<lambda>t. if tyitail t < 0 then t\<lparr>tyitail := tyitail t + TY_IBUFLEN\<rparr> else t) s1;
          t = ttytab s2 i; ch = tyibuff t (tyitail t)
      in if tyiecho t then
           (if sint ch < sint TY_BLANK \<or> ch = 127 then
              erase_echo i csr (if tyevis t then erase_echo i csr s2 else s2)
            else erase_echo i csr s2)
         else s2)"

text \<open>\<^verbatim>\<open>*typtr->tyitail++ = ch\<close>, and the wrap of the pointer that follows it, or does not.\<close>

definition tty_store :: "u8 \<Rightarrow> int \<Rightarrow> kst \<Rightarrow> (kst, unit) kprog" where
  "tty_store ch i s =
     (if tyitail (ttytab s i) \<ge> TY_IBUFLEN then Stop Undefined s
      else Ret (upd_tty i (\<lambda>t. t\<lparr>tyibuff := (tyibuff t)(tyitail t := ch), tyitail := tyitail t + 1\<rparr>) s) ())"

definition tty_wrap :: "int \<Rightarrow> kst \<Rightarrow> kst" where
  "tty_wrap i s = upd_tty i (\<lambda>t. if tyitail t \<ge> TY_IBUFLEN then t\<lparr>tyitail := 0\<rparr> else t) s"

definition tty_avail :: "int \<Rightarrow> kst \<Rightarrow> int" where
  "tty_avail i s = (let avail = semcount (tyisem (ttytab s i)) s in if avail < 0 then 0 else avail)"

text \<open>The cooked part of \<^verbatim>\<open>ttyhandle_in\<close>.\<close>

definition tty_cooked :: "u8 \<Rightarrow> int \<Rightarrow> u16 \<Rightarrow> kst \<Rightarrow> (kst, unit) kprog" where
  "tty_cooked ch i csr s =
     (let t = ttytab s i in
      if ch = tyikillc t \<and> tyikill t then
        (let s1 = upd_tty i (\<lambda>t. t\<lparr>tyitail := tyitail t - tyicursor t\<rparr>) s;
             s2 = upd_tty i (\<lambda>t. if tyitail t < 0 then t\<lparr>tyitail := tyitail t + TY_IBUFLEN\<rparr> else t) s1;
             s3 = upd_tty i (\<lambda>t. t\<lparr>tyicursor := 0\<rparr>) s2
         in Ret (eputc TY_NEWLINE i csr (eputc TY_RETURN i csr s3)) ())
      else if (ch = tyierasec t \<or> ch = tyierasec2 t) \<and> tyierase t then
        (if tyicursor t > 0 then Ret (erase1 i csr (upd_tty i (\<lambda>t. t\<lparr>tyicursor := tyicursor t - 1\<rparr>) s)) ()
         else Ret s ())
      else if ch = TY_NEWLINE \<or> ch = TY_RETURN then
        (let s1 = (if tyiecho t then echoch ch i csr s else s)
         in kbind (tty_store ch i s1) (\<lambda>s2 _.
              let s3 = tty_wrap i s2
              in kbind (signaln (tyisem (ttytab s3 i)) (i32 (tyicursor (ttytab s3 i) + 1)) s3)
                   (\<lambda>s4 _. Ret (upd_tty i (\<lambda>t. t\<lparr>tyicursor := 0\<rparr>) s4) ())))
      else if tty_avail i s + tyicursor t \<ge> TY_IBUFLEN - 1 then Ret (eputc (tyifullc t) i csr s) ()
      else if ch = tyeofch t \<and> tyeof t then
        (let s1 = (if tyiecho t then echoch ch i csr s else s)
         in if tyicursor (ttytab s1 i) \<noteq> 0 then Ret s1 ()
            else kbind (tty_store ch i s1) (\<lambda>s2 _.
                 kbind (signal (tyisem (ttytab s2 i)) s2) (\<lambda>s3 _. Ret s3 ())))
      else
        (let s1 = (if tyiecho t then echoch ch i csr s else s);
             s2 = upd_tty i (\<lambda>t. t\<lparr>tyicursor := tyicursor t + 1\<rparr>) s1
         in kbind (tty_store ch i s2) (\<lambda>s3 _. Ret (tty_wrap i s3) ())))"

text \<open>\<open>c\<close> is the character read from the device.\<close>

definition ttyhandle_in :: "u8 \<Rightarrow> int \<Rightarrow> u16 \<Rightarrow> kst \<Rightarrow> (kst, unit) kprog" where
  "ttyhandle_in c i csr s =
     (let t = ttytab s i; avail = tty_avail i s in
      if tyimode t = TY_IMRAW then
        (if avail \<ge> TY_IBUFLEN then Ret s ()
         else kbind (tty_store c i s) (\<lambda>s1 _.
              let s2 = tty_wrap i s1
              in kbind (signal (tyisem (ttytab s2 i)) s2) (\<lambda>s3 _. Ret s3 ())))
      else
        (let ch = (if c = TY_RETURN \<and> tyicrlf t then TY_NEWLINE else c) in
         if tyoflow t \<and> ch = tyostart t then
           Ret (ttykickout csr (upd_tty i (\<lambda>t. t\<lparr>tyoheld := False\<rparr>) s)) ()
         else if tyoflow t \<and> ch = tyostop t then Ret (upd_tty i (\<lambda>t. t\<lparr>tyoheld := True\<rparr>) s) ()
         else
           (let s1 = upd_tty i (\<lambda>t. t\<lparr>tyoheld := False\<rparr>) s in
            if tyimode t = TY_IMCBREAK then
              (if avail \<ge> TY_IBUFLEN then Ret (eputc (tyifullc t) i csr s1) ()
               else kbind (tty_store ch i s1) (\<lambda>s2 _.
                    let s3 = tty_wrap i s2;
                        s4 = (if tyiecho (ttytab s3 i) then echoch ch i csr s3 else s3)
                    in kbind (signal (tyisem (ttytab s4 i)) s4) (\<lambda>s5 _. Ret s5 ())))
            else tty_cooked ch i csr s1)))"

text \<open>The two loops of \<^verbatim>\<open>ttyhandle_out\<close> over the space left in the device, \<open>uspace\<close>.\<close>

primrec echo_loop :: "nat \<Rightarrow> int \<Rightarrow> u16 \<Rightarrow> kst \<Rightarrow> kst \<times> nat" where
  "echo_loop 0 i csr s = (s, 0)"
| "echo_loop (Suc uspace) i csr s =
     (let t = ttytab s i in
      if tyehead t \<noteq> tyetail t then
        (let s1 = outb csr (tyebuff t (tyehead t)) s;
             s2 = upd_tty i (\<lambda>t. if tyehead t + 1 \<ge> TY_EBUFLEN then t\<lparr>tyehead := 0\<rparr> else t\<lparr>tyehead := tyehead t + 1\<rparr>) s1
         in echo_loop uspace i csr s2)
      else (s, Suc uspace))"

primrec out_loop :: "nat \<Rightarrow> int \<Rightarrow> int \<Rightarrow> int \<Rightarrow> u16 \<Rightarrow> kst \<Rightarrow> kst \<times> int" where
  "out_loop 0 avail ochars i csr s = (s, ochars)"
| "out_loop (Suc uspace) avail ochars i csr s =
     (if avail > 0 then
        (let t = ttytab s i;
             s1 = outb csr (tyobuff t (tyohead t)) s;
             s2 = upd_tty i (\<lambda>t. if tyohead t + 1 \<ge> TY_OBUFLEN then t\<lparr>tyohead := 0\<rparr> else t\<lparr>tyohead := tyohead t + 1\<rparr>) s1
         in out_loop uspace (avail - 1) (ochars + 1) i csr s2)
      else (s, ochars))"

text \<open>\<open>ier\<close> is what reading the interrupt enable register returns.\<close>

definition ttyhandle_out :: "u8 \<Rightarrow> int \<Rightarrow> u16 \<Rightarrow> kst \<Rightarrow> (kst, unit) kprog" where
  "ttyhandle_out ier i csr s =
     (let t = ttytab s i in
      if tyoheld t then Ret s ()
      else if tyehead t = tyetail t \<and> semcount (tyosem t) s \<ge> TY_OBUFLEN then Ret (outb (csr + 1) (ier AND NOT 0x02) s) ()
      else let (s1, uspace) = echo_loop UART_FIFO_SIZE i csr s;
               avail = i32 (TY_OBUFLEN - semcount (tyosem (ttytab s1 i)) s1);
               (s2, ochars) = out_loop uspace avail 0 i csr s1
           in if ochars > 0 then kbind (signaln (tyosem (ttytab s2 i)) ochars s2) (\<lambda>s3 _. Ret s3 ())
              else Ret s2 ())"

primrec receive_loop :: "u8 list \<Rightarrow> int \<Rightarrow> u16 \<Rightarrow> kst \<Rightarrow> (kst, unit) kprog" where
  "receive_loop [] i csr s = Ret s ()"
| "receive_loop (c # cs) i csr s = kbind (ttyhandle_in c i csr s) (\<lambda>s1 _. receive_loop cs i csr s1)"

definition console_csr :: u16 where
  "console_csr = ucast (dvcsr (dentry_of 0))"

text \<open>
  \<open>iir\<close> is the interrupt identification, \<open>rx\<close> the characters the device has, read one by one while
  its line status says that there are more.
\<close>

definition ttyhandler :: "u8 \<Rightarrow> u8 \<Rightarrow> u8 list \<Rightarrow> kst \<Rightarrow> (kst, unit) kprog" where
  "ttyhandler iir ier rx s =
     (let i = dvminor (dentry_of 0); csr = console_csr in
      if iir AND 0x01 \<noteq> 0 then Ret s ()
      else let ident = iir AND 0x0E in
        if ident = 0x06 then Ret s ()
        else if ident = 0x04 \<or> ident = 0x0C then
          kbind (resched_cntl DEFER_START s) (\<lambda>s1 _.
          kbind (receive_loop rx i csr s1) (\<lambda>s2 _.
          kbind (resched_cntl DEFER_STOP s2) (\<lambda>s3 _. Ret s3 ())))
        else if ident = 0x02 then ttyhandle_out ier i csr s
        else Ret s ())"

section \<open>The upper half\<close>

definition ttyinit :: "(devfn \<Rightarrow> u32) \<Rightarrow> dentry \<Rightarrow> kst \<Rightarrow> kst \<times> int" where
  "ttyinit fnaddr devptr s =
     (let i = dvminor devptr; uptr = ucast (dvcsr devptr) :: u16;
          s1 = upd_tty i (\<lambda>t. t\<lparr>tyihead := 0, tyitail := 0\<rparr>) s;
          (s2, isem) = semcreate 0 s1;
          s3 = upd_tty i (\<lambda>t. t\<lparr>tyisem := isem, tyohead := 0, tyotail := 0\<rparr>) s2;
          (s4, osem) = semcreate TY_OBUFLEN s3;
          s5 = upd_tty i (\<lambda>t. t\<lparr>tyosem := osem, tyehead := 0, tyetail := 0, tyimode := TY_IMCOOKED,
                 tyiecho := True, tyieback := True, tyevis := True, tyecrlf := True, tyicrlf := True,
                 tyierase := True, tyierasec := TY_BACKSP, tyierasec2 := TY_BACKSP2, tyeof := True,
                 tyeofch := TY_EOFCH, tyikill := True, tyikillc := TY_KILLCH, tyicursor := 0, tyoflow := True,
                 tyoheld := False, tyostop := TY_STOPCH, tyostart := TY_STRTCH, tyocrlf := True,
                 tyifullc := TY_BELL\<rparr>) s4;
          s6 = outb (uptr + 3) 0x80 s5;
          s7 = outb (uptr + 1) 0x00 s6;
          s8 = outb uptr 0x18 s7;
          s9 = outb (uptr + 3) 0x03 s8;
          s10 = outb (uptr + 2) 0x00 s9;
          s11 = set_evec (ucast (dvirq devptr)) (fnaddr (dvintr devptr)) s10;
          s12 = outb (uptr + 2) (0x01 OR 0x02 OR 0x04 OR 0x80) s11
      in (ttykickout uptr s12, OK))"

definition ttygetc :: "dentry \<Rightarrow> kst \<Rightarrow> (kst, int) kprog" where
  "ttygetc devptr s =
     (let i = dvminor devptr in
      kbind (wait (tyisem (ttytab s i)) s) (\<lambda>s1 _.
        let ch = tyibuff (ttytab s1 i) (tyihead (ttytab s1 i));
            s2 = upd_tty i (\<lambda>t. t\<lparr>tyihead := tyihead t + 1\<rparr>) s1;
            s3 = upd_tty i (\<lambda>t. if tyihead t \<ge> TY_IBUFLEN then t\<lparr>tyihead := 0\<rparr> else t) s2;
            t = ttytab s3 i
        in if tyimode t = TY_IMCOOKED \<and> tyeof t \<and> ch = tyeofch t then Ret s3 EOF else Ret s3 (sint ch)))"

text \<open>\<^verbatim>\<open>ttyputc\<close> calls itself once, for the return before a newline; the part after that call.\<close>

definition ttyputc_body :: "dentry \<Rightarrow> u8 \<Rightarrow> kst \<Rightarrow> (kst, int) kprog" where
  "ttyputc_body devptr ch s =
     (let i = dvminor devptr in
      kbind (wait (tyosem (ttytab s i)) s) (\<lambda>s1 _.
        let s2 = upd_tty i (\<lambda>t. t\<lparr>tyobuff := (tyobuff t)(tyotail t := ch), tyotail := tyotail t + 1\<rparr>) s1;
            s3 = upd_tty i (\<lambda>t. if tyotail t \<ge> TY_OBUFLEN then t\<lparr>tyotail := 0\<rparr> else t) s2
        in Ret (ttykickout (ucast (dvcsr devptr)) s3) OK))"

definition ttyputc :: "dentry \<Rightarrow> u8 \<Rightarrow> kst \<Rightarrow> (kst, int) kprog" where
  "ttyputc devptr ch s =
     (if ch = TY_NEWLINE \<and> tyocrlf (ttytab s (dvminor devptr))
      then kbind (ttyputc_body devptr TY_RETURN s) (\<lambda>s1 _. ttyputc_body devptr ch s1)
      else ttyputc_body devptr ch s)"

primrec ttywrite_loop :: "nat \<Rightarrow> dentry \<Rightarrow> u32 \<Rightarrow> kst \<Rightarrow> (kst, int) kprog" where
  "ttywrite_loop 0 devptr buff s = Ret s OK"
| "ttywrite_loop (Suc k) devptr buff s =
     kbind (ttyputc devptr (kmem s buff) s) (\<lambda>s1 _. ttywrite_loop k devptr (buff + 1) s1)"

definition ttywrite :: "dentry \<Rightarrow> u32 \<Rightarrow> int \<Rightarrow> kst \<Rightarrow> (kst, int) kprog" where
  "ttywrite devptr buff count s =
     (if count < 0 then Ret s SYSERR
      else if count = 0 then Ret s OK
      else ttywrite_loop (nat count) devptr buff s)"

definition store_char :: "u32 \<Rightarrow> int \<Rightarrow> kst \<Rightarrow> kst" where
  "store_char buff c s = set_kmem ((kmem s)(buff := word_of_int c)) s"

primrec ttyread_raw :: "nat \<Rightarrow> dentry \<Rightarrow> u32 \<Rightarrow> kst \<Rightarrow> (kst, unit) kprog" where
  "ttyread_raw 0 devptr buff s = Ret s ()"
| "ttyread_raw (Suc k) devptr buff s =
     kbind (ttygetc devptr s) (\<lambda>s1 c. ttyread_raw k devptr (buff + 1) (store_char buff c s1))"

text \<open>The rest of a line: at most \<open>k\<close> more characters, \<open>ch\<close> the last one read.\<close>

primrec ttyread_line :: "nat \<Rightarrow> dentry \<Rightarrow> u8 \<Rightarrow> u32 \<Rightarrow> int \<Rightarrow> kst \<Rightarrow> (kst, int) kprog" where
  "ttyread_line 0 devptr ch buff nread s = Ret s nread"
| "ttyread_line (Suc k) devptr ch buff nread s =
     (if ch \<noteq> TY_NEWLINE \<and> ch \<noteq> TY_RETURN then
        kbind (ttygetc devptr s) (\<lambda>s1 c. ttyread_line k devptr (word_of_int c) (buff + 1) (nread + 1) (store_char buff c s1))
      else Ret s nread)"

definition ttyread :: "dentry \<Rightarrow> u32 \<Rightarrow> int \<Rightarrow> kst \<Rightarrow> (kst, int) kprog" where
  "ttyread devptr buff count s =
     (if count < 0 then Ret s SYSERR
      else let t = ttytab s (dvminor devptr) in
        if tyimode t \<noteq> TY_IMCOOKED then
          (let avail = semcount (tyisem t) s in
           if count = 0 \<and> avail = 0 then Ret s 0
           else let n = (if count = 0 then avail else count)
                in kbind (ttyread_raw (nat n) devptr buff s) (\<lambda>s1 _. Ret s1 (if n < 0 then 0 else n)))
        else kbind (ttygetc devptr s) (\<lambda>s1 firstch.
          if firstch = EOF then Ret s1 EOF
          else ttyread_line (nat (count - 1)) devptr (word_of_int firstch) (buff + 1) 1 (store_char buff firstch s1)))"

definition ttycontrol :: "dentry \<Rightarrow> int \<Rightarrow> kst \<Rightarrow> (kst, int) kprog" where
  "ttycontrol devptr func s =
     (let i = dvminor devptr; t = ttytab s i in
      if func = 3 then
        kbind (wait (tyisem t) s) (\<lambda>s1 _.
          let tl = tyitail (ttytab s1 i) in
          if tl \<ge> TY_IBUFLEN then Stop Undefined s1
          else let ch = tyibuff (ttytab s1 i) tl
               in kbind (signal (tyisem (ttytab s1 i)) s1) (\<lambda>s2 _. Ret s2 (sint ch)))
      else if func = 4 then Ret (upd_tty i (\<lambda>t. t\<lparr>tyimode := TY_IMRAW\<rparr>) s) OK
      else if func = 5 then Ret (upd_tty i (\<lambda>t. t\<lparr>tyimode := TY_IMCOOKED\<rparr>) s) OK
      else if func = 6 then Ret (upd_tty i (\<lambda>t. t\<lparr>tyimode := TY_IMCBREAK\<rparr>) s) OK
      else if func = 8 then Ret s (semcount (tyisem t) s)
      else if func = 9 then Ret (upd_tty i (\<lambda>t. t\<lparr>tyiecho := True\<rparr>) s) OK
      else if func = 10 then Ret (upd_tty i (\<lambda>t. t\<lparr>tyiecho := False\<rparr>) s) OK
      else Ret s SYSERR)"

section \<open>The driver and the scheduler\<close>

text \<open>The driver's state, memory and the device are no part of what scheduling looks at.\<close>

lemma sched_part_simps [simp]:
  "sched_part (upd_tty i f s) = sched_part s" "sched_part (outb port v s) = sched_part s"
  "sched_part (set_kmem m s) = sched_part s" "sched_part (s\<lparr>idtab := t\<rparr>) = sched_part s" "sched_part (s\<lparr>girmask := g\<rparr>) = sched_part s"
  by (simp_all add: sched_part_def upd_tty_def outb_def set_kmem_def)

lemma sched_part_ops [simp]:
  "sched_part (ttykickout csr s) = sched_part s" "sched_part (eputc ch i csr s) = sched_part s"
  "sched_part (echoch ch i csr s) = sched_part s" "sched_part (erase_echo i csr s) = sched_part s"
  "sched_part (erase1 i csr s) = sched_part s" "sched_part (tty_wrap i s) = sched_part s"
  "sched_part (setirmask s) = sched_part s" "sched_part (set_evec x h s) = sched_part s"
  "sched_part (store_char a c s) = sched_part s"
  by (simp_all add: ttykickout_def eputc_def echoch_def erase_echo_def erase1_def tty_wrap_def setirmask_def set_evec_def
      store_char_def Let_def)

lemma sched_part_echo_loop [simp]: "sched_part (fst (echo_loop n i csr s)) = sched_part s"
  by (induction n arbitrary: s) (simp_all add: Let_def)

lemma sched_part_out_loop [simp]: "sched_part (fst (out_loop n a c i csr s)) = sched_part s"
  by (induction n arbitrary: a c s) (simp_all add: Let_def)

lemma tty_store_cases:
  obtains "tty_store ch i s = Stop Undefined s"
  | s' where "tty_store ch i s = Ret s' ()" "sched_part s' = sched_part s"
  by (cases "tyitail (ttytab s i) \<ge> TY_IBUFLEN") (simp_all add: tty_store_def)

section \<open>The interrupt handler is safe\<close>

text \<open>
  With rescheduling deferred, a part of a call never switches: it returns with the same deferral
  outstanding or stops. \<open>n\<close> is the number of deferrals.
\<close>

definition held :: "int set \<Rightarrow> int \<Rightarrow> int \<Rightarrow> kst \<Rightarrow> bool" where
  "held F p n s \<longleftrightarrow> kgood F {} (Some p) {} True s \<and> ndefers s = n \<and> currpid s = p"

primrec kheld :: "int set \<Rightarrow> int \<Rightarrow> int \<Rightarrow> (kst, 'a) kprog \<Rightarrow> bool" where
  "kheld F p n (Ret s a) = held F p n s"
| "kheld F p n (Ctxsw s k) = False"
| "kheld F p n (Stop r s) = (r \<noteq> Looping)"

lemma kheld_bind: "kheld F p n c \<Longrightarrow> (\<And>s a. held F p n s \<Longrightarrow> kheld F p n (f s a)) \<Longrightarrow> kheld F p n (kbind c f)"
  by (cases c) auto

lemma held_cong: "sched_part s' = sched_part s \<Longrightarrow> held F p n s \<Longrightarrow> held F p n s'"
  using kgood_cong [of s' s] by (auto simp: held_def sched_part_def)

lemma held_ops [simp]:
  "held F p n (upd_tty i f s) = held F p n s" "held F p n (outb port v s) = held F p n s"
  "held F p n (ttykickout csr s) = held F p n s" "held F p n (eputc ch i csr s) = held F p n s"
  "held F p n (echoch ch i csr s) = held F p n s" "held F p n (erase1 i csr s) = held F p n s"
  "held F p n (tty_wrap i s) = held F p n s"
  by (rule iffI; erule held_cong [rotated]; simp)+

lemma held_store: "held F p n s \<Longrightarrow> kheld F p n (tty_store ch i s)"
  by (rule tty_store_cases [of ch i s]) (auto intro: held_cong)

lemma held_signal_once:
  assumes h: "held F p n s" "0 < n" and i: "\<not> isbadsem sem" "sstate (semtab s sem) = S_USED"
  shows "kheld F p n (signal_once sem s)" "signal_once sem s = Ret s' () \<Longrightarrow> sstate (semtab s' sem) = S_USED"
proof -
  have g: "kgood F {} (Some p) {} True s" "ndefers s > 0" "currpid s = p" using h by (simp_all add: held_def)
  show "kheld F p n (signal_once sem s)" "signal_once sem s = Ret s' () \<Longrightarrow> sstate (semtab s' sem) = S_USED"
  proof (atomize (full), cases "scount (semtab s sem) = INT32_MAX")
    case False
    then have "scount (semtab s sem) < INT32_MAX" using cnt_used(1) [OF g(1) i(1) _ i(2)] by simp
    then obtain s1 where "signal_once sem s = Ret s1 ()" "kgood F {} (Some p) {} True s1" "ndefers s1 = ndefers s"
      "currpid s1 = p" "semtab s1 = (semtab s)(sem := (semtab s sem)\<lparr>scount := scount (semtab s sem) + 1\<rparr>)"
      by (rule signal_once_deferred [OF g(1,2,3) i])
    then show "kheld F p n (signal_once sem s) \<and> (signal_once sem s = Ret s' () \<longrightarrow> sstate (semtab s' sem) = S_USED)"
      using h i(2) by (auto simp: held_def)
  qed (simp add: signal_once_def)
qed

lemma held_signal: "held F p n s \<Longrightarrow> 0 < n \<Longrightarrow> kheld F p n (signal sem s)"
  using held_signal_once(1) [of F p n s sem]
  by (cases "sstate (semtab s sem)") (auto simp: signal_def intro!: kheld_bind)

lemma held_signaln_loop:
  "held F p n s \<Longrightarrow> 0 < n \<Longrightarrow> \<not> isbadsem sem \<Longrightarrow> sstate (semtab s sem) = S_USED \<Longrightarrow> kheld F p n (signaln_loop k sem s)"
proof (induction k arbitrary: s)
  case (Suc k)
  show ?case
  proof (cases "signal_once sem s")
    case (Ret s1 a)
    then have "kheld F p n (signal_once sem s)" "sstate (semtab s1 sem) = S_USED"
      using held_signal_once(1) [OF Suc.prems] held_signal_once(2) [OF Suc.prems] by simp_all
    then show ?thesis using Suc Ret by simp
  qed (use held_signal_once(1) [OF Suc.prems] in simp_all)
qed simp

lemma held_signaln:
  assumes h: "held F p 1 s"
  shows "kheld F p 1 (signaln sem count s)"
proof (cases "isbadsem sem \<or> count < 0 \<or> sstate (semtab s sem) = S_FREE")
  case True
  then show ?thesis using h by (auto simp: signaln_def)
next
  case False
  then have u: "sstate (semtab s sem) = S_USED" by (cases "sstate (semtab s sem)") simp_all
  have nd: "ndefers s = 1" using h by (simp add: held_def)
  let ?s1 = "s\<lparr>ndefers := 2\<rparr>"
  have "held F p 2 ?s1" using h kgood_defer(1) [of F "{}" "Some p" "{}" True s 2] by (simp add: held_def)
  then have l: "kheld F p 2 (signaln_loop (nat count) sem ?s1)" using held_signaln_loop False u by simp
  have stop: "kheld F p 1 (resched_cntl DEFER_STOP s2)" if "held F p 2 s2" for s2
    using that kgood_defer(1) [of F "{}" "Some p" "{}" True s2 1] by (simp add: held_def resched_cntl_def Let_def)
  have "kheld F p 1 (kbind (signaln_loop (nat count) sem ?s1) (\<lambda>s2 _. kbind (resched_cntl DEFER_STOP s2) (\<lambda>s3 _. Ret s3 OK)))"
    using l by (cases "signaln_loop (nat count) sem ?s1") (auto intro: kheld_bind [OF stop])
  moreover have "resched_cntl DEFER_START s = Ret ?s1 OK" using nd by (simp add: resched_cntl_def Let_def)
  ultimately show ?thesis using False u by (simp add: signaln_def)
qed

lemma held_cooked: "held F p 1 s \<Longrightarrow> kheld F p 1 (tty_cooked ch i csr s)"
  by (auto simp: tty_cooked_def Let_def intro!: kheld_bind held_signal held_signaln held_store)

lemma held_in: "held F p 1 s \<Longrightarrow> kheld F p 1 (ttyhandle_in c i csr s)"
  by (auto simp: ttyhandle_in_def Let_def intro!: kheld_bind held_signal held_store held_cooked)

lemma held_receive: "held F p 1 s \<Longrightarrow> kheld F p 1 (receive_loop cs i csr s)"
  by (induction cs arbitrary: s) (auto intro!: kheld_bind held_in)

lemma ttyhandle_out_safe:
  assumes m: "mine F p s"
  shows "ksafe F p (ttyhandle_out ier i csr s)"
proof -
  obtain s1 u where e: "echo_loop UART_FIFO_SIZE i csr s = (s1, u)" by (cases "echo_loop UART_FIFO_SIZE i csr s")
  obtain s2 o2 where o: "out_loop u (i32 (TY_OBUFLEN - semcount (tyosem (ttytab s1 i)) s1)) 0 i csr s1 = (s2, o2)"
    by (cases "out_loop u (i32 (TY_OBUFLEN - semcount (tyosem (ttytab s1 i)) s1)) 0 i csr s1")
  have "sched_part s2 = sched_part s"
    using sched_part_echo_loop [of UART_FIFO_SIZE i csr s]
      sched_part_out_loop [of u "i32 (TY_OBUFLEN - semcount (tyosem (ttytab s1 i)) s1)" 0 i csr s1] e o by simp
  then have "mine F p s2" "mine F p (outb (csr + 1) (ier AND NOT 0x02) s)" using m by (auto intro: mine_cong)
  then show ?thesis using m by (simp add: ttyhandle_out_def Let_def e o) (auto intro!: ksafe_bind signaln_safe)
qed

text \<open>A call that defers rescheduling, does a part that never switches, and stops deferring.\<close>

lemma deferred_safe:
  assumes m: "mine F p s" and c: "\<And>s1. held F p 1 s1 \<Longrightarrow> kheld F p 1 (c s1)"
    and f: "\<And>s1 a. held F p 1 s1 \<Longrightarrow> held F p 1 (f s1 a)"
  shows "ksafe F p (kbind (resched_cntl DEFER_START s) (\<lambda>s1 _. kbind (c s1) (\<lambda>s2 a.
    kbind (resched_cntl DEFER_STOP (f s2 a)) (\<lambda>s3 _. Ret s3 (r s2 a)))))"
proof -
  let ?s1 = "s\<lparr>ndefers := 1, attempt := False\<rparr>"
  have k: "kinv F s" "currpid s = p" using m by (simp_all add: mine_def)
  have start: "resched_cntl DEFER_START s = Ret ?s1 OK" using kinv_nd [OF k(1)] by (rule defer_start)
  have "kgood F {} (Some p) {} True ?s1" using kinv_kgood [OF k(1)] k(2) by (auto intro: kgood_defer)
  then have h: "kheld F p 1 (c ?s1)" using k(2) by (intro c) (simp add: held_def)
  have stop: "ksafe F p (kbind (resched_cntl DEFER_STOP (f s2 a)) (\<lambda>s3 _. Ret s3 (r s2 a)))" if "held F p 1 s2" for s2 a
    by (rule ksafe_bind [OF defer_stop_safe]) (use f [OF that, of a] in \<open>simp_all add: held_def\<close>)
  show ?thesis using h stop unfolding start by (cases "c ?s1") simp_all
qed

lemma ttyhandler_safe:
  assumes m: "mine F p s"
  shows "ksafe F p (ttyhandler iir ier rx s)"
proof -
  have "ksafe F p (kbind (resched_cntl DEFER_START s) (\<lambda>s1 _. kbind (receive_loop rx i csr s1) (\<lambda>s2 _.
      kbind (resched_cntl DEFER_STOP s2) (\<lambda>s3 _. Ret s3 ()))))" for i csr
    by (rule deferred_safe [OF m, of _ "\<lambda>s _. s"]) (simp_all add: held_receive)
  then show ?thesis using m by (simp add: ttyhandler_def Let_def ttyhandle_out_safe)
qed

section \<open>The upper half is safe\<close>

lemma mine_ops [simp]:
  "mine F p (upd_tty i f s) = mine F p s" "mine F p (outb port v s) = mine F p s"
  "mine F p (ttykickout csr s) = mine F p s" "mine F p (set_evec x h s) = mine F p s" "mine F p (store_char a c s) = mine F p s"
  by (rule iffI; erule mine_cong [rotated]; simp)+

lemma ttygetc_safe: "mine F p s \<Longrightarrow> p \<noteq> NULLPROC \<Longrightarrow> ksafe F p (ttygetc e s)"
  by (auto simp: ttygetc_def Let_def intro!: ksafe_bind wait_safe)

lemma ttyputc_body_safe: "mine F p s \<Longrightarrow> p \<noteq> NULLPROC \<Longrightarrow> ksafe F p (ttyputc_body e ch s)"
  by (auto simp: ttyputc_body_def Let_def intro!: ksafe_bind wait_safe)

lemma ttyputc_safe: "mine F p s \<Longrightarrow> p \<noteq> NULLPROC \<Longrightarrow> ksafe F p (ttyputc e ch s)"
  by (auto simp: ttyputc_def intro!: ksafe_bind ttyputc_body_safe)

lemma ttywrite_loop_safe: "mine F p s \<Longrightarrow> p \<noteq> NULLPROC \<Longrightarrow> ksafe F p (ttywrite_loop k e a s)"
  by (induction k arbitrary: F a s) (auto intro!: ksafe_bind ttyputc_safe)

lemma ttywrite_safe: "mine F p s \<Longrightarrow> p \<noteq> NULLPROC \<Longrightarrow> ksafe F p (ttywrite e a n s)"
  by (simp add: ttywrite_def ttywrite_loop_safe)

lemma ttyread_raw_safe: "mine F p s \<Longrightarrow> p \<noteq> NULLPROC \<Longrightarrow> ksafe F p (ttyread_raw k e a s)"
  by (induction k arbitrary: F a s) (auto intro!: ksafe_bind ttygetc_safe)

lemma ttyread_line_safe: "mine F p s \<Longrightarrow> p \<noteq> NULLPROC \<Longrightarrow> ksafe F p (ttyread_line k e ch a n s)"
  by (induction k arbitrary: F ch a n s) (auto intro!: ksafe_bind ttygetc_safe)

lemma ttyread_safe: "mine F p s \<Longrightarrow> p \<noteq> NULLPROC \<Longrightarrow> ksafe F p (ttyread e a n s)"
  by (auto simp: ttyread_def Let_def intro!: ksafe_bind ttygetc_safe ttyread_raw_safe ttyread_line_safe)

lemma ttycontrol_safe: "mine F p s \<Longrightarrow> p \<noteq> NULLPROC \<Longrightarrow> ksafe F p (ttycontrol e f s)"
  by (auto simp: ttycontrol_def Let_def intro!: ksafe_bind wait_safe signal_safe)

lemma ttyinit_mine: "mine F p s \<Longrightarrow> mine F p (fst (ttyinit fnaddr e s))"
  by (simp add: ttyinit_def Let_def split_beta semcreate_mine)

end
