(* ===== verification/Netpkt.thy ===== *)
theory Netpkt
  imports Kstate Bytes Cstring
begin

text \<open>
  Packets in memory: where \<^verbatim>\<open>struct netpacket\<close> (\<^verbatim>\<open>net.h\<close>) and \<^verbatim>\<open>struct arppacket\<close>
  (\<^verbatim>\<open>arp.h\<close>) have their fields, byte order (\<^verbatim>\<open>prototypes.h\<close>), and the routines of
  \<^verbatim>\<open>net/\<close> that read and write packets only: the checksums and the conversions. A packet is named by
  the address of its first byte; C reads and writes its fields in the order of the machine, lowest byte
  first, whatever order the field is in.
\<close>

section \<open>Fields\<close>

abbreviation (input) net_ethdst :: u32 where "net_ethdst \<equiv> 0"
abbreviation (input) net_ethsrc :: u32 where "net_ethsrc \<equiv> 6"
abbreviation (input) net_ethtype :: u32 where "net_ethtype \<equiv> 12"
abbreviation (input) net_ipvh :: u32 where "net_ipvh \<equiv> 14"
abbreviation (input) net_iptos :: u32 where "net_iptos \<equiv> 15"
abbreviation (input) net_iplen :: u32 where "net_iplen \<equiv> 16"
abbreviation (input) net_ipid :: u32 where "net_ipid \<equiv> 18"
abbreviation (input) net_ipfrag :: u32 where "net_ipfrag \<equiv> 20"
abbreviation (input) net_ipttl :: u32 where "net_ipttl \<equiv> 22"
abbreviation (input) net_ipproto :: u32 where "net_ipproto \<equiv> 23"
abbreviation (input) net_ipcksum :: u32 where "net_ipcksum \<equiv> 24"
abbreviation (input) net_ipsrc :: u32 where "net_ipsrc \<equiv> 26"
abbreviation (input) net_ipdst :: u32 where "net_ipdst \<equiv> 30"
abbreviation (input) net_udpsport :: u32 where "net_udpsport \<equiv> 34"
abbreviation (input) net_udpdport :: u32 where "net_udpdport \<equiv> 36"
abbreviation (input) net_udplen :: u32 where "net_udplen \<equiv> 38"
abbreviation (input) net_udpcksum :: u32 where "net_udpcksum \<equiv> 40"
abbreviation (input) net_udpdata :: u32 where "net_udpdata \<equiv> 42"
abbreviation (input) net_ictype :: u32 where "net_ictype \<equiv> 34"
abbreviation (input) net_iccode :: u32 where "net_iccode \<equiv> 35"
abbreviation (input) net_iccksum :: u32 where "net_iccksum \<equiv> 36"
abbreviation (input) net_icident :: u32 where "net_icident \<equiv> 38"
abbreviation (input) net_icseq :: u32 where "net_icseq \<equiv> 40"
abbreviation (input) net_icdata :: u32 where "net_icdata \<equiv> 42"

abbreviation (input) arp_htype :: u32 where "arp_htype \<equiv> 14"
abbreviation (input) arp_ptype :: u32 where "arp_ptype \<equiv> 16"
abbreviation (input) arp_hlen :: u32 where "arp_hlen \<equiv> 18"
abbreviation (input) arp_plen :: u32 where "arp_plen \<equiv> 19"
abbreviation (input) arp_op :: u32 where "arp_op \<equiv> 20"
abbreviation (input) arp_sndha :: u32 where "arp_sndha \<equiv> 22"
abbreviation (input) arp_sndpa :: u32 where "arp_sndpa \<equiv> 28"
abbreviation (input) arp_tarha :: u32 where "arp_tarha \<equiv> 32"
abbreviation (input) arp_tarpa :: u32 where "arp_tarpa \<equiv> 38"

abbreviation (input) PACKLEN :: int where "PACKLEN \<equiv> 1514"
abbreviation (input) ARPLEN :: nat where "ARPLEN \<equiv> 42"
abbreviation (input) ETH_HDR_LEN :: int where "ETH_HDR_LEN \<equiv> 14"
abbreviation (input) IP_HDR_LEN :: int where "IP_HDR_LEN \<equiv> 20"
abbreviation (input) UDP_HDR_LEN :: int where "UDP_HDR_LEN \<equiv> 8"
abbreviation (input) ICMP_HDR_LEN :: int where "ICMP_HDR_LEN \<equiv> 8"
abbreviation (input) ETH_ADDR_LEN :: nat where "ETH_ADDR_LEN \<equiv> 6"
abbreviation (input) ETH_ARP :: u16 where "ETH_ARP \<equiv> 0x0806"
abbreviation (input) ETH_IP :: u16 where "ETH_IP \<equiv> 0x0800"
abbreviation (input) IP_BCAST :: u32 where "IP_BCAST \<equiv> 0xffffffff"
abbreviation (input) IP_ICMP :: u8 where "IP_ICMP \<equiv> 1"
abbreviation (input) IP_UDP :: u8 where "IP_UDP \<equiv> 17"

definition rd16 :: "memory \<Rightarrow> u32 \<Rightarrow> u16" where
  "rd16 m a = of_le16 [m a, m (a + 1)]"

text \<open>A value stored in a field: a byte, 16 or 32 bits, or an array of bytes.\<close>

datatype cell = B8 u8 | B16 u16 | B32 u32 | BS "u8 list"

fun cell_bytes :: "cell \<Rightarrow> u8 list" where
  "cell_bytes (B8 b) = [b]"
| "cell_bytes (B16 h) = le16 h"
| "cell_bytes (B32 w) = le32 w"
| "cell_bytes (BS bs) = bs"

definition set_field :: "u32 \<Rightarrow> cell \<Rightarrow> memory \<Rightarrow> memory" where
  "set_field a c m = put m a (cell_bytes c)"

text \<open>A sequence of assignments to fields of the packet at \<open>p\<close>.\<close>

fun set_fields :: "u32 \<Rightarrow> (u32 \<times> cell) list \<Rightarrow> memory \<Rightarrow> memory" where
  "set_fields p [] m = m"
| "set_fields p ((f, c) # fs) m = set_fields p fs (set_field (p + f) c m)"

section \<open>Byte order\<close>

definition htons :: "u16 \<Rightarrow> u16" where
  "htons x = (0xff AND drop_bit 8 x) OR push_bit 8 (0xff AND x)"

definition ntohs :: "u16 \<Rightarrow> u16" where
  "ntohs x = (0xff AND drop_bit 8 x) OR push_bit 8 (0xff AND x)"

definition htonl :: "u32 \<Rightarrow> u32" where
  "htonl x = (drop_bit 24 x AND 0x000000ff) OR (drop_bit 8 x AND 0x0000ff00) OR
     (push_bit 8 x AND 0x00ff0000) OR (push_bit 24 x AND 0xff000000)"

definition ntohl :: "u32 \<Rightarrow> u32" where
  "ntohl x = (drop_bit 24 x AND 0x000000ff) OR (drop_bit 8 x AND 0x0000ff00) OR
     (push_bit 8 x AND 0x00ff0000) OR (push_bit 24 x AND 0xff000000)"

text \<open>A field replaced by its conversion.\<close>

definition conv16 :: "(u16 \<Rightarrow> u16) \<Rightarrow> u32 \<Rightarrow> memory \<Rightarrow> memory" where
  "conv16 f a m = set_field a (B16 (f (rd16 m a))) m"

definition conv32 :: "(u32 \<Rightarrow> u32) \<Rightarrow> u32 \<Rightarrow> memory \<Rightarrow> memory" where
  "conv32 f a m = set_field a (B32 (f (rd32 m a))) m"

definition eth_hton :: "u32 \<Rightarrow> memory \<Rightarrow> memory" where
  "eth_hton pkt m = conv16 htons (pkt + net_ethtype) m"

definition eth_ntoh :: "u32 \<Rightarrow> memory \<Rightarrow> memory" where
  "eth_ntoh pkt m = conv16 ntohs (pkt + net_ethtype) m"

definition ip_ntoh :: "u32 \<Rightarrow> memory \<Rightarrow> memory" where
  "ip_ntoh pkt m =
     (let m1 = conv16 ntohs (pkt + net_iplen) m;
          m2 = conv16 ntohs (pkt + net_ipid) m1;
          m3 = conv16 ntohs (pkt + net_ipfrag) m2;
          m4 = conv32 ntohl (pkt + net_ipsrc) m3
      in conv32 ntohl (pkt + net_ipdst) m4)"

definition ip_hton :: "u32 \<Rightarrow> memory \<Rightarrow> memory" where
  "ip_hton pkt m =
     (let m1 = conv16 htons (pkt + net_iplen) m;
          m2 = conv16 htons (pkt + net_ipid) m1;
          m3 = conv16 htons (pkt + net_ipfrag) m2;
          m4 = conv32 htonl (pkt + net_ipsrc) m3
      in conv32 htonl (pkt + net_ipdst) m4)"

definition udp_ntoh :: "u32 \<Rightarrow> memory \<Rightarrow> memory" where
  "udp_ntoh pkt m =
     (let m1 = conv16 ntohs (pkt + net_udpsport) m;
          m2 = conv16 ntohs (pkt + net_udpdport) m1
      in conv16 ntohs (pkt + net_udplen) m2)"

definition udp_hton :: "u32 \<Rightarrow> memory \<Rightarrow> memory" where
  "udp_hton pkt m =
     (let m1 = conv16 htons (pkt + net_udpsport) m;
          m2 = conv16 htons (pkt + net_udpdport) m1
      in conv16 htons (pkt + net_udplen) m2)"

definition icmp_hton :: "u32 \<Rightarrow> memory \<Rightarrow> memory" where
  "icmp_hton pkt m =
     (let m1 = conv16 htons (pkt + net_iccksum) m;
          m2 = conv16 htons (pkt + net_icident) m1
      in conv16 htons (pkt + net_icseq) m2)"

definition icmp_ntoh :: "u32 \<Rightarrow> memory \<Rightarrow> memory" where
  "icmp_ntoh pkt m =
     (let m1 = conv16 ntohs (pkt + net_iccksum) m;
          m2 = conv16 ntohs (pkt + net_icident) m1
      in conv16 ntohs (pkt + net_icseq) m2)"

definition arp_ntoh :: "u32 \<Rightarrow> memory \<Rightarrow> memory" where
  "arp_ntoh pkt m =
     (let m1 = conv16 ntohs (pkt + arp_htype) m;
          m2 = conv16 ntohs (pkt + arp_ptype) m1;
          m3 = conv16 ntohs (pkt + arp_op) m2;
          m4 = conv32 ntohl (pkt + arp_sndpa) m3
      in conv32 ntohl (pkt + arp_tarpa) m4)"

definition arp_hton :: "u32 \<Rightarrow> memory \<Rightarrow> memory" where
  "arp_hton pkt m =
     (let m1 = conv16 htons (pkt + arp_htype) m;
          m2 = conv16 htons (pkt + arp_ptype) m1;
          m3 = conv16 htons (pkt + arp_op) m2;
          m4 = conv32 htonl (pkt + arp_sndpa) m3
      in conv32 htonl (pkt + arp_tarpa) m4)"

section \<open>Checksums\<close>

text \<open>The sum of \<open>k\<close> 16-bit words from \<open>a\<close>, each converted to host order.\<close>

primrec cksum_loop :: "nat \<Rightarrow> memory \<Rightarrow> u32 \<Rightarrow> u32 \<Rightarrow> u32" where
  "cksum_loop 0 m a cksum = cksum"
| "cksum_loop (Suc k) m a cksum = cksum_loop k m (a + 2) (cksum + ucast (htons (rd16 m a)))"

definition ipcksum :: "memory \<Rightarrow> u32 \<Rightarrow> u16" where
  "ipcksum m pkt =
     (let c = cksum_loop 10 m (pkt + net_ipvh) 0;
          c1 = c + drop_bit 16 c;
          c2 = 0xffff AND NOT c1;
          c3 = (if c2 = 0xffff then 0 else c2)
      in ucast (0xffff AND c3))"

definition icmp_cksum :: "memory \<Rightarrow> u32 \<Rightarrow> int \<Rightarrow> u16" where
  "icmp_cksum m buf buflen =
     (let scount = drop_bit 1 buflen;
          c = cksum_loop (nat scount) m buf 0;
          c1 = (if buflen AND 0x01 \<noteq> 0
                then c + (0xffff AND push_bit 8 (ucast (m (buf + 2 * of_nat (nat scount))))) else c);
          c2 = c1 + drop_bit 16 c1;
          c3 = 0xffff AND NOT c2
      in ucast (0xffff AND c3))"

end
