(* ===== verification/Ethdev.thy ===== *)
theory Ethdev
  imports Netpkt Tty
begin

text \<open>
  The Ethernet driver, \<^verbatim>\<open>device/eth/\<close>, less the initialisation of the hardware: \<^verbatim>\<open>ethread\<close>,
  \<^verbatim>\<open>ethwrite\<close>, \<^verbatim>\<open>ethcontrol\<close> and the interrupt handler. The rings of descriptors
  (\<^verbatim>\<open>e1000e.h\<close>) and their buffers are in memory, where the device changes them between two kernel calls.
  \<open>ethregs\<close> holds what was last written to each register of the device; of the registers that the
  code reads, the ring tails are written by software only, and the interrupt cause is an argument.
\<close>

abbreviation (input) ETHER0 :: int where "ETHER0 \<equiv> 2"
abbreviation (input) ETH_MAX_PKT_LEN :: int where "ETH_MAX_PKT_LEN \<equiv> 1518"
abbreviation (input) ETH_BUF_SIZE :: int where "ETH_BUF_SIZE \<equiv> 2048"
abbreviation (input) E1000_RING_BOUNDARY :: u32 where "E1000_RING_BOUNDARY \<equiv> 16"
abbreviation (input) ADDR_BIT_MASK :: u32 where "ADDR_BIT_MASK \<equiv> 0xFFFFFF"
abbreviation (input) E1000_RDT0 :: u32 where "E1000_RDT0 \<equiv> 0x02818"
abbreviation (input) E1000_TDT0 :: u32 where "E1000_TDT0 \<equiv> 0x03818"
abbreviation (input) E1000_IMS :: u32 where "E1000_IMS \<equiv> 0x000D0"
abbreviation (input) E1000_IMC :: u32 where "E1000_IMC \<equiv> 0x000D8"
abbreviation (input) E1000_IMS_ENABLE_MASK :: u32 where "E1000_IMS_ENABLE_MASK \<equiv> 0x000000CD"
abbreviation (input) E1000_ICR_TXDW :: u32 where "E1000_ICR_TXDW \<equiv> 0x00000001"
abbreviation (input) E1000_ICR_RXT0 :: u32 where "E1000_ICR_RXT0 \<equiv> 0x00000080"
abbreviation (input) E1000_RXD_STAT_DD :: u8 where "E1000_RXD_STAT_DD \<equiv> 0x01"
abbreviation (input) E1000_TXD_STAT_DD :: u32 where "E1000_TXD_STAT_DD \<equiv> 0x00000001"
abbreviation (input) E1000_TXD_CMD :: u32 where "E1000_TXD_CMD \<equiv> 0x80000000 OR 0x08000000 OR 0x02000000 OR 0x01000000"

definition upd_net :: "(netst \<Rightarrow> netst) \<Rightarrow> kst \<Rightarrow> kst" where
  "upd_net f s = s\<lparr>net := f (net s)\<rparr>"

definition upd_eth :: "int \<Rightarrow> (ethcblk \<Rightarrow> ethcblk) \<Rightarrow> kst \<Rightarrow> kst" where
  "upd_eth i f = upd_net (\<lambda>n. n\<lparr>ethertab := (ethertab n)(i := f (ethertab n i))\<rparr>)"

abbreviation ethcb :: "kst \<Rightarrow> int \<Rightarrow> ethcblk" where
  "ethcb s i \<equiv> ethertab (net s) i"

section \<open>Registers and descriptors\<close>

definition eth_io_writel :: "int \<Rightarrow> u32 \<Rightarrow> u32 \<Rightarrow> kst \<Rightarrow> kst" where
  "eth_io_writel i reg val = upd_eth i (\<lambda>e. e\<lparr>ethregs := (ethregs e)(reg := val)\<rparr>)"

definition eth_io_readl :: "int \<Rightarrow> u32 \<Rightarrow> kst \<Rightarrow> u32" where
  "eth_io_readl i reg s = ethregs (ethcb s i) reg"

definition ethIrqDisable :: "int \<Rightarrow> kst \<Rightarrow> kst" where
  "ethIrqDisable i = eth_io_writel i E1000_IMC (NOT 0)"

definition ethIrqEnable :: "int \<Rightarrow> kst \<Rightarrow> kst" where
  "ethIrqEnable i = eth_io_writel i E1000_IMS E1000_IMS_ENABLE_MASK"

text \<open>Both kinds of descriptor are 16 bytes, with the address of the buffer in the first eight.\<close>

definition eth_desc :: "u32 \<Rightarrow> u32 \<Rightarrow> u32" where
  "eth_desc ring k = ring + 16 * k"

definition desc_buf :: "memory \<Rightarrow> u32 \<Rightarrow> u32" where
  "desc_buf m d = rd32 m d AND ADDR_BIT_MASK"

section \<open>The upper half\<close>

definition ethread :: "dentry \<Rightarrow> u32 \<Rightarrow> int \<Rightarrow> kst \<Rightarrow> (kst, int) kprog" where
  "ethread devptr buf len s =
     (let i = dvminor devptr in
      if estate (ethcb s i) \<noteq> ETH_STATE_UP \<or> len < ETH_HDR_LEN then Ret s SYSERR
      else kbind (wait (isem (ethcb s i)) s) (\<lambda>s1 _.
        let e = ethcb s1 i; m = kmem s1;
            d = eth_desc (rxRing e) (rxHead e);
            (m1, retval) =
              (if m (d + 12) AND E1000_RXD_STAT_DD = 0 then (m, SYSERR)
               else (fst (memcpy m buf (desc_buf m d) (uint (rd16 m (d + 8)))), uint (rd16 m (d + 8))));
            m2 = set_fields d [(8, B16 0), (10, B16 0), (12, B8 0), (13, B8 0), (14, B16 0)] m1;
            m3 = fst (memset m2 (desc_buf m2 d) 0 ETH_BUF_SIZE);
            s2 = set_kmem m3 s1;
            s3 = (if rxHead e mod E1000_RING_BOUNDARY = 0
                  then eth_io_writel i E1000_RDT0
                         ((eth_io_readl i E1000_RDT0 s2 + E1000_RING_BOUNDARY) mod rxRingSize e) s2
                  else s2);
            s4 = upd_eth i (\<lambda>e. e\<lparr>rxHead := (rxHead e + 1) mod rxRingSize e\<rparr>) s3
        in Ret s4 retval))"

text \<open>What is written is in memory, or a local variable of the caller.\<close>

datatype ebuf = InMem u32 | Local "u8 list"

fun copy_ebuf :: "u32 \<Rightarrow> ebuf \<Rightarrow> int \<Rightarrow> memory \<Rightarrow> memory" where
  "copy_ebuf dst (InMem a) len m = fst (memcpy m dst a len)"
| "copy_ebuf dst (Local bs) len m = put m dst (take (nat len) bs)"

definition ethwrite :: "dentry \<Rightarrow> ebuf \<Rightarrow> int \<Rightarrow> kst \<Rightarrow> (kst, int) kprog" where
  "ethwrite devptr buf len s =
     (let i = dvminor devptr in
      if estate (ethcb s i) \<noteq> ETH_STATE_UP \<or> len < ETH_HDR_LEN \<or> len > ETH_MAX_PKT_LEN then Ret s SYSERR
      else if len < 17 then Ret s SYSERR
      else kbind (wait (osem (ethcb s i)) s) (\<lambda>s1 _.
        let e = ethcb s1 i; m = kmem s1;
            d = eth_desc (txRing e) (txTail e);
            m1 = copy_ebuf (desc_buf m d) buf len m;
            m2 = set_fields d [(8, B32 (rd32 m1 (d + 8) AND 0x20000000)),
                   (8, B32 (E1000_TXD_CMD OR word_of_int len)), (12, B32 0)] m1;
            s2 = set_kmem m2 s1;
            s3 = eth_io_writel i E1000_TDT0 ((eth_io_readl i E1000_TDT0 s2 + 1) mod txRingSize e) s2;
            s4 = upd_eth i (\<lambda>e. e\<lparr>txTail := (txTail e + 1) mod txRingSize e\<rparr>) s3
        in Ret s4 len))"

text \<open>\<^verbatim>\<open>arg1\<close> is an address, \<^verbatim>\<open>arg2\<close> the number of a slot for an address.\<close>

definition E1000_RAL :: "int \<Rightarrow> u32" where
  "E1000_RAL k = (if k \<le> 15 then 0x05400 + word_of_int (k * 8) else 0x054E0 + word_of_int ((k - 16) * 8))"

definition E1000_RAH :: "int \<Rightarrow> u32" where
  "E1000_RAH k = (if k \<le> 15 then 0x05404 + word_of_int (k * 8) else 0x054E4 + word_of_int ((k - 16) * 8))"

definition ethcontrol :: "dentry \<Rightarrow> int \<Rightarrow> u32 \<Rightarrow> int \<Rightarrow> kst \<Rightarrow> kst \<times> int" where
  "ethcontrol devptr func arg1 arg2 s =
     (let i = dvminor devptr in
      if func = 1 then (set_kmem (put (kmem s) arg1 (devAddress (ethcb s i))) s, OK)
      else if func = 2 then
        (let rar_low = rd32 (kmem s) arg1;
             rar_high = ucast (rd16 (kmem s) (arg1 + 4)) :: u32;
             rar_high = (if rar_low \<noteq> 0 \<or> rar_high \<noteq> 0 then rar_high OR 0x80000000 else rar_high)
         in (eth_io_writel i (E1000_RAH arg2) rar_high (eth_io_writel i (E1000_RAL arg2) rar_low s), OK))
      else (s, SYSERR))"

section \<open>The interrupt handler\<close>

text \<open>The loops: \<open>k\<close> descriptors are left to look at, \<open>n\<close> were found.\<close>

primrec eth_rx_loop :: "nat \<Rightarrow> int \<Rightarrow> int \<Rightarrow> kst \<Rightarrow> kst \<times> int" where
  "eth_rx_loop 0 n i s = (s, n)"
| "eth_rx_loop (Suc k) n i s =
     (let e = ethcb s i; d = eth_desc (rxRing e) (rxTail e) in
      if kmem s (d + 12) = 0 then (s, n)
      else eth_rx_loop k (n + 1) i (upd_eth i (\<lambda>e. e\<lparr>rxTail := (rxTail e + 1) mod rxRingSize e\<rparr>) s))"

definition eth_rxPackets :: "int \<Rightarrow> kst \<Rightarrow> (kst, unit) kprog" where
  "eth_rxPackets i s =
     (let (s1, numdesc) = eth_rx_loop (unat (rxRingSize (ethcb s i))) 0 i s
      in kbind (signaln (isem (ethcb s1 i)) numdesc s1) (\<lambda>s2 _. Ret s2 ()))"

primrec eth_tx_loop :: "nat \<Rightarrow> int \<Rightarrow> int \<Rightarrow> kst \<Rightarrow> kst \<times> int" where
  "eth_tx_loop 0 n i s = (s, n)"
| "eth_tx_loop (Suc k) n i s =
     (let e = ethcb s i; d = eth_desc (txRing e) (txHead e); m = kmem s in
      if rd32 m (d + 12) AND E1000_TXD_STAT_DD = 0 then (s, n)
      else let m1 = set_fields d [(8, B32 0), (12, B32 0)] m;
               m2 = fst (memset m1 (desc_buf m1 d) 0 ETH_BUF_SIZE);
               s1 = set_kmem m2 s
           in eth_tx_loop k (n + 1) i (upd_eth i (\<lambda>e. e\<lparr>txHead := (txHead e + 1) mod txRingSize e\<rparr>) s1))"

definition eth_txPackets :: "int \<Rightarrow> kst \<Rightarrow> (kst, unit) kprog" where
  "eth_txPackets i s =
     (let (s1, numdesc) = eth_tx_loop (unat (txRingSize (ethcb s i))) 0 i s
      in kbind (signaln (osem (ethcb s1 i)) numdesc s1) (\<lambda>s2 _. Ret s2 ()))"

text \<open>\<open>status\<close> is what the interrupt cause register says.\<close>

definition ethhandler :: "u32 \<Rightarrow> kst \<Rightarrow> (kst, unit) kprog" where
  "ethhandler status s =
     (let i = dvminor (dentry_of ETHER0); s1 = ethIrqDisable i s in
      if status = 0 then Ret (ethIrqEnable i s1) ()
      else kbind (resched_cntl DEFER_START s1) (\<lambda>s2 _.
           kbind (if status AND E1000_ICR_RXT0 \<noteq> 0
                  then eth_rxPackets i (upd_eth i (\<lambda>e. e\<lparr>rxIrq := rxIrq e + 1\<rparr>) s2) else Ret s2 ()) (\<lambda>s3 _.
           kbind (if status AND E1000_ICR_TXDW \<noteq> 0
                  then eth_txPackets i (upd_eth i (\<lambda>e. e\<lparr>txIrq := txIrq e + 1\<rparr>) s3) else Ret s3 ()) (\<lambda>s4 _.
           kbind (resched_cntl DEFER_STOP (ethIrqEnable i s4)) (\<lambda>s5 _. Ret s5 ())))))"

section \<open>The driver and the scheduler\<close>

lemma sched_part_net [simp]: "sched_part (upd_net f s) = sched_part s"
  by (simp add: sched_part_def upd_net_def)

lemma sched_part_eth [simp]:
  "sched_part (upd_eth i g s) = sched_part s" "sched_part (eth_io_writel i r v s) = sched_part s"
  "sched_part (ethIrqEnable i s) = sched_part s" "sched_part (ethIrqDisable i s) = sched_part s"
  by (simp_all add: upd_eth_def eth_io_writel_def ethIrqEnable_def ethIrqDisable_def)

lemma sched_part_loops [simp]:
  "sched_part (fst (eth_rx_loop k n i s)) = sched_part s" "sched_part (fst (eth_tx_loop k n i s)) = sched_part s"
  by (induction k arbitrary: n s) (simp_all add: Let_def)

lemma mine_net [simp]:
  "mine F p (upd_net f s) = mine F p s" "mine F p (upd_eth i g s) = mine F p s" "mine F p (set_kmem m s) = mine F p s"
  "mine F p (eth_io_writel i r v s) = mine F p s" "mine F p (ethIrqEnable i s) = mine F p s"
  "mine F p (ethIrqDisable i s) = mine F p s"
  by (rule iffI; erule mine_cong [rotated]; simp)+

lemma held_net [simp]:
  "held F p n (upd_net f s) = held F p n s" "held F p n (upd_eth i g s) = held F p n s" "held F p n (set_kmem m s) = held F p n s"
  "held F p n (ethIrqEnable i s) = held F p n s"
  "held F p n (fst (eth_rx_loop k c i s)) = held F p n s" "held F p n (fst (eth_tx_loop k c i s)) = held F p n s"
  by (rule iffI; erule held_cong [rotated]; simp)+

lemma ethread_safe: "mine F p s \<Longrightarrow> p \<noteq> NULLPROC \<Longrightarrow> ksafe F p (ethread e a n s)"
  by (auto simp: ethread_def Let_def split_beta intro!: ksafe_bind wait_safe)

lemma ethwrite_safe: "mine F p s \<Longrightarrow> p \<noteq> NULLPROC \<Longrightarrow> ksafe F p (ethwrite e b n s)"
  by (auto simp: ethwrite_def Let_def intro!: ksafe_bind wait_safe)

lemma held_packets:
  "held F p 1 s \<Longrightarrow> kheld F p 1 (eth_rxPackets i s)" "held F p 1 s \<Longrightarrow> kheld F p 1 (eth_txPackets i s)"
  by (auto simp: eth_rxPackets_def eth_txPackets_def Let_def split_beta intro!: kheld_bind held_signaln)

lemma ethhandler_safe:
  assumes m: "mine F p s"
  shows "ksafe F p (ethhandler status s)"
proof -
  let ?i = "dvminor (dentry_of ETHER0)"
  let ?c = "\<lambda>s2. kbind (if status AND E1000_ICR_RXT0 \<noteq> 0
        then eth_rxPackets ?i (upd_eth ?i (\<lambda>e. e\<lparr>rxIrq := rxIrq e + 1\<rparr>) s2) else Ret s2 ()) (\<lambda>s3 _.
      if status AND E1000_ICR_TXDW \<noteq> 0
        then eth_txPackets ?i (upd_eth ?i (\<lambda>e. e\<lparr>txIrq := txIrq e + 1\<rparr>) s3) else Ret s3 ())"
  have "kheld F p 1 (?c s1)" if "held F p 1 s1" for s1
    using that by (auto intro!: kheld_bind held_packets)
  then have "ksafe F p (kbind (resched_cntl DEFER_START (ethIrqDisable ?i s)) (\<lambda>s1 _. kbind (?c s1) (\<lambda>s2 _.
      kbind (resched_cntl DEFER_STOP (ethIrqEnable ?i s2)) (\<lambda>s3 _. Ret s3 ()))))"
    using m by (intro deferred_safe) simp_all
  then show ?thesis using m by (simp add: ethhandler_def Let_def kbind_assoc)
qed

end
