(* ===== verification/Netstack.thy ===== *)
theory Netstack
  imports Ethdev Msgs Bufpool
begin

text \<open>
  The network stack, \<^verbatim>\<open>net/\<close>: \<^verbatim>\<open>udp.c\<close>, \<^verbatim>\<open>icmp.c\<close>, \<^verbatim>\<open>arp.c\<close>, \<^verbatim>\<open>ip.c\<close> and
  \<^verbatim>\<open>net.c\<close>, in the order in which the routines call each other. The endless loops of the processes
  \<^verbatim>\<open>ipout\<close> and \<^verbatim>\<open>netin\<close> are given by one round each. A queued packet is the address of its buffer.
\<close>

abbreviation (input) UDP_SLOTS :: int where "UDP_SLOTS \<equiv> 6"
abbreviation (input) UDP_QSIZ :: int where "UDP_QSIZ \<equiv> 8"
abbreviation (input) ICMP_SLOTS :: int where "ICMP_SLOTS \<equiv> 10"
abbreviation (input) ICMP_QSIZ :: int where "ICMP_QSIZ \<equiv> 8"
abbreviation (input) ICMP_ECHOREPLY :: u8 where "ICMP_ECHOREPLY \<equiv> 0"
abbreviation (input) ICMP_ECHOREQST :: u8 where "ICMP_ECHOREQST \<equiv> 8"
abbreviation (input) ARP_SIZ :: int where "ARP_SIZ \<equiv> 16"
abbreviation (input) ARP_RETRY :: nat where "ARP_RETRY \<equiv> 3"
abbreviation (input) ARP_TIMEOUT :: int where "ARP_TIMEOUT \<equiv> 300"
abbreviation (input) ARP_HALEN :: nat where "ARP_HALEN \<equiv> 6"
abbreviation (input) ARP_OP_REQ :: u16 where "ARP_OP_REQ \<equiv> 1"
abbreviation (input) ARP_OP_RPLY :: u16 where "ARP_OP_RPLY \<equiv> 2"
abbreviation (input) IP_OQSIZ :: int where "IP_OQSIZ \<equiv> 8"

definition upd_udp :: "int \<Rightarrow> (udpentry \<Rightarrow> udpentry) \<Rightarrow> kst \<Rightarrow> kst" where
  "upd_udp i f = upd_net (\<lambda>n. n\<lparr>udptab := (udptab n)(i := f (udptab n i))\<rparr>)"

definition upd_icmp :: "int \<Rightarrow> (icmpentry \<Rightarrow> icmpentry) \<Rightarrow> kst \<Rightarrow> kst" where
  "upd_icmp i f = upd_net (\<lambda>n. n\<lparr>icmptab := (icmptab n)(i := f (icmptab n i))\<rparr>)"

definition upd_arp :: "int \<Rightarrow> (arpentry \<Rightarrow> arpentry) \<Rightarrow> kst \<Rightarrow> kst" where
  "upd_arp i f = upd_net (\<lambda>n. n\<lparr>arpcache := (arpcache n)(i := f (arpcache n i))\<rparr>)"

definition upd_ipq :: "(iqentry \<Rightarrow> iqentry) \<Rightarrow> kst \<Rightarrow> kst" where
  "upd_ipq f = upd_net (\<lambda>n. n\<lparr>ipoqueue := f (ipoqueue n)\<rparr>)"

abbreviation udpe :: "kst \<Rightarrow> int \<Rightarrow> udpentry" where "udpe s i \<equiv> udptab (net s) i"
abbreviation icmpe :: "kst \<Rightarrow> int \<Rightarrow> icmpentry" where "icmpe s i \<equiv> icmptab (net s) i"
abbreviation arpe :: "kst \<Rightarrow> int \<Rightarrow> arpentry" where "arpe s i \<equiv> arpcache (net s) i"
abbreviation netdata :: "kst \<Rightarrow> network" where "netdata s \<equiv> NetData (net s)"

text \<open>A call whose result is not used.\<close>

definition discard :: "(kst, 'a) kprog \<Rightarrow> (kst, unit) kprog" where
  "discard c = kbind c (\<lambda>s _. Ret s ())"

section \<open>UDP: the input side\<close>

definition udp_init :: "kst \<Rightarrow> kst" where
  "udp_init = upd_net (\<lambda>n. n\<lparr>udptab := (\<lambda>i. if 0 \<le> i \<and> i < UDP_SLOTS then (udptab n i)\<lparr>udstate := UDP_FREE\<rparr> else udptab n i)\<rparr>)"

definition udp_match :: "memory \<Rightarrow> u32 \<Rightarrow> udpentry \<Rightarrow> bool" where
  "udp_match m pkt e \<longleftrightarrow> rd16 m (pkt + net_udpdport) = udlocport e
     \<and> (udremport e = 0 \<or> rd16 m (pkt + net_udpsport) = udremport e)
     \<and> (udremip e = 0 \<or> rd32 m (pkt + net_ipsrc) = udremip e)"

text \<open>The loop of \<^verbatim>\<open>udp_in\<close> goes on until an entry matches and its queue has room.\<close>

definition udp_takes :: "kst \<Rightarrow> u32 \<Rightarrow> int \<Rightarrow> bool" where
  "udp_takes s pkt i \<longleftrightarrow> udstate (udpe s i) \<noteq> UDP_FREE \<and> udp_match (kmem s) pkt (udpe s i) \<and> udcount (udpe s i) < UDP_QSIZ"

definition udp_enq :: "u32 \<Rightarrow> udpentry \<Rightarrow> udpentry" where
  "udp_enq pkt e =
     (let e1 = e\<lparr>udtail := udtail e + 1, udcount := udcount e + 1, udqueue := (udqueue e)(udtail e := pkt)\<rparr>
      in if udtail e1 \<ge> UDP_QSIZ then e1\<lparr>udtail := 0\<rparr> else e1)"

definition udp_in :: "u32 \<Rightarrow> kst \<Rightarrow> (kst, unit) kprog" where
  "udp_in pkt s =
     (case List.find (udp_takes s pkt) [0..UDP_SLOTS - 1] of
        None \<Rightarrow> discard (freebuf pkt s)
      | Some i \<Rightarrow>
          (let s1 = upd_udp i (udp_enq pkt) s in
           if udstate (udpe s1 i) = UDP_RECV then
             discard (send (udpid (udpe s1 i)) (word_of_int OK) (upd_udp i (\<lambda>e. e\<lparr>udstate := UDP_USED\<rparr>) s1))
           else Ret s1 ()))"

definition udp_register :: "u32 \<Rightarrow> u16 \<Rightarrow> u16 \<Rightarrow> kst \<Rightarrow> kst \<times> int" where
  "udp_register remip remport locport s =
     (if List.find (\<lambda>slot. udstate (udpe s slot) \<noteq> UDP_FREE \<and> remport = udremport (udpe s slot)
           \<and> locport = udlocport (udpe s slot) \<and> remip = udremip (udpe s slot)) [0..UDP_SLOTS - 1] \<noteq> None then (s, SYSERR)
      else case List.find (\<lambda>slot. udstate (udpe s slot) = UDP_FREE) [0..UDP_SLOTS - 1] of
        None \<Rightarrow> (s, SYSERR)
      | Some slot \<Rightarrow>
          (upd_udp slot (\<lambda>e. e\<lparr>udstate := UDP_USED, udremip := remip, udremport := remport, udlocport := locport,
             udhead := 0, udtail := 0, udcount := 0, udpid := - 1\<rparr>) s, slot))"

text \<open>\<^verbatim>\<open>udp_recv\<close> and \<^verbatim>\<open>udp_recvaddr\<close>: the wait for a packet, which gives \<open>OK\<close> when one is there.\<close>

definition udp_await :: "int \<Rightarrow> u32 \<Rightarrow> kst \<Rightarrow> (kst, int) kprog" where
  "udp_await slot timeout s =
     (if udcount (udpe s slot) = 0 then
        (let s1 = upd_udp slot (\<lambda>e. e\<lparr>udstate := UDP_RECV, udpid := currpid s\<rparr>) s;
             (s2, _) = recvclr s1
         in kbind (recvtime (sint timeout) s2) (\<lambda>s3 msg.
              let s4 = upd_udp slot (\<lambda>e. e\<lparr>udstate := UDP_USED\<rparr>) s3 in
              if msg = word_of_int TIMEOUT then Ret s4 TIMEOUT
              else if msg \<noteq> word_of_int OK then Ret s4 SYSERR
              else Ret s4 OK))
      else Ret s OK)"

definition udp_deq :: "udpentry \<Rightarrow> udpentry" where
  "udp_deq e =
     (let e1 = e\<lparr>udhead := udhead e + 1\<rparr>; e2 = (if udhead e1 \<ge> UDP_QSIZ then e1\<lparr>udhead := 0\<rparr> else e1)
      in e2\<lparr>udcount := udcount e2 - 1\<rparr>)"

definition udp_head :: "udpentry \<Rightarrow> u32" where
  "udp_head e = udqueue e (udhead e)"

text \<open>The copy of the data into the caller's buffer, with the number of bytes.\<close>

definition udp_copy :: "u32 \<Rightarrow> u32 \<Rightarrow> int \<Rightarrow> memory \<Rightarrow> memory \<times> int" where
  "udp_copy pkt buff len m =
     (let msglen = uint (rd16 m (pkt + net_udplen)) - UDP_HDR_LEN; msglen = (if len < msglen then len else msglen)
      in (memcpy_loop (nat msglen) m buff (pkt + net_udpdata), msglen))"

definition udp_recv :: "int \<Rightarrow> u32 \<Rightarrow> int \<Rightarrow> u32 \<Rightarrow> kst \<Rightarrow> (kst, int) kprog" where
  "udp_recv slot buff len timeout s =
     (if slot < 0 \<or> slot \<ge> UDP_SLOTS then Ret s SYSERR
      else if udstate (udpe s slot) \<noteq> UDP_USED then Ret s SYSERR
      else kbind (udp_await slot timeout s) (\<lambda>s1 r.
        if r \<noteq> OK then Ret s1 r
        else let pkt = udp_head (udpe s1 slot); s2 = upd_udp slot udp_deq s1;
                 (m, msglen) = udp_copy pkt buff len (kmem s2)
             in kbind (freebuf pkt (set_kmem m s2)) (\<lambda>s3 _. Ret s3 msglen)))"

definition udp_recvaddr :: "int \<Rightarrow> u32 \<Rightarrow> u32 \<Rightarrow> u32 \<Rightarrow> int \<Rightarrow> u32 \<Rightarrow> kst \<Rightarrow> (kst, int) kprog" where
  "udp_recvaddr slot remip remport buff len timeout s =
     (if slot < 0 \<or> slot \<ge> UDP_SLOTS then Ret s SYSERR
      else if udstate (udpe s slot) \<noteq> UDP_USED then Ret s SYSERR
      else kbind (udp_await slot timeout s) (\<lambda>s1 r.
        if r \<noteq> OK then Ret s1 r
        else let pkt = udp_head (udpe s1 slot); s2 = upd_udp slot udp_deq s1;
                 m1 = set_field remip (B32 (rd32 (kmem s2) (pkt + net_ipsrc))) (kmem s2);
                 m2 = set_field remport (B16 (rd16 m1 (pkt + net_udpsport))) m1;
                 (m, msglen) = udp_copy pkt buff len m2
             in kbind (freebuf pkt (set_kmem m s2)) (\<lambda>s3 _. Ret s3 msglen)))"

text \<open>The loop of \<^verbatim>\<open>udp_release\<close>, one round for each packet of the queue.\<close>

primrec udp_drain :: "nat \<Rightarrow> int \<Rightarrow> kst \<Rightarrow> (kst, unit) kprog" where
  "udp_drain 0 slot s = Ret s ()"
| "udp_drain (Suc k) slot s =
     (let pkt = udp_head (udpe s slot);
          s1 = upd_udp slot (\<lambda>e. if udhead e + 1 \<ge> UDP_QSIZ then e\<lparr>udhead := 0\<rparr> else e\<lparr>udhead := udhead e + 1\<rparr>) s
      in kbind (freebuf pkt s1) (\<lambda>s2 _. udp_drain k slot (upd_udp slot (\<lambda>e. e\<lparr>udcount := udcount e - 1\<rparr>) s2)))"

definition udp_release :: "int \<Rightarrow> kst \<Rightarrow> (kst, int) kprog" where
  "udp_release slot s =
     (if slot < 0 \<or> slot \<ge> UDP_SLOTS then Ret s SYSERR
      else if udstate (udpe s slot) = UDP_FREE then Ret s SYSERR
      else kbind (resched_cntl DEFER_START s) (\<lambda>s1 _.
           kbind (udp_drain (nat (udcount (udpe s1 slot))) slot s1) (\<lambda>s2 _.
           kbind (resched_cntl DEFER_STOP (upd_udp slot (\<lambda>e. e\<lparr>udstate := UDP_FREE\<rparr>) s2)) (\<lambda>s3 _. Ret s3 OK))))"

section \<open>ICMP: the input side\<close>

definition icmp_init :: "kst \<Rightarrow> kst" where
  "icmp_init = upd_net (\<lambda>n. n\<lparr>icmptab := (\<lambda>i. if 0 \<le> i \<and> i < ICMP_SLOTS then (icmptab n i)\<lparr>icstate := ICMP_FREE\<rparr> else icmptab n i)\<rparr>)"

definition icmp_mkpkt :: "u32 \<Rightarrow> u16 \<Rightarrow> u16 \<Rightarrow> u16 \<Rightarrow> u32 \<Rightarrow> int \<Rightarrow> kst \<Rightarrow> (kst, u32) kprog" where
  "icmp_mkpkt remip type ident seq buf len s =
     kbind (getbuf (netbufpool (net s)) s) (\<lambda>s1 pkt.
       if pkt = PSYSERR then Stop (Panicked ''icmp_mkpkt: cannot get a network buffer'') s1
       else let nd = netdata s1;
                m1 = set_fields pkt
                  [(net_ethsrc, BS (ethucast nd)), (net_ethtype, B16 0x800), (net_ipvh, B8 0x45), (net_iptos, B8 0),
                   (net_iplen, B16 (word_of_int (IP_HDR_LEN + ICMP_HDR_LEN + len))), (net_ipid, B16 (ucast (ipident (net s1)))),
                   (net_ipfrag, B16 0), (net_ipttl, B8 0xff), (net_ipproto, B8 IP_ICMP), (net_ipcksum, B16 0),
                   (net_ipsrc, B32 (ipucast nd)), (net_ipdst, B32 remip), (net_ictype, B8 (ucast type)), (net_iccode, B8 0),
                   (net_iccksum, B16 0), (net_icident, B16 ident), (net_icseq, B16 seq)] (kmem s1);
                s2 = upd_net (\<lambda>n. n\<lparr>ipident := ipident n + 1\<rparr>) s1
            in Ret (set_kmem (fst (memcpy m1 (pkt + net_icdata) buf len)) s2) pkt)"

definition iq_enq :: "u32 \<Rightarrow> iqentry \<Rightarrow> iqentry" where
  "iq_enq pkt q =
     (let q1 = q\<lparr>iqtail := iqtail q + 1, iqbuf := (iqbuf q)(iqtail q := pkt)\<rparr>
      in if iqtail q1 \<ge> IP_OQSIZ then q1\<lparr>iqtail := 0\<rparr> else q1)"

definition ip_enqueue :: "u32 \<Rightarrow> kst \<Rightarrow> (kst, int) kprog" where
  "ip_enqueue pkt s =
     (if semcount (iqsem (ipoqueue (net s))) s \<ge> IP_OQSIZ then kbind (freebuf pkt s) (\<lambda>s1 _. Ret s1 SYSERR)
      else let s1 = upd_ipq (iq_enq pkt) s
           in kbind (signal (iqsem (ipoqueue (net s1))) s1) (\<lambda>s2 _. Ret s2 OK))"

definition icmp_enq :: "u32 \<Rightarrow> icmpentry \<Rightarrow> icmpentry" where
  "icmp_enq pkt e =
     (let e1 = e\<lparr>ictail := ictail e + 1, iccount := iccount e + 1, icqueue := (icqueue e)(ictail e := pkt)\<rparr>
      in if ictail e1 \<ge> ICMP_QSIZ then e1\<lparr>ictail := 0\<rparr> else e1)"

definition icmp_in :: "u32 \<Rightarrow> kst \<Rightarrow> (kst, unit) kprog" where
  "icmp_in pkt s =
     (let m = kmem s; type = m (pkt + net_ictype) in
      if type \<noteq> ICMP_ECHOREPLY \<and> type \<noteq> ICMP_ECHOREQST then discard (freebuf pkt s)
      else if type = ICMP_ECHOREQST then
        kbind (icmp_mkpkt (rd32 m (pkt + net_ipsrc)) (ucast ICMP_ECHOREPLY) (rd16 m (pkt + net_icident)) (rd16 m (pkt + net_icseq))
            (pkt + net_icdata) (uint (rd16 m (pkt + net_iplen)) - IP_HDR_LEN - ICMP_HDR_LEN) s) (\<lambda>s1 replypkt.
        kbind (if replypkt \<noteq> PSYSERR then discard (ip_enqueue replypkt s1) else Ret s1 ()) (\<lambda>s2 _. discard (freebuf pkt s2)))
      else
        (let slot = uint (rd16 m (pkt + net_icident)); src = rd32 m (pkt + net_ipsrc) in
         if slot < 0 \<or> slot \<ge> ICMP_SLOTS then discard (freebuf pkt s)
         else if icstate (icmpe s slot) = ICMP_FREE then discard (freebuf pkt s)
         else if src \<noteq> icremip (icmpe s slot) \<and> src \<noteq> ipucast (netdata s) \<and> src AND 0x7f000000 \<noteq> 0x7f000000
         then discard (freebuf pkt s)
         else let s1 = upd_icmp slot (icmp_enq pkt) s in
           if icstate (icmpe s1 slot) = ICMP_RECV then
             discard (send (icpid (icmpe s1 slot)) (word_of_int OK) (upd_icmp slot (\<lambda>e. e\<lparr>icstate := ICMP_USED\<rparr>) s1))
           else Ret s1 ()))"

definition icmp_register :: "u32 \<Rightarrow> kst \<Rightarrow> kst \<times> int" where
  "icmp_register remip s =
     (if List.find (\<lambda>i. icstate (icmpe s i) \<noteq> ICMP_FREE \<and> icremip (icmpe s i) = remip) [0..ICMP_SLOTS - 1] \<noteq> None then (s, SYSERR)
      else case List.find (\<lambda>i. icstate (icmpe s i) = ICMP_FREE) [0..ICMP_SLOTS - 1] of
        None \<Rightarrow> (s, SYSERR)
      | Some i \<Rightarrow> (upd_icmp i (\<lambda>e. e\<lparr>icstate := ICMP_USED, icremip := remip, ichead := 0, ictail := 0, iccount := 0,
                     icpid := - 1\<rparr>) s, i))"

text \<open>The head of the queue wraps at the number of endpoints, which is larger than the queue.\<close>

definition icmp_pop :: "int \<Rightarrow> kst \<Rightarrow> (kst, u32) kprog" where
  "icmp_pop i s =
     (let e = icmpe s i in
      if ichead e \<ge> ICMP_QSIZ then Stop Undefined s
      else Ret (upd_icmp i (\<lambda>e. if ichead e + 1 \<ge> ICMP_SLOTS then e\<lparr>ichead := 0\<rparr> else e\<lparr>ichead := ichead e + 1\<rparr>) s)
             (icqueue e (ichead e)))"

definition icmp_recv :: "int \<Rightarrow> u32 \<Rightarrow> int \<Rightarrow> u32 \<Rightarrow> kst \<Rightarrow> (kst, int) kprog" where
  "icmp_recv icmpid buff len timeout s =
     (if icmpid < 0 \<or> icmpid \<ge> ICMP_SLOTS then Ret s SYSERR
      else if icstate (icmpe s icmpid) \<noteq> ICMP_USED then Ret s SYSERR
      else kbind
        (if iccount (icmpe s icmpid) = 0 then
           (let s1 = upd_icmp icmpid (\<lambda>e. e\<lparr>icstate := ICMP_RECV, icpid := currpid s\<rparr>) s;
                (s2, _) = recvclr s1
            in kbind (recvtime (sint timeout) s2) (\<lambda>s3 msg.
                 let s4 = upd_icmp icmpid (\<lambda>e. e\<lparr>icstate := ICMP_USED\<rparr>) s3 in
                 if msg = word_of_int TIMEOUT then Ret s4 TIMEOUT
                 else if msg \<noteq> word_of_int OK then Ret s4 SYSERR
                 else Ret s4 OK))
         else Ret s OK) (\<lambda>s1 r.
        if r \<noteq> OK then Ret s1 r
        else kbind (icmp_pop icmpid s1) (\<lambda>s2 pkt.
          let s3 = upd_icmp icmpid (\<lambda>e. e\<lparr>iccount := iccount e - 1\<rparr>) s2; m = kmem s3;
              datalen = uint (rd16 m (pkt + net_iplen)) - IP_HDR_LEN - ICMP_HDR_LEN;
              n = (if 0 < datalen \<and> 0 < len then min datalen len else 0)
          in kbind (freebuf pkt (set_kmem (memcpy_loop (nat n) m buff (pkt + net_icdata)) s3)) (\<lambda>s4 _. Ret s4 n))))"

primrec icmp_drain :: "nat \<Rightarrow> int \<Rightarrow> kst \<Rightarrow> (kst, unit) kprog" where
  "icmp_drain 0 i s = Ret s ()"
| "icmp_drain (Suc k) i s =
     kbind (icmp_pop i s) (\<lambda>s1 pkt. kbind (freebuf pkt s1) (\<lambda>s2 _.
       icmp_drain k i (upd_icmp i (\<lambda>e. e\<lparr>iccount := iccount e - 1\<rparr>) s2)))"

definition icmp_release :: "int \<Rightarrow> kst \<Rightarrow> (kst, int) kprog" where
  "icmp_release icmpid s =
     (if icmpid < 0 \<or> icmpid \<ge> ICMP_SLOTS then Ret s SYSERR
      else if icstate (icmpe s icmpid) \<noteq> ICMP_USED then Ret s SYSERR
      else kbind (resched_cntl DEFER_START s) (\<lambda>s1 _.
           kbind (icmp_drain (nat (iccount (icmpe s1 icmpid))) icmpid s1) (\<lambda>s2 _.
           kbind (resched_cntl DEFER_STOP (upd_icmp icmpid (\<lambda>e. e\<lparr>icstate := ICMP_FREE\<rparr>) s2)) (\<lambda>s3 _. Ret s3 OK))))"

end
