(* ===== verification/Ipstack.thy ===== *)
theory Ipstack
  imports Netstack Procs
begin

text \<open>
  The rest of \<^verbatim>\<open>net/\<close>: delivery and transmission of datagrams (\<^verbatim>\<open>ip.c\<close>), address resolution
  (\<^verbatim>\<open>arp.c\<close>), the output side of UDP and ICMP, and the two processes.
\<close>

section \<open>Delivery and transmission\<close>

definition ip_local :: "u32 \<Rightarrow> kst \<Rightarrow> (kst, unit) kprog" where
  "ip_local pkt s =
     (let proto = kmem s (pkt + net_ipproto) in
      if proto = IP_UDP then udp_in pkt s
      else if proto = IP_ICMP then icmp_in pkt s
      else discard (freebuf pkt s))"

text \<open>What \<^verbatim>\<open>ip_out\<close> does to the packet before it is written: byte order and checksums.\<close>

definition ip_out_proto :: "u32 \<Rightarrow> memory \<Rightarrow> memory" where
  "ip_out_proto pkt m =
     (let proto = m (pkt + net_ipproto) in
      if proto = IP_UDP then udp_hton pkt (set_field (pkt + net_udpcksum) (B16 0) m)
      else if proto = IP_ICMP then
        (let m1 = set_field (pkt + net_iccksum) (B16 0) (icmp_hton pkt m);
             len = uint (rd16 m1 (pkt + net_iplen)) - IP_HDR_LEN;
             cksum = icmp_cksum m1 (pkt + net_ictype) len
         in set_field (pkt + net_iccksum) (B16 (0xffff AND htons cksum)) m1)
      else m)"

definition ip_out_pack :: "u32 \<Rightarrow> memory \<Rightarrow> memory" where
  "ip_out_pack pkt m =
     (let m1 = ip_hton pkt (ip_out_proto pkt m);
          m2 = set_field (pkt + net_ipcksum) (B16 0) m1;
          m3 = set_field (pkt + net_ipcksum) (B16 (0xffff AND htons (ipcksum m2 pkt))) m2
      in eth_hton pkt m3)"

definition ip_out :: "u32 \<Rightarrow> kst \<Rightarrow> (kst, int) kprog" where
  "ip_out pkt s =
     (let pktlen = uint (rd16 (kmem s) (pkt + net_iplen)) + ETH_HDR_LEN;
          s1 = set_kmem (ip_out_pack pkt (kmem s)) s
      in kbind (ethwrite (dentry_of ETHER0) (InMem pkt) pktlen s1) (\<lambda>s2 retval.
         kbind (freebuf pkt s2) (\<lambda>s3 _. Ret s3 (if retval = SYSERR then SYSERR else OK))))"

section \<open>ARP\<close>

text \<open>The loop starts at 1.\<close>

definition arp_init :: "kst \<Rightarrow> kst" where
  "arp_init = upd_net (\<lambda>n. n\<lparr>arpcache := (\<lambda>i. if 1 \<le> i \<and> i < ARP_SIZ then (arpcache n i)\<lparr>arstate := AR_FREE\<rparr> else arpcache n i)\<rparr>)"

text \<open>An entry of zero bytes.\<close>

definition arp_zero :: "arpentry \<Rightarrow> arpentry" where
  "arp_zero e = e\<lparr>arstate := AR_FREE, arpaddr := 0, arpid := 0, arhaddr := replicate ARP_HALEN 0\<rparr>"

definition arp_alloc :: "kst \<Rightarrow> kst \<times> int" where
  "arp_alloc s =
     (case List.find (\<lambda>slot. arstate (arpe s slot) = AR_FREE) [0..ARP_SIZ - 1] of
        Some slot \<Rightarrow> (upd_arp slot arp_zero s, slot)
      | None \<Rightarrow>
          (case List.find (\<lambda>slot. arstate (arpe s slot) = AR_RESOLVED) [0..ARP_SIZ - 1] of
             Some slot \<Rightarrow> (upd_arp slot arp_zero s, slot)
           | None \<Rightarrow> (s, SYSERR)))"

definition arp_lookup :: "kst \<Rightarrow> u32 \<Rightarrow> int option" where
  "arp_lookup s addr = List.find (\<lambda>i. arstate (arpe s i) \<noteq> AR_FREE \<and> arpaddr (arpe s i) = addr) [0..ARP_SIZ - 1]"

text \<open>The bytes of an ARP packet for Ethernet and IP, a local variable of the routines.\<close>

definition arp_packet :: "u8 list \<Rightarrow> u8 list \<Rightarrow> u16 \<Rightarrow> u8 list \<Rightarrow> u32 \<Rightarrow> u8 list \<Rightarrow> u32 \<Rightarrow> u8 list" where
  "arp_packet ethdst ethsrc op sndha sndpa tarha tarpa =
     (let apkt = set_fields 0
          [(net_ethdst, BS ethdst), (net_ethsrc, BS ethsrc), (net_ethtype, B16 ETH_ARP), (arp_htype, B16 1),
           (arp_ptype, B16 0x0800), (arp_hlen, B8 6), (arp_plen, B8 4), (arp_op, B16 op), (arp_sndha, BS sndha),
           (arp_sndpa, B32 sndpa), (arp_tarha, BS tarha), (arp_tarpa, B32 tarpa)] (\<lambda>_. 0)
      in bytes_at (eth_hton 0 (arp_hton 0 apkt)) 0 ARPLEN)"

text \<open>The loop of \<^verbatim>\<open>arp_resolve\<close>: \<open>k\<close> requests are left, \<open>msg\<close> was received after the last.\<close>

primrec arp_ask :: "nat \<Rightarrow> u8 list \<Rightarrow> u32 \<Rightarrow> kst \<Rightarrow> (kst, u32) kprog" where
  "arp_ask 0 apkt msg s = Ret s msg"
| "arp_ask (Suc k) apkt msg s =
     kbind (ethwrite (dentry_of ETHER0) (Local apkt) (int ARPLEN) s) (\<lambda>s1 _.
     kbind (recvtime ARP_TIMEOUT s1) (\<lambda>s2 msg1.
       if msg1 = word_of_int TIMEOUT then arp_ask k apkt msg1 s2 else Ret s2 msg1))"

definition arp_resolve :: "u32 \<Rightarrow> u32 \<Rightarrow> kst \<Rightarrow> (kst, int) kprog" where
  "arp_resolve nxthop mac s =
     (let nd = netdata s; copy = (\<lambda>bs s. set_kmem (put (kmem s) mac bs) s) in
      if nxthop = IP_BCAST then Ret (copy (ethbcast nd) s) OK
      else if nxthop = ipbcast nd then Ret (copy (ethbcast nd) s) OK
      else case arp_lookup s nxthop of
        Some i \<Rightarrow> (if arstate (arpe s i) = AR_RESOLVED then Ret (copy (arhaddr (arpe s i)) s) OK else Ret s SYSERR)
      | None \<Rightarrow>
          (let (s1, slot) = arp_alloc s in
           if slot = SYSERR then Ret s1 SYSERR
           else let s2 = upd_arp slot (\<lambda>e. e\<lparr>arstate := AR_PENDING, arpaddr := nxthop, arpid := currpid s\<rparr>) s1;
                    apkt = arp_packet (ethbcast nd) (ethucast nd) ARP_OP_REQ (ethucast nd) (ipucast nd) (replicate ARP_HALEN 0) nxthop;
                    (s3, msg0) = recvclr s2
                in kbind (arp_ask ARP_RETRY apkt msg0 s3) (\<lambda>s4 msg.
                     if msg = word_of_int SYSERR then Ret s4 SYSERR
                     else if msg = word_of_int TIMEOUT then Ret (upd_arp slot (\<lambda>e. e\<lparr>arstate := AR_FREE\<rparr>) s4) TIMEOUT
                     else Ret (copy (arhaddr (arpe s4 slot)) s4) OK)))"

text \<open>The part of \<^verbatim>\<open>arp_in\<close> that brings a known entry up to date.\<close>

definition arp_refresh :: "u32 \<Rightarrow> int \<Rightarrow> kst \<Rightarrow> (kst, unit) kprog" where
  "arp_refresh pkt i s =
     (let s1 = upd_arp i (\<lambda>e. e\<lparr>arhaddr := bytes_at (kmem s) (pkt + arp_sndha) ARP_HALEN\<rparr>) s in
      if arstate (arpe s1 i) = AR_PENDING then
        discard (send (arpid (arpe s1 i)) (word_of_int OK) (upd_arp i (\<lambda>e. e\<lparr>arstate := AR_RESOLVED\<rparr>) s1))
      else Ret s1 ())"

definition arp_reply :: "u32 \<Rightarrow> kst \<Rightarrow> u8 list" where
  "arp_reply pkt s =
     (let m = kmem s; nd = netdata s; ha = bytes_at m (pkt + arp_sndha) ARP_HALEN
      in arp_packet ha (ethucast nd) ARP_OP_RPLY (ethucast nd) (ipucast nd) ha (rd32 m (pkt + arp_sndpa)))"

definition arp_in :: "u32 \<Rightarrow> kst \<Rightarrow> (kst, unit) kprog" where
  "arp_in pkt s0 =
     (let s = set_kmem (arp_ntoh pkt (kmem s0)) s0; m = kmem s in
      if rd16 m (pkt + arp_htype) \<noteq> 1 \<or> rd16 m (pkt + arp_ptype) \<noteq> 0x0800 then discard (freebuf pkt s)
      else let found = arp_lookup s (rd32 m (pkt + arp_sndpa)) in
        kbind (case found of Some i \<Rightarrow> arp_refresh pkt i s | None \<Rightarrow> Ret s ()) (\<lambda>s1 _.
        let m1 = kmem s1 in
        if rd16 m1 (pkt + arp_op) = ARP_OP_RPLY then discard (freebuf pkt s1)
        else if \<not> ipvalid (netdata s1) \<or> rd32 m1 (pkt + arp_tarpa) \<noteq> ipucast (netdata s1) then discard (freebuf pkt s1)
        else let (s2, slot) = (if found = None then arp_alloc s1 else (s1, 0)) in
          if slot = SYSERR then discard (freebuf pkt s2)
          else let s3 = (if found = None
                 then upd_arp slot (\<lambda>e. e\<lparr>arpaddr := rd32 m1 (pkt + arp_sndpa),
                        arhaddr := bytes_at m1 (pkt + arp_sndha) ARP_HALEN, arstate := AR_RESOLVED\<rparr>) s2
                 else s2)
               in kbind (ethwrite (dentry_of ETHER0) (Local (arp_reply pkt s3)) (int ARPLEN) s3) (\<lambda>s4 _. discard (freebuf pkt s4))))"

section \<open>Sending\<close>

text \<open>The next hop to an address, zero if there is none.\<close>

definition next_hop :: "network \<Rightarrow> u32 \<Rightarrow> u32" where
  "next_hop nd dest = (if dest AND ipmask nd = ipprefix nd then dest else iprouter nd)"

definition ip_send :: "u32 \<Rightarrow> kst \<Rightarrow> (kst, int) kprog" where
  "ip_send pkt s =
     (let dest = rd32 (kmem s) (pkt + net_ipdst); nd = netdata s in
      if dest AND 0xff000000 = 0x7f000000 then kbind (ip_local pkt s) (\<lambda>s1 _. Ret s1 OK)
      else if dest = ipucast nd then kbind (ip_local pkt s) (\<lambda>s1 _. Ret s1 OK)
      else if dest = IP_BCAST \<or> dest = ipbcast nd then
        ip_out pkt (set_kmem (put (kmem s) (pkt + net_ethdst) (ethbcast nd)) s)
      else let nxthop = next_hop nd dest in
        if nxthop = 0 then kbind (freebuf pkt s) (\<lambda>s1 _. Ret s1 SYSERR)
        else kbind (arp_resolve nxthop (pkt + net_ethdst) s) (\<lambda>s1 retval.
          if retval \<noteq> OK then kbind (freebuf pkt s1) (\<lambda>s2 _. Ret s2 SYSERR) else ip_out pkt s1))"

text \<open>A UDP packet in the buffer \<open>pkt\<close>, but for its data.\<close>

definition udp_fill :: "u32 \<Rightarrow> network \<Rightarrow> u16 \<Rightarrow> u32 \<Rightarrow> u16 \<Rightarrow> u16 \<Rightarrow> int \<Rightarrow> memory \<Rightarrow> memory" where
  "udp_fill pkt nd ident remip remport locport len =
     (let pktlen = 42 + len in
      set_fields pkt
        [(net_ethsrc, BS (ethucast nd)), (net_ethtype, B16 0x0800), (net_ipvh, B8 0x45), (net_iptos, B8 0),
         (net_iplen, B16 (word_of_int (pktlen - ETH_HDR_LEN))), (net_ipid, B16 ident), (net_ipfrag, B16 0), (net_ipttl, B8 0xff),
         (net_ipproto, B8 IP_UDP), (net_ipcksum, B16 0), (net_ipsrc, B32 (ipucast nd)), (net_ipdst, B32 remip),
         (net_udpsport, B16 locport), (net_udpdport, B16 remport), (net_udplen, B16 (word_of_int (UDP_HDR_LEN + len))),
         (net_udpcksum, B16 0)])"

definition udp_send :: "int \<Rightarrow> u32 \<Rightarrow> int \<Rightarrow> kst \<Rightarrow> (kst, int) kprog" where
  "udp_send slot buff len s =
     (if slot < 0 \<or> slot \<ge> UDP_SLOTS then Ret s SYSERR
      else if udstate (udpe s slot) = UDP_FREE then Ret s SYSERR
      else let remip = udremip (udpe s slot) in
        if remip = 0 then Ret s SYSERR
        else let locip = ipucast (netdata s); remport = udremport (udpe s slot); locport = udlocport (udpe s slot) in
          kbind (getbuf (netbufpool (net s)) s) (\<lambda>s1 pkt.
            if pkt = PSYSERR then Ret s1 SYSERR
            else let m1 = udp_fill pkt ((netdata s1)\<lparr>ipucast := locip\<rparr>) (sendident (net s1)) remip remport locport len (kmem s1);
                     m2 = fst (memcpy m1 (pkt + net_udpdata) buff len);
                     s2 = set_kmem m2 (upd_net (\<lambda>n. n\<lparr>sendident := sendident n + 1\<rparr>) s1)
                 in kbind (ip_send pkt s2) (\<lambda>s3 _. Ret s3 OK)))"

definition udp_sendto :: "int \<Rightarrow> u32 \<Rightarrow> u16 \<Rightarrow> u32 \<Rightarrow> int \<Rightarrow> kst \<Rightarrow> (kst, int) kprog" where
  "udp_sendto slot remip remport buff len s =
     (if slot < 0 \<or> slot \<ge> UDP_SLOTS then Ret s SYSERR
      else if udstate (udpe s slot) = UDP_FREE then Ret s SYSERR
      else kbind (getbuf (netbufpool (net s)) s) (\<lambda>s1 pkt.
        if pkt = PSYSERR then Ret s1 SYSERR
        else let m1 = udp_fill pkt (netdata s1) (sendtoident (net s1)) remip remport (udlocport (udpe s1 slot)) len (kmem s1);
                 m2 = fst (memcpy m1 (pkt + net_udpdata) buff len);
                 s2 = set_kmem m2 (upd_net (\<lambda>n. n\<lparr>sendtoident := sendtoident n + 1\<rparr>) s1)
             in kbind (ip_send pkt s2) (\<lambda>s3 _. Ret s3 OK)))"

definition icmp_send :: "u32 \<Rightarrow> u16 \<Rightarrow> u16 \<Rightarrow> u16 \<Rightarrow> u32 \<Rightarrow> int \<Rightarrow> kst \<Rightarrow> (kst, int) kprog" where
  "icmp_send remip type ident seq buf len s =
     kbind (icmp_mkpkt remip type ident seq buf len s) (\<lambda>s1 pkt.
       if pkt = PSYSERR then Ret s1 SYSERR else ip_send pkt s1)"

section \<open>The processes\<close>

definition iq_deq :: "iqentry \<Rightarrow> iqentry" where
  "iq_deq q = (if iqhead q + 1 \<ge> IP_OQSIZ then q\<lparr>iqhead := 0\<rparr> else q\<lparr>iqhead := iqhead q + 1\<rparr>)"

definition ipout_round :: "kst \<Rightarrow> (kst, unit) kprog" where
  "ipout_round s =
     kbind (wait (iqsem (ipoqueue (net s))) s) (\<lambda>s1 _.
       let q = ipoqueue (net s1); pkt = iqbuf q (iqhead q); nd = netdata s1;
           s2 = set_kmem (put (kmem s1) (pkt + net_ethsrc) (ethucast nd)) (upd_ipq iq_deq s1);
           destip = rd32 (kmem s2) (pkt + net_ipdst)
       in if destip = IP_BCAST \<or> destip = ipbcast nd then discard (freebuf pkt s2)
          else if destip = ipucast nd then ip_local pkt s2
          else let nxthop = next_hop nd destip in
            if nxthop = 0 then discard (freebuf pkt s2)
            else kbind (arp_resolve nxthop (pkt + net_ethdst) s2) (\<lambda>s3 retval.
              if retval \<noteq> OK then discard (freebuf pkt s3) else discard (ip_out pkt s3)))"

text \<open>The checks and conversions of \<^verbatim>\<open>ip_in\<close>: the memory with the packet in host order, and whether the packet is kept.\<close>

definition ip_in_check :: "u32 \<Rightarrow> memory \<Rightarrow> memory \<times> bool" where
  "ip_in_check pkt m =
     (if ipcksum m pkt \<noteq> 0 then (m, False)
      else let m1 = ip_ntoh pkt m in
        if m1 (pkt + net_ipvh) \<noteq> 0x45 then (m1, False)
        else let proto = m1 (pkt + net_ipproto) in
          if proto = IP_UDP then (udp_ntoh pkt m1, True)
          else if proto = IP_ICMP then
            (let icmplen = uint (rd16 m1 (pkt + net_iplen)) - IP_HDR_LEN in
             if icmp_cksum m1 (pkt + net_ictype) icmplen \<noteq> 0 then (m1, False) else (icmp_ntoh pkt m1, True))
          else (m1, True))"

definition ip_in :: "u32 \<Rightarrow> kst \<Rightarrow> (kst, unit) kprog" where
  "ip_in pkt s =
     (let (m, ok) = ip_in_check pkt (kmem s); s1 = set_kmem m s; nd = netdata s1; dst = rd32 m (pkt + net_ipdst) in
      if \<not> ok then discard (freebuf pkt s1)
      else if dst = IP_BCAST then ip_local pkt s1
      else if \<not> ipvalid nd then
        (if m (pkt + net_ipproto) = IP_UDP then ip_local pkt s1 else discard (freebuf pkt s1))
      else if dst = ipucast nd \<or> dst = ipbcast nd \<or> dst = IP_BCAST then ip_local pkt s1
      else discard (freebuf pkt s1))"

definition netin_round :: "kst \<Rightarrow> (kst, unit) kprog" where
  "netin_round s =
     kbind (getbuf (netbufpool (net s)) s) (\<lambda>s1 pkt.
     kbind (ethread (dentry_of ETHER0) pkt PACKLEN s1) (\<lambda>s2 retval.
       if retval = SYSERR then Stop (Panicked ''Cannot read from Ethernet'') s2
       else let s3 = set_kmem (eth_ntoh pkt (kmem s2)) s2; type = rd16 (kmem s3) (pkt + net_ethtype) in
         if type = ETH_ARP then arp_in pkt s3
         else if type = ETH_IP then ip_in pkt s3
         else discard (freebuf pkt s3)))"

definition getport :: "kst \<Rightarrow> kst \<times> u16" where
  "getport s =
     (let seed = 6364136223846793005 * netportseed (net s) + 1
      in (upd_net (\<lambda>n. n\<lparr>netportseed := seed\<rparr>) s, 50000 + word_of_int (uint (ucast (drop_bit 48 seed) :: u16) mod 15535)))"

text \<open>
  \<^verbatim>\<open>net_init\<close>. \<open>ticks\<close> is the processor's time stamp; the processes are given by the addresses of
  their code and of their names.
\<close>

definition net_tables :: "64 word \<Rightarrow> kst \<Rightarrow> kst" where
  "net_tables ticks s = upd_net (\<lambda>n. n\<lparr>netportseed := ticks,
     NetData := \<lparr>ipucast = 0, ipbcast = 0, ipmask = 0, ipprefix = 0, iprouter = 0, bootserver = 0, dnsserver = 0, ntpserver = 0,
       ipvalid = False, ethucast = devAddress (ethertab n (dvminor (dentry_of ETHER0))), ethbcast = replicate ETH_ADDR_LEN 0xff,
       bootfile = replicate 128 0\<rparr>\<rparr>) s"

definition net_init :: "u32 \<Rightarrow> u32 \<times> u32 \<Rightarrow> u32 \<times> u32 \<Rightarrow> 64 word \<Rightarrow> kst \<Rightarrow> (kst, unit) kprog" where
  "net_init initret ipout_code netin_code ticks s =
     kbind (mkbufpool PACKLEN (UDP_SLOTS * UDP_QSIZ + ICMP_SLOTS * ICMP_QSIZ + 1) (net_tables ticks s)) (\<lambda>s1 pool.
       let s2 = icmp_init (udp_init (arp_init (upd_net (\<lambda>n. n\<lparr>netbufpool := pool\<rparr>) s1)));
           (s3, sem) = semcreate 0 (upd_ipq (\<lambda>q. q\<lparr>iqhead := 0, iqtail := 0\<rparr>) s2);
           s4 = upd_ipq (\<lambda>q. q\<lparr>iqsem := sem\<rparr>) s3
       in if sem = SYSERR then Stop (Panicked ''Cannot create ip output queue semaphore'') s4
          else kbind (create initret (fst ipout_code) 8192 500 (snd ipout_code) [] s4) (\<lambda>s5 pid1.
               kbind (resume pid1 s5) (\<lambda>s6 _.
               kbind (create initret (fst netin_code) 8192 500 (snd netin_code) [] s6) (\<lambda>s7 pid2.
               discard (resume pid2 s7)))))"

end
