(* ===== verification/Netsafe.thy ===== *)
theory Netsafe
  imports Ipstack
begin

text \<open>
  Every routine of the network stack keeps the kernel invariant. The network's tables, the
  packets and the rings are no part of it; what is left are the calls that wait, signal, send and receive.
\<close>

lemma mine_tables [simp]:
  "mine F p (upd_udp i f s) = mine F p s" "mine F p (upd_icmp i g s) = mine F p s" "mine F p (upd_arp i h s) = mine F p s"
  "mine F p (upd_ipq k s) = mine F p s"
  by (simp_all add: upd_udp_def upd_icmp_def upd_arp_def upd_ipq_def)

lemma held_tables [simp]:
  "held F p n (upd_udp i f s) = held F p n s" "held F p n (upd_icmp i g s) = held F p n s"
  by (simp_all add: upd_udp_def upd_icmp_def)

lemma discard_safe: "ksafe F p c \<Longrightarrow> ksafe F p (discard c)"
  unfolding discard_def by (rule ksafe_bind) simp_all

lemma arp_alloc_mine [simp]: "mine F p (fst (arp_alloc s)) = mine F p s"
  by (simp add: arp_alloc_def split: option.splits)

section \<open>Under deferred rescheduling\<close>

lemma held_pool [simp]: "held F p n (upd_pool i f s) = held F p n s"
  by (rule iffI; erule held_cong [rotated]; simp add: sched_part_def upd_pool_def)

lemma held_freebuf: "held F p 1 s \<Longrightarrow> kheld F p 1 (freebuf a s)"
  by (auto simp: freebuf_def freebuf_put_def Let_def intro!: kheld_bind held_signal)

lemma held_udp_drain: "held F p 1 s \<Longrightarrow> kheld F p 1 (udp_drain k slot s)"
  by (induction k arbitrary: s) (auto simp: Let_def intro!: kheld_bind held_freebuf)

lemma held_icmp_pop: "held F p 1 s \<Longrightarrow> kheld F p 1 (icmp_pop i s)"
  by (simp add: icmp_pop_def Let_def)

lemma held_icmp_drain: "held F p 1 s \<Longrightarrow> kheld F p 1 (icmp_drain k i s)"
  by (induction k arbitrary: s) (auto intro!: kheld_bind held_freebuf held_icmp_pop)

lemma udp_release_safe: "mine F p s \<Longrightarrow> ksafe F p (udp_release slot s)"
  by (auto simp: udp_release_def intro!: deferred_safe held_udp_drain)

lemma icmp_release_safe: "mine F p s \<Longrightarrow> ksafe F p (icmp_release i s)"
  by (auto simp: icmp_release_def intro!: deferred_safe held_icmp_drain)

section \<open>The other routines\<close>

lemma udp_in_safe: "mine F p s \<Longrightarrow> ksafe F p (udp_in pkt s)"
  by (auto simp: udp_in_def Let_def split: option.splits intro!: discard_safe freebuf_safe send_safe)

lemma udp_register_mine: "mine F p s \<Longrightarrow> mine F p (fst (udp_register remip remport locport s))"
  by (simp add: udp_register_def split: option.splits)

lemma timeout_le: "sint (t :: u32) \<le> INT32_MAX"
  using sint_lt [of t] by simp

lemma udp_await_safe:
  assumes "mine F p s" "p \<noteq> NULLPROC"
  shows "ksafe F p (udp_await slot timeout s)"
  using assms recvclr_mine [of F p "upd_udp slot (\<lambda>e. e\<lparr>udstate := UDP_RECV, udpid := currpid s\<rparr>) s"]
  by (auto simp: udp_await_def Let_def split_beta intro!: ksafe_bind recvtime_safe timeout_le)

lemma udp_recv_safe: "mine F p s \<Longrightarrow> p \<noteq> NULLPROC \<Longrightarrow> ksafe F p (udp_recv slot buff len timeout s)"
  by (auto simp: udp_recv_def Let_def split_beta intro!: ksafe_bind udp_await_safe freebuf_safe)

lemma udp_recvaddr_safe:
  "mine F p s \<Longrightarrow> p \<noteq> NULLPROC \<Longrightarrow> ksafe F p (udp_recvaddr slot remip remport buff len timeout s)"
  by (auto simp: udp_recvaddr_def Let_def split_beta intro!: ksafe_bind udp_await_safe freebuf_safe)

lemma icmp_mkpkt_safe:
  "mine F p s \<Longrightarrow> p \<noteq> NULLPROC \<Longrightarrow> ksafe F p (icmp_mkpkt remip type ident seq buf len s)"
  by (auto simp: icmp_mkpkt_def Let_def intro!: ksafe_bind getbuf_safe)

lemma ip_enqueue_safe: "mine F p s \<Longrightarrow> ksafe F p (ip_enqueue pkt s)"
  by (auto simp: ip_enqueue_def Let_def intro!: ksafe_bind freebuf_safe signal_safe)

lemma icmp_in_safe: "mine F p s \<Longrightarrow> p \<noteq> NULLPROC \<Longrightarrow> ksafe F p (icmp_in pkt s)"
  by (auto simp: icmp_in_def Let_def
      intro!: ksafe_bind icmp_mkpkt_safe discard_safe ip_enqueue_safe freebuf_safe send_safe)

lemma icmp_register_mine: "mine F p s \<Longrightarrow> mine F p (fst (icmp_register remip s))"
  by (simp add: icmp_register_def split: option.splits)

lemma icmp_recv_safe:
  assumes "mine F p s" "p \<noteq> NULLPROC"
  shows "ksafe F p (icmp_recv i buff len timeout s)"
proof -
  have "ksafe F p (icmp_pop j s1)" if "mine F p s1" for F s1 j
    using that by (simp add: icmp_pop_def Let_def)
  then show ?thesis
    using assms recvclr_mine [of F p "upd_icmp i (\<lambda>e. e\<lparr>icstate := ICMP_RECV, icpid := currpid s\<rparr>) s"]
    by (auto simp: icmp_recv_def Let_def split_beta intro!: ksafe_bind recvtime_safe timeout_le freebuf_safe)
qed

lemma ip_local_safe: "mine F p s \<Longrightarrow> p \<noteq> NULLPROC \<Longrightarrow> ksafe F p (ip_local pkt s)"
  by (auto simp: ip_local_def Let_def intro!: udp_in_safe icmp_in_safe discard_safe freebuf_safe)

lemma ip_out_safe: "mine F p s \<Longrightarrow> p \<noteq> NULLPROC \<Longrightarrow> ksafe F p (ip_out pkt s)"
  by (auto simp: ip_out_def Let_def intro!: ksafe_bind ethwrite_safe freebuf_safe)

lemma arp_ask_safe: "mine F p s \<Longrightarrow> p \<noteq> NULLPROC \<Longrightarrow> ksafe F p (arp_ask k apkt msg s)"
  by (induction k arbitrary: F msg s) (auto intro!: ksafe_bind ethwrite_safe recvtime_safe)

lemma arp_resolve_safe:
  assumes "mine F p s" "p \<noteq> NULLPROC"
  shows "ksafe F p (arp_resolve nxthop mac s)"
  using assms recvclr_mine
  by (auto simp: arp_resolve_def Let_def split_beta split: option.splits intro!: ksafe_bind arp_ask_safe)

lemma arp_in_safe:
  assumes "mine F p s" "p \<noteq> NULLPROC"
  shows "ksafe F p (arp_in pkt s)"
proof -
  have "ksafe F p (arp_refresh pkt i s)" if "mine F p s" for F i s
    using that by (auto simp: arp_refresh_def Let_def intro!: discard_safe send_safe)
  then show ?thesis
    using assms
    by (auto simp: arp_in_def Let_def split_beta split: option.splits
        intro!: ksafe_bind discard_safe freebuf_safe ethwrite_safe)
qed

lemma ip_send_safe: "mine F p s \<Longrightarrow> p \<noteq> NULLPROC \<Longrightarrow> ksafe F p (ip_send pkt s)"
  by (auto simp: ip_send_def Let_def intro!: ksafe_bind ip_local_safe ip_out_safe freebuf_safe arp_resolve_safe)

lemma udp_send_safe: "mine F p s \<Longrightarrow> p \<noteq> NULLPROC \<Longrightarrow> ksafe F p (udp_send slot buff len s)"
  by (auto simp: udp_send_def Let_def intro!: ksafe_bind getbuf_safe ip_send_safe)

lemma udp_sendto_safe: "mine F p s \<Longrightarrow> p \<noteq> NULLPROC \<Longrightarrow> ksafe F p (udp_sendto slot remip remport buff len s)"
  by (auto simp: udp_sendto_def Let_def intro!: ksafe_bind getbuf_safe ip_send_safe)

lemma icmp_send_safe: "mine F p s \<Longrightarrow> p \<noteq> NULLPROC \<Longrightarrow> ksafe F p (icmp_send remip type ident seq buf len s)"
  by (auto simp: icmp_send_def Let_def intro!: ksafe_bind icmp_mkpkt_safe ip_send_safe)

lemma ipout_round_safe: "mine F p s \<Longrightarrow> p \<noteq> NULLPROC \<Longrightarrow> ksafe F p (ipout_round s)"
  by (auto simp: ipout_round_def Let_def
      intro!: ksafe_bind wait_safe discard_safe freebuf_safe ip_local_safe arp_resolve_safe ip_out_safe)

lemma ip_in_safe: "mine F p s \<Longrightarrow> p \<noteq> NULLPROC \<Longrightarrow> ksafe F p (ip_in pkt s)"
  by (auto simp: ip_in_def Let_def split_beta intro!: discard_safe freebuf_safe ip_local_safe)

lemma getport_mine: "mine F p s \<Longrightarrow> mine F p (fst (getport s))"
  by (simp add: getport_def Let_def)

lemma netin_round_safe: "mine F p s \<Longrightarrow> p \<noteq> NULLPROC \<Longrightarrow> ksafe F p (netin_round s)"
  by (auto simp: netin_round_def Let_def
      intro!: ksafe_bind getbuf_safe ethread_safe arp_in_safe ip_in_safe discard_safe freebuf_safe)

end
