(* ===== verification/Kernel.thy ===== *)
theory Kernel
  imports Devclose Bufpool Tty Netsafe
begin

text \<open>
  The kernel as a whole: the initial state built by \<^verbatim>\<open>sysinit\<close> (\<^verbatim>\<open>initialize.c\<close>,
  with \<^verbatim>\<open>newqueue.c\<close>, \<^verbatim>\<open>bufinit.c\<close> and \<^verbatim>\<open>clkinit.c\<close>), and the
  step relation of processes that interleave kernel calls and clock interrupts, each with its own
  suspended call. Every reachable configuration satisfies the kernel invariant.
\<close>

section \<open>Initialisation\<close>

definition prnull_name :: "nat \<Rightarrow> u8" where
  "prnull_name i = (if i < 6 then [112, 114, 110, 117, 108, 108] ! i else 0)"

text \<open>\<^verbatim>\<open>strncpy(prptr->prname, "prnull", 7)\<close> writes the first seven bytes.\<close>

definition free_entry :: "procent \<Rightarrow> procent" where
  "free_entry e = e\<lparr>prstate := PR_FREE, prname := (prname e)(0 := 0), prstkbase := 0, prprio := 0\<rparr>"

definition null_entry :: "u32 \<Rightarrow> procent \<Rightarrow> procent" where
  "null_entry stk e = e\<lparr>prstate := PR_CURR, prprio := 0,
     prname := (\<lambda>i. if i < 7 then prnull_name i else prname e i),
     prstkbase := stk, prstklen := NULLSTK, prstkptr := 0\<rparr>"

definition init_procs :: "u32 \<Rightarrow> kst \<Rightarrow> kst" where
  "init_procs stk s = s\<lparr>proctab := (\<lambda>i. if i = NULLPROC then null_entry stk (free_entry (proctab s i))
     else if 0 \<le> i \<and> i < NPROC then free_entry (proctab s i) else proctab s i), currpid := NULLPROC\<rparr>"

definition init_sem :: "int \<Rightarrow> kst \<Rightarrow> kst" where
  "init_sem i s =
     (let s1 = upd_sem i (\<lambda>e. e\<lparr>sstate := S_FREE, scount := 0\<rparr>) s; (s2, q) = newqueue s1
      in upd_sem i (\<lambda>e. e\<lparr>squeue := q\<rparr>) s2)"

primrec init_sems :: "nat \<Rightarrow> kst \<Rightarrow> kst" where
  "init_sems 0 s = s"
| "init_sems (Suc n) s = init_sem (int n) (init_sems n s)"

definition bufinit :: "kst \<Rightarrow> kst" where
  "bufinit s = s\<lparr>nbpools := 0\<rparr>"

definition sysinit :: "u32 \<Rightarrow> kst \<Rightarrow> kst option" where
  "sysinit kend s =
     (let s1 = s\<lparr>hp := meminit kend (hp s), prcount := 1, ndefers := 0\<rparr>
      in case getstk NULLSTK (hp s1) of
           None \<Rightarrow> None
         | Some (h, stk) \<Rightarrow>
             (let s2 = init_procs stk (s1\<lparr>hp := h\<rparr>);
                  s3 = bufinit (init_sems (nat NSEM) s2);
                  (s4, q) = newqueue s3
              in Some (clkinit (s4\<lparr>readylist := q\<rparr>))))"

section \<open>Fresh queues\<close>

lemma qids_mono: "q \<in> qids n \<Longrightarrow> q \<in> qids (n + 2) \<and> q \<noteq> n"
  unfolding qids_def mem_Collect_eq by simp

lemma qids_new: "even n \<Longrightarrow> NPROC \<le> n \<Longrightarrow> n \<in> qids (n + 2)"
  unfolding qids_def mem_Collect_eq by (intro conjI) simp_all

definition newqueue_tab :: "int \<Rightarrow> qtab \<Rightarrow> qtab" where
  "newqueue_tab q t = (let t1 = t(q := (t q)\<lparr>qnext := q + 1, qprev := EMPTY, qkey := MAXKEY\<rparr>)
    in t1(q + 1 := (t1 (q + 1))\<lparr>qnext := EMPTY, qprev := q, qkey := MINKEY\<rparr>))"

lemma newqueue_eq:
  "nextqid s + 2 \<le> NQENT \<Longrightarrow>
   newqueue s = (s\<lparr>nextqid := nextqid s + 2, queuetab := newqueue_tab (nextqid s) (queuetab s)\<rparr>, nextqid s)"
  unfolding newqueue_def newqueue_tab_def Let_def by (subst if_not_P) (linarith, rule refl)

lemma newqueue_spec:
  assumes w: "wfq (nextqid s) (queuetab s)" and n: "even (nextqid s)" "NPROC \<le> nextqid s" "nextqid s + 2 \<le> NQENT"
  obtains t' where "newqueue s = (s\<lparr>nextqid := nextqid s + 2, queuetab := t'\<rparr>, nextqid s)"
    and "wfq (nextqid s + 2) t'" and "qlist t' (nextqid s) = []"
    and "\<And>q. q \<in> qids (nextqid s) \<Longrightarrow> qlist t' q = qlist (queuetab s) q"
proof -
  let ?q = "nextqid s" and ?t = "queuetab s"
  let ?t' = "newqueue_tab ?q ?t"
  have same: "?t' i = ?t i" if "i \<noteq> ?q" "i \<noteq> ?q + 1" for i using that by (simp add: newqueue_tab_def Let_def)
  have new: "qnext (?t' ?q) = ?q + 1" "qprev (?t' (?q + 1)) = ?q" "qkey (?t' ?q) = MAXKEY" "qkey (?t' (?q + 1)) = MINKEY"
    by (simp_all add: newqueue_tab_def Let_def)
  let ?L = "\<lambda>q. if q = ?q then [] else qlist ?t q"
  have qid: "q = ?q \<or> q \<in> qids ?q \<and> q + 1 < ?q" if "q \<in> qids (?q + 2)" for q
    using that n(1) unfolding qids_def mem_Collect_eq by presburger
  have "wfq (?q + 2) ?t' \<and> (\<forall>q \<in> qids (?q + 2). qlist ?t' q = ?L q)"
  proof (rule wfqI)
    fix q assume q: "q \<in> qids (?q + 2)"
    show "is_queue ?t' q (?L q)"
    proof (cases "q = ?q")
      case True
      then show ?thesis using new by (simp add: is_queue_def)
    next
      case False
      then have qq: "q \<in> qids ?q" "q + 1 < ?q" using qid [OF q] by simp_all
      have "is_queue ?t' q (qlist ?t q) = is_queue ?t q (qlist ?t q)"
      proof (rule is_queue_cong)
        have far: "i \<noteq> ?q \<and> i \<noteq> ?q + 1" if "i = q \<or> i = q + 1 \<or> i \<in> set (qlist ?t q)" for i
          using that wfq_range [OF w qq(1), of i] qq(2) n(2) by auto
        show "qnext (?t' i) = qnext (?t i)" if "i = q \<or> i = q + 1 \<or> i \<in> set (qlist ?t q)" for i
          using same far [OF that] by simp
        show "qprev (?t' i) = qprev (?t i)" if "i = q \<or> i = q + 1 \<or> i \<in> set (qlist ?t q)" for i
          using same far [OF that] by simp
        show "qkey (?t' i) = qkey (?t i)" if "i = q \<or> i = q + 1" for i
          using same [of i] far [of i] that by auto
      qed
      then show ?thesis using False wfq_is_queue [OF w qq(1)] by simp
    qed
  next
    fix q q' assume a: "q \<in> qids (?q + 2)" "q' \<in> qids (?q + 2)" "q \<noteq> q'"
    show "set (?L q) \<inter> set (?L q') = {}"
    proof (cases "q = ?q \<or> q' = ?q")
      case False
      then have "q \<in> qids ?q" "q' \<in> qids ?q" using qid [OF a(1)] qid [OF a(2)] by simp_all
      then show ?thesis using False wfq_disjoint [OF w, of q q'] a(3) by auto
    qed auto
  qed
  note w' = this
  show thesis
  proof (rule that [of ?t'])
    show "newqueue s = (s\<lparr>nextqid := ?q + 2, queuetab := ?t'\<rparr>, ?q)"
      by (rule newqueue_eq [OF n(3)])
    show "wfq (?q + 2) ?t'" using w' by blast
    have "?q \<in> qids (?q + 2)" by (rule qids_new [OF n(1,2)])
    then show "qlist ?t' ?q = []" using w' by simp
    fix q assume "q \<in> qids ?q"
    then have "q \<in> qids (?q + 2)" "q \<noteq> ?q" using qids_mono by blast+
    then show "qlist ?t' q = qlist ?t q" using w' by simp
  qed
qed

text \<open>The state while queues are being created: they are all empty.\<close>

definition fresh_queues :: "int \<Rightarrow> kst \<Rightarrow> bool" where
  "fresh_queues n s \<longleftrightarrow> nextqid s = n \<and> wfq n (queuetab s) \<and> (\<forall>q \<in> qids n. kq s q = [])"

lemma fresh_newqueue:
  assumes "fresh_queues n s" "even n" "NPROC \<le> n" "n + 2 \<le> NQENT"
  obtains t' where "newqueue s = (s\<lparr>nextqid := n + 2, queuetab := t'\<rparr>, n)"
    and "fresh_queues (n + 2) (s\<lparr>nextqid := n + 2, queuetab := t'\<rparr>)"
proof -
  have nq: "nextqid s = n" and w: "wfq (nextqid s) (queuetab s)" using assms(1) by (simp_all add: fresh_queues_def)
  obtain t' where t': "newqueue s = (s\<lparr>nextqid := nextqid s + 2, queuetab := t'\<rparr>, nextqid s)"
    "wfq (nextqid s + 2) t'" "qlist t' (nextqid s) = []" "\<And>q. q \<in> qids (nextqid s) \<Longrightarrow> qlist t' q = qlist (queuetab s) q"
    by (rule newqueue_spec [OF w]) (use assms nq in simp_all)
  have "qlist t' q = []" if "q \<in> qids (n + 2)" for q
  proof -
    have "q = n \<or> q \<in> qids n" using that assms(2) unfolding qids_def mem_Collect_eq by presburger
    then show ?thesis
    proof
      assume q: "q \<in> qids n"
      then have "qlist t' q = qlist (queuetab s) q" using t'(4) nq by simp
      then show ?thesis using assms(1) q by (simp add: fresh_queues_def)
    qed (use t'(3) nq in simp)
  qed
  then show thesis using t' nq by (intro that [of t']) (simp_all add: fresh_queues_def)
qed

lemma fresh_start: "nextqid s = NPROC \<Longrightarrow> fresh_queues NPROC s"
proof -
  have "qids NPROC = {}" unfolding qids_def by (simp add: not_less [symmetric])
  then show "nextqid s = NPROC \<Longrightarrow> fresh_queues NPROC s" by (simp add: fresh_queues_def wfq_def)
qed

lemma init_sems_spec:
  "fresh_queues NPROC s \<Longrightarrow> n \<le> 100 \<Longrightarrow>
   fresh_queues (NPROC + 2 * int n) (init_sems n s) \<and> proctab (init_sems n s) = proctab s
   \<and> currpid (init_sems n s) = currpid s \<and> ndefers (init_sems n s) = ndefers s \<and> hp (init_sems n s) = hp s
   \<and> prcount (init_sems n s) = prcount s \<and> nextsem (init_sems n s) = nextsem s \<and> nextpid (init_sems n s) = nextpid s
   \<and> (\<forall>i. 0 \<le> i \<and> i < int n \<longrightarrow> semtab (init_sems n s) i = \<lparr>sstate = S_FREE, scount = 0, squeue = NPROC + 2 * i\<rparr>)"
proof (induction n)
  case 0
  then show ?case by auto
next
  case (Suc n)
  let ?s = "init_sems n s"
  let ?s1 = "upd_sem (int n) (\<lambda>e. e\<lparr>sstate := S_FREE, scount := 0\<rparr>) ?s"
  have IH: "fresh_queues (NPROC + 2 * int n) ?s" using Suc by simp
  then have f1: "fresh_queues (NPROC + 2 * int n) ?s1" by (simp add: fresh_queues_def)
  obtain t' where t': "newqueue ?s1 = (?s1\<lparr>nextqid := NPROC + 2 * int n + 2, queuetab := t'\<rparr>, NPROC + 2 * int n)"
    "fresh_queues (NPROC + 2 * int n + 2) (?s1\<lparr>nextqid := NPROC + 2 * int n + 2, queuetab := t'\<rparr>)"
    by (rule fresh_newqueue [OF f1]) (use Suc.prems(2) in \<open>simp_all\<close>)
  have e: "init_sems (Suc n) s = upd_sem (int n) (\<lambda>e. e\<lparr>squeue := NPROC + 2 * int n\<rparr>)
      (?s1\<lparr>nextqid := NPROC + 2 * int n + 2, queuetab := t'\<rparr>)"
    using t'(1) by (simp add: init_sem_def Let_def)
  have "semtab (init_sems (Suc n) s) i = \<lparr>sstate = S_FREE, scount = 0, squeue = NPROC + 2 * i\<rparr>"
    if "0 \<le> i" "i < int (Suc n)" for i
    using Suc that unfolding e by (cases "i = int n") auto
  then show ?case
    using Suc t'(2) unfolding e by (simp add: fresh_queues_def algebra_simps)
qed

section \<open>The initial state satisfies the invariant\<close>

lemma kinv_free: "kinv F s \<Longrightarrow> (\<And>p. p \<in> F' \<Longrightarrow> prstate (proctab s p) = PR_FREE) \<Longrightarrow> kinv F' s"
  by (simp add: kinv_def kgood_def kbase_def kprocs_def proc_ok_def)

lemma qids_all: "q \<in> qids 304 \<longleftrightarrow> NPROC \<le> q \<and> q < NQENT \<and> even q"
  unfolding qids_def mem_Collect_eq by simp

lemma fresh_kinv:
  assumes f: "fresh_queues NQENT s" and q: "readylist s = 300" "sleepq s = 302"
    and sm: "\<And>i. 0 \<le> i \<Longrightarrow> i < NSEM \<Longrightarrow> semtab s i = \<lparr>sstate = S_FREE, scount = 0, squeue = NPROC + 2 * i\<rparr>"
    and pr: "\<And>p. 0 \<le> p \<Longrightarrow> p < NPROC \<Longrightarrow> prstate (proctab s p) = (if p = NULLPROC then PR_CURR else PR_FREE) \<and> prprio (proctab s p) = 0"
    and c: "currpid s = NULLPROC" "ndefers s = 0"
  shows "kinv {} s"
proof -
  have nq: "nextqid s = NQENT" and w: "wfq NQENT (queuetab s)" and e: "\<And>q. q \<in> qids NQENT \<Longrightarrow> kq s q = []"
    using f by (simp_all add: fresh_queues_def)
  have rl: "300 \<in> qids NQENT" "302 \<in> qids NQENT" by (simp_all add: qids_all)
  have sq: "squeue (semtab s i) \<in> qids NQENT" if "0 \<le> i" "i < NSEM" for i
    using sm [OF that] that by (simp add: qids_all)
  have st: "kstatic s"
    unfolding kstatic_def nq q using rl sq sm by auto
  have pk: "proc_ok {} {} s p" if "0 \<le> p" "p < NPROC" for p
    using pr [OF that] e nq by (auto simp: proc_ok_def home_def entry_ok_def)
  have "kbase {} {} s"
    using st w nq pk e [OF rl(1)] q c by (simp add: kbase_def kprocs_def keys_desc_def)
  moreover have "curp (Some NULLPROC) s" using pr by (simp add: curp_def)
  moreover have "semcnt {} s" using sm e sq by (simp add: semcnt_def)
  moreover have "slp s" using e [OF rl(2)] q by (simp add: slp_def delta_ok_def)
  ultimately show ?thesis using c by (simp add: kinv_def kgood_def)
qed

lemma sysinit_kinv:
  assumes "nextqid s0 = NPROC" "sysinit kend s0 = Some s"
  shows "kinv {} s" "currpid s = NULLPROC" "prcount s = 1"
    and "\<And>p. 0 \<le> p \<Longrightarrow> p < NPROC \<Longrightarrow> p \<noteq> NULLPROC \<Longrightarrow> prstate (proctab s p) = PR_FREE"
    and "\<And>i. 0 \<le> i \<Longrightarrow> i < NSEM \<Longrightarrow> sstate (semtab s i) = S_FREE"
proof -
  let ?s1 = "s0\<lparr>hp := meminit kend (hp s0), prcount := 1, ndefers := 0\<rparr>"
  obtain h stk where g: "getstk NULLSTK (hp ?s1) = Some (h, stk)"
    using assms(2) by (auto simp: sysinit_def Let_def split: option.splits)
  let ?s2 = "init_procs stk (?s1\<lparr>hp := h\<rparr>)"
  have f2: "fresh_queues NPROC ?s2" using assms(1) by (intro fresh_start) (simp add: init_procs_def)
  note iss = init_sems_spec [OF f2, of 100]
  let ?s3 = "bufinit (init_sems (nat NSEM) ?s2)"
  have f3: "fresh_queues 300 ?s3" using iss by (simp add: bufinit_def fresh_queues_def)
  obtain t4 where t4: "newqueue ?s3 = (?s3\<lparr>nextqid := 300 + 2, queuetab := t4\<rparr>, 300)"
    "fresh_queues (300 + 2) (?s3\<lparr>nextqid := 300 + 2, queuetab := t4\<rparr>)"
    by (rule fresh_newqueue [OF f3]) simp_all
  let ?s4 = "?s3\<lparr>nextqid := 302, queuetab := t4, readylist := 300\<rparr>"
  have f4: "fresh_queues 302 ?s4" using t4(2) by (simp add: fresh_queues_def)
  obtain t5 where t5: "newqueue ?s4 = (?s4\<lparr>nextqid := 302 + 2, queuetab := t5\<rparr>, 302)"
    "fresh_queues (302 + 2) (?s4\<lparr>nextqid := 302 + 2, queuetab := t5\<rparr>)"
    by (rule fresh_newqueue [OF f4]) simp_all
  have s: "s = ?s4\<lparr>nextqid := 304, queuetab := t5, sleepq := 302, preempt := QUANTUM, clktime := 0\<rparr>"
    using assms(2) g t4(1) t5(1) by (simp add: sysinit_def Let_def clkinit_def)
  show "currpid s = NULLPROC" "prcount s = 1"
    using iss by (simp_all add: s bufinit_def init_procs_def)
  have pr: "prstate (proctab s p) = (if p = NULLPROC then PR_CURR else PR_FREE) \<and> prprio (proctab s p) = 0"
    if "0 \<le> p" "p < NPROC" for p
    using iss that by (simp add: s bufinit_def init_procs_def null_entry_def free_entry_def)
  then show "prstate (proctab s p) = PR_FREE" if "0 \<le> p" "p < NPROC" "p \<noteq> NULLPROC" for p
    using that by simp
  show "sstate (semtab s i) = S_FREE" if "0 \<le> i" "i < NSEM" for i
    using iss that by (simp add: s bufinit_def)
  show "kinv {} s"
  proof (rule fresh_kinv)
    show "fresh_queues NQENT s" using t5(2) by (simp add: s fresh_queues_def)
    show "semtab s i = \<lparr>sstate = S_FREE, scount = 0, squeue = NPROC + 2 * i\<rparr>" if "0 \<le> i" "i < NSEM" for i
      using iss that by (simp add: s bufinit_def)
    show "prstate (proctab s p) = (if p = NULLPROC then PR_CURR else PR_FREE) \<and> prprio (proctab s p) = 0"
      if "0 \<le> p" "p < NPROC" for p by (rule pr [OF that])
  qed (use iss in \<open>simp_all add: s bufinit_def init_procs_def\<close>)
qed

section \<open>Interleaved kernel calls\<close>

text \<open>
  The calls a process makes, those of the console's driver included, and the interrupts of the
  clock, of the console (\<open>Conintr\<close>, with what the device answers) and of the Ethernet (\<open>Ethintr\<close>), whose
  device writes to memory on its own (\<open>Dma\<close>).
\<close>

datatype kcall =
    Resume int | Suspend int | Chprio int int | Yield
  | Wait int | Signal int | Signaln int int | Semcreate int | Semreset int int | Semdelete int
  | Send int u32 | Receive | Recvclr | Recvtime int | Sleep int | Sleepms int
  | Kill int | Exit | Clock
  | Getmem u32 | Freemem u32 u32 | Ptcreate int | Ptsend int u32 | Ptrecv int
  | Mkbufpool int int | Getbuf int | Freebuf u32
  | Lfgetc int | Lfputc int u8 | Lfread int u32 int | Lfwrite int u32 int | Lfseek int u32 | Lfclose int
  | Lfcontrol int "u8 list" int | Lfopen u32 u32 | Lfcreate int u32 u32 | Lfckfmt int
  | Congetc | Conputc u8 | Conread u32 int | Conwrite u32 int | Concontrol int | Conintr u8 u8 "u8 list"
  | Udpregister u32 u16 u16 | Udprecv int u32 int u32 | Udprecvaddr int u32 u32 u32 int u32 | Udpsend int u32 int
  | Udpsendto int u32 u16 u32 int | Udprelease int | Icmpregister u32 | Icmprecv int u32 int u32
  | Icmpsend u32 u16 u16 u16 u32 int | Icmprelease int | Getport | Ipout | Netin | Ethintr u32 | Dma u32 "u8 list"

definition kdone :: "(kst, 'a) kprog \<Rightarrow> (kst, unit) kprog" where
  "kdone c = kbind c (\<lambda>s _. Ret s ())"

fun run_call :: "(dentry \<Rightarrow> kst \<Rightarrow> (kst, int) kprog) \<Rightarrow> blkdrv \<Rightarrow> kcall \<Rightarrow> kst \<Rightarrow> (kst, unit) kprog" where
  "run_call rfl drv (Resume p) s = kdone (resume p s)"
| "run_call rfl drv (Suspend p) s = kdone (suspend p s)"
| "run_call rfl drv (Chprio p n) s = Ret (fst (chprio p n s)) ()"
| "run_call rfl drv Yield s = kdone (yield s)"
| "run_call rfl drv (Wait i) s = kdone (wait i s)"
| "run_call rfl drv (Signal i) s = kdone (signal i s)"
| "run_call rfl drv (Signaln i n) s = kdone (signaln i n s)"
| "run_call rfl drv (Semcreate n) s = Ret (fst (semcreate n s)) ()"
| "run_call rfl drv (Semreset i n) s = kdone (semreset i n s)"
| "run_call rfl drv (Semdelete i) s = kdone (semdelete i s)"
| "run_call rfl drv (Send p m) s = kdone (send p m s)"
| "run_call rfl drv Receive s = kdone (receive s)"
| "run_call rfl drv Recvclr s = Ret (fst (recvclr s)) ()"
| "run_call rfl drv (Recvtime n) s = kdone (recvtime n s)"
| "run_call rfl drv (Sleep n) s = kdone (sleep n s)"
| "run_call rfl drv (Sleepms n) s = kdone (sleepms n s)"
| "run_call rfl drv (Kill p) s = kdone (kill (run_close rfl drv) p s)"
| "run_call rfl drv Exit s = kdone (exit (run_close rfl drv) s)"
| "run_call rfl drv Clock s = clkhandler s"
| "run_call rfl drv (Getmem n) s =
     (case getmem n (hp s) of None \<Rightarrow> Stop BadHeap s | Some (h, _) \<Rightarrow> Ret (s\<lparr>hp := h\<rparr>) ())"
| "run_call rfl drv (Freemem a n) s =
     (case freemem a n (hp s) of None \<Rightarrow> Stop BadHeap s | Some (h, _) \<Rightarrow> Ret (s\<lparr>hp := h\<rparr>) ())"
| "run_call rfl drv (Ptcreate n) s = Ret (fst (ptcreate n s)) ()"
| "run_call rfl drv (Ptsend i m) s = kdone (ptsend i m s)"
| "run_call rfl drv (Ptrecv i) s = kdone (ptrecv i s)"
| "run_call rfl drv (Mkbufpool b n) s = kdone (mkbufpool b n s)"
| "run_call rfl drv (Getbuf i) s = kdone (getbuf i s)"
| "run_call rfl drv (Freebuf a) s = kdone (freebuf a s)"
| "run_call rfl drv (Lfgetc d) s = kdone (lflgetc drv (dentry_of d) s)"
| "run_call rfl drv (Lfputc d ch) s = kdone (lflputc drv (dentry_of d) ch s)"
| "run_call rfl drv (Lfread d a n) s = kdone (lflread drv (dentry_of d) a n s)"
| "run_call rfl drv (Lfwrite d a n) s = kdone (lflwrite drv (dentry_of d) a n s)"
| "run_call rfl drv (Lfseek d k) s = kdone (lflseek (dentry_of d) k s)"
| "run_call rfl drv (Lfclose d) s = kdone (lflclose drv (dentry_of d) s)"
| "run_call rfl drv (Lfcontrol d junk f) s = kdone (lflcontrol drv junk (dentry_of d) f s)"
| "run_call rfl drv (Lfopen name mode) s = kdone (lfsopen drv name mode s)"
| "run_call rfl drv (Lfcreate disk n dsiz) s = kdone (lfscreate drv (run_close rfl drv) disk n dsiz s)"
| "run_call rfl drv (Lfckfmt disk) s = kdone (lfsckfmt drv disk s)"
| "run_call rfl drv Congetc s = kdone (ttygetc (dentry_of 0) s)"
| "run_call rfl drv (Conputc ch) s = kdone (ttyputc (dentry_of 0) ch s)"
| "run_call rfl drv (Conread a n) s = kdone (ttyread (dentry_of 0) a n s)"
| "run_call rfl drv (Conwrite a n) s = kdone (ttywrite (dentry_of 0) a n s)"
| "run_call rfl drv (Concontrol f) s = kdone (ttycontrol (dentry_of 0) f s)"
| "run_call rfl drv (Conintr iir ier rx) s = ttyhandler iir ier rx s"
| "run_call rfl drv (Udpregister remip remport locport) s = Ret (fst (udp_register remip remport locport s)) ()"
| "run_call rfl drv (Udprecv i a n t) s = kdone (udp_recv i a n t s)"
| "run_call rfl drv (Udprecvaddr i ip port a n t) s = kdone (udp_recvaddr i ip port a n t s)"
| "run_call rfl drv (Udpsend i a n) s = kdone (udp_send i a n s)"
| "run_call rfl drv (Udpsendto i ip port a n) s = kdone (udp_sendto i ip port a n s)"
| "run_call rfl drv (Udprelease i) s = kdone (udp_release i s)"
| "run_call rfl drv (Icmpregister ip) s = Ret (fst (icmp_register ip s)) ()"
| "run_call rfl drv (Icmprecv i a n t) s = kdone (icmp_recv i a n t s)"
| "run_call rfl drv (Icmpsend ip type ident seq a n) s = kdone (icmp_send ip type ident seq a n s)"
| "run_call rfl drv (Icmprelease i) s = kdone (icmp_release i s)"
| "run_call rfl drv Getport s = Ret (fst (getport s)) ()"
| "run_call rfl drv Ipout s = ipout_round s"
| "run_call rfl drv Netin s = netin_round s"
| "run_call rfl drv (Ethintr status) s = ethhandler status s"
| "run_call rfl drv (Dma a bs) s = Ret (set_kmem (put (kmem s) a bs) s) ()"

text \<open>
  What the callers have to respect: arguments are 32-bit integers, and the null process makes no
  call that can block (\<^verbatim>\<open>initialize.c\<close> says so).
\<close>

fun call_ok :: "kst \<Rightarrow> kcall \<Rightarrow> bool" where
  "call_ok s (Semcreate n) = (n \<le> INT32_MAX)"
| "call_ok s (Semreset i n) = (n \<le> INT32_MAX)"
| "call_ok s (Wait i) = (currpid s \<noteq> NULLPROC)"
| "call_ok s Receive = (currpid s \<noteq> NULLPROC)"
| "call_ok s (Recvtime n) = (currpid s \<noteq> NULLPROC \<and> n \<le> INT32_MAX)"
| "call_ok s (Sleep n) = (currpid s \<noteq> NULLPROC)"
| "call_ok s (Sleepms n) = (currpid s \<noteq> NULLPROC \<and> n \<le> INT32_MAX)"
| "call_ok s (Kill p) = (currpid s \<noteq> NULLPROC)"
| "call_ok s Exit = (currpid s \<noteq> NULLPROC)"
| "call_ok s (Ptcreate n) = (n \<le> INT32_MAX)"
| "call_ok s (Ptsend i m) = (currpid s \<noteq> NULLPROC)"
| "call_ok s (Ptrecv i) = (currpid s \<noteq> NULLPROC)"
| "call_ok s (Getbuf i) = (currpid s \<noteq> NULLPROC)"
| "call_ok s (Lfgetc d) = (currpid s \<noteq> NULLPROC)"
| "call_ok s (Lfputc d ch) = (currpid s \<noteq> NULLPROC)"
| "call_ok s (Lfread d a n) = (currpid s \<noteq> NULLPROC)"
| "call_ok s (Lfwrite d a n) = (currpid s \<noteq> NULLPROC)"
| "call_ok s (Lfseek d k) = (currpid s \<noteq> NULLPROC)"
| "call_ok s (Lfclose d) = (currpid s \<noteq> NULLPROC)"
| "call_ok s (Lfcontrol d junk f) = (currpid s \<noteq> NULLPROC)"
| "call_ok s (Lfopen name mode) = (currpid s \<noteq> NULLPROC)"
| "call_ok s (Lfcreate disk n dsiz) = (currpid s \<noteq> NULLPROC)"
| "call_ok s Congetc = (currpid s \<noteq> NULLPROC)"
| "call_ok s (Conputc ch) = (currpid s \<noteq> NULLPROC)"
| "call_ok s (Conread a n) = (currpid s \<noteq> NULLPROC)"
| "call_ok s (Conwrite a n) = (currpid s \<noteq> NULLPROC)"
| "call_ok s (Concontrol f) = (currpid s \<noteq> NULLPROC)"
| "call_ok s (Udprecv i a n t) = (currpid s \<noteq> NULLPROC)"
| "call_ok s (Udprecvaddr i ip port a n t) = (currpid s \<noteq> NULLPROC)"
| "call_ok s (Udpsend i a n) = (currpid s \<noteq> NULLPROC)"
| "call_ok s (Udpsendto i ip port a n) = (currpid s \<noteq> NULLPROC)"
| "call_ok s (Icmprecv i a n t) = (currpid s \<noteq> NULLPROC)"
| "call_ok s (Icmpsend ip type ident seq a n) = (currpid s \<noteq> NULLPROC)"
| "call_ok s Ipout = (currpid s \<noteq> NULLPROC)"
| "call_ok s Netin = (currpid s \<noteq> NULLPROC)"
| "call_ok s _ = True"

lemma kdone_safe: "ksafe F p c \<Longrightarrow> ksafe F p (kdone c)"
  unfolding kdone_def by (rule ksafe_bind) simp_all

context file_close
begin

lemma create_disk_safe: "mine F p s \<Longrightarrow> p \<noteq> NULLPROC \<Longrightarrow> ksafe F p (lfscreate drv (run_close rfl drv) disk n dsiz s)"
  using run_close_safe by (intro lfscreate_safe)

lemma run_call_safe:
  assumes m: "mine F p s" and ok: "call_ok s c"
  shows "ksafe F p (run_call rfl drv c s)"
proof -
  have cur: "currpid s = p" by (rule mineD(2) [OF m])
  show ?thesis
    by (cases c) (use ok m cur resume_safe suspend_safe chprio_mine yield_safe wait_safe signal_safe signaln_safe
      semcreate_mine semreset_safe semdelete_safe send_safe receive_safe recvclr_mine recvtime_safe sleep_safe
      sleepms_safe table.kill_safe table.exit_safe clkhandler_safe ptcreate_mine ptsend_safe ptrecv_safe mkbufpool_safe getbuf_safe
      freebuf_safe ttygetc_safe ttyputc_safe ttyread_safe ttywrite_safe ttycontrol_safe ttyhandler_safe
      lflgetc_safe lflputc_safe lflread_safe lflwrite_safe lflseek_safe lflclose_safe lflcontrol_safe lfsopen_safe create_disk_safe
      lfsckfmt_safe udp_register_mine udp_recv_safe udp_recvaddr_safe udp_send_safe udp_sendto_safe udp_release_safe
      icmp_register_mine icmp_recv_safe icmp_send_safe icmp_release_safe getport_mine ipout_round_safe netin_round_safe
      ethhandler_safe in \<open>simp_all add: kdone_safe port_frame split: option.splits\<close>)
qed

end

text \<open>
  A configuration: the current process at user level, or process \<open>p\<close> in the middle of a kernel
  call. The pool holds, for every process that is not running, the rest of the call in which it
  gave up the processor; a new process starts at user level.
\<close>

type_synonym pool = "int \<Rightarrow> kst \<Rightarrow> (kst, unit) kprog"

datatype config = User pool kst | InCall int "(kst, unit) kprog" pool

definition start_user :: "kst \<Rightarrow> (kst, unit) kprog" where
  "start_user s = Ret s ()"

inductive kstep :: "(dentry \<Rightarrow> kst \<Rightarrow> (kst, int) kprog) \<Rightarrow> blkdrv \<Rightarrow> config \<Rightarrow> config \<Rightarrow> bool" for rfl drv where
  enter: "call_ok s c \<Longrightarrow> kstep rfl drv (User P s) (InCall (currpid s) (run_call rfl drv c s) P)"
| creates: "create initret f ssize prio name args s = Ret s' pid \<Longrightarrow> prio \<le> 32767 \<Longrightarrow>
    kstep rfl drv (User P s) (User (P(pid := start_user)) s')"
| returns: "kstep rfl drv (InCall p (Ret s ()) P) (User P s)"
| switches: "P' = P(p := k) \<Longrightarrow>
    kstep rfl drv (InCall p (Ctxsw s k) P) (InCall (currpid s) (P' (currpid s) s) P')"

inductive_cases kstep_userE: "kstep rfl drv (User P s) z"
inductive_cases kstep_callE: "kstep rfl drv (InCall p c P) z"

definition resumable :: "int \<Rightarrow> (kst \<Rightarrow> (kst, unit) kprog) \<Rightarrow> bool" where
  "resumable q k \<longleftrightarrow> (\<forall>F s. mine F q s \<longrightarrow> ksafe F q (k s))"

fun config_ok :: "config \<Rightarrow> bool" where
  "config_ok (User P s) = (kinv {} s \<and>
     (\<forall>q. 0 \<le> q \<longrightarrow> q < NPROC \<longrightarrow> prstate (proctab s q) \<noteq> PR_FREE \<longrightarrow> q \<noteq> currpid s \<longrightarrow> resumable q (P q)))"
| "config_ok (InCall p c P) = (\<exists>F. ksafe F p c \<and> 
     (\<forall>q. 0 \<le> q \<longrightarrow> q < NPROC \<longrightarrow> q \<notin> F \<longrightarrow> q \<noteq> p \<longrightarrow> resumable q (P q)))"

lemma mine_all_free: "kinv F s \<Longrightarrow> mine {q. prstate (proctab s q) = PR_FREE} (currpid s) s"
  by (auto simp: mine_def intro: kinv_free)

context file_close
begin

lemma kstep_ok: "kstep rfl drv x y \<Longrightarrow> config_ok x \<Longrightarrow> config_ok y"
proof (induction rule: kstep.induct)
  case (enter s c P)
  then have "kinv {} s" by simp
  from run_call_safe [OF mine_all_free [OF this] enter(1)]
  show ?case using enter(2) by (auto intro!: exI [of _ "{q. prstate (proctab s q) = PR_FREE}"])
next
  case (creates initret f ssize prio name args s s' pid P)
  let ?F = "{q. prstate (proctab s q) = PR_FREE}"
  let ?P = "P(pid := start_user)"
  have k: "kinv {} s" using creates(3) by simp
  have pool: "resumable q (?P q)" if "0 \<le> q" "q < NPROC" "prstate (proctab s q) \<noteq> PR_FREE \<or> q = pid" "q \<noteq> currpid s" for q
    using that creates(3) by (auto simp: resumable_def start_user_def)
  have fin: "config_ok (User ?P s')" if m: "mine (?F - {pid}) (currpid s) s'"
  proof -
    have c: "currpid s' = currpid s" and k': "kinv {} s'"
      using m kinv_free [of _ s' "{}"] by (auto simp: mine_def)
    have "prstate (proctab s q) \<noteq> PR_FREE \<or> q = pid" if "0 \<le> q" "q < NPROC" "prstate (proctab s' q) \<noteq> PR_FREE" for q
    proof (rule ccontr)
      assume "\<not> (prstate (proctab s q) \<noteq> PR_FREE \<or> q = pid)"
      then have "q \<in> ?F - {pid}" by simp
      moreover have "proc_ok (?F - {pid}) {} s' q"
        using kgoodD(7) [OF mine_kgood [OF m]] that(1,2) by (simp add: kprocs_def)
      ultimately show False using that(3) by (simp add: proc_ok_def)
    qed
    then show ?thesis using pool c k' by simp
  qed
  show ?case
  proof (rule create_cases [OF mine_all_free [OF k] creates(2), of initret f ssize name args])
    fix t assume *: "create initret f ssize prio name args s = Ret t SYSERR" "mine ?F (currpid s) t"
    have "mine (?F - {pid}) (currpid s) t"
      using kgood_fewer [OF mine_kgood [OF *(2)], of "?F - {pid}"] mineD(2,3) [OF *(2)] by (intro mineI) simp_all
    then show ?case using fin * creates(1) by simp
  qed (use creates(1) fin in simp_all)
next
  case (returns p s P)
  then obtain F where F: "mine F p s" "\<And>q. 0 \<le> q \<Longrightarrow> q < NPROC \<Longrightarrow> q \<notin> F \<Longrightarrow> q \<noteq> p \<Longrightarrow> resumable q (P q)"
    by auto
  have "q \<notin> F" if "0 \<le> q" "q < NPROC" "prstate (proctab s q) \<noteq> PR_FREE" for q
    using kgoodD(7) [OF mine_kgood [OF F(1)]] that by (auto simp: kprocs_def proc_ok_def)
  then show ?case using F mineD(2) [OF F(1)] kinv_free [OF mineD(1) [OF F(1)], of "{}"] by simp
next
  case (switches P' P p k s)
  then obtain F where F: "kinv F s" "prstate (proctab s p) \<noteq> PR_FREE \<longrightarrow> resumable p k"
    "\<And>q. 0 \<le> q \<Longrightarrow> q < NPROC \<Longrightarrow> q \<notin> F \<Longrightarrow> q \<noteq> p \<Longrightarrow> resumable q (P q)"
    by (auto simp: resumable_def)
  let ?F = "{q. prstate (proctab s q) = PR_FREE}"
  have m: "mine F (currpid s) s" using F(1) by (simp add: mine_def)
  have live: "resumable q (P' q)" if "0 \<le> q" "q < NPROC" "prstate (proctab s q) \<noteq> PR_FREE" for q
  proof -
    have "q \<notin> F" using kgoodD(7) [OF mine_kgood [OF m]] that by (auto simp: kprocs_def proc_ok_def)
    show ?thesis
    proof (cases "q = p")
      case True
      then show ?thesis using F(2) that(3) switches(1) by simp
    next
      case False
      then show ?thesis using F(3) [OF that(1,2) \<open>q \<notin> F\<close>] switches(1) by simp
    qed
  qed
  have cur: "0 \<le> currpid s" "currpid s < NPROC" "prstate (proctab s (currpid s)) \<noteq> PR_FREE"
    using kinv_currpid [OF F(1)] kinv_cur [OF F(1)] by simp_all
  have "ksafe ?F (currpid s) (P' (currpid s) s)"
    using live [OF cur] mine_all_free [OF F(1)] by (simp add: resumable_def)
  then show ?case using live by (auto intro!: exI [of _ ?F])
qed

lemma reachable_ok: "(kstep rfl drv)\<^sup>*\<^sup>* x y \<Longrightarrow> config_ok x \<Longrightarrow> config_ok y"
  by (induction rule: rtranclp_induct) (auto intro: kstep_ok)

end

text \<open>The state a configuration shows to the processor: between calls, or where a call switches.\<close>

fun settled :: "config \<Rightarrow> kst option" where
  "settled (User P s) = Some s"
| "settled (InCall p (Ret s a) P) = Some s"
| "settled (InCall p (Ctxsw s k) P) = Some s"
| "settled (InCall p (Stop r s) P) = None"

lemma config_ok_settled: "config_ok x \<Longrightarrow> settled x = Some s \<Longrightarrow> kinv {} s"
  by (induction x rule: settled.induct) (auto simp: mine_def intro: kinv_free)

lemma sysinit_config:
  assumes "nextqid s0 = NPROC" "sysinit kend s0 = Some s"
  shows "config_ok (User P s)"
proof -
  note i = sysinit_kinv [OF assms]
  have "resumable q (P q)" if "0 \<le> q" "q < NPROC" "prstate (proctab s q) \<noteq> PR_FREE" "q \<noteq> currpid s" for q
    using i(4) [OF that(1,2)] i(2) that(3,4) by auto
  then show ?thesis using i(1) by simp
qed

end
