(* ===== verification/Abskern.thy ===== *)
theory Abskern
  imports Msgs
begin

text \<open>
  An abstract kernel: the ready list as a list of processes with the keys they were filed under,
  the sleep queue as a list of processes with their delays from now, and each semaphore as its
  state, its count and the list of its waiting processes. \<open>kabs\<close> reads it off a kernel state, and
  each call is shown to be its abstract operation (\<open>a_wait\<close>, \<open>a_signal\<close> and so on) up to the point
  where it returns or switches; there the result is the return value, or none when the processor
  went to another process.
\<close>

section \<open>The abstract kernel\<close>

record aks =
  acur :: int
  aready :: "(int \<times> int) list"
  aprio :: "int \<Rightarrow> int"
  astate :: "int \<Rightarrow> pstate"
  amsg :: "int \<Rightarrow> u32 option"
  asem :: "int \<Rightarrow> sem_state \<times> int \<times> int list"
  asleep :: "(int \<times> int) list"

definition sem_view :: "kst \<Rightarrow> int \<Rightarrow> sem_state \<times> int \<times> int list" where
  "sem_view s i = (if isbadsem i then (S_FREE, 0, [])
     else (sstate (semtab s i), scount (semtab s i), kq s (squeue (semtab s i))))"

definition ready_view :: "kst \<Rightarrow> (int \<times> int) list" where
  "ready_view s = map (\<lambda>p. (p, qkey (queuetab s p))) (kq s (readylist s))"

definition kabs :: "kst \<Rightarrow> aks" where
  "kabs s = \<lparr>acur = currpid s, aready = ready_view s, aprio = (\<lambda>p. prprio (proctab s p)),
     astate = (\<lambda>p. prstate (proctab s p)),
     amsg = (\<lambda>p. if prhasmsg (proctab s p) then Some (prmsg (proctab s p)) else None),
     asem = sem_view s, asleep = delays (queuetab s) 0 (kq s (sleepq s))\<rparr>"

definition abad :: "aks \<Rightarrow> int \<Rightarrow> bool" where
  "abad a p \<longleftrightarrow> p < 0 \<or> p \<ge> NPROC \<or> astate a p = PR_FREE"

definition a_set :: "int \<Rightarrow> pstate \<Rightarrow> aks \<Rightarrow> aks" where
  "a_set p st a = a\<lparr>astate := (astate a)(p := st)\<rparr>"

definition a_place :: "int \<Rightarrow> int \<Rightarrow> (int \<times> int) list \<Rightarrow> (int \<times> int) list" where
  "a_place p k xs = takeWhile (\<lambda>e. k \<le> snd e) xs @ (p, k) # dropWhile (\<lambda>e. k \<le> snd e) xs"

definition a_enlist :: "int \<Rightarrow> aks \<Rightarrow> aks" where
  "a_enlist p a = a_set p PR_READY (a\<lparr>aready := a_place p (aprio a p) (aready a)\<rparr>)"

definition a_dispatch :: "aks \<Rightarrow> aks" where
  "a_dispatch a = (case aready a of [] \<Rightarrow> a
     | e # es \<Rightarrow> a_set (fst e) PR_CURR (a\<lparr>acur := fst e, aready := es\<rparr>))"

text \<open>Rescheduling, with the flag whether the processor switched.\<close>

definition a_resched :: "aks \<Rightarrow> aks \<times> bool" where
  "a_resched a =
     (if astate a (acur a) = PR_CURR then
        (if aready a = [] \<or> snd (hd (aready a)) < aprio a (acur a) then (a, False)
         else (a_dispatch (a_enlist (acur a) a), True))
      else (a_dispatch a, True))"

text \<open>The result of a call: none when the caller lost the processor.\<close>

definition a_ret :: "'r \<Rightarrow> aks \<times> bool \<Rightarrow> aks \<times> 'r option" where
  "a_ret r x = (fst x, if snd x then None else Some r)"

definition a_ready :: "int \<Rightarrow> aks \<Rightarrow> aks \<times> bool" where
  "a_ready p a = a_resched (a_enlist p a)"

definition a_resume :: "int \<Rightarrow> aks \<Rightarrow> aks \<times> int option" where
  "a_resume p a =
     (if abad a p \<or> astate a p \<noteq> PR_SUSP then (a, Some SYSERR)
      else a_ret (aprio a p) (a_ready p a))"

definition a_suspend :: "int \<Rightarrow> aks \<Rightarrow> aks \<times> int option" where
  "a_suspend p a =
     (if abad a p \<or> p = NULLPROC then (a, Some SYSERR)
      else if astate a p = PR_READY
        then (a_set p PR_SUSP (a\<lparr>aready := filter (\<lambda>e. fst e \<noteq> p) (aready a)\<rparr>), Some (aprio a p))
      else if astate a p = PR_CURR then (a_dispatch (a_set p PR_SUSP a), None)
      else (a, Some SYSERR))"

definition a_wait :: "int \<Rightarrow> aks \<Rightarrow> aks \<times> int option" where
  "a_wait i a =
     (let (st, c, ws) = asem a i in
      if st = S_FREE then (a, Some SYSERR)
      else if 0 < c then (a\<lparr>asem := (asem a)(i := (st, c - 1, ws))\<rparr>, Some OK)
      else (a_dispatch (a_set (acur a) PR_WAIT (a\<lparr>asem := (asem a)(i := (st, c - 1, ws @ [acur a]))\<rparr>)), None))"

definition a_signal :: "int \<Rightarrow> aks \<Rightarrow> aks \<times> int option" where
  "a_signal i a =
     (let (st, c, ws) = asem a i in
      if st = S_FREE then (a, Some SYSERR)
      else case ws of [] \<Rightarrow> (a\<lparr>asem := (asem a)(i := (st, c + 1, []))\<rparr>, Some OK)
        | w # ws' \<Rightarrow> a_ret OK (a_ready w (a\<lparr>asem := (asem a)(i := (st, c + 1, ws'))\<rparr>)))"

definition a_sleep :: "int \<Rightarrow> aks \<Rightarrow> aks \<times> int option" where
  "a_sleep n a =
     (if n < 0 then (a, Some SYSERR)
      else if n = 0 then a_ret OK (a_resched a)
      else (a_dispatch (a_set (acur a) PR_SLEEP
         (a\<lparr>asleep := takeWhile (\<lambda>e. snd e \<le> n) (asleep a) @ (acur a, n) # dropWhile (\<lambda>e. snd e \<le> n) (asleep a)\<rparr>)), None))"

definition a_send :: "int \<Rightarrow> u32 \<Rightarrow> aks \<Rightarrow> aks \<times> int option" where
  "a_send p m a =
     (if abad a p \<or> amsg a p \<noteq> None then (a, Some SYSERR)
      else let a1 = a\<lparr>amsg := (amsg a)(p := Some m)\<rparr> in
        if astate a p = PR_RECV then a_ret OK (a_ready p a1)
        else if astate a p = PR_RECTIM
          then a_ret OK (a_ready p (a1\<lparr>asleep := filter (\<lambda>e. fst e \<noteq> p) (asleep a1)\<rparr>))
        else (a1, Some OK))"

definition a_receive :: "aks \<Rightarrow> aks \<times> u32 option" where
  "a_receive a =
     (case amsg a (acur a) of
        Some m \<Rightarrow> (a\<lparr>amsg := (amsg a)(acur a := None)\<rparr>, Some m)
      | None \<Rightarrow> (a_dispatch (a_set (acur a) PR_RECV a), None))"

section \<open>Observing a call\<close>

fun here :: "('s, 'a) kprog \<Rightarrow> ('s \<times> 'a option) option" where
  "here (Ret s a) = Some (s, Some a)"
| "here (Ctxsw s k) = Some (s, None)"
| "here (Stop r s) = None"

lemma here_bind_Ret: "here (kbind c (\<lambda>s _. Ret s x)) = map_option (\<lambda>(s, r). (s, map_option (\<lambda>_. x) r)) (here c)"
  by (cases c) simp_all

definition refines :: "int set \<Rightarrow> (kst, 'a) kprog \<Rightarrow> aks \<times> 'a option \<Rightarrow> bool" where
  "refines F c x \<longleftrightarrow> (\<exists>s r. here c = Some (s, r) \<and> kinv F s \<and> x = (kabs s, r))"

lemma refinesI: "here c = Some (s, r) \<Longrightarrow> kinv F s \<Longrightarrow> x = (kabs s, r) \<Longrightarrow> refines F c x"
  by (auto simp: refines_def)

lemma refines_here: "refines F c x \<Longrightarrow> \<exists>s. here c = Some (s, snd x) \<and> kinv F s \<and> kabs s = fst x"
  by (auto simp: refines_def)

lemma refines_Ret: "refines F (Ret s r) x \<longleftrightarrow> kinv F s \<and> x = (kabs s, Some r)"
  by (auto simp: refines_def)

lemma refines_bind: "refines F c (a_ret y x) \<Longrightarrow> refines F (kbind c (\<lambda>s _. Ret s r)) (a_ret r x)"
  by (auto simp: refines_def here_bind_Ret a_ret_def)

lemma refines_bind_none: "refines F c (a, None) \<Longrightarrow> refines F (kbind c f) (a, None)"
  by (cases c) (auto simp: refines_def)

section \<open>Dispatching\<close>

lemma kabs_simps [simp]:
  "acur (kabs s) = currpid s" "aready (kabs s) = ready_view s" "aprio (kabs s) p = prprio (proctab s p)"
  "astate (kabs s) p = prstate (proctab s p)" "asem (kabs s) = sem_view s"
  "asleep (kabs s) = delays (queuetab s) 0 (kq s (sleepq s))"
  "amsg (kabs s) p = (if prhasmsg (proctab s p) then Some (prmsg (proctab s p)) else None)"
  by (simp_all add: kabs_def)

lemma abad_kabs [simp]: "abad (kabs s) p = isbadpid s p"
  by (simp add: abad_def isbadpid_def)

lemma kabs_eqI:
  assumes "currpid s' = acur a" "ready_view s' = aready a" "\<And>p. prprio (proctab s' p) = aprio a p"
    "\<And>p. prstate (proctab s' p) = astate a p" "\<And>i. sem_view s' i = asem a i"
    "delays (queuetab s') 0 (kq s' (sleepq s')) = asleep a"
    "\<And>p. (if prhasmsg (proctab s' p) then Some (prmsg (proctab s' p)) else None) = amsg a p"
  shows "kabs s' = a"
  unfolding kabs_def assms using assms(5) by (simp add: fun_eq_iff)

lemma a_simps [simp]:
  "acur (a_set p st a) = acur a" "aready (a_set p st a) = aready a" "aprio (a_set p st a) = aprio a"
  "astate (a_set p st a) = (astate a)(p := st)" "amsg (a_set p st a) = amsg a" "asem (a_set p st a) = asem a"
  "asleep (a_set p st a) = asleep a"
  by (simp_all add: a_set_def)

lemma a_enlist_simps [simp]:
  "acur (a_enlist p a) = acur a" "aready (a_enlist p a) = a_place p (aprio a p) (aready a)"
  "aprio (a_enlist p a) = aprio a" "astate (a_enlist p a) = (astate a)(p := PR_READY)"
  "amsg (a_enlist p a) = amsg a" "asem (a_enlist p a) = asem a" "asleep (a_enlist p a) = asleep a"
  by (simp_all add: a_enlist_def)

text \<open>What no change of the ready list touches.\<close>

lemma sem_view_cong:
  assumes "semtab s' i = semtab s i"
    and "\<not> isbadsem i \<Longrightarrow> kq s' (squeue (semtab s i)) = kq s (squeue (semtab s i))"
  shows "sem_view s' i = sem_view s i"
  using assms by (simp add: sem_view_def)

lemma sem_view_ready:
  assumes "kgood F E cur X d s" "semtab s' = semtab s"
    and "\<And>q. q \<in> qids (nextqid s) \<Longrightarrow> q \<noteq> readylist s \<Longrightarrow> kq s' q = kq s q"
  shows "sem_view s' = sem_view s"
proof
  fix i
  have "kq s' (squeue (semtab s i)) = kq s (squeue (semtab s i))" if "\<not> isbadsem i"
    by (rule assms(3)) (fact kgood_sem(1,2) [OF assms(1) that])+
  then show "sem_view s' i = sem_view s i" using assms(2) by (intro sem_view_cong) simp_all
qed

lemma sleep_view_ready:
  assumes "kgood F E cur X d s" "sleepq s' = sleepq s"
    and "\<And>q. q \<in> qids (nextqid s) \<Longrightarrow> q \<noteq> readylist s \<Longrightarrow> kq s' q = kq s q"
    and "\<And>i. i \<in> set (kq s (sleepq s)) \<Longrightarrow> qkey (queuetab s' i) = qkey (queuetab s i)"
  shows "delays (queuetab s') a (kq s' (sleepq s')) = delays (queuetab s) a (kq s (sleepq s))"
proof -
  have "kq s' (sleepq s) = kq s (sleepq s)"
    using assms(3) [OF kgoodD(10) [OF assms(1)]] kgoodD(11) [OF assms(1)] by simp
  then show ?thesis
    using delays_cong [of "kq s (sleepq s)" "queuetab s'" "queuetab s" a] assms(2,4) by simp
qed

lemma a_place_map:
  assumes "p \<notin> set xs" "\<And>i. qkey (t' i) = (if i = p then key else qkey (t i))"
  shows "map (\<lambda>x. (x, qkey (t' x))) (takeWhile (at_least t key) xs @ p # dropWhile (at_least t key) xs)
    = a_place p key (map (\<lambda>x. (x, qkey (t x))) xs)"
proof -
  have "map (\<lambda>x. (x, qkey (t' x))) ys = map (\<lambda>x. (x, qkey (t x))) ys" if "set ys \<subseteq> set xs" for ys
    using that assms by auto
  then have "map (\<lambda>x. (x, qkey (t' x))) (takeWhile P xs) = map (\<lambda>x. (x, qkey (t x))) (takeWhile P xs)"
    "map (\<lambda>x. (x, qkey (t' x))) (dropWhile P xs) = map (\<lambda>x. (x, qkey (t x))) (dropWhile P xs)" for P
    by (auto dest: set_takeWhileD set_dropWhileD)
  then show ?thesis
    using assms(2) by (simp add: a_place_def takeWhile_map dropWhile_map at_least_def [abs_def] comp_def)
qed

lemma firstkey_view:
  assumes "kgood F E cur X d s"
  shows "firstkey s (readylist s) = (if ready_view s = [] then MINKEY else snd (hd (ready_view s)))"
proof -
  have "firstid s (readylist s) = hd (kq s (readylist s) @ [readylist s + 1])"
    by (rule firstid_hd [OF kgoodD(6,9) [OF assms]])
  moreover have "qkey (queuetab s (readylist s + 1)) = MINKEY"
    using wfq_is_queue [OF kgoodD(6,9) [OF assms]] by (simp add: is_queue_def)
  ultimately show ?thesis by (cases "kq s (readylist s)") (simp_all add: firstkey_def ready_view_def)
qed

lemma resched_switch_abs:
  assumes g: "kgood F {} None {} True s" and nd: "ndefers s = 0"
  obtains s' where "resched_switch s = Ctxsw s' (\<lambda>s. Ret s ())" "kinv F s'" "kabs s' = a_dispatch (kabs s)"
proof (rule resched_switch_spec [OF g nd])
  fix s' p xs
  assume *: "resched_switch s = Ctxsw s' (\<lambda>s. Ret s ())" "kinv F s'" "kq s (readylist s) = p # xs"
    "currpid s' = p" "readylist s' = readylist s" "kq s' (readylist s') = xs"
    "\<And>i. qkey (queuetab s' i) = qkey (queuetab s i)"
    "proctab s' = (proctab s)(p := (proctab s p)\<lparr>prstate := PR_CURR\<rparr>)" "semtab s' = semtab s" "sleepq s' = sleepq s"
    "\<And>q. q \<in> qids (nextqid s) \<Longrightarrow> q \<noteq> readylist s \<Longrightarrow> kq s' q = kq s q"
  have "kabs s' = a_dispatch (kabs s)"
  proof (rule kabs_eqI)
    show "ready_view s' = aready (a_dispatch (kabs s))"
      using * by (simp add: a_dispatch_def ready_view_def)
    show "delays (queuetab s') 0 (kq s' (sleepq s')) = asleep (a_dispatch (kabs s))"
      using *(3) sleep_view_ready [OF g *(10,11), of 0] *(7) by (simp add: a_dispatch_def ready_view_def)
    show "sem_view s' i = asem (a_dispatch (kabs s)) i" for i
      using *(3) sem_view_ready [OF g *(9,11)] by (simp add: a_dispatch_def ready_view_def)
  qed (use * in \<open>simp_all add: a_dispatch_def ready_view_def\<close>)
  with *(1,2) show thesis by (rule that)
qed

lemma resched_blocked_abs:
  assumes "kgood F {} None {} True s" "ndefers s = 0"
  shows "refines F (resched s) (a_dispatch (kabs s), None)"
proof (rule resched_switch_abs [OF assms])
  fix s'
  assume "resched_switch s = Ctxsw s' (\<lambda>s. Ret s ())" "kinv F s'" "kabs s' = a_dispatch (kabs s)"
  then show ?thesis using resched_blocked [OF assms] by (simp add: refines_def)
qed

lemma resched_abs:
  assumes k: "kinv F s"
  shows "refines F (resched s) (a_ret () (a_resched (kabs s)))"
proof -
  let ?p = "currpid s"
  note g = kinv_kgood [OF k]
  have p: "0 \<le> ?p" "?p < NPROC" using kgoodD(12,13) [OF g] .
  have cur: "astate (kabs s) (acur (kabs s)) = PR_CURR" using kinv_cur [OF k] by simp
  have lo: "MINKEY < prprio (proctab s ?p)" using kgood_prio [OF g p] by simp
  show ?thesis
  proof (cases "prprio (proctab s ?p) > firstkey s (readylist s)")
    case True
    then have "a_resched (kabs s) = (kabs s, False)"
      using cur firstkey_view [OF g] by (auto simp: a_resched_def split: if_splits)
    moreover have "resched s = Ret s ()"
      using True kinv_cur [OF k] kinv_nd [OF k] by (simp add: resched_def Let_def)
    ultimately show ?thesis using k by (simp add: refines_Ret a_ret_def)
  next
    case False
    have a: "a_resched (kabs s) = (a_dispatch (a_enlist ?p (kabs s)), True)"
      using False cur lo firstkey_view [OF g] by (auto simp: a_resched_def split: if_splits)
    show ?thesis
    proof (rule resched_preempted [OF k])
      show "prprio (proctab s ?p) \<le> firstkey s (readylist s)" using False by simp
      fix s2
      assume s2: "resched s = resched_switch s2" "kgood F {} None {} True s2" "ndefers s2 = 0"
        "currpid s2 = ?p" "readylist s2 = readylist s"
        "kq s2 (readylist s) = takeWhile (at_least (queuetab s) (prprio (proctab s ?p))) (kq s (readylist s))
          @ ?p # dropWhile (at_least (queuetab s) (prprio (proctab s ?p))) (kq s (readylist s))"
        "\<And>i. qkey (queuetab s2 i) = (if i = ?p then prprio (proctab s ?p) else qkey (queuetab s i))"
        "proctab s2 = (proctab s)(?p := (proctab s ?p)\<lparr>prstate := PR_READY\<rparr>)"
        "semtab s2 = semtab s" "sleepq s2 = sleepq s"
        "\<And>q. q \<in> qids (nextqid s) \<Longrightarrow> q \<noteq> readylist s \<Longrightarrow> kq s2 q = kq s q"
      have h: "home s ?p = None" using kinv_cur [OF k] by (simp add: home_def)
      have off: "?p \<notin> set (kq s q)" if "q \<in> qids (nextqid s)" for q
        using kgood_mem [OF g p that] h by simp
      have "kabs s2 = a_enlist ?p (kabs s)"
      proof (rule kabs_eqI)
        show "ready_view s2 = aready (a_enlist ?p (kabs s))"
          using a_place_map [OF off [OF kgoodD(9) [OF g]] s2(7)] s2(5,6) by (simp add: ready_view_def)
        have "i \<noteq> ?p" if "i \<in> set (kq s (sleepq s))" for i
          using off [OF kgoodD(10) [OF g]] that by auto
        then show "delays (queuetab s2) 0 (kq s2 (sleepq s2)) = asleep (a_enlist ?p (kabs s))"
          using sleep_view_ready [OF g s2(10,11), of 0] s2(7) by simp
        show "sem_view s2 i = asem (a_enlist ?p (kabs s)) i" for i
          using sem_view_ready [OF g s2(9,11)] by simp
      qed (use s2 in simp_all)
      moreover obtain s' where "resched_switch s2 = Ctxsw s' (\<lambda>s. Ret s ())" "kinv F s'" "kabs s' = a_dispatch (kabs s2)"
        by (rule resched_switch_abs [OF s2(2,3)])
      ultimately show ?thesis using s2(1) a by (intro refinesI [of _ s' None]) (simp_all add: a_ret_def)
    qed
  qed
qed

section \<open>The calls\<close>

lemma enlist_abs:
  assumes g: "kgood F E (Some c) X d s" and pid: "pid \<in> E" "0 \<le> pid" "pid < NPROC"
    and s2: "currpid s2 = currpid s" "semtab s2 = semtab s" "readylist s2 = readylist s" "sleepq s2 = sleepq s"
      "proctab s2 = (proctab s)(pid := (proctab s pid)\<lparr>prstate := PR_READY\<rparr>)"
      "kq s2 (readylist s) = takeWhile (at_least (queuetab s) (prprio (proctab s pid))) (kq s (readylist s))
        @ pid # dropWhile (at_least (queuetab s) (prprio (proctab s pid))) (kq s (readylist s))"
      "\<And>q. q \<in> qids (nextqid s) \<Longrightarrow> q \<noteq> readylist s \<Longrightarrow> kq s2 q = kq s q"
      "\<And>i. qkey (queuetab s2 i) = (if i = pid then prprio (proctab s pid) else qkey (queuetab s i))"
  shows "kabs s2 = a_enlist pid (kabs s)"
proof (rule kabs_eqI)
  have off: "pid \<notin> set (kq s q)" if "q \<in> qids (nextqid s)" for q
    using kgood_mem [OF g pid(2,3) that] pid(1) by simp
  show "ready_view s2 = aready (a_enlist pid (kabs s))"
    using a_place_map [OF off [OF kgoodD(9) [OF g]] s2(8)] s2(3,6) by (simp add: ready_view_def)
  have "i \<noteq> pid" if "i \<in> set (kq s (sleepq s))" for i
    using off [OF kgoodD(10) [OF g]] that by auto
  then show "delays (queuetab s2) 0 (kq s2 (sleepq s2)) = asleep (a_enlist pid (kabs s))"
    using sleep_view_ready [OF g s2(4,7), of 0] s2(8) by simp
  show "sem_view s2 i = asem (a_enlist pid (kabs s)) i" for i
    using sem_view_ready [OF g s2(2,7)] by simp
qed (use s2 in simp_all)

lemma ready_abs:
  assumes g: "kgood F {pid} (Some p) {} True s" and cur: "currpid s = p" and nd: "ndefers s = 0"
    and pid: "pid \<noteq> p" "\<not> isbadpid s pid"
  shows "refines F (ready pid s) (a_ret OK (a_ready pid (kabs s)))"
proof (rule ready_enter [OF g singletonI pid])
  fix s2
  assume s2: "ready pid s = kbind (resched s2) (\<lambda>s3 _. Ret s3 OK)" "kgood F ({pid} - {pid}) (Some p) {} True s2"
    "ndefers s2 = ndefers s" "currpid s2 = currpid s" "semtab s2 = semtab s" "readylist s2 = readylist s"
    "sleepq s2 = sleepq s" "proctab s2 = (proctab s)(pid := (proctab s pid)\<lparr>prstate := PR_READY\<rparr>)"
    "kq s2 (readylist s) = takeWhile (at_least (queuetab s) (prprio (proctab s pid))) (kq s (readylist s))
      @ pid # dropWhile (at_least (queuetab s) (prprio (proctab s pid))) (kq s (readylist s))"
    "\<And>q. q \<in> qids (nextqid s) \<Longrightarrow> q \<noteq> readylist s \<Longrightarrow> kq s2 q = kq s q"
    "\<And>i. qkey (queuetab s2 i) = (if i = pid then prprio (proctab s pid) else qkey (queuetab s i))"
  have "0 \<le> pid" "pid < NPROC" using pid(2) by (simp_all add: isbadpid_def)
  then have "kabs s2 = a_enlist pid (kabs s)"
    using s2 by (intro enlist_abs [OF g]) simp_all
  moreover have "kinv F s2" using s2(2-4) cur nd by (simp add: kinv_def)
  ultimately show ?thesis
    using resched_abs [of F s2] s2(1) refines_bind by (simp add: a_ready_def)
qed

lemma yield_abs: "kinv F s \<Longrightarrow> refines F (yield s) (a_ret OK (a_resched (kabs s)))"
  unfolding yield_def by (rule refines_bind [OF resched_abs])

lemma resume_abs:
  assumes k: "kinv F s"
  shows "refines F (resume pid s) (a_resume pid (kabs s))"
proof (cases "isbadpid s pid \<or> prstate (proctab s pid) \<noteq> PR_SUSP")
  case True
  then show ?thesis using k by (auto simp: resume_def a_resume_def refines_Ret)
next
  case False
  have ne: "pid \<noteq> currpid s" using kinv_cur [OF k] False by auto
  have "kgood F {pid} (Some (currpid s)) {} True s"
    using kgood_take [OF kinv_kgood [OF k], of pid] False by (simp add: home_def)
  then have "refines F (ready pid s) (a_ret OK (a_ready pid (kabs s)))"
    using kinv_nd [OF k] ne False by (intro ready_abs) simp_all
  then show ?thesis
    using False by (simp add: resume_def a_resume_def Let_def) (rule refines_bind)
qed

text \<open>Blocking the current process: it gets a new state, and the first ready process runs.\<close>

lemma block_abs:
  assumes k: "kinv F s" and st: "st \<noteq> PR_CURR" "st \<noteq> PR_READY" "currpid s \<noteq> NULLPROC"
    and h: "home (set_prstate (currpid s) st s) (currpid s) = None"
    and e: "entry_ok (currpid s) ((proctab s (currpid s))\<lparr>prstate := st\<rparr>)"
  shows "refines F (resched (set_prstate (currpid s) st s)) (a_dispatch (a_set (currpid s) st (kabs s)), None)"
proof -
  let ?p = "currpid s" and ?s = "set_prstate (currpid s) st s"
  note g = kinv_kgood [OF k]
  have p: "0 \<le> ?p" "?p < NPROC" using kgoodD(12,13) [OF g] .
  have "kgood F {?p} (Some ?p) {} True s"
    using kgood_take [OF g, of ?p] kinv_cur [OF k] by (simp add: home_def)
  then have "kgood F {?p} None {} True ?s"
    using kgood_prio [OF g p] kinv_cur [OF k] st unfolding set_prstate_def by (intro kgood_upd) auto
  then have "kgood F ({?p} - {?p}) None {} True ?s"
    by (rule kgood_drop) (use h e in simp_all)
  then have "refines F (resched ?s) (a_dispatch (kabs ?s), None)"
    using kinv_nd [OF k] by (intro resched_blocked_abs) simp_all
  moreover have "kabs ?s = a_set ?p st (kabs s)"
    by (rule kabs_eqI) (simp_all add: ready_view_def sem_view_def)
  ultimately show ?thesis by simp
qed

lemma suspend_abs:
  assumes k: "kinv F s"
  shows "refines F (suspend pid s) (a_suspend pid (kabs s))"
proof -
  note g = kinv_kgood [OF k]
  consider "isbadpid s pid \<or> pid = NULLPROC \<or> (prstate (proctab s pid) \<noteq> PR_CURR \<and> prstate (proctab s pid) \<noteq> PR_READY)"
    | "\<not> isbadpid s pid" "pid \<noteq> NULLPROC" "prstate (proctab s pid) = PR_READY"
    | "\<not> isbadpid s pid" "pid \<noteq> NULLPROC" "prstate (proctab s pid) = PR_CURR"
    by blast
  then show ?thesis
  proof cases
    case 1
    then show ?thesis using k by (auto simp: suspend_def a_suspend_def refines_Ret)
  next
    case 2
    then have pid: "0 \<le> pid" "pid < NPROC" by (simp_all add: isbadpid_def)
    let ?s1 = "set_prstate pid PR_SUSP (s\<lparr>queuetab := unlink pid (queuetab s)\<rparr>)"
    have eq: "suspend pid s = Ret ?s1 (prprio (proctab s pid))"
      using 2 by (simp add: suspend_def getitem_eq Let_def)
    have "ksafe F (currpid s) (suspend pid s)" using k by (intro suspend_safe) (simp add: mine_def)
    then have k1: "kinv F ?s1" using eq by (simp add: mine_def)
    note rl = kgoodD(6,9) [OF g]
    have mem: "pid \<in> set (kq s (readylist s))"
      using kgood_mem [OF g pid kgoodD(9) [OF g]] 2(3) by (simp add: home_def)
    have up: "qupdated (nextqid s) (queuetab s) (unlink pid (queuetab s)) (readylist s) (remove1 pid (kq s (readylist s)))"
      by (rule unlink_spec [OF rl mem])
    have kq1: "kq ?s1 q = (if q = readylist s then remove1 pid (kq s q) else kq s q)" if "q \<in> qids (nextqid s)" for q
      using up that by (simp add: qupdated_def)
    have "kabs ?s1 = a_set pid PR_SUSP (kabs s\<lparr>aready := filter (\<lambda>e. fst e \<noteq> pid) (aready (kabs s))\<rparr>)"
    proof (rule kabs_eqI)
      have "remove1 pid (kq s (readylist s)) = filter (\<lambda>x. x \<noteq> pid) (kq s (readylist s))"
        using wfq_distinct [OF rl] by (auto simp: distinct_remove1_removeAll removeAll_filter_not_eq intro: filter_cong)
      then show "ready_view ?s1 = aready (a_set pid PR_SUSP (kabs s\<lparr>aready := filter (\<lambda>e. fst e \<noteq> pid) (aready (kabs s))\<rparr>))"
        using kq1 [OF kgoodD(9) [OF g]] by (simp add: ready_view_def filter_map comp_def qtab_simps)
      show "delays (queuetab ?s1) 0 (kq ?s1 (sleepq ?s1))
        = asleep (a_set pid PR_SUSP (kabs s\<lparr>aready := filter (\<lambda>e. fst e \<noteq> pid) (aready (kabs s))\<rparr>))"
        using sleep_view_ready [OF g, of ?s1 0] kq1 by (simp add: qtab_simps)
      show "sem_view ?s1 i = asem (a_set pid PR_SUSP (kabs s\<lparr>aready := filter (\<lambda>e. fst e \<noteq> pid) (aready (kabs s))\<rparr>)) i" for i
        using sem_view_ready [OF g, of ?s1] kq1 by simp
    qed simp_all
    then show ?thesis using 2 k1 eq by (simp add: a_suspend_def refines_Ret)
  next
    case 3
    then have eq: "pid = currpid s" using kinv_curD [OF k, of pid] by (simp add: isbadpid_def)
    have "refines F (resched (set_prstate pid PR_SUSP s)) (a_dispatch (a_set pid PR_SUSP (kabs s)), None)"
      using block_abs [OF k, of PR_SUSP] 3 eq by (simp add: home_def entry_ok_def)
    then show ?thesis
      using 3 by (simp add: suspend_def a_suspend_def) (rule refines_bind_none)
  qed
qed

section \<open>Semaphores\<close>

lemma wait_abs:
  assumes k: "kinv F s" and p0: "currpid s \<noteq> NULLPROC"
  shows "refines F (wait sem s) (a_wait sem (kabs s))"
proof (cases "isbadsem sem \<or> sstate (semtab s sem) = S_FREE")
  case True
  then show ?thesis using k by (auto simp: wait_def a_wait_def refines_Ret sem_view_def)
next
  case False
  then have i: "\<not> isbadsem sem" by simp
  have u: "sstate (semtab s sem) = S_USED" using False by (cases "sstate (semtab s sem)") simp_all
  have m: "mine F (currpid s) s" using k by (simp add: mine_def)
  note g = kinv_kgood [OF k]
  let ?q = "squeue (semtab s sem)"
  show ?thesis
  proof (rule wait_enter [OF m i u p0])
    let ?s1 = "upd_sem sem (\<lambda>e. e\<lparr>scount := scount e - 1\<rparr>) s"
    assume *: "0 < scount (semtab s sem)" "wait sem s = Ret ?s1 OK" "mine F (currpid s) ?s1"
    have "kabs ?s1 = kabs s\<lparr>asem := (sem_view s)(sem := (S_USED, scount (semtab s sem) - 1, kq s ?q))\<rparr>"
      by (rule kabs_eqI) (use i u in \<open>auto simp: ready_view_def sem_view_def\<close>)
    then show ?thesis
      using * i u by (simp add: refines_Ret mine_def a_wait_def sem_view_def)
  next
    fix s2
    assume *: "scount (semtab s sem) \<le> 0" "wait sem s = kbind (resched s2) (\<lambda>s3 _. Ret s3 OK)"
      "kgood F {} None {} True s2" "ndefers s2 = 0" "currpid s2 = currpid s"
      "semtab s2 = (semtab s)(sem := (semtab s sem)\<lparr>scount := scount (semtab s sem) - 1\<rparr>)"
      "proctab s2 = (proctab s)(currpid s := (proctab s (currpid s))\<lparr>prstate := PR_WAIT, prsem := sem\<rparr>)"
      "kq s2 ?q = kq s ?q @ [currpid s]"
      "\<And>q. q \<in> qids (nextqid s) \<Longrightarrow> q \<noteq> ?q \<Longrightarrow> kq s2 q = kq s q"
      "readylist s2 = readylist s" "sleepq s2 = sleepq s" "\<And>j. qkey (queuetab s2 j) = qkey (queuetab s j)"
    note q = kgood_sem [OF g i]
    have sv: "sem_view s2 = (sem_view s)(sem := (S_USED, scount (semtab s sem) - 1, kq s ?q @ [currpid s]))"
    proof
      fix j
      have "kq s2 (squeue (semtab s j)) = kq s (squeue (semtab s j))" if "\<not> isbadsem j" "j \<noteq> sem"
        using *(9) [OF kgood_sem(1) [OF g that(1)]] kgood_sem_inj [OF g that(1) i] that(2) by blast
      then show "sem_view s2 j = ((sem_view s)(sem := (S_USED, scount (semtab s sem) - 1, kq s ?q @ [currpid s]))) j"
        using *(6,8) i u by (simp add: sem_view_def)
    qed
    have "kabs s2 = a_set (currpid s) PR_WAIT (kabs s\<lparr>asem := (asem (kabs s))(sem := (S_USED, scount (semtab s sem) - 1,
        kq s ?q @ [currpid s]))\<rparr>)" (is "_ = ?a")
    proof (rule kabs_eqI)
      show "ready_view s2 = aready ?a"
        using *(9) [OF kgoodD(9) [OF g]] *(10,12) q by (simp add: ready_view_def)
      have "kq s2 (sleepq s) = kq s (sleepq s)" using *(9) [OF kgoodD(10) [OF g]] q by simp
      then show "delays (queuetab s2) 0 (kq s2 (sleepq s2)) = asleep ?a"
        using *(11,12) delays_cong [of "kq s (sleepq s)" "queuetab s2" "queuetab s" 0] by simp
      show "sem_view s2 i = asem ?a i" for i using sv by simp
    qed (use * in simp_all)
    then show ?thesis
      using resched_blocked_abs [OF *(3,4)] *(1,2) i u
      by (simp add: a_wait_def sem_view_def refines_bind_none)
  qed
qed

text \<open>A process taken off a semaphore's queue, and a change of the semaphore's entry.\<close>

lemma unqueue_abs:
  assumes g: "kgood F E cur X d s" and i: "\<not> isbadsem i"
    and u: "qupdated (nextqid s) (queuetab s) t' (squeue (semtab s i)) ws" and k: "\<And>j. qkey (t' j) = qkey (queuetab s j)"
  shows "kabs (s\<lparr>queuetab := t'\<rparr>) = kabs s\<lparr>asem := (sem_view s)(i := (sstate (semtab s i), scount (semtab s i), ws))\<rparr>"
    (is "_ = ?a")
proof (rule kabs_eqI)
  note q = kgood_sem [OF g i]
  have kq1: "qlist t' r = (if r = squeue (semtab s i) then ws else kq s r)" if "r \<in> qids (nextqid s)" for r
    using u that by (simp add: qupdated_def)
  show "ready_view (s\<lparr>queuetab := t'\<rparr>) = aready ?a"
    using kq1 [OF kgoodD(9) [OF g]] k q by (simp add: ready_view_def)
  show "delays (queuetab (s\<lparr>queuetab := t'\<rparr>)) 0 (kq (s\<lparr>queuetab := t'\<rparr>) (sleepq (s\<lparr>queuetab := t'\<rparr>))) = asleep ?a"
    using kq1 [OF kgoodD(10) [OF g]] k q delays_cong [of "kq s (sleepq s)" t' "queuetab s" 0] by simp
  show "sem_view (s\<lparr>queuetab := t'\<rparr>) j = asem ?a j" for j
  proof (cases "isbadsem j \<or> j = i")
    case True
    then show ?thesis using i kq1 [OF q(1)] by (auto simp: sem_view_def)
  next
    case False
    then have "squeue (semtab s j) \<noteq> squeue (semtab s i)" using kgood_sem_inj [OF g _ i] by blast
    then show ?thesis using False kq1 [OF kgood_sem(1) [OF g]] by (simp add: sem_view_def)
  qed
qed simp_all

lemma upd_sem_abs:
  assumes "\<not> isbadsem i" "squeue (f (semtab s i)) = squeue (semtab s i)" "sem_view s i = (st, c, ws)"
  shows "kabs (upd_sem i f s) = kabs s\<lparr>asem := (sem_view s)(i := (sstate (f (semtab s i)), scount (f (semtab s i)), ws))\<rparr>"
  by (rule kabs_eqI) (use assms in \<open>auto simp: ready_view_def sem_view_def\<close>)

lemma signalled_unqueue_abs:
  assumes g: "kgood F E cur X d s" and i: "\<not> isbadsem i" "sstate (semtab s i) = S_USED" "scount (semtab s i) = c"
    and u: "qupdated (nextqid s) (queuetab s) t' (squeue (semtab s i)) ws" and k: "\<And>j. qkey (t' j) = qkey (queuetab s j)"
  shows "kabs ((signalled i s)\<lparr>queuetab := t'\<rparr>) = kabs s\<lparr>asem := (sem_view s)(i := (S_USED, c + 1, ws))\<rparr>"
proof -
  have "qlist t' (squeue (semtab s i)) = ws"
    using u kgood_sem(1) [OF g i(1)] by (simp add: qupdated_def)
  then have "sem_view (s\<lparr>queuetab := t'\<rparr>) i = (S_USED, c, ws)" using i by (simp add: sem_view_def)
  moreover have "sem_view (s\<lparr>queuetab := t'\<rparr>) = (sem_view s)(i := (S_USED, c, ws))"
    using arg_cong [OF unqueue_abs [OF g i(1) u k], of asem] i by simp
  moreover have "(signalled i s)\<lparr>queuetab := t'\<rparr> = upd_sem i (\<lambda>e. e\<lparr>scount := scount e + 1\<rparr>) (s\<lparr>queuetab := t'\<rparr>)"
    by (simp add: signalled_def upd_sem_def)
  ultimately show ?thesis
    using upd_sem_abs [OF i(1), of "\<lambda>e. e\<lparr>scount := scount e + 1\<rparr>" "s\<lparr>queuetab := t'\<rparr>"] unqueue_abs [OF g i(1) u k] i
    by simp
qed

lemma signal_abs:
  assumes k: "kinv F s" and c: "scount (semtab s sem) < INT32_MAX"
  shows "refines F (signal sem s) (a_signal sem (kabs s))"
proof (cases "isbadsem sem \<or> sstate (semtab s sem) = S_FREE")
  case True
  then show ?thesis using k by (auto simp: signal_def a_signal_def refines_Ret sem_view_def)
next
  case False
  then have i: "\<not> isbadsem sem" by simp
  have u: "sstate (semtab s sem) = S_USED" using False by (cases "sstate (semtab s sem)") simp_all
  note g = kinv_kgood [OF k] and nd = kinv_nd [OF k]
  let ?q = "squeue (semtab s sem)"
  note q = kgood_sem [OF g i]
  have sig: "signal sem s = kbind (signal_once sem s) (\<lambda>s1 _. Ret s1 OK)" using i u by (simp add: signal_def)
  show ?thesis
  proof (rule signal_once_enter [OF g i _ u c])
    show "sem \<notin> {}" by simp
    let ?s1 = "signalled sem s"
    assume *: "kq s ?q = []" "signal_once sem s = Ret ?s1 ()" "kgood F {} (Some (currpid s)) {} True ?s1"
    have "kabs ?s1 = kabs s\<lparr>asem := (sem_view s)(sem := (S_USED, scount (semtab s sem) + 1, []))\<rparr>"
      by (rule kabs_eqI) (use i u *(1) in \<open>auto simp: ready_view_def sem_view_def signalled_def\<close>)
    then show ?thesis
      using * sig i u nd by (simp add: refines_Ret kinv_def a_signal_def sem_view_def)
  next
    fix w ws t'
    let ?s1 = "(signalled sem s)\<lparr>queuetab := t'\<rparr>"
    assume *: "kq s ?q = w # ws" "signal_once sem s = kbind (ready w ?s1) (\<lambda>s2 _. Ret s2 ())"
      "kgood F {w} (Some (currpid s)) {} True ?s1" "w \<noteq> currpid s" "\<not> isbadpid s w"
      "qupdated (nextqid s) (queuetab s) t' ?q ws" "\<And>j. qkey (t' j) = qkey (queuetab s j)"
    have "kabs ?s1 = kabs s\<lparr>asem := (asem (kabs s))(sem := (S_USED, scount (semtab s sem) + 1, ws))\<rparr>" (is "_ = ?a")
      using signalled_unqueue_abs [OF g i u refl *(6,7)] by simp
    moreover have "refines F (ready w ?s1) (a_ret OK (a_ready w (kabs ?s1)))"
      using nd *(4,5) by (intro ready_abs [OF *(3)]) (simp_all add: isbadpid_def)
    ultimately have "refines F (signal sem s) (a_ret OK (a_ready w ?a))"
      unfolding sig *(2) kbind_assoc kbind.simps by (intro refines_bind) simp
    then show ?thesis using *(1) i u by (simp add: a_signal_def sem_view_def)
  qed
qed

section \<open>Delays and messages\<close>

lemma sleepms_abs:
  assumes k: "kinv F s" and p0: "currpid s \<noteq> NULLPROC" and n: "n \<le> INT32_MAX"
  shows "refines F (sleepms n s) (a_sleep n (kabs s))"
proof -
  note g = kinv_kgood [OF k]
  consider "n < 0" | "n = 0" | "0 < n" by linarith
  then show ?thesis
  proof cases
    case 1
    then show ?thesis using k by (simp add: sleepms_def a_sleep_def refines_Ret)
  next
    case 2
    then show ?thesis using yield_abs [OF k] by (simp add: sleepms_def a_sleep_def refines_bind)
  next
    case 3
    show ?thesis
    proof (rule kgood_insertd [OF g refl p0, of PR_SLEEP n])
      fix t' us vs
      let ?s1 = "set_prstate (currpid s) PR_SLEEP (s\<lparr>queuetab := t'\<rparr>)"
      assume *: "insertd (currpid s) (sleepq s) n s = Some (s\<lparr>queuetab := t'\<rparr>, OK)" "kgood F {} None {} True ?s1"
        "kq s (sleepq s) = us @ vs" "qlist t' (sleepq s) = us @ currpid s # vs"
        "delays t' 0 (us @ currpid s # vs)
          = delays (queuetab s) 0 us @ (currpid s, n) # delays (queuetab s) (ksum (queuetab s) us) vs"
        "\<And>x d. (x, d) \<in> set (delays (queuetab s) 0 us) \<Longrightarrow> d \<le> n"
        "vs \<noteq> [] \<Longrightarrow> n < ksum (queuetab s) us + qkey (queuetab s (hd vs))"
        "\<And>q. q \<in> qids (nextqid s) \<Longrightarrow> q \<noteq> sleepq s \<Longrightarrow> qlist t' q = kq s q"
        "\<And>i. i \<in> set (kq s (readylist s)) \<Longrightarrow> qkey (t' i) = qkey (queuetab s i)"
      let ?sl = "delays (queuetab s) 0 (kq s (sleepq s))"
      let ?a = "a_set (currpid s) PR_SLEEP (kabs s\<lparr>asleep := takeWhile (\<lambda>e. snd e \<le> n) ?sl
        @ (currpid s, n) # dropWhile (\<lambda>e. snd e \<le> n) ?sl\<rparr>)"
      have pre: "\<forall>e \<in> set (delays (queuetab s) 0 us). snd e \<le> n" using *(6) by auto
      have post: "delays (queuetab s) (ksum (queuetab s) us) vs = []
          \<or> \<not> snd (hd (delays (queuetab s) (ksum (queuetab s) us) vs)) \<le> n"
        using *(7) by (cases vs) simp_all
      have sl: "?sl = delays (queuetab s) 0 us @ delays (queuetab s) (ksum (queuetab s) us) vs"
        using *(3) delays_append [of "queuetab s" 0 us vs] by simp
      have parts: "takeWhile (\<lambda>e. snd e \<le> n) ?sl = delays (queuetab s) 0 us"
        "dropWhile (\<lambda>e. snd e \<le> n) ?sl = delays (queuetab s) (ksum (queuetab s) us) vs"
        unfolding sl using pre post by (cases "delays (queuetab s) (ksum (queuetab s) us) vs"; simp)+
      have "kabs ?s1 = ?a"
      proof (rule kabs_eqI)
        show "ready_view ?s1 = aready ?a"
          using *(8) [OF kgoodD(9) [OF g]] *(9) kgoodD(11) [OF g] by (simp add: ready_view_def)
        show "delays (queuetab ?s1) 0 (kq ?s1 (sleepq ?s1)) = asleep ?a"
          using *(4,5) parts by simp
        show "sem_view ?s1 i = asem ?a i" for i
          using *(8) [OF kgood_sem(1) [OF g]] kgood_sem(3) [OF g] by (simp add: sem_view_def)
      qed simp_all
      moreover have "refines F (resched ?s1) (a_dispatch (kabs ?s1), None)"
        using kinv_nd [OF k] by (intro resched_blocked_abs [OF *(2)]) simp
      ultimately show ?thesis
        using 3 *(1) by (simp add: sleepms_def a_sleep_def refines_bind_none)
    qed (use 3 n in simp_all)
  qed
qed

lemma send_abs:
  assumes k: "kinv F s"
  shows "refines F (send pid msg s) (a_send pid msg (kabs s))"
proof (cases "isbadpid s pid \<or> prhasmsg (proctab s pid)")
  case True
  then show ?thesis using k by (auto simp: send_def a_send_def refines_Ret)
next
  case False
  let ?f = "\<lambda>e. e\<lparr>prmsg := msg, prhasmsg := True\<rparr>"
  let ?s1 = "upd_proc pid ?f s" and ?a1 = "kabs s\<lparr>amsg := (amsg (kabs s))(pid := Some msg)\<rparr>"
  note g = kinv_kgood [OF k]
  have pid: "0 \<le> pid" "pid < NPROC" using False by (simp_all add: isbadpid_def)
  note pr = kgood_prio [OF g pid]
  have ne: "pid \<noteq> currpid s" if "prstate (proctab s pid) \<noteq> PR_CURR" using that kinv_cur [OF k] by auto
  have abs1: "kabs ?s1 = ?a1"
    by (rule kabs_eqI) (simp_all add: ready_view_def sem_view_def)
  consider (recv) "prstate (proctab s pid) = PR_RECV" | (rectim) "prstate (proctab s pid) = PR_RECTIM"
    | (other) "prstate (proctab s pid) \<noteq> PR_RECV" "prstate (proctab s pid) \<noteq> PR_RECTIM" by blast
  then show ?thesis
  proof cases
    case recv
    have "kgood F {pid} (Some (currpid s)) {} True s" using kgood_take [OF g, of pid] recv by (simp add: home_def)
    then have g1: "kgood F {pid} (Some (currpid s)) {} True ?s1"
      using pr recv ne by (intro kgood_upd) auto
    have "refines F (ready pid ?s1) (a_ret OK (a_ready pid (kabs ?s1)))"
      using kinv_nd [OF k] False recv ne by (intro ready_abs [OF g1]) (simp_all add: isbadpid_def)
    then show ?thesis
      using False recv abs1 by (simp add: send_def a_send_def Let_def refines_bind)
  next
    case rectim
    show ?thesis
    proof (rule unsleep_spec [OF g pid])
      show "prstate (proctab s pid) = PR_SLEEP \<or> prstate (proctab s pid) = PR_RECTIM" using rectim by simp
      fix t'
      assume t': "unsleep pid s = (s\<lparr>queuetab := t'\<rparr>, OK)"
        "kgood F {pid} (Some (currpid s)) {} True (s\<lparr>queuetab := t'\<rparr>)"
        "qlist t' (sleepq s) = remove1 pid (kq s (sleepq s))"
        "delays t' 0 (remove1 pid (kq s (sleepq s)))
          = filter (\<lambda>(x, d). x \<noteq> pid) (delays (queuetab s) 0 (kq s (sleepq s)))"
        "\<And>q. q \<in> qids (nextqid s) \<Longrightarrow> q \<noteq> sleepq s \<Longrightarrow> qlist t' q = kq s q"
        "\<And>i. i \<in> set (kq s (readylist s)) \<Longrightarrow> qkey (t' i) = qkey (queuetab s i)"
      let ?s2 = "upd_proc pid ?f (s\<lparr>queuetab := t'\<rparr>)"
      let ?a2 = "?a1\<lparr>asleep := filter (\<lambda>e. fst e \<noteq> pid) (asleep ?a1)\<rparr>"
      have u: "unsleep pid ?s1 = (?s2, OK)" using unsleep_upd_proc [of ?f s pid pid] t'(1) by simp
      have abs2: "kabs ?s2 = ?a2"
      proof (rule kabs_eqI)
        show "ready_view ?s2 = aready ?a2"
          using t'(5) [OF kgoodD(9) [OF g]] t'(6) kgoodD(11) [OF g] by (simp add: ready_view_def)
        show "delays (queuetab ?s2) 0 (kq ?s2 (sleepq ?s2)) = asleep ?a2"
          using t'(3,4) by (simp add: case_prod_unfold)
        show "sem_view ?s2 i = asem ?a2 i" for i
          using t'(5) [OF kgood_sem(1) [OF g]] kgood_sem(3) [OF g] by (simp add: sem_view_def)
      qed simp_all
      have g1: "kgood F {pid} (Some (currpid s)) {} True ?s2"
        using pr rectim ne by (intro kgood_upd [OF t'(2)]) auto
      have "refines F (ready pid ?s2) (a_ret OK (a_ready pid (kabs ?s2)))"
        using kinv_nd [OF k] False rectim ne by (intro ready_abs [OF g1]) (simp_all add: isbadpid_def)
      then show "refines F (send pid msg s) (a_send pid msg (kabs s))"
        unfolding abs2 using False rectim u by (simp add: send_def a_send_def Let_def refines_bind)
    qed simp
  next
    case other
    have "ksafe F (currpid s) (send pid msg s)" using k by (intro send_safe) (simp add: mine_def)
    then show ?thesis
      using False other abs1 by (simp add: send_def a_send_def Let_def refines_Ret mine_def)
  qed
qed

lemma receive_abs:
  assumes k: "kinv F s" and p0: "currpid s \<noteq> NULLPROC"
  shows "refines F (receive s) (a_receive (kabs s))"
proof (cases "prhasmsg (proctab s (currpid s))")
  case True
  let ?s1 = "upd_proc (currpid s) (\<lambda>e. e\<lparr>prhasmsg := False\<rparr>) s"
  have "ksafe F (currpid s) (receive s)" using k p0 by (intro receive_safe) (simp_all add: mine_def)
  moreover have "kabs ?s1 = kabs s\<lparr>amsg := (amsg (kabs s))(currpid s := None)\<rparr>"
    by (rule kabs_eqI) (simp_all add: ready_view_def sem_view_def)
  ultimately show ?thesis
    using True by (simp add: receive_def a_receive_def take_msg_def Let_def refines_Ret mine_def)
next
  case False
  have "refines F (resched (set_prstate (currpid s) PR_RECV s)) (a_dispatch (a_set (currpid s) PR_RECV (kabs s)), None)"
    using block_abs [OF k, of PR_RECV] False p0 by (simp add: home_def entry_ok_def)
  then show ?thesis
    using False by (simp add: receive_def a_receive_def Let_def refines_bind_none)
qed

section \<open>Calls that defer rescheduling\<close>

text \<open>
  \<^verbatim>\<open>signaln\<close>, \<^verbatim>\<open>semreset\<close> and \<^verbatim>\<open>semdelete\<close> make several
  processes ready and reschedule once, at the end, if any was released.
\<close>

definition a_release :: "int list \<Rightarrow> aks \<Rightarrow> aks \<times> int option" where
  "a_release ws a = (if ws = [] then (a, Some OK) else a_ret OK (a_resched (fold a_enlist ws a)))"

definition a_signaln :: "int \<Rightarrow> int \<Rightarrow> aks \<Rightarrow> aks \<times> int option" where
  "a_signaln i n a =
     (let (st, c, ws) = asem a i in
      if n < 0 \<or> st = S_FREE then (a, Some SYSERR)
      else a_release (take (nat n) ws) (a\<lparr>asem := (asem a)(i := (st, c + n, drop (nat n) ws))\<rparr>))"

definition a_semreset :: "int \<Rightarrow> int \<Rightarrow> aks \<Rightarrow> aks \<times> int option" where
  "a_semreset i n a =
     (let (st, c, ws) = asem a i in
      if n < 0 \<or> st = S_FREE then (a, Some SYSERR)
      else a_release ws (a\<lparr>asem := (asem a)(i := (st, n, []))\<rparr>))"

lemma enlist_asem: "a_enlist w (a\<lparr>asem := f\<rparr>) = (a_enlist w a)\<lparr>asem := f\<rparr>"
  by (simp add: a_enlist_def a_set_def)

lemma fold_enlist_simps [simp]:
  "acur (fold a_enlist ws a) = acur a" "aprio (fold a_enlist ws a) = aprio a" "amsg (fold a_enlist ws a) = amsg a"
  "asem (fold a_enlist ws a) = asem a" "asleep (fold a_enlist ws a) = asleep a"
  "fold a_enlist ws (a\<lparr>asem := f\<rparr>) = (fold a_enlist ws a)\<lparr>asem := f\<rparr>"
  by (induction ws arbitrary: a) (simp_all add: enlist_asem)

lemma ready_deferred_abs:
  assumes g: "kgood F E (Some c) X d s" and pid: "pid \<in> E" "pid \<noteq> c" "\<not> isbadpid s pid" and nd: "ndefers s > 0"
  obtains s' where "ready pid s = Ret s' OK" "kgood F (E - {pid}) (Some c) X d s'" "kabs s' = a_enlist pid (kabs s)"
    "ndefers s' = ndefers s" "currpid s' = currpid s" "attempt s'" "semtab s' = semtab s" "sleepq s' = sleepq s"
    "\<And>q. q \<in> qids (nextqid s) \<Longrightarrow> q \<noteq> readylist s \<Longrightarrow> kq s' q = kq s q"
    "\<And>i. i \<noteq> pid \<Longrightarrow> qkey (queuetab s' i) = qkey (queuetab s i)"
proof (rule ready_enter [OF g pid])
  fix s2
  assume s2: "ready pid s = kbind (resched s2) (\<lambda>s3 _. Ret s3 OK)" "kgood F (E - {pid}) (Some c) X d s2"
    "ndefers s2 = ndefers s" "currpid s2 = currpid s" "semtab s2 = semtab s" "readylist s2 = readylist s"
    "sleepq s2 = sleepq s" "proctab s2 = (proctab s)(pid := (proctab s pid)\<lparr>prstate := PR_READY\<rparr>)"
    "kq s2 (readylist s) = takeWhile (at_least (queuetab s) (prprio (proctab s pid))) (kq s (readylist s))
      @ pid # dropWhile (at_least (queuetab s) (prprio (proctab s pid))) (kq s (readylist s))"
    "\<And>q. q \<in> qids (nextqid s) \<Longrightarrow> q \<noteq> readylist s \<Longrightarrow> kq s2 q = kq s q"
    "\<And>i. qkey (queuetab s2 i) = (if i = pid then prprio (proctab s pid) else qkey (queuetab s i))"
  let ?s = "s2\<lparr>attempt := True\<rparr>"
  have "0 \<le> pid" "pid < NPROC" using pid(3) by (simp_all add: isbadpid_def)
  then have "kabs ?s = a_enlist pid (kabs s)"
    using s2 by (intro enlist_abs [OF g pid(1)]) simp_all
  moreover have "kgood F (E - {pid}) (Some c) X d ?s"
    using kgoodD(12-14) [OF s2(2)] by (intro kgood_frame [OF s2(2)]) simp_all
  ultimately show thesis
    using s2 nd by (intro that [of ?s]) (simp_all add: resched_deferred)
qed

text \<open>The end of the deferral.\<close>

lemma defer_stop_abs:
  assumes g: "kgood F {} (Some p) {} True s" and nd: "ndefers s = 1" and cp: "currpid s = p"
  shows "refines F (resched_cntl DEFER_STOP s) (if attempt s then a_ret OK (a_resched (kabs s)) else (kabs s, Some OK))"
proof -
  let ?s1 = "s\<lparr>ndefers := 0\<rparr>"
  have k: "kinv F ?s1" using kgood_defer(1) [OF g, of 0] cp by (simp add: kinv_def)
  have "kabs ?s1 = kabs s" by (rule kabs_eqI) (simp_all add: ready_view_def sem_view_def)
  then show ?thesis
    using resched_abs [OF k] nd k by (simp add: resched_cntl_def Let_def refines_bind refines_Ret)
qed

lemma defer_stop_release:
  assumes "kgood F {} (Some p) {} True s" "ndefers s = 1" "currpid s = p"
    and "kabs s = fold a_enlist ws a" "attempt s = (ws \<noteq> [])"
  shows "refines F (resched_cntl DEFER_STOP s) (a_release ws a)"
  using defer_stop_abs [OF assms(1-3)] assms(4,5) by (cases ws) (simp_all add: a_release_def)

lemma refines_release: "refines F c (a_release ws a) \<Longrightarrow> refines F (kbind c (\<lambda>s _. Ret s OK)) (a_release ws a)"
  by (auto simp: a_release_def refines_def here_bind_Ret a_ret_def)

lemma kabs_defer [simp]: "kabs (s\<lparr>ndefers := k, attempt := b\<rparr>) = kabs s"
  by (rule kabs_eqI) (simp_all add: ready_view_def sem_view_def)

lemma signal_once_deferred_abs:
  assumes g: "kgood F {} (Some p) {} True s" and nd: "ndefers s = 1" and cp: "currpid s = p"
    and a: "\<not> isbadsem i" "sem_view s i = (S_USED, c, ws)" and c: "c < INT32_MAX"
  obtains s' where "signal_once i s = Ret s' ()" "kgood F {} (Some p) {} True s'" "ndefers s' = 1" "currpid s' = p"
    "kabs s' = fold a_enlist (take 1 ws) (kabs s)\<lparr>asem := (sem_view s)(i := (S_USED, c + 1, drop 1 ws))\<rparr>"
    "attempt s' = (attempt s \<or> ws \<noteq> [])"
proof -
  note out = that
  have u: "sstate (semtab s i) = S_USED" "scount (semtab s i) = c" "kq s (squeue (semtab s i)) = ws"
    using a by (simp_all add: sem_view_def)
  note q = kgood_sem [OF g a(1)]
  show thesis
  proof (rule signal_once_enter [OF g a(1) _ u(1)])
    show "i \<notin> {}" by simp
    show "scount (semtab s i) < INT32_MAX" using u(2) c by simp
    let ?s1 = "signalled i s"
    assume *: "kq s (squeue (semtab s i)) = []" "signal_once i s = Ret ?s1 ()" "kgood F {} (Some p) {} True ?s1"
    have "kabs ?s1 = kabs s\<lparr>asem := (sem_view s)(i := (S_USED, c + 1, []))\<rparr>"
      by (rule kabs_eqI) (use a u *(1) in \<open>auto simp: ready_view_def sem_view_def signalled_def\<close>)
    then show thesis using * u nd cp by (intro out [of ?s1]) (simp_all add: signalled_def upd_sem_def)
  next
    fix w ws' t'
    let ?s1 = "(signalled i s)\<lparr>queuetab := t'\<rparr>"
    assume *: "kq s (squeue (semtab s i)) = w # ws'" "signal_once i s = kbind (ready w ?s1) (\<lambda>s2 _. Ret s2 ())"
      "kgood F {w} (Some p) {} True ?s1" "w \<noteq> p" "\<not> isbadpid s w"
      "qupdated (nextqid s) (queuetab s) t' (squeue (semtab s i)) ws'" "\<And>j. qkey (t' j) = qkey (queuetab s j)"
    have abs1: "kabs ?s1 = kabs s\<lparr>asem := (sem_view s)(i := (S_USED, c + 1, ws'))\<rparr>"
      by (rule signalled_unqueue_abs [OF g a(1) u(1,2) *(6,7)])
    have b: "\<not> isbadpid ?s1 w" and n: "ndefers ?s1 > 0" using *(5) nd by (simp_all add: isbadpid_def)
    show thesis
    proof (rule ready_deferred_abs [OF *(3) singletonI *(4) b n])
      fix s'
      assume "ready w ?s1 = Ret s' OK" "kgood F ({w} - {w}) (Some p) {} True s'" "kabs s' = a_enlist w (kabs ?s1)"
        "ndefers s' = ndefers ?s1" "currpid s' = currpid ?s1" "attempt s'"
      then show thesis
        using *(1,2) abs1 u nd cp by (intro out [of s']) (simp_all add: a_enlist_def a_set_def)
    qed
  qed
qed

lemma signaln_loop_abs:
  "kgood F {} (Some p) {} True s \<Longrightarrow> ndefers s = 1 \<Longrightarrow> currpid s = p \<Longrightarrow> \<not> isbadsem i
   \<Longrightarrow> sem_view s i = (S_USED, c, ws) \<Longrightarrow> c + int n \<le> INT32_MAX
   \<Longrightarrow> \<exists>s'. signaln_loop n i s = Ret s' () \<and> kgood F {} (Some p) {} True s' \<and> ndefers s' = 1 \<and> currpid s' = p
     \<and> kabs s' = fold a_enlist (take n ws) (kabs s)\<lparr>asem := (sem_view s)(i := (S_USED, c + int n, drop n ws))\<rparr>
     \<and> attempt s' = (attempt s \<or> take n ws \<noteq> [])"
proof (induction n arbitrary: s c ws)
  case 0
  have "kabs s = kabs s\<lparr>asem := (sem_view s)(i := (S_USED, c, ws))\<rparr>"
    using 0(5) by (intro kabs_eqI) simp_all
  then show ?case using 0(1-3) by (intro exI [of _ s]) (simp del: fun_upd_apply)
next
  case (Suc n)
  have c: "c < INT32_MAX" using Suc.prems(6) by simp
  obtain s1 where s1: "signal_once i s = Ret s1 ()" "kgood F {} (Some p) {} True s1" "ndefers s1 = 1" "currpid s1 = p"
    "kabs s1 = fold a_enlist (take 1 ws) (kabs s)\<lparr>asem := (sem_view s)(i := (S_USED, c + 1, drop 1 ws))\<rparr>"
    "attempt s1 = (attempt s \<or> ws \<noteq> [])"
    by (rule signal_once_deferred_abs [OF Suc.prems(1-5) c])
  have sv: "sem_view s1 = (sem_view s)(i := (S_USED, c + 1, drop 1 ws))"
    using arg_cong [OF s1(5), of asem] by simp
  then have svi: "sem_view s1 i = (S_USED, c + 1, drop 1 ws)" by simp
  have "c + 1 + int n \<le> INT32_MAX" using Suc.prems(6) by simp
  from Suc.IH [OF s1(2-4) Suc.prems(4) svi this]
  obtain s' where s': "signaln_loop n i s1 = Ret s' ()" "kgood F {} (Some p) {} True s'" "ndefers s' = 1" "currpid s' = p"
    "kabs s' = fold a_enlist (take n (drop 1 ws)) (kabs s1)\<lparr>asem := (sem_view s1)(i := (S_USED, c + 1 + int n, drop n (drop 1 ws)))\<rparr>"
    "attempt s' = (attempt s1 \<or> take n (drop 1 ws) \<noteq> [])" by blast
  have upd: "(sem_view s1)(i := x) = (sem_view s)(i := x)" for x using sv by simp
  have "take (Suc n) ws = take 1 ws @ take n (drop 1 ws)" "drop (Suc n) ws = drop n (drop 1 ws)"
    by (cases ws; simp)+
  then have "kabs s' = fold a_enlist (take (Suc n) ws) (kabs s)\<lparr>asem := (sem_view s)(i := (S_USED, c + int (Suc n), drop (Suc n) ws))\<rparr>"
    unfolding s'(5) upd s1(5) by (simp add: add_ac)
  moreover have "attempt s' = (attempt s \<or> take (Suc n) ws \<noteq> [])" using s'(6) s1(6) by (cases ws) auto
  moreover have "signaln_loop (Suc n) i s = Ret s' ()" using s1(1) s'(1) by simp
  ultimately show ?case using s'(2-4) by blast
qed

lemma signaln_abs:
  assumes k: "kinv F s" and c: "scount (semtab s i) + n \<le> INT32_MAX"
  shows "refines F (signaln i n s) (a_signaln i n (kabs s))"
proof (cases "isbadsem i \<or> n < 0 \<or> sstate (semtab s i) = S_FREE")
  case True
  then show ?thesis using k by (auto simp: signaln_def a_signaln_def refines_Ret sem_view_def)
next
  case False
  then have u: "sstate (semtab s i) = S_USED" by (cases "sstate (semtab s i)") simp_all
  let ?c = "scount (semtab s i)" and ?ws = "kq s (squeue (semtab s i))"
  let ?s1 = "s\<lparr>ndefers := 1, attempt := False\<rparr>"
  have sv: "sem_view ?s1 = sem_view s" by (simp add: sem_view_def fun_eq_iff)
  have svi: "sem_view ?s1 i = (S_USED, ?c, ?ws)" using False u by (simp add: sem_view_def)
  have g1: "kgood F {} (Some (currpid s)) {} True ?s1" using kinv_kgood [OF k] by (auto intro: kgood_defer)
  have "?c + int (nat n) \<le> INT32_MAX" using c False by simp
  then obtain s2 where s2: "signaln_loop (nat n) i ?s1 = Ret s2 ()" "kgood F {} (Some (currpid s)) {} True s2"
    "ndefers s2 = 1" "currpid s2 = currpid s"
    "kabs s2 = fold a_enlist (take (nat n) ?ws) (kabs s)\<lparr>asem := (sem_view s)(i := (S_USED, ?c + n, drop (nat n) ?ws))\<rparr>"
    "attempt s2 = (take (nat n) ?ws \<noteq> [])"
    using signaln_loop_abs [OF g1 _ _ _ svi, of "nat n"] False sv by auto
  have "refines F (resched_cntl DEFER_STOP s2) (a_release (take (nat n) ?ws)
      (kabs s\<lparr>asem := (sem_view s)(i := (S_USED, ?c + n, drop (nat n) ?ws))\<rparr>))"
    by (rule defer_stop_release [OF s2(2-4)]) (use s2(5,6) in \<open>simp_all only: fold_enlist_simps\<close>)
  moreover have "signaln i n s = kbind (resched_cntl DEFER_STOP s2) (\<lambda>s3 _. Ret s3 OK)"
    using False u s2(1) defer_start [OF kinv_nd [OF k]] by (simp add: signaln_def)
  ultimately show ?thesis
    using False u by (simp add: a_signaln_def sem_view_def refines_release)
qed

lemma semreset_loop_abs:
  "kgood F {} (Some p) X True s \<Longrightarrow> ndefers s = 1 \<Longrightarrow> \<not> isbadsem i \<Longrightarrow> i \<in> X
   \<Longrightarrow> sem_view s i = (st, c, ws) \<Longrightarrow> length ws < n
   \<Longrightarrow> \<exists>s'. semreset_loop n (squeue (semtab s i)) s = Ret s' () \<and> kgood F {} (Some p) X True s' \<and> ndefers s' = 1
     \<and> currpid s' = currpid s \<and> semtab s' = semtab s
     \<and> kabs s' = fold a_enlist ws (kabs s)\<lparr>asem := (sem_view s)(i := (st, c, []))\<rparr>
     \<and> attempt s' = (attempt s \<or> ws \<noteq> [])"
proof (induction n arbitrary: s ws)
  case 0
  then show ?case by simp
next
  case (Suc n)
  note g = Suc.prems(1)
  let ?q = "squeue (semtab s i)"
  have v: "sstate (semtab s i) = st" "scount (semtab s i) = c" "kq s ?q = ws"
    using Suc.prems(3,5) by (simp_all add: sem_view_def)
  show ?case
  proof (cases ws)
    case Nil
    then have e: "getfirst ?q s = (s, EMPTY)"
      using getfirst_empty [OF kgoodD(6) [OF g] kgood_sem(1) [OF g Suc.prems(3)]] v by simp
    have "kabs s = kabs s\<lparr>asem := (sem_view s)(i := (st, c, []))\<rparr>"
      using Suc.prems(5) Nil by (intro kabs_eqI) simp_all
    then show ?thesis using Suc.prems(1,2) e Nil by (intro exI [of _ s]) (simp del: fun_upd_apply)
  next
    case (Cons w ws')
    obtain t' where t': "getfirst ?q s = (s\<lparr>queuetab := t'\<rparr>, w)"
      "kgood F (Set.insert w {}) (Some p) X True (s\<lparr>queuetab := t'\<rparr>)"
      "qupdated (nextqid s) (queuetab s) t' ?q ws'" "\<And>j. qkey (t' j) = qkey (queuetab s j)"
      by (rule sem_getfirst [OF g Suc.prems(3,4), of w ws']) (use v Cons in simp_all)
    let ?s1 = "s\<lparr>queuetab := t'\<rparr>"
    note a1 = unqueue_abs [OF g Suc.prems(3) t'(3,4), unfolded v(1,2)]
    have w: "0 \<le> w" "w < NPROC" "home s w = Some ?q"
      using kgood_in_queue [OF g kgood_sem(1) [OF g Suc.prems(3)], of w] v Cons by simp_all
    have st: "prstate (proctab s w) = PR_WAIT"
      using w(3) kgood_sem(2,3) [OF g Suc.prems(3)] by (auto simp: home_def split: pstate.splits)
    have b: "\<not> isbadpid ?s1 w" and ne: "w \<noteq> p" and nd: "ndefers ?s1 > 0"
      using w st Suc.prems(2) kgood_cur_ne [OF g] by (simp_all add: isbadpid_def)
    obtain s2 where s2: "ready w ?s1 = Ret s2 OK" "kgood F ({w} - {w}) (Some p) X True s2" "kabs s2 = a_enlist w (kabs ?s1)"
      "ndefers s2 = ndefers ?s1" "currpid s2 = currpid ?s1" "attempt s2" "semtab s2 = semtab ?s1"
      by (rule ready_deferred_abs [OF t'(2) singletonI ne b nd])
    have sv: "sem_view s2 = (sem_view s)(i := (st, c, ws'))"
      using arg_cong [OF s2(3), of asem] arg_cong [OF a1, of asem] by (simp add: a_enlist_def)
    have "\<exists>s'. semreset_loop n (squeue (semtab s2 i)) s2 = Ret s' () \<and> kgood F {} (Some p) X True s' \<and> ndefers s' = 1
     \<and> currpid s' = currpid s2 \<and> semtab s' = semtab s2
     \<and> kabs s' = fold a_enlist ws' (kabs s2)\<lparr>asem := (sem_view s2)(i := (st, c, []))\<rparr> \<and> attempt s' = (attempt s2 \<or> ws' \<noteq> [])"
      using s2 Suc.prems(2,3,4,6) sv Cons by (intro Suc.IH) simp_all
    then obtain s' where s': "semreset_loop n (squeue (semtab s2 i)) s2 = Ret s' ()" "kgood F {} (Some p) X True s'"
      "ndefers s' = 1" "currpid s' = currpid s2" "semtab s' = semtab s2"
      "kabs s' = fold a_enlist ws' (kabs s2)\<lparr>asem := (sem_view s2)(i := (st, c, []))\<rparr>" "attempt s' = (attempt s2 \<or> ws' \<noteq> [])"
      by blast
    have "(sem_view s2)(i := x) = (sem_view s)(i := x)" for x using sv by simp
    then have "kabs s' = fold a_enlist ws (kabs s)\<lparr>asem := (sem_view s)(i := (st, c, []))\<rparr>"
      unfolding s'(6) s2(3) a1 Cons by (simp add: enlist_asem)
    moreover have "semreset_loop (Suc n) ?q s = Ret s' ()"
      using t'(1) s2(1,7) s'(1) w(1) by simp
    moreover have "currpid s' = currpid s" "semtab s' = semtab s" "attempt s' = (attempt s \<or> ws \<noteq> [])"
      using s'(4,5,7) s2(5-7) Cons by simp_all
    ultimately show ?thesis using s'(2,3) by blast
  qed
qed

lemma semreset_abs:
  assumes k: "kinv F s" and n: "n \<le> INT32_MAX"
  shows "refines F (semreset i n s) (a_semreset i n (kabs s))"
proof (cases "isbadsem i \<or> n < 0 \<or> sstate (semtab s i) = S_FREE")
  case True
  then show ?thesis using k by (auto simp: semreset_def a_semreset_def refines_Ret sem_view_def)
next
  case False
  then have u: "sstate (semtab s i) = S_USED" by (cases "sstate (semtab s i)") simp_all
  let ?q = "squeue (semtab s i)" and ?ws = "kq s (squeue (semtab s i))"
  let ?s1 = "s\<lparr>ndefers := 1, attempt := False\<rparr>"
  have i: "\<not> isbadsem i" using False by simp
  have sv: "sem_view ?s1 = sem_view s" by (simp add: sem_view_def fun_eq_iff)
  have svi: "sem_view ?s1 i = (S_USED, scount (semtab s i), ?ws)" using i u by (simp add: sem_view_def)
  have g1: "kgood F {} (Some (currpid s)) {i} True ?s1"
    using kgood_weaken [OF kinv_kgood [OF k], of "{i}" True] by (auto intro: kgood_defer)
  have len: "length ?ws < nat (NPROC + 1)" using length_waiting [OF kinv_kgood [OF k] i] by simp
  obtain s2 where s2: "semreset_loop (nat (NPROC + 1)) ?q ?s1 = Ret s2 ()" "kgood F {} (Some (currpid s)) {i} True s2"
    "ndefers s2 = 1" "currpid s2 = currpid s" "semtab s2 = semtab s"
    "kabs s2 = fold a_enlist ?ws (kabs s)\<lparr>asem := (sem_view s)(i := (S_USED, scount (semtab s i), []))\<rparr>"
    "attempt s2 = (?ws \<noteq> [])"
    using semreset_loop_abs [OF g1 _ i singletonI svi len] sv by (auto simp del: semreset_loop.simps)
  let ?s3 = "upd_sem i (\<lambda>e. e\<lparr>scount := n\<rparr>) s2"
  have sv2: "sem_view s2 = (sem_view s)(i := (S_USED, scount (semtab s i), []))"
    using arg_cong [OF s2(6), of asem] by simp
  then have "sem_view s2 i = (S_USED, scount (semtab s i), [])" by simp
  then have e: "kq s2 ?q = []" using i s2(5) unfolding sem_view_def by simp
  have g3: "kgood F {} (Some (currpid s)) ({i} - {i}) True ?s3"
  proof (rule kgood_sem_ok)
    show "kgood F {} (Some (currpid s)) {i} True ?s3"
      using kgood_sem_upd [OF s2(2), of "\<lambda>e. e\<lparr>scount := n\<rparr>" i] by simp
  qed (use False u e s2(5) n in simp)
  have "(sem_view s2)(i := x) = (sem_view s)(i := x)" for x using sv2 by simp
  then have "kabs ?s3 = fold a_enlist ?ws (kabs s\<lparr>asem := (sem_view s)(i := (S_USED, n, []))\<rparr>)"
    using upd_sem_abs [OF i, of "\<lambda>e. e\<lparr>scount := n\<rparr>" s2 S_USED "scount (semtab s i)" "[]"] s2(5,6) u sv2 by simp
  then have "refines F (resched_cntl DEFER_STOP ?s3) (a_release ?ws (kabs s\<lparr>asem := (sem_view s)(i := (S_USED, n, []))\<rparr>))"
    using s2(3,4,7) g3 by (intro defer_stop_release [of F "currpid s"]) (simp_all add: upd_sem_def)
  moreover have "semreset i n s = kbind (resched_cntl DEFER_STOP ?s3) (\<lambda>s3 _. Ret s3 OK)"
    using False u s2(1) defer_start [OF kinv_nd [OF k]] by (simp add: semreset_def del: semreset_loop.simps)
  ultimately show ?thesis
    using False u by (simp add: a_semreset_def sem_view_def refines_release)
qed

section \<open>The clock\<close>

text \<open>
  A tick of a millisecond. It takes one from every delay, wakes the processes whose delay is over
  and reschedules once. The exception is a first process whose delay is already 0 (only
  \<^verbatim>\<open>recvtime(0)\<close> files one): then those with delay 0 are woken and the others' delays stay
  as they are, one tick late.
\<close>

definition a_ticked :: "(int \<times> int) list \<Rightarrow> (int \<times> int) list" where
  "a_ticked sl = (case sl of [] \<Rightarrow> []
     | e # _ \<Rightarrow> map (\<lambda>(p, d). (p, if snd e = 0 then d else d - 1)) sl)"

definition a_clk :: "aks \<Rightarrow> aks \<times> unit option" where
  "a_clk a =
     (let sl = a_ticked (asleep a); due = takeWhile (\<lambda>e. snd e \<le> 0) sl
      in if due = [] then (a\<lparr>asleep := sl\<rparr>, Some ())
         else a_ret () (a_resched (fold a_enlist (map fst due) (a\<lparr>asleep := dropWhile (\<lambda>e. snd e \<le> 0) sl\<rparr>))))"

lemma enlist_asleep: "a_enlist w (a\<lparr>asleep := x\<rparr>) = (a_enlist w a)\<lparr>asleep := x\<rparr>"
  by (simp add: a_enlist_def a_set_def)

lemma fold_enlist_asleep [simp]: "fold a_enlist ws (a\<lparr>asleep := x\<rparr>) = (fold a_enlist ws a)\<lparr>asleep := x\<rparr>"
  by (induction ws arbitrary: a) (simp_all add: enlist_asleep)

lemma sleep_dequeue_abs:
  assumes g: "kgood F E cur X d s" and u: "qupdated (nextqid s) (queuetab s) t' (sleepq s) ws"
    and k: "\<And>j. qkey (t' j) = qkey (queuetab s j)"
  shows "kabs (s\<lparr>queuetab := t'\<rparr>) = kabs s\<lparr>asleep := delays (queuetab s) 0 ws\<rparr>" (is "_ = ?a")
proof (rule kabs_eqI)
  have kq1: "qlist t' r = (if r = sleepq s then ws else kq s r)" if "r \<in> qids (nextqid s)" for r
    using u that by (simp add: qupdated_def)
  show "ready_view (s\<lparr>queuetab := t'\<rparr>) = aready ?a"
    using kq1 [OF kgoodD(9) [OF g]] k kgoodD(11) [OF g] by (simp add: ready_view_def)
  show "delays (queuetab (s\<lparr>queuetab := t'\<rparr>)) 0 (kq (s\<lparr>queuetab := t'\<rparr>) (sleepq (s\<lparr>queuetab := t'\<rparr>))) = asleep ?a"
    using kq1 [OF kgoodD(10) [OF g]] k delays_cong [of ws t' "queuetab s" 0] by simp
  show "sem_view (s\<lparr>queuetab := t'\<rparr>) j = asem ?a j" for j
    using kq1 [OF kgood_sem(1) [OF g]] kgood_sem(3) [OF g] by (simp add: sem_view_def)
qed simp_all

lemma wakeup_loop_abs:
  "kgood F {} (Some p) {} False s \<Longrightarrow> ndefers s = 1 \<Longrightarrow> currpid s = p
   \<Longrightarrow> tick_ok (queuetab s) (kq s (sleepq s)) \<Longrightarrow> length (kq s (sleepq s)) < n
   \<Longrightarrow> \<exists>s'. wakeup_loop n s = Ret s' () \<and> kgood F {} (Some p) {} True s' \<and> ndefers s' = 1 \<and> currpid s' = p
     \<and> kabs s' = fold a_enlist (takeWhile (\<lambda>x. qkey (queuetab s x) \<le> 0) (kq s (sleepq s)))
          (kabs s)\<lparr>asleep := delays (queuetab s) 0 (dropWhile (\<lambda>x. qkey (queuetab s x) \<le> 0) (kq s (sleepq s)))\<rparr>
     \<and> attempt s' = (attempt s \<or> takeWhile (\<lambda>x. qkey (queuetab s x) \<le> 0) (kq s (sleepq s)) \<noteq> [])"
proof (induction n arbitrary: s)
  case 0
  then show ?case by simp
next
  case (Suc n)
  note g = Suc.prems(1)
  note q = kgoodD(10) [OF g] and wf = kgoodD(6) [OF g]
  let ?L = "kq s (sleepq s)" and ?due = "\<lambda>x. qkey (queuetab s x) \<le> 0"
  show ?case
  proof (cases "?L \<noteq> [] \<and> qkey (queuetab s (hd ?L)) \<le> 0")
    case False
    have "slp s"
    proof (cases ?L)
      case Nil
      then show ?thesis by (simp add: slp_def delta_ok_def)
    next
      case (Cons x xs)
      then show ?thesis using False Suc.prems(4) by (auto simp: slp_def delta_ok_def tick_ok_def)
    qed
    then have "kgood F {} (Some p) {} True s" using g by (simp add: kgood_def)
    moreover have "wakeup_loop (Suc n) s = Ret s ()"
      using False nonempty_iff [OF wf q] firstid_hd [OF wf q] by (cases ?L) (auto simp: firstkey_def)
    moreover have "dropWhile ?due ?L = ?L" "takeWhile ?due ?L = []"
      using False by (cases ?L; simp)+
    moreover have "kabs s = kabs s\<lparr>asleep := delays (queuetab s) 0 ?L\<rparr>" by (intro kabs_eqI) simp_all
    ultimately show ?thesis using Suc.prems(2,3) by simp
  next
    case True
    then obtain w ws where L: "?L = w # ws" "qkey (queuetab s w) \<le> 0" by (cases ?L) auto
    obtain t' where t': "dequeue (sleepq s) s = (s\<lparr>queuetab := t'\<rparr>, w)"
      "kgood F {w} (Some p) {} False (s\<lparr>queuetab := t'\<rparr>)"
      "qupdated (nextqid s) (queuetab s) t' (sleepq s) ws" "\<And>j. qkey (t' j) = qkey (queuetab s j)"
      "0 \<le> w" "w < NPROC" "prstate (proctab s w) = PR_SLEEP \<or> prstate (proctab s w) = PR_RECTIM"
      by (rule sleep_dequeue [OF g L(1)]) (rule that)
    let ?s1 = "s\<lparr>queuetab := t'\<rparr>"
    note a1 = sleep_dequeue_abs [OF g t'(3,4)]
    have b: "\<not> isbadpid ?s1 w" and ne: "w \<noteq> p" and nd: "ndefers ?s1 > 0"
      using t'(5-7) Suc.prems(2) kgood_cur_ne [OF g, of w] by (auto simp: isbadpid_def)
    obtain s2 where s2: "ready w ?s1 = Ret s2 OK" "kgood F ({w} - {w}) (Some p) {} False s2" "kabs s2 = a_enlist w (kabs ?s1)"
      "ndefers s2 = ndefers ?s1" "currpid s2 = currpid ?s1" "attempt s2" "sleepq s2 = sleepq ?s1"
      "\<And>q. q \<in> qids (nextqid ?s1) \<Longrightarrow> q \<noteq> readylist ?s1 \<Longrightarrow> kq s2 q = kq ?s1 q"
      "\<And>i. i \<noteq> w \<Longrightarrow> qkey (queuetab s2 i) = qkey (queuetab ?s1 i)"
      by (rule ready_deferred_abs [OF t'(2) singletonI ne b nd]) (rule that)
    have ws: "kq s2 (sleepq s) = ws" using s2(8) t'(3) q kgoodD(11) [OF g] by (simp add: qupdated_def)
    have wd: "w \<notin> set ws" using wfq_distinct [OF wf q] L(1) by simp
    have keys: "qkey (queuetab s2 x) = qkey (queuetab s x)" if "x \<noteq> w" for x using s2(9) [OF that] t'(4) by simp
    have kw: "qkey (queuetab s2 x) = qkey (queuetab s x)" if "x \<in> set ws" for x
      using wd that by (intro keys) auto
    have dw: "dropWhile (\<lambda>x. qkey (queuetab s2 x) \<le> 0) ws = dropWhile ?due ws"
      "takeWhile (\<lambda>x. qkey (queuetab s2 x) \<le> 0) ws = takeWhile ?due ws"
      using kw by (simp_all cong: dropWhile_cong takeWhile_cong)
    have rest: "delays (queuetab s2) 0 (dropWhile ?due ws) = delays (queuetab s) 0 (dropWhile ?due ws)"
      using kw by (intro delays_cong) (auto dest: set_dropWhileD)
    have step: "wakeup_loop (Suc n) s = wakeup_loop n s2"
      using True L nonempty_iff [OF wf q] firstid_hd [OF wf q] t'(1) s2(1) by (simp add: firstkey_def)
    have sq: "sleepq s2 = sleepq s" using s2(7) by simp
    have IH: "\<exists>s'. wakeup_loop n s2 = Ret s' () \<and> kgood F {} (Some p) {} True s' \<and> ndefers s' = 1 \<and> currpid s' = p
     \<and> kabs s' = fold a_enlist (takeWhile (\<lambda>x. qkey (queuetab s2 x) \<le> 0) (kq s2 (sleepq s2)))
          (kabs s2)\<lparr>asleep := delays (queuetab s2) 0 (dropWhile (\<lambda>x. qkey (queuetab s2 x) \<le> 0) (kq s2 (sleepq s2)))\<rparr>
     \<and> attempt s' = (attempt s2 \<or> takeWhile (\<lambda>x. qkey (queuetab s2 x) \<le> 0) (kq s2 (sleepq s2)) \<noteq> [])"
    proof (rule Suc.IH)
      show "kgood F {} (Some p) {} False s2" using s2(2) by simp
      have "tick_ok (queuetab s2) ws = tick_ok (queuetab s) ws" using kw by (rule tick_ok_cong)
      then show "tick_ok (queuetab s2) (kq s2 (sleepq s2))"
        using Suc.prems(4) L(1) ws sq tick_ok_tl [of "queuetab s" w ws] by simp
    qed (use Suc.prems s2 ws L sq in simp_all)
    then obtain s' where s': "wakeup_loop n s2 = Ret s' ()" "kgood F {} (Some p) {} True s'" "ndefers s' = 1" "currpid s' = p"
      "kabs s' = fold a_enlist (takeWhile ?due ws) (kabs s2)\<lparr>asleep := delays (queuetab s) 0 (dropWhile ?due ws)\<rparr>"
      "attempt s' = (attempt s2 \<or> takeWhile ?due ws \<noteq> [])"
      unfolding sq ws dw rest by blast
    have "kabs s' = fold a_enlist (takeWhile ?due ?L) (kabs s)\<lparr>asleep := delays (queuetab s) 0 (dropWhile ?due ?L)\<rparr>"
      unfolding s'(5) s2(3) a1 using L by (simp add: enlist_asleep)
    moreover have "attempt s' = (attempt s \<or> takeWhile ?due ?L \<noteq> [])" using s'(6) s2(6) L by simp
    ultimately show ?thesis using step s' by simp
  qed
qed

lemma delays_due:
  assumes "\<forall>x \<in> set xs. 0 \<le> qkey (t x)"
  shows "takeWhile (\<lambda>e. snd e \<le> 0) (delays t 0 xs) = delays t 0 (takeWhile (\<lambda>x. qkey (t x) \<le> 0) xs)"
    and "dropWhile (\<lambda>e. snd e \<le> 0) (delays t 0 xs) = delays t 0 (dropWhile (\<lambda>x. qkey (t x) \<le> 0) xs)"
proof -
  have "takeWhile (\<lambda>e. snd e \<le> 0) (delays t 0 xs) = delays t 0 (takeWhile (\<lambda>x. qkey (t x) \<le> 0) xs)
    \<and> dropWhile (\<lambda>e. snd e \<le> 0) (delays t 0 xs) = delays t 0 (dropWhile (\<lambda>x. qkey (t x) \<le> 0) xs)"
    using assms
  proof (induction xs)
    case (Cons x xs)
    then have "qkey (t x) \<le> 0 \<Longrightarrow> qkey (t x) = 0" by force
    then show ?case using Cons by auto
  qed simp
  then show "takeWhile (\<lambda>e. snd e \<le> 0) (delays t 0 xs) = delays t 0 (takeWhile (\<lambda>x. qkey (t x) \<le> 0) xs)"
    "dropWhile (\<lambda>e. snd e \<le> 0) (delays t 0 xs) = delays t 0 (dropWhile (\<lambda>x. qkey (t x) \<le> 0) xs)"
    by simp_all
qed

text \<open>\<^verbatim>\<open>wakeup\<close> on a queue whose expired part is \<open>due\<close> and whose rest shows the delays \<open>sl\<close>.\<close>

lemma wakeup_abs:
  assumes g: "kgood F {} (Some p) {} False s" and cp: "currpid s = p" and nd: "ndefers s = 0"
    and tk: "tick_ok (queuetab s) (kq s (sleepq s))"
    and due: "takeWhile (\<lambda>x. qkey (queuetab s x) \<le> 0) (kq s (sleepq s)) = due" "due \<noteq> []"
    and sl: "delays (queuetab s) 0 (dropWhile (\<lambda>x. qkey (queuetab s x) \<le> 0) (kq s (sleepq s))) = sl"
  shows "refines F (wakeup s) (a_ret () (a_resched (fold a_enlist due (kabs s\<lparr>asleep := sl\<rparr>))))"
proof -
  let ?s1 = "s\<lparr>ndefers := 1, attempt := False\<rparr>"
  have g1: "kgood F {} (Some p) {} False ?s1" by (rule kgood_defer(2) [OF g]) simp
  have "length (kq s (sleepq s)) \<le> 100"
  proof (rule length_pids)
    note w = kgoodD(6) [OF g] and q = kgoodD(10) [OF g]
    show "distinct (kq s (sleepq s))" by (rule wfq_distinct [OF w q])
    show "set (kq s (sleepq s)) \<subseteq> {0..<NPROC}" using wfq_range [OF w q] by auto
  qed
  then obtain s2 where s2: "wakeup_loop 101 ?s1 = Ret s2 ()" "kgood F {} (Some p) {} True s2" "ndefers s2 = 1" "currpid s2 = p"
    "kabs s2 = fold a_enlist due (kabs s)\<lparr>asleep := sl\<rparr>" "attempt s2 = (due \<noteq> [])"
    using wakeup_loop_abs [OF g1, of 101] cp tk due(1) sl by auto
  have "refines F (resched_cntl DEFER_STOP s2) (a_ret OK (a_resched (fold a_enlist due (kabs s\<lparr>asleep := sl\<rparr>))))"
    using defer_stop_abs [OF s2(2-4)] s2(5,6) due(2) by simp
  then have "refines F (kbind (resched_cntl DEFER_STOP s2) (\<lambda>s3 _. Ret s3 ()))
      (a_ret () (a_resched (fold a_enlist due (kabs s\<lparr>asleep := sl\<rparr>))))" by (rule refines_bind)
  then show ?thesis using s2(1) defer_start [OF nd] by (simp add: wakeup_def del: wakeup_loop.simps)
qed

lemma tick_abs:
  assumes g: "kgood F E cur X d s" and L: "kq s (sleepq s) = x # xs"
    and ql: "\<And>r. r \<in> qids (nextqid s) \<Longrightarrow> qlist t' r = kq s r"
    and k: "\<And>j. j \<noteq> x \<Longrightarrow> qkey (t' j) = qkey (queuetab s j)"
    and sl: "delays t' 0 (x # xs) = sl"
  shows "kabs (s\<lparr>queuetab := t'\<rparr>) = kabs s\<lparr>asleep := sl\<rparr>" (is "_ = ?a")
proof (rule kabs_eqI)
  have "x \<notin> set (kq s (readylist s))"
    using wfq_disjoint [OF kgoodD(6,9,10) [OF g], of x] kgoodD(11) [OF g] L by auto
  then have "qkey (t' y) = qkey (queuetab s y)" if "y \<in> set (kq s (readylist s))" for y
    using that by (intro k) auto
  then show "ready_view (s\<lparr>queuetab := t'\<rparr>) = aready ?a"
    using ql [OF kgoodD(9) [OF g]] by (simp add: ready_view_def)
  show "delays (queuetab (s\<lparr>queuetab := t'\<rparr>)) 0 (kq (s\<lparr>queuetab := t'\<rparr>) (sleepq (s\<lparr>queuetab := t'\<rparr>))) = asleep ?a"
    using ql [OF kgoodD(10) [OF g]] L sl by simp
  show "sem_view (s\<lparr>queuetab := t'\<rparr>) j = asem ?a j" for j
    using ql [OF kgood_sem(1) [OF g]] by (simp add: sem_view_def)
qed simp_all

lemma clk_sleepers_abs:
  assumes k: "kinv F s"
  shows "refines F (clk_sleepers s) (a_clk (kabs s))"
proof -
  note g = kinv_kgood [OF k]
  note q = kgoodD(10) [OF g] and wf = kgoodD(6) [OF g]
  show ?thesis
  proof (cases "kq s (sleepq s)")
    case Nil
    then have "clk_sleepers s = Ret s ()" using isempty_iff [OF wf q] by (simp add: clk_sleepers_def)
    moreover have "kabs s\<lparr>asleep := []\<rparr> = kabs s" using Nil by (intro kabs_eqI [symmetric]) simp_all
    ultimately show ?thesis using Nil k by (simp add: a_clk_def a_ticked_def refines_Ret)
  next
    case (Cons x xs)
    define t where "t = queuetab s"
    let ?t' = "set_qkey x (qkey (queuetab s x) - 1) (queuetab s)" and ?s1 = "s\<lparr>queuetab := set_qkey x (qkey (queuetab s x) - 1) (queuetab s)\<rparr>"
    note th = tick_head [OF g Cons]
    have ok: "delta_ok t (x # xs)" using kgoodD(4) [OF g] Cons by (simp add: slp_def t_def)
    then have pos: "\<forall>y \<in> set (x # xs). 0 \<le> qkey (t y)" by (simp add: delta_ok_def)
    have xs: "x \<notin> set xs" using wfq_distinct [OF wf q] Cons by simp
    have kt: "qkey (?t' j) = (if j = x then qkey (t x) - 1 else qkey (t j))" for j by (simp add: t_def qtab_simps)
    have same: "qkey (?t' j) = qkey (t j)" if "j \<in> set xs" for j using xs that kt [of j] by auto
    have eq: "clk_sleepers s = (if qkey (t x) - 1 \<le> 0 then wakeup ?s1 else Ret ?s1 ())"
      using Cons isempty_iff [OF wf q] th(1,2) by (simp add: clk_sleepers_def Let_def t_def)
    have ql: "qlist ?t' r = kq s r" if "r \<in> qids (nextqid s)" for r
      using tick_head(7) [OF g Cons] that by simp
    have sl1: "kabs ?s1 = kabs s\<lparr>asleep := delays ?t' 0 (x # xs)\<rparr>"
      using ql kt by (intro tick_abs [OF g Cons]) (simp_all add: t_def)
    have nd: "ndefers ?s1 = 0" using kinv_nd [OF k] by simp
    have kq1: "kq ?s1 (sleepq ?s1) = x # xs" using ql [OF q] Cons by simp
    have tw: "takeWhile (\<lambda>y. qkey (?t' y) \<le> 0) xs = takeWhile (\<lambda>y. qkey (t y) \<le> 0) xs"
      "dropWhile (\<lambda>y. qkey (?t' y) \<le> 0) xs = dropWhile (\<lambda>y. qkey (t y) \<le> 0) xs"
      by (rule takeWhile_cong [OF refl], simp only: same, rule dropWhile_cong [OF refl], simp only: same)
    have dl: "delays ?t' a (dropWhile P xs) = delays t a (dropWhile P xs)" for a P
      using xs kt by (intro delays_cong) (auto dest: set_dropWhileD)
    consider (zero) "qkey (t x) = 0" | (one) "qkey (t x) = 1" | (more) "1 < qkey (t x)" using pos by fastforce
    then show ?thesis
    proof cases
      case zero
      let ?due = "x # takeWhile (\<lambda>y. qkey (t y) \<le> 0) xs"
      have "a_ticked (asleep (kabs s)) = delays t 0 (x # xs)" using Cons zero by (simp add: a_ticked_def t_def)
      moreover have "refines F (wakeup ?s1) (a_ret () (a_resched (fold a_enlist ?due
          (kabs ?s1\<lparr>asleep := delays t 0 (dropWhile (\<lambda>y. qkey (t y) \<le> 0) xs)\<rparr>))))"
        using k nd th(5) kq1 kt zero tw dl by (intro wakeup_abs [OF th(3)]) simp_all
      ultimately show ?thesis
        using eq zero sl1 delays_due [OF pos] by (simp add: a_clk_def Let_def)
    next
      case one
      have pos': "\<forall>y \<in> set (x # xs). 0 \<le> qkey (?t' y)" using th(6) one by (simp add: t_def delta_ok_def)
      have z: "qkey (?t' x) = 0" using one kt by simp
      let ?due = "x # takeWhile (\<lambda>y. qkey (t y) \<le> 0) xs"
      have "a_ticked (asleep (kabs s)) = delays ?t' 0 (x # xs)"
        unfolding th(8) using Cons one by (simp add: a_ticked_def t_def)
      moreover have "refines F (wakeup ?s1) (a_ret () (a_resched (fold a_enlist ?due
          (kabs ?s1\<lparr>asleep := delays t 0 (dropWhile (\<lambda>y. qkey (t y) \<le> 0) xs)\<rparr>))))"
        using k nd th(5) kq1 kt one tw dl by (intro wakeup_abs [OF th(3)]) simp_all
      ultimately show ?thesis
        using eq one sl1 delays_due [OF pos'] z tw dl by (simp add: a_clk_def Let_def)
    next
      case more
      have "a_ticked (asleep (kabs s)) = delays ?t' 0 (x # xs)"
        unfolding th(8) using Cons more by (simp add: a_ticked_def t_def)
      moreover have "takeWhile (\<lambda>e. snd e \<le> 0) (delays ?t' 0 (x # xs)) = []" using more kt by simp
      moreover have "slp ?s1" using th(4,6) more by (simp add: slp_def t_def)
      then have "kinv F ?s1" using th(3) nd by (simp add: kinv_def kgood_def)
      ultimately show ?thesis
        using eq more sl1 by (simp add: a_clk_def Let_def refines_Ret t_def)
    qed
  qed
qed

end
