(* ===== verification/Samples.thy ===== *)
theory Samples
  imports Kernel Abskern
begin

text \<open>
  Concrete kernel states, reached by the code from a zeroed memory image: the state after
  \<^verbatim>\<open>sysinit\<close>, two suspended processes and a semaphore added to it, and then a run of
  \<^verbatim>\<open>resume\<close>, \<^verbatim>\<open>wait\<close> and \<^verbatim>\<open>sleepms\<close>. The witnesses
  of the properties apply them to these states.
\<close>

section \<open>After initialisation\<close>

definition heap0 :: heap where
  "heap0 = \<lparr>bytes = (\<lambda>a. 0), mnext0 = 0, mlength0 = 0, minheap = 0, maxheap = 0x00FFFFFF\<rparr>"

definition proc0 :: procent where
  "proc0 = \<lparr>prstate = PR_FREE, prprio = 0, prstkptr = 0, prstkbase = 0, prstklen = 0, prname = (\<lambda>i. 0), prsem = 0,
     prparent = 0, prmsg = 0, prhasmsg = False, prdesc = (\<lambda>i. 0)\<rparr>"

definition tty0 :: ttycblk where
  "tty0 = \<lparr>tyihead = 0, tyitail = 0, tyibuff = (\<lambda>i. 0), tyisem = 0, tyohead = 0, tyotail = 0, tyobuff = (\<lambda>i. 0), tyosem = 0,
     tyehead = 0, tyetail = 0, tyebuff = (\<lambda>i. 0), tyimode = 0, tyiecho = False, tyieback = False, tyevis = False,
     tyecrlf = False, tyicrlf = False, tyierase = False, tyierasec = 0, tyierasec2 = 0, tyeof = False, tyeofch = 0,
     tyikill = False, tyikillc = 0, tyicursor = 0, tyoflow = False, tyoheld = False, tyostop = 0, tyostart = 0,
     tyocrlf = False, tyifullc = 0\<rparr>"

definition fsys0 :: fsys where
  "fsys0 = \<lparr>lf_dskdev = 0, lf_mutex = 0,
     lf_dir = \<lparr>lfd_fsysid = 0, lfd_vers = 0, lfd_subvers = 0, lfd_allzeros = 0, lfd_allones = 0, lfd_dfree = 0, lfd_ifree = 0,
       lfd_nfiles = 0, lfd_files = replicate 20 \<lparr>ld_size = 0, ld_ilist = 0, ld_name = replicate 16 0\<rparr>, lfd_revid = 0\<rparr>,
     lf_dirpresent = False, lf_dirdirty = False,
     lfltab = (\<lambda>i. \<lparr>lfstate = LF_FREE, lfdev = 0, lfmutex = 0, lfdirptr = 0, lfmode = 0, lfpos = 0, lfname = replicate 16 0,
       lfinum = 0, lfiblock = \<lparr>ib_next = 0, ib_offset = 0, ib_dba = replicate 16 0\<rparr>, lfdnum = 0, lfdblock = replicate 512 0,
       lfbyte = 0, lfibdirty = False, lfdbdirty = False\<rparr>),
     ramdisk = (\<lambda>a. 0)\<rparr>"

definition net0 :: netst where
  "net0 = \<lparr>ethertab = (\<lambda>i. \<lparr>estate = ETH_STATE_FREE, rxRing = 0, rxHead = 0, rxTail = 0, rxRingSize = 0, rxIrq = 0,
       txRing = 0, txHead = 0, txTail = 0, txRingSize = 0, txIrq = 0, devAddress = replicate 6 0, isem = 0, osem = 0,
       ethregs = (\<lambda>r. 0)\<rparr>),
     udptab = (\<lambda>i. \<lparr>udstate = UDP_FREE, udremip = 0, udremport = 0, udlocport = 0, udhead = 0, udtail = 0, udcount = 0,
       udpid = 0, udqueue = (\<lambda>k. 0)\<rparr>),
     icmptab = (\<lambda>i. \<lparr>icstate = ICMP_FREE, icremip = 0, ichead = 0, ictail = 0, iccount = 0, icpid = 0, icqueue = (\<lambda>k. 0)\<rparr>),
     arpcache = (\<lambda>i. \<lparr>arstate = AR_FREE, arpaddr = 0, arpid = 0, arhaddr = replicate 6 0\<rparr>),
     ipoqueue = \<lparr>iqhead = 0, iqtail = 0, iqsem = 0, iqbuf = (\<lambda>k. 0)\<rparr>,
     NetData = \<lparr>ipucast = 0, ipbcast = 0, ipmask = 0, ipprefix = 0, iprouter = 0, bootserver = 0, dnsserver = 0, ntpserver = 0,
       ipvalid = False, ethucast = replicate 6 0, ethbcast = replicate 6 0, bootfile = replicate 128 0\<rparr>,
     netbufpool = 0, netportseed = 0, sendident = 1, sendtoident = 1, ipident = 32767\<rparr>"

definition kst0 :: kst where
  "kst0 = \<lparr>proctab = (\<lambda>p. proc0), queuetab = (\<lambda>i. \<lparr>qkey = 0, qnext = 0, qprev = 0\<rparr>),
     semtab = (\<lambda>i. \<lparr>sstate = S_FREE, scount = 0, squeue = 0\<rparr>), readylist = 0, sleepq = 0, currpid = 0, prcount = 0,
     ndefers = 0, attempt = False, preempt = 0, clktime = 0, count1000 = 1000, nextpid = 1, nextqid = NPROC, nextsem = 0,
     hp = heap0, buftab = (\<lambda>i. \<lparr>bpnext = 0, bpsem = 0, bpsize = 0\<rparr>), nbpools = 0,
     porttab = (\<lambda>i. \<lparr>ptssem = 0, ptrsem = 0, ptstate = PT_FREE, ptmaxcnt = 0, ptseq = 0, pthead = 0, pttail = 0\<rparr>),
     ptfree = 0, ptnextid = 0, ttytab = (\<lambda>i. tty0),
     idtab = (\<lambda>i. \<lparr>igd_loffset = 0, igd_segsel = 0, igd_rsvd = 0, igd_mbz = 0, igd_type = 0, igd_dpl = 0, igd_present = 0,
       igd_hoffset = 0\<rparr>), girmask = 0, outlog = [], lfs = fsys0, net = net0\<rparr>"

abbreviation (input) KEND :: u32 where "KEND \<equiv> 0x8000"

lemma sysinit_total:
  assumes "getstk NULLSTK (meminit kend (hp s)) = Some x"
  obtains s' where "sysinit kend s = Some s'"
proof -
  have "\<exists>s'. sysinit kend s = Some s'"
    using assms by (cases x) (simp add: sysinit_def Let_def case_prod_unfold)
  then show thesis using that by blast
qed

lemma sysinit_boot: obtains s where "sysinit KEND kst0 = Some s"
proof -
  let ?h = "meminit KEND heap0"
  have "0 < unat KEND" "unat KEND + 12 \<le> 655360" "1048576 + 8192 + 8 \<le> unat (maxheap heap0)"
    "unat (maxheap heap0) + 1 < 4294967296"
    by (simp_all add: heap0_def)
  note m = meminit_spec(1) [OF this]
  have r: "NULLSTK \<noteq> 0" "roundmb NULLSTK \<noteq> 0" by (simp_all add: roundmb_def)
  have "\<exists>x. getstk NULLSTK ?h = Some x"
    by (rule getstk_spec [OF m r]) blast+
  moreover have "hp kst0 = heap0" by (simp add: kst0_def)
  ultimately obtain x where "getstk NULLSTK (meminit KEND (hp kst0)) = Some x" by auto
  then show thesis by (rule sysinit_total) (rule that)
qed

text \<open>The heap \<^verbatim>\<open>meminit\<close> makes of 16 MB, with the hole below 1 MB left out.\<close>

lemma heap_sample: obtains h xs where "free_list h xs" "blocks_of xs = [(32768, 622584), (1048576, 15720440)]"
  "minheap h = KEND" "maxheap h = 0x00FFFFFF"
proof -
  have c: "0 < unat KEND" "unat KEND + 12 \<le> 655360" "1048576 + 8192 + 8 \<le> unat (maxheap heap0)"
    "unat (maxheap heap0) + 1 < 4294967296"
    by (simp_all add: heap0_def)
  have mx: "maxheap heap0 = 0x00FFFFFF" by (simp add: heap0_def)
  have u: "unat (roundmb KEND) = 32768" "unat (truncmb (HOLESTART - KEND - 4)) = 622584"
    "unat (truncmb (maxheap heap0 - HOLEEND - NULLSTK)) = 15720440" "unat HOLEEND = 1048576"
    unfolding mx by (simp_all add: roundmb_def truncmb_def)
  show thesis
  proof (rule that [OF meminit_spec(1) [OF c]])
    show "blocks_of [(roundmb KEND, truncmb (HOLESTART - KEND - 4)), (HOLEEND, truncmb (maxheap heap0 - HOLEEND - NULLSTK))]
        = [(32768, 622584), (1048576, 15720440)]"
      unfolding blocks_of_simps u by simp
    show "minheap (meminit KEND heap0) = KEND" by (rule meminit_spec(2) [OF c])
    show "maxheap (meminit KEND heap0) = 0x00FFFFFF" unfolding meminit_spec(3) [OF c] by (rule mx)
  qed
qed

text \<open>The kernel just booted: only the null process, every semaphore free.\<close>

definition boot_view :: "aks \<Rightarrow> bool" where
  "boot_view a \<longleftrightarrow> acur a = 0 \<and> aready a = [] \<and> asleep a = [] \<and> astate a 0 = PR_CURR \<and> aprio a 0 = 0
     \<and> (\<forall>p. 0 < p \<and> p < NPROC \<longrightarrow> astate a p = PR_FREE) \<and> (\<forall>i. \<not> isbadsem i \<longrightarrow> fst (asem a i) = S_FREE)
     \<and> (\<forall>p. amsg a p = None)"

lemma init_sems_procs: "proctab (init_sems n s) = proctab s"
  by (induction n) (simp_all add: init_sem_def newqueue_def Let_def split: prod.splits)

lemma init_sems_nextsem: "nextsem (init_sems n s) = nextsem s"
  by (induction n) (simp_all add: init_sem_def newqueue_def Let_def split: prod.splits)

lemma sysinit_nextsem: "sysinit kend s = Some s' \<Longrightarrow> nextsem s' = nextsem s"
  by (auto simp: sysinit_def Let_def clkinit_def newqueue_def bufinit_def init_procs_def init_sems_nextsem
      split: option.splits prod.splits if_splits)

lemma sysinit_msgs: "sysinit kend s = Some s' \<Longrightarrow> prhasmsg (proctab s' p) = prhasmsg (proctab s p)"
  by (auto simp: sysinit_def Let_def clkinit_def newqueue_def bufinit_def init_procs_def init_sems_procs
      null_entry_def free_entry_def split: option.splits prod.splits if_splits)

lemma boot_sample: obtains s where "kinv {} s" "boot_view (kabs s)" "ndefers s = 0"
proof -
  obtain s where s: "sysinit KEND kst0 = Some s" by (rule sysinit_boot)
  have q: "nextqid kst0 = NPROC" by (simp add: kst0_def)
  note i = sysinit_kinv [OF q s]
  note g = kinv_kgood [OF i(1)]
  have h: "home s p = None" if "0 \<le> p" "p < NPROC" for p
    using i(4) [OF that] kinv_cur [OF i(1)] i(2) by (cases "p = NULLPROC") (simp_all add: home_def)
  have "kq s r = []" if "r \<in> qids (nextqid s)" for r
  proof (cases "kq s r")
    case (Cons p ps)
    then show ?thesis using kgood_in_queue [OF g that, of p] h [of p] by simp
  qed
  then have "kq s (readylist s) = []" "kq s (sleepq s) = []" using kgoodD(9,10) [OF g] by simp_all
  moreover have "prprio (proctab s 0) = 0"
    using s by (auto simp: sysinit_def Let_def clkinit_def newqueue_def bufinit_def init_procs_def init_sems_procs
      null_entry_def split: option.splits prod.splits if_splits)
  moreover have "\<not> prhasmsg (proctab s p)" for p
    using sysinit_msgs [OF s] by (simp add: kst0_def proc0_def)
  ultimately have "boot_view (kabs s)"
    using i(2,4,5) kinv_cur [OF i(1)]
    by (simp add: boot_view_def ready_view_def sem_view_def isbadsem_def)
  then show thesis using that i(1) kinv_nd [OF i(1)] by blast
qed

lemma boot_semcreate:
  assumes s: "sysinit KEND kst0 = Some s" and n: "0 \<le> n"
  obtains t i where "semcreate n s = (t, i)" "\<not> isbadsem i" "sstate (semtab t i) = S_USED" "scount (semtab t i) = n"
    "currpid t = currpid s"
proof -
  have q: "nextqid kst0 = NPROC" by (simp add: kst0_def)
  have "nextsem s = 0" using sysinit_nextsem [OF s] by (simp add: kst0_def)
  then have nx: "0 \<le> nextsem s" "nextsem s < NSEM" by simp_all
  show thesis
  proof (rule newsem_spec [OF nx])
    fix k
    assume "\<And>i. \<not> isbadsem i \<Longrightarrow> sstate (semtab s i) = S_USED"
    from this [of 0] show thesis using sysinit_kinv(5) [OF q s, of 0] by (simp add: isbadsem_def)
  next
    fix k i
    assume "newsem s = (upd_sem i (\<lambda>e. e\<lparr>sstate := S_USED\<rparr>) (s\<lparr>nextsem := k\<rparr>), i)" "\<not> isbadsem i"
    then show thesis using n
      by (intro that [of "upd_sem i (\<lambda>e. e\<lparr>scount := n\<rparr>) (upd_sem i (\<lambda>e. e\<lparr>sstate := S_USED\<rparr>) (s\<lparr>nextsem := k\<rparr>))" i])
        (simp_all add: semcreate_def isbadsem_def)
  qed
qed

section \<open>Two processes and a semaphore\<close>

text \<open>Processes 1 and 2, of priority 20 and 30, suspended; semaphore 0 in use with count 0.\<close>

definition sample_view :: "aks \<Rightarrow> bool" where
  "sample_view a \<longleftrightarrow> acur a = 0 \<and> aready a = [] \<and> asleep a = [] \<and> astate a 0 = PR_CURR \<and> aprio a 0 = 0
     \<and> astate a 1 = PR_SUSP \<and> aprio a 1 = 20 \<and> astate a 2 = PR_SUSP \<and> aprio a 2 = 30 \<and> asem a 0 = (S_USED, 0, [])
     \<and> (\<forall>p. amsg a p = None)"

lemma add_suspended:
  assumes k: "kinv {} s" and p: "0 < p" "p < NPROC" "prstate (proctab s p) = PR_FREE" and pr: "0 \<le> pr" "pr \<le> 32767"
  shows "kinv {} (upd_proc p (\<lambda>e. e\<lparr>prstate := PR_SUSP, prprio := pr\<rparr>) s)"
proof -
  note g = kinv_kgood [OF k]
  let ?s = "upd_proc p (\<lambda>e. e\<lparr>prstate := PR_SUSP, prprio := pr\<rparr>) s"
  have ne: "p \<noteq> currpid s" using kinv_cur [OF k] p by auto
  have "kgood {} {p} (Some (currpid s)) {} True s" using kgood_take [OF g, of p] p by (simp add: home_def)
  then have "kgood {} {p} (Some (currpid s)) {} True ?s" using ne pr by (intro kgood_upd) auto
  then have "kgood {} ({p} - {p}) (Some (currpid s)) {} True ?s"
    by (rule kgood_drop) (use p in \<open>simp_all add: home_def entry_ok_def\<close>)
  then show ?thesis using kinv_nd [OF k] by (simp add: kinv_def)
qed

lemma add_semaphore:
  assumes k: "kinv {} s" and i: "\<not> isbadsem i" "sstate (semtab s i) = S_FREE" and n: "0 \<le> n" "n \<le> INT32_MAX"
  shows "kinv {} (upd_sem i (\<lambda>e. e\<lparr>sstate := S_USED, scount := n\<rparr>) s)"
proof -
  note g = kinv_kgood [OF k]
  let ?s = "upd_sem i (\<lambda>e. e\<lparr>sstate := S_USED, scount := n\<rparr>) s"
  have "kq s (squeue (semtab s i)) = []" using cnt_free [OF g i(1) _ i(2)] by simp
  then have "kgood {} {} (Some (currpid s)) ({i} - {i}) True ?s"
    using kgood_sem_upd [OF g, of "\<lambda>e. e\<lparr>sstate := S_USED, scount := n\<rparr>" i] n by (intro kgood_sem_ok) simp_all
  then show ?thesis using kinv_nd [OF k] by (simp add: kinv_def)
qed

lemma sample: obtains s where "kinv {} s" "sample_view (kabs s)"
proof -
  obtain s where s: "kinv {} s" "boot_view (kabs s)" by (rule boot_sample)
  have f: "prstate (proctab s 1) = PR_FREE" "prstate (proctab s 2) = PR_FREE" "sstate (semtab s 0) = S_FREE"
    using s(2) by (simp_all add: boot_view_def sem_view_def isbadsem_def)
  let ?s1 = "upd_proc 1 (\<lambda>e. e\<lparr>prstate := PR_SUSP, prprio := 20\<rparr>) s"
  let ?s2 = "upd_proc 2 (\<lambda>e. e\<lparr>prstate := PR_SUSP, prprio := 30\<rparr>) ?s1"
  let ?s3 = "upd_sem 0 (\<lambda>e. e\<lparr>sstate := S_USED, scount := 0\<rparr>) ?s2"
  have 1: "kinv {} ?s1" using f by (intro add_suspended [OF s(1)]) simp_all
  have 2: "kinv {} ?s2" using f by (intro add_suspended [OF 1]) simp_all
  have 3: "kinv {} ?s3" using f by (intro add_semaphore [OF 2]) (simp_all add: isbadsem_def)
  have "kq s (squeue (semtab s 0)) = []" using cnt_free [OF kinv_kgood [OF s(1)] _ _ f(3)] by (simp add: isbadsem_def)
  moreover have "\<not> prhasmsg (proctab s p)" for p
    using s(2) by (simp add: boot_view_def split: if_splits)
  ultimately have "sample_view (kabs ?s3)"
    using s(2) by (simp add: sample_view_def boot_view_def ready_view_def sem_view_def isbadsem_def)
  with 3 show thesis by (rule that)
qed

section \<open>A run\<close>

text \<open>Process 1 is resumed and runs; it resumes process 2, which preempts it; 2 waits on semaphore 0.\<close>

definition run1_view :: "aks \<Rightarrow> bool" where
  "run1_view a \<longleftrightarrow> acur a = 1 \<and> aready a = [(0, 0)] \<and> asleep a = [] \<and> astate a 0 = PR_READY \<and> aprio a 0 = 0
     \<and> astate a 1 = PR_CURR \<and> aprio a 1 = 20 \<and> astate a 2 = PR_SUSP \<and> aprio a 2 = 30 \<and> asem a 0 = (S_USED, 0, [])
     \<and> (\<forall>p. amsg a p = None)"

definition run2_view :: "aks \<Rightarrow> bool" where
  "run2_view a \<longleftrightarrow> acur a = 2 \<and> aready a = [(1, 20), (0, 0)] \<and> asleep a = [] \<and> astate a 0 = PR_READY
     \<and> astate a 1 = PR_READY \<and> aprio a 1 = 20 \<and> astate a 2 = PR_CURR \<and> aprio a 2 = 30 \<and> asem a 0 = (S_USED, 0, [])
     \<and> (\<forall>p. amsg a p = None)"

definition run3_view :: "aks \<Rightarrow> bool" where
  "run3_view a \<longleftrightarrow> acur a = 1 \<and> aready a = [(0, 0)] \<and> asleep a = [] \<and> astate a 0 = PR_READY
     \<and> astate a 1 = PR_CURR \<and> aprio a 1 = 20 \<and> astate a 2 = PR_WAIT \<and> aprio a 2 = 30 \<and> asem a 0 = (S_USED, - 1, [2])
     \<and> (\<forall>p. amsg a p = None)"

definition run4_view :: "aks \<Rightarrow> bool" where
  "run4_view a \<longleftrightarrow> acur a = 1 \<and> aready a = [(0, 0)] \<and> asleep a = [(2, 7)] \<and> astate a 0 = PR_READY
     \<and> astate a 1 = PR_CURR \<and> aprio a 1 = 20 \<and> astate a 2 = PR_SLEEP \<and> aprio a 2 = 30 \<and> asem a 0 = (S_USED, 0, [])
     \<and> (\<forall>p. amsg a p = None)"

lemma refinesE:
  assumes "refines F c x"
  obtains s where "kinv F s" "kabs s = fst x"
  using assms by (auto simp: refines_def)

lemmas a_eval = a_resume_def a_ready_def a_resched_def a_dispatch_def a_place_def a_ret_def abad_def a_wait_def
  a_sleep_def a_signal_def a_suspend_def a_send_def a_receive_def Let_def

lemma run1: obtains s where "kinv {} s" "run1_view (kabs s)"
proof -
  obtain s where s: "kinv {} s" "sample_view (kabs s)" by (rule sample)
  obtain s' where "kinv {} s'" "kabs s' = fst (a_resume 1 (kabs s))" by (rule refinesE [OF resume_abs [OF s(1)]])
  moreover have "run1_view (fst (a_resume 1 a))" if "sample_view a" for a
    using that by (simp add: sample_view_def run1_view_def a_eval)
  ultimately show thesis using s(2) that by metis
qed

lemma run2: obtains s where "kinv {} s" "run2_view (kabs s)"
proof -
  obtain s where s: "kinv {} s" "run1_view (kabs s)" by (rule run1)
  obtain s' where "kinv {} s'" "kabs s' = fst (a_resume 2 (kabs s))" by (rule refinesE [OF resume_abs [OF s(1)]])
  moreover have "run2_view (fst (a_resume 2 a))" if "run1_view a" for a
    using that by (simp add: run1_view_def run2_view_def a_eval)
  ultimately show thesis using s(2) that by metis
qed

lemma run3: obtains s where "kinv {} s" "run3_view (kabs s)"
proof -
  obtain s where s: "kinv {} s" "run2_view (kabs s)" by (rule run2)
  have "currpid s \<noteq> NULLPROC" using s(2) by (simp add: run2_view_def)
  then obtain s' where "kinv {} s'" "kabs s' = fst (a_wait 0 (kabs s))" by (rule refinesE [OF wait_abs [OF s(1)]])
  moreover have "run3_view (fst (a_wait 0 a))" if "run2_view a" for a
    using that by (simp add: run2_view_def run3_view_def a_eval)
  ultimately show thesis using s(2) that by metis
qed

lemma run4: obtains s where "kinv {} s" "run4_view (kabs s)"
proof -
  obtain s where s: "kinv {} s" "run2_view (kabs s)" by (rule run2)
  have "currpid s \<noteq> NULLPROC" using s(2) by (simp add: run2_view_def)
  then obtain s' where "kinv {} s'" "kabs s' = fst (a_sleep 7 (kabs s))"
    by (rule refinesE [OF sleepms_abs [OF s(1), of 7]]) simp_all
  moreover have "run4_view (fst (a_sleep 7 a))" if "run2_view a" for a
    using that by (simp add: run2_view_def run4_view_def a_eval)
  ultimately show thesis using s(2) that by metis
qed

end
