(* ===== verification/Frames.thy ===== *)
theory Frames
  imports Samples
begin

text \<open>
  Scheduling leaves memory, the tables of ports and buffer pools, the terminals and the devices
  alone: what a call that waits or signals can rely on up to the point where it returns or
  switches.
\<close>

section \<open>Scheduling and the tables\<close>

definition store :: "kst \<Rightarrow> heap \<times> (int \<Rightarrow> ptentry) \<times> u32 \<times> int \<times> (int \<Rightarrow> bpentry) \<times> int \<times>
    (int \<Rightarrow> ttycblk) \<times> (u16 \<times> u8) list \<times> netst" where
  "store s = (hp s, porttab s, ptfree s, ptnextid s, buftab s, nbpools s, ttytab s, outlog s, net s)"

lemma store_simps [simp]:
  "store (upd_proc p f s) = store s" "store (upd_sem i g s) = store s" "store (set_prstate p st s) = store s"
  "store (s\<lparr>queuetab := t\<rparr>) = store s" "store (s\<lparr>currpid := p\<rparr>) = store s" "store (s\<lparr>preempt := k\<rparr>) = store s"
  "store (s\<lparr>attempt := b\<rparr>) = store s" "store (s\<lparr>ndefers := k\<rparr>) = store s" "store (s\<lparr>nextsem := k\<rparr>) = store s"
  by (simp_all add: store_def upd_proc_def upd_sem_def set_prstate_def)

lemma storeD: "store s' = store s \<Longrightarrow> hp s' = hp s" "store s' = store s \<Longrightarrow> porttab s' = porttab s"
  "store s' = store s \<Longrightarrow> ptfree s' = ptfree s" "store s' = store s \<Longrightarrow> buftab s' = buftab s"
  "store s' = store s \<Longrightarrow> ttytab s' = ttytab s" "store s' = store s \<Longrightarrow> outlog s' = outlog s"
  "store s' = store s \<Longrightarrow> nbpools s' = nbpools s" "store s' = store s \<Longrightarrow> kmem s' = kmem s"
  "store s' = store s \<Longrightarrow> net s' = net s"
  by (simp_all add: store_def kmem_def)

lemma store_queue [simp]:
  "store (fst (getitem p s)) = store s" "store (fst (getfirst q s)) = store s" "store (fst (enqueue p q s)) = store s"
  "store (fst (dequeue q s)) = store s"
  by (simp_all add: getitem_def getfirst_def enqueue_def dequeue_def Let_def split_beta)

lemma store_insert: "insert_q p q k s = Some (s', r) \<Longrightarrow> store s' = store s"
  by (auto simp: insert_q_def Let_def split: if_splits option.splits)

definition keeps :: "kst \<Rightarrow> (kst, 'a) kprog \<Rightarrow> bool" where
  "keeps s c \<longleftrightarrow> (\<forall>s' r. here c = Some (s', r) \<longrightarrow> store s' = store s)"

lemma keeps_simps [simp]:
  "keeps s (Ret s' r) \<longleftrightarrow> store s' = store s" "keeps s (Ctxsw s' k) \<longleftrightarrow> store s' = store s" "keeps s (Stop x s')"
  by (auto simp: keeps_def)

lemma keeps_bind_Ret: "keeps s c \<Longrightarrow> keeps s (kbind c (\<lambda>s r. Ret s (f r)))"
  by (cases c) simp_all

lemma keeps_cong: "store s' = store s \<Longrightarrow> keeps s' c \<Longrightarrow> keeps s c"
  by (simp add: keeps_def)

lemma keeps_resched: "keeps s (resched s)"
proof -
  have sw: "keeps s (resched_switch s1)" if "store s1 = store s" for s1
    using that store_queue(4) [of "readylist s1" s1] by (simp add: resched_switch_def Let_def split_beta)
  show ?thesis
    by (auto simp: resched_def Let_def sw split: option.splits dest!: store_insert intro!: sw)
qed

lemma keeps_ready: "keeps s (ready p s)"
  by (auto simp: ready_def Let_def split: option.splits dest!: store_insert
      intro!: keeps_bind_Ret keeps_cong [OF _ keeps_resched])

lemma keeps_wait: "keeps s (wait i s)"
  using store_queue(3) by (auto simp: wait_def Let_def split_beta intro!: keeps_bind_Ret keeps_cong [OF _ keeps_resched])

lemma keeps_signal: "keeps s (signal i s)"
proof -
  have "keeps s (signal_once i s)"
    using store_queue(4)
    by (auto simp: signal_once_def count_up_def Let_def split_beta intro!: keeps_bind_Ret keeps_cong [OF _ keeps_ready])
  then show ?thesis by (auto simp: signal_def intro!: keeps_bind_Ret)
qed

lemma keeps_send: "keeps s (send p m s)"
proof -
  have "store (fst (unsleep p s')) = store s'" for s'
    using store_queue(1) by (simp add: unsleep_def Let_def split_beta)
  then show ?thesis
    by (auto simp: send_def Let_def split_beta intro!: keeps_bind_Ret keeps_cong [OF _ keeps_ready])
qed

lemma here_signal:
  assumes "kinv {} s" "scount (semtab s sem) < INT32_MAX"
  obtains s' r where "here (signal sem s) = Some (s', r)" "kinv {} s'" "kabs s' = fst (a_signal sem (kabs s))"
    "r = snd (a_signal sem (kabs s))" "store s' = store s"
proof -
  obtain s' where s': "here (signal sem s) = Some (s', snd (a_signal sem (kabs s)))" "kinv {} s'"
      "kabs s' = fst (a_signal sem (kabs s))"
    using refines_here [OF signal_abs [OF assms]] by blast
  then show thesis using that keeps_signal [of s sem] by (auto simp: keeps_def)
qed

lemma wait_passes:
  assumes k: "kinv {} s" and p: "currpid s \<noteq> NULLPROC" and i: "\<not> isbadsem sem" "sstate (semtab s sem) = S_USED"
    and c: "0 < scount (semtab s sem)"
  obtains s1 where "wait sem s = Ret s1 OK" "kinv {} s1" "kabs s1 = fst (a_wait sem (kabs s))" "store s1 = store s"
    "semtab s1 = (semtab s)(sem := (semtab s sem)\<lparr>scount := scount (semtab s sem) - 1\<rparr>)"
proof -
  have m: "mine {} (currpid s) s" using k by (simp add: mine_def)
  have "wait sem s = Ret (upd_sem sem (\<lambda>e. e\<lparr>scount := scount e - 1\<rparr>) s) OK"
    by (rule wait_enter [OF m i p]) (use c in simp_all)
  then show thesis
    using refines_here [OF wait_abs [OF k p, of sem]]
    by (intro that [of "upd_sem sem (\<lambda>e. e\<lparr>scount := scount e - 1\<rparr>) s"]) auto
qed

lemma wait_blocks:
  assumes k: "kinv {} s" and p: "currpid s \<noteq> NULLPROC" and i: "\<not> isbadsem sem" "sstate (semtab s sem) = S_USED"
    and c: "scount (semtab s sem) \<le> 0"
  obtains s1 where "wait sem s = Ctxsw s1 (\<lambda>s'. Ret s' OK)" "kinv {} s1" "kabs s1 = fst (a_wait sem (kabs s))"
    "store s1 = store s"
proof -
  have m: "mine {} (currpid s) s" using k by (simp add: mine_def)
  obtain s1 where w: "wait sem s = Ctxsw s1 (\<lambda>s'. Ret s' OK)"
  proof (rule wait_enter [OF m i p])
    fix s2
    assume *: "wait sem s = kbind (resched s2) (\<lambda>s3 _. Ret s3 OK)" "kgood {} {} None {} True s2" "ndefers s2 = 0"
    then show thesis
      using that resched_blocked [OF *(2,3)] by (simp add: resched_switch_def Let_def split_beta)
  qed (use c in simp)
  then show thesis
    using that refines_here [OF wait_abs [OF k p, of sem]] keeps_wait [of s sem] by auto
qed

section \<open>Semaphores nobody waits for\<close>

abbreviation count_by :: "int \<Rightarrow> int \<Rightarrow> kst \<Rightarrow> kst" where
  "count_by sem n s \<equiv> upd_sem sem (\<lambda>e. e\<lparr>scount := scount e + n\<rparr>) s"

definition idle_sem :: "int \<Rightarrow> kst \<Rightarrow> bool" where
  "idle_sem sem s \<longleftrightarrow> \<not> isbadsem sem \<and> sstate (semtab s sem) = S_USED \<and> 0 \<le> scount (semtab s sem)"

lemma signal_idle:
  assumes "idle_sem sem s" "scount (semtab s sem) < INT32_MAX"
  shows "signal sem s = Ret (count_by sem 1 s) OK"
  using assms by (simp add: signal_def signal_once_def count_up_def idle_sem_def upd_sem_def)

lemma wait_idle:
  assumes "idle_sem sem s" "0 < scount (semtab s sem)" "scount (semtab s sem) \<le> INT32_MAX"
  shows "wait sem s = Ret (count_by sem (- 1) s) OK"
  using assms by (simp add: wait_def idle_sem_def Let_def upd_sem_def)

lemma upd_sem_id [simp]: "upd_sem sem (\<lambda>e. e) s = s"
  by (simp add: upd_sem_def)

lemma upd_sem_upd_sem: "count_by sem a (count_by sem b s) = count_by sem (a + b) s"
  by (simp add: upd_sem_def add_ac)

section \<open>A sample\<close>

text \<open>Process 1 runs, and semaphore 0 has the count \<open>n\<close>.\<close>

lemma counted_sample:
  assumes "0 \<le> n" "n \<le> INT32_MAX"
  obtains s where "kinv {} s" "currpid s = 1" "asem (kabs s) 0 = (S_USED, n, [])"
proof -
  obtain s where s: "kinv {} s" "run1_view (kabs s)" by (rule run1)
  note r = refines_here [OF semreset_abs [OF s(1) assms(2), of 0]]
  have "asem (fst (a_semreset 0 n (kabs s))) 0 = (S_USED, n, [])" "acur (fst (a_semreset 0 n (kabs s))) = 1"
    using s(2) assms(1) by (simp_all add: run1_view_def a_eval a_semreset_def a_release_def)
  then obtain s' where "kinv {} s'" "kabs s' = fst (a_semreset 0 n (kabs s))" "currpid s' = 1" "asem (kabs s') 0 = (S_USED, n, [])"
    using r kabs_simps(1) by metis
  then show thesis using that by blast
qed

lemma counted_sem:
  assumes "asem (kabs s) 0 = (S_USED, n, [])"
  shows "\<not> isbadsem 0" "sstate (semtab s 0) = S_USED" "scount (semtab s 0) = n"
  using assms by (simp_all add: sem_view_def isbadsem_def split: if_splits)

end
