(* ===== verification/Portspec.thy ===== *)
theory Portspec
  imports Frames
begin

text \<open>
  Ports and buffer pools as queues: what \<^verbatim>\<open>ptsend\<close>, \<^verbatim>\<open>ptrecv\<close>,
  \<^verbatim>\<open>getbuf\<close> and \<^verbatim>\<open>freebuf\<close> do to the lists of messages and buffers, up to
  the point where the call returns or switches, on top of what \<^verbatim>\<open>wait\<close> and
  \<^verbatim>\<open>signal\<close> do to the scheduler (\<open>Abskern\<close>) and leave alone (\<open>Frames\<close>).
\<close>

section \<open>Ports\<close>

text \<open>\<open>ports s n pq\<close>: \<open>n\<close> message nodes are free, and the messages queued at port \<open>i\<close> are \<open>pq i\<close>.\<close>

definition ports :: "kst \<Rightarrow> nat \<Rightarrow> (int \<Rightarrow> u32 list) \<Rightarrow> bool" where
  "ports s n pq \<longleftrightarrow> (\<exists>ff q. port_lists s ff q \<and> length ff = n \<and> (\<forall>i. pq i = port_msgs s (q i)))"

lemma ports_store: "store s' = store s \<Longrightarrow> ports s' n pq = ports s n pq"
  using storeD [of s' s] by (simp add: ports_def port_lists_def port_msgs_def)

lemma ports_link:
  assumes "ports s (Suc n) pq" "ptstate (porttab s i) = PT_ALLOC" "\<not> isbadport i"
  shows "ports (pt_link i msg s) n (pq(i := pq i @ [msg]))" "ptfree s \<noteq> 0"
proof -
  obtain f ff q where q: "port_lists s (f # ff) q" "length ff = n" "\<And>i. pq i = port_msgs s (q i)"
    using assms(1) by (auto simp: ports_def length_Suc_conv)
  note l = pt_link_lists [OF q(1) assms(2,3), where msg = msg]
  have "(pq(i := pq i @ [msg])) j = port_msgs (pt_link i msg s) ((q(i := q i @ [f])) j)" for j
    using l(2) l(3) [where j = j] q(3) by simp
  then show "ports (pt_link i msg s) n (pq(i := pq i @ [msg]))"
    unfolding ports_def using l(1) q(2) by blast
  show "ptfree s \<noteq> 0" using port_listsD(1) [OF q(1)] by simp
qed

lemma ports_unlink:
  assumes "ports s n pq" "ptstate (porttab s i) = PT_ALLOC" "\<not> isbadport i" "pq i = m # ms"
  shows "ports (fst (pt_unlink i s)) (Suc n) (pq(i := ms))" "snd (pt_unlink i s) = m"
proof -
  obtain ff q where q: "port_lists s ff q" "length ff = n" "\<And>i. pq i = port_msgs s (q i)"
    using assms(1) by (auto simp: ports_def)
  obtain k ks where ks: "q i = k # ks" using q(3) [of i] assms(4) by (cases "q i") (simp_all add: port_msgs_def)
  note l = pt_unlink_lists [OF q(1) assms(2,3) ks]
  have "(pq(i := ms)) j = port_msgs (fst (pt_unlink i s)) ((q(i := ks)) j)" for j
    using l(3) l(4) [where j = j] q(3) [of j] ks assms(4) by (auto simp: port_msgs_def)
  then show "ports (fst (pt_unlink i s)) (Suc n) (pq(i := ms))"
    unfolding ports_def using l(1) q(2) by (intro exI [of _ "k # ff"] exI [of _ "q(i := ks)"]) simp
  show "snd (pt_unlink i s) = m" using l(2) q(3) [of i] ks assms(4) by (simp add: port_msgs_def)
qed

lemma pt_frames:
  shows "kabs (pt_link i msg s) = kabs s" "semtab (pt_link i msg s) = semtab s" "currpid (pt_link i msg s) = currpid s"
    "ptrsem (porttab (pt_link i msg s) j) = ptrsem (porttab s j)"
    "kabs (fst (pt_unlink i s)) = kabs s" "semtab (fst (pt_unlink i s)) = semtab s" "currpid (fst (pt_unlink i s)) = currpid s"
    "ptssem (porttab (fst (pt_unlink i s)) j) = ptssem (porttab s j)"
  by (simp_all add: pt_link_def pt_unlink_def Let_def upd_port_def set_kmem_def kabs_def ready_view_def sem_view_def fun_eq_iff)

text \<open>Concrete states with chosen memory and tables, for the witnesses: semaphore 0 has count 5.\<close>

lemma table_sample:
  obtains s where "kinv {} s" "currpid s = 1" "asem (kabs s) 0 = (S_USED, 5, [])"
    "hp s = h" "porttab s = pt" "ptfree s = f" "buftab s = bt" "nbpools s = nb"
proof -
  obtain s' where s': "kinv {} s'" "currpid s' = 1" "asem (kabs s') 0 = (S_USED, 5, [])"
    by (rule counted_sample [of 5]) simp_all
  let ?s = "s'\<lparr>hp := h, porttab := pt, ptfree := f, buftab := bt, nbpools := nb\<rparr>"
  have "mine {} 1 s'" using s' by (simp add: mine_def)
  then have "mine {} 1 ?s" by (rule kgood_cur_frame) simp_all
  moreover have "kabs ?s = kabs s'" by (simp add: kabs_def ready_view_def sem_view_def fun_eq_iff)
  ultimately show thesis using that [of ?s] s' by (simp add: mine_def)
qed

definition port0 :: "u32 \<Rightarrow> ptentry" where
  "port0 n = \<lparr>ptssem = 0, ptrsem = 0, ptstate = PT_ALLOC, ptmaxcnt = 5, ptseq = 1, pthead = n, pttail = n\<rparr>"

definition porttab0 :: "u32 \<Rightarrow> int \<Rightarrow> ptentry" where
  "porttab0 n i = (if i = 0 then port0 n else (port0 0)\<lparr>ptstate := PT_FREE\<rparr>)"

lemma ports_sample:
  assumes "porttab s = porttab0 (if ms = [] then 0 else 8)" "ptfree s = (if ms = [] then 8 else 0)"
    and "hp s = heap0\<lparr>bytes := set_pt_msg 8 (hd (ms @ [0])) (\<lambda>a. 0)\<rparr>" "length ms \<le> 1"
  shows "ports s (if ms = [] then 1 else 0) ((\<lambda>i. [])(0 := ms))"
proof -
  let ?ff = "if ms = [] then [8] else []" and ?q = "(\<lambda>i. [])(0 := if ms = [] then [] else [8])"
  have n: "pt_next (kmem s) 8 = 0" "pt_msg (kmem s) 8 = hd (ms @ [0])" "al8 8"
    using assms(3) by (simp_all add: kmem_def pt_node_same pt_node_other al8_def heap0_def)
      (simp add: pt_next_def rd32_def set_pt_msg_def wr32_def)
  have "port_lists s ?ff ?q" using assms(1,2) n by (auto simp: port_lists_def porttab0_def port0_def isbadport_def)
  moreover have "((\<lambda>i. [])(0 := ms)) i = port_msgs s (?q i)" for i
    using n assms(4) by (cases ms) (simp_all add: port_msgs_def)
  moreover have "length ?ff = (if ms = [] then 1 else 0)" by simp
  ultimately show ?thesis unfolding ports_def by blast
qed

text \<open>The second half of \<^verbatim>\<open>ptrecv\<close>, run at once or when the caller is dispatched again.\<close>

lemma take_message:
  assumes "kinv {} s" "ports s n pq" "ptstate (porttab s i) = PT_ALLOC" "\<not> isbadport i" "pq i = m # ms"
    and "scount (semtab s (ptssem (porttab s i))) < INT32_MAX"
  shows "\<exists>s' r. here (case pt_unlink i s of (s2, msg) \<Rightarrow> kbind (signal (ptssem (porttab s2 i)) s2) (\<lambda>s3 _. Ret s3 msg)) = Some (s', r)
    \<and> kinv {} s' \<and> ports s' (Suc n) (pq(i := ms)) \<and> kabs s' = fst (a_signal (ptssem (porttab s i)) (kabs s))
    \<and> r = map_option (\<lambda>_. m) (snd (a_signal (ptssem (porttab s i)) (kabs s)))"
proof -
  let ?s2 = "fst (pt_unlink i s)" and ?k = "ptssem (porttab s i)"
  note u = ports_unlink [OF assms(2-5)]
  have k: "kinv {} ?s2" using pt_unlink_mine [of "{}" "currpid s" s i] assms(1) by (simp add: mine_def)
  have "scount (semtab ?s2 ?k) < INT32_MAX" using assms(6) by (simp add: pt_frames)
  from k this obtain s' r where s': "here (signal ?k ?s2) = Some (s', r)" "kinv {} s'" "kabs s' = fst (a_signal ?k (kabs s))"
    "r = snd (a_signal ?k (kabs s))" "store s' = store ?s2"
    by (rule here_signal) (use that pt_frames(5) in simp_all)
  have "ports s' (Suc n) (pq(i := ms))" using u(1) ports_store [OF s'(5)] by simp
  then show ?thesis using s' u(2) by (simp add: split_beta here_bind_Ret pt_frames)
qed

text \<open>
  C31. \<^verbatim>\<open>ptsend\<close> to an allocated port with room appends the message at the end of that port's
  queue, takes one node from the free list and leaves the other ports alone; to the scheduler it is
  a \<^verbatim>\<open>wait\<close> on the sender semaphore that passes and a \<^verbatim>\<open>signal\<close> of the receiver
  semaphore.
\<close>

theorem ptsend_appends:
  assumes "kinv {} s" "currpid s \<noteq> NULLPROC" "ports s (Suc n) pq" "ptstate (porttab s i) = PT_ALLOC" "\<not> isbadport i"
    and "\<not> isbadsem (ptssem (porttab s i))" "sstate (semtab s (ptssem (porttab s i))) = S_USED"
      "0 < scount (semtab s (ptssem (porttab s i)))" "scount (semtab s (ptrsem (porttab s i))) < INT32_MAX"
    and "x = a_signal (ptrsem (porttab s i)) (fst (a_wait (ptssem (porttab s i)) (kabs s)))"
  shows "\<exists>s'. here (ptsend i msg s) = Some (s', map_option (\<lambda>_. OK) (snd x)) \<and> kinv {} s' \<and> kabs s' = fst x
    \<and> ports s' n (pq(i := pq i @ [msg]))"
proof -
  let ?a = "ptssem (porttab s i)" and ?b = "ptrsem (porttab s i)"
  obtain s1 where s1: "wait ?a s = Ret s1 OK" "kinv {} s1" "kabs s1 = fst (a_wait ?a (kabs s))" "store s1 = store s"
      "semtab s1 = (semtab s)(?a := (semtab s ?a)\<lparr>scount := scount (semtab s ?a) - 1\<rparr>)"
    by (rule wait_passes [OF assms(1,2,6-8)])
  note D = storeD [OF s1(4)]
  have p1: "ports s1 (Suc n) pq" "ptstate (porttab s1 i) = PT_ALLOC" using assms(3,4) ports_store [OF s1(4)] D by simp_all
  note l = ports_link [OF p1 assms(5)]
  have k: "kinv {} (pt_link i msg s1)" using pt_link_mine [of "{}" "currpid s1" s1 i msg] s1(2) by (simp add: mine_def)
  have "scount (semtab (pt_link i msg s1) ?b) < INT32_MAX" using assms(9) s1(5) by (auto simp: pt_frames)
  from k this obtain s' r where s': "here (signal ?b (pt_link i msg s1)) = Some (s', r)" "kinv {} s'"
      "kabs s' = fst (a_signal ?b (kabs (pt_link i msg s1)))" "r = snd (a_signal ?b (kabs (pt_link i msg s1)))"
      "store s' = store (pt_link i msg s1)"
    by (rule here_signal)
  have "ptsend i msg s = kbind (signal ?b (pt_link i msg s1)) (\<lambda>s3 _. Ret s3 OK)"
    using assms(4,5) s1(1) l(2) D by (simp add: ptsend_def pt_frames)
  then show ?thesis
    using s' l(1) ports_store [OF s'(5)] s1(3) assms(10) by (simp add: here_bind_Ret pt_frames)
qed

theorem ptsend_appends_witness:
  "\<exists>s s'. kinv {} s \<and> ports s 1 (\<lambda>i. []) \<and> here (ptsend 0 77 s) = Some (s', Some OK) \<and> ports s' 0 ((\<lambda>i. [])(0 := [77]))"
proof -
  obtain s where s: "kinv {} s" "currpid s = 1" "asem (kabs s) 0 = (S_USED, 5, [])"
      "hp s = heap0\<lparr>bytes := set_pt_msg 8 (hd ([] @ [0])) (\<lambda>a. 0)\<rparr>" "porttab s = porttab0 0" "ptfree s = 8"
    by (rule table_sample)
  have p: "ports s (Suc 0) (\<lambda>i. [])" using ports_sample [of s "[]"] s(4-6) by (simp add: fun_upd_idem)
  have e: "porttab s 0 = port0 0" using s(5) by (simp add: porttab0_def)
  note q = counted_sem [OF s(3)]
  have "snd (a_signal 0 (fst (a_wait 0 (kabs s)))) = Some OK" using s(3) by (simp add: a_eval del: kabs_simps(5))
  moreover note ptsend_appends [OF s(1) _ p, of 0 "a_signal 0 (fst (a_wait 0 (kabs s)))" 77]
  ultimately obtain s' where "here (ptsend 0 77 s) = Some (s', Some OK)" "ports s' 0 ((\<lambda>i. [])(0 := [77]))"
    using s(2) q by (auto simp: e port0_def isbadport_def)
  then show ?thesis using s(1) p by auto
qed

text \<open>The outcome of taking the oldest message of port \<open>i\<close> and signalling semaphore \<open>k\<close> in state \<open>a\<close>.\<close>

definition took_oldest :: "int \<Rightarrow> nat \<Rightarrow> (int \<Rightarrow> u32 list) \<Rightarrow> int \<Rightarrow> aks \<Rightarrow> (kst \<times> u32 option) option \<Rightarrow> bool" where
  "took_oldest i n pq k a x \<longleftrightarrow>
     (\<exists>s'. x = Some (s', map_option (\<lambda>_. hd (pq i)) (snd (a_signal k a))) \<and> kinv {} s' \<and> kabs s' = fst (a_signal k a)
        \<and> ports s' (Suc n) (pq(i := tl (pq i))))"

lemma take_oldest:
  assumes "kinv {} s" "ports s n pq" "ptstate (porttab s i) = PT_ALLOC" "\<not> isbadport i" "pq i \<noteq> []"
    and "scount (semtab s (ptssem (porttab s i))) < INT32_MAX"
  shows "took_oldest i n pq (ptssem (porttab s i)) (kabs s)
    (here (case pt_unlink i s of (s2, msg) \<Rightarrow> kbind (signal (ptssem (porttab s2 i)) s2) (\<lambda>s3 _. Ret s3 msg)))"
proof (cases "pq i")
  case (Cons m ms)
  show ?thesis using take_message [OF assms(1-4) Cons assms(6)] unfolding took_oldest_def Cons by auto
qed (use assms(5) in simp)

text \<open>
  C32. \<^verbatim>\<open>ptrecv\<close> from an allocated port returns the oldest message: at once when the port has
  one and the receiver semaphore passes; otherwise the caller blocks with memory and the ports
  unchanged, and whenever it is dispatched again it takes the message that is then the oldest,
  unless the port was deleted or reset meanwhile, when it reports an error and takes nothing. (The
  return value shows only when the final \<^verbatim>\<open>signal\<close> does not switch.)
\<close>

theorem ptrecv_oldest:
  assumes "kinv {} s" "currpid s \<noteq> NULLPROC" "ptstate (porttab s i) = PT_ALLOC" "\<not> isbadport i"
    and "\<not> isbadsem (ptrsem (porttab s i))" "sstate (semtab s (ptrsem (porttab s i))) = S_USED"
  shows "if 0 < scount (semtab s (ptrsem (porttab s i)))
    then ports s n pq \<and> pq i \<noteq> [] \<and> scount (semtab s (ptssem (porttab s i))) < INT32_MAX \<longrightarrow>
      took_oldest i n pq (ptssem (porttab s i)) (fst (a_wait (ptrsem (porttab s i)) (kabs s))) (here (ptrecv i s))
    else \<exists>s1 k. ptrecv i s = Ctxsw s1 k \<and> kinv {} s1 \<and> kabs s1 = fst (a_wait (ptrsem (porttab s i)) (kabs s)) \<and> store s1 = store s
      \<and> (\<forall>s2 n pq. if ptstate (porttab s2 i) = PT_ALLOC \<and> ptseq (porttab s2 i) = ptseq (porttab s i)
         then kinv {} s2 \<and> ports s2 n pq \<and> pq i \<noteq> [] \<and> scount (semtab s2 (ptssem (porttab s2 i))) < INT32_MAX \<longrightarrow>
           took_oldest i n pq (ptssem (porttab s2 i)) (kabs s2) (here (k s2))
         else k s2 = Ret s2 (word_of_int SYSERR))"
proof (cases "0 < scount (semtab s (ptrsem (porttab s i)))")
  case True
  let ?b = "ptrsem (porttab s i)"
  obtain s1 where s1: "wait ?b s = Ret s1 OK" "kinv {} s1" "kabs s1 = fst (a_wait ?b (kabs s))" "store s1 = store s"
      "semtab s1 = (semtab s)(?b := (semtab s ?b)\<lparr>scount := scount (semtab s ?b) - 1\<rparr>)"
    by (rule wait_passes [OF assms(1,2,5,6) True])
  note D = storeD [OF s1(4)]
  have "ptrecv i s = (case pt_unlink i s1 of (s2, msg) \<Rightarrow> kbind (signal (ptssem (porttab s2 i)) s2) (\<lambda>s3 _. Ret s3 msg))"
    using assms(3,4) s1(1) D by (simp add: ptrecv_def)
  moreover have "scount (semtab s1 j) < INT32_MAX" if "scount (semtab s j) < INT32_MAX" for j
    using that s1(5) by auto
  ultimately show ?thesis
    using True take_oldest [OF s1(2) _ _ assms(4), of n pq] ports_store [OF s1(4), of n pq] assms(3) s1(3) D by simp
next
  case False
  obtain s1 where s1: "wait (ptrsem (porttab s i)) s = Ctxsw s1 (\<lambda>s'. Ret s' OK)" "kinv {} s1"
      "kabs s1 = fst (a_wait (ptrsem (porttab s i)) (kabs s))" "store s1 = store s"
    by (rule wait_blocks [OF assms(1,2,5,6)]) (use False in simp_all)
  show ?thesis
    unfolding if_not_P [OF False]
  proof (intro exI conjI allI)
    let ?k = "\<lambda>s2. if ptstate (porttab s2 i) \<noteq> PT_ALLOC \<or> ptseq (porttab s2 i) \<noteq> ptseq (porttab s i)
          then Ret s2 (word_of_int SYSERR)
          else case pt_unlink i s2 of (s2, msg) \<Rightarrow> kbind (signal (ptssem (porttab s2 i)) s2) (\<lambda>s3 _. Ret s3 msg)"
    show "ptrecv i s = Ctxsw s1 ?k" using assms(3,4) s1(1) by (simp add: ptrecv_def Let_def cong: if_cong)
    show "if ptstate (porttab s2 i) = PT_ALLOC \<and> ptseq (porttab s2 i) = ptseq (porttab s i)
         then kinv {} s2 \<and> ports s2 n pq \<and> pq i \<noteq> [] \<and> scount (semtab s2 (ptssem (porttab s2 i))) < INT32_MAX \<longrightarrow>
           took_oldest i n pq (ptssem (porttab s2 i)) (kabs s2) (here (?k s2))
         else ?k s2 = Ret s2 (word_of_int SYSERR)" for s2 n pq
      using take_oldest [OF _ _ _ assms(4), of s2 n pq] by (cases "ptstate (porttab s2 i) = PT_ALLOC") auto
  qed (use s1 in simp_all)
qed

theorem ptrecv_oldest_witness:
  "\<exists>s s'. kinv {} s \<and> ports s 0 ((\<lambda>i. [])(0 := [77])) \<and> here (ptrecv 0 s) = Some (s', Some 77) \<and> ports s' 1 (\<lambda>i. [])"
proof -
  obtain s where s: "kinv {} s" "currpid s = 1" "asem (kabs s) 0 = (S_USED, 5, [])"
      "hp s = heap0\<lparr>bytes := set_pt_msg 8 (hd ([77] @ [0])) (\<lambda>a. 0)\<rparr>" "porttab s = porttab0 8" "ptfree s = 0"
    by (rule table_sample)
  have p: "ports s 0 ((\<lambda>i. [])(0 := [77]))" using ports_sample [of s "[77]"] s(4-6) by simp
  have e: "porttab s 0 = port0 8" using s(5) by (simp add: porttab0_def)
  note q = counted_sem [OF s(3)]
  have "snd (a_signal 0 (fst (a_wait 0 (kabs s)))) = Some OK" using s(3) by (simp add: a_eval del: kabs_simps(5))
  moreover have "took_oldest 0 0 ((\<lambda>i. [])(0 := [77])) 0 (fst (a_wait 0 (kabs s))) (here (ptrecv 0 s))"
    using ptrecv_oldest [OF s(1), of 0 0 "(\<lambda>i. [])(0 := [77])"] s(2) q p
    by (simp add: e port0_def isbadport_def)
  ultimately obtain s' where "here (ptrecv 0 s) = Some (s', Some 77)" "ports s' 1 (\<lambda>i. [])"
    by (auto simp: took_oldest_def fun_upd_idem)
  then show ?thesis using s(1) p by blast
qed

section \<open>Buffer pools\<close>

text \<open>\<open>pools s pl\<close>: the free buffers of pool \<open>i\<close> are \<open>pl i\<close>, and no buffer is in two pools.\<close>

definition pools :: "kst \<Rightarrow> (int \<Rightarrow> u32 list) \<Rightarrow> bool" where
  "pools s pl \<longleftrightarrow> nbpools s \<le> NBPOOLS \<and> (\<forall>i. 0 \<le> i \<and> i < nbpools s \<longrightarrow> pool_list s i (pl i))
     \<and> (\<forall>i j. 0 \<le> i \<and> i < nbpools s \<and> 0 \<le> j \<and> j < nbpools s \<and> i \<noteq> j \<longrightarrow> set (pl i) \<inter> set (pl j) = {})"

lemma pools_store: "store s' = store s \<Longrightarrow> pools s' pl = pools s pl"
  using storeD [of s' s] by (simp add: pools_def pool_list_def)

lemma pool_frames [simp]:
  "kabs (fst (getbuf_take i s)) = kabs s" "semtab (fst (getbuf_take i s)) = semtab s" "nbpools (fst (getbuf_take i s)) = nbpools s"
  "kabs (freebuf_put i b s) = kabs s" "semtab (freebuf_put i b s) = semtab s" "nbpools (freebuf_put i b s) = nbpools s"
  "bpsem (buftab (fst (getbuf_take i s)) j) = bpsem (buftab s j)" "bpsem (buftab (freebuf_put i b s) j) = bpsem (buftab s j)"
  by (simp_all add: getbuf_take_def freebuf_put_def Let_def upd_pool_def set_kmem_def kabs_def ready_view_def sem_view_def fun_eq_iff)

lemma pools_take:
  assumes "pools s pl" "0 \<le> i" "i < nbpools s" "pl i = b # bs"
  shows "pools (fst (getbuf_take i s)) (pl(i := bs))" "snd (getbuf_take i s) = b + 4"
    "rd32 (kmem (fst (getbuf_take i s))) b = word_of_int i" "al4 b" "b \<noteq> 0"
    "\<forall>j. 0 \<le> j \<and> j < nbpools s \<longrightarrow> b \<notin> set ((pl(i := bs)) j)"
proof -
  have l: "pool_list s j (pl j)" if "0 \<le> j" "j < nbpools s" for j using assms(1) that by (simp add: pools_def)
  have d: "set (pl j) \<inter> set (pl k) = {}" if "0 \<le> j" "j < nbpools s" "0 \<le> k" "k < nbpools s" "j \<noteq> k" for j k
    using assms(1) that by (simp add: pools_def)
  note t = getbuf_take_list [OF l [OF assms(2,3), unfolded assms(4)]]
  have b: "b \<notin> set (pl j)" if "0 \<le> j" "j < nbpools s" "j \<noteq> i" for j using d [OF assms(2,3) that(1,2)] that(3) assms(4) by auto
  have db: "set bs \<inter> set (pl j) = {}" "set (pl j) \<inter> set bs = {}" if "0 \<le> j" "j < nbpools s" "j \<noteq> i" for j
    using d [OF assms(2,3) that(1,2)] that(3) assms(4) by auto
  show "pools (fst (getbuf_take i s)) (pl(i := bs))"
    using assms(1) t(1) t(4) [OF _ l b] d db unfolding pools_def by auto
  show "snd (getbuf_take i s) = b + 4" "rd32 (kmem (fst (getbuf_take i s))) b = word_of_int i" by (fact t(2,3))+
  show "al4 b" "b \<noteq> 0" using l [OF assms(2,3)] assms(4) by (simp_all add: pool_list_def)
  show "\<forall>j. 0 \<le> j \<and> j < nbpools s \<longrightarrow> b \<notin> set ((pl(i := bs)) j)"
    using b l [OF assms(2,3)] assms(4) by (auto simp: pool_list_def)
qed

lemma pools_put:
  assumes "pools s pl" "0 \<le> i" "i < nbpools s" "al4 b" "b \<noteq> 0" "\<forall>j. 0 \<le> j \<and> j < nbpools s \<longrightarrow> b \<notin> set (pl j)"
  shows "pools (freebuf_put i b s) (pl(i := b # pl i))"
proof -
  have l: "pool_list s j (pl j)" if "0 \<le> j" "j < nbpools s" for j using assms(1) that by (simp add: pools_def)
  note t = freebuf_put_list [OF l [OF assms(2,3)] assms(4,5)]
  show ?thesis
    using assms(1-3,6) t(1) t(2) [OF _ _ l] unfolding pools_def by auto
qed

text \<open>
  C33. \<^verbatim>\<open>getbuf\<close> from a pool whose semaphore passes returns the first free buffer, past
  the word that now holds the pool's number, and \<^verbatim>\<open>freebuf\<close> of that address puts it back: at
  once, in the right pool, at the front, with the pools and the whole scheduler state, semaphores
  included, as they were.
\<close>

theorem getbuf_freebuf_roundtrip:
  assumes "kinv {} s" "currpid s \<noteq> NULLPROC" "pools s pl" "0 \<le> i" "i < nbpools s" "pl i = b # bs"
    and "\<not> isbadsem (bpsem (buftab s i))" "sstate (semtab s (bpsem (buftab s i))) = S_USED"
      "0 < scount (semtab s (bpsem (buftab s i)))"
  shows "\<exists>s1 s2. getbuf i s = Ret s1 (b + 4) \<and> kinv {} s1 \<and> pools s1 (pl(i := bs))
    \<and> here (freebuf (b + 4) s1) = Some (s2, Some OK) \<and> kinv {} s2 \<and> pools s2 pl \<and> kabs s2 = kabs s"
proof -
  let ?k = "bpsem (buftab s i)"
  obtain s0 where s0: "wait ?k s = Ret s0 OK" "kinv {} s0" "kabs s0 = fst (a_wait ?k (kabs s))" "store s0 = store s"
      "semtab s0 = (semtab s)(?k := (semtab s ?k)\<lparr>scount := scount (semtab s ?k) - 1\<rparr>)"
    by (rule wait_passes [OF assms(1,2,7-9)])
  note D = storeD [OF s0(4)]
  let ?s1 = "fst (getbuf_take i s0)" and ?s2 = "freebuf_put i b (fst (getbuf_take i s0))"
  have p0: "pools s0 pl" "i < nbpools s0" using assms(3,5) pools_store [OF s0(4)] D by simp_all
  note t = pools_take [OF p0(1) assms(4) p0(2) assms(6)]
  have m: "mine {} (currpid s0) s0" using s0(2) by (simp add: mine_def)
  have k1: "mine {} (currpid s0) ?s1" using m by (simp add: getbuf_take_def Let_def port_frame pool_frame)
  then have k2: "kinv {} ?s2" by (simp add: freebuf_put_def Let_def port_frame pool_frame mine_def [symmetric])
      (metis mine_def port_frame(2) pool_frame(1))
  have "scount (semtab ?s2 ?k) < INT32_MAX"
    using s0(5) cnt_used(1) [OF kinv_kgood [OF assms(1)] assms(7) _ assms(8)] by simp
  from k2 this obtain s2 r where s2: "here (signal ?k ?s2) = Some (s2, r)" "kinv {} s2" "kabs s2 = fst (a_signal ?k (kabs ?s2))"
      "r = snd (a_signal ?k (kabs ?s2))" "store s2 = store ?s2"
    by (rule here_signal)
  have "kq s (squeue (semtab s ?k)) = []"
    using cnt_used(3) [OF kinv_kgood [OF assms(1)] assms(7) _ assms(8)] assms(9) by simp
  then have "sem_view s ?k = (S_USED, scount (semtab s ?k), [])" using assms(7,8) by (simp add: sem_view_def)
  then have a: "a_signal ?k (fst (a_wait ?k (kabs s))) = (kabs s, Some OK)"
    using assms(9) by (simp add: a_wait_def a_signal_def) (simp add: kabs_def fun_upd_idem)
  have i20: "i < 20" using assms(3-5) by (simp add: pools_def)
  then have i: "sint (word_of_int i :: u32) = i" using assms(4) by (simp add: sint_sbintrunc' signed_take_bit_int_eq_self)
  have "freebuf (b + 4) ?s1 = kbind (signal ?k ?s2) (\<lambda>s2 _. Ret s2 OK)"
    using t(3) i assms(4,5) D by (simp add: freebuf_def Let_def)
  then have f: "here (freebuf (b + 4) ?s1) = Some (s2, Some OK)" using s2(1,4) a s0(3) by (simp add: here_bind_Ret)
  have "pools ?s2 ((pl(i := bs))(i := b # (pl(i := bs)) i))"
    by (rule pools_put [OF t(1) assms(4)]) (use p0(2) t(4-6) in simp_all)
  moreover have "(pl(i := bs))(i := b # (pl(i := bs)) i) = pl" using assms(6) by (simp add: fun_eq_iff)
  ultimately have "pools s2 pl" using pools_store [OF s2(5)] by simp
  moreover have "getbuf i s = Ret ?s1 (b + 4)" using assms(4,5) s0(1) t(2) by (simp add: getbuf_def split_beta)
  moreover have "kinv {} ?s1" using k1 by (simp add: mine_def)
  ultimately show ?thesis using t(1) f s2(2,3) a s0(3) by auto
qed

theorem getbuf_freebuf_roundtrip_witness:
  "\<exists>s s1 s2. kinv {} s \<and> getbuf 0 s = Ret s1 68 \<and> here (freebuf 68 s1) = Some (s2, Some OK) \<and> pools s2 (\<lambda>i. [64, 128])"
proof -
  let ?h = "heap0\<lparr>bytes := set_bp_next 64 128 (\<lambda>a. 0)\<rparr>" and ?bt = "\<lambda>i. \<lparr>bpnext = 64, bpsem = 0, bpsize = 8\<rparr>"
  obtain s where s: "kinv {} s" "currpid s = 1" "asem (kabs s) 0 = (S_USED, 5, [])" "hp s = ?h" "buftab s = ?bt" "nbpools s = 1"
    by (rule table_sample)
  have al: "al4 64" "al4 128" by (simp_all add: al4_def)
  have "bp_next (kmem s) 64 = 128" "bp_next (kmem s) 128 = 0"
    using s(4) al by (simp_all add: kmem_def bp_next_def set_bp_next_def heap0_def) (simp add: rd32_def)
  then have p: "pools s (\<lambda>i. [64, 128])" using s(5,6) al by (simp add: pools_def pool_list_def)
  note q = counted_sem [OF s(3)]
  have "(64 :: u32) + 4 = 68" by simp
  then show ?thesis
    using getbuf_freebuf_roundtrip [OF s(1) _ p, of 0 64 "[128]"] s q by simp blast
qed

lemma buffers_layout:
  assumes "unat buf + k * unat bsz < 4294967296" "0 < unat bsz" "al4 buf" "al4 bsz" "buf \<noteq> 0"
  shows "i < k \<Longrightarrow> unat (buf + of_nat i * bsz) = unat buf + i * unat bsz"
    "distinct (buffers k bsz buf)" "list_all al4 (buffers k bsz buf)" "0 \<notin> set (buffers k bsz buf)"
    "x \<in> set (buffers k bsz buf) \<Longrightarrow> \<exists>i<k. unat x = unat buf + i * unat bsz"
proof -
  have u: "unat (buf + of_nat i * bsz) = unat buf + i * unat bsz" if "i < k" for i
  proof -
    have "i * unat bsz < k * unat bsz" using that assms(2) by simp
    then have lt: "unat buf + i * unat bsz < 4294967296" using assms(1) by linarith
    have "i \<le> i * unat bsz" using assms(2) by simp
    then have "i < 4294967296" using lt by linarith
    then show ?thesis using lt by (simp add: unat_word_ariths unat_of_nat)
  qed
  then show "i < k \<Longrightarrow> unat (buf + of_nat i * bsz) = unat buf + i * unat bsz" .
  have "inj_on (\<lambda>i. buf + of_nat i * bsz) {0..<k}"
  proof (rule inj_onI)
    fix i j assume "i \<in> {0..<k}" "j \<in> {0..<k}" "buf + of_nat i * bsz = buf + of_nat j * bsz"
    then have "i * unat bsz = j * unat bsz" using u [of i] u [of j] by (metis add_left_cancel atLeastLessThan_iff)
    then show "i = j" using assms(2) by simp
  qed
  then show "distinct (buffers k bsz buf)" by (simp add: buffers_def distinct_map)
  have z: "unat buf mod 4 = 0" "unat bsz mod 4 = 0" using assms(3,4) by (simp_all add: al4_def)
  have "(unat buf + i * unat bsz) mod 4 = 0" for i using z by (metis add_0 mod_add_eq mod_mult_right_eq mult_0_right mod_0)
  then show "list_all al4 (buffers k bsz buf)" using u by (simp add: buffers_def list_all_iff al4_def)
  have "0 < unat buf" using assms(5) by (simp add: unat_gt_0)
  then have "buf + of_nat i * bsz \<noteq> 0" if "i < k" for i using u [OF that] by auto
  then show "0 \<notin> set (buffers k bsz buf)" by (force simp: buffers_def)
  show "x \<in> set (buffers k bsz buf) \<Longrightarrow> \<exists>i<k. unat x = unat buf + i * unat bsz" using u by (auto simp: buffers_def)
qed

text \<open>The block a first fit cuts off lies in one free block, and the others stay clear of it.\<close>

lemma first_fit_apart:
  "wfb lo xs \<Longrightarrow> first_fit r (blocks_of xs) = Some (ys, b) \<Longrightarrow> 0 < r \<Longrightarrow>
     lo < b \<and> b mod 8 = 0 \<and> b + r < 4294967296 \<and> (\<forall>c k. (c, k) \<in> set ys \<longrightarrow> lo < c \<and> (c + k \<le> b \<or> b + r \<le> c))"
proof (induction lo xs arbitrary: ys rule: wfb.induct)
  case (2 lo a l xs)
  have w: "lo < unat a" "al8 a" "unat a + unat l < 4294967296" "wfb (unat a + unat l) xs" using "2.prems"(1) by simp_all
  have later: "unat a + unat l < c" if "(c, k) \<in> set (blocks_of xs)" for c k
    using blocks_of_mem [OF that] wfb_mem [OF w(4)] by auto
  consider "unat l = r" | "r < unat l" | "unat l < r" by linarith
  then show ?case
  proof cases
    case 1
    then show ?thesis using "2.prems"(2,3) w later by (fastforce simp: al8_def)
  next
    case 2
    then show ?thesis using "2.prems"(2) \<open>0 < r\<close> w later by (fastforce simp: al8_def)
  next
    case 3
    then obtain zs where z: "first_fit r (blocks_of xs) = Some (zs, b)" "ys = (unat a, unat l) # zs"
      using "2.prems"(2) by auto
    from "2.IH" [OF w(4) z(1) "2.prems"(3)] show ?thesis using z(2) w by fastforce
  qed
qed simp

lemma semcreate_found:
  assumes "0 \<le> nextsem s" "nextsem s < NSEM" "0 \<le> n" "\<not> isbadsem j" "sstate (semtab s j) = S_FREE"
  obtains s' i where "semcreate n s = (s', i)" "\<not> isbadsem i" "i \<noteq> SYSERR" "sstate (semtab s' i) = S_USED"
    "scount (semtab s' i) = n" "store s' = store s"
proof (rule newsem_spec [OF assms(1,2)])
  fix k i assume i: "newsem s = (upd_sem i (\<lambda>e. e\<lparr>sstate := S_USED\<rparr>) (s\<lparr>nextsem := k\<rparr>), i)" "\<not> isbadsem i"
  show thesis
    by (rule that [of "upd_sem i (\<lambda>e. e\<lparr>scount := n\<rparr>) (upd_sem i (\<lambda>e. e\<lparr>sstate := S_USED\<rparr>) (s\<lparr>nextsem := k\<rparr>))" i])
      (use i assms(3) in \<open>simp_all add: semcreate_def isbadsem_def\<close>)
qed (use assms(4,5) in fastforce)

text \<open>Writing the links of the buffers leaves the free list alone.\<close>

lemma pool_links_heap:
  assumes f: "free_list h xs" and k: "bp_links k bsz a (bytes h) = (m', lst)"
    and bs: "distinct (buffers (Suc k) bsz a)" "list_all al4 (buffers (Suc k) bsz a)" "0 \<notin> set (buffers (Suc k) bsz a)"
    and out: "\<And>x c l. x \<in> set (buffers (Suc k) bsz a) \<Longrightarrow> (c, l) \<in> set xs \<Longrightarrow> x \<noteq> c \<and> x \<noteq> c + 4"
  shows "chain (bp_next (set_bp_next lst 0 m')) a (buffers (Suc k) bsz a)" "free_list (h\<lparr>bytes := set_bp_next lst 0 m'\<rparr>) xs"
proof -
  note l = bp_links_chain [OF bs k]
  show "chain (bp_next (set_bp_next lst 0 m')) a (buffers (Suc k) bsz a)" using l by blast
  have "blk_next (set_bp_next lst 0 m') c = blk_next (bytes h) c \<and> blk_len (set_bp_next lst 0 m') c = blk_len (bytes h) c"
    if "(c, l) \<in> set xs" for c l
  proof -
    have "al8 c" using f that wfb_al8 by (auto simp: free_list_def)
    then show ?thesis
      using l out [OF _ that] al8_al4 [of c] al8_al4_4 [of c] unfolding blk_next_def blk_len_def bp_next_def [symmetric] by blast
  qed
  then show "free_list (h\<lparr>bytes := set_bp_next lst 0 m'\<rparr>) xs"
    using f fseg_cong [of xs "set_bp_next lst 0 m'" "bytes h"] by (simp add: free_list_def)
qed

lemma unat_u32_of_int: "0 \<le> x \<Longrightarrow> x < 4294967296 \<Longrightarrow> unat (word_of_int x :: u32) = nat x"
  using uint_word_of_int [of x, where 'a = 32] by (simp add: unat_eq_nat_uint)

text \<open>Buffers cut from a block that is apart from the free blocks do not touch their headers.\<close>

lemma buffers_apart:
  assumes "x \<in> set (buffers (Suc k) bw a) \<Longrightarrow> \<exists>i<Suc k. unat x = unat a + i * unat bw"
    and "unat a + Suc k * unat bw \<le> unat a + n" "12 \<le> unat bw" "free_list h ws"
    and "\<And>c l. (c, l) \<in> set (blocks_of ws) \<Longrightarrow> c + l \<le> unat a \<or> unat a + n \<le> c"
    and "x \<in> set (buffers (Suc k) bw a)" "(c, l) \<in> set ws"
  shows "x \<noteq> c \<and> x \<noteq> c + 4"
proof -
  obtain i where i: "i < Suc k" "unat x = unat a + i * unat bw" using assms(1,6) by blast
  have "i * unat bw + unat bw \<le> Suc k * unat bw" using i(1) mult_le_mono1 [of "Suc i" "Suc k" "unat bw"] by simp
  then have lt: "unat a \<le> unat x" "unat x + 4 \<le> unat a + n" using assms(2,3) i(2) by linarith+
  have "(unat c, unat l) \<in> set (blocks_of ws)" using assms(7) by (force simp: blocks_of_def)
  then have d: "unat c + unat l \<le> unat a \<or> unat a + n \<le> unat c" by (rule assms(5))
  have "al8 c" "al8 l" "l \<noteq> 0" using assms(4,7) wfb_mem [of 0 ws c l] by (simp_all add: free_list_def)
  then have "8 \<le> unat l" "unat (c + 4) = unat c + 4" using al8_pos al8_unat4 by simp_all
  then show ?thesis using d lt by auto
qed

text \<open>
  \<^verbatim>\<open>mkbufpool\<close> with valid arguments, a free pool, a free semaphore and a block of free
  memory that is large enough: the new pool's free list is the block cut into as many buffers as
  asked for, each of the size asked for, rounded up to words, plus one word, in address order; its
  semaphore counts them; the block is gone from the list of free memory, which stays well formed.
\<close>

theorem mkbufpool_pool:
  assumes "free_list (hp s) xs" "8 \<le> bsz" "bsz \<le> 8192" "1 \<le> n" "n \<le> 2048" "nbpools s < NBPOOLS"
    and "0 \<le> nextsem s" "nextsem s < NSEM" "\<not> isbadsem j" "sstate (semtab s j) = S_FREE"
    and "sz = (bsz + 3) div 4 * 4 + 4" "first_fit ((nat (n * sz) + 7) div 8 * 8) (blocks_of xs) = Some (ys, b)"
  shows "\<exists>s' xs' a. mkbufpool bsz n s = Ret s' (nbpools s) \<and> nbpools s' = nbpools s + 1 \<and> unat a = b
    \<and> pool_list s' (nbpools s) (buffers (nat n) (word_of_int sz) a)
    \<and> sstate (semtab s' (bpsem (buftab s' (nbpools s)))) = S_USED \<and> scount (semtab s' (bpsem (buftab s' (nbpools s)))) = n
    \<and> free_list (hp s') xs' \<and> blocks_of xs' = ys"
proof -
  let ?i = "nbpools s" and ?bw = "word_of_int sz :: u32"
  define t where "t = (word_of_int (n * sz) :: u32)"
  have sz: "12 \<le> sz" "sz \<le> 8196" "sz mod 4 = 0" "round4 bsz + 4 = sz"
    using assms(2,3,11) unfolding round4_def and_not_mask2 by presburger+
  then have tb: "0 < n * sz" "n * sz \<le> 2048 * 8196" using assms(4,5) mult_mono [of n 2048 sz 8196] by simp_all
  have ut: "unat t = nat (n * sz)" unfolding t_def by (rule unat_u32_of_int) (use tb in simp_all)
  have ub: "unat ?bw = nat sz" using sz by (simp add: unat_u32_of_int)
  let ?R = "(nat (n * sz) + 7) div 8 * 8"
  have R: "nat (n * sz) \<le> ?R" "0 < ?R" using tb(1) by simp_all
  have tw: "t \<noteq> 0" "unat t + 7 < 4294967296" using ut tb by auto
  have wf: "wfb 0 xs" using assms(1) by (simp add: free_list_def)
  note ff = first_fit_apart [OF wf assms(12) R(2)]
  obtain h a ws where g: "getmem t (hp s) = Some (h, a)" "unat a = b" "free_list h ws" "blocks_of ws = ys"
    using getmem_refines [OF assms(1) tw] assms(12) by (auto simp: ut)
  have a: "a \<noteq> 0" "al4 a" using ff g(2) by (auto simp: al4_def)
  have "unat (- 1 :: u32) = 4294967295" by (simp add: unsigned_minus_1_eq_mask mask_eq_exp_minus_1)
  then have "b \<noteq> unat (- 1 :: u32)" using ff R(2) by auto
  then have ap: "a \<noteq> PSYSERR" using g(2) by auto
  obtain k where k: "nat n = Suc k" "nat (n - 1) = k" using assms(4) by (cases "nat n") auto
  have nt: "nat n * nat sz = nat (n * sz)" using assms(4) by (simp add: nat_mult_distrib)
  have en: "unat a + nat n * unat ?bw \<le> b + ?R" "b + ?R < 4294967296" using g(2) ub nt R(1) ff by simp_all
  have "nat sz mod 4 = 0" using nat_mod_distrib [of sz 4] sz(1,3) by simp
  note sz4 = this
  have lay: "unat a + Suc k * unat ?bw < 4294967296" "0 < unat ?bw" "al4 ?bw"
    using en k(1) sz(1) ub sz4 by (auto simp: al4_def)
  note B = buffers_layout [OF lay(1,2) a(2) lay(3) a(1)]
  have en': "unat a + Suc k * unat ?bw \<le> unat a + ?R" "12 \<le> unat ?bw" using en(1) g(2) k(1) ub sz(1) by simp_all
  have ff': "(c, l) \<in> set (blocks_of ws) \<Longrightarrow> c + l \<le> unat a \<or> unat a + ?R \<le> c" for c l using ff g(2,4) by blast
  note out = buffers_apart [OF B(5) en' g(3) ff']
  let ?s2 = "upd_pool ?i (\<lambda>e. e\<lparr>bpnext := a, bpsize := round4 bsz\<rparr>) (s\<lparr>hp := h, nbpools := ?i + 1\<rparr>)"
  obtain s3 q where s3: "semcreate n ?s2 = (s3, q)" "\<not> isbadsem q" "q \<noteq> SYSERR" "sstate (semtab s3 q) = S_USED"
      "scount (semtab s3 q) = n" "store s3 = store ?s2"
    by (rule semcreate_found [of ?s2 n j]) (use assms(4,7-10) in \<open>simp_all add: upd_pool_def\<close>)
  note D = storeD [OF s3(6)]
  obtain m' lst where l: "bp_links k ?bw a (bytes h) = (m', lst)" by (cases "bp_links k ?bw a (bytes h)")
  note heap = pool_links_heap [OF g(3) l B(2-4) out]
  let ?s' = "set_kmem (set_bp_next lst 0 m') (upd_pool ?i (\<lambda>e. e\<lparr>bpsem := q\<rparr>) s3)"
  have h3: "hp s3 = h" "kmem s3 = bytes h" "nbpools s3 = ?i + 1" "bpnext (buftab s3 ?i) = a"
    using D by (simp_all add: upd_pool_def kmem_def)
  have "mkbufpool bsz n s = Ret ?s' ?i"
    using assms(2-6) g(1) ap s3(1,3) k l sz(4) h3
    by (simp add: mkbufpool_def Let_def t_def [symmetric] del: of_int_mult of_int_add)
  moreover have "pool_list ?s' ?i (buffers (nat n) ?bw a)"
    using heap(1) B(2,3) k h3 by (simp add: pool_list_def)
  moreover have "hp ?s' = h\<lparr>bytes := set_bp_next lst 0 m'\<rparr>" using h3 by (simp add: set_kmem_def upd_pool_def)
  ultimately show ?thesis using heap(2) g(2,4) s3(4,5) h3
    by (intro exI [of _ ?s'] exI [of _ ws] exI [of _ a]) (simp add: upd_pool_def set_kmem_def)
qed

theorem mkbufpool_pool_sample:
  "\<exists>s s' a. mkbufpool 98 3 s = Ret s' 0 \<and> unat a = 32768 \<and> pool_list s' 0 [a, a + 104, a + 208]"
proof -
  obtain h xs where h: "free_list h xs" "blocks_of xs = [(32768, 622584), (1048576, 15720440)]" by (rule heap_sample)
  let ?s = "kst0\<lparr>hp := h\<rparr>"
  have f: "free_list (hp ?s) xs" using h(1) by simp
  have "(104 :: int) = (98 + 3) div 4 * 4 + 4" by simp
  moreover have "first_fit ((nat (3 * 104) + 7) div 8 * 8) (blocks_of xs) = Some ([(33080, 622272), (1048576, 15720440)], 32768)"
    using h(2) by simp
  ultimately have "\<exists>s' xs' a. mkbufpool 98 3 ?s = Ret s' (nbpools ?s) \<and> nbpools s' = nbpools ?s + 1 \<and> unat a = 32768
    \<and> pool_list s' (nbpools ?s) (buffers (nat 3) (word_of_int 104) a)
    \<and> sstate (semtab s' (bpsem (buftab s' (nbpools ?s)))) = S_USED \<and> scount (semtab s' (bpsem (buftab s' (nbpools ?s)))) = 3
    \<and> free_list (hp s') xs' \<and> blocks_of xs' = [(33080, 622272), (1048576, 15720440)]"
    by (intro mkbufpool_pool [OF f, of 98 3 0]) (simp_all add: kst0_def isbadsem_def)
  moreover have "buffers (nat 3) (word_of_int 104) a = [a, a + 104, a + 208]" for a
    by (simp add: buffers_def numeral_3_eq_3)
  moreover have "nbpools ?s = 0" by (simp add: kst0_def)
  ultimately show ?thesis by metis
qed

end
