(* ===== verification/Liveness.thy ===== *)
theory Liveness
  imports Samples
begin

text \<open>
  Timed sleep, seen over many clock interrupts: a process that sleeps is woken after exactly as many
  interrupts as its delay says. The run is one of \<^verbatim>\<open>clkhandler\<close> calls, each up to the
  point where it returns or the processor goes to another process.
\<close>

section \<open>What a tick leaves alone\<close>

definition runnable :: "aks \<Rightarrow> int \<Rightarrow> bool" where
  "runnable a p \<longleftrightarrow> astate a p = PR_READY \<or> astate a p = PR_CURR"

lemma resched_sleep [simp]: "asleep (fst (a_resched a)) = asleep a"
  by (simp add: a_resched_def a_dispatch_def split: list.split)

lemma runnable_resched: "runnable a p \<Longrightarrow> runnable (fst (a_resched a)) p"
  by (auto simp: a_resched_def a_dispatch_def runnable_def split: list.split)

lemma runnable_enlist: "p \<in> set ws \<or> runnable a p \<Longrightarrow> runnable (fold a_enlist ws a) p"
proof (induction ws arbitrary: a)
  case (Cons w ws)
  then have "p \<in> set ws \<or> runnable (a_enlist w a) p" by (auto simp: runnable_def)
  then show ?case using Cons.IH by simp
qed simp

lemma enlist_sleep [simp]: "asleep (fold a_enlist ws a) = asleep a"
  by (induction ws arbitrary: a) simp_all

lemma delays_sorted: "\<forall>x \<in> set xs. 0 \<le> qkey (t x) \<Longrightarrow> sorted (map snd (delays t k xs)) \<and> (\<forall>e \<in> set (delays t k xs). k \<le> snd e)"
proof (induction xs arbitrary: k)
  case (Cons x xs)
  then have "sorted (map snd (delays t (k + qkey (t x)) xs)) \<and> (\<forall>e \<in> set (delays t (k + qkey (t x)) xs). k + qkey (t x) \<le> snd e)"
    by simp
  then show ?case using Cons.prems by fastforce
qed simp

lemma kinv_sleep_sorted: "kinv F s \<Longrightarrow> sorted (map snd (asleep (kabs s))) \<and> (\<forall>e \<in> set (asleep (kabs s)). 0 \<le> snd e)"
proof -
  assume "kinv F s"
  then have "\<forall>x \<in> set (kq s (sleepq s)). 0 \<le> qkey (queuetab s x)"
    using kgoodD(4) [OF kinv_kgood] by (auto simp: slp_def delta_ok_def)
  then show ?thesis using delays_sorted by simp
qed

section \<open>One interrupt\<close>

lemma dropWhile_sorted:
  "sorted (map snd xs) \<Longrightarrow> dropWhile (\<lambda>e. snd e \<le> (c :: int)) xs = filter (\<lambda>e. c < snd e) xs"
proof (induction xs)
  case (Cons x xs)
  show ?case
  proof (cases "snd x \<le> c")
    case False
    then have "\<forall>e \<in> set xs. c < snd e" using Cons.prems by force
    then show ?thesis using False by (simp add: filter_True)
  qed (use Cons in simp)
qed simp

lemma takeWhile_sorted:
  "sorted (map snd xs) \<Longrightarrow> set (takeWhile (\<lambda>e. snd e \<le> (c :: int)) xs) = {e \<in> set xs. snd e \<le> c}"
proof (induction xs)
  case (Cons x xs)
  show ?case
  proof (cases "snd x \<le> c")
    case False
    then have "\<forall>e \<in> set (x # xs). c < snd e" using Cons.prems by force
    then show ?thesis using False by (auto simp: not_less [symmetric])
  qed (use Cons in auto)
qed simp

definition ticked :: "(int \<times> int) list \<Rightarrow> (int \<times> int) list" where
  "ticked sl = map (\<lambda>(p, d). (p, d - 1)) (filter (\<lambda>e. 1 < snd e) sl)"

lemma a_clk_ticked:
  assumes "sorted (map snd (asleep a))" "\<forall>e \<in> set (asleep a). 0 < snd e"
  shows "asleep (fst (a_clk a)) = ticked (asleep a)"
    "(p, 1) \<in> set (asleep a) \<or> runnable a p \<Longrightarrow> runnable (fst (a_clk a)) p"
proof -
  let ?f = "\<lambda>(p, d). (p, d - 1 :: int)" and ?sl = "asleep a"
  have t: "a_ticked ?sl = map ?f ?sl" using assms(2) by (cases ?sl) (auto simp: a_ticked_def)
  have s: "sorted (map snd (map ?f ?sl))"
    using assms(1) unfolding sorted_map sorted_wrt_map by (rule sorted_wrt_mono_rel [rotated]) auto
  note dw = dropWhile_sorted [OF s, of 0] and tw = takeWhile_sorted [OF s, of 0]
  have f: "filter (\<lambda>e. 0 < snd e) (map ?f ?sl) = ticked ?sl"
    by (simp add: ticked_def filter_map comp_def split_beta)
  show "asleep (fst (a_clk a)) = ticked (asleep a)"
  proof (cases "takeWhile (\<lambda>e. snd e \<le> 0) (map ?f ?sl) = []")
    case True
    then have "map ?f ?sl = filter (\<lambda>e. 0 < snd e) (map ?f ?sl)" using tw dw
      by (metis append_Nil takeWhile_dropWhile_id)
    then show ?thesis using True f by (simp add: a_clk_def t)
  next
    case False
    then show ?thesis by (simp add: a_clk_def t a_ret_def dw f Let_def)
  qed
  show "runnable (fst (a_clk a)) p" if "(p, 1) \<in> set (asleep a) \<or> runnable a p"
  proof (cases "takeWhile (\<lambda>e. snd e \<le> 0) (map ?f ?sl) = []")
    case True
    then have "(p, 1) \<notin> set ?sl" using tw by force
    then show ?thesis using True that by (simp add: a_clk_def t runnable_def)
  next
    case False
    have "p \<in> set (map fst (takeWhile (\<lambda>e. snd e \<le> 0) (map ?f ?sl)))" if "(p, 1) \<in> set ?sl"
      using tw that by force
    then have "p \<in> set (map fst (takeWhile (\<lambda>e. snd e \<le> 0) (map ?f ?sl))) \<or> runnable (a\<lparr>asleep := x\<rparr>) p" for x
      using that by (auto simp: runnable_def)
    from runnable_resched [OF runnable_enlist [OF this]] show ?thesis
      using False by (simp add: a_clk_def t a_ret_def Let_def)
  qed
qed

lemma kinv_clock: "kinv F s \<Longrightarrow> kinv F (clk_seconds s) \<and> kinv F (s\<lparr>preempt := k\<rparr>)"
  using kgood_cur_frame [of F "currpid s" s] by (simp add: mine_def clk_seconds_def Let_def)

lemma kabs_clock [simp]: "kabs (clk_seconds s) = kabs s" "kabs (s\<lparr>preempt := k\<rparr>) = kabs s"
  by (simp_all add: clk_seconds_def Let_def kabs_def ready_view_def sem_view_def fun_eq_iff)

lemma clkhandler_tick:
  assumes k: "kinv {} s"
  obtains t r where "here (clkhandler s) = Some (t, r)" "kinv {} t"
    "kabs t = fst (a_clk (kabs s)) \<or> kabs t = fst (a_resched (fst (a_clk (kabs s))))"
proof -
  have k1: "kinv {} (clk_seconds s)" using kinv_clock [OF k] by simp
  obtain t1 where t1: "here (clk_sleepers (clk_seconds s)) = Some (t1, snd (a_clk (kabs s)))" "kinv {} t1"
      "kabs t1 = fst (a_clk (kabs s))"
    using refines_here [OF clk_sleepers_abs [OF k1]] by auto
  show thesis
  proof (cases "clk_sleepers (clk_seconds s)")
    case (Ret t2 x)
    then have e: "clkhandler s = clk_preempt t1" using t1(1) by (simp add: clkhandler_def)
    let ?k = "(preempt t1 - 1) mod 2 ^ 32" and ?t = "t1\<lparr>preempt := QUANTUM\<rparr>"
    have "kinv {} ?t" using kinv_clock [OF t1(2)] by simp
    then obtain t3 where t3: "here (resched ?t) = Some (t3, snd (a_ret () (a_resched (kabs t1))))" "kinv {} t3"
        "kabs t3 = fst (a_resched (kabs t1))"
      using refines_here [OF resched_abs [of "{}" ?t]] by (auto simp: a_ret_def)
    show thesis
    proof (cases "?k \<le> 0")
      case True
      then have "here (clkhandler s) = Some (t3, snd (a_ret () (a_resched (kabs t1))))"
        using t3(1) by (simp add: e clk_preempt_def Let_def)
      then show thesis using that t3(2,3) t1(3) by metis
    next
      case False
      then have "here (clkhandler s) = Some (t1\<lparr>preempt := ?k\<rparr>, Some ())" by (simp add: e clk_preempt_def Let_def)
      then show thesis by (rule that) (use kinv_clock [OF t1(2)] t1(3) in simp_all)
    qed
  next
    case (Ctxsw t2 f)
    then have "here (clkhandler s) = Some (t1, None)" using t1(1) by (simp add: clkhandler_def)
    then show thesis using that t1(2,3) by metis
  next
    case (Stop x t2)
    then show thesis using t1(1) by simp
  qed
qed

section \<open>Many interrupts\<close>

text \<open>\<open>tick_run n s\<close>: the state after \<open>n\<close> clock interrupts.\<close>

primrec tick_run :: "nat \<Rightarrow> kst \<Rightarrow> kst option" where
  "tick_run 0 s = Some s"
| "tick_run (Suc n) s = (case here (clkhandler s) of None \<Rightarrow> None | Some (t, r) \<Rightarrow> tick_run n t)"

lemma ticked_mem:
  "(p, d) \<in> set (ticked sl) \<longleftrightarrow> (p, d + 1) \<in> set sl \<and> 0 < d" "e \<in> set (ticked sl) \<Longrightarrow> 0 < snd e"
  by (force simp: ticked_def image_iff)+

lemma clkhandler_live:
  assumes k: "kinv {} s" and pos: "\<forall>e \<in> set (asleep (kabs s)). 0 < snd e"
  obtains t r where "here (clkhandler s) = Some (t, r)" "kinv {} t" "asleep (kabs t) = ticked (asleep (kabs s))"
    "\<And>p. (p, 1) \<in> set (asleep (kabs s)) \<or> runnable (kabs s) p \<Longrightarrow> runnable (kabs t) p"
proof -
  obtain t r where t: "here (clkhandler s) = Some (t, r)" "kinv {} t"
    "kabs t = fst (a_clk (kabs s)) \<or> kabs t = fst (a_resched (fst (a_clk (kabs s))))" by (rule clkhandler_tick [OF k])
  have "sorted (map snd (asleep (kabs s)))" using kinv_sleep_sorted [OF k] by blast
  note c = a_clk_ticked [OF this pos]
  have "asleep (kabs t) = ticked (asleep (kabs s))" using t(3) c(1) by (metis resched_sleep)
  moreover have "runnable (kabs t) p" if "(p, 1) \<in> set (asleep (kabs s)) \<or> runnable (kabs s) p" for p
    using t(3) c(2) [OF that] runnable_resched by metis
  ultimately show thesis using that t(1,2) by blast
qed

lemma tick_run_runnable:
  "kinv {} s \<Longrightarrow> \<forall>e \<in> set (asleep (kabs s)). 0 < snd e \<Longrightarrow> runnable (kabs s) p \<Longrightarrow>
     \<exists>t. tick_run n s = Some t \<and> kinv {} t \<and> runnable (kabs t) p"
proof (induction n arbitrary: s)
  case (Suc n)
  obtain t r where t: "here (clkhandler s) = Some (t, r)" "kinv {} t" "asleep (kabs t) = ticked (asleep (kabs s))"
    "\<And>p. (p, 1) \<in> set (asleep (kabs s)) \<or> runnable (kabs s) p \<Longrightarrow> runnable (kabs t) p"
    by (rule clkhandler_live [OF Suc.prems(1,2)]) blast
  then show ?case using Suc.IH [OF t(2)] Suc.prems(3) ticked_mem(2) by simp
qed simp

text \<open>
  C34. From a state in which every delay is positive, a process in timed sleep is woken in time: with
  the invariant, any number of clock interrupts can be served one after the other; before as many as
  the process's delay it still sleeps, with what is left of the delay, and from then on it is ready or
  running. (With a process of \<^verbatim>\<open>recvtime(0)\<close> at the head of the queue the first interrupt
  takes nothing off the other delays, C21.)
\<close>

theorem sleeper_wakes:
  assumes "kinv {} s" "\<forall>e \<in> set (asleep (kabs s)). 0 < snd e" "(p, d) \<in> set (asleep (kabs s))"
  shows "\<exists>t. tick_run n s = Some t \<and> kinv {} t
    \<and> (if int n < d then (p, d - int n) \<in> set (asleep (kabs t)) else astate (kabs t) p = PR_READY \<or> astate (kabs t) p = PR_CURR)"
  using assms
proof (induction n arbitrary: s d)
  case 0
  then show ?case by fastforce
next
  case (Suc n)
  obtain t r where t: "here (clkhandler s) = Some (t, r)" "kinv {} t" "asleep (kabs t) = ticked (asleep (kabs s))"
    "\<And>p. (p, 1) \<in> set (asleep (kabs s)) \<or> runnable (kabs s) p \<Longrightarrow> runnable (kabs t) p"
    by (rule clkhandler_live [OF Suc.prems(1,2)]) blast
  have pos: "\<forall>e \<in> set (asleep (kabs t)). 0 < snd e" using t(3) ticked_mem(2) by simp
  show ?case
  proof (cases "d = 1")
    case True
    then have "runnable (kabs t) p" using t(4) Suc.prems(3) by simp
    from tick_run_runnable [OF t(2) pos this, of n] show ?thesis using True t(1) by (auto simp: runnable_def)
  next
    case False
    then have "0 < d - 1" using Suc.prems(2,3) by fastforce
    then have "(p, d - 1) \<in> set (asleep (kabs t))" using Suc.prems(3) unfolding t(3) ticked_mem(1) by simp
    from Suc.IH [OF t(2) pos this] show ?thesis using t(1) by (simp add: algebra_simps cong: if_cong)
  qed
qed

theorem sleeper_wakes_witness:
  "\<exists>s t u. kinv {} s \<and> tick_run 6 s = Some t \<and> (2, 1) \<in> set (asleep (kabs t))
     \<and> tick_run 7 s = Some u \<and> (astate (kabs u) 2 = PR_READY \<or> astate (kabs u) 2 = PR_CURR)"
proof -
  obtain s where s: "kinv {} s" "run4_view (kabs s)" by (rule run4)
  have a: "asleep (kabs s) = [(2, 7)]" using s(2) by (simp add: run4_view_def)
  have h: "\<forall>e \<in> set (asleep (kabs s)). 0 < snd e" "(2, 7) \<in> set (asleep (kabs s))" unfolding a by simp_all
  show ?thesis using sleeper_wakes [OF s(1) h, of 6] sleeper_wakes [OF s(1) h, of 7] s(1) by auto
qed

end
