(* ===== verification/Namespace.thy ===== *)
theory Namespace
  imports Devtab Cstring
begin

text \<open>
  The name space, \<^verbatim>\<open>device/nam/\<close>: the prefix table, \<^verbatim>\<open>mount.c\<close>
  (\<^verbatim>\<open>mount\<close>, \<^verbatim>\<open>namlen\<close>), \<^verbatim>\<open>nammap.c\<close>
  (\<^verbatim>\<open>nammap\<close>, \<^verbatim>\<open>namrepl\<close>, \<^verbatim>\<open>namcpy\<close>),
  \<^verbatim>\<open>naminit.c\<close> and \<^verbatim>\<open>namopen.c\<close>, and \<^verbatim>\<open>system/getdev.c\<close>. A
  character array is a function from offsets to bytes, and a pointer walking along one is an offset;
  the arrays of one call never overlap. A local array's first contents are an argument. Messages to
  the console are left out. The specification is over lists: \<open>holds b xs\<close> says that \<open>b\<close> holds the
  string \<open>xs\<close>, and \<open>name_table\<close> that the table is a list of prefixes, replacements and devices.
\<close>

section \<open>The code\<close>

type_synonym cbuf = "nat \<Rightarrow> u8"

abbreviation (input) NM_PRELEN :: int where "NM_PRELEN \<equiv> 64"
abbreviation (input) NM_REPLLEN :: int where "NM_REPLLEN \<equiv> 96"
abbreviation (input) NM_MAXLEN :: int where "NM_MAXLEN \<equiv> 256"
abbreviation (input) NNAMES :: int where "NNAMES \<equiv> 128"

record nmentry =
  nprefix :: cbuf
  nreplace :: cbuf
  ndevice :: int

record names =
  nametab :: "int \<Rightarrow> nmentry"
  nnames :: int

primrec namlen_loop :: "nat \<Rightarrow> nat \<Rightarrow> cbuf \<Rightarrow> int" where
  "namlen_loop 0 i name = SYSERR"
| "namlen_loop (Suc k) i name = (if name i = 0 then int i + 1 else namlen_loop k (Suc i) name)"

definition namlen :: "cbuf \<Rightarrow> int \<Rightarrow> int" where
  "namlen name maxlen = namlen_loop (nat maxlen) 0 name"

text \<open>A counted copy loop: \<open>k\<close> bytes from offset \<open>i\<close> of one array to offset \<open>j\<close> of another.\<close>

primrec copy_n :: "nat \<Rightarrow> nat \<Rightarrow> nat \<Rightarrow> cbuf \<Rightarrow> cbuf \<Rightarrow> cbuf" where
  "copy_n 0 i j src dst = dst"
| "copy_n (Suc k) i j src dst = copy_n k (Suc i) (Suc j) src (dst(j := src i))"

definition mount :: "cbuf \<Rightarrow> cbuf \<Rightarrow> int \<Rightarrow> names \<Rightarrow> names \<times> int" where
  "mount pref repl device t =
     (let psiz = namlen pref NM_PRELEN; rsiz = namlen repl NM_REPLLEN in
      if nnames t \<ge> NNAMES then (t, SYSERR)
      else if psiz = SYSERR \<or> rsiz = SYSERR \<or> isbaddev device then (t, SYSERR)
      else let namptr = nametab t (nnames t);
               e = \<lparr>nprefix = copy_n (nat psiz) 0 0 pref (nprefix namptr),
                    nreplace = copy_n (nat rsiz) 0 0 repl (nreplace namptr), ndevice = device\<rparr>
           in (t\<lparr>nametab := (nametab t)(nnames t := e), nnames := nnames t + 1\<rparr>, OK))"

primrec namcpy_loop :: "nat \<Rightarrow> nat \<Rightarrow> cbuf \<Rightarrow> cbuf \<Rightarrow> cbuf \<times> int" where
  "namcpy_loop 0 i newname oldname = (newname, SYSERR)"
| "namcpy_loop (Suc k) i newname oldname =
     (let new1 = newname(i := oldname i) in
      if oldname i = 0 then (new1, OK) else namcpy_loop k (Suc i) new1 oldname)"

definition namcpy :: "cbuf \<Rightarrow> cbuf \<Rightarrow> int \<Rightarrow> cbuf \<times> int" where
  "namcpy newname oldname buflen = namcpy_loop (nat buflen) 0 newname oldname"

text \<open>Comparing a prefix to a name: where the comparison stops.\<close>

partial_function (option) prefix_stop :: "cbuf \<Rightarrow> cbuf \<Rightarrow> nat \<Rightarrow> nat option" where
  "prefix_stop pptr optr plen =
     (if pptr plen \<noteq> 0 then (if pptr plen \<noteq> optr plen then Some plen else prefix_stop pptr optr (Suc plen))
      else Some plen)"

text \<open>The length of the name is kept in a variable of type \<^verbatim>\<open>char\<close>.\<close>

definition to_char :: "int \<Rightarrow> int" where
  "to_char x = sint (word_of_int x :: u8)"

primrec namrepl_loop :: "nat \<Rightarrow> int \<Rightarrow> cbuf \<Rightarrow> cbuf \<Rightarrow> names \<Rightarrow> (cbuf \<times> int) option" where
  "namrepl_loop 0 i name newname t = Some (newname, SYSERR)"
| "namrepl_loop (Suc k) i name newname t =
     (let namptr = nametab t i in
      case prefix_stop (nprefix namptr) name 0 of
        None \<Rightarrow> None
      | Some plen \<Rightarrow>
          if nprefix namptr plen \<noteq> 0 then namrepl_loop k (i + 1) name newname t
          else let olen = to_char (namlen name NM_MAXLEN);
                   rlen = namlen (nreplace namptr) NM_MAXLEN - 1;
                   remain = olen - int plen
               in if rlen + remain > NM_MAXLEN then Some (newname, SYSERR)
                  else let new1 = copy_n (nat rlen) 0 0 (nreplace namptr) newname;
                           new2 = copy_n (nat remain) plen (nat rlen) name new1
                       in Some (new2, ndevice namptr))"

definition namrepl :: "cbuf \<Rightarrow> cbuf \<Rightarrow> names \<Rightarrow> (cbuf \<times> int) option" where
  "namrepl name newname t = namrepl_loop (nat (nnames t)) 0 name newname t"

primrec nammap_loop :: "nat \<Rightarrow> cbuf \<Rightarrow> cbuf \<Rightarrow> int \<Rightarrow> names \<Rightarrow> (cbuf \<times> int) option" where
  "nammap_loop 0 tmpname newname namdev t = Some (newname, SYSERR)"
| "nammap_loop (Suc k) tmpname newname namdev t =
     (case namrepl tmpname newname t of
        None \<Rightarrow> None
      | Some (new1, newdev) \<Rightarrow>
          if newdev \<noteq> namdev then Some (new1, newdev)
          else nammap_loop k (fst (namcpy tmpname new1 NM_MAXLEN)) new1 namdev t)"

definition nammap :: "cbuf \<Rightarrow> cbuf \<Rightarrow> cbuf \<Rightarrow> int \<Rightarrow> names \<Rightarrow> (cbuf \<times> int) option" where
  "nammap tmp0 name newname namdev t =
     (let (tmpname, r) = namcpy tmp0 name NM_MAXLEN in
      if r = SYSERR then Some (newname, SYSERR)
      else nammap_loop (nat (nnames t)) tmpname newname namdev t)"

text \<open>\<^verbatim>\<open>namopen\<close>; \<open>opn\<close> is \<^verbatim>\<open>open\<close>, given the new name's array.\<close>

definition namopen :: "(int \<Rightarrow> cbuf \<Rightarrow> cbuf \<Rightarrow> 's \<Rightarrow> ('s, int) kprog) \<Rightarrow> cbuf \<Rightarrow> cbuf \<Rightarrow> names \<Rightarrow>
    dentry \<Rightarrow> cbuf \<Rightarrow> cbuf \<Rightarrow> 's \<Rightarrow> ('s, int) kprog" where
  "namopen opn tmp0 new0 t devptr name mode s =
     (case nammap tmp0 name new0 (dvnum devptr) t of
        None \<Rightarrow> Stop Looping s
      | Some (newname, newdev) \<Rightarrow> if newdev = SYSERR then Ret s SYSERR else opn newdev newname mode s)"

text \<open>
  \<^verbatim>\<open>naminit\<close>: string literals as arrays, the loop that maps a device's name to lower case
  and appends it to \<^verbatim>\<open>"/dev/"\<close>, one entry for each device, and eight more.
\<close>

definition lit :: "string \<Rightarrow> cbuf" where
  "lit s = (\<lambda>i. if i < length s then of_char (s ! i) else 0)"

function lower_loop :: "nat \<Rightarrow> nat \<Rightarrow> nat \<Rightarrow> cbuf \<Rightarrow> cbuf \<Rightarrow> nat \<times> cbuf" where
  "lower_loop len n t name tmpstr =
     (let len1 = len + 1 in
      if int len1 < NM_MAXLEN then
        (let ch0 = name n; ch = (if 65 \<le> sint ch0 \<and> sint ch0 \<le> 90 then ch0 + 32 else ch0); tmp1 = tmpstr(t := ch) in
         if ch = 0 then (len1, tmp1) else lower_loop len1 (Suc n) (Suc t) name tmp1)
      else (len1, tmpstr))"
  by pat_completeness auto
termination by (relation "measure (\<lambda>(len, n, t, name, tmpstr). 256 - len)") auto

primrec naminit_devs :: "dentry list \<Rightarrow> cbuf \<Rightarrow> names \<Rightarrow> names" where
  "naminit_devs [] tmpstr t = t"
| "naminit_devs (devptr # ds) tmpstr t =
     (let tmp1 = copy_n 6 0 0 (lit ''/dev/'') tmpstr;
          (len, tmp2) = lower_loop 5 0 5 (lit (dvname devptr)) tmp1
      in if int len > NM_MAXLEN then naminit_devs ds tmp2 t
         else naminit_devs ds tmp2 (fst (mount tmp2 (lit []) (dvnum devptr) t)))"

abbreviation (input) NULLDEV :: int where "NULLDEV \<equiv> 1"
abbreviation (input) RFILESYS :: int where "RFILESYS \<equiv> 6"
abbreviation (input) LFILESYS :: int where "LFILESYS \<equiv> 17"

definition more_mounts :: "(string \<times> string \<times> int) list" where
  "more_mounts =
     [(''/dev/null'', [], NULLDEV), (''/remote/'', [], RFILESYS), (''/local/'', [], LFILESYS), (''/tmp/'', ''tmp-'', LFILESYS),
      (''/dev/'', [], SYSERR), (''~/'', [], RFILESYS), (''/'', ''root:'', RFILESYS), ([], [], LFILESYS)]"

definition naminit :: "cbuf \<Rightarrow> names \<Rightarrow> names \<times> int" where
  "naminit tmp0 t =
     (let t1 = naminit_devs devtab tmp0 (t\<lparr>nnames := 0\<rparr>)
      in (fold (\<lambda>(pref, repl, device) t. fst (mount (lit pref) (lit repl) device t)) more_mounts t1, OK))"

text \<open>\<^verbatim>\<open>getdev\<close>, over byte memory; \<open>dvnames i\<close> is where the name of device \<open>i\<close> is.\<close>

primrec getdev_loop :: "nat \<Rightarrow> int \<Rightarrow> memory \<Rightarrow> (int \<Rightarrow> u32) \<Rightarrow> u32 \<Rightarrow> int" where
  "getdev_loop 0 i m dvnames devname = SYSERR"
| "getdev_loop (Suc k) i m dvnames devname =
     (if strncmp m devname (dvnames i) 16 \<noteq> 0 then i else getdev_loop k (i + 1) m dvnames devname)"

definition getdev :: "memory \<Rightarrow> (int \<Rightarrow> u32) \<Rightarrow> u32 \<Rightarrow> int" where
  "getdev m dvnames devname = getdev_loop (nat NDEVS) 0 m dvnames devname"

section \<open>Strings in arrays\<close>

definition holds :: "cbuf \<Rightarrow> u8 list \<Rightarrow> bool" where
  "holds b xs \<longleftrightarrow> (\<forall>i < length xs. b i = xs ! i \<and> xs ! i \<noteq> 0) \<and> b (length xs) = 0"

lemma namlen_loop_holds:
  "(\<forall>j < length xs. b (i + j) \<noteq> 0) \<Longrightarrow> b (i + length xs) = 0 \<Longrightarrow>
     namlen_loop k i b = (if length xs < k then int (i + length xs) + 1 else SYSERR)"
proof (induction xs arbitrary: i k)
  case Nil
  then show ?case by (cases k) simp_all
next
  case (Cons x xs)
  show ?case
  proof (cases k)
    case (Suc n)
    have "\<forall>j < length xs. b (Suc i + j) \<noteq> 0" using Cons.prems(1) by (metis Suc_mono add_Suc_shift length_Cons)
    then show ?thesis using Cons.IH [of "Suc i" n] Cons.prems Suc by (auto simp: add.assoc)
  qed simp
qed

lemma namlen_holds: "holds b xs \<Longrightarrow> 0 \<le> n \<Longrightarrow> namlen b n = (if int (length xs) < n then int (length xs) + 1 else SYSERR)"
  using namlen_loop_holds [of xs b 0 "nat n"] by (simp add: holds_def namlen_def zless_nat_eq_int_zless)

lemma copy_n_apply:
  "copy_n k i j src dst = (\<lambda>x. if j \<le> x \<and> x < j + k then src (i + (x - j)) else dst x)"
proof (induction k arbitrary: i j dst)
  case (Suc k)
  show ?case
  proof (rule ext)
    fix x
    have "Suc i + (x - Suc j) = i + (x - j)" if "j < x" using that by simp
    moreover consider "x = j" | "x < j" | "j < x" by linarith
    ultimately show "copy_n (Suc k) i j src dst x = (if j \<le> x \<and> x < j + Suc k then src (i + (x - j)) else dst x)"
      unfolding copy_n.simps Suc.IH by cases (simp_all add: Suc_le_eq)
  qed
qed (auto simp: fun_eq_iff)

lemma namcpy_holds:
  assumes "holds b xs" "int (length xs) < n"
  shows "snd (namcpy new b n) = OK" "holds (fst (namcpy new b n)) xs"
proof -
  have l: "snd (namcpy_loop k i new b) = OK
      \<and> fst (namcpy_loop k i new b) = (\<lambda>x. if i \<le> x \<and> x \<le> length xs then b x else new x)"
    if "i \<le> length xs" "length xs - i < k" for k i new
    using that
  proof (induction k arbitrary: i new)
    case (Suc k)
    show ?case
    proof (cases "i = length xs")
      case True
      then show ?thesis using assms(1) by (auto simp: holds_def)
    next
      case False
      then have "i < length xs" using Suc.prems by simp
      then have "b i \<noteq> 0" using assms(1) by (auto simp: holds_def)
      then have 1: "namcpy_loop (Suc k) i new b = namcpy_loop k (Suc i) (new(i := b i)) b"
        by (simp add: Let_def del: fun_upd_apply)
      have "Suc i \<le> length xs" "length xs - Suc i < k" using Suc.prems False by simp_all
      then show ?thesis unfolding 1 using Suc.IH [of "Suc i" "new(i := b i)"] \<open>i < length xs\<close>
        by (simp add: fun_eq_iff Suc_le_eq del: fun_upd_apply) (auto simp: le_less)
    qed
  qed simp
  have *: "length xs - 0 < nat n" using assms(2) by simp
  show "snd (namcpy new b n) = OK" "holds (fst (namcpy new b n)) xs"
    using l [OF _ *, of new] assms(1) by (simp_all add: namcpy_def holds_def)
qed

lemma prefix_stop_holds:
  assumes "holds p ps" "holds b xs"
  obtains n where "prefix_stop p b 0 = Some n" "p n = 0 \<longleftrightarrow> prefix ps xs" "prefix ps xs \<longrightarrow> n = length ps"
proof -
  have "\<exists>n. prefix_stop p b i = Some n \<and> (p n = 0 \<longleftrightarrow> prefix (drop i ps) (drop i xs))
      \<and> (prefix (drop i ps) (drop i xs) \<longrightarrow> n = length ps)" if "i \<le> length ps" "i \<le> length xs" for i
    using that
  proof (induction "length ps - i" arbitrary: i)
    case 0
    then have i: "i = length ps" by simp
    then have "prefix_stop p b i = Some i" using assms(1) by (subst prefix_stop.simps) (simp add: holds_def)
    then show ?case using i assms(1) by (simp add: holds_def)
  next
    case (Suc k)
    then have i: "i < length ps" by simp
    then have pi: "p i = ps ! i" "ps ! i \<noteq> 0" using assms(1) by (simp_all add: holds_def)
    have d: "drop i ps = ps ! i # drop (Suc i) ps" using i by (rule Cons_nth_drop_Suc [symmetric])
    show ?case
    proof (cases "i < length xs \<and> xs ! i = ps ! i")
      case True
      then have "b i = p i" "drop i xs = ps ! i # drop (Suc i) xs"
        using assms(2) pi by (simp_all add: holds_def Cons_nth_drop_Suc [symmetric])
      then show ?thesis using Suc.hyps(1) [of "Suc i"] Suc.hyps(2) True i pi d
        by (subst prefix_stop.simps) simp
    next
      case False
      then have "b i \<noteq> p i" using Suc.prems(2) assms(2) pi by (cases "i = length xs") (auto simp: holds_def)
      moreover have "\<not> prefix (drop i ps) (drop i xs)"
        using False Suc.prems(2) d by (cases "i = length xs") (auto simp: Cons_nth_drop_Suc [symmetric])
      ultimately show ?thesis using pi by (subst prefix_stop.simps) simp
    qed
  qed
  from this [of 0] show thesis using that by auto
qed

section \<open>The table as a list\<close>

type_synonym ntable = "(u8 list \<times> u8 list \<times> int) list"

definition name_entry :: "nmentry \<Rightarrow> u8 list \<times> u8 list \<times> int \<Rightarrow> bool" where
  "name_entry e x \<longleftrightarrow> holds (nprefix e) (fst x) \<and> holds (nreplace e) (fst (snd x)) \<and> ndevice e = snd (snd x)
     \<and> length (fst x) < 64 \<and> length (fst (snd x)) < 96"

definition name_table :: "names \<Rightarrow> ntable \<Rightarrow> bool" where
  "name_table t tab \<longleftrightarrow> nnames t = int (length tab) \<and> (\<forall>i < length tab. name_entry (nametab t (int i)) (tab ! i))"

text \<open>The new name and the device of the first entry whose prefix matches, and of repeated mapping.\<close>

fun nlookup :: "ntable \<Rightarrow> u8 list \<Rightarrow> (u8 list \<times> int) option" where
  "nlookup [] xs = None"
| "nlookup ((ps, rs, d) # tab) xs = (if prefix ps xs then Some (rs @ drop (length ps) xs, d) else nlookup tab xs)"

primrec nresolve :: "nat \<Rightarrow> ntable \<Rightarrow> int \<Rightarrow> u8 list \<Rightarrow> (u8 list \<times> int) option" where
  "nresolve 0 tab namdev xs = None"
| "nresolve (Suc k) tab namdev xs =
     (case nlookup tab xs of None \<Rightarrow> None
      | Some (ys, d) \<Rightarrow> if d \<noteq> namdev then Some (ys, d) else nresolve k tab namdev ys)"

lemma mount_table:
  assumes t: "name_table t tab" and p: "holds pb ps" and r: "holds rb rs"
  shows "if length tab < 128 \<and> length ps < 64 \<and> length rs < 96 \<and> \<not> isbaddev d
    then snd (mount pb rb d t) = OK \<and> name_table (fst (mount pb rb d t)) (tab @ [(ps, rs, d)])
    else mount pb rb d t = (t, SYSERR)"
proof -
  have n: "nnames t = int (length tab)" using t by (simp add: name_table_def)
  have lp: "namlen pb NM_PRELEN = (if length ps < 64 then int (length ps) + 1 else SYSERR)"
    "namlen rb NM_REPLLEN = (if length rs < 96 then int (length rs) + 1 else SYSERR)"
    using namlen_holds [OF p, of 64] namlen_holds [OF r, of 96] by simp_all
  show ?thesis
  proof (cases "length tab < 128 \<and> length ps < 64 \<and> length rs < 96 \<and> \<not> isbaddev d")
    case True
    let ?e = "\<lparr>nprefix = copy_n (Suc (length ps)) 0 0 pb (nprefix (nametab t (nnames t))),
                nreplace = copy_n (Suc (length rs)) 0 0 rb (nreplace (nametab t (nnames t))), ndevice = d\<rparr>"
    have sz: "nat (int (length ps) + 1) = Suc (length ps)" "nat (int (length rs) + 1) = Suc (length rs)" by simp_all
    have m: "mount pb rb d t = (t\<lparr>nametab := (nametab t)(nnames t := ?e), nnames := nnames t + 1\<rparr>, OK)"
      using True n lp by (simp add: mount_def Let_def sz del: copy_n.simps)
    have "name_entry ?e (ps, rs, d)"
      using True p r by (simp add: name_entry_def holds_def copy_n_apply del: copy_n.simps)
    then have "name_table (t\<lparr>nametab := (nametab t)(nnames t := ?e), nnames := nnames t + 1\<rparr>) (tab @ [(ps, rs, d)])"
      using t by (auto simp: name_table_def nth_append less_Suc_eq simp del: copy_n.simps)
    then show ?thesis using True m by simp
  next
    case False
    then show ?thesis using n lp by (auto simp: mount_def Let_def)
  qed
qed

lemma to_char_small: "0 \<le> x \<Longrightarrow> x < 128 \<Longrightarrow> to_char x = x"
  by (simp add: to_char_def sint_sbintrunc' signed_take_bit_int_eq_self)

lemma to_char_big: "128 \<le> x \<Longrightarrow> x \<le> 256 \<Longrightarrow> to_char x = x - 256"
proof -
  assume x: "128 \<le> x" "x \<le> 256"
  have "(word_of_int x :: u8) = word_of_int (x - 256)" by (simp add: word_of_int_eq_iff take_bit_eq_mod)
  then have "to_char x = sint (word_of_int (x - 256) :: u8)" by (simp only: to_char_def)
  also have "\<dots> = signed_take_bit 7 (x - 256)" by (subst sint_sbintrunc') simp
  also have "\<dots> = x - 256" using x by (simp add: signed_take_bit_int_eq_self)
  finally show ?thesis .
qed

text \<open>One substitution: a name of at most 126 characters is mapped as the list says.\<close>

lemma namrepl_loop_table:
  assumes t: "\<forall>i < length tab. name_entry (nametab t (i0 + int i)) (tab ! i)" and b: "holds b xs" "length xs < 256"
  shows "case find (\<lambda>e. prefix (fst e) xs) tab of
      None \<Rightarrow> namrepl_loop (length tab) i0 b new t = Some (new, SYSERR)
    | Some (ps, rs, d) \<Rightarrow> \<exists>new'. namrepl_loop (length tab) i0 b new t = Some (new', d)
        \<and> (if length xs < 127 then holds new' (rs @ drop (length ps) xs)
           else new' = (\<lambda>i. if i < length rs then rs ! i else new i))"
  using t
proof (induction tab arbitrary: i0)
  case (Cons x tab)
  obtain ps rs d where x: "x = (ps, rs, d)" by (cases x)
  have e: "name_entry (nametab t i0) (ps, rs, d)" using Cons.prems x by force
  then have h: "holds (nprefix (nametab t i0)) ps" "holds (nreplace (nametab t i0)) rs" "ndevice (nametab t i0) = d"
    "length ps < 64" "length rs < 96" by (simp_all add: name_entry_def)
  obtain n where n: "prefix_stop (nprefix (nametab t i0)) b 0 = Some n"
      "nprefix (nametab t i0) n = 0 \<longleftrightarrow> prefix ps xs" "prefix ps xs \<longrightarrow> n = length ps"
    by (rule prefix_stop_holds [OF h(1) b(1)])
  show ?case
  proof (cases "prefix ps xs")
    case False
    have "\<forall>i < length tab. name_entry (nametab t (i0 + 1 + int i)) (tab ! i)"
      using Cons.prems by (auto simp: add.assoc dest: spec [of _ "Suc _"])
    note IH = Cons.IH [OF this]
    have eq: "namrepl_loop (length (x # tab)) i0 b new t = namrepl_loop (length tab) (i0 + 1) b new t"
      using n False by (simp add: Let_def)
    have lk: "find (\<lambda>e. prefix (fst e) xs) (x # tab) = find (\<lambda>e. prefix (fst e) xs) tab" using False x by simp
    show ?thesis unfolding eq lk by (rule IH)
  next
    case True
    have ol: "namlen b NM_MAXLEN = int (length xs) + 1" using namlen_holds [OF b(1), of 256] b(2) by simp
    have rl: "namlen (nreplace (nametab t i0)) NM_MAXLEN - 1 = int (length rs)" using namlen_holds [OF h(2), of 256] h(5) by simp
    have ps: "length ps \<le> length xs" using True by (rule prefix_length_le)
    have lk: "find (\<lambda>e. prefix (fst e) xs) (x # tab) = Some (ps, rs, d)" using True x by simp
    let ?rem = "to_char (int (length xs) + 1) - int (length ps)"
    let ?new = "copy_n (nat ?rem) (length ps) (length rs) b (copy_n (length rs) 0 0 (nreplace (nametab t i0)) new)"
    show ?thesis
    proof (cases "length xs < 127")
      case short: True
      then have c: "to_char (int (length xs) + 1) = int (length xs) + 1"
        by (intro to_char_small) simp_all
      have r: "nat ?rem = Suc (length xs) - length ps" unfolding c by simp
      have eq: "namrepl_loop (length (x # tab)) i0 b new t = Some (?new, d)"
        using n True ol rl h(3-5) short c by (simp add: Let_def)
      have "holds ?new (rs @ drop (length ps) xs)"
        unfolding r using ps h(2) b(1) by (auto simp: holds_def copy_n_apply nth_append)
      then show ?thesis using lk eq short h(5) by auto
    next
      case long: False
      have "to_char (int (length xs) + 1) \<le> 0"
        using to_char_big [of "int (length xs) + 1"] long b(2) by simp
      then have eq: "namrepl_loop (length (x # tab)) i0 b new t = Some (copy_n (length rs) 0 0 (nreplace (nametab t i0)) new, d)"
        using n True ol rl h(3-5) by (simp add: Let_def)
      have "copy_n (length rs) 0 0 (nreplace (nametab t i0)) new = (\<lambda>i. if i < length rs then rs ! i else new i)"
        using h(2) by (auto simp: copy_n_apply holds_def fun_eq_iff)
      then show ?thesis using lk eq long h(5) by auto
    qed
  qed
qed simp

section \<open>Mapping\<close>

lemma nlookup_find: "nlookup tab xs = map_option (\<lambda>(ps, rs, d). (rs @ drop (length ps) xs, d)) (find (\<lambda>e. prefix (fst e) xs) tab)"
  by (induction tab xs rule: nlookup.induct) simp_all

lemma nlookup_mem: "nlookup tab xs = Some (ys, d) \<Longrightarrow> \<exists>ps rs. (ps, rs, d) \<in> set tab \<and> prefix ps xs \<and> ys = rs @ drop (length ps) xs"
  by (induction tab xs rule: nlookup.induct) (auto split: if_splits)

lemma nammap_loop_resolves:
  assumes t: "name_table t tab" and sh: "\<And>ps rs. (ps, rs, namdev) \<in> set tab \<Longrightarrow> length rs \<le> length ps" and nd: "namdev \<noteq> SYSERR"
  shows "holds tmp xs \<Longrightarrow> length xs < 127 \<Longrightarrow> \<exists>new'. nammap_loop k tmp new namdev t
      = Some (new', case nresolve k tab namdev xs of None \<Rightarrow> SYSERR | Some x \<Rightarrow> snd x)
    \<and> (\<forall>ys d. nresolve k tab namdev xs = Some (ys, d) \<longrightarrow> holds new' ys)"
proof (induction k arbitrary: tmp xs new)
  case (Suc k)
  have n: "nat (nnames t) = length tab" and e: "\<forall>i < length tab. name_entry (nametab t (0 + int i)) (tab ! i)"
    using t by (simp_all add: name_table_def)
  note r = namrepl_loop_table [OF e Suc.prems(1), of new]
  show ?case
  proof (cases "nlookup tab xs")
    case None
    then have "namrepl tmp new t = Some (new, SYSERR)" using r n Suc.prems(2) by (simp add: namrepl_def nlookup_find)
    then show ?thesis using None nd by simp
  next
    case (Some x)
    obtain ys d where x: "x = (ys, d)" by (cases x)
    obtain new' where new': "namrepl tmp new t = Some (new', d)" "holds new' ys"
      using r n Suc.prems(2) Some x by (auto simp: namrepl_def nlookup_find split: option.splits)
    show ?thesis
    proof (cases "d = namdev")
      case False
      then show ?thesis using Some x new' by simp
    next
      case True
      obtain ps rs where "(ps, rs, d) \<in> set tab" "prefix ps xs" "ys = rs @ drop (length ps) xs"
        using nlookup_mem Some x by blast
      then have "length ys \<le> length xs" using sh [of ps rs] True prefix_length_le [of ps xs] by simp
      then have ys: "length ys < 127" using Suc.prems(2) by simp
      then have "holds (fst (namcpy tmp new' NM_MAXLEN)) ys" by (intro namcpy_holds(2) [OF new'(2)]) simp
      from Suc.IH [OF this ys] show ?thesis using Some x new' True by simp
    qed
  qed
qed simp

section \<open>The table at startup\<close>

definition chars :: "string \<Rightarrow> u8 list" where
  "chars s = map of_char s"

definition lower :: "u8 \<Rightarrow> u8" where
  "lower c = (if 65 \<le> sint c \<and> sint c \<le> 90 then c + 32 else c)"

lemma holds_lit: "0 \<notin> set (chars s) \<Longrightarrow> holds (lit s) (chars s)"
  by (force simp: holds_def lit_def chars_def)

lemma lower_nonzero: "c \<noteq> 0 \<Longrightarrow> lower c \<noteq> 0"
proof
  assume "c \<noteq> 0" "lower c = 0"
  then have "65 \<le> sint c" "sint c \<le> 90" "c + 32 = 0" by (auto simp: lower_def split: if_splits)
  moreover from this have "c = - 32" by (simp add: eq_neg_iff_add_eq_0)
  ultimately show False by simp
qed

declare lower_loop.simps [simp del]

lemma lower_loop_name:
  "\<forall>i < length xs. name (n + i) = xs ! i \<and> xs ! i \<noteq> 0 \<Longrightarrow> name (n + length xs) = 0 \<Longrightarrow> len + length xs < 255 \<Longrightarrow>
   fst (lower_loop len n k name tmp) = len + length xs + 1
   \<and> snd (lower_loop len n k name tmp) = (\<lambda>i. if i < k then tmp i else if i < k + length xs then lower (xs ! (i - k))
       else if i = k + length xs then 0 else tmp i)"
proof (induction xs arbitrary: len n k tmp)
  case Nil
  then show ?case by (subst (1 2) lower_loop.simps) (auto simp: Let_def)
next
  case (Cons x xs)
  have x: "name n = x" "x \<noteq> 0" using Cons.prems(1) by force+
  have t: "\<forall>i < length xs. name (Suc n + i) = xs ! i \<and> xs ! i \<noteq> 0" "name (Suc n + length xs) = 0" "Suc len + length xs < 255"
    using Cons.prems by (auto dest: spec [of _ "Suc _"])
  have "lower_loop len n k name tmp = lower_loop (Suc len) (Suc n) (Suc k) name (tmp(k := lower x))"
    using Cons.prems(3) x lower_nonzero [OF x(2)] by (subst lower_loop.simps) (simp add: Let_def lower_def)
  note eq = this and IH = Cons.IH [OF t, of "Suc k" "tmp(k := lower x)"]
  have "(\<lambda>i. if i < Suc k then (tmp(k := lower x)) i else if i < Suc k + length xs then lower (xs ! (i - Suc k))
      else if i = Suc k + length xs then 0 else (tmp(k := lower x)) i)
    = (\<lambda>i. if i < k then tmp i else if i < k + length (x # xs) then lower ((x # xs) ! (i - k))
       else if i = k + length (x # xs) then 0 else tmp i)"
    by (rule ext) (auto simp: nth_Cons' Suc_diff_Suc less_Suc_eq)
  then show ?case unfolding eq using IH by (simp add: fun_upd_def)
qed

definition dev_entry :: "dentry \<Rightarrow> u8 list \<times> u8 list \<times> int" where
  "dev_entry d = (chars ''/dev/'' @ map lower (chars (dvname d)), [], dvnum d)"

lemma chars_dev: "chars ''/dev/'' = [47, 100, 101, 118, 47]"
  by (simp add: chars_def)

lemma dev_name:
  assumes "0 \<notin> set (chars (dvname d))" "length (dvname d) < 50"
  obtains tmp' where "lower_loop 5 0 5 (lit (dvname d)) (copy_n 6 0 0 (lit ''/dev/'') tmp) = (length (dvname d) + 6, tmp')"
    "holds tmp' (fst (dev_entry d))"
proof -
  let ?xs = "chars (dvname d)" and ?tmp = "copy_n 6 0 0 (lit ''/dev/'') tmp"
  have l: "length ?xs = length (dvname d)" by (simp add: chars_def)
  have h: "holds (lit (dvname d)) ?xs" by (rule holds_lit [OF assms(1)])
  have "\<forall>i < length ?xs. lit (dvname d) (0 + i) = ?xs ! i \<and> ?xs ! i \<noteq> 0" "lit (dvname d) (0 + length ?xs) = 0" "5 + length ?xs < 255"
    using h assms(2) l by (simp_all add: holds_def)
  note r = lower_loop_name [OF this, of 5 ?tmp]
  have dev: "?tmp i = chars ''/dev/'' ! i \<and> chars ''/dev/'' ! i \<noteq> 0" if "i < 5" for i
  proof -
    have "?tmp i = lit ''/dev/'' i" using that by (simp add: copy_n_apply del: copy_n.simps)
    moreover have "i = 0 \<or> i = 1 \<or> i = 2 \<or> i = 3 \<or> i = 4" using that by linarith
    ultimately show ?thesis by (auto simp: chars_dev lit_def)
  qed
  have "length (chars ''/dev/'') = 5" by (simp add: chars_dev)
  then have "holds (snd (lower_loop 5 0 5 (lit (dvname d)) ?tmp)) (fst (dev_entry d))"
    using r dev h lower_nonzero by (auto simp: holds_def dev_entry_def nth_append l)
  moreover have "fst (lower_loop 5 0 5 (lit (dvname d)) ?tmp) = length (dvname d) + 6" using r l by simp
  ultimately show thesis using that [of "snd (lower_loop 5 0 5 (lit (dvname d)) ?tmp)"] by (simp add: prod_eq_iff)
qed

lemma naminit_devs_table:
  "name_table t tab \<Longrightarrow> list_all (\<lambda>d. 0 \<notin> set (chars (dvname d)) \<and> length (dvname d) < 50 \<and> \<not> isbaddev (dvnum d)) ds \<Longrightarrow>
     length tab + length ds \<le> 128 \<Longrightarrow> name_table (naminit_devs ds tmp t) (tab @ map dev_entry ds)"
proof (induction ds arbitrary: tab t tmp)
  case (Cons d ds)
  have d: "0 \<notin> set (chars (dvname d))" "length (dvname d) < 50" "\<not> isbaddev (dvnum d)" using Cons.prems(2) by simp_all
  obtain tmp' where tmp': "lower_loop 5 0 5 (lit (dvname d)) (copy_n 6 0 0 (lit ''/dev/'') tmp) = (length (dvname d) + 6, tmp')"
    "holds tmp' (fst (dev_entry d))" by (rule dev_name [OF d(1,2)])
  have "holds (lit []) []" by (simp add: holds_def lit_def)
  moreover have "length (fst (dev_entry d)) < 64" using d(2) by (simp add: dev_entry_def chars_dev) (simp add: chars_def)
  ultimately have "name_table (fst (mount tmp' (lit []) (dvnum d) t)) (tab @ [dev_entry d])"
    using mount_table [OF Cons.prems(1) tmp'(2), of "lit []" "[]" "dvnum d"] d(3) Cons.prems(3)
    by (simp add: dev_entry_def)
  from Cons.IH [OF this] show ?case using Cons.prems(2,3) d(2) tmp'(1) by (simp del: copy_n.simps)
qed simp

text \<open>What the table holds after startup: the entry for \<^verbatim>\<open>"/dev/"\<close> is refused.\<close>

definition boot_names :: "(string \<times> string \<times> int) list" where
  "boot_names =
     [(''/dev/console'', [], 0), (''/dev/nulldev'', [], 1), (''/dev/ether0'', [], 2), (''/dev/namespace'', [], 3),
      (''/dev/rdisk'', [], 4), (''/dev/ram0'', [], 5), (''/dev/rfilesys'', [], 6), (''/dev/rfile0'', [], 7),
      (''/dev/rfile1'', [], 8), (''/dev/rfile2'', [], 9), (''/dev/rfile3'', [], 10), (''/dev/rfile4'', [], 11),
      (''/dev/rfile5'', [], 12), (''/dev/rfile6'', [], 13), (''/dev/rfile7'', [], 14), (''/dev/rfile8'', [], 15),
      (''/dev/rfile9'', [], 16), (''/dev/lfilesys'', [], 17), (''/dev/lfile0'', [], 18), (''/dev/lfile1'', [], 19),
      (''/dev/lfile2'', [], 20), (''/dev/lfile3'', [], 21), (''/dev/lfile4'', [], 22), (''/dev/lfile5'', [], 23),
      (''/dev/null'', [], 1), (''/remote/'', [], 6), (''/local/'', [], 17), (''/tmp/'', ''tmp-'', 17),
      (''~/'', [], 6), (''/'', ''root:'', 6), ([], [], 17)]"

definition entry_chars :: "string \<times> string \<times> int \<Rightarrow> u8 list \<times> u8 list \<times> int" where
  "entry_chars x = (chars (fst x), chars (fst (snd x)), snd (snd x))"

lemma devtab_names: "list_all (\<lambda>d. 0 \<notin> set (chars (dvname d)) \<and> length (dvname d) < 50 \<and> \<not> isbaddev (dvnum d)) devtab"
  by (simp add: devtab_def devtab_devices_def devtab_rfiles_def devtab_lfiles_def dentry.make_def chars_def isbaddev_def)

lemma devtab_entries: "map dev_entry devtab = map entry_chars (take 24 boot_names)"
  by (simp add: devtab_def devtab_devices_def devtab_rfiles_def devtab_lfiles_def dentry.make_def chars_def dev_entry_def
      boot_names_def entry_chars_def lower_def)

lemma mount_all:
  "name_table t tab \<Longrightarrow> length tab + length ms \<le> 128 \<Longrightarrow>
     list_all (\<lambda>x. 0 \<notin> set (chars (fst x)) \<and> 0 \<notin> set (chars (fst (snd x))) \<and> length (fst x) < 64 \<and> length (fst (snd x)) < 96) ms \<Longrightarrow>
     name_table (fold (\<lambda>(pref, repl, device) t. fst (mount (lit pref) (lit repl) device t)) ms t)
       (tab @ map entry_chars (filter (\<lambda>x. \<not> isbaddev (snd (snd x))) ms))"
proof (induction ms arbitrary: t tab)
  case (Cons x ms)
  obtain p r d where x: "x = (p, r, d)" by (cases x)
  have h: "holds (lit p) (chars p)" "holds (lit r) (chars r)" using Cons.prems(3) x by (simp_all add: holds_lit)
  have l: "length (chars p) = length p" "length (chars r) = length r" by (simp_all add: chars_def)
  have "name_table (fst (mount (lit p) (lit r) d t)) (tab @ (if isbaddev d then [] else [entry_chars x]))"
    using mount_table [OF Cons.prems(1) h, of d] Cons.prems x l by (auto simp: entry_chars_def)
  from Cons.IH [OF this] show ?case using Cons.prems(2,3) x by auto
qed simp

lemma nlookup_skip: "\<forall>x \<in> set as. \<not> prefix (fst x) xs \<Longrightarrow> nlookup (as @ bs) xs = nlookup bs xs"
  by (induction as) auto

lemma lookup_dev:
  assumes "\<forall>x \<in> set (take 25 boot_names). \<not> prefix (chars (fst x)) (chars ''/dev/'' @ zs)"
  shows "nlookup (map entry_chars boot_names) (chars ''/dev/'' @ zs) = Some (chars ''root:dev/'' @ zs, 6)"
proof -
  have "map entry_chars boot_names = map entry_chars (take 25 boot_names) @ map entry_chars (drop 25 boot_names)"
    by (simp only: map_append [symmetric] append_take_drop_id)
  moreover have "nlookup (map entry_chars (take 25 boot_names) @ bs) (chars ''/dev/'' @ zs) = nlookup bs (chars ''/dev/'' @ zs)" for bs
    by (rule nlookup_skip) (use assms in \<open>auto simp: entry_chars_def\<close>)
  moreover have "nlookup (map entry_chars (drop 25 boot_names)) (chars ''/dev/'' @ zs) = Some (chars ''root:dev/'' @ zs, 6)"
    by (simp add: boot_names_def entry_chars_def chars_def)
  ultimately show ?thesis by metis
qed

text \<open>
  C35. \<^verbatim>\<open>naminit\<close> fills the prefix table with exactly these 31 entries, in this order: the
  device names in lower case under \<^verbatim>\<open>/dev/\<close>, and then seven of the eight further prefixes. The
  entry that is to make every other name under \<^verbatim>\<open>/dev/\<close> an error is refused by
  \<^verbatim>\<open>mount\<close>, which takes no invalid device: such a name falls through to the prefix
  \<^verbatim>\<open>"/"\<close>, and opening it asks the remote file system for a file.
\<close>

theorem naminit_table:
  "name_table (fst (naminit tmp0 t)) (map entry_chars boot_names)
   \<and> ((\<forall>x \<in> set (take 25 boot_names). \<not> prefix (chars (fst x)) (chars ''/dev/'' @ zs)) \<longrightarrow>
       nlookup (map entry_chars boot_names) (chars ''/dev/'' @ zs) = Some (chars ''root:dev/'' @ zs, 6))"
proof -
  have e: "name_table (t\<lparr>nnames := 0\<rparr>) []" by (simp add: name_table_def)
  have l: "length devtab = 24" using length_devtab by simp
  have d: "name_table (naminit_devs devtab tmp0 (t\<lparr>nnames := 0\<rparr>)) (map entry_chars (take 24 boot_names))"
    using naminit_devs_table [OF e devtab_names, of tmp0] l by (simp add: devtab_entries)
  have ok: "list_all (\<lambda>x. 0 \<notin> set (chars (fst x)) \<and> 0 \<notin> set (chars (fst (snd x))) \<and> length (fst x) < 64 \<and> length (fst (snd x)) < 96) more_mounts"
    by (simp add: more_mounts_def chars_def)
  have k: "length (map entry_chars (take 24 boot_names)) + length more_mounts \<le> 128"
    by (simp add: boot_names_def more_mounts_def)
  have "map entry_chars (take 24 boot_names) @ map entry_chars (filter (\<lambda>x. \<not> isbaddev (snd (snd x))) more_mounts) = map entry_chars boot_names"
    by (simp add: boot_names_def more_mounts_def isbaddev_def)
  then have "name_table (fst (naminit tmp0 t)) (map entry_chars boot_names)"
    using mount_all [OF d k ok] by (simp add: naminit_def Let_def)
  then show ?thesis using lookup_dev [of zs] by blast
qed

theorem naminit_table_witness:
  "nlookup (map entry_chars boot_names) (chars ''/dev/printer'') = Some (chars ''root:dev/printer'', 6)"
proof -
  have "\<forall>x \<in> set (take 25 boot_names). \<not> prefix (chars (fst x)) (chars ''/dev/'' @ chars ''printer'')"
    by (simp add: boot_names_def chars_def)
  from naminit_table [THEN conjunct2, THEN mp, OF this] show ?thesis by (simp add: chars_def)
qed

text \<open>
  C36. \<^verbatim>\<open>nammap\<close> implements first-match prefix substitution: for every table of mounted
  prefixes whose entries for the name space itself do not lengthen names, a name of at most 126
  characters is mapped by the first entry whose prefix it has, again
  while the device is the name space itself (which exists), and the device and
  the whole new name, terminated, are those of the specification; a name no entry matches, or that
  is still in the name space after as many steps as there are entries, is an error. (A longer name is
  not mapped this way: \<open>namrepl_long_name\<close>.)
\<close>

theorem nammap_first_match:
  assumes "name_table t tab" "holds name xs" "length xs < 127" "namdev \<noteq> SYSERR"
    and "\<forall>(ps, rs, d) \<in> set tab. d = namdev \<longrightarrow> length rs \<le> length ps"
  shows "\<exists>new'. nammap tmp0 name new namdev t
      = Some (new', case nresolve (length tab) tab namdev xs of None \<Rightarrow> SYSERR | Some (ys, d) \<Rightarrow> d)
    \<and> (case nresolve (length tab) tab namdev xs of None \<Rightarrow> True | Some (ys, d) \<Rightarrow> holds new' ys)"
proof -
  have c: "snd (namcpy tmp0 name NM_MAXLEN) = OK" "holds (fst (namcpy tmp0 name NM_MAXLEN)) xs"
    using namcpy_holds [OF assms(2), of 256 tmp0] assms(3) by simp_all
  have n: "nat (nnames t) = length tab" using assms(1) by (simp add: name_table_def)
  have "\<And>ps rs. (ps, rs, namdev) \<in> set tab \<Longrightarrow> length rs \<le> length ps" using assms(5) by auto
  note r = nammap_loop_resolves [OF assms(1) this assms(4) c(2) assms(3), of "length tab" new]
  then show ?thesis using c(1) n
    by (cases "nresolve (length tab) tab namdev xs") (auto simp: nammap_def split_beta)
qed

theorem nammap_first_match_witness:
  "\<exists>t new'. nammap (\<lambda>i. 0) (lit ''/tmp/log'') (\<lambda>i. 7) 3 t = Some (new', 17) \<and> holds new' (chars ''tmp-log'')"
proof -
  let ?t = "fst (naminit (\<lambda>i. 0) \<lparr>nametab = (\<lambda>i. \<lparr>nprefix = (\<lambda>j. 0), nreplace = (\<lambda>j. 0), ndevice = 0\<rparr>), nnames = 0\<rparr>)"
  let ?tab = "[(chars ''/tmp/'', chars ''tmp-'', 17)]"
  let ?t = "fst (mount (lit ''/tmp/'') (lit ''tmp-'') 17 \<lparr>nametab = (\<lambda>i. \<lparr>nprefix = (\<lambda>j. 0), nreplace = (\<lambda>j. 0), ndevice = 0\<rparr>), nnames = 0\<rparr>)"
  have n: "holds (lit s) (chars s)" if "s \<in> {''/tmp/'', ''tmp-'', ''/tmp/log''}" for s
    by (rule holds_lit) (use that in \<open>auto simp: chars_def\<close>)
  have "name_table \<lparr>nametab = (\<lambda>i. \<lparr>nprefix = (\<lambda>j. 0), nreplace = (\<lambda>j. 0), ndevice = 0\<rparr>), nnames = 0\<rparr> []"
    by (simp add: name_table_def)
  then have t: "name_table ?t ?tab"
    using mount_table [OF _ n n, of _ "[]" "''/tmp/''" "''tmp-''" 17] by (simp add: chars_def isbaddev_def)
  have r: "nresolve (length ?tab) ?tab 3 (chars ''/tmp/log'') = Some (chars ''tmp-log'', 17)" by (simp add: chars_def)
  have "holds (lit ''/tmp/log'') (chars ''/tmp/log'')" "length (chars ''/tmp/log'') < 127" by (simp_all add: n) (simp add: chars_def)
  from nammap_first_match [OF t this, of 3 "\<lambda>i. 0" "\<lambda>i. 7"] show ?thesis unfolding r by auto
qed

text \<open>
  Names of 127 characters or more are mapped wrongly, without an error: their length overflows
  the \<^verbatim>\<open>char\<close> that holds it, and only the replacement is written to the new name, without the
  rest of the name and without a terminator, so that the file that is opened is whatever the array
  held before.
\<close>

lemma namrepl_long_name:
  assumes "name_table t tab" "holds name xs" "127 \<le> length xs" "length xs < 256"
    and "find (\<lambda>e. prefix (fst e) xs) tab = Some (ps, rs, d)"
  shows "namrepl name new t = Some (\<lambda>i. if i < length rs then rs ! i else new i, d)"
proof -
  have n: "nat (nnames t) = length tab" and e: "\<forall>i < length tab. name_entry (nametab t (0 + int i)) (tab ! i)"
    using assms(1) by (simp_all add: name_table_def)
  from namrepl_loop_table [OF e assms(2,4), of new] show ?thesis
    using assms(3,5) n by (simp add: namrepl_def)
qed

lemma namrepl_long_name_sample:
  "\<exists>t. namrepl (lit (replicate 130 (CHR ''x''))) (\<lambda>i. 7) t = Some (\<lambda>i. 7, 17)"
proof -
  let ?t = "fst (mount (lit []) (lit []) 17 \<lparr>nametab = (\<lambda>i. \<lparr>nprefix = (\<lambda>j. 0), nreplace = (\<lambda>j. 0), ndevice = 0\<rparr>), nnames = 0\<rparr>)"
  have "holds (lit []) []" by (simp add: holds_def lit_def)
  moreover have "name_table \<lparr>nametab = (\<lambda>i. \<lparr>nprefix = (\<lambda>j. 0), nreplace = (\<lambda>j. 0), ndevice = 0\<rparr>), nnames = 0\<rparr> []"
    by (simp add: name_table_def)
  ultimately have t: "name_table ?t [([], [], 17)]" using mount_table [of _ "[]" "lit []" "[]" "lit []" "[]" 17] by (simp add: isbaddev_def)
  let ?xs = "chars (replicate 130 (CHR ''x''))"
  have "holds (lit (replicate 130 (CHR ''x''))) ?xs" by (rule holds_lit) (simp add: chars_def)
  moreover have "127 \<le> length ?xs" "length ?xs < 256" by (simp_all add: chars_def)
  moreover have "find (\<lambda>e. prefix (fst e) ?xs) [([], [], 17)] = Some ([], [], 17)" by simp
  ultimately have "namrepl (lit (replicate 130 (CHR ''x''))) (\<lambda>i. 7) ?t = Some (\<lambda>i. if i < length ([] :: u8 list) then [] ! i else 7, 17)"
    by (rule namrepl_long_name [OF t])
  then show ?thesis by auto
qed

end
