(* ===== verification/Paging.thy ===== *)
theory Paging
  imports Cstring Memory "HOL-Library.Signed_Division"
begin

text \<open>
  Paging: \<^verbatim>\<open>helper_functions.c\<close> builds the page directory and the page tables of the kernel,
  \<^verbatim>\<open>control_reg.c\<close> reads and writes the control registers and enables paging, and
  \<^verbatim>\<open>setsegs\<close> (\<^verbatim>\<open>i386.c\<close>) fixes the segment descriptors and the end of memory. An entry is a
  32-bit word of byte memory whose bit fields are those of \<^verbatim>\<open>paging.h\<close>; what the processor does
  with the entries is \<open>translate\<close>. The lemmas say what every word of the tables is.
\<close>

section \<open>The operations\<close>

text \<open>Bit fields of \<open>len\<close> bits from bit \<open>lo\<close>, as the compiler lays them out from bit 0 up.\<close>

definition get_bits :: "nat \<Rightarrow> nat \<Rightarrow> u32 \<Rightarrow> u32" where
  "get_bits lo len w = take_bit len (drop_bit lo w)"

definition set_bits :: "nat \<Rightarrow> nat \<Rightarrow> u32 \<Rightarrow> u32 \<Rightarrow> u32" where
  "set_bits lo len v w = (w AND NOT (push_bit lo (mask len))) OR push_bit lo (take_bit len v)"

text \<open>\<^verbatim>\<open>pd_t\<close> and \<^verbatim>\<open>pt_t\<close>: the fields the code uses.\<close>

definition pd_pres :: "u32 \<Rightarrow> u32" where "pd_pres = get_bits 0 1"
definition pd_write :: "u32 \<Rightarrow> u32" where "pd_write = get_bits 1 1"
definition pd_user :: "u32 \<Rightarrow> u32" where "pd_user = get_bits 2 1"
definition pd_base :: "u32 \<Rightarrow> u32" where "pd_base = get_bits 12 20"
definition pt_pres :: "u32 \<Rightarrow> u32" where "pt_pres = get_bits 0 1"
definition pt_write :: "u32 \<Rightarrow> u32" where "pt_write = get_bits 1 1"
definition pt_user :: "u32 \<Rightarrow> u32" where "pt_user = get_bits 2 1"
definition pt_base :: "u32 \<Rightarrow> u32" where "pt_base = get_bits 12 20"

text \<open>\<^verbatim>\<open>virt_addr_t\<close>\<close>

definition pg_offset :: "u32 \<Rightarrow> u32" where "pg_offset = get_bits 0 12"
definition pt_offset :: "u32 \<Rightarrow> u32" where "pt_offset = get_bits 12 10"
definition pd_offset :: "u32 \<Rightarrow> u32" where "pd_offset = get_bits 22 10"

abbreviation (input) PAGE_SIZE :: int where "PAGE_SIZE \<equiv> 4096"
abbreviation (input) XINU_PAGES :: int where "XINU_PAGES \<equiv> 8192"
abbreviation (input) PAGE_TABLE_AREA_START_ADDRESS :: u32 where "PAGE_TABLE_AREA_START_ADDRESS \<equiv> 33554432"
abbreviation (input) XINU_PAGE_DIRECTORY_LENGTH :: nat where "XINU_PAGE_DIRECTORY_LENGTH \<equiv> 8"
abbreviation (input) PAGE_TABLE_ENTRIES :: nat where "PAGE_TABLE_ENTRIES \<equiv> 1024"

text \<open>Memory, the variables of \<^verbatim>\<open>helper_functions.c\<close> and the control registers.\<close>

record pgst =
  pmem :: memory
  next_free_pt_frame :: u32
  first_page_directory :: u32
  cr0 :: u32
  cr2 :: u32
  cr3 :: u32
  cr4 :: u32

definition get_next_free_pt_frame :: "pgst \<Rightarrow> pgst \<times> u32" where
  "get_next_free_pt_frame p =
     (p\<lparr>next_free_pt_frame := next_free_pt_frame p + 4096\<rparr>, next_free_pt_frame p)"

text \<open>Assignment to a bit field of the entry at an address: the word is read, changed and written.\<close>

definition set_field :: "nat \<Rightarrow> nat \<Rightarrow> u32 \<Rightarrow> u32 \<Rightarrow> memory \<Rightarrow> memory" where
  "set_field lo len a v m = wr32 m a (set_bits lo len v (rd32 m a))"

text \<open>The four assignments to an entry, the same for the directory and for a page table.\<close>

definition set_entry :: "u32 \<Rightarrow> u32 \<Rightarrow> memory \<Rightarrow> memory" where
  "set_entry a base m = set_field 12 20 a base (set_field 2 1 a 0 (set_field 1 1 a 1 (set_field 0 1 a 1 m)))"

definition pt_fill :: "nat \<Rightarrow> u32 \<Rightarrow> nat \<Rightarrow> memory \<Rightarrow> memory" where
  "pt_fill pd_index page_table n m =
     fold (\<lambda>pt_index m. let phy_frame = word_of_int ((int pd_index * 1024 + int pt_index) * PAGE_SIZE) :: u32
                        in set_entry (page_table + 4 * of_nat pt_index) (drop_bit 12 phy_frame) m) [0..<n] m"

definition pd_step :: "u32 \<Rightarrow> nat \<Rightarrow> pgst \<Rightarrow> pgst" where
  "pd_step pdbr pd_index p =
     (let (p1, page_table) = get_next_free_pt_frame p;
          m1 = fst (memset (pmem p1) page_table 0 PAGE_SIZE);
          m2 = set_entry (pdbr + 4 * of_nat pd_index) (drop_bit 12 page_table) m1
      in p1\<lparr>pmem := pt_fill pd_index page_table PAGE_TABLE_ENTRIES m2\<rparr>)"

definition page_table_init :: "pgst \<Rightarrow> pgst" where
  "page_table_init p =
     (let (p1, pdbr) = get_next_free_pt_frame p;
          m1 = fst (memset (pmem p1) pdbr 0 PAGE_SIZE);
          p2 = p1\<lparr>pmem := m1, first_page_directory := pdbr\<rparr>
      in fold (pd_step pdbr) [0..<XINU_PAGE_DIRECTORY_LENGTH] p2)"

text \<open>\<^verbatim>\<open>dump_pd\<close>: the numbers it prints.\<close>

definition dump_pd :: "pgst \<Rightarrow> (nat \<times> u32) list" where
  "dump_pd p =
     (let pd = first_page_directory p; e = (\<lambda>i. rd32 (pmem p) (pd + 4 * of_nat i))
      in map (\<lambda>i. (i, push_bit 12 (pd_base (e i)))) (filter (\<lambda>i. pd_pres (e i) \<noteq> 0) [0..<1024]))"

definition read_cr0 :: "pgst \<Rightarrow> u32" where "read_cr0 p = cr0 p"
definition read_cr2 :: "pgst \<Rightarrow> u32" where "read_cr2 p = cr2 p"
definition read_cr3 :: "pgst \<Rightarrow> u32" where "read_cr3 p = cr3 p"
definition read_cr4 :: "pgst \<Rightarrow> u32" where "read_cr4 p = cr4 p"
definition write_cr0 :: "u32 \<Rightarrow> pgst \<Rightarrow> pgst" where "write_cr0 n p = p\<lparr>cr0 := n\<rparr>"
definition write_cr3 :: "u32 \<Rightarrow> pgst \<Rightarrow> pgst" where "write_cr3 n p = p\<lparr>cr3 := n\<rparr>"
definition write_cr4 :: "u32 \<Rightarrow> pgst \<Rightarrow> pgst" where "write_cr4 n p = p\<lparr>cr4 := n\<rparr>"

definition enable_paging :: "pgst \<Rightarrow> pgst" where
  "enable_paging p = write_cr0 (read_cr0 p OR push_bit 31 1 OR 1) p"

text \<open>The end of \<^verbatim>\<open>sysinit\<close>.\<close>

definition start_paging :: "pgst \<Rightarrow> pgst" where
  "start_paging p = (let p1 = page_table_init p in enable_paging (write_cr3 (first_page_directory p1) p1))"

text \<open>
  Segment descriptors, \<^verbatim>\<open>struct sd\<close> of \<^verbatim>\<open>i386.h\<close>, and \<^verbatim>\<open>setsegs\<close>; the linker's
  \<^verbatim>\<open>etext\<close> is an argument. The result is the table copied to \<^verbatim>\<open>gdt\<close>, \<^verbatim>\<open>maxheap\<close> and
  \<^verbatim>\<open>initsp\<close>.
\<close>

record sd =
  sd_lolimit :: u16
  sd_lobase :: u16
  sd_midbase :: u8
  sd_perm :: "3 word"
  sd_iscode :: "1 word"
  sd_isapp :: "1 word"
  sd_dpl :: "2 word"
  sd_present :: "1 word"
  sd_hilimit :: "4 word"
  sd_avl :: "1 word"
  sd_mbz :: "1 word"
  sd_32b :: "1 word"
  sd_gran :: "1 word"
  sd_hibase :: u8

definition null_sd :: sd where
  "null_sd = \<lparr>sd_lolimit = 0, sd_lobase = 0, sd_midbase = 0, sd_perm = 0, sd_iscode = 0, sd_isapp = 0, sd_dpl = 0,
     sd_present = 0, sd_hilimit = 0, sd_avl = 0, sd_mbz = 0, sd_32b = 0, sd_gran = 0, sd_hibase = 0\<rparr>"

definition code_sd :: sd where
  "code_sd = \<lparr>sd_lolimit = 0xffff, sd_lobase = 0, sd_midbase = 0, sd_perm = 6, sd_iscode = 1, sd_isapp = 1, sd_dpl = 0,
     sd_present = 1, sd_hilimit = 0xf, sd_avl = 0, sd_mbz = 0, sd_32b = 1, sd_gran = 1, sd_hibase = 0\<rparr>"

definition data_sd :: sd where
  "data_sd = \<lparr>sd_lolimit = 0xffff, sd_lobase = 0, sd_midbase = 0, sd_perm = 2, sd_iscode = 0, sd_isapp = 1, sd_dpl = 0,
     sd_present = 1, sd_hilimit = 0xf, sd_avl = 0, sd_mbz = 0, sd_32b = 1, sd_gran = 1, sd_hibase = 0\<rparr>"

definition gdt_copy :: "sd list" where
  "gdt_copy = [null_sd, code_sd, data_sd, data_sd, code_sd, code_sd, data_sd, null_sd]"

definition set_limit :: "u32 \<Rightarrow> sd \<Rightarrow> sd" where
  "set_limit n d = d\<lparr>sd_lolimit := ucast n, sd_hilimit := ucast (drop_bit 16 n)\<rparr>"

definition setsegs :: "u32 \<Rightarrow> sd list \<times> u32 \<times> u32" where
  "setsegs etext =
     (let npages = word_of_int XINU_PAGES :: u32;
          tnpages = 0xFFFFFFFF div 4096 :: u32;
          maxheap = npages * 4096 - 1;
          np = word_of_int (i32 (sint etext + PAGE_SIZE - 1) sdiv PAGE_SIZE) :: u32;
          g1 = gdt_copy[1 := set_limit np (gdt_copy ! 1)];
          g2 = g1[2 := set_limit tnpages (g1 ! 2)];
          g3 = g2[3 := set_limit tnpages (g2 ! 3)];
          g4 = g3[4 := set_limit npages (g3 ! 4)]
      in (g4, maxheap, npages * 4096 - 4))"

text \<open>
  The processor: the translation of an address through the directory in \<^verbatim>\<open>cr3\<close>, as the physical
  address and whether it may be written and whether user mode may use it, or nothing (a page fault).
\<close>

definition translate :: "memory \<Rightarrow> u32 \<Rightarrow> u32 \<Rightarrow> (u32 \<times> bool \<times> bool) option" where
  "translate m dir va =
     (let pde = rd32 m (push_bit 12 (drop_bit 12 dir) + 4 * pd_offset va) in
      if pd_pres pde = 0 then None
      else let e = rd32 m (push_bit 12 (pd_base pde) + 4 * pt_offset va) in
        if pt_pres e = 0 then None
        else Some (push_bit 12 (pt_base e) + pg_offset va, pd_write pde \<noteq> 0 \<and> pt_write e \<noteq> 0,
                   pd_user pde \<noteq> 0 \<and> pt_user e \<noteq> 0))"

section \<open>Entries\<close>

lemma bit_set_bits:
  "n < 32 \<Longrightarrow> bit (set_bits lo len v w) n = (if lo \<le> n \<and> n < lo + len then bit v (n - lo) else bit w n)"
  by (auto simp: set_bits_def bit_simps possible_bit_def)

lemma bit_get_bits: "bit (get_bits lo len w) n \<longleftrightarrow> n < len \<and> bit w (lo + n)"
  by (simp add: get_bits_def bit_simps)

lemma get_set_bits:
  assumes "lo + len \<le> 32"
  shows "get_bits lo len (set_bits lo len v w) = take_bit len v"
    "lo + len \<le> lo' \<or> lo' + len' \<le> lo \<Longrightarrow> get_bits lo len (set_bits lo' len' v w) = get_bits lo len w"
  using assms by (auto intro!: bit_eqI simp: bit_get_bits bit_set_bits bit_take_bit_iff)

lemma rd32_set_field: "rd32 (set_field lo len a v m) a = set_bits lo len v (rd32 m a)"
  by (simp add: set_field_def)

definition entry_of :: "u32 \<Rightarrow> u32 \<Rightarrow> u32" where
  "entry_of b w = set_bits 12 20 b (set_bits 2 1 0 (set_bits 1 1 1 (set_bits 0 1 1 w)))"

lemma rd32_set_entry [simp]: "rd32 (set_entry a b m) a = entry_of b (rd32 m a)"
  by (simp add: set_entry_def rd32_set_field entry_of_def)

lemma rd32_set_entry_other [simp]: "al4 a \<Longrightarrow> al4 c \<Longrightarrow> a \<noteq> c \<Longrightarrow> rd32 (set_entry a b m) c = rd32 m c"
  by (simp add: set_entry_def set_field_def)

lemma entry_of_fields [simp]:
  "pd_pres (entry_of b w) = 1" "pd_write (entry_of b w) = 1" "pd_user (entry_of b w) = 0" "pd_base (entry_of b w) = take_bit 20 b"
  "pt_pres (entry_of b w) = 1" "pt_write (entry_of b w) = 1" "pt_user (entry_of b w) = 0" "pt_base (entry_of b w) = take_bit 20 b"
  by (simp_all add: entry_of_def pd_pres_def pd_write_def pd_user_def pd_base_def pt_pres_def pt_write_def pt_user_def
      pt_base_def get_set_bits)

lemma set_entry_byte: "x \<noteq> a \<Longrightarrow> x \<noteq> a + 1 \<Longrightarrow> x \<noteq> a + 2 \<Longrightarrow> x \<noteq> a + 3 \<Longrightarrow> set_entry a b m x = m x"
  by (simp add: set_entry_def set_field_def wr32_def)

section \<open>The page-table area\<close>

text \<open>The byte at offset \<open>n\<close> of the area.\<close>

definition pa :: "nat \<Rightarrow> u32" where
  "pa n = PAGE_TABLE_AREA_START_ADDRESS + of_nat n"

lemma unat_pa: "n < 16777216 \<Longrightarrow> unat (pa n) = 33554432 + n"
  by (simp add: pa_def unat_word_ariths unat_of_nat)

lemma pa_eq: "n < 16777216 \<Longrightarrow> k < 16777216 \<Longrightarrow> pa n = pa k \<longleftrightarrow> n = k"
  using unat_pa [of n] unat_pa [of k] by (metis add_left_cancel)

lemma pa_add [simp]: "pa n + of_nat k = pa (n + k)" "pa n + 4 * of_nat k = pa (n + 4 * k)"
  by (simp_all add: pa_def)

lemma al4_pa [simp]: "n < 16777216 \<Longrightarrow> n mod 4 = 0 \<Longrightarrow> al4 (pa n)"
  unfolding al4_def unat_pa by presburger

lemma fill_byte: "n \<le> 4294967296 \<Longrightarrow> fill n c m a x = (if unat (x - a) < n then c else m x)"
proof -
  assume n: "n \<le> 4294967296"
  have e: "x = a + of_nat (unat (x - a))" by simp
  show ?thesis
  proof (cases "unat (x - a) < n")
    case True
    have "bytes_at (put m a (replicate n c)) a n ! unat (x - a) = c"
      using put_bytes_at [of "replicate n c" m a] n True by simp
    then show ?thesis using True e by (simp add: bytes_at_def fill_put)
  next
    case False
    have "x \<noteq> a + of_nat i" if "i < n" for i
    proof
      assume "x = a + of_nat i"
      then have "unat (x - a) = i" using that n by (simp add: unat_of_nat)
      then show False using False that by simp
    qed
    then show ?thesis using False by (simp add: fill_put put_outside)
  qed
qed

lemma memset_byte:
  assumes "k < 16777216" "n < 16777216"
  shows "fst (memset m (pa k) 0 4096) (pa n) = (if k \<le> n \<and> n < k + 4096 then 0 else m (pa n))"
proof -
  have "unat (pa n - pa k) = (if k \<le> n then n - k else 4294967296 + n - k)"
    using assms by (auto simp: unat_sub_if' unat_pa)
  then show ?thesis using assms by (auto simp: memset_def fill_byte)
qed

lemma word_in_page:
  fixes x y i :: nat
  assumes "i < 4"
  shows "4 * y \<le> 4 * x \<and> 4 * x < 4 * y + 4096 \<longleftrightarrow> 4 * y \<le> 4 * x + i \<and> 4 * x + i < 4 * y + 4096"
  using assms by presburger

lemma memset_word:
  assumes "k mod 4096 = 0" "k < 16777216" "n mod 4 = 0" "n < 16777216"
  shows "rd32 (fst (memset m (pa k) 0 4096)) (pa n) = (if k \<le> n \<and> n < k + 4096 then 0 else rd32 m (pa n))"
proof -
  have 1: "pa n + 1 = pa (n + 1)" "pa n + 2 = pa (n + 2)" "pa n + 3 = pa (n + 3)" by (simp_all add: pa_def)
  have 2: "n + 3 < 16777216" using assms by presburger
  obtain b c where bc: "n = 4 * b" "k = 4 * (1024 * c)" using assms(1,3) by (auto simp: mod_eq_0_iff_dvd elim!: dvdE)
  have 3: "k \<le> n \<and> n < k + 4096 \<longleftrightarrow> k \<le> n + i \<and> n + i < k + 4096" if "i < 4" for i
    using word_in_page [OF that, of "1024 * c" b] unfolding bc .
  have 4: "fst (memset m (pa k) 0 4096) (pa (n + i)) = (if k \<le> n \<and> n < k + 4096 then 0 else m (pa (n + i)))" if "i < 4" for i
    using memset_byte [OF assms(2), of "n + i" m] 2 3 [OF that] that by simp
  show ?thesis
  proof (cases "k \<le> n \<and> n < k + 4096")
    case True
    then have "fst (memset m (pa k) 0 4096) (pa (n + i)) = 0" if "i < 4" for i using 4 [OF that] by simp
    from this [of 0] this [of 1] this [of 2] this [of 3] show ?thesis using True by (simp add: rd32_def 1)
  next
    case False
    then have "fst (memset m (pa k) 0 4096) (pa (n + i)) = m (pa (n + i))" if "i < 4" for i using 4 [OF that] by auto
    from this [of 0] this [of 1] this [of 2] this [of 3] show ?thesis unfolding if_not_P [OF False] by (simp add: rd32_def 1)
  qed
qed

section \<open>The tables\<close>

text \<open>The word at offset \<open>n\<close> of the area, and memory outside its first \<open>n\<close> bytes.\<close>

definition word_at :: "memory \<Rightarrow> nat \<Rightarrow> u32" where
  "word_at m n = rd32 m (pa n)"

definition same_outside :: "nat \<Rightarrow> memory \<Rightarrow> memory \<Rightarrow> bool" where
  "same_outside n m m' \<longleftrightarrow> (\<forall>x. unat x < 33554432 \<or> 33554432 + n \<le> unat x \<longrightarrow> m' x = m x)"

lemma same_outside_trans: "same_outside n m m' \<Longrightarrow> same_outside n m' m'' \<Longrightarrow> same_outside n m m''"
  by (simp add: same_outside_def)

lemma same_outside_mono: "same_outside n m m' \<Longrightarrow> n \<le> k \<Longrightarrow> same_outside k m m'"
  by (simp add: same_outside_def)

lemma set_entry_outside: "k + 4 \<le> n \<Longrightarrow> n < 16777216 \<Longrightarrow> same_outside n m (set_entry (pa k) b m)"
proof -
  assume k: "k + 4 \<le> n" "n < 16777216"
  have "pa k + 1 = pa (k + 1)" "pa k + 2 = pa (k + 2)" "pa k + 3 = pa (k + 3)" by (simp_all add: pa_def)
  then have "x \<noteq> pa k \<and> x \<noteq> pa k + 1 \<and> x \<noteq> pa k + 2 \<and> x \<noteq> pa k + 3"
    if "unat x < 33554432 \<or> 33554432 + n \<le> unat x" for x
    using that k by (auto simp: unat_pa)
  then show ?thesis by (simp add: same_outside_def set_entry_byte)
qed

lemma memset_outside: "k + 4096 \<le> n \<Longrightarrow> n < 16777216 \<Longrightarrow> same_outside n m (fst (memset m (pa k) 0 4096))"
  by (auto simp: same_outside_def memset_def fill_byte unat_sub_if' unat_pa)

lemma word_at_set_entry:
  assumes "n mod 4 = 0" "n < 16777216" "k mod 4 = 0" "k < 16777216"
  shows "word_at (set_entry (pa n) b m) k = (if k = n then entry_of b (word_at m n) else word_at m k)"
  using assms by (auto simp: word_at_def pa_eq)

text \<open>What \<^verbatim>\<open>page_table_init\<close> writes as the directory entry and the table entry for a frame.\<close>

definition pte :: "nat \<Rightarrow> u32" where
  "pte f = entry_of (of_nat f) 0"

lemma frame_number:
  assumes "i < 8" "n < 1024"
  shows "drop_bit 12 (word_of_int ((int i * 1024 + int n) * 4096) :: u32) = of_nat (1024 * i + n)"
proof -
  define w where "w = (word_of_int ((int i * 1024 + int n) * 4096) :: u32)"
  have b: "1024 * i + n < 8192" using assms by simp
  have "(int i * 1024 + int n) * 4096 = int ((1024 * i + n) * 4096)" by simp
  then have "unat w = (1024 * i + n) * 4096"
    using b unfolding w_def by (simp only: of_int_of_nat_eq unat_of_nat) simp
  then have "unat (drop_bit 12 w) = 1024 * i + n" by (simp add: unat_drop_bit_eq drop_bit_nat_def)
  moreover have "of_nat (unat (drop_bit 12 w)) = drop_bit 12 w" by simp
  ultimately show ?thesis unfolding w_def [symmetric] by simp
qed

lemma pt_fill_words:
  assumes "k mod 4 = 0" "k + 4096 \<le> N" "N < 16777216" "i < 8"
  shows "n \<le> 1024 \<Longrightarrow>
     (\<forall>q<1024. word_at (pt_fill i (pa k) n m) (k + 4 * q) =
        (if q < n then entry_of (of_nat (1024 * i + q)) (word_at m (k + 4 * q)) else word_at m (k + 4 * q)))
   \<and> (\<forall>j<16777216. j mod 4 = 0 \<and> (j < k \<or> k + 4096 \<le> j) \<longrightarrow> word_at (pt_fill i (pa k) n m) j = word_at m j)
   \<and> same_outside N m (pt_fill i (pa k) n m)"
proof (induction n)
  case 0
  then show ?case by (simp add: pt_fill_def same_outside_def)
next
  case (Suc n)
  let ?m = "pt_fill i (pa k) n m"
  have e: "pt_fill i (pa k) (Suc n) m = set_entry (pa (k + 4 * n)) (of_nat (1024 * i + n)) ?m"
    unfolding pt_fill_def using frame_number [OF assms(4), of n] Suc.prems by (simp add: Let_def)
  have kn: "(k + 4 * n) mod 4 = 0" "k + 4 * n + 4 \<le> N" using assms(1,2) Suc.prems by (simp_all add: mod_add_eq [symmetric])
  have w: "word_at (pt_fill i (pa k) (Suc n) m) j =
      (if j = k + 4 * n then entry_of (of_nat (1024 * i + n)) (word_at ?m (k + 4 * n)) else word_at ?m j)"
    if "j mod 4 = 0" "j < 16777216" for j
    unfolding e by (rule word_at_set_entry) (use kn that assms(3) in simp_all)
  have IH: "\<And>q. q < 1024 \<Longrightarrow> word_at ?m (k + 4 * q) =
        (if q < n then entry_of (of_nat (1024 * i + q)) (word_at m (k + 4 * q)) else word_at m (k + 4 * q))"
    "\<And>j. j < 16777216 \<Longrightarrow> j mod 4 = 0 \<Longrightarrow> j < k \<or> k + 4096 \<le> j \<Longrightarrow> word_at ?m j = word_at m j"
    "same_outside N m ?m"
    using Suc by simp_all
  have 1: "word_at (pt_fill i (pa k) (Suc n) m) (k + 4 * q) =
      (if q < Suc n then entry_of (of_nat (1024 * i + q)) (word_at m (k + 4 * q)) else word_at m (k + 4 * q))"
    if "q < 1024" for q
  proof -
    have "(k + 4 * q) mod 4 = 0" using assms(1) by (simp add: mod_add_eq [symmetric])
    then show ?thesis using w [of "k + 4 * q"] IH(1) [OF that] IH(1) [of n] that Suc.prems assms(2,3) by auto
  qed
  have 2: "word_at (pt_fill i (pa k) (Suc n) m) j = word_at m j" if "j < 16777216" "j mod 4 = 0" "j < k \<or> k + 4096 \<le> j" for j
    using w [OF that(2,1)] IH(2) [OF that] that(3) Suc.prems by auto
  have 3: "same_outside N m (pt_fill i (pa k) (Suc n) m)"
    unfolding e by (rule same_outside_trans [OF IH(3)]) (rule set_entry_outside [OF kn(2) assms(3)])
  show ?case by (intro conjI allI impI 1 2 3) auto
qed

lemma slot_aligned: "(4096 * a + 4 * n) mod 4 = (0 :: nat)"
proof -
  have "4096 * a + 4 * n = 4 * (1024 * a + n)" by simp
  then show ?thesis by (metis mod_mult_self1_is_0)
qed

text \<open>The state after \<open>i\<close> tables.\<close>

definition tables :: "nat \<Rightarrow> pgst \<Rightarrow> pgst \<Rightarrow> bool" where
  "tables i p q \<longleftrightarrow> next_free_pt_frame q = pa (4096 * (i + 1)) \<and> first_page_directory q = pa 0
   \<and> (\<forall>d<1024. word_at (pmem q) (4 * d) = (if d < i then entry_of (drop_bit 12 (pa (4096 * (d + 1)))) 0 else 0))
   \<and> (\<forall>d<i. \<forall>n<1024. word_at (pmem q) (4096 * (d + 1) + 4 * n) = pte (1024 * d + n))
   \<and> same_outside 36864 (pmem p) (pmem q) \<and> cr0 q = cr0 p \<and> cr2 q = cr2 p \<and> cr3 q = cr3 p \<and> cr4 q = cr4 p"

lemma tables_step:
  assumes t: "tables i p q" and i: "i < 8"
  shows "tables (Suc i) p (pd_step (pa 0) i q)"
proof -
  let ?k = "4096 * (i + 1)" and ?m = "pmem q"
  let ?m1 = "fst (memset ?m (pa ?k) 0 4096)" and ?b = "drop_bit 12 (pa ?k)"
  let ?m2 = "set_entry (pa (4 * i)) ?b ?m1"
  let ?m3 = "pt_fill i (pa ?k) 1024 ?m2"
  have nf: "next_free_pt_frame q = pa ?k" using t by (simp add: tables_def)
  have m1: "word_at ?m1 j = (if ?k \<le> j \<and> j < ?k + 4096 then 0 else word_at ?m j)" if "j mod 4 = 0" "j < 16777216" for j
    unfolding word_at_def by (rule memset_word) (use i that in simp_all)
  have m2: "word_at ?m2 j = (if j = 4 * i then entry_of ?b (word_at ?m1 (4 * i)) else word_at ?m1 j)"
    if "j mod 4 = 0" "j < 16777216" for j
    by (rule word_at_set_entry) (use i that in simp_all)
  have k: "?k mod 4 = 0" "?k + 4096 \<le> 36864" using slot_aligned [of "i + 1" 0] i by simp_all
  have N: "(36864 :: nat) < 16777216" by simp
  note m3 = pt_fill_words [OF k N i order_refl, of ?m2]
  have low: "word_at ?m3 j = word_at ?m2 j" if "j < ?k" "j mod 4 = 0" for j
    using m3 [THEN conjunct2, THEN conjunct1, rule_format, of j] that i by simp
  have out: "same_outside 36864 ?m2 ?m3" using m3 by blast
  have 1: "word_at ?m3 (4 * d) = (if d < Suc i then entry_of (drop_bit 12 (pa (4096 * (d + 1)))) 0 else 0)" if "d < 1024" for d
  proof -
    have "word_at ?m3 (4 * d) = word_at ?m2 (4 * d)" using low [of "4 * d"] that by simp
    also have "\<dots> = (if d = i then entry_of ?b (word_at ?m (4 * d)) else word_at ?m (4 * d))"
      using m2 [of "4 * d"] m1 [of "4 * d"] that by auto
    finally show ?thesis using t that by (auto simp: tables_def)
  qed
  have 2: "word_at ?m3 (4096 * (d + 1) + 4 * n) = pte (1024 * d + n)" if "d < Suc i" "n < 1024" for d n
  proof (cases "d = i")
    case True
    have "(4096 * (i + 1) + 4 * n) mod 4 = 0" by (rule slot_aligned)
    then have "word_at ?m2 (4096 * (i + 1) + 4 * n) = 0"
      using m2 [of "4096 * (i + 1) + 4 * n"] m1 [of "4096 * (i + 1) + 4 * n"] i that(2) by auto
    then show ?thesis using m3 [THEN conjunct1, rule_format, OF that(2)] that(2) True by (simp add: pte_def)
  next
    case False
    have "(4096 * (d + 1) + 4 * n) mod 4 = 0" by (rule slot_aligned)
    moreover have "4096 * (d + 1) + 4 * n < ?k" "4096 * (d + 1) + 4 * n \<noteq> 4 * i" using False that i by simp_all
    ultimately have "word_at ?m3 (4096 * (d + 1) + 4 * n) = word_at ?m (4096 * (d + 1) + 4 * n)"
      using low m2 [of "4096 * (d + 1) + 4 * n"] m1 [of "4096 * (d + 1) + 4 * n"] i by auto
    then show ?thesis using t that False by (simp add: tables_def)
  qed
  have "same_outside 36864 ?m ?m1" by (rule memset_outside) (use i in simp_all)
  moreover have "same_outside 36864 ?m1 ?m2" by (rule set_entry_outside) (use i in simp_all)
  ultimately have 3: "same_outside 36864 ?m ?m3" using out same_outside_trans by blast
  have "pd_step (pa 0) i q = q\<lparr>next_free_pt_frame := pa (4096 * (Suc i + 1)), pmem := ?m3\<rparr>"
    by (simp add: pd_step_def get_next_free_pt_frame_def nf Let_def) (simp add: pa_def)
  then show ?thesis using t 1 2 3 same_outside_trans [of 36864 "pmem p" ?m ?m3] by (simp add: tables_def)
qed

lemma page_table_init_tables:
  assumes "next_free_pt_frame p = PAGE_TABLE_AREA_START_ADDRESS"
  shows "tables 8 p (page_table_init p)"
proof -
  have nf: "next_free_pt_frame p = pa 0" using assms by (simp add: pa_def)
  let ?m1 = "fst (memset (pmem p) (pa 0) 0 4096)"
  let ?q = "p\<lparr>next_free_pt_frame := pa 4096, pmem := ?m1, first_page_directory := pa 0\<rparr>"
  have "word_at ?m1 (4 * d) = 0" if "d < 1024" for d
    unfolding word_at_def using memset_word [of 0 "4 * d" "pmem p"] that by simp
  moreover have "same_outside 36864 (pmem p) ?m1" by (rule memset_outside) simp_all
  ultimately have "tables 0 p ?q" by (simp add: tables_def)
  then have "tables i p (fold (pd_step (pa 0)) [0..<i] ?q)" if "i \<le> 8" for i
    using that by (induction i) (auto intro: tables_step)
  moreover have "page_table_init p = fold (pd_step (pa 0)) [0..<8] ?q"
    unfolding page_table_init_def get_next_free_pt_frame_def Let_def nf by (simp add: pa_def)
  ultimately show ?thesis by simp
qed

section \<open>The address space\<close>

lemma align_page: "push_bit 12 (take_bit 20 (drop_bit 12 w)) = push_bit 12 (drop_bit 12 (w :: u32))"
  by (rule bit_word_eqI) (auto simp: bit_simps possible_bit_def)

lemma split_page: "push_bit 12 (drop_bit 12 w) + take_bit 12 w = (w :: u32)"
proof -
  have "push_bit 12 (drop_bit 12 w) + take_bit 12 w = push_bit 12 (drop_bit 12 w) OR take_bit 12 w"
    by (rule disjunctive_add) (simp add: bit_simps)
  also have "\<dots> = w" by (rule bit_word_eqI) (auto simp: bit_simps possible_bit_def)
  finally show ?thesis .
qed

lemma page_pa: "n mod 4096 = 0 \<Longrightarrow> n < 16777216 \<Longrightarrow> push_bit 12 (drop_bit 12 (pa n)) = pa n"
proof -
  assume n: "n mod 4096 = 0" "n < 16777216"
  obtain c where "n = 4096 * c" using n(1) by (auto simp: mod_eq_0_iff_dvd elim!: dvdE)
  then have "unat (pa n) mod 2 ^ 12 = 0" using n(2) by (simp add: unat_pa)
  then have "unat (take_bit 12 (pa n)) = 0" by (simp add: unsigned_take_bit_eq take_bit_nat_def)
  then have "take_bit 12 (pa n) = 0" by (simp add: unsigned_eq_0_iff)
  then show ?thesis using split_page [of "pa n"] by simp
qed

lemma indices:
  fixes va :: u32
  obtains d n where "pd_offset va = of_nat d" "pt_offset va = of_nat n" "d < 1024" "n < 1024"
    "unat (drop_bit 12 va) = 1024 * d + n" "d < 8 \<longleftrightarrow> unat va < 33554432"
proof -
  define d where "d = unat va div 4194304"
  define n where "n = unat va div 4096 mod 1024"
  have "unat va < 4294967296" by simp
  then have d: "d < 1024" unfolding d_def by (simp add: div_less_iff_less_mult)
  have "unat (pd_offset va) = d"
    using d by (simp add: pd_offset_def get_bits_def unsigned_take_bit_eq unat_drop_bit_eq take_bit_nat_def drop_bit_nat_def d_def)
  moreover have "unat (pt_offset va) = n"
    by (simp add: pt_offset_def get_bits_def unsigned_take_bit_eq unat_drop_bit_eq take_bit_nat_def drop_bit_nat_def n_def)
  moreover have "unat (drop_bit 12 va) = 1024 * d + n"
    by (simp add: unat_drop_bit_eq drop_bit_nat_def d_def n_def div_mult2_eq [of _ 4096 1024, simplified])
  moreover have "d < 8 \<longleftrightarrow> unat va < 33554432" unfolding d_def by (simp add: div_less_iff_less_mult)
  moreover have "pd_offset va = of_nat (unat (pd_offset va))" "pt_offset va = of_nat (unat (pt_offset va))" by simp_all
  moreover have "n < 1024" by (simp add: n_def)
  ultimately show thesis using d by (intro that [of d n]) (simp_all only:)
qed

lemma translate_tables:
  assumes t: "tables 8 p q"
  shows "translate (pmem q) (first_page_directory q) va = (if unat va < 33554432 then Some (va, True, False) else None)"
proof (rule indices [of va])
  fix d n
  assume o: "pd_offset va = of_nat d" "pt_offset va = of_nat n" "d < 1024" "n < 1024"
    "unat (drop_bit 12 va) = 1024 * d + n" "d < 8 \<longleftrightarrow> unat va < 33554432"
  have pd: "first_page_directory q = pa 0" "push_bit 12 (drop_bit 12 (pa 0)) + 4 * of_nat d = pa (4 * d)"
    using t page_pa [of 0] by (simp_all add: tables_def)
  have pde: "rd32 (pmem q) (pa (4 * d)) = (if d < 8 then entry_of (drop_bit 12 (pa (4096 * (d + 1)))) 0 else 0)"
    using t o(3) unfolding tables_def word_at_def by simp
  show ?thesis
  proof (cases "d < 8")
    case False
    then show ?thesis
      unfolding translate_def Let_def pd(1) o(1) pd(2) pde using o(6) by (simp add: pd_pres_def get_bits_def)
  next
    case True
    let ?e = "rd32 (pmem q) (pa (4096 * (d + 1) + 4 * n))"
    have e: "?e = pte (1024 * d + n)" using t True o(4) unfolding tables_def word_at_def by blast
    have tb: "push_bit 12 (take_bit 20 (drop_bit 12 (pa (4096 * (d + 1))))) + 4 * of_nat n = pa (4096 * (d + 1) + 4 * n)"
      unfolding align_page using page_pa [of "4096 * (d + 1)"] True by simp
    have "(of_nat (1024 * d + n) :: u32) = drop_bit 12 va" unfolding o(5) [symmetric] by simp
    then have f: "push_bit 12 (take_bit 20 (of_nat (1024 * d + n) :: u32)) + pg_offset va = va"
      using align_page [of va] split_page [of va] by (simp add: pg_offset_def get_bits_def del: of_nat_add of_nat_mult)
    show ?thesis
      unfolding translate_def Let_def pd(1) o(1) pd(2) pde o(2)
      using True o(6) e tb f by (simp add: pte_def del: of_nat_add of_nat_mult)
  qed
qed

text \<open>
  C37. After \<^verbatim>\<open>sysinit\<close> has built the page tables, loaded \<^verbatim>\<open>cr3\<close> and enabled paging, every
  address below 32 MB is mapped to itself, writable and for the kernel only, and every access above
  faults, the tables' own frames included; building them wrote nothing outside nine frames; and the
  end of the heap that \<^verbatim>\<open>setsegs\<close> fixes is the last mapped byte, so that all memory the
  kernel hands out stays reachable.
\<close>

theorem paging_identity:
  assumes "next_free_pt_frame p = PAGE_TABLE_AREA_START_ADDRESS"
  shows "translate (pmem (start_paging p)) (cr3 (start_paging p)) va =
       (if va \<le> fst (snd (setsegs etext)) then Some (va, True, False) else None)
     \<and> bit (cr0 (start_paging p)) 31 \<and> bit (cr0 (start_paging p)) 0
     \<and> next_free_pt_frame (start_paging p) = PAGE_TABLE_AREA_START_ADDRESS + 36864
     \<and> (a < PAGE_TABLE_AREA_START_ADDRESS \<or> PAGE_TABLE_AREA_START_ADDRESS + 36864 \<le> a \<longrightarrow> pmem (start_paging p) a = pmem p a)"
proof -
  note t = page_table_init_tables [OF assms]
  have s: "start_paging p = (page_table_init p)\<lparr>cr3 := first_page_directory (page_table_init p),
      cr0 := cr0 (page_table_init p) OR push_bit 31 1 OR 1\<rparr>"
    by (simp add: start_paging_def enable_paging_def write_cr0_def write_cr3_def read_cr0_def Let_def)
  have mx: "fst (snd (setsegs etext)) = 33554431" by (simp add: setsegs_def Let_def)
  have "translate (pmem (start_paging p)) (cr3 (start_paging p)) va =
      (if va \<le> fst (snd (setsegs etext)) then Some (va, True, False) else None)"
    unfolding s mx using translate_tables [OF t, of va] by (simp add: word_le_nat_alt)
  moreover have "bit (cr0 (start_paging p)) 31 \<and> bit (cr0 (start_paging p)) 0" unfolding s by (simp add: bit_simps)
  moreover have "next_free_pt_frame (start_paging p) = PAGE_TABLE_AREA_START_ADDRESS + 36864"
    unfolding s using t by (simp add: tables_def pa_def)
  moreover have "pmem (start_paging p) a = pmem p a"
    if "a < PAGE_TABLE_AREA_START_ADDRESS \<or> PAGE_TABLE_AREA_START_ADDRESS + 36864 \<le> a"
  proof -
    have "same_outside 36864 (pmem p) (pmem (page_table_init p))" using t by (simp add: tables_def)
    then show ?thesis using that unfolding s by (auto simp: same_outside_def word_less_nat_alt word_le_nat_alt)
  qed
  ultimately show ?thesis by blast
qed

theorem paging_identity_witness:
  "translate (pmem (start_paging \<lparr>pmem = (\<lambda>_. 0), next_free_pt_frame = 33554432, first_page_directory = 0,
     cr0 = 17, cr2 = 0, cr3 = 0, cr4 = 0\<rparr>)) (cr3 (start_paging \<lparr>pmem = (\<lambda>_. 0), next_free_pt_frame = 33554432,
     first_page_directory = 0, cr0 = 17, cr2 = 0, cr3 = 0, cr4 = 0\<rparr>)) 33554432 = None"
proof -
  let ?p = "\<lparr>pmem = (\<lambda>_. 0), next_free_pt_frame = 33554432, first_page_directory = 0, cr0 = 17, cr2 = 0, cr3 = 0, cr4 = 0\<rparr>"
  have "next_free_pt_frame ?p = PAGE_TABLE_AREA_START_ADDRESS" by simp
  then have "translate (pmem (start_paging ?p)) (cr3 (start_paging ?p)) 33554432 =
      (if 33554432 \<le> fst (snd (setsegs 0)) then Some (33554432, True, False) else None)"
    by (rule paging_identity [THEN conjunct1])
  then show ?thesis by (simp add: setsegs_def Let_def)
qed

end
