(* ===== verification/Ring.thy ===== *)
theory Ring
  imports Main
begin

text \<open>
  Queues in an array of \<open>n\<close> places that is used in a circle: what the places from the head on hold,
  and the contract of the operations that add at the tail and take at the head.
\<close>

section \<open>The places from the head on\<close>

definition ring :: "int \<Rightarrow> (int \<Rightarrow> 'a) \<Rightarrow> int \<Rightarrow> 'a list \<Rightarrow> bool" where
  "ring n b h xs \<longleftrightarrow> (\<forall>k<length xs. b ((h + int k) mod n) = xs ! k)"

lemma ring_Nil [simp]: "ring n b h []"
  by (simp add: ring_def)

lemma ring_append: "ring n b h (xs @ ys) \<longleftrightarrow> ring n b h xs \<and> ring n b (h + int (length xs)) ys"
proof
  assume l: "ring n b h (xs @ ys)"
  have "b ((h + int k) mod n) = xs ! k" if "k < length xs" for k
    using l [unfolded ring_def, rule_format, of k] that by (simp add: nth_append)
  moreover have "b ((h + int (length xs) + int k) mod n) = ys ! k" if "k < length ys" for k
    using l [unfolded ring_def, rule_format, of "length xs + k"] that by (simp add: add.assoc)
  ultimately show "ring n b h xs \<and> ring n b (h + int (length xs)) ys" by (simp add: ring_def)
next
  assume r: "ring n b h xs \<and> ring n b (h + int (length xs)) ys"
  have "b ((h + int k) mod n) = (xs @ ys) ! k" if "k < length (xs @ ys)" for k
  proof (cases "k < length xs")
    case True
    then show ?thesis using r by (simp add: ring_def nth_append)
  next
    case False
    then have "k - length xs < length ys" using that by simp
    then have "b ((h + int (length xs) + int (k - length xs)) mod n) = ys ! (k - length xs)"
      using r unfolding ring_def by blast
    moreover have "h + int (length xs) + int (k - length xs) = h + int k" using False by simp
    ultimately show ?thesis using False by (simp add: nth_append)
  qed
  then show "ring n b h (xs @ ys)" by (simp add: ring_def)
qed

lemma ring_store:
  assumes "ring n b h xs" "int (length xs) < n"
  shows "ring n (b((h + int (length xs)) mod n := x)) h (xs @ [x])"
proof -
  have "(h + int k) mod n \<noteq> (h + int (length xs)) mod n" if "k < length xs" for k
  proof
    assume "(h + int k) mod n = (h + int (length xs)) mod n"
    then have "n dvd (int (length xs) - int k)" by (metis add_diff_cancel_left mod_eq_dvd_iff)
    then show False using that assms(2) zdvd_imp_le [of n "int (length xs) - int k"] by simp
  qed
  then have "ring n (b((h + int (length xs)) mod n := x)) h xs" using assms(1) by (auto simp: ring_def)
  then show ?thesis by (simp add: ring_append) (simp add: ring_def)
qed

lemma ring_head: "ring n b h (x # xs) \<longleftrightarrow> b (h mod n) = x \<and> ring n b ((h + 1) mod n) xs"
proof -
  have "ring n b h (x # xs) \<longleftrightarrow> ring n b h [x] \<and> ring n b (h + 1) xs" using ring_append [of n b h "[x]" xs] by simp
  moreover have "ring n b (h + 1) xs \<longleftrightarrow> ring n b ((h + 1) mod n) xs" by (simp add: ring_def mod_add_left_eq)
  ultimately show ?thesis by (simp add: ring_def)
qed

lemma wrap_up:
  assumes "0 \<le> t" "t < (n :: int)"
  shows "(if t + 1 \<ge> n then 0 else t + 1) = (t + 1) mod n"
proof (cases "t + 1 \<ge> n")
  case True
  then have "t + 1 = n" using assms by simp
  then show ?thesis by simp
qed (use assms in simp)

section \<open>Bounded queues\<close>

locale bounded_fifo =
  fixes holds :: "'q \<Rightarrow> 'a list \<Rightarrow> bool" and enq :: "'a \<Rightarrow> 'q \<Rightarrow> 'q" and deq :: "'q \<Rightarrow> 'q" and first :: "'q \<Rightarrow> 'a"
    and cap :: nat
  assumes holds_enq: "holds q xs \<Longrightarrow> length xs < cap \<Longrightarrow> holds (enq x q) (xs @ [x])"
    and holds_deq: "holds q (x # xs) \<Longrightarrow> holds (deq q) xs"
    and holds_first: "holds q (x # xs) \<Longrightarrow> first q = x"
begin

lemma holds_enqs: "holds q xs \<Longrightarrow> length xs + length ys \<le> cap \<Longrightarrow> holds (fold enq ys q) (xs @ ys)"
proof (induction ys arbitrary: q xs)
  case (Cons y ys)
  then have "holds (enq y q) (xs @ [y])" by (intro holds_enq) simp_all
  then show ?case using Cons by force
qed simp

lemma holds_deqs: "holds q (ys @ xs) \<Longrightarrow> holds ((deq ^^ length ys) q) xs"
proof (induction ys arbitrary: q)
  case (Cons y ys)
  then have "holds (deq q) (ys @ xs)" using holds_deq by simp
  then show ?case using Cons.IH by (simp add: funpow_swap1)
qed simp

text \<open>What was added comes out in the same order, whatever else is added behind it.\<close>

lemma fifo_order:
  assumes "holds q xs" "length xs + length ys \<le> cap" "i < length (xs @ ys)"
  shows "first ((deq ^^ i) (fold enq ys q)) = (xs @ ys) ! i"
proof -
  have "holds (fold enq ys q) (take i (xs @ ys) @ (xs @ ys) ! i # drop (Suc i) (xs @ ys))"
    using holds_enqs [OF assms(1,2)] id_take_nth_drop [OF assms(3)] by simp
  then have "holds ((deq ^^ i) (fold enq ys q)) ((xs @ ys) ! i # drop (Suc i) (xs @ ys))"
    using holds_deqs [of _ "take i (xs @ ys)"] assms(3) by (metis length_take less_imp_le min.absorb2)
  then show ?thesis by (rule holds_first)
qed

end

end
