(* ===== verification/Ttyspec.thy ===== *)
theory Ttyspec
  imports Frames Cstring Ring
begin

text \<open>
  The terminal driver as a line editor: what a receive interrupt makes of the characters that
  arrived, and what \<^verbatim>\<open>ttyread\<close> returns of them. The input buffer is a ring: from the head on it
  holds the characters of the lines that were ended and not yet read, and after them the line
  that is being typed, which can still be erased.
\<close>

section \<open>Wrapping back\<close>

lemma wrap_down:
  assumes "0 \<le> t" "t < TY_IBUFLEN" "0 \<le> c" "c \<le> TY_IBUFLEN"
  shows "(if t - c < 0 then t - c + TY_IBUFLEN else t - c) = (t - c) mod TY_IBUFLEN"
proof (cases "t - c < 0")
  case True
  have "(t - c + 128) mod 128 = t - c + 128" using assms True by (intro mod_pos_pos_trivial) simp_all
  then show ?thesis using True by simp
qed (use assms in simp)

section \<open>The line editor\<close>

text \<open>
  The characters of the ended lines and the line being typed, and what one character does to them:
  it is dropped, kills the line, erases a character, ends the line, is an end of file, or is added.
\<close>

definition cooked_step :: "ttycblk \<Rightarrow> u8 \<Rightarrow> u8 list \<times> u8 list \<Rightarrow> u8 list \<times> u8 list" where
  "cooked_step t ch st =
     (let (cs, ls) = st in
      if ch = tyikillc t \<and> tyikill t then (cs, [])
      else if (ch = tyierasec t \<or> ch = tyierasec2 t) \<and> tyierase t then (cs, butlast ls)
      else if ch = TY_NEWLINE \<or> ch = TY_RETURN then (cs @ ls @ [ch], [])
      else if length cs + length ls \<ge> 127 then (cs, ls)
      else if ch = tyeofch t \<and> tyeof t then (if ls = [] then (cs @ [ch], []) else (cs, ls))
      else (cs, ls @ [ch]))"

definition line_step :: "ttycblk \<Rightarrow> u8 \<Rightarrow> u8 list \<times> u8 list \<Rightarrow> u8 list \<times> u8 list" where
  "line_step t c st =
     (let ch = (if c = TY_RETURN \<and> tyicrlf t then TY_NEWLINE else c)
      in if tyoflow t \<and> (ch = tyostart t \<or> ch = tyostop t) then st else cooked_step t ch st)"

text \<open>There is room in the ring whenever a character arrives.\<close>

primrec fits :: "ttycblk \<Rightarrow> u8 list \<Rightarrow> u8 list \<times> u8 list \<Rightarrow> bool" where
  "fits t [] st = True"
| "fits t (c # rx) st = (length (fst st) + length (snd st) < 128 \<and> fits t rx (line_step t c st))"

definition tty_ring :: "ttycblk \<Rightarrow> u8 list \<Rightarrow> bool" where
  "tty_ring t xs \<longleftrightarrow> 0 \<le> tyihead t \<and> tyihead t < TY_IBUFLEN \<and> tyitail t = (tyihead t + int (length xs)) mod TY_IBUFLEN
   \<and> ring 128 (tyibuff t) (tyihead t) xs \<and> length xs \<le> 128"

definition tty_input :: "ttycblk \<Rightarrow> u8 list \<times> u8 list \<Rightarrow> bool" where
  "tty_input t st \<longleftrightarrow> tty_ring t (fst st @ snd st) \<and> tyicursor t = int (length (snd st))"

text \<open>The settings the editor looks at.\<close>

definition settings :: "ttycblk \<Rightarrow> _" where
  "settings t = (tyimode t, tyicrlf t, tyoflow t, tyostart t, tyostop t, tyikillc t, tyikill t, tyierasec t, tyierasec2 t,
     tyierase t, tyeofch t, tyeof t, tyisem t, tyosem t, tyihead t)"

lemma settings_cong:
  assumes "settings t' = settings t"
  shows "line_step t' = line_step t" "fits t' = fits t" "tyimode t' = tyimode t" "tyisem t' = tyisem t" "tyihead t' = tyihead t"
    "cooked_step t' = cooked_step t"
proof -
  have f: "tyicrlf t' = tyicrlf t" "tyoflow t' = tyoflow t" "tyostart t' = tyostart t" "tyostop t' = tyostop t"
    "tyikillc t' = tyikillc t" "tyikill t' = tyikill t" "tyierasec t' = tyierasec t" "tyierasec2 t' = tyierasec2 t"
    "tyierase t' = tyierase t" "tyeofch t' = tyeofch t" "tyeof t' = tyeof t"
    using assms by (simp_all add: settings_def)
  show "cooked_step t' = cooked_step t" by (intro ext) (simp only: cooked_step_def f)
  show l: "line_step t' = line_step t" by (intro ext) (simp only: line_step_def cooked_step_def f)
  have "fits t' rx st = fits t rx st" for rx st by (induction rx arbitrary: st) (simp_all add: l)
  then show "fits t' = fits t" by (simp add: fun_eq_iff)
qed (use assms in \<open>simp_all add: settings_def\<close>)

section \<open>Echoing changes nothing but the echo queue\<close>

definition in_part :: "ttycblk \<Rightarrow> _" where
  "in_part t = (settings t, tyitail t, tyibuff t, tyicursor t, tyiecho t, tyieback t, tyevis t, tyecrlf t, tyifullc t)"

lemma in_partD:
  assumes "in_part t' = in_part t"
  shows "settings t' = settings t" "tyitail t' = tyitail t" "tyibuff t' = tyibuff t" "tyicursor t' = tyicursor t"
    "tyihead t' = tyihead t" "tyisem t' = tyisem t" "tty_input t' st = tty_input t st"
  using assms by (simp_all add: in_part_def settings_def tty_input_def tty_ring_def)

lemma upd_tty_tab [simp]: "ttytab (upd_tty i f s) i = f (ttytab s i)" "ttytab (outb p v s) = ttytab s"
  "ttytab (upd_sem j g s) = ttytab s" "semtab (upd_tty i f s) = semtab s"
  by (simp_all add: upd_tty_def outb_def upd_sem_def)

lemma in_part_echo [simp]:
  "in_part (ttytab (eputc ch i csr s) i) = in_part (ttytab s i)"
  "in_part (ttytab (echoch ch i csr s) i) = in_part (ttytab s i)"
  "in_part (ttytab (erase_echo i csr s) i) = in_part (ttytab s i)"
proof -
  show e: "in_part (ttytab (eputc ch i csr s) i) = in_part (ttytab s i)" for ch i csr s
    by (simp add: eputc_def ttykickout_def Let_def in_part_def settings_def)
  show "in_part (ttytab (echoch ch i csr s) i) = in_part (ttytab s i)" by (simp add: echoch_def Let_def e)
  show "in_part (ttytab (erase_echo i csr s) i) = in_part (ttytab s i)" by (simp add: erase_echo_def Let_def e)
qed

section \<open>Signals nobody waits for\<close>

text \<open>Everything but the terminals and the devices.\<close>

definition core :: "kst \<Rightarrow> kst" where
  "core s = s\<lparr>ttytab := (\<lambda>i. tty0), outlog := []\<rparr>"

lemma core_tty [simp]:
  "core (upd_tty i f s) = core s" "core (outb p v s) = core s" "core (ttykickout csr s) = core s"
  "core (eputc ch i csr s) = core s" "core (echoch ch i csr s) = core s" "core (erase_echo i csr s) = core s"
  "core (tty_wrap i s) = core s"
  by (simp_all add: core_def upd_tty_def outb_def ttykickout_def eputc_def echoch_def erase_echo_def tty_wrap_def Let_def)

lemma core_simps [simp]:
  "core (upd_sem j f s) = upd_sem j f (core s)" "semtab (core s) = semtab s" "ndefers (core s) = ndefers s"
  "core (s\<lparr>ndefers := k\<rparr>) = (core s)\<lparr>ndefers := k\<rparr>" "core (s\<lparr>attempt := b\<rparr>) = (core s)\<lparr>attempt := b\<rparr>"
  "attempt (core s) = attempt s" "hp (core s) = hp s" "proctab (core s) = proctab s" "queuetab (core s) = queuetab s"
  by (simp_all add: core_def upd_sem_def)

lemma core_eq:
  assumes "core s' = core s"
  shows "semtab s' = semtab s" "ndefers s' = ndefers s" "attempt s' = attempt s"
  using assms core_simps(2,3,6) by metis+

lemma signaln_loop_idle:
  "idle_sem sem s \<Longrightarrow> scount (semtab s sem) + int k \<le> INT32_MAX \<Longrightarrow> signaln_loop k sem s = Ret (count_by sem (int k) s) ()"
proof (induction k arbitrary: s)
  case 0
  then show ?case by (simp add: upd_sem_def)
next
  case (Suc k)
  have "signal_once sem s = Ret (count_by sem 1 s) ()"
    using Suc.prems by (simp add: signal_once_def count_up_def idle_sem_def upd_sem_def)
  moreover have "idle_sem sem (count_by sem 1 s)" using Suc.prems(1) by (simp add: idle_sem_def)
  ultimately show ?case using Suc.IH [of "count_by sem 1 s"] Suc.prems(2) by (simp add: upd_sem_def add_ac)
qed

lemma signaln_idle:
  assumes "idle_sem sem s" "0 \<le> n" "scount (semtab s sem) + n \<le> INT32_MAX" "ndefers s = 1"
  shows "signaln sem n s = Ret (count_by sem n s) OK"
proof -
  have "idle_sem sem (s\<lparr>ndefers := 2\<rparr>)" using assms(1) by (simp add: idle_sem_def)
  then have "signaln_loop (nat n) sem (s\<lparr>ndefers := 2\<rparr>) = Ret (count_by sem n (s\<lparr>ndefers := 2\<rparr>)) ()"
    using signaln_loop_idle [of sem "s\<lparr>ndefers := 2\<rparr>" "nat n"] assms(2,3) by simp
  then show ?thesis
    using assms by (simp add: signaln_def resched_cntl_def Let_def idle_sem_def upd_sem_def)
qed

section \<open>One character\<close>

text \<open>\<open>console i sem st s\<close>: terminal \<open>i\<close> holds the characters \<open>st\<close>; nobody waits for input.\<close>

definition console :: "int \<Rightarrow> int \<Rightarrow> u8 list \<times> u8 list \<Rightarrow> kst \<Rightarrow> bool" where
  "console i sem st s \<longleftrightarrow> tty_input (ttytab s i) st \<and> tyisem (ttytab s i) = sem \<and> idle_sem sem s
   \<and> scount (semtab s sem) = int (length (fst st))"

lemma tty_put:
  assumes t: "tty_ring t xs" and n: "length xs < 128"
  shows "0 \<le> tyitail t" "tyitail t < TY_IBUFLEN" "ring 128 ((tyibuff t)(tyitail t := ch)) (tyihead t) (xs @ [ch])"
    "(if tyitail t + 1 \<ge> TY_IBUFLEN then 0 else tyitail t + 1) = (tyihead t + int (length (xs @ [ch]))) mod TY_IBUFLEN"
proof -
  have tl: "tyitail t = (tyihead t + int (length xs)) mod 128" "ring 128 (tyibuff t) (tyihead t) xs"
    using t by (simp_all add: tty_ring_def)
  show b: "0 \<le> tyitail t" "tyitail t < TY_IBUFLEN" unfolding tl(1) by simp_all
  show "ring 128 ((tyibuff t)(tyitail t := ch)) (tyihead t) (xs @ [ch])"
    using ring_store [OF tl(2), of ch] n unfolding tl(1) by simp
  have "(if tyitail t + 1 \<ge> TY_IBUFLEN then 0 else tyitail t + 1) = (tyitail t + 1) mod 128" by (rule wrap_up [OF b])
  also have "\<dots> = (tyihead t + int (length (xs @ [ch]))) mod 128"
    unfolding tl(1) by (simp only: mod_add_left_eq) (simp add: add_ac)
  finally show "(if tyitail t + 1 \<ge> TY_IBUFLEN then 0 else tyitail t + 1) = (tyihead t + int (length (xs @ [ch]))) mod TY_IBUFLEN" .
qed

lemma store_wrap:
  assumes "tty_ring (ttytab s i) xs" "length xs < 128"
  obtains s1 where "tty_store ch i s = Ret s1 ()" "core (tty_wrap i s1) = core s"
    "tty_ring (ttytab (tty_wrap i s1) i) (xs @ [ch])" "tyicursor (ttytab (tty_wrap i s1) i) = tyicursor (ttytab s i)"
    "settings (ttytab (tty_wrap i s1) i) = settings (ttytab s i)"
proof -
  note p = tty_put(2) [OF assms] tty_put(3,4) [OF assms, of ch]
  let ?t = "ttytab s i"
  let ?s1 = "upd_tty i (\<lambda>t. t\<lparr>tyibuff := (tyibuff t)(tyitail t := ch), tyitail := tyitail t + 1\<rparr>) s"
  have "tty_store ch i s = Ret ?s1 ()" using p(1) by (simp add: tty_store_def)
  moreover have "tyitail (ttytab (tty_wrap i ?s1) i) = (if tyitail ?t + 1 \<ge> TY_IBUFLEN then 0 else tyitail ?t + 1)"
    by (simp add: tty_wrap_def)
  then have "tty_ring (ttytab (tty_wrap i ?s1) i) (xs @ [ch])"
    using assms p(2,3) by (simp add: tty_ring_def tty_wrap_def)
  ultimately show thesis by (intro that [of ?s1]) (simp_all add: tty_wrap_def settings_def)
qed

text \<open>Dropping the last \<open>k\<close> characters.\<close>

lemma tty_back:
  assumes t: "tty_ring t (xs @ ys)"
  shows "(if tyitail t - int (length ys) < 0 then tyitail t - int (length ys) + TY_IBUFLEN else tyitail t - int (length ys)) =
      (tyihead t + int (length xs)) mod TY_IBUFLEN"
    "ring 128 (tyibuff t) (tyihead t) xs" "length xs \<le> 128"
proof -
  have tl: "tyitail t = (tyihead t + int (length (xs @ ys))) mod 128" "length (xs @ ys) \<le> 128"
    using t by (simp_all add: tty_ring_def)
  have "(if tyitail t - int (length ys) < 0 then tyitail t - int (length ys) + TY_IBUFLEN else tyitail t - int (length ys)) =
      (tyitail t - int (length ys)) mod 128"
    by (rule wrap_down) (use tl in simp_all)
  also have "\<dots> = (tyihead t + int (length xs)) mod 128" unfolding tl(1) by (simp only: mod_diff_left_eq) simp
  finally show "(if tyitail t - int (length ys) < 0 then tyitail t - int (length ys) + TY_IBUFLEN
      else tyitail t - int (length ys)) = (tyihead t + int (length xs)) mod TY_IBUFLEN" .
  show "ring 128 (tyibuff t) (tyihead t) xs" "length xs \<le> 128" using t by (simp_all add: tty_ring_def ring_append)
qed

lemma erase1_input:
  assumes "tty_ring (ttytab s i) (xs @ [x])"
  shows "tty_ring (ttytab (erase1 i csr s) i) xs" "settings (ttytab (erase1 i csr s) i) = settings (ttytab s i)"
    "tyicursor (ttytab (erase1 i csr s) i) = tyicursor (ttytab s i)" "core (erase1 i csr s) = core s"
proof -
  let ?s2 = "upd_tty i (\<lambda>t. if tyitail t < 0 then t\<lparr>tyitail := tyitail t + TY_IBUFLEN\<rparr> else t)
    (upd_tty i (\<lambda>t. t\<lparr>tyitail := tyitail t - 1\<rparr>) s)"
  have e: "in_part (ttytab (erase1 i csr s) i) = in_part (ttytab ?s2 i)" by (simp add: erase1_def Let_def)
  have "tyitail (ttytab ?s2 i) = (if tyitail (ttytab s i) - 1 < 0 then tyitail (ttytab s i) - 1 + 128 else tyitail (ttytab s i) - 1)"
    by simp
  also have "\<dots> = (tyihead (ttytab s i) + int (length xs)) mod 128" using tty_back(1) [OF assms] by (simp cong: if_cong)
  finally have tl: "tyitail (ttytab ?s2 i) = (tyihead (ttytab s i) + int (length xs)) mod 128" .
  have "tty_ring (ttytab ?s2 i) xs"
    using tl assms tty_back(2,3) [OF assms] unfolding tty_ring_def by (simp del: ring_append)
  then show "tty_ring (ttytab (erase1 i csr s) i) xs" "settings (ttytab (erase1 i csr s) i) = settings (ttytab s i)"
    "tyicursor (ttytab (erase1 i csr s) i) = tyicursor (ttytab s i)"
    using in_partD [OF e] by (simp_all add: tty_ring_def settings_def)
  show "core (erase1 i csr s) = core s" by (simp add: erase1_def Let_def)
qed

lemma echo_same:
  assumes "in_part (ttytab s1 i) = in_part (ttytab s i)" "core s1 = core s"
  shows "console i sem st s1 = console i sem st s" "settings (ttytab s1 i) = settings (ttytab s i)"
  using in_partD [OF assms(1)] core_eq [OF assms(2)] by (simp_all add: console_def idle_sem_def)

lemma console_eputc [simp]:
  "console i sem st (eputc ch i csr s) = console i sem st s" "settings (ttytab (eputc ch i csr s) i) = settings (ttytab s i)"
  by (rule echo_same; simp)+

lemma echo_cond:
  "in_part (ttytab (if b then echoch ch i csr s else s) i) = in_part (ttytab s i)" "core (if b then echoch ch i csr s else s) = core s"
  by simp_all

lemma cooked_input:
  assumes c: "console i sem (cs, ls) s" and room: "length cs + length ls < 128" and nd: "ndefers s = 1"
    and eof: "\<not> (ch = tyeofch (ttytab s i) \<and> tyeof (ttytab s i))"
  obtains s' where "tty_cooked ch i csr s = Ret s' ()" "console i sem (cooked_step (ttytab s i) ch (cs, ls)) s'"
    "settings (ttytab s' i) = settings (ttytab s i)"
    "core s' = count_by sem (int (length (fst (cooked_step (ttytab s i) ch (cs, ls)))) - int (length cs)) (core s)"
proof -
  let ?t = "ttytab s i" and ?r = "cooked_step (ttytab s i) ch (cs, ls)"
  have t: "tty_ring ?t (cs @ ls)" "tyicursor ?t = int (length ls)" "tyisem ?t = sem" "idle_sem sem s"
    "scount (semtab s sem) = int (length cs)"
    using c by (simp_all add: console_def tty_input_def)
  have av: "tty_avail i s = int (length cs)" using t(3-5) by (simp add: tty_avail_def semcount_def idle_sem_def)
  consider (kill) "ch = tyikillc ?t \<and> tyikill ?t"
    | (erase) "\<not> (ch = tyikillc ?t \<and> tyikill ?t)" "(ch = tyierasec ?t \<or> ch = tyierasec2 ?t) \<and> tyierase ?t"
    | (eol) "\<not> (ch = tyikillc ?t \<and> tyikill ?t)" "\<not> ((ch = tyierasec ?t \<or> ch = tyierasec2 ?t) \<and> tyierase ?t)"
        "ch = TY_NEWLINE \<or> ch = TY_RETURN"
    | (full) "\<not> (ch = tyikillc ?t \<and> tyikill ?t)" "\<not> ((ch = tyierasec ?t \<or> ch = tyierasec2 ?t) \<and> tyierase ?t)"
        "\<not> (ch = TY_NEWLINE \<or> ch = TY_RETURN)" "length cs + length ls \<ge> 127"
    | (plain) "\<not> (ch = tyikillc ?t \<and> tyikill ?t)" "\<not> ((ch = tyierasec ?t \<or> ch = tyierasec2 ?t) \<and> tyierase ?t)"
        "\<not> (ch = TY_NEWLINE \<or> ch = TY_RETURN)" "\<not> length cs + length ls \<ge> 127"
    by blast
  then show thesis
  proof cases
    case kill
    let ?s3 = "upd_tty i (\<lambda>t. t\<lparr>tyicursor := 0\<rparr>) (upd_tty i (\<lambda>t. if tyitail t < 0 then t\<lparr>tyitail := tyitail t + TY_IBUFLEN\<rparr> else t)
      (upd_tty i (\<lambda>t. t\<lparr>tyitail := tyitail t - tyicursor t\<rparr>) s))"
    let ?s' = "eputc TY_NEWLINE i csr (eputc TY_RETURN i csr ?s3)"
    have r: "?r = (cs, [])" using kill by (simp add: cooked_step_def)
    have "tyitail (ttytab ?s3 i) = (tyihead ?t + int (length cs)) mod 128"
      using tty_back(1) [OF t(1)] t(2) by (auto split: if_splits)
    then have "tty_ring (ttytab ?s3 i) cs" using t(1) tty_back(2,3) [OF t(1)] by (simp add: tty_ring_def)
    then have "console i sem (cs, []) ?s3" using t by (simp add: console_def tty_input_def idle_sem_def upd_tty_def)
    then have "console i sem (cs, []) ?s'" "settings (ttytab ?s' i) = settings (ttytab ?s3 i)" by simp_all
    moreover have "tty_cooked ch i csr s = Ret ?s' ()" using kill by (simp add: tty_cooked_def Let_def)
    moreover have "settings (ttytab ?s3 i) = settings ?t" by (simp add: settings_def)
    moreover have "core ?s' = core s" by simp
    ultimately show thesis using r that [of ?s'] by simp
  next
    case erase
    then have r: "?r = (cs, butlast ls)" by (auto simp: cooked_step_def)
    note run = tty_cooked_def [of ch i csr s, unfolded Let_def if_not_P [OF erase(1)] if_P [OF erase(2)]]
    show thesis
    proof (cases ls rule: rev_cases)
      case Nil
      then have "tty_cooked ch i csr s = Ret s ()" using t(2) unfolding run by simp
      then show thesis using that c r Nil by simp
    next
      case (snoc ls' x)
      let ?s1 = "upd_tty i (\<lambda>t. t\<lparr>tyicursor := tyicursor t - 1\<rparr>) s"
      have "tty_ring (ttytab ?s1 i) ((cs @ ls') @ [x])" using t(1) snoc by (simp add: tty_ring_def)
      note e = erase1_input [OF this, of csr]
      have "console i sem (cs, ls') (erase1 i csr ?s1)"
        using e(1,3) t(2-5) snoc core_eq [OF e(4)] settings_cong(4) [OF e(2)]
        by (simp add: console_def tty_input_def idle_sem_def upd_tty_def)
      moreover have "tty_cooked ch i csr s = Ret (erase1 i csr ?s1) ()"
        using t(2) snoc unfolding run by simp
      ultimately show thesis using that r snoc e(2,4) by (simp add: settings_def)
    qed
  next
    case full
    then have r: "?r = (cs, ls)" by (auto simp: cooked_step_def)
    have "tty_cooked ch i csr s = Ret (eputc (tyifullc ?t) i csr s) ()"
      unfolding tty_cooked_def Let_def if_not_P [OF full(1)] if_not_P [OF full(2)] if_not_P [OF full(3)]
      using full(4) av t(2) by simp
    then show thesis using that c r by simp
  next
    case eol
    then have r: "?r = (cs @ ls @ [ch], [])" by (auto simp: cooked_step_def)
    let ?s1 = "if tyiecho ?t then echoch ch i csr s else s"
    note e = echo_cond [of "tyiecho ?t" ch i csr s]
    have "tty_ring (ttytab ?s1 i) (cs @ ls)" using t(1) in_partD [OF e(1)] by (simp add: tty_ring_def)
    then obtain s2 where s2: "tty_store ch i ?s1 = Ret s2 ()" "core (tty_wrap i s2) = core ?s1"
      "tty_ring (ttytab (tty_wrap i s2) i) ((cs @ ls) @ [ch])" "tyicursor (ttytab (tty_wrap i s2) i) = tyicursor (ttytab ?s1 i)"
      "settings (ttytab (tty_wrap i s2) i) = settings (ttytab ?s1 i)"
      by (rule store_wrap [of ?s1 i "cs @ ls" ch]) (use room in simp)
    let ?s3 = "tty_wrap i s2"
    have co: "core ?s3 = core s" using s2(2) e(2) by simp
    have st: "settings (ttytab ?s3 i) = settings ?t" using s2(5) in_partD(1) [OF e(1)] by simp
    have cu: "tyicursor (ttytab ?s3 i) = int (length ls)" using s2(4) in_partD(4) [OF e(1)] t(2) by simp
    have "signaln sem (int (length ls) + 1) ?s3 = Ret (count_by sem (int (length ls) + 1) ?s3) OK"
      by (rule signaln_idle) (use core_eq [OF co] t(4,5) nd room in \<open>simp_all add: idle_sem_def\<close>)
    moreover have "i32 (int (length ls) + 1) = int (length ls) + 1" using room by simp
    ultimately have run: "tty_cooked ch i csr s =
        Ret (upd_tty i (\<lambda>t. t\<lparr>tyicursor := 0\<rparr>) (count_by sem (int (length ls) + 1) ?s3)) ()"
      unfolding tty_cooked_def Let_def if_not_P [OF eol(1)] if_not_P [OF eol(2)] if_P [OF eol(3)]
      using s2(1) cu settings_cong(4) [OF st] t(3) by simp
    moreover have "console i sem ?r (upd_tty i (\<lambda>t. t\<lparr>tyicursor := 0\<rparr>) (count_by sem (int (length ls) + 1) ?s3))"
      using s2(3) core_eq [OF co] t settings_cong(4) [OF st] unfolding r
      by (simp add: console_def tty_input_def tty_ring_def idle_sem_def)
    moreover have "settings (ttytab (upd_tty i (\<lambda>t. t\<lparr>tyicursor := 0\<rparr>) (count_by sem (int (length ls) + 1) ?s3)) i) = settings ?t"
      using st by (simp add: settings_def)
    ultimately show thesis
      using co r that [of "upd_tty i (\<lambda>t. t\<lparr>tyicursor := 0\<rparr>) (count_by sem (int (length ls) + 1) ?s3)"] by (simp add: add_ac)
  next
    case plain
    then have r: "?r = (cs, ls @ [ch])" using eof by (auto simp: cooked_step_def)
    let ?s1 = "upd_tty i (\<lambda>t. t\<lparr>tyicursor := tyicursor t + 1\<rparr>) (if tyiecho ?t then echoch ch i csr s else s)"
    note e = echo_cond [of "tyiecho ?t" ch i csr s]
    have "tty_ring (ttytab ?s1 i) (cs @ ls)" using t(1) in_partD [OF e(1)] by (simp add: tty_ring_def)
    then obtain s2 where s2: "tty_store ch i ?s1 = Ret s2 ()" "core (tty_wrap i s2) = core ?s1"
      "tty_ring (ttytab (tty_wrap i s2) i) ((cs @ ls) @ [ch])" "tyicursor (ttytab (tty_wrap i s2) i) = tyicursor (ttytab ?s1 i)"
      "settings (ttytab (tty_wrap i s2) i) = settings (ttytab ?s1 i)"
      by (rule store_wrap [of ?s1 i "cs @ ls" ch]) (use room in simp)
    have co: "core (tty_wrap i s2) = core s" using s2(2) e(2) by simp
    have "settings (ttytab ?s1 i) = settings (ttytab (if tyiecho ?t then echoch ch i csr s else s) i)" by (simp add: settings_def)
    then have st: "settings (ttytab (tty_wrap i s2) i) = settings ?t" using s2(5) in_partD(1) [OF e(1)] by simp
    have cu: "tyicursor (ttytab (tty_wrap i s2) i) = int (length ls) + 1" using s2(4) in_partD(4) [OF e(1)] t(2) by simp
    have "tty_cooked ch i csr s = Ret (tty_wrap i s2) ()"
      unfolding tty_cooked_def Let_def if_not_P [OF plain(1)] if_not_P [OF plain(2)] if_not_P [OF plain(3)] if_not_P [OF eof]
      using plain(4) av t(2) s2(1) by simp
    moreover have "console i sem ?r (tty_wrap i s2)"
      using s2(3) cu core_eq [OF co] t(3-5) settings_cong(4) [OF st] unfolding r
      by (simp add: console_def tty_input_def idle_sem_def)
    ultimately show thesis using co st r that [of "tty_wrap i s2"] by simp
  qed
qed

lemma handle_in_input:
  assumes c: "console i sem st s" and m: "tyimode (ttytab s i) = TY_IMCOOKED" and room: "length (fst st) + length (snd st) < 128"
    and nd: "ndefers s = 1" and eof: "\<not> (c = tyeofch (ttytab s i) \<and> tyeof (ttytab s i))" "tyeofch (ttytab s i) \<noteq> TY_NEWLINE"
  obtains s' where "ttyhandle_in c i csr s = Ret s' ()" "console i sem (line_step (ttytab s i) c st) s'"
    "settings (ttytab s' i) = settings (ttytab s i)"
    "core s' = count_by sem (int (length (fst (line_step (ttytab s i) c st))) - int (length (fst st))) (core s)"
proof -
  let ?t = "ttytab s i" and ?h = "\<lambda>b. upd_tty i (\<lambda>t. t\<lparr>tyoheld := b\<rparr>) s"
  define ch where "ch = (if c = TY_RETURN \<and> tyicrlf ?t then TY_NEWLINE else c)"
  have l: "line_step ?t c st = (if tyoflow ?t \<and> (ch = tyostart ?t \<or> ch = tyostop ?t) then st else cooked_step ?t ch st)"
    by (simp only: line_step_def ch_def Let_def)
  have h: "in_part (ttytab (?h b) i) = in_part ?t" "core (?h b) = core s" for b by (simp_all add: in_part_def settings_def)
  note hs = echo_same [OF h]
  have run: "ttyhandle_in c i csr s =
      (if tyoflow ?t \<and> ch = tyostart ?t then Ret (ttykickout csr (?h False)) ()
       else if tyoflow ?t \<and> ch = tyostop ?t then Ret (?h True) () else tty_cooked ch i csr (?h False))"
    using m by (simp add: ttyhandle_in_def Let_def ch_def [symmetric])
  consider "tyoflow ?t \<and> ch = tyostart ?t" | "\<not> (tyoflow ?t \<and> ch = tyostart ?t)" "tyoflow ?t \<and> ch = tyostop ?t"
    | "\<not> (tyoflow ?t \<and> ch = tyostart ?t)" "\<not> (tyoflow ?t \<and> ch = tyostop ?t)" by blast
  then show thesis
  proof cases
    case 1
    then have "ttyhandle_in c i csr s = Ret (ttykickout csr (?h False)) ()" "line_step ?t c st = st" unfolding run l by simp_all
    moreover have k: "in_part (ttytab (ttykickout csr (?h False)) i) = in_part ?t" "core (ttykickout csr (?h False)) = core s"
      by (simp_all add: ttykickout_def in_part_def settings_def)
    ultimately show thesis using that [of "ttykickout csr (?h False)"] c echo_same [OF k] k(2) by simp
  next
    case 2
    then have "ttyhandle_in c i csr s = Ret (?h True) ()" "line_step ?t c st = st" unfolding run if_not_P [OF 2(1)] l by simp_all
    then show thesis using that [of "?h True"] c hs h(2) by simp
  next
    case 3
    then have f: "\<not> (tyoflow ?t \<and> (ch = tyostart ?t \<or> ch = tyostop ?t))" by blast
    have lc: "line_step ?t c st = cooked_step ?t ch st" unfolding l if_not_P [OF f] ..
    obtain cs ls where st: "st = (cs, ls)" by (cases st)
    have eq: "cooked_step (ttytab (?h False) i) = cooked_step ?t" by (rule settings_cong(6)) (simp add: settings_def)
    have e: "\<not> (ch = tyeofch (ttytab (?h False) i) \<and> tyeof (ttytab (?h False) i))" using eof by (simp add: ch_def)
    have co: "console i sem (cs, ls) (?h False)" using c hs(1) st by simp
    have nd': "ndefers (?h False) = 1" using nd core_eq(2) [OF h(2)] by simp
    obtain s' where s': "tty_cooked ch i csr (?h False) = Ret s' ()"
      "console i sem (cooked_step (ttytab (?h False) i) ch (cs, ls)) s'" "settings (ttytab s' i) = settings (ttytab (?h False) i)"
      "core s' = count_by sem (int (length (fst (cooked_step (ttytab (?h False) i) ch (cs, ls)))) - int (length cs)) (core (?h False))"
      by (rule cooked_input [OF co _ nd' e]) (use room st in simp_all)
    have "ttyhandle_in c i csr s = Ret s' ()" unfolding run if_not_P [OF 3(1)] if_not_P [OF 3(2)] by (rule s'(1))
    then show thesis using that [of s'] s'(2-4) hs(2) h(2) lc eq st by simp
  qed
qed

lemma receive_input:
  "console i sem st s \<Longrightarrow> tyimode (ttytab s i) = TY_IMCOOKED \<Longrightarrow> fits (ttytab s i) rx st \<Longrightarrow> ndefers s = 1
   \<Longrightarrow> (tyeof (ttytab s i) \<Longrightarrow> tyeofch (ttytab s i) \<notin> set rx) \<Longrightarrow> tyeofch (ttytab s i) \<noteq> TY_NEWLINE
   \<Longrightarrow> \<exists>s'. receive_loop rx i csr s = Ret s' () \<and> console i sem (fold (line_step (ttytab s i)) rx st) s'
     \<and> settings (ttytab s' i) = settings (ttytab s i)
     \<and> core s' = count_by sem (int (length (fst (fold (line_step (ttytab s i)) rx st))) - int (length (fst st))) (core s)"
proof (induction rx arbitrary: st s)
  case Nil
  then show ?case by simp
next
  case (Cons c rx)
  let ?st1 = "line_step (ttytab s i) c st"
  have "\<not> (c = tyeofch (ttytab s i) \<and> tyeof (ttytab s i))" using Cons.prems(5) by auto
  then obtain s1 where s1: "ttyhandle_in c i csr s = Ret s1 ()" "console i sem ?st1 s1"
    "settings (ttytab s1 i) = settings (ttytab s i)"
    "core s1 = count_by sem (int (length (fst ?st1)) - int (length (fst st))) (core s)"
    using handle_in_input [OF Cons.prems(1,2) _ Cons.prems(4) _ Cons.prems(6), of c csr] Cons.prems(3) by auto
  note cg = settings_cong [OF s1(3)]
  have nd: "ndefers s1 = 1" using arg_cong [OF s1(4), of ndefers] Cons.prems(4) by simp
  have eo: "tyeof (ttytab s1 i) = tyeof (ttytab s i)" "tyeofch (ttytab s1 i) = tyeofch (ttytab s i)"
    using s1(3) by (simp_all add: settings_def)
  have "\<exists>s'. receive_loop rx i csr s1 = Ret s' () \<and> console i sem (fold (line_step (ttytab s1 i)) rx ?st1) s'
     \<and> settings (ttytab s' i) = settings (ttytab s1 i)
     \<and> core s' = count_by sem (int (length (fst (fold (line_step (ttytab s1 i)) rx ?st1))) - int (length (fst ?st1))) (core s1)"
    by (rule Cons.IH [OF s1(2) _ _ nd]) (use Cons.prems cg eo in simp_all)
  then obtain s' where s': "receive_loop rx i csr s1 = Ret s' ()" "console i sem (fold (line_step (ttytab s i)) rx ?st1) s'"
     "settings (ttytab s' i) = settings (ttytab s1 i)"
     "core s' = count_by sem (int (length (fst (fold (line_step (ttytab s i)) rx ?st1))) - int (length (fst ?st1))) (core s1)"
    unfolding cg(1) by blast
  have "core s' = count_by sem (int (length (fst (fold (line_step (ttytab s i)) rx ?st1))) - int (length (fst st))) (core s)"
    unfolding s'(4) s1(4) upd_sem_upd_sem by (rule arg_cong [of _ _ "\<lambda>n. count_by sem n (core s)"]) simp
  then show ?case using s1(1,3) s' by simp
qed

section \<open>The receive interrupt\<close>

lemma console_device: "dvminor (dentry_of 0) = 0" "console_csr = 0x3f8"
  by (simp_all add: console_csr_def dentry_of_def devtab_def devtab_devices_def dentry.make_def)

lemma defer_undone:
  "ndefers c = 0 \<Longrightarrow> (upd_sem j f (c\<lparr>ndefers := 1, attempt := False\<rparr>))\<lparr>ndefers := 0\<rparr> = (upd_sem j f c)\<lparr>attempt := False\<rparr>"
  by (cases c) (simp add: upd_sem_def)

text \<open>The modes \<^verbatim>\<open>ttyinit\<close> sets.\<close>

definition ttyinit_modes :: "ttycblk \<Rightarrow> bool" where
  "ttyinit_modes t \<longleftrightarrow> tyimode t = TY_IMCOOKED \<and> tyiecho t \<and> tyieback t \<and> tyevis t \<and> tyecrlf t \<and> tyicrlf t \<and> tyierase t
     \<and> tyierasec t = TY_BACKSP \<and> tyierasec2 t = TY_BACKSP2 \<and> tyeof t \<and> tyeofch t = TY_EOFCH \<and> tyikill t
     \<and> tyikillc t = TY_KILLCH \<and> tyoflow t \<and> tyostop t = TY_STOPCH \<and> tyostart t = TY_STRTCH"

lemma ttyinit_console:
  assumes "nextsem s = 0" "sstate (semtab s 0) = S_FREE" "sstate (semtab s 1) = S_FREE"
  shows "console 0 0 ([], []) (fst (ttyinit fnaddr (dentry_of 0) s))" "ttyinit_modes (ttytab (fst (ttyinit fnaddr (dentry_of 0) s)) 0)"
proof -
  have n: "nat 100 = Suc 99" by simp
  have c0: "semcreate 0 s1 = (upd_sem 0 (\<lambda>e. e\<lparr>sstate := S_USED, scount := 0\<rparr>) (s1\<lparr>nextsem := 1\<rparr>), 0)"
    if "nextsem s1 = 0" "sstate (semtab s1 0) = S_FREE" for s1
    unfolding semcreate_def newsem_def n newsem_loop.simps(2) Let_def using that by (simp add: upd_sem_def)
  have c1: "semcreate 64 s1 = (upd_sem 1 (\<lambda>e. e\<lparr>sstate := S_USED, scount := 64\<rparr>) (s1\<lparr>nextsem := 2\<rparr>), 1)"
    if "nextsem s1 = 1" "sstate (semtab s1 1) = S_FREE" for s1
    unfolding semcreate_def newsem_def n newsem_loop.simps(2) Let_def using that by (simp add: upd_sem_def)
  let ?s1 = "upd_tty 0 (\<lambda>t. t\<lparr>tyihead := 0, tyitail := 0\<rparr>) s"
  let ?s2 = "upd_sem 0 (\<lambda>e. e\<lparr>sstate := S_USED, scount := 0\<rparr>) (?s1\<lparr>nextsem := 1\<rparr>)"
  let ?s3 = "upd_tty 0 (\<lambda>t. t\<lparr>tyisem := 0, tyohead := 0, tyotail := 0\<rparr>) ?s2"
  have s2: "semcreate 0 ?s1 = (?s2, 0)" by (rule c0) (use assms in \<open>simp_all add: upd_tty_def\<close>)
  let ?s4 = "upd_sem 1 (\<lambda>e. e\<lparr>sstate := S_USED, scount := 64\<rparr>) (?s3\<lparr>nextsem := 2\<rparr>)"
  have s4: "semcreate 64 ?s3 = (?s4, 1)" by (rule c1) (use assms in \<open>simp_all add: upd_tty_def upd_sem_def\<close>)
  have ev: "ttytab (set_evec x h s) = ttytab s" "semtab (set_evec x h s) = semtab s" for x h s
    by (simp_all add: set_evec_def setirmask_def outb_def Let_def)
  have ob: "semtab (outb p v s) = semtab s" for p v s by (simp add: outb_def)
  show "console 0 0 ([], []) (fst (ttyinit fnaddr (dentry_of 0) s))"
    by (simp add: ttyinit_def Let_def console_device s2 s4 ev ob ttykickout_def console_def tty_input_def tty_ring_def idle_sem_def
        isbadsem_def)
  show "ttyinit_modes (ttytab (fst (ttyinit fnaddr (dentry_of 0) s)) 0)"
    by (simp add: ttyinit_def Let_def console_device s2 s4 ev ttykickout_def ttyinit_modes_def)
qed

text \<open>
  C38. A receive interrupt of the console, in cooked mode with nobody waiting to read, with room for
  the characters that arrived, and, when the terminal has an end-of-file character, without it among
  them (C40 shows what that one can do) and with that character not set to newline, edits the input the way the line
  editor does: every character is applied in order (flow control, kill, erase, end of line, full
  buffer, or stored), the characters of ended lines can be read and are counted by the semaphore,
  and nothing but the terminal, the device and that count changes.
\<close>

theorem interrupt_edits_lines:
  assumes "kinv {} s" "console 0 sem st s" "tyimode (ttytab s 0) = TY_IMCOOKED" "fits (ttytab s 0) rx st"
    and "tyeof (ttytab s 0) \<longrightarrow> tyeofch (ttytab s 0) \<notin> set rx" "tyeofch (ttytab s 0) \<noteq> TY_NEWLINE"
    and "iir AND 0x0F = 0x04 \<or> iir AND 0x0F = 0x0C"
  shows "\<exists>s'. ttyhandler iir ier rx s = Ret s' () \<and> kinv {} s' \<and> console 0 sem (fold (line_step (ttytab s 0)) rx st) s'
    \<and> settings (ttytab s' 0) = settings (ttytab s 0)
    \<and> core s' = (count_by sem (int (length (fst (fold (line_step (ttytab s 0)) rx st))) - int (length (fst st))) (core s))\<lparr>attempt := False\<rparr>"
proof -
  let ?s1 = "s\<lparr>ndefers := 1, attempt := False\<rparr>" and ?st = "fold (line_step (ttytab s 0)) rx st"
  have "ttytab ?s1 = ttytab s" "console 0 sem st ?s1" using assms(2) by (simp_all add: console_def idle_sem_def)
  then obtain s2 where s2: "receive_loop rx 0 0x3f8 ?s1 = Ret s2 ()" "console 0 sem ?st s2"
    "settings (ttytab s2 0) = settings (ttytab s 0)"
    "core s2 = count_by sem (int (length (fst ?st)) - int (length (fst st))) (core ?s1)"
    using receive_input [of 0 sem st ?s1 rx "0x3f8"] assms(3-6) by auto
  have nd: "ndefers s = 0" by (rule kinv_nd [OF assms(1)])
  have s2d: "ndefers s2 = 1" "\<not> attempt s2"
    using arg_cong [OF s2(4), of ndefers] arg_cong [OF s2(4), of attempt] by (simp_all add: upd_sem_def core_def)
  let ?s' = "s2\<lparr>ndefers := 0\<rparr>"
  have iir: "iir AND 0x01 = 0" "iir AND 0x0E = 0x04 \<or> iir AND 0x0E = 0x0C"
  proof -
    have "iir AND 0x01 = (iir AND 0x0F) AND 0x01" "iir AND 0x0E = (iir AND 0x0F) AND 0x0E" by (simp_all add: and.assoc)
    then show "iir AND 0x01 = 0" "iir AND 0x0E = 0x04 \<or> iir AND 0x0E = 0x0C" using assms(7) by auto
  qed
  have run: "ttyhandler iir ier rx s = Ret ?s' ()"
    by (rule disjE [OF iir(2)])
      (use iir(1) s2(1) s2d defer_start [OF nd] in \<open>simp add: ttyhandler_def console_device Let_def resched_cntl_def\<close>)+
  have "mine {} (currpid s) s" using assms(1) by (simp add: mine_def)
  then have "kinv {} ?s'" using ttyhandler_safe [of "{}" "currpid s" s iir ier rx] run by (simp add: mine_def)
  moreover have "console 0 sem ?st ?s'" using s2(2) by (simp add: console_def idle_sem_def)
  moreover have "core ?s' = (count_by sem (int (length (fst ?st)) - int (length (fst st))) (core s))\<lparr>attempt := False\<rparr>"
    unfolding core_simps s2(4) by (rule defer_undone) (use nd in simp)
  ultimately show ?thesis using run s2(3) by auto
qed

theorem interrupt_edits_lines_witness:
  "\<exists>s s' ls. kinv {} s \<and> ttyhandler 0x04 0 [104, 8, 105, 33, 13, 97] s = Ret s' () \<and> ls = ([105, 33, 10], [97]) \<and> console 0 0 ls s'"
proof -
  obtain s0 where s0: "sysinit KEND kst0 = Some s0" by (rule sysinit_boot)
  have q: "nextqid kst0 = NPROC" by (simp add: kst0_def)
  note k = sysinit_kinv [OF q s0]
  have f: "nextsem s0 = 0" "sstate (semtab s0 0) = S_FREE" "sstate (semtab s0 1) = S_FREE"
    using sysinit_nextsem [OF s0] k(5) [of 0] k(5) [of 1] by (simp_all add: kst0_def)
  let ?s = "fst (ttyinit (\<lambda>f. 0x1000) (dentry_of 0) s0)"
  have m: "mine {} (currpid s0) ?s" using ttyinit_mine k(1) by (simp add: mine_def)
  note c = ttyinit_console [OF f, of "\<lambda>f. 0x1000"]
  let ?rx = "[104, 8, 105, 33, 13, 97] :: u8 list"
  have md: "tyimode (ttytab ?s 0) = TY_IMCOOKED" "tyeofch (ttytab ?s 0) = TY_EOFCH" using c(2) by (simp_all add: ttyinit_modes_def)
  have e: "fold (line_step (ttytab ?s 0)) ?rx ([], []) = ([105, 33, 10], [97])" "fits (ttytab ?s 0) ?rx ([], [])"
    using c(2) by (simp_all add: line_step_def cooked_step_def ttyinit_modes_def)
  have k': "kinv {} ?s" using m by (simp add: mine_def)
  obtain s' where "ttyhandler 0x04 0 ?rx ?s = Ret s' ()" "console 0 0 (fold (line_step (ttytab ?s 0)) ?rx ([], [])) s'"
    using interrupt_edits_lines [OF k' c(1) md(1) e(2), of "0x04" 0] md(2) by auto
  then show ?thesis using k' e(1) by (intro exI [of _ ?s] exI [of _ s']) simp
qed

section \<open>Reading a line\<close>

text \<open>The modes reading looks at.\<close>

definition read_modes :: "ttycblk \<Rightarrow> _" where
  "read_modes t = (tyimode t, tyeof t, tyeofch t)"

lemma getc_head:
  assumes c: "console (dvminor e) sem (x # cs, ls) s"
  obtains s' where "ttygetc e s = Ret s' (if tyimode (ttytab s (dvminor e)) = TY_IMCOOKED \<and> tyeof (ttytab s (dvminor e))
      \<and> x = tyeofch (ttytab s (dvminor e)) then EOF else sint x)"
    "console (dvminor e) sem (cs, ls) s'" "read_modes (ttytab s' (dvminor e)) = read_modes (ttytab s (dvminor e))" "kmem s' = kmem s"
proof -
  let ?i = "dvminor e"
  have t: "tty_ring (ttytab s ?i) (x # cs @ ls)" "tyicursor (ttytab s ?i) = int (length ls)" "tyisem (ttytab s ?i) = sem"
      "idle_sem sem s" "scount (semtab s sem) = int (Suc (length cs))"
    using c by (simp_all add: console_def tty_input_def)
  have h: "0 \<le> tyihead (ttytab s ?i)" "tyihead (ttytab s ?i) < 128" "length (x # cs @ ls) \<le> 128"
    "tyitail (ttytab s ?i) = (tyihead (ttytab s ?i) + int (length (x # cs @ ls))) mod 128"
    using t(1) by (simp_all add: tty_ring_def)
  have r: "tyibuff (ttytab s ?i) (tyihead (ttytab s ?i)) = x" "ring 128 (tyibuff (ttytab s ?i)) ((tyihead (ttytab s ?i) + 1) mod 128) (cs @ ls)"
    using t(1) h(1,2) unfolding tty_ring_def ring_head by simp_all
  have w: "wait sem s = Ret (count_by sem (- 1) s) OK" by (rule wait_idle [OF t(4)]) (use t(5) h(3) in simp_all)
  let ?s' = "upd_tty ?i (\<lambda>t. if tyihead t \<ge> TY_IBUFLEN then t\<lparr>tyihead := 0\<rparr> else t)
    (upd_tty ?i (\<lambda>t. t\<lparr>tyihead := tyihead t + 1\<rparr>) (count_by sem (- 1) s))"
  have hd: "tyihead (ttytab ?s' ?i) = (tyihead (ttytab s ?i) + 1) mod 128"
    using wrap_up [OF h(1,2)] by (auto split: if_splits)
  have "tyitail (ttytab s ?i) = ((tyihead (ttytab s ?i) + 1) mod 128 + int (length (cs @ ls))) mod 128"
    unfolding h(4) by (simp only: mod_add_left_eq) (simp add: add_ac)
  then have "tty_ring (ttytab ?s' ?i) (cs @ ls)" using r(2) h(3) hd by (simp add: tty_ring_def)
  moreover have "tyicursor (ttytab ?s' ?i) = int (length ls)" "tyisem (ttytab ?s' ?i) = sem" using t(2,3) by simp_all
  moreover have "idle_sem sem ?s'" "scount (semtab ?s' sem) = int (length cs)" using t(4,5) by (simp_all add: idle_sem_def)
  ultimately have "console ?i sem (cs, ls) ?s'" by (simp add: console_def tty_input_def)
  moreover have "read_modes (ttytab ?s' ?i) = read_modes (ttytab s ?i)" by (simp add: read_modes_def)
  moreover have "kmem ?s' = kmem s" by (simp add: kmem_def upd_tty_def upd_sem_def)
  moreover have "ttygetc e s = Ret ?s' (if tyimode (ttytab s ?i) = TY_IMCOOKED \<and> tyeof (ttytab s ?i)
      \<and> x = tyeofch (ttytab s ?i) then EOF else sint x)"
    using t(3) w r(1) by (auto simp: ttygetc_def Let_def)
  ultimately show thesis by (rule that [rotated])
qed

lemma store_char_simps [simp]:
  "console i sem st (store_char a c s) = console i sem st s" "ttytab (store_char a c s) = ttytab s"
  "kmem (store_char a c s) = (kmem s)(a := word_of_int c)"
  by (simp_all add: console_def idle_sem_def store_char_def set_kmem_def kmem_def)

abbreviation eol :: "u8 \<Rightarrow> bool" where
  "eol c \<equiv> c = TY_NEWLINE \<or> c = TY_RETURN"

text \<open>The rest of a line, whose last character is the only one that ends it.\<close>

lemma read_rest:
  "console (dvminor e) sem (l @ rest, ls) s \<Longrightarrow> tyimode (ttytab s (dvminor e)) = TY_IMCOOKED
   \<Longrightarrow> (tyeof (ttytab s (dvminor e)) \<Longrightarrow> tyeofch (ttytab s (dvminor e)) \<notin> set l)
   \<Longrightarrow> eol (last (ch # l)) \<Longrightarrow> (\<And>c. c \<in> set (butlast (ch # l)) \<Longrightarrow> \<not> eol c)
   \<Longrightarrow> \<exists>s'. ttyread_line k e ch buff n s = Ret s' (n + int (min k (length l)))
     \<and> console (dvminor e) sem (drop k l @ rest, ls) s' \<and> kmem s' = put (kmem s) buff (take k l)"
proof (induction k arbitrary: ch l buff n s)
  case 0
  then show ?case by auto
next
  case (Suc k)
  show ?case
  proof (cases l)
    case Nil
    then have "eol ch" using Suc.prems(4) by simp
    then show ?thesis using Suc.prems(1) Nil by auto
  next
    case (Cons x xs)
    then have ne: "\<not> eol ch" using Suc.prems(5) [of ch] by simp
    have nx: "\<not> (tyeof (ttytab s (dvminor e)) \<and> x = tyeofch (ttytab s (dvminor e)))" using Suc.prems(3) Cons by auto
    obtain s1 where s1: "ttygetc e s = Ret s1 (if tyimode (ttytab s (dvminor e)) = TY_IMCOOKED \<and> tyeof (ttytab s (dvminor e))
        \<and> x = tyeofch (ttytab s (dvminor e)) then EOF else sint x)"
      "console (dvminor e) sem (xs @ rest, ls) s1" "read_modes (ttytab s1 (dvminor e)) = read_modes (ttytab s (dvminor e))"
      "kmem s1 = kmem s"
      by (rule getc_head [of e sem x "xs @ rest" ls s]) (use Suc.prems(1) Cons in simp)
    have g: "ttygetc e s = Ret s1 (sint x)" using s1(1) nx by auto
    let ?s2 = "store_char buff (sint x) s1"
    have "\<exists>s'. ttyread_line k e x (buff + 1) (n + 1) ?s2 = Ret s' (n + 1 + int (min k (length xs)))
     \<and> console (dvminor e) sem (drop k xs @ rest, ls) s' \<and> kmem s' = put (kmem ?s2) (buff + 1) (take k xs)"
      by (rule Suc.IH) (use Suc.prems s1(2,3) Cons in \<open>auto simp: read_modes_def split: if_splits\<close>)
    then show ?thesis using ne g s1(4) Cons by (auto simp: add_ac)
  qed
qed

text \<open>
  C39. \<^verbatim>\<open>ttyread\<close> in cooked mode, when the next line has been ended: it returns the line with
  the character that ended it, or as much as was asked for (at least one character), stores exactly
  those bytes, and leaves the rest of the line, the following lines and the line being typed for
  later. The end-of-file character, when the terminal has one, is not in the line, and the line's first
  character is not 0xFE, which as a signed character is the code of the end-of-file result.
\<close>

theorem ttyread_returns_line:
  assumes "kinv {} s" "currpid s \<noteq> NULLPROC" "console 0 sem (l @ [c] @ rest, ls) s" "tyimode (ttytab s 0) = TY_IMCOOKED"
    and "eol c" "\<forall>x\<in>set l. \<not> eol x" "tyeof (ttytab s 0) \<longrightarrow> tyeofch (ttytab s 0) \<notin> set (l @ [c])" "hd (l @ [c]) \<noteq> 0xFE"
    and "0 \<le> n" "k = max 1 (nat n)"
  shows "\<exists>s'. ttyread (dentry_of 0) buff n s = Ret s' (int (min k (length l + 1))) \<and> kinv {} s'
    \<and> kmem s' = put (kmem s) buff (take k (l @ [c])) \<and> console 0 sem (drop k (l @ [c]) @ rest, ls) s'"
proof -
  let ?e = "dentry_of 0"
  have i: "dvminor ?e = 0" by (rule console_device(1))
  obtain x xs where lx: "l @ [c] = x # xs" by (cases "l @ [c]") auto
  have lr: "l @ [c] @ rest = x # xs @ rest" using arg_cong [OF lx, of "\<lambda>l. l @ rest"] by simp
  obtain s1 where s1: "ttygetc ?e s = Ret s1 (if tyimode (ttytab s 0) = TY_IMCOOKED \<and> tyeof (ttytab s 0)
      \<and> x = tyeofch (ttytab s 0) then EOF else sint x)"
    "console 0 sem (xs @ rest, ls) s1" "read_modes (ttytab s1 0) = read_modes (ttytab s 0)" "kmem s1 = kmem s"
    by (rule getc_head [of ?e sem x "xs @ rest" ls s, unfolded i]) (rule assms(3) [unfolded lr])
  have g: "ttygetc ?e s = Ret s1 (sint x)" using s1(1) assms(7) lx by auto
  have "sint x \<noteq> EOF"
  proof
    assume "sint x = - 2"
    then have "word_of_int (sint x) = (word_of_int (- 2) :: u8)" by simp
    then show False using assms(8) lx by simp
  qed
  moreover obtain j where j: "k = Suc j" "nat (n - 1) = j" using assms(9,10) by (cases "nat n") auto
  have bl: "set (butlast (x # xs)) = set l" "last (x # xs) = c" using arg_cong [OF lx, of butlast] arg_cong [OF lx, of last] by simp_all
  let ?s2 = "store_char buff (sint x) s1"
  have "\<exists>s'. ttyread_line j ?e x (buff + 1) 1 ?s2 = Ret s' (1 + int (min j (length xs)))
     \<and> console (dvminor ?e) sem (drop j xs @ rest, ls) s' \<and> kmem s' = put (kmem ?s2) (buff + 1) (take j xs)"
    by (rule read_rest) (use s1(2,3) assms(4-7) bl lx i in \<open>auto simp: read_modes_def\<close>)
  then obtain s' where s': "ttyread_line j ?e x (buff + 1) 1 ?s2 = Ret s' (1 + int (min j (length xs)))"
    "console 0 sem (drop j xs @ rest, ls) s'" "kmem s' = put ((kmem s)(buff := x)) (buff + 1) (take j xs)"
    using s1(4) i by auto
  moreover have "length l + 1 = Suc (length xs)" using arg_cong [OF lx, of length] by simp
  ultimately have run: "ttyread ?e buff n s = Ret s' (int (min k (length l + 1)))"
    using g assms(4,9) i j by (simp add: ttyread_def Let_def)
  have "mine {} (currpid s) s" using assms(1) by (simp add: mine_def)
  then have "kinv {} s'" using ttyread_safe [of "{}" "currpid s" s ?e buff n] assms(2) run by (simp add: mine_def)
  then show ?thesis using run s'(2,3) j(1) lx by (intro exI [of _ s']) simp
qed

theorem ttyread_returns_line_witness:
  "\<exists>s s'. ttyread (dentry_of 0) 0x9000 80 s = Ret s' 3 \<and> kmem s' = put (kmem s) 0x9000 [104, 105, 10]
     \<and> console 0 0 ([98, 121, 101, 10], [120]) s'"
proof -
  obtain s where s: "kinv {} s" "currpid s = 1" "asem (kabs s) 0 = (S_USED, 7, [])" by (rule counted_sample [of 7]) simp_all
  note sem = counted_sem [OF s(3)]
  define xs :: "u8 list" where "xs = [104, 105, 10, 98, 121, 101, 10, 120]"
  let ?t = "tty0\<lparr>tyitail := 8, tyibuff := (\<lambda>i. xs ! nat i), tyisem := 0, tyicursor := 1, tyimode := TY_IMCOOKED\<rparr>"
  let ?s = "upd_tty 0 (\<lambda>_. ?t) s"
  have "ring 128 (\<lambda>i. xs ! nat i) 0 xs" by (simp add: ring_def xs_def)
  then have "tty_ring ?t xs" by (simp add: tty_ring_def tty0_def xs_def)
  moreover have "xs = [104, 105] @ [10] @ [98, 121, 101, 10] @ [120]" by (simp add: xs_def)
  ultimately have "tty_input ?t ([104, 105] @ [10] @ [98, 121, 101, 10], [120])" by (simp add: tty_input_def)
  then have c: "console 0 0 ([104, 105] @ [10] @ [98, 121, 101, 10], [120]) ?s"
    using sem by (simp add: console_def idle_sem_def)
  have "mine {} 1 s" using s(1,2) by (simp add: mine_def)
  then have "mine {} 1 ?s" by simp
  then have k: "kinv {} ?s" "currpid ?s \<noteq> NULLPROC" by (simp_all add: mine_def)
  have "max 1 (nat 80) = 80" by simp
  then obtain s' where "ttyread (dentry_of 0) 0x9000 80 ?s = Ret s' (int (min 80 (length [104 :: u8, 105] + 1)))"
    "kmem s' = put (kmem ?s) 0x9000 (take 80 ([104, 105] @ [10]))" "console 0 0 (drop 80 ([104, 105] @ [10]) @ [98, 121, 101, 10], [120]) s'"
    using ttyread_returns_line [OF k c, of 80 80 "0x9000"] by (auto simp: tty0_def)
  then show ?thesis by (intro exI [of _ ?s] exI [of _ s']) simp
qed

section \<open>The end of file in the last slot\<close>

text \<open>
  C40. After an end of file the code does not wrap the pointer, so when the character went into the last
  slot of the buffer the next character is stored behind it.
\<close>

theorem eof_overruns_buffer:
  assumes "ttyinit_modes (ttytab s i)" "console i sem (cs, []) s" "length cs < 126" "tyitail (ttytab s i) = 127"
    and "32 \<le> sint c" "c \<noteq> 127"
  shows "\<exists>s' s''. ttyhandle_in TY_EOFCH i csr s = Ret s' () \<and> scount (semtab s' sem) = scount (semtab s sem) + 1
    \<and> ttyhandle_in c i csr s' = Stop Undefined s''"
proof -
  let ?t = "ttytab s i"
  have m: "tyimode ?t = 67" "tyiecho ?t" "tyevis ?t" "tyecrlf ?t" "tyicrlf ?t" "tyierase ?t" "tyierasec ?t = 8" "tyierasec2 ?t = 127" "tyeof ?t"
    "tyeofch ?t = 4" "tyikill ?t" "tyikillc ?t = 21" "tyoflow ?t" "tyostop ?t = 19" "tyostart ?t = 17"
    using assms(1) by (simp_all add: ttyinit_modes_def)
  have c: "tyisem ?t = sem" "idle_sem sem s" "scount (semtab s sem) = int (length cs)" "tyicursor ?t = 0"
    using assms(2) by (simp_all add: console_def tty_input_def)
  let ?s1 = "upd_tty i (\<lambda>t. t\<lparr>tyoheld := False\<rparr>) s"
  let ?s2 = "echoch 4 i csr ?s1"
  have p: "in_part (ttytab ?s2 i) = in_part (ttytab ?s1 i)" "core ?s2 = core s" by simp_all
  let ?s3 = "upd_tty i (\<lambda>t. t\<lparr>tyibuff := (tyibuff t)(tyitail t := 4), tyitail := tyitail t + 1\<rparr>) ?s2"
  note ip = in_partD [OF p(1)]
  have tl: "tyitail (ttytab ?s2 i) = 127" "tyicursor (ttytab ?s2 i) = 0" "tyisem (ttytab ?s2 i) = sem" using ip assms(4) c by simp_all
  have i3: "idle_sem sem ?s3" "scount (semtab ?s3 sem) = int (length cs)"
    using c(2,3) core_eq(1) [OF p(2)] by (simp_all add: idle_sem_def)
  have sg: "signal sem ?s3 = Ret (count_by sem 1 ?s3) OK" by (rule signal_idle [OF i3(1)]) (use i3(2) assms(3) in simp)
  have av: "tty_avail i ?s1 = int (length cs)" using c by (simp add: tty_avail_def semcount_def idle_sem_def)
  have "tty_cooked 4 i csr ?s1 = Ret (count_by sem 1 ?s3) ()"
    using m c(4) av assms(3) tl sg by (simp add: tty_cooked_def tty_store_def Let_def)
  then have h: "ttyhandle_in TY_EOFCH i csr s = Ret (count_by sem 1 ?s3) ()" using m by (simp add: ttyhandle_in_def Let_def)
  let ?s4 = "upd_tty i (\<lambda>t. t\<lparr>tyoheld := False\<rparr>) (count_by sem 1 ?s3)"
  have f: "settings (ttytab (count_by sem 1 ?s3) i) = settings ?t" using ip(1) by (simp add: settings_def)
  define t4 where "t4 = ttytab ?s4 i"
  have m4: "tyimode t4 = 67" "tyierasec t4 = 8" "tyierasec2 t4 = 127" "tyeofch t4 = 4" "tyikillc t4 = 21"
    using f m by (simp_all add: settings_def t4_def)
  have o4: "tyostop (ttytab (count_by sem 1 ?s3) i) = 19" "tyostart (ttytab (count_by sem 1 ?s3) i) = 17"
    "tyimode (ttytab (count_by sem 1 ?s3) i) = 67" using f m by (simp_all add: settings_def)
  have t4: "tyitail t4 = 128" "tyicursor t4 = 0" "tyisem t4 = sem" using tl by (simp_all add: t4_def)
  have av4: "tty_avail i ?s4 = int (length cs) + 1"
    using t4(3) i3 by (simp add: tty_avail_def semcount_def idle_sem_def t4_def)
  have nc: "c \<noteq> 13" "c \<noteq> 17" "c \<noteq> 19" "c \<noteq> 21" "c \<noteq> 8" "c \<noteq> 10" "c \<noteq> 4" using assms(5) by auto
  have k: "\<not> (c = tyikillc t4 \<and> tyikill t4)" "\<not> ((c = tyierasec t4 \<or> c = tyierasec2 t4) \<and> tyierase t4)"
    "\<not> (c = TY_NEWLINE \<or> c = TY_RETURN)" "\<not> tty_avail i ?s4 + tyicursor t4 \<ge> TY_IBUFLEN - 1" "\<not> (c = tyeofch t4 \<and> tyeof t4)"
    using nc assms(3,6) m4 av4 t4(2) by simp_all
  let ?s5 = "upd_tty i (\<lambda>t. t\<lparr>tyicursor := tyicursor t + 1\<rparr>) (if tyiecho t4 then echoch c i csr ?s4 else ?s4)"
  have "tyitail (ttytab ?s5 i) = 128" using in_partD(2) [OF echo_cond(1) [of "tyiecho t4" c i csr ?s4]] t4(1) by (simp add: t4_def)
  then have "tty_store c i ?s5 = Stop Undefined ?s5" by (simp add: tty_store_def)
  then have "tty_cooked c i csr ?s4 = Stop Undefined ?s5"
    unfolding tty_cooked_def Let_def t4_def [symmetric] if_not_P [OF k(1)] if_not_P [OF k(2)] if_not_P [OF k(3)] if_not_P [OF k(4)]
      if_not_P [OF k(5)] by simp
  then have "ttyhandle_in c i csr (count_by sem 1 ?s3) = Stop Undefined ?s5"
    using o4 nc by (simp add: ttyhandle_in_def Let_def)
  moreover have "scount (semtab (count_by sem 1 ?s3) sem) = scount (semtab s sem) + 1" using i3(2) c(3) by simp
  ultimately show ?thesis using h by blast
qed

theorem eof_overruns_buffer_witness:
  "\<exists>s s' s''. ttyhandle_in TY_EOFCH 0 0x3f8 s = Ret s' () \<and> ttyhandle_in 97 0 0x3f8 s' = Stop Undefined s''"
proof -
  let ?t = "tty0\<lparr>tyihead := 127, tyitail := 127, tyimode := 67, tyiecho := True, tyieback := True, tyevis := True, tyecrlf := True,
    tyicrlf := True, tyierase := True, tyierasec := 8, tyierasec2 := 127, tyeof := True, tyeofch := 4, tyikill := True,
    tyikillc := 21, tyoflow := True, tyostop := 19, tyostart := 17\<rparr>"
  let ?s = "kst0\<lparr>ttytab := (\<lambda>i. ?t), semtab := (\<lambda>i. \<lparr>sstate = S_USED, scount = 0, squeue = 0\<rparr>)\<rparr>"
  have "ttyinit_modes (ttytab ?s 0)" "tyitail (ttytab ?s 0) = 127" by (simp_all add: ttyinit_modes_def)
  moreover have "console 0 0 ([], []) ?s"
    by (simp add: console_def tty_input_def tty_ring_def idle_sem_def isbadsem_def tty0_def)
  moreover have "32 \<le> sint (97 :: u8)" "(97 :: u8) \<noteq> 127" by simp_all
  ultimately show ?thesis using eof_overruns_buffer [of ?s 0 0 "[]" 97 "0x3f8"] by auto
qed

end
