(* ===== verification/Lfsdisk.thy ===== *)
theory Lfsdisk
  imports Lfsdir
begin

text \<open>
  The RAM disk as sectors, and the sectors as what the file system puts into them: a structure
  written is read back, and writing one leaves the others alone.
\<close>

section \<open>Reading back what was written\<close>

lemma of_le32_take: "of_le32 (take 4 bs) = of_le32 bs"
  by (cases bs rule: of_le32.cases) (simp_all add: numeral_eq_Suc)

lemma of_le32_cong: "take 4 bs = take 4 bs' \<Longrightarrow> of_le32 bs = of_le32 bs'"
  by (metis of_le32_take)

lemma word_at_append: "length xs = k \<Longrightarrow> word_at (xs @ bs) k = of_le32 bs"
  by (simp add: word_at_def)

lemma word_at_0 [simp]: "word_at (le32 v @ bs) 0 = v"
  by (simp add: word_at_def)

lemma word_at_skip: "length xs \<le> k \<Longrightarrow> word_at (xs @ bs) k = word_at bs (k - length xs)"
  by (simp add: word_at_def)

lemma word_at_words: "k < length ws \<Longrightarrow> word_at (concat (map le32 ws) @ bs) (4 * k) = ws ! k"
proof (induction ws arbitrary: k)
  case (Cons w ws)
  then show ?case by (cases k) (simp_all add: word_at_skip)
qed simp

lemma length_words [simp]: "length (concat (map le32 ws)) = 4 * length ws"
  by (induction ws) simp_all

lemma length_ib_bytes: "length (ib_bytes b) = 8 + 4 * length (ib_dba b)"
  by (simp add: ib_bytes_def)

lemma ib_of_bytes:
  assumes "length (ib_dba b) = LF_IBLEN"
  shows "ib_of (ib_bytes b @ bs) = b"
proof -
  have "word_at (ib_bytes b @ bs) (8 + 4 * k) = ib_dba b ! k" if "k < 16" for k
    using word_at_words [of k "ib_dba b" bs] that assms by (simp add: ib_bytes_def word_at_skip)
  then have "map (\<lambda>k. word_at (ib_bytes b @ bs) (8 + 4 * k)) [0..<16] = ib_dba b"
    using assms by (intro nth_equalityI) simp_all
  then show ?thesis by (simp add: ib_of_def ib_bytes_def word_at_skip)
qed

lemma word_at_take: "k + 4 \<le> n \<Longrightarrow> word_at (take n bs) k = word_at bs k"
  unfolding word_at_def by (rule of_le32_cong) (simp add: drop_take min_def)

lemma ib_of_cong: "take 72 bs = take 72 bs' \<Longrightarrow> ib_of bs = ib_of bs'"
proof -
  assume "take 72 bs = take 72 bs'"
  then have "word_at bs k = word_at bs' k" if "k + 4 \<le> 72" for k
    using word_at_take [OF that, of bs] word_at_take [OF that, of bs'] by simp
  then show ?thesis by (simp add: ib_of_def)
qed

lemma length_ib_dba_of [simp]: "length (ib_dba (ib_of bs)) = LF_IBLEN"
  by (simp add: ib_of_def)

text \<open>The directory.\<close>

definition dir_shape :: "lfdir \<Rightarrow> bool" where
  "dir_shape D \<longleftrightarrow> length (lfd_files D) = 20 \<and> (\<forall>e\<in>set (lfd_files D). length (ld_name e) = LF_NAME_LEN)"

lemma length_ent_bytes: "length (ent_bytes e) = 8 + length (ld_name e)"
  by (simp add: ent_bytes_def)

lemma ent_of_bytes: "length (ld_name e) = LF_NAME_LEN \<Longrightarrow> ent_of (ent_bytes e @ bs) = e"
  by (simp add: ent_of_def ent_bytes_def word_at_skip)

lemma ents_at:
  "\<forall>e\<in>set es. length (ld_name e) = LF_NAME_LEN \<Longrightarrow> k < length es \<Longrightarrow>
   ent_of (drop (24 * k) (concat (map ent_bytes es) @ bs)) = es ! k"
proof (induction es arbitrary: k)
  case (Cons e es)
  then show ?case by (cases k) (simp_all add: ent_of_bytes length_ent_bytes)
qed simp

lemma length_ents: "\<forall>e\<in>set es. length (ld_name e) = LF_NAME_LEN \<Longrightarrow> length (concat (map ent_bytes es)) = 24 * length es"
  by (induction es) (simp_all add: length_ent_bytes)

lemma length_dir_bytes: "dir_shape D \<Longrightarrow> length (dir_bytes D) = LF_BLKSIZ"
  using length_ents [of "lfd_files D"] by (simp add: dir_shape_def dir_bytes_def)

lemma dir_of_bytes:
  assumes "dir_shape D"
  shows "dir_of (dir_bytes D) = D"
proof -
  have l: "length (lfd_files D) = 20" "\<forall>e\<in>set (lfd_files D). length (ld_name e) = LF_NAME_LEN"
    using assms by (simp_all add: dir_shape_def)
  have "drop (28 + 24 * k) (dir_bytes D) = drop (24 * k) (concat (map ent_bytes (lfd_files D)) @ le32 (lfd_revid D))" for k
    by (simp add: dir_bytes_def)
  then have "ent_of (drop (28 + 24 * k) (dir_bytes D)) = lfd_files D ! k" if "k < 20" for k
    using ents_at [OF l(2)] l(1) that by simp
  then have f: "map (\<lambda>k. ent_of (drop (28 + 24 * k) (dir_bytes D))) [0..<20] = lfd_files D"
    using l(1) by (intro nth_equalityI) simp_all
  have "word_at (dir_bytes D) 508 = lfd_revid D"
    using length_ents [OF l(2)] l(1) word_at_0 [of "lfd_revid D" "[]"] by (simp add: dir_bytes_def word_at_skip)
  then show ?thesis unfolding dir_of_def f by (simp add: dir_bytes_def word_at_skip)
qed

section \<open>Sectors\<close>

definition sector :: "fsys \<Rightarrow> nat \<Rightarrow> u8 list" where
  "sector f b = ram_bytes (512 * int b) f"

definition put_sector :: "nat \<Rightarrow> u8 list \<Rightarrow> fsys \<Rightarrow> fsys" where
  "put_sector b = ram_store (512 * int b)"

lemma length_sector [simp]: "length (sector f b) = LF_BLKSIZ"
  by (simp add: sector_def ram_bytes_def)

lemma sector_put:
  assumes "length bs = LF_BLKSIZ"
  shows "sector (put_sector b bs f) b' = (if b' = b then bs else sector f b')"
proof (cases "b' = b")
  case True
  then show ?thesis
    using assms by (intro nth_equalityI) (simp_all add: sector_def put_sector_def ram_bytes_def ram_store_def)
next
  case False
  have "\<not> (512 * int b \<le> 512 * int b' + int i \<and> 512 * int b' + int i < 512 * int b + 512)" if "i < 512" for i
    using False that by linarith
  note out = if_not_P [OF this]
  have "sector (put_sector b bs f) b' = sector f b'"
    by (intro nth_equalityI) (simp_all add: sector_def put_sector_def ram_bytes_def ram_store_def out del: de_Morgan_conj)
  then show ?thesis using False by simp
qed

definition dir_same :: "fsys \<Rightarrow> fsys \<Rightarrow> bool" where
  "dir_same f' f \<longleftrightarrow> f'\<lparr>ramdisk := ramdisk f\<rparr> = f"

lemma put_sector_simps [simp]:
  "lf_dskdev (put_sector b bs f) = lf_dskdev f" "lf_mutex (put_sector b bs f) = lf_mutex f" "lf_dir (put_sector b bs f) = lf_dir f"
  "lf_dirpresent (put_sector b bs f) = lf_dirpresent f" "lf_dirdirty (put_sector b bs f) = lf_dirdirty f"
  "lfltab (put_sector b bs f) = lfltab f"
  by (simp_all add: put_sector_def ram_store_def)

lemma sector_upd [simp]:
  "sector (f\<lparr>lf_dskdev := a\<rparr>) b = sector f b" "sector (f\<lparr>lf_mutex := c\<rparr>) b = sector f b" "sector (f\<lparr>lf_dir := D\<rparr>) b = sector f b"
  "sector (f\<lparr>lf_dirpresent := p\<rparr>) b = sector f b" "sector (f\<lparr>lf_dirdirty := p\<rparr>) b = sector f b" "sector (f\<lparr>lfltab := t\<rparr>) b = sector f b"
  by (simp_all add: sector_def ram_bytes_def)

text \<open>Index blocks, seven to a sector.\<close>

definition iblk :: "fsys \<Rightarrow> u32 \<Rightarrow> lfiblk" where
  "iblk f ib = ib_of (drop (72 * (unat ib mod 7)) (sector f (unat ib div 7 + 1)))"

definition put_iblk :: "u32 \<Rightarrow> lfiblk \<Rightarrow> fsys \<Rightarrow> fsys" where
  "put_iblk ib b f =
     (let k = 72 * (unat ib mod 7); S = sector f (unat ib div 7 + 1)
      in put_sector (unat ib div 7 + 1) (take k S @ ib_bytes b @ drop (k + 72) S) f)"

lemma iblk_upd [simp]:
  "iblk (f\<lparr>lf_dskdev := a\<rparr>) b = iblk f b" "iblk (f\<lparr>lf_mutex := c\<rparr>) b = iblk f b" "iblk (f\<lparr>lf_dir := D\<rparr>) b = iblk f b"
  "iblk (f\<lparr>lf_dirpresent := p\<rparr>) b = iblk f b" "iblk (f\<lparr>lf_dirdirty := p\<rparr>) b = iblk f b" "iblk (f\<lparr>lfltab := t\<rparr>) b = iblk f b"
  by (simp_all add: iblk_def)

lemma put_iblk_simps [simp]:
  "lf_dskdev (put_iblk b bs f) = lf_dskdev f" "lf_mutex (put_iblk b bs f) = lf_mutex f" "lf_dir (put_iblk b bs f) = lf_dir f"
  "lf_dirpresent (put_iblk b bs f) = lf_dirpresent f" "lf_dirdirty (put_iblk b bs f) = lf_dirdirty f"
  "lfltab (put_iblk b bs f) = lfltab f"
  by (simp_all add: put_iblk_def Let_def)

lemma length_spliced:
  assumes "length (ib_dba b) = LF_IBLEN" "k + 72 \<le> 512" "length S = LF_BLKSIZ"
  shows "length (take k S @ ib_bytes b @ drop (k + 72) S) = LF_BLKSIZ"
  using assms by (simp add: length_ib_bytes)

lemma mod7_room: "72 * (n mod 7) + 72 \<le> (512 :: nat)"
  using mod_less_divisor [of 7 n] by linarith

lemma sector_put_iblk:
  "length (ib_dba b) = LF_IBLEN \<Longrightarrow> sector (put_iblk ib b f) x =
     (if x = unat ib div 7 + 1
      then take (72 * (unat ib mod 7)) (sector f x) @ ib_bytes b @ drop (72 * (unat ib mod 7) + 72) (sector f x)
      else sector f x)"
  unfolding put_iblk_def Let_def by (subst sector_put) (simp_all add: length_ib_bytes mod7_room)

lemma iblk_put_same:
  assumes "length (ib_dba b) = LF_IBLEN"
  shows "iblk (put_iblk ib b f) ib = b"
proof -
  have "length (take (72 * (unat ib mod 7)) (sector f (unat ib div 7 + 1))) = 72 * (unat ib mod 7)"
    using mod7_room [of "unat ib"] by simp
  then show ?thesis using assms by (simp add: iblk_def sector_put_iblk ib_of_bytes)
qed

lemma splice_other:
  assumes "length B = 72" "k + 72 \<le> k' \<or> k' + 72 \<le> k" "k + 72 \<le> length S"
  shows "take 72 (drop k' (take k S @ B @ drop (k + 72) S)) = take 72 (drop k' S)"
  using assms(2)
proof
  assume "k + 72 \<le> k'"
  then show ?thesis using assms(1,3) by simp
next
  assume k: "k' + 72 \<le> k"
  have "drop k' (take k S @ B @ drop (k + 72) S) = take (k - k') (drop k' S) @ B @ drop (k + 72) S"
    using k assms(3) by (simp add: drop_take)
  then show ?thesis using k assms(3) by simp
qed

lemma iblk_put_other:
  assumes "length (ib_dba b) = LF_IBLEN" "ib' \<noteq> ib"
  shows "iblk (put_iblk ib b f) ib' = iblk f ib'"
proof (cases "unat ib' div 7 = unat ib div 7")
  case True
  have "unat ib' \<noteq> unat ib" using assms(2) by (simp add: word_unat_eq_iff)
  then have "unat ib' mod 7 \<noteq> unat ib mod 7" using True by (metis div_mult_mod_eq)
  then have k: "72 * (unat ib mod 7) + 72 \<le> 72 * (unat ib' mod 7) \<or> 72 * (unat ib' mod 7) + 72 \<le> 72 * (unat ib mod 7)" by linarith
  have "length (ib_bytes b) = 72" using assms(1) by (simp add: length_ib_bytes)
  then have e: "ib_of (drop (72 * (unat ib' mod 7)) (take (72 * (unat ib mod 7)) S @ ib_bytes b @ drop (72 * (unat ib mod 7) + 72) S))
      = ib_of (drop (72 * (unat ib' mod 7)) S)" if "length S = LF_BLKSIZ" for S
    using that mod7_room by (intro ib_of_cong splice_other k) simp_all
  show ?thesis unfolding iblk_def sector_put_iblk [OF assms(1)] True if_P [OF refl] by (rule e [OF length_sector])
qed (simp add: iblk_def sector_put_iblk assms(1))

lemma iblk_put_sector: "length bs = LF_BLKSIZ \<Longrightarrow> unat ib div 7 + 1 \<noteq> b \<Longrightarrow> iblk (put_sector b bs f) ib = iblk f ib"
  by (simp add: iblk_def sector_put)

lemma length_ib_dba_iblk [simp]: "length (ib_dba (iblk f ib)) = LF_IBLEN"
  by (simp add: iblk_def)

section \<open>The RAM disk behind the calls\<close>

definition is_ram :: "int \<Rightarrow> bool" where
  "is_ram dev \<longleftrightarrow> \<not> isbaddev dev \<and> dvread (dentry_of dev) = Ramread \<and> dvwrite (dentry_of dev) = Ramwrite"

lemma is_ram_RAM0: "is_ram 5"
  by (simp add: is_ram_def isbaddev_def dentry_of_def devtab_def devtab_devices_def dentry.make_def)

lemma sint_small: "unat (x :: u32) < 2147483648 \<Longrightarrow> sint x = int (unat x)"
  unfolding sint_uint by (simp add: signed_take_bit_int_eq_self uint_nat del: of_nat_unat)

lemma ram_inside_sector: "unat (blk :: u32) < 200 \<Longrightarrow> ram_inside (512 * int (unat blk))"
  by (simp add: ram_inside_def del: of_nat_unat)

lemma bread_ram: "is_ram dev \<Longrightarrow> unat blk < 200 \<Longrightarrow> bread (ram_drv rest) dev blk s = Ret s (OK, Some (sector (lfs s) (unat blk)))"
  by (simp add: is_ram_def bread_def ram_drv_def ramread_def sint_small ram_inside_sector sector_def Let_def
      del: of_nat_unat)

lemma bwrite_ram:
  "is_ram dev \<Longrightarrow> unat blk < 200 \<Longrightarrow> bwrite (ram_drv rest) dev bs blk s = Ret (upd_lfs (put_sector (unat blk) bs) s) OK"
  by (simp add: is_ram_def bwrite_def ram_drv_def ramwrite_def sint_small ram_inside_sector put_sector_def Let_def
      del: of_nat_unat)

text \<open>The index blocks of a disk of 200 sectors.\<close>

lemma sdiv7: "int n sdiv 7 = int (n div 7)" "int n smod 7 = int (n mod 7)"
  by (simp_all add: signed_divide_int_def signed_modulo_int_def zdiv_int zmod_int sgn_if)

lemma ib_place:
  assumes "unat ib < 1393"
  shows "unat (ib2sect ib) = unat ib div 7 + 1" "ib2disp ib = int (72 * (unat ib mod 7))" "unat ib div 7 + 1 < 200"
proof -
  have s: "sint ib = int (unat ib)" using assms by (simp add: sint_small del: of_nat_unat)
  have "ib2sect ib = of_nat (unat ib div 7 + 1)"
    unfolding ib2sect_def s sdiv7 by (metis of_int_of_nat_eq of_nat_1 of_nat_add)
  moreover have "unat ib div 7 + 1 < 2 ^ LENGTH(32)" using assms by simp
  ultimately show "unat (ib2sect ib) = unat ib div 7 + 1" by (simp only: unat_of_nat mod_less)
  show "ib2disp ib = int (72 * (unat ib mod 7))" unfolding ib2disp_def s sdiv7 by simp
  show "unat ib div 7 + 1 < 200" using assms by linarith
qed

lemma ib_disp_nat: "unat ib < 1393 \<Longrightarrow> nat (ib2disp ib) = 72 * (unat ib mod 7)" "unat ib < 1393 \<Longrightarrow> \<not> ib2disp ib < 0"
  by (simp_all only: ib_place(2) nat_int of_nat_less_0_iff not_False_eq_True)

lemma lfibget_ram: "is_ram dev \<Longrightarrow> unat ib < 1393 \<Longrightarrow> lfibget (ram_drv rest) dev ib s = Ret s (iblk (lfs s) ib)"
  using ib_place(1,3) [of ib] ib_disp_nat [of ib] by (simp add: lfibget_def bread_ram iblk_def)

lemma lfibput_ram:
  "is_ram dev \<Longrightarrow> unat ib < 1393 \<Longrightarrow> lfibput (ram_drv rest) dev ib b s = Ret (upd_lfs (put_iblk ib b) s) OK"
  using ib_place(1,3) [of ib] ib_disp_nat [of ib]
  by (simp add: lfibput_def bread_ram bwrite_ram Let_def put_iblk_def upd_lfs_def)

end
