(* ===== verification/Lfsrep.thy ===== *)
theory Lfsrep
  imports Lfsdisk Frames
begin

text \<open>
  What the blocks of a disk and of the open files' buffers represent. The blocks of each file and
  the two free lists are the ghost state \<open>lfmap\<close>; \<open>layout\<close> says that index blocks, data blocks,
  directory and buffers agree with it, and the lemmas say so of every step of \<^verbatim>\<open>lfsetup\<close>.
\<close>

section \<open>Representation\<close>

definition nth_or :: "u32 list \<Rightarrow> nat \<Rightarrow> u32" where
  "nth_or xs k = (if k < length xs then xs ! k else - 1)"

definition file_iblk :: "u32 list \<Rightarrow> u32 list \<Rightarrow> nat \<Rightarrow> lfiblk" where
  "file_iblk ibs dbs k =
     \<lparr>ib_next = nth_or ibs (k + 1), ib_offset = of_nat (8192 * k), ib_dba = map (\<lambda>i. nth_or dbs (16 * k + i)) [0..<LF_IBLEN]\<rparr>"

text \<open>
  A file with index blocks \<open>ibs\<close>, data blocks \<open>dbs\<close> and their contents \<open>blks\<close>, where \<open>t\<close> may hold one
  block of each kind: the copy in \<open>t\<close> is right, and the one on disk is unless \<open>t\<close>'s is dirty.
\<close>

definition ib_rep :: "fsys \<Rightarrow> lflcblk \<Rightarrow> u32 list \<Rightarrow> u32 list \<Rightarrow> bool" where
  "ib_rep f t ibs dbs \<longleftrightarrow>
     (\<forall>k<length ibs. (lfinum t = ibs ! k \<longrightarrow> lfiblock t = file_iblk ibs dbs k)
        \<and> (lfinum t = ibs ! k \<and> lfibdirty t \<or> iblk f (ibs ! k) = file_iblk ibs dbs k))
     \<and> (lfinum t = - 1 \<or> lfinum t \<in> set ibs) \<and> (lfibdirty t \<longrightarrow> lfinum t \<noteq> - 1)"

definition db_rep :: "fsys \<Rightarrow> lflcblk \<Rightarrow> u32 list \<Rightarrow> u8 list list \<Rightarrow> bool" where
  "db_rep f t dbs blks \<longleftrightarrow> length blks = length dbs
     \<and> (\<forall>k<length dbs. length (blks ! k) = LF_BLKSIZ \<and> (lfdnum t = dbs ! k \<longrightarrow> lfdblock t = blks ! k)
        \<and> (lfdnum t = dbs ! k \<and> lfdbdirty t \<or> sector f (unat (dbs ! k)) = blks ! k))
     \<and> (lfdnum t = - 1 \<or> lfdnum t \<in> set dbs) \<and> (lfdbdirty t \<longrightarrow> lfdnum t \<noteq> - 1)"

definition rep :: "fsys \<Rightarrow> lflcblk \<Rightarrow> u32 list \<Rightarrow> u32 list \<Rightarrow> u8 list list \<Rightarrow> bool" where
  "rep f t ibs dbs blks \<longleftrightarrow> ib_rep f t ibs dbs \<and> db_rep f t dbs blks"

definition own_blocks :: "nat \<Rightarrow> u32 list \<Rightarrow> u32 list \<Rightarrow> bool" where
  "own_blocks K ibs dbs \<longleftrightarrow> 7 * K \<le> 1393 \<and> distinct ibs \<and> distinct dbs \<and> (\<forall>x\<in>set ibs. unat x < 7 * K)
     \<and> (\<forall>x\<in>set dbs. K < unat x \<and> unat x < 200)"

text \<open>What a step on one file leaves alone on disk.\<close>

definition keep_disk :: "nat \<Rightarrow> u32 list \<Rightarrow> u32 list \<Rightarrow> fsys \<Rightarrow> fsys \<Rightarrow> bool" where
  "keep_disk K ibs dbs f' f \<longleftrightarrow> (\<forall>x. unat x < 7 * K \<longrightarrow> x \<notin> set ibs \<longrightarrow> iblk f' x = iblk f x)
     \<and> (\<forall>b. K < b \<longrightarrow> b < 200 \<longrightarrow> (\<forall>x\<in>set dbs. unat x \<noteq> b) \<longrightarrow> sector f' b = sector f b)"

lemma file_iblk_simps [simp]:
  "ib_next (file_iblk ibs dbs k) = nth_or ibs (k + 1)" "ib_offset (file_iblk ibs dbs k) = of_nat (8192 * k)"
  "length (ib_dba (file_iblk ibs dbs k)) = LF_IBLEN" "i < LF_IBLEN \<Longrightarrow> ib_dba (file_iblk ibs dbs k) ! i = nth_or dbs (16 * k + i)"
  by (simp_all add: file_iblk_def)

lemma own_not_null:
  assumes "own_blocks K ibs dbs"
  shows "- 1 \<notin> set ibs" "- 1 \<notin> set dbs"
proof -
  have "unat (- 1 :: u32) = 4294967295" by (simp add: unsigned_minus_1_eq_mask mask_eq_exp_minus_1)
  then show "- 1 \<notin> set ibs" "- 1 \<notin> set dbs" using assms by (auto simp: own_blocks_def)
qed

lemma unat_eq_u32 [simp]: "unat (x :: u32) = unat y \<longleftrightarrow> x = y"
  by (simp add: word_unat_eq_iff)

lemma rep_iblk: "rep f t ibs dbs blks \<Longrightarrow> k < length ibs \<Longrightarrow> \<not> lfibdirty t \<Longrightarrow> iblk f (ibs ! k) = file_iblk ibs dbs k"
  by (simp add: rep_def ib_rep_def)

lemma rep_cached: "rep f t ibs dbs blks \<Longrightarrow> k < length ibs \<Longrightarrow> lfinum t = ibs ! k \<Longrightarrow> lfiblock t = file_iblk ibs dbs k"
  by (simp add: rep_def ib_rep_def)

lemma rep_sector: "rep f t ibs dbs blks \<Longrightarrow> k < length dbs \<Longrightarrow> \<not> lfdbdirty t \<Longrightarrow> sector f (unat (dbs ! k)) = blks ! k"
  by (simp add: rep_def db_rep_def)

lemma ib_rep_cong: "ib_rep f t ibs dbs \<Longrightarrow> (\<And>x. x \<in> set ibs \<Longrightarrow> iblk f' x = iblk f x) \<Longrightarrow> ib_rep f' t ibs dbs"
  by (simp add: ib_rep_def)

lemma db_rep_cong: "db_rep f t dbs blks \<Longrightarrow> (\<And>x. x \<in> set dbs \<Longrightarrow> sector f' (unat x) = sector f (unat x)) \<Longrightarrow> db_rep f' t dbs blks"
  by (simp add: db_rep_def)

lemma rep_frame:
  assumes "rep f t ibs dbs blks" "own_blocks K ibs dbs" "keep_disk K ibs' dbs' f' f" "set ibs \<inter> set ibs' = {}" "set dbs \<inter> set dbs' = {}"
  shows "rep f' t ibs dbs blks"
proof -
  have "iblk f' x = iblk f x" if "x \<in> set ibs" for x
    using that assms(2-4) by (auto simp: keep_disk_def own_blocks_def)
  moreover have "sector f' (unat x) = sector f (unat x)" if "x \<in> set dbs" for x
  proof -
    have "\<forall>y\<in>set dbs'. unat y \<noteq> unat x" using that assms(5) by auto
    then show ?thesis using that assms(2,3) by (simp add: keep_disk_def own_blocks_def)
  qed
  ultimately show ?thesis using assms(1) ib_rep_cong db_rep_cong unfolding rep_def by blast
qed

lemma rep_upd [simp]:
  "rep (f\<lparr>lf_dir := D\<rparr>) t ibs dbs blks = rep f t ibs dbs blks" "rep (f\<lparr>lf_dirdirty := p\<rparr>) t ibs dbs blks = rep f t ibs dbs blks"
  "rep (f\<lparr>lfltab := h\<rparr>) t ibs dbs blks = rep f t ibs dbs blks"
  by (simp_all add: rep_def ib_rep_def db_rep_def)

lemma rep_other_fields [simp]:
  "rep f (t\<lparr>lfpos := a\<rparr>) ibs dbs blks = rep f t ibs dbs blks" "rep f (t\<lparr>lfbyte := b\<rparr>) ibs dbs blks = rep f t ibs dbs blks"
  by (simp_all add: rep_def ib_rep_def db_rep_def)

lemma keep_refl: "keep_disk K ibs dbs f f"
  by (simp add: keep_disk_def)

lemma keep_trans: "keep_disk K ibs dbs f2 f1 \<Longrightarrow> keep_disk K ibs dbs f1 f \<Longrightarrow> keep_disk K ibs dbs f2 f"
  by (simp add: keep_disk_def)

lemma keep_upd [simp]:
  "keep_disk K ibs dbs (f'\<lparr>lf_dir := D\<rparr>) f = keep_disk K ibs dbs f' f"
  "keep_disk K ibs dbs (f'\<lparr>lf_dirdirty := p\<rparr>) f = keep_disk K ibs dbs f' f"
  "keep_disk K ibs dbs (f'\<lparr>lfltab := h\<rparr>) f = keep_disk K ibs dbs f' f"
  "keep_disk K ibs dbs f' (f\<lparr>lf_dir := D\<rparr>) = keep_disk K ibs dbs f' f"
  "keep_disk K ibs dbs f' (f\<lparr>lf_dirdirty := p\<rparr>) = keep_disk K ibs dbs f' f"
  "keep_disk K ibs dbs f' (f\<lparr>lfltab := h\<rparr>) = keep_disk K ibs dbs f' f"
  by (simp_all add: keep_disk_def)

section \<open>Writing a block back\<close>

lemma dir_sector_apart:
  assumes "length bs = LF_BLKSIZ"
  shows "keep_disk K ibs dbs (put_sector 0 bs f) f" "own_blocks K ibs dbs \<Longrightarrow> rep f t ibs dbs blks \<Longrightarrow> rep (put_sector 0 bs f) t ibs dbs blks"
proof -
  have s: "sector (put_sector 0 bs f) (unat x) = sector f (unat x)" if "own_blocks K ibs dbs" "x \<in> set dbs" for x
    using that assms by (auto simp: own_blocks_def sector_put)
  show "keep_disk K ibs dbs (put_sector 0 bs f) f" using assms by (simp add: keep_disk_def iblk_put_sector sector_put)
  assume "own_blocks K ibs dbs" "rep f t ibs dbs blks"
  then show "rep (put_sector 0 bs f) t ibs dbs blks"
    using s assms unfolding rep_def by (auto intro: ib_rep_cong db_rep_cong simp: iblk_put_sector)
qed

lemma ib_sector_low: "unat x < 7 * K \<Longrightarrow> K < b \<Longrightarrow> unat x div 7 + 1 \<noteq> b"
  by linarith

lemma data_sector_apart:
  assumes "length bs = LF_BLKSIZ" "x \<in> set dbs" "own_blocks K ibs dbs"
  shows "keep_disk K ibs dbs (put_sector (unat x) bs f) f" "y \<in> set ibs \<Longrightarrow> iblk (put_sector (unat x) bs f) y = iblk f y"
proof -
  have x: "K < unat x" using assms(2,3) by (simp add: own_blocks_def)
  show "keep_disk K ibs dbs (put_sector (unat x) bs f) f"
    using assms(1,2) x by (auto simp: keep_disk_def iblk_put_sector sector_put ib_sector_low)
  assume "y \<in> set ibs"
  then have "unat y < 7 * K" using assms(3) by (simp add: own_blocks_def)
  then show "iblk (put_sector (unat x) bs f) y = iblk f y"
    by (rule iblk_put_sector [OF assms(1) ib_sector_low [OF _ x]])
qed

lemma iblk_write_apart:
  assumes "length (ib_dba b) = LF_IBLEN" "x \<in> set ibs" "own_blocks K ibs dbs"
  shows "keep_disk K ibs dbs (put_iblk x b f) f" "y \<in> set dbs \<Longrightarrow> sector (put_iblk x b f) (unat y) = sector f (unat y)"
proof -
  have s: "sector (put_iblk x b f) n = sector f n" if "K < n" for n
    using that assms ib_sector_low [of x K n] by (auto simp: sector_put_iblk own_blocks_def)
  show "keep_disk K ibs dbs (put_iblk x b f) f"
    using s iblk_put_other [OF assms(1), of _ x f] assms(2) unfolding keep_disk_def by metis
  show "y \<in> set dbs \<Longrightarrow> sector (put_iblk x b f) (unat y) = sector f (unat y)"
    using assms(3) by (intro s) (simp add: own_blocks_def)
qed

lemma flush_data:
  assumes "rep f t ibs dbs blks" "own_blocks K ibs dbs" "lfdbdirty t"
  shows "rep (put_sector (unat (lfdnum t)) (lfdblock t) f) (t\<lparr>lfdbdirty := False\<rparr>) ibs dbs blks"
    "lfdnum t \<in> set dbs" "length (lfdblock t) = LF_BLKSIZ"
proof -
  have d: "db_rep f t dbs blks" and i: "ib_rep f t ibs dbs" using assms(1) by (simp_all add: rep_def)
  show m: "lfdnum t \<in> set dbs" using d assms(3) by (auto simp: db_rep_def)
  then obtain k where k: "k < length dbs" "dbs ! k = lfdnum t" by (auto simp: in_set_conv_nth)
  then show l: "length (lfdblock t) = LF_BLKSIZ" using d by (auto simp: db_rep_def)
  have "ib_rep (put_sector (unat (lfdnum t)) (lfdblock t) f) t ibs dbs"
    by (rule ib_rep_cong [OF i]) (rule data_sector_apart(2) [OF l m assms(2)])
  moreover have "db_rep (put_sector (unat (lfdnum t)) (lfdblock t) f) (t\<lparr>lfdbdirty := False\<rparr>) dbs blks"
    using d unfolding db_rep_def by (auto simp: sector_put l)
  ultimately show "rep (put_sector (unat (lfdnum t)) (lfdblock t) f) (t\<lparr>lfdbdirty := False\<rparr>) ibs dbs blks"
    by (simp add: rep_def ib_rep_def)
qed

lemma flush_index:
  assumes "rep f t ibs dbs blks" "own_blocks K ibs dbs" "lfibdirty t"
  shows "rep (put_iblk (lfinum t) (lfiblock t) f) (t\<lparr>lfibdirty := False\<rparr>) ibs dbs blks"
    "lfinum t \<in> set ibs" "length (ib_dba (lfiblock t)) = LF_IBLEN"
proof -
  have d: "db_rep f t dbs blks" and i: "ib_rep f t ibs dbs" using assms(1) by (simp_all add: rep_def)
  show m: "lfinum t \<in> set ibs" using i assms(3) by (auto simp: ib_rep_def)
  then obtain k where k: "k < length ibs" "ibs ! k = lfinum t" by (auto simp: in_set_conv_nth)
  then have "lfiblock t = file_iblk ibs dbs k" using i by (simp add: ib_rep_def)
  then show l: "length (ib_dba (lfiblock t)) = LF_IBLEN" by simp
  have "db_rep (put_iblk (lfinum t) (lfiblock t) f) t dbs blks"
    by (rule db_rep_cong [OF d]) (rule iblk_write_apart(2) [OF l m assms(2)])
  moreover have "iblk (put_iblk (lfinum t) (lfiblock t) f) (ibs ! k) = file_iblk ibs dbs k" if "k < length ibs" for k
  proof (cases "ibs ! k = lfinum t")
    case True
    then show ?thesis unfolding True iblk_put_same [OF l] using i that True by (simp add: ib_rep_def)
  next
    case False
    then show ?thesis unfolding iblk_put_other [OF l False] using i that by (auto simp: ib_rep_def)
  qed
  then have "ib_rep (put_iblk (lfinum t) (lfiblock t) f) (t\<lparr>lfibdirty := False\<rparr>) ibs dbs"
    using i by (simp add: ib_rep_def)
  ultimately show "rep (put_iblk (lfinum t) (lfiblock t) f) (t\<lparr>lfibdirty := False\<rparr>) ibs dbs blks"
    by (simp add: rep_def db_rep_def)
qed

section \<open>All files of a disk\<close>

text \<open>
  The ghost state: the blocks of the files of the directory and their contents, the file device
  through which each is open, the two free lists, and the names.
\<close>

record lfmap =
  g_ibs :: "nat \<Rightarrow> u32 list"
  g_dbs :: "nat \<Rightarrow> u32 list"
  g_blks :: "nat \<Rightarrow> u8 list list"
  g_dev :: "nat \<Rightarrow> int option"
  g_fib :: "u32 list"
  g_fdb :: "u32 list"
  g_names :: "nat \<Rightarrow> u8 list"

text \<open>Blocks are owned by one file or free.\<close>

definition apart :: "nat \<Rightarrow> u32 list \<Rightarrow> (nat \<Rightarrow> u32 list) \<Rightarrow> bool" where
  "apart n free own \<longleftrightarrow> distinct free \<and> (\<forall>j<n. distinct (own j) \<and> set (own j) \<inter> set free = {}
     \<and> (\<forall>i<n. i \<noteq> j \<longrightarrow> set (own j) \<inter> set (own i) = {}))"

definition free_ibs :: "fsys \<Rightarrow> u32 list \<Rightarrow> bool" where
  "free_ibs f xs \<longleftrightarrow> (\<forall>k<length xs. ib_next (iblk f (xs ! k)) = nth_or xs (k + 1))"

definition free_dbs :: "fsys \<Rightarrow> u32 list \<Rightarrow> bool" where
  "free_dbs f xs \<longleftrightarrow> (\<forall>k<length xs. word_at (sector f (unat (xs ! k))) 0 = nth_or xs (k + 1))"

definition in_range :: "nat \<Rightarrow> nat \<Rightarrow> lfmap \<Rightarrow> bool" where
  "in_range K n G \<longleftrightarrow> 7 * K \<le> 1393
     \<and> (\<forall>x\<in>set (g_fib G). unat x < 7 * K) \<and> (\<forall>j<n. \<forall>x\<in>set (g_ibs G j). unat x < 7 * K)
     \<and> (\<forall>x\<in>set (g_fdb G). K < unat x \<and> unat x < 200) \<and> (\<forall>j<n. \<forall>x\<in>set (g_dbs G j). K < unat x \<and> unat x < 200)"

text \<open>A file that is not open has no block in memory.\<close>

definition no_cache :: lflcblk where
  "no_cache = \<lparr>lfstate = LF_FREE, lfdev = 0, lfmutex = 0, lfdirptr = - 1, lfmode = 0, lfpos = 0, lfname = [], lfinum = - 1,
     lfiblock = lfibclear 0, lfdnum = - 1, lfdblock = [], lfbyte = 512, lfibdirty = False, lfdbdirty = False\<rparr>"

definition view :: "fsys \<Rightarrow> lfmap \<Rightarrow> nat \<Rightarrow> lflcblk" where
  "view f G j = (case g_dev G j of None \<Rightarrow> no_cache | Some d \<Rightarrow> lfltab f d)"

definition entry :: "fsys \<Rightarrow> nat \<Rightarrow> ldentry" where
  "entry f j = lfd_files (lf_dir f) ! j"

definition file_at :: "fsys \<Rightarrow> lfmap \<Rightarrow> nat \<Rightarrow> bool" where
  "file_at f G j \<longleftrightarrow> ld_ilist (entry f j) = nth_or (g_ibs G j) 0 \<and> length (g_dbs G j) \<le> 16 * length (g_ibs G j)
     \<and> rep f (view f G j) (g_ibs G j) (g_dbs G j) (g_blks G j)"

definition layout :: "nat \<Rightarrow> nat \<Rightarrow> fsys \<Rightarrow> lfmap \<Rightarrow> bool" where
  "layout K n f G \<longleftrightarrow> dir_shape (lf_dir f) \<and> n \<le> 20 \<and> in_range K n G
     \<and> apart n (g_fib G) (g_ibs G) \<and> apart n (g_fdb G) (g_dbs G)
     \<and> free_ibs f (g_fib G) \<and> lfd_ifree (lf_dir f) = nth_or (g_fib G) 0
     \<and> free_dbs f (g_fdb G) \<and> lfd_dfree (lf_dir f) = nth_or (g_fdb G) 0
     \<and> (\<forall>j<n. file_at f G j) \<and> (\<forall>j<n. \<forall>i<n. \<forall>d. g_dev G j = Some d \<longrightarrow> g_dev G i = Some d \<longrightarrow> i = j)"

lemma layoutD:
  assumes "layout K n f G"
  shows "dir_shape (lf_dir f)" "n \<le> 20" "in_range K n G" "apart n (g_fib G) (g_ibs G)" "apart n (g_fdb G) (g_dbs G)"
    "free_ibs f (g_fib G)" "lfd_ifree (lf_dir f) = nth_or (g_fib G) 0" "free_dbs f (g_fdb G)"
    "lfd_dfree (lf_dir f) = nth_or (g_fdb G) 0" "j < n \<Longrightarrow> file_at f G j"
  using assms by (simp_all add: layout_def)

lemma layout_own: "layout K n f G \<Longrightarrow> j < n \<Longrightarrow> own_blocks K (g_ibs G j) (g_dbs G j)"
  by (simp add: layout_def own_blocks_def apart_def in_range_def)

lemma layout_rep:
  "layout K n f G \<Longrightarrow> j < n \<Longrightarrow> g_dev G j = Some d \<Longrightarrow> rep f (lfltab f d) (g_ibs G j) (g_dbs G j) (g_blks G j)"
  using layoutD(10) [of K n f G j] by (simp add: file_at_def view_def)

lemma apartD:
  "apart n free own \<Longrightarrow> j < n \<Longrightarrow> set (own j) \<inter> set free = {}"
  "apart n free own \<Longrightarrow> j < n \<Longrightarrow> i < n \<Longrightarrow> i \<noteq> j \<Longrightarrow> set (own i) \<inter> set (own j) = {}"
  by (simp_all add: apart_def)

lemma apart_take: "apart n (x # xs) own \<Longrightarrow> j < n \<Longrightarrow> apart n xs (own(j := own j @ [x]))"
  by (auto simp: apart_def)

lemma nth_or_Cons: "nth_or (x # xs) 0 = x" "nth_or (x # xs) (Suc k) = nth_or xs k" "nth_or (x # xs) (k + 1) = nth_or xs k"
  by (simp_all add: nth_or_def)

text \<open>A free list loses its head, or stays as it is; the file gets the block.\<close>

definition moved :: "u32 list \<Rightarrow> u32 list \<Rightarrow> u32 list \<Rightarrow> u32 list \<Rightarrow> bool" where
  "moved free free' own own' \<longleftrightarrow> free' = free \<and> own' = own \<or> (\<exists>x. free = x # free' \<and> own' = own @ [x])"

lemma apart_moved: "apart n free own \<Longrightarrow> moved free free' (own j) own' \<Longrightarrow> j < n \<Longrightarrow> apart n free' (own(j := own'))"
  unfolding moved_def by (auto dest: apart_take)

lemma moved_sets: "moved free free' own own' \<Longrightarrow> set free' \<subseteq> set free \<and> set own' \<subseteq> set own \<union> set free \<and> set own \<subseteq> set own'"
  by (auto simp: moved_def)

lemma free_ibs_moved:
  assumes "free_ibs f free" "moved free free' own own'" "\<forall>x\<in>set free'. iblk f' x = iblk f x"
  shows "free_ibs f' free'"
proof -
  have "free_ibs f free'" using assms(1,2) by (auto simp: moved_def free_ibs_def nth_or_Cons All_less_Suc2)
  then show ?thesis using assms(3) by (simp add: free_ibs_def)
qed

lemma free_dbs_moved:
  assumes "free_dbs f free" "moved free free' own own'" "\<forall>x\<in>set free'. sector f' (unat x) = sector f (unat x)"
  shows "free_dbs f' free'"
proof -
  have "free_dbs f free'" using assms(1,2) by (auto simp: moved_def free_dbs_def nth_or_Cons All_less_Suc2)
  then show ?thesis using assms(3) by (simp add: free_dbs_def)
qed

text \<open>What a step on the open file \<open>j\<close> has to show.\<close>

lemma layout_step:
  assumes l: "layout K n f G" and j: "j < n" "g_dev G j = Some d"
    and m: "moved (g_fib G) fib' (g_ibs G j) ibs'" "moved (g_fdb G) fdb' (g_dbs G j) dbs'"
    and f': "dir_shape (lf_dir f')" "lfltab f' = (lfltab f)(d := t')" "keep_disk K ibs' dbs' f' f"
      "\<And>i. i < n \<Longrightarrow> i \<noteq> j \<Longrightarrow> entry f' i = entry f i"
      "lfd_ifree (lf_dir f') = nth_or fib' 0" "lfd_dfree (lf_dir f') = nth_or fdb' 0"
    and own: "ld_ilist (entry f' j) = nth_or ibs' 0" "length dbs' \<le> 16 * length ibs'" "rep f' t' ibs' dbs' blks'"
  shows "layout K n f' (G\<lparr>g_ibs := (g_ibs G)(j := ibs'), g_dbs := (g_dbs G)(j := dbs'), g_blks := (g_blks G)(j := blks'),
    g_fib := fib', g_fdb := fdb'\<rparr>)"
proof -
  let ?G = "G\<lparr>g_ibs := (g_ibs G)(j := ibs'), g_dbs := (g_dbs G)(j := dbs'), g_blks := (g_blks G)(j := blks'),
    g_fib := fib', g_fdb := fdb'\<rparr>"
  note L = layoutD [OF l]
  have a: "apart n fib' ((g_ibs G)(j := ibs'))" "apart n fdb' ((g_dbs G)(j := dbs'))"
    using apart_moved [OF L(4) m(1) j(1)] apart_moved [OF L(5) m(2) j(1)] by simp_all
  have off: "set ibs' \<inter> set fib' = {}" "set dbs' \<inter> set fdb' = {}"
    using apartD(1) [OF a(1) j(1)] apartD(1) [OF a(2) j(1)] by simp_all
  have r: "in_range K n ?G"
    using L(3) j(1) moved_sets [OF m(1)] moved_sets [OF m(2)] unfolding in_range_def by (auto split: if_splits)
  have fi: "iblk f' x = iblk f x" if "x \<in> set fib'" for x
  proof -
    have "x \<notin> set ibs'" using off that by auto
    moreover have "unat x < 7 * K" using r that by (simp add: in_range_def)
    ultimately show ?thesis using f'(3) by (simp add: keep_disk_def)
  qed
  have fd: "sector f' (unat x) = sector f (unat x)" if "x \<in> set fdb'" for x
  proof -
    have "\<forall>y\<in>set dbs'. unat y \<noteq> unat x" using off that by auto
    moreover have "K < unat x" "unat x < 200" using r that by (simp_all add: in_range_def)
    ultimately show ?thesis using f'(3) by (simp add: keep_disk_def)
  qed
  have "file_at f' ?G i" if "i < n" for i
  proof (cases "i = j")
    case True
    then show ?thesis using own f'(2) j(2) by (simp add: file_at_def view_def)
  next
    case False
    have "g_dev G i \<noteq> Some d" using l j that False by (auto simp: layout_def)
    then have v: "view f' ?G i = view f G i" using f'(2) by (auto simp: view_def split: option.splits)
    have "set (g_ibs G i) \<inter> set ibs' = {}" "set (g_dbs G i) \<inter> set dbs' = {}"
      using apartD(2) [OF a(1) j(1) that False] apartD(2) [OF a(2) j(1) that False] False by simp_all
    then have "rep f' (view f G i) (g_ibs G i) (g_dbs G i) (g_blks G i)"
      using L(10) [OF that] layout_own [OF l that] f'(3) by (auto simp: file_at_def intro: rep_frame)
    then show ?thesis using L(10) [OF that] f'(4) [OF that False] False v by (simp add: file_at_def)
  qed
  moreover have "free_ibs f' fib'" "free_dbs f' fdb'"
    using free_ibs_moved [OF L(6) m(1)] free_dbs_moved [OF L(8) m(2)] fi fd by simp_all
  ultimately show ?thesis using l a r f' by (simp add: layout_def)
qed

section \<open>Bringing a block into memory\<close>

lemma distinct_words_length:
  assumes "distinct xs" "\<forall>x\<in>set xs. unat (x :: u32) < m"
  shows "length xs \<le> m"
proof -
  have "card (unat ` set xs) = length xs"
    using assms(1) by (simp add: card_image inj_on_def distinct_card)
  moreover have "card (unat ` set xs) \<le> card {..<m}" using assms(2) by (intro card_mono) auto
  ultimately show ?thesis by simp
qed

lemma own_lengths:
  assumes "own_blocks K ibs dbs"
  shows "length ibs \<le> 1393" "length dbs \<le> 200"
proof -
  have "\<forall>x\<in>set ibs. unat x < 1393" "\<forall>x\<in>set dbs. unat x < 200" using assms by (auto simp: own_blocks_def)
  then show "length ibs \<le> 1393" "length dbs \<le> 200"
    using assms by (auto simp: own_blocks_def intro: distinct_words_length)
qed

lemma load_index:
  assumes "rep f t ibs dbs blks" "distinct ibs" "\<not> lfibdirty t" "k < length ibs"
  shows "rep f (t\<lparr>lfiblock := iblk f (ibs ! k), lfinum := ibs ! k\<rparr>) ibs dbs blks"
  using assms by (auto simp: rep_def ib_rep_def db_rep_def nth_eq_iff_index_eq)

lemma drop_data:
  assumes "rep f t ibs dbs blks" "own_blocks K ibs dbs" "\<not> lfdbdirty t"
  shows "rep f (t\<lparr>lfdnum := - 1\<rparr>) ibs dbs blks"
proof -
  have "- 1 \<noteq> dbs ! k" if "k < length dbs" for k using own_not_null(2) [OF assms(2)] nth_mem [OF that] by metis
  then show ?thesis using assms(1,3) by (simp add: rep_def ib_rep_def db_rep_def)
qed

lemma load_data:
  assumes "rep f t ibs dbs blks" "own_blocks K ibs dbs" "\<not> lfdbdirty t" "k < length dbs"
  shows "rep f (t\<lparr>lfdblock := sector f (unat (dbs ! k)), lfdnum := dbs ! k\<rparr>) ibs dbs blks"
proof -
  have "dbs ! k \<noteq> - 1" using own_not_null(2) [OF assms(2)] nth_mem [OF assms(4)] by metis
  then show ?thesis
    using assms by (auto simp: rep_def ib_rep_def db_rep_def own_blocks_def nth_eq_iff_index_eq)
qed

text \<open>A block more at the end of a file.\<close>

lemma nth_or_append: "nth_or (xs @ [y]) k = (if k = length xs then y else nth_or xs k)"
  by (simp add: nth_or_def nth_append)

lemma nth_or_less: "k < length xs \<Longrightarrow> nth_or xs k = xs ! k" "\<not> k < length xs \<Longrightarrow> nth_or xs k = - 1"
  by (simp_all add: nth_or_def)

lemma file_iblk_more:
  "k + 1 \<noteq> length ibs \<Longrightarrow> file_iblk (ibs @ [x]) dbs k = file_iblk ibs dbs k"
  "length dbs \<le> 16 * length ibs \<Longrightarrow> file_iblk (ibs @ [x]) dbs (length ibs) = lfibclear (of_nat (8192 * length ibs))"
  by (simp_all add: file_iblk_def lfibclear_def nth_or_append nth_or_less map_replicate_const)

lemma new_index:
  assumes r: "rep f t ibs dbs blks" and x: "x \<noteq> - 1" "x \<notin> set ibs" and n: "length dbs \<le> 16 * length ibs"
    and d: "\<And>k. k < length ibs \<Longrightarrow> iblk f' (ibs ! k) = file_iblk (ibs @ [x]) dbs k"
      "\<And>y. y \<in> set dbs \<Longrightarrow> sector f' (unat y) = sector f (unat y)"
  shows "rep f' (t\<lparr>lfiblock := lfibclear (of_nat (8192 * length ibs)), lfibdirty := True, lfinum := x\<rparr>) (ibs @ [x]) dbs blks"
proof -
  let ?t = "t\<lparr>lfiblock := lfibclear (of_nat (8192 * length ibs)), lfibdirty := True, lfinum := x\<rparr>"
  have "ib_rep f' ?t (ibs @ [x]) dbs"
    unfolding ib_rep_def
  proof (intro conjI allI impI)
    fix k assume "k < length (ibs @ [x])"
    then consider "k < length ibs" | "k = length ibs" by fastforce
    then show "lfinum ?t = (ibs @ [x]) ! k \<Longrightarrow> lfiblock ?t = file_iblk (ibs @ [x]) dbs k"
      "lfinum ?t = (ibs @ [x]) ! k \<and> lfibdirty ?t \<or> iblk f' ((ibs @ [x]) ! k) = file_iblk (ibs @ [x]) dbs k"
      by (cases; use x d(1) file_iblk_more(2) [OF n] in \<open>auto simp: nth_append\<close>)+
  qed (use x in simp_all)
  moreover have "db_rep f t dbs blks" using r by (simp add: rep_def)
  then have "db_rep f' ?t dbs blks" using db_rep_cong [of f t dbs blks f'] d(2) by (simp add: db_rep_def)
  ultimately show ?thesis by (simp add: rep_def)
qed

lemma file_iblk_new_data:
  assumes "16 * q \<le> length dbs" "length dbs < 16 * q + 16"
  shows "(file_iblk ibs dbs q)\<lparr>ib_dba := (ib_dba (file_iblk ibs dbs q))[length dbs - 16 * q := y]\<rparr> = file_iblk ibs (dbs @ [y]) q"
    "k \<noteq> q \<Longrightarrow> file_iblk ibs (dbs @ [y]) k = file_iblk ibs dbs k"
proof -
  have "(ib_dba (file_iblk ibs dbs q))[length dbs - 16 * q := y] = ib_dba (file_iblk ibs (dbs @ [y]) q)"
    using assms by (intro nth_equalityI) (auto simp: nth_list_update nth_or_append)
  then show "(file_iblk ibs dbs q)\<lparr>ib_dba := (ib_dba (file_iblk ibs dbs q))[length dbs - 16 * q := y]\<rparr> = file_iblk ibs (dbs @ [y]) q"
    by (simp add: file_iblk_def)
  assume "k \<noteq> q"
  then have "16 * k + i \<noteq> length dbs" if "i < 16" for i using assms that by linarith
  then have "map (\<lambda>i. nth_or (dbs @ [y]) (16 * k + i)) [0..<16] = map (\<lambda>i. nth_or dbs (16 * k + i)) [0..<16]"
    by (intro map_cong) (simp_all add: nth_or_append)
  then show "file_iblk ibs (dbs @ [y]) k = file_iblk ibs dbs k" by (simp add: file_iblk_def)
qed

lemma new_data:
  assumes r: "rep f t ibs dbs blks" and q: "q < length ibs" "lfinum t = ibs ! q" "16 * q \<le> length dbs" "length dbs < 16 * q + 16"
    and y: "y \<noteq> - 1" "y \<notin> set dbs" and i: "distinct ibs" "- 1 \<notin> set ibs" and c: "\<not> lfdbdirty t" and b: "length b = LF_BLKSIZ"
    and d: "\<And>x. x \<in> set ibs \<Longrightarrow> iblk f' x = iblk f x" "\<And>y. y \<in> set dbs \<Longrightarrow> sector f' (unat y) = sector f (unat y)"
  shows "rep f' (t\<lparr>lfdblock := b, lfiblock := (lfiblock t)\<lparr>ib_dba := (ib_dba (lfiblock t))[length dbs - 16 * q := y]\<rparr>,
    lfibdirty := True, lfdnum := y, lfdbdirty := True\<rparr>) ibs (dbs @ [y]) (blks @ [b])"
proof -
  let ?t = "t\<lparr>lfdblock := b, lfiblock := (lfiblock t)\<lparr>ib_dba := (ib_dba (lfiblock t))[length dbs - 16 * q := y]\<rparr>,
    lfibdirty := True, lfdnum := y, lfdbdirty := True\<rparr>"
  have R: "ib_rep f t ibs dbs" "db_rep f t dbs blks" using r by (simp_all add: rep_def)
  have n: "lfinum t \<noteq> - 1" using q(2) i(2) nth_mem [OF q(1)] by metis
  have "lfiblock t = file_iblk ibs dbs q" using R(1) q(1,2) by (simp add: ib_rep_def)
  then have cb: "lfiblock ?t = file_iblk ibs (dbs @ [y]) q" using file_iblk_new_data(1) [OF q(3,4)] by simp
  have "ib_rep f' ?t ibs (dbs @ [y])"
    unfolding ib_rep_def
  proof (intro conjI allI impI)
    fix k assume k: "k < length ibs"
    show "lfinum ?t = ibs ! k \<Longrightarrow> lfiblock ?t = file_iblk ibs (dbs @ [y]) k"
      using cb q(1,2) i(1) k by (simp add: nth_eq_iff_index_eq)
    show "lfinum ?t = ibs ! k \<and> lfibdirty ?t \<or> iblk f' (ibs ! k) = file_iblk ibs (dbs @ [y]) k"
    proof (cases "k = q")
      case False
      then have "lfinum t \<noteq> ibs ! k" using q(1,2) i(1) k by (simp add: nth_eq_iff_index_eq)
      then show ?thesis using R(1) k d(1) file_iblk_new_data(2) [OF q(3,4) False] by (auto simp: ib_rep_def)
    qed (use q(2) in simp)
  qed (use R(1) n in \<open>simp_all add: ib_rep_def\<close>)
  moreover have "db_rep f' ?t (dbs @ [y]) (blks @ [b])"
  proof -
    have "length blks = length dbs" using R(2) by (simp add: db_rep_def)
    moreover have "y \<noteq> dbs ! k \<and> length (blks ! k) = LF_BLKSIZ \<and> sector f' (unat (dbs ! k)) = blks ! k" if "k < length dbs" for k
      using R(2) c y(2) nth_mem [OF that] that d(2) by (auto simp: db_rep_def)
    ultimately show ?thesis using b y(1) by (auto simp: db_rep_def nth_append less_Suc_eq)
  qed
  ultimately show ?thesis by (simp add: rep_def)
qed

end
