(* ===== verification/Lfsfind.thy ===== *)
theory Lfsfind
  imports Lfsrep
begin

text \<open>
  How \<^verbatim>\<open>lfsetup\<close> brings the data block of a file's position into memory on the RAM disk: flushing,
  taking index and data blocks off the free lists, walking the index blocks. Each step keeps
  \<open>layout\<close> and nothing but the blocks of the file change.
\<close>

section \<open>Steps on the disk\<close>

lemma upd_simps [simp]:
  "lfs (upd_lfs g s) = g (lfs s)" "upd_lfs g (s\<lparr>lfs := f\<rparr>) = s\<lparr>lfs := g f\<rparr>"
  "lfl d s = lfltab (lfs s) d"
  by (simp_all add: upd_lfs_def lfl_def)

lemma upd_lfl_eq: "upd_lfl d g s = s\<lparr>lfs := (lfs s)\<lparr>lfltab := (lfltab (lfs s))(d := g (lfltab (lfs s) d))\<rparr>\<rparr>"
  by (simp add: upd_lfl_def upd_lfs_def)

lemma upd_dir_eq: "upd_dir g s = s\<lparr>lfs := (lfs s)\<lparr>lf_dir := g (lf_dir (lfs s))\<rparr>\<rparr>"
  by (simp add: upd_dir_def upd_lfs_def)

lemma put_dir_ram:
  "is_ram (lf_dskdev (lfs s)) \<Longrightarrow> put_dir (ram_drv rest) s = Ret (s\<lparr>lfs := put_sector 0 (dir_bytes (lf_dir (lfs s))) (lfs s)\<rparr>) OK"
  by (simp add: put_dir_def bwrite_ram upd_lfs_def)

lemma put_sector_tab: "put_sector b bs (f\<lparr>lfltab := h, lf_dir := E\<rparr>) = (put_sector b bs (f\<lparr>lf_dir := E\<rparr>))\<lparr>lfltab := h\<rparr>"
  by (cases f) (simp add: put_sector_def ram_store_def cong: if_cong)

text \<open>File \<open>j\<close> is open through device \<open>d\<close>.\<close>

definition open_at :: "nat \<Rightarrow> fsys \<Rightarrow> lfmap \<Rightarrow> nat \<Rightarrow> int \<Rightarrow> bool" where
  "open_at n f G j d \<longleftrightarrow> j < n \<and> g_dev G j = Some d \<and> lfdirptr (lfltab f d) = int j \<and> lfstate (lfltab f d) = LF_USED"

text \<open>What no step of \<^verbatim>\<open>lfsetup\<close> changes.\<close>

definition dir_head :: "lfdir \<Rightarrow> u32 \<times> u32 \<times> u32 \<times> u32" where
  "dir_head D = (lfd_fsysid D, lfd_allzeros D, lfd_allones D, lfd_revid D)"

lemma dir_head_simps [simp]:
  "dir_head (D\<lparr>lfd_dfree := x\<rparr>) = dir_head D" "dir_head (D\<lparr>lfd_ifree := x\<rparr>) = dir_head D"
  "dir_head (D\<lparr>lfd_nfiles := x\<rparr>) = dir_head D" "dir_head (D\<lparr>lfd_files := es\<rparr>) = dir_head D"
  by (simp_all add: dir_head_def)

definition same_env :: "nat \<Rightarrow> fsys \<Rightarrow> fsys \<Rightarrow> bool" where
  "same_env n f' f \<longleftrightarrow> lf_dskdev f' = lf_dskdev f \<and> lf_mutex f' = lf_mutex f \<and> lf_dirpresent f' = lf_dirpresent f
     \<and> lfd_nfiles (lf_dir f') = lfd_nfiles (lf_dir f) \<and> dir_head (lf_dir f') = dir_head (lf_dir f)
     \<and> (\<forall>i<n. ld_size (entry f' i) = ld_size (entry f i) \<and> ld_name (entry f' i) = ld_name (entry f i))"

lemma same_env_trans: "same_env n f2 f1 \<Longrightarrow> same_env n f1 f \<Longrightarrow> same_env n f2 f"
  by (simp add: same_env_def)

lemma layout_keep:
  assumes l: "layout K n f G" and j: "j < n" "g_dev G j = Some d"
    and f': "lf_dir f' = lf_dir f" "lfltab f' = (lfltab f)(d := t')" "keep_disk K (g_ibs G j) (g_dbs G j) f' f"
      "rep f' t' (g_ibs G j) (g_dbs G j) (g_blks G j)"
  shows "layout K n f' G"
proof -
  note L = layoutD [OF l]
  have "layout K n f' (G\<lparr>g_ibs := (g_ibs G)(j := g_ibs G j), g_dbs := (g_dbs G)(j := g_dbs G j), g_blks := (g_blks G)(j := g_blks G j),
    g_fib := g_fib G, g_fdb := g_fdb G\<rparr>)"
    by (rule layout_step [OF l j]) (use L(1,7,9) L(10) [OF j(1)] f' in \<open>simp_all add: moved_def entry_def file_at_def\<close>)
  then show ?thesis by simp
qed

lemma rep_flushed: "rep f t ibs dbs blks \<Longrightarrow> rep f (t\<lparr>lfdbdirty := lfdbdirty t\<rparr>) ibs dbs blks"
  by simp

lemma lfflush_spec:
  assumes l: "layout K n (lfs s) G" and o: "open_at n (lfs s) G j d" and r: "is_ram (lf_dskdev (lfs s))"
  obtains f' where "lfflush (ram_drv rest) d s = Ret (s\<lparr>lfs := f'\<rparr>) OK" "layout K n f' G" "same_env n f' (lfs s)"
    "lfltab f' = (lfltab (lfs s))(d := (lfltab (lfs s) d)\<lparr>lfdbdirty := False, lfibdirty := False\<rparr>)" "lf_dir f' = lf_dir (lfs s)"
    "\<not> lf_dirdirty f'" "lf_dirdirty (lfs s) \<longrightarrow> dir_of (sector f' 0) = lf_dir (lfs s)"
proof -
  let ?f = "lfs s" and ?ibs = "g_ibs G j" and ?dbs = "g_dbs G j" and ?blks = "g_blks G j"
  let ?t = "lfltab ?f d"
  have j: "j < n" "g_dev G j = Some d" "lfstate ?t = LF_USED" using o by (simp_all add: open_at_def)
  have own: "own_blocks K ?ibs ?dbs" by (rule layout_own [OF l j(1)])
  have bs: "length (dir_bytes (lf_dir ?f)) = LF_BLKSIZ" by (rule length_dir_bytes [OF layoutD(1) [OF l]])
  define f1 where "f1 = (if lf_dirdirty ?f then (put_sector 0 (dir_bytes (lf_dir ?f)) ?f)\<lparr>lf_dirdirty := False\<rparr> else ?f)"
  have f1: "rep f1 ?t ?ibs ?dbs ?blks" "keep_disk K ?ibs ?dbs f1 ?f" "lf_dir f1 = lf_dir ?f" "lfltab f1 = lfltab ?f"
    "lf_dskdev f1 = lf_dskdev ?f" "lf_mutex f1 = lf_mutex ?f" "lf_dirpresent f1 = lf_dirpresent ?f" "\<not> lf_dirdirty f1"
    "lf_dirdirty ?f \<longrightarrow> dir_of (sector f1 0) = lf_dir ?f"
    using dir_of_bytes [OF layoutD(1) [OF l]] sector_put [OF bs] layout_rep [OF l j(1,2)] dir_sector_apart [OF bs] own by (simp_all add: f1_def keep_refl)
  define f2 where "f2 = (if lfdbdirty ?t then (put_sector (unat (lfdnum ?t)) (lfdblock ?t) f1)\<lparr>lfltab := (lfltab f1)(d := ?t\<lparr>lfdbdirty := False\<rparr>)\<rparr> else f1)"
  have f2: "rep f2 (?t\<lparr>lfdbdirty := False\<rparr>) ?ibs ?dbs ?blks" "keep_disk K ?ibs ?dbs f2 ?f" "lf_dir f2 = lf_dir ?f"
    "lfltab f2 = (lfltab ?f)(d := ?t\<lparr>lfdbdirty := False\<rparr>)"
    "lf_dskdev f2 = lf_dskdev ?f" "lf_mutex f2 = lf_mutex ?f" "lf_dirpresent f2 = lf_dirpresent ?f" "\<not> lf_dirdirty f2"
    "lfdbdirty ?t \<Longrightarrow> unat (lfdnum ?t) < 200" "sector f2 0 = sector f1 0"
  proof -
    note fd = flush_data [OF f1(1) own]
    have "lfdbdirty ?t \<Longrightarrow> unat (lfdnum ?t) \<noteq> 0" using fd(2) own by (fastforce simp: own_blocks_def)
    then show "sector f2 0 = sector f1 0" using fd(3) by (auto simp: f2_def sector_put)
    have k: "keep_disk K ?ibs ?dbs f2 f1" using fd data_sector_apart(1) [OF _ _ own] by (simp add: f2_def keep_refl)
    show "keep_disk K ?ibs ?dbs f2 ?f" by (rule keep_trans [OF k f1(2)])
    have "rep f2 (?t\<lparr>lfdbdirty := False\<rparr>) ?ibs ?dbs ?blks \<and> lfltab f2 = (lfltab ?f)(d := ?t\<lparr>lfdbdirty := False\<rparr>)"
    proof (cases "lfdbdirty ?t")
      case True
      then show ?thesis using fd(1) f1(4) by (simp add: f2_def)
    next
      case False
      then have e: "?t\<lparr>lfdbdirty := False\<rparr> = ?t" by simp
      show ?thesis unfolding e using False f1(1,4) by (simp add: f2_def)
    qed
    then show "rep f2 (?t\<lparr>lfdbdirty := False\<rparr>) ?ibs ?dbs ?blks" "lfltab f2 = (lfltab ?f)(d := ?t\<lparr>lfdbdirty := False\<rparr>)"
      by simp_all
    show "lfdbdirty ?t \<Longrightarrow> unat (lfdnum ?t) < 200" using fd(2) own by (simp add: own_blocks_def)
  qed (use f1 in \<open>simp_all add: f2_def\<close>)
  let ?t2 = "?t\<lparr>lfdbdirty := False\<rparr>"
  define f3 where "f3 = (if lfibdirty ?t then (put_iblk (lfinum ?t) (lfiblock ?t) f2)\<lparr>lfltab := (lfltab f2)(d := ?t2\<lparr>lfibdirty := False\<rparr>)\<rparr> else f2)"
  have f3: "rep f3 (?t2\<lparr>lfibdirty := False\<rparr>) ?ibs ?dbs ?blks" "keep_disk K ?ibs ?dbs f3 ?f" "lf_dir f3 = lf_dir ?f"
    "lfltab f3 = (lfltab ?f)(d := ?t2\<lparr>lfibdirty := False\<rparr>)"
    "lf_dskdev f3 = lf_dskdev ?f" "lf_mutex f3 = lf_mutex ?f" "lf_dirpresent f3 = lf_dirpresent ?f" "\<not> lf_dirdirty f3"
    "lfibdirty ?t \<Longrightarrow> unat (lfinum ?t) < 1393" "sector f3 0 = sector f2 0"
  proof -
    have fi: "lfibdirty ?t \<Longrightarrow> rep (put_iblk (lfinum ?t) (lfiblock ?t) f2) (?t2\<lparr>lfibdirty := False\<rparr>) ?ibs ?dbs ?blks"
      "lfibdirty ?t \<Longrightarrow> lfinum ?t \<in> set ?ibs" "lfibdirty ?t \<Longrightarrow> length (ib_dba (lfiblock ?t)) = LF_IBLEN"
      using flush_index [OF f2(1) own] by simp_all
    show "sector f3 0 = sector f2 0" using fi(3) by (simp add: f3_def sector_put_iblk)
    have k: "keep_disk K ?ibs ?dbs f3 f2" using fi(2,3) iblk_write_apart(1) [OF _ _ own] by (simp add: f3_def keep_refl)
    show "keep_disk K ?ibs ?dbs f3 ?f" by (rule keep_trans [OF k f2(2)])
    have "rep f3 (?t2\<lparr>lfibdirty := False\<rparr>) ?ibs ?dbs ?blks \<and> lfltab f3 = (lfltab ?f)(d := ?t2\<lparr>lfibdirty := False\<rparr>)"
    proof (cases "lfibdirty ?t")
      case True
      then show ?thesis using fi(1) f2(4) by (simp add: f3_def)
    next
      case False
      then have e: "?t2\<lparr>lfibdirty := False\<rparr> = ?t2" by simp
      show ?thesis unfolding e using False f2(1,4) by (simp add: f3_def)
    qed
    then show "rep f3 (?t2\<lparr>lfibdirty := False\<rparr>) ?ibs ?dbs ?blks" "lfltab f3 = (lfltab ?f)(d := ?t2\<lparr>lfibdirty := False\<rparr>)"
      by simp_all
    show "lfibdirty ?t \<Longrightarrow> unat (lfinum ?t) < 1393" using fi(2) own by (force simp: own_blocks_def)
  qed (use f2 in \<open>simp_all add: f3_def\<close>)
  have 1: "kwhen (lf_dirdirty ?f) (\<lambda>s. kbind (put_dir (ram_drv rest) s) (\<lambda>s1 _. Ret (upd_lfs (\<lambda>f. f\<lparr>lf_dirdirty := False\<rparr>) s1) ())) s
      = Ret (s\<lparr>lfs := f1\<rparr>) ()"
    using r by (simp add: kwhen_def f1_def put_dir_ram)
  have 2: "kwhen (lfdbdirty ?t) (\<lambda>s. kbind (bwrite (ram_drv rest) (lf_dskdev (lfs s)) (lfdblock (lfltab (lfs s) d)) (lfdnum (lfltab (lfs s) d)) s)
             (\<lambda>s1 _. Ret (upd_lfl d (\<lambda>t. t\<lparr>lfdbdirty := False\<rparr>) s1) ())) (s\<lparr>lfs := f1\<rparr>) = Ret (s\<lparr>lfs := f2\<rparr>) ()"
    using r f1 f2(9) by (simp add: kwhen_def f2_def bwrite_ram upd_lfl_eq)
  have 3: "kwhen (lfibdirty ?t) (\<lambda>s. kbind (lfibput (ram_drv rest) (lf_dskdev (lfs s)) (lfinum (lfltab (lfs s) d)) (lfiblock (lfltab (lfs s) d)) s)
             (\<lambda>s1 _. Ret (upd_lfl d (\<lambda>t. t\<lparr>lfibdirty := False\<rparr>) s1) ())) (s\<lparr>lfs := f2\<rparr>) = Ret (s\<lparr>lfs := f3\<rparr>) ()"
    using r f2 f3(9) by (simp add: kwhen_def f3_def lfibput_ram upd_lfl_eq)
  have "lfflush (ram_drv rest) d s = Ret (s\<lparr>lfs := f3\<rparr>) OK"
    using j(3) 1 2 3 f1(4) f2(4) by (simp add: lfflush_def)
  moreover have "layout K n f3 G" by (rule layout_keep [OF l j(1,2) f3(3,4,2,1)])
  moreover have "same_env n f3 ?f" using f3 by (simp add: same_env_def entry_def)
  ultimately show thesis using that f3 f1(9) f2(10) by simp
qed

section \<open>Allocating a block\<close>

definition pop_ib :: "u32 list \<Rightarrow> fsys \<Rightarrow> fsys" where
  "pop_ib xs f = (let D = (lf_dir f)\<lparr>lfd_ifree := nth_or xs 0\<rparr> in (put_sector 0 (dir_bytes D) (f\<lparr>lf_dir := D\<rparr>))\<lparr>lf_dirdirty := False\<rparr>)"

definition pop_db :: "u32 list \<Rightarrow> fsys \<Rightarrow> fsys" where
  "pop_db ys f = (let D = (lf_dir f)\<lparr>lfd_dfree := nth_or ys 0\<rparr> in (put_sector 0 (dir_bytes D) (f\<lparr>lf_dir := D\<rparr>))\<lparr>lf_dirdirty := False\<rparr>)"

lemma pop_simps [simp]:
  "lf_dir (pop_ib xs f) = (lf_dir f)\<lparr>lfd_ifree := nth_or xs 0\<rparr>" "lf_dir (pop_db xs f) = (lf_dir f)\<lparr>lfd_dfree := nth_or xs 0\<rparr>"
  "lfltab (pop_ib xs f) = lfltab f" "lfltab (pop_db xs f) = lfltab f" "lf_dskdev (pop_ib xs f) = lf_dskdev f"
  "lf_dskdev (pop_db xs f) = lf_dskdev f" "lf_mutex (pop_ib xs f) = lf_mutex f" "lf_mutex (pop_db xs f) = lf_mutex f"
  "lf_dirpresent (pop_ib xs f) = lf_dirpresent f" "lf_dirpresent (pop_db xs f) = lf_dirpresent f"
  "entry (pop_ib xs f) j = entry f j" "entry (pop_db xs f) j = entry f j"
  by (simp_all add: pop_ib_def pop_db_def Let_def entry_def)

lemma pop_disk:
  assumes "dir_shape (lf_dir f)"
  shows "iblk (pop_ib xs f) x = iblk f x" "b \<noteq> 0 \<Longrightarrow> sector (pop_ib xs f) b = sector f b"
    "iblk (pop_db xs f) x = iblk f x" "b \<noteq> 0 \<Longrightarrow> sector (pop_db xs f) b = sector f b"
proof -
  have "length (dir_bytes ((lf_dir f)\<lparr>lfd_ifree := nth_or xs 0\<rparr>)) = LF_BLKSIZ" "length (dir_bytes ((lf_dir f)\<lparr>lfd_dfree := nth_or xs 0\<rparr>)) = LF_BLKSIZ"
    using assms by (intro length_dir_bytes; simp add: dir_shape_def)+
  then show "iblk (pop_ib xs f) x = iblk f x" "b \<noteq> 0 \<Longrightarrow> sector (pop_ib xs f) b = sector f b"
    "iblk (pop_db xs f) x = iblk f x" "b \<noteq> 0 \<Longrightarrow> sector (pop_db xs f) b = sector f b"
    by (simp_all add: pop_ib_def pop_db_def Let_def iblk_put_sector sector_put)
qed

lemma keep_pop: "dir_shape (lf_dir f) \<Longrightarrow> keep_disk K ibs dbs (pop_ib xs f) f" "dir_shape (lf_dir f) \<Longrightarrow> keep_disk K ibs dbs (pop_db xs f) f"
  by (simp_all add: keep_disk_def pop_disk)

lemma lfiballoc_ram:
  assumes l: "layout K n (lfs s) G" and r: "is_ram (lf_dskdev (lfs s))" and x: "g_fib G = x # xs"
  shows "lfiballoc (ram_drv rest) s = Ret (s\<lparr>lfs := pop_ib xs (lfs s)\<rparr>) x" "x \<noteq> - 1" "unat x < 1393"
proof -
  note L = layoutD [OF l]
  have i: "in_range K n G" by (rule L(3))
  then show u: "unat x < 1393" using x by (simp add: in_range_def)
  then show n: "x \<noteq> - 1" by (auto simp: unsigned_minus_1_eq_mask mask_eq_exp_minus_1)
  have "lfd_ifree (lf_dir (lfs s)) = x" "ib_next (iblk (lfs s) x) = nth_or xs 0"
    using L(6,7) x by (simp_all add: nth_or_Cons free_ibs_def All_less_Suc2)
  then show "lfiballoc (ram_drv rest) s = Ret (s\<lparr>lfs := pop_ib xs (lfs s)\<rparr>) x"
    using r u n by (simp add: lfiballoc_def lfibget_ram upd_dir_eq put_dir_ram pop_ib_def Let_def)
qed

lemma lfdballoc_ram:
  assumes l: "layout K n (lfs s) G" and r: "is_ram (lf_dskdev (lfs s))" and y: "g_fdb G = y # ys"
  shows "lfdballoc (ram_drv rest) d s = Ret (s\<lparr>lfs := (pop_db ys (lfs s))\<lparr>lfltab := (lfltab (lfs s))(d :=
      (lfltab (lfs s) d)\<lparr>lfdblock := replicate LF_BLKSIZ DFILL\<rparr>)\<rparr>\<rparr>) y" "y \<noteq> - 1" "unat y < 200" "K < unat y"
proof -
  note L = layoutD [OF l]
  show u: "unat y < 200" "K < unat y" using L(3) y by (simp_all add: in_range_def)
  then show n: "y \<noteq> - 1" by (auto simp: unsigned_minus_1_eq_mask mask_eq_exp_minus_1)
  have h: "lfd_dfree (lf_dir (lfs s)) = y" "word_at (sector (lfs s) (unat y)) 0 = nth_or ys 0"
    using L(8,9) y by (simp_all add: nth_or_Cons free_dbs_def All_less_Suc2)
  let ?D = "(lf_dir (lfs s))\<lparr>lfd_dfree := nth_or ys 0\<rparr>"
  show "lfdballoc (ram_drv rest) d s = Ret (s\<lparr>lfs := (pop_db ys (lfs s))\<lparr>lfltab := (lfltab (lfs s))(d :=
      (lfltab (lfs s) d)\<lparr>lfdblock := replicate LF_BLKSIZ DFILL\<rparr>)\<rparr>\<rparr>) y"
    using r u(1) n h
    by (simp add: lfdballoc_def put_sector_tab bread_ram upd_lfl_eq upd_dir_eq put_dir_ram pop_db_def Let_def)
qed

section \<open>An index block in memory\<close>

text \<open>The map after the file has taken an index block or a data block off the free list.\<close>

definition grow_ib :: "nat \<Rightarrow> lfmap \<Rightarrow> lfmap" where
  "grow_ib j G = G\<lparr>g_ibs := (g_ibs G)(j := g_ibs G j @ [hd (g_fib G)]), g_fib := tl (g_fib G)\<rparr>"

definition grow_db :: "nat \<Rightarrow> lfmap \<Rightarrow> lfmap" where
  "grow_db j G = G\<lparr>g_dbs := (g_dbs G)(j := g_dbs G j @ [hd (g_fdb G)]),
     g_blks := (g_blks G)(j := g_blks G j @ [replicate LF_BLKSIZ DFILL]), g_fdb := tl (g_fdb G)\<rparr>"

lemma grow_ib_layout:
  assumes l: "layout K n f G" and j: "j < n" "g_dev G j = Some d" and x: "g_fib G = x # xs"
    and f': "lf_dir f' = lf_dir (pop_ib xs f)\<lparr>lfd_files := lfd_files (lf_dir f')\<rparr>" "dir_shape (lf_dir f')"
      "lfltab f' = (lfltab f)(d := t')" "keep_disk K (g_ibs G j @ [x]) (g_dbs G j) f' f"
      "\<And>i. i < n \<Longrightarrow> i \<noteq> j \<Longrightarrow> entry f' i = entry f i" "ld_ilist (entry f' j) = nth_or (g_ibs G j @ [x]) 0"
      "rep f' t' (g_ibs G j @ [x]) (g_dbs G j) (g_blks G j)"
  shows "layout K n f' (grow_ib j G)"
proof -
  have D: "lfd_ifree (lf_dir f') = nth_or xs 0" "lfd_dfree (lf_dir f') = nth_or (g_fdb G) 0"
    using arg_cong [OF f'(1), of lfd_ifree] arg_cong [OF f'(1), of lfd_dfree] layoutD(9) [OF l] by simp_all
  have "layout K n f' (G\<lparr>g_ibs := (g_ibs G)(j := g_ibs G j @ [x]), g_dbs := (g_dbs G)(j := g_dbs G j), g_blks := (g_blks G)(j := g_blks G j),
    g_fib := xs, g_fdb := g_fdb G\<rparr>)"
    by (rule layout_step [OF l j]) (use layoutD(10) [OF l j(1)] f' D x in \<open>simp_all add: moved_def file_at_def\<close>)
  then show ?thesis using x by (simp add: grow_ib_def)
qed

text \<open>After the first part of \<^verbatim>\<open>lfsetup\<close>: index block \<open>k\<close> of the file is in memory, at or before the position.\<close>

definition at_index :: "nat \<Rightarrow> nat \<Rightarrow> fsys \<Rightarrow> lfmap \<Rightarrow> nat \<Rightarrow> int \<Rightarrow> nat \<Rightarrow> bool" where
  "at_index K n f G j d k \<longleftrightarrow> layout K n f G \<and> open_at n f G j d \<and> k < length (g_ibs G j) \<and> lfinum (lfltab f d) = g_ibs G j ! k
     \<and> k \<le> unat (lfpos (lfltab f d)) div 8192 \<and> \<not> lfdbdirty (lfltab f d) \<and> (lfibdirty (lfltab f d) \<longrightarrow> k + 1 = length (g_ibs G j))"

text \<open>The rest of the system: the environment, the other control blocks, the position and the mutex of this one.\<close>

definition same_rest :: "nat \<Rightarrow> int \<Rightarrow> fsys \<Rightarrow> fsys \<Rightarrow> bool" where
  "same_rest n d f' f \<longleftrightarrow> same_env n f' f \<and> (\<forall>i. i \<noteq> d \<longrightarrow> lfltab f' i = lfltab f i) \<and> lfpos (lfltab f' d) = lfpos (lfltab f d)
     \<and> lfmutex (lfltab f' d) = lfmutex (lfltab f d) \<and> lfmode (lfltab f' d) = lfmode (lfltab f d) \<and> lfname (lfltab f' d) = lfname (lfltab f d)
     \<and> lfdev (lfltab f' d) = lfdev (lfltab f d)"

lemma same_rest_trans: "same_rest n d f2 f1 \<Longrightarrow> same_rest n d f1 f \<Longrightarrow> same_rest n d f2 f"
  by (auto simp: same_rest_def intro: same_env_trans)

lemma position_word: "unat (p :: u32) < 8192 * k \<longleftrightarrow> p < of_nat (8192 * k)" if "k \<le> 1393"
  using that by (simp add: word_less_nat_alt unat_of_nat del: of_nat_mult)

lemma lf_load_first:
  assumes l: "layout K n (lfs s) G" and o: "open_at n (lfs s) G j d" and r: "is_ram (lf_dskdev (lfs s))"
    and c: "\<not> lfibdirty (lfltab (lfs s) d)" "\<not> lfdbdirty (lfltab (lfs s) d)" and k: "k < length (g_ibs G j)"
  defines "f' \<equiv> (lfs s)\<lparr>lfltab := (lfltab (lfs s))(d := (lfltab (lfs s) d)\<lparr>lfiblock := iblk (lfs s) (g_ibs G j ! k), lfinum := g_ibs G j ! k\<rparr>)\<rparr>"
  shows "lfibget (ram_drv rest) (lf_dskdev (lfs s)) (g_ibs G j ! k) s = Ret s (iblk (lfs s) (g_ibs G j ! k))"
    "k \<le> unat (lfpos (lfltab (lfs s) d)) div 8192 \<Longrightarrow> at_index K n f' G j d k" "same_rest n d f' (lfs s)"
proof -
  have j: "j < n" "g_dev G j = Some d" using o by (simp_all add: open_at_def)
  note own = layout_own [OF l j(1)]
  have "unat (g_ibs G j ! k) < 1393" using own nth_mem [OF k] by (force simp: own_blocks_def)
  then show "lfibget (ram_drv rest) (lf_dskdev (lfs s)) (g_ibs G j ! k) s = Ret s (iblk (lfs s) (g_ibs G j ! k))"
    by (rule lfibget_ram [OF r])
  have "layout K n f' G"
    by (rule layout_keep [OF l j]) (use load_index [OF layout_rep [OF l j] _ c(1) k] own in
      \<open>simp_all add: f'_def keep_refl own_blocks_def\<close>)
  then show "k \<le> unat (lfpos (lfltab (lfs s) d)) div 8192 \<Longrightarrow> at_index K n f' G j d k"
    using o c k by (simp add: at_index_def open_at_def f'_def)
  show "same_rest n d f' (lfs s)" by (simp add: same_rest_def same_env_def f'_def entry_def)
qed

lemma lf_first_new:
  assumes l: "layout K n (lfs s) G" and o: "open_at n (lfs s) G j d" and r: "is_ram (lf_dskdev (lfs s))"
    and c: "\<not> lfdbdirty (lfltab (lfs s) d)" and g: "g_ibs G j = []" "g_fib G = x # xs" and i: "lfinum (lfltab (lfs s) d) = - 1"
  obtains f' where "lf_first (ram_drv rest) d s = Ret (s\<lparr>lfs := f'\<rparr>) ()" "at_index K n f' (grow_ib j G) j d 0" "same_rest n d f' (lfs s)"
proof -
  let ?f = "lfs s"
  let ?t = "lfltab ?f d" and ?dbs = "g_dbs G j"
  note L = layoutD [OF l]
  have j: "j < n" "g_dev G j = Some d" "lfdirptr ?t = int j" "lfstate ?t = LF_USED" using o by (simp_all add: open_at_def)
  have j20: "j < length (lfd_files (lf_dir ?f))" using L(1,2) j(1) by (simp add: dir_shape_def)
  note F = L(10) [OF j(1), unfolded file_at_def g(1)]
  have db: "?dbs = []" using F by simp
  note al = lfiballoc_ram [OF l r g(2)]
  define t' where "t' = ?t\<lparr>lfiblock := lfibclear 0, lfibdirty := True, lfinum := x\<rparr>"
  define D where "D = (lf_dir (pop_ib xs ?f))\<lparr>lfd_files := (lfd_files (lf_dir ?f))[j := (entry ?f j)\<lparr>ld_ilist := x\<rparr>]\<rparr>"
  define f' where "f' = (pop_ib xs ?f)\<lparr>lf_dir := D, lfltab := (lfltab ?f)(d := t')\<rparr>"
  have e: "ld_ilist (lde d s) = - 1" using F j(3) by (simp add: lde_def entry_def nth_or_def)
  have run: "lf_first (ram_drv rest) d s = Ret (s\<lparr>lfs := f'\<rparr>) ()"
    using i e al(1) j(3) by (simp add: lf_first_def upd_lde_def upd_lfl_eq upd_dir_eq f'_def t'_def D_def entry_def Let_def)
  have ent: "entry f' i = (if i = j then (entry ?f j)\<lparr>ld_ilist := x\<rparr> else entry ?f i)" if "i < n" for i
    using that j20 by (simp add: entry_def f'_def D_def nth_list_update)
  have "length (ld_name (entry ?f j)) = LF_NAME_LEN" using L(1) j20 by (simp add: dir_shape_def entry_def)
  then have sh: "dir_shape (lf_dir f')"
    using L(1) set_update_subset_insert [of "lfd_files (lf_dir ?f)" j "(entry ?f j)\<lparr>ld_ilist := x\<rparr>"]
    by (auto simp: dir_shape_def f'_def D_def)
  have "rep f' (?t\<lparr>lfiblock := lfibclear (of_nat (8192 * length ([] :: u32 list))), lfibdirty := True, lfinum := x\<rparr>) ([] @ [x]) ?dbs (g_blks G j)"
    by (rule new_index [OF layout_rep [OF l j(1,2), unfolded g(1)] al(2)]) (simp_all add: db)
  then have "rep f' t' [x] ?dbs (g_blks G j)" by (simp add: t'_def)
  moreover have "keep_disk K [x] ?dbs f' ?f" using keep_pop(1) [OF L(1)] by (simp add: f'_def)
  ultimately have "layout K n f' (grow_ib j G)"
    using ent sh j(1) g(1) by (intro grow_ib_layout [OF l j(1,2) g(2)]) (simp_all add: f'_def D_def nth_or_def)
  then have "at_index K n f' (grow_ib j G) j d 0"
    using o c g by (simp add: at_index_def open_at_def f'_def t'_def grow_ib_def)
  moreover have "same_rest n d f' ?f" using ent j(1) by (simp add: same_rest_def same_env_def f'_def t'_def D_def)
  ultimately show thesis using that run by blast
qed

lemma lf_first_spec:
  assumes l: "layout K n (lfs s) G" and o: "open_at n (lfs s) G j d" and r: "is_ram (lf_dskdev (lfs s))"
    and c: "\<not> lfibdirty (lfltab (lfs s) d)" "\<not> lfdbdirty (lfltab (lfs s) d)" and g: "g_ibs G j \<noteq> [] \<or> g_fib G \<noteq> []"
  obtains (res) f' k where "lf_first (ram_drv rest) d s = Ret (s\<lparr>lfs := f'\<rparr>) ()"
    "at_index K n f' (if g_ibs G j = [] then grow_ib j G else G) j d k" "same_rest n d f' (lfs s)"
proof -
  let ?f = "lfs s"
  let ?t = "lfltab ?f d" and ?ibs = "g_ibs G j"
  have j: "j < n" "g_dev G j = Some d" "lfdirptr ?t = int j" using o by (simp_all add: open_at_def)
  note own = layout_own [OF l j(1)] and R = layout_rep [OF l j(1,2)]
  have e: "ld_ilist (lde d s) = nth_or ?ibs 0"
    using layoutD(10) [OF l j(1)] j(3) by (simp add: lde_def entry_def file_at_def)
  have load: thesis if "lfinum ?t = - 1 \<or> lfpos ?t < ib_offset (lfiblock ?t)" "?ibs \<noteq> []"
  proof -
    have k: "0 < length ?ibs" and h: "nth_or ?ibs 0 = ?ibs ! 0" using that(2) by (simp_all add: nth_or_def)
    have "?ibs ! 0 \<noteq> - 1" using own_not_null(1) [OF own] nth_mem [OF k] by metis
    note ll = lf_load_first [OF l o r c k]
    have "lf_first (ram_drv rest) d s = Ret (s\<lparr>lfs := ?f\<lparr>lfltab := (lfltab ?f)(d := ?t\<lparr>lfiblock := iblk ?f (?ibs ! 0), lfinum := ?ibs ! 0\<rparr>)\<rparr>\<rparr>) ()"
      using that(1) e h ll(1) \<open>?ibs ! 0 \<noteq> - 1\<close> by (auto simp: lf_first_def upd_lfl_eq Let_def)
    moreover have "at_index K n (?f\<lparr>lfltab := (lfltab ?f)(d := ?t\<lparr>lfiblock := iblk ?f (?ibs ! 0), lfinum := ?ibs ! 0\<rparr>)\<rparr>) G j d 0"
      by (rule ll(2)) simp
    ultimately show thesis using that(2) ll(3) by (intro res) simp_all
  qed
  show thesis
  proof (cases "lfinum ?t = - 1")
    case True
    show thesis
    proof (cases "?ibs = []")
      case new: True
      obtain x xs where x: "g_fib G = x # xs" using g new by (cases "g_fib G") auto
      show thesis by (rule lf_first_new [OF l o r c(2) new x True, of rest]) (use new in \<open>intro res; simp\<close>)
    qed (use load True in blast)
  next
    case False
    then obtain k where k: "k < length ?ibs" "lfinum ?t = ?ibs ! k" using R by (auto simp: rep_def ib_rep_def in_set_conv_nth)
    then have ne: "?ibs \<noteq> []" by auto
    have off: "ib_offset (lfiblock ?t) = of_nat (8192 * k)" using rep_cached [OF R k] by simp
    have "k \<le> 1393" using k(1) own_lengths(1) [OF own] by simp
    note pw = position_word [OF this, of "lfpos ?t"]
    show thesis
    proof (cases "lfpos ?t < ib_offset (lfiblock ?t)")
      case True
      then show thesis using load ne by blast
    next
      case stay: False
      then have "\<not> unat (lfpos ?t) < 8192 * k" unfolding off pw .
      then have "k \<le> unat (lfpos ?t) div 8192" by (simp add: not_less less_eq_div_iff_mult_less_eq mult.commute)
      then have at: "at_index K n ?f G j d k" unfolding at_index_def using l o k c by blast
      have run: "lf_first (ram_drv rest) d s = Ret (s\<lparr>lfs := ?f\<rparr>) ()" using False stay by (simp add: lf_first_def Let_def)
      have "same_rest n d ?f ?f" by (simp add: same_rest_def same_env_def)
      then show thesis using at ne by (intro res [OF run]) simp_all
    qed
  qed
qed

section \<open>Walking the index blocks\<close>

lemma at_indexD:
  assumes "at_index K n f G j d k"
  shows "layout K n f G" "open_at n f G j d" "j < n" "g_dev G j = Some d" "k < length (g_ibs G j)" "lfinum (lfltab f d) = g_ibs G j ! k"
    "k \<le> unat (lfpos (lfltab f d)) div 8192" "\<not> lfdbdirty (lfltab f d)" "lfiblock (lfltab f d) = file_iblk (g_ibs G j) (g_dbs G j) k"
    "k \<le> 1393" "unat (lfinum (lfltab f d)) < 1393" "k + 1 < length (g_ibs G j) \<Longrightarrow> \<not> lfibdirty (lfltab f d)"
proof -
  show A: "layout K n f G" "open_at n f G j d" "j < n" "g_dev G j = Some d" "k < length (g_ibs G j)" "lfinum (lfltab f d) = g_ibs G j ! k"
    "k \<le> unat (lfpos (lfltab f d)) div 8192" "\<not> lfdbdirty (lfltab f d)" "k + 1 < length (g_ibs G j) \<Longrightarrow> \<not> lfibdirty (lfltab f d)"
    using assms by (auto simp: at_index_def open_at_def)
  note own = layout_own [OF A(1,3)]
  show "lfiblock (lfltab f d) = file_iblk (g_ibs G j) (g_dbs G j) k" by (rule rep_cached [OF layout_rep [OF A(1,3,4)] A(5,6)])
  show "k \<le> 1393" using A(5) own_lengths(1) [OF own] by simp
  show "unat (lfinum (lfltab f d)) < 1393" using own nth_mem [OF A(5)] A(6) by (force simp: own_blocks_def)
qed

text \<open>The block of a position against the offset of an index block.\<close>

lemma position_block: "unat ((p :: u32) AND NOT LF_IMASK) = 8192 * (unat p div 8192)"
proof -
  let ?m = "mask 13 :: u32"
  have "(p AND NOT ?m) + (p AND ?m) = (p AND NOT ?m) OR (p AND ?m)"
    by (rule disjunctive_add) (simp add: bit_and_iff bit_not_iff)
  also have "\<dots> = p" by (rule bit_eqI) (auto simp: bit_or_iff bit_and_iff bit_not_iff)
  finally have "p AND NOT ?m = p - take_bit 13 p" by (simp add: take_bit_eq_mask algebra_simps)
  moreover have "unat (p - take_bit 13 p) = unat p - unat (take_bit 13 p)"
    by (rule unat_sub) (simp add: take_bit_eq_mask word_and_le2)
  moreover have "unat (take_bit 13 p) = unat p mod 8192"
    unfolding unsigned_take_bit_eq by (simp add: take_bit_eq_mod)
  moreover have "LF_IMASK = ?m" by (simp add: mask_eq_exp_minus_1)
  ultimately show ?thesis by (simp only: minus_mod_eq_mult_div)
qed

lemma beyond_index: "k \<le> 1393 \<Longrightarrow> of_nat (8192 * k) < (p :: u32) AND NOT LF_IMASK \<longleftrightarrow> k < unat p div 8192"
  unfolding word_less_nat_alt position_block by (subst unat_of_nat, subst mod_less) simp_all

lemma at_index_drop:
  assumes "at_index K n f G j d k"
  defines "f' \<equiv> f\<lparr>lfltab := (lfltab f)(d := (lfltab f d)\<lparr>lfdnum := - 1\<rparr>)\<rparr>"
  shows "at_index K n f' G j d k" "same_rest n d f' f"
proof -
  note A = at_indexD [OF assms(1)]
  have "layout K n f' G"
    by (rule layout_keep [OF A(1,3,4)])
      (use drop_data [OF layout_rep [OF A(1,3,4)] layout_own [OF A(1,3)] A(8)] in \<open>simp_all add: f'_def keep_refl\<close>)
  then show "at_index K n f' G j d k" using assms(1) by (simp add: at_index_def open_at_def f'_def)
  show "same_rest n d f' f" by (simp add: same_rest_def same_env_def f'_def entry_def)
qed

text \<open>One step to an index block that the file has.\<close>

lemma lf_advance_next:
  assumes a: "at_index K n (lfs s) G j d k" and r: "is_ram (lf_dskdev (lfs s))"
    and k: "k + 1 < length (g_ibs G j)" "k < unat (lfpos (lfltab (lfs s) d)) div 8192"
  obtains f' where "lf_advance (Suc m) (ram_drv rest) d s = lf_advance m (ram_drv rest) d (s\<lparr>lfs := f'\<rparr>)"
    "at_index K n f' G j d (k + 1)" "same_rest n d f' (lfs s)"
proof -
  let ?f = "lfs s"
  let ?t = "lfltab ?f d" and ?ib = "g_ibs G j ! (k + 1)"
  note A = at_indexD [OF a]
  note ll = lf_load_first [OF A(1,2) r A(12) [OF k(1)] A(8) k(1)]
  let ?f1 = "?f\<lparr>lfltab := (lfltab ?f)(d := ?t\<lparr>lfiblock := iblk ?f ?ib, lfinum := ?ib\<rparr>)\<rparr>"
  let ?f2 = "?f1\<lparr>lfltab := (lfltab ?f1)(d := (lfltab ?f1 d)\<lparr>lfdnum := - 1\<rparr>)\<rparr>"
  have at: "at_index K n ?f1 G j d (k + 1)" by (rule ll(2)) (use k(2) in simp)
  have nx: "ib_next (lfiblock ?t) = ?ib" "ib_offset (lfiblock ?t) = of_nat (8192 * k)"
    unfolding A(9) using k(1) by (simp_all add: nth_or_def)
  have "?ib \<noteq> - 1" using own_not_null(1) [OF layout_own [OF A(1,3)]] nth_mem [OF k(1)] by metis
  moreover have "of_nat (8192 * k) < lfpos ?t AND NOT LF_IMASK" using beyond_index [OF A(10)] k(2) by blast
  ultimately have "lf_advance (Suc m) (ram_drv rest) d s = lf_advance m (ram_drv rest) d (s\<lparr>lfs := ?f2\<rparr>)"
    using ll(1) by (simp add: nx Let_def upd_lfl_eq del: of_nat_mult)
  moreover have "same_rest n d ?f2 ?f" by (rule same_rest_trans [OF at_index_drop(2) [OF at] ll(3)])
  ultimately show thesis using that at_index_drop(1) [OF at] by blast
qed

lemma put_iblk_tab: "put_iblk x b (f\<lparr>lfltab := h\<rparr>) = (put_iblk x b f)\<lparr>lfltab := h\<rparr>"
  by (cases f) (simp add: put_iblk_def put_sector_def ram_store_def sector_def ram_bytes_def Let_def cong: if_cong)

text \<open>One step to an index block taken off the free list.\<close>

lemma lf_advance_new:
  assumes a: "at_index K n (lfs s) G j d k" and r: "is_ram (lf_dskdev (lfs s))"
    and k: "k + 1 = length (g_ibs G j)" "k < unat (lfpos (lfltab (lfs s) d)) div 8192" and g: "g_fib G = x # xs"
  obtains f' where "lf_advance (Suc m) (ram_drv rest) d s = lf_advance m (ram_drv rest) d (s\<lparr>lfs := f'\<rparr>)"
    "at_index K n f' (grow_ib j G) j d (k + 1)" "same_rest n d f' (lfs s)"
proof -
  let ?f = "lfs s" and ?ibs = "g_ibs G j" and ?dbs = "g_dbs G j"
  let ?t = "lfltab ?f d"
  note A = at_indexD [OF a] and L = layoutD [OF at_indexD(1) [OF a]]
  note R = layout_rep [OF A(1,3,4)] and own = layout_own [OF A(1,3)]
  note al = lfiballoc_ram [OF A(1) r g]
  have F: "length ?dbs \<le> 16 * length ?ibs" "ld_ilist (entry ?f j) = nth_or ?ibs 0" using L(10) [OF A(3)] by (simp_all add: file_at_def)
  have x: "x \<notin> set ?ibs" using apartD(1) [OF L(4) A(3)] g by auto
  have nx: "ib_next (lfiblock ?t) = - 1" "ib_offset (lfiblock ?t) = of_nat (8192 * k)"
    unfolding A(9) using k(1) by (simp_all add: nth_or_def)
  define b where "b = (lfiblock ?t)\<lparr>ib_next := x\<rparr>"
  define f1 where "f1 = put_iblk (lfinum ?t) b (pop_ib xs ?f)"
  define t' where "t' = ?t\<lparr>lfiblock := lfibclear (of_nat (8192 * (k + 1))), lfibdirty := True, lfinum := x\<rparr>"
  define f2 where "f2 = f1\<lparr>lfltab := (lfltab ?f)(d := t')\<rparr>"
  let ?f3 = "f2\<lparr>lfltab := (lfltab f2)(d := (lfltab f2 d)\<lparr>lfdnum := - 1\<rparr>)\<rparr>"
  have b: "b = file_iblk (?ibs @ [x]) ?dbs k" "length (ib_dba b) = LF_IBLEN"
    unfolding b_def A(9) using k(1) by (simp_all add: file_iblk_def nth_or_append)
  have disk: "iblk f1 (?ibs ! i) = file_iblk (?ibs @ [x]) ?dbs i" if "i < length ?ibs" for i
  proof (cases "i = k")
    case True
    show ?thesis unfolding f1_def True A(6) iblk_put_same [OF b(2)] by (rule b(1))
  next
    case False
    have "?ibs ! i \<noteq> lfinum ?t" using own A(5,6) that False by (simp add: own_blocks_def nth_eq_iff_index_eq)
    moreover have "iblk ?f (?ibs ! i) = file_iblk ?ibs ?dbs i"
      using R that calculation by (auto simp: rep_def ib_rep_def)
    ultimately show ?thesis
      using False k(1) by (simp add: f1_def iblk_put_other [OF b(2)] pop_disk(1) [OF L(1)] file_iblk_more(1))
  qed
  have sec: "sector f1 (unat y) = sector ?f (unat y)" if "y \<in> set ?dbs" for y
  proof -
    have "sector f1 (unat y) = sector (pop_ib xs ?f) (unat y)"
      unfolding f1_def by (rule iblk_write_apart(2) [OF b(2) _ own that]) (use A(5,6) in simp)
    also have "unat y \<noteq> 0" using own that by (auto simp: own_blocks_def)
    then have "sector (pop_ib xs ?f) (unat y) = sector ?f (unat y)" by (rule pop_disk(2) [OF L(1)])
    finally show ?thesis .
  qed
  have "rep f1 (?t\<lparr>lfiblock := lfibclear (of_nat (8192 * length ?ibs)), lfibdirty := True, lfinum := x\<rparr>) (?ibs @ [x]) ?dbs (g_blks G j)"
    by (rule new_index [OF R al(2) x F(1) disk sec])
  then have "rep f2 t' (?ibs @ [x]) ?dbs (g_blks G j)" using k(1) by (simp add: f2_def t'_def)
  moreover have "keep_disk K (?ibs @ [x]) ?dbs f2 ?f"
  proof -
    have "keep_disk K ?ibs ?dbs f1 (pop_ib xs ?f)"
      unfolding f1_def by (rule iblk_write_apart(1) [OF b(2) _ own]) (use A(5,6) in simp)
    then have "keep_disk K ?ibs ?dbs f1 ?f" by (rule keep_trans [OF _ keep_pop(1) [OF L(1)]])
    then show ?thesis by (simp add: f2_def keep_disk_def)
  qed
  moreover have e: "entry f2 i = entry ?f i" for i by (simp add: f2_def f1_def entry_def)
  moreover have "dir_shape (lf_dir f2)" using L(1) by (simp add: f2_def f1_def dir_shape_def)
  ultimately have "layout K n f2 (grow_ib j G)"
    using F(2) k(1) A(5) by (intro grow_ib_layout [OF A(1,3,4) g]) (auto simp: f2_def f1_def nth_or_append)
  moreover have "k + 1 \<le> unat (lfpos ?t) div 8192" using k(2) by simp
  ultimately have at: "at_index K n f2 (grow_ib j G) j d (k + 1)"
  proof -
    assume l: "layout K n f2 (grow_ib j G)" and "k + 1 \<le> unat (lfpos ?t) div 8192"
    then show ?thesis unfolding at_index_def
      by (intro conjI [OF l]) (use A(2,8) k(1) g in \<open>simp add: open_at_def f2_def t'_def grow_ib_def nth_append\<close>)
  qed
  have same: "same_rest n d ?f3 ?f"
    using e by (simp add: same_rest_def same_env_def f2_def f1_def t'_def entry_def)
  have t3: "(lfltab f2 d)\<lparr>lfdnum := - 1\<rparr> = ?t\<lparr>lfinum := x, lfiblock := lfibclear (of_nat (8192 * (k + 1))), lfibdirty := True, lfdnum := - 1\<rparr>"
    by (cases ?t) (simp add: f2_def t'_def)
  have "of_nat (8192 * k) < lfpos ?t AND NOT LF_IMASK" using beyond_index [OF A(10)] k(2) by blast
  then have "lf_advance (Suc m) (ram_drv rest) d s = lf_advance m (ram_drv rest) d (s\<lparr>lfs := ?f3\<rparr>)"
    using al(1) r A(11) unfolding t3 by (simp add: nx b_def f1_def f2_def Let_def upd_lfl_eq lfibput_ram upd_lfs_def put_iblk_tab add.commute)
  then show thesis using that at_index_drop(1) [OF at] same by blast
qed

text \<open>The walk ends at the index block of the position, the last one of the file or one more.\<close>

lemma lf_advance_spec:
  assumes "at_index K n (lfs s) G j d k" "is_ram (lf_dskdev (lfs s))" "unat (lfpos (lfltab (lfs s) d)) div 8192 - k < m"
    "unat (lfpos (lfltab (lfs s) d)) div 8192 < length (g_ibs G j)
     \<or> unat (lfpos (lfltab (lfs s) d)) div 8192 = length (g_ibs G j) \<and> g_fib G \<noteq> []"
  obtains (res) f' G' where "lf_advance m (ram_drv rest) d s = Ret (s\<lparr>lfs := f'\<rparr>) ()"
    "G' = (if unat (lfpos (lfltab (lfs s) d)) div 8192 < length (g_ibs G j) then G else grow_ib j G)"
    "at_index K n f' G' j d (unat (lfpos (lfltab (lfs s) d)) div 8192)" "same_rest n d f' (lfs s)"
  using assms
proof (induction m arbitrary: s G k thesis)
  case (Suc m)
  let ?q = "unat (lfpos (lfltab (lfs s) d)) div 8192"
  note A = at_indexD [OF Suc.prems(2)]
  have off: "ib_offset (lfiblock (lfltab (lfs s) d)) = of_nat (8192 * k)" unfolding A(9) by simp
  note bi = beyond_index [OF A(10), of "lfpos (lfltab (lfs s) d)"]
  show thesis
  proof (cases "k < ?q")
    case False
    then have q: "?q = k" using A(7) by simp
    have run: "lf_advance (Suc m) (ram_drv rest) d s = Ret (s\<lparr>lfs := lfs s\<rparr>) ()"
      using bi False by (simp add: off del: of_nat_mult)
    have "same_rest n d (lfs s) (lfs s)" by (simp add: same_rest_def same_env_def)
    then show thesis using Suc.prems(2) A(5) q by (intro Suc.prems(1) [OF run]) simp_all
  next
    case True
    show thesis
    proof (cases "k + 1 < length (g_ibs G j)")
      case next_ib: True
      obtain f1 where f1: "lf_advance (Suc m) (ram_drv rest) d s = lf_advance m (ram_drv rest) d (s\<lparr>lfs := f1\<rparr>)"
        "at_index K n f1 G j d (k + 1)" "same_rest n d f1 (lfs s)"
        by (rule lf_advance_next [OF Suc.prems(2,3) next_ib True])
      have p: "lfpos (lfltab f1 d) = lfpos (lfltab (lfs s) d)" "lf_dskdev f1 = lf_dskdev (lfs s)"
        using f1(3) by (simp_all add: same_rest_def same_env_def)
      show thesis
      proof (rule Suc.IH [where s = "s\<lparr>lfs := f1\<rparr>" and G = G and k = "k + 1"])
        fix f' G'
        assume "lf_advance m (ram_drv rest) d (s\<lparr>lfs := f1\<rparr>) = Ret (s\<lparr>lfs := f1, lfs := f'\<rparr>) ()"
          "G' = (if unat (lfpos (lfltab (lfs (s\<lparr>lfs := f1\<rparr>)) d)) div 8192 < length (g_ibs G j) then G else grow_ib j G)"
          "at_index K n f' G' j d (unat (lfpos (lfltab (lfs (s\<lparr>lfs := f1\<rparr>)) d)) div 8192)" "same_rest n d f' (lfs (s\<lparr>lfs := f1\<rparr>))"
        then show thesis using f1(1) same_rest_trans [OF _ f1(3)] by (intro Suc.prems(1)) (simp_all add: p)
      qed (use f1(2) Suc.prems(3-5) True p in \<open>simp_all, linarith?\<close>)
    next
      case False
      then have l: "k + 1 = length (g_ibs G j)" "?q = k + 1" "g_fib G \<noteq> []" using A(5) True Suc.prems(5) by auto
      then obtain x xs where x: "g_fib G = x # xs" by (cases "g_fib G") auto
      obtain f1 where f1: "lf_advance (Suc m) (ram_drv rest) d s = lf_advance m (ram_drv rest) d (s\<lparr>lfs := f1\<rparr>)"
        "at_index K n f1 (grow_ib j G) j d (k + 1)" "same_rest n d f1 (lfs s)"
        by (rule lf_advance_new [OF Suc.prems(2,3) l(1) True x])
      have p: "lfpos (lfltab f1 d) = lfpos (lfltab (lfs s) d)" "lf_dskdev f1 = lf_dskdev (lfs s)"
        using f1(3) by (simp_all add: same_rest_def same_env_def)
      have n: "?q < length (g_ibs (grow_ib j G) j)" using l by (simp add: grow_ib_def)
      show thesis
      proof (rule Suc.IH [where s = "s\<lparr>lfs := f1\<rparr>" and G = "grow_ib j G" and k = "k + 1"])
        fix f' G'
        assume "lf_advance m (ram_drv rest) d (s\<lparr>lfs := f1\<rparr>) = Ret (s\<lparr>lfs := f1, lfs := f'\<rparr>) ()"
          "G' = (if unat (lfpos (lfltab (lfs (s\<lparr>lfs := f1\<rparr>)) d)) div 8192 < length (g_ibs (grow_ib j G) j) then grow_ib j G else grow_ib j (grow_ib j G))"
          "at_index K n f' G' j d (unat (lfpos (lfltab (lfs (s\<lparr>lfs := f1\<rparr>)) d)) div 8192)" "same_rest n d f' (lfs (s\<lparr>lfs := f1\<rparr>))"
        then show thesis using f1(1) same_rest_trans [OF _ f1(3)] n l by (intro Suc.prems(1)) (simp_all add: p)
      qed (use f1(2) Suc.prems(3,4) True p n in \<open>simp_all, linarith?\<close>)
    qed
  qed
qed simp

end
