(* ===== verification/Lfssetup.thy ===== *)
theory Lfssetup
  imports Lfsfind
begin

text \<open>
  The rest of \<^verbatim>\<open>lfsetup\<close>: the data block of the position is brought into memory, a new one if the
  position is at the end of the blocks, and the whole routine with the mutex of the directory.
\<close>

section \<open>The data block of the position\<close>

lemma position_index:
  "unat (drop_bit 9 ((p :: u32) AND LF_IMASK)) = unat p div 512 - 16 * (unat p div 8192)"
  "uint (p AND LF_DMASK) = int (unat p mod 512)" "16 * (unat p div 8192) \<le> unat p div 512" "unat p div 512 < 16 * (unat p div 8192) + 16"
proof -
  have "p AND LF_IMASK = take_bit 13 p" by (simp add: take_bit_eq_mask mask_eq_exp_minus_1)
  then have "unat (drop_bit 9 (p AND LF_IMASK)) = unat p mod 8192 div 512"
    by (simp add: unsigned_drop_bit_eq unsigned_take_bit_eq) (simp add: take_bit_eq_mod drop_bit_eq_div)
  moreover have "unat p mod 8192 div 512 = unat p div 512 - 16 * (unat p div 8192)"
  proof -
    have "unat p div 512 div 16 = unat p div 8192" by (simp add: div_mult2_eq [symmetric])
    moreover have "unat p mod (512 * 16) div 512 = unat p div 512 mod 16" by (subst mod_mult2_eq) simp
    ultimately show ?thesis by (simp add: minus_mult_div_eq_mod [symmetric])
  qed
  ultimately show "unat (drop_bit 9 (p AND LF_IMASK)) = unat p div 512 - 16 * (unat p div 8192)" by simp
  have "p AND LF_DMASK = take_bit 9 p" by (simp add: take_bit_eq_mask mask_eq_exp_minus_1)
  then show "uint (p AND LF_DMASK) = int (unat p mod 512)"
    by (simp add: unsigned_take_bit_eq uint_nat) (simp add: take_bit_eq_mod zmod_int)
  show "16 * (unat p div 8192) \<le> unat p div 512" "unat p div 512 < 16 * (unat p div 8192) + 16" by linarith+
qed

text \<open>The file device's data block, marked to be written.\<close>

definition mark :: "int \<Rightarrow> fsys \<Rightarrow> fsys" where
  "mark d f = f\<lparr>lfltab := (lfltab f)(d := (lfltab f d)\<lparr>lfdbdirty := True\<rparr>)\<rparr>"

lemma rep_mark:
  assumes "rep f t ibs dbs blks" "lfdnum t \<noteq> - 1"
  shows "rep f (t\<lparr>lfdbdirty := True\<rparr>) ibs dbs blks"
  using assms by (auto simp: rep_def ib_rep_def db_rep_def)

text \<open>The data block of the position is in memory; it is on disk as well unless it is new.\<close>

definition located :: "nat \<Rightarrow> nat \<Rightarrow> fsys \<Rightarrow> lfmap \<Rightarrow> nat \<Rightarrow> int \<Rightarrow> bool" where
  "located K n f G j d \<longleftrightarrow> (let m = unat (lfpos (lfltab f d)) div 512 in
     layout K n (mark d f) G \<and> open_at n f G j d \<and> m < length (g_dbs G j) \<and> lfdnum (lfltab f d) = g_dbs G j ! m
     \<and> lfbyte (lfltab f d) = int (unat (lfpos (lfltab f d)) mod 512))"

lemma grow_db_layout:
  assumes l: "layout K n f G" and j: "j < n" "g_dev G j = Some d" and y: "g_fdb G = y # ys"
    and len: "length (g_dbs G j) < 16 * length (g_ibs G j)"
    and f': "lf_dir f' = lf_dir (pop_db ys f)" "lfltab f' = (lfltab f)(d := t')" "keep_disk K (g_ibs G j) (g_dbs G j @ [y]) f' f"
      "rep f' t' (g_ibs G j) (g_dbs G j @ [y]) (g_blks G j @ [replicate LF_BLKSIZ DFILL])"
  shows "layout K n f' (grow_db j G)"
proof -
  have e: "entry f' i = entry f i" for i using f'(1) by (simp add: entry_def)
  have sh: "dir_shape (lf_dir f')" using layoutD(1) [OF l] f'(1) by (simp add: dir_shape_def)
  have F: "ld_ilist (entry f j) = nth_or (g_ibs G j) 0" using layoutD(10) [OF l j(1)] by (simp add: file_at_def)
  have "layout K n f' (G\<lparr>g_ibs := (g_ibs G)(j := g_ibs G j), g_dbs := (g_dbs G)(j := g_dbs G j @ [y]),
    g_blks := (g_blks G)(j := g_blks G j @ [replicate LF_BLKSIZ DFILL]), g_fib := g_fib G, g_fdb := ys\<rparr>)"
    by (rule layout_step [OF l j _ _ sh f'(2,3) e]) (use F len f' y layoutD(7) [OF l] e in \<open>simp_all add: moved_def\<close>)
  then show ?thesis using y by (simp add: grow_db_def)
qed

lemma lf_block_old:
  assumes a: "at_index K n (lfs s) G j d (unat (lfpos (lfltab (lfs s) d)) div 8192)" and r: "is_ram (lf_dskdev (lfs s))"
    and m: "unat (lfpos (lfltab (lfs s) d)) div 512 < length (g_dbs G j)"
  obtains f' where "lf_block (ram_drv rest) d s = Ret (s\<lparr>lfs := f'\<rparr>) ()" "located K n f' G j d" "layout K n f' G" "same_rest n d f' (lfs s)"
proof -
  let ?f = "lfs s" and ?dbs = "g_dbs G j"
  let ?t = "lfltab ?f d"
  let ?m = "unat (lfpos ?t) div 512" and ?b = "uint (lfpos ?t AND LF_DMASK)"
  note A = at_indexD [OF a]
  note R = layout_rep [OF A(1,3,4)] and own = layout_own [OF A(1,3)]
  note P = position_index [of "lfpos ?t"]
  define t' where "t' = (if ?dbs ! ?m \<noteq> lfdnum ?t then ?t\<lparr>lfdblock := sector ?f (unat (?dbs ! ?m)), lfdnum := ?dbs ! ?m\<rparr> else ?t)"
  define f' where "f' = ?f\<lparr>lfltab := (lfltab ?f)(d := t'\<lparr>lfbyte := ?b\<rparr>)\<rparr>"
  have dn: "ib_dba (lfiblock ?t) ! unat (drop_bit 9 (lfpos ?t AND LF_IMASK)) = ?dbs ! ?m"
    unfolding A(9) P(1) using P(3,4) m by (simp add: nth_or_def)
  have nn: "?dbs ! ?m \<noteq> - 1" using own_not_null(2) [OF own] nth_mem [OF m] by metis
  have small: "unat (?dbs ! ?m) < 200" using own nth_mem [OF m] by (simp add: own_blocks_def)
  have t1: "?t\<lparr>lfdblock := b, lfdbdirty := False, lfdnum := x, lfbyte := y\<rparr> = ?t\<lparr>lfdblock := b, lfdnum := x, lfbyte := y\<rparr>" for b x y
    using A(8) by (cases ?t) simp
  have t2: "?t\<lparr>lfdnum := lfdnum ?t, lfbyte := y\<rparr> = ?t\<lparr>lfbyte := y\<rparr>" for y by simp
  have run: "lf_block (ram_drv rest) d s = Ret (s\<lparr>lfs := f'\<rparr>) ()"
  proof (cases "?dbs ! ?m = lfdnum ?t")
    case True
    then show ?thesis using dn nn t2 by (simp add: lf_block_def Let_def upd_lfl_eq f'_def t'_def)
  next
    case False
    then show ?thesis using dn nn small r t1 by (simp add: lf_block_def Let_def upd_lfl_eq f'_def t'_def bread_ram)
  qed
  have rep: "rep ?f t' (g_ibs G j) ?dbs (g_blks G j)"
    using R load_data [OF R own A(8) m] by (simp add: t'_def)
  then have l: "layout K n f' G" by (intro layout_keep [OF A(1,3,4), where t' = "t'\<lparr>lfbyte := ?b\<rparr>"]) (simp_all add: f'_def keep_refl)
  have t': "lfdnum t' = ?dbs ! ?m" "lfpos t' = lfpos ?t" "lfdirptr t' = lfdirptr ?t" "lfstate t' = lfstate ?t" "lfmutex t' = lfmutex ?t"
    "lfmode t' = lfmode ?t" "lfname t' = lfname ?t" "lfdev t' = lfdev ?t"
    by (simp_all add: t'_def)
  have "layout K n (mark d f') G"
    by (rule layout_keep [OF l A(3,4)])
      (use rep_mark [OF layout_rep [OF l A(3,4)]] t'(1) nn in \<open>simp_all add: mark_def keep_refl f'_def\<close>)
  then have "located K n f' G j d"
    using A(2) m t' P(2) unfolding located_def Let_def by (simp add: f'_def open_at_def)
  moreover have "same_rest n d f' ?f" using t' by (simp add: same_rest_def same_env_def f'_def entry_def)
  ultimately show thesis using run l that by blast
qed

lemma lf_block_new:
  assumes a: "at_index K n (lfs s) G j d (unat (lfpos (lfltab (lfs s) d)) div 8192)" and r: "is_ram (lf_dskdev (lfs s))"
    and m: "unat (lfpos (lfltab (lfs s) d)) div 512 = length (g_dbs G j)" and g: "g_fdb G = y # ys"
  obtains f' where "lf_block (ram_drv rest) d s = Ret (s\<lparr>lfs := f'\<rparr>) ()" "located K n f' (grow_db j G) j d" "same_rest n d f' (lfs s)"
proof -
  let ?f = "lfs s" and ?dbs = "g_dbs G j"
  let ?t = "lfltab ?f d"
  let ?b = "uint (lfpos ?t AND LF_DMASK)" and ?q = "unat (lfpos ?t) div 8192"
  note A = at_indexD [OF a] and L = layoutD [OF at_indexD(1) [OF a]]
  note R = layout_rep [OF A(1,3,4)] and own = layout_own [OF A(1,3)]
  note P = position_index [of "lfpos ?t"] and al = lfdballoc_ram [OF A(1) r g]
  let ?fill = "replicate LF_BLKSIZ DFILL" and ?k = "length ?dbs - 16 * ?q"
  let ?ib = "(lfiblock ?t)\<lparr>ib_dba := (ib_dba (lfiblock ?t))[?k := y]\<rparr>"
  define t' where "t' = ?t\<lparr>lfdblock := ?fill, lfiblock := ?ib, lfibdirty := True, lfdnum := y, lfbyte := ?b\<rparr>"
  define f' where "f' = (pop_db ys ?f)\<lparr>lfltab := (lfltab ?f)(d := t')\<rparr>"
  have k: "unat (drop_bit 9 (lfpos ?t AND LF_IMASK)) = ?k" unfolding P(1) m ..
  have dn: "ib_dba (lfiblock ?t) ! ?k = - 1"
    unfolding A(9) using P(3,4) m by (simp add: nth_or_def)
  have run: "lf_block (ram_drv rest) d s = Ret (s\<lparr>lfs := f'\<rparr>) ()"
    unfolding lf_block_def upd_simps k Let_def dn using al(1) by (simp add: upd_lfl_eq f'_def t'_def)
  have y: "y \<notin> set ?dbs" using apartD(1) [OF L(5) A(3)] g by auto
  have sec: "sector (pop_db ys ?f) (unat x) = sector ?f (unat x)" if "x \<in> set ?dbs" for x
    using own that by (intro pop_disk(4) [OF L(1)]) (auto simp: own_blocks_def)
  have "rep (pop_db ys ?f) (?t\<lparr>lfdblock := ?fill, lfiblock := ?ib, lfibdirty := True, lfdnum := y, lfdbdirty := True\<rparr>)
      (g_ibs G j) (?dbs @ [y]) (g_blks G j @ [?fill])"
    by (rule new_data [OF R A(5,6) _ _ al(2) y _ own_not_null(1) [OF own] A(8)])
      (use P(3,4) m own sec pop_disk(3) [OF L(1)] in \<open>simp_all add: own_blocks_def\<close>)
  moreover have "t'\<lparr>lfdbdirty := True\<rparr> = (?t\<lparr>lfdblock := ?fill, lfiblock := ?ib, lfibdirty := True, lfdnum := y, lfdbdirty := True\<rparr>)\<lparr>lfbyte := ?b\<rparr>"
    unfolding t'_def by (cases ?t) simp
  ultimately have rep: "rep (mark d f') (t'\<lparr>lfdbdirty := True\<rparr>) (g_ibs G j) (?dbs @ [y]) (g_blks G j @ [?fill])"
    by (simp add: mark_def f'_def)
  have "length ?dbs < 16 * length (g_ibs G j)" using P(4) m A(5) by linarith
  then have "layout K n (mark d f') (grow_db j G)"
    by (rule grow_db_layout [OF A(1,3,4) g _ _ _ _ rep])
      (use keep_pop(2) [OF L(1)] in \<open>simp_all add: mark_def f'_def\<close>)
  then have "located K n f' (grow_db j G) j d"
    using A(2) m g P(2) unfolding located_def Let_def by (simp add: f'_def t'_def open_at_def grow_db_def)
  moreover have "same_rest n d f' ?f" by (simp add: same_rest_def same_env_def f'_def t'_def entry_def)
  ultimately show thesis using run that by blast
qed

section \<open>The whole of lfsetup\<close>

definition grow :: "u32 \<Rightarrow> nat \<Rightarrow> lfmap \<Rightarrow> lfmap" where
  "grow p j G = (let G1 = (if unat p div 8192 < length (g_ibs G j) then G else grow_ib j G)
     in if unat p div 512 < length (g_dbs G j) then G1 else grow_db j G1)"

text \<open>There is a block for the position, or it is the next one and one is free.\<close>

definition has_room :: "u32 \<Rightarrow> nat \<Rightarrow> lfmap \<Rightarrow> bool" where
  "has_room p j G \<longleftrightarrow>
     (unat p div 8192 < length (g_ibs G j) \<or> unat p div 8192 = length (g_ibs G j) \<and> g_fib G \<noteq> [])
     \<and> (unat p div 512 < length (g_dbs G j) \<or> unat p div 512 = length (g_dbs G j) \<and> g_fdb G \<noteq> [])"

lemma lf_block_spec:
  assumes a: "at_index K n (lfs s) G j d (unat (lfpos (lfltab (lfs s) d)) div 8192)" and r: "is_ram (lf_dskdev (lfs s))"
    and m: "unat (lfpos (lfltab (lfs s) d)) div 512 < length (g_dbs G j)
      \<or> unat (lfpos (lfltab (lfs s) d)) div 512 = length (g_dbs G j) \<and> g_fdb G \<noteq> []"
  obtains (res) f' G' where "lf_block (ram_drv rest) d s = Ret (s\<lparr>lfs := f'\<rparr>) ()"
    "G' = (if unat (lfpos (lfltab (lfs s) d)) div 512 < length (g_dbs G j) then G else grow_db j G)" "located K n f' G' j d"
    "unat (lfpos (lfltab (lfs s) d)) div 512 < length (g_dbs G j) \<Longrightarrow> layout K n f' G" "same_rest n d f' (lfs s)"
proof (cases "unat (lfpos (lfltab (lfs s) d)) div 512 < length (g_dbs G j)")
  case True
  show thesis by (rule lf_block_old [OF a r True, of rest]) (use True in \<open>intro res; simp\<close>)
next
  case False
  then obtain y ys where y: "g_fdb G = y # ys" "unat (lfpos (lfltab (lfs s) d)) div 512 = length (g_dbs G j)"
    using m by (cases "g_fdb G") auto
  show thesis by (rule lf_block_new [OF a r y(2,1), of rest]) (use False in \<open>intro res; simp\<close>)
qed

text \<open>A mutex that is free.\<close>

definition free_lock :: "int \<Rightarrow> kst \<Rightarrow> bool" where
  "free_lock m s \<longleftrightarrow> idle_sem m s \<and> 0 < scount (semtab s m) \<and> scount (semtab s m) \<le> INT32_MAX"

lemma lfs_upd_sem [simp]: "lfs (upd_sem m g s) = lfs s" "upd_sem m g (s\<lparr>lfs := f\<rparr>) = (upd_sem m g s)\<lparr>lfs := f\<rparr>"
  by (simp_all add: upd_sem_def)

lemma lock_enter: "free_lock m s \<Longrightarrow> wait m s = Ret (count_by m (- 1) s) OK"
  by (simp add: free_lock_def wait_idle)

lemma lock_exit:
  assumes "free_lock m s"
  shows "signal m ((count_by m (- 1) s)\<lparr>lfs := f\<rparr>) = Ret (s\<lparr>lfs := f\<rparr>) OK"
proof -
  have "idle_sem m ((count_by m (- 1) s)\<lparr>lfs := f\<rparr>)" "scount (semtab ((count_by m (- 1) s)\<lparr>lfs := f\<rparr>) m) < INT32_MAX"
    using assms by (simp_all add: free_lock_def idle_sem_def upd_sem_def)
  from signal_idle [OF this] show ?thesis unfolding lfs_upd_sem upd_sem_upd_sem by simp
qed

lemma lock_exit_same: "free_lock m s \<Longrightarrow> signal m (count_by m (- 1) s) = Ret s OK"
  using lock_exit [of m s "lfs s"] by (simp add: upd_sem_def)

lemma free_lock_other [simp]: "m' \<noteq> m \<Longrightarrow> free_lock m' (upd_sem m g s) = free_lock m' s" "free_lock m' (s\<lparr>lfs := f\<rparr>) = free_lock m' s"
  by (simp_all add: free_lock_def idle_sem_def upd_sem_def)

lemma lfsetup_flush:
  assumes l: "layout K n (lfs s) G" and o: "open_at n (lfs s) G j d" and r: "is_ram (lf_dskdev (lfs s))"
  obtains (res) f' where "kwhen (lfibdirty (lfltab (lfs s) d) \<or> lfdbdirty (lfltab (lfs s) d)) (\<lambda>s. kbind (lfflush (ram_drv rest) d s) (\<lambda>s1 _. Ret s1 ())) s
      = Ret (s\<lparr>lfs := f'\<rparr>) ()" "layout K n f' G" "open_at n f' G j d" "same_rest n d f' (lfs s)"
    "\<not> lfibdirty (lfltab f' d)" "\<not> lfdbdirty (lfltab f' d)"
proof (cases "lfibdirty (lfltab (lfs s) d) \<or> lfdbdirty (lfltab (lfs s) d)")
  case True
  obtain f' where f': "lfflush (ram_drv rest) d s = Ret (s\<lparr>lfs := f'\<rparr>) OK" "layout K n f' G" "same_env n f' (lfs s)"
    "lfltab f' = (lfltab (lfs s))(d := (lfltab (lfs s) d)\<lparr>lfdbdirty := False, lfibdirty := False\<rparr>)" "lf_dir f' = lf_dir (lfs s)"
    by (rule lfflush_spec [OF l o r])
  have "kwhen (lfibdirty (lfltab (lfs s) d) \<or> lfdbdirty (lfltab (lfs s) d)) (\<lambda>s. kbind (lfflush (ram_drv rest) d s) (\<lambda>s1 _. Ret s1 ())) s
      = Ret (s\<lparr>lfs := f'\<rparr>) ()" using True f'(1) by (simp add: kwhen_def)
  then show thesis by (rule res) (use o f' in \<open>simp_all add: open_at_def same_rest_def\<close>)
next
  case False
  have "kwhen (lfibdirty (lfltab (lfs s) d) \<or> lfdbdirty (lfltab (lfs s) d)) (\<lambda>s. kbind (lfflush (ram_drv rest) d s) (\<lambda>s1 _. Ret s1 ())) s
      = Ret (s\<lparr>lfs := lfs s\<rparr>) ()" using False by (simp add: kwhen_def)
  then show thesis by (rule res) (use l o False in \<open>simp_all add: same_rest_def same_env_def\<close>)
qed

lemma lfsetup_spec:
  assumes l: "layout K n (lfs s) G" and o: "open_at n (lfs s) G j d" and r: "is_ram (lf_dskdev (lfs s))"
    and lock: "free_lock (lf_mutex (lfs s)) s" and room: "has_room (lfpos (lfltab (lfs s) d)) j G"
  obtains (res) f' where "lfsetup (ram_drv rest) d s = Ret (s\<lparr>lfs := f'\<rparr>) OK" "same_rest n d f' (lfs s)"
    "located K n f' (grow (lfpos (lfltab (lfs s) d)) j G) j d"
    "unat (lfpos (lfltab (lfs s) d)) div 512 < length (g_dbs G j) \<longrightarrow> layout K n f' (grow (lfpos (lfltab (lfs s) d)) j G)"
proof -
  let ?m = "lf_mutex (lfs s)" and ?p = "lfpos (lfltab (lfs s) d)" and ?D = "ram_drv rest"
  let ?s = "count_by ?m (- 1) s"
  obtain f1 where f1: "kwhen (lfibdirty (lfltab (lfs ?s) d) \<or> lfdbdirty (lfltab (lfs ?s) d)) (\<lambda>s. kbind (lfflush ?D d s) (\<lambda>s1 _. Ret s1 ())) ?s
      = Ret (?s\<lparr>lfs := f1\<rparr>) ()" "layout K n f1 G" "open_at n f1 G j d" "same_rest n d f1 (lfs ?s)"
    "\<not> lfibdirty (lfltab f1 d)" "\<not> lfdbdirty (lfltab f1 d)"
    by (rule lfsetup_flush [of K n ?s G j d]) (use l o r in simp_all)
  have p1: "lf_dskdev f1 = lf_dskdev (lfs s)" "lfpos (lfltab f1 d) = ?p" using f1(4) by (simp_all add: same_rest_def same_env_def)
  let ?G1 = "if g_ibs G j = [] then grow_ib j G else G"
  obtain f2 k where f2: "lf_first ?D d (?s\<lparr>lfs := f1\<rparr>) = Ret (?s\<lparr>lfs := f1, lfs := f2\<rparr>) ()" "at_index K n f2 ?G1 j d k" "same_rest n d f2 f1"
    by (rule lf_first_spec [of K n "?s\<lparr>lfs := f1\<rparr>" G j d]) (use f1 r p1 room in \<open>auto simp: has_room_def\<close>)
  have p2: "lf_dskdev f2 = lf_dskdev (lfs s)" "lfpos (lfltab f2 d) = ?p" using f2(3) p1 by (simp_all add: same_rest_def same_env_def)
  let ?G2 = "if unat ?p div 8192 < length (g_ibs G j) then G else grow_ib j G"
  have g2: "(if unat ?p div 8192 < length (g_ibs ?G1 j) then ?G1 else grow_ib j ?G1) = ?G2"
    using room by (auto simp: has_room_def grow_ib_def)
  have "unat ?p < 4294967296" by (rule order.strict_trans2 [OF unsigned_less]) simp
  then have fuel: "unat ?p div 8192 - k < 524289" by linarith
  obtain f3 G3 where f3: "lf_advance 524289 ?D d (?s\<lparr>lfs := f2\<rparr>) = Ret (?s\<lparr>lfs := f2, lfs := f3\<rparr>) ()" "G3 = ?G2"
    "at_index K n f3 G3 j d (unat ?p div 8192)" "same_rest n d f3 f2"
    by (rule lf_advance_spec [of K n "?s\<lparr>lfs := f2\<rparr>" ?G1 j d k 524289])
      (use f2(2) r p2 room g2 fuel in \<open>auto simp: has_room_def grow_ib_def split: if_splits\<close>)
  have p3: "lf_dskdev f3 = lf_dskdev (lfs s)" "lfpos (lfltab f3 d) = ?p" using f3(4) p2 by (simp_all add: same_rest_def same_env_def)
  have db: "g_dbs ?G2 j = g_dbs G j" "g_fdb ?G2 = g_fdb G" by (simp_all add: grow_ib_def)
  obtain f4 G4 where f4: "lf_block ?D d (?s\<lparr>lfs := f3\<rparr>) = Ret (?s\<lparr>lfs := f3, lfs := f4\<rparr>) ()"
    "G4 = (if unat ?p div 512 < length (g_dbs G j) then ?G2 else grow_db j ?G2)" "located K n f4 G4 j d"
    "unat ?p div 512 < length (g_dbs G j) \<Longrightarrow> layout K n f4 ?G2" "same_rest n d f4 f3"
    by (rule lf_block_spec [of K n "?s\<lparr>lfs := f3\<rparr>" ?G2 j d])
      (use f3(2,3) r p3 room db in \<open>auto simp: has_room_def\<close>)
  have g4: "G4 = grow ?p j G" using f4(2) by (simp add: grow_def Let_def)
  have same: "same_rest n d f4 (lfs s)"
    using same_rest_trans [OF f4(5) same_rest_trans [OF f3(4) same_rest_trans [OF f2(3) f1(4)]]] by simp
  then have mx: "lf_mutex f4 = ?m" by (simp add: same_rest_def same_env_def)
  have "lfsetup ?D d s = Ret (s\<lparr>lfs := f4\<rparr>) OK"
    using lock_enter [OF lock] f1(1) f2(1) f3(1) f4(1) lock_exit [OF lock] mx by (simp add: lfsetup_def)
  moreover have "unat ?p div 512 < length (g_dbs G j) \<Longrightarrow> grow ?p j G = ?G2" by (simp add: grow_def Let_def)
  ultimately show thesis using same f4(3,4) unfolding g4 by (intro res) (assumption | simp)+
qed

text \<open>
  The byte of the position: it is in memory when the device's byte index is in the block, and
  otherwise \<^verbatim>\<open>lfsetup\<close> brings it there.
\<close>

definition byte_ok :: "fsys \<Rightarrow> lfmap \<Rightarrow> nat \<Rightarrow> int \<Rightarrow> bool" where
  "byte_ok f G j d \<longleftrightarrow> lfbyte (lfltab f d) = 512
     \<or> lfbyte (lfltab f d) = int (unat (lfpos (lfltab f d)) mod 512) \<and> unat (lfpos (lfltab f d)) div 512 < length (g_dbs G j)
       \<and> lfdnum (lfltab f d) = g_dbs G j ! (unat (lfpos (lfltab f d)) div 512)"

lemma grow_id:
  assumes "layout K n f G" "j < n" "unat p div 512 < length (g_dbs G j)"
  shows "grow p j G = G" "unat p div 8192 < length (g_ibs G j)"
proof -
  have "length (g_dbs G j) \<le> 16 * length (g_ibs G j)" using layoutD(10) [OF assms(1,2)] by (simp add: file_at_def)
  then show "unat p div 8192 < length (g_ibs G j)" using position_index(3) [of p] assms(3) by linarith
  then show "grow p j G = G" using assms(3) by (simp add: grow_def Let_def)
qed

lemma lf_locate_spec:
  assumes l: "layout K n (lfs s) G" and o: "open_at n (lfs s) G j d" and r: "is_ram (lf_dskdev (lfs s))"
    and lock: "free_lock (lf_mutex (lfs s)) s" and b: "byte_ok (lfs s) G j d" and room: "has_room (lfpos (lfltab (lfs s) d)) j G"
  obtains (res) f' where "lf_locate (ram_drv rest) d s = Ret (s\<lparr>lfs := f'\<rparr>) ()" "same_rest n d f' (lfs s)"
    "located K n f' (grow (lfpos (lfltab (lfs s) d)) j G) j d"
    "unat (lfpos (lfltab (lfs s) d)) div 512 < length (g_dbs G j) \<longrightarrow> layout K n f' (grow (lfpos (lfltab (lfs s) d)) j G)"
proof (cases "lfbyte (lfltab (lfs s) d) = 512")
  case True
  obtain f' where f': "lfsetup (ram_drv rest) d s = Ret (s\<lparr>lfs := f'\<rparr>) OK" "same_rest n d f' (lfs s)"
    "located K n f' (grow (lfpos (lfltab (lfs s) d)) j G) j d"
    "unat (lfpos (lfltab (lfs s) d)) div 512 < length (g_dbs G j) \<longrightarrow> layout K n f' (grow (lfpos (lfltab (lfs s) d)) j G)"
    by (rule lfsetup_spec [OF l o r lock room, of rest])
  have "lf_locate (ram_drv rest) d s = Ret (s\<lparr>lfs := f'\<rparr>) ()" using True f'(1) by (simp add: lf_locate_def kwhen_def)
  then show thesis by (rule res) (use f' in simp_all)
next
  case False
  let ?t = "lfltab (lfs s) d"
  let ?m = "unat (lfpos ?t) div 512"
  have B: "lfbyte ?t = int (unat (lfpos ?t) mod 512)" "?m < length (g_dbs G j)" "lfdnum ?t = g_dbs G j ! ?m"
    using b False by (simp_all add: byte_ok_def)
  have "lfbyte ?t < 512" unfolding B(1) by (simp add: zmod_int)
  then have run: "lf_locate (ram_drv rest) d s = Ret (s\<lparr>lfs := lfs s\<rparr>) ()" by (simp add: lf_locate_def kwhen_def)
  have j: "j < n" "g_dev G j = Some d" using o by (simp_all add: open_at_def)
  note R = layout_rep [OF l j] and own = layout_own [OF l j(1)]
  have "lfdnum ?t \<noteq> - 1" using own_not_null(2) [OF own] nth_mem [OF B(2)] B(3) by metis
  then have "layout K n (mark d (lfs s)) G"
    by (intro layout_keep [OF l j, where t' = "?t\<lparr>lfdbdirty := True\<rparr>"]) (simp_all add: mark_def keep_refl rep_mark [OF R])
  then have "located K n (lfs s) G j d" using o B by (simp add: located_def Let_def)
  moreover have "same_rest n d (lfs s) (lfs s)" by (simp add: same_rest_def same_env_def)
  ultimately show thesis using l grow_id(1) [OF l j(1) B(2)] by (intro res [OF run]) simp_all
qed

end
