(* ===== verification/Lfsspec.thy ===== *)
theory Lfsspec
  imports Lfssetup
begin

text \<open>
  The calls on open files as operations on the bytes of the files and their positions. \<open>fs_ok\<close> is
  the invariant between calls, \<open>afiles\<close> the abstract state; each call keeps the first and acts on
  the second as its abstract operation does. \<open>capacity\<close> is how far a file can still grow.
\<close>

section \<open>The abstract files\<close>

type_synonym afile = "u8 list \<times> nat option"

definition bytes_of :: "fsys \<Rightarrow> lfmap \<Rightarrow> nat \<Rightarrow> u8 list" where
  "bytes_of f G j = take (unat (ld_size (entry f j))) (concat (g_blks G j))"

definition afiles :: "nat \<Rightarrow> fsys \<Rightarrow> lfmap \<Rightarrow> afile list" where
  "afiles n f G = map (\<lambda>j. (bytes_of f G j, map_option (\<lambda>d. unat (lfpos (lfltab f d))) (g_dev G j))) [0..<n]"

definition capacity :: "nat \<Rightarrow> lfmap \<Rightarrow> nat" where
  "capacity j G = min (512 * (length (g_dbs G j) + length (g_fdb G))) (8192 * (length (g_ibs G j) + length (g_fib G)))"

definition spare :: "lfmap \<Rightarrow> nat" where
  "spare G = min (length (g_fib G)) (length (g_fdb G))"

text \<open>The data blocks a file of these bytes has.\<close>

definition nblocks :: "u8 list \<Rightarrow> nat" where
  "nblocks bs = (length bs + 511) div 512"

definition a_getc :: "u8 list \<Rightarrow> nat \<Rightarrow> nat \<times> int" where
  "a_getc bs p = (if p < length bs then (p + 1, uint (bs ! p)) else (p, EOF))"

definition a_put :: "u8 list \<Rightarrow> u8 list \<Rightarrow> nat \<Rightarrow> u8 list" where
  "a_put xs bs p = take p bs @ xs @ drop (p + length xs) bs"

section \<open>Between two calls\<close>

definition file_ok :: "fsys \<Rightarrow> lfmap \<Rightarrow> nat \<Rightarrow> bool" where
  "file_ok f G j \<longleftrightarrow> length (g_dbs G j) = (unat (ld_size (entry f j)) + 511) div 512"

definition dev_ok :: "nat \<Rightarrow> kst \<Rightarrow> lfmap \<Rightarrow> nat \<Rightarrow> int \<Rightarrow> bool" where
  "dev_ok n s G j d \<longleftrightarrow> open_at n (lfs s) G j d \<and> lfpos (lfltab (lfs s) d) \<le> ld_size (entry (lfs s) j) \<and> byte_ok (lfs s) G j d
     \<and> free_lock (lfmutex (lfltab (lfs s) d)) s \<and> lfmutex (lfltab (lfs s) d) \<noteq> lf_mutex (lfs s)"

definition fs_ok :: "nat \<Rightarrow> nat \<Rightarrow> kst \<Rightarrow> lfmap \<Rightarrow> bool" where
  "fs_ok K n s G \<longleftrightarrow> is_ram (lf_dskdev (lfs s)) \<and> layout K n (lfs s) G \<and> free_lock (lf_mutex (lfs s)) s
     \<and> lf_dirpresent (lfs s) \<and> unat (lfd_nfiles (lf_dir (lfs s))) = n \<and> dir_head (lf_dir (lfs s)) = (LFS_ID, 0, 0xffffffff, lfs_reverse)
     \<and> (\<forall>j<n. ld_name (entry (lfs s) j) = g_names G j)
     \<and> (\<forall>j<n. file_ok (lfs s) G j \<and> (\<forall>d. g_dev G j = Some d \<longrightarrow> dev_ok n s G j d))"

lemma fs_okD:
  assumes "fs_ok K n s G" "j < n"
  shows "is_ram (lf_dskdev (lfs s))" "layout K n (lfs s) G" "free_lock (lf_mutex (lfs s)) s" "file_ok (lfs s) G j"
    "g_dev G j = Some d \<Longrightarrow> dev_ok n s G j d"
  using assms by (simp_all add: fs_ok_def)

lemma dev_okD:
  assumes "dev_ok n s G j d"
  shows "open_at n (lfs s) G j d" "lfpos (lfltab (lfs s) d) \<le> ld_size (entry (lfs s) j)" "byte_ok (lfs s) G j d"
    "free_lock (lfmutex (lfltab (lfs s) d)) s" "lfmutex (lfltab (lfs s) d) \<noteq> lf_mutex (lfs s)" "j < n" "g_dev G j = Some d"
    "lfstate (lfltab (lfs s) d) = LF_USED" "lfdirptr (lfltab (lfs s) d) = int j"
  using assms by (simp_all add: dev_ok_def open_at_def)

text \<open>Sizes: the blocks of a file hold its bytes.\<close>

lemma length_concat_blocks: "\<forall>b\<in>set bss. length b = n \<Longrightarrow> length (concat bss) = n * length bss"
  by (induction bss) simp_all

lemma file_blocks:
  assumes "layout K n f G" "file_ok f G j" "j < n"
  shows "\<forall>b\<in>set (g_blks G j). length b = 512" "length (g_blks G j) = length (g_dbs G j)"
    "unat (ld_size (entry f j)) \<le> 512 * length (g_dbs G j)" "length (bytes_of f G j) = unat (ld_size (entry f j))"
    "unat (ld_size (entry f j)) \<le> 102400"
    "p < unat (ld_size (entry f j)) \<Longrightarrow> p div 512 < length (g_dbs G j)"
    "p \<le> unat (ld_size (entry f j)) \<Longrightarrow> p div 512 \<le> length (g_dbs G j)"
proof -
  have r: "db_rep f (view f G j) (g_dbs G j) (g_blks G j)" using layoutD(10) [OF assms(1,3)] by (simp add: file_at_def rep_def)
  then show l: "length (g_blks G j) = length (g_dbs G j)" by (simp add: db_rep_def)
  show b: "\<forall>b\<in>set (g_blks G j). length b = 512" using r l by (auto simp: db_rep_def in_set_conv_nth)
  show s: "unat (ld_size (entry f j)) \<le> 512 * length (g_dbs G j)" using assms(2) unfolding file_ok_def by linarith
  have "length (concat (g_blks G j)) = 512 * length (g_blks G j)" by (rule length_concat_blocks [OF b])
  then show "length (bytes_of f G j) = unat (ld_size (entry f j))" using s l by (simp add: bytes_of_def)
  show "unat (ld_size (entry f j)) \<le> 102400" using own_lengths(2) [OF layout_own [OF assms(1,3)]] s by linarith
  show "p < unat (ld_size (entry f j)) \<Longrightarrow> p div 512 < length (g_dbs G j)" using assms(2) unfolding file_ok_def by linarith
  show "p \<le> unat (ld_size (entry f j)) \<Longrightarrow> p div 512 \<le> length (g_dbs G j)" using assms(2) unfolding file_ok_def by linarith
qed

lemma nth_concat_blocks:
  assumes "\<forall>b\<in>set bss. length b = n" "p < n * length bss"
  shows "concat bss ! p = bss ! (p div n) ! (p mod n)"
  using assms
proof (induction bss arbitrary: p)
  case (Cons b bss)
  have n: "length b = n" "0 < n" using Cons.prems by (auto intro: gr0I)
  show ?case
  proof (cases "p < n")
    case False
    then have "p div n = Suc ((p - n) div n)" "p mod n = (p - n) mod n" using n(2) by (simp_all add: le_div_geq le_mod_geq)
    moreover have "p - n < n * length bss" using Cons.prems(2) False by simp
    ultimately show ?thesis using Cons False n by (simp add: nth_append)
  qed (use n in \<open>simp add: nth_append\<close>)
qed simp

lemma concat_update_block:
  assumes "\<forall>b\<in>set bss. length b = n" "p < n * length bss"
  shows "concat (bss[p div n := (bss ! (p div n))[p mod n := c]]) = (concat bss)[p := c]"
  using assms
proof (induction bss arbitrary: p)
  case (Cons b bss)
  have n: "length b = n" "0 < n" using Cons.prems by (auto intro: gr0I)
  show ?case
  proof (cases "p < n")
    case False
    then have "p div n = Suc ((p - n) div n)" "p mod n = (p - n) mod n" using n(2) by (simp_all add: le_div_geq le_mod_geq)
    moreover have "p - n < n * length bss" using Cons.prems(2) False by simp
    ultimately show ?thesis using Cons False n by (simp add: list_update_append)
  qed (use n in \<open>simp add: list_update_append\<close>)
qed simp

text \<open>A step on file \<open>j\<close>, open as \<open>d\<close>, shows what it has to show of \<open>j\<close> only.\<close>

definition only_file :: "nat \<Rightarrow> lfmap \<Rightarrow> lfmap \<Rightarrow> bool" where
  "only_file j G' G \<longleftrightarrow> g_dev G' = g_dev G \<and> g_names G' = g_names G
     \<and> (\<forall>i. i \<noteq> j \<longrightarrow> g_ibs G' i = g_ibs G i \<and> g_dbs G' i = g_dbs G i \<and> g_blks G' i = g_blks G i)"

text \<open>The other devices, and what identifies this one.\<close>

definition dev_frame :: "int \<Rightarrow> fsys \<Rightarrow> fsys \<Rightarrow> bool" where
  "dev_frame d f' f \<longleftrightarrow> lf_mutex f' = lf_mutex f \<and> (\<forall>i. i \<noteq> d \<longrightarrow> lfltab f' i = lfltab f i) \<and> lfmutex (lfltab f' d) = lfmutex (lfltab f d)
     \<and> lfname (lfltab f' d) = lfname (lfltab f d) \<and> lfdev (lfltab f' d) = lfdev (lfltab f d)"

lemma dev_frame_trans: "dev_frame d f2 f1 \<Longrightarrow> dev_frame d f1 f \<Longrightarrow> dev_frame d f2 f"
  by (simp add: dev_frame_def)

lemma only_file_grow: "only_file j (grow p j G) G" "only_file j G G"
  "only_file j G' G \<Longrightarrow> only_file j (G'\<lparr>g_blks := (g_blks G')(j := b)\<rparr>) G"
  by (simp_all add: only_file_def grow_def grow_ib_def grow_db_def Let_def)

lemma capacity_grow: "has_room p j G \<Longrightarrow> capacity j (grow p j G) = capacity j G"
  by (cases "g_fib G"; cases "g_fdb G") (auto simp: capacity_def has_room_def grow_def grow_ib_def grow_db_def Let_def)

lemma fs_step:
  assumes ok: "fs_ok K n s G" and j: "j < n" "g_dev G j = Some d" and l: "layout K n f' G'" and o: "only_file j G' G"
    and env: "lf_dskdev f' = lf_dskdev (lfs s)" "lf_mutex f' = lf_mutex (lfs s)"
      "lfd_nfiles (lf_dir f') = lfd_nfiles (lf_dir (lfs s)) \<and> lf_dirpresent f' = lf_dirpresent (lfs s) \<and> dir_head (lf_dir f') = dir_head (lf_dir (lfs s))" "\<And>i. i \<noteq> d \<Longrightarrow> lfltab f' i = lfltab (lfs s) i"
      "\<And>i. i < n \<Longrightarrow> i \<noteq> j \<Longrightarrow> ld_size (entry f' i) = ld_size (entry (lfs s) i)"
      "\<And>i. i < n \<Longrightarrow> ld_name (entry f' i) = ld_name (entry (lfs s) i)"
    and own: "file_ok f' G' j" "lfpos (lfltab f' d) \<le> ld_size (entry f' j)" "byte_ok f' G' j d" "open_at n f' G' j d"
      "lfmutex (lfltab f' d) = lfmutex (lfltab (lfs s) d)"
  shows "fs_ok K n (s\<lparr>lfs := f'\<rparr>) G'"
    "afiles n f' G' = (afiles n (lfs s) G)[j := (bytes_of f' G' j, Some (unat (lfpos (lfltab f' d))))]"
proof -
  have d: "dev_ok n s G j d" using fs_okD(5) [OF ok j(1)] j(2) by blast
  have apart: "d' \<noteq> d" if "i < n" "i \<noteq> j" "g_dev G i = Some d'" for i d'
    using fs_okD(2) [OF ok j(1)] that j by (auto simp: layout_def)
  have "file_ok f' G' i \<and> (\<forall>d'. g_dev G' i = Some d' \<longrightarrow> dev_ok n (s\<lparr>lfs := f'\<rparr>) G' i d')" if i: "i < n" for i
  proof (cases "i = j")
    case True
    then show ?thesis using own d o j env(2) by (auto simp: only_file_def dev_ok_def)
  next
    case False
    have "dev_ok n (s\<lparr>lfs := f'\<rparr>) G' i d'" if d': "g_dev G' i = Some d'" for d'
    proof -
      have e: "lfltab f' d' = lfltab (lfs s) d'" using apart [OF i False] d' o env(4) by (simp add: only_file_def)
      have "dev_ok n s G i d'" using fs_okD(5) [OF ok i] d' o by (simp add: only_file_def)
      then show ?thesis using e o env(2,5) i False by (simp add: dev_ok_def open_at_def byte_ok_def only_file_def)
    qed
    then show ?thesis using fs_okD(4) [OF ok i] o env(5) [OF i False] False by (simp add: file_ok_def only_file_def)
  qed
  then show "fs_ok K n (s\<lparr>lfs := f'\<rparr>) G'" using ok l env(1-3,6) o by (simp add: fs_ok_def only_file_def)
  show "afiles n f' G' = (afiles n (lfs s) G)[j := (bytes_of f' G' j, Some (unat (lfpos (lfltab f' d))))]"
  proof (rule nth_equalityI)
    fix i assume "i < length (afiles n f' G')"
    then have i: "i < n" by (simp add: afiles_def)
    show "afiles n f' G' ! i = (afiles n (lfs s) G)[j := (bytes_of f' G' j, Some (unat (lfpos (lfltab f' d))))] ! i"
    proof (cases "i = j")
      case True
      then show ?thesis using i j o by (simp add: afiles_def only_file_def)
    next
      case False
      have "bytes_of f' G' i = bytes_of (lfs s) G i" using o env(5) [OF i False] False by (simp add: bytes_of_def only_file_def)
      moreover have "map_option (\<lambda>d. unat (lfpos (lfltab f' d))) (g_dev G i) = map_option (\<lambda>d. unat (lfpos (lfltab (lfs s) d))) (g_dev G i)"
        using apart [OF i False] env(4) by (cases "g_dev G i") simp_all
      ultimately show ?thesis using i False o by (simp add: afiles_def only_file_def)
    qed
  qed (simp add: afiles_def)
qed

text \<open>The byte of the position in the buffer.\<close>

lemma located_byte:
  assumes "located K n f G j d"
  shows "lfdblock (lfltab f d) = g_blks G j ! (unat (lfpos (lfltab f d)) div 512)"
    "nat (lfbyte (lfltab f d)) = unat (lfpos (lfltab f d)) mod 512" "unat (lfpos (lfltab f d)) div 512 < length (g_dbs G j)"
proof -
  let ?m = "unat (lfpos (lfltab f d)) div 512"
  have L: "layout K n (mark d f) G" "j < n" "g_dev G j = Some d" and m: "?m < length (g_dbs G j)" "lfdnum (lfltab f d) = g_dbs G j ! ?m"
    using assms by (simp_all add: located_def Let_def open_at_def)
  have "rep (mark d f) (lfltab (mark d f) d) (g_ibs G j) (g_dbs G j) (g_blks G j)" by (rule layout_rep [OF L])
  then show "lfdblock (lfltab f d) = g_blks G j ! ?m" using m by (simp add: rep_def db_rep_def mark_def)
  show "nat (lfbyte (lfltab f d)) = unat (lfpos (lfltab f d)) mod 512" "?m < length (g_dbs G j)"
    using assms m(1) by (simp_all add: located_def Let_def nat_mod_distrib)
qed

section \<open>One byte\<close>

text \<open>A position inside the file is located without a new block.\<close>

lemma locate_inside:
  assumes ok: "fs_ok K n s G" and d: "dev_ok n s G j d" and p: "lfpos (lfltab (lfs s) d) < ld_size (entry (lfs s) j)"
    and s': "lfs s' = lfs s" "free_lock (lf_mutex (lfs s)) s'"
  obtains (res) f' where "lf_locate (ram_drv rest) d s' = Ret (s'\<lparr>lfs := f'\<rparr>) ()" "same_rest n d f' (lfs s)"
    "located K n f' G j d" "layout K n f' G"
proof -
  note D = dev_okD [OF d] and F = fs_okD [OF ok dev_okD(6) [OF d]]
  have m: "unat (lfpos (lfltab (lfs s) d)) div 512 < length (g_dbs G j)"
    using p file_blocks(6) [OF F(2,4) D(6)] by (simp add: word_less_nat_alt)
  note g = grow_id [OF F(2) D(6) m]
  obtain f' where f': "lf_locate (ram_drv rest) d s' = Ret (s'\<lparr>lfs := f'\<rparr>) ()" "same_rest n d f' (lfs s')"
    "located K n f' (grow (lfpos (lfltab (lfs s') d)) j G) j d"
    "unat (lfpos (lfltab (lfs s') d)) div 512 < length (g_dbs G j) \<longrightarrow> layout K n f' (grow (lfpos (lfltab (lfs s') d)) j G)"
    by (rule lf_locate_spec [of K n s' G j d rest]) (use F D s' g m in \<open>simp_all add: has_room_def\<close>)
  show thesis by (rule res [OF f'(1)]) (use f' g m s' in simp_all)
qed

lemma lflgetc_refines:
  assumes ok: "fs_ok K n s G" and j: "j < n" "g_dev G j = Some (dvminor e)" and a: "afiles n (lfs s) G ! j = (bs, Some p)"
  obtains (res) f' where "lflgetc (ram_drv rest) e s = Ret (s\<lparr>lfs := f'\<rparr>) (snd (a_getc bs p))" "fs_ok K n (s\<lparr>lfs := f'\<rparr>) G"
    "afiles n f' G = (afiles n (lfs s) G)[j := (bs, Some (fst (a_getc bs p)))]"
proof -
  define d where "d = dvminor e"
  let ?f = "lfs s" and ?t = "lfltab (lfs s) d" and ?x = "lfmutex (lfltab (lfs s) d)"
  have jd: "g_dev G j = Some d" using j(2) by (simp add: d_def)
  note F = fs_okD [OF ok j(1)]
  have d: "dev_ok n s G j d" by (rule F(5) [OF jd])
  note D = dev_okD [OF d]
  note B = file_blocks [OF F(2,4) j(1)]
  have bs: "bs = bytes_of ?f G j" "p = unat (lfpos ?t)" using a j(1) jd by (simp_all add: afiles_def)
  have size: "length bs = unat (ld_size (entry ?f j))" using bs(1) B(4) by simp
  have e: "lde d (count_by ?x (- 1) s) = entry ?f j" using D(9) by (simp add: lde_def entry_def)
  show thesis
  proof (cases "p < length bs")
    case False
    then have "ld_size (entry ?f j) \<le> lfpos ?t" using bs(2) size by (simp add: word_le_nat_alt)
    then have "lflgetc (ram_drv rest) e s = Ret (s\<lparr>lfs := ?f\<rparr>) EOF"
      using lock_enter [OF D(4)] lock_exit_same [OF D(4)] D(8) e
      unfolding lflgetc_def d_def [symmetric] Let_def by (simp add: lf_leave_def)
    then have run: "lflgetc (ram_drv rest) e s = Ret (s\<lparr>lfs := ?f\<rparr>) (snd (a_getc bs p))" using False by (simp add: a_getc_def)
    have "(afiles n ?f G)[j := (bs, Some p)] = afiles n ?f G" using a by (metis list_update_id)
    then show thesis using False ok by (intro res [OF run]) (simp_all add: a_getc_def)
  next
    case True
    then have lt: "lfpos ?t < ld_size (entry ?f j)" using bs(2) size by (simp add: word_less_nat_alt)
    have lk: "free_lock (lf_mutex ?f) (count_by ?x (- 1) s)" using F(3) D(5) by simp
    obtain f1 where f1: "lf_locate (ram_drv rest) d (count_by ?x (- 1) s) = Ret ((count_by ?x (- 1) s)\<lparr>lfs := f1\<rparr>) ()"
      "same_rest n d f1 ?f" "located K n f1 G j d" "layout K n f1 G"
      by (rule locate_inside [OF ok d lt _ lk]) simp
    note L = located_byte [OF f1(3)]
    have s1: "lfpos (lfltab f1 d) = lfpos ?t" "lfmutex (lfltab f1 d) = ?x" "lf_mutex f1 = lf_mutex ?f" "lf_dskdev f1 = lf_dskdev ?f"
      "\<And>i. i < n \<Longrightarrow> ld_size (entry f1 i) = ld_size (entry ?f i)" "\<And>i. i \<noteq> d \<Longrightarrow> lfltab f1 i = lfltab ?f i"
      "lfd_nfiles (lf_dir f1) = lfd_nfiles (lf_dir ?f) \<and> lf_dirpresent f1 = lf_dirpresent ?f \<and> dir_head (lf_dir f1) = dir_head (lf_dir ?f)"
      "\<And>i. i < n \<Longrightarrow> ld_name (entry f1 i) = ld_name (entry ?f i)" "lfname (lfltab f1 d) = lfname ?t" "lfdev (lfltab f1 d) = lfdev ?t"
      using f1(2) by (simp_all add: same_rest_def same_env_def)
    define t' where "t' = (lfltab f1 d)\<lparr>lfbyte := lfbyte (lfltab f1 d) + 1, lfpos := lfpos (lfltab f1 d) + 1\<rparr>"
    define f' where "f' = f1\<lparr>lfltab := (lfltab f1)(d := t')\<rparr>"
    have "p < 512 * length (g_dbs G j)" using True size B(3) by linarith
    then have byte: "concat (g_blks G j) ! p = g_blks G j ! (p div 512) ! (p mod 512)"
      using nth_concat_blocks [OF B(1)] B(2) by simp
    then have "lfdblock (lfltab f1 d) ! nat (lfbyte (lfltab f1 d)) = bs ! p"
      using True L s1(1) bs by (simp add: bytes_of_def)
    then have run: "lflgetc (ram_drv rest) e s = Ret (s\<lparr>lfs := f'\<rparr>) (uint (bs ! p))"
      using lock_enter [OF D(4)] lock_exit [OF D(4), of f'] D(8) e iffD2 [OF not_le lt] f1(1) s1(2)
      unfolding lflgetc_def d_def [symmetric] Let_def
      by (simp add: lf_leave_def upd_lfl_eq f'_def t'_def)
    have p1: "unat (lfpos ?t + 1) = p + 1"
      using bs(2) True size B(5) by (simp add: unat_word_ariths)
    have lay: "layout K n f' G"
      by (rule layout_keep [OF f1(4) j(1) jd, where t' = t'])
        (use layout_rep [OF f1(4) j(1) jd] in \<open>simp_all add: f'_def t'_def keep_refl\<close>)
    have lb: "lfbyte (lfltab f1 d) = int (p mod 512)" using f1(3) s1(1) bs(2) by (simp add: located_def Let_def)
    have dn: "p div 512 < length (g_dbs G j)" "lfdnum (lfltab f1 d) = g_dbs G j ! (p div 512)"
      using f1(3) s1(1) bs(2) by (simp_all add: located_def Let_def)
    have byte1: "byte_ok f' G j d"
    proof (cases "p mod 512 = 511")
      case True
      then show ?thesis using lb by (simp add: byte_ok_def f'_def t'_def)
    next
      case False
      then have q: "(p + 1) div 512 = p div 512" "(p + 1) mod 512 = p mod 512 + 1" by (simp_all add: div_Suc mod_Suc)
      have "lfpos (lfltab f1 d) = lfpos ?t" by (rule s1(1))
      then show ?thesis using lb dn p1 q unfolding byte_ok_def f'_def t'_def by simp
    qed
    have "fs_ok K n (s\<lparr>lfs := f'\<rparr>) G" "afiles n f' G = (afiles n ?f G)[j := (bytes_of f' G j, Some (unat (lfpos (lfltab f' d))))]"
      by (rule fs_step [OF ok j(1) jd lay only_file_grow(2)];
        use s1 F(4) D p1 bs(2) True size byte1 f1(3) j jd in
          \<open>simp add: f'_def t'_def file_ok_def entry_def word_le_nat_alt open_at_def located_def Let_def\<close>)+
    moreover have "bytes_of f' G j = bs" using bs(1) s1(5) [OF j(1)] by (simp add: bytes_of_def f'_def entry_def)
    moreover have "unat (lfpos (lfltab f' d)) = p + 1" using p1 s1(1) by (simp add: f'_def t'_def)
    ultimately show thesis using run True by (intro res) (simp_all add: a_getc_def)
  qed
qed

text \<open>Writing into the block of the position, and the size of a file that grows.\<close>

lemma rep_write:
  assumes r: "rep f t ibs dbs blks" and t: "lfdbdirty t" "lfdnum t = dbs ! k" and k: "k < length dbs" "distinct dbs" "length b = 512"
  shows "rep f (t\<lparr>lfdblock := b\<rparr>) ibs dbs (blks[k := b])"
proof -
  have R: "ib_rep f t ibs dbs" "db_rep f t dbs blks" using r by (simp_all add: rep_def)
  have "db_rep f (t\<lparr>lfdblock := b\<rparr>) dbs (blks[k := b])"
    unfolding db_rep_def
  proof (intro conjI allI impI)
    fix i assume i: "i < length dbs"
    have e: "dbs ! k = dbs ! i \<longleftrightarrow> k = i" using k i by (simp add: nth_eq_iff_index_eq)
    show "length (blks[k := b] ! i) = 512" using R(2) i k(3) by (cases "i = k") (simp_all add: db_rep_def)
    show "lfdnum (t\<lparr>lfdblock := b\<rparr>) = dbs ! i \<Longrightarrow> lfdblock (t\<lparr>lfdblock := b\<rparr>) = blks[k := b] ! i"
      using R(2) e t(2) i by (simp add: db_rep_def)
    show "lfdnum (t\<lparr>lfdblock := b\<rparr>) = dbs ! i \<and> lfdbdirty (t\<lparr>lfdblock := b\<rparr>) \<or> sector f (unat (dbs ! i)) = blks[k := b] ! i"
      using R(2) e t i by (auto simp: db_rep_def)
  qed (use R(2) in \<open>auto simp: db_rep_def\<close>)
  then show ?thesis using R(1) by (simp add: rep_def ib_rep_def)
qed

definition bump :: "nat \<Rightarrow> fsys \<Rightarrow> fsys" where
  "bump j f = f\<lparr>lf_dir := (lf_dir f)\<lparr>lfd_files := (lfd_files (lf_dir f))[j := (entry f j)\<lparr>ld_size := ld_size (entry f j) + 1\<rparr>]\<rparr>, lf_dirdirty := True\<rparr>"

lemma bump_simps:
  "lfltab (bump j f) = lfltab f" "lf_dskdev (bump j f) = lf_dskdev f" "lf_mutex (bump j f) = lf_mutex f"
  "lfd_ifree (lf_dir (bump j f)) = lfd_ifree (lf_dir f)" "lfd_dfree (lf_dir (bump j f)) = lfd_dfree (lf_dir f)"
  "rep (bump j f) t ibs dbs blks = rep f t ibs dbs blks" "keep_disk K ibs dbs (bump j f) f' = keep_disk K ibs dbs f f'"
  by (simp_all add: bump_def)

lemma bump_entry:
  assumes "dir_shape (lf_dir f)" "j < 20" "i < 20"
  shows "entry (bump j f) i = (if i = j then (entry f j)\<lparr>ld_size := ld_size (entry f j) + 1\<rparr> else entry f i)"
    "dir_shape (lf_dir (bump j f))"
proof -
  have l: "j < length (lfd_files (lf_dir f))" "i < length (lfd_files (lf_dir f))" using assms by (simp_all add: dir_shape_def)
  then show "entry (bump j f) i = (if i = j then (entry f j)\<lparr>ld_size := ld_size (entry f j) + 1\<rparr> else entry f i)"
    by (simp add: bump_def entry_def nth_list_update)
  have "length (ld_name (entry f j)) = LF_NAME_LEN" using assms(1) l(1) by (simp add: dir_shape_def entry_def)
  then show "dir_shape (lf_dir (bump j f))"
    using assms(1) set_update_subset_insert [of "lfd_files (lf_dir f)" j "(entry f j)\<lparr>ld_size := ld_size (entry f j) + 1\<rparr>"]
    by (auto simp: dir_shape_def bump_def)
qed

text \<open>The byte goes into the buffer, the size grows at the end of the file.\<close>

definition put_at :: "nat \<Rightarrow> int \<Rightarrow> u8 \<Rightarrow> fsys \<Rightarrow> fsys" where
  "put_at j d ch f =
     (let t = lfltab f d; f1 = (if lfpos t \<ge> ld_size (entry f j) then bump j f else f)
      in f1\<lparr>lfltab := (lfltab f)(d := t\<lparr>lfdblock := (lfdblock t)[nat (lfbyte t) := ch], lfbyte := lfbyte t + 1,
           lfpos := lfpos t + 1, lfdbdirty := True\<rparr>)\<rparr>)"

definition put_ghost :: "nat \<Rightarrow> nat \<Rightarrow> u8 \<Rightarrow> lfmap \<Rightarrow> lfmap" where
  "put_ghost j p ch G = G\<lparr>g_blks := (g_blks G)(j := (g_blks G j)[p div 512 := (g_blks G j ! (p div 512))[p mod 512 := ch]])\<rparr>"

lemma put_at_layout:
  assumes a: "located K n f G j d"
  shows "layout K n (put_at j d ch f) (put_ghost j (unat (lfpos (lfltab f d))) ch G)"
proof -
  let ?t = "lfltab f d"
  let ?p = "unat (lfpos ?t)"
  have L: "layout K n (mark d f) G" "j < n" "g_dev G j = Some d" "lfdnum ?t = g_dbs G j ! (?p div 512)"
    using a by (simp_all add: located_def Let_def open_at_def)
  note B = located_byte [OF a] and own = layout_own [OF L(1,2)] and lD = layoutD [OF L(1)]
  define f1 where "f1 = (if lfpos ?t \<ge> ld_size (entry f j) then bump j f else f)"
  define b where "b = (g_blks G j ! (?p div 512))[?p mod 512 := ch]"
  have j20: "j < 20" using L(2) lD(2) by simp
  have sh: "dir_shape (lf_dir f)" using lD(1) by (simp add: mark_def)
  have e: "i \<noteq> j \<Longrightarrow> entry f1 i = entry f i" "ld_ilist (entry f1 j) = ld_ilist (entry f j)" "dir_shape (lf_dir f1)" if "i < n" for i
    using bump_entry [OF sh j20, of i] bump_entry(1) [OF sh j20 j20] sh that lD(2) by (simp_all add: f1_def)
  have R: "rep (mark d f) (?t\<lparr>lfdbdirty := True\<rparr>) (g_ibs G j) (g_dbs G j) (g_blks G j)"
    using layout_rep [OF L(1-3)] by (simp add: mark_def)
  have "length (g_blks G j ! (?p div 512)) = 512" using R B(3) by (simp add: rep_def db_rep_def)
  then have "rep (mark d f) (?t\<lparr>lfdbdirty := True, lfdblock := b\<rparr>) (g_ibs G j) (g_dbs G j) ((g_blks G j)[?p div 512 := b])"
    using own B(3) L(4) by (intro rep_write [OF R]) (simp_all add: own_blocks_def b_def)
  then have r: "rep f1 (?t\<lparr>lfdbdirty := True, lfdblock := b, lfbyte := lfbyte ?t + 1, lfpos := lfpos ?t + 1\<rparr>)
      (g_ibs G j) (g_dbs G j) ((g_blks G j)[?p div 512 := b])"
    by (simp add: mark_def f1_def bump_simps)
  have t: "?t\<lparr>lfdblock := b, lfbyte := lfbyte ?t + 1, lfpos := lfpos ?t + 1, lfdbdirty := True\<rparr>
      = ?t\<lparr>lfdbdirty := True, lfdblock := b, lfbyte := lfbyte ?t + 1, lfpos := lfpos ?t + 1\<rparr>" by (cases ?t) simp
  have "rep f1 (?t\<lparr>lfdblock := b, lfbyte := lfbyte ?t + 1, lfpos := lfpos ?t + 1, lfdbdirty := True\<rparr>)
      (g_ibs G j) (g_dbs G j) ((g_blks G j)[?p div 512 := b])"
    unfolding t by (rule r)
  moreover have "put_at j d ch f = f1\<lparr>lfltab := (lfltab f)(d := ?t\<lparr>lfdblock := b, lfbyte := lfbyte ?t + 1, lfpos := lfpos ?t + 1, lfdbdirty := True\<rparr>)\<rparr>"
    by (simp add: put_at_def Let_def f1_def b_def B)
  moreover have "layout K n (f1\<lparr>lfltab := (lfltab f)(d := ?t\<lparr>lfdblock := b, lfbyte := lfbyte ?t + 1, lfpos := lfpos ?t + 1, lfdbdirty := True\<rparr>)\<rparr>)
     (G\<lparr>g_ibs := (g_ibs G)(j := g_ibs G j), g_dbs := (g_dbs G)(j := g_dbs G j), g_blks := (g_blks G)(j := (g_blks G j)[?p div 512 := b]),
      g_fib := g_fib G, g_fdb := g_fdb G\<rparr>)" (is "layout K n ?f' _")
  proof (rule layout_step [OF L(1-3)])
    show "lfltab ?f' = (lfltab (mark d f))(d := ?t\<lparr>lfdblock := b, lfbyte := lfbyte ?t + 1, lfpos := lfpos ?t + 1, lfdbdirty := True\<rparr>)"
      by (simp add: mark_def)
    show "keep_disk K (g_ibs G j) (g_dbs G j) ?f' (mark d f)" by (simp add: mark_def f1_def bump_simps keep_refl)
    show "entry ?f' i = entry (mark d f) i" if "i < n" "i \<noteq> j" for i using e(1) that by (simp add: entry_def mark_def)
    show "ld_ilist (entry ?f' j) = nth_or (g_ibs G j) 0" "length (g_dbs G j) \<le> 16 * length (g_ibs G j)"
      using e(2) [OF L(2)] lD(10) [OF L(2)] by (simp_all add: file_at_def entry_def mark_def)
    show "rep ?f' (?t\<lparr>lfdblock := b, lfbyte := lfbyte ?t + 1, lfpos := lfpos ?t + 1, lfdbdirty := True\<rparr>)
      (g_ibs G j) (g_dbs G j) ((g_blks G j)[?p div 512 := b])" unfolding rep_upd by (rule calculation(1))
  qed (use e(3) [OF L(2)] lD(7,9) in \<open>simp_all add: moved_def mark_def f1_def bump_simps\<close>)
  ultimately show ?thesis by (simp add: put_ghost_def b_def)
qed

lemma put_list:
  assumes "p \<le> k" "k \<le> length xs" "p < length xs"
  shows "take (max k (p + 1)) (xs[p := c]) = a_put [c] (take k xs) p"
proof (cases "p < k")
  case True
  then have "max k (p + 1) = k" by simp
  moreover have "take k (xs[p := c]) = (take k xs)[p := c]" by (rule take_update_swap)
  ultimately show ?thesis using True assms(2) by (simp add: a_put_def upd_conv_take_nth_drop)
next
  case False
  then have "p = k" using assms(1) by simp
  then show ?thesis using assms(3) by (simp add: a_put_def take_Suc_conv_app_nth)
qed

lemma put_bytes:
  assumes "\<forall>b\<in>set (blks @ new). length b = 512" "p < 512 * length (blks @ new)" "k \<le> 512 * length blks" "p \<le> k"
  shows "take (max k (p + 1)) (concat ((blks @ new)[p div 512 := ((blks @ new) ! (p div 512))[p mod 512 := c]]))
    = a_put [c] (take k (concat blks)) p"
proof -
  have l: "length (concat (blks @ new)) = 512 * length (blks @ new)" "length (concat blks) = 512 * length blks"
    using assms(1) by (intro length_concat_blocks; simp)+
  have c: "take k (concat blks) = take k (concat (blks @ new))" using l(2) assms(3) by simp
  show ?thesis
    unfolding concat_update_block [OF assms(1,2)] c by (rule put_list [OF assms(4)]) (use l(1) assms(2,3) in simp_all)
qed

lemma room_below_capacity:
  assumes "layout K n f G" "j < n" "unat p < capacity j G" "unat p div 512 \<le> length (g_dbs G j)"
  shows "has_room p j G"
proof -
  have l: "length (g_dbs G j) \<le> 16 * length (g_ibs G j)" using layoutD(10) [OF assms(1,2)] by (simp add: file_at_def)
  have "unat p div 8192 \<le> length (g_ibs G j)" using position_index(3) [of p] assms(4) l by linarith
  moreover have "unat p div 8192 = length (g_ibs G j) \<Longrightarrow> g_fib G \<noteq> []" using assms(3) by (auto simp: capacity_def)
  moreover have "unat p div 512 = length (g_dbs G j) \<Longrightarrow> g_fdb G \<noteq> []" using assms(3) by (auto simp: capacity_def)
  ultimately show ?thesis using assms(4) by (auto simp: has_room_def)
qed

lemma grow_blocks:
  "g_dbs (grow p j G) j = (if unat p div 512 < length (g_dbs G j) then g_dbs G j else g_dbs G j @ [hd (g_fdb G)])"
  "g_blks (grow p j G) j = (if unat p div 512 < length (g_dbs G j) then g_blks G j else g_blks G j @ [replicate LF_BLKSIZ DFILL])"
  by (simp_all add: grow_def grow_db_def grow_ib_def Let_def)

lemma put_at_state:
  assumes "lfdirptr (lfltab (lfs s) d) = int j"
  shows "upd_lfl d (\<lambda>t. t\<lparr>lfdblock := (lfdblock t)[nat (lfbyte t) := ch], lfbyte := lfbyte t + 1, lfpos := lfpos t + 1, lfdbdirty := True\<rparr>)
      (if lfpos (lfl d s) \<ge> ld_size (lde d s)
       then upd_lfs (\<lambda>f. f\<lparr>lf_dirdirty := True\<rparr>) (upd_lde d (\<lambda>e. e\<lparr>ld_size := ld_size e + 1\<rparr>) s) else s)
    = s\<lparr>lfs := put_at j d ch (lfs s)\<rparr>" "lfmutex (lfltab (put_at j d ch (lfs s)) d) = lfmutex (lfltab (lfs s) d)"
proof -
  have e: "lde d s = entry (lfs s) j" using assms by (simp add: lde_def entry_def)
  show "upd_lfl d (\<lambda>t. t\<lparr>lfdblock := (lfdblock t)[nat (lfbyte t) := ch], lfbyte := lfbyte t + 1, lfpos := lfpos t + 1, lfdbdirty := True\<rparr>)
      (if lfpos (lfl d s) \<ge> ld_size (lde d s)
       then upd_lfs (\<lambda>f. f\<lparr>lf_dirdirty := True\<rparr>) (upd_lde d (\<lambda>e. e\<lparr>ld_size := ld_size e + 1\<rparr>) s) else s)
    = s\<lparr>lfs := put_at j d ch (lfs s)\<rparr>"
    unfolding e by (cases "lfpos (lfl d s) \<ge> ld_size (entry (lfs s) j)")
      (use assms in \<open>simp_all add: upd_lfl_eq upd_lde_def upd_dir_eq put_at_def bump_def entry_def Let_def\<close>)
qed (simp add: put_at_def Let_def)

lemma lflputc_refines:
  assumes ok: "fs_ok K n s G" and j: "j < n" "g_dev G j = Some (dvminor e)" and a: "afiles n (lfs s) G ! j = (bs, Some p)"
    and room: "p < capacity j G"
  obtains (res) f' G' where "lflputc (ram_drv rest) e ch s = Ret (s\<lparr>lfs := f'\<rparr>) OK" "fs_ok K n (s\<lparr>lfs := f'\<rparr>) G'"
    "afiles n f' G' = (afiles n (lfs s) G)[j := (a_put [ch] bs p, Some (p + 1))]" "g_dev G' = g_dev G" "capacity j G' = capacity j G"
    "spare G + nblocks bs \<le> spare G' + nblocks (a_put [ch] bs p)" "g_names G' = g_names G" "dev_frame (dvminor e) f' (lfs s)"
    "p = length bs \<longrightarrow> lf_dirdirty f'"
proof -
  define d where "d = dvminor e"
  let ?f = "lfs s" and ?t = "lfltab (lfs s) d" and ?x = "lfmutex (lfltab (lfs s) d)"
  have jd: "g_dev G j = Some d" using j(2) by (simp add: d_def)
  note F = fs_okD [OF ok j(1)]
  have d: "dev_ok n s G j d" by (rule F(5) [OF jd])
  note D = dev_okD [OF d] and B = file_blocks [OF F(2,4) j(1)]
  have bs: "bs = bytes_of ?f G j" "p = unat (lfpos ?t)" using a j(1) jd by (simp_all add: afiles_def)
  define k where "k = unat (ld_size (entry ?f j))"
  have pk: "p \<le> k" using D(2) bs(2) by (simp add: word_le_nat_alt k_def)
  have m: "p div 512 \<le> length (g_dbs G j)" using B(7) pk by (simp add: k_def)
  have R: "has_room (lfpos ?t) j G" using room_below_capacity [OF F(2) j(1)] room m bs(2) by simp
  define G1 where "G1 = grow (lfpos ?t) j G"
  define G' where "G' = put_ghost j p ch G1"
  have lk: "free_lock (lf_mutex ?f) (count_by ?x (- 1) s)" using F(3) D(5) by simp
  obtain f1 where f1: "lf_locate (ram_drv rest) d (count_by ?x (- 1) s) = Ret ((count_by ?x (- 1) s)\<lparr>lfs := f1\<rparr>) ()"
    "same_rest n d f1 ?f" "located K n f1 G1 j d"
    by (rule lf_locate_spec [of K n "count_by ?x (- 1) s" G j d rest]) (use F(1,2) D(1,3) lk R in \<open>simp_all add: G1_def\<close>)
  note L = located_byte [OF f1(3)]
  have s1: "lfpos (lfltab f1 d) = lfpos ?t" "lfmutex (lfltab f1 d) = ?x" "lf_mutex f1 = lf_mutex ?f" "lf_dskdev f1 = lf_dskdev ?f"
    "\<And>i. i < n \<Longrightarrow> ld_size (entry f1 i) = ld_size (entry ?f i)" "\<And>i. i \<noteq> d \<Longrightarrow> lfltab f1 i = lfltab ?f i"
      "lfd_nfiles (lf_dir f1) = lfd_nfiles (lf_dir ?f) \<and> lf_dirpresent f1 = lf_dirpresent ?f \<and> dir_head (lf_dir f1) = dir_head (lf_dir ?f)"
      "\<And>i. i < n \<Longrightarrow> ld_name (entry f1 i) = ld_name (entry ?f i)" "lfname (lfltab f1 d) = lfname ?t" "lfdev (lfltab f1 d) = lfdev ?t"
    using f1(2) by (simp_all add: same_rest_def same_env_def)
  have o1: "lfdirptr (lfltab f1 d) = int j" "lfstate (lfltab f1 d) = LF_USED" "g_dev G1 j = Some d"
    using f1(3) by (simp_all add: located_def Let_def open_at_def)
  define f' where "f' = put_at j d ch f1"
  have lay: "layout K n f' G'" using put_at_layout [OF f1(3), of ch] s1(1) bs(2) by (simp add: f'_def G'_def)
  define s1 where "s1 = count_by ?x (- 1) s"
  define s2 where "s2 = s1\<lparr>lfs := f1\<rparr>"
  have dp: "lfs s2 = f1" "lfdirptr (lfltab (lfs s2) d) = int j" using o1(1) by (simp_all add: s2_def)
  have put: "put_at j d ch (lfs s2) = f'" "s2\<lparr>lfs := f'\<rparr> = s1\<lparr>lfs := f'\<rparr>" by (simp_all add: s2_def f'_def)
  have mx: "lfmutex (lfltab f' d) = ?x" using put_at_state(2) [OF dp(2), of ch] dp(1) s1(2) by (simp add: f'_def)
  have "lfs s1 = ?f" "lde d s1 = entry ?f j" "wait ?x s = Ret s1 OK" "lf_locate (ram_drv rest) d s1 = Ret s2 ()"
    "signal ?x (s1\<lparr>lfs := f'\<rparr>) = Ret (s\<lparr>lfs := f'\<rparr>) OK"
    using D(9) lock_enter [OF D(4)] f1(1) lock_exit [OF D(4)] by (simp_all add: s1_def s2_def lde_def entry_def)
  then have run: "lflputc (ram_drv rest) e ch s = Ret (s\<lparr>lfs := f'\<rparr>) OK"
    unfolding lflputc_def d_def [symmetric] Let_def using D(8) iffD2 [OF not_less D(2)] mx
    by (simp add: lf_leave_def put_at_state(1) [OF dp(2), unfolded upd_simps] put split del: if_split)
  have ej: "entry f' j = (if lfpos ?t \<ge> ld_size (entry ?f j) then (entry f1 j)\<lparr>ld_size := ld_size (entry ?f j) + 1\<rparr> else entry f1 j)"
  proof -
    have "dir_shape (lf_dir f1)" "j < 20" using f1(3) j(1) layoutD(1,2) [of K n "mark d f1" G1] by (simp_all add: located_def Let_def mark_def)
    note be = bump_entry(1) [OF this this(2)]
    show ?thesis using be s1(1,5) j(1) by (auto simp: f'_def put_at_def entry_def Let_def)
  qed
  have size: "unat (ld_size (entry f' j)) = max k (p + 1)"
  proof -
    have "unat (ld_size (entry ?f j) + 1) = k + 1" using B(5) by (simp add: k_def unat_word_ariths)
    moreover have "ld_size (entry ?f j) \<le> lfpos ?t \<longleftrightarrow> p = k" using pk bs(2) by (auto simp: k_def word_le_nat_alt)
    ultimately show ?thesis using ej s1(5) [OF j(1)] pk by (cases "p = k") (simp_all add: k_def)
  qed
  have dbs: "g_dbs G' j = (if p div 512 < length (g_dbs G j) then g_dbs G j else g_dbs G j @ [hd (g_fdb G)])"
    by (simp add: G'_def put_ghost_def G1_def grow_blocks bs(2))
  have p0: "unat (lfpos (lfltab f' d)) = p + 1" "lfbyte (lfltab f' d) = int (p mod 512) + 1" "lfdnum (lfltab f' d) = g_dbs G' j ! (p div 512)"
  proof -
    have "unat (lfpos ?t + 1) = p + 1" using bs(2) pk B(5) by (simp add: k_def unat_word_ariths)
    then show "unat (lfpos (lfltab f' d)) = p + 1" "lfbyte (lfltab f' d) = int (p mod 512) + 1" "lfdnum (lfltab f' d) = g_dbs G' j ! (p div 512)"
      using f1(3) s1(1) bs(2) by (simp_all add: f'_def put_at_def Let_def located_def G'_def put_ghost_def)
  qed
  have ml: "p div 512 < length (g_dbs G' j)" using m dbs by auto
  have "byte_ok f' G' j d"
  proof (cases "p mod 512 = 511")
    case True
    then show ?thesis using p0 by (simp add: byte_ok_def)
  next
    case False
    then have "(p + 1) div 512 = p div 512" "(p + 1) mod 512 = p mod 512 + 1" by (simp_all add: div_Suc mod_Suc)
    then show ?thesis using p0 ml unfolding byte_ok_def p0(1) by simp
  qed
  moreover have "file_ok f' G' j"
  proof (cases "p div 512 < length (g_dbs G j)")
    case True
    then have "(max k (p + 1) + 511) div 512 = length (g_dbs G j)" using F(4) pk unfolding file_ok_def k_def [symmetric] by linarith
    then show ?thesis using True dbs size by (simp add: file_ok_def)
  next
    case False
    then have "p div 512 = length (g_dbs G j)" using m by simp
    then have "(max k (p + 1) + 511) div 512 = length (g_dbs G j) + 1" using F(4) pk unfolding file_ok_def k_def [symmetric] by linarith
    then show ?thesis using False dbs size by (simp add: file_ok_def)
  qed
  moreover have "lf_dskdev f' = lf_dskdev ?f" "lf_mutex f' = lf_mutex ?f" "lfd_nfiles (lf_dir f') = lfd_nfiles (lf_dir ?f) \<and> lf_dirpresent f' = lf_dirpresent ?f \<and> dir_head (lf_dir f') = dir_head (lf_dir ?f)" "lfmutex (lfltab f' d) = ?x"
    "\<And>i. i \<noteq> d \<Longrightarrow> lfltab f' i = lfltab ?f i"
    using s1 by (simp_all add: f'_def put_at_def Let_def bump_def)
  moreover have "lfpos (lfltab f' d) \<le> ld_size (entry f' j)" using p0(1) size by (simp add: word_le_nat_alt)
  moreover have "open_at n f' G' j d"
    using o1 j(1) by (simp add: open_at_def f'_def put_at_def Let_def G'_def put_ghost_def)
  moreover have "ld_size (entry f' i) = ld_size (entry ?f i)" if "i < n" "i \<noteq> j" for i
    using s1(5) [OF that(1)] that by (simp add: f'_def put_at_def Let_def bump_def entry_def)
  moreover have "ld_name (entry f' i) = ld_name (entry ?f i)" if "i < n" for i
  proof (cases "i = j")
    case True
    then show ?thesis using ej s1(8) [OF that] by simp
  next
    case False
    then show ?thesis using s1(8) [OF that] by (simp add: f'_def put_at_def Let_def bump_def entry_def)
  qed
  moreover have "only_file j G' G" unfolding G'_def put_ghost_def G1_def by (intro only_file_grow)
  ultimately have st: "fs_ok K n (s\<lparr>lfs := f'\<rparr>) G'"
    "afiles n f' G' = (afiles n ?f G)[j := (bytes_of f' G' j, Some (unat (lfpos (lfltab f' d))))]"
    using fs_step [OF ok j(1) jd lay] by blast+
  define nw where "nw = (if p div 512 < length (g_dbs G j) then [] else [replicate LF_BLKSIZ DFILL])"
  have "g_blks G1 j = g_blks G j @ nw" by (simp add: G1_def grow_blocks bs(2) nw_def)
  then have blks: "g_blks G' j = (g_blks G j @ nw)[p div 512 := ((g_blks G j @ nw) ! (p div 512))[p mod 512 := ch]]"
    by (simp add: G'_def put_ghost_def)
  have nw: "\<forall>b\<in>set (g_blks G j @ nw). length b = 512" "p div 512 < length (g_blks G j @ nw)" using B(1,2) m by (simp_all add: nw_def)
  then have "p < 512 * length (g_blks G j @ nw)" by linarith
  then have "bytes_of f' G' j = a_put [ch] bs p"
    unfolding bytes_of_def size bs(1) k_def [symmetric] blks using B(2,3) pk by (intro put_bytes [OF nw(1)]) (simp_all add: k_def)
  moreover have "g_dev G' = g_dev G" "capacity j G' = capacity j G"
    using capacity_grow [OF R] by (simp_all add: G'_def put_ghost_def G1_def capacity_def grow_def grow_ib_def grow_db_def Let_def)
  moreover have "g_names G' = g_names G"
    by (simp add: G'_def put_ghost_def G1_def grow_def grow_ib_def grow_db_def Let_def)
  moreover have "dev_frame d f' ?f"
    using s1 by (simp add: dev_frame_def f'_def put_at_def Let_def bump_def)
  moreover have "spare G + nblocks bs \<le> spare G' + nblocks (a_put [ch] bs p)"
  proof -
    have "nblocks bs = length (g_dbs G j)" using F(4) B(4) by (simp add: nblocks_def file_ok_def bs(1))
    moreover have "nblocks (a_put [ch] bs p) = length (g_dbs G' j)"
      using \<open>bytes_of f' G' j = a_put [ch] bs p\<close> file_blocks(4) [OF lay \<open>file_ok f' G' j\<close> j(1)] \<open>file_ok f' G' j\<close>
      by (simp add: nblocks_def file_ok_def)
    moreover have "spare G + length (g_dbs G j) \<le> spare G' + length (g_dbs G' j)"
    proof (cases "p div 512 < length (g_dbs G j)")
      case True
      have "length (g_dbs G j) \<le> 16 * length (g_ibs G j)" using layoutD(10) [OF F(2) j(1)] by (simp add: file_at_def)
      then have "p div 8192 < length (g_ibs G j)" using True position_index(3) [of "lfpos ?t"] bs(2) by linarith
      then show ?thesis using True bs(2) by (simp add: spare_def G'_def put_ghost_def G1_def grow_def)
    next
      case False
      then show ?thesis
        using bs(2) dbs by (auto simp: spare_def G'_def put_ghost_def G1_def grow_def grow_ib_def grow_db_def Let_def min_def)
    qed
    ultimately show ?thesis by simp
  qed
  moreover have "p = length bs \<longrightarrow> lf_dirdirty f'"
  proof
    assume "p = length bs"
    then have "unat (lfpos (lfltab f1 d)) = unat (ld_size (entry f1 j))" using s1(1,5) j(1) bs B(4) by simp
    then have "lfpos (lfltab f1 d) = ld_size (entry f1 j)" by (simp only: unat_eq_u32)
    then show "lf_dirdirty f'" by (simp add: f'_def put_at_def Let_def bump_def)
  qed
  ultimately show thesis using st(2) p0(1) by (intro res [OF run st(1)]) (simp_all add: d_def [symmetric])
qed

lemma lflseek_refines:
  assumes ok: "fs_ok K n s G" and j: "j < n" "g_dev G j = Some (dvminor e)" and a: "afiles n (lfs s) G ! j = (bs, Some p)"
  obtains (res) f' where "lflseek e off s = Ret (s\<lparr>lfs := f'\<rparr>) (if unat off \<le> length bs then OK else SYSERR)"
    "fs_ok K n (s\<lparr>lfs := f'\<rparr>) G"
    "afiles n f' G = (afiles n (lfs s) G)[j := (bs, Some (if unat off \<le> length bs then unat off else p))]"
proof -
  define d where "d = dvminor e"
  let ?f = "lfs s" and ?t = "lfltab (lfs s) d" and ?x = "lfmutex (lfltab (lfs s) d)"
  have jd: "g_dev G j = Some d" using j(2) by (simp add: d_def)
  note F = fs_okD [OF ok j(1)]
  have d: "dev_ok n s G j d" by (rule F(5) [OF jd])
  note D = dev_okD [OF d] and B = file_blocks [OF F(2,4) j(1)]
  have bs: "bs = bytes_of ?f G j" "p = unat (lfpos ?t)" using a j(1) jd by (simp_all add: afiles_def)
  have size: "unat off \<le> length bs \<longleftrightarrow> off \<le> ld_size (entry ?f j)" using bs(1) B(4) by (simp add: word_le_nat_alt)
  define s1 where "s1 = count_by ?x (- 1) s"
  have S: "lfs s1 = ?f" "lde d s1 = entry ?f j" "wait ?x s = Ret s1 OK" "signal ?x s1 = Ret s OK"
    "signal ?x (s1\<lparr>lfs := f\<rparr>) = Ret (s\<lparr>lfs := f\<rparr>) OK" for f
    using D(9) lock_enter [OF D(4)] lock_exit [OF D(4)] lock_exit_same [OF D(4)] by (simp_all add: s1_def lde_def entry_def)
  show thesis
  proof (cases "unat off \<le> length bs")
    case False
    then have run: "lflseek e off s = Ret (s\<lparr>lfs := ?f\<rparr>) (if unat off \<le> length bs then OK else SYSERR)"
      unfolding lflseek_def d_def [symmetric] Let_def using S(1-4) D(8) size by (simp add: lf_leave_def not_le)
    have "(afiles n ?f G)[j := (bs, Some p)] = afiles n ?f G" using a by (metis list_update_id)
    then show thesis using False ok by (intro res [OF run]) simp_all
  next
    case True
    define t' where "t' = ?t\<lparr>lfpos := off, lfbyte := 512\<rparr>"
    define f' where "f' = ?f\<lparr>lfltab := (lfltab ?f)(d := t')\<rparr>"
    have u: "s1\<lparr>lfs := f'\<rparr> = upd_lfl d (\<lambda>t. t\<lparr>lfpos := off, lfbyte := 512\<rparr>) s1" "lfltab f' d = t'" "lfmutex t' = ?x"
      using S(1) by (simp_all add: f'_def t'_def upd_lfl_eq)
    have run: "lflseek e off s = Ret (s\<lparr>lfs := f'\<rparr>) (if unat off \<le> length bs then OK else SYSERR)"
      unfolding lflseek_def d_def [symmetric] Let_def using S(1-3) S(5) [of f'] D(8) iffD2 [OF not_less True [unfolded size]] True u(2,3)
      by (simp add: lf_leave_def u(1) [symmetric])
    have lay: "layout K n f' G"
      by (rule layout_keep [OF F(2) j(1) jd, where t' = t'])
        (use layout_rep [OF F(2) j(1) jd] in \<open>simp_all add: f'_def t'_def keep_refl\<close>)
    have "fs_ok K n (s\<lparr>lfs := f'\<rparr>) G" "afiles n f' G = (afiles n ?f G)[j := (bytes_of f' G j, Some (unat (lfpos (lfltab f' d))))]"
      by (rule fs_step [OF ok j(1) jd lay only_file_grow(2)];
        use F(4) D(1) True size jd in \<open>simp add: f'_def t'_def file_ok_def entry_def open_at_def byte_ok_def\<close>)+
    moreover have "bytes_of f' G j = bs" using bs(1) by (simp add: bytes_of_def f'_def entry_def)
    ultimately show thesis using True by (intro res [OF run]) (simp_all add: f'_def t'_def)
  qed
qed

section \<open>Many bytes\<close>

lemma position_inside: "fs_ok K n s G \<Longrightarrow> j < n \<Longrightarrow> afiles n (lfs s) G ! j = (bs, Some p) \<Longrightarrow> p \<le> length bs"
proof -
  assume ok: "fs_ok K n s G" and j: "j < n" and a: "afiles n (lfs s) G ! j = (bs, Some p)"
  then obtain d where d: "g_dev G j = Some d" "p = unat (lfpos (lfltab (lfs s) d))" "bs = bytes_of (lfs s) G j" by (auto simp: afiles_def)
  note F = fs_okD [OF ok j]
  show "p \<le> length bs"
    using dev_okD(2) [OF F(5) [OF d(1)]] file_blocks(4) [OF F(2,4) j] d by (simp add: word_le_nat_alt)
qed

lemma length_afiles [simp]: "length (afiles n f G) = n"
  by (simp add: afiles_def)

lemma a_put_Cons: "p \<le> length bs \<Longrightarrow> a_put xs (a_put [c] bs p) (p + 1) = a_put (c # xs) bs p"
  by (simp add: a_put_def min_def add_ac)

lemma a_put_Nil: "a_put [] bs p = bs"
  by (simp add: a_put_def)

text \<open>The bytes of a buffer in memory.\<close>

definition mem_bytes :: "memory \<Rightarrow> u32 \<Rightarrow> nat \<Rightarrow> u8 list" where
  "mem_bytes m buff k = map (\<lambda>i. m (buff + of_nat i)) [0..<k]"

primrec store_bytes :: "u8 list \<Rightarrow> u32 \<Rightarrow> memory \<Rightarrow> memory" where
  "store_bytes [] a m = m"
| "store_bytes (c # cs) a m = store_bytes cs (a + 1) (m(a := c))"

lemma kmem_simps [simp]: "kmem (s\<lparr>lfs := f\<rparr>) = kmem s" "kmem (set_kmem m s) = m" "lfs (set_kmem m s) = lfs s"
  "set_kmem m (set_kmem m' s) = set_kmem m s" "(set_kmem m s)\<lparr>lfs := f\<rparr> = set_kmem m (s\<lparr>lfs := f\<rparr>)"
  by (simp_all add: kmem_def set_kmem_def)

lemma mem_bytes_Suc: "mem_bytes m buff (Suc k) = m buff # mem_bytes m (buff + 1) k"
  by (simp add: mem_bytes_def upt_conv_Cons map_Suc_upt [symmetric] add_ac del: upt_Suc)

lemma lflwrite_loop_refines:
  assumes "fs_ok K n s G" "j < n" "g_dev G j = Some (dvminor e)" "afiles n (lfs s) G ! j = (bs, Some p)" "p + k \<le> capacity j G"
  obtains (res) f' G' where "lflwrite_loop k (ram_drv rest) e buff count s = Ret (s\<lparr>lfs := f'\<rparr>) count" "fs_ok K n (s\<lparr>lfs := f'\<rparr>) G'"
    "afiles n f' G' = (afiles n (lfs s) G)[j := (a_put (mem_bytes (kmem s) buff k) bs p, Some (p + k))]"
    "g_dev G' = g_dev G" "capacity j G' = capacity j G" "g_names G' = g_names G" "dev_frame (dvminor e) f' (lfs s)"
    "spare G + nblocks bs \<le> spare G' + nblocks (a_put (mem_bytes (kmem s) buff k) bs p)" "0 < k \<and> p = length bs \<longrightarrow> lf_dirdirty f'"
    "k = 0 \<longrightarrow> f' = lfs s"
  using assms
proof (induction k arbitrary: s G bs p buff thesis)
  case 0
  have "(afiles n (lfs s) G)[j := (bs, Some p)] = afiles n (lfs s) G" using 0(5) by (metis list_update_id)
  then show ?case using 0(2) by (intro 0(1) [of "lfs s" G]) (simp_all add: mem_bytes_def a_put_Nil dev_frame_def)
next
  case (Suc k)
  obtain f1 G1 where f1: "lflputc (ram_drv rest) e (kmem s buff) s = Ret (s\<lparr>lfs := f1\<rparr>) OK" "fs_ok K n (s\<lparr>lfs := f1\<rparr>) G1"
    "afiles n f1 G1 = (afiles n (lfs s) G)[j := (a_put [kmem s buff] bs p, Some (p + 1))]" "g_dev G1 = g_dev G" "capacity j G1 = capacity j G"
    "spare G + nblocks bs \<le> spare G1 + nblocks (a_put [kmem s buff] bs p)" "g_names G1 = g_names G" "dev_frame (dvminor e) f1 (lfs s)"
    "p = length bs \<longrightarrow> lf_dirdirty f1"
    by (rule lflputc_refines [OF Suc.prems(2-5)]) (use Suc.prems(6) in simp)
  obtain f2 G2 where f2: "lflwrite_loop k (ram_drv rest) e (buff + 1) count (s\<lparr>lfs := f1\<rparr>) = Ret (s\<lparr>lfs := f1, lfs := f2\<rparr>) count"
    "fs_ok K n (s\<lparr>lfs := f1, lfs := f2\<rparr>) G2"
    "afiles n f2 G2 = (afiles n (lfs (s\<lparr>lfs := f1\<rparr>)) G1)[j := (a_put (mem_bytes (kmem (s\<lparr>lfs := f1\<rparr>)) (buff + 1) k)
       (a_put [kmem s buff] bs p) (p + 1), Some (p + 1 + k))]"
    "g_dev G2 = g_dev G1" "capacity j G2 = capacity j G1" "g_names G2 = g_names G1" "dev_frame (dvminor e) f2 (lfs (s\<lparr>lfs := f1\<rparr>))"
    "spare G1 + nblocks (a_put [kmem s buff] bs p)
      \<le> spare G2 + nblocks (a_put (mem_bytes (kmem (s\<lparr>lfs := f1\<rparr>)) (buff + 1) k) (a_put [kmem s buff] bs p) (p + 1))"
    "0 < k \<and> p + 1 = length (a_put [kmem s buff] bs p) \<longrightarrow> lf_dirdirty f2" "k = 0 \<longrightarrow> f2 = f1"
    by (rule Suc.IH [where s = "s\<lparr>lfs := f1\<rparr>" and G = G1 and p = "p + 1"]) (use f1 Suc.prems(3,4,6) in simp_all)
  have p: "p \<le> length bs" by (rule position_inside [OF Suc.prems(2,3,5)])
  have fr: "dev_frame (dvminor e) f2 (lfs s)" using dev_frame_trans f1(8) f2(7) by simp
  have dirty: "p = length bs \<longrightarrow> lf_dirdirty f2" using f1(9) f2(9,10) by (cases k) (simp_all add: a_put_def)
  show ?case
    by (rule Suc.prems(1) [of f2 G2])
      (use f1(1,3-7) f2(1-8) a_put_Cons [OF p] fr dirty in \<open>simp_all add: mem_bytes_Suc\<close>)
qed

lemma fs_ok_kmem [simp]: "fs_ok K n (set_kmem m s) G = fs_ok K n s G"
  by (simp add: fs_ok_def dev_ok_def free_lock_def idle_sem_def set_kmem_def)

definition a_read :: "nat \<Rightarrow> u8 list \<Rightarrow> nat \<Rightarrow> u8 list" where
  "a_read k bs p = take k (drop p bs)"

lemma lflread_loop_refines:
  assumes "fs_ok K n s G" "j < n" "g_dev G j = Some (dvminor e)" "afiles n (lfs s) G ! j = (bs, Some p)" "0 \<le> nr"
  obtains (res) f' where "lflread_loop k (ram_drv rest) e buff nr s
      = Ret (set_kmem (store_bytes (a_read k bs p) buff (kmem s)) (s\<lparr>lfs := f'\<rparr>))
          (if length bs - p < k \<and> nr + int (length bs - p) = 0 then EOF else nr + int (min k (length bs - p)))"
    "fs_ok K n (s\<lparr>lfs := f'\<rparr>) G" "afiles n f' G = (afiles n (lfs s) G)[j := (bs, Some (p + min k (length bs - p)))]"
  using assms
proof (induction k arbitrary: s p buff nr thesis)
  case 0
  have "(afiles n (lfs s) G)[j := (bs, Some p)] = afiles n (lfs s) G" using 0(5) by (metis list_update_id)
  then show ?case using 0(2,6) by (intro 0(1) [of "lfs s"]) (simp_all add: a_read_def set_kmem_def kmem_def)
next
  case (Suc k)
  have p: "p \<le> length bs" by (rule position_inside [OF Suc.prems(2,3,5)])
  obtain f1 where f1: "lflgetc (ram_drv rest) e s = Ret (s\<lparr>lfs := f1\<rparr>) (snd (a_getc bs p))" "fs_ok K n (s\<lparr>lfs := f1\<rparr>) G"
    "afiles n f1 G = (afiles n (lfs s) G)[j := (bs, Some (fst (a_getc bs p)))]"
    by (rule lflgetc_refines [OF Suc.prems(2-5)])
  show ?case
  proof (cases "p < length bs")
    case False
    then have "a_read (Suc k) bs p = []" "set_kmem (kmem s) (s\<lparr>lfs := f1\<rparr>) = s\<lparr>lfs := f1\<rparr>" by (simp_all add: a_read_def set_kmem_def kmem_def)
    then show ?thesis using f1 False Suc.prems(6) by (intro Suc.prems(1) [of f1]) (simp_all add: a_getc_def)
  next
    case True
    define s1 where "s1 = set_kmem ((kmem s)(buff := bs ! p)) (s\<lparr>lfs := f1\<rparr>)"
    have u: "uint (bs ! p) \<noteq> - 1" "uint (bs ! p) \<noteq> - 2" using uint_nonnegative [of "bs ! p"] by linarith+
    have e: "store_byte buff (uint (bs ! p)) (s\<lparr>lfs := f1\<rparr>) = s1" by (simp add: store_byte_def s1_def)
    have s1: "fs_ok K n s1 G" "lfs s1 = f1" "kmem s1 = (kmem s)(buff := bs ! p)" using f1(2) by (simp_all add: s1_def)
    have af: "afiles n (lfs s1) G ! j = (bs, Some (p + 1))" using f1(3) s1(2) True Suc.prems(3) by (simp add: a_getc_def)
    obtain f2 where f2: "lflread_loop k (ram_drv rest) e (buff + 1) (nr + 1) s1
        = Ret (set_kmem (store_bytes (a_read k bs (p + 1)) (buff + 1) (kmem s1)) (s1\<lparr>lfs := f2\<rparr>))
          (if length bs - (p + 1) < k \<and> nr + 1 + int (length bs - (p + 1)) = 0 then EOF else nr + 1 + int (min k (length bs - (p + 1))))"
      "fs_ok K n (s1\<lparr>lfs := f2\<rparr>) G" "afiles n f2 G = (afiles n (lfs s1) G)[j := (bs, Some (p + 1 + min k (length bs - (p + 1))))]"
      by (rule Suc.IH [where s = s1 and p = "p + 1" and nr = "nr + 1"]) (use s1(1) Suc.prems(3,4,6) af in simp_all)
    have rd: "a_read (Suc k) bs p = bs ! p # a_read k bs (p + 1)"
      using True by (simp add: a_read_def Cons_nth_drop_Suc [symmetric])
    have mn: "min (Suc k) (length bs - p) = Suc (min k (length bs - (p + 1)))" "Suc k > length bs - p \<longleftrightarrow> k > length bs - (p + 1)"
      "length bs - p = Suc (length bs - (p + 1))" using True by auto
    have "lflread_loop (Suc k) (ram_drv rest) e buff nr s = Ret (set_kmem (store_bytes (a_read (Suc k) bs p) buff (kmem s)) (s\<lparr>lfs := f2\<rparr>))
          (if length bs - p < Suc k \<and> nr + int (length bs - p) = 0 then EOF else nr + int (min (Suc k) (length bs - p)))"
      using f1(1) f2(1) True u e s1(3) Suc.prems(6) unfolding rd mn by (simp add: a_getc_def s1_def)
    then show ?thesis
      by (rule Suc.prems(1)) (use f2(2,3) s1(2) f1(3) mn(1) True in \<open>simp_all add: s1_def a_getc_def\<close>)
  qed
qed

end
