(* ===== verification/Lfsformat.thy ===== *)
theory Lfsformat
  imports Lfsfind
begin

text \<open>
  A disk that \<^verbatim>\<open>lfscreate\<close> has made: the two free lists it builds hold every block, and
  \<^verbatim>\<open>lfsckfmt\<close> counts them.
\<close>

section \<open>Counting the free lists\<close>

lemma count_ib_ram:
  assumes "free_ibs (lfs s) xs" "\<forall>x\<in>set xs. unat x < 1393" "is_ram disk" "length xs - i < k" "i \<le> length xs"
  shows "count_ib k (ram_drv rest) disk (nth_or xs i) c s = Ret s (c + int (length xs - i))"
  using assms(4,5)
proof (induction k arbitrary: i c)
  case (Suc k)
  show ?case
  proof (cases "i < length xs")
    case True
    then have u: "unat (xs ! i) < 1393" using assms(2) by simp
    then have "xs ! i \<noteq> - 1" by (auto simp: unsigned_minus_1_eq_mask mask_eq_exp_minus_1)
    moreover have "ib_next (iblk (lfs s) (xs ! i)) = nth_or xs (i + 1)" using assms(1) True by (simp add: free_ibs_def)
    ultimately show ?thesis
      using Suc.IH [of "i + 1" "c + 1"] Suc.prems True lfibget_ram [OF assms(3) u] by (simp add: nth_or_def of_nat_diff)
  qed (use Suc.prems in \<open>simp add: nth_or_def\<close>)
qed simp

lemma count_db_ram:
  assumes "free_dbs (lfs s) xs" "\<forall>x\<in>set xs. unat x < 200" "is_ram disk" "length xs - i < k" "i \<le> length xs"
  shows "count_db k (ram_drv rest) disk (nth_or xs i) c s = Ret s (c + int (length xs - i))"
  using assms(4,5)
proof (induction k arbitrary: i c)
  case (Suc k)
  show ?case
  proof (cases "i < length xs")
    case True
    then have u: "unat (xs ! i) < 200" using assms(2) by simp
    then have "xs ! i \<noteq> - 1" by (auto simp: unsigned_minus_1_eq_mask mask_eq_exp_minus_1)
    moreover have "word_at (sector (lfs s) (unat (xs ! i))) 0 = nth_or xs (i + 1)" using assms(1) True by (simp add: free_dbs_def)
    ultimately show ?thesis
      using Suc.IH [of "i + 1" "c + 1"] Suc.prems True bread_ram [OF assms(3) u] by (simp add: nth_or_def of_nat_diff)
  qed (use Suc.prems in \<open>simp add: nth_or_def\<close>)
qed simp

text \<open>The disk without the directory and the blocks in memory.\<close>

definition on_disk :: "fsys \<Rightarrow> fsys" where
  "on_disk f = f\<lparr>lf_dir := dir_of (sector f 0)\<rparr>"

definition disk_ok :: "nat \<Rightarrow> nat \<Rightarrow> fsys \<Rightarrow> lfmap \<Rightarrow> bool" where
  "disk_ok K n f G \<longleftrightarrow> layout K n (on_disk f) G \<and> lfscheck (dir_of (sector f 0)) = OK \<and> unat (lfd_nfiles (dir_of (sector f 0))) = n"

lemma lfsckfmt_counts:
  assumes "disk_ok K n (lfs s) G" "is_ram disk"
  shows "lfsckfmt (ram_drv rest) disk s = Ret s (OK, int (length (g_fib G)), int (length (g_fdb G)))"
proof -
  let ?D = "dir_of (sector (lfs s) 0)"
  have l: "layout K n (on_disk (lfs s)) G" and c: "lfscheck ?D = OK" using assms(1) by (simp_all add: disk_ok_def)
  note L = layoutD [OF l]
  have i: "free_ibs (lfs s) (g_fib G)" "free_dbs (lfs s) (g_fdb G)" "lfd_ifree ?D = nth_or (g_fib G) 0" "lfd_dfree ?D = nth_or (g_fdb G) 0"
    using L(6-9) by (simp_all add: on_disk_def free_ibs_def free_dbs_def)
  have r: "\<forall>x\<in>set (g_fib G). unat x < 1393" "\<forall>x\<in>set (g_fdb G). unat x < 200" using L(3) by (auto simp: in_range_def)
  have "distinct (g_fib G)" "distinct (g_fdb G)" using L(4,5) by (simp_all add: apart_def)
  then have n: "length (g_fib G) \<le> 1393" "length (g_fdb G) \<le> 200" using r by (auto intro: distinct_words_length)
  have "count_ib (2 ^ 32) (ram_drv rest) disk (lfd_ifree ?D) 0 s = Ret s (0 + int (length (g_fib G) - 0))"
    unfolding i(3) by (rule count_ib_ram [OF i(1) r(1) assms(2)]) (use n in simp_all)
  moreover have "count_db (2 ^ 32) (ram_drv rest) disk (lfd_dfree ?D) 0 s = Ret s (0 + int (length (g_fdb G) - 0))"
    unfolding i(4) by (rule count_db_ram [OF i(2) r(2) assms(2)]) (use n in simp_all)
  moreover have "bread (ram_drv rest) disk 0 s = Ret s (OK, Some (sector (lfs s) 0))" using bread_ram [OF assms(2), of 0] by simp
  ultimately show ?thesis using c by (simp add: lfsckfmt_def Let_def)
qed

section \<open>Making the free lists\<close>

lemma kfor_ram:
  assumes "\<And>i f. i < n \<Longrightarrow> c i (s\<lparr>lfs := f\<rparr>) = Ret (s\<lparr>lfs := g i f\<rparr>) ()"
  shows "kfor n c (s\<lparr>lfs := f\<rparr>) = Ret (s\<lparr>lfs := fold g [0..<n] f\<rparr>) ()"
  using assms by (induction n arbitrary: f) simp_all

definition link_ib :: "nat \<Rightarrow> u32 \<Rightarrow> fsys \<Rightarrow> fsys" where
  "link_ib i nxt = put_iblk (of_nat i) ((lfibclear 0)\<lparr>ib_next := nxt\<rparr>)"

definition link_db :: "nat \<Rightarrow> u32 \<Rightarrow> fsys \<Rightarrow> fsys" where
  "link_db b nxt = put_sector b (le32 nxt @ replicate 508 0)"

lemma put_free_ib_ram:
  assumes "is_ram disk" "i < 1393"
  shows "put_free_ib (ram_drv rest) disk nxt (of_nat i) (s\<lparr>lfs := f\<rparr>) = Ret (s\<lparr>lfs := link_ib i nxt f\<rparr>) ()"
proof -
  have "unat (of_nat i :: u32) < 1393" using assms(2) by (simp add: unat_of_nat)
  then show ?thesis using assms(1) by (simp add: put_free_ib_def lfibput_ram link_ib_def upd_lfs_def)
qed

lemma put_link_ram:
  assumes "is_ram disk" "b < 200"
  shows "put_link (ram_drv rest) disk nxt (of_nat b) (s\<lparr>lfs := f\<rparr>) = Ret (s\<lparr>lfs := link_db b nxt f\<rparr>) ()"
proof -
  have "unat (of_nat b :: u32) = b" using assms(2) by (simp add: unat_of_nat)
  then show ?thesis using assms by (simp add: put_link_def bwrite_ram link_db_def upd_lfs_def)
qed

text \<open>What the links are when the loops have ended.\<close>

definition free_links :: "nat \<Rightarrow> nat \<Rightarrow> fsys \<Rightarrow> fsys" where
  "free_links K D f =
     link_db (K + D) (- 1) (fold (\<lambda>i. link_db (K + 1 + i) (of_nat (K + 2 + i))) [0..<D - 1]
       (link_ib (7 * K - 1) (- 1) (fold (\<lambda>i. link_ib i (of_nat (i + 1))) [0..<7 * K - 1] f)))"

definition same_mem :: "fsys \<Rightarrow> fsys \<Rightarrow> bool" where
  "same_mem f' f \<longleftrightarrow> lf_dskdev f' = lf_dskdev f \<and> lf_mutex f' = lf_mutex f \<and> lf_dirpresent f' = lf_dirpresent f
     \<and> lf_dirdirty f' = lf_dirdirty f \<and> lf_dir f' = lf_dir f \<and> lfltab f' = lfltab f"

lemma same_mem_link:
  "same_mem (link_ib i x f) g = same_mem f g" "same_mem (link_db b x f) g = same_mem f g"
  "same_mem (fold (\<lambda>i. link_ib i (h i)) is f) g = same_mem f g" "same_mem (fold (\<lambda>i. link_db (c i) (h i)) is f) g = same_mem f g"
proof -
  show a: "same_mem (link_ib i x f) g = same_mem f g" for i x f by (simp add: same_mem_def link_ib_def)
  show b: "same_mem (link_db b x f) g = same_mem f g" for b x f by (simp add: same_mem_def link_db_def)
  show "same_mem (fold (\<lambda>i. link_ib i (h i)) is f) g = same_mem f g" by (induction "is" arbitrary: f) (simp_all add: a)
  show "same_mem (fold (\<lambda>i. link_db (c i) (h i)) is f) g = same_mem f g" by (induction "is" arbitrary: f) (simp_all add: b)
qed

lemma length_link: "length (le32 x @ replicate 508 0) = 512"
  by (simp add: le32_def)

lemma link_ib_effect:
  "i < 1393 \<Longrightarrow> k < 1393 \<Longrightarrow> iblk (link_ib i x f) (of_nat k) = (if k = i then (lfibclear 0)\<lparr>ib_next := x\<rparr> else iblk f (of_nat k))"
  "i < 1393 \<Longrightarrow> b \<noteq> i div 7 + 1 \<Longrightarrow> sector (link_ib i x f) b = sector f b"
proof -
  have l: "length (ib_dba ((lfibclear 0)\<lparr>ib_next := x\<rparr>)) = LF_IBLEN" by (simp add: lfibclear_def)
  show "iblk (link_ib i x f) (of_nat k) = (if k = i then (lfibclear 0)\<lparr>ib_next := x\<rparr> else iblk f (of_nat k))" if "i < 1393" "k < 1393"
  proof (cases "k = i")
    case False
    have "unat (of_nat k :: u32) = k" "unat (of_nat i :: u32) = i" using that by (simp_all add: unat_of_nat)
    then have "(of_nat k :: u32) \<noteq> of_nat i" using False by metis
    then show ?thesis using False by (simp add: link_ib_def iblk_put_other [OF l])
  qed (simp add: link_ib_def iblk_put_same [OF l])
  show "sector (link_ib i x f) b = sector f b" if "i < 1393" "b \<noteq> i div 7 + 1"
    using that by (simp add: link_ib_def sector_put_iblk [OF l] unat_of_nat)
qed

lemma link_db_effect:
  "sector (link_db b x f) b' = (if b' = b then le32 x @ replicate 508 0 else sector f b')"
  "unat y div 7 + 1 \<noteq> b \<Longrightarrow> iblk (link_db b x f) y = iblk f y"
  using length_link by (simp_all add: link_db_def sector_put iblk_put_sector)

lemma fold_link_ib:
  "n \<le> 1393 \<Longrightarrow> k < 1393 \<Longrightarrow> iblk (fold (\<lambda>i. link_ib i (of_nat (i + 1))) [0..<n] f) (of_nat k)
     = (if k < n then (lfibclear 0)\<lparr>ib_next := of_nat (k + 1)\<rparr> else iblk f (of_nat k))"
  "n \<le> 1393 \<Longrightarrow> (\<And>i. i < n \<Longrightarrow> b \<noteq> i div 7 + 1) \<Longrightarrow> sector (fold (\<lambda>i. link_ib i (of_nat (i + 1))) [0..<n] f) b = sector f b"
  by (induction n) (simp_all add: link_ib_effect less_Suc_eq del: of_nat_Suc)

lemma fold_link_db:
  "sector (fold (\<lambda>i. link_db (B + i) (of_nat (B + 1 + i))) [0..<n] f) b
     = (if B \<le> b \<and> b < B + n then le32 (of_nat (b + 1)) @ replicate 508 0 else sector f b)"
  "unat y div 7 + 1 < B \<Longrightarrow> iblk (fold (\<lambda>i. link_db (B + i) (of_nat (B + 1 + i))) [0..<n] f) y = iblk f y"
  by (induction n) (auto simp: link_db_effect simp del: of_nat_Suc)

lemma free_links_effect:
  assumes K: "0 < K" "0 < D" "K + D < 200"
  shows "k < 7 * K \<Longrightarrow> ib_next (iblk (free_links K D f) (of_nat k)) = (if k + 1 < 7 * K then of_nat (k + 1) else - 1)"
    "K < b \<Longrightarrow> b \<le> K + D \<Longrightarrow> word_at (sector (free_links K D f) b) 0 = (if b < K + D then of_nat (b + 1) else - 1)"
    "sector (free_links K D f) 0 = sector f 0" "same_mem (free_links K D f) f"
proof -
  have e: "(\<lambda>i. link_db (K + 1 + i) (of_nat (K + 2 + i))) = (\<lambda>i. link_db (K + 1 + i) (of_nat (K + 1 + 1 + i)))" by simp
  show "k < 7 * K \<Longrightarrow> ib_next (iblk (free_links K D f) (of_nat k)) = (if k + 1 < 7 * K then of_nat (k + 1) else - 1)"
  proof -
    assume k: "k < 7 * K"
    have "unat (of_nat k :: u32) = k" using k K by (simp add: unat_of_nat)
    then have i: "unat (of_nat k :: u32) div 7 + 1 < K + 1" using k by (simp add: less_mult_imp_div_less mult.commute)
    have "iblk (free_links K D f) (of_nat k) = iblk (link_ib (7 * K - 1) (- 1) (fold (\<lambda>i. link_ib i (of_nat (i + 1))) [0..<7 * K - 1] f)) (of_nat k)"
      unfolding free_links_def e by (rule trans [OF link_db_effect(2) fold_link_db(2) [OF i]]) (use i K in simp)
    also have "\<dots> = (if k = 7 * K - 1 then (lfibclear 0)\<lparr>ib_next := - 1\<rparr> else (lfibclear 0)\<lparr>ib_next := of_nat (k + 1)\<rparr>)"
      using k K fold_link_ib(1) [of "7 * K - 1" k f] by (simp add: link_ib_effect(1) del: of_nat_Suc of_nat_add)
    finally show ?thesis using k by auto
  qed
  have low: "0 \<noteq> i div 7 + 1" for i :: nat by simp
  show "sector (free_links K D f) 0 = sector f 0"
    unfolding free_links_def e link_db_effect(1) fold_link_db(1)
    using K fold_link_ib(2) [of "7 * K - 1" 0 f] by (simp add: link_ib_effect(2) del: of_nat_Suc of_nat_add)
  show "word_at (sector (free_links K D f) b) 0 = (if b < K + D then of_nat (b + 1) else - 1)" if b: "K < b" "b \<le> K + D"
    unfolding free_links_def e link_db_effect(1) fold_link_db(1) using b K by (auto simp del: of_nat_add of_nat_Suc)
  show "same_mem (free_links K D f) f"
    unfolding free_links_def same_mem_link by (simp add: same_mem_def)
qed

text \<open>The map of an empty file system with \<open>7K\<close> index blocks and \<open>D\<close> data blocks.\<close>

definition empty_map :: "nat \<Rightarrow> nat \<Rightarrow> lfmap" where
  "empty_map K D = \<lparr>g_ibs = (\<lambda>j. []), g_dbs = (\<lambda>j. []), g_blks = (\<lambda>j. []), g_dev = (\<lambda>j. None),
     g_fib = map of_nat [0..<7 * K], g_fdb = map of_nat [K + 1..<K + 1 + D], g_names = (\<lambda>j. [])\<rparr>"

lemma make_free_lists_ram:
  assumes "is_ram disk" "0 < K" "0 < D" "K + D < 200"
  shows "make_free_lists (ram_drv rest) disk (of_nat (7 * K)) (of_nat (K + 1)) (of_nat D) (s\<lparr>lfs := f\<rparr>) = Ret (s\<lparr>lfs := free_links K D f\<rparr>) ()"
proof -
  have u: "unat (of_nat (7 * K) :: u32) = 7 * K" "unat (of_nat D :: u32) = D" using assms by (simp_all add: unat_of_nat del: of_nat_mult)
  have n: "nat (sint (of_nat (7 * K) :: u32) - 1) = 7 * K - 1"
    using assms u(1) by (subst sint_small) (simp_all del: of_nat_mult)
  have "of_nat D - 1 = (of_nat (D - 1) :: u32)" using assms(3) by (simp add: of_nat_diff)
  then have k: "unat (of_nat D - 1 :: u32) = D - 1" unfolding unat_of_nat \<open>of_nat D - 1 = (of_nat (D - 1) :: u32)\<close>
    using assms by simp
  have 1: "kfor (7 * K - 1) (\<lambda>i. put_free_ib (ram_drv rest) disk (of_nat (i + 1)) (of_nat i)) (s\<lparr>lfs := f\<rparr>)
      = Ret (s\<lparr>lfs := fold (\<lambda>i. link_ib i (of_nat (i + 1))) [0..<7 * K - 1] f\<rparr>) ()" for f
    using assms by (intro kfor_ram put_free_ib_ram) simp_all
  have 2: "kfor (D - 1) (\<lambda>i. put_link (ram_drv rest) disk (of_nat (K + 1) + of_nat i + 1) (of_nat (K + 1) + of_nat i)) (s\<lparr>lfs := f\<rparr>)
      = Ret (s\<lparr>lfs := fold (\<lambda>i. link_db (K + 1 + i) (of_nat (K + 2 + i))) [0..<D - 1] f\<rparr>) ()" for f
  proof (rule kfor_ram)
    fix i f assume "i < D - 1"
    then have "K + 1 + i < 200" using assms(4) by simp
    from put_link_ram [OF assms(1) this, of rest "of_nat (K + 2 + i)" f s]
    show "put_link (ram_drv rest) disk (of_nat (K + 1) + of_nat i + 1) (of_nat (K + 1) + of_nat i) (s\<lparr>lfs := f\<rparr>)
      = Ret (s\<lparr>lfs := link_db (K + 1 + i) (of_nat (K + 2 + i)) f\<rparr>) ()" by (simp add: add_ac)
  qed
  have 3: "put_free_ib (ram_drv rest) disk (- 1) (of_nat (7 * K - 1)) (s\<lparr>lfs := f\<rparr>) = Ret (s\<lparr>lfs := link_ib (7 * K - 1) (- 1) f\<rparr>) ()" for f
    using assms by (intro put_free_ib_ram) simp_all
  have e: "of_nat (K + 1) + of_nat (D - 1) = (of_nat (K + D) :: u32)" using assms(3) by (simp add: of_nat_diff)
  have 4: "put_link (ram_drv rest) disk (- 1) (of_nat (K + 1) + of_nat (D - 1)) (s\<lparr>lfs := f\<rparr>) = Ret (s\<lparr>lfs := link_db (K + D) (- 1) f\<rparr>) ()" for f
    unfolding e by (rule put_link_ram [OF assms(1,4)])
  show ?thesis
    unfolding make_free_lists_def Let_def n k 1 kbind.simps 3 2 4 free_links_def ..
qed

lemma lfs_dir0_facts:
  "dir_shape (lfs_dir0 x)" "lfd_ifree (lfs_dir0 x) = 0" "lfd_dfree (lfs_dir0 x) = x" "lfd_nfiles (lfs_dir0 x) = 0" "lfscheck (lfs_dir0 x) = OK"
proof -
  show "lfd_dfree (lfs_dir0 x) = x" "lfd_nfiles (lfs_dir0 x) = 0" "lfscheck (lfs_dir0 x) = OK"
    by (simp_all add: lfs_dir0_def lfscheck_def)
  show "lfd_ifree (lfs_dir0 x) = 0" by (simp add: lfs_dir0_def dir_of_def word_at_def drop_replicate eval_nat_numeral)
  have "length (ld_name (ent_of (drop (28 + 24 * k) (replicate 512 0)))) = 16" if "k < 20" for k
    using that by (simp add: ent_of_def)
  then show "dir_shape (lfs_dir0 x)" by (auto simp: dir_shape_def lfs_dir0_def dir_of_def)
qed

section \<open>Creating a file system\<close>

lemma lfscreate_params:
  assumes "0 < unat lfiblks" "K = (unat lfiblks + 6) div 7" "N = unat dsiz div 512" "N \<le> 200" "K \<le> N div 2"
  shows "(lfiblks + (7 - 1)) div 7 = (of_nat K :: u32)" "dsiz div 512 = (of_nat N :: u32)" "0 < K" "unat (of_nat K :: u32) = K" "unat (of_nat N :: u32) = N"
proof -
  show "0 < K" using assms(1,2) by linarith
  have l: "unat lfiblks + 6 < 4294967296" using assms(2,4,5) by linarith
  show k: "unat (of_nat K :: u32) = K" and n: "unat (of_nat N :: u32) = N" using assms(4,5) by (simp_all add: unat_of_nat)
  have "unat ((lfiblks + (7 - 1)) div 7) = unat (of_nat K :: u32)" unfolding k using l assms(2) by (simp add: unat_div_distrib unat_word_ariths)
  then show "(lfiblks + (7 - 1)) div 7 = (of_nat K :: u32)" by (simp only: unat_eq_u32)
  have "unat (dsiz div 512) = unat (of_nat N :: u32)" unfolding n using assms(3) by (simp add: unat_div_distrib)
  then show "dsiz div 512 = (of_nat N :: u32)" by (simp only: unat_eq_u32)
qed

text \<open>The disk the free lists are written to.\<close>

definition new_disk :: "int \<Rightarrow> nat \<Rightarrow> nat \<Rightarrow> fsys \<Rightarrow> fsys" where
  "new_disk disk K D f = free_links K D (put_sector 0 (dir_bytes (lfs_dir0 (of_nat (K + 1)))) (f\<lparr>lf_dskdev := disk\<rparr>))"

lemma new_disk_ok:
  assumes "0 < K" "0 < D" "K + D < 200"
  shows "disk_ok K 0 (new_disk disk K D f) (empty_map K D)" "same_mem (new_disk disk K D f) (f\<lparr>lf_dskdev := disk\<rparr>)"
proof -
  let ?f = "new_disk disk K D f" and ?D = "lfs_dir0 (of_nat (K + 1))"
  note dir = lfs_dir0_facts [of "of_nat (K + 1)"]
  note E = free_links_effect [OF assms, where f = "put_sector 0 (dir_bytes ?D) (f\<lparr>lf_dskdev := disk\<rparr>)", folded new_disk_def]
  have "sector ?f 0 = dir_bytes ?D" unfolding E(3) by (subst sector_put [OF length_dir_bytes [OF dir(1)]]) simp
  then have d: "dir_of (sector ?f 0) = ?D" by (simp only: dir_of_bytes [OF dir(1)])
  have inj: "distinct (map (of_nat :: nat \<Rightarrow> u32) xs)" if "distinct xs" "\<forall>x\<in>set xs. x < 2000" for xs
  proof -
    have "inj_on (of_nat :: nat \<Rightarrow> u32) (set xs)"
    proof (rule inj_onI)
      fix x y assume "x \<in> set xs" "y \<in> set xs" "of_nat x = (of_nat y :: u32)"
      then have "unat (of_nat x :: u32) = unat (of_nat y :: u32)" "x < 2000" "y < 2000" using that(2) by simp_all
      then show "x = y" unfolding unat_of_nat by simp
    qed
    then show ?thesis using that(1) by (simp add: distinct_map)
  qed
  have "distinct (map of_nat [0..<7 * K] :: u32 list)" "distinct (map of_nat [K + 1..<K + 1 + D] :: u32 list)"
    using assms by (auto intro!: inj simp del: upt_Suc)
  then have "distinct (g_fib (empty_map K D))" "distinct (g_fdb (empty_map K D))"
    unfolding empty_map_def lfmap.select_convs .
  moreover have "in_range K 0 (empty_map K D)" using assms by (auto simp: in_range_def empty_map_def unat_of_nat simp del: upt_Suc)
  moreover have "free_ibs (on_disk ?f) (g_fib (empty_map K D))"
    using E(1) by (simp add: free_ibs_def empty_map_def on_disk_def nth_or_def)
  moreover have "free_dbs (on_disk ?f) (g_fdb (empty_map K D))"
    unfolding free_dbs_def
  proof (intro allI impI)
    fix k assume k: "k < length (g_fdb (empty_map K D))"
    then have "k < D" by (simp add: empty_map_def del: upt_Suc)
    then have u: "unat (of_nat (K + 1 + k) :: u32) = K + 1 + k" unfolding unat_of_nat using assms by simp
    show "word_at (sector (on_disk ?f) (unat (g_fdb (empty_map K D) ! k))) 0 = nth_or (g_fdb (empty_map K D)) (k + 1)"
      using k E(2) [of "K + 1 + k"] u by (simp add: empty_map_def on_disk_def nth_or_def del: upt_Suc)
  qed
  ultimately have "layout K 0 (on_disk ?f) (empty_map K D)"
    using d dir assms by (simp add: layout_def apart_def on_disk_def empty_map_def nth_or_def del: upt_Suc)
  then show "disk_ok K 0 ?f (empty_map K D)" using d dir(4,5) by (simp add: disk_ok_def)
  show "same_mem ?f (f\<lparr>lf_dskdev := disk\<rparr>)" using E(4) by (simp add: same_mem_def)
qed

text \<open>
  \<open>lfscreate\<close> with room for the index blocks and a data block. The disk need not have been empty,
  and the close routine of the RAM disk does nothing.
\<close>

lemma lfscreate_formats:
  assumes disk: "is_ram disk" "lf_dskdev (lfs s) < 0" and crun: "\<And>s. crun (dvclose (dentry_of disk)) (dentry_of disk) s = Ret s OK"
    and size: "0 < unat lfiblks" "K = (unat lfiblks + 6) div 7" "N = unat dsiz div 512" "N \<le> 200" "K \<le> N div 2" "K + 2 \<le> N"
  shows "lfscreate (ram_drv rest) crun disk lfiblks dsiz s = Ret (s\<lparr>lfs := new_disk disk K (N - K - 1) (lfs s)\<rparr>) OK"
proof -
  note P = lfscreate_params [OF size(1-5)]
  have ib: "of_nat K * 7 = (of_nat (7 * K) :: u32)" "of_nat K + 1 = (of_nat (K + 1) :: u32)" by simp_all
  have d: "of_nat N - of_nat K - 1 = (of_nat (N - K - 1) :: u32)" using size(6) by (simp add: of_nat_diff)
  have le: "\<not> of_nat K > (of_nat N :: u32) div 2" using P(4,5) size(5) by (simp add: word_less_nat_alt unat_div_distrib)
  have bad: "\<not> isbaddev disk" using disk(1) by (simp add: is_ram_def)
  define s1 where "s1 = s\<lparr>lfs := (lfs s)\<lparr>lf_dskdev := disk\<rparr>\<rparr>"
  have w: "bwrite (ram_drv rest) disk bs 0 s1 = Ret (s1\<lparr>lfs := put_sector 0 bs (lfs s1)\<rparr>) OK" for bs
    using disk(1) by (simp add: bwrite_ram upd_lfs_def)
  have m: "make_free_lists (ram_drv rest) disk (of_nat (7 * K)) (of_nat (K + 1)) (of_nat (N - K - 1)) (s1\<lparr>lfs := f\<rparr>)
      = Ret (s1\<lparr>lfs := free_links K (N - K - 1) f\<rparr>) ()" for f
    by (rule make_free_lists_ram [OF disk(1) P(3)]; use size(4,6) in linarith)
  have "s1\<lparr>lfs := free_links K (N - K - 1) (put_sector 0 (dir_bytes (lfs_dir0 (of_nat (K + 1)))) (lfs s1))\<rparr>
      = s\<lparr>lfs := new_disk disk K (N - K - 1) (lfs s)\<rparr>" by (simp add: new_disk_def s1_def)
  then show ?thesis
    using disk(2) bad le w m crun unfolding lfscreate_def Let_def P(1,2) ib d
    by (simp add: s1_def [symmetric] upd_lfs_def close_def Let_def del: of_nat_add of_nat_mult of_nat_diff)
qed

end
