(* ===== verification/Lfsfile.thy ===== *)
theory Lfsfile
  imports Lfsspec Lfsformat
begin

text \<open>
  Opening and closing files: \<^verbatim>\<open>lfsopen\<close> adds a file or opens one that the directory has,
  \<^verbatim>\<open>lflclose\<close> leaves every byte on disk. With these and the calls on bytes a file outlives its being
  closed; and an empty file that was created and closed does not reach the disk.
\<close>

section \<open>Device slots\<close>

definition slot_ok :: "int \<Rightarrow> kst \<Rightarrow> bool" where
  "slot_ok d s \<longleftrightarrow> free_lock (lfmutex (lfltab (lfs s) d)) s \<and> lfmutex (lfltab (lfs s) d) \<noteq> lf_mutex (lfs s)
     \<and> length (lfname (lfltab (lfs s) d)) = LF_NAME_LEN"

text \<open>The control block of a file just opened.\<close>

definition opened :: "int \<Rightarrow> int \<Rightarrow> u8 list \<Rightarrow> lflcblk \<Rightarrow> lflcblk" where
  "opened j m nm t = t\<lparr>lfstate := LF_USED, lfdirptr := j, lfmode := m, lfpos := 0, lfname := nm, lfinum := - 1, lfdnum := - 1,
     lfbyte := 512, lfibdirty := False, lfdbdirty := False\<rparr>"

lemma rep_opened: "own_blocks K ibs dbs \<Longrightarrow> rep f (opened j m nm t) ibs dbs blks = rep f no_cache ibs dbs blks"
proof -
  assume own: "own_blocks K ibs dbs"
  have "- 1 \<noteq> ibs ! k" if "k < length ibs" for k using own_not_null(1) [OF own] nth_mem [OF that] by metis
  moreover have "- 1 \<noteq> dbs ! k" if "k < length dbs" for k using own_not_null(2) [OF own] nth_mem [OF that] by metis
  ultimately show ?thesis by (simp add: rep_def ib_rep_def db_rep_def opened_def no_cache_def cong: conj_cong)
qed

lemma rep_clean:
  assumes "rep f t ibs dbs blks" "own_blocks K ibs dbs" "\<not> lfibdirty t" "\<not> lfdbdirty t"
  shows "rep f no_cache ibs dbs blks"
proof -
  have "- 1 \<noteq> ibs ! k" if "k < length ibs" for k using own_not_null(1) [OF assms(2)] nth_mem [OF that] by metis
  moreover have "- 1 \<noteq> dbs ! k" if "k < length dbs" for k using own_not_null(2) [OF assms(2)] nth_mem [OF that] by metis
  ultimately show ?thesis using assms(1,3,4) by (simp add: rep_def ib_rep_def db_rep_def no_cache_def)
qed

section \<open>Names\<close>

lemma name_copy_total:
  assumes "\<exists>i<length cs. m (a + of_nat i) = 0"
  obtains nm where "name_copy m a cs = Some nm" "length nm = length cs" "name_eq m a nm = Some True"
  using assms
proof (induction cs arbitrary: a thesis)
  case (Cons c cs)
  show ?case
  proof (cases "m a = 0")
    case False
    obtain i where i: "i < length (c # cs)" "m (a + of_nat i) = 0" using Cons.prems(2) by blast
    with False obtain i' where "i = Suc i'" by (cases i) auto
    then have "\<exists>i<length cs. m (a + 1 + of_nat i) = 0" using i by (auto simp: add_ac)
    then obtain nm where "name_copy m (a + 1) cs = Some nm" "length nm = length cs" "name_eq m (a + 1) nm = Some True"
      using Cons.IH by blast
    then show ?thesis using False by (intro Cons.prems(1) [of "m a # nm"]) simp_all
  qed (use Cons.prems(1) [of "0 # cs"] in simp)
qed simp

lemma lfs_slot_free:
  assumes "lfs_slot is m name f d0 = Some d" "d \<noteq> SYSERR" "d0 = SYSERR \<or> lfstate (lfltab f d0) = LF_FREE"
  shows "lfstate (lfltab f d) = LF_FREE"
  using assms by (induction "is" arbitrary: d0) (auto split: if_splits option.splits)

section \<open>Opening\<close>

text \<open>The map with file \<open>j\<close> open through \<open>d\<close>, and with a new file \<open>j\<close>.\<close>

definition open_map :: "nat \<Rightarrow> int \<Rightarrow> lfmap \<Rightarrow> lfmap" where
  "open_map j d G = G\<lparr>g_dev := (g_dev G)(j := Some d)\<rparr>"

definition new_map :: "nat \<Rightarrow> u8 list \<Rightarrow> lfmap \<Rightarrow> lfmap" where
  "new_map j nm G = G\<lparr>g_ibs := (g_ibs G)(j := []), g_dbs := (g_dbs G)(j := []), g_blks := (g_blks G)(j := []), g_dev := (g_dev G)(j := None),
     g_names := (g_names G)(j := nm)\<rparr>"

lemma open_layout:
  assumes l: "layout K n f G" and j: "j < n" "g_dev G j = None" and d: "\<And>i. i < n \<Longrightarrow> g_dev G i \<noteq> Some d"
  shows "layout K n (f\<lparr>lfltab := (lfltab f)(d := opened (int j) m nm (lfltab f d))\<rparr>) (open_map j d G)"
proof -
  let ?f = "f\<lparr>lfltab := (lfltab f)(d := opened (int j) m nm (lfltab f d))\<rparr>"
  note L = layoutD [OF l]
  have "file_at ?f (open_map j d G) i" if i: "i < n" for i
  proof (cases "i = j")
    case True
    then show ?thesis
      using L(10) [OF j(1)] rep_opened [OF layout_own [OF l j(1)]] j(2) by (simp add: file_at_def view_def open_map_def entry_def)
  next
    case False
    then have "view ?f (open_map j d G) i = view f G i" using d [OF i] by (auto simp: view_def open_map_def split: option.splits)
    then show ?thesis using L(10) [OF i] by (simp add: file_at_def open_map_def entry_def)
  qed
  then show ?thesis using l d by (auto simp: layout_def in_range_def open_map_def free_ibs_def free_dbs_def split: if_splits)
qed

text \<open>A directory entry more.\<close>

definition add_entry :: "nat \<Rightarrow> u8 list \<Rightarrow> fsys \<Rightarrow> fsys" where
  "add_entry n nm f = f\<lparr>lf_dir := (lf_dir f)\<lparr>lfd_nfiles := lfd_nfiles (lf_dir f) + 1,
     lfd_files := (lfd_files (lf_dir f))[n := \<lparr>ld_size = 0, ld_ilist = - 1, ld_name = nm\<rparr>]\<rparr>\<rparr>"

lemma add_entry_simps:
  assumes "dir_shape (lf_dir f)" "n < 20" "length nm = LF_NAME_LEN"
  shows "dir_shape (lf_dir (add_entry n nm f))" "entry (add_entry n nm f) n = \<lparr>ld_size = 0, ld_ilist = - 1, ld_name = nm\<rparr>"
    "i \<noteq> n \<Longrightarrow> entry (add_entry n nm f) i = entry f i"
proof -
  have "n < length (lfd_files (lf_dir f))" using assms(1,2) by (simp add: dir_shape_def)
  then show "entry (add_entry n nm f) n = \<lparr>ld_size = 0, ld_ilist = - 1, ld_name = nm\<rparr>"
    "i \<noteq> n \<Longrightarrow> entry (add_entry n nm f) i = entry f i"
    by (simp_all add: add_entry_def entry_def)
  show "dir_shape (lf_dir (add_entry n nm f))"
    using assms(1,3) set_update_subset_insert [of "lfd_files (lf_dir f)" n "\<lparr>ld_size = 0, ld_ilist = - 1, ld_name = nm\<rparr>"]
    by (auto simp: dir_shape_def add_entry_def)
qed

lemma new_layout:
  assumes l: "layout K n f G" and n: "n < 20" "length nm = LF_NAME_LEN"
  shows "layout K (Suc n) (add_entry n nm f) (new_map n nm G)"
proof -
  let ?f = "add_entry n nm f"
  note L = layoutD [OF l] and A = add_entry_simps [OF layoutD(1) [OF l] n]
  have disk: "iblk ?f x = iblk f x" "sector ?f b = sector f b" "lfltab ?f = lfltab f" "rep ?f t ibs dbs blks = rep f t ibs dbs blks" for x b t ibs dbs blks
    by (simp_all add: add_entry_def)
  have "file_at ?f (new_map n nm G) i" if i: "i < Suc n" for i
  proof (cases "i = n")
    case True
    then show ?thesis by (simp add: file_at_def view_def new_map_def A(2) nth_or_def rep_def ib_rep_def db_rep_def no_cache_def)
  next
    case False
    then have "i < n" using i by simp
    then show ?thesis using L(10) [of i] False A(3) [OF False] by (cases "g_dev G i") (simp_all add: file_at_def view_def new_map_def disk)
  qed
  moreover have "apart (Suc n) (g_fib G) ((g_ibs G)(n := []))" "apart (Suc n) (g_fdb G) ((g_dbs G)(n := []))"
    using L(4,5) by (auto simp: apart_def less_Suc_eq)
  moreover have "in_range K (Suc n) (new_map n nm G)" using L(3) by (auto simp: in_range_def new_map_def less_Suc_eq)
  moreover have "lfd_ifree (lf_dir ?f) = lfd_ifree (lf_dir f)" "lfd_dfree (lf_dir ?f) = lfd_dfree (lf_dir f)" by (simp_all add: add_entry_def)
  ultimately show ?thesis
    using l A(1) n(1) by (auto simp: layout_def new_map_def free_ibs_def free_dbs_def disk less_Suc_eq)
qed

text \<open>
  What \<^verbatim>\<open>lfsopen\<close> starts from: the directory in memory agrees with the blocks, or no file is open and
  the disk does.
\<close>

definition idle_fs :: "nat \<Rightarrow> nat \<Rightarrow> kst \<Rightarrow> lfmap \<Rightarrow> bool" where
  "idle_fs K n s G \<longleftrightarrow>
     (if lf_dirpresent (lfs s) then fs_ok K n s G
      else is_ram (lf_dskdev (lfs s)) \<and> free_lock (lf_mutex (lfs s)) s \<and> disk_ok K n (lfs s) G
        \<and> (\<forall>j<n. file_ok (on_disk (lfs s)) G j \<and> g_dev G j = None \<and> ld_name (entry (on_disk (lfs s)) j) = g_names G j))"

definition loaded :: "fsys \<Rightarrow> fsys" where
  "loaded f = (if lf_dirpresent f then f else (on_disk f)\<lparr>lf_dirpresent := True\<rparr>)"

lemma loaded_simps [simp]:
  "lfltab (loaded f) = lfltab f" "lf_mutex (loaded f) = lf_mutex f" "lf_dskdev (loaded f) = lf_dskdev f" "lf_dirpresent (loaded f)"
  "sector (loaded f) b = sector f b"
  by (simp_all add: loaded_def on_disk_def)

lemma layout_present [simp]: "layout K n (f\<lparr>lf_dirpresent := p\<rparr>) G = layout K n f G"
proof -
  have r: "rep (f\<lparr>lf_dirpresent := p\<rparr>) t ibs dbs blks = rep f t ibs dbs blks" for t ibs dbs blks by (simp add: rep_def ib_rep_def db_rep_def)
  have "view (f\<lparr>lf_dirpresent := p\<rparr>) G j = view f G j" for j by (simp add: view_def cong: option.case_cong)
  then show ?thesis by (simp add: layout_def file_at_def entry_def free_ibs_def free_dbs_def r)
qed

lemma lfscheck_head: "lfscheck D = OK \<longleftrightarrow> dir_head D = (LFS_ID, 0, 0xffffffff, lfs_reverse) \<and> 0 \<le> sint (lfd_nfiles D)"
  by (auto simp: lfscheck_def dir_head_def)

lemma loaded_ok: "idle_fs K n s G \<Longrightarrow> fs_ok K n (s\<lparr>lfs := loaded (lfs s)\<rparr>) G"
  by (cases "lf_dirpresent (lfs s)")
    (simp_all add: idle_fs_def loaded_def fs_ok_def disk_ok_def file_ok_def entry_def on_disk_def lfscheck_head)

lemma lfs_load_ram:
  assumes "idle_fs K n s G" "lfs s' = lfs s"
  shows "lfs_load (ram_drv rest) s' = Ret (s'\<lparr>lfs := loaded (lfs s)\<rparr>) OK"
proof (cases "lf_dirpresent (lfs s)")
  case True
  then have "s'\<lparr>lfs := loaded (lfs s)\<rparr> = s'" using assms(2) by (simp add: loaded_def)
  then show ?thesis using True assms(2) by (simp add: lfs_load_def)
next
  case False
  then have r: "is_ram (lf_dskdev (lfs s))" "lfscheck (dir_of (sector (lfs s) 0)) = OK" using assms(1) by (simp_all add: idle_fs_def disk_ok_def)
  have "bread (ram_drv rest) (lf_dskdev (lfs s')) 0 s' = Ret s' (OK, Some (sector (lfs s) 0))"
    using bread_ram [of "lf_dskdev (lfs s')" 0 rest s'] r(1) assms(2) by simp
  then show ?thesis
    using False r(2) assms(2) by (simp add: lfs_load_def upd_dir_eq loaded_def on_disk_def)
qed

lemma kmem_upd_sem [simp]: "kmem (upd_sem m g s) = kmem s"
  by (simp add: kmem_def upd_sem_def)

text \<open>The arguments of a call that gets past the checks: a mode, a slot and a name that ends.\<close>

definition open_args :: "u32 \<Rightarrow> u32 \<Rightarrow> kst \<Rightarrow> int \<Rightarrow> int \<Rightarrow> bool" where
  "open_args name mode s mb d \<longleftrightarrow> (\<exists>i<LF_NAME_LEN. kmem s (name + of_nat i) = 0) \<and> lfgetmode (kmem s) mode = Some mb \<and> mb \<noteq> SYSERR
     \<and> lfs_slot [0..int Nlfl - 1] (kmem s) name (lfs s) SYSERR = Some d \<and> d \<noteq> SYSERR \<and> slot_ok d s"

lemma lfsopen_finish:
  assumes i: "idle_fs K n s G" and a: "open_args name mode s mb d"
    and e: "lfs_entry mb name ((count_by (lf_mutex (lfs s)) (- 1) s)\<lparr>lfs := loaded (lfs s)\<rparr>)
        = Ret ((count_by (lf_mutex (lfs s)) (- 1) s)\<lparr>lfs := f1\<rparr>) (int j)"
    and f1: "lfltab f1 = lfltab (lfs s)" "lf_mutex f1 = lf_mutex (lfs s)"
  obtains (res) nm where "length nm = LF_NAME_LEN" "name_eq (kmem s) name nm = Some True"
    "lfsopen (ram_drv rest) name mode s = Ret (s\<lparr>lfs := f1\<lparr>lfltab := (lfltab f1)(d := opened (int j) (mb AND LF_MODE_RW) nm (lfltab f1 d))\<rparr>\<rparr>)
       (lfdev (lfltab (lfs s) d))"
proof -
  let ?m = "lf_mutex (lfs s)"
  define s1 where "s1 = count_by ?m (- 1) s"
  have lock: "free_lock ?m s" using i by (simp add: idle_fs_def fs_ok_def split: if_splits)
  have S: "wait ?m s = Ret s1 OK" "lfs s1 = lfs s" "kmem s1 = kmem s" "signal ?m (s1\<lparr>lfs := f\<rparr>) = Ret (s\<lparr>lfs := f\<rparr>) OK" for f
    using lock_enter [OF lock] lock_exit [OF lock] by (simp_all add: s1_def)
  have A: "\<exists>i<LF_NAME_LEN. kmem s (name + of_nat i) = 0" "lfgetmode (kmem s) mode = Some mb" "mb \<noteq> SYSERR"
    "lfs_slot [0..int Nlfl - 1] (kmem s) name (lfs s) SYSERR = Some d" "d \<noteq> SYSERR" "length (lfname (lfltab (lfs s) d)) = LF_NAME_LEN"
    using a by (simp_all add: open_args_def slot_ok_def)
  obtain nm where nm: "name_copy (kmem s) name (lfname (lfltab (lfs s) d)) = Some nm" "length nm = LF_NAME_LEN" "name_eq (kmem s) name nm = Some True"
    using name_copy_total [of "lfname (lfltab (lfs s) d)" "kmem s" name] A(1,6) by metis
  have ex: "list_ex (\<lambda>i. kmem s (name + of_nat i) = 0) [0..<LF_NAME_LEN]" using A(1) by (auto simp: list_ex_iff)
  define f' where "f' = f1\<lparr>lfltab := (lfltab f1)(d := opened (int j) (mb AND LF_MODE_RW) nm (lfltab f1 d))\<rparr>"
  have take: "lfs_take d (int j) mb name (s1\<lparr>lfs := f1\<rparr>) = Ret (s1\<lparr>lfs := f'\<rparr>) ()"
    using nm(1) S(3) f1(1) by (simp add: lfs_take_def upd_lfl_eq Let_def f'_def opened_def)
  have e': "lfs_entry mb name (s1\<lparr>lfs := loaded (lfs s)\<rparr>) = Ret (s1\<lparr>lfs := f1\<rparr>) (int j)" using e by (simp add: s1_def)
  have mx: "lf_mutex f' = ?m" "lfdev (lfltab f' d) = lfdev (lfltab (lfs s) d)" using f1 by (simp_all add: f'_def opened_def)
  have "is_ram (lf_dskdev (lfs s))" using i by (simp add: idle_fs_def fs_ok_def split: if_splits)
  then have dsk: "\<not> lf_dskdev (lfs s) < 0" by (simp add: is_ram_def isbaddev_def)
  have "lfsopen (ram_drv rest) name mode s = Ret (s\<lparr>lfs := f'\<rparr>) (lfdev (lfltab (lfs s) d))"
    unfolding lfsopen_def
    using dsk ex A(2-5) S lfs_load_ram [OF i S(2), of rest] e' take mx by (simp del: upt_rec_numeral upto_rec_numeral)
  then show thesis using res nm(2,3) by (simp add: f'_def)
qed

lemma open_fs_ok:
  fixes m :: int and nm :: "u8 list"
  assumes ok: "fs_ok K n s G" and j: "j < n" "g_dev G j = None" and d: "lfstate (lfltab (lfs s) d) = LF_FREE" "slot_ok d s"
  defines "f' \<equiv> (lfs s)\<lparr>lfltab := (lfltab (lfs s))(d := opened (int j) m nm (lfltab (lfs s) d))\<rparr>"
  shows "fs_ok K n (s\<lparr>lfs := f'\<rparr>) (open_map j d G)" "afiles n f' (open_map j d G) = (afiles n (lfs s) G)[j := (bytes_of (lfs s) G j, Some 0)]"
proof -
  have free: "g_dev G i \<noteq> Some d" if "i < n" for i
    using dev_okD(8) [OF fs_okD(5) [OF ok that]] d(1) by auto
  have lay: "layout K n f' (open_map j d G)" unfolding f'_def by (rule open_layout [OF fs_okD(2) [OF ok j(1)] j free])
  have "file_ok f' (open_map j d G) i \<and> (\<forall>d'. g_dev (open_map j d G) i = Some d' \<longrightarrow> dev_ok n (s\<lparr>lfs := f'\<rparr>) (open_map j d G) i d')"
    if i: "i < n" for i
  proof -
    have "file_ok f' (open_map j d G) i" using fs_okD(4) [OF ok i] by (simp add: file_ok_def f'_def open_map_def entry_def)
    moreover have "dev_ok n (s\<lparr>lfs := f'\<rparr>) (open_map j d G) i d'" if d': "g_dev (open_map j d G) i = Some d'" for d'
    proof (cases "i = j")
      case True
      then show ?thesis
        using d' d(2) i by (simp add: dev_ok_def open_at_def byte_ok_def slot_ok_def f'_def opened_def open_map_def)
    next
      case False
      then have g: "g_dev G i = Some d'" using d' by (simp add: open_map_def)
      then have "d' \<noteq> d" using free [OF i] by auto
      then show ?thesis
        using fs_okD(5) [OF ok i g] False g by (simp add: dev_ok_def open_at_def byte_ok_def f'_def open_map_def entry_def)
    qed
    ultimately show ?thesis by blast
  qed
  moreover have "\<forall>i<n. ld_name (entry f' i) = g_names (open_map j d G) i" using ok by (simp add: fs_ok_def f'_def open_map_def entry_def)
  ultimately show "fs_ok K n (s\<lparr>lfs := f'\<rparr>) (open_map j d G)" using ok lay by (simp add: fs_ok_def f'_def)
  show "afiles n f' (open_map j d G) = (afiles n (lfs s) G)[j := (bytes_of (lfs s) G j, Some 0)]"
  proof (rule nth_equalityI)
    fix i assume "i < length (afiles n f' (open_map j d G))"
    then have i: "i < n" by simp
    then show "afiles n f' (open_map j d G) ! i = (afiles n (lfs s) G)[j := (bytes_of (lfs s) G j, Some 0)] ! i"
      using free [OF i] by (cases "i = j"; cases "g_dev G i")
        (auto simp: afiles_def bytes_of_def f'_def open_map_def entry_def opened_def)
  qed simp
qed

lemma new_fs_ok:
  assumes ok: "fs_ok K n s G" and n: "n < 20" "length nm = LF_NAME_LEN"
  shows "fs_ok K (Suc n) (s\<lparr>lfs := add_entry n nm (lfs s)\<rparr>) (new_map n nm G)"
    "afiles (Suc n) (add_entry n nm (lfs s)) (new_map n nm G) = afiles n (lfs s) G @ [([], None)]"
proof -
  let ?f = "add_entry n nm (lfs s)"
  have l: "layout K n (lfs s) G" using ok by (simp add: fs_ok_def)
  note A = add_entry_simps [OF layoutD(1) [OF l] n]
  have same: "lfltab ?f = lfltab (lfs s)" "lf_mutex ?f = lf_mutex (lfs s)" "lf_dskdev ?f = lf_dskdev (lfs s)"
    "lf_dirpresent ?f = lf_dirpresent (lfs s)" "lfd_nfiles (lf_dir ?f) = lfd_nfiles (lf_dir (lfs s)) + 1"
    "dir_head (lf_dir ?f) = dir_head (lf_dir (lfs s))"
    by (simp_all add: add_entry_def)
  have "unat (lfd_nfiles (lf_dir (lfs s))) = n" using ok by (simp add: fs_ok_def)
  then have nf: "unat (lfd_nfiles (lf_dir ?f)) = Suc n" using n(1) by (simp add: same unat_word_ariths)
  have "file_ok ?f (new_map n nm G) i \<and> (\<forall>d. g_dev (new_map n nm G) i = Some d \<longrightarrow> dev_ok (Suc n) (s\<lparr>lfs := ?f\<rparr>) (new_map n nm G) i d)"
    if i: "i < Suc n" for i
  proof (cases "i = n")
    case True
    then show ?thesis by (simp add: file_ok_def new_map_def A(2))
  next
    case False
    then have i: "i < n" using i by simp
    show ?thesis
      using fs_okD(4) [OF ok i] fs_okD(5) [OF ok i] A(3) [OF False] False i
      by (auto simp: file_ok_def new_map_def dev_ok_def open_at_def byte_ok_def same)
  qed
  moreover have "\<forall>i<Suc n. ld_name (entry ?f i) = g_names (new_map n nm G) i"
    using ok A(2,3) by (auto simp: fs_ok_def new_map_def less_Suc_eq)
  ultimately show "fs_ok K (Suc n) (s\<lparr>lfs := ?f\<rparr>) (new_map n nm G)" using ok new_layout [OF l n] nf by (simp add: fs_ok_def same)
  have "afiles n ?f (new_map n nm G) = afiles n (lfs s) G" using A(3) by (auto simp: afiles_def bytes_of_def new_map_def same)
  then show "afiles (Suc n) ?f (new_map n nm G) = afiles n (lfs s) G @ [([], None)]"
    by (simp add: afiles_def bytes_of_def new_map_def A(2))
qed

lemma lfs_find_range: "lfs_find k i m name es = Some r \<Longrightarrow> r = SYSERR \<or> i \<le> r \<and> r < i + int k"
  by (induction k arbitrary: i) (fastforce split: if_splits option.splits)+

lemma nfiles_int: "fs_ok K n s G \<Longrightarrow> sint (lfd_nfiles (lf_dir (lfs s))) = int n" "fs_ok K n s G \<Longrightarrow> n \<le> 20"
proof -
  assume ok: "fs_ok K n s G"
  then show n: "n \<le> 20" by (simp add: fs_ok_def layout_def)
  have u: "unat (lfd_nfiles (lf_dir (lfs s))) = n" using ok by (simp add: fs_ok_def)
  then have "unat (lfd_nfiles (lf_dir (lfs s))) < 2147483648" using n by simp
  from sint_small [OF this] show "sint (lfd_nfiles (lf_dir (lfs s))) = int n" unfolding u .
qed

text \<open>The search in the directory, as \<^verbatim>\<open>lfsopen\<close> makes it when it has loaded the directory.\<close>

definition finds :: "u32 \<Rightarrow> kst \<Rightarrow> nat \<Rightarrow> int \<Rightarrow> bool" where
  "finds name s n r \<longleftrightarrow> lfs_find n 0 (kmem s) name (lfd_files (lf_dir (loaded (lfs s)))) = Some r"

lemma lfsopen_opens:
  assumes i: "idle_fs K n s G" and a: "open_args name mode s mb d" and f: "finds name s n (int j)" and m: "mb AND LF_MODE_N = 0"
    and c: "g_dev G j = None"
  obtains (res) f' where "lfsopen (ram_drv rest) name mode s = Ret (s\<lparr>lfs := f'\<rparr>) (lfdev (lfltab (lfs s) d))"
    "fs_ok K n (s\<lparr>lfs := f'\<rparr>) (open_map j d G)"
    "afiles n f' (open_map j d G) = (afiles n (loaded (lfs s)) G)[j := (bytes_of (loaded (lfs s)) G j, Some 0)]" "j < n"
proof -
  let ?f = "loaded (lfs s)"
  define s1 where "s1 = (count_by (lf_mutex (lfs s)) (- 1) s)\<lparr>lfs := ?f\<rparr>"
  note ok = loaded_ok [OF i]
  have s1: "lfs s1 = ?f" "kmem s1 = kmem s" by (simp_all add: s1_def)
  note N = nfiles_int [OF ok, unfolded kst.simps]
  have e: "lfs_entry mb name s1 = Ret s1 (int j)"
    using f m N(1) unfolding lfs_entry_def Let_def s1 by (simp add: finds_def)
  have j: "j < n" using lfs_find_range [OF f [unfolded finds_def]] by simp
  have sl: "lfstate (lfltab (lfs s) d) = LF_FREE" "slot_ok d s"
    using a lfs_slot_free [of _ _ _ _ SYSERR d] by (auto simp: open_args_def)
  obtain nm where run: "lfsopen (ram_drv rest) name mode s = Ret (s\<lparr>lfs := ?f\<lparr>lfltab := (lfltab ?f)(d := opened (int j) (mb AND LF_MODE_RW) nm (lfltab ?f d))\<rparr>\<rparr>)
       (lfdev (lfltab (lfs s) d))"
    by (rule lfsopen_finish [OF i a, of ?f j rest]) (use e in \<open>simp_all add: s1_def\<close>)
  have "lfstate (lfltab (lfs (s\<lparr>lfs := ?f\<rparr>)) d) = LF_FREE" "slot_ok d (s\<lparr>lfs := ?f\<rparr>)" using sl by (simp_all add: slot_ok_def)
  note O = open_fs_ok [OF ok j c this, where m = "mb AND LF_MODE_RW" and nm = nm]
  show thesis by (rule res [OF run]) (use O j in simp_all)
qed

lemma lfsopen_creates:
  assumes i: "idle_fs K n s G" and a: "open_args name mode s mb d" and f: "finds name s n SYSERR" and m: "mb AND LF_MODE_O = 0"
    and n: "n < 20"
  obtains (res) f' nm where "lfsopen (ram_drv rest) name mode s = Ret (s\<lparr>lfs := f'\<rparr>) (lfdev (lfltab (lfs s) d))"
    "fs_ok K (Suc n) (s\<lparr>lfs := f'\<rparr>) (open_map n d (new_map n (ld_name (entry f' n)) G))"
    "afiles (Suc n) f' (open_map n d (new_map n (ld_name (entry f' n)) G)) = afiles n (loaded (lfs s)) G @ [([], Some 0)]"
    "name_eq (kmem s) name (ld_name (entry f' n)) = Some True" "\<forall>b. sector f' b = sector (lfs s) b"
    "lf_dirdirty f' = lf_dirdirty (lfs s)" "lfltab f' d = opened (int n) (mb AND LF_MODE_RW) nm (lfltab (lfs s) d)"
proof -
  let ?f = "loaded (lfs s)"
  define s1 where "s1 = (count_by (lf_mutex (lfs s)) (- 1) s)\<lparr>lfs := ?f\<rparr>"
  note ok = loaded_ok [OF i]
  have s1: "lfs s1 = ?f" "kmem s1 = kmem s" by (simp_all add: s1_def)
  note N = nfiles_int [OF ok, unfolded kst.simps]
  have "dir_shape (lf_dir ?f)" using ok by (simp add: fs_ok_def layout_def)
  then have "length (ld_name (lfd_files (lf_dir ?f) ! n)) = LF_NAME_LEN" using n by (simp add: dir_shape_def)
  then obtain nm2 where nm2: "name_copy (kmem s) name (ld_name (lfd_files (lf_dir ?f) ! n)) = Some nm2" "length nm2 = LF_NAME_LEN"
    "name_eq (kmem s) name nm2 = Some True"
    using name_copy_total [of "ld_name (lfd_files (lf_dir ?f) ! n)" "kmem s" name] a unfolding open_args_def by metis
  let ?g = "add_entry n nm2 ?f"
  have "s1\<lparr>lfs := ?g\<rparr> = (count_by (lf_mutex (lfs s)) (- 1) s)\<lparr>lfs := ?g\<rparr>" by (simp add: s1_def)
  then have e: "lfs_entry mb name s1 = Ret ((count_by (lf_mutex (lfs s)) (- 1) s)\<lparr>lfs := ?g\<rparr>) (int n)"
    using f m N(1) n nm2(1) unfolding lfs_entry_def Let_def s1 by (simp add: finds_def upd_dir_eq s1(1) add_entry_def)
  have sl: "lfstate (lfltab (lfs s) d) = LF_FREE" "slot_ok d s"
    using a lfs_slot_free [of _ _ _ _ SYSERR d] by (auto simp: open_args_def)
  obtain nm where run: "lfsopen (ram_drv rest) name mode s = Ret (s\<lparr>lfs := ?g\<lparr>lfltab := (lfltab ?g)(d := opened (int n) (mb AND LF_MODE_RW) nm (lfltab ?g d))\<rparr>\<rparr>)
       (lfdev (lfltab (lfs s) d))"
    by (rule lfsopen_finish [OF i a, of ?g n rest]) (use e in \<open>simp_all add: s1_def add_entry_def\<close>)
  note ok2 = new_fs_ok [OF ok n nm2(2)]
  have sl2: "lfstate (lfltab (lfs (s\<lparr>lfs := ?g\<rparr>)) d) = LF_FREE" "slot_ok d (s\<lparr>lfs := ?g\<rparr>)"
    using sl by (simp_all add: slot_ok_def add_entry_def)
  have okg: "fs_ok K (Suc n) (s\<lparr>lfs := ?g\<rparr>) (new_map n nm2 G)" using ok2(1) by simp
  have c: "n < Suc n" "g_dev (new_map n nm2 G) n = None" by (simp_all add: new_map_def)
  note O = open_fs_ok [OF okg c sl2, where m = "mb AND LF_MODE_RW" and nm = nm]
  have b: "bytes_of ?g (new_map n nm2 G) n = []" by (simp add: bytes_of_def new_map_def)
  have nme: "ld_name (entry ?g n) = nm2"
    using add_entry_simps(2) [OF _ n nm2(2)] ok by (simp add: fs_ok_def layout_def)
  have "afiles (Suc n) ?g (new_map n nm2 G) = afiles n ?f G @ [([], None)]" using ok2(2) by simp
  then have af: "(afiles (Suc n) ?g (new_map n nm2 G))[n := ([], Some 0)] = afiles n ?f G @ [([], Some 0)]" by (simp add: list_update_append)
  define f' where "f' = ?g\<lparr>lfltab := (lfltab ?g)(d := opened (int n) (mb AND LF_MODE_RW) nm (lfltab ?g d))\<rparr>"
  have nm': "ld_name (entry f' n) = nm2" using nme by (simp add: f'_def entry_def)
  have O': "fs_ok K (Suc n) (s\<lparr>lfs := f'\<rparr>) (open_map n d (new_map n nm2 G))"
    "afiles (Suc n) f' (open_map n d (new_map n nm2 G)) = afiles n ?f G @ [([], Some 0)]"
    using O b af by (simp_all add: f'_def)
  have f': "\<forall>b. sector f' b = sector (lfs s) b" "lf_dirdirty f' = lf_dirdirty (lfs s)"
    "lfltab f' d = opened (int n) (mb AND LF_MODE_RW) nm (lfltab (lfs s) d)"
    by (simp_all add: f'_def add_entry_def loaded_def on_disk_def)
  show thesis using run O' nm2(3) f' by (intro res [of f' nm]) (simp_all only: nm' f'_def [symmetric] simp_thms)
qed

section \<open>Closing\<close>

definition close_map :: "nat \<Rightarrow> lfmap \<Rightarrow> lfmap" where
  "close_map j G = G\<lparr>g_dev := (g_dev G)(j := None)\<rparr>"

lemma close_fs_ok:
  assumes ok: "fs_ok K n s G" and j: "j < n" "g_dev G j = Some d" and c: "\<not> lfibdirty (lfltab (lfs s) d)" "\<not> lfdbdirty (lfltab (lfs s) d)"
  defines "f' \<equiv> (lfs s)\<lparr>lfltab := (lfltab (lfs s))(d := (lfltab (lfs s) d)\<lparr>lfstate := LF_FREE\<rparr>)\<rparr>"
  shows "fs_ok K n (s\<lparr>lfs := f'\<rparr>) (close_map j G)" "afiles n f' (close_map j G) = (afiles n (lfs s) G)[j := (bytes_of (lfs s) G j, None)]"
proof -
  note l = fs_okD(2) [OF ok j(1)]
  note L = layoutD [OF l]
  have other: "d' \<noteq> d" if "i < n" "i \<noteq> j" "g_dev G i = Some d'" for i d'
    using l that j by (auto simp: layout_def)
  have v: "view f' (close_map j G) i = view (lfs s) G i" if "i < n" "i \<noteq> j" for i
    using other [OF that] that(2) by (auto simp: view_def close_map_def f'_def split: option.splits)
  have "file_at f' (close_map j G) i" if i: "i < n" for i
  proof (cases "i = j")
    case True
    then show ?thesis
      using L(10) [OF j(1)] rep_clean [OF layout_rep [OF l j] layout_own [OF l j(1)] c]
      by (simp add: file_at_def view_def close_map_def f'_def entry_def)
  next
    case False
    then show ?thesis using L(10) [OF i] v [OF i False] by (simp add: file_at_def close_map_def f'_def entry_def)
  qed
  then have lay: "layout K n f' (close_map j G)"
    using l by (auto simp: layout_def in_range_def close_map_def free_ibs_def free_dbs_def f'_def split: if_splits)
  have "file_ok f' (close_map j G) i \<and> (\<forall>d'. g_dev (close_map j G) i = Some d' \<longrightarrow> dev_ok n (s\<lparr>lfs := f'\<rparr>) (close_map j G) i d')"
    if i: "i < n" for i
    using fs_okD(4) [OF ok i] fs_okD(5) [OF ok i] other [OF i]
    by (auto simp: file_ok_def dev_ok_def open_at_def byte_ok_def close_map_def f'_def entry_def split: if_splits)
  moreover have "\<forall>i<n. ld_name (entry f' i) = g_names (close_map j G) i" using ok by (simp add: fs_ok_def f'_def close_map_def entry_def)
  ultimately show "fs_ok K n (s\<lparr>lfs := f'\<rparr>) (close_map j G)" using ok lay by (simp add: fs_ok_def f'_def)
  show "afiles n f' (close_map j G) = (afiles n (lfs s) G)[j := (bytes_of (lfs s) G j, None)]"
  proof (rule nth_equalityI)
    fix i assume "i < length (afiles n f' (close_map j G))"
    then have i: "i < n" by simp
    then show "afiles n f' (close_map j G) ! i = (afiles n (lfs s) G)[j := (bytes_of (lfs s) G j, None)] ! i"
      using other [OF i] by (cases "i = j"; cases "g_dev G i")
        (auto simp: afiles_def bytes_of_def f'_def close_map_def entry_def)
  qed simp
qed

lemma flush_fs_ok:
  assumes ok: "fs_ok K n s G" and j: "j < n" "g_dev G j = Some d" and s': "lfs s' = lfs s"
  obtains (res) f' where "lfflush (ram_drv rest) d s' = Ret (s'\<lparr>lfs := f'\<rparr>) OK" "fs_ok K n (s\<lparr>lfs := f'\<rparr>) G"
    "afiles n f' G = afiles n (lfs s) G" "\<not> lf_dirdirty f'" "lf_dir f' = lf_dir (lfs s)"
    "lfltab f' = (lfltab (lfs s))(d := (lfltab (lfs s) d)\<lparr>lfdbdirty := False, lfibdirty := False\<rparr>)" "lf_mutex f' = lf_mutex (lfs s)"
    "lf_dirdirty (lfs s) \<longrightarrow> dir_of (sector f' 0) = lf_dir (lfs s)" "lf_dskdev f' = lf_dskdev (lfs s)"
proof -
  note F = fs_okD [OF ok j(1)]
  note D = dev_okD [OF F(5) [OF j(2)]]
  obtain f' where f': "lfflush (ram_drv rest) d s' = Ret (s'\<lparr>lfs := f'\<rparr>) OK" "layout K n f' G" "same_env n f' (lfs s)"
    "lfltab f' = (lfltab (lfs s))(d := (lfltab (lfs s) d)\<lparr>lfdbdirty := False, lfibdirty := False\<rparr>)" "lf_dir f' = lf_dir (lfs s)" "\<not> lf_dirdirty f'"
    "lf_dirdirty (lfs s') \<longrightarrow> dir_of (sector f' 0) = lf_dir (lfs s')"
    by (rule lfflush_spec [of K n s' G j d rest]) (use F(1,2) D(1) s' in simp_all)
  have e: "entry f' i = entry (lfs s) i" for i using f'(5) by (simp add: entry_def)
  have st: "fs_ok K n (s\<lparr>lfs := f'\<rparr>) G" "afiles n f' G = (afiles n (lfs s) G)[j := (bytes_of f' G j, Some (unat (lfpos (lfltab f' d))))]"
    by (rule fs_step [OF ok j f'(2) only_file_grow(2)];
      use f'(3,4) F(4) D(1-3) e in \<open>simp add: same_env_def file_ok_def open_at_def byte_ok_def\<close>)+
  have "(bytes_of f' G j, Some (unat (lfpos (lfltab f' d)))) = afiles n (lfs s) G ! j"
    using j f'(4) e by (simp add: afiles_def bytes_of_def)
  then have "afiles n f' G = afiles n (lfs s) G" using st(2) by simp
  then show thesis using f'(3-7) s' by (intro res [OF f'(1) st(1)]) (simp_all add: same_env_def)
qed

lemma lflclose_refines:
  assumes ok: "fs_ok K n s G" and j: "j < n" "g_dev G j = Some (dvminor e)" and a: "afiles n (lfs s) G ! j = (bs, Some p)"
  obtains (res) f' where "lflclose (ram_drv rest) e s = Ret (s\<lparr>lfs := f'\<rparr>) OK" "fs_ok K n (s\<lparr>lfs := f'\<rparr>) (close_map j G)"
    "afiles n f' (close_map j G) = (afiles n (lfs s) G)[j := (bs, None)]" "\<not> lf_dirdirty f'" "lf_dir f' = lf_dir (lfs s)"
    "lfstate (lfltab f' (dvminor e)) = LF_FREE" "lfname (lfltab f' (dvminor e)) = lfname (lfltab (lfs s) (dvminor e))"
    "\<not> (lf_dirdirty (lfs s) \<or> lfdbdirty (lfltab (lfs s) (dvminor e)) \<or> lfibdirty (lfltab (lfs s) (dvminor e))) \<longrightarrow> (\<forall>b. sector f' b = sector (lfs s) b)"
    "\<forall>i. lfmutex (lfltab f' i) = lfmutex (lfltab (lfs s) i) \<and> lfdev (lfltab f' i) = lfdev (lfltab (lfs s) i) \<and> (i \<noteq> dvminor e \<longrightarrow> lfltab f' i = lfltab (lfs s) i)" "lf_mutex f' = lf_mutex (lfs s)"
    "lf_dirdirty (lfs s) \<longrightarrow> dir_of (sector f' 0) = lf_dir (lfs s)" "lf_dskdev f' = lf_dskdev (lfs s)"
proof -
  define d where "d = dvminor e"
  let ?f = "lfs s" and ?t = "lfltab (lfs s) d" and ?x = "lfmutex (lfltab (lfs s) d)"
  have jd: "g_dev G j = Some d" using j(2) by (simp add: d_def)
  note F = fs_okD [OF ok j(1)]
  note D = dev_okD [OF F(5) [OF jd]]
  have bs: "bs = bytes_of ?f G j" using a j(1) jd by (simp add: afiles_def)
  define s1 where "s1 = count_by ?x (- 1) s"
  have S: "lfs s1 = ?f" "wait ?x s = Ret s1 OK" "signal ?x (s1\<lparr>lfs := f\<rparr>) = Ret (s\<lparr>lfs := f\<rparr>) OK" for f
    using lock_enter [OF D(4)] lock_exit [OF D(4)] by (simp_all add: s1_def)
  obtain f1 where f1: "kwhen (lf_dirdirty ?f \<or> lfdbdirty ?t \<or> lfibdirty ?t) (\<lambda>s. kbind (lfflush (ram_drv rest) d s) (\<lambda>s1 _. Ret s1 ())) s1
      = Ret (s1\<lparr>lfs := f1\<rparr>) ()" "fs_ok K n (s\<lparr>lfs := f1\<rparr>) G" "afiles n f1 G = afiles n ?f G" "\<not> lf_dirdirty f1" "lf_dir f1 = lf_dir ?f"
    "\<not> lfdbdirty (lfltab f1 d)" "\<not> lfibdirty (lfltab f1 d)" "lfmutex (lfltab f1 d) = ?x" "lfname (lfltab f1 d) = lfname ?t"
    "\<not> (lf_dirdirty ?f \<or> lfdbdirty ?t \<or> lfibdirty ?t) \<longrightarrow> (\<forall>b. sector f1 b = sector ?f b)"
    "\<forall>i. lfmutex (lfltab f1 i) = lfmutex (lfltab ?f i) \<and> lfdev (lfltab f1 i) = lfdev (lfltab ?f i) \<and> (i \<noteq> d \<longrightarrow> lfltab f1 i = lfltab ?f i)" "lf_mutex f1 = lf_mutex ?f"
    "lf_dirdirty ?f \<longrightarrow> dir_of (sector f1 0) = lf_dir ?f" "lf_dskdev f1 = lf_dskdev ?f"
  proof (cases "lf_dirdirty ?f \<or> lfdbdirty ?t \<or> lfibdirty ?t")
    case True
    obtain f' where f': "lfflush (ram_drv rest) d s1 = Ret (s1\<lparr>lfs := f'\<rparr>) OK" "fs_ok K n (s\<lparr>lfs := f'\<rparr>) G"
      "afiles n f' G = afiles n ?f G" "\<not> lf_dirdirty f'" "lf_dir f' = lf_dir ?f"
      "lfltab f' = (lfltab ?f)(d := ?t\<lparr>lfdbdirty := False, lfibdirty := False\<rparr>)" "lf_mutex f' = lf_mutex ?f"
      "lf_dirdirty ?f \<longrightarrow> dir_of (sector f' 0) = lf_dir ?f" "lf_dskdev f' = lf_dskdev ?f"
      by (rule flush_fs_ok [OF ok j(1) jd S(1)])
    have "kwhen (lf_dirdirty ?f \<or> lfdbdirty ?t \<or> lfibdirty ?t) (\<lambda>s. kbind (lfflush (ram_drv rest) d s) (\<lambda>s1 _. Ret s1 ())) s1 = Ret (s1\<lparr>lfs := f'\<rparr>) ()"
      unfolding kwhen_def using True f'(1) by simp
    then show thesis by (rule that) (use True f'(2-9) in simp_all)
  next
    case False
    have "s1\<lparr>lfs := ?f\<rparr> = s1" "s\<lparr>lfs := ?f\<rparr> = s" using S(1) by simp_all
    have "kwhen (lf_dirdirty ?f \<or> lfdbdirty ?t \<or> lfibdirty ?t) (\<lambda>s. kbind (lfflush (ram_drv rest) d s) (\<lambda>s1 _. Ret s1 ())) s1 = Ret (s1\<lparr>lfs := ?f\<rparr>) ()"
      unfolding kwhen_def using False \<open>s1\<lparr>lfs := ?f\<rparr> = s1\<close> by simp
    then show thesis by (rule that) (use False ok \<open>s\<lparr>lfs := ?f\<rparr> = s\<close> in simp_all)
  qed
  define f' where "f' = f1\<lparr>lfltab := (lfltab f1)(d := (lfltab f1 d)\<lparr>lfstate := LF_FREE\<rparr>)\<rparr>"
  have c: "\<not> lfibdirty (lfltab (lfs (s\<lparr>lfs := f1\<rparr>)) d)" "\<not> lfdbdirty (lfltab (lfs (s\<lparr>lfs := f1\<rparr>)) d)" using f1(6,7) by simp_all
  note C = close_fs_ok [OF f1(2) j(1) jd c]
  have u: "upd_lfl d (\<lambda>t. t\<lparr>lfstate := LF_FREE\<rparr>) (s1\<lparr>lfs := f1\<rparr>) = s1\<lparr>lfs := f'\<rparr>" "lfmutex (lfltab f' d) = ?x"
    using f1(8) by (simp_all add: upd_lfl_eq f'_def)
  have run: "lflclose (ram_drv rest) e s = Ret (s\<lparr>lfs := f'\<rparr>) OK"
    unfolding lflclose_def d_def [symmetric] Let_def using S(1,2) S(3) [of f'] D(8) f1(1) u by (simp add: lf_leave_def)
  have "bytes_of f1 G j = bs" using f1(3) a j(1) jd by (auto simp: afiles_def dest: arg_cong [where f = "\<lambda>xs. xs ! j"])
  then show thesis
    using C f1(3-5,9-14) by (intro res [OF run]) (simp_all add: f'_def d_def [symmetric])
qed

end
