(* ===== verification/Filecalls.thy ===== *)
theory Filecalls
  imports Lfsfile
begin

text \<open>
  Sequences of calls on open files: what they return, what they leave in memory and in the files is
  what the abstract calls on byte sequences and positions say, as long as the disk has blocks for the
  files they lead to. Then the life of a file: created, written, closed, and found again after the
  file system has been started anew from the disk.
\<close>

section \<open>Calls\<close>

datatype fcall = Fgetc | Fputc u8 | Fseek u32 | Fread u32 nat | Fwrite u32 nat

definition run_fcall :: "blkdrv \<Rightarrow> dentry \<Rightarrow> fcall \<Rightarrow> kst \<Rightarrow> (kst, int) kprog" where
  "run_fcall drv e c s =
     (case c of Fgetc \<Rightarrow> lflgetc drv e s | Fputc ch \<Rightarrow> lflputc drv e ch s | Fseek off \<Rightarrow> lflseek e off s
      | Fread b k \<Rightarrow> lflread drv e b (int k) s | Fwrite b k \<Rightarrow> lflwrite drv e b (int k) s)"

text \<open>A call names the file it is on and the device that file is open through.\<close>

primrec run_fcalls :: "blkdrv \<Rightarrow> (nat \<times> dentry \<times> fcall) list \<Rightarrow> kst \<Rightarrow> (kst, int list) kprog" where
  "run_fcalls drv [] s = Ret s []"
| "run_fcalls drv (c # cs) s =
     kbind (run_fcall drv (fst (snd c)) (snd (snd c)) s) (\<lambda>s1 r. kbind (run_fcalls drv cs s1) (\<lambda>s2 rs. Ret s2 (r # rs)))"

definition read_ret :: "nat \<Rightarrow> nat \<Rightarrow> int" where
  "read_ret k m = (if m < k \<and> m = 0 then EOF else int (min k m))"

fun a_fcall :: "fcall \<Rightarrow> memory \<Rightarrow> u8 list \<Rightarrow> nat \<Rightarrow> memory \<times> u8 list \<times> nat \<times> int" where
  "a_fcall Fgetc m bs p = (m, bs, fst (a_getc bs p), snd (a_getc bs p))"
| "a_fcall (Fputc ch) m bs p = (m, a_put [ch] bs p, p + 1, OK)"
| "a_fcall (Fseek off) m bs p = (if unat off \<le> length bs then (m, bs, unat off, OK) else (m, bs, p, SYSERR))"
| "a_fcall (Fread b k) m bs p = (store_bytes (a_read k bs p) b m, bs, p + min k (length bs - p), read_ret k (length bs - p))"
| "a_fcall (Fwrite b k) m bs p = (m, a_put (mem_bytes m b k) bs p, p + k, int k)"

primrec a_fcalls :: "(nat \<times> dentry \<times> fcall) list \<Rightarrow> memory \<Rightarrow> afile list \<Rightarrow> memory \<times> afile list \<times> int list" where
  "a_fcalls [] m A = (m, A, [])"
| "a_fcalls (c # cs) m A =
     (let (m1, bs, p, r) = a_fcall (snd (snd c)) m (fst (A ! fst c)) (the (snd (A ! fst c)));
          (m2, A2, rs) = a_fcalls cs m1 (A[fst c := (bs, Some p)])
      in (m2, A2, r # rs))"

definition blocks_used :: "afile list \<Rightarrow> nat" where
  "blocks_used A = sum_list (map (\<lambda>a. nblocks (fst a)) A)"

definition calls_on :: "nat \<Rightarrow> lfmap \<Rightarrow> (nat \<times> dentry \<times> fcall) list \<Rightarrow> bool" where
  "calls_on n G cs \<longleftrightarrow> list_all (\<lambda>c. fst c < n \<and> g_dev G (fst c) = Some (dvminor (fst (snd c)))) cs"

lemma length_a_put: "p \<le> length bs \<Longrightarrow> length (a_put xs bs p) = max (length bs) (p + length xs)"
  by (simp add: a_put_def max_def)

lemma nblocks_mono: "length bs \<le> length bs' \<Longrightarrow> nblocks bs \<le> nblocks bs'"
  by (simp add: nblocks_def div_le_mono)

lemma length_mem_bytes [simp]: "length (mem_bytes m b k) = k"
  by (simp add: mem_bytes_def)

lemma a_fcall_grows:
  assumes "p \<le> length bs" "a_fcall c m bs p = (m', bs', p', r)"
  shows "length bs \<le> length bs'" "p' \<le> length bs'"
  using assms by (cases c; auto simp: a_getc_def length_a_put split: if_splits)+

lemma blocks_used_update:
  "j < length A \<Longrightarrow> blocks_used (A[j := (bs, p)]) + nblocks (fst (A ! j)) = blocks_used A + nblocks bs"
  by (induction A arbitrary: j) (auto simp: blocks_used_def split: nat.splits)

lemma room_for_blocks:
  assumes ok: "fs_ok K n s G" and j: "j < n" and a: "afiles n (lfs s) G ! j = (bs, Some p)"
    and sp: "nblocks (a_put xs bs p) \<le> nblocks bs + spare G"
  shows "p + length xs \<le> capacity j G"
proof -
  note F = fs_okD [OF ok j]
  have p: "p \<le> length bs" by (rule position_inside [OF ok j a])
  have "nblocks bs = length (g_dbs G j)"
    using a j F(4) file_blocks(4) [OF F(2,4) j] by (simp add: afiles_def nblocks_def file_ok_def)
  moreover have "p + length xs \<le> 512 * nblocks (a_put xs bs p)" using length_a_put [OF p, of xs] unfolding nblocks_def by linarith
  moreover have "length (g_dbs G j) \<le> 16 * length (g_ibs G j)" using layoutD(10) [OF F(2) j] by (simp add: file_at_def)
  moreover have "spare G \<le> length (g_fib G)" "spare G \<le> length (g_fdb G)" by (simp_all add: spare_def)
  ultimately show ?thesis using sp unfolding capacity_def add_mult_distrib2 min.bounded_iff by (intro conjI; linarith)
qed

lemma set_kmem_same [simp]: "set_kmem (kmem s) (s\<lparr>lfs := f\<rparr>) = s\<lparr>lfs := f\<rparr>"
  by (simp add: set_kmem_def kmem_def)

lemma fcall_refines:
  assumes ok: "fs_ok K n s G" and j: "j < n" "g_dev G j = Some (dvminor e)" and a: "afiles n (lfs s) G ! j = (bs, Some p)"
    and c: "a_fcall c (kmem s) bs p = (m', bs', p', r)" and room: "nblocks bs' \<le> nblocks bs + spare G"
  obtains (res) f' G' where "run_fcall (ram_drv rest) e c s = Ret (set_kmem m' (s\<lparr>lfs := f'\<rparr>)) r" "fs_ok K n (s\<lparr>lfs := f'\<rparr>) G'"
    "afiles n f' G' = (afiles n (lfs s) G)[j := (bs', Some p')]" "g_dev G' = g_dev G" "spare G + nblocks bs \<le> spare G' + nblocks bs'"
proof (cases c)
  case Fgetc
  obtain f' where "lflgetc (ram_drv rest) e s = Ret (s\<lparr>lfs := f'\<rparr>) (snd (a_getc bs p))" "fs_ok K n (s\<lparr>lfs := f'\<rparr>) G"
    "afiles n f' G = (afiles n (lfs s) G)[j := (bs, Some (fst (a_getc bs p)))]"
    by (rule lflgetc_refines [OF ok j a])
  then show thesis using c Fgetc by (intro res [of f' G]) (auto simp: run_fcall_def)
next
  case (Fputc ch)
  have "p < capacity j G" using room_for_blocks [OF ok j(1) a, of "[ch]"] room c Fputc by auto
  then obtain f' G' where "lflputc (ram_drv rest) e ch s = Ret (s\<lparr>lfs := f'\<rparr>) OK" "fs_ok K n (s\<lparr>lfs := f'\<rparr>) G'"
    "afiles n f' G' = (afiles n (lfs s) G)[j := (a_put [ch] bs p, Some (p + 1))]" "g_dev G' = g_dev G"
    "spare G + nblocks bs \<le> spare G' + nblocks (a_put [ch] bs p)"
    by (rule lflputc_refines [OF ok j a])
  then show thesis using c Fputc by (intro res [of f' G']) (auto simp: run_fcall_def)
next
  case (Fseek off)
  obtain f' where "lflseek e off s = Ret (s\<lparr>lfs := f'\<rparr>) (if unat off \<le> length bs then OK else SYSERR)" "fs_ok K n (s\<lparr>lfs := f'\<rparr>) G"
    "afiles n f' G = (afiles n (lfs s) G)[j := (bs, Some (if unat off \<le> length bs then unat off else p))]"
    by (rule lflseek_refines [OF ok j a])
  then show thesis using c Fseek by (intro res [of f' G]) (auto simp: run_fcall_def split: if_splits)
next
  case (Fread b k)
  obtain f' where "lflread_loop k (ram_drv rest) e b 0 s = Ret (set_kmem (store_bytes (a_read k bs p) b (kmem s)) (s\<lparr>lfs := f'\<rparr>))
      (if length bs - p < k \<and> 0 + int (length bs - p) = 0 then EOF else 0 + int (min k (length bs - p)))"
    "fs_ok K n (s\<lparr>lfs := f'\<rparr>) G" "afiles n f' G = (afiles n (lfs s) G)[j := (bs, Some (p + min k (length bs - p)))]"
    by (rule lflread_loop_refines [OF ok j a order_refl])
  then show thesis using c Fread by (intro res [of f' G]) (auto simp: run_fcall_def lflread_def read_ret_def)
next
  case (Fwrite b k)
  have "p + k \<le> capacity j G" using room_for_blocks [OF ok j(1) a, of "mem_bytes (kmem s) b k"] room c Fwrite by auto
  then obtain f' G' where "lflwrite_loop k (ram_drv rest) e b (int k) s = Ret (s\<lparr>lfs := f'\<rparr>) (int k)" "fs_ok K n (s\<lparr>lfs := f'\<rparr>) G'"
    "afiles n f' G' = (afiles n (lfs s) G)[j := (a_put (mem_bytes (kmem s) b k) bs p, Some (p + k))]" "g_dev G' = g_dev G"
    "spare G + nblocks bs \<le> spare G' + nblocks (a_put (mem_bytes (kmem s) b k) bs p)"
    by (rule lflwrite_loop_refines [OF ok j a])
  then show thesis using c Fwrite by (intro res [of f' G']) (auto simp: run_fcall_def lflwrite_def)
qed

text \<open>The files of a sequence of calls only grow.\<close>

definition positions_ok :: "afile list \<Rightarrow> bool" where
  "positions_ok A \<longleftrightarrow> (\<forall>j<length A. \<forall>p. snd (A ! j) = Some p \<longrightarrow> p \<le> length (fst (A ! j)))"

lemma positions_okI: "fs_ok K n s G \<Longrightarrow> positions_ok (afiles n (lfs s) G)"
  unfolding positions_ok_def using position_inside by (metis length_afiles prod.collapse)

definition opened_by :: "afile list \<Rightarrow> (nat \<times> dentry \<times> fcall) list \<Rightarrow> bool" where
  "opened_by A cs \<longleftrightarrow> list_all (\<lambda>c. fst c < length A \<and> snd (A ! fst c) \<noteq> None) cs"

lemma a_fcall_step:
  assumes "positions_ok A" "opened_by A (c # cs)" "a_fcall (snd (snd c)) m (fst (A ! fst c)) (the (snd (A ! fst c))) = (m1, bs, p, r)"
  shows "positions_ok (A[fst c := (bs, Some p)])" "opened_by (A[fst c := (bs, Some p)]) cs"
    "blocks_used A \<le> blocks_used (A[fst c := (bs, Some p)])"
proof -
  have j: "fst c < length A" and q: "the (snd (A ! fst c)) \<le> length (fst (A ! fst c))"
    using assms(1,2) by (auto simp: opened_by_def positions_ok_def)
  note g = a_fcall_grows [OF q assms(3)]
  show "positions_ok (A[fst c := (bs, Some p)])" using assms(1) g(2) j by (auto simp: positions_ok_def nth_list_update)
  show "opened_by (A[fst c := (bs, Some p)]) cs" using assms(2) j by (auto simp: opened_by_def list_all_iff nth_list_update)
  show "blocks_used A \<le> blocks_used (A[fst c := (bs, Some p)])"
    using blocks_used_update [OF j, of bs "Some p"] nblocks_mono [OF g(1)] by linarith
qed

lemma a_fcalls_grow: "positions_ok A \<Longrightarrow> opened_by A cs \<Longrightarrow> blocks_used A \<le> blocks_used (fst (snd (a_fcalls cs m A)))"
proof (induction cs arbitrary: m A)
  case (Cons c cs)
  obtain m1 bs p r where c: "a_fcall (snd (snd c)) m (fst (A ! fst c)) (the (snd (A ! fst c))) = (m1, bs, p, r)"
    by (metis prod_cases4)
  note st = a_fcall_step [OF Cons.prems c]
  show ?case using Cons.IH [OF st(1,2), of m1] st(3) c by (simp add: split_beta)
qed simp

lemma calls_on_opened: "calls_on n G cs \<Longrightarrow> opened_by (afiles n f G) cs"
  by (auto simp: calls_on_def opened_by_def list_all_iff afiles_def)

lemma run_fcalls_refine:
  assumes "fs_ok K n s G" "calls_on n G cs" "a_fcalls cs (kmem s) (afiles n (lfs s) G) = (m', A', rs)"
    "blocks_used A' \<le> blocks_used (afiles n (lfs s) G) + spare G"
  obtains (res) f' G' where "run_fcalls (ram_drv rest) cs s = Ret (set_kmem m' (s\<lparr>lfs := f'\<rparr>)) rs" "afiles n f' G' = A'"
    "fs_ok K n (s\<lparr>lfs := f'\<rparr>) G'" "g_dev G' = g_dev G"
  using assms
proof (induction cs arbitrary: s G rs thesis)
  case Nil
  then have "set_kmem m' (s\<lparr>lfs := lfs s\<rparr>) = s" using set_kmem_same [of s "lfs s"] by simp
  then show ?case using Nil(2,4) by (intro Nil(1) [of "lfs s" G]) simp_all
next
  case (Cons c cs)
  let ?A = "afiles n (lfs s) G" and ?e = "fst (snd c)"
  obtain m1 bs p r where c: "a_fcall (snd (snd c)) (kmem s) (fst (?A ! fst c)) (the (snd (?A ! fst c))) = (m1, bs, p, r)"
    by (metis prod_cases4)
  note op = calls_on_opened [OF Cons.prems(3), of "lfs s"] and pos = positions_okI [OF Cons.prems(2)]
  note st = a_fcall_step [OF pos op c]
  have j: "fst c < n" "g_dev G (fst c) = Some (dvminor ?e)" using Cons.prems(3) by (simp_all add: calls_on_def)
  have a: "?A ! fst c = (fst (?A ! fst c), Some (the (snd (?A ! fst c))))" using j by (simp add: afiles_def)
  obtain rs1 where tail: "a_fcalls cs m1 (?A[fst c := (bs, Some p)]) = (m', A', rs1)" "rs = r # rs1"
    using Cons.prems(4) c by (auto split: prod.splits)
  have up: "blocks_used (?A[fst c := (bs, Some p)]) + nblocks (fst (?A ! fst c)) = blocks_used ?A + nblocks bs"
    using blocks_used_update j(1) by simp
  have "blocks_used (?A[fst c := (bs, Some p)]) \<le> blocks_used A'" using a_fcalls_grow [OF st(1,2), of m1] tail(1) by simp
  then have "nblocks bs \<le> nblocks (fst (?A ! fst c)) + spare G" using up Cons.prems(5) by linarith
  then obtain f1 G1 where f1: "run_fcall (ram_drv rest) ?e (snd (snd c)) s = Ret (set_kmem m1 (s\<lparr>lfs := f1\<rparr>)) r"
    "fs_ok K n (s\<lparr>lfs := f1\<rparr>) G1" "afiles n f1 G1 = ?A[fst c := (bs, Some p)]" "g_dev G1 = g_dev G"
    "spare G + nblocks (fst (?A ! fst c)) \<le> spare G1 + nblocks bs"
    by (rule fcall_refines [OF Cons.prems(2) j a c])
  define s1 where "s1 = set_kmem m1 (s\<lparr>lfs := f1\<rparr>)"
  have s1: "kmem s1 = m1" "lfs s1 = f1" "fs_ok K n s1 G1" "set_kmem m' (s1\<lparr>lfs := f\<rparr>) = set_kmem m' (s\<lparr>lfs := f\<rparr>)"
    "fs_ok K n (s1\<lparr>lfs := f\<rparr>) G2 = fs_ok K n (s\<lparr>lfs := f\<rparr>) G2" for f G2
    using f1(2) by (simp_all add: s1_def)
  have on: "calls_on n G1 cs" using Cons.prems(3) f1(4) by (simp add: calls_on_def)
  have bl: "blocks_used A' \<le> blocks_used (afiles n (lfs s1) G1) + spare G1"
    using Cons.prems(5) up f1(3,5) s1(2) by simp
  obtain f2 G2 where f2: "run_fcalls (ram_drv rest) cs s1 = Ret (set_kmem m' (s1\<lparr>lfs := f2\<rparr>)) rs1" "afiles n f2 G2 = A'"
    "fs_ok K n (s1\<lparr>lfs := f2\<rparr>) G2" "g_dev G2 = g_dev G1"
    by (rule Cons.IH [where s = s1 and G = G1 and rs = rs1]) (use s1 on bl tail(1) f1(3) in simp_all)
  have "run_fcalls (ram_drv rest) (c # cs) s = Ret (set_kmem m' (s\<lparr>lfs := f2\<rparr>)) rs"
    using f1(1) f2(1) s1(4) tail(2) by (simp add: s1_def)
  then show ?case using Cons.prems(1) f2(2-4) f1(4) s1(5) by simp
qed

end
