(* ===== verification/Filelife.thy ===== *)
theory Filelife
  imports Filecalls
begin

text \<open>
  The file system started anew: what is in memory is gone, the sectors are what the last calls left.
  A file that was written and closed is found again by its name, with its bytes.
\<close>

section \<open>Buffers in memory\<close>

lemma store_bytes_at:
  "length bs \<le> 4294967296 \<Longrightarrow> store_bytes bs a m x = (if unat (x - a) < length bs then bs ! unat (x - a) else m x)"
proof (induction bs arbitrary: a m)
  case (Cons c cs)
  show ?case
  proof (cases "x = a")
    case True
    then have "unat (x - (a + 1)) = 4294967295" by (simp add: unsigned_minus_1_eq_mask mask_eq_exp_minus_1)
    then show ?thesis using Cons True by simp
  next
    case False
    then have "x - a \<noteq> 0" by simp
    then have "unat (x - a) = Suc (unat (x - (a + 1)))" using unat_minus_one [of "x - a"] unat_gt_0 [of "x - a"] by (simp add: diff_diff_add)
    then show ?thesis using Cons False by simp
  qed
qed simp

lemma mem_bytes_store: "length bs \<le> 4294967296 \<Longrightarrow> mem_bytes (store_bytes bs a m) a (length bs) = bs"
  by (rule nth_equalityI) (simp_all add: mem_bytes_def store_bytes_at unat_of_nat)

section \<open>Names\<close>

lemma name_eq_cong: "(\<And>i. i < length cs \<Longrightarrow> m' (a' + of_nat i) = m (a + of_nat i)) \<Longrightarrow> name_eq m' a' cs = name_eq m a cs"
proof (induction cs arbitrary: a a')
  case (Cons c cs)
  have "m' (a' + 1 + of_nat i) = m (a + 1 + of_nat i)" if "i < length cs" for i
    using Cons.prems [of "Suc i"] that by (simp add: add_ac)
  then have "name_eq m' (a' + 1) cs = name_eq m (a + 1) cs" by (rule Cons.IH)
  then show ?case using Cons.prems [of 0] by simp
qed simp

lemma lfs_find_none:
  "lfs_find k i m name es = Some SYSERR \<Longrightarrow> 0 \<le> i \<Longrightarrow> x < k \<Longrightarrow> name_eq m name (ld_name (es ! nat (i + int x))) = Some False"
proof (induction k arbitrary: i x)
  case (Suc k)
  have f: "name_eq m name (ld_name (es ! nat i)) = Some False" "lfs_find k (i + 1) m name es = Some SYSERR"
    using Suc.prems(1,2) by (auto split: if_splits option.splits)
  show ?case
  proof (cases x)
    case 0
    then show ?thesis using f(1) by simp
  next
    case (Suc y)
    then show ?thesis using Suc.IH [OF f(2), of y] Suc.prems(2,3) by (simp add: add_ac)
  qed
qed simp

lemma lfs_find_at:
  "\<forall>x<j. name_eq m name (ld_name (es ! nat (i + int x))) = Some False \<Longrightarrow> name_eq m name (ld_name (es ! nat (i + int j))) = Some True
    \<Longrightarrow> 0 \<le> i \<Longrightarrow> i + int j < 20 \<Longrightarrow> j < k \<Longrightarrow> lfs_find k i m name es = Some (i + int j)"
proof (induction k arbitrary: i j)
  case (Suc k)
  show ?case
  proof (cases j)
    case 0
    then show ?thesis using Suc.prems by simp
  next
    case (Suc y)
    have "\<forall>x<y. name_eq m name (ld_name (es ! nat (i + 1 + int x))) = Some False"
      using Suc.prems(1) Suc by (auto simp: add_ac dest: spec [where x = "Suc _"])
    then have "lfs_find k (i + 1) m name es = Some (i + 1 + int y)"
      using Suc.prems(2-5) Suc by (intro Suc.IH) (simp_all add: add_ac)
    then show ?thesis using Suc.prems(1,3,4) Suc by (auto dest: spec [where x = 0])
  qed
qed simp

section \<open>Starting anew\<close>

lemma rep_sectors: "\<forall>b. sector f' b = sector f b \<Longrightarrow> rep f' t ibs dbs blks = rep f t ibs dbs blks"
  by (simp add: rep_def ib_rep_def db_rep_def iblk_def)

lemma layout_closed:
  assumes l: "layout K n f G" and c: "\<And>j. j < n \<Longrightarrow> g_dev G j = None" and f': "\<forall>b. sector f' b = sector f b" "lf_dir f' = lf_dir f"
  shows "layout K n f' G"
proof -
  have "file_at f' G j" if "j < n" for j
    using layoutD(10) [OF l that] c [OF that] rep_sectors [OF f'(1)] f'(2) by (simp add: file_at_def view_def entry_def)
  then show ?thesis using l f' by (simp add: layout_def free_ibs_def free_dbs_def iblk_def)
qed

definition restarted :: "kst \<Rightarrow> kst \<Rightarrow> bool" where
  "restarted s t \<longleftrightarrow> (\<forall>b. sector (lfs t) b = sector (lfs s) b) \<and> \<not> lf_dirpresent (lfs t) \<and> is_ram (lf_dskdev (lfs t))
     \<and> free_lock (lf_mutex (lfs t)) t"

lemma restart_idle:
  assumes ok: "fs_ok K n s G" and c: "\<And>j. j < n \<Longrightarrow> g_dev G j = None" and d: "dir_of (sector (lfs s) 0) = lf_dir (lfs s)"
    and t: "restarted s t"
  shows "idle_fs K n t G" "lf_dir (loaded (lfs t)) = lf_dir (lfs s)"
proof -
  have l: "layout K n (lfs s) G" "unat (lfd_nfiles (lf_dir (lfs s))) = n" "dir_head (lf_dir (lfs s)) = (LFS_ID, 0, 0xffffffff, lfs_reverse)"
    using ok by (simp_all add: fs_ok_def)
  have D: "dir_of (sector (lfs t) 0) = lf_dir (lfs s)" using t d by (simp add: restarted_def)
  then show "lf_dir (loaded (lfs t)) = lf_dir (lfs s)" using t by (simp add: loaded_def restarted_def on_disk_def)
  have o: "lf_dir (on_disk (lfs t)) = lf_dir (lfs s)" "\<forall>b. sector (on_disk (lfs t)) b = sector (lfs s) b"
    using D t by (simp_all add: on_disk_def restarted_def)
  have "layout K n (on_disk (lfs t)) G" by (rule layout_closed [OF l(1) c o(2,1)])
  moreover have "0 \<le> sint (lfd_nfiles (lf_dir (lfs s)))" using nfiles_int(1) [OF ok] by simp
  ultimately have "disk_ok K n (lfs t) G" using D l(2,3) by (simp add: disk_ok_def lfscheck_head)
  then show "idle_fs K n t G"
    using t c ok by (simp add: idle_fs_def restarted_def file_ok_def fs_ok_def entry_def o(1))
qed

section \<open>The life of a file\<close>

lemma create_write_close:
  assumes i: "idle_fs K n s G" and c: "\<And>j. j < n \<Longrightarrow> g_dev G j = None" and a: "open_args name mode s mb d"
    and f: "finds name s n SYSERR" and m: "mb AND LF_MODE_O = 0" and n: "n < 20"
    and e: "dvminor (dentry_of (lfdev (lfltab (lfs s) d))) = d"
    and k: "0 < k" "k \<le> 512 * length (g_fdb G)" "k \<le> 8192 * length (g_fib G)"
  obtains (res) s1 s2 s3 G3 where "lfsopen (ram_drv rest) name mode s = Ret s1 (lfdev (lfltab (lfs s) d))"
    "lflwrite (ram_drv rest) (dentry_of (lfdev (lfltab (lfs s) d))) buff (int k) s1 = Ret s2 (int k)"
    "lflclose (ram_drv rest) (dentry_of (lfdev (lfltab (lfs s) d))) s2 = Ret s3 OK" "fs_ok K (Suc n) s3 G3"
    "\<And>j. j < Suc n \<Longrightarrow> g_dev G3 j = None" "dir_of (sector (lfs s3) 0) = lf_dir (lfs s3)"
    "afiles (Suc n) (lfs s3) G3 = afiles n (loaded (lfs s)) G @ [(mem_bytes (kmem s) buff k, None)]"
    "\<And>i. i < n \<Longrightarrow> g_names G3 i = g_names G i" "name_eq (kmem s) name (g_names G3 n) = Some True"
proof -
  let ?e = "dentry_of (lfdev (lfltab (lfs s) d))" and ?A = "afiles n (loaded (lfs s)) G" and ?W = "mem_bytes (kmem s) buff k"
  obtain f1 nm where f1: "lfsopen (ram_drv rest) name mode s = Ret (s\<lparr>lfs := f1\<rparr>) (lfdev (lfltab (lfs s) d))"
    "fs_ok K (Suc n) (s\<lparr>lfs := f1\<rparr>) (open_map n d (new_map n (ld_name (entry f1 n)) G))"
    "afiles (Suc n) f1 (open_map n d (new_map n (ld_name (entry f1 n)) G)) = ?A @ [([], Some 0)]"
    "name_eq (kmem s) name (ld_name (entry f1 n)) = Some True"
    by (rule lfsopen_creates [OF i a f m n])
  define G1 where "G1 = open_map n d (new_map n (ld_name (entry f1 n)) G)"
  have G1: "g_dev G1 = (g_dev G)(n := Some d)" "g_names G1 = (g_names G)(n := ld_name (entry f1 n))" "k \<le> capacity n G1"
    using k(2,3) by (simp_all add: G1_def open_map_def new_map_def capacity_def)
  have w: "afiles (Suc n) (lfs (s\<lparr>lfs := f1\<rparr>)) G1 ! n = ([], Some 0)" "g_dev G1 n = Some (dvminor ?e)" "0 + k \<le> capacity n G1"
    using f1(3) G1 e by (simp_all add: G1_def [symmetric] nth_append)
  obtain f2 G2 where f2: "lflwrite_loop k (ram_drv rest) ?e buff (int k) (s\<lparr>lfs := f1\<rparr>) = Ret (s\<lparr>lfs := f1, lfs := f2\<rparr>) (int k)"
    "fs_ok K (Suc n) (s\<lparr>lfs := f1, lfs := f2\<rparr>) G2"
    "afiles (Suc n) f2 G2 = (afiles (Suc n) (lfs (s\<lparr>lfs := f1\<rparr>)) G1)[n := (a_put (mem_bytes (kmem (s\<lparr>lfs := f1\<rparr>)) buff k) [] 0, Some (0 + k))]"
    "g_dev G2 = g_dev G1" "g_names G2 = g_names G1" "0 < k \<and> 0 = length ([] :: u8 list) \<longrightarrow> lf_dirdirty f2"
    by (rule lflwrite_loop_refines [OF f1(2) [folded G1_def] lessI w(2,1,3)])
  have a2: "afiles (Suc n) f2 G2 = ?A @ [(?W, Some k)]"
    using f2(3) f1(3) by (simp add: G1_def [symmetric] a_put_def list_update_append)
  define s2 where "s2 = s\<lparr>lfs := f2\<rparr>"
  have s2: "fs_ok K (Suc n) s2 G2" "afiles (Suc n) (lfs s2) G2 ! n = (?W, Some k)" "g_dev G2 n = Some (dvminor ?e)" "lf_dirdirty (lfs s2)"
    using f2(2,4,6) a2 w(2) k(1) by (simp_all add: s2_def nth_append)
  obtain f3 where f3: "lflclose (ram_drv rest) ?e s2 = Ret (s2\<lparr>lfs := f3\<rparr>) OK" "fs_ok K (Suc n) (s2\<lparr>lfs := f3\<rparr>) (close_map n G2)"
    "afiles (Suc n) f3 (close_map n G2) = (afiles (Suc n) (lfs s2) G2)[n := (?W, None)]" "lf_dir f3 = lf_dir (lfs s2)"
    "lf_dirdirty (lfs s2) \<longrightarrow> dir_of (sector f3 0) = lf_dir (lfs s2)"
    by (rule lflclose_refines [OF s2(1) lessI s2(3,2)])
  have closed: "g_dev (close_map n G2) j = None" if "j < Suc n" for j
    using that c [of j] f2(4) G1(1) by (auto simp: close_map_def)
  show thesis
  proof (rule res [of "s\<lparr>lfs := f1\<rparr>" s2 "s2\<lparr>lfs := f3\<rparr>" "close_map n G2", OF _ _ _ _ closed])
    show "afiles (Suc n) (lfs (s2\<lparr>lfs := f3\<rparr>)) (close_map n G2) = ?A @ [(?W, None)]" using f3(3) a2 by (simp add: s2_def list_update_append)
  qed (use f1(1,4) f2(1,4,5) f3 s2(4) G1(2) in \<open>simp_all add: s2_def lflwrite_def close_map_def\<close>)
qed

lemma afiles_loaded:
  assumes "\<And>j. j < n \<Longrightarrow> g_dev G j = None" "lf_dir f' = lf_dir f"
  shows "afiles n f' G = afiles n f G" "bytes_of f' G i = bytes_of f G i"
  using assms by (simp_all add: afiles_def bytes_of_def entry_def)

lemma reopen_reads:
  assumes ok: "fs_ok K n s G" and c: "\<And>j. j < n \<Longrightarrow> g_dev G j = None" and D: "dir_of (sector (lfs s) 0) = lf_dir (lfs s)"
    and t: "restarted s t" and a: "open_args name mode t mb d" and m: "mb AND LF_MODE_N = 0"
    and e: "dvminor (dentry_of (lfdev (lfltab (lfs t) d))) = d"
    and j: "j < n" "\<forall>i<j. name_eq (kmem t) name (g_names G i) = Some False" "name_eq (kmem t) name (g_names G j) = Some True"
    and bs: "afiles n (lfs s) G ! j = (bs, None)" "bs \<noteq> []"
  obtains (res) t1 t2 where "lfsopen (ram_drv rest) name mode t = Ret t1 (lfdev (lfltab (lfs t) d))"
    "lflread (ram_drv rest) (dentry_of (lfdev (lfltab (lfs t) d))) buff (int (length bs)) t1 = Ret t2 (int (length bs))"
    "mem_bytes (kmem t2) buff (length bs) = bs" "fs_ok K n t2 (open_map j d G)"
    "afiles n (lfs t2) (open_map j d G) = (afiles n (lfs s) G)[j := (bs, Some (length bs))]"
proof -
  let ?e = "dentry_of (lfdev (lfltab (lfs t) d))"
  note R = restart_idle [OF ok c D t]
  have n: "n \<le> 20" by (rule nfiles_int(2) [OF ok])
  have names: "ld_name (lfd_files (lf_dir (loaded (lfs t))) ! i) = g_names G i" if "i < n" for i
    using ok that R(2) by (simp add: fs_ok_def entry_def)
  have "lfs_find n 0 (kmem t) name (lfd_files (lf_dir (loaded (lfs t)))) = Some (0 + int j)"
    by (rule lfs_find_at) (use j names n in simp_all)
  then have f: "finds name t n (int j)" by (simp add: finds_def)
  obtain f1 where f1: "lfsopen (ram_drv rest) name mode t = Ret (t\<lparr>lfs := f1\<rparr>) (lfdev (lfltab (lfs t) d))"
    "fs_ok K n (t\<lparr>lfs := f1\<rparr>) (open_map j d G)"
    "afiles n f1 (open_map j d G) = (afiles n (loaded (lfs t)) G)[j := (bytes_of (loaded (lfs t)) G j, Some 0)]"
    by (rule lfsopen_opens [OF R(1) a f m c [OF j(1)]])
  have b: "bytes_of (lfs s) G j = bs" using bs(1) j(1) by (simp add: afiles_def)
  have a1: "afiles n f1 (open_map j d G) = (afiles n (lfs s) G)[j := (bs, Some 0)]"
    using f1(3) afiles_loaded [OF c R(2)] b by simp
  have "length bs = unat (ld_size (entry (lfs s) j))" "unat (ld_size (entry (lfs s) j)) \<le> 102400"
    using file_blocks(4,5) [OF fs_okD(2,4) [OF ok j(1)] j(1)] b by simp_all
  then have len: "length bs \<le> 4294967296" by simp
  have r: "afiles n (lfs (t\<lparr>lfs := f1\<rparr>)) (open_map j d G) ! j = (bs, Some 0)" "g_dev (open_map j d G) j = Some (dvminor ?e)"
    using a1 j(1) e by (simp_all add: open_map_def)
  obtain f2 where f2: "lflread_loop (length bs) (ram_drv rest) ?e buff 0 (t\<lparr>lfs := f1\<rparr>)
      = Ret (set_kmem (store_bytes (a_read (length bs) bs 0) buff (kmem (t\<lparr>lfs := f1\<rparr>))) (t\<lparr>lfs := f1, lfs := f2\<rparr>))
          (if length bs - 0 < length bs \<and> 0 + int (length bs - 0) = 0 then EOF else 0 + int (min (length bs) (length bs - 0)))"
    "fs_ok K n (t\<lparr>lfs := f1, lfs := f2\<rparr>) (open_map j d G)"
    "afiles n f2 (open_map j d G) = (afiles n (lfs (t\<lparr>lfs := f1\<rparr>)) (open_map j d G))[j := (bs, Some (0 + min (length bs) (length bs - 0)))]"
    by (rule lflread_loop_refines [OF f1(2) j(1) r(2,1) order_refl])
  show thesis
    by (rule res [OF f1(1), of "set_kmem (store_bytes bs buff (kmem t)) (t\<lparr>lfs := f2\<rparr>)"])
      (use f2 a1 mem_bytes_store [OF len] in \<open>simp_all add: lflread_def a_read_def\<close>)
qed

end
