(* ===== verification/Filespec.thy ===== *)
theory Filespec
  imports Filelife Devclose Samples
begin

text \<open>
  The properties of the local file system on the RAM disk, with a sample: an empty file system of one
  sector of index blocks and eight data blocks, no file open, and a name in memory.
\<close>

section \<open>A sample\<close>

definition lfmem :: memory where
  "lfmem = (\<lambda>a. 0)(100 := 97, 300 := 10, 301 := 20, 302 := 30)"

definition lf_fresh :: fsys where
  "lf_fresh = fsys0\<lparr>lf_dskdev := - 1, lfltab := (\<lambda>d. (lfltab fsys0 d)\<lparr>lfdev := 18 + d, lfmutex := d + 1\<rparr>)\<rparr>"

definition file0 :: kst where
  "file0 = kst0\<lparr>semtab := (\<lambda>i. \<lparr>sstate = S_USED, scount = 1, squeue = 0\<rparr>), hp := heap0\<lparr>bytes := lfmem\<rparr>, lfs := lf_fresh\<rparr>"

definition lf_formatted :: fsys where
  "lf_formatted = new_disk 5 1 8 lf_fresh"

definition formatted0 :: kst where
  "formatted0 = file0\<lparr>lfs := lf_formatted\<rparr>"

lemma file0_simps [simp]:
  "lfs file0 = lf_fresh" "kmem file0 = lfmem" "lfs formatted0 = lf_formatted" "kmem formatted0 = lfmem"
  "kmem (file0\<lparr>lfs := f\<rparr>) = lfmem"
  by (simp_all add: file0_def formatted0_def kmem_def)

lemma lf_fresh_simps [simp]:
  "lf_dskdev lf_fresh = - 1" "lf_mutex lf_fresh = 0" "lf_dirpresent lf_fresh = False" "lf_dirdirty lf_fresh = False"
  "lfltab lf_fresh d = (lfltab fsys0 d)\<lparr>lfdev := 18 + d, lfmutex := d + 1\<rparr>"
  by (simp_all add: lf_fresh_def fsys0_def)

lemma locks0: "0 \<le> m \<Longrightarrow> m < 7 \<Longrightarrow> free_lock m (file0\<lparr>lfs := f\<rparr>)"
  by (simp add: free_lock_def idle_sem_def file0_def isbadsem_def)

lemma lfile0: "dvminor (dentry_of 18) = 0"
  by (simp add: dentry_of_def devtab_def devtab_devices_def devtab_rfiles_def devtab_lfiles_def dentry.make_def)

lemma formatted0_mem: "lf_dskdev (lf_formatted) = 5" "lf_mutex (lf_formatted) = 0"
  "lf_dirpresent (lf_formatted) = False" "lf_dirdirty (lf_formatted) = False"
  "lfltab (lf_formatted) = lfltab lf_fresh"
  using new_disk_ok(2) [of 1 8 5 lf_fresh] by (simp_all add: same_mem_def lf_formatted_def)

lemma formatted0_idle: "idle_fs 1 0 formatted0 (empty_map 1 8)"
  using new_disk_ok(1) [of 1 8 5 lf_fresh, folded lf_formatted_def] locks0 [of 0] formatted0_mem is_ram_RAM0
  by (simp add: idle_fs_def formatted0_def)

lemma open_args0:
  assumes "lfltab f = lfltab lf_fresh" "lf_mutex f = 0"
  shows "open_args 100 200 (file0\<lparr>lfs := f\<rparr>) 3 0"
proof -
  have "lfmem 200 = 0" by (simp add: lfmem_def)
  then have "lfgetmode_loop (Suc 3) lfmem 200 0 = Some 3" unfolding lfgetmode_loop.simps Let_def by simp
  then have "lfgetmode lfmem 200 = Some 3" by (simp add: lfgetmode_def eval_nat_numeral del: lfgetmode_loop.simps)
  moreover have "\<exists>i<LF_NAME_LEN. lfmem (100 + of_nat i) = 0" by (rule exI [of _ 1]) (simp add: lfmem_def)
  moreover have "lfs_slot [0..5] lfmem 100 f SYSERR = Some 0" using assms(1) by (simp add: upto_rec1 fsys0_def)
  ultimately show ?thesis
    using assms locks0 [of 1 f] by (simp add: open_args_def slot_ok_def fsys0_def)
qed

lemma formatted0_open: "open_args 100 200 formatted0 3 0"
  using open_args0 [of "lf_formatted"] formatted0_mem by (simp add: formatted0_def)

lemma formatted0_finds: "finds 100 formatted0 0 SYSERR"
  by (simp add: finds_def)

lemma formatted0_dev: "lfdev (lfltab (lfs formatted0) 0) = 18"
  by (simp add: formatted0_mem)

section \<open>Making a file system\<close>

text \<open>
  C5. \<^verbatim>\<open>lfscreate\<close> and \<^verbatim>\<open>lfsckfmt\<close> agree: on a RAM disk large enough for the index blocks that were
  asked for, \<^verbatim>\<open>lfscreate\<close> succeeds whatever the disk held, \<^verbatim>\<open>lfsckfmt\<close> then walks both free lists to
  their ends without changing anything and counts every block, the index blocks rounded up to whole
  sectors, and the directory read back from the disk describes an empty file system.
\<close>

theorem lfscreate_lfsckfmt:
  assumes "is_ram disk" "dvclose (dentry_of disk) = Ramclose" "lf_dskdev (lfs s) < 0" "0 < unat lfiblks"
    and "K = (unat lfiblks + 6) div 7" "N = unat dsiz div 512" "N \<le> 200" "K \<le> N div 2" "K + 2 \<le> N"
  shows "\<exists>s'. lfscreate (ram_drv rest) (run_close rfl (ram_drv rest)) disk lfiblks dsiz s = Ret s' OK
    \<and> lfsckfmt (ram_drv rest) disk s' = Ret s' (OK, int (7 * K), int (N - K - 1)) \<and> disk_ok K 0 (lfs s') (empty_map K (N - K - 1))"
proof -
  let ?f = "new_disk disk K (N - K - 1) (lfs s)"
  have size: "0 < K" "0 < N - K - 1" "K + (N - K - 1) < 200" using assms(4,5,7,9) by linarith+
  have ok: "disk_ok K 0 (lfs (s\<lparr>lfs := ?f\<rparr>)) (empty_map K (N - K - 1))" using new_disk_ok(1) [OF size] by simp
  have "lfscreate (ram_drv rest) (run_close rfl (ram_drv rest)) disk lfiblks dsiz s = Ret (s\<lparr>lfs := ?f\<rparr>) OK"
    by (rule lfscreate_formats) (use assms in \<open>simp_all add: run_close_def ramclose_def\<close>)
  moreover have "lfsckfmt (ram_drv rest) disk (s\<lparr>lfs := ?f\<rparr>) = Ret (s\<lparr>lfs := ?f\<rparr>) (OK, int (7 * K), int (N - K - 1))"
    using lfsckfmt_counts [OF ok assms(1), of rest] by (simp add: empty_map_def del: upt_Suc)
  ultimately show ?thesis using ok by simp
qed

theorem lfscreate_lfsckfmt_witness:
  "\<exists>s'. lfscreate (ram_drv no_disk) (run_close (\<lambda>e s. Ret s OK) (ram_drv no_disk)) 5 7 5120 file0 = Ret s' OK
    \<and> lfsckfmt (ram_drv no_disk) 5 s' = Ret s' (OK, 7, 8)"
proof -
  have "dvclose (dentry_of 5) = Ramclose"
    by (simp add: dentry_of_def devtab_def devtab_devices_def dentry.make_def)
  from lfscreate_lfsckfmt [OF is_ram_RAM0 this, of file0 7 1 10 5120 no_disk "\<lambda>e s. Ret s OK"]
  show ?thesis by auto
qed

section \<open>Opening files\<close>

text \<open>
  C6. \<^verbatim>\<open>lfsopen\<close> keeps the file system well formed: the lists on disk and the directory stay those of
  disjoint files and free blocks, every open device has the blocks it caches, and every mutex is free
  again. The file is open at position 0: the one of that name, or a new empty one at the end of the
  directory; the other files keep their bytes and positions.
\<close>

theorem lfsopen_well_formed:
  assumes "idle_fs K n s G" "open_args name mode s mb d" "finds name s n r"
    and "if r = SYSERR then mb AND LF_MODE_O = 0 \<and> n < 20 else mb AND LF_MODE_N = 0 \<and> g_dev G (nat r) = None"
  shows "\<exists>s' n' G'. lfsopen (ram_drv rest) name mode s = Ret s' (lfdev (lfltab (lfs s) d)) \<and> fs_ok K n' s' G'
    \<and> afiles n' (lfs s') G' = (if r = SYSERR then afiles n (loaded (lfs s)) G @ [([], Some 0)]
        else (afiles n (loaded (lfs s)) G)[nat r := (fst (afiles n (loaded (lfs s)) G ! nat r), Some 0)])"
proof (cases "r = SYSERR")
  case True
  obtain f' nm where "lfsopen (ram_drv rest) name mode s = Ret (s\<lparr>lfs := f'\<rparr>) (lfdev (lfltab (lfs s) d))"
    "fs_ok K (Suc n) (s\<lparr>lfs := f'\<rparr>) (open_map n d (new_map n (ld_name (entry f' n)) G))"
    "afiles (Suc n) f' (open_map n d (new_map n (ld_name (entry f' n)) G)) = afiles n (loaded (lfs s)) G @ [([], Some 0)]"
    by (rule lfsopen_creates [OF assms(1,2), of rest]) (use assms(3,4) True in simp_all)
  then show ?thesis using True by (intro exI conjI) (assumption, assumption, simp)
next
  case False
  have "0 \<le> r" using lfs_find_range [OF assms(3) [unfolded finds_def]] False by linarith
  then obtain j where r: "r = int j" by (rule nonneg_int_cases)
  have f: "finds name s n (int j)" "mb AND LF_MODE_N = 0" "g_dev G j = None" using assms(3,4) False r by simp_all
  obtain f' where f': "lfsopen (ram_drv rest) name mode s = Ret (s\<lparr>lfs := f'\<rparr>) (lfdev (lfltab (lfs s) d))"
    "fs_ok K n (s\<lparr>lfs := f'\<rparr>) (open_map j d G)"
    "afiles n f' (open_map j d G) = (afiles n (loaded (lfs s)) G)[j := (bytes_of (loaded (lfs s)) G j, Some 0)]" "j < n"
    by (rule lfsopen_opens [OF assms(1,2) f])
  have "fst (afiles n (loaded (lfs s)) G ! j) = bytes_of (loaded (lfs s)) G j" using f'(4) by (simp add: afiles_def)
  then show ?thesis
    using False f'(3) r by (intro exI [of _ "s\<lparr>lfs := f'\<rparr>"] exI [of _ n] exI [of _ "open_map j d G"] conjI f'(1,2)) simp
qed

theorem lfsopen_well_formed_witness:
  "\<exists>s' n' G'. lfsopen (ram_drv no_disk) 100 200 formatted0 = Ret s' 18 \<and> fs_ok 1 n' s' G' \<and> afiles n' (lfs s') G' = [([], Some 0)]"
  using lfsopen_well_formed [OF formatted0_idle formatted0_open formatted0_finds, of no_disk] formatted0_dev
  by (simp add: afiles_def)

section \<open>Calls on open files\<close>

text \<open>
  C3. Any sequence of \<^verbatim>\<open>lflgetc\<close>, \<^verbatim>\<open>lflputc\<close>, \<^verbatim>\<open>lflseek\<close>, \<^verbatim>\<open>lflread\<close> and \<^verbatim>\<open>lflwrite\<close> on any of the
  open files returns, when the disk has blocks for the files it leads to, exactly what the same calls
  on byte sequences with positions return; it leaves in memory what those leave, the files have the
  bytes and positions of the abstract files, and the file system is well formed again. In between,
  index blocks and data blocks are allocated, cached, written back and walked from the first.
\<close>

theorem file_calls_refine:
  assumes "fs_ok K n s G" "calls_on n G cs"
    and "blocks_used (fst (snd (a_fcalls cs (kmem s) (afiles n (lfs s) G)))) \<le> blocks_used (afiles n (lfs s) G) + spare G"
  shows "\<exists>f' G'. run_fcalls (ram_drv rest) cs s
      = Ret (set_kmem (fst (a_fcalls cs (kmem s) (afiles n (lfs s) G))) (s\<lparr>lfs := f'\<rparr>)) (snd (snd (a_fcalls cs (kmem s) (afiles n (lfs s) G))))
    \<and> afiles n f' G' = fst (snd (a_fcalls cs (kmem s) (afiles n (lfs s) G))) \<and> fs_ok K n (s\<lparr>lfs := f'\<rparr>) G' \<and> g_dev G' = g_dev G"
proof -
  obtain m' A' rs where a: "a_fcalls cs (kmem s) (afiles n (lfs s) G) = (m', A', rs)" by (rule prod_cases3)
  obtain f' G' where "run_fcalls (ram_drv rest) cs s = Ret (set_kmem m' (s\<lparr>lfs := f'\<rparr>)) rs" "afiles n f' G' = A'"
    "fs_ok K n (s\<lparr>lfs := f'\<rparr>) G'" "g_dev G' = g_dev G"
    by (rule run_fcalls_refine [OF assms(1,2) a]) (use assms(3) a in simp)
  then show ?thesis unfolding a by auto
qed

theorem file_calls_refine_witness:
  "\<exists>s s'. run_fcalls (ram_drv no_disk) [(0, dentry_of 18, Fputc 65), (0, dentry_of 18, Fgetc), (0, dentry_of 18, Fseek 0), (0, dentry_of 18, Fgetc)] s
    = Ret s' [OK, EOF, OK, 65]"
proof -
  let ?cs = "[(0, dentry_of 18, Fputc 65), (0, dentry_of 18, Fgetc), (0, dentry_of 18, Fseek 0), (0, dentry_of 18, Fgetc)]"
  obtain f' nm where f': "fs_ok 1 (Suc 0) (formatted0\<lparr>lfs := f'\<rparr>) (open_map 0 0 (new_map 0 (ld_name (entry f' 0)) (empty_map 1 8)))"
    "afiles (Suc 0) f' (open_map 0 0 (new_map 0 (ld_name (entry f' 0)) (empty_map 1 8))) = afiles 0 (loaded (lfs formatted0)) (empty_map 1 8) @ [([], Some 0)]"
    by (rule lfsopen_creates [OF formatted0_idle formatted0_open formatted0_finds]) simp_all
  define G where "G = open_map 0 0 (new_map 0 (ld_name (entry f' 0)) (empty_map 1 8))"
  define s where "s = formatted0\<lparr>lfs := f'\<rparr>"
  have G: "fs_ok 1 (Suc 0) s G" "afiles (Suc 0) (lfs s) G = [([], Some 0)]" using f' by (simp_all add: G_def s_def afiles_def [where n = 0])
  have on: "calls_on (Suc 0) G ?cs" using lfile0 by (simp add: calls_on_def G_def open_map_def)
  have "spare G = 7" by (simp add: spare_def G_def open_map_def new_map_def empty_map_def del: upt_Suc)
  then show ?thesis
    using file_calls_refine [OF G(1) on, of no_disk] G(2) by (auto simp: a_put_def a_getc_def blocks_used_def nblocks_def)
qed

section \<open>Closed files\<close>

text \<open>
  C4. A file outlives the memory of the kernel. When a file is created, bytes are written to it and it
  is closed, then any later state whose disk holds the same sectors, with nothing of the file system
  in memory, opens the file by its name, wherever the name is stored, and reads back the same bytes
  into any buffer.
\<close>

theorem file_survives_restart:
  assumes "idle_fs K n s G" "\<forall>j<n. g_dev G j = None" "open_args name mode s mb d" "finds name s n SYSERR" "mb AND LF_MODE_O = 0" "n < 20"
    and "dvminor (dentry_of (lfdev (lfltab (lfs s) d))) = d"
    and "0 < k" "k \<le> 512 * length (g_fdb G)" "k \<le> 8192 * length (g_fib G)"
  shows "\<exists>s1 s2 s3. lfsopen (ram_drv rest) name mode s = Ret s1 (lfdev (lfltab (lfs s) d))
    \<and> lflwrite (ram_drv rest) (dentry_of (lfdev (lfltab (lfs s) d))) buff (int k) s1 = Ret s2 (int k)
    \<and> lflclose (ram_drv rest) (dentry_of (lfdev (lfltab (lfs s) d))) s2 = Ret s3 OK
    \<and> (\<forall>t name' mode' mb' d' buff'. restarted s3 t \<and> open_args name' mode' t mb' d' \<and> mb' AND LF_MODE_N = 0
         \<and> dvminor (dentry_of (lfdev (lfltab (lfs t) d'))) = d'
         \<and> (\<forall>i<LF_NAME_LEN. kmem t (name' + of_nat i) = kmem s (name + of_nat i)) \<longrightarrow>
       (\<exists>t1 t2. lfsopen (ram_drv rest) name' mode' t = Ret t1 (lfdev (lfltab (lfs t) d'))
         \<and> lflread (ram_drv rest) (dentry_of (lfdev (lfltab (lfs t) d'))) buff' (int k) t1 = Ret t2 (int k)
         \<and> mem_bytes (kmem t2) buff' k = mem_bytes (kmem s) buff k))"
proof -
  obtain s1 s2 s3 G3 where run: "lfsopen (ram_drv rest) name mode s = Ret s1 (lfdev (lfltab (lfs s) d))"
    "lflwrite (ram_drv rest) (dentry_of (lfdev (lfltab (lfs s) d))) buff (int k) s1 = Ret s2 (int k)"
    "lflclose (ram_drv rest) (dentry_of (lfdev (lfltab (lfs s) d))) s2 = Ret s3 OK" "fs_ok K (Suc n) s3 G3"
    "\<And>j. j < Suc n \<Longrightarrow> g_dev G3 j = None" "dir_of (sector (lfs s3) 0) = lf_dir (lfs s3)"
    "afiles (Suc n) (lfs s3) G3 = afiles n (loaded (lfs s)) G @ [(mem_bytes (kmem s) buff k, None)]"
    "\<And>i. i < n \<Longrightarrow> g_names G3 i = g_names G i" "name_eq (kmem s) name (g_names G3 n) = Some True"
    by (rule create_write_close [OF assms(1) _ assms(3-10), of rest buff]) (use assms(2) in simp_all)
  note okl = loaded_ok [OF assms(1)]
  have old: "name_eq (kmem s) name (g_names G3 i) = Some False" if i: "i < n" for i
    using lfs_find_none [OF assms(4) [unfolded finds_def], of i] okl run(8) [OF i] i by (simp add: fs_ok_def entry_def)
  have len: "length (g_names G3 i) = LF_NAME_LEN" if "i < Suc n" for i
  proof -
    have "g_names G3 i = ld_name (lfd_files (lf_dir (lfs s3)) ! i)" "i < length (lfd_files (lf_dir (lfs s3)))" "dir_shape (lf_dir (lfs s3))"
      using run(4) that assms(6) by (simp_all add: fs_ok_def layout_def dir_shape_def entry_def)
    then show ?thesis by (simp add: dir_shape_def)
  qed
  have again: "\<exists>t1 t2. lfsopen (ram_drv rest) name' mode' t = Ret t1 (lfdev (lfltab (lfs t) d'))
         \<and> lflread (ram_drv rest) (dentry_of (lfdev (lfltab (lfs t) d'))) buff' (int k) t1 = Ret t2 (int k)
         \<and> mem_bytes (kmem t2) buff' k = mem_bytes (kmem s) buff k"
    if t: "restarted s3 t \<and> open_args name' mode' t mb' d' \<and> mb' AND LF_MODE_N = 0
         \<and> dvminor (dentry_of (lfdev (lfltab (lfs t) d'))) = d'
         \<and> (\<forall>i<LF_NAME_LEN. kmem t (name' + of_nat i) = kmem s (name + of_nat i))" for t name' mode' mb' d' buff'
  proof -
    from t have nm: "name_eq (kmem t) name' (g_names G3 i) = name_eq (kmem s) name (g_names G3 i)" if "i < Suc n" for i
      using len [OF that] by (intro name_eq_cong) simp
    have a: "afiles (Suc n) (lfs s3) G3 ! n = (mem_bytes (kmem s) buff k, None)" "mem_bytes (kmem s) buff k \<noteq> []"
      using run(7) assms(8) length_mem_bytes [of "kmem s" buff k] by (auto simp: nth_append simp del: length_mem_bytes)
    have P: "restarted s3 t" "open_args name' mode' t mb' d'" "mb' AND LF_MODE_N = 0" "dvminor (dentry_of (lfdev (lfltab (lfs t) d'))) = d'"
      using t by simp_all
    have names: "\<forall>i<n. name_eq (kmem t) name' (g_names G3 i) = Some False" "name_eq (kmem t) name' (g_names G3 n) = Some True"
      using nm old run(9) by simp_all
    obtain t1 t2 where "lfsopen (ram_drv rest) name' mode' t = Ret t1 (lfdev (lfltab (lfs t) d'))"
      "lflread (ram_drv rest) (dentry_of (lfdev (lfltab (lfs t) d'))) buff' (int (length (mem_bytes (kmem s) buff k))) t1
        = Ret t2 (int (length (mem_bytes (kmem s) buff k)))"
      "mem_bytes (kmem t2) buff' (length (mem_bytes (kmem s) buff k)) = mem_bytes (kmem s) buff k"
      by (rule reopen_reads [OF run(4,5,6) P lessI names a])
    then show ?thesis by auto
  qed
  show ?thesis using run(1-3) again by blast
qed

theorem file_survives_restart_witness:
  "\<exists>s1 s2 s3 t t1 t2. lfsopen (ram_drv no_disk) 100 200 formatted0 = Ret s1 18 \<and> lflwrite (ram_drv no_disk) (dentry_of 18) 300 3 s1 = Ret s2 3
    \<and> lflclose (ram_drv no_disk) (dentry_of 18) s2 = Ret s3 OK \<and> restarted s3 t \<and> lfsopen (ram_drv no_disk) 100 200 t = Ret t1 18
    \<and> lflread (ram_drv no_disk) (dentry_of 18) 400 3 t1 = Ret t2 3 \<and> mem_bytes (kmem t2) 400 3 = [10, 20, 30]"
proof -
  have c: "\<forall>j<0. g_dev (empty_map 1 8) j = None" "(3 :: int) AND LF_MODE_O = 0" "(0 :: nat) < 20" "dvminor (dentry_of (lfdev (lfltab (lfs formatted0) 0))) = 0"
    "(0 :: nat) < 3" "3 \<le> 512 * length (g_fdb (empty_map 1 8))" "3 \<le> 8192 * length (g_fib (empty_map 1 8))"
    using formatted0_dev lfile0 by (simp_all add: empty_map_def del: upt_Suc)
  obtain s1 s2 s3 where s: "lfsopen (ram_drv no_disk) 100 200 formatted0 = Ret s1 18" "lflwrite (ram_drv no_disk) (dentry_of 18) 300 (int 3) s1 = Ret s2 (int 3)"
    "lflclose (ram_drv no_disk) (dentry_of 18) s2 = Ret s3 OK"
    and again: "restarted s3 t \<and> open_args name' mode' t mb' d' \<and> mb' AND LF_MODE_N = 0 \<and> dvminor (dentry_of (lfdev (lfltab (lfs t) d'))) = d'
      \<and> (\<forall>i<LF_NAME_LEN. kmem t (name' + of_nat i) = kmem formatted0 (100 + of_nat i)) \<longrightarrow>
       (\<exists>t1 t2. lfsopen (ram_drv no_disk) name' mode' t = Ret t1 (lfdev (lfltab (lfs t) d'))
         \<and> lflread (ram_drv no_disk) (dentry_of (lfdev (lfltab (lfs t) d'))) buff' (int 3) t1 = Ret t2 (int 3)
         \<and> mem_bytes (kmem t2) buff' 3 = mem_bytes (kmem formatted0) 300 3)" for t name' mode' mb' d' buff'
    using file_survives_restart [OF formatted0_idle c(1) formatted0_open formatted0_finds c(2-7), of no_disk 300] unfolding formatted0_dev by blast
  define f where "f = (lfs s3)\<lparr>lf_dskdev := 5, lf_mutex := 0, lf_dirpresent := False, lfltab := lfltab lf_fresh\<rparr>"
  define t where "t = file0\<lparr>lfs := f\<rparr>"
  have f: "lfltab f = lfltab lf_fresh" "lf_mutex f = 0" "sector f b = sector (lfs s3) b" for b by (simp_all add: f_def)
  have "restarted s3 t" using locks0 [of 0] is_ram_RAM0 by (simp add: restarted_def t_def f_def)
  moreover have "open_args 100 200 t 3 0" unfolding t_def by (rule open_args0 [OF f(1,2)])
  moreover have "lfdev (lfltab (lfs t) 0) = 18" using f(1) by (simp add: t_def)
  moreover have "mem_bytes lfmem 300 3 = [10, 20, 30]" by (simp add: mem_bytes_def lfmem_def upt_rec)
  ultimately show ?thesis using s again [of t 100 200 3 0 400] lfile0 by (auto simp: t_def)
qed

text \<open>
  C7. A file that is created and closed without a byte written is not on the disk, when the directory in
  memory has no other change waiting to be written (\<open>lf_dirdirty\<close> is clear): \<^verbatim>\<open>lfsopen\<close> adds
  it to the directory in memory and does not mark the directory as changed, so \<^verbatim>\<open>lflclose\<close> writes
  nothing and every sector is what it was. (If another open file has grown since the directory was
  written, \<^verbatim>\<open>lflclose\<close> writes the directory, and the new entry with it.)
\<close>

theorem new_file_lost:
  assumes "idle_fs K n s G" "open_args name mode s mb d" "finds name s n SYSERR" "mb AND LF_MODE_O = 0" "n < 20"
    and "\<not> lf_dirdirty (lfs s)" "dvminor (dentry_of (lfdev (lfltab (lfs s) d))) = d"
  shows "\<exists>s1 s2. lfsopen (ram_drv rest) name mode s = Ret s1 (lfdev (lfltab (lfs s) d))
    \<and> lflclose (ram_drv rest) (dentry_of (lfdev (lfltab (lfs s) d))) s1 = Ret s2 OK
    \<and> unat (lfd_nfiles (lf_dir (lfs s2))) = Suc n \<and> (\<forall>b. sector (lfs s2) b = sector (lfs s) b)"
proof -
  let ?e = "dentry_of (lfdev (lfltab (lfs s) d))"
  obtain f1 nm where f1: "lfsopen (ram_drv rest) name mode s = Ret (s\<lparr>lfs := f1\<rparr>) (lfdev (lfltab (lfs s) d))"
    "fs_ok K (Suc n) (s\<lparr>lfs := f1\<rparr>) (open_map n d (new_map n (ld_name (entry f1 n)) G))"
    "afiles (Suc n) f1 (open_map n d (new_map n (ld_name (entry f1 n)) G)) = afiles n (loaded (lfs s)) G @ [([], Some 0)]"
    "\<forall>b. sector f1 b = sector (lfs s) b" "lf_dirdirty f1 = lf_dirdirty (lfs s)"
    "lfltab f1 d = opened (int n) (mb AND LF_MODE_RW) nm (lfltab (lfs s) d)"
    by (rule lfsopen_creates [OF assms(1-5), of rest])
  define s1 where "s1 = s\<lparr>lfs := f1\<rparr>"
  define G1 where "G1 = open_map n d (new_map n (ld_name (entry f1 n)) G)"
  have w: "fs_ok K (Suc n) s1 G1" "g_dev G1 n = Some (dvminor ?e)" "afiles (Suc n) (lfs s1) G1 ! n = ([], Some 0)"
    using f1(2,3) assms(7) by (simp_all add: s1_def G1_def open_map_def nth_append)
  obtain f2 where f2: "lflclose (ram_drv rest) ?e s1 = Ret (s1\<lparr>lfs := f2\<rparr>) OK" "fs_ok K (Suc n) (s1\<lparr>lfs := f2\<rparr>) (close_map n G1)"
    "\<not> (lf_dirdirty (lfs s1) \<or> lfdbdirty (lfltab (lfs s1) (dvminor ?e)) \<or> lfibdirty (lfltab (lfs s1) (dvminor ?e))) \<longrightarrow> (\<forall>b. sector f2 b = sector (lfs s1) b)"
    by (rule lflclose_refines [OF w(1) lessI w(2,3), of rest])
  have "\<forall>b. sector f2 b = sector (lfs s) b" using f2(3) f1(4-6) assms(6,7) by (simp add: s1_def opened_def)
  moreover have "unat (lfd_nfiles (lf_dir f2)) = Suc n" using f2(2) by (simp add: fs_ok_def)
  ultimately show ?thesis using f1(1) f2(1) by (intro exI [of _ s1] exI [of _ "s1\<lparr>lfs := f2\<rparr>"]) (simp add: s1_def)
qed

theorem new_file_lost_witness:
  "\<exists>s1 s2. lfsopen (ram_drv no_disk) 100 200 formatted0 = Ret s1 18 \<and> lflclose (ram_drv no_disk) (dentry_of 18) s1 = Ret s2 OK
    \<and> unat (lfd_nfiles (lf_dir (lfs s2))) = 1 \<and> (\<forall>b. sector (lfs s2) b = sector (lfs formatted0) b)"
  using new_file_lost [OF formatted0_idle formatted0_open formatted0_finds, of no_disk] formatted0_dev lfile0 formatted0_mem(4)
  by simp

end
