(* ===== verification/Netwire.thy ===== *)
theory Netwire
  imports Netpkt
begin

text \<open>
  Packets on the wire: reading a field after others were written, and the checksums. A header that
  was given a checksum is accepted; for an ICMP message that holds unless the sum of its words
  carries twice.
\<close>

section \<open>Reading fields back\<close>

lemma find_SomeD: "List.find P xs = Some x \<Longrightarrow> x \<in> set xs \<and> P x"
  by (auto simp: find_Some_iff)

text \<open>Fields of \<open>n\<close> and \<open>k\<close> bytes at the offsets \<open>a\<close> and \<open>b\<close> from one address do not overlap.\<close>

definition apart :: "u32 \<Rightarrow> nat \<Rightarrow> u32 \<Rightarrow> nat \<Rightarrow> bool" where
  "apart a n b k \<longleftrightarrow> unat a + n < 4294967296 \<and> unat b + k < 4294967296 \<and> (unat a + n \<le> unat b \<or> unat b + k \<le> unat a)"

lemma unat_off: "unat a + i < 4294967296 \<Longrightarrow> unat (a + of_nat i :: u32) = unat a + i"
  by (simp add: unat_word_ariths unat_of_nat)

lemma apart_disj:
  assumes "apart a n b k"
  shows "disj (p + a) n (p + b) k"
  unfolding disj_def
proof (intro allI impI notI)
  fix i j assume ij: "i < n" "j < k" "p + a + of_nat i = p + b + of_nat j"
  then have "unat (a + of_nat i) = unat (b + of_nat j)" by (simp add: add.assoc)
  then show False using assms ij(1,2) unat_off [of a i] unat_off [of b j] by (auto simp: apart_def)
qed

lemma field_other:
  assumes "apart a (length (cell_bytes c)) b k"
  shows "bytes_at (set_field (p + a) c m) (p + b) k = bytes_at m (p + b) k"
  unfolding set_field_def by (rule put_frame [OF apart_disj [OF assms]])

lemma bytes_at_1: "bytes_at m a (Suc 0) = [m a]"
  by (simp add: bytes_at_Suc)

lemma rd16_bytes: "rd16 m a = of_le16 (bytes_at m a 2)"
  by (simp add: rd16_def bytes_at_Suc numeral_2_eq_2)

lemma rd32_bytes: "rd32 m a = of_le32 (bytes_at m a 4)"
  by (simp add: rd32_def bytes_at_Suc numeral_eq_Suc add.assoc)

lemma rd_other [simp]:
  "apart a (length (cell_bytes c)) b 1 \<Longrightarrow> set_field (p + a) c m (p + b) = m (p + b)"
  "apart a (length (cell_bytes c)) b 2 \<Longrightarrow> rd16 (set_field (p + a) c m) (p + b) = rd16 m (p + b)"
  "apart a (length (cell_bytes c)) b 4 \<Longrightarrow> rd32 (set_field (p + a) c m) (p + b) = rd32 m (p + b)"
  using field_other [of a c b 1 p m] by (simp_all add: rd16_bytes rd32_bytes field_other bytes_at_1)

lemma set_field_bytes: "length (cell_bytes c) \<le> 4294967296 \<Longrightarrow> bytes_at (set_field a c m) a (length (cell_bytes c)) = cell_bytes c"
  by (simp add: set_field_def put_bytes_at)

lemma rd_same [simp]:
  "set_field a (B8 x) m a = x" "rd16 (set_field a (B16 h) m) a = h" "rd32 (set_field a (B32 w) m) a = w"
proof -
  show "set_field a (B8 x) m a = x" by (simp add: set_field_def)
  show "rd16 (set_field a (B16 h) m) a = h"
    using set_field_bytes [of "B16 h" a m] of_le16_le16 [of h "[]"] by (simp add: rd16_bytes)
  show "rd32 (set_field a (B32 w) m) a = w"
    using set_field_bytes [of "B32 w" a m] of_le32_le32 [of w "[]"] by (simp add: rd32_bytes)
qed

lemma apart_num [simp]:
  "apart (numeral a) n (numeral b) k \<longleftrightarrow> unat (numeral a :: u32) + n < 4294967296 \<and> unat (numeral b :: u32) + k < 4294967296 \<and>
     (unat (numeral a :: u32) + n \<le> unat (numeral b :: u32) \<or> unat (numeral b :: u32) + k \<le> unat (numeral a :: u32))"
  by (simp add: apart_def)

text \<open>Conversions are their own inverses and commute with the rest of memory.\<close>

lemma swap_bytes: "htons x = of_le16 [ucast (drop_bit 8 x), ucast x]" "ntohs x = of_le16 [ucast (drop_bit 8 x), ucast x]"
proof -
  have m: "(0xff :: u16) = mask 8" by (simp add: mask_eq_exp_minus_1)
  show "htons x = of_le16 [ucast (drop_bit 8 x), ucast x]"
    unfolding htons_def m by (rule bit_word_eqI) (auto simp: bit_simps possible_bit_def)
  then show "ntohs x = of_le16 [ucast (drop_bit 8 x), ucast x]" by (simp add: ntohs_def htons_def)
qed

lemma swap_same [simp]: "ntohs (htons x) = x" "htons (htons x) = x"
proof -
  show "htons (htons x) = x"
    unfolding swap_bytes by (rule bit_word_eqI) (auto simp: bit_simps possible_bit_def)
  then show "ntohs (htons x) = x" by (simp add: ntohs_def htons_def)
qed

lemma htonl_masks: "htonl x = (drop_bit 24 x AND mask 8) OR (drop_bit 8 x AND push_bit 8 (mask 8)) OR
     (push_bit 8 x AND push_bit 16 (mask 8)) OR (push_bit 24 x AND push_bit 24 (mask 8))"
  by (simp add: htonl_def mask_eq_exp_minus_1)

lemma u32_eqI:
  assumes "\<And>k. k < 8 \<Longrightarrow> bit (v :: u32) k = bit w k" "\<And>k. k < 8 \<Longrightarrow> bit v (8 + k) = bit w (8 + k)"
    "\<And>k. k < 8 \<Longrightarrow> bit v (16 + k) = bit w (16 + k)" "\<And>k. k < 8 \<Longrightarrow> bit v (24 + k) = bit w (24 + k)"
  shows "v = w"
proof (rule bit_word_eqI)
  fix n assume "n < LENGTH(32)"
  then have "n = n mod 8 \<or> n = 8 + n mod 8 \<or> n = 16 + n mod 8 \<or> n = 24 + n mod 8" "n mod 8 < 8" by simp_all presburger
  then show "bit v n = bit w n" using assms by metis
qed

lemma bit_htonl: "k < 8 \<Longrightarrow> bit (htonl x) k = bit x (24 + k)" "k < 8 \<Longrightarrow> bit (htonl x) (8 + k) = bit x (16 + k)"
  "k < 8 \<Longrightarrow> bit (htonl x) (16 + k) = bit x (8 + k)" "k < 8 \<Longrightarrow> bit (htonl x) (24 + k) = bit x k"
  by (simp_all add: htonl_masks bit_simps)

lemma swap4_same [simp]: "htonl (htonl x) = x" "ntohl (htonl x) = x"
proof -
  show "htonl (htonl x) = x" by (rule u32_eqI) (simp_all add: bit_htonl)
  then show "ntohl (htonl x) = x" by (simp add: ntohl_def htonl_def)
qed

section \<open>The value of a checksum\<close>

text \<open>A 16-bit word as the network reads it, and the sum of \<open>k\<close> of them.\<close>

definition be16 :: "memory \<Rightarrow> u32 \<Rightarrow> nat" where
  "be16 m a = unat (htons (rd16 m a))"

definition word_sum :: "nat \<Rightarrow> memory \<Rightarrow> u32 \<Rightarrow> nat" where
  "word_sum k m a = (\<Sum>i<k. be16 m (a + 2 * of_nat i))"

lemma unat_u16_lt: "unat (w :: u16) < 65536"
  using unsigned_less [of w] by simp

lemma unat_u8_lt: "unat (b :: u8) < 256"
  using unsigned_less [of b] by simp

lemma be16_le: "be16 m a \<le> 65535"
  using unat_u16_lt [of "htons (rd16 m a)"] by (simp add: be16_def)

lemma word_sum_le: "word_sum k m a \<le> k * 65535"
  unfolding word_sum_def using sum_bounded_above [of "{..<k}" "\<lambda>i. be16 m (a + 2 * of_nat i)" 65535] be16_le by simp

lemma word_sum_Suc: "word_sum (Suc k) m a = be16 m a + word_sum k m (a + 2)"
  by (simp add: word_sum_def sum.lessThan_Suc_shift algebra_simps del: sum.lessThan_Suc)

lemma cksum_loop_sum: "cksum_loop k m a c = c + of_nat (word_sum k m a)"
proof (induction k arbitrary: a c)
  case (Suc k)
  have "ucast (htons (rd16 m a)) = (of_nat (be16 m a) :: u32)" by (simp add: be16_def)
  then show ?case using Suc by (simp add: word_sum_Suc)
qed (simp add: word_sum_def)

text \<open>The carry is added once.\<close>

definition fold1 :: "nat \<Rightarrow> nat" where
  "fold1 n = (n + n div 65536) mod 65536"

lemma low16_not: "(0xffff AND NOT (w :: u32)) = of_nat (65535 - unat w mod 65536)"
proof -
  have "uint (0xffff AND NOT w) = uint (take_bit 16 (NOT w))"
    by (simp add: take_bit_eq_mask mask_eq_exp_minus_1 and.commute)
  also have "\<dots> = take_bit 16 (NOT (uint w))"
    by (simp add: unsigned_take_bit_eq unsigned_not_eq)
  also have "\<dots> = 65535 - uint w mod 65536"
    by (simp only: take_bit_not_eq_mask_diff) (simp add: mask_eq_exp_minus_1 take_bit_eq_mod)
  finally have "uint (0xffff AND NOT w) = 65535 - uint w mod 65536" .
  moreover have "uint (of_nat k :: u32) = int k" if "k < 4294967296" for k
    using that by (simp add: unsigned_of_nat take_bit_nat_eq_self)
  from this [of "65535 - unat w mod 65536"]
  have "uint (of_nat (65535 - unat w mod 65536) :: u32) = 65535 - uint w mod 65536"
    by (simp only: of_nat_diff [OF less_Suc_eq_le [THEN iffD1]]) (simp add: of_nat_diff zmod_int less_imp_le [OF mod_less_divisor])
  ultimately show ?thesis by (simp add: word_uint_eq_iff)
qed
lemma fold1_word:
  assumes "n + n div 65536 < 4294967296"
  shows "(0xffff AND NOT (of_nat n + drop_bit 16 (of_nat n)) :: u32) = of_nat (65535 - fold1 n)"
proof -
  have "unat (of_nat n + drop_bit 16 (of_nat n) :: u32) = n + n div 65536"
    using assms by (simp add: unat_word_ariths unat_of_nat unat_drop_bit_eq drop_bit_eq_div)
  then show ?thesis by (simp only: low16_not fold1_def)
qed

lemma fold1_less: "fold1 n < 65536"
  by (simp add: fold1_def)

text \<open>The checksum that makes up for a sum, as \<^verbatim>\<open>ipcksum\<close> gives it: \<open>0\<close> for all ones.\<close>

definition cksum16 :: "nat \<Rightarrow> nat" where
  "cksum16 n = (if fold1 n = 0 then 0 else 65535 - fold1 n)"

lemma low16_of_nat: "k < 65536 \<Longrightarrow> (0xffff AND of_nat k :: u32) = of_nat k"
proof -
  have m: "(0xffff :: u32) = mask 16" by (simp add: mask_eq_exp_minus_1)
  show "k < 65536 \<Longrightarrow> ?thesis"
    unfolding m and.commute [of "mask 16"] take_bit_eq_mask [symmetric]
    by (simp add: word_unat_eq_iff unsigned_take_bit_eq unsigned_of_nat take_bit_nat_eq_self)
qed

lemma ucast_of_nat16: "k < 65536 \<Longrightarrow> ucast (of_nat k :: u32) = (of_nat k :: u16)"
  by (simp add: word_unat_eq_iff unsigned_ucast_eq unsigned_of_nat take_bit_nat_eq_self)

lemma ipcksum_val: "ipcksum m p = of_nat (cksum16 (word_sum 10 m (p + net_ipvh)))"
proof -
  let ?n = "word_sum 10 m (p + net_ipvh)"
  have "?n \<le> 655350" using word_sum_le [of 10 m "p + net_ipvh"] by simp
  then have c: "(0xffff AND NOT (of_nat ?n + drop_bit 16 (of_nat ?n)) :: u32) = of_nat (65535 - fold1 ?n)"
    by (intro fold1_word) linarith
  have f: "65535 - fold1 ?n < 65536" by simp
  have z: "(of_nat (65535 - fold1 ?n) :: u32) = 0xffff \<longleftrightarrow> fold1 ?n = 0"
  proof -
    have "(of_nat k :: u32) = 0xffff \<longleftrightarrow> k = 65535" if "k < 65536" for k
      using that by (simp add: word_unat_eq_iff unsigned_of_nat take_bit_nat_eq_self)
    then show ?thesis using f fold1_less [of ?n] by (simp only:) linarith
  qed
  show ?thesis
    using ucast_of_nat16 [OF f] low16_of_nat [OF f]
    by (simp add: ipcksum_def cksum_loop_sum Let_def c z cksum16_def)
qed

text \<open>The words that \<^verbatim>\<open>icmp_cksum\<close> adds: an odd last byte counts as the higher half of a word.\<close>

definition icmp_sum :: "memory \<Rightarrow> u32 \<Rightarrow> nat \<Rightarrow> nat" where
  "icmp_sum m a n = word_sum (n div 2) m a + (if odd n then 256 * unat (m (a + of_nat (n - 1))) else 0)"

lemma icmp_sum_le: "icmp_sum m a n \<le> (n div 2 + 1) * 65535"
  using word_sum_le [of "n div 2" m a] unat_u8_lt [of "m (a + of_nat (n - 1))"] by (auto simp: icmp_sum_def)

lemma odd_byte: "(0xFFFF AND push_bit 8 (ucast b) :: u32) = of_nat (256 * unat (b :: u8))"
proof -
  have m: "(0xffff :: u32) = mask 16" by (simp add: mask_eq_exp_minus_1)
  have "(0xFFFF AND push_bit 8 (ucast b) :: u32) = push_bit 8 (ucast b)"
    unfolding m by (rule bit_word_eqI) (auto simp: bit_simps possible_bit_def dest: bit_imp_le_length)
  then show ?thesis by (simp add: push_bit_eq_mult)
qed

lemma icmp_cksum_val:
  assumes "n < 65536"
  shows "icmp_cksum m a (int n) = of_nat (65535 - fold1 (icmp_sum m a n))"
proof -
  have d: "nat (drop_bit 1 (int n)) = n div 2" by (simp add: drop_bit_eq_div nat_div_distrib)
  have o: "(int n AND 1 \<noteq> 0) = odd n" by (simp add: and_one_eq odd_iff_mod_2_eq_one [symmetric])
  have b: "odd n \<Longrightarrow> (2 * of_nat (n div 2) :: u32) = of_nat (n - 1)"
    by (metis odd_two_times_div_two_nat of_nat_mult of_nat_numeral)
  have "icmp_sum m a n \<le> 32768 * 65535"
    by (rule le_trans [OF icmp_sum_le]) (rule mult_le_mono1, use assms in simp)
  then have s: "icmp_sum m a n + icmp_sum m a n div 65536 < 4294967296"
    using div_le_dividend [of "icmp_sum m a n" 65536] by linarith
  have f: "65535 - fold1 (icmp_sum m a n) < 65536" by simp
  have c: "(if int n AND 1 \<noteq> 0 then cksum_loop (n div 2) m a 0 + (0xffff AND push_bit 8 (ucast (m (a + 2 * of_nat (n div 2)))))
      else cksum_loop (n div 2) m a 0) = of_nat (icmp_sum m a n)"
    by (simp add: o cksum_loop_sum odd_byte b icmp_sum_def)
  show ?thesis
    unfolding icmp_cksum_def Let_def d c fold1_word [OF s] low16_of_nat [OF f] ucast_of_nat16 [OF f] ..
qed

section \<open>Checksums are accepted\<close>

lemma fold1_split: "n = 65536 * h + l \<Longrightarrow> l < 65536 \<Longrightarrow> h < 65536 \<Longrightarrow>
    fold1 n = (if l + h < 65536 then l + h else l + h - 65536)"
proof -
  assume n: "n = 65536 * h + l" "l < 65536" "h < 65536"
  then have "n div 65536 = h" by simp
  moreover have "(65536 * h + (l + h)) mod 65536 = (l + h) mod 65536" by (rule mod_mult_self4)
  moreover have "(l + h) mod 65536 = (if l + h < 65536 then l + h else l + h - 65536)"
    using n(2,3) by (simp add: le_mod_geq)
  ultimately show ?thesis using n(1) by (simp add: fold1_def add.assoc)
qed

lemma cksum16_accepted:
  assumes "R < 4294901760"
  shows "cksum16 (R + cksum16 R) = 0"
proof -
  define h l where hl: "h = R div 65536" "l = R mod 65536"
  have R: "R = 65536 * h + l" "l < 65536" "h < 65535" using assms unfolding hl by simp_all
  note f = fold1_split [OF R(1,2)]
  show ?thesis
  proof (cases "fold1 R = 0")
    case False
    have "fold1 (R + (65535 - fold1 R)) = 65535 \<or> fold1 (R + (65535 - fold1 R)) = 0"
    proof (cases "l + h < 65536")
      case True
      have "R + (65535 - fold1 R) = 65536 * h + (65535 - h)" using f R True by simp
      then show ?thesis using fold1_split [of _ h "65535 - h"] R(3) by simp
    next
      case carry: False
      have "R + (65535 - fold1 R) = 65536 * (h + 1) + (65535 - h)" using f R carry by simp
      then show ?thesis using fold1_split [of _ "h + 1" "65535 - h"] R(3) by simp
    qed
    then show ?thesis using False by (auto simp: cksum16_def)
  qed (simp add: cksum16_def)
qed

text \<open>A sum that carries once more when its carry is added.\<close>

definition carries_twice :: "nat \<Rightarrow> bool" where
  "carries_twice n \<longleftrightarrow> n mod 65536 + n div 65536 \<ge> 65536"

lemma fold1_accepted:
  assumes "R < 4294901760"
  shows "fold1 (R + (65535 - fold1 R)) = 65535 \<longleftrightarrow> \<not> carries_twice R"
proof -
  define h l where hl: "h = R div 65536" "l = R mod 65536"
  have R: "R = 65536 * h + l" "l < 65536" "h < 65535" using assms unfolding hl by simp_all
  note f = fold1_split [OF R(1,2)]
  show ?thesis
  proof (cases "l + h < 65536")
    case True
    have "R + (65535 - fold1 R) = 65536 * h + (65535 - h)" using f R True by simp
    then show ?thesis using fold1_split [of _ h "65535 - h"] R(3) True by (simp add: carries_twice_def hl)
  next
    case False
    have "R + (65535 - fold1 R) = 65536 * (h + 1) + (65535 - h)" using f R False by simp
    then show ?thesis using fold1_split [of _ "h + 1" "65535 - h"] R(3) False by (simp add: carries_twice_def hl)
  qed
qed

lemma word_addr: "a + 2 * of_nat i = a + of_nat (2 * i)" for a :: u32
  by simp

lemma be16_other:
  assumes "i \<noteq> j" "i < 32768" "j < 32768"
  shows "be16 (set_field (a + 2 * of_nat j) (B16 h) m) (a + 2 * of_nat i) = be16 m (a + 2 * of_nat i)"
proof -
  have "apart (of_nat (2 * j)) 2 (of_nat (2 * i)) 2"
    using assms by (simp add: apart_def unsigned_of_nat take_bit_nat_eq_self del: of_nat_mult) arith
  then show ?thesis unfolding be16_def word_addr by (subst rd_other) simp_all
qed

lemma word_sum_store:
  assumes "j < k" "k \<le> 32768" "rd16 m (a + 2 * of_nat j) = 0"
  shows "word_sum k (set_field (a + 2 * of_nat j) (B16 (htons v)) m) a = word_sum k m a + unat v"
proof -
  let ?m = "set_field (a + 2 * of_nat j) (B16 (htons v)) m"
  have z: "be16 m (a + 2 * of_nat j) = 0" "be16 ?m (a + 2 * of_nat j) = unat v"
    using assms(3) by (simp_all add: be16_def) (simp add: htons_def)
  have o: "i \<in> {..<k} - {j} \<Longrightarrow> be16 ?m (a + 2 * of_nat i) = be16 m (a + 2 * of_nat i)" for i
    using assms(1,2) by (intro be16_other) auto
  have "word_sum k ?m a = be16 ?m (a + 2 * of_nat j) + (\<Sum>i\<in>{..<k} - {j}. be16 ?m (a + 2 * of_nat i))"
    unfolding word_sum_def using assms(1) by (intro sum.remove) simp_all
  moreover have "word_sum k m a = be16 m (a + 2 * of_nat j) + (\<Sum>i\<in>{..<k} - {j}. be16 m (a + 2 * of_nat i))"
    unfolding word_sum_def using assms(1) by (intro sum.remove) simp_all
  moreover have "(\<Sum>i\<in>{..<k} - {j}. be16 ?m (a + 2 * of_nat i)) = (\<Sum>i\<in>{..<k} - {j}. be16 m (a + 2 * of_nat i))"
    by (rule sum.cong [OF refl o])
  ultimately show ?thesis using z by simp
qed

lemma word_sum_cong:
  "bytes_at m a (2 * k) = bytes_at m' a' (2 * k) \<Longrightarrow> word_sum k m a = word_sum k m' a'"
proof (induction k arbitrary: a a')
  case (Suc k)
  have "m a = m' a'" "m (a + 1) = m' (a' + 1)" "bytes_at m (a + 2) (2 * k) = bytes_at m' (a' + 2) (2 * k)"
    using Suc.prems by (simp_all add: bytes_at_Suc add.assoc)
  then show ?case using Suc.IH [of "a + 2" "a' + 2"] by (simp add: word_sum_Suc be16_def rd16_def)
qed (simp add: word_sum_def)

lemma bytes_at_slice:
  assumes "bytes_at mr q n = bytes_at m p n" "a + k \<le> n"
  shows "bytes_at mr (q + of_nat a) k = bytes_at m (p + of_nat a) k"
proof (rule nth_equalityI)
  fix i assume "i < length (bytes_at mr (q + of_nat a) k)"
  then have "i < k" "mr (q + of_nat (a + i)) = m (p + of_nat (a + i))"
    using assms(2) arg_cong [OF assms(1), of "\<lambda>xs. xs ! (a + i)"] by (simp_all add: bytes_at_def)
  then show "bytes_at mr (q + of_nat a) k ! i = bytes_at m (p + of_nat a) k ! i"
    by (simp add: bytes_at_def add.assoc)
qed simp

lemma rd_slice:
  assumes "bytes_at mr q n = bytes_at m p n"
  shows "a + 1 \<le> n \<Longrightarrow> mr (q + of_nat a) = m (p + of_nat a)"
    "a + 2 \<le> n \<Longrightarrow> rd16 mr (q + of_nat a) = rd16 m (p + of_nat a)"
    "a + 4 \<le> n \<Longrightarrow> rd32 mr (q + of_nat a) = rd32 m (p + of_nat a)"
  using bytes_at_slice [OF assms, of a 1] bytes_at_slice [OF assms, of a 2] bytes_at_slice [OF assms, of a 4]
  by (simp_all add: rd16_bytes rd32_bytes bytes_at_1)

lemma icmp_sum_cong:
  assumes "bytes_at m a n = bytes_at m' a' n"
  shows "icmp_sum m a n = icmp_sum m' a' n"
proof -
  have "word_sum (n div 2) m a = word_sum (n div 2) m' a'"
    using bytes_at_slice [OF assms, of 0 "2 * (n div 2)"] by (intro word_sum_cong) simp
  moreover have "m (a + of_nat (n - 1)) = m' (a' + of_nat (n - 1))" if "odd n"
    using rd_slice(1) [OF assms, of "n - 1"] odd_pos [OF that] by simp
  ultimately show ?thesis by (simp add: icmp_sum_def)
qed

lemma icmp_sum_store:
  assumes "4 \<le> n" "n \<le> 65536" "rd16 m (a + 2) = 0"
  shows "icmp_sum (set_field (a + 2) (B16 (htons v)) m) a n = icmp_sum m a n + unat v"
proof -
  have "set_field (a + 2) (B16 (htons v)) m (a + of_nat (n - 1)) = m (a + of_nat (n - 1))" if "odd n"
  proof -
    have "n \<noteq> 4" using that by auto
    moreover have "unat (of_nat (n - 1) :: u32) = n - 1"
      using assms(2) by (simp add: unsigned_of_nat take_bit_nat_eq_self del: of_nat_diff)
    ultimately have "apart 2 2 (of_nat (n - 1)) 1" using assms(1,2) by (simp add: apart_def del: of_nat_diff)
    then show ?thesis by (intro rd_other) simp
  qed
  moreover have "word_sum (n div 2) (set_field (a + 2) (B16 (htons v)) m) a = word_sum (n div 2) m a + unat v"
    using word_sum_store [of 1 "n div 2" m a v] assms by simp
  ultimately show ?thesis by (simp add: icmp_sum_def)
qed

end
