(* ===== verification/Netspec.thy ===== *)
theory Netspec
  imports Ipstack Netwire
begin

text \<open>What \<^verbatim>\<open>ip_out\<close> puts on the wire and \<^verbatim>\<open>ip_in\<close> accepts.\<close>

section \<open>Packets that arrive somewhere else\<close>

lemmas packet_defs = ip_out_pack_def ip_out_proto_def ip_hton_def ip_ntoh_def udp_hton_def udp_ntoh_def icmp_hton_def
  icmp_ntoh_def eth_hton_def eth_ntoh_def conv16_def conv32_def Let_def

lemma ones16 [simp]: "0xffff AND w = (w :: u16)"
proof -
  have "(0xffff :: u16) = - 1" by simp
  then show ?thesis by (simp only: and.left_neutral)
qed

lemma unat_cksum16: "unat (of_nat (cksum16 n) :: u16) = cksum16 n" "unat (of_nat (65535 - fold1 n) :: u16) = 65535 - fold1 n"
  by (simp_all add: unsigned_of_nat take_bit_nat_eq_self cksum16_def del: of_nat_diff)

lemma of_nat16_0: "f < 65536 \<Longrightarrow> (of_nat (65535 - f) :: u16) = 0 \<longleftrightarrow> f = 65535"
  by (auto simp: word_unat_eq_iff unsigned_of_nat take_bit_nat_eq_self simp del: of_nat_diff)

lemma ip_header_accepted:
  assumes "bytes_at mr q n = bytes_at (ip_out_pack p m) p n" "34 \<le> n"
  shows "ipcksum mr q = 0"
proof -
  define m2 where "m2 = set_field (p + net_ipcksum) (B16 0) (ip_hton p (ip_out_proto p m))"
  define m3 where "m3 = set_field (p + net_ipcksum) (B16 (htons (ipcksum m2 p))) m2"
  have pack: "ip_out_pack p m = eth_hton p m3" by (simp add: ip_out_pack_def Let_def m2_def m3_def)
  have "bytes_at mr (q + 14) 20 = bytes_at (eth_hton p m3) (p + 14) 20"
    using bytes_at_slice [OF assms(1), of 14 20] assms(2) by (simp add: pack)
  then have b: "bytes_at mr (q + 14) 20 = bytes_at m3 (p + 14) 20"
    by (simp add: eth_hton_def conv16_def field_other)
  have R: "word_sum 10 m2 (p + 14) < 4294901760" using word_sum_le [of 10 m2 "p + 14"] by simp
  have "word_sum 10 m3 (p + 14) = word_sum 10 m2 (p + 14) + cksum16 (word_sum 10 m2 (p + 14))"
    using word_sum_store [of 5 10 m2 "p + 14" "ipcksum m2 p"]
    by (simp add: m3_def m2_def add.assoc) (simp add: ipcksum_val unat_cksum16 flip: m2_def)
  then show ?thesis
    using word_sum_cong [of mr "q + 14" 10 m3 "p + 14"] b cksum16_accepted [OF R] by (simp add: ipcksum_val)
qed

text \<open>
  C8. A UDP packet that \<^verbatim>\<open>ip_out\<close> prepared passes every check of the computer that receives it,
  in whatever buffer it arrives, and the conversions give back every field and the data.
\<close>

theorem udp_packet_roundtrip:
  assumes "m (p + net_ipvh) = 0x45" "m (p + net_ipproto) = IP_UDP"
    and "bytes_at mr q n = bytes_at (ip_out_pack p m) p n" "42 \<le> n" "n < 4294967296"
  defines "r \<equiv> ip_in_check q mr"
  shows "snd r
    \<and> (\<forall>f\<in>{net_iplen, net_ipid, net_ipfrag, net_udpsport, net_udpdport, net_udplen}. rd16 (fst r) (q + f) = rd16 m (p + f))
    \<and> (\<forall>f\<in>{net_ipsrc, net_ipdst}. rd32 (fst r) (q + f) = rd32 m (p + f))
    \<and> (\<forall>f\<in>{net_ipvh, net_iptos, net_ipttl, net_ipproto}. fst r (q + f) = m (p + f))
    \<and> bytes_at (fst r) (q + net_udpdata) (n - 42) = bytes_at m (p + net_udpdata) (n - 42)"
proof -
  note sl = rd_slice [OF assms(3)]
  have ck: "ipcksum mr q = 0" by (rule ip_header_accepted [OF assms(3)]) (use assms(4) in simp)
  have vh: "mr (q + 14) = 0x45" "mr (q + 23) = IP_UDP" "mr (q + 15) = m (p + 15)" "mr (q + 22) = m (p + 22)"
    using sl(1) [of 14] sl(1) [of 23] sl(1) [of 15] sl(1) [of 22] assms(1,2,4) by (simp_all add: packet_defs)
  have h: "rd16 mr (q + 16) = htons (rd16 m (p + 16))" "rd16 mr (q + 18) = htons (rd16 m (p + 18))"
    "rd16 mr (q + 20) = htons (rd16 m (p + 20))" "rd16 mr (q + 34) = htons (rd16 m (p + 34))"
    "rd16 mr (q + 36) = htons (rd16 m (p + 36))" "rd16 mr (q + 38) = htons (rd16 m (p + 38))"
    using sl(2) [of 16] sl(2) [of 18] sl(2) [of 20] sl(2) [of 34] sl(2) [of 36] sl(2) [of 38] assms(2,4)
    by (simp_all add: packet_defs)
  have w: "rd32 mr (q + 26) = htonl (rd32 m (p + 26))" "rd32 mr (q + 30) = htonl (rd32 m (p + 30))"
    using sl(3) [of 26] sl(3) [of 30] assms(2,4) by (simp_all add: packet_defs)
  have "bytes_at mr (q + 42) (n - 42) = bytes_at m (p + 42) (n - 42)"
    using bytes_at_slice [OF assms(3), of 42 "n - 42"] assms(2,4,5) by (simp add: packet_defs field_other)
  then have d: "bytes_at (udp_ntoh q (ip_ntoh q mr)) (q + 42) (n - 42) = bytes_at m (p + 42) (n - 42)"
    using assms(4,5) by (simp add: packet_defs field_other)
  have c: "ip_in_check q mr = (udp_ntoh q (ip_ntoh q mr), True)"
    using ck vh by (simp add: ip_in_check_def Let_def) (simp add: packet_defs)
  have "r = (udp_ntoh q (ip_ntoh q mr), True)" using c by (simp add: r_def)
  then show ?thesis using d vh h w assms(1,2) by (simp add: packet_defs)
qed

text \<open>
  C9. An ICMP message that \<^verbatim>\<open>ip_out\<close> gave its checksum is accepted by \<^verbatim>\<open>ip_in\<close> if and only if the sum
  of its words does not carry a second time when its carry is added.
\<close>

theorem icmp_cksum_accepted_iff:
  assumes "m (p + net_ipvh) = 0x45" "m (p + net_ipproto) = IP_ICMP" "rd16 m (p + net_iplen) = of_nat (28 + k)" "k \<le> 65507"
    and "bytes_at mr q (42 + k) = bytes_at (ip_out_pack p m) p (42 + k)"
  shows "snd (ip_in_check q mr) \<longleftrightarrow>
    \<not> carries_twice (icmp_sum (set_field (p + net_iccksum) (B16 0) (icmp_hton p m)) (p + net_ictype) (8 + k))"
proof -
  define m1 where "m1 = set_field (p + net_iccksum) (B16 0) (icmp_hton p m)"
  define m2 where "m2 = set_field (p + net_iccksum) (B16 (htons (icmp_cksum m1 (p + net_ictype) (int (8 + k))))) m1"
  have len: "unat (rd16 m (p + 16)) = 28 + k" using assms(3,4) by (simp add: unsigned_of_nat take_bit_nat_eq_self del: of_nat_add)
  have ulen: "uint (rd16 m (p + 16)) = int (28 + k)" using len by (metis uint_nat)
  have "rd16 m1 (p + 16) = rd16 m (p + 16)" by (simp add: m1_def packet_defs)
  then have proto: "ip_out_proto p m = m2"
    using assms(2) ulen by (simp add: ip_out_proto_def Let_def m2_def m1_def [symmetric])
  note sl = rd_slice [OF assms(5)]
  have pack: "bytes_at (ip_out_pack p m) (p + 34) (8 + k) = bytes_at m2 (p + 34) (8 + k)"
    using assms(4) by (simp add: ip_out_pack_def proto) (simp add: packet_defs field_other)
  have ck: "ipcksum mr q = 0" by (rule ip_header_accepted [OF assms(5)]) simp
  have mp: "m2 (p + 14) = 0x45" "m2 (p + 23) = IP_ICMP" "rd16 m2 (p + 16) = rd16 m (p + 16)"
    using assms(1,2) by (simp_all add: m2_def m1_def packet_defs)
  have vh: "mr (q + 14) = 0x45" "mr (q + 23) = IP_ICMP" "rd16 mr (q + 16) = htons (rd16 m (p + 16))"
    using sl(1) [of 14] sl(1) [of 23] sl(2) [of 16] mp
    by (simp_all add: ip_out_pack_def proto) (simp_all add: packet_defs)
  let ?mi = "ip_ntoh q mr"
  have mi: "?mi (q + 14) = 0x45" "?mi (q + 23) = IP_ICMP" "rd16 ?mi (q + 16) = rd16 m (p + 16)"
    using vh by (simp_all add: packet_defs)
  have "bytes_at ?mi (q + 34) (8 + k) = bytes_at mr (q + 34) (8 + k)"
    using assms(4) by (simp add: packet_defs field_other)
  also have "\<dots> = bytes_at m2 (p + 34) (8 + k)"
    using bytes_at_slice [OF assms(5), of 34 "8 + k"] pack by simp
  finally have b: "bytes_at ?mi (q + 34) (8 + k) = bytes_at m2 (p + 34) (8 + k)" .
  have off: "p + 34 + 2 = p + 36" and "rd16 m1 (p + 36) = 0" by (simp_all add: m1_def)
  then have store: "icmp_sum m2 (p + 34) (8 + k) = icmp_sum m1 (p + 34) (8 + k) + unat (icmp_cksum m1 (p + 34) (int (8 + k)))"
    using icmp_sum_store [of "8 + k" m1 "p + 34" "icmp_cksum m1 (p + 34) (int (8 + k))", unfolded off] assms(4)
    by (simp add: m2_def)
  have "snd (ip_in_check q mr) \<longleftrightarrow> icmp_cksum ?mi (q + 34) (int (8 + k)) = 0"
    using ck mi ulen by (simp add: ip_in_check_def Let_def)
  also have "\<dots> \<longleftrightarrow> fold1 (icmp_sum ?mi (q + 34) (8 + k)) = 65535"
    using icmp_cksum_val [of "8 + k" ?mi "q + 34"] assms(4) of_nat16_0 [OF fold1_less] by simp
  also have "icmp_sum ?mi (q + 34) (8 + k) = icmp_sum m2 (p + 34) (8 + k)"
    by (rule icmp_sum_cong [OF b])
  also have "\<dots> = icmp_sum m1 (p + 34) (8 + k) + (65535 - fold1 (icmp_sum m1 (p + 34) (8 + k)))"
    using store icmp_cksum_val [of "8 + k" m1 "p + 34"] assms(4) by (simp add: unat_cksum16 del: of_nat_add of_nat_diff)
  also have "fold1 \<dots> = 65535 \<longleftrightarrow> \<not> carries_twice (icmp_sum m1 (p + 34) (8 + k))"
  proof (rule fold1_accepted)
    have "icmp_sum m1 (p + 34) (8 + k) \<le> 32768 * 65535"
      by (rule le_trans [OF icmp_sum_le]) (rule mult_le_mono1, use assms(4) in simp)
    then show "icmp_sum m1 (p + 34) (8 + k) < 4294901760" by simp
  qed
  finally show ?thesis by (simp add: m1_def)
qed

section \<open>Samples\<close>

text \<open>A UDP packet with the data \<open>[1, 2, 3]\<close>, and an echo request without data.\<close>

definition udp_sample :: memory where
  "udp_sample = set_fields 0x3000 [(net_ipvh, B8 0x45), (net_ipproto, B8 IP_UDP), (net_udpdport, B16 53), (net_udpdata, BS [1, 2, 3])] (\<lambda>_. 0)"

definition echo_sample :: "u16 \<Rightarrow> u16 \<Rightarrow> u32 \<Rightarrow> memory" where
  "echo_sample ident seq p = set_fields p [(net_ipvh, B8 0x45), (net_iplen, B16 28), (net_ipproto, B8 IP_ICMP), (net_ictype, B8 ICMP_ECHOREQST),
     (net_icident, B16 ident), (net_icseq, B16 seq)] (\<lambda>_. 0)"

definition moved :: "u32 \<Rightarrow> nat \<Rightarrow> u32 \<Rightarrow> memory \<Rightarrow> memory" where
  "moved q n p m = put (\<lambda>_. 0) q (bytes_at m p n)"

lemma moved_bytes: "n \<le> 4294967296 \<Longrightarrow> bytes_at (moved q n p m) q n = bytes_at m p n"
  using put_bytes_at [of "bytes_at m p n" "\<lambda>_. 0" q] by (simp add: moved_def)

lemma udp_packet_roundtrip_witness:
  "snd (ip_in_check 0x8000 (moved 0x8000 45 0x3000 (ip_out_pack 0x3000 udp_sample)))
    \<and> rd16 (fst (ip_in_check 0x8000 (moved 0x8000 45 0x3000 (ip_out_pack 0x3000 udp_sample)))) (0x8000 + net_udpdport) = 53"
proof -
  define p :: u32 where "p = 0x3000"
  have m: "udp_sample (p + net_ipvh) = 0x45" "udp_sample (p + net_ipproto) = IP_UDP" "rd16 udp_sample (p + net_udpdport) = 53"
    unfolding udp_sample_def p_def [symmetric] by simp_all
  show ?thesis
    using udp_packet_roundtrip [OF m(1,2) moved_bytes, of 45 "0x8000"] m(3) unfolding p_def by simp
qed

lemma icmp_cksum_accepted_iff_witness:
  "\<not> snd (ip_in_check 0x8000 (moved 0x8000 42 0x3000 (ip_out_pack 0x3000 (echo_sample 0xffff 0xf800 0x3000))))"
proof -
  define p :: u32 where "p = 0x3000"
  let ?m = "echo_sample 0xffff 0xf800 p"
  have m: "?m (p + net_ipvh) = 0x45" "?m (p + net_ipproto) = IP_ICMP" "rd16 ?m (p + net_iplen) = of_nat (28 + 0)"
    by (simp_all add: echo_sample_def)
  let ?m1 = "set_field (p + net_iccksum) (B16 0) (icmp_hton p ?m)"
  have r: "be16 ?m1 (p + 34) = 2048" "be16 ?m1 (p + 36) = 0" "be16 ?m1 (p + 38) = 65535" "be16 ?m1 (p + 40) = 63488"
  proof -
    have off: "p + 34 + 1 = p + 35" by simp
    have "rd16 ?m (p + 34) = 8" unfolding rd16_def off by (simp add: echo_sample_def)
    then show "be16 ?m1 (p + 34) = 2048" "be16 ?m1 (p + 36) = 0" "be16 ?m1 (p + 38) = 65535" "be16 ?m1 (p + 40) = 63488"
      by (simp_all add: be16_def icmp_hton_def conv16_def) (simp_all add: echo_sample_def htons_def)
  qed
  have off: "p + 34 + 2 = p + 36" "p + 36 + 2 = p + 38" "p + 38 + 2 = p + 40" by simp_all
  have "word_sum (Suc (Suc (Suc (Suc 0)))) ?m1 (p + 34) = 131071"
    unfolding word_sum_Suc off r by (simp add: word_sum_def)
  moreover have "Suc (Suc (Suc (Suc 0))) = 4" by simp
  ultimately have "icmp_sum ?m1 (p + net_ictype) (8 + 0) = 131071" by (simp add: icmp_sum_def)
  then have "carries_twice (icmp_sum (set_field (p + net_iccksum) (B16 0) (icmp_hton p ?m)) (p + net_ictype) (8 + 0))"
    by (simp add: carries_twice_def)
  then show ?thesis
    using icmp_cksum_accepted_iff [OF m _ moved_bytes, of "0x8000"] unfolding p_def by simp
qed

end
