(* ===== verification/Netkeep.thy ===== *)
theory Netkeep
  imports Netsafe Frames
begin

text \<open>
  What other routines of the kernel leave of the tables of the network: a property of these tables
  holds at every switch and when the call returns, if it holds whenever the process is resumed.
\<close>

section \<open>Properties that a call keeps\<close>

primrec kpres :: "('s \<Rightarrow> bool) \<Rightarrow> ('s, 'a) kprog \<Rightarrow> bool" where
  "kpres P (Ret s a) = P s"
| "kpres P (Ctxsw s k) = (P s \<and> (\<forall>s'. P s' \<longrightarrow> kpres P (k s')))"
| "kpres P (Stop r s) = True"

lemma kpres_bind: "kpres P c \<Longrightarrow> (\<And>s a. P s \<Longrightarrow> kpres P (f s a)) \<Longrightarrow> kpres P (kbind c f)"
  by (induction c) auto

lemma kpres_here: "kpres P c \<Longrightarrow> here c = Some (s, r) \<Longrightarrow> P s"
  by (cases c) auto

lemma kpres_discard: "kpres P c \<Longrightarrow> kpres P (discard c)"
  by (auto simp: discard_def intro: kpres_bind)

lemma store_insertd: "insertd p q k s = Some (s', r) \<Longrightarrow> store s' = store s"
  by (auto simp: insertd_def Let_def split: if_splits option.splits)

lemma semtab_queue [simp]:
  "semtab (fst (getitem p s)) = semtab s" "semtab (fst (getfirst q s)) = semtab s" "semtab (fst (enqueue p q s)) = semtab s"
  "semtab (fst (dequeue q s)) = semtab s"
  by (simp_all add: getitem_def getfirst_def enqueue_def dequeue_def Let_def split_beta)

lemma semtab_insert: "insert_q p q k s = Some (s', r) \<Longrightarrow> semtab s' = semtab s" "insertd p q k s = Some (s', r) \<Longrightarrow> semtab s' = semtab s"
  by (auto simp: insert_q_def insertd_def Let_def split: if_splits option.splits)

section \<open>Properties of the tables\<close>

text \<open>A property of the tables of the network and of the semaphores.\<close>

locale sched_blind =
  fixes V :: "kst \<Rightarrow> bool"
  assumes V_cong: "net s' = net s \<Longrightarrow> semtab s' = semtab s \<Longrightarrow> V s' = V s"
begin

lemma V_store: "store s' = store s \<Longrightarrow> semtab s' = semtab s \<Longrightarrow> V s' = V s"
  by (rule V_cong) (auto dest: storeD(9))

lemma V_simps [simp]:
  "V (upd_proc p g s) = V s" "V (set_prstate p st s) = V s"
  "V (fst (getitem p s)) = V s" "V (fst (dequeue q s)) = V s" "V (fst (unsleep p s)) = V s"
  "V (fst (recvclr s)) = V s" "V (s\<lparr>currpid := p\<rparr>) = V s"
  "V (s\<lparr>preempt := k\<rparr>) = V s" "V (s\<lparr>attempt := b\<rparr>) = V s" "V (s\<lparr>ndefers := k\<rparr>) = V s"
proof -
  have u: "store (fst (unsleep p s)) = store s" "store (fst (recvclr s)) = store s"
    "semtab (fst (unsleep p s)) = semtab s" "semtab (fst (recvclr s)) = semtab s" for p s
    by (simp_all add: unsleep_def recvclr_def Let_def split_beta)
  show "V (fst (unsleep p s)) = V s" "V (fst (recvclr s)) = V s" by (rule V_store [OF u(1,3)]) (rule V_store [OF u(2,4)])
qed (rule V_store; simp)+

lemma V_insert: "insert_q p q k s = Some (s', r) \<Longrightarrow> V s' = V s" "insertd p q k s = Some (s', r) \<Longrightarrow> V s' = V s"
  using V_store [OF store_insert semtab_insert(1)] V_store [OF store_insertd semtab_insert(2)] by blast+

lemma kpres_resched: "V s \<Longrightarrow> kpres V (resched s)"
proof -
  have "kpres V (resched_switch s1)" if "V s1" for s1
    using that by (simp add: resched_switch_def Let_def split_beta)
  then show "V s \<Longrightarrow> kpres V (resched s)"
    by (auto simp: resched_def Let_def split: option.splits dest!: V_insert)
qed

lemma kpres_ready: "V s \<Longrightarrow> kpres V (ready p s)"
  by (auto simp: ready_def Let_def split: option.splits dest!: V_insert intro!: kpres_bind kpres_resched)

lemma kpres_send: "V s \<Longrightarrow> kpres V (send p m s)"
  by (auto simp: send_def Let_def split_beta intro!: kpres_bind kpres_ready)

lemma kpres_recvtime: "V s \<Longrightarrow> kpres V (recvtime t s)"
  by (auto simp: recvtime_def take_msg_or_timeout_def take_msg_def Let_def split: option.splits dest!: V_insert
      intro!: kpres_bind kpres_resched)

end

text \<open>A property of the tables of the network that does not depend on the Ethernet device.\<close>

locale net_blind = sched_blind +
  assumes V_net: "net s' = net s \<Longrightarrow> V s' = V s"
    and V_eth [simp]: "V (upd_eth i f s) = V s"
begin

lemma V_tables [simp]:
  "V (upd_sem i h s) = V s" "V (fst (enqueue p q s)) = V s" "V (set_kmem m s) = V s" "V (upd_pool i pf s) = V s"
  "V (freebuf_put i a s) = V s" "V (eth_io_writel i r v s) = V s"
proof -
  show "V (fst (enqueue p q s)) = V s" using V_net [OF storeD(9) [OF store_queue(3)]] .
  show "V (eth_io_writel i r v s) = V s" by (simp add: eth_io_writel_def)
qed (rule V_net; simp add: upd_sem_def set_kmem_def upd_pool_def freebuf_put_def set_bp_next_def Let_def)+

lemma kpres_wait: "V s \<Longrightarrow> kpres V (wait i s)"
  by (auto simp: wait_def Let_def split_beta intro!: kpres_bind kpres_resched)

lemma kpres_signal: "V s \<Longrightarrow> kpres V (signal i s)"
  by (auto simp: signal_def signal_once_def count_up_def Let_def split_beta intro!: kpres_bind kpres_ready)

lemma kpres_freebuf: "V s \<Longrightarrow> kpres V (freebuf a s)"
  by (auto simp: freebuf_def Let_def intro!: kpres_bind kpres_signal)

lemma kpres_ethwrite: "V s \<Longrightarrow> kpres V (ethwrite e b n s)"
  by (auto simp: ethwrite_def Let_def intro!: kpres_bind kpres_wait)

end

interpretation sems_kept: sched_blind "\<lambda>s. net s = N \<and> semtab s = T" for N T
  by unfold_locales simp

text \<open>While \<^verbatim>\<open>send\<close> has not switched, the semaphores are as before.\<close>

lemma send_Ret: "send p m s = Ret s' r \<Longrightarrow> semtab s' = semtab s"
  using sems_kept.kpres_send [of s "net s" "semtab s" p m] by simp

end
