(* ===== verification/Netbuf.thy ===== *)
theory Netbuf
  imports Netkeep Netwire
begin

text \<open>
  Packets in buffers of the pool: taking a buffer, writing the fields of a packet into it, and giving
  it back.
\<close>

section \<open>Scheduling and the rest of the state\<close>

lemma kabs_sched_part: "sched_part s' = sched_part s \<Longrightarrow> kabs s' = kabs s"
  by (rule kabs_eqI) (auto simp: sched_part_def ready_view_def sem_view_def)

lemma kinv_sched_part: "sched_part s' = sched_part s \<Longrightarrow> kinv F s \<Longrightarrow> kinv F s'"
  using kgood_cong [of s' s] by (auto simp: kinv_def sched_part_def)

section \<open>Buffers of the pool\<close>

text \<open>A packet in an allocated buffer of pool \<open>i\<close>, whose free buffers are \<open>bs\<close>.\<close>

definition buf_of :: "int \<Rightarrow> u32 \<Rightarrow> u32 list \<Rightarrow> kst \<Rightarrow> bool" where
  "buf_of i pkt bs s \<longleftrightarrow> sint (rd32 (kmem s) (pkt - 4)) = i \<and> 0 \<le> i \<and> i < nbpools s \<and> pool_list s i bs
     \<and> al4 (pkt - 4) \<and> pkt - 4 \<noteq> 0 \<and> pkt - 4 \<notin> set bs"

lemma pool_list_frame:
  "pool_list s i bs \<Longrightarrow> buftab s' = buftab s \<Longrightarrow> (\<And>b. b \<in> set bs \<Longrightarrow> rd32 (kmem s') b = rd32 (kmem s) b) \<Longrightarrow> pool_list s' i bs"
  using chain_cong [of bs "bp_next (kmem s')" "bp_next (kmem s)"] by (simp add: pool_list_def bp_next_def)

lemma rd32_frame: "bytes_at m' a 4 = bytes_at m a 4 \<Longrightarrow> rd32 m' a = rd32 m a"
  by (simp add: rd32_bytes)

lemma buf_of_frame:
  assumes "buf_of i pkt bs s" "buftab s' = buftab s" "nbpools s' = nbpools s"
    "\<And>a. a = pkt - 4 \<or> a \<in> set bs \<Longrightarrow> bytes_at (kmem s') a 4 = bytes_at (kmem s) a 4"
  shows "buf_of i pkt bs s'"
  using assms pool_list_frame [of s i bs s'] rd32_frame [of "kmem s'" _ "kmem s"] by (auto simp: buf_of_def)

lemma wr32_put: "wr32 m a v = put m a (le32 v)"
  by (simp add: wr32_def le32_def add.assoc fun_upd_def)

lemma freebuf_here:
  assumes "kinv {} s" "buf_of i pkt bs s" "scount (semtab s (bpsem (buftab s i))) < INT32_MAX"
  obtains s' r v where "here (freebuf pkt s) = Some (s', r)" "r = None \<or> r = Some OK" "kinv {} s'"
    "kmem s' = put (kmem s) (pkt - 4) (le32 v)" "net s' = net s" "pool_list s' i ((pkt - 4) # bs)"
    "kabs s' = fst (a_signal (bpsem (buftab s i)) (kabs s))"
proof -
  let ?s1 = "freebuf_put i (pkt - 4) s"
  have e: "freebuf pkt s = kbind (signal (bpsem (buftab s i)) ?s1) (\<lambda>s2 _. Ret s2 OK)"
    using assms(2) by (simp add: freebuf_def buf_of_def Let_def freebuf_put_def)
  have sp: "sched_part ?s1 = sched_part s"
    by (simp add: freebuf_put_def Let_def) (simp add: sched_part_def upd_pool_def set_kmem_def)
  have k1: "kinv {} ?s1" by (rule kinv_sched_part [OF sp assms(1)])
  have "scount (semtab ?s1 (bpsem (buftab s i))) < INT32_MAX" using assms(3) sp by (simp add: sched_part_def)
  then obtain s' r where s': "here (signal (bpsem (buftab s i)) ?s1) = Some (s', r)" "kinv {} s'"
      "kabs s' = fst (a_signal (bpsem (buftab s i)) (kabs ?s1))" "store s' = store ?s1"
    by (rule here_signal [OF k1])
  have m1: "kmem ?s1 = put (kmem s) (pkt - 4) (le32 (bpnext (buftab s i)))" "net ?s1 = net s"
    by (simp_all add: freebuf_put_def Let_def set_bp_next_def wr32_put) (simp add: upd_pool_def set_kmem_def)
  have "pool_list ?s1 i ((pkt - 4) # bs)" using assms(2) by (intro freebuf_put_list(1)) (simp_all add: buf_of_def)
  then have "pool_list s' i ((pkt - 4) # bs)"
    by (rule pool_list_frame) (simp_all add: storeD(4,8) [OF s'(4)])
  then show thesis
    using that [of s' "map_option (\<lambda>_. OK) r" "bpnext (buftab s i)"] s' m1 storeD(8,9) [OF s'(4)] kabs_sched_part [OF sp]
    by (cases r) (auto simp: e here_bind_Ret)
qed

section \<open>Writing into a buffer\<close>

text \<open>Writing to fields of the packet at \<open>p\<close> leaves what does not overlap its \<open>k\<close> bytes.\<close>

lemma field_in_pkt:
  assumes "disj p k x j" "unat f + length (cell_bytes c) \<le> k"
  shows "bytes_at (set_field (p + f) c m) x j = bytes_at m x j"
proof -
  have "disj (p + f) (length (cell_bytes c)) x j"
    using disj_shift [OF assms(1), of "unat f" "length (cell_bytes c)" 0 j] assms(2) by simp
  then show ?thesis by (simp add: set_field_def put_frame)
qed

lemma fields_in_pkt:
  "disj p k x j \<Longrightarrow> (\<forall>(f, c) \<in> set fs. unat f + length (cell_bytes c) \<le> k) \<Longrightarrow>
     bytes_at (set_fields p fs m) x j = bytes_at m x j"
proof (induction fs arbitrary: m)
  case (Cons fc fs)
  obtain f c where fc: "fc = (f, c)" by (cases fc)
  have "bytes_at (set_field (p + f) c m) x j = bytes_at m x j"
    using Cons.prems fc by (intro field_in_pkt [of p k]) simp_all
  then show ?case using Cons fc by simp
qed simp

section \<open>Taking a buffer\<close>

text \<open>The pool \<open>i\<close> is \<^verbatim>\<open>netbufpool\<close>, with the free buffers \<open>b # bs\<close>, each apart from the packet built in the first.\<close>

definition netbuf_ready :: "kst \<Rightarrow> u32 \<Rightarrow> u32 list \<Rightarrow> nat \<Rightarrow> bool" where
  "netbuf_ready s b bs n \<longleftrightarrow>
     (let i = netbufpool (net s); sem = bpsem (buftab s i) in
      0 \<le> i \<and> i < nbpools s \<and> nbpools s \<le> NBPOOLS \<and> pool_list s i (b # bs) \<and> idle_sem sem s
      \<and> 0 < scount (semtab s sem) \<and> scount (semtab s sem) \<le> INT32_MAX
      \<and> b + 4 \<noteq> PSYSERR \<and> (\<forall>x\<in>set bs. disj b n x 4) \<and> length (ethucast (netdata s)) = 6)"

lemma getbuf_ready:
  assumes "netbuf_ready s b bs n"
  obtains s1 where "getbuf (netbufpool (net s)) s = Ret s1 (b + 4)" "kmem s1 = put (kmem s) b (le32 (word_of_int (netbufpool (net s))))"
    "net s1 = net s" "buf_of (netbufpool (net s)) (b + 4) bs s1" "bpsem (buftab s1 (netbufpool (net s))) = bpsem (buftab s (netbufpool (net s)))"
    "scount (semtab s1 (bpsem (buftab s (netbufpool (net s))))) < INT32_MAX" "currpid s1 = currpid s"
    "\<And>j. j \<noteq> bpsem (buftab s (netbufpool (net s))) \<Longrightarrow> semtab s1 j = semtab s j"
proof -
  let ?i = "netbufpool (net s)" and ?sem = "bpsem (buftab s (netbufpool (net s)))"
  have r: "0 \<le> ?i" "?i < nbpools s" "nbpools s \<le> 20" "pool_list s ?i (b # bs)" "idle_sem ?sem s"
    "0 < scount (semtab s ?sem)" "scount (semtab s ?sem) \<le> INT32_MAX"
    using assms by (simp_all add: netbuf_ready_def Let_def)
  let ?s0 = "count_by ?sem (- 1) s"
  have w: "wait ?sem s = Ret ?s0 OK" by (rule wait_idle [OF r(5-7)])
  have p0: "pool_list ?s0 ?i (b # bs)"
    by (rule pool_list_frame [OF r(4)]) (simp_all add: upd_sem_def kmem_def)
  note t = getbuf_take_list(1-3) [OF p0]
  obtain s1 where e: "getbuf_take ?i ?s0 = (s1, b + 4)" using t(2) by (cases "getbuf_take ?i ?s0") simp_all
  have s1: "s1 = fst (getbuf_take ?i ?s0)" unfolding e by simp
  have t': "pool_list s1 ?i bs" "rd32 (kmem s1) b = word_of_int ?i" using t(1,3) unfolding e by simp_all
  have "sint (word_of_int ?i :: u32) = ?i" using r(1-3) by (simp add: signed_of_int signed_take_bit_int_eq_self)
  then have b: "buf_of ?i (b + 4) bs s1"
    using t' r(1,2,4) by (simp add: buf_of_def pool_list_def) (simp add: s1 getbuf_take_def Let_def upd_sem_def upd_pool_def set_kmem_def)
  show thesis
  proof (rule that [of s1])
    show "getbuf ?i s = Ret s1 (b + 4)" using r(1,2) w e by (simp add: getbuf_def)
    have "bpnext (buftab s ?i) = b" using r(4) by (simp add: pool_list_def)
    then show "kmem s1 = put (kmem s) b (le32 (word_of_int ?i))"
      by (simp add: s1 getbuf_take_def Let_def wr32_put upd_sem_def) (simp add: kmem_def upd_pool_def)
    show "net s1 = net s" "bpsem (buftab s1 ?i) = ?sem" "currpid s1 = currpid s" "scount (semtab s1 ?sem) < INT32_MAX"
      "\<And>j. j \<noteq> ?sem \<Longrightarrow> semtab s1 j = semtab s j"
      using r(7) by (simp_all add: s1 getbuf_take_def Let_def upd_pool_def set_kmem_def upd_sem_def)
  qed (rule b)
qed

end
