(* ===== verification/Netsample.thy ===== *)
theory Netsample
  imports Netbuf
begin

text \<open>
  Concrete states of the network: process 1 runs, semaphore 0 counts the free buffers at \<open>0x1000\<close> and
  \<open>0x2000\<close> of pool 0, and semaphore 1 the packets of the output queue. Memory and the tables of the
  network are arguments.
\<close>

lemma two_sems: obtains s where "kinv {} s" "currpid s = 1" "asem (kabs s) 0 = (S_USED, 8, [])" "asem (kabs s) 1 = (S_USED, 0, [])"
proof -
  obtain s where s: "kinv {} s" "boot_view (kabs s)" by (rule boot_sample)
  have f: "prstate (proctab s 1) = PR_FREE" "sstate (semtab s 0) = S_FREE" "sstate (semtab s 1) = S_FREE"
    using s(2) by (simp_all add: boot_view_def sem_view_def isbadsem_def)
  let ?s1 = "upd_proc 1 (\<lambda>e. e\<lparr>prstate := PR_SUSP, prprio := 20\<rparr>) s"
  let ?s2 = "upd_sem 0 (\<lambda>e. e\<lparr>sstate := S_USED, scount := 8\<rparr>) ?s1"
  let ?s3 = "upd_sem 1 (\<lambda>e. e\<lparr>sstate := S_USED, scount := 0\<rparr>) ?s2"
  have 1: "kinv {} ?s1" using f by (intro add_suspended [OF s(1)]) simp_all
  have 2: "kinv {} ?s2" using f by (intro add_semaphore [OF 1]) (simp_all add: isbadsem_def)
  have 3: "kinv {} ?s3" using f by (intro add_semaphore [OF 2]) (simp_all add: isbadsem_def)
  have e: "kq s (squeue (semtab s 0)) = []" "kq s (squeue (semtab s 1)) = []"
    using cnt_free [OF kinv_kgood [OF s(1)] _ _ f(2)] cnt_free [OF kinv_kgood [OF s(1)] _ _ f(3)] by (simp_all add: isbadsem_def)
  obtain s' where s': "kinv {} s'" "kabs s' = fst (a_resume 1 (kabs ?s3))" by (rule refinesE [OF resume_abs [OF 3]])
  have "acur (fst (a_resume 1 (kabs ?s3))) = 1" "asem (fst (a_resume 1 (kabs ?s3))) = asem (kabs ?s3)"
    using s(2) by (simp_all add: boot_view_def ready_view_def a_eval)
  moreover have "asem (kabs ?s3) 0 = (S_USED, 8, [])" "asem (kabs ?s3) 1 = (S_USED, 0, [])"
    using e by (simp_all add: sem_view_def isbadsem_def)
  ultimately show thesis using that [OF s'(1)] s'(2) kabs_simps(1) [of s'] by metis
qed

definition pool0 :: "int \<Rightarrow> bpentry" where
  "pool0 i = \<lparr>bpnext = 0x1000, bpsem = 0, bpsize = 1528\<rparr>"

text \<open>The links of the free buffers.\<close>

definition links0 :: "memory \<Rightarrow> memory" where
  "links0 m = wr32 (wr32 m 0x1000 0x2000) 0x2000 0"

lemma net_state:
  assumes "netbufpool N = 0" "length (ethucast (NetData N)) = 6"
  obtains s where "kinv {} s" "currpid s = 1" "net s = N" "kmem s = links0 m"
    "bpsem (buftab s 0) = 0" "scount (semtab s 0) = 8" "idle_sem 1 s" "scount (semtab s 1) = 0"
    "pool_list s 0 [0x1000, 0x2000]" "nbpools s = 1"
    "\<And>n. n \<le> 2000 \<Longrightarrow> netbuf_ready s 0x1000 [0x2000] n"
proof -
  obtain t where t: "kinv {} t" "currpid t = 1" "asem (kabs t) 0 = (S_USED, 8, [])" "asem (kabs t) 1 = (S_USED, 0, [])"
    by (rule two_sems)
  let ?s = "set_kmem (links0 m) (t\<lparr>net := N, buftab := pool0, nbpools := 1\<rparr>)"
  have "sched_part ?s = sched_part t" by (simp add: sched_part_def set_kmem_def)
  then have k: "kinv {} ?s" using kinv_sched_part t(1) by blast
  have s: "kmem ?s = links0 m" "net ?s = N" "currpid ?s = 1" "buftab ?s = pool0" "nbpools ?s = 1" "semtab ?s = semtab t"
    using t(2) by (simp_all add: kmem_def set_kmem_def)
  have sm: "idle_sem 0 ?s" "scount (semtab ?s 0) = 8" "idle_sem 1 ?s" "scount (semtab ?s 1) = 0"
    using t(3,4) s(6) by (simp_all add: idle_sem_def sem_view_def isbadsem_def split: if_splits)
  have "rd32 (links0 m) 0x2000 = 0" "rd32 (links0 m) 0x1000 = 0x2000"
    by (simp_all add: links0_def al4_def rd32_wr32_other)
  then have p: "pool_list ?s 0 [0x1000, 0x2000]" using s by (simp add: pool_list_def bp_next_def pool0_def al4_def)
  have "disj 0x1000 n 0x2000 4" if "n \<le> 2000" for n :: nat
    using apart_disj [of "0x1000" n "0x2000" 4 0] that by simp
  then have "netbuf_ready ?s 0x1000 [0x2000] n" if "n \<le> 2000" for n
    using that s sm p assms by (simp add: netbuf_ready_def Let_def pool0_def)
  then show thesis using that [of ?s] k s sm p by (simp add: pool0_def)
qed

text \<open>An allocated buffer of the pool.\<close>

lemma buf_of_sample:
  assumes "pool_list s 0 bs" "nbpools s = 1" "rd32 (kmem s) (p - 4) = 0" "al4 (p - 4)" "p \<noteq> 4" "p - 4 \<notin> set bs"
  shows "buf_of 0 p bs s"
  using assms by (simp add: buf_of_def)

text \<open>A packet in the buffer at \<open>0x3000\<close>.\<close>

lemma links0_pkt:
  assumes "p = 0x3004"
  shows "rd32 (links0 m) (p - 4) = rd32 m (p - 4)" "bytes_at (links0 m) p 1000 = bytes_at m p 1000"
proof -
  have f: "bytes_at (links0 m) 0x3000 1004 = bytes_at m 0x3000 1004"
    using apart_disj [of "0x1000" 4 "0x3000" 1004 0] apart_disj [of "0x2000" 4 "0x3000" 1004 0]
    by (simp add: links0_def wr32_put put_frame)
  show "rd32 (links0 m) (p - 4) = rd32 m (p - 4)" using rd_slice(3) [OF f, of 0] by (simp add: assms)
  show "bytes_at (links0 m) p 1000 = bytes_at m p 1000" using bytes_at_slice [OF f, of 4 1000] by (simp add: assms)
qed

lemma pool_number_sample:
  assumes "p = 0x3004" "\<forall>(f, c)\<in>set fs. unat f + length (cell_bytes c) \<le> 1000"
  shows "rd32 (links0 (set_fields p fs (\<lambda>_. 0))) (p - 4) = 0"
proof -
  have "disj p 1000 (p - 4) 4" using apart_disj [of "0x3004" 1000 "0x3000" 4 0] by (simp add: assms(1))
  then have "bytes_at (set_fields p fs (\<lambda>_. 0)) (p - 4) 4 = bytes_at (\<lambda>_. 0) (p - 4) 4" using assms(2) by (rule fields_in_pkt)
  then have "rd32 (set_fields p fs (\<lambda>_. 0)) (p - 4) = rd32 (\<lambda>_. 0) (p - 4)" by (rule rd32_frame)
  then show ?thesis using links0_pkt(1) [OF assms(1)] by (simp add: rd32_def)
qed

end
