(* ===== verification/Icmpspec.thy ===== *)
theory Icmpspec
  imports Netsample Ring
begin

text \<open>
  The queue of packets that wait for \<^verbatim>\<open>ipout\<close>, what the answer to an echo request says, and how the
  queue of an ICMP endpoint runs off its array.
\<close>

section \<open>The output queue\<close>

definition iq_holds :: "iqentry \<Rightarrow> u32 list \<Rightarrow> bool" where
  "iq_holds q ps \<longleftrightarrow> 0 \<le> iqhead q \<and> iqhead q < IP_OQSIZ \<and> iqtail q = (iqhead q + int (length ps)) mod IP_OQSIZ
     \<and> ring 8 (iqbuf q) (iqhead q) ps \<and> length ps \<le> 8"

definition iq_head :: "iqentry \<Rightarrow> u32" where
  "iq_head q = iqbuf q (iqhead q)"

lemma iq_enq_holds:
  assumes "iq_holds q ps" "length ps < 8"
  shows "iq_holds (iq_enq pkt q) (ps @ [pkt])"
proof -
  have t: "0 \<le> iqtail q" "iqtail q < 8" "iqtail q = (iqhead q + int (length ps)) mod 8"
    using assms(1) by (simp_all add: iq_holds_def)
  have "ring 8 ((iqbuf q)(iqtail q := pkt)) (iqhead q) (ps @ [pkt])"
    unfolding t(3) using assms by (intro ring_store) (simp_all add: iq_holds_def)
  moreover have "(if iqtail q + 1 \<ge> 8 then 0 else iqtail q + 1) = (iqhead q + int (length (ps @ [pkt]))) mod 8"
    using wrap_up [OF t(1,2)] t(3) by (simp add: algebra_simps mod_simps)
  ultimately show ?thesis
    using assms by (auto simp: iq_enq_def iq_holds_def Let_def)
qed

interpretation ipq: bounded_fifo iq_holds iq_enq iq_deq iq_head 8
proof
  fix q x xs
  show "length xs < 8 \<Longrightarrow> iq_holds q xs \<Longrightarrow> iq_holds (iq_enq x q) (xs @ [x])" by (rule iq_enq_holds)
  assume h: "iq_holds q (x # xs)"
  then have r: "0 \<le> iqhead q" "iqhead q < 8" "iqbuf q (iqhead q) = x" "ring 8 (iqbuf q) ((iqhead q + 1) mod 8) xs"
    unfolding iq_holds_def ring_head by (auto simp: mod_pos_pos_trivial)
  show "iq_head q = x" using r(3) by (simp add: iq_head_def)
  have "iqtail q = ((iqhead q + 1) mod 8 + int (length xs)) mod 8"
    using h by (simp add: iq_holds_def mod_simps ac_simps)
  then show "iq_holds (iq_deq q) xs"
    using h r wrap_up [OF r(1,2)] by (auto simp: iq_deq_def iq_holds_def)
qed

section \<open>Packets that are made\<close>

lemma icmp_data_reads:
  assumes "length D \<le> 1472"
  shows "set_field (p + net_icdata) (BS D) m (p + net_ipproto) = m (p + net_ipproto)"
    "set_field (p + net_icdata) (BS D) m (p + net_ictype) = m (p + net_ictype)"
    "set_field (p + net_icdata) (BS D) m (p + net_iccode) = m (p + net_iccode)"
    "rd16 (set_field (p + net_icdata) (BS D) m) (p + net_iplen) = rd16 m (p + net_iplen)"
    "rd16 (set_field (p + net_icdata) (BS D) m) (p + net_icident) = rd16 m (p + net_icident)"
    "rd16 (set_field (p + net_icdata) (BS D) m) (p + net_icseq) = rd16 m (p + net_icseq)"
    "rd32 (set_field (p + net_icdata) (BS D) m) (p + net_ipsrc) = rd32 m (p + net_ipsrc)"
    "rd32 (set_field (p + net_icdata) (BS D) m) (p + net_ipdst) = rd32 m (p + net_ipdst)"
    "bytes_at (set_field (p + net_icdata) (BS D) m) (p + net_icdata) (length D) = D"
  using assms set_field_bytes [of "BS D" "p + net_icdata" m] by simp_all

text \<open>An ICMP message of \<open>n\<close> bytes of data in host order.\<close>

definition icmp_msg :: "memory \<Rightarrow> u32 \<Rightarrow> u32 \<Rightarrow> u32 \<Rightarrow> u8 \<Rightarrow> u16 \<Rightarrow> u16 \<Rightarrow> u8 list \<Rightarrow> bool" where
  "icmp_msg m p src dst type ident seq D \<longleftrightarrow> m (p + net_ipproto) = IP_ICMP \<and> rd32 m (p + net_ipsrc) = src
     \<and> rd32 m (p + net_ipdst) = dst \<and> m (p + net_ictype) = type \<and> m (p + net_iccode) = 0 \<and> rd16 m (p + net_icident) = ident
     \<and> rd16 m (p + net_icseq) = seq \<and> rd16 m (p + net_iplen) = of_nat (28 + length D)
     \<and> bytes_at m (p + net_icdata) (length D) = D"

lemma icmp_msg_moved:
  assumes "bytes_at m' q (42 + length D) = bytes_at m p (42 + length D)" "icmp_msg m p src dst type ident seq D"
  shows "icmp_msg m' q src dst type ident seq D"
  using assms(2) rd_slice(1) [OF assms(1), of 23] rd_slice(1) [OF assms(1), of 34] rd_slice(1) [OF assms(1), of 35]
    rd_slice(2) [OF assms(1), of 16] rd_slice(2) [OF assms(1), of 38] rd_slice(2) [OF assms(1), of 40]
    rd_slice(3) [OF assms(1), of 26] rd_slice(3) [OF assms(1), of 30] bytes_at_slice [OF assms(1), of 42 "length D"]
  by (simp add: icmp_msg_def)

lemma icmp_mkpkt_here:
  assumes "kinv {} s" "currpid s \<noteq> NULLPROC" "netbuf_ready s b bs (46 + n)" "n \<le> 1472" "disj buf n b (46 + n)"
  obtains s1 where "icmp_mkpkt remip type ident seq buf (int n) s = Ret s1 (b + 4)" "kinv {} s1"
    "icmp_msg (kmem s1) (b + 4) (ipucast (netdata s)) remip (ucast type) ident seq (bytes_at (kmem s) buf n)"
    "ipoqueue (net s1) = ipoqueue (net s)" "pool_list s1 (netbufpool (net s)) bs" "0 \<le> netbufpool (net s)" "netbufpool (net s) < nbpools s1"
    "bpsem (buftab s1 (netbufpool (net s))) = bpsem (buftab s (netbufpool (net s)))"
    "scount (semtab s1 (bpsem (buftab s (netbufpool (net s))))) < INT32_MAX"
    "\<And>j. j \<noteq> bpsem (buftab s (netbufpool (net s))) \<Longrightarrow> semtab s1 j = semtab s j"
    "\<And>x k. disj b (46 + n) x k \<Longrightarrow> bytes_at (kmem s1) x k = bytes_at (kmem s) x k"
proof -
  let ?P = "netbufpool (net s)" and ?nd = "netdata s"
  define p where "p = b + 4"
  obtain sg where g: "getbuf ?P s = Ret sg p" "kmem sg = put (kmem s) b (le32 (word_of_int ?P))" "net sg = net s"
      "buf_of ?P p bs sg" "bpsem (buftab sg ?P) = bpsem (buftab s ?P)" "scount (semtab sg (bpsem (buftab s ?P))) < INT32_MAX"
      "\<And>j. j \<noteq> bpsem (buftab s ?P) \<Longrightarrow> semtab sg j = semtab s j"
    unfolding p_def by (rule getbuf_ready [OF assms(3)]) metis
  have rd: "p \<noteq> PSYSERR" "\<And>x. x \<in> set bs \<Longrightarrow> disj b (46 + n) x 4" "length (ethucast ?nd) = 6" "pool_list s ?P (b # bs)"
    using assms(3) by (simp_all add: netbuf_ready_def Let_def p_def)
  have apart: "disj p (42 + n) x k" if "disj b (46 + n) x k" for x k
    using disj_shift [OF that, of 4 "42 + n" 0 k] by (simp add: p_def)
  define fs where "fs = [(net_ethsrc, BS (ethucast ?nd)), (net_ethtype, B16 0x800), (net_ipvh, B8 0x45), (net_iptos, B8 0),
      (net_iplen, B16 (word_of_int (28 + int n))), (net_ipid, B16 (ucast (ipident (net s)))), (net_ipfrag, B16 0), (net_ipttl, B8 0xff),
      (net_ipproto, B8 IP_ICMP), (net_ipcksum, B16 0), (net_ipsrc, B32 (ipucast ?nd)), (net_ipdst, B32 remip),
      (net_ictype, B8 (ucast type)), (net_iccode, B8 0), (net_iccksum, B16 0), (net_icident, B16 ident), (net_icseq, B16 seq)]"
  define m1 where "m1 = set_fields p fs (kmem sg)"
  define D where "D = bytes_at (kmem s) buf n"
  have lD: "length D = n" by (simp add: D_def)
  define m2 where "m2 = set_field (p + 42) (BS D) m1"
  have m1_fr: "bytes_at m1 x k = bytes_at (kmem sg) x k" if "disj p (42 + n) x k" for x k
    unfolding m1_def using rd(3) by (intro fields_in_pkt [OF that]) (simp add: fs_def)
  have m2_fr: "bytes_at m2 x k = bytes_at (kmem s) x k" if "disj b (46 + n) x k" for x k
  proof -
    have "bytes_at m2 x k = bytes_at m1 x k"
      unfolding m2_def using field_in_pkt [OF apart [OF that], of 42 "BS D" m1] lD by simp
    also have "\<dots> = bytes_at (kmem sg) x k" by (rule m1_fr [OF apart [OF that]])
    also have "\<dots> = bytes_at (kmem s) x k" unfolding g(2) using disj_mono [OF that, of 4 k] by (intro put_frame) simp
    finally show ?thesis .
  qed
  have "bytes_at m1 buf n = bytes_at (kmem sg) buf n" by (rule m1_fr [OF apart [OF disj_sym [OF assms(5)]]])
  also have "\<dots> = D"
    unfolding g(2) D_def using disj_mono [OF disj_sym [OF assms(5)], of 4 n] by (intro put_frame) simp
  finally have src: "bytes_at m1 buf n = D" .
  have "disj (p + 42) n buf n"
    using disj_shift [OF apart [OF disj_sym [OF assms(5)]], of 42 n 0 n] by simp
  then have cp: "fst (memcpy m1 (p + 42) buf (int n)) = m2"
    by (simp add: memcpy_def memcpy_put src m2_def set_field_def)
  have msg: "icmp_msg m2 p (ipucast ?nd) remip (ucast type) ident seq D"
    using icmp_data_reads [of D p m1] assms(4) lD rd(3)
    unfolding icmp_msg_def m2_def by (simp add: m1_def fs_def)
  let ?s1 = "set_kmem m2 (upd_net (\<lambda>n. n\<lparr>ipident := ipident n + 1\<rparr>) sg)"
  have mk: "icmp_mkpkt remip type ident seq buf (int n) s = Ret ?s1 p"
    using rd(1) g(1,3) cp by (simp add: icmp_mkpkt_def Let_def m1_def fs_def)
  have k1: "kinv {} ?s1"
    using icmp_mkpkt_safe [of "{}" "currpid s" s remip type ident seq buf "int n"] assms(1,2) by (simp add: mk mine_def)
  have s1: "kmem ?s1 = m2" "buftab ?s1 = buftab sg" "nbpools ?s1 = nbpools sg" "semtab ?s1 = semtab sg"
    "ipoqueue (net ?s1) = ipoqueue (net s)"
    by (simp_all add: set_kmem_def upd_net_def g(3) kmem_def)
  have pl: "pool_list ?s1 ?P bs"
  proof (rule pool_list_frame)
    show "pool_list sg ?P bs" using g(4) by (simp add: buf_of_def)
    fix x assume x: "x \<in> set bs"
    have "disj p (42 + n) x 4" by (rule apart [OF rd(2) [OF x]])
    then have "bytes_at m2 x 4 = bytes_at (kmem sg) x 4"
      unfolding m2_def using field_in_pkt [of p "42 + n" x 4 42 "BS D" m1] m1_fr lD by simp
    then show "rd32 (kmem ?s1) x = rd32 (kmem sg) x" unfolding s1(1) by (rule rd32_frame)
  qed (rule s1(2))
  show thesis
    by (rule that [of ?s1, folded p_def]) (use mk k1 msg s1 pl g m2_fr in \<open>simp_all add: D_def buf_of_def\<close>)
qed

section \<open>Echo requests\<close>

interpretation sem_kept: sched_blind "\<lambda>s. semtab s j = X" for j X
  by unfold_locales simp

lemma kpres_signal_other: "i \<noteq> j \<Longrightarrow> semtab s j = X \<Longrightarrow> kpres (\<lambda>s. semtab s j = X) (signal i s)"
  by (auto simp: signal_def signal_once_def count_up_def Let_def split_beta intro!: kpres_bind sem_kept.kpres_ready)

lemma signal_Ret: "signal i s = Ret s' r \<Longrightarrow> j \<noteq> i \<Longrightarrow> semtab s' j = semtab s j"
  using kpres_signal_other [of i j s "semtab s j"] by simp

text \<open>
  C14. An echo request is answered: a message with its identifier, its sequence number and its data, from
  this computer to the sender of the request, is at the end of the output queue, and the packets that
  waited there are before it.
\<close>

theorem icmp_echo_answered:
  assumes "kinv {} s" "currpid s \<noteq> NULLPROC" "icmp_msg (kmem s) pkt src dst ICMP_ECHOREQST ident seq D" "length D \<le> 1472"
    and "netbuf_ready s b bs (46 + length D)" "buf_of (netbufpool (net s)) pkt (b # bs) s"
      "disj (pkt - 4) (46 + length D) b (46 + length D)"
    and "iq_holds (ipoqueue (net s)) ps" "length ps < 8" "iqsem (ipoqueue (net s)) \<noteq> bpsem (buftab s (netbufpool (net s)))"
      "scount (semtab s (iqsem (ipoqueue (net s)))) < IP_OQSIZ"
  shows "\<exists>s' r. here (icmp_in pkt s) = Some (s', r) \<and> kinv {} s' \<and> iq_holds (ipoqueue (net s')) (ps @ [b + 4])
    \<and> icmp_msg (kmem s') (b + 4) (ipucast (netdata s)) src ICMP_ECHOREPLY ident seq D"
proof -
  let ?n = "length D" and ?P = "netbufpool (net s)" and ?q = "ipoqueue (net s)"
  have m: "kmem s (pkt + 34) = 8" "rd32 (kmem s) (pkt + 26) = src" "rd16 (kmem s) (pkt + 38) = ident" "rd16 (kmem s) (pkt + 40) = seq"
    "bytes_at (kmem s) (pkt + 42) ?n = D" and l: "rd16 (kmem s) (pkt + 16) = of_nat (28 + ?n)"
    using assms(3) by (simp_all add: icmp_msg_def)
  have "unat (rd16 (kmem s) (pkt + 16)) = 28 + ?n"
    unfolding l using assms(4) by (simp add: unsigned_of_nat take_bit_nat_eq_self del: of_nat_add)
  then have "uint (rd16 (kmem s) (pkt + 16)) = int (28 + ?n)" by (metis uint_nat)
  then have len: "uint (rd16 (kmem s) (pkt + 16)) - 20 - 8 = int ?n" by simp
  have "disj (pkt + 42) ?n b (46 + ?n)" using disj_shift [OF assms(7), of 46 ?n 0 "46 + ?n"] by (simp add: add.commute)
  then obtain s1 where s1: "icmp_mkpkt src (ucast ICMP_ECHOREPLY) ident seq (pkt + 42) (int ?n) s = Ret s1 (b + 4)" "kinv {} s1"
    "icmp_msg (kmem s1) (b + 4) (ipucast (netdata s)) src ICMP_ECHOREPLY ident seq D"
    "ipoqueue (net s1) = ?q" "pool_list s1 ?P bs" "0 \<le> ?P" "?P < nbpools s1"
    "bpsem (buftab s1 ?P) = bpsem (buftab s ?P)" "scount (semtab s1 (bpsem (buftab s ?P))) < INT32_MAX"
    "\<And>j. j \<noteq> bpsem (buftab s ?P) \<Longrightarrow> semtab s1 j = semtab s j"
    "\<And>x k. disj b (46 + ?n) x k \<Longrightarrow> bytes_at (kmem s1) x k = bytes_at (kmem s) x k"
    using icmp_mkpkt_here [OF assms(1,2,5,4), of "pkt + 42" src "ucast ICMP_ECHOREPLY" ident seq] m(5) by auto
  let ?s2 = "upd_ipq (iq_enq (b + 4)) s1"
  have sp: "sched_part ?s2 = sched_part s1" by (simp add: upd_ipq_def)
  have k2: "kinv {} ?s2" by (rule kinv_sched_part [OF sp s1(2)])
  have s2: "ipoqueue (net ?s2) = iq_enq (b + 4) ?q" "kmem ?s2 = kmem s1" "semtab ?s2 = semtab s1" "nbpools ?s2 = nbpools s1"
    "buftab ?s2 = buftab s1"
    using s1(4) by (simp_all add: upd_ipq_def upd_net_def kmem_def)
  have q2: "iq_holds (ipoqueue (net ?s2)) (ps @ [b + 4])" using iq_enq_holds [OF assms(8,9)] s2(1) by simp
  have sem: "iqsem (iq_enq (b + 4) ?q) = iqsem ?q" by (simp add: iq_enq_def Let_def)
  have "semcount (iqsem ?q) s1 < IP_OQSIZ" using s1(10) [OF assms(10)] assms(11) by (simp add: semcount_def)
  then have enq: "ip_enqueue (b + 4) s1 = kbind (signal (iqsem ?q) ?s2) (\<lambda>s2 _. Ret s2 OK)"
    using s1(4) s2(1) sem by (simp add: ip_enqueue_def Let_def)
  have b: "b + 4 \<noteq> PSYSERR" using assms(5) by (simp add: netbuf_ready_def Let_def)
  have e: "icmp_in pkt s = kbind (discard (ip_enqueue (b + 4) s1)) (\<lambda>s2 _. discard (freebuf pkt s2))"
    using m len s1(1) b by (simp add: icmp_in_def Let_def)
  have c: "scount (semtab ?s2 (iqsem ?q)) < INT32_MAX" using s1(10) [OF assms(10)] assms(11) s2(3) by simp
  obtain s3 r3 where s3: "here (signal (iqsem ?q) ?s2) = Some (s3, r3)" "kinv {} s3" "store s3 = store ?s2"
    by (rule here_signal [OF k2 c])
  note st = storeD [OF s3(3)]
  have q3: "iq_holds (ipoqueue (net s3)) (ps @ [b + 4])" and m3: "kmem s3 = kmem s1" using q2 st(8,9) s2(2) by simp_all
  show ?thesis
  proof (cases "signal (iqsem ?q) ?s2")
    case (Ctxsw s4 f)
    then have "here (icmp_in pkt s) = Some (s3, None)" using s3(1) by (simp add: e enq discard_def)
    then show ?thesis using s3(2) q3 m3 s1(3) by (intro exI [of _ s3] exI [of _ None]) simp
  next
    case (Ret s4 u)
    then have s4: "s4 = s3" using s3(1) by simp
    then have r: "icmp_in pkt s = discard (freebuf pkt s3)" using Ret by (simp add: e enq discard_def)
    have bt: "buftab s3 = buftab s1" "nbpools s3 = nbpools s1" using st(4,7) s2(4,5) by simp_all
    have "semtab s3 (bpsem (buftab s ?P)) = semtab s1 (bpsem (buftab s ?P))"
      using signal_Ret [OF Ret [unfolded s4]] assms(10) s2(3) by simp
    then have sc: "scount (semtab s3 (bpsem (buftab s3 ?P))) < INT32_MAX" using s1(8,9) bt by simp
    have "disj b (46 + ?n) (pkt - 4) 4" using disj_mono [OF disj_sym [OF assms(7)], of "46 + ?n" 4] by simp
    then have "rd32 (kmem s3) (pkt - 4) = rd32 (kmem s) (pkt - 4)" using s1(11) m3 by (intro rd32_frame) simp
    moreover have "pool_list s3 ?P bs" by (rule pool_list_frame [OF s1(5)]) (use bt m3 in simp_all)
    ultimately have bo: "buf_of ?P pkt bs s3" using assms(6) s1(6,7) bt by (simp add: buf_of_def)
    obtain s5 r5 v where s5: "here (freebuf pkt s3) = Some (s5, r5)" "kinv {} s5" "kmem s5 = put (kmem s3) (pkt - 4) (le32 v)"
        "net s5 = net s3"
      by (rule freebuf_here [OF s3(2) bo sc])
    have "disj (pkt - 4) 4 (b + 4) (42 + ?n)" using disj_shift [OF assms(7), of 0 4 4 "42 + ?n"] by simp
    then have "bytes_at (kmem s5) (b + 4) (42 + ?n) = bytes_at (kmem s1) (b + 4) (42 + ?n)"
      unfolding s5(3) m3 by (intro put_frame) simp
    then have "icmp_msg (kmem s5) (b + 4) (ipucast (netdata s)) src ICMP_ECHOREPLY ident seq D"
      using s1(3) by (rule icmp_msg_moved)
    then show ?thesis using s5 q3 r
      by (intro exI [of _ s5] exI [of _ "map_option (\<lambda>_. ()) r5"]) (simp add: discard_def here_bind_Ret)
  qed (use s3(1) in simp)
qed

section \<open>The queue of an endpoint\<close>

text \<open>An endpoint from which \<open>k\<close> packets were taken.\<close>

definition icmp_taken :: "int \<Rightarrow> nat \<Rightarrow> kst \<Rightarrow> kst" where
  "icmp_taken i k = upd_icmp i (\<lambda>e. e\<lparr>ichead := int k\<rparr>)"

lemma icmp_taken_simps [simp]:
  "icmptab (net (icmp_taken i k s)) = (icmptab (net s))(i := (icmpe s i)\<lparr>ichead := int k\<rparr>)"
  "upd_icmp i (\<lambda>e. e\<lparr>ichead := int l\<rparr>) (icmp_taken i k s) = icmp_taken i l s"
  by (simp_all add: icmp_taken_def upd_icmp_def upd_net_def)

text \<open>
  C15. The array of an ICMP endpoint has eight places, and \<^verbatim>\<open>icmp_register\<close> starts at the first one. Each of
  the first eight packets is taken from its place, and the ninth read is outside of the array: the head of
  the queue goes back to zero only when it has come to the number of endpoints, ten.
\<close>

theorem icmp_queue_overrun:
  assumes "0 \<le> i" "i < ICMP_SLOTS" "icstate (icmpe s i) = ICMP_USED"
  shows "(\<forall>s0 remip. icmp_register remip s0 = (s, i) \<longrightarrow> icmp_taken i 0 s = s)
    \<and> (\<forall>k<8. icmp_pop i (icmp_taken i k s) = Ret (icmp_taken i (Suc k) s) (icqueue (icmpe s i) (int k)))
    \<and> (iccount (icmpe s i) \<noteq> 0 \<longrightarrow> icmp_recv i buff len timeout (icmp_taken i 8 s) = Stop Undefined (icmp_taken i 8 s))"
proof (intro conjI allI impI)
  fix s0 remip assume r: "icmp_register remip s0 = (s, i)"
  have "icmpe s i = (icmpe s i)\<lparr>ichead := 0\<rparr>"
    using r assms(1) by (auto simp: icmp_register_def upd_icmp_def upd_net_def split: if_splits option.splits)
  then show "icmp_taken i 0 s = s" by (simp add: icmp_taken_def upd_icmp_def upd_net_def)
next
  fix k :: nat assume "k < 8"
  then have "upd_icmp i (\<lambda>e. if ichead e + 1 \<ge> ICMP_SLOTS then e\<lparr>ichead := 0\<rparr> else e\<lparr>ichead := ichead e + 1\<rparr>) (icmp_taken i k s)
      = icmp_taken i (Suc k) s"
    by (simp add: icmp_taken_def upd_icmp_def upd_net_def add.commute)
  then show "icmp_pop i (icmp_taken i k s) = Ret (icmp_taken i (Suc k) s) (icqueue (icmpe s i) (int k))"
    using \<open>k < 8\<close> by (simp add: icmp_pop_def Let_def)
next
  assume "iccount (icmpe s i) \<noteq> 0"
  then show "icmp_recv i buff len timeout (icmp_taken i 8 s) = Stop Undefined (icmp_taken i 8 s)"
    using assms by (simp add: icmp_recv_def icmp_pop_def Let_def)
qed

section \<open>Samples\<close>

definition echo_net :: netst where
  "echo_net = net0\<lparr>ipoqueue := \<lparr>iqhead = 0, iqtail = 0, iqsem = 1, iqbuf = (\<lambda>k. 0)\<rparr>, NetData := (NetData net0)\<lparr>ipucast := 0x0a000002\<rparr>\<rparr>"

lemma icmp_echo_answered_witness:
  "\<exists>s s' r. kinv {} s \<and> icmp_msg (kmem s) 0x3004 0x0a000001 0x0a000002 ICMP_ECHOREQST 7 1 [1, 2, 3]
     \<and> here (icmp_in 0x3004 s) = Some (s', r) \<and> iq_holds (ipoqueue (net s')) [0x1004]
     \<and> icmp_msg (kmem s') 0x1004 0x0a000002 0x0a000001 ICMP_ECHOREPLY 7 1 [1, 2, 3]"
proof -
  define p :: u32 where "p = 0x3004"
  let ?m = "set_fields p [(net_iplen, B16 31), (net_ipproto, B8 IP_ICMP), (net_ipsrc, B32 0x0a000001), (net_ipdst, B32 0x0a000002),
    (net_ictype, B8 ICMP_ECHOREQST), (net_iccode, B8 0), (net_icident, B16 7), (net_icseq, B16 1), (net_icdata, BS [1, 2, 3])] (\<lambda>_. 0)"
  obtain s where s: "kinv {} s" "currpid s = 1" "net s = echo_net" "kmem s = links0 ?m" "bpsem (buftab s 0) = 0" "scount (semtab s 1) = 0"
      "pool_list s 0 [0x1000, 0x2000]" "nbpools s = 1" "\<And>n. n \<le> 2000 \<Longrightarrow> netbuf_ready s 0x1000 [0x2000] n"
    by (rule net_state [of echo_net ?m]) (simp_all add: echo_net_def net0_def)
  have sl: "bytes_at (kmem s) p (42 + length [1, 2, 3 :: u8]) = bytes_at ?m p (42 + length [1, 2, 3 :: u8])"
    using bytes_at_slice [OF links0_pkt(2) [OF p_def, of ?m], of 0 45] s(4) by simp
  have "bytes_at ?m (p + 42) (length [1, 2, 3 :: u8]) = [1, 2, 3]"
    using set_field_bytes [of "BS [1, 2, 3]" "p + 42"] by simp
  then have "icmp_msg ?m p 0x0a000001 0x0a000002 8 7 1 [1, 2, 3]" by (simp add: icmp_msg_def)
  then have g: "icmp_msg (kmem s) p 0x0a000001 0x0a000002 8 7 1 [1, 2, 3]" by (rule icmp_msg_moved [OF sl])
  have z: "rd32 (kmem s) (p - 4) = 0" unfolding s(4) by (rule pool_number_sample [OF p_def]) simp
  have b: "buf_of 0 p [0x1000, 0x2000] s" by (rule buf_of_sample [OF s(7,8) z]) (simp_all add: p_def al4_def)
  have d: "disj (p - 4) (46 + length [1, 2, 3 :: u8]) 0x1000 (46 + length [1, 2, 3 :: u8])"
    using apart_disj [of "0x3000" 49 "0x1000" 49 0] by (simp add: p_def)
  have q: "iq_holds (ipoqueue (net s)) []" "iqsem (ipoqueue (net s)) = 1" "netbufpool (net s) = 0" "ipucast (netdata s) = 0x0a000002"
    using s(3) by (simp_all add: echo_net_def iq_holds_def net0_def)
  have c: "currpid s \<noteq> NULLPROC" "length [1, 2, 3 :: u8] \<le> 1472" "length ([] :: u32 list) < 8" using s(2) by simp_all
  have nb: "netbuf_ready s 0x1000 [0x2000] (46 + length [1, 2, 3 :: u8])" "buf_of (netbufpool (net s)) p [0x1000, 0x2000] s"
    using s(9) b q(3) by simp_all
  have sm: "iqsem (ipoqueue (net s)) \<noteq> bpsem (buftab s (netbufpool (net s)))" "scount (semtab s (iqsem (ipoqueue (net s)))) < 8"
    using q(2,3) s(5,6) by simp_all
  obtain s' r where "here (icmp_in p s) = Some (s', r)" "iq_holds (ipoqueue (net s')) ([] @ [0x1000 + 4])"
      "icmp_msg (kmem s') (0x1000 + 4) (ipucast (netdata s)) 0x0a000001 ICMP_ECHOREPLY 7 1 [1, 2, 3]"
    using icmp_echo_answered [OF s(1) c(1) g c(2) nb d q(1) c(3) sm] by blast
  then show ?thesis
    using s(1) g q(4) unfolding p_def by (intro exI [of _ s] exI [of _ s'] exI [of _ r]) simp
qed

lemma icmp_queue_overrun_witness:
  "\<exists>s. icmp_recv 0 0x5000 10 0 (icmp_taken 0 8 s) = Stop Undefined (icmp_taken 0 8 s)"
proof -
  let ?s = "kst0\<lparr>net := net0\<lparr>icmptab := (\<lambda>i. \<lparr>icstate = ICMP_USED, icremip = 0, ichead = 0, ictail = 1, iccount = 1, icpid = 0,
    icqueue = (\<lambda>k. 0)\<rparr>)\<rparr>\<rparr>"
  show ?thesis using icmp_queue_overrun [of 0 ?s "0x5000" 10 0] by (intro exI [of _ ?s]) simp
qed

end
