(* ===== verification/Udpspec.thy ===== *)
theory Udpspec
  imports Netspec Icmpspec Netsample
begin

text \<open>
  UDP endpoints as a table of queues: which queue a datagram goes to, which datagram a read takes,
  and what a process that sends to its own computer gets back.
\<close>

section \<open>Queues of packets\<close>

definition udp_holds :: "udpentry \<Rightarrow> u32 list \<Rightarrow> bool" where
  "udp_holds e qs \<longleftrightarrow> 0 \<le> udhead e \<and> udhead e < UDP_QSIZ \<and> udtail e = (udhead e + int (length qs)) mod UDP_QSIZ
     \<and> udcount e = int (length qs) \<and> ring 8 (udqueue e) (udhead e) qs \<and> length qs \<le> 8"

lemma udp_enq_holds:
  assumes "udp_holds e qs" "length qs < 8"
  shows "udp_holds (udp_enq pkt e) (qs @ [pkt])"
proof -
  have t: "0 \<le> udtail e" "udtail e < 8" "udtail e = (udhead e + int (length qs)) mod 8"
    using assms(1) by (simp_all add: udp_holds_def)
  have "ring 8 ((udqueue e)(udtail e := pkt)) (udhead e) (qs @ [pkt])"
    unfolding t(3) using assms by (intro ring_store) (simp_all add: udp_holds_def)
  moreover have "(if udtail e + 1 \<ge> 8 then 0 else udtail e + 1) = (udhead e + int (length (qs @ [pkt]))) mod 8"
    using wrap_up [OF t(1,2)] t(3) by (simp add: algebra_simps mod_simps)
  ultimately show ?thesis
    using assms by (auto simp: udp_enq_def udp_holds_def Let_def)
qed

interpretation udpq: bounded_fifo udp_holds udp_enq udp_deq udp_head 8
proof
  fix e x xs
  show "length xs < 8 \<Longrightarrow> udp_holds e xs \<Longrightarrow> udp_holds (udp_enq x e) (xs @ [x])" by (rule udp_enq_holds)
  assume h: "udp_holds e (x # xs)"
  then have r: "0 \<le> udhead e" "udhead e < 8" "udqueue e (udhead e) = x" "ring 8 (udqueue e) ((udhead e + 1) mod 8) xs"
    unfolding udp_holds_def ring_head by (auto simp: mod_pos_pos_trivial)
  show "udp_head e = x" using r(3) by (simp add: udp_head_def)
  have "udtail e = ((udhead e + 1) mod 8 + int (length xs)) mod 8"
    using h by (simp add: udp_holds_def mod_simps ac_simps)
  then show "udp_holds (udp_deq e) xs"
    using h r wrap_up [OF r(1,2)] by (auto simp: udp_deq_def udp_holds_def Let_def)
qed

section \<open>The table of endpoints\<close>

text \<open>
  An endpoint: the address and port of the remote side, zero if they do not matter, the local port,
  and the packets that wait to be read. A datagram: its source address and its two ports.
\<close>

type_synonym udp_addr = "u32 \<times> u16 \<times> u16"
type_synonym udp_endpoint = "udp_addr \<times> u32 list"

definition udp_items :: "udpentry \<Rightarrow> u32 list" where
  "udp_items e = map (\<lambda>k. udqueue e ((udhead e + int k) mod UDP_QSIZ)) [0..<nat (udcount e)]"

definition udp_table :: "kst \<Rightarrow> int \<Rightarrow> udp_endpoint option" where
  "udp_table s i = (let e = udpe s i in
     if udstate e = UDP_FREE then None else Some ((udremip e, udremport e, udlocport e), udp_items e))"

definition udp_ok :: "kst \<Rightarrow> bool" where
  "udp_ok s \<longleftrightarrow> (\<forall>i. 0 \<le> i \<and> i < UDP_SLOTS \<and> udstate (udpe s i) \<noteq> UDP_FREE \<longrightarrow> udp_holds (udpe s i) (udp_items (udpe s i)))"

definition dgram :: "memory \<Rightarrow> u32 \<Rightarrow> u32 \<times> u16 \<times> u16" where
  "dgram m pkt = (rd32 m (pkt + net_ipsrc), rd16 m (pkt + net_udpsport), rd16 m (pkt + net_udpdport))"

fun accepts :: "udp_addr \<Rightarrow> u32 \<times> u16 \<times> u16 \<Rightarrow> bool" where
  "accepts (remip, remport, locport) (src, sport, dport) \<longleftrightarrow>
     dport = locport \<and> (remport = 0 \<or> sport = remport) \<and> (remip = 0 \<or> src = remip)"

text \<open>The first endpoint that accepts a datagram and has room for it.\<close>

definition udp_slot :: "(int \<Rightarrow> udp_endpoint option) \<Rightarrow> u32 \<times> u16 \<times> u16 \<Rightarrow> int option" where
  "udp_slot T d = List.find (\<lambda>i. case T i of None \<Rightarrow> False | Some (a, q) \<Rightarrow> accepts a d \<and> length q < 8) [0..UDP_SLOTS - 1]"

lemma udp_items_holds: "udp_holds e qs \<Longrightarrow> udp_items e = qs"
  by (rule nth_equalityI) (auto simp: udp_items_def udp_holds_def ring_def)

lemma udp_takes_slot:
  assumes "udp_ok s"
  shows "List.find (udp_takes s pkt) [0..UDP_SLOTS - 1] = udp_slot (udp_table s) (dgram (kmem s) pkt)"
  unfolding udp_slot_def
proof (rule find_cong [OF refl])
  fix i assume "i \<in> set [0..UDP_SLOTS - 1]"
  then have "udstate (udpe s i) \<noteq> UDP_FREE \<Longrightarrow> udp_holds (udpe s i) (udp_items (udpe s i))" using assms by (simp add: udp_ok_def)
  then have "udstate (udpe s i) \<noteq> UDP_FREE \<Longrightarrow> udcount (udpe s i) = int (length (udp_items (udpe s i)))" by (simp add: udp_holds_def)
  then show "udp_takes s pkt i = (case udp_table s i of None \<Rightarrow> False | Some (a, q) \<Rightarrow> accepts a (dgram (kmem s) pkt) \<and> length q < 8)"
    by (auto simp: udp_takes_def udp_match_def udp_table_def dgram_def Let_def)
qed

lemma udp_slot_range: "udp_slot T d = Some i \<Longrightarrow> 0 \<le> i \<and> i < UDP_SLOTS \<and> (\<exists>a q. T i = Some (a, q) \<and> accepts a d \<and> length q < 8)"
  unfolding udp_slot_def by (drule find_SomeD) (auto split: option.splits)

lemma net_upd_udp [simp]:
  "udptab (net (upd_udp i f s)) = (udptab (net s))(i := f (udpe s i))" "kmem (upd_udp i f s) = kmem s"
  "currpid (upd_udp i f s) = currpid s" "netdata (upd_udp i f s) = netdata s" "netbufpool (net (upd_udp i f s)) = netbufpool (net s)"
  "semtab (upd_udp i f s) = semtab s" "buftab (upd_udp i f s) = buftab s" "nbpools (upd_udp i f s) = nbpools s"
  "proctab (upd_udp i f s) = proctab s"
  by (simp_all add: upd_udp_def upd_net_def kmem_def)

lemma sched_part_udp [simp]: "sched_part (upd_udp i f s) = sched_part s"
  by (simp add: upd_udp_def)

text \<open>A packet put into the queue of an endpoint that takes it.\<close>

lemma udp_in_post:
  assumes "udp_ok s" "udp_slot (udp_table s) (dgram (kmem s) pkt) = Some i" "x \<noteq> UDP_FREE"
    and "udptab (net s') = (udptab (net s))(i := (udp_enq pkt (udpe s i))\<lparr>udstate := x\<rparr>)"
  shows "udp_ok s'" "udp_table s' = (udp_table s)(i := map_option (apsnd (\<lambda>q. q @ [pkt])) (udp_table s i))"
proof -
  let ?e = "udpe s i"
  obtain q where i: "0 \<le> i" "i < 6" "udstate ?e \<noteq> UDP_FREE" "q = udp_items ?e" "length q < 8"
    using udp_slot_range [OF assms(2)] by (auto simp: udp_table_def Let_def split: if_splits)
  then have "udp_holds ?e q" using assms(1) by (simp add: udp_ok_def)
  then have "udp_holds (udp_enq pkt ?e) (q @ [pkt])" using i(5) by (rule udp_enq_holds)
  then have h: "udp_holds ((udp_enq pkt ?e)\<lparr>udstate := x\<rparr>) (q @ [pkt])" by (simp add: udp_holds_def)
  have st: "udremip (udp_enq pkt ?e) = udremip ?e" "udremport (udp_enq pkt ?e) = udremport ?e" "udlocport (udp_enq pkt ?e) = udlocport ?e"
    by (simp_all add: udp_enq_def Let_def)
  show "udp_ok s'" "udp_table s' = (udp_table s)(i := map_option (apsnd (\<lambda>q. q @ [pkt])) (udp_table s i))"
    using assms st i(3,4) h udp_items_holds [OF h] by (auto simp: udp_ok_def udp_table_def Let_def fun_eq_iff)
qed

lemma udp_in_slot:
  assumes "udp_ok s" "udp_slot (udp_table s) (dgram (kmem s) pkt) = Some i"
  shows "udp_in pkt s = (if udstate (udpe s i) = UDP_RECV
      then discard (send (udpid (udpe s i)) (word_of_int OK) (upd_udp i (\<lambda>e. (udp_enq pkt e)\<lparr>udstate := UDP_USED\<rparr>) s))
      else Ret (upd_udp i (udp_enq pkt) s) ())"
proof -
  have "udstate (udp_enq pkt (udpe s i)) = udstate (udpe s i)" "udpid (udp_enq pkt (udpe s i)) = udpid (udpe s i)"
    by (simp_all add: udp_enq_def Let_def)
  then show ?thesis
    using udp_takes_slot [OF assms(1), of pkt] assms(2) by (simp add: udp_in_def Let_def upd_udp_def upd_net_def)
qed

text \<open>
  C11. A datagram is appended to the queue of the first endpoint that accepts it and has room, the
  other endpoints are as before, and a process that waits at the endpoint is sent \<open>OK\<close>; if there is no
  such endpoint the buffer is freed and nothing else happens.
\<close>

theorem udp_in_delivers:
  assumes "kinv {} s" "udp_ok s"
  shows "case udp_slot (udp_table s) (dgram (kmem s) pkt) of
      None \<Rightarrow> udp_in pkt s = discard (freebuf pkt s)
    | Some i \<Rightarrow> \<exists>s' r. here (udp_in pkt s) = Some (s', r) \<and> kinv {} s' \<and> udp_ok s' \<and> kmem s' = kmem s
        \<and> udp_table s' = (udp_table s)(i := map_option (apsnd (\<lambda>q. q @ [pkt])) (udp_table s i))
        \<and> kabs s' = (if udstate (udpe s i) = UDP_RECV then fst (a_send (udpid (udpe s i)) (word_of_int OK) (kabs s)) else kabs s)"
proof (cases "udp_slot (udp_table s) (dgram (kmem s) pkt)")
  case None
  then show ?thesis using udp_takes_slot [OF assms(2), of pkt] by (simp add: udp_in_def)
next
  case (Some i)
  let ?e = "udpe s i"
  let ?s1 = "upd_udp i (udp_enq pkt) s" and ?s2 = "upd_udp i (\<lambda>e. (udp_enq pkt e)\<lparr>udstate := UDP_USED\<rparr>) s"
  note post = udp_in_post [OF assms(2) Some]
  show ?thesis
  proof (cases "udstate ?e = UDP_RECV")
    case True
    have "kinv {} ?s2" by (rule kinv_sched_part [OF _ assms(1)]) simp
    then obtain s' where s': "here (send (udpid ?e) (word_of_int OK) ?s2) = Some (s', snd (a_send (udpid ?e) (word_of_int OK) (kabs ?s2)))"
        "kinv {} s'" "kabs s' = fst (a_send (udpid ?e) (word_of_int OK) (kabs ?s2))"
      using refines_here [OF send_abs] by blast
    have "store s' = store ?s2" using keeps_send [of ?s2] s'(1) by (auto simp: keeps_def)
    moreover have "kabs ?s2 = kabs s" by (rule kabs_sched_part) simp
    ultimately show ?thesis
      using post [of UDP_USED s'] storeD(8,9) [of s' ?s2] s' Some True
      by (auto simp: udp_in_slot [OF assms(2) Some] discard_def here_bind_Ret)
  next
    case False
    have "kinv {} ?s1" by (rule kinv_sched_part [OF _ assms(1)]) simp
    moreover have "kabs ?s1 = kabs s" by (rule kabs_sched_part) simp
    moreover have "udstate ?e \<noteq> UDP_FREE"
      using udp_slot_range [OF Some] by (auto simp: udp_table_def Let_def split: if_splits)
    moreover have "udptab (net ?s1) = (udptab (net s))(i := (udp_enq pkt ?e)\<lparr>udstate := udstate ?e\<rparr>)"
      by (simp add: fun_eq_iff udp_enq_def Let_def)
    ultimately show ?thesis
      using post [of "udstate ?e" ?s1] Some False by (simp add: udp_in_slot [OF assms(2) Some])
  qed
qed

section \<open>Reading\<close>

text \<open>The data of a UDP packet, by the length in its header.\<close>

definition udp_data :: "memory \<Rightarrow> u32 \<Rightarrow> u8 list" where
  "udp_data m pkt = bytes_at m (pkt + net_udpdata) (unat (rd16 m (pkt + net_udplen)) - 8)"

lemma cut_length: "8 \<le> u \<Longrightarrow> 0 \<le> l \<Longrightarrow> (if l < int u - 8 then l else int u - 8) = int (min (nat l) (u - 8))"
  by auto

text \<open>The caller's \<open>n\<close> bytes are no part of the packet and of the links of the pool.\<close>

definition free_room :: "u32 \<Rightarrow> nat \<Rightarrow> u32 \<Rightarrow> u32 list \<Rightarrow> bool" where
  "free_room buff n pkt bs \<longleftrightarrow> disj buff n (pkt + net_udpdata) n \<and> disj buff n (pkt - 4) 4 \<and> (\<forall>b\<in>set bs. disj buff n b 4)"

lemma udp_recv_first:
  assumes "kinv {} s" "udp_ok s" "0 \<le> slot" "slot < UDP_SLOTS" "udstate (udpe s slot) = UDP_USED"
    and "udp_table s slot = Some (addr, pkt # q)" "8 \<le> unat (rd16 (kmem s) (pkt + net_udplen))" "0 \<le> len"
    and "buf_of i pkt bs s" "scount (semtab s (bpsem (buftab s i))) < INT32_MAX"
    and "n = min (nat len) (length (udp_data (kmem s) pkt))" "free_room buff n pkt bs"
  obtains s' r where "here (udp_recv slot buff len timeout s) = Some (s', r)" "r = None \<or> r = Some (int n)" "kinv {} s'"
    "bytes_at (kmem s') buff n = take n (udp_data (kmem s) pkt)"
    "udp_ok s'" "udp_table s' = (udp_table s)(slot := Some (addr, q))" "pool_list s' i ((pkt - 4) # bs)"
proof -
  let ?e = "udpe s slot" and ?m = "kmem s"
  let ?l = "uint (rd16 ?m (pkt + 38)) - 8"
  have it: "udp_items ?e = pkt # q" "addr = (udremip ?e, udremport ?e, udlocport ?e)"
    using assms(5,6) by (simp_all add: udp_table_def Let_def)
  have h: "udp_holds ?e (pkt # q)" using assms(2-5) it(1) by (auto simp: udp_ok_def)
  then have hd: "udcount ?e \<noteq> 0" "udp_head ?e = pkt" "udp_holds (udp_deq ?e) q"
    using udpq.holds_first udpq.holds_deq by (auto simp: udp_holds_def)
  have len: "(if len < ?l then len else ?l) = int n" "length (udp_data ?m pkt) = nat ?l"
  proof -
    have "uint (rd16 ?m (pkt + 38)) = int (unat (rd16 ?m (pkt + 38)))" by simp
    then show "(if len < ?l then len else ?l) = int n" "length (udp_data ?m pkt) = nat ?l"
      using cut_length [OF assms(7,8)] assms(11) by (simp_all only: udp_data_def length_bytes_at)
  qed
  let ?s2 = "upd_udp slot udp_deq s"
  let ?m2 = "memcpy_loop n ?m buff (pkt + 42)"
  let ?s3 = "set_kmem ?m2 ?s2"
  have put2: "?m2 = put ?m buff (bytes_at ?m (pkt + 42) n)"
    using assms(12) by (intro memcpy_put) (simp add: free_room_def)
  have cp: "udp_copy pkt buff len ?m = (?m2, int n)" unfolding udp_copy_def Let_def len(1) by simp
  have e: "udp_recv slot buff len timeout s = kbind (freebuf pkt ?s3) (\<lambda>s3 _. Ret s3 (int n))"
    using assms(3-5) hd(1,2) cp by (simp add: udp_recv_def udp_await_def Let_def)
  have k3: "kinv {} ?s3" by (rule kinv_sched_part [OF _ assms(1)]) simp
  have fr: "bytes_at ?m2 a 4 = bytes_at ?m a 4" if "a = pkt - 4 \<or> a \<in> set bs" for a
    using that assms(12) unfolding put2 by (intro put_frame) (auto simp: free_room_def)
  have "buf_of i pkt bs ?s3" by (rule buf_of_frame [OF assms(9)]) (simp_all add: fr)
  moreover have "scount (semtab ?s3 (bpsem (buftab ?s3 i))) < INT32_MAX" using assms(10) by (simp add: set_kmem_def)
  ultimately obtain s' r v where s': "here (freebuf pkt ?s3) = Some (s', r)" "r = None \<or> r = Some OK" "kinv {} s'"
      "kmem s' = put (kmem ?s3) (pkt - 4) (le32 v)" "net s' = net ?s3" "pool_list s' i ((pkt - 4) # bs)"
    using freebuf_here [OF k3] by metis
  have "bytes_at (kmem s') buff n = bytes_at ?m2 buff n"
    unfolding s'(4) by (simp add: kmem_def set_kmem_def) (rule put_frame, use assms(12) disj_sym in \<open>simp add: free_room_def\<close>)
  also have "\<dots> = bytes_at ?m (pkt + 42) n"
    using put_bytes_at [of "bytes_at ?m (pkt + 42) n" ?m buff] assms(11) unat_u16_lt [of "rd16 ?m (pkt + 38)"]
    unfolding put2 by (simp add: udp_data_def)
  also have "\<dots> = take n (udp_data ?m pkt)"
    using assms(11) by (simp add: udp_data_def bytes_at_def take_map)
  finally have b: "bytes_at (kmem s') buff n = take n (udp_data ?m pkt)" .
  have "udptab (net ?s3) = (udptab (net s))(slot := udp_deq ?e)" by (simp add: set_kmem_def upd_udp_def upd_net_def)
  then have "udptab (net s') = (udptab (net s))(slot := udp_deq ?e)" using s'(5) by simp
  moreover have "udstate (udp_deq ?e) = udstate ?e" "udremip (udp_deq ?e) = udremip ?e" "udremport (udp_deq ?e) = udremport ?e"
    "udlocport (udp_deq ?e) = udlocport ?e" by (simp_all add: udp_deq_def Let_def)
  ultimately have "udp_ok s'" "udp_table s' = (udp_table s)(slot := Some (addr, q))"
    using assms(2,5) it(2) hd(3) udp_items_holds [OF hd(3)] by (auto simp: udp_ok_def udp_table_def Let_def fun_eq_iff)
  then show thesis
    using that [of s' "map_option (\<lambda>_. int n) r"] s' b by (cases r) (auto simp: e here_bind_Ret)
qed

text \<open>
  A read at an endpoint with packets takes the oldest one: the caller gets the data of that packet, cut
  to the length of the caller's buffer, and the packet's buffer goes back to the pool.
\<close>

theorem udp_recv_oldest:
  assumes "kinv {} s" "udp_ok s" "0 \<le> slot" "slot < UDP_SLOTS" "udstate (udpe s slot) = UDP_USED"
    and "udp_table s slot = Some (addr, pkt # q)" "8 \<le> unat (rd16 (kmem s) (pkt + net_udplen))" "0 \<le> len"
    and "buf_of i pkt bs s" "scount (semtab s (bpsem (buftab s i))) < INT32_MAX"
    and "n = min (nat len) (length (udp_data (kmem s) pkt))" "free_room buff n pkt bs"
  shows "\<exists>s' r. here (udp_recv slot buff len timeout s) = Some (s', r) \<and> (r = None \<or> r = Some (int n)) \<and> kinv {} s'
    \<and> bytes_at (kmem s') buff n = take n (udp_data (kmem s) pkt)
    \<and> udp_ok s' \<and> udp_table s' = (udp_table s)(slot := Some (addr, q)) \<and> pool_list s' i ((pkt - 4) # bs)"
  by (rule udp_recv_first [OF assms, where timeout = timeout]) blast

section \<open>Sending to oneself\<close>

lemma udp_fill_frame:
  assumes "disj p 42 x j" "length (ethucast nd) = 6"
  shows "bytes_at (udp_fill p nd ident remip remport locport len m) x j = bytes_at m x j"
  unfolding udp_fill_def Let_def using assms by (intro fields_in_pkt [of p 42]) simp_all

lemma body_reads:
  assumes "length D \<le> 1472"
  shows "set_field (p + net_udpdata) (BS D) m (p + net_ipproto) = m (p + net_ipproto)"
    "rd32 (set_field (p + net_udpdata) (BS D) m) (p + net_ipsrc) = rd32 m (p + net_ipsrc)"
    "rd32 (set_field (p + net_udpdata) (BS D) m) (p + net_ipdst) = rd32 m (p + net_ipdst)"
    "rd16 (set_field (p + net_udpdata) (BS D) m) (p + net_udpsport) = rd16 m (p + net_udpsport)"
    "rd16 (set_field (p + net_udpdata) (BS D) m) (p + net_udpdport) = rd16 m (p + net_udpdport)"
    "rd16 (set_field (p + net_udpdata) (BS D) m) (p + net_udplen) = rd16 m (p + net_udplen)"
    "bytes_at (set_field (p + net_udpdata) (BS D) m) (p + net_udpdata) (length D) = D"
  using assms set_field_bytes [of "BS D" "p + net_udpdata" m] by simp_all

lemma udp_fill_reads:
  assumes "length (ethucast nd) = 6" "m' = udp_fill p nd ident remip remport locport len m"
  shows "rd32 m' (p + net_ipdst) = remip" "rd32 m' (p + net_ipsrc) = ipucast nd" "m' (p + net_ipproto) = IP_UDP"
    "rd16 m' (p + net_udpsport) = locport" "rd16 m' (p + net_udpdport) = remport"
    "rd16 m' (p + net_udplen) = word_of_int (8 + len)"
  using assms(1) by (simp_all add: assms(2) udp_fill_def)

lemma udp_send_local:
  assumes "kinv {} s" "currpid s \<noteq> NULLPROC" "udp_ok s"
    and i: "0 \<le> i" "i < UDP_SLOTS" "udp_table s i = Some ((remip, remport, locport), qi)" "remip \<noteq> 0"
    and dst: "remip = ipucast (netdata s) \<or> remip AND 0xff000000 = 0x7f000000"
    and j: "udp_slot (udp_table s) (ipucast (netdata s), locport, remport) = Some j" "udstate (udpe s j) = UDP_USED"
      "udp_table s j = Some (a, q)"
    and b: "netbuf_ready s b bs (46 + n)" "n \<le> 1472" "disj buf n b (46 + n)"
  obtains s1 where "udp_send i buf (int n) s = Ret s1 OK" "kinv {} s1" "udp_ok s1"
    "udp_table s1 = (udp_table s)(j := Some (a, q @ [b + 4]))" "udp_data (kmem s1) (b + 4) = bytes_at (kmem s) buf n"
    "buf_of (netbufpool (net s)) (b + 4) bs s1" "udstate (udpe s1 j) = UDP_USED"
    "unat (rd16 (kmem s1) (b + 4 + net_udplen)) = 8 + n"
    "scount (semtab s1 (bpsem (buftab s1 (netbufpool (net s))))) < INT32_MAX"
proof -
  let ?P = "netbufpool (net s)" and ?nd = "netdata s" and ?e = "udpe s i"
  define p where "p = b + 4"
  have e: "udstate ?e \<noteq> UDP_FREE" "udremip ?e = remip" "udremport ?e = remport" "udlocport ?e = locport"
    using i(3) by (auto simp: udp_table_def Let_def split: if_splits)
  obtain sg where g: "getbuf ?P s = Ret sg p" "kmem sg = put (kmem s) b (le32 (word_of_int ?P))" "net sg = net s"
      "buf_of ?P p bs sg" "bpsem (buftab sg ?P) = bpsem (buftab s ?P)" "scount (semtab sg (bpsem (buftab s ?P))) < INT32_MAX"
      "currpid sg = currpid s"
    unfolding p_def by (rule getbuf_ready [OF b(1)])
  have rd: "p \<noteq> PSYSERR" "\<And>x. x \<in> set bs \<Longrightarrow> disj b (46 + n) x 4" "length (ethucast ?nd) = 6"
    using b(1) by (simp_all add: netbuf_ready_def Let_def p_def)
  have apart: "disj p (42 + n) x k" if "disj b (46 + n) x k" for x k
    using disj_shift [OF that, of 4 "42 + n" 0 k] by (simp add: p_def)
  have apart_b: "disj p (42 + n) b 4"
    using apart_disj [of 4 "42 + n" 0 4 b] b(2) by (simp add: apart_def p_def)
  define m1 where "m1 = udp_fill p ?nd (sendident (net s)) remip remport locport (int n) (kmem sg)"
  define D where "D = bytes_at (kmem s) buf n"
  have lD: "length D = n" by (simp add: D_def)
  define m2 where "m2 = set_field (p + 42) (BS D) m1"
  have m1_fr: "bytes_at m1 x k = bytes_at (kmem sg) x k" if "disj p (42 + n) x k" for x k
    unfolding m1_def using disj_mono [OF that, of 42 k] rd(3) by (intro udp_fill_frame) simp_all
  have m2_fr: "bytes_at m2 x k = bytes_at (kmem sg) x k" if "disj p (42 + n) x k" for x k
    unfolding m2_def using field_in_pkt [OF that, of 42 "BS D" m1] m1_fr [OF that] lD by simp
  note fr = udp_fill_reads [OF rd(3) m1_def]
  have "bytes_at m1 buf n = bytes_at (kmem sg) buf n" by (rule m1_fr [OF apart [OF disj_sym [OF b(3)]]])
  also have "\<dots> = D"
    unfolding g(2) D_def using disj_mono [OF disj_sym [OF b(3)], of 4 n] by (intro put_frame) simp
  finally have src: "bytes_at m1 buf n = D" .
  have "disj (p + 42) n buf n"
    using disj_shift [OF apart [OF disj_sym [OF b(3)]], of 42 n 0 n] by simp
  then have cp: "fst (memcpy m1 (p + 42) buf (int n)) = m2"
    by (simp add: memcpy_def memcpy_put src m2_def set_field_def)
  have r2: "rd32 m2 (p + 30) = remip" "rd32 m2 (p + 26) = ipucast ?nd" "m2 (p + 23) = IP_UDP"
    "rd16 m2 (p + 34) = locport" "rd16 m2 (p + 36) = remport" "rd16 m2 (p + 38) = word_of_int (8 + int n)"
    "bytes_at m2 (p + 42) n = D"
    unfolding m2_def using fr body_reads [of D p m1] b(2) lD by simp_all
  have len: "unat (rd16 m2 (p + 38)) = 8 + n"
  proof -
    have "rd16 m2 (p + 38) = of_nat (8 + n)" by (simp add: r2(6))
    then show ?thesis using b(2) by (simp add: unsigned_of_nat take_bit_nat_eq_self del: of_nat_add)
  qed
  define s2 where "s2 = set_kmem m2 (upd_net (\<lambda>n. n\<lparr>sendident := sendident n + 1\<rparr>) sg)"
  have s2: "kmem s2 = m2" "netdata s2 = ?nd" "udptab (net s2) = udptab (net s)" "buftab s2 = buftab sg" "nbpools s2 = nbpools sg"
    "semtab s2 = semtab sg"
    by (simp_all add: s2_def set_kmem_def upd_net_def g(3) kmem_def)
  have us: "udp_send i buf (int n) s = kbind (ip_send p s2) (\<lambda>s3 _. Ret s3 OK)"
    using i e rd(1) g(1,3) cp by (simp add: udp_send_def Let_def s2_def m1_def)
  have t2: "udp_ok s2" "udp_table s2 = udp_table s" "dgram (kmem s2) p = (ipucast ?nd, locport, remport)"
    using assms(3) r2 by (simp_all add: udp_ok_def udp_table_def s2 dgram_def fun_eq_iff)
  have sl: "udp_slot (udp_table s2) (dgram (kmem s2) p) = Some j" using j(1) t2 by simp
  let ?s1 = "upd_udp j (udp_enq p) s2"
  have lc: "ip_local p s2 = Ret ?s1 ()"
    using r2(3) j(2) s2 udp_in_slot [OF t2(1) sl] by (simp add: ip_local_def)
  have snd: "udp_send i buf (int n) s = Ret ?s1 OK"
    unfolding us using dst r2(1) s2(1,2) lc by (auto simp: ip_send_def Let_def)
  have k1: "kinv {} ?s1"
    using udp_send_safe [of "{}" "currpid s" s i buf "int n"] assms(1,2) by (simp add: snd mine_def)
  have post: "udp_ok ?s1" "udp_table ?s1 = (udp_table s2)(j := map_option (apsnd (\<lambda>q. q @ [p])) (udp_table s2 j))"
    using udp_in_post [OF t2(1) sl, of UDP_USED ?s1] j(2) s2(3) by (simp_all add: udp_enq_def Let_def fun_eq_iff)
  have bo: "buf_of ?P p bs ?s1"
  proof (rule buf_of_frame [OF g(4)])
    fix x assume "x = p - 4 \<or> x \<in> set bs"
    then show "bytes_at (kmem ?s1) x 4 = bytes_at (kmem sg) x 4"
      using m2_fr [OF apart_b] m2_fr [OF apart [OF rd(2)]] s2(1) by (auto simp: p_def)
  qed (simp_all add: s2)
  have ud: "udp_data (kmem ?s1) p = D"
    using len r2(7) by (simp add: udp_data_def s2)
  have us1: "udstate (udpe ?s1 j) = UDP_USED" "udp_table ?s1 = (udp_table s)(j := Some (a, q @ [p]))"
    using post(2) t2(2) j(2,3) s2(3) by (simp_all add: udp_enq_def Let_def)
  show thesis
    by (rule that [of ?s1, folded p_def]) (use snd k1 post(1) us1 ud D_def bo len g(5,6) s2 in simp_all)
qed

text \<open>
  C10. What a process sends to an address of its own computer is what the reader at the other endpoint
  gets: the first bytes that were sent, as many as fit, and afterwards the endpoints are as before and
  the buffer of the packet is free again.
\<close>

theorem udp_loopback:
  assumes "kinv {} s" "currpid s \<noteq> NULLPROC" "udp_ok s"
    and "0 \<le> i" "i < UDP_SLOTS" "udp_table s i = Some ((remip, remport, locport), qi)" "remip \<noteq> 0"
    and "remip = ipucast (netdata s) \<or> remip AND 0xff000000 = 0x7f000000"
    and "udp_slot (udp_table s) (ipucast (netdata s), locport, remport) = Some j" "udstate (udpe s j) = UDP_USED"
      "udp_table s j = Some (a, [])"
    and "netbuf_ready s b bs (46 + n)" "n \<le> 1472" "disj buf n b (46 + n)"
    and "0 \<le> len" "l = min (nat len) n" "free_room buff l (b + 4) bs"
  shows "\<exists>s1 s2 r. udp_send i buf (int n) s = Ret s1 OK \<and> here (udp_recv j buff len timeout s1) = Some (s2, r)
    \<and> (r = None \<or> r = Some (int l)) \<and> kinv {} s2 \<and> bytes_at (kmem s2) buff l = take l (bytes_at (kmem s) buf n)
    \<and> udp_ok s2 \<and> udp_table s2 = udp_table s \<and> pool_list s2 (netbufpool (net s)) (b # bs)"
proof (rule udp_send_local [OF assms(1-14)])
  fix s1 assume snd: "udp_send i buf (int n) s = Ret s1 OK" and k: "kinv {} s1" "udp_ok s1" and
    t: "udp_table s1 = (udp_table s)(j := Some (a, [] @ [b + 4]))" and d: "udp_data (kmem s1) (b + 4) = bytes_at (kmem s) buf n" and
    bo: "buf_of (netbufpool (net s)) (b + 4) bs s1" and u: "udstate (udpe s1 j) = UDP_USED" and
    len: "unat (rd16 (kmem s1) (b + 4 + net_udplen)) = 8 + n" and
    sc: "scount (semtab s1 (bpsem (buftab s1 (netbufpool (net s))))) < INT32_MAX"
  have j: "0 \<le> j" "j < UDP_SLOTS" using udp_slot_range [OF assms(9)] by simp_all
  have tj: "udp_table s1 j = Some (a, [b + 4])" using t by simp
  have l: "l = min (nat len) (length (udp_data (kmem s1) (b + 4)))" using assms(16) by (simp add: d)
  have len8: "8 \<le> unat (rd16 (kmem s1) (b + 4 + net_udplen))" unfolding len by simp
  obtain s2 r where s2: "here (udp_recv j buff len timeout s1) = Some (s2, r)" "r = None \<or> r = Some (int l)" "kinv {} s2"
      "bytes_at (kmem s2) buff l = take l (udp_data (kmem s1) (b + 4))"
      "udp_ok s2" "udp_table s2 = (udp_table s1)(j := Some (a, []))" "pool_list s2 (netbufpool (net s)) ((b + 4 - 4) # bs)"
    by (rule udp_recv_first [OF k j u tj len8 assms(15) bo sc l assms(17), where timeout = timeout])
  have "udp_table s2 = udp_table s" using s2(6) t assms(11) by (simp add: fun_eq_iff)
  then show ?thesis using snd s2 d by auto
qed

section \<open>Samples\<close>

text \<open>Endpoint 0 listens at port 53, endpoint 1 sends to it, and a packet waits at endpoint 2.\<close>

definition udp_ep :: "u32 \<Rightarrow> u16 \<Rightarrow> u16 \<Rightarrow> u32 list \<Rightarrow> udpentry" where
  "udp_ep remip remport locport qs = \<lparr>udstate = UDP_USED, udremip = remip, udremport = remport, udlocport = locport,
     udhead = 0, udtail = int (length qs), udcount = int (length qs), udpid = - 1, udqueue = (\<lambda>k. qs ! nat k)\<rparr>"

definition udp_net :: netst where
  "udp_net = net0\<lparr>udptab := (udptab net0)(0 := udp_ep 0 0 53 [], 1 := udp_ep 0x0a000002 53 50000 [], 2 := udp_ep 0 0 54 [0x3004]),
     NetData := (NetData net0)\<lparr>ipucast := 0x0a000002\<rparr>\<rparr>"

lemma udp_ep_holds: "length qs < 8 \<Longrightarrow> udp_holds (udp_ep a b c qs) qs"
  by (auto simp: udp_holds_def udp_ep_def ring_def mod_pos_pos_trivial)

lemma udp_net_state:
  assumes "net s = udp_net"
  shows "udp_ok s" "udp_table s 0 = Some ((0, 0, 53), [])" "udp_table s 1 = Some ((0x0a000002, 53, 50000), [])"
    "udp_table s 2 = Some ((0, 0, 54), [0x3004])" "udstate (udpe s 0) = UDP_USED" "udstate (udpe s 2) = UDP_USED"
    "udp_slot (udp_table s) (src, sport, 53) = Some 0" "ipucast (netdata s) = 0x0a000002"
proof -
  have it: "udp_items (udp_ep a b c qs) = qs" if "length qs < 8" for a b c qs
    by (rule udp_items_holds [OF udp_ep_holds [OF that]])
  have tab: "udpe s i = (if i = 0 then udp_ep 0 0 53 [] else if i = 1 then udp_ep 0x0a000002 53 50000 []
      else if i = 2 then udp_ep 0 0 54 [0x3004] else udptab net0 i)" for i
    using assms by (simp add: udp_net_def)
  have free: "udstate (udptab net0 i) = UDP_FREE" for i by (simp add: net0_def)
  show "udp_ok s" using udp_ep_holds it by (simp add: udp_ok_def tab free)
  show t: "udp_table s 0 = Some ((0, 0, 53), [])" "udp_table s 1 = Some ((0x0a000002, 53, 50000), [])"
    "udp_table s 2 = Some ((0, 0, 54), [0x3004])"
    using it by (simp_all add: udp_table_def tab Let_def) (simp_all add: udp_ep_def)
  show "udstate (udpe s 0) = UDP_USED" "udstate (udpe s 2) = UDP_USED" by (simp_all add: tab udp_ep_def)
  show "udp_slot (udp_table s) (src, sport, 53) = Some 0" using t(1) by (simp add: udp_slot_def upto_rec1)
  show "ipucast (netdata s) = 0x0a000002" using assms by (simp add: udp_net_def)
qed

lemma udp_in_delivers_witness:
  "\<exists>s s' r. kinv {} s \<and> udp_table s 0 = Some ((0, 0, 53), []) \<and> here (udp_in 0x3004 s) = Some (s', r)
     \<and> udp_table s' 0 = Some ((0, 0, 53), [0x3004]) \<and> kabs s' = kabs s"
proof -
  define p :: u32 where "p = 0x3004"
  let ?m = "set_fields p [(net_udpdport, B16 53)] (\<lambda>_. 0)"
  obtain s where s: "kinv {} s" "net s = udp_net" "kmem s = links0 ?m"
    by (rule net_state [of udp_net ?m]) (simp_all add: udp_net_def net0_def)
  note u = udp_net_state [OF s(2)]
  have "rd16 (kmem s) (p + 36) = 53" using rd_slice(2) [OF links0_pkt(2) [OF p_def], of 36 ?m] s(3) by simp
  then have "udp_slot (udp_table s) (dgram (kmem s) p) = Some 0" using u(7) by (simp add: dgram_def)
  then show ?thesis using udp_in_delivers [OF s(1) u(1), of p] u(2,5) s(1) unfolding p_def by fastforce
qed

lemma udp_recv_oldest_sample:
  "\<exists>s s' r. kinv {} s \<and> udp_table s 2 = Some ((0, 0, 54), [0x3004]) \<and> here (udp_recv 2 0x5000 100 0 s) = Some (s', r)
     \<and> bytes_at (kmem s') 0x5000 4 = [1, 2, 3, 4] \<and> udp_table s' 2 = Some ((0, 0, 54), [])
     \<and> pool_list s' 0 [0x3000, 0x1000, 0x2000]"
proof -
  define p :: u32 where "p = 0x3004"
  let ?m = "set_fields p [(net_udplen, B16 12), (net_udpdata, BS [1, 2, 3, 4])] (\<lambda>_. 0)"
  obtain s where s: "kinv {} s" "net s = udp_net" "kmem s = links0 ?m" "bpsem (buftab s 0) = 0" "scount (semtab s 0) = 8"
      "pool_list s 0 [0x1000, 0x2000]" "nbpools s = 1"
    by (rule net_state [of udp_net ?m]) (simp_all add: udp_net_def net0_def)
  note u = udp_net_state [OF s(2)] and sl = links0_pkt(2) [OF p_def, of ?m]
  have l: "rd16 (kmem s) (p + 38) = 12" using rd_slice(2) [OF sl, of 38] s(3) by simp
  have four: "length [1, 2, 3, 4 :: u8] = 4" by simp
  have "bytes_at ?m (p + 42) (length [1, 2, 3, 4 :: u8]) = [1, 2, 3, 4]"
    using set_field_bytes [of "BS [1, 2, 3, 4]" "p + 42"] by simp
  then have "bytes_at ?m (p + 42) 4 = [1, 2, 3, 4]" unfolding four .
  then have d: "udp_data (kmem s) p = [1, 2, 3, 4]" using bytes_at_slice [OF sl, of 42 4] l s(3) by (simp add: udp_data_def)
  have z: "rd32 (kmem s) (p - 4) = 0" unfolding s(3) by (rule pool_number_sample [OF p_def]) simp
  have b: "buf_of 0 p [0x1000, 0x2000] s" by (rule buf_of_sample [OF s(6,7) z]) (simp_all add: p_def al4_def)
  have f: "free_room 0x5000 4 p [0x1000, 0x2000]"
    using apart_disj [of "0x5000" 4 "0x302E" 4 0] apart_disj [of "0x5000" 4 "0x3000" 4 0]
      apart_disj [of "0x5000" 4 "0x1000" 4 0] apart_disj [of "0x5000" 4 "0x2000" 4 0] by (simp add: free_room_def p_def)
  obtain s' r where "here (udp_recv 2 0x5000 100 0 s) = Some (s', r)" "bytes_at (kmem s') 0x5000 4 = take 4 (udp_data (kmem s) p)"
      "udp_table s' = (udp_table s)(2 := Some ((0, 0, 54), []))" "pool_list s' 0 ((p - 4) # [0x1000, 0x2000])"
    using udp_recv_oldest [OF s(1) u(1) _ _ u(6) _ _ _ b _ _ f, of "(0, 0, 54)" "[]" 100 0] u(4) l d s(4,5)
    by (auto simp: p_def)
  then show ?thesis using s(1) u(4) d by (auto simp: p_def)
qed

lemma udp_loopback_witness:
  "\<exists>s s1 s2 r. kinv {} s \<and> udp_send 1 0x6000 3 s = Ret s1 OK \<and> here (udp_recv 0 0x5000 100 0 s1) = Some (s2, r)
     \<and> bytes_at (kmem s2) 0x5000 3 = bytes_at (kmem s) 0x6000 3"
proof -
  let ?m = "set_fields 0x6000 [(0, BS [7, 8, 9])] (\<lambda>_. 0)"
  obtain s where s: "kinv {} s" "currpid s = 1" "net s = udp_net" "\<And>n. n \<le> 2000 \<Longrightarrow> netbuf_ready s 0x1000 [0x2000] n"
    by (rule net_state [of udp_net ?m]) (simp_all add: udp_net_def net0_def)
  note u = udp_net_state [OF s(3)]
  have d: "disj 0x6000 3 0x1000 (46 + 3)" using apart_disj [of "0x6000" 3 "0x1000" 49 0] by simp
  have f: "free_room 0x5000 3 (0x1000 + 4) [0x2000]"
    using apart_disj [of "0x5000" 3 "0x102E" 3 0] apart_disj [of "0x5000" 3 "0x1000" 4 0]
      apart_disj [of "0x5000" 3 "0x2000" 4 0] by (simp add: free_room_def)
  have c: "currpid s \<noteq> NULLPROC" using s(2) by simp
  show ?thesis
    using udp_loopback [OF s(1) c u(1) _ _ u(3) _ _ _ u(5,2) s(4) _ d, where len = 100 and l = 3 and timeout = 0 and buff = "0x5000"]
      u(7) [of "0x0a000002" 50000] u(8) s(1) f by auto
qed

end
