(* ===== verification/Arpspec.thy ===== *)
theory Arpspec
  imports Netsample
begin

text \<open>
  The ARP cache: an address has one entry at most, and a reply makes the hardware address of its
  sender known.
\<close>

section \<open>One entry for an address\<close>

definition arp_unique :: "(int \<Rightarrow> arpentry) \<Rightarrow> bool" where
  "arp_unique c \<longleftrightarrow> (\<forall>i\<in>{0..<ARP_SIZ}. \<forall>j\<in>{0..<ARP_SIZ}.
     arstate (c i) \<noteq> AR_FREE \<and> arstate (c j) \<noteq> AR_FREE \<and> arpaddr (c i) = arpaddr (c j) \<longrightarrow> i = j)"

interpretation arp_kept: net_blind "\<lambda>s. Q (arpcache (net s))" for Q
  by unfold_locales (simp_all add: upd_eth_def upd_net_def)

lemma arpcache_simps [simp]:
  "arpcache (net (upd_arp i f s)) = (arpcache (net s))(i := f (arpe s i))" "netdata (upd_arp i f s) = netdata s"
  "arpcache (net (set_kmem m s)) = arpcache (net s)" "net (set_kmem m s) = net s" "kmem (upd_arp i f s) = kmem s"
  by (simp_all add: upd_arp_def upd_net_def set_kmem_def kmem_def)

lemma arp_unique_upd:
  assumes "arp_unique c" "arstate e = AR_FREE \<or> (\<forall>i\<in>{0..<ARP_SIZ}. i \<noteq> k \<and> arstate (c i) \<noteq> AR_FREE \<longrightarrow> arpaddr (c i) \<noteq> arpaddr e)"
  shows "arp_unique (c(k := e))"
  unfolding arp_unique_def
proof (intro ballI impI)
  fix i j assume ij: "i \<in> {0..<ARP_SIZ}" "j \<in> {0..<ARP_SIZ}"
    "arstate ((c(k := e)) i) \<noteq> AR_FREE \<and> arstate ((c(k := e)) j) \<noteq> AR_FREE \<and> arpaddr ((c(k := e)) i) = arpaddr ((c(k := e)) j)"
  show "i = j"
  proof (cases "i = k \<or> j = k")
    case True then show ?thesis using assms(2) ij by (auto split: if_splits)
  next
    case False then show ?thesis using assms(1) ij unfolding arp_unique_def by simp
  qed
qed

lemma arp_unique_free: "arp_unique c \<Longrightarrow> arstate e = AR_FREE \<Longrightarrow> arp_unique (c(k := e))"
  by (rule arp_unique_upd) simp_all

lemma arp_unique_same:
  "arp_unique c \<Longrightarrow> arstate (c k) \<noteq> AR_FREE \<Longrightarrow> arpaddr e = arpaddr (c k) \<Longrightarrow> 0 \<le> k \<Longrightarrow> k < ARP_SIZ \<Longrightarrow> arp_unique (c(k := e))"
  by (rule arp_unique_upd) (auto simp: arp_unique_def)

lemma arp_lookup_None:
  "arp_lookup s a = None \<Longrightarrow> \<forall>i\<in>{0..<ARP_SIZ}. arstate (arpe s i) \<noteq> AR_FREE \<longrightarrow> arpaddr (arpe s i) \<noteq> a"
proof (intro ballI impI)
  fix i assume "arp_lookup s a = None" "i \<in> {0..<ARP_SIZ}" "arstate (arpe s i) \<noteq> AR_FREE"
  moreover from this have "i \<in> set [0..ARP_SIZ - 1]" by simp
  ultimately show "arpaddr (arpe s i) \<noteq> a" unfolding arp_lookup_def find_None_iff by blast
qed

lemma arp_lookup_Some:
  "arp_lookup s a = Some i \<Longrightarrow> 0 \<le> i \<and> i < ARP_SIZ \<and> arstate (arpe s i) \<noteq> AR_FREE \<and> arpaddr (arpe s i) = a"
  unfolding arp_lookup_def by (drule find_SomeD) simp

lemma arp_lookup_unique:
  assumes "arp_unique (arpcache (net s))" "0 \<le> i" "i < ARP_SIZ" "arstate (arpe s i) \<noteq> AR_FREE" "arpaddr (arpe s i) = a"
  shows "arp_lookup s a = Some i"
proof (cases "arp_lookup s a")
  case None then show ?thesis using bspec [OF arp_lookup_None [OF None], of i] assms(2-5) by simp
next
  case (Some j)
  then show ?thesis using arp_lookup_Some [OF Some] assms by (auto simp: arp_unique_def)
qed

lemma arp_alloc_cases:
  obtains "arp_alloc s = (s, SYSERR)" | slot where "0 \<le> slot" "slot < ARP_SIZ" "arp_alloc s = (upd_arp slot arp_zero s, slot)"
proof -
  let ?f = "\<lambda>st. List.find (\<lambda>slot. arstate (arpe s slot) = st) [0..ARP_SIZ - 1]"
  have r: "0 \<le> slot \<and> slot < ARP_SIZ" if "?f st = Some slot" for st slot
    using find_SomeD [OF that] by simp
  show thesis
    by (cases "?f AR_FREE"; cases "?f AR_RESOLVED") (use that r in \<open>auto simp: arp_alloc_def\<close>)
qed

lemma kpres_arp_ask: "Q (arpcache (net s)) \<Longrightarrow> kpres (\<lambda>s. Q (arpcache (net s))) (arp_ask k apkt msg s)"
  by (induction k arbitrary: s msg) (auto intro!: kpres_bind arp_kept.kpres_ethwrite arp_kept.kpres_recvtime)

abbreviation unique_kept :: "(kst, 'a) kprog \<Rightarrow> bool" where
  "unique_kept \<equiv> kpres (\<lambda>s. arp_unique (arpcache (net s)))"

lemma unique_resolve:
  assumes "arp_unique (arpcache (net s))"
  shows "unique_kept (arp_resolve a mac s)"
proof (cases "a = IP_BCAST \<or> a = ipbcast (netdata s) \<or> arp_lookup s a \<noteq> None")
  case True
  then show ?thesis using assms by (auto simp: arp_resolve_def Let_def)
next
  case False
  then have new: "arp_unique ((arpcache (net s))(k := e))" if "arpaddr e = a" for k e
    using assms arp_lookup_None [of s a] that by (intro arp_unique_upd) auto
  show ?thesis
  proof (cases s rule: arp_alloc_cases)
    case 1
    then show ?thesis using False assms by (auto simp: arp_resolve_def Let_def)
  next
    case (2 slot)
    then show ?thesis using False new
      by (auto simp: arp_resolve_def Let_def split_beta intro!: kpres_bind kpres_arp_ask arp_unique_free)
  qed
qed

lemma unique_refresh:
  assumes "arp_unique (arpcache (net s))" "arp_lookup s a = Some i"
  shows "unique_kept (arp_refresh pkt i s)"
proof -
  have "arp_unique ((arpcache (net s))(i := e))" if "arpaddr e = arpaddr (arpe s i)" for e
    using arp_lookup_Some [OF assms(2)] that by (intro arp_unique_same [OF assms(1)]) auto
  note this this [unfolded fun_upd_def]
  then show ?thesis by (auto simp: arp_refresh_def Let_def intro!: kpres_discard arp_kept.kpres_send)
qed

lemma unique_in:
  assumes "arp_unique (arpcache (net s))"
  shows "unique_kept (arp_in pkt s)"
proof (cases "arp_lookup (set_kmem (arp_ntoh pkt (kmem s)) s) (rd32 (arp_ntoh pkt (kmem s)) (pkt + arp_sndpa))")
  case None
  let ?s = "set_kmem (arp_ntoh pkt (kmem s)) s"
  have new: "arp_unique ((arpcache (net s))(k := e))" if "arpaddr e = rd32 (arp_ntoh pkt (kmem s)) (pkt + arp_sndpa)" for k e
    using assms arp_lookup_None [OF None] that by (intro arp_unique_upd) auto
  note new = this this [unfolded fun_upd_def]
  show ?thesis
    by (cases ?s rule: arp_alloc_cases)
      (use None assms new in \<open>auto simp: arp_in_def Let_def split_beta
        intro!: kpres_bind kpres_discard arp_kept.kpres_freebuf arp_kept.kpres_ethwrite\<close>)
next
  case (Some i)
  then show ?thesis
    using assms by (auto simp: arp_in_def Let_def split_beta
        intro!: kpres_bind kpres_discard unique_refresh arp_kept.kpres_freebuf arp_kept.kpres_ethwrite)
qed

text \<open>
  C12. An address has at most one entry in the cache: that holds after \<^verbatim>\<open>arp_init\<close>, and a packet that
  arrives or an address that is looked up keeps it, at every switch and on return.
\<close>

theorem arp_cache_unique:
  "arp_unique (arpcache (net (arp_init s)))
    \<and> (arp_unique (arpcache (net s)) \<longrightarrow> unique_kept (arp_in pkt s) \<and> unique_kept (arp_resolve a mac s))"
proof -
  have "arp_unique (arpcache (net (arp_init s)))" by (auto simp: arp_unique_def arp_init_def upd_net_def)
  then show ?thesis using unique_in unique_resolve by blast
qed

section \<open>Replies\<close>

lemma refresh_here:
  assumes "kinv {} s" "arp_lookup s a = Some i" "e = arpe s i" "ha = bytes_at (kmem s) (pkt + arp_sndha) ARP_HALEN"
  obtains s' r where "here (arp_refresh pkt i s) = Some (s', r)" "kinv {} s'" "hp s' = hp s" "buftab s' = buftab s"
    "nbpools s' = nbpools s" "r \<noteq> None \<Longrightarrow> semtab s' = semtab s" "netdata s' = netdata s"
    "arpcache (net s') = (arpcache (net s))(i := e\<lparr>arstate := AR_RESOLVED, arhaddr := ha\<rparr>)"
    "(kabs s', r) = (if arstate e = AR_PENDING then map_prod id (map_option (\<lambda>_. ())) (a_send (arpid e) (word_of_int OK) (kabs s))
       else (kabs s, Some ()))"
proof (cases "arstate e = AR_PENDING")
  case True
  let ?s1 = "upd_arp i (\<lambda>e. e\<lparr>arstate := AR_RESOLVED\<rparr>) (upd_arp i (\<lambda>e. e\<lparr>arhaddr := ha\<rparr>) s)"
  have sp: "sched_part ?s1 = sched_part s" by (simp add: upd_arp_def)
  have c: "arp_refresh pkt i s = discard (send (arpid e) (word_of_int OK) ?s1)"
    using True by (simp add: arp_refresh_def Let_def assms(3,4))
  obtain s' where s': "here (send (arpid e) (word_of_int OK) ?s1) = Some (s', snd (a_send (arpid e) (word_of_int OK) (kabs ?s1)))"
      "kinv {} s'" "kabs s' = fst (a_send (arpid e) (word_of_int OK) (kabs ?s1))"
    using refines_here [OF send_abs [OF kinv_sched_part [OF sp assms(1)]]] by blast
  have st: "store s' = store ?s1" using keeps_send [of ?s1] s'(1) by (auto simp: keeps_def)
  have se: "semtab s' = semtab s" if "snd (a_send (arpid e) (word_of_int OK) (kabs ?s1)) \<noteq> None"
    using that s'(1) send_Ret [of "arpid e" "word_of_int OK" ?s1] sp
    by (cases "send (arpid e) (word_of_int OK) ?s1") (auto simp: sched_part_def)
  have fr: "hp ?s1 = hp s" "buftab ?s1 = buftab s" "nbpools ?s1 = nbpools s" by (simp_all add: upd_arp_def upd_net_def)
  show thesis
    by (rule that [of s' "map_option (\<lambda>_. ()) (snd (a_send (arpid e) (word_of_int OK) (kabs s)))"])
      (use s' se fr True kabs_sched_part [OF sp] storeD [OF st] in
        \<open>auto simp: c discard_def here_bind_Ret assms(3) map_prod_def split_beta\<close>)
next
  case False
  then have "arstate e = AR_RESOLVED" using arp_lookup_Some [OF assms(2)] by (cases "arstate e") (simp_all add: assms(3))
  then have ee: "e\<lparr>arstate := AR_RESOLVED, arhaddr := ha\<rparr> = e\<lparr>arhaddr := ha\<rparr>" by (cases e) simp
  let ?s1 = "upd_arp i (\<lambda>e. e\<lparr>arhaddr := ha\<rparr>) s"
  have sp: "sched_part ?s1 = sched_part s" by (simp add: upd_arp_def)
  have c: "here (arp_refresh pkt i s) = Some (?s1, Some ())" using False by (simp add: arp_refresh_def Let_def assms(3,4))
  have fr: "hp ?s1 = hp s" "buftab ?s1 = buftab s" "nbpools ?s1 = nbpools s" "semtab ?s1 = semtab s"
    by (simp_all add: upd_arp_def upd_net_def)
  show thesis
    by (rule that [OF c kinv_sched_part [OF sp assms(1)]])
      (use fr False kabs_sched_part [OF sp] in \<open>simp_all only: ee [unfolded assms(3)] arpcache_simps assms(3) if_False prod.inject simp_thms\<close>)
qed

text \<open>The packet in host order.\<close>

lemma arp_ntoh_frame:
  assumes "disj pkt 42 x k"
  shows "bytes_at (arp_ntoh pkt m) x k = bytes_at m x k"
  unfolding arp_ntoh_def conv16_def conv32_def Let_def using field_in_pkt [OF assms] by simp

lemma arp_ntoh_sndha: "bytes_at (arp_ntoh pkt m) (pkt + arp_sndha) 6 = bytes_at m (pkt + arp_sndha) 6"
  by (simp add: arp_ntoh_def conv16_def conv32_def field_other)

text \<open>An ARP packet with the operation \<open>op\<close>, as it is on the wire.\<close>

definition arp_wire :: "memory \<Rightarrow> u32 \<Rightarrow> u16 \<Rightarrow> u32 \<Rightarrow> bool" where
  "arp_wire m pkt op sndpa \<longleftrightarrow> rd16 m (pkt + arp_htype) = htons 1 \<and> rd16 m (pkt + arp_ptype) = htons 0x0800
     \<and> rd16 m (pkt + arp_op) = htons op \<and> rd32 m (pkt + arp_sndpa) = htonl sndpa"

lemma arp_wire_host:
  assumes "arp_wire m pkt op sndpa"
  shows "rd16 (arp_ntoh pkt m) (pkt + arp_htype) = 1" "rd16 (arp_ntoh pkt m) (pkt + arp_ptype) = 0x0800"
    "rd16 (arp_ntoh pkt m) (pkt + arp_op) = op" "rd32 (arp_ntoh pkt m) (pkt + arp_sndpa) = sndpa"
  using assms by (simp_all add: arp_wire_def arp_ntoh_def conv16_def conv32_def)

text \<open>
  C13. A reply makes the hardware address of its sender known: the entry of that address, which was
  pending, is resolved, the process that asked for it is sent \<open>OK\<close>, and no two entries have one
  address. As long as the cache keeps that entry as it is and has no second one of the address,
  \<^verbatim>\<open>arp_resolve\<close> gives the hardware address of the reply, from the cache. (A cache that is full
  gives up resolved entries, \<^verbatim>\<open>arp_alloc\<close>; the address is then asked for again.)
\<close>

theorem arp_reply_resolves:
  assumes "kinv {} s" "arp_unique (arpcache (net s))" "arp_wire (kmem s) pkt ARP_OP_RPLY ip"
    and "0 \<le> i" "i < ARP_SIZ" "arstate (arpe s i) = AR_PENDING" "arpaddr (arpe s i) = ip"
    and "ip \<noteq> IP_BCAST" "ip \<noteq> ipbcast (netdata s)"
    and "buf_of k pkt bs s" "scount (semtab s (bpsem (buftab s k))) < INT32_MAX" "\<forall>b\<in>set ((pkt - 4) # bs). disj pkt 42 b 4"
  defines "a \<equiv> a_send (arpid (arpe s i)) (word_of_int OK) (kabs s)" and "ha \<equiv> bytes_at (kmem s) (pkt + arp_sndha) ARP_HALEN"
  shows "\<exists>s' r. here (arp_in pkt s) = Some (s', r) \<and> kinv {} s'
    \<and> arpcache (net s') = (arpcache (net s))(i := (arpe s i)\<lparr>arstate := AR_RESOLVED, arhaddr := ha\<rparr>)
    \<and> kabs s' = (if snd a = None then fst a else fst (a_signal (bpsem (buftab s k)) (fst a)))
    \<and> arp_unique (arpcache (net s'))
    \<and> (\<forall>mac t. arp_unique (arpcache (net t)) \<and> arpe t i = arpe s' i \<and> ipbcast (netdata t) = ipbcast (netdata s')
         \<longrightarrow> arp_resolve ip mac t = Ret (set_kmem (put (kmem t) mac ha) t) OK)"
proof -
  let ?s = "set_kmem (arp_ntoh pkt (kmem s)) s"
  have sp: "sched_part ?s = sched_part s" by simp
  have k: "kinv {} ?s" by (rule kinv_sched_part [OF sp assms(1)])
  have lk: "arp_lookup ?s ip = Some i" using assms(2,4-7) by (intro arp_lookup_unique) simp_all
  have ha: "ha = bytes_at (kmem ?s) (pkt + arp_sndha) ARP_HALEN" by (simp add: ha_def arp_ntoh_sndha)
  obtain s1 r where r1: "here (arp_refresh pkt i ?s) = Some (s1, r)" "kinv {} s1" "hp s1 = hp ?s" "buftab s1 = buftab ?s"
      "nbpools s1 = nbpools ?s" "r \<noteq> None \<Longrightarrow> semtab s1 = semtab ?s" "netdata s1 = netdata ?s"
      "arpcache (net s1) = (arpcache (net ?s))(i := (arpe s i)\<lparr>arstate := AR_RESOLVED, arhaddr := ha\<rparr>)"
      "(kabs s1, r) = map_prod id (map_option (\<lambda>_. ())) (a_send (arpid (arpe s i)) (word_of_int OK) (kabs ?s))"
    by (rule refresh_here [OF k lk _ ha]) (use assms(6) in auto)
  have ka: "kabs s1 = fst a" "r = None \<longleftrightarrow> snd a = None"
    using r1(9) kabs_sched_part [OF sp] by (simp_all add: a_def prod_eq_iff)
  have km: "kmem s1 = arp_ntoh pkt (kmem s)" using r1(3) by (simp add: kmem_def set_kmem_def)
  let ?e = "(arpe s i)\<lparr>arstate := AR_RESOLVED, arhaddr := ha\<rparr>"
  have c1: "arpcache (net s1) = (arpcache (net s))(i := ?e)" using r1(8) by simp
  have u1: "arp_unique (arpcache (net s1))" unfolding c1 using assms(2,4-6) by (intro arp_unique_same) simp_all
  have res: "arp_resolve ip mac t = Ret (set_kmem (put (kmem t) mac ha) t) OK"
    if "arp_unique (arpcache (net t))" "arpe t i = arpe s1 i" "ipbcast (netdata t) = ipbcast (netdata s1)" for mac t
  proof -
    have e: "arpe t i = ?e" using that(2) c1 by simp
    then have "arp_lookup t ip = Some i" using assms(4,5,7) that(1) by (intro arp_lookup_unique) simp_all
    moreover have "ipbcast (netdata t) = ipbcast (netdata s)" using r1(7) that(3) by simp
    ultimately show ?thesis using assms(8,9) e by (simp add: arp_resolve_def Let_def)
  qed
  show ?thesis
  proof (cases "arp_refresh pkt i ?s")
    case (Ctxsw s2 f)
    then have "here (arp_in pkt s) = Some (s1, None)" "r = None"
      using arp_wire_host [OF assms(3)] lk r1(1) by (simp_all add: arp_in_def Let_def)
    then show ?thesis using r1(2) c1 u1 ka res by (intro exI [of _ s1] exI [of _ None]) simp
  next
    case (Ret s2 u)
    then have e: "arp_in pkt s = discard (freebuf pkt s1)" "r \<noteq> None"
      using arp_wire_host [OF assms(3)] lk r1(1) km by (simp_all add: arp_in_def Let_def)
    have fr: "bytes_at (kmem s1) x 4 = bytes_at (kmem s) x 4" if "x = pkt - 4 \<or> x \<in> set bs" for x
      using that assms(12) unfolding km by (intro arp_ntoh_frame) auto
    have bo: "buf_of k pkt bs s1"
      by (rule buf_of_frame [OF assms(10) _ _ fr]) (use r1(4,5) in simp_all)
    have sc: "scount (semtab s1 (bpsem (buftab s1 k))) < INT32_MAX"
      using assms(11) r1(4) r1(6) [OF e(2)] by simp
    obtain s3 r3 where s3: "here (freebuf pkt s1) = Some (s3, r3)" "kinv {} s3" "net s3 = net s1"
        "kabs s3 = fst (a_signal (bpsem (buftab s1 k)) (kabs s1))"
      by (rule freebuf_here [OF r1(2) bo sc])
    have "here (arp_in pkt s) = Some (s3, map_option (\<lambda>_. ()) r3)" using s3(1) e(1) by (simp add: discard_def here_bind_Ret)
    then show ?thesis using s3 ka e(2) r1(4) c1 u1 res by (intro exI [of _ s3] exI) auto
  qed (use r1(1) in simp)
qed

section \<open>Samples\<close>

lemma arp_cache_unique_witness: "unique_kept (arp_in 0x3004 (arp_init kst0)) \<and> unique_kept (arp_resolve 0x0a000001 0x5000 (arp_init kst0))"
  using arp_cache_unique by blast

text \<open>Process 2 waits for the address of \<open>10.0.0.1\<close>.\<close>

definition arp_net :: netst where
  "arp_net = net0\<lparr>arpcache := (arpcache net0)(3 := \<lparr>arstate = AR_PENDING, arpaddr = 0x0a000001, arpid = 2, arhaddr = replicate 6 0\<rparr>)\<rparr>"

lemma arp_reply_resolves_witness:
  "\<exists>s s' r. kinv {} s \<and> arstate (arpe s 3) = AR_PENDING \<and> here (arp_in 0x3004 s) = Some (s', r) \<and> arstate (arpe s' 3) = AR_RESOLVED
     \<and> arp_resolve 0x0a000001 0x5000 s' = Ret (set_kmem (put (kmem s') 0x5000 [1, 2, 3, 4, 5, 6]) s') OK"
proof -
  define p :: u32 where "p = 0x3004"
  let ?m = "set_fields p [(arp_htype, B16 (htons 1)), (arp_ptype, B16 (htons 0x0800)), (arp_op, B16 (htons 2)),
    (arp_sndpa, B32 (htonl 0x0a000001)), (arp_sndha, BS [1, 2, 3, 4, 5, 6])] (\<lambda>_. 0)"
  obtain s where s: "kinv {} s" "net s = arp_net" "kmem s = links0 ?m" "bpsem (buftab s 0) = 0" "scount (semtab s 0) = 8"
      "pool_list s 0 [0x1000, 0x2000]" "nbpools s = 1"
    by (rule net_state [of arp_net ?m]) (simp_all add: arp_net_def net0_def)
  note sl = links0_pkt(2) [OF p_def, of ?m]
  have w: "arp_wire (kmem s) p ARP_OP_RPLY 0x0a000001"
    using rd_slice(2) [OF sl, of 14] rd_slice(2) [OF sl, of 16] rd_slice(2) [OF sl, of 20] rd_slice(3) [OF sl, of 28] s(3)
    by (simp add: arp_wire_def)
  have six: "length [1, 2, 3, 4, 5, 6 :: u8] = 6" by simp
  have "bytes_at ?m (p + 22) (length [1, 2, 3, 4, 5, 6 :: u8]) = [1, 2, 3, 4, 5, 6]"
    using set_field_bytes [of "BS [1, 2, 3, 4, 5, 6]" "p + 22"] by simp
  then have "bytes_at ?m (p + 22) 6 = [1, 2, 3, 4, 5, 6]" unfolding six .
  then have ha: "bytes_at (kmem s) (p + 22) 6 = [1, 2, 3, 4, 5, 6]" using bytes_at_slice [OF sl, of 22 6] s(3) by simp
  have z: "rd32 (kmem s) (p - 4) = 0" unfolding s(3) by (rule pool_number_sample [OF p_def]) simp
  have b: "buf_of 0 p [0x1000, 0x2000] s" by (rule buf_of_sample [OF s(6,7) z]) (simp_all add: p_def al4_def)
  have f: "\<forall>b\<in>set ((p - 4) # [0x1000, 0x2000]). disj p 42 b 4"
    using apart_disj [of "0x3004" 42 "0x3000" 4 0] apart_disj [of "0x3004" 42 "0x1000" 4 0] apart_disj [of "0x3004" 42 "0x2000" 4 0]
    by (simp add: p_def)
  have c: "arp_unique (arpcache (net s))" "arstate (arpe s 3) = AR_PENDING" "arpaddr (arpe s 3) = 0x0a000001" "ipbcast (netdata s) = 0"
    using s(2) by (auto simp: arp_net_def net0_def arp_unique_def)
  have n: "0 \<le> (3 :: int)" "(3 :: int) < ARP_SIZ" "(0x0a000001 :: u32) \<noteq> IP_BCAST" "0x0a000001 \<noteq> ipbcast (netdata s)"
    "scount (semtab s (bpsem (buftab s 0))) < INT32_MAX"
    using c(4) s(4,5) by simp_all
  obtain s' r where r: "here (arp_in p s) = Some (s', r)"
      "arpcache (net s') = (arpcache (net s))(3 := (arpe s 3)\<lparr>arstate := AR_RESOLVED, arhaddr := bytes_at (kmem s) (p + 22) 6\<rparr>)"
      "arp_unique (arpcache (net s'))"
      "\<And>mac t. arp_unique (arpcache (net t)) \<and> arpe t 3 = arpe s' 3 \<and> ipbcast (netdata t) = ipbcast (netdata s')
         \<longrightarrow> arp_resolve 0x0a000001 mac t = Ret (set_kmem (put (kmem t) mac (bytes_at (kmem s) (p + 22) 6)) t) OK"
    using arp_reply_resolves [OF s(1) c(1) w n(1,2) c(2,3) n(3,4) b n(5) f] by blast
  show ?thesis
    using s(1) c(2) r(1-3) r(4) [of s', unfolded ha] unfolding p_def ha by (intro exI [of _ s] exI [of _ s'] exI [of _ r]) simp
qed

end
