(* ===== verification/Spec2Isabelle.thy ===== *)
theory Spec2Isabelle
  imports Libspec Portspec Liveness Namespace Paging Ttyspec Filespec Udpspec Arpspec
begin

text \<open>
  A model of the Xinu kernel under \<^verbatim>\<open>src/xinu-vbox\<close>, and what makes it correct.

  \<^bold>\<open>The program.\<close> Xinu is a small kernel for one x86 processor. Its processes live in
  \<^verbatim>\<open>proctab\<close>; every process that is not running, suspended or waiting for a message is on one of the
  doubly linked lists of the array \<^verbatim>\<open>queuetab\<close>: the ready list, the delta list of sleepers, the queue
  of one semaphore. \<^verbatim>\<open>resched\<close> keeps the running process or switches to the head of the ready list;
  every other call changes states and queues and ends in \<^verbatim>\<open>resched\<close>, \<^verbatim>\<open>ready\<close> or both. Ports and
  buffer pools are built on semaphores and on nodes cut from the heap that \<^verbatim>\<open>getmem\<close> manages. Device
  drivers are reached through the table \<^verbatim>\<open>devtab\<close>, names through the prefix table of the name space,
  and \<^verbatim>\<open>lib/\<close> is a small C library. The network stack, \<^verbatim>\<open>net/\<close>, passes packets in buffers of a pool from
  the Ethernet driver through ARP, IP, ICMP and UDP to the queues of endpoints, and back.

  \<^bold>\<open>The theories and the code.\<close>
  \<^item> Prelude: machine integers (\<open>i32\<close> is wrap-around of a C int), byte memory with 32-bit little-endian
    words, and \<open>kprog\<close>, the resumptions in which kernel calls are written: \<open>Ret\<close> is a call that
    returned, \<open>Ctxsw\<close> a call inside \<^verbatim>\<open>ctxsw\<close> whose second component is what its process does when it
    is dispatched again, \<open>Stop\<close> a call that ended (a panic, a process that is gone, a loop without end).
  \<^item> Kstate: the tables of \<^verbatim>\<open>include/process.h\<close>, \<^verbatim>\<open>semaphore.h\<close>, \<^verbatim>\<open>queue.h\<close>, \<^verbatim>\<open>ports.h\<close> and
    \<^verbatim>\<open>bufpool.h\<close> as records, \<open>kst\<close> the whole kernel state. Queues: \<^verbatim>\<open>system/queue.c\<close>,
    \<^verbatim>\<open>getitem.c\<close>, \<^verbatim>\<open>insert.c\<close>, \<^verbatim>\<open>insertd.c\<close>, \<^verbatim>\<open>newqueue.c\<close>. Kinv: the kernel invariant \<open>kinv\<close>.
  \<^item> Sched, Sems, Clock, Msgs: the scheduler, semaphores, timed delays and messages, one definition
    per C function, with the proof that each keeps the invariant. Devtab, Procs, Devclose: the device
    switch, process creation and termination, and the close routines \<^verbatim>\<open>kill\<close> reaches through it.
  \<^item> Memory: \<^verbatim>\<open>meminit\<close>, \<^verbatim>\<open>getmem\<close>, \<^verbatim>\<open>getstk\<close>, \<^verbatim>\<open>freemem\<close> over byte memory, whose free list is
    threaded through the free blocks. Ctxsw: \<^verbatim>\<open>ctxsw.S\<close> and the stack \<^verbatim>\<open>create\<close> prepares for it.
  \<^item> Nodes, Ports, Bufpool: null-terminated lists in byte memory (locale \<open>node_store\<close>), message ports
    and buffer pools on top of them.
  \<^item> Evec and Tty: the interrupt vectors and the terminal driver of \<^verbatim>\<open>device/tty/\<close>, upper and lower
    half. What the serial device answers when its registers are read is an argument of the handler,
    what is written to device ports is appended to \<open>outlog\<close>. Ttyspec: the properties of the driver.
  \<^item> Lfs and Lfsdir: the RAM disk of \<^verbatim>\<open>device/ram/\<close> and the local file system of \<^verbatim>\<open>device/lfs/\<close>,
    over any disk driver; the state is the record \<open>fsys\<close> of Kstate (\<^verbatim>\<open>Lf_data\<close>, \<^verbatim>\<open>lfltab\<close> and the
    bytes of the disk). Lfsdisk, Lfsrep: the disk as sectors and index blocks, and what the blocks on
    disk and those in memory mean together (\<open>layout\<close>, with a map of who owns which block). Lfsfind,
    Lfssetup: the steps of \<^verbatim>\<open>lfsetup\<close> keep it. Lfsspec: one byte, seeking, reading and writing against
    byte sequences. Lfsformat: \<^verbatim>\<open>lfscreate\<close>. Lfsfile, Filecalls, Filelife: opening and closing,
    sequences of calls, starting anew from the disk. Filespec: the properties.
  \<^item> Netpkt: the fields of packets in memory, byte order and checksums. Ethdev: the upper half and the
    interrupt handler of the driver in \<^verbatim>\<open>device/eth/\<close>, whose descriptor rings are in memory, where the
    device writes between two calls. Netstack, Ipstack: \<^verbatim>\<open>udp.c\<close>, \<^verbatim>\<open>icmp.c\<close>, \<^verbatim>\<open>arp.c\<close>, \<^verbatim>\<open>ip.c\<close>
    and \<^verbatim>\<open>net.c\<close> in the order of their calls; the tables are the record \<open>netst\<close> of Kstate. Netsafe:
    every routine keeps the kernel invariant. Ring: arrays used as queues (locale \<open>bounded_fifo\<close>,
    interpreted on the queues of UDP and of IP). Netwire, Netspec: packets on the wire. Netkeep: what other
    routines leave of the tables of the network (locales \<open>sched_blind\<close> and \<open>net_blind\<close>). Netbuf:
    packets in buffers of the pool. Udpspec, Icmpspec, Arpspec: the properties; Netsample: their samples.
  \<^item> Paging: page tables and segment descriptors as words of memory, with the property.
  \<^item> Kernel: \<^verbatim>\<open>sysinit\<close>, and the step relation \<open>kstep\<close> of the whole kernel: processes make calls,
    create processes, take interrupts of the clock, the console and the Ethernet device and are
    dispatched again, in any interleaving; between two calls the device may write any memory.
  \<^item> Abskern: the abstract kernel (lists of processes with keys, delays and counts), the abstraction
    \<open>kabs\<close>, and the lemmas that each concrete operation is simulated by its abstract one.
  \<^item> Frames: waiting, signalling and sending leave memory, ports, pools, terminals and devices alone.
  \<^item> Samples: concrete states reached from a zeroed image by the code, on which the properties are
    instantiated. Portspec and Liveness: the properties of ports and pools, and of runs of the clock.
  \<^item> Cstring, Libnum, Qsort, Doprnt: the string, number, sorting and formatting routines of
    \<^verbatim>\<open>lib/\<close>; \<^verbatim>\<open>sprintf\<close> writes to the memory it reads its format from, one character
    at a time. Libspec: their properties. Namespace: \<^verbatim>\<open>device/nam/\<close> and \<^verbatim>\<open>getdev\<close>.

  \<^bold>\<open>What is shown.\<close> C1 and C2 are about every interleaving of the whole kernel; they hold for
  every disk driver that meets \<open>block_driver\<close>, the contract that a driver keeps the kernel invariant.
  C3 to C7 are the local file system on the RAM disk: calls on open files act as on byte sequences,
  files outlive the memory of the kernel, formatting and checking agree, opening keeps the disk well
  formed, and a new file without bytes is lost unless another file's growth has the directory written. C8 and C9 follow a packet from \<^verbatim>\<open>ip_out\<close> over the wire to
  \<^verbatim>\<open>ip_in\<close>: a UDP packet arrives as it was, and an ICMP message if its checksum does not carry twice. C10
  and C11 are UDP: delivery to endpoints, and a process that sends to its own computer. C12 and C13 are the
  ARP cache (an address stays resolved as long as its entry is kept), C14 the answer to an echo request, C15 the queue of an ICMP endpoint, which runs off its
  array. C16 to C22 refine the scheduler, semaphores, delays and
  messages against the abstract kernel; C34 follows a sleeping process over many clock interrupts, from a state in which every delay is
  positive. C23
  to C25 characterise the allocator and the requests it gets wrong; C26 and C27 the
  context switch and the stack of a new process. C28 to C30 are the
  library (C29 for a target of \<^verbatim>\<open>sprintf\<close> apart from the end of its format, and words that
  \<^verbatim>\<open>atoi\<close> can add up), C31 to C33 ports and buffer pools, C35 and C36 the name space (C36 for
  names of at most 126 characters), C37 the identity map the
  kernel runs under, C38 to C40 the console: the receive interrupt as a line editor, reading what it
  has finished, both for input without the end-of-file character, and the overrun that one causes.

  \<^bold>\<open>Bounds and fuel.\<close> A scan of a queue has fuel for every entry of \<^verbatim>\<open>queuetab\<close>, which it can
  only outrun by going round in circles; C2 shows it never does. A walk of nodes in memory has fuel for
  $2^{29}$ nodes of eight bytes, the whole address space. A scan for a null byte walks all of memory
  and is \<open>None\<close> without one. \<^verbatim>\<open>qsort\<close> has fuel that C28 shows to be enough for every array. The walk
  along the index blocks of a file has fuel for $2^{32}$ bytes of 8192 each, the counts of
  \<^verbatim>\<open>lfsckfmt\<close> for every block number: they run out, as \<open>Stop BadDisk\<close>, only on a cyclic list, and C3
  and C5 show that they do not on a disk the file system has made.

  \<^bold>\<open>Interrupts.\<close> \<^verbatim>\<open>disable\<close> and \<^verbatim>\<open>restore\<close> bracket every call: a call runs without interrupts
  up to its next context switch, which is where \<open>kstep\<close> interleaves. The model leaves the mask out.
  \<^verbatim>\<open>lfscreate\<close>, \<^verbatim>\<open>lfsckfmt\<close> and the loops of \<^verbatim>\<open>netin\<close> and \<^verbatim>\<open>ipout\<close> do not
  disable interrupts; the model runs them, too, without an interrupt up to the next context switch. The
  calls of \<open>kstep\<close> do not include \<^verbatim>\<open>ptreset\<close> and \<^verbatim>\<open>ptdelete\<close>, which hand each message
  to a function of the caller; they are defined in Ports with that function as an argument.

  \<^bold>\<open>The Ethernet device.\<close> A register that the code reads has the value that was last written to it,
  which holds of the two ring tails; the interrupt cause is an argument of the handler. The sizes of the
  rings are set before the device is up and are not zero. The processes \<^verbatim>\<open>ipout\<close> and \<^verbatim>\<open>netin\<close> are loops
  without end, and each is given by one round.

  \<^bold>\<open>Not modelled.\<close> The initialisation of the Ethernet hardware, the PCI bus, the SD card, the clients of
  DNS, DHCP, TFTP, the remote disk and remote files are hardware programming and protocols outside the
  kernel core; the parser of
  the configuration tool is generated and runs on the host; the shell's commands print tables. Console
  messages are left out where a function prints beside its work.
\<close>

section \<open>The kernel as a whole\<close>

text \<open>
  C1. Start from the state \<^verbatim>\<open>sysinit\<close> builds and let processes make the modelled kernel
  calls, those on the console and on local files included, create processes and take interrupts of
  the clock and the console in any interleaving, each process continuing its own suspended call
  whenever it is dispatched. Block devices other than the RAM disk are only assumed to keep the
  invariant of a process that calls them. In every configuration reached, whenever the
  kernel is between calls or hands the processor over, the kernel invariant holds: each process is
  on the queue its state names and on no other, the ready list is ordered by key, delays are sound,
  each semaphore's count agrees with its queue, exactly \<^verbatim>\<open>currpid\<close> is current, and the null
  process can run.
\<close>

theorem kernel_invariant_reachable:
  assumes "nextqid s0 = NPROC" "sysinit kend s0 = Some s" "block_driver rest"
    and "(kstep (unopened_rfl rf_mutex) (ram_drv rest))\<^sup>*\<^sup>* (User P s) y"
    and "settled y = Some t"
  shows "kinv {} t"
proof (rule config_ok_settled [OF _ assms(5)])
  show "config_ok y" by (rule file_close.reachable_ok [OF file_close_ram [OF assms(3)] assms(4) sysinit_config [OF assms(1,2)]])
qed

theorem kernel_invariant_reachable_witness:
  "\<exists>s t. sysinit KEND kst0 = Some s \<and> t = fst (semcreate 3 s)
     \<and> (kstep (unopened_rfl 99) (ram_drv no_disk))\<^sup>*\<^sup>* (User (\<lambda>p s. Ret s ()) s) (User (\<lambda>p s. Ret s ()) t)
     \<and> kinv {} t"
proof -
  obtain s where s: "sysinit KEND kst0 = Some s" by (rule sysinit_boot)
  have q: "nextqid kst0 = NPROC" by (simp add: kst0_def)
  have nd: "block_driver no_disk" by (simp add: block_driver_def no_disk_def)
  let ?rfl = "unopened_rfl 99" and ?drv = "ram_drv no_disk" and ?P = "\<lambda>p s. Ret s ()" and ?t = "fst (semcreate 3 s)"
  have "kstep ?rfl ?drv (User ?P s) (InCall (currpid s) (run_call ?rfl ?drv (Semcreate 3) s) ?P)"
    by (rule kstep.enter) simp
  then have "kstep ?rfl ?drv (User ?P s) (InCall (currpid s) (Ret ?t ()) ?P)" by simp
  moreover have "kstep ?rfl ?drv (InCall (currpid s) (Ret ?t ()) ?P) (User ?P ?t)" by (rule kstep.returns)
  ultimately have r: "(kstep ?rfl ?drv)\<^sup>*\<^sup>* (User ?P s) (User ?P ?t)"
    by (rule rtranclp.rtrancl_into_rtrancl [OF rtranclp.rtrancl_into_rtrancl [OF rtranclp.rtrancl_refl]])
  have "kinv {} ?t" by (rule kernel_invariant_reachable [OF q s nd r]) simp
  then show ?thesis using s r by blast
qed

text \<open>
  C2. No modelled kernel call ever loops in the kernel's queues: in no reachable configuration is a
  process in a call that stopped because a scan of a queue, of the sleeping processes or of the
  waiting processes did not end (the scans are modelled with \<open>Looping\<close> as the value of a scan that
  never ends or outruns its fuel).
\<close>

theorem kernel_never_loops:
  assumes "nextqid s0 = NPROC" "sysinit kend s0 = Some s" "block_driver rest"
    and "(kstep (unopened_rfl rf_mutex) (ram_drv rest))\<^sup>*\<^sup>* (User P s) (InCall p (Stop r t) P')"
  shows "r \<noteq> Looping"
  using file_close.reachable_ok [OF file_close_ram [OF assms(3)] assms(4) sysinit_config [OF assms(1,2)]] by simp

theorem kernel_never_loops_witness:
  "\<exists>s i t. sysinit KEND kst0 = Some s
     \<and> (kstep (unopened_rfl 99) (ram_drv no_disk))\<^sup>*\<^sup>* (User (\<lambda>p s. Ret s ()) s)
         (InCall 0 (Stop Undefined t) (\<lambda>p s. Ret s ()))
     \<and> scount (semtab t i) = INT32_MAX \<and> Undefined \<noteq> Looping"
proof -
  obtain s where s: "sysinit KEND kst0 = Some s" by (rule sysinit_boot)
  have q: "nextqid kst0 = NPROC" by (simp add: kst0_def)
  have nd: "block_driver no_disk" by (simp add: block_driver_def no_disk_def)
  let ?rfl = "unopened_rfl 99" and ?drv = "ram_drv no_disk" and ?P = "\<lambda>p s. Ret s ()"
  obtain t i where t: "semcreate INT32_MAX s = (t, i)" "\<not> isbadsem i" "sstate (semtab t i) = S_USED"
      "scount (semtab t i) = INT32_MAX" "currpid t = currpid s"
    by (rule boot_semcreate [OF s, of INT32_MAX]) simp_all
  have cur: "currpid s = 0" by (rule sysinit_kinv(2) [OF q s])
  have "kstep ?rfl ?drv (User ?P s) (InCall (currpid s) (run_call ?rfl ?drv (Semcreate INT32_MAX) s) ?P)"
    by (rule kstep.enter) simp
  then have 1: "kstep ?rfl ?drv (User ?P s) (InCall 0 (Ret t ()) ?P)" using t(1) cur by simp
  have 2: "kstep ?rfl ?drv (InCall 0 (Ret t ()) ?P) (User ?P t)" by (rule kstep.returns)
  have "kstep ?rfl ?drv (User ?P t) (InCall (currpid t) (run_call ?rfl ?drv (Signal i) t) ?P)"
    by (rule kstep.enter) simp
  then have 3: "kstep ?rfl ?drv (User ?P t) (InCall 0 (Stop Undefined t) ?P)"
    using t cur by (simp add: signal_def signal_once_def kdone_def)
  have r: "(kstep ?rfl ?drv)\<^sup>*\<^sup>* (User ?P s) (InCall 0 (Stop Undefined t) ?P)"
    by (rule rtranclp_trans [OF r_into_rtranclp [of "kstep ?rfl ?drv", OF 1]
        rtranclp_trans [OF r_into_rtranclp [of "kstep ?rfl ?drv", OF 2] r_into_rtranclp [of "kstep ?rfl ?drv", OF 3]]])
  from kernel_never_loops [OF q s nd r] show ?thesis using s r t(4) by blast
qed

section \<open>Scheduling\<close>

text \<open>
  C16. The scheduling policy: after \<^verbatim>\<open>resched\<close>, no process on the ready list is filed under a
  higher key than the process that runs. If the processor went to another process, that one was
  filed under the highest key; if the caller keeps it, its priority is above every key.
\<close>

theorem resched_highest:
  assumes k: "kinv {} s" and h: "here (resched s) = Some (t, r)" and q: "q \<in> set (kq t (readylist t))"
  shows "qkey (queuetab t q) \<le> (if r = None then qkey (queuetab t (currpid t)) else prprio (proctab t (currpid t)))"
proof (cases "prprio (proctab s (currpid s)) > firstkey s (readylist s)")
  case True
  have "resched s = Ret s ()" using True kinv_cur [OF k] kinv_nd [OF k] by (simp add: resched_def Let_def)
  then have t: "t = s" "r = Some ()" using h by simp_all
  have d: "keys_desc (queuetab s) (kq s (readylist s))" using kgoodD(1) [OF kinv_kgood [OF k]] by (simp add: kbase_def)
  have "firstkey s (readylist s) = qkey (queuetab s (hd (kq s (readylist s))))"
    using q t firstkey_view [OF kinv_kgood [OF k]] by (cases "kq s (readylist s)") (simp_all add: ready_view_def)
  moreover have "qkey (queuetab s q) \<le> qkey (queuetab s (hd (kq s (readylist s))))"
    using q t d by (cases "kq s (readylist s)") (auto simp: keys_desc_def)
  ultimately show ?thesis using True t by simp
next
  case False
  then obtain s2 where s2: "resched s = resched_switch s2" "kgood {} {} None {} True s2" "ndefers s2 = 0"
    by (rule resched_preempted [OF k, OF leI])
  obtain s' p xs where s': "resched_switch s2 = Ctxsw s' (\<lambda>s. Ret s ())" "kq s2 (readylist s2) = p # xs" "currpid s' = p"
    "readylist s' = readylist s2" "kq s' (readylist s') = xs" "\<And>i. qkey (queuetab s' i) = qkey (queuetab s2 i)"
    by (rule resched_switch_spec [OF s2(2,3)]) (rule that)
  have "keys_desc (queuetab s2) (p # xs)" using kgoodD(1) [OF s2(2)] s'(2) by (simp add: kbase_def)
  then show ?thesis using h s2(1) s' q by (auto simp: keys_desc_def)
qed

theorem resched_highest_witness:
  "\<exists>s t. kinv {} s \<and> here (resched s) = Some (t, Some ()) \<and> 0 \<in> set (kq t (readylist t))
     \<and> qkey (queuetab t 0) \<le> prprio (proctab t (currpid t))"
proof -
  obtain s where s: "kinv {} s" "run1_view (kabs s)" by (rule run1)
  have "snd (a_ret () (a_resched (kabs s))) = Some ()" "fst (a_ret () (a_resched (kabs s))) = kabs s"
    using s(2) by (simp_all add: run1_view_def a_eval)
  then obtain t where t: "here (resched s) = Some (t, Some ())" "kabs t = kabs s"
    using refines_here [OF resched_abs [OF s(1)]] by auto
  have "ready_view t = [(0, 0)]" using s(2) t(2) kabs_simps(2) [of t] by (simp add: run1_view_def)
  then have "0 \<in> set (kq t (readylist t))" by (auto simp: ready_view_def)
  then show ?thesis using resched_highest [OF s(1) t(1), of 0] s(1) t(1) by fastforce
qed

text \<open>
  C17. \<^verbatim>\<open>resume\<close> implements its abstract operation: of a suspended process, it files the process
  in the ready list behind all of its priority or higher and reschedules; it refuses any other.
\<close>

theorem resume_refines:
  assumes "kinv {} s"
  shows "refines {} (resume pid s) (a_resume pid (kabs s))"
  using assms by (rule resume_abs)

theorem resume_refines_witness:
  "\<exists>s t. kinv {} s \<and> acur (kabs s) = 1 \<and> here (resume 2 s) = Some (t, None) \<and> acur (kabs t) = 2
     \<and> aready (kabs t) = [(1, 20), (0, 0)]"
proof -
  obtain s where s: "kinv {} s" "run1_view (kabs s)" by (rule run1)
  have "snd (a_resume 2 (kabs s)) = None" "acur (fst (a_resume 2 (kabs s))) = 2"
    "aready (fst (a_resume 2 (kabs s))) = [(1, 20), (0, 0)]" "acur (kabs s) = 1"
    using s(2) by (simp_all add: run1_view_def a_eval)
  then show ?thesis using refines_here [OF resume_refines [OF s(1), of 2]] s(1) by metis
qed

text \<open>
  \<^verbatim>\<open>suspend\<close> implements its abstract operation: a ready process leaves the ready list, the
  current one gives up the processor to the first ready process, and any other is refused.
\<close>

theorem suspend_refines:
  assumes "kinv {} s"
  shows "refines {} (suspend pid s) (a_suspend pid (kabs s))"
  using assms by (rule suspend_abs)

theorem suspend_refines_sample:
  "\<exists>s t u. kinv {} s \<and> here (suspend 1 s) = Some (t, Some 20) \<and> aready (kabs t) = [(0, 0)] \<and> astate (kabs t) 1 = PR_SUSP
     \<and> here (suspend 2 s) = Some (u, None) \<and> acur (kabs u) = 1"
proof -
  obtain s where s: "kinv {} s" "run2_view (kabs s)" by (rule run2)
  have "a_suspend 1 (kabs s) = (fst (a_suspend 1 (kabs s)), Some 20)" "aready (fst (a_suspend 1 (kabs s))) = [(0, 0)]"
    "astate (fst (a_suspend 1 (kabs s))) 1 = PR_SUSP" "snd (a_suspend 2 (kabs s)) = None" "acur (fst (a_suspend 2 (kabs s))) = 1"
    using s(2) by (simp_all add: run2_view_def a_eval)
  then show ?thesis
    using refines_here [OF suspend_refines [OF s(1), of 1]] refines_here [OF suspend_refines [OF s(1), of 2]] s(1)
    by (metis snd_conv)
qed

section \<open>Semaphores\<close>

text \<open>
  C18. \<^verbatim>\<open>wait\<close> implements its abstract operation: it takes one from the count, and when the
  count was not positive the caller joins the end of the semaphore's queue and the first ready
  process runs.
\<close>

theorem wait_refines:
  assumes "kinv {} s" "currpid s \<noteq> NULLPROC"
  shows "refines {} (wait sem s) (a_wait sem (kabs s))"
  using assms by (rule wait_abs)

theorem wait_refines_witness:
  "\<exists>s t. kinv {} s \<and> acur (kabs s) = 2 \<and> here (wait 0 s) = Some (t, None) \<and> acur (kabs t) = 1
     \<and> asem (kabs t) 0 = (S_USED, - 1, [2])"
proof -
  obtain s where s: "kinv {} s" "run2_view (kabs s)" by (rule run2)
  have "currpid s \<noteq> NULLPROC" using s(2) by (simp add: run2_view_def)
  note r = refines_here [OF wait_refines [OF s(1) this, of 0]]
  have "snd (a_wait 0 (kabs s)) = None" "acur (fst (a_wait 0 (kabs s))) = 1"
    "asem (fst (a_wait 0 (kabs s))) 0 = (S_USED, - 1, [2])" "acur (kabs s) = 2"
    using s(2) by (simp_all add: run2_view_def a_eval)
  then show ?thesis using r s(1) by metis
qed

text \<open>
  C19. \<^verbatim>\<open>signal\<close> implements its abstract operation: it adds one to the count and, when processes
  wait, makes the first of the queue ready and reschedules.
\<close>

theorem signal_refines:
  assumes "kinv {} s" "scount (semtab s sem) < INT32_MAX"
  shows "refines {} (signal sem s) (a_signal sem (kabs s))"
  using assms by (rule signal_abs)

theorem signal_refines_witness:
  "\<exists>s t. kinv {} s \<and> asem (kabs s) 0 = (S_USED, - 1, [2]) \<and> here (signal 0 s) = Some (t, None) \<and> acur (kabs t) = 2
     \<and> asem (kabs t) 0 = (S_USED, 0, [])"
proof -
  obtain s where s: "kinv {} s" "run3_view (kabs s)" by (rule run3)
  have "scount (semtab s 0) < INT32_MAX" using s(2) by (simp add: run3_view_def sem_view_def isbadsem_def)
  note r = refines_here [OF signal_refines [OF s(1) this]]
  have "snd (a_signal 0 (kabs s)) = None" "acur (fst (a_signal 0 (kabs s))) = 2"
    "asem (fst (a_signal 0 (kabs s))) 0 = (S_USED, 0, [])" "asem (kabs s) 0 = (S_USED, - 1, [2])"
    using s(2) by (simp_all add: run3_view_def a_eval)
  then show ?thesis using r s(1) by metis
qed

text \<open>
  \<^verbatim>\<open>signaln\<close> implements its abstract operation: the first \<open>n\<close> waiting processes
  become ready in the order of the queue, the count goes up by \<open>n\<close>, and there is one rescheduling at
  the end, if anybody was released.
\<close>

theorem signaln_refines:
  assumes "kinv {} s" "scount (semtab s sem) + n \<le> INT32_MAX"
  shows "refines {} (signaln sem n s) (a_signaln sem n (kabs s))"
  using assms by (rule signaln_abs)

theorem signaln_refines_sample:
  "\<exists>s t. kinv {} s \<and> asem (kabs s) 0 = (S_USED, - 1, [2]) \<and> here (signaln 0 3 s) = Some (t, None) \<and> acur (kabs t) = 2
     \<and> asem (kabs t) 0 = (S_USED, 2, [])"
proof -
  obtain s where s: "kinv {} s" "run3_view (kabs s)" by (rule run3)
  have "scount (semtab s 0) + 3 \<le> INT32_MAX" using s(2) by (simp add: run3_view_def sem_view_def isbadsem_def)
  note r = refines_here [OF signaln_refines [OF s(1) this]]
  have "snd (a_signaln 0 3 (kabs s)) = None" "acur (fst (a_signaln 0 3 (kabs s))) = 2"
    "asem (fst (a_signaln 0 3 (kabs s))) 0 = (S_USED, 2, [])" "asem (kabs s) 0 = (S_USED, - 1, [2])"
    using s(2) by (simp_all add: run3_view_def a_eval a_signaln_def a_release_def a_enlist_def a_set_def)
  then show ?thesis using r s(1) by metis
qed

text \<open>
  \<^verbatim>\<open>semreset\<close> implements its abstract operation: every waiting process becomes ready, the
  queue is empty and the count is the new one.
\<close>

lemma semreset_refines:
  assumes "kinv {} s" "n \<le> INT32_MAX"
  shows "refines {} (semreset sem n s) (a_semreset sem n (kabs s))"
  using assms by (rule semreset_abs)

lemma semreset_refines_sample:
  "\<exists>s t. kinv {} s \<and> asem (kabs s) 0 = (S_USED, - 1, [2]) \<and> here (semreset 0 5 s) = Some (t, None) \<and> acur (kabs t) = 2
     \<and> asem (kabs t) 0 = (S_USED, 5, [])"
proof -
  obtain s where s: "kinv {} s" "run3_view (kabs s)" by (rule run3)
  have "(5 :: int) \<le> INT32_MAX" by simp
  note r = refines_here [OF semreset_refines [OF s(1) this, of 0]]
  have "snd (a_semreset 0 5 (kabs s)) = None" "acur (fst (a_semreset 0 5 (kabs s))) = 2"
    "asem (fst (a_semreset 0 5 (kabs s))) 0 = (S_USED, 5, [])" "asem (kabs s) 0 = (S_USED, - 1, [2])"
    using s(2) by (simp_all add: run3_view_def a_eval a_semreset_def a_release_def a_enlist_def a_set_def)
  then show ?thesis using r s(1) by metis
qed

section \<open>Delays\<close>

text \<open>
  C20. \<^verbatim>\<open>sleepms\<close> implements its abstract operation: with a positive delay the caller is filed
  with exactly that delay behind everybody due no later, all other delays are unchanged (the delta
  encoding is invisible), and the first ready process runs.
\<close>

theorem sleepms_refines:
  assumes "kinv {} s" "currpid s \<noteq> NULLPROC" "n \<le> INT32_MAX"
  shows "refines {} (sleepms n s) (a_sleep n (kabs s))"
  using assms by (rule sleepms_abs)

theorem sleepms_refines_witness:
  "\<exists>s t. kinv {} s \<and> asleep (kabs s) = [(2, 7)] \<and> here (sleepms 5 s) = Some (t, None) \<and> acur (kabs t) = 0
     \<and> asleep (kabs t) = [(1, 5), (2, 7)]"
proof -
  obtain s where s: "kinv {} s" "run4_view (kabs s)" by (rule run4)
  have "currpid s \<noteq> NULLPROC" "(5 :: int) \<le> INT32_MAX" using s(2) by (simp_all add: run4_view_def)
  note r = refines_here [OF sleepms_refines [OF s(1) this]]
  have "snd (a_sleep 5 (kabs s)) = None" "acur (fst (a_sleep 5 (kabs s))) = 0"
    "asleep (fst (a_sleep 5 (kabs s))) = [(1, 5), (2, 7)]" "asleep (kabs s) = [(2, 7)]"
    using s(2) by (simp_all add: run4_view_def a_eval)
  then show ?thesis using r s(1) by metis
qed

text \<open>
  C21. The clock interrupt's work on the sleep queue implements one abstract tick (\<open>a_ticked\<close>): when
  the first delay is positive, every delay loses one millisecond; when it is 0 already, as
  \<^verbatim>\<open>recvtime(0)\<close> files it, no delay changes in that tick. Then exactly the processes whose
  delay is 0 leave the queue and become ready, in order, with one rescheduling when there were any.
\<close>

theorem clk_tick_refines:
  assumes "kinv {} s"
  shows "refines {} (clk_sleepers s) (a_clk (kabs s))"
  using assms by (rule clk_sleepers_abs)

theorem clk_tick_refines_witness:
  "\<exists>s t. kinv {} s \<and> asleep (kabs s) = [(2, 7)] \<and> here (clk_sleepers s) = Some (t, Some ()) \<and> asleep (kabs t) = [(2, 6)]"
proof -
  obtain s where s: "kinv {} s" "run4_view (kabs s)" by (rule run4)
  note r = refines_here [OF clk_tick_refines [OF s(1)]]
  have "snd (a_clk (kabs s)) = Some ()" "asleep (fst (a_clk (kabs s))) = [(2, 6)]" "asleep (kabs s) = [(2, 7)]"
    using s(2) by (simp_all add: run4_view_def a_clk_def a_ticked_def)
  then show ?thesis using r s(1) by metis
qed

section \<open>Messages\<close>

text \<open>
  C22. \<^verbatim>\<open>send\<close> implements its abstract operation: it refuses a bad process and one with an
  unread message; otherwise the message is stored and a receiver blocked for it, with or without a
  time limit, becomes ready; its entry in the sleep queue goes, with the delays of the others
  unchanged.
\<close>

theorem send_refines:
  assumes "kinv {} s"
  shows "refines {} (send pid msg s) (a_send pid msg (kabs s))"
  using assms by (rule send_abs)

theorem send_refines_witness:
  "\<exists>s t u. kinv {} s \<and> here (send 2 77 s) = Some (t, Some OK) \<and> kinv {} t \<and> amsg (kabs t) 2 = Some 77
     \<and> here (send 2 78 t) = Some (u, Some SYSERR) \<and> kabs u = kabs t"
proof -
  obtain s where s: "kinv {} s" "run4_view (kabs s)" by (rule run4)
  have a: "snd (a_send 2 77 (kabs s)) = Some OK" "amsg (fst (a_send 2 77 (kabs s))) 2 = Some 77"
    using s(2) by (simp_all add: run4_view_def a_eval del: kabs_simps(7))
  then obtain t where t: "here (send 2 77 s) = Some (t, Some OK)" "kinv {} t" "amsg (kabs t) 2 = Some 77"
    using refines_here [OF send_refines [OF s(1), of 2 77]] a by metis
  have "a_send 2 78 (kabs t) = (kabs t, Some SYSERR)" using t(3) by (simp add: a_send_def del: kabs_simps(7))
  then obtain u where "here (send 2 78 t) = Some (u, Some SYSERR)" "kabs u = kabs t"
    using refines_here [OF send_refines [OF t(2), of 2 78]] by auto
  then show ?thesis using s(1) t by blast
qed

text \<open>
  \<^verbatim>\<open>receive\<close> implements its abstract operation: a waiting message is taken at once;
  otherwise the caller blocks and the first ready process runs.
\<close>

theorem receive_refines:
  assumes "kinv {} s" "currpid s \<noteq> NULLPROC"
  shows "refines {} (receive s) (a_receive (kabs s))"
  using assms by (rule receive_abs)

theorem receive_refines_sample:
  "\<exists>s t. kinv {} s \<and> acur (kabs s) = 1 \<and> here (receive s) = Some (t, None) \<and> acur (kabs t) = 0 \<and> astate (kabs t) 1 = PR_RECV"
proof -
  obtain s where s: "kinv {} s" "run4_view (kabs s)" by (rule run4)
  have "currpid s \<noteq> NULLPROC" using s(2) by (simp add: run4_view_def)
  note r = refines_here [OF receive_refines [OF s(1) this]]
  have "snd (a_receive (kabs s)) = None" "acur (fst (a_receive (kabs s))) = 0" "astate (fst (a_receive (kabs s))) 1 = PR_RECV"
    "acur (kabs s) = 1"
    using s(2) by (simp_all add: run4_view_def a_eval del: kabs_simps(7))
  then show ?thesis using r s(1) by metis
qed

section \<open>Memory allocation\<close>

text \<open>
  C23. \<^verbatim>\<open>getmem\<close> is a first-fit allocator: on any well-formed free list it returns the start
  of the first block that is large enough, splits off the rest, writes nothing outside the free
  memory, and fails exactly when no block fits.
\<close>

theorem getmem_first_fit:
  assumes "free_list h xs" "n \<noteq> 0" "unat n + 7 < 4294967296"
  shows "case first_fit ((unat n + 7) div 8 * 8) (blocks_of xs) of
      None \<Rightarrow> getmem n h = Some (h, PSYSERR)
    | Some (ys, b) \<Rightarrow> \<exists>h' xs' a. getmem n h = Some (h', a) \<and> unat a = b \<and> free_list h' xs' \<and> blocks_of xs' = ys
        \<and> (\<forall>c. \<not> in_free xs c \<longrightarrow> bytes h' c = bytes h c)"
  using assms by (rule getmem_refines)

theorem getmem_first_fit_witness:
  "\<exists>h xs. free_list h xs \<and> blocks_of xs = [(32768, 622584), (1048576, 15720440)]
     \<and> (\<exists>h' xs' a. getmem 100 h = Some (h', a) \<and> unat a = 32768 \<and> free_list h' xs'
         \<and> blocks_of xs' = [(32872, 622480), (1048576, 15720440)])"
proof -
  obtain h xs where h: "free_list h xs" "blocks_of xs = [(32768, 622584), (1048576, 15720440)]" by (rule heap_sample)
  have "(100 :: u32) \<noteq> 0" "unat (100 :: u32) + 7 < 4294967296" by simp_all
  from getmem_first_fit [OF h(1) this] show ?thesis using h by fastforce
qed

text \<open>
  \<^verbatim>\<open>getstk\<close> is a last-fit allocator that cuts the stack from the top end of the last block
  that is large enough and returns its highest word.
\<close>

theorem getstk_last_fit:
  assumes "free_list h xs" "n \<noteq> 0" "unat n + 7 < 4294967296"
  shows "case last_fit ((unat n + 7) div 8 * 8) (blocks_of xs) of
      None \<Rightarrow> getstk n h = Some (h, PSYSERR)
    | Some (ys, b) \<Rightarrow> \<exists>h' xs' a. getstk n h = Some (h', a) \<and> unat a = b + (unat n + 7) div 8 * 8 - 4
        \<and> free_list h' xs' \<and> blocks_of xs' = ys \<and> (\<forall>c. \<not> in_free xs c \<longrightarrow> bytes h' c = bytes h c)"
  using assms by (rule getstk_refines)

theorem getstk_last_fit_sample:
  "\<exists>h xs. free_list h xs \<and> blocks_of xs = [(32768, 622584), (1048576, 15720440)]
     \<and> (\<exists>h' xs' a. getstk 100 h = Some (h', a) \<and> unat a = 16769012 \<and> free_list h' xs'
         \<and> blocks_of xs' = [(32768, 622584), (1048576, 15720336)])"
proof -
  obtain h xs where h: "free_list h xs" "blocks_of xs = [(32768, 622584), (1048576, 15720440)]" by (rule heap_sample)
  have "(100 :: u32) \<noteq> 0" "unat (100 :: u32) + 7 < 4294967296" by simp_all
  from getstk_last_fit [OF h(1) this] show ?thesis using h by fastforce
qed

text \<open>
  C24. \<^verbatim>\<open>freemem\<close> inserts the block in address order and coalesces it with the neighbours it
  touches on either side; it refuses a block that overlaps a free one.
\<close>

theorem freemem_coalesces:
  assumes "free_list h xs" "al8 b" "b \<noteq> 0" "minheap h \<le> b" "b \<le> maxheap h"
    and "n \<noteq> 0" "unat b + (unat n + 7) div 8 * 8 < 4294967296"
  shows "case free_insert (unat b) ((unat n + 7) div 8 * 8) (blocks_of xs) of
      None \<Rightarrow> freemem b n h = Some (h, SYSERR)
    | Some ys \<Rightarrow> \<exists>h' xs'. freemem b n h = Some (h', OK) \<and> free_list h' xs' \<and> blocks_of xs' = ys
        \<and> (\<forall>c. \<not> in_free ((b, roundmb n) # xs) c \<longrightarrow> bytes h' c = bytes h c)"
  using assms by (rule freemem_refines)

theorem freemem_coalesces_witness:
  "\<exists>h xs. free_list h xs \<and> blocks_of xs = [(32768, 622584), (1048576, 15720440)]
     \<and> freemem 32776 8 h = Some (h, SYSERR)"
proof -
  obtain h xs where h: "free_list h xs" "blocks_of xs = [(32768, 622584), (1048576, 15720440)]"
    "minheap h = KEND" "maxheap h = 0x00FFFFFF" by (rule heap_sample)
  have "al8 32776" "(32776 :: u32) \<noteq> 0" "minheap h \<le> 32776" "32776 \<le> maxheap h"
    "(8 :: u32) \<noteq> 0" "unat (32776 :: u32) + (unat (8 :: u32) + 7) div 8 * 8 < 4294967296"
    by (simp_all add: al8_def h)
  from freemem_coalesces [OF h(1) this] show ?thesis using h by auto
qed

text \<open>
  Freeing what \<^verbatim>\<open>getmem\<close> returned, with the same size, gives the free list back.
\<close>

theorem getmem_freemem_roundtrip:
  assumes "free_list h xs" "n \<noteq> 0" "roundmb n \<noteq> 0"
    and "getmem n h = Some (h1, p)" "p \<noteq> PSYSERR" "minheap h \<le> p" "p \<le> maxheap h"
  shows "\<exists>h2. freemem p n h1 = Some (h2, OK) \<and> free_list h2 xs \<and> mlength0 h2 = mlength0 h
    \<and> (\<forall>c. \<not> in_free xs c \<longrightarrow> bytes h2 c = bytes h c)"
  by (rule getmem_freemem [OF assms]) blast

theorem getmem_freemem_roundtrip_sample:
  "\<exists>h xs h1 p h2. free_list h xs \<and> getmem 100 h = Some (h1, p) \<and> unat p = 32768 \<and> freemem p 100 h1 = Some (h2, OK)
     \<and> free_list h2 xs"
proof -
  obtain h xs where h: "free_list h xs" "blocks_of xs = [(32768, 622584), (1048576, 15720440)]"
    "minheap h = KEND" "maxheap h = 0x00FFFFFF" by (rule heap_sample)
  have n: "(100 :: u32) \<noteq> 0" "roundmb 100 \<noteq> 0" "unat (100 :: u32) + 7 < 4294967296" by (simp_all add: roundmb_def)
  obtain h1 p where g: "getmem 100 h = Some (h1, p)" "unat p = 32768" using getmem_refines [OF h(1) n(1,3)] h(2) by fastforce
  then have "p = 32768" by (simp add: word_unat_eq_iff)
  then have "p \<noteq> PSYSERR" "minheap h \<le> p" "p \<le> maxheap h" using h(3,4) by simp_all
  from getmem_freemem_roundtrip [OF h(1) n(1,2) g(1) this] show ?thesis using h(1) g by blast
qed

text \<open>The same for stacks: \<^verbatim>\<open>freestk\<close> undoes \<^verbatim>\<open>getstk\<close>.\<close>

lemma getstk_freestk_roundtrip:
  assumes "free_list h xs" "n \<noteq> 0" "roundmb n \<noteq> 0"
    and "getstk n h = Some (h1, p)" "p \<noteq> PSYSERR" "minheap h \<le> p - roundmb n + 4" "p - roundmb n + 4 \<le> maxheap h"
  shows "\<exists>h2. freestk p n h1 = Some (h2, OK) \<and> free_list h2 xs \<and> mlength0 h2 = mlength0 h
    \<and> (\<forall>c. \<not> in_free xs c \<longrightarrow> bytes h2 c = bytes h c)"
  by (rule getstk_freestk [OF assms]) blast

lemma getstk_freestk_roundtrip_sample:
  "\<exists>h xs h1 p h2. free_list h xs \<and> getstk 100 h = Some (h1, p) \<and> unat p = 16769012 \<and> freestk p 100 h1 = Some (h2, OK)
     \<and> free_list h2 xs"
proof -
  obtain h xs where h: "free_list h xs" "blocks_of xs = [(32768, 622584), (1048576, 15720440)]"
    "minheap h = KEND" "maxheap h = 0x00FFFFFF" by (rule heap_sample)
  have n: "(100 :: u32) \<noteq> 0" "roundmb 100 \<noteq> 0" "unat (100 :: u32) + 7 < 4294967296" by (simp_all add: roundmb_def)
  obtain h1 p where g: "getstk 100 h = Some (h1, p)" "unat p = 16769012" using getstk_refines [OF h(1) n(1,3)] h(2) by fastforce
  then have "p = 16769012" by (simp add: word_unat_eq_iff)
  then have "p \<noteq> PSYSERR" "minheap h \<le> p - roundmb 100 + 4" "p - roundmb 100 + 4 \<le> maxheap h"
    using h(3,4) by (simp_all add: roundmb_def)
  from getstk_freestk_roundtrip [OF h(1) n(1,2) g(1) this] show ?thesis using h(1) g by blast
qed

text \<open>
  C25. The size check of \<^verbatim>\<open>getmem\<close> has a hole: a request of more than 4294967288 bytes rounds
  up to 0, and the allocator hands out the address of the first free block, which stays on the free
  list with its full length, so the next request gets it again.
\<close>

theorem getmem_huge_request:
  assumes "free_list h ((a, l) # vs)" "4294967296 \<le> unat n + 7"
  shows "\<exists>h'. getmem n h = Some (h', a) \<and> free_list h' ((a, l) # vs)"
  by (rule getmem_wraps [OF assms]) blast

theorem getmem_huge_request_witness:
  "\<exists>h h' a l vs. free_list h ((a, l) # vs) \<and> unat a = 32768 \<and> getmem 4294967295 h = Some (h', a)
     \<and> free_list h' ((a, l) # vs)"
proof -
  obtain h xs where h: "free_list h xs" "blocks_of xs = [(32768, 622584), (1048576, 15720440)]" by (rule heap_sample)
  then obtain a l vs where xs: "xs = (a, l) # vs" by (cases xs) auto
  have "4294967296 \<le> unat (4294967295 :: u32) + 7" by simp
  then obtain h' where "getmem 4294967295 h = Some (h', a)" "free_list h' ((a, l) # vs)"
    using getmem_huge_request [OF h(1) [unfolded xs]] by blast
  moreover have "unat a = 32768" using h(2) xs by simp
  ultimately show ?thesis using h(1) xs by blast
qed

section \<open>Context switch and process creation\<close>

text \<open>
  C26. The two halves of \<^verbatim>\<open>ctxsw\<close> are inverse: restoring from the stack on which a process
  saved itself gives all its registers and flags back and continues at its return address, with the
  stack pointer past it.
\<close>

theorem ctxsw_save_restore:
  assumes "al4 (esp r)" "ctxsw_save r m = (m', sp)"
  shows "ctxsw_restore m' sp = r\<lparr>esp := esp r + 4, eip := rd32 m (esp r)\<rparr>"
  using assms by (rule ctxsw_roundtrip)

theorem ctxsw_save_restore_witness:
  "\<exists>m' sp. ctxsw_save (regs.make 1 2 3 4 0x8000 5 6 7 0x200 8) (\<lambda>a. 0) = (m', sp)
     \<and> ctxsw_restore m' sp = regs.make 1 2 3 4 0x8004 5 6 7 0x200 0"
proof -
  let ?r = "regs.make 1 2 3 4 0x8000 5 6 7 0x200 8"
  obtain m' sp where c: "ctxsw_save ?r (\<lambda>a. 0) = (m', sp)" by (cases "ctxsw_save ?r (\<lambda>a. 0)")
  have "al4 (esp ?r)" by (simp add: al4_def regs.make_def)
  from ctxsw_save_restore [OF this c] show ?thesis using c by (simp add: regs.make_def rd32_def)
qed

text \<open>
  C27. The stack image \<^verbatim>\<open>create\<close> builds is one \<^verbatim>\<open>ctxsw\<close> can restore: a new process
  enters its function with interrupts enabled, \<^verbatim>\<open>INITRET\<close> as the return address and its
  arguments in order above it, and the magic number stays at the stack's base.
\<close>

theorem create_stack_enters:
  assumes "al4 saddr" "length args < 1073741800" "create_stack initret funcaddr args saddr m = (m', sp)"
  shows "eip (ctxsw_restore m' sp) = funcaddr \<and> eflags (ctxsw_restore m' sp) = 0x200
    \<and> ebp (ctxsw_restore m' sp) = saddr \<and> rd32 m' (esp (ctxsw_restore m' sp)) = initret
    \<and> (\<forall>i < length args. rd32 m' (esp (ctxsw_restore m' sp) + 4 + 4 * of_nat i) = args ! i)
    \<and> rd32 m' saddr = STACKMAGIC"
  using create_stack_restore [OF assms] by blast

theorem create_stack_enters_witness:
  "\<exists>m' sp. create_stack 0x1111 0x2222 [7, 9] 0x8000 (\<lambda>a. 0) = (m', sp) \<and> eip (ctxsw_restore m' sp) = 0x2222
     \<and> rd32 m' (esp (ctxsw_restore m' sp)) = 0x1111 \<and> rd32 m' (esp (ctxsw_restore m' sp) + 4 + 4 * of_nat 1) = 9"
proof -
  obtain m' sp where c: "create_stack 0x1111 0x2222 [7, 9] 0x8000 (\<lambda>a. 0) = (m', sp)"
    by (cases "create_stack 0x1111 0x2222 [7, 9] 0x8000 (\<lambda>a. 0)")
  have "al4 0x8000" "length [7, 9 :: u32] < 1073741800" by (simp_all add: al4_def)
  from create_stack_enters [OF this c] show ?thesis using c
    by (metis One_nat_def length_Cons lessI list.size(3) nth_Cons_0 nth_Cons_Suc)
qed

text \<open>
  \<^verbatim>\<open>sysinit\<close> establishes the invariant, with the null process current and counted,
  every other process table entry and every semaphore free.
\<close>

theorem sysinit_establishes:
  assumes "nextqid s0 = NPROC" "sysinit kend s0 = Some s"
  shows "kinv {} s \<and> currpid s = NULLPROC \<and> prcount s = 1
    \<and> (\<forall>p. 0 \<le> p \<and> p < NPROC \<and> p \<noteq> NULLPROC \<longrightarrow> prstate (proctab s p) = PR_FREE)
    \<and> (\<forall>i. 0 \<le> i \<and> i < NSEM \<longrightarrow> sstate (semtab s i) = S_FREE)"
  using sysinit_kinv [OF assms] by blast

theorem sysinit_establishes_sample:
  "\<exists>s. sysinit KEND kst0 = Some s \<and> kinv {} s \<and> currpid s = NULLPROC"
proof -
  obtain s where s: "sysinit KEND kst0 = Some s" by (rule sysinit_boot)
  have "nextqid kst0 = NPROC" by (simp add: kst0_def)
  from sysinit_establishes [OF this s] show ?thesis using s by blast
qed

end
